(* ===== verification/Prelude.thy ===== *)
theory Prelude
  imports Main "HOL-Library.Word" "HOL-Library.Monad_Syntax"
begin

text \<open>
  Shared vocabulary of the development: the machine types of \<^verbatim>\<open>lib/types.h\<close>, the error
  numbers of \<^verbatim>\<open>lib/errno.h\<close>, the effect of \<^verbatim>\<open>assert\<close>/\<^verbatim>\<open>allege\<close>/\<^verbatim>\<open>panic\<close>
  (\<^verbatim>\<open>lib/root.h\<close>), the collections of rewrite rules the component proofs use, and the
  generic lemmas on lists, options and words that several components share.

  A kernel routine that can run into a failing assertion, a panic or a fault on a bad pointer
  is a function into \<open>'a option\<close>: the kernel prints a message and spins forever
  (\<^verbatim>\<open>for(;;)\<close>), so it does not return, which is the value \<open>None\<close>.  Error numbers
  are ordinary results and stay negative integers, as in the source.
\<close>

unbundle bit_operations_syntax

named_theorems errno_simps \<open>the values of the error numbers\<close>
named_theorems kernel_simps \<open>unfolding rules of the model's small accessors\<close>

subsection \<open>Machine types\<close>

type_synonym u8 = "8 word"
type_synonym u16 = "16 word"
type_synonym u32 = "32 word"

subsection \<open>Error numbers\<close>

definition EPERM :: int where [errno_simps]: "EPERM = -1"
definition ENOENT :: int where [errno_simps]: "ENOENT = -2"
definition ESRCH :: int where [errno_simps]: "ESRCH = -3"
definition EINTR :: int where [errno_simps]: "EINTR = -4"
definition EIO :: int where [errno_simps]: "EIO = -5"
definition EBADF :: int where [errno_simps]: "EBADF = -9"
definition ECHILD :: int where [errno_simps]: "ECHILD = -10"
definition ENOMEM :: int where [errno_simps]: "ENOMEM = -12"
definition EACCES :: int where [errno_simps]: "EACCES = -13"
definition EFAULT :: int where [errno_simps]: "EFAULT = -14"
definition ENOTDIR :: int where [errno_simps]: "ENOTDIR = -20"
definition EINVAL :: int where [errno_simps]: "EINVAL = -22"
definition EMFILE :: int where [errno_simps]: "EMFILE = -24"
definition ENOTTY :: int where [errno_simps]: "ENOTTY = -25"
definition ENOSPC :: int where [errno_simps]: "ENOSPC = -28"
definition ESPIPE :: int where [errno_simps]: "ESPIPE = -29"
definition EMLINK :: int where [errno_simps]: "EMLINK = -31"
definition EPIPE :: int where [errno_simps]: "EPIPE = -32"
definition ENOSYS :: int where [errno_simps]: "ENOSYS = -38"

subsection \<open>Assertions and panics\<close>

text \<open>
  \<^verbatim>\<open>assert(e)\<close> is \<^verbatim>\<open>allege(e)\<close> because \<^verbatim>\<open>DEBUG\<close> is 1 in \<^verbatim>\<open>lib/root.h\<close>.
\<close>

definition kassert :: "bool \<Rightarrow> unit option" where
  "kassert e = (if e then Some () else None)"

lemma kassert_simps [simp]:
  "kassert True = Some ()"
  "kassert False = None"
  by (simp_all add: kassert_def)

lemma kassert_eq_Some [simp]: "kassert e = Some u \<longleftrightarrow> e"
  by (simp add: kassert_def)

lemma kassert_bind_eq_Some [simp]:
  "Option.bind (kassert e) f = Some y \<longleftrightarrow> e \<and> f () = Some y"
  by (simp add: kassert_def)

lemma kassert_bind_eq_None [simp]:
  "Option.bind (kassert e) f = None \<longleftrightarrow> (e \<longrightarrow> f () = None)"
  by (simp add: kassert_def)

subsection \<open>Ranges\<close>

text \<open>\<^verbatim>\<open>between(a, b, c)\<close> of \<^verbatim>\<open>lib/math.h\<close>.\<close>

definition between :: "'a::ord \<Rightarrow> 'a \<Rightarrow> 'a \<Rightarrow> bool" where
  "between a b c \<longleftrightarrow> a \<le> b \<and> b < c"

subsection \<open>User memory\<close>

text \<open>
  A pointer argument of a system call: \<^verbatim>\<open>NULL\<close>, a pointer \<^verbatim>\<open>verr()\<close>/\<^verbatim>\<open>verw()\<close> (\<^verbatim>\<open>mm/mm.cc\<close>) refuse
  with \<^verbatim>\<open>EFAULT\<close>, or an accessible one together with what it points to.
\<close>

datatype 'a uptr = UNull | UBad | UOk 'a

definition uver :: "'a uptr \<Rightarrow> int" where
  "uver p = (case p of UOk x \<Rightarrow> 0 | _ \<Rightarrow> EFAULT)"

lemma uver_simps [simp]: "uver (UOk x) = 0" "uver UNull = EFAULT" "uver UBad = EFAULT"
  by (simp_all add: uver_def)

subsection \<open>Loops over queues\<close>

text \<open>\<^verbatim>\<open>foreach (node, queue)\<close> with a body that may halt the kernel.\<close>

primrec foldM :: "('a \<Rightarrow> 's \<Rightarrow> 's option) \<Rightarrow> 'a list \<Rightarrow> 's \<Rightarrow> 's option" where
  "foldM f [] s = Some s"
| "foldM f (x # xs) s = Option.bind (f x s) (foldM f xs)"

lemma foldM_append: "foldM f (xs @ ys) s = Option.bind (foldM f xs s) (foldM f ys)"
  by (induction xs arbitrary: s) (auto split: bind_split)

lemma foldM_invariant:
  assumes "\<And>x s. x \<in> set xs \<Longrightarrow> I s \<Longrightarrow> \<exists>s'. f x s = Some s' \<and> I s'"
    and "I s"
  shows "\<exists>s'. foldM f xs s = Some s' \<and> I s'"
  using assms
proof (induction xs arbitrary: s)
  case (Cons x xs)
  from Cons.prems(1) [of x s] Cons.prems(2) obtain s1 where "f x s = Some s1" "I s1"
    by auto
  with Cons.IH [of s1] Cons.prems(1) show ?case by auto
qed auto

lemma foldM_None:
  assumes "\<And>x s s'. I s \<Longrightarrow> f x s = Some s' \<Longrightarrow> I s'" and "\<And>s. I s \<Longrightarrow> f x s = None"
  shows "I s \<Longrightarrow> x \<in> set xs \<Longrightarrow> foldM f xs s = None"
proof (induction xs arbitrary: s)
  case (Cons y ys)
  show ?case
  proof (cases "y = x")
    case True
    with assms(2) [OF Cons.prems(1)] show ?thesis by simp
  next
    case False
    with Cons.prems(2) have "x \<in> set ys" by simp
    with Cons.IH assms(1) [OF Cons.prems(1)] show ?thesis by (cases "f y s") auto
  qed
qed simp

lemma foldM_keeps:
  assumes "\<And>x s s'. I s \<Longrightarrow> f x s = Some s' \<Longrightarrow> I s'"
  shows "I s \<Longrightarrow> foldM f xs s = Some s' \<Longrightarrow> I s'"
proof (induction xs arbitrary: s)
  case (Cons y ys)
  then show ?case using assms by (cases "f y s") auto
qed simp

subsection \<open>Lists\<close>

lemma list_single: "distinct xs \<Longrightarrow> x \<in> set xs \<Longrightarrow> (\<And>y. y \<in> set xs \<Longrightarrow> y = x) \<Longrightarrow> xs = [x]"
proof (cases xs)
  case (Cons y ys)
  assume "distinct xs" "\<And>y. y \<in> set xs \<Longrightarrow> y = x"
  with Cons show ?thesis by (cases ys) auto
qed simp

subsection \<open>Words and bits\<close>

lemma bit_unat [simp]: "bit (unat w) n = bit (w :: 'a::len word) n"
  by (simp add: bit_unsigned_iff)

lemma unat_exp2: "k < LENGTH('a) \<Longrightarrow> unat (2 ^ k :: 'a::len word) = 2 ^ k"
  using unat_of_nat [where 'a = 'a, of "2 ^ k"] by (simp add: take_bit_nat_eq_self)

lemma and_exp2_below: "(2 ^ k - 1) AND 2 ^ k = (0 :: 'a::len word)"
  by (rule bit_word_eqI)
    (auto simp: bit_and_iff bit_exp_iff bit_mask_iff simp flip: mask_eq_exp_minus_1)

lemma unat_and_not_mask: "unat (w AND NOT (2 ^ k - 1) :: 'a::len word) = unat w div 2 ^ k * 2 ^ k"
proof -
  have "unat (w AND NOT (mask k)) = push_bit k (drop_bit k (unat w))"
    by (rule bit_eqI)
      (auto simp: bit_simps not_less bit_unsigned_iff dest: bit_imp_le_length)
  then show ?thesis
    by (simp add: push_bit_eq_mult drop_bit_eq_div flip: mask_eq_exp_minus_1)
qed

lemma unat_and_mask: "unat (w AND (2 ^ k - 1) :: 'a::len word) = unat w mod 2 ^ k"
proof -
  have "unat (w AND (2 ^ k - 1)) = take_bit k (unat w)"
    by (simp only: unsigned_take_bit_eq flip: take_bit_eq_mask mask_eq_exp_minus_1)
  then show ?thesis by (simp only: take_bit_eq_mod)
qed

end
