(* ===== verification/Lib_Queue.thy ===== *)
theory Lib_Queue
  imports Prelude
begin

text \<open>
  The intrusive doubly linked circular queues of \<^verbatim>\<open>lib/queue.h\<close>.

  A node lives at an address; its two link fields \<^verbatim>\<open>next##tag\<close> and \<^verbatim>\<open>prev##tag\<close>
  are the two maps of a store of links, one store per tag.  A queue header holds the fields
  \<^verbatim>\<open>__next\<close> and \<^verbatim>\<open>__prev\<close>, and \<^verbatim>\<open>vnode()\<close> is the address at which a
  node would have exactly these two fields as its links: the header is a node of the ring, and
  a queue is named by the address of that virtual node.  \<^verbatim>\<open>NULL\<close> is address 0;
  following it faults, which the kernel does not survive.

  \<open>qlist h v xs\<close> says that the ring through \<open>v\<close> holds exactly the nodes \<open>xs\<close>, in
  order and consistently linked both ways.  Every operation is shown to act on \<open>xs\<close> as
  the corresponding list operation, which is what lets the other components model their queues
  as lists.
\<close>

subsection \<open>Links\<close>

type_synonym ptr = nat

abbreviation NULL :: ptr where "NULL \<equiv> 0"

record links =
  nextp :: "ptr \<Rightarrow> ptr"
  prevp :: "ptr \<Rightarrow> ptr"

definition getnext :: "links \<Rightarrow> ptr \<Rightarrow> ptr" where
  [kernel_simps]: "getnext h node = nextp h node"

definition getprev :: "links \<Rightarrow> ptr \<Rightarrow> ptr" where
  [kernel_simps]: "getprev h node = prevp h node"

definition setnext :: "ptr \<Rightarrow> ptr \<Rightarrow> links \<Rightarrow> links" where
  [kernel_simps]: "setnext node next h = h\<lparr>nextp := (nextp h)(node := next)\<rparr>"

definition setprev :: "ptr \<Rightarrow> ptr \<Rightarrow> links \<Rightarrow> links" where
  [kernel_simps]: "setprev node prev h = h\<lparr>prevp := (prevp h)(node := prev)\<rparr>"

definition link :: "ptr \<Rightarrow> ptr \<Rightarrow> links \<Rightarrow> links" where
  "link a b h = setprev b a (setnext a b h)"

definition unlink :: "ptr \<Rightarrow> links \<Rightarrow> links option" where
  "unlink node h = do {
     kassert (node \<noteq> NULL);
     kassert (getnext h node \<noteq> NULL \<and> getprev h node \<noteq> NULL);
     let h1 = setprev (getnext h node) (getprev h node) h;
     let h2 = setnext (getprev h1 node) (getnext h1 node) h1;
     Some (setprev node NULL (setnext node NULL h2))
   }"

subsection \<open>Queue headers\<close>

definition queue_ctor :: "ptr \<Rightarrow> links \<Rightarrow> links" where
  "queue_ctor v h = setprev v v (setnext v v h)"

definition qhead :: "links \<Rightarrow> ptr \<Rightarrow> ptr" where
  [kernel_simps]: "qhead h v = getnext h v"

definition qtail :: "links \<Rightarrow> ptr \<Rightarrow> ptr" where
  [kernel_simps]: "qtail h v = getprev h v"

definition qempty :: "links \<Rightarrow> ptr \<Rightarrow> bool" where
  "qempty h v \<longleftrightarrow> getnext h v = v"

definition head :: "links \<Rightarrow> ptr \<Rightarrow> ptr" where
  "head h v = (if qempty h v then NULL else getnext h v)"

definition tail :: "links \<Rightarrow> ptr \<Rightarrow> ptr" where
  "tail h v = (if qempty h v then NULL else getprev h v)"

text \<open>
  The loops are the \<^verbatim>\<open>foreach\<close> macro: start at the first node, follow the next links
  until the virtual node comes back.  On a broken ring they need not end, so they are partial.
\<close>

partial_function (option) count_loop :: "links \<Rightarrow> ptr \<Rightarrow> ptr \<Rightarrow> int \<Rightarrow> int option" where
  "count_loop h v node nr =
     (if node = v then Some nr else count_loop h v (getnext h node) (nr + 1))"

definition count :: "links \<Rightarrow> ptr \<Rightarrow> int option" where
  "count h v = count_loop h v (qhead h v) 0"

partial_function (option) at_loop :: "links \<Rightarrow> ptr \<Rightarrow> ptr \<Rightarrow> int \<Rightarrow> ptr option" where
  "at_loop h v node idx =
     (if node = v then Some NULL
      else if idx = 0 then Some node
      else at_loop h v (getnext h node) (idx - 1))"

definition at :: "links \<Rightarrow> ptr \<Rightarrow> int \<Rightarrow> ptr option" where
  "at h v idx = at_loop h v (qhead h v) idx"

partial_function (option) index_loop ::
  "links \<Rightarrow> ptr \<Rightarrow> ptr \<Rightarrow> ptr \<Rightarrow> int \<Rightarrow> int option" where
  "index_loop h v target node idx =
     (if node = v then Some (-1)
      else if node = target then Some idx
      else index_loop h v target (getnext h node) (idx + 1))"

definition index :: "links \<Rightarrow> ptr \<Rightarrow> ptr \<Rightarrow> int option" where
  "index h v target = index_loop h v target (qhead h v) 0"

definition enqhead :: "ptr \<Rightarrow> ptr \<Rightarrow> links \<Rightarrow> links option" where
  "enqhead v node h = do {
     kassert (node \<noteq> NULL);
     kassert (getnext h node = NULL \<and> getprev h node = NULL);
     let h1 = link node (getnext h v) h;
     Some (link v node h1)
   }"

definition enqtail :: "ptr \<Rightarrow> ptr \<Rightarrow> links \<Rightarrow> links option" where
  "enqtail v node h = do {
     kassert (node \<noteq> NULL);
     kassert (getnext h node = NULL \<and> getprev h node = NULL);
     let h1 = link (getprev h v) node h;
     Some (link node v h1)
   }"

definition deqhead :: "ptr \<Rightarrow> links \<Rightarrow> (ptr \<times> links) option" where
  "deqhead v h =
     (if qempty h v then Some (NULL, h)
      else do { h' \<leftarrow> unlink (getnext h v) h; Some (getnext h v, h') })"

definition deqtail :: "ptr \<Rightarrow> links \<Rightarrow> (ptr \<times> links) option" where
  "deqtail v h =
     (if qempty h v then Some (NULL, h)
      else do { h' \<leftarrow> unlink (getprev h v) h; Some (getprev h v, h') })"

text \<open>Splicing a whole queue \<open>q\<close> in; the source re-constructs \<open>q\<close> as an empty queue.\<close>

definition enqhead_queue :: "ptr \<Rightarrow> ptr \<Rightarrow> links \<Rightarrow> links" where
  "enqhead_queue v q h =
     (if qempty h q then h
      else let h1 = link (getprev h q) (getnext h v) h;
               h2 = link v (getnext h1 q) h1
           in queue_ctor q h2)"

definition enqtail_queue :: "ptr \<Rightarrow> ptr \<Rightarrow> links \<Rightarrow> links" where
  "enqtail_queue v q h =
     (if qempty h q then h
      else let h1 = link (getprev h v) (getnext h q) h;
               h2 = link (getprev h1 q) v h1
           in queue_ctor q h2)"

partial_function (option) insertlt_loop ::
  "(ptr \<Rightarrow> ptr \<Rightarrow> bool) \<Rightarrow> ptr \<Rightarrow> ptr \<Rightarrow> ptr \<Rightarrow> links \<Rightarrow> links option" where
  "insertlt_loop lt v newnode node h =
     (if node = v then enqtail v newnode h
      else if lt newnode node
        then Some (link newnode node (link (getprev h node) newnode h))
      else insertlt_loop lt v newnode (getnext h node) h)"

definition insertlt :: "(ptr \<Rightarrow> ptr \<Rightarrow> bool) \<Rightarrow> ptr \<Rightarrow> ptr \<Rightarrow> links \<Rightarrow> links option" where
  "insertlt lt v newnode h = insertlt_loop lt v newnode (qhead h v) h"

text \<open>
  \<^verbatim>\<open>zapall\<close> walks with \<^verbatim>\<open>foreachsafe\<close>, which reads the successor before the body
  runs; deleted nodes are collected in the order of the \<^verbatim>\<open>delete\<close> calls.
\<close>

partial_function (option) zapall_loop ::
  "ptr \<Rightarrow> ptr \<Rightarrow> ptr \<Rightarrow> links \<Rightarrow> ptr list \<Rightarrow> (links \<times> ptr list) option" where
  "zapall_loop v node nextnode h deleted =
     (if node = v then Some (h, deleted)
      else do {
        h' \<leftarrow> unlink node h;
        zapall_loop v nextnode (getnext h' nextnode) h' (deleted @ [node])
      })"

definition zapall :: "ptr \<Rightarrow> links \<Rightarrow> (links \<times> ptr list) option" where
  "zapall v h = zapall_loop v (qhead h v) (getnext h (qhead h v)) h []"

subsection \<open>The node macros of CHAIN\<close>

definition chain_prepend :: "ptr \<Rightarrow> ptr \<Rightarrow> links \<Rightarrow> links option" where
  "chain_prepend this that h = do {
     kassert (this \<noteq> NULL \<and> that \<noteq> NULL);
     kassert (getnext h this = NULL \<and> getprev h this = NULL);
     kassert (getnext h that \<noteq> NULL \<and> getprev h that \<noteq> NULL);
     let h1 = setnext this that h;
     let h2 = setprev this (getprev h1 that) h1;
     let h3 = setnext (getprev h2 this) this h2;
     Some (setprev (getnext h3 this) this h3)
   }"

definition chain_append :: "ptr \<Rightarrow> ptr \<Rightarrow> links \<Rightarrow> links option" where
  "chain_append this that h = do {
     kassert (this \<noteq> NULL \<and> that \<noteq> NULL);
     kassert (getnext h this = NULL \<and> getprev h this = NULL);
     kassert (getnext h that \<noteq> NULL \<and> getprev h that \<noteq> NULL);
     let h1 = setnext this (getnext h that) h;
     let h2 = setprev this that h1;
     let h3 = setnext (getprev h2 this) this h2;
     Some (setprev (getnext h3 this) this h3)
   }"

subsection \<open>Counted queues\<close>

text \<open>\<^verbatim>\<open>queue2_templ\<close> pairs a queue with a counter; the state is the links and the counter.\<close>

record queue2 =
  q2links :: links
  q2count :: int

definition increase :: "int \<Rightarrow> queue2 \<Rightarrow> queue2 option" where
  "increase nr q = do { kassert (q2count q \<ge> 0); Some (q\<lparr>q2count := q2count q + nr\<rparr>) }"

definition decrease :: "int \<Rightarrow> queue2 \<Rightarrow> queue2 option" where
  "decrease nr q = do {
     let q' = q\<lparr>q2count := q2count q - nr\<rparr>;
     kassert (q2count q' \<ge> 0);
     Some q' }"

definition q2_enqhead :: "ptr \<Rightarrow> ptr \<Rightarrow> queue2 \<Rightarrow> queue2 option" where
  "q2_enqhead v node q = do {
     h \<leftarrow> enqhead v node (q2links q);
     increase 1 (q\<lparr>q2links := h\<rparr>) }"

definition q2_enqtail :: "ptr \<Rightarrow> ptr \<Rightarrow> queue2 \<Rightarrow> queue2 option" where
  "q2_enqtail v node q = do {
     h \<leftarrow> enqtail v node (q2links q);
     increase 1 (q\<lparr>q2links := h\<rparr>) }"

definition q2_deqhead :: "ptr \<Rightarrow> queue2 \<Rightarrow> (ptr \<times> queue2) option" where
  "q2_deqhead v q = do {
     q' \<leftarrow> decrease 1 q;
     (node, h) \<leftarrow> deqhead v (q2links q');
     Some (node, q'\<lparr>q2links := h\<rparr>) }"

definition q2_deqtail :: "ptr \<Rightarrow> queue2 \<Rightarrow> (ptr \<times> queue2) option" where
  "q2_deqtail v q = do {
     q' \<leftarrow> decrease 1 q;
     (node, h) \<leftarrow> deqtail v (q2links q');
     Some (node, q'\<lparr>q2links := h\<rparr>) }"

definition q2_unlink :: "ptr \<Rightarrow> queue2 \<Rightarrow> queue2 option" where
  "q2_unlink node q = do {
     h \<leftarrow> unlink node (q2links q);
     increase 1 (q\<lparr>q2links := h\<rparr>) }"

definition q2_zapall :: "ptr \<Rightarrow> queue2 \<Rightarrow> (queue2 \<times> ptr list) option" where
  "q2_zapall v q = do {
     (h, deleted) \<leftarrow> zapall v (q2links q);
     Some (q\<lparr>q2links := h, q2count := 0\<rparr>, deleted) }"

text \<open>The two splices also take and return the counter of the queue that is spliced in.\<close>

definition q2_enqhead_queue :: "ptr \<Rightarrow> ptr \<Rightarrow> int \<Rightarrow> queue2 \<Rightarrow> (queue2 \<times> int) option" where
  "q2_enqhead_queue v w wcount q = do {
     q1 \<leftarrow> increase wcount (q\<lparr>q2links := enqhead_queue v w (q2links q)\<rparr>);
     Some (q1, 0) }"

definition q2_enqtail_queue :: "ptr \<Rightarrow> ptr \<Rightarrow> int \<Rightarrow> queue2 \<Rightarrow> (queue2 \<times> int) option" where
  "q2_enqtail_queue v w wcount q = do {
     q1 \<leftarrow> increase wcount (q\<lparr>q2links := enqtail_queue v w (q2links q)\<rparr>);
     Some (q1, 0) }"

definition q2_empty :: "queue2 \<Rightarrow> bool" where
  "q2_empty q \<longleftrightarrow> q2count q = 0"

subsection \<open>Rings\<close>

fun linked :: "links \<Rightarrow> ptr list \<Rightarrow> bool" where
  "linked h [] \<longleftrightarrow> True"
| "linked h [a] \<longleftrightarrow> True"
| "linked h (a # b # xs) \<longleftrightarrow> nextp h a = b \<and> prevp h b = a \<and> linked h (b # xs)"

definition qlist :: "links \<Rightarrow> ptr \<Rightarrow> ptr list \<Rightarrow> bool" where
  "qlist h v xs \<longleftrightarrow> v \<noteq> NULL \<and> NULL \<notin> set xs \<and> distinct (v # xs) \<and> linked h (v # xs @ [v])"

lemma linked_append [simp]:
  "linked h (xs @ a # b # ys) \<longleftrightarrow>
     linked h (xs @ [a]) \<and> nextp h a = b \<and> prevp h b = a \<and> linked h (b # ys)"
proof (induction xs)
  case Nil
  then show ?case by simp
next
  case (Cons x xs)
  then show ?case by (cases xs) auto
qed

lemma linked_next_upd:
  "a \<notin> set (butlast xs) \<Longrightarrow> linked (h\<lparr>nextp := (nextp h)(a := b)\<rparr>) xs = linked h xs"
  by (induction h xs rule: linked.induct) auto

lemma linked_prev_upd:
  "b \<notin> set (tl xs) \<Longrightarrow> linked (h\<lparr>prevp := (prevp h)(b := a)\<rparr>) xs = linked h xs"
  by (induction h xs rule: linked.induct) auto

lemma linked_link_frame:
  "a \<notin> set (butlast xs) \<Longrightarrow> b \<notin> set (tl xs) \<Longrightarrow> linked (link a b h) xs = linked h xs"
  using linked_next_upd [of a xs h b]
    linked_prev_upd [of b xs "h\<lparr>nextp := (nextp h)(a := b)\<rparr>" a]
  by (simp add: link_def kernel_simps)

text \<open>Joining two linked segments: the step every insertion, removal and splice is made of.\<close>

lemma linked_join:
  assumes "linked h (xs @ [a])" and "linked h (b # ys)"
    and "a \<notin> set xs" and "a \<notin> set (butlast (b # ys))"
    and "b \<notin> set (tl (xs @ [a]))" and "b \<notin> set ys"
  shows "linked (link a b h) (xs @ a # b # ys)"
proof -
  have "linked (link a b h) (xs @ [a])"
    using assms by (simp add: linked_link_frame)
  moreover have "linked (link a b h) (b # ys)"
    using assms(2,4,6) by (simp add: linked_link_frame)
  ultimately show ?thesis
    by (simp add: link_def kernel_simps)
qed


lemma linked_next_in: "linked h ys \<Longrightarrow> x \<in> set (butlast ys) \<Longrightarrow> nextp h x \<in> set (tl ys)"
  by (induction h ys rule: linked.induct) auto

lemma linked_prev_in: "linked h ys \<Longrightarrow> x \<in> set (tl ys) \<Longrightarrow> prevp h x \<in> set (butlast ys)"
  by (induction h ys rule: linked.induct) auto

text \<open>A node of a ring has both links set, so the assertions of the operations tell nodes on a
  queue from free ones.\<close>

lemma qlist_nodes:
  assumes "qlist h v xs" and "x \<in> set (v # xs)"
  shows "nextp h x \<noteq> NULL \<and> prevp h x \<noteq> NULL"
proof -
  have lk: "linked h (v # xs @ [v])" and nz: "NULL \<notin> set (v # xs)"
    using assms(1) by (auto simp: qlist_def)
  have "nextp h x \<in> set (xs @ [v])"
    using linked_next_in [OF lk, of x] assms(2) by (auto simp: butlast_append)
  moreover have "prevp h x \<in> set (v # xs)"
    using linked_prev_in [OF lk, of x] assms(2) by (auto simp: butlast_append)
  ultimately show ?thesis
    using nz by (metis Un_iff insert_iff list.set(2) set_append empty_iff empty_set)
qed

lemma qlist_head: "qlist h v xs \<Longrightarrow> nextp h v = hd (xs @ [v])"
  by (cases xs) (auto simp: qlist_def)

lemma qlist_tail:
  assumes "qlist h v xs"
  shows "prevp h v = last (v # xs)"
proof (cases xs rule: rev_cases)
  case Nil
  with assms show ?thesis by (simp add: qlist_def)
next
  case (snoc ys y)
  then have "linked h ((v # ys) @ y # v # [])"
    using assms by (simp add: qlist_def)
  with snoc show ?thesis by (simp del: append_Cons)
qed

lemma qlist_qempty: "qlist h v xs \<Longrightarrow> qempty h v \<longleftrightarrow> xs = []"
  by (cases xs) (auto simp: qempty_def kernel_simps qlist_def)

subsection \<open>Free nodes and frames\<close>

definition free_node :: "links \<Rightarrow> ptr \<Rightarrow> bool" where
  "free_node h n \<longleftrightarrow> n \<noteq> NULL \<and> nextp h n = NULL \<and> prevp h n = NULL"

definition unchanged :: "ptr set \<Rightarrow> links \<Rightarrow> links \<Rightarrow> bool" where
  "unchanged A h h' \<longleftrightarrow> (\<forall>x. x \<notin> A \<longrightarrow> nextp h' x = nextp h x \<and> prevp h' x = prevp h x)"

lemma free_node_notin: "qlist h v xs \<Longrightarrow> free_node h n \<Longrightarrow> n \<notin> set (v # xs)"
  using qlist_nodes [of h v xs n] by (auto simp: free_node_def)

lemma linked_cong:
  "(\<And>x. x \<in> set xs \<Longrightarrow> nextp h' x = nextp h x \<and> prevp h' x = prevp h x) \<Longrightarrow>
   linked h' xs = linked h xs"
  by (induction h xs rule: linked.induct) auto

lemma unchanged_qlist:
  assumes "unchanged A h h'" and "A \<inter> set (w # ys) = {}"
  shows "qlist h' w ys = qlist h w ys"
proof -
  have "linked h' (w # ys @ [w]) = linked h (w # ys @ [w])"
    by (rule linked_cong) (use assms in \<open>auto simp: unchanged_def\<close>)
  then show ?thesis by (simp add: qlist_def)
qed

lemma unchanged_free: "unchanged A h h' \<Longrightarrow> n \<notin> A \<Longrightarrow> free_node h' n = free_node h n"
  by (simp add: unchanged_def free_node_def)

lemma unchanged_link: "a \<in> A \<Longrightarrow> b \<in> A \<Longrightarrow> unchanged A h h1 \<Longrightarrow> unchanged A h (link a b h1)"
  by (auto simp: unchanged_def link_def kernel_simps)

lemma unchanged_refl [simp]: "unchanged A h h"
  by (simp add: unchanged_def)

lemma unchanged_trans:
  "unchanged A h h1 \<Longrightarrow> unchanged B h1 h2 \<Longrightarrow> unchanged (A \<union> B) h h2"
  by (simp add: unchanged_def)

lemma link_eqs [simp]:
  "nextp (link a b h) x = (if x = a then b else nextp h x)"
  "prevp (link a b h) x = (if x = b then a else prevp h x)"
  by (simp_all add: link_def kernel_simps)

subsection \<open>Insertion\<close>

text \<open>A ring seen from one of its gaps: the segment \<open>ps @ [L]\<close> before it, headed by the virtual
  node, and the segment \<open>R # qs\<close> after it, ended by the virtual node.\<close>

lemma qlist_gap:
  assumes q: "qlist h v (as @ bs)"
  obtains ps L R qs where "v # as = ps @ [L]" and "bs @ [v] = R # qs"
    and "L = last (v # as)" and "R = hd (bs @ [v])"
    and "linked h (ps @ [L])" and "linked h (R # qs)" and "nextp h L = R" and "prevp h R = L"
    and "L \<notin> set ps" and "R \<notin> set qs"
    and "set ps \<union> {L} = insert v (set as)" and "{R} \<union> set qs = insert v (set bs)"
    and "tl (ps @ [L]) = as" and "butlast (R # qs) = bs"
proof -
  obtain ps L where ps: "v # as = ps @ [L]"
    by (metis append_butlast_last_id list.distinct(1))
  obtain R qs where qs: "bs @ [v] = R # qs"
    by (cases "bs @ [v]") auto
  have eq: "(v # as) @ (bs @ [v]) = ps @ L # R # qs"
    by (simp only: ps qs) simp
  have ring: "linked h (ps @ L # R # qs)"
    using q eq by (simp add: qlist_def)
  have d: "distinct (v # as)" "distinct (bs @ [v])"
    using q by (auto simp: qlist_def)
  have "distinct (ps @ [L])" "distinct (R # qs)"
    using d ps qs by metis+
  moreover have "set (ps @ [L]) = set (v # as)" "set (R # qs) = set (bs @ [v])"
    using ps qs by metis+
  moreover have "tl (ps @ [L]) = as" "butlast (R # qs) = bs"
    using ps qs by (metis list.sel(3), metis butlast_snoc)
  moreover have "L = last (v # as)" "R = hd (bs @ [v])"
    using ps qs by (metis last_snoc, metis list.sel(1))
  ultimately show thesis
    using ring by (intro that [OF ps qs]) auto
qed

lemma qlist_disj: "qlist h v (as @ bs) \<Longrightarrow> set as \<inter> set bs = {} \<and> v \<notin> set as \<and> v \<notin> set bs"
  by (auto simp: qlist_def)

lemma qlist_insert:
  assumes q: "qlist h v (as @ bs)" and n: "n \<notin> set (v # as @ bs)" "n \<noteq> NULL"
    and L: "L = last (v # as)" and R: "R = hd (bs @ [v])"
  shows "qlist (link L n (link n R h)) v (as @ n # bs)"
    and "qlist (link n R (link L n h)) v (as @ n # bs)"
proof -
  from q obtain ps L' R' qs where gap': "v # as = ps @ [L']" "bs @ [v] = R' # qs"
    and L': "L' = last (v # as)" and R': "R' = hd (bs @ [v])"
    and lk': "linked h (ps @ [L'])" "linked h (R' # qs)" "nextp h L' = R'" "prevp h R' = L'"
    and d': "L' \<notin> set ps" "R' \<notin> set qs"
    and sets': "set ps \<union> {L'} = insert v (set as)" "{R'} \<union> set qs = insert v (set bs)"
    and ends': "tl (ps @ [L']) = as" "butlast (R' # qs) = bs"
    by (rule qlist_gap)
  from L' R' have "L' = L" "R' = R" by (simp_all only: L R)
  note gap = gap' [unfolded this] and lk = lk' [unfolded this] and d = d' [unfolded this]
    and sets = sets' [unfolded this] and ends = ends' [unfolded this]
  note disj = qlist_disj [OF q]
  have nn: "n \<notin> set (ps @ [L])" "n \<notin> set (R # qs)" "n \<notin> set as" "n \<notin> set bs" "n \<noteq> v"
    using n sets by auto
  have in_ends: "R \<notin> set as" "L \<notin> set bs"
    using sets disj by auto
  have "linked (link n R h) ([] @ n # R # qs)"
    by (rule linked_join) (use lk nn ends d in auto)
  moreover have "linked (link n R h) (ps @ [L])"
    using lk nn ends in_ends by (subst linked_link_frame) auto
  ultimately have 1: "linked (link L n (link n R h)) (ps @ L # n # (R # qs))"
    by (intro linked_join) (use nn d ends in_ends in auto)
  have "linked (link L n h) (ps @ L # n # [])"
    by (rule linked_join) (use lk nn d ends in auto)
  moreover have "linked (link L n h) (R # qs)"
    using lk nn ends in_ends by (subst linked_link_frame) auto
  ultimately have 2: "linked (link n R (link L n h)) ((ps @ [L]) @ n # R # qs)"
    by (intro linked_join; cases ps) (use nn d ends in_ends in auto)
  have "(v # as) @ n # (bs @ [v]) = ps @ L # n # R # qs"
    by (simp only: gap) simp
  then show "qlist (link L n (link n R h)) v (as @ n # bs)"
    "qlist (link n R (link L n h)) v (as @ n # bs)"
    using 1 2 q n by (auto simp: qlist_def)
qed

lemma enqtail_refines:
  assumes "qlist h v xs" and "free_node h n"
  shows "\<exists>h'. enqtail v n h = Some h' \<and> qlist h' v (xs @ [n]) \<and>
    unchanged (insert n (set (v # xs))) h h'"
proof -
  have n: "n \<notin> set (v # xs)" "n \<noteq> NULL"
    using free_node_notin [OF assms] assms(2) by (auto simp: free_node_def)
  have L: "prevp h v = last (v # xs)"
    by (rule qlist_tail) fact
  have "qlist (link n v (link (prevp h v) n h)) v (xs @ n # [])"
    by (rule qlist_insert(2) [where bs = "[]"]) (use assms n L in auto)
  moreover have "unchanged (insert n (set (v # xs))) h (link n v (link (prevp h v) n h))"
    unfolding L by (intro unchanged_link) auto
  ultimately show ?thesis
    using assms(2) by (simp add: enqtail_def free_node_def kernel_simps)
qed

lemma enqhead_refines:
  assumes "qlist h v xs" and "free_node h n"
  shows "\<exists>h'. enqhead v n h = Some h' \<and> qlist h' v (n # xs) \<and>
    unchanged (insert n (set (v # xs))) h h'"
proof -
  have n: "n \<notin> set (v # xs)" "n \<noteq> NULL"
    using free_node_notin [OF assms] assms(2) by (auto simp: free_node_def)
  have R: "nextp h v = hd (xs @ [v])"
    by (rule qlist_head) fact
  then have R': "nextp h v \<in> set (v # xs)"
    by (cases xs) auto
  have "qlist (link v n (link n (nextp h v) h)) v ([] @ n # xs)"
    by (rule qlist_insert(1) [where as = "[]"]) (use assms n R in auto)
  moreover have "unchanged (insert n (set (v # xs))) h (link v n (link n (nextp h v) h))"
    using R' by (intro unchanged_link) auto
  ultimately show ?thesis
    using assms(2) by (simp add: enqhead_def free_node_def kernel_simps)
qed

text \<open>The operations succeed on free nodes only: their assertions are exactly that.\<close>

lemma enqtail_SomeD: "enqtail v n h = Some h' \<Longrightarrow> free_node h n"
  by (auto simp: enqtail_def free_node_def kernel_simps)

lemma enqhead_SomeD: "enqhead v n h = Some h' \<Longrightarrow> free_node h n"
  by (auto simp: enqhead_def free_node_def kernel_simps)

subsection \<open>Removal\<close>

lemma unlink_eq:
  assumes "qlist h v (as @ n # bs)"
  shows "unlink n h = Some (setprev n NULL (setnext n NULL
    (link (last (v # as)) (hd (bs @ [v])) h)))"
proof -
  from assms have q: "qlist h v ((as @ [n]) @ bs)" by simp
  have "nextp h n = hd (bs @ [v])"
    using q by (rule qlist_gap) simp
  moreover have "prevp h n = last (v # as)"
    using assms by (rule qlist_gap) simp
  moreover have "n \<noteq> NULL" and "nextp h n \<noteq> NULL \<and> prevp h n \<noteq> NULL"
    and "n \<notin> set as" "n \<notin> set bs" "n \<noteq> v"
    using qlist_nodes [OF assms, of n] assms by (auto simp: qlist_def)
  moreover have "last (v # as) \<noteq> n"
    using \<open>n \<notin> set as\<close> \<open>n \<noteq> v\<close> last_in_set [of as] by auto
  moreover have "hd (bs @ [v]) \<noteq> n"
    using \<open>n \<notin> set bs\<close> \<open>n \<noteq> v\<close> by (cases bs) auto
  ultimately show ?thesis
    by (simp add: unlink_def link_def kernel_simps Let_def)
qed

lemma unlink_refines:
  assumes "qlist h v (as @ n # bs)"
  shows "\<exists>h'. unlink n h = Some h' \<and> qlist h' v (as @ bs) \<and> free_node h' n \<and>
    unchanged (set (v # as @ n # bs)) h h'"
proof -
  define L where "L = last (v # as)"
  define R where "R = hd (bs @ [v])"
  have q: "qlist h v ((as @ [n]) @ bs)" using assms by simp
  have n: "n \<notin> set (v # as)" "n \<notin> set (v # bs)" "n \<noteq> NULL"
    and disj: "set (v # as) \<inter> set bs = {}" "v \<notin> set as" "v \<notin> set bs"
    using assms by (auto simp: qlist_def)
  obtain ps where ps: "v # as = ps @ [L]" "linked h (ps @ [L])" "L \<notin> set ps"
    "set ps \<union> {L} = insert v (set as)" "tl (ps @ [L]) = as"
    using assms unfolding L_def by (rule qlist_gap) blast
  obtain qs where qs: "bs @ [v] = R # qs" "linked h (R # qs)" "R \<notin> set qs"
    "{R} \<union> set qs = insert v (set bs)" "butlast (R # qs) = bs"
    using q unfolding R_def by (rule qlist_gap) metis
  have ends: "L \<in> set (v # as)" "R \<in> set (v # bs)"
    using ps(4) qs(4) by auto
  have "linked (link L R h) (ps @ L # R # qs)"
    by (rule linked_join) (use ps(2-) qs(2-) ends disj in auto)
  then have "linked (link L R h) ((v # as) @ (bs @ [v]))"
    by (simp only: ps(1) qs(1) append_assoc append_Cons append_Nil)
  then have "linked (setprev n NULL (setnext n NULL (link L R h))) (v # (as @ bs) @ [v])"
    using n by (subst linked_cong [where h = "link L R h"]) (auto simp: kernel_simps)
  then show ?thesis
    using assms n ends
    by (auto simp: unlink_eq [OF assms, folded L_def R_def] qlist_def free_node_def
        unchanged_def kernel_simps)
qed

lemma deqhead_refines:
  assumes "qlist h v (x # xs)"
  shows "\<exists>h'. deqhead v h = Some (x, h') \<and> qlist h' v xs \<and> free_node h' x \<and>
    unchanged (set (v # x # xs)) h h'"
  using unlink_refines [of h v "[]" x xs] qlist_qempty [OF assms] qlist_head [OF assms] assms
  by (auto simp: deqhead_def kernel_simps)

lemma deqtail_refines:
  assumes "qlist h v (xs @ [x])"
  shows "\<exists>h'. deqtail v h = Some (x, h') \<and> qlist h' v xs \<and> free_node h' x \<and>
    unchanged (set (v # xs @ [x])) h h'"
  using unlink_refines [of h v xs x "[]"] qlist_qempty [OF assms] qlist_tail [OF assms] assms
  by (auto simp: deqtail_def kernel_simps)

lemma deq_empty:
  assumes "qlist h v []"
  shows "deqhead v h = Some (NULL, h)" and "deqtail v h = Some (NULL, h)"
  using qlist_qempty [OF assms] by (simp_all add: deqhead_def deqtail_def)

subsection \<open>Walking\<close>

lemma count_loop_eq:
  "linked h (ys @ [v]) \<Longrightarrow> v \<notin> set ys \<Longrightarrow>
   count_loop h v (hd (ys @ [v])) n = Some (n + int (length ys))"
proof (induction ys arbitrary: n)
  case Nil
  then show ?case by (simp add: count_loop.simps)
next
  case (Cons y ys)
  then show ?case
    by (cases ys) (auto simp: count_loop.simps [of h v y] kernel_simps algebra_simps)
qed

lemma qlist_linked: "qlist h v xs \<Longrightarrow> linked h (xs @ [v]) \<and> v \<notin> set xs"
  by (cases xs) (auto simp: qlist_def)

lemma count_refines: "qlist h v xs \<Longrightarrow> count h v = Some (int (length xs))"
  using count_loop_eq [of h xs v 0] qlist_linked [of h v xs] qlist_head [of h v xs]
  by (simp add: count_def kernel_simps)

lemma at_loop_eq:
  "linked h (ys @ [v]) \<Longrightarrow> v \<notin> set ys \<Longrightarrow> at_loop h v (hd (ys @ [v])) idx =
     Some (if 0 \<le> idx \<and> nat idx < length ys then ys ! nat idx else NULL)"
proof (induction ys arbitrary: idx)
  case Nil
  then show ?case by (simp add: at_loop.simps)
next
  case (Cons y ys)
  have IH: "at_loop h v (hd (ys @ [v])) (idx - 1) =
     Some (if 1 \<le> idx \<and> nat (idx - 1) < length ys then ys ! nat (idx - 1) else NULL)"
    using Cons by (cases ys) auto
  have "nextp h y = hd (ys @ [v])" "y \<noteq> v"
    using Cons.prems by (cases ys; simp)+
  then show ?case
    using IH by (auto simp: at_loop.simps [of h v y] kernel_simps nth_Cons' nat_diff_distrib)
qed

lemma at_refines:
  "qlist h v xs \<Longrightarrow>
   at h v idx = Some (if 0 \<le> idx \<and> nat idx < length xs then xs ! nat idx else NULL)"
  using at_loop_eq [of h xs v idx] qlist_linked [of h v xs] qlist_head [of h v xs]
  by (simp add: at_def kernel_simps)

lemma index_loop_eq:
  "linked h (ys @ [v]) \<Longrightarrow> v \<notin> set ys \<Longrightarrow> index_loop h v t (hd (ys @ [v])) idx =
     Some (if t \<in> set ys then idx + int (length (takeWhile ((\<noteq>) t) ys)) else -1)"
proof (induction ys arbitrary: idx)
  case Nil
  then show ?case by (simp add: index_loop.simps)
next
  case (Cons y ys)
  have IH: "index_loop h v t (hd (ys @ [v])) (idx + 1) =
     Some (if t \<in> set ys then idx + 1 + int (length (takeWhile ((\<noteq>) t) ys)) else -1)"
    using Cons by (cases ys) auto
  have "nextp h y = hd (ys @ [v])" "y \<noteq> v"
    using Cons.prems by (cases ys; simp)+
  then show ?case
    using IH by (auto simp: index_loop.simps [of h v t y] kernel_simps)
qed

lemma index_refines:
  "qlist h v xs \<Longrightarrow>
   index h v t = Some (if t \<in> set xs then int (length (takeWhile ((\<noteq>) t) xs)) else -1)"
  using index_loop_eq [of h xs v t 0] qlist_linked [of h v xs] qlist_head [of h v xs]
  by (simp add: index_def kernel_simps)

subsection \<open>Ordered insertion\<close>

fun insort_lt :: "('a \<Rightarrow> 'a \<Rightarrow> bool) \<Rightarrow> 'a \<Rightarrow> 'a list \<Rightarrow> 'a list" where
  "insort_lt lt n [] = [n]"
| "insort_lt lt n (x # xs) = (if lt n x then n # x # xs else x # insort_lt lt n xs)"

lemma insertlt_loop_eq:
  assumes "qlist h v (as @ ys)" and "free_node h n"
  shows "\<exists>h'. insertlt_loop lt v n (hd (ys @ [v])) h = Some h' \<and>
    qlist h' v (as @ insort_lt lt n ys)"
  using assms(1)
proof (induction ys arbitrary: as)
  case Nil
  then show ?case
    using enqtail_refines [of h v as n] assms(2) by (auto simp: insertlt_loop.simps)
next
  case (Cons y ys)
  have n: "n \<notin> set (v # as @ y # ys)" "n \<noteq> NULL"
    using free_node_notin [OF Cons.prems assms(2)] assms(2) by (auto simp: free_node_def)
  have prev: "prevp h y = last (v # as)"
    using Cons.prems by (rule qlist_gap) simp
  have "y \<noteq> v"
    using Cons.prems by (auto simp: qlist_def)
  show ?case
  proof (cases "lt n y")
    case True
    have "qlist (link n y (link (prevp h y) n h)) v (as @ n # y # ys)"
      by (rule qlist_insert(2)) (use Cons.prems n prev in auto)
    with True \<open>y \<noteq> v\<close> show ?thesis
      by (simp add: insertlt_loop.simps [of lt v n y] kernel_simps)
  next
    case False
    have "qlist h v ((as @ [y]) @ ys)" using Cons.prems by simp
    then have "nextp h y = hd (ys @ [v])" by (rule qlist_gap) simp
    with False \<open>y \<noteq> v\<close> Cons.IH [OF \<open>qlist h v ((as @ [y]) @ ys)\<close>] show ?thesis
      by (simp add: insertlt_loop.simps [of lt v n y] kernel_simps)
  qed
qed

lemma insertlt_refines:
  assumes "qlist h v xs" and "free_node h n"
  shows "\<exists>h'. insertlt lt v n h = Some h' \<and> qlist h' v (insort_lt lt n xs)"
  using insertlt_loop_eq [of h v "[]" xs n lt] qlist_head [OF assms(1)] assms
  by (simp add: insertlt_def kernel_simps)

lemma set_insort_lt [simp]: "set (insort_lt lt n xs) = insert n (set xs)"
  by (induction xs) auto

lemma sorted_insort_lt:
  fixes key :: "'a \<Rightarrow> 'k :: linorder"
  shows "sorted (map key xs) \<Longrightarrow>
    sorted (map key (insort_lt (\<lambda>x y. key x < key y) n xs))"
  by (induction xs) (auto simp: not_less)

subsection \<open>Splicing and clearing\<close>

lemma linked_appendD: "linked h (xs @ ys) \<Longrightarrow> linked h xs \<and> linked h ys"
proof (induction xs)
  case (Cons x xs)
  then show ?case by (cases xs; cases ys) auto
qed simp

lemma qlist_segments: "qlist h v xs \<Longrightarrow> linked h (v # xs) \<and> linked h xs"
  using linked_appendD [of h "v # xs" "[v]"] linked_appendD [of h "[v]" xs]
  by (simp add: qlist_def)

lemma queue_ctor_qlist: "v \<noteq> NULL \<Longrightarrow> qlist (queue_ctor v h) v []"
  by (simp add: qlist_def queue_ctor_def kernel_simps)

lemma enqtail_queue_refines:
  assumes v: "qlist h v xs" and q: "qlist h q ys" and disj: "set (v # xs) \<inter> set (q # ys) = {}"
  shows "qlist (enqtail_queue v q h) v (xs @ ys) \<and> qlist (enqtail_queue v q h) q []"
proof (cases "ys = []")
  case True
  with assms show ?thesis by (simp add: enqtail_queue_def qlist_qempty)
next
  case False
  then obtain b bs where b: "ys = b # bs" by (cases ys) auto
  define L where "L = last (v # xs)"
  obtain cs c where c: "ys = cs @ [c]" using False by (cases ys rule: rev_cases) auto
  obtain ps where ps: "v # xs = ps @ [L]"
    unfolding L_def by (metis append_butlast_last_id list.distinct(1))
  have d: "distinct (v # xs)" "distinct (q # ys)"
    using v q by (auto simp: qlist_def)
  have lv: "linked h (ps @ [L])" and lq: "linked h (b # bs)"
    using qlist_segments [OF v] qlist_segments [OF q] ps b by simp_all
  let ?h1 = "link L b h"
  have sets: "set (ps @ [L]) = set (v # xs)" "tl (ps @ [L]) = xs"
    using ps by (metis, metis list.sel(3))
  have L_in: "L \<in> set (v # xs)" and "L \<notin> set ps"
    using sets(1) d(1) unfolding ps by auto
  have "b \<notin> set (tl (ps @ [L]))" and "L \<notin> set (butlast (b # bs))" and "b \<notin> set bs"
    using sets(2) disj d L_in b by (auto dest: in_set_butlastD split: if_splits)
  with lv lq \<open>L \<notin> set ps\<close> have "linked ?h1 (ps @ L # b # bs)"
    by (intro linked_join)
  moreover have "ps @ L # b # bs = (v # xs @ cs) @ [c]"
    using ps b c by (metis append_Cons append_Nil append_assoc)
  ultimately have "linked ?h1 ((v # xs @ cs) @ [c])"
    by (simp only:)
  then have 1: "linked (link c v ?h1) ((v # xs @ cs) @ c # v # [])"
    by (rule linked_join) (use d disj c in auto)
  have "qlist (queue_ctor q (link c v ?h1)) v (xs @ ys)"
    using 1 v q disj c
    by (subst unchanged_qlist [where A = "{q}" and h = "link c v ?h1"])
      (auto simp: qlist_def unchanged_def queue_ctor_def kernel_simps)
  moreover have "prevp h q = c" using qlist_tail [OF q] c by simp
  then have "enqtail_queue v q h = queue_ctor q (link c v ?h1)"
    using qlist_qempty [OF q] qlist_head [OF q] qlist_tail [OF v, folded L_def] b d(2)
    by (simp add: enqtail_queue_def kernel_simps)
  ultimately show ?thesis
    using q queue_ctor_qlist [of q "link c v ?h1"] by (simp add: qlist_def)
qed

lemma enqhead_queue_refines:
  assumes v: "qlist h v xs" and q: "qlist h q ys" and disj: "set (v # xs) \<inter> set (q # ys) = {}"
  shows "qlist (enqhead_queue v q h) v (ys @ xs) \<and> qlist (enqhead_queue v q h) q []"
proof (cases "ys = []")
  case True
  with assms show ?thesis by (simp add: enqhead_queue_def qlist_qempty)
next
  case False
  then obtain cs c where c: "ys = cs @ [c]" by (cases ys rule: rev_cases) auto
  obtain b bs where b: "ys = b # bs" using False by (cases ys) auto
  define R where "R = hd (xs @ [v])"
  obtain qs where qs: "xs @ [v] = R # qs"
    unfolding R_def by (cases xs) auto
  have d: "distinct (v # xs)" "distinct (q # ys)"
    using v q by (auto simp: qlist_def)
  have lv: "linked h (R # qs)" and lq: "linked h (cs @ [c])"
    using qlist_linked [OF v] qlist_segments [OF q] qs c by simp_all
  let ?h1 = "link c R h"
  have R_in: "R \<in> set (v # xs)" and "R \<notin> set qs" and "butlast (R # qs) = xs"
    using qs d(1) by (cases xs; auto)+
  have "R \<notin> set (tl (cs @ [c]))" "c \<notin> set (butlast (R # qs))" "c \<notin> set cs"
    using disj d R_in c \<open>butlast (R # qs) = xs\<close> by (cases cs; auto)+
  with lv lq \<open>R \<notin> set qs\<close> have "linked ?h1 (cs @ c # R # qs)"
    by (intro linked_join)
  moreover have "cs @ c # R # qs = b # bs @ xs @ [v]"
    using qs b c by (metis append_Cons append_Nil append_assoc)
  ultimately have "linked ?h1 (b # bs @ xs @ [v])"
    by (simp only:)
  then have 1: "linked (link v b ?h1) ([] @ v # b # (bs @ xs @ [v]))"
    by (intro linked_join) (use d disj b in \<open>auto simp: butlast_append\<close>)
  have 2: "qlist (queue_ctor q (link v b ?h1)) v (ys @ xs)"
    using 1 v q disj b
    by (subst unchanged_qlist [where A = "{q}" and h = "link v b ?h1"])
      (auto simp: qlist_def unchanged_def queue_ctor_def kernel_simps)
  have "prevp h q = c" "q \<noteq> c" using qlist_tail [OF q] d(2) c by simp_all
  then have "enqhead_queue v q h = queue_ctor q (link v b ?h1)"
    using qlist_qempty [OF q] qlist_head [OF q] qlist_head [OF v] b
    by (simp add: enqhead_queue_def kernel_simps flip: R_def)
  with 2 show ?thesis
    using q queue_ctor_qlist [of q "link v b ?h1"] by (simp add: qlist_def)
qed

lemma zapall_loop_eq:
  assumes "qlist h v ys"
  shows "\<exists>h'. zapall_loop v (hd (ys @ [v])) (nextp h (hd (ys @ [v]))) h del = Some (h', del @ ys) \<and>
    qlist h' v [] \<and> unchanged (set (v # ys)) h h' \<and> (\<forall>y \<in> set ys. free_node h' y)"
  using assms
proof (induction ys arbitrary: h del)
  case Nil
  then show ?case by (simp add: zapall_loop.simps)
next
  case (Cons y ys)
  obtain h1 where h1: "unlink y h = Some h1" "qlist h1 v ys" "free_node h1 y"
    "unchanged (set (v # y # ys)) h h1"
    using unlink_refines [of h v "[]" y ys] Cons.prems by auto
  obtain h' where h': "zapall_loop v (hd (ys @ [v])) (nextp h1 (hd (ys @ [v]))) h1 (del @ [y]) =
      Some (h', (del @ [y]) @ ys)" "qlist h' v []" "unchanged (set (v # ys)) h1 h'"
      "\<forall>z \<in> set ys. free_node h' z"
    using Cons.IH [OF h1(2), of "del @ [y]"] by blast
  have "nextp h y = hd (ys @ [v])" and "y \<notin> set (v # ys)"
    using Cons.prems by (cases ys; auto simp: qlist_def)+
  moreover have "free_node h' y"
    using unchanged_free [OF h'(3) \<open>y \<notin> set (v # ys)\<close>] h1(3) by simp
  ultimately show ?case
    using h1(1) h' unchanged_trans [OF h1(4) h'(3)]
    by (simp add: zapall_loop.simps [of v y] kernel_simps insert_absorb2 Un_absorb2 subset_insertI2)
qed

lemma zapall_refines:
  assumes "qlist h v xs"
  shows "\<exists>h'. zapall v h = Some (h', xs) \<and> qlist h' v [] \<and> unchanged (set (v # xs)) h h' \<and>
    (\<forall>x \<in> set xs. free_node h' x)"
  using zapall_loop_eq [OF assms, of "[]"] qlist_head [OF assms]
  by (simp add: zapall_def kernel_simps)

subsection \<open>The node macros\<close>

lemma chain_prepend_refines:
  assumes "qlist h v (as @ x # bs)" and "free_node h n"
  shows "\<exists>h'. chain_prepend n x h = Some h' \<and> qlist h' v (as @ n # x # bs)"
proof -
  have n: "n \<notin> set (v # as @ x # bs)" "n \<noteq> NULL"
    using free_node_notin [OF assms] assms(2) by (auto simp: free_node_def)
  have prev: "prevp h x = last (v # as)"
    using assms(1) by (rule qlist_gap) simp
  have "qlist (link (prevp h x) n (link n x h)) v (as @ n # x # bs)"
    by (rule qlist_insert(1)) (use assms n prev in auto)
  moreover have "n \<noteq> prevp h x" "x \<noteq> NULL"
    using prev n last_in_set [of "v # as"] assms(1) by (auto simp: qlist_def)
  then have "chain_prepend n x h = Some (link (prevp h x) n (link n x h))"
    using qlist_nodes [OF assms(1), of x] assms(2) n
    by (auto simp: chain_prepend_def free_node_def link_def kernel_simps Let_def fun_upd_twist)
  ultimately show ?thesis by simp
qed

lemma chain_append_refines:
  assumes "qlist h v (as @ x # bs)" and "free_node h n"
  shows "\<exists>h'. chain_append n x h = Some h' \<and> qlist h' v (as @ x # n # bs)"
proof -
  have n: "n \<notin> set (v # as @ x # bs)" "n \<noteq> NULL"
    using free_node_notin [OF assms] assms(2) by (auto simp: free_node_def)
  have q: "qlist h v ((as @ [x]) @ bs)" using assms by simp
  have nxt: "nextp h x = hd (bs @ [v])"
    using q by (rule qlist_gap) simp
  then have "qlist (link n (nextp h x) (link x n h)) v ((as @ [x]) @ n # bs)"
    by (intro qlist_insert(2) [OF q]) (use n in auto)
  moreover have "n \<noteq> nextp h x" "x \<noteq> NULL"
    using nxt n assms(1) by (cases bs; auto simp: qlist_def)+
  then have "chain_append n x h = Some (link n (nextp h x) (link x n h))"
    using qlist_nodes [OF assms(1), of x] assms(2) n
    by (auto simp: chain_append_def free_node_def link_def kernel_simps Let_def fun_upd_twist)
  ultimately show ?thesis by simp
qed

subsection \<open>Counted queues agree with their counter\<close>

definition q2list :: "queue2 \<Rightarrow> ptr \<Rightarrow> ptr list \<Rightarrow> bool" where
  "q2list q v xs \<longleftrightarrow> qlist (q2links q) v xs \<and> q2count q = int (length xs)"

lemma q2_enq_refines:
  assumes "q2list q v xs" and "free_node (q2links q) n"
  shows "\<exists>q'. q2_enqtail v n q = Some q' \<and> q2list q' v (xs @ [n])"
    and "\<exists>q'. q2_enqhead v n q = Some q' \<and> q2list q' v (n # xs)"
  using enqtail_refines [of "q2links q" v xs n] enqhead_refines [of "q2links q" v xs n] assms
  by (auto simp: q2list_def q2_enqtail_def q2_enqhead_def increase_def)

lemma q2_deq_refines:
  "q2list q v (x # xs) \<Longrightarrow> \<exists>q'. q2_deqhead v q = Some (x, q') \<and> q2list q' v xs"
  "q2list q v (xs @ [x]) \<Longrightarrow> \<exists>q'. q2_deqtail v q = Some (x, q') \<and> q2list q' v xs"
  using deqhead_refines [of "q2links q" v x xs] deqtail_refines [of "q2links q" v xs x]
  by (auto simp: q2list_def q2_deqhead_def q2_deqtail_def decrease_def)

lemma q2_empty_refines: "q2list q v xs \<Longrightarrow> q2_empty q \<longleftrightarrow> xs = []"
  by (simp add: q2list_def q2_empty_def)

lemma q2_splice_refines:
  assumes "q2list q v xs" and "qlist (q2links q) w ys" and "set (v # xs) \<inter> set (w # ys) = {}"
  shows "\<exists>q'. q2_enqtail_queue v w (int (length ys)) q = Some (q', 0) \<and> q2list q' v (xs @ ys) \<and>
      qlist (q2links q') w []"
    and "\<exists>q'. q2_enqhead_queue v w (int (length ys)) q = Some (q', 0) \<and> q2list q' v (ys @ xs) \<and>
      qlist (q2links q') w []"
  using enqtail_queue_refines [of "q2links q" v xs w ys] enqhead_queue_refines [of "q2links q" v xs w ys] assms
  by (auto simp: q2list_def q2_enqtail_queue_def q2_enqhead_queue_def increase_def)

lemma q2_zapall_refines:
  assumes "q2list q v xs"
  shows "\<exists>q'. q2_zapall v q = Some (q', xs) \<and> q2list q' v []"
  using zapall_refines [of "q2links q" v xs] assms by (auto simp: q2list_def q2_zapall_def)

subsection \<open>The queue interface\<close>

text \<open>
  A trace of enqueue and dequeue operations, run on any implementation (the list of values the
  dequeues returned, and the final state; \<open>None\<close> once an operation fails) and on plain lists.
  The locale states what a first-in first-out queue promises and shows once that every such
  implementation behaves on every trace as the list does.
\<close>

datatype 'a qop = Enq 'a | Deq

fun run_ops :: "('a \<Rightarrow> 's \<Rightarrow> 's option) \<Rightarrow> ('s \<Rightarrow> ('a option \<times> 's) option) \<Rightarrow>
    'a qop list \<Rightarrow> 's \<Rightarrow> ('a option list \<times> 's) option" where
  "run_ops enq deq [] s = Some ([], s)"
| "run_ops enq deq (Enq x # ops) s = do { s' \<leftarrow> enq x s; run_ops enq deq ops s' }"
| "run_ops enq deq (Deq # ops) s = do {
     (r, s') \<leftarrow> deq s;
     (rs, s'') \<leftarrow> run_ops enq deq ops s';
     Some (r # rs, s'') }"

fun run_list :: "'a qop list \<Rightarrow> 'a list \<Rightarrow> 'a option list \<times> 'a list" where
  "run_list [] xs = ([], xs)"
| "run_list (Enq x # ops) xs = run_list ops (xs @ [x])"
| "run_list (Deq # ops) [] = (let (rs, ys) = run_list ops [] in (None # rs, ys))"
| "run_list (Deq # ops) (x # xs) = (let (rs, ys) = run_list ops xs in (Some x # rs, ys))"

locale fifo =
  fixes rel :: "'s \<Rightarrow> 'a list \<Rightarrow> bool"
    and enq :: "'a \<Rightarrow> 's \<Rightarrow> 's option"
    and deq :: "'s \<Rightarrow> ('a option \<times> 's) option"
  assumes enq_law: "rel s xs \<Longrightarrow> enq x s = Some s' \<Longrightarrow> rel s' (xs @ [x])"
    and deq_law: "rel s (x # xs) \<Longrightarrow> deq s = Some (r, s') \<Longrightarrow> r = Some x \<and> rel s' xs"
    and deq_empty_law: "rel s [] \<Longrightarrow> deq s = Some (r, s') \<Longrightarrow> r = None \<and> rel s' []"
    and deq_total: "rel s xs \<Longrightarrow> deq s \<noteq> None"
begin

lemma run_refines:
  "rel s xs \<Longrightarrow> run_ops enq deq ops s = Some (rs, s') \<Longrightarrow>
   fst (run_list ops xs) = rs \<and> rel s' (snd (run_list ops xs))"
proof (induction ops xs arbitrary: s rs rule: run_list.induct)
  case (2 x ops xs)
  then show ?case by (auto simp: bind_eq_Some_conv dest: enq_law)
next
  case (3 ops)
  then show ?case
    by (fastforce simp: bind_eq_Some_conv split_beta dest: deq_empty_law)
next
  case (4 ops x xs)
  then show ?case
    by (fastforce simp: bind_eq_Some_conv split_beta dest: deq_law)
qed simp

lemma drain:
  "rel s xs \<Longrightarrow> \<exists>s'. run_ops enq deq (replicate (length xs) Deq) s = Some (map Some xs, s') \<and> rel s' []"
proof (induction xs arbitrary: s)
  case (Cons x xs)
  obtain r s1 where d: "deq s = Some (r, s1)"
    using deq_total [OF Cons.prems] by auto
  with deq_law [OF Cons.prems] Cons.IH [of s1] show ?case by auto
qed simp

end

text \<open>
  Elements that are linked into at most one queue: \<open>avail\<close> are those in no queue.  A trace is possible exactly when
  it enqueues only elements that are available at that moment.
\<close>

fun qops_fit :: "'a set \<Rightarrow> 'a qop list \<Rightarrow> 'a list \<Rightarrow> bool" where
  "qops_fit A [] xs \<longleftrightarrow> True"
| "qops_fit A (Enq x # ops) xs \<longleftrightarrow> x \<in> A \<and> qops_fit (A - {x}) ops (xs @ [x])"
| "qops_fit A (Deq # ops) [] \<longleftrightarrow> qops_fit A ops []"
| "qops_fit A (Deq # ops) (x # xs) \<longleftrightarrow> qops_fit (insert x A) ops xs"

locale linked_fifo = fifo rel enq deq
  for rel :: "'s \<Rightarrow> 'a list \<Rightarrow> bool" and enq :: "'a \<Rightarrow> 's \<Rightarrow> 's option" and deq :: "'s \<Rightarrow> ('a option \<times> 's) option" +
  fixes avail :: "'s \<Rightarrow> 'a set"
  assumes enq_avail: "rel s xs \<Longrightarrow> x \<in> avail s \<Longrightarrow> \<exists>s'. enq x s = Some s' \<and> avail s' = avail s - {x}"
    and enq_refused: "rel s xs \<Longrightarrow> x \<notin> avail s \<Longrightarrow> enq x s = None"
    and deq_avail: "rel s (x # xs) \<Longrightarrow> deq s = Some (r, s') \<Longrightarrow> avail s' = insert x (avail s)"
    and deq_empty_avail: "rel s [] \<Longrightarrow> deq s = Some (r, s') \<Longrightarrow> avail s' = avail s"
begin

lemma run_possible: "rel s xs \<Longrightarrow> run_ops enq deq ops s \<noteq> None \<longleftrightarrow> qops_fit (avail s) ops xs"
proof (induction ops xs arbitrary: s rule: run_list.induct)
  case (2 x ops xs)
  show ?case
  proof (cases "x \<in> avail s")
    case True
    obtain s1 where s1: "enq x s = Some s1" "avail s1 = avail s - {x}"
      using enq_avail [OF 2(2) True] by blast
    show ?thesis using 2(1) [OF enq_law [OF 2(2) s1(1)]] True s1 by simp
  qed (use enq_refused [OF 2(2)] in simp)
next
  case (3 ops)
  obtain r s1 where s1: "deq s = Some (r, s1)" using deq_total [OF 3(2)] by auto
  then have "run_ops enq deq ops s1 \<noteq> None \<longleftrightarrow> qops_fit (avail s) ops []"
    using 3(1) [of s1] deq_empty_law [OF 3(2) s1] deq_empty_avail [OF 3(2) s1] by simp
  then show ?case using s1 by (cases "run_ops enq deq ops s1") auto
next
  case (4 ops x xs)
  obtain r s1 where s1: "deq s = Some (r, s1)" using deq_total [OF 4(2)] by auto
  then have "run_ops enq deq ops s1 \<noteq> None \<longleftrightarrow> qops_fit (insert x (avail s)) ops xs"
    using 4(1) [of s1] deq_law [OF 4(2) s1] deq_avail [OF 4(2) s1] by simp
  then show ?case using s1 by (cases "run_ops enq deq ops s1") auto
qed simp

lemma run_exact:
  assumes "rel s xs"
  shows "if qops_fit (avail s) ops xs
     then \<exists>s'. run_ops enq deq ops s = Some (fst (run_list ops xs), s') \<and> rel s' (snd (run_list ops xs))
     else run_ops enq deq ops s = None"
  using run_possible [OF assms, of ops] run_refines [OF assms, of ops] by (cases "run_ops enq deq ops s") auto

end

text \<open>The interface on \<^verbatim>\<open>enqtail\<close> and \<^verbatim>\<open>deqhead\<close>, \<^verbatim>\<open>NULL\<close> read as
  "no node".\<close>

definition deqhead_opt :: "ptr \<Rightarrow> links \<Rightarrow> (ptr option \<times> links) option" where
  "deqhead_opt v h = map_option (map_prod (\<lambda>p. if p = NULL then None else Some p) id) (deqhead v h)"

definition free_nodes :: "links \<Rightarrow> ptr set" where
  "free_nodes h = {n. free_node h n}"

lemma free_nodes_enq:
  assumes "qlist h v xs" "free_node h n" "qlist h' v (xs @ [n])" "unchanged (insert n (set (v # xs))) h h'"
  shows "free_nodes h' = free_nodes h - {n}"
proof (rule set_eqI)
  fix m
  show "m \<in> free_nodes h' \<longleftrightarrow> m \<in> free_nodes h - {n}"
  proof (cases "m \<in> insert n (set (v # xs))")
    case True
    then show ?thesis using free_node_notin [OF assms(1), of m] free_node_notin [OF assms(3), of m] by (auto simp: free_nodes_def)
  next
    case False
    then show ?thesis using unchanged_free [OF assms(4) False] by (simp add: free_nodes_def)
  qed
qed

lemma free_nodes_deq:
  assumes "qlist h v (x # xs)" "qlist h' v xs" "free_node h' x" "unchanged (set (v # x # xs)) h h'"
  shows "free_nodes h' = insert x (free_nodes h)"
proof (rule set_eqI)
  fix m
  show "m \<in> free_nodes h' \<longleftrightarrow> m \<in> insert x (free_nodes h)"
  proof (cases "m \<in> set (v # x # xs)")
    case True
    then show ?thesis using free_node_notin [OF assms(1), of m] free_node_notin [OF assms(2), of m] assms(3) by (auto simp: free_nodes_def)
  next
    case False
    then show ?thesis using unchanged_free [OF assms(4) False] by (auto simp: free_nodes_def)
  qed
qed

interpretation ptrq: linked_fifo "\<lambda>h. qlist h v" "enqtail v" "deqhead_opt v" free_nodes for v
proof unfold_locales
  fix h xs x h'
  assume "qlist h v xs" and "enqtail v x h = Some h'"
  then show "qlist h' v (xs @ [x])"
    using enqtail_refines [of h v xs x] enqtail_SomeD by fastforce
next
  fix h x xs r h'
  assume q: "qlist h v (x # xs)" and "deqhead_opt v h = Some (r, h')"
  then show "r = Some x \<and> qlist h' v xs"
    using deqhead_refines [OF q] by (auto simp: deqhead_opt_def qlist_def)
next
  fix h r h'
  assume "qlist h v []" and "deqhead_opt v h = Some (r, h')"
  then show "r = None \<and> qlist h' v []"
    by (auto simp: deqhead_opt_def deq_empty)
next
  fix h xs
  assume "qlist h v xs"
  then show "deqhead_opt v h \<noteq> None"
    using deqhead_refines [of h v "hd xs" "tl xs"] deq_empty [of h v]
    by (cases xs) (auto simp: deqhead_opt_def)
next
  fix h xs x
  assume q: "qlist h v xs" and f: "x \<in> free_nodes h"
  obtain h' where h': "enqtail v x h = Some h'" "qlist h' v (xs @ [x])" "unchanged (insert x (set (v # xs))) h h'"
    using enqtail_refines [OF q] f by (auto simp: free_nodes_def)
  then show "\<exists>s'. enqtail v x h = Some s' \<and> free_nodes s' = free_nodes h - {x}"
    using free_nodes_enq [OF q _ h'(2,3)] f by (simp add: free_nodes_def)
next
  fix h xs x
  assume "x \<notin> free_nodes h"
  then show "enqtail v x h = None" using enqtail_SomeD [of v x h] by (cases "enqtail v x h") (auto simp: free_nodes_def)
next
  fix h x xs r h'
  assume q: "qlist h v (x # xs)" and d: "deqhead_opt v h = Some (r, h')"
  obtain h1 where h1: "deqhead v h = Some (x, h1)" "qlist h1 v xs" "free_node h1 x" "unchanged (set (v # x # xs)) h h1"
    using deqhead_refines [OF q] by blast
  then have "h' = h1" using d by (simp add: deqhead_opt_def)
  then show "free_nodes h' = insert x (free_nodes h)" using free_nodes_deq [OF q h1(2-4)] by simp
next
  fix h r h'
  assume "qlist h v []" and "deqhead_opt v h = Some (r, h')"
  then show "free_nodes h' = free_nodes h"
    by (auto simp: deqhead_opt_def deq_empty)
qed

subsection \<open>Properties\<close>

lemma enqtail_not_None: "enqtail v n h \<noteq> None \<longleftrightarrow> free_node h n"
  by (simp add: enqtail_def free_node_def kernel_simps kassert_def Let_def)

text \<open>
  C4: On a well-formed queue a sequence of \<^verbatim>\<open>enqtail\<close> and \<^verbatim>\<open>deqhead\<close> calls that enqueues only nodes that
  are unlinked at that moment (unlinked at the start or dequeued since, and not enqueued again) runs to its end, returns exactly
  the nodes a first-in first-out list would return, in that order, and leaves a well-formed queue that holds what the
  list holds; every other sequence runs into the assertion of \<^verbatim>\<open>enqtail\<close>.
\<close>

theorem queue_trace_refines_list:
  assumes "qlist h v xs"
  shows "if qops_fit {n. free_node h n} ops xs
    then \<exists>h'. run_ops (enqtail v) (deqhead_opt v) ops h = Some (fst (run_list ops xs), h') \<and> qlist h' v (snd (run_list ops xs))
    else run_ops (enqtail v) (deqhead_opt v) ops h = None"
  using ptrq.run_exact [OF assms, of ops] by (simp add: free_nodes_def)

definition demo_links :: links where
  "demo_links = queue_ctor 100 \<lparr>nextp = (\<lambda>_. 0), prevp = (\<lambda>_. 0)\<rparr>"

definition demo_queue :: links where
  "demo_queue = the (enqtail 100 7 (the (enqtail 100 5 demo_links)))"

lemma demo_queue_qlist: "qlist demo_queue 100 [5, 7]"
  by (simp add: demo_queue_def demo_links_def queue_ctor_def enqtail_def link_def kernel_simps
      qlist_def)

theorem queue_trace_witness:
  "(\<exists>h'. run_ops (enqtail 100) (deqhead_opt 100) [Enq 9, Deq, Enq 5, Deq, Deq, Deq, Deq] demo_queue =
      Some ([Some 5, Some 7, Some 9, Some 5, None], h') \<and> qlist h' 100 []) \<and>
   run_ops (enqtail 100) (deqhead_opt 100) [Enq 7] demo_queue = None"
proof -
  have f: "free_node demo_queue 9" "\<not> free_node demo_queue 7"
    by (simp_all add: free_node_def demo_queue_def demo_links_def queue_ctor_def enqtail_def link_def kernel_simps)
  have "if qops_fit {n. free_node demo_queue n} ops [5, 7]
    then \<exists>h'. run_ops (enqtail 100) (deqhead_opt 100) ops demo_queue = Some (fst (run_list ops [5, 7]), h') \<and> qlist h' 100 (snd (run_list ops [5, 7]))
    else run_ops (enqtail 100) (deqhead_opt 100) ops demo_queue = None" for ops
    by (rule queue_trace_refines_list [OF demo_queue_qlist])
  from this [of "[Enq 9, Deq, Enq 5, Deq, Deq, Deq, Deq]"] this [of "[Enq 7]"] show ?thesis using f by simp
qed

text \<open>
  \<^verbatim>\<open>unlink\<close> of any node of a queue succeeds, removes exactly that node and keeps the order
  of the others, returns the node to the unlinked state, and does not disturb any other queue that
  shares no node with this one.
\<close>

theorem unlink_removes_exactly:
  assumes "qlist h v (as @ n # bs)"
  shows "\<exists>h'. unlink n h = Some h' \<and> qlist h' v (as @ bs) \<and> free_node h' n \<and>
    (\<forall>w ys. qlist h w ys \<and> set (w # ys) \<inter> set (v # as @ n # bs) = {} \<longrightarrow> qlist h' w ys)"
proof -
  obtain h' where "unlink n h = Some h'" "qlist h' v (as @ bs)" "free_node h' n"
    and u: "unchanged (set (v # as @ n # bs)) h h'"
    using unlink_refines [OF assms] by blast
  moreover have "qlist h' w ys"
    if "qlist h w ys" and "set (w # ys) \<inter> set (v # as @ n # bs) = {}" for w ys
    using unchanged_qlist [OF u] that by (simp add: Int_commute)
  ultimately show ?thesis by blast
qed

theorem unlink_removes_witness:
  "qlist demo_queue 100 ([] @ 5 # [7]) \<and>
   (\<exists>h'. unlink 5 demo_queue = Some h' \<and> qlist h' 100 [7] \<and> free_node h' 5)"
  using unlink_removes_exactly [of demo_queue 100 "[]" 5 "[7]"] demo_queue_qlist by auto

text \<open>
  \<^verbatim>\<open>insertlt\<close> into a queue sorted by a key inserts the new node, keeps every old node
  and leaves the queue sorted by that key (the node goes behind the nodes with an equal key).
\<close>

theorem insertlt_keeps_sorted:
  fixes key :: "ptr \<Rightarrow> 'k :: linorder"
  assumes "qlist h v xs" and "free_node h n" and "sorted (map key xs)"
  shows "\<exists>h' ys. insertlt (\<lambda>x y. key x < key y) v n h = Some h' \<and> qlist h' v ys \<and>
    set ys = insert n (set xs) \<and> sorted (map key ys)"
  using insertlt_refines [OF assms(1,2)] sorted_insort_lt [OF assms(3)] set_insort_lt by metis

theorem insertlt_witness:
  "qlist demo_queue 100 [5, 7] \<and> free_node demo_queue 6 \<and> sorted (map (\<lambda>p::ptr. p) [5, 7]) \<and>
   (\<exists>h' ys. insertlt (\<lambda>x y. x < y) 100 6 demo_queue = Some h' \<and> qlist h' 100 ys \<and>
     set ys = {5, 6, 7} \<and> sorted ys)"
proof -
  have f: "free_node demo_queue 6"
    by (simp add: demo_queue_def demo_links_def queue_ctor_def enqtail_def link_def kernel_simps
        free_node_def)
  show ?thesis
    using insertlt_keeps_sorted [OF demo_queue_qlist f, of "\<lambda>p. p"] demo_queue_qlist f
    by (simp add: insert_commute)
qed

text \<open>
  \<^verbatim>\<open>queue2_templ::unlink\<close> increments the counter where it should decrement it: removing a
  node from a counted queue whose counter is right leaves the remaining nodes in order, but the
  counter two above their number, so the queue never reports itself empty again.
\<close>

theorem q2_unlink_miscounts:
  assumes "q2list q v (as @ n # bs)"
  shows "\<exists>q'. q2_unlink n q = Some q' \<and> qlist (q2links q') v (as @ bs) \<and>
    q2count q' = int (length (as @ bs)) + 2 \<and> \<not> q2_empty q'"
  using unlink_refines [of "q2links q" v as n bs] assms
  by (auto simp: q2list_def q2_unlink_def increase_def q2_empty_def)

theorem q2_unlink_witness:
  "\<exists>q'. q2_unlink 5 \<lparr>q2links = demo_queue, q2count = 2\<rparr> = Some q' \<and> q2count q' = 3"
  using q2_unlink_miscounts [of "\<lparr>q2links = demo_queue, q2count = 2\<rparr>" 100 "[]" 5 "[7]"] demo_queue_qlist
  by (auto simp: q2list_def)

end
