(* ===== verification/Lib_Math.thy ===== *)
theory Lib_Math
  imports Prelude
begin

text \<open>
  The rounding and bit-index helpers of \<^verbatim>\<open>lib/math.h\<close> and the page arithmetic of
  \<^verbatim>\<open>asm/page.h\<close>, on 32-bit words (\<^verbatim>\<open>int\<close>, \<^verbatim>\<open>ulong\<close> and pointers are 32 bits
  wide on the target).  The macros work bitwise on alignments that are powers of two; the lemmas
  relate them to division and remainder on the natural numbers the words stand for.
\<close>

subsection \<open>Definitions\<close>

text \<open>The x86 instructions \<^verbatim>\<open>bsf\<close> and \<^verbatim>\<open>bsr\<close>; the result for a zero operand is undefined.\<close>

definition bsf :: "u32 \<Rightarrow> nat option" where
  "bsf w = find (bit w) [0..<32]"

definition bsr :: "u32 \<Rightarrow> nat option" where
  "bsr w = find (bit w) (rev [0..<32])"

definition ispowerof2 :: "'a::len word \<Rightarrow> bool" where
  "ispowerof2 balign \<longleftrightarrow> (balign - 1) AND balign = 0"

definition roundup2 :: "'a::len word \<Rightarrow> 'a word \<Rightarrow> 'a word option" where
  "roundup2 sz balign = do {
     kassert (ispowerof2 balign);
     Some ((sz + balign - 1) AND NOT (balign - 1)) }"

definition rounddown2 :: "'a::len word \<Rightarrow> 'a word \<Rightarrow> 'a word option" where
  "rounddown2 sz balign = do {
     kassert (ispowerof2 balign);
     Some (sz AND NOT (balign - 1)) }"

definition idxofmsb :: "u32 \<Rightarrow> int" where
  "idxofmsb sz = (case bsr sz of None \<Rightarrow> -1 | Some idx \<Rightarrow> int idx)"

definition idxoflsb :: "u32 \<Rightarrow> int" where
  "idxoflsb sz = (case bsf sz of None \<Rightarrow> -1 | Some idx \<Rightarrow> int idx)"

text \<open>\<^verbatim>\<open>1 << n\<close> on the target: the shift count is taken modulo 32.\<close>

definition roundup2p2 :: "u32 \<Rightarrow> u32" where
  "roundup2p2 sz =
     (if ispowerof2 sz then sz else push_bit (nat (idxofmsb sz + 1) mod 32) 1)"

definition rounddown2p2 :: "u32 \<Rightarrow> u32" where
  "rounddown2p2 sz = (if sz = 0 then sz else push_bit (nat (idxofmsb sz) mod 32) 1)"

definition PAGESIZE :: u32 where "PAGESIZE = 4096"
definition PAGEBITS :: nat where "PAGEBITS = 12"

definition pageup :: "u32 \<Rightarrow> u32" where
  "pageup addr = (addr + PAGESIZE - 1) AND NOT (PAGESIZE - 1)"

definition pagedown :: "u32 \<Rightarrow> u32" where
  "pagedown addr = addr AND NOT (PAGESIZE - 1)"

definition pagemul :: "u32 \<Rightarrow> u32" where
  "pagemul addr = push_bit PAGEBITS addr"

definition pagediv :: "u32 \<Rightarrow> u32" where
  "pagediv addr = drop_bit PAGEBITS addr"

definition pagemod :: "u32 \<Rightarrow> u32" where
  "pagemod addr = addr AND (PAGESIZE - 1)"

definition pdeidx :: "u32 \<Rightarrow> u32" where
  "pdeidx vaddr = drop_bit 22 vaddr"

definition pteidx :: "u32 \<Rightarrow> u32" where
  "pteidx vaddr = drop_bit 12 vaddr AND 1023"

subsection \<open>Bit indices\<close>

lemma find_upt_Some:
  "find P [0..<n] = Some i \<longleftrightarrow> i < n \<and> P i \<and> (\<forall>j < i. \<not> P j)"
proof -
  have "find P [0..<n] = Some i \<longleftrightarrow> (\<exists>k<length [0..<n]. P ([0..<n] ! k) \<and> i = [0..<n] ! k \<and>
      (\<forall>j<k. \<not> P ([0..<n] ! j)))"
    by (rule find_Some_iff)
  then show ?thesis by auto
qed

lemma bsf_Some: "bsf w = Some i \<longleftrightarrow> bit w i \<and> (\<forall>j < i. \<not> bit w j)"
  using bit_imp_le_length [of w i] by (auto simp: bsf_def find_upt_Some)

lemma bsf_None: "bsf w = None \<longleftrightarrow> w = 0"
  by (auto simp: bsf_def find_None_iff bit_eq_iff dest: bit_imp_le_length)

lemma bsr_Some: "bsr w = Some i \<longleftrightarrow> bit w i \<and> (\<forall>j > i. \<not> bit w j)"
proof -
  have "bsr w = Some i \<longleftrightarrow> (\<exists>k<32. bit w (31 - k) \<and> i = 31 - k \<and> (\<forall>j<k. \<not> bit w (31 - j)))"
    by (simp add: bsr_def find_Some_iff rev_nth cong: conj_cong)
  also have "\<dots> \<longleftrightarrow> bit w i \<and> (\<forall>j > i. \<not> bit w j)"
  proof
    assume "\<exists>k<32. bit w (31 - k) \<and> i = 31 - k \<and> (\<forall>j<k. \<not> bit w (31 - j))"
    then obtain k where k: "k < 32" "bit w (31 - k)" "i = 31 - k" "\<forall>j<k. \<not> bit w (31 - j)"
      by blast
    have "\<not> bit w j" if "j > i" for j
    proof
      assume "bit w j"
      then have "j < 32" using bit_imp_le_length [of w j] by simp
      with k(3) that have "31 - j < k" and "31 - (31 - j) = j" by arith+
      with k(4) \<open>bit w j\<close> show False by metis
    qed
    with k show "bit w i \<and> (\<forall>j > i. \<not> bit w j)" by blast
  next
    assume i: "bit w i \<and> (\<forall>j > i. \<not> bit w j)"
    then have "i < 32" using bit_imp_le_length [of w i] by simp
    then have "31 - (31 - i) = i" "31 - i < 32" by arith+
    moreover have "\<forall>j < 31 - i. \<not> bit w (31 - j)"
      using i by auto
    ultimately show "\<exists>k<32. bit w (31 - k) \<and> i = 31 - k \<and> (\<forall>j<k. \<not> bit w (31 - j))"
      using i by (intro exI [of _ "31 - i"]) simp
  qed
  finally show ?thesis .
qed

lemma bsr_None: "bsr w = None \<longleftrightarrow> w = 0"
  by (auto simp: bsr_def find_None_iff bit_eq_iff dest: bit_imp_le_length)

lemma idxofmsb_pos: "sz \<noteq> 0 \<Longrightarrow> \<exists>k < 32. idxofmsb sz = int k \<and> 2 ^ k \<le> unat sz \<and> unat sz < 2 ^ Suc k"
proof -
  assume "sz \<noteq> 0"
  then obtain k where k: "bsr sz = Some k"
    using bsr_None [of sz] by auto
  then have bit_k: "bit sz k" and above: "\<forall>j > k. \<not> bit sz j"
    by (simp_all add: bsr_Some)
  have "k < 32" using bit_imp_le_length [OF bit_k] by simp
  have "odd (unat sz div 2 ^ k)"
    using bit_k by (simp flip: bit_unat bit_iff_odd)
  then have lo: "2 ^ k \<le> unat sz"
    by (metis div_less even_zero leI)
  have "take_bit (Suc k) sz = sz"
    by (rule bit_eqI) (use above in \<open>auto simp: bit_take_bit_iff not_less_eq\<close>)
  then have "unat sz = take_bit (Suc k) (unat sz)"
    by (metis unsigned_take_bit_eq)
  then have "unat sz < 2 ^ Suc k"
    by (metis take_bit_nat_less_exp)
  with lo \<open>k < 32\<close> k show ?thesis
    by (auto simp: idxofmsb_def)
qed

lemma bit_below_pow: "unat (w :: u32) < 2 ^ k \<Longrightarrow> \<not> bit w k"
  by (metis bit_take_bit_iff bit_unat take_bit_nat_eq_self less_irrefl)

lemma bit_top_pow:
  assumes "2 ^ k \<le> unat (w :: u32)" and "unat w < 2 ^ Suc k"
  shows "bit w k"
proof -
  have "unat w div 2 ^ k = 1"
    using assms by (intro div_nat_eqI) auto
  then show ?thesis
    by (simp flip: bit_unat) (simp add: bit_iff_odd)
qed

lemma ispowerof2_iff: "ispowerof2 (b :: u32) \<longleftrightarrow> b = 0 \<or> (\<exists>k < 32. b = 2 ^ k)"
proof (cases "b = 0")
  case True
  then show ?thesis by (simp add: ispowerof2_def)
next
  case False
  then obtain k where k: "k < 32" "2 ^ k \<le> unat b" "unat b < 2 ^ Suc k"
    using idxofmsb_pos by blast
  have b1: "unat (b - 1) = unat b - 1"
    using False by (simp add: unat_minus_one)
  show ?thesis
  proof (cases "unat b = 2 ^ k")
    case True
    then have "b = 2 ^ k"
      using k(1) by (intro word_unat_eq_iff [THEN iffD2]) (simp add: unat_exp2)
    then show ?thesis
      using k(1) by (auto simp: ispowerof2_def and_exp2_below)
  next
    case neq: False
    then have "bit (b - 1) k" and "bit b k"
      using k b1 by (intro bit_top_pow; simp)+
    then have "\<not> ispowerof2 b"
      by (metis bit_0_eq bit_and_iff bot_apply ispowerof2_def bot_bool_def)
    moreover have "b \<noteq> 2 ^ j" if "j < 32" for j
    proof
      assume "b = 2 ^ j"
      then have ub: "unat b = 2 ^ j" using that by (simp add: unat_exp2)
      with k(2,3) have "j = k"
        by (metis Suc_leI le_antisym less_Suc_eq_le nat_power_less_imp_less one_less_numeral_iff
            power_le_imp_le_exp semiring_norm(76) zero_less_numeral power_less_imp_less_exp)
      with ub neq show False by simp
    qed
    ultimately show ?thesis using False by blast
  qed
qed

subsection \<open>Rounding\<close>

lemma roundup2_eq:
  assumes "k < 32" and "unat sz + 2 ^ k \<le> 2 ^ 32"
  shows "\<exists>r. roundup2 (sz :: u32) (2 ^ k) = Some r \<and> unat r = (unat sz + 2 ^ k - 1) div 2 ^ k * 2 ^ k"
proof -
  have "ispowerof2 (2 ^ k :: u32)"
    using assms(1) by (auto simp: ispowerof2_iff)
  moreover have "unat (sz + (2 ^ k - 1)) = unat sz + (2 ^ k - 1)"
    using assms by (subst unat_add_lem [THEN iffD1])
      (auto simp: unat_minus_one unat_exp2)
  ultimately show ?thesis
    by (simp add: roundup2_def unat_and_not_mask add_diff_eq)
qed

lemma rounddown2_eq:
  "k < 32 \<Longrightarrow> \<exists>r. rounddown2 (sz :: u32) (2 ^ k) = Some r \<and> unat r = unat sz div 2 ^ k * 2 ^ k"
  using ispowerof2_iff [of "2 ^ k"] by (auto simp: rounddown2_def unat_and_not_mask)

lemma pagesize_exp: "PAGESIZE = 2 ^ 12"
  by (simp add: PAGESIZE_def)

lemma unat_pagedown: "unat (pagedown a) = unat a div 4096 * 4096"
  unfolding pagedown_def pagesize_exp by (simp only: unat_and_not_mask) simp

lemma unat_pagemod: "unat (pagemod a) = unat a mod 4096"
  unfolding pagemod_def pagesize_exp by (simp only: unat_and_mask) simp

lemma unat_pageup:
  assumes "unat a + 4095 < 2 ^ 32"
  shows "unat (pageup a) = (unat a + 4095) div 4096 * 4096"
proof -
  have "unat (a + (2 ^ 12 - 1)) = unat a + 4095"
    using assms by (subst unat_add_lem [THEN iffD1]) auto
  then show ?thesis
    unfolding pageup_def pagesize_exp add_diff_eq [symmetric] by (simp only: unat_and_not_mask) simp
qed

lemma pagemod_pagedown: "pagemod (pagedown a) = 0"
  by (simp add: word_unat_eq_iff unat_pagemod unat_pagedown)

lemma pagedown_le: "pagedown a \<le> a"
  by (simp add: word_le_nat_alt unat_pagedown)

lemma pagedown_eq_self: "pagemod a = 0 \<Longrightarrow> pagedown a = a"
  by (simp add: word_unat_eq_iff unat_pagemod unat_pagedown minus_mod_eq_div_mult [symmetric])

subsection \<open>Properties\<close>

text \<open>
  C34: \<^verbatim>\<open>roundup2p2\<close> returns the least power of two that is not below its argument, for every
  argument from 1 up to \<^verbatim>\<open>2^31\<close>; in particular the hash table sizes computed with it make
  \<^verbatim>\<open>size - 1\<close> a usable mask.
\<close>

theorem roundup2p2_least:
  assumes "0 < unat sz" and "unat sz \<le> 2 ^ 31"
  shows "\<exists>k < 32. roundup2p2 sz = 2 ^ k \<and> unat sz \<le> 2 ^ k \<and> (\<forall>j. unat sz \<le> 2 ^ j \<longrightarrow> k \<le> j)"
proof (cases "ispowerof2 sz")
  case True
  then obtain k where k: "k < 32" "sz = 2 ^ k"
    using assms(1) by (auto simp: ispowerof2_iff)
  then have "unat sz = 2 ^ k" by (simp add: unat_exp2)
  with True k show ?thesis
    by (auto simp: roundup2p2_def)
next
  case False
  from assms(1) obtain k where k: "k < 32" "idxofmsb sz = int k" "2 ^ k \<le> unat sz" "unat sz < 2 ^ Suc k"
    using idxofmsb_pos [of sz] by fastforce
  have "unat sz \<noteq> 2 ^ k"
  proof
    assume "unat sz = 2 ^ k"
    then have "sz = 2 ^ k" using k(1) by (simp add: word_unat_eq_iff unat_exp2)
    with False k(1) show False by (auto simp: ispowerof2_iff)
  qed
  with k(3) have lt: "2 ^ k < unat sz" by simp
  with assms(2) have "(2::nat) ^ k < 2 ^ 31" by linarith
  then have "k < 31" by (rule power_less_imp_less_exp [rotated]) simp
  moreover have "Suc k \<le> j" if "unat sz \<le> 2 ^ j" for j
    using lt that by (metis Suc_leI le_less_trans less_le_trans not_le power_increasing
        one_le_numeral le_antisym nless_le)
  ultimately show ?thesis
    using False k lt
    by (intro exI [of _ "Suc k"]) (simp add: roundup2p2_def push_bit_eq_mult nat_add_distrib)
qed

theorem roundup2p2_witness:
  "0 < unat (1000 :: u32) \<and> unat (1000 :: u32) \<le> 2 ^ 31 \<and>
   (\<exists>k < 32. roundup2p2 1000 = 2 ^ k \<and> unat (1000 :: u32) \<le> 2 ^ k \<and>
     (\<forall>j. unat (1000 :: u32) \<le> 2 ^ j \<longrightarrow> k \<le> j))"
  using roundup2p2_least [of 1000] by simp

text \<open>
  A virtual address is determined by its page directory index, its page table index and its
  offset in the page, each within its range: translating through \<^verbatim>\<open>pdeidx\<close>,
  \<^verbatim>\<open>pteidx\<close> and \<^verbatim>\<open>pagemod\<close> loses nothing.
\<close>

theorem vaddr_decompose:
  "unat vaddr = unat (pdeidx vaddr) * 2 ^ 22 + unat (pteidx vaddr) * 2 ^ 12 + unat (pagemod vaddr) \<and>
   unat (pdeidx vaddr) < 1024 \<and> unat (pteidx vaddr) < 1024 \<and> unat (pagemod vaddr) < 4096"
proof -
  have pde: "unat (pdeidx vaddr) = unat vaddr div 2 ^ 22"
    by (simp only: pdeidx_def unat_drop_bit_eq) (simp only: drop_bit_eq_div)
  have "(1023 :: u32) = 2 ^ 10 - 1" by simp
  then have pte: "unat (pteidx vaddr) = unat vaddr div 2 ^ 12 mod 2 ^ 10"
    unfolding pteidx_def by (simp only: unat_and_mask unat_drop_bit_eq) (simp only: drop_bit_eq_div)
  have "unat vaddr < 2 ^ 32"
    using unsigned_less [of vaddr] by simp
  moreover have "n = n div 2 ^ 22 * 2 ^ 22 + n div 2 ^ 12 mod 2 ^ 10 * 2 ^ 12 + n mod 4096" for n :: nat
  proof -
    have "n = b * 2 ^ 22 + c * 2 ^ 12 + r" if "m * 2 ^ 12 + r = n" "b * 2 ^ 10 + c = m" for m r b c
      using that by auto
    from this [OF div_mult_mod_eq div_mult_mod_eq] show ?thesis
      by (simp add: div_mult2_eq [symmetric])
  qed
  ultimately show ?thesis
    unfolding pde pte unat_pagemod by auto
qed

end
