(* ===== verification/Lib_Bitmap.thy ===== *)
theory Lib_Bitmap
  imports Lib_Math
begin

text \<open>
  The bitmaps of \<^verbatim>\<open>lib/bitmap.h\<close> and \<^verbatim>\<open>lib/bitmap.cc\<close>: an array of 32-bit words,
  scanned a word at a time for the first clear or set bit, counted a nibble at a time through a
  table, and the class \<^verbatim>\<open>bitmap_t\<close> that caches the number of clear bits.  The abstraction
  is the set of clear positions; the cached count, the table and the two scans are shown to agree
  with it.  An access outside the array is \<open>None\<close>.
\<close>

subsection \<open>Bit instructions on an array of words\<close>

definition tstbit :: "u32 list \<Rightarrow> int \<Rightarrow> int option" where
  "tstbit bits i = do {
     kassert (0 \<le> i \<and> nat i div 32 < length bits);
     Some (if bit (bits ! (nat i div 32)) (nat i mod 32) then -1 else 0) }"

definition upd_word :: "u32 list \<Rightarrow> int \<Rightarrow> (nat \<Rightarrow> u32 \<Rightarrow> u32) \<Rightarrow> u32 list option" where
  "upd_word bits i f = do {
     kassert (0 \<le> i \<and> nat i div 32 < length bits);
     Some (bits[nat i div 32 := f (nat i mod 32) (bits ! (nat i div 32))]) }"

definition setbit :: "u32 list \<Rightarrow> int \<Rightarrow> u32 list option" where
  "setbit bits i = upd_word bits i set_bit"

definition clrbit :: "u32 list \<Rightarrow> int \<Rightarrow> u32 list option" where
  "clrbit bits i = upd_word bits i unset_bit"

definition chgbit :: "u32 list \<Rightarrow> int \<Rightarrow> u32 list option" where
  "chgbit bits i = upd_word bits i flip_bit"

fun ffbit0_loop :: "u32 list \<Rightarrow> int \<Rightarrow> int option" where
  "ffbit0_loop [] k = Some (-1)"
| "ffbit0_loop (l # ls) k =
     (if l = -1 then ffbit0_loop ls (k + 1)
      else do { idx \<leftarrow> bsf (NOT l); Some (k * 32 + int idx) })"

definition ffbit0 :: "u32 list \<Rightarrow> nat \<Rightarrow> int option" where
  "ffbit0 bits nbit = do {
     kassert (nbit mod 32 = 0);
     kassert (nbit div 32 \<le> length bits);
     ffbit0_loop (take (nbit div 32) bits) 0 }"

fun ffbit1_loop :: "u32 list \<Rightarrow> int \<Rightarrow> int option" where
  "ffbit1_loop [] k = Some (-1)"
| "ffbit1_loop (l # ls) k =
     (if l = 0 then ffbit1_loop ls (k + 1)
      else do { idx \<leftarrow> bsf l; Some (k * 32 + int idx) })"

definition ffbit1 :: "u32 list \<Rightarrow> nat \<Rightarrow> int option" where
  "ffbit1 bits nbit = do {
     kassert (nbit mod 32 = 0);
     kassert (nbit div 32 \<le> length bits);
     ffbit1_loop (take (nbit div 32) bits) 0 }"

subsection \<open>Counting\<close>

definition bit0perchar :: "int list" where
  "bit0perchar = [4, 3, 3, 2, 3, 2, 2, 1, 3, 2, 2, 1, 2, 1, 1, 0]"

text \<open>The array read through a \<^verbatim>\<open>char *\<close>: four bytes per word, the low byte first.\<close>

definition bytes_of_word :: "u32 \<Rightarrow> u8 list" where
  "bytes_of_word w = map (\<lambda>k. ucast (drop_bit (8 * k) w)) [0..<4]"

definition byte_zeros :: "u8 \<Rightarrow> int" where
  "byte_zeros c = bit0perchar ! unat (c AND 15) + bit0perchar ! unat (drop_bit 4 c AND 15)"

fun countbit0_loop :: "u8 list \<Rightarrow> int \<Rightarrow> int" where
  "countbit0_loop [] s = s"
| "countbit0_loop (c # cs) s = countbit0_loop cs (s + byte_zeros c)"

definition countbit0 :: "u32 list \<Rightarrow> nat \<Rightarrow> int option" where
  "countbit0 bits nbit = do {
     kassert (nbit mod 32 = 0);
     kassert (nbit div 32 \<le> length bits);
     Some (countbit0_loop (take (nbit div 8) (concat (map bytes_of_word bits))) 0) }"

definition countbit1 :: "u32 list \<Rightarrow> nat \<Rightarrow> int option" where
  "countbit1 bits nbit = do {
     kassert (nbit mod 32 = 0);
     z \<leftarrow> countbit0 bits nbit;
     Some (int nbit - z) }"

subsection \<open>The class \<^verbatim>\<open>bitmap_tl\<close>\<close>

text \<open>
  The constructor clears with \<^verbatim>\<open>memset(bits, 0, NR/32)\<close>: \<^verbatim>\<open>NR/32\<close> is the number of
  words, but \<^verbatim>\<open>memset\<close> counts bytes.
\<close>

definition word_of_bytes :: "u8 list \<Rightarrow> u32" where
  "word_of_bytes bs = ucast (bs ! 0) OR push_bit 8 (ucast (bs ! 1)) OR
     push_bit 16 (ucast (bs ! 2)) OR push_bit 24 (ucast (bs ! 3))"

fun words_of_bytes :: "u8 list \<Rightarrow> u32 list" where
  "words_of_bytes (a # b # c # d # bs) = word_of_bytes [a, b, c, d] # words_of_bytes bs"
| "words_of_bytes _ = []"

definition memset_bytes :: "u8 list \<Rightarrow> u8 \<Rightarrow> nat \<Rightarrow> u8 list" where
  "memset_bytes bs v n = replicate n v @ drop n bs"

definition bitmap_tl_ctor :: "nat \<Rightarrow> u32 list \<Rightarrow> u32 list option" where
  "bitmap_tl_ctor NR bits = do {
     kassert (NR mod 32 = 0);
     Some (words_of_bytes (memset_bytes (concat (map bytes_of_word bits)) 0 (NR div 32))) }"

definition bitmap_tl_tst :: "nat \<Rightarrow> u32 list \<Rightarrow> int \<Rightarrow> int option" where
  "bitmap_tl_tst NR bits i = do { kassert (i < int NR); tstbit bits i }"

definition bitmap_tl_set :: "nat \<Rightarrow> u32 list \<Rightarrow> int \<Rightarrow> u32 list option" where
  "bitmap_tl_set NR bits i = do { kassert (i < int NR); setbit bits i }"

definition bitmap_tl_clr :: "nat \<Rightarrow> u32 list \<Rightarrow> int \<Rightarrow> u32 list option" where
  "bitmap_tl_clr NR bits i = do { kassert (i < int NR); clrbit bits i }"

definition bitmap_tl_chg :: "nat \<Rightarrow> u32 list \<Rightarrow> int \<Rightarrow> u32 list option" where
  "bitmap_tl_chg NR bits i = do { kassert (i < int NR); chgbit bits i }"

definition bitmap_tl_count0 :: "nat \<Rightarrow> u32 list \<Rightarrow> int option" where
  "bitmap_tl_count0 NR bits = countbit0 bits NR"

definition bitmap_tl_count1 :: "nat \<Rightarrow> u32 list \<Rightarrow> int option" where
  "bitmap_tl_count1 NR bits = do { z \<leftarrow> bitmap_tl_count0 NR bits; Some (int NR - z) }"

definition bitmap_tl_ff0 :: "nat \<Rightarrow> u32 list \<Rightarrow> int option" where
  "bitmap_tl_ff0 NR bits = ffbit0 bits NR"

definition bitmap_tl_ff1 :: "nat \<Rightarrow> u32 list \<Rightarrow> int option" where
  "bitmap_tl_ff1 NR bits = ffbit1 bits NR"

subsection \<open>The class \<^verbatim>\<open>bitmap_t\<close>\<close>

record bitmap =
  nbit0 :: int
  nbit :: nat
  bits :: "u32 list"

definition bitmap_ctor :: "u32 list \<Rightarrow> nat \<Rightarrow> bitmap option" where
  "bitmap_ctor bs n = do {
     kassert (n mod 32 = 0);
     z \<leftarrow> countbit0 bs n;
     Some \<lparr>nbit0 = z, nbit = n, bits = bs\<rparr> }"

definition bitmap_tst :: "bitmap \<Rightarrow> int \<Rightarrow> int option" where
  "bitmap_tst b i = do { kassert (i < int (nbit b)); tstbit (bits b) i }"

definition bitmap_set :: "int \<Rightarrow> bitmap \<Rightarrow> bitmap option" where
  "bitmap_set i b = do {
     kassert (i < int (nbit b));
     t \<leftarrow> bitmap_tst b i;
     let b1 = (if t = 0 then b\<lparr>nbit0 := nbit0 b - 1\<rparr> else b);
     bs \<leftarrow> setbit (bits b1) i;
     Some (b1\<lparr>bits := bs\<rparr>) }"

definition bitmap_clr :: "int \<Rightarrow> bitmap \<Rightarrow> bitmap option" where
  "bitmap_clr i b = do {
     kassert (i < int (nbit b));
     t \<leftarrow> bitmap_tst b i;
     let b1 = (if t \<noteq> 0 then b\<lparr>nbit0 := nbit0 b + 1\<rparr> else b);
     bs \<leftarrow> clrbit (bits b1) i;
     Some (b1\<lparr>bits := bs\<rparr>) }"

definition bitmap_chg :: "int \<Rightarrow> bitmap \<Rightarrow> bitmap option" where
  "bitmap_chg i b = do {
     kassert (i < int (nbit b));
     t \<leftarrow> bitmap_tst b i;
     let b1 = (if t \<noteq> 0 then b\<lparr>nbit0 := nbit0 b + 1\<rparr> else b\<lparr>nbit0 := nbit0 b - 1\<rparr>);
     bs \<leftarrow> chgbit (bits b1) i;
     Some (b1\<lparr>bits := bs\<rparr>) }"

definition bitmap_count0 :: "bitmap \<Rightarrow> int" where
  "bitmap_count0 b = nbit0 b"

definition bitmap_count1 :: "bitmap \<Rightarrow> int" where
  "bitmap_count1 b = int (nbit b) - nbit0 b"

definition bitmap_ff0 :: "bitmap \<Rightarrow> int option" where
  "bitmap_ff0 b = (if nbit0 b = 0 then Some (-1) else ffbit0 (bits b) (nbit b))"

definition bitmap_ff1 :: "bitmap \<Rightarrow> int option" where
  "bitmap_ff1 b = (if nbit0 b = int (nbit b) then Some (-1) else ffbit1 (bits b) (nbit b))"

subsection \<open>Abstraction: the set of clear positions\<close>

definition bitval :: "u32 list \<Rightarrow> nat \<Rightarrow> bool" where
  "bitval bs i = bit (bs ! (i div 32)) (i mod 32)"

definition clear_bits :: "u32 list \<Rightarrow> nat set" where
  "clear_bits bs = {i. i < 32 * length bs \<and> \<not> bitval bs i}"

lemma finite_clear_bits [simp]: "finite (clear_bits bs)"
  by (simp add: clear_bits_def)

lemma tstbit_eq:
  "0 \<le> i \<Longrightarrow> nat i < 32 * length bs \<Longrightarrow> tstbit bs i = Some (if bitval bs (nat i) then -1 else 0)"
  by (simp add: tstbit_def bitval_def less_mult_imp_div_less mult.commute)

lemma bitval_upd:
  assumes "i < 32 * length bs" and "j < 32 * length bs"
  shows "bitval (bs[i div 32 := w]) j = (if j div 32 = i div 32 then bit w (j mod 32) else bitval bs j)"
  using assms by (auto simp: bitval_def nth_list_update less_mult_imp_div_less mult.commute)

lemma same_pos: "(i::nat) div 32 = j div 32 \<Longrightarrow> i mod 32 = j mod 32 \<Longrightarrow> i = j"
  by (metis div_mult_mod_eq)

lemma upd_word_eq:
  "0 \<le> i \<Longrightarrow> nat i < 32 * length bs \<Longrightarrow>
   upd_word bs i f = Some (bs[nat i div 32 := f (nat i mod 32) (bs ! (nat i div 32))])"
  by (simp add: upd_word_def less_mult_imp_div_less mult.commute)

lemma bitval_upd_word:
  assumes "0 \<le> i" and "nat i < 32 * length bs" and "j < 32 * length bs"
    and f: "\<And>w k. k < 32 \<Longrightarrow> bit (f (nat i mod 32) w) k = (if k = nat i mod 32 then v (bit w k) else bit w k)"
  shows "bitval (bs[nat i div 32 := f (nat i mod 32) (bs ! (nat i div 32))]) j =
    (if j = nat i then v (bitval bs j) else bitval bs j)"
proof (cases "j div 32 = nat i div 32")
  case True
  then have "j = nat i \<longleftrightarrow> j mod 32 = nat i mod 32"
    using same_pos [of j "nat i"] by auto
  then show ?thesis
    using True f [of "j mod 32"] by (simp add: bitval_upd assms) (simp add: bitval_def True)
next
  case False
  then show ?thesis by (auto simp: bitval_upd assms)
qed

lemma setbit_spec:
  assumes "0 \<le> i" and "nat i < 32 * length bs"
  obtains bs' where "setbit bs i = Some bs'" and "length bs' = length bs"
    and "\<And>j. j < 32 * length bs \<Longrightarrow> bitval bs' j = (if j = nat i then True else bitval bs j)"
proof -
  have "bitval (bs[nat i div 32 := set_bit (nat i mod 32) (bs ! (nat i div 32))]) j =
      (if j = nat i then True else bitval bs j)" if "j < 32 * length bs" for j
    using bitval_upd_word [OF assms that, of set_bit "\<lambda>_. True"] by (simp add: bit_set_bit_iff)
  then show ?thesis using that assms by (simp add: setbit_def upd_word_eq)
qed

lemma clrbit_spec:
  assumes "0 \<le> i" and "nat i < 32 * length bs"
  obtains bs' where "clrbit bs i = Some bs'" and "length bs' = length bs"
    and "\<And>j. j < 32 * length bs \<Longrightarrow> bitval bs' j = (if j = nat i then False else bitval bs j)"
proof -
  have "bitval (bs[nat i div 32 := unset_bit (nat i mod 32) (bs ! (nat i div 32))]) j =
      (if j = nat i then False else bitval bs j)" if "j < 32 * length bs" for j
    using bitval_upd_word [OF assms that, of unset_bit "\<lambda>_. False"] by (simp add: bit_unset_bit_iff)
  then show ?thesis using that assms by (simp add: clrbit_def upd_word_eq)
qed

lemma chgbit_spec:
  assumes "0 \<le> i" and "nat i < 32 * length bs"
  obtains bs' where "chgbit bs i = Some bs'" and "length bs' = length bs"
    and "\<And>j. j < 32 * length bs \<Longrightarrow> bitval bs' j = (if j = nat i then \<not> bitval bs j else bitval bs j)"
proof -
  have "bitval (bs[nat i div 32 := flip_bit (nat i mod 32) (bs ! (nat i div 32))]) j =
      (if j = nat i then \<not> bitval bs j else bitval bs j)" if "j < 32 * length bs" for j
    using bitval_upd_word [OF assms that, of flip_bit Not] by (auto simp: bit_flip_bit_iff)
  then show ?thesis using that assms by (simp add: chgbit_def upd_word_eq)
qed

subsection \<open>The two scans\<close>

lemma bitval_Cons: "bitval (l # ls) i = (if i < 32 then bit l i else bitval ls (i - 32))"
proof (cases "i < 32")
  case False
  then have "i div 32 = Suc ((i - 32) div 32)" and "i mod 32 = (i - 32) mod 32"
    by (simp_all add: le_div_geq le_mod_geq)
  then show ?thesis using False by (simp add: bitval_def)
qed (simp add: bitval_def)

definition positions :: "bool \<Rightarrow> u32 list \<Rightarrow> nat set" where
  "positions v bs = {i. i < 32 * length bs \<and> bitval bs i = v}"

lemma clear_bits_positions: "clear_bits bs = positions False bs"
  by (auto simp: clear_bits_def positions_def)

lemma positions_Nil [simp]: "positions v [] = {}"
  by (simp add: positions_def)

lemma positions_Cons:
  "positions v (l # ls) = {i. i < 32 \<and> bit l i = v} \<union> (\<lambda>i. i + 32) ` positions v ls"
proof (rule set_eqI)
  fix i
  show "i \<in> positions v (l # ls) \<longleftrightarrow> i \<in> {i. i < 32 \<and> bit l i = v} \<union> (\<lambda>i. i + 32) ` positions v ls"
  proof (cases "i < 32")
    case False
    then obtain j where "i = j + 32" by (metis add.commute le_Suc_ex not_less)
    then show ?thesis by (auto simp: positions_def bitval_Cons image_iff)
  qed (auto simp: positions_def bitval_Cons)
qed

definition is_first :: "nat set \<Rightarrow> int \<Rightarrow> bool" where
  "is_first S r \<longleftrightarrow> (if S = {} then r = -1 else 0 \<le> r \<and> nat r \<in> S \<and> (\<forall>j<nat r. j \<notin> S))"

lemma is_first_shift:
  "is_first S r \<Longrightarrow> is_first ((\<lambda>i. i + 32) ` S) (if r = -1 then -1 else r + 32)"
  by (cases "S = {}") (auto simp: is_first_def nat_add_distrib)

lemma is_first_head:
  "i \<in> A \<Longrightarrow> \<forall>j<i. j \<notin> A \<Longrightarrow> \<forall>j\<in>B. i < j \<Longrightarrow> is_first (A \<union> B) (int i)"
  by (fastforce simp: is_first_def)

definition rebase :: "int \<Rightarrow> int \<Rightarrow> int" where
  "rebase k r = (if r = -1 then -1 else r + 32 * k)"

lemma ffbit0_loop_first:
  "\<exists>r. is_first (positions False ls) r \<and> ffbit0_loop ls k = Some (rebase k r)"
proof (induction ls arbitrary: k)
  case Nil
  then show ?case by (simp add: is_first_def rebase_def)
next
  case (Cons l ls)
  show ?case
  proof (cases "l = -1")
    case True
    obtain r where r: "is_first (positions False ls) r" "ffbit0_loop ls (k + 1) = Some (rebase (k + 1) r)"
      using Cons.IH by blast
    then have "r \<ge> -1" by (auto simp: is_first_def split: if_splits)
    with r True show ?thesis
      using is_first_shift [OF r(1)]
      by (intro exI [of _ "if r = -1 then -1 else r + 32"]) (auto simp: positions_Cons rebase_def)
  next
    case False
    then have "NOT l \<noteq> 0" by (metis bit.double_compl bit.compl_zero)
    then obtain i where i: "bsf (NOT l) = Some i" using bsf_None by fastforce
    then have b: "bit (NOT l) i" "\<forall>j<i. \<not> bit (NOT l) j" by (simp_all only: bsf_Some) auto
    then have "i < 32" using bit_imp_le_length [of "NOT l" i] by simp
    with b have "is_first (positions False (l # ls)) (int i)"
      unfolding positions_Cons by (intro is_first_head) (auto simp: bit_not_iff)
    with False i show ?thesis by (intro exI [of _ "int i"]) (simp add: rebase_def)
  qed
qed

lemma ffbit1_loop_first:
  "\<exists>r. is_first (positions True ls) r \<and> ffbit1_loop ls k = Some (rebase k r)"
proof (induction ls arbitrary: k)
  case Nil
  then show ?case by (simp add: is_first_def rebase_def)
next
  case (Cons l ls)
  show ?case
  proof (cases "l = 0")
    case True
    obtain r where r: "is_first (positions True ls) r" "ffbit1_loop ls (k + 1) = Some (rebase (k + 1) r)"
      using Cons.IH by blast
    then have "r \<ge> -1" by (auto simp: is_first_def split: if_splits)
    with r True show ?thesis
      using is_first_shift [OF r(1)]
      by (intro exI [of _ "if r = -1 then -1 else r + 32"]) (auto simp: positions_Cons rebase_def)
  next
    case False
    then obtain i where i: "bsf l = Some i" using bsf_None by fastforce
    then have b: "bit l i" "\<forall>j<i. \<not> bit l j" by (simp_all only: bsf_Some) auto
    then have "i < 32" using bit_imp_le_length [of l i] by simp
    with b have "is_first (positions True (l # ls)) (int i)"
      unfolding positions_Cons by (intro is_first_head) auto
    with False i show ?thesis by (intro exI [of _ "int i"]) (simp add: rebase_def)
  qed
qed

lemma ffbit_spec:
  assumes "n = 32 * length bs"
  shows "\<exists>r. ffbit0 bs n = Some r \<and> is_first (positions False bs) r"
    and "\<exists>r. ffbit1 bs n = Some r \<and> is_first (positions True bs) r"
  using ffbit0_loop_first [of bs 0] ffbit1_loop_first [of bs 0] assms
  by (auto simp: ffbit0_def ffbit1_def rebase_def)

subsection \<open>The nibble table\<close>

lemma nibble_table:
  assumes "n < 16"
  shows "bit0perchar ! n = int (card {i. i < 4 \<and> \<not> bit n i})"
proof -
  have "{i. i < 4 \<and> \<not> bit n i} = set (filter (\<lambda>i. \<not> bit n i) [0..<4])" by auto
  then have "card {i. i < 4 \<and> \<not> bit n i} = length (filter (\<lambda>i. \<not> bit n i) [0..<4])"
    by (simp only: distinct_card distinct_filter distinct_upt)
  moreover have "n \<in> {0,1,2,3,4,5,6,7,8,9,10,11,12,13,14,15}" using assms by simp arith
  ultimately show ?thesis
    by (auto simp: bit0perchar_def upt_rec bit_iff_odd)
qed

lemma card_chunks:
  "card {i. i < c * m \<and> P i} = (\<Sum>j<m. card {i. i < c \<and> P (c * j + i)})" for c m :: nat
proof (induction m)
  case (Suc m)
  have "{i. i < c * Suc m \<and> P i} = {i. i < c * m \<and> P i} \<union> (\<lambda>i. c * m + i) ` {i. i < c \<and> P (c * m + i)}"
    by (auto simp: image_iff) (metis add.commute add_less_cancel_left le_Suc_ex not_less)
  moreover have "card ((\<lambda>i. c * m + i) ` {i. i < c \<and> P (c * m + i)}) = card {i. i < c \<and> P (c * m + i)}"
    by (intro card_image inj_onI) simp
  ultimately show ?case
    using Suc by (simp add: card_Un_disjoint disjoint_iff image_iff)
qed simp

lemma unat_nibble: "unat (drop_bit k (w :: u8) AND 15) = unat w div 2 ^ k mod 16"
proof -
  have "(15 :: u8) = 2 ^ 4 - 1" by simp
  then have "unat (drop_bit k w AND 15) = unat (drop_bit k w) mod 2 ^ 4"
    by (simp only: unat_and_mask)
  then show ?thesis by (simp only: unat_drop_bit_eq) (simp add: drop_bit_eq_div)
qed

lemma byte_zeros_eq: "byte_zeros c = int (card {i. i < 8 \<and> \<not> bit c i})"
proof -
  have b: "bit (unat c div 2 ^ k mod 16) i = bit c (k + i)" if "i < 4" for i k
    using that bit_take_bit_iff [of 4 "drop_bit k (unat c)" i]
    by (simp add: take_bit_eq_mod bit_drop_bit_eq bit_unat flip: drop_bit_eq_div)
  have "byte_zeros c = bit0perchar ! (unat c div 2 ^ 0 mod 16) + bit0perchar ! (unat c div 2 ^ 4 mod 16)"
    using unat_nibble [of 0 c] unat_nibble [of 4 c] by (simp add: byte_zeros_def)
  also have "\<dots> = int (card {i. i < 4 \<and> \<not> bit c i}) + int (card {i. i < 4 \<and> \<not> bit c (4 + i)})"
    using b [of _ 0] b [of _ 4] by (simp add: nibble_table cong: conj_cong)
  also have "\<dots> = int (card {i. i < 4 * 2 \<and> \<not> bit c i})"
    unfolding card_chunks by (simp add: numeral_2_eq_2)
  finally show ?thesis by simp
qed

lemma bit_bytes_of_word: "i < 8 \<Longrightarrow> bit (ucast (drop_bit (8 * k) w) :: u8) i = bit (w :: u32) (8 * k + i)"
  by (simp add: bit_simps)

lemma word_zeros:
  "sum_list (map byte_zeros (bytes_of_word w)) = int (card {i. i < 32 \<and> \<not> bit w i})"
proof -
  have "card {i. i < 8 * 4 \<and> \<not> bit w i} = (\<Sum>k<4. card {i. i < 8 \<and> \<not> bit w (8 * k + i)})"
    by (rule card_chunks)
  then show ?thesis
    by (simp add: bytes_of_word_def byte_zeros_eq bit_bytes_of_word interv_sum_list_conv_sum_set_nat
        comp_def atLeast0LessThan cong: conj_cong)
qed

lemma countbit0_loop_sum: "countbit0_loop cs s = s + sum_list (map byte_zeros cs)"
  by (induction cs arbitrary: s) auto

lemma card_positions_Cons:
  "card (positions v (l # ls)) = card {i. i < 32 \<and> bit l i = v} + card (positions v ls)"
proof -
  have "card ((\<lambda>i. i + 32) ` positions v ls) = card (positions v ls)"
    by (intro card_image inj_onI) simp
  moreover have "finite (positions v ls)" by (simp add: positions_def)
  ultimately show ?thesis
    unfolding positions_Cons by (subst card_Un_disjoint) auto
qed

lemma words_zeros:
  "sum_list (map byte_zeros (concat (map bytes_of_word bs))) = int (card (positions False bs))"
  by (induction bs) (simp_all add: card_positions_Cons word_zeros)

lemma length_bytes [simp]: "length (concat (map bytes_of_word bs)) = 4 * length bs"
  by (induction bs) (simp_all add: bytes_of_word_def)

lemma countbit0_eq:
  "countbit0 bs (32 * length bs) = Some (int (card (positions False bs)))"
  by (simp add: countbit0_def countbit0_loop_sum words_zeros)

lemma card_positions_compl:
  "card (positions False bs) + card (positions True bs) = 32 * length bs"
proof -
  have "positions False bs \<union> positions True bs = {..<32 * length bs}"
    and "positions False bs \<inter> positions True bs = {}" by (auto simp: positions_def)
  then show ?thesis
    by (metis card_Un_disjoint card_lessThan finite_Un finite_lessThan)
qed

subsection \<open>The invariant of \<^verbatim>\<open>bitmap_t\<close>\<close>

definition bm_ok :: "bitmap \<Rightarrow> bool" where
  "bm_ok b \<longleftrightarrow> nbit b = 32 * length (bits b) \<and> nbit0 b = int (card (clear_bits (bits b)))"

lemma bitmap_ctor_ok: "\<exists>b. bitmap_ctor bs (32 * length bs) = Some b \<and> bm_ok b \<and> bits b = bs"
  by (simp add: bitmap_ctor_def countbit0_eq bm_ok_def clear_bits_positions)

lemma bitmap_tst_spec:
  "bm_ok b \<Longrightarrow> i < nbit b \<Longrightarrow> bitmap_tst b (int i) = Some (if i \<in> clear_bits (bits b) then 0 else -1)"
  by (simp add: bitmap_tst_def tstbit_eq bm_ok_def clear_bits_def)

lemma card_Diff_int: "finite S \<Longrightarrow> int (card (S - {i})) = int (card S) - (if i \<in> S then 1 else 0)"
  using card_Suc_Diff1 [of S i] by auto

lemma card_insert_int: "finite S \<Longrightarrow> int (card (insert i S)) = int (card S) + (if i \<in> S then 0 else 1)"
  by (simp add: insert_absorb)

lemma bitmap_set_spec:
  assumes "bm_ok b" and "i < nbit b"
  shows "\<exists>b'. bitmap_set (int i) b = Some b' \<and> bm_ok b' \<and> nbit b' = nbit b \<and>
    clear_bits (bits b') = clear_bits (bits b) - {i}"
proof -
  have i: "nat (int i) < 32 * length (bits b)" using assms by (simp add: bm_ok_def)
  obtain bs where bs: "setbit (bits b) (int i) = Some bs" "length bs = length (bits b)"
      "\<And>j. j < 32 * length (bits b) \<Longrightarrow> bitval bs j = (if j = nat (int i) then True else bitval (bits b) j)"
    using setbit_spec [OF _ i] by auto
  then have "clear_bits bs = clear_bits (bits b) - {i}"
    by (auto simp: clear_bits_def split: if_splits)
  with assms bs(1,2) show ?thesis
    by (simp add: bitmap_set_def bitmap_tst_spec card_Diff_int bm_ok_def)
qed

lemma bitmap_clr_spec:
  assumes "bm_ok b" and "i < nbit b"
  shows "\<exists>b'. bitmap_clr (int i) b = Some b' \<and> bm_ok b' \<and> nbit b' = nbit b \<and>
    clear_bits (bits b') = insert i (clear_bits (bits b))"
proof -
  have i: "nat (int i) < 32 * length (bits b)" using assms by (simp add: bm_ok_def)
  obtain bs where bs: "clrbit (bits b) (int i) = Some bs" "length bs = length (bits b)"
      "\<And>j. j < 32 * length (bits b) \<Longrightarrow> bitval bs j = (if j = nat (int i) then False else bitval (bits b) j)"
    using clrbit_spec [OF _ i] by auto
  then have "clear_bits bs = insert i (clear_bits (bits b))"
    using i by (auto simp: clear_bits_def split: if_splits)
  with assms bs(1,2) show ?thesis
    by (simp add: bitmap_clr_def bitmap_tst_spec card_insert_int bm_ok_def)
qed

lemma bitmap_chg_spec:
  assumes "bm_ok b" and "i < nbit b"
  shows "\<exists>b'. bitmap_chg (int i) b = Some b' \<and> bm_ok b' \<and> nbit b' = nbit b \<and>
    clear_bits (bits b') = (if i \<in> clear_bits (bits b) then clear_bits (bits b) - {i}
                            else insert i (clear_bits (bits b)))"
proof -
  have i: "nat (int i) < 32 * length (bits b)" using assms by (simp add: bm_ok_def)
  obtain bs where bs: "chgbit (bits b) (int i) = Some bs" "length bs = length (bits b)"
      "\<And>j. j < 32 * length (bits b) \<Longrightarrow>
        bitval bs j = (if j = nat (int i) then \<not> bitval (bits b) j else bitval (bits b) j)"
    using chgbit_spec [OF _ i] by auto
  then have "clear_bits bs = (if i \<in> clear_bits (bits b) then clear_bits (bits b) - {i}
                            else insert i (clear_bits (bits b)))"
    using i by (auto simp: clear_bits_def split: if_splits)
  with assms bs(1,2) show ?thesis
    by (cases "i \<in> clear_bits (bits b)")
       (simp_all add: bitmap_chg_def bitmap_tst_spec card_insert_int card_Diff_int bm_ok_def
         del: card_Diff_insert card_Diff_singleton)
qed

lemma bitmap_ff0_spec:
  assumes "bm_ok b"
  shows "\<exists>r. bitmap_ff0 b = Some r \<and> is_first (clear_bits (bits b)) r"
  using assms ffbit_spec(1) [of "nbit b" "bits b"]
  by (auto simp: bitmap_ff0_def bm_ok_def is_first_def clear_bits_positions positions_def)

lemma bitmap_ff1_spec:
  assumes "bm_ok b"
  shows "\<exists>r. bitmap_ff1 b = Some r \<and> is_first (positions True (bits b)) r"
proof (cases "nbit0 b = int (nbit b)")
  case True
  then have "card (positions True (bits b)) = 0"
    using assms card_positions_compl [of "bits b"] by (simp add: bm_ok_def clear_bits_positions)
  then have "positions True (bits b) = {}" by (simp add: positions_def)
  with True show ?thesis by (simp add: bitmap_ff1_def is_first_def)
next
  case False
  then show ?thesis
    using assms ffbit_spec(2) [of "nbit b" "bits b"] by (simp add: bitmap_ff1_def bm_ok_def)
qed

subsection \<open>Pools of indices\<close>

text \<open>
  What the file system needs of a bitmap: a pool of indices below a capacity, with the first free
  one, marking and unmarking.  The client loop that allocates several indices in a row is stated
  over the operations it calls.
\<close>

fun alloc_many :: "('b \<Rightarrow> int option) \<Rightarrow> (int \<Rightarrow> 'b \<Rightarrow> 'b option) \<Rightarrow> nat \<Rightarrow> 'b \<Rightarrow> (int list \<times> 'b) option" where
  "alloc_many ff mk 0 b = Some ([], b)"
| "alloc_many ff mk (Suc k) b = do {
     r \<leftarrow> ff b;
     if r = -1 then Some ([], b)
     else do {
       b1 \<leftarrow> mk r b;
       (rs, b2) \<leftarrow> alloc_many ff mk k b1;
       Some (r # rs, b2) } }"

locale index_pool =
  fixes ok :: "'b \<Rightarrow> bool"
    and cap :: "'b \<Rightarrow> nat"
    and free :: "'b \<Rightarrow> nat set"
    and first :: "'b \<Rightarrow> int option"
    and mark :: "int \<Rightarrow> 'b \<Rightarrow> 'b option"
    and unmark :: "int \<Rightarrow> 'b \<Rightarrow> 'b option"
  assumes free_cap: "ok b \<Longrightarrow> free b \<subseteq> {..<cap b}"
    and first_is: "ok b \<Longrightarrow> \<exists>r. first b = Some r \<and> is_first (free b) r"
    and mark_is: "ok b \<Longrightarrow> i < cap b \<Longrightarrow>
      \<exists>b'. mark (int i) b = Some b' \<and> ok b' \<and> cap b' = cap b \<and> free b' = free b - {i}"
    and unmark_is: "ok b \<Longrightarrow> i < cap b \<Longrightarrow>
      \<exists>b'. unmark (int i) b = Some b' \<and> ok b' \<and> cap b' = cap b \<and> free b' = insert i (free b)"
begin

lemma finite_free: "ok b \<Longrightarrow> finite (free b)"
  using free_cap finite_subset by blast

lemma first_none: "ok b \<Longrightarrow> first b = Some (-1) \<longleftrightarrow> free b = {}"
  using first_is [of b] by (auto simp: is_first_def split: if_splits)

lemma alloc_least:
  assumes "ok b" and "free b \<noteq> {}"
  obtains i b' where "first b = Some (int i)" and "i \<in> free b" and "\<forall>j\<in>free b. i \<le> j"
    and "mark (int i) b = Some b'" and "ok b'" and "cap b' = cap b" and "free b' = free b - {i}"
proof -
  obtain r where r: "first b = Some r" "is_first (free b) r" using first_is assms(1) by blast
  then have "first b = Some (int (nat r))" "nat r \<in> free b" "\<forall>j\<in>free b. nat r \<le> j"
    using assms(2) by (auto simp: is_first_def not_le [symmetric])
  with that mark_is [OF assms(1)] free_cap [OF assms(1)] show ?thesis by blast
qed

lemma release_undoes_alloc:
  assumes "ok b" and "free b \<noteq> {}"
  shows "\<exists>r b1 b2. first b = Some r \<and> mark r b = Some b1 \<and> unmark r b1 = Some b2 \<and>
    ok b2 \<and> free b2 = free b"
proof -
  obtain i b' where i: "first b = Some (int i)" "i \<in> free b" "mark (int i) b = Some b'" "ok b'"
      "cap b' = cap b" "free b' = free b - {i}"
    using alloc_least [OF assms] by metis
  then have "i < cap b'" using free_cap [OF assms(1)] by auto
  with i show ?thesis using unmark_is [of b' i] by (metis insert_Diff)
qed

lemma alloc_many_ok:
  "ok b \<Longrightarrow> \<exists>rs b'. alloc_many first mark k b = Some (rs, b') \<and> ok b' \<and> cap b' = cap b \<and>
     distinct rs \<and> set rs \<subseteq> int ` free b \<and> free b' = free b - nat ` set rs \<and>
     length rs = min k (card (free b))"
proof (induction k arbitrary: b)
  case (Suc k)
  show ?case
  proof (cases "free b = {}")
    case True
    then show ?thesis using Suc.prems first_none [OF Suc.prems] by simp
  next
    case False
    then obtain i b1 where i: "first b = Some (int i)" "i \<in> free b" "mark (int i) b = Some b1" "ok b1"
        "cap b1 = cap b" "free b1 = free b - {i}"
      using alloc_least [OF Suc.prems] by metis
    moreover obtain rs b2 where rs: "alloc_many first mark k b1 = Some (rs, b2)" "ok b2" "cap b2 = cap b1"
        "distinct rs" "set rs \<subseteq> int ` free b1" "free b2 = free b1 - nat ` set rs"
        "length rs = min k (card (free b1))"
      using Suc.IH [OF i(4)] by blast
    moreover have "length (int i # rs) = min (Suc k) (card (free b))"
      using rs(7) i(2) card.remove [OF finite_free [OF Suc.prems] i(2)] by (simp only: i(6) list.size)
    moreover have "int i \<notin> set rs" using rs(5) i(6) by auto
    moreover have "set rs \<subseteq> int ` free b" using rs(5) i(6) by blast
    moreover have "free b2 = free b - nat ` set (int i # rs)" using rs(6) i(6) by auto
    ultimately show ?thesis by (intro exI [of _ "int i # rs"] exI [of _ b2]) simp
  qed
qed simp

end

interpretation bmp: index_pool bm_ok nbit "\<lambda>b. clear_bits (bits b)" bitmap_ff0 bitmap_set bitmap_clr
proof unfold_locales
  show "bm_ok b \<Longrightarrow> clear_bits (bits b) \<subseteq> {..<nbit b}" for b
    by (auto simp: bm_ok_def clear_bits_def)
qed (fact bitmap_ff0_spec bitmap_set_spec bitmap_clr_spec)+

subsection \<open>Properties\<close>

definition demo_bitmap :: bitmap where
  "demo_bitmap = \<lparr>nbit0 = 33, nbit = 64, bits = [0x7fffffff, 0]\<rparr>"

lemma demo_bitmap_ok: "bm_ok demo_bitmap"
proof -
  have "countbit0 [0x7fffffff, 0] 64 = Some 33"
    by code_simp
  then show ?thesis
    using countbit0_eq [of "[0x7fffffff, 0]"] by (simp add: bm_ok_def demo_bitmap_def clear_bits_positions)
qed

datatype bitmap_op = Set nat | Clr nat | Chg nat

fun op_index :: "bitmap_op \<Rightarrow> nat" where
  "op_index (Set i) = i"
| "op_index (Clr i) = i"
| "op_index (Chg i) = i"

fun op_run :: "bitmap_op list \<Rightarrow> bitmap \<Rightarrow> bitmap option" where
  "op_run [] b = Some b"
| "op_run (Set i # ops) b = do { b1 \<leftarrow> bitmap_set (int i) b; op_run ops b1 }"
| "op_run (Clr i # ops) b = do { b1 \<leftarrow> bitmap_clr (int i) b; op_run ops b1 }"
| "op_run (Chg i # ops) b = do { b1 \<leftarrow> bitmap_chg (int i) b; op_run ops b1 }"

fun op_spec :: "bitmap_op \<Rightarrow> nat set \<Rightarrow> nat set" where
  "op_spec (Set i) S = S - {i}"
| "op_spec (Clr i) S = insert i S"
| "op_spec (Chg i) S = (if i \<in> S then S - {i} else insert i S)"

lemma op_step_spec:
  assumes "bm_ok b" and "op_index x < nbit b"
  shows "\<exists>b'. (\<forall>ops. op_run (x # ops) b = op_run ops b') \<and> bm_ok b' \<and> nbit b' = nbit b \<and>
    clear_bits (bits b') = op_spec x (clear_bits (bits b))"
proof (cases x)
  case (Set i)
  then show ?thesis using bitmap_set_spec [of b i] assms by force
next
  case (Clr i)
  then show ?thesis using bitmap_clr_spec [of b i] assms by force
next
  case (Chg i)
  then show ?thesis using bitmap_chg_spec [of b i] assms by fastforce
qed

lemma op_run_spec:
  "bm_ok b \<Longrightarrow> \<forall>x\<in>set ops. op_index x < nbit b \<Longrightarrow>
   \<exists>b'. op_run ops b = Some b' \<and> bm_ok b' \<and> nbit b' = nbit b \<and>
     clear_bits (bits b') = fold op_spec ops (clear_bits (bits b))"
proof (induction ops arbitrary: b)
  case (Cons x ops)
  have "op_index x < nbit b" using Cons.prems by simp
  then obtain b1 where b1: "op_run (x # ops) b = op_run ops b1" "bm_ok b1" "nbit b1 = nbit b"
      "clear_bits (bits b1) = op_spec x (clear_bits (bits b))"
    using op_step_spec [OF Cons.prems(1)] by blast
  moreover have "\<forall>x\<in>set ops. op_index x < nbit b1" using Cons.prems(2) b1(3) by simp
  ultimately show ?case using Cons.IH [of b1] by auto
qed simp

text \<open>
  C19: The cached count of a bitmap is the number of its clear bits at all times.  The constructor
  computes it through the nibble table from any array of words, and every sequence of
  \<^verbatim>\<open>set\<close>, \<^verbatim>\<open>clr\<close> and \<^verbatim>\<open>chg\<close> calls below the size then runs to its
  end, changes the set of clear positions as the mathematical operations do, and leaves
  \<^verbatim>\<open>count0\<close> and \<^verbatim>\<open>count1\<close> exact.
\<close>

theorem bitmap_trace_refines_set:
  assumes "\<forall>x\<in>set ops. op_index x < 32 * length bs"
  shows "\<exists>b b'. bitmap_ctor bs (32 * length bs) = Some b \<and> op_run ops b = Some b' \<and>
    clear_bits (bits b') = fold op_spec ops (clear_bits bs) \<and>
    bitmap_count0 b' = int (card (clear_bits (bits b'))) \<and>
    bitmap_count1 b' = int (card (positions True (bits b')))"
proof -
  obtain b where b: "bitmap_ctor bs (32 * length bs) = Some b" "bm_ok b" "bits b = bs"
    using bitmap_ctor_ok by blast
  moreover obtain b' where b': "op_run ops b = Some b'" "bm_ok b'"
      "clear_bits (bits b') = fold op_spec ops (clear_bits (bits b))"
    using op_run_spec [OF b(2), of ops] assms b(2,3) by (auto simp: bm_ok_def)
  ultimately show ?thesis
    using card_positions_compl [of "bits b'"]
    by (simp add: bitmap_count0_def bitmap_count1_def bm_ok_def clear_bits_positions)
qed

theorem bitmap_trace_witness:
  "\<exists>b b'. bitmap_ctor [0x7fffffff, 0] 64 = Some b \<and> op_run [Set 40, Clr 3, Chg 3] b = Some b' \<and>
    bitmap_count0 b' = int (card (clear_bits (bits b')))"
  using bitmap_trace_refines_set [of "[Set 40, Clr 3, Chg 3]" "[0x7fffffff, 0]"] by force

text \<open>
  Allocation from a bitmap, as the file system does it for blocks and inodes (take the first
  clear bit, set it, repeat): the calls never fault, the indices handed out are distinct, all of
  them were clear before, exactly they are set afterwards, and the pool is exhausted only when
  every bit is set.
\<close>

theorem bitmap_alloc_many:
  assumes "bm_ok b"
  shows "\<exists>rs b'. alloc_many bitmap_ff0 bitmap_set k b = Some (rs, b') \<and> bm_ok b' \<and>
    distinct rs \<and> set rs \<subseteq> int ` clear_bits (bits b) \<and>
    clear_bits (bits b') = clear_bits (bits b) - nat ` set rs \<and>
    length rs = min k (card (clear_bits (bits b)))"
  using bmp.alloc_many_ok [OF assms, of k] by auto

theorem bitmap_alloc_witness:
  "\<exists>rs b'. alloc_many bitmap_ff0 bitmap_set 2 demo_bitmap = Some (rs, b') \<and> bm_ok b' \<and> distinct rs"
  using bitmap_alloc_many [OF demo_bitmap_ok, of 2] by auto

subsection \<open>The constructor of \<^verbatim>\<open>bitmap_tl\<close> clears too little\<close>

lemma word_of_bytes_of_word: "word_of_bytes (bytes_of_word w) = w"
proof (rule bit_word_eqI)
  fix n assume "n < LENGTH(32)"
  then consider "n < 8" | "8 \<le> n \<and> n < 16" | "16 \<le> n \<and> n < 24" | "24 \<le> n \<and> n < 32"
    by force
  then show "bit (word_of_bytes (bytes_of_word w)) n = bit w n"
    by cases (auto simp: word_of_bytes_def bytes_of_word_def upt_rec bit_simps dest: bit_imp_le_length)
qed

lemma words_of_bytes_of_words: "words_of_bytes (concat (map bytes_of_word ws)) = ws"
proof (induction ws)
  case (Cons w ws)
  then show ?case
    using word_of_bytes_of_word [of w] by (simp add: bytes_of_word_def upt_rec)
qed simp

lemma words_of_bytes_nth:
  "4 * k + 4 \<le> length xs \<Longrightarrow> words_of_bytes xs ! k = word_of_bytes (take 4 (drop (4 * k) xs))"
proof (induction xs arbitrary: k rule: words_of_bytes.induct)
  case (1 a b c d xs)
  then show ?case by (cases k) (auto simp: numeral_eq_Suc)
qed auto

text \<open>
  The default constructor of \<^verbatim>\<open>bitmap_tl<NR>\<close> does not clear the bitmap: every word whose
  index \<open>k\<close> satisfies \<open>NR/32 \<le> 4k\<close> keeps the contents the memory had before, since the byte count
  given to \<^verbatim>\<open>memset\<close> is the number of words.
\<close>

theorem bitmap_tl_ctor_leaves_words:
  assumes "NR = 32 * length bs" and "length bs \<le> 4 * k" and "k < length bs"
  shows "\<exists>bs'. bitmap_tl_ctor NR bs = Some bs' \<and> bs' ! k = bs ! k"
proof -
  define xs where "xs = concat (map bytes_of_word bs)"
  have len: "length xs = 4 * length bs" by (simp add: xs_def)
  have "words_of_bytes (memset_bytes xs 0 (length bs)) ! k = words_of_bytes xs ! k"
    using assms len by (simp add: memset_bytes_def words_of_bytes_nth)
  then show ?thesis
    using assms(1) words_of_bytes_of_words [of bs] by (simp add: bitmap_tl_ctor_def xs_def)
qed

theorem bitmap_tl_ctor_witness:
  "\<exists>bs'. bitmap_tl_ctor 64 [5, 7] = Some bs' \<and> bs' ! 1 = 7"
  using bitmap_tl_ctor_leaves_words [of 64 "[5, 7]" 1] by simp

end
