(* ===== verification/Lib_Fifoq.thy ===== *)
theory Lib_Fifoq
  imports Lib_Queue
begin

text \<open>
  The byte ring buffer of \<^verbatim>\<open>lib/fifoq.h\<close> and \<^verbatim>\<open>lib/fifoq.cc\<close>, used by pipes, the
  terminal and the network: a room of a power-of-two size, a read and a write pointer (as offsets
  into the room) and the number of buffered bytes.  The abstraction \<open>fq_list\<close> is the list of
  buffered bytes, oldest first; every operation is shown to be the list operation it stands for,
  including the copies in up to two chunks around the end of the room.
\<close>

record fifoq =
  room :: "u8 list"
  rptr :: int
  wptr :: int
  nbyte :: int
  rmask :: int
  rsize :: int

subsection \<open>Operations\<close>

definition fq_init :: "u8 list \<Rightarrow> int \<Rightarrow> fifoq option" where
  "fq_init room0 size0 = do {
     kassert ((size0 - 1) AND size0 = 0);
     Some \<lparr>room = room0, rptr = 0, wptr = 0, nbyte = 0, rmask = size0 - 1, rsize = size0\<rparr> }"

definition nchar :: "fifoq \<Rightarrow> int" where "nchar q = nbyte q"
definition space :: "fifoq \<Rightarrow> int" where "space q = rsize q - nbyte q"
definition fq_empty :: "fifoq \<Rightarrow> bool" where "fq_empty q \<longleftrightarrow> nchar q = 0"
definition fq_full :: "fifoq \<Rightarrow> bool" where "fq_full q \<longleftrightarrow> space q = 0"

definition fq_clear :: "fifoq \<Rightarrow> fifoq option" where
  "fq_clear q = fq_init (room q) (rsize q)"

definition fq_check :: "fifoq \<Rightarrow> unit option" where
  "fq_check q = do {
     kassert (0 \<le> rptr q \<and> rptr q < rsize q);
     kassert (0 \<le> wptr q \<and> wptr q < rsize q);
     (if rptr q < wptr q then kassert (nbyte q = wptr q - rptr q) else Some ());
     (if wptr q < rptr q then kassert (nbyte q = rsize q + wptr q - rptr q) else Some ());
     (if rptr q = wptr q then kassert (nbyte q = 0 \<or> nbyte q = rsize q) else Some ()) }"

definition maxrchunk :: "fifoq \<Rightarrow> int" where
  "maxrchunk q = min (nbyte q) (rsize q - rptr q)"

definition maxwchunk :: "fifoq \<Rightarrow> int" where
  "maxwchunk q = min (rsize q - nbyte q) (rsize q - wptr q)"

definition offset :: "fifoq \<Rightarrow> int \<Rightarrow> int" where
  "offset q n = n AND rmask q"

definition adjustrptr :: "int \<Rightarrow> fifoq \<Rightarrow> fifoq option" where
  "adjustrptr nr q = do {
     fq_check q;
     kassert (nr \<le> nchar q);
     Some (q\<lparr>rptr := offset q (rptr q + nr), nbyte := nbyte q - nr\<rparr>) }"

definition adjustwptr :: "int \<Rightarrow> fifoq \<Rightarrow> fifoq option" where
  "adjustwptr nr q = do {
     fq_check q;
     kassert (nr \<le> space q);
     Some (q\<lparr>wptr := offset q (wptr q + nr), nbyte := nbyte q + nr\<rparr>) }"

text \<open>Reads and writes of the room; outside it the kernel is lost.\<close>

definition room_get :: "fifoq \<Rightarrow> int \<Rightarrow> u8 option" where
  "room_get q i = do { kassert (0 \<le> i \<and> nat i < length (room q)); Some (room q ! nat i) }"

definition room_put :: "int \<Rightarrow> u8 \<Rightarrow> fifoq \<Rightarrow> fifoq option" where
  "room_put i c q = do {
     kassert (0 \<le> i \<and> nat i < length (room q));
     Some (q\<lparr>room := (room q)[nat i := c]\<rparr>) }"

definition copy_out :: "fifoq \<Rightarrow> int \<Rightarrow> int \<Rightarrow> u8 list option" where
  "copy_out q i n = do {
     kassert (0 \<le> i \<and> 0 \<le> n \<and> nat (i + n) \<le> length (room q));
     Some (take (nat n) (drop (nat i) (room q))) }"

definition copy_in :: "int \<Rightarrow> u8 list \<Rightarrow> fifoq \<Rightarrow> fifoq option" where
  "copy_in i bs q = do {
     kassert (0 \<le> i \<and> nat i + length bs \<le> length (room q));
     Some (q\<lparr>room := take (nat i) (room q) @ bs @ drop (nat i + length bs) (room q)\<rparr>) }"

text \<open>The character operations return the character read, if any, and the source's result.\<close>

definition peekc :: "fifoq \<Rightarrow> (u8 option \<times> int) option" where
  "peekc q = (if fq_empty q then Some (None, 0)
     else do { c \<leftarrow> room_get q (rptr q); Some (Some c, 1) })"

definition getc :: "fifoq \<Rightarrow> ((u8 option \<times> int) \<times> fifoq) option" where
  "getc q = (if fq_empty q then Some ((None, 0), q)
     else do {
       c \<leftarrow> room_get q (rptr q);
       q1 \<leftarrow> adjustrptr 1 q;
       Some ((Some c, 1), q1) })"

definition ungetc :: "u8 \<Rightarrow> fifoq \<Rightarrow> (int \<times> fifoq) option" where
  "ungetc c q = (if fq_full q then Some (0, q)
     else do {
       q1 \<leftarrow> adjustrptr (-1) q;
       q2 \<leftarrow> room_put (rptr q1) c q1;
       Some (1, q2) })"

definition putc :: "u8 \<Rightarrow> fifoq \<Rightarrow> (int \<times> fifoq) option" where
  "putc c q = (if fq_full q then Some (0, q)
     else do {
       q1 \<leftarrow> room_put (wptr q) c q;
       q2 \<leftarrow> adjustwptr 1 q1;
       Some (1, q2) })"

definition unputc :: "fifoq \<Rightarrow> ((u8 option \<times> int) \<times> fifoq) option" where
  "unputc q = (if fq_empty q then Some ((None, 0), q)
     else do {
       q1 \<leftarrow> adjustwptr (-1) q;
       c \<leftarrow> room_get q1 (wptr q1);
       Some ((Some c, 1), q1) })"

partial_function (option) getn_loop ::
    "fifoq \<Rightarrow> int \<Rightarrow> u8 list \<Rightarrow> (u8 list \<times> fifoq) option" where
  "getn_loop q len buf =
     (if len \<noteq> 0 \<and> nchar q \<noteq> 0 then do {
        let chunk = min len (maxrchunk q);
        bs \<leftarrow> copy_out q (rptr q) chunk;
        q1 \<leftarrow> adjustrptr chunk q;
        getn_loop q1 (len - chunk) (buf @ bs) }
      else Some (buf, q))"

definition getn :: "int \<Rightarrow> fifoq \<Rightarrow> (u8 list \<times> fifoq) option" where
  "getn len q = getn_loop q len []"

definition peekn :: "int \<Rightarrow> fifoq \<Rightarrow> (u8 list \<times> fifoq) option" where
  "peekn len q = do {
     (bs, q1) \<leftarrow> getn len q;
     q2 \<leftarrow> adjustrptr (- int (length bs)) q1;
     Some (bs, q2) }"

partial_function (option) putn_loop ::
    "fifoq \<Rightarrow> u8 list \<Rightarrow> int \<Rightarrow> int \<Rightarrow> (int \<times> fifoq) option" where
  "putn_loop q buf len written =
     (if len \<noteq> 0 \<and> space q \<noteq> 0 then do {
        let chunk = min len (maxwchunk q);
        kassert (0 \<le> chunk \<and> nat chunk \<le> length buf);
        q1 \<leftarrow> copy_in (wptr q) (take (nat chunk) buf) q;
        q2 \<leftarrow> adjustwptr chunk q1;
        putn_loop q2 (drop (nat chunk) buf) (len - chunk) (written + chunk) }
      else Some (written, q))"

definition putn :: "u8 list \<Rightarrow> int \<Rightarrow> fifoq \<Rightarrow> (int \<times> fifoq) option" where
  "putn buf len q = putn_loop q buf len 0"

subsection \<open>Invariant and abstraction\<close>

definition fq_ok :: "fifoq \<Rightarrow> bool" where
  "fq_ok q \<longleftrightarrow> (\<exists>k. rsize q = 2 ^ k) \<and> rmask q = rsize q - 1 \<and> int (length (room q)) = rsize q \<and>
     0 \<le> rptr q \<and> rptr q < rsize q \<and> 0 \<le> nbyte q \<and> nbyte q \<le> rsize q \<and>
     wptr q = (rptr q + nbyte q) mod rsize q"

definition slot :: "fifoq \<Rightarrow> nat \<Rightarrow> nat" where
  "slot q k = nat ((rptr q + int k) mod rsize q)"

definition fq_list :: "fifoq \<Rightarrow> u8 list" where
  "fq_list q = map (\<lambda>k. room q ! slot q k) [0..<nat (nbyte q)]"

lemma length_fq_list [simp]: "length (fq_list q) = nat (nbyte q)"
  by (simp add: fq_list_def)

lemma fq_size_pos: "fq_ok q \<Longrightarrow> 0 < rsize q"
  by (auto simp: fq_ok_def)

lemma offset_mod:
  assumes "fq_ok q"
  shows "offset q n = n mod rsize q"
proof -
  obtain k where k: "rsize q = 2 ^ k" "rmask q = 2 ^ k - 1"
    using assms by (auto simp: fq_ok_def)
  have "n AND (2 ^ k - 1) = take_bit k n"
    by (metis take_bit_eq_mask mask_eq_exp_minus_1)
  then show ?thesis unfolding offset_def k by (simp only: take_bit_eq_mod)
qed

lemma wptr_cases:
  assumes "fq_ok q"
  shows "wptr q = (if rptr q + nbyte q < rsize q then rptr q + nbyte q else rptr q + nbyte q - rsize q)"
proof (cases "rptr q + nbyte q < rsize q")
  case False
  then have "(rptr q + nbyte q) mod rsize q = rptr q + nbyte q - rsize q"
    using mod_pos_pos_trivial [of "rptr q + nbyte q - rsize q" "rsize q"] assms
    by (simp add: minus_mod_self2 fq_ok_def)
  with assms False show ?thesis by (simp add: fq_ok_def)
qed (use assms in \<open>simp add: fq_ok_def\<close>)

lemma fq_check_ok: "fq_ok q \<Longrightarrow> fq_check q = Some ()"
  using wptr_cases [of q] by (auto simp: fq_check_def fq_ok_def split: if_splits)

lemma adjustrptr_ok:
  "fq_ok q \<Longrightarrow> nr \<le> nbyte q \<Longrightarrow>
   adjustrptr nr q = Some (q\<lparr>rptr := (rptr q + nr) mod rsize q, nbyte := nbyte q - nr\<rparr>)"
  by (simp add: adjustrptr_def fq_check_ok offset_mod nchar_def)

lemma adjustwptr_ok:
  "fq_ok q \<Longrightarrow> nr \<le> rsize q - nbyte q \<Longrightarrow>
   adjustwptr nr q = Some (q\<lparr>wptr := (wptr q + nr) mod rsize q, nbyte := nbyte q + nr\<rparr>)"
  by (simp add: adjustwptr_def fq_check_ok offset_mod space_def)

lemma slot_less: "fq_ok q \<Longrightarrow> slot q k < length (room q)"
  using fq_size_pos [of q] by (auto simp: slot_def fq_ok_def nat_less_iff)

lemma slot_inj:
  assumes "fq_ok q" and "slot q j = slot q k" and "j < k + nat (rsize q)" and "k < j + nat (rsize q)"
  shows "j = k"
proof -
  have "(rptr q + int j) mod rsize q = (rptr q + int k) mod rsize q"
    using assms(2) fq_size_pos [OF assms(1)] by (simp add: slot_def eq_nat_nat_iff)
  then have "rsize q dvd int j - int k"
    by (simp add: mod_eq_dvd_iff)
  moreover have "\<bar>int j - int k\<bar> < rsize q"
    using assms(3,4) fq_size_pos [OF assms(1)] by auto
  ultimately show ?thesis
    using zdvd_not_zless [of "int j - int k" "rsize q"] zdvd_not_zless [of "int k - int j" "rsize q"]
    by (cases j k rule: linorder_cases) (auto simp: dvd_diff_commute)
qed

lemma slot_wptr: "fq_ok q \<Longrightarrow> slot q (nat (nbyte q)) = nat (wptr q)"
  by (simp add: slot_def fq_ok_def)

lemma slot_rptr: "fq_ok q \<Longrightarrow> slot q 0 = nat (rptr q)"
  by (simp add: slot_def fq_ok_def)


subsection \<open>Each operation is a list operation\<close>

lemma fq_ok_adv_r:
  assumes "fq_ok q" and "0 \<le> n" and "n \<le> nbyte q"
  shows "fq_ok (q\<lparr>rptr := (rptr q + n) mod rsize q, nbyte := nbyte q - n\<rparr>)" (is "fq_ok ?q")
    and "fq_list (q\<lparr>rptr := (rptr q + n) mod rsize q, nbyte := nbyte q - n\<rparr>) = drop (nat n) (fq_list q)"
proof -
  show "fq_ok ?q"
    using assms fq_size_pos [OF assms(1)] by (auto simp: fq_ok_def mod_add_left_eq)
  have "slot ?q k = slot q (nat n + k)" for k
    using assms(2) by (simp add: slot_def mod_add_left_eq add.assoc)
  then show "fq_list ?q = drop (nat n) (fq_list q)"
    using assms by (auto intro!: nth_equalityI simp: fq_list_def)
qed

lemma getc_refines:
  assumes "fq_ok q"
  shows "getc q = Some ((None, 0), q) \<and> fq_list q = [] \<or>
    (\<exists>c cs q'. fq_list q = c # cs \<and> getc q = Some ((Some c, 1), q') \<and> fq_ok q' \<and> fq_list q' = cs)"
proof (cases "nbyte q = 0")
  case True
  then show ?thesis by (simp add: getc_def fq_empty_def nchar_def fq_list_def)
next
  case False
  with assms have n: "1 \<le> nbyte q" by (auto simp: fq_ok_def)
  have "room_get q (rptr q) = Some (fq_list q ! 0)"
    using n assms slot_less [OF assms, of 0] slot_rptr [OF assms]
    by (simp add: room_get_def fq_list_def fq_ok_def)
  moreover obtain c cs where l: "fq_list q = c # cs"
    using n by (cases "fq_list q") (auto simp: fq_list_def)
  ultimately show ?thesis
    using False n fq_ok_adv_r [OF assms, of 1]
    by (simp add: getc_def fq_empty_def nchar_def adjustrptr_ok [OF assms])
qed

lemma slot_cong: "rptr q' = rptr q \<Longrightarrow> rsize q' = rsize q \<Longrightarrow> slot q' = slot q"
  by (simp add: slot_def fun_eq_iff)

lemma fq_ok_adv_w:
  assumes "fq_ok q" and "0 \<le> n" and "n \<le> rsize q - nbyte q"
    and room: "length rm = length (room q)"
    and old: "\<And>k. k < nat (nbyte q) \<Longrightarrow> rm ! slot q k = room q ! slot q k"
    and new: "\<And>j. j < nat n \<Longrightarrow> rm ! slot q (nat (nbyte q) + j) = bs ! j"
    and len: "length bs = nat n"
  shows "fq_ok (q\<lparr>room := rm, wptr := (wptr q + n) mod rsize q, nbyte := nbyte q + n\<rparr>)" (is "fq_ok ?q")
    and "fq_list (q\<lparr>room := rm, wptr := (wptr q + n) mod rsize q, nbyte := nbyte q + n\<rparr>) = fq_list q @ bs"
proof -
  have nb: "0 \<le> nbyte q" using assms(1) by (simp add: fq_ok_def)
  show "fq_ok ?q"
    using assms fq_size_pos [OF assms(1)] by (auto simp: fq_ok_def mod_add_left_eq add.assoc)
  have s: "slot ?q = slot q" by (rule slot_cong) simp_all
  show "fq_list ?q = fq_list q @ bs"
  proof (rule nth_equalityI)
    fix i assume "i < length (fq_list ?q)"
    then show "fq_list ?q ! i = (fq_list q @ bs) ! i"
      using assms(2) nb old new [of "i - nat (nbyte q)"]
      by (auto simp: fq_list_def s nth_append nat_add_distrib)
  qed (use assms(2) nb len in \<open>simp add: nat_add_distrib\<close>)
qed

lemma putc_refines:
  assumes "fq_ok q"
  shows "putc c q = Some (0, q) \<and> nat (rsize q) = length (fq_list q) \<or>
    length (fq_list q) < nat (rsize q) \<and>
    (\<exists>q'. putc c q = Some (1, q') \<and> fq_ok q' \<and> rsize q' = rsize q \<and> fq_list q' = fq_list q @ [c])"
proof (cases "nbyte q = rsize q")
  case True
  then show ?thesis by (simp add: putc_def fq_full_def space_def)
next
  case False
  with assms have n: "1 \<le> rsize q - nbyte q" by (auto simp: fq_ok_def)
  have w: "0 \<le> wptr q" "nat (wptr q) < length (room q)"
    using assms slot_less [OF assms, of "nat (nbyte q)"] fq_size_pos [OF assms]
    by (simp_all add: slot_wptr) (simp add: fq_ok_def)
  define rm where "rm = (room q)[nat (wptr q) := c]"
  have ok1: "fq_ok (q\<lparr>room := rm\<rparr>)" using assms by (simp add: fq_ok_def rm_def)
  have "rm ! slot q k = room q ! slot q k" if "k < nat (nbyte q)" for k
    using slot_inj [OF assms, of k "nat (nbyte q)"] that n fq_size_pos [OF assms]
    by (auto simp: rm_def slot_wptr [OF assms, symmetric] trans_less_add2 intro!: nth_list_update_neq)
  then have "fq_ok (q\<lparr>room := rm, wptr := (wptr q + 1) mod rsize q, nbyte := nbyte q + 1\<rparr>)"
    and "fq_list (q\<lparr>room := rm, wptr := (wptr q + 1) mod rsize q, nbyte := nbyte q + 1\<rparr>) = fq_list q @ [c]"
    using n w by (intro fq_ok_adv_w [OF assms, where bs = "[c]"]; simp add: rm_def slot_wptr assms)+
  then show ?thesis
    using False n w adjustwptr_ok [OF ok1, of 1] assms
    by (simp add: putc_def fq_full_def space_def room_put_def fq_ok_def rm_def nat_less_iff)
qed


lemma peekc_refines:
  assumes "fq_ok q"
  shows "peekc q = Some (case fq_list q of [] \<Rightarrow> (None, 0) | c # _ \<Rightarrow> (Some c, 1))"
  using getc_refines [OF assms]
  by (auto simp: peekc_def getc_def bind_eq_Some_conv split: if_splits)

lemma adv_r_back:
  assumes "fq_ok q" and "0 \<le> m" and "m \<le> nbyte q"
  shows "adjustrptr (- m) (q\<lparr>rptr := (rptr q + m) mod rsize q, nbyte := nbyte q - m\<rparr>) = Some q"
proof -
  have "((rptr q + m) mod rsize q - m) mod rsize q = rptr q"
    using assms by (simp add: mod_diff_left_eq fq_ok_def)
  then show ?thesis
    using adjustrptr_ok [OF fq_ok_adv_r(1) [OF assms], of "- m"] assms by (simp add: fq_ok_def)
qed

lemma ungetc_refines:
  assumes "fq_ok q"
  shows "ungetc c q = Some (0, q) \<and> nat (rsize q) = length (fq_list q) \<or>
    length (fq_list q) < nat (rsize q) \<and>
    (\<exists>q'. ungetc c q = Some (1, q') \<and> fq_ok q' \<and> rsize q' = rsize q \<and> fq_list q' = c # fq_list q)"
proof (cases "nbyte q = rsize q")
  case True
  then show ?thesis by (simp add: ungetc_def fq_full_def space_def)
next
  case False
  with assms have n: "0 \<le> nbyte q" "nbyte q < rsize q" by (auto simp: fq_ok_def)
  define q1 where "q1 = q\<lparr>rptr := (rptr q - 1) mod rsize q, nbyte := nbyte q + 1\<rparr>"
  define q2 where "q2 = q1\<lparr>room := (room q)[nat (rptr q1) := c]\<rparr>"
  have adj: "adjustrptr (-1) q = Some q1"
    using adjustrptr_ok [OF assms, of "-1"] n by (simp add: q1_def)
  have ok1: "fq_ok q1"
    using assms n by (auto simp: fq_ok_def q1_def mod_add_left_eq)
  then have ok2: "fq_ok q2" by (simp add: fq_ok_def q2_def) (simp add: q1_def)
  have s: "slot q2 = slot q1" by (rule slot_cong) (simp_all add: q2_def)
  have s1: "slot q1 (Suc k) = slot q k" for k
    by (simp add: slot_def q1_def mod_add_left_eq)
  have r2: "room q2 = (room q)[slot q1 0 := c]" "rsize q1 = rsize q" "room q1 = room q"
    by (simp_all add: q2_def slot_rptr [OF ok1]) (simp_all add: q1_def)
  have "room q2 ! slot q2 (Suc k) = room q ! slot q k" if "k < nat (nbyte q)" for k
  proof -
    have "Suc k < nat (rsize q)" using that n by linarith
    then show ?thesis
      using slot_inj [OF ok1, of "Suc k" 0] s1 [of k] by (auto simp: r2 s intro!: nth_list_update_neq)
  qed
  moreover have "room q2 ! slot q2 0 = c"
    using slot_less [OF ok1, of 0] by (simp add: s r2)
  ultimately have l2: "fq_list q2 = c # fq_list q"
  proof -
    have nb2: "nat (nbyte q2) = Suc (nat (nbyte q))" using n by (simp add: q2_def q1_def)
    show ?thesis
      using \<open>\<And>k. k < nat (nbyte q) \<Longrightarrow> room q2 ! slot q2 (Suc k) = room q ! slot q k\<close> \<open>room q2 ! slot q2 0 = c\<close>
      by (intro nth_equalityI) (auto simp: fq_list_def nb2 nth_Cons less_Suc_eq_0_disj simp del: upt_Suc)
  qed
  moreover have "room_put (rptr q1) c q1 = Some q2"
    using slot_less [OF ok1, of 0] ok1 by (simp add: room_put_def slot_rptr fq_ok_def q2_def) (simp add: q1_def)
  ultimately show ?thesis
    using False n ok2 by (simp add: ungetc_def fq_full_def space_def adj) (simp add: q2_def q1_def)
qed

lemma copy_out_prefix:
  assumes "fq_ok q" and "0 \<le> n" and "n \<le> maxrchunk q"
  shows "copy_out q (rptr q) n = Some (take (nat n) (fq_list q))"
proof -
  have b: "n \<le> nbyte q" "rptr q + n \<le> rsize q" "0 \<le> rptr q" "int (length (room q)) = rsize q"
    using assms by (auto simp: maxrchunk_def fq_ok_def)
  have "slot q k = nat (rptr q) + k" if "k < nat n" for k
    using that b by (simp add: slot_def nat_add_distrib)
  with b assms(2) have "take (nat n) (drop (nat (rptr q)) (room q)) = take (nat n) (fq_list q)"
    by (intro nth_equalityI) (auto simp: fq_list_def)
  with b assms(2) show ?thesis by (simp add: copy_out_def)
qed

lemma getn_loop_refines:
  assumes "fq_ok q" and "0 \<le> len"
  shows "getn_loop q len buf = Some (buf @ take (nat len) (fq_list q),
    q\<lparr>rptr := (rptr q + min len (nbyte q)) mod rsize q, nbyte := nbyte q - min len (nbyte q)\<rparr>)"
  using assms
proof (induction "nat len" arbitrary: q len buf rule: less_induct)
  case less
  show ?case
  proof (cases "len = 0 \<or> nbyte q = 0")
    case True
    then show ?thesis
      using less.prems by (subst getn_loop.simps) (auto simp: nchar_def fq_ok_def fq_list_def min_def)
  next
    case False
    define n where "n = min len (maxrchunk q)"
    define q1 where "q1 = q\<lparr>rptr := (rptr q + n) mod rsize q, nbyte := nbyte q - n\<rparr>"
    have n: "0 < n" "n \<le> nbyte q" "n \<le> len" "n \<le> maxrchunk q"
      using False less.prems by (auto simp: n_def maxrchunk_def fq_ok_def)
    have ok1: "fq_ok q1" "fq_list q1 = drop (nat n) (fq_list q)"
      using fq_ok_adv_r [OF less.prems(1), of n] n by (simp_all add: q1_def)
    have "getn_loop q len buf = getn_loop q1 (len - n) (buf @ take (nat n) (fq_list q))"
      using False n less.prems
      by (subst getn_loop.simps)
         (simp add: nchar_def Let_def n_def [symmetric] copy_out_prefix adjustrptr_ok q1_def)
    also have "\<dots> = Some (buf @ take (nat n) (fq_list q) @ take (nat (len - n)) (fq_list q1),
        q1\<lparr>rptr := (rptr q1 + min (len - n) (nbyte q1)) mod rsize q1,
           nbyte := nbyte q1 - min (len - n) (nbyte q1)\<rparr>)"
      using less.hyps [of "len - n" q1] ok1(1) n by simp
    also have "take (nat n) (fq_list q) @ take (nat (len - n)) (fq_list q1) = take (nat len) (fq_list q)"
      using n by (simp add: ok1(2) take_add [symmetric] nat_add_distrib [symmetric])
    also have "q1\<lparr>rptr := (rptr q1 + min (len - n) (nbyte q1)) mod rsize q1,
           nbyte := nbyte q1 - min (len - n) (nbyte q1)\<rparr> =
        q\<lparr>rptr := (rptr q + min len (nbyte q)) mod rsize q, nbyte := nbyte q - min len (nbyte q)\<rparr>"
      using n by (simp add: q1_def mod_add_left_eq min_diff_distrib_left [symmetric])
    finally show ?thesis .
  qed
qed


lemma getn_refines:
  assumes "fq_ok q" and "0 \<le> len"
  shows "\<exists>q'. getn len q = Some (take (nat len) (fq_list q), q') \<and> fq_ok q' \<and>
    fq_list q' = drop (nat len) (fq_list q)"
proof -
  have "0 \<le> min len (nbyte q)" using assms by (simp add: fq_ok_def)
  then have "drop (nat (min len (nbyte q))) (fq_list q) = drop (nat len) (fq_list q)"
    by (auto simp: min_def)
  then show ?thesis
    using fq_ok_adv_r [OF assms(1), of "min len (nbyte q)"] getn_loop_refines [OF assms] assms
    by (simp add: getn_def fq_ok_def)
qed

lemma peekn_refines:
  assumes "fq_ok q" and "0 \<le> len"
  shows "peekn len q = Some (take (nat len) (fq_list q), q)"
proof -
  have "int (length (take (nat len) (fq_list q))) = min len (nbyte q)"
    using assms by (auto simp: fq_ok_def)
  then show ?thesis
    using getn_loop_refines [OF assms] adv_r_back [OF assms(1), of "min len (nbyte q)"] assms
    by (simp add: peekn_def getn_def fq_ok_def)
qed

lemma copy_in_suffix:
  assumes "fq_ok q" and "int (length bs) \<le> maxwchunk q"
  shows "\<exists>q'. copy_in (wptr q) bs q = Some q' \<and> fq_ok q' \<and> rsize q' = rsize q \<and> nbyte q' = nbyte q \<and>
    (\<exists>q2. adjustwptr (int (length bs)) q' = Some q2 \<and> fq_ok q2 \<and> rsize q2 = rsize q \<and>
       fq_list q2 = fq_list q @ bs)"
proof -
  define n where "n = length bs"
  define rm where "rm = take (nat (wptr q)) (room q) @ bs @ drop (nat (wptr q) + n) (room q)"
  have b: "int n \<le> rsize q - nbyte q" "wptr q + int n \<le> rsize q" "int (length (room q)) = rsize q" "0 \<le> nbyte q"
    using assms by (auto simp: maxwchunk_def fq_ok_def n_def)
  have w: "0 \<le> wptr q" "wptr q < rsize q" "wptr q = (rptr q + nbyte q) mod rsize q"
    using assms(1) fq_size_pos [OF assms(1)] by (simp_all add: fq_ok_def)
  have len: "length rm = length (room q)" using b w by (simp add: rm_def n_def)
  have sw: "slot q (nat (nbyte q) + j) = nat (wptr q) + j" if "j < n" for j
  proof -
    have "(rptr q + (nbyte q + int j)) mod rsize q = (wptr q + int j) mod rsize q"
      using w(3) by (simp add: mod_add_left_eq add.assoc)
    also have "\<dots> = wptr q + int j" using that b w by simp
    finally show ?thesis using w b(4) by (simp add: slot_def nat_add_distrib)
  qed
  have "rm ! slot q k = room q ! slot q k" if "k < nat (nbyte q)" for k
  proof -
    have "slot q k \<noteq> nat (wptr q) + j" if "j < n" for j
    proof -
      have "nat (nbyte q) + j < nat (rsize q)" using that b by linarith
      then show ?thesis
        using slot_inj [OF assms(1), of k "nat (nbyte q) + j"] sw [OF that] \<open>k < nat (nbyte q)\<close> by auto
    qed
    then have "slot q k < nat (wptr q) \<or> nat (wptr q) + n \<le> slot q k"
      by (metis le_Suc_ex nat_add_left_cancel_less not_le)
    then show ?thesis
      using slot_less [OF assms(1), of k] w b by (auto simp: rm_def nth_append n_def)
  qed
  moreover have "rm ! slot q (nat (nbyte q) + j) = bs ! j" if "j < nat (int n)" for j
    using sw that b w by (simp add: rm_def nth_append n_def)
  ultimately have "fq_ok (q\<lparr>room := rm, wptr := (wptr q + int n) mod rsize q, nbyte := nbyte q + int n\<rparr>)"
    and "fq_list (q\<lparr>room := rm, wptr := (wptr q + int n) mod rsize q, nbyte := nbyte q + int n\<rparr>) = fq_list q @ bs"
    using b len by (intro fq_ok_adv_w [OF assms(1), where bs = bs]; simp add: n_def)+
  moreover have "fq_ok (q\<lparr>room := rm\<rparr>)" using assms(1) len by (simp add: fq_ok_def)
  ultimately show ?thesis
    using adjustwptr_ok [of "q\<lparr>room := rm\<rparr>" "int n"] b w
    by (auto simp: copy_in_def rm_def n_def nat_le_iff)
qed

lemma putn_loop_refines:
  assumes "fq_ok q" and "0 \<le> len" and "nat len \<le> length buf"
  shows "\<exists>q'. putn_loop q buf len d = Some (d + min len (space q), q') \<and> fq_ok q' \<and> rsize q' = rsize q \<and>
    fq_list q' = fq_list q @ take (nat (min len (space q))) buf"
  using assms
proof (induction "nat len" arbitrary: q len buf d rule: less_induct)
  case less
  have sp: "0 \<le> space q" using less.prems by (simp add: space_def fq_ok_def)
  show ?case
  proof (cases "len = 0 \<or> space q = 0")
    case True
    then show ?thesis
      using less.prems sp by (subst putn_loop.simps) (auto simp: min_def)
  next
    case False
    define n where "n = min len (maxwchunk q)"
    have n: "0 < n" "n \<le> len" "n \<le> maxwchunk q" "n \<le> space q"
      using False sp less.prems wptr_cases [OF less.prems(1)]
      by (auto simp: n_def maxwchunk_def space_def fq_ok_def)
    define bs where "bs = take (nat n) buf"
    have lb: "int (length bs) = n" using n less.prems by (simp add: bs_def)
    obtain q1 q2 where q1: "copy_in (wptr q) bs q = Some q1" "adjustwptr n q1 = Some q2" "fq_ok q2"
        "rsize q2 = rsize q" "fq_list q2 = fq_list q @ bs"
      using copy_in_suffix [OF less.prems(1), of bs] n(3) lb by auto
    have sp2: "space q2 = space q - n"
    proof -
      have "nat (nbyte q2) = nat (nbyte q) + length bs"
        using arg_cong [OF q1(5), of length] by simp
      moreover have "0 \<le> nbyte q" "0 \<le> nbyte q2" using q1(3) less.prems(1) by (simp_all add: fq_ok_def)
      ultimately show ?thesis using lb by (simp add: space_def q1(4))
    qed
    have step: "putn_loop q buf len d = putn_loop q2 (drop (nat n) buf) (len - n) (d + n)"
    proof -
      have "nat n \<le> length buf" using n less.prems by linarith
      then show ?thesis
        using False n q1 by (subst putn_loop.simps) (simp add: Let_def n_def [symmetric] bs_def)
    qed
    moreover obtain q' where "putn_loop q2 (drop (nat n) buf) (len - n) (d + n) =
          Some (d + n + min (len - n) (space q2), q')" "fq_ok q'" "rsize q' = rsize q2"
        "fq_list q' = fq_list q2 @ take (nat (min (len - n) (space q2))) (drop (nat n) buf)"
    proof -
      have "nat (len - n) \<le> length (drop (nat n) buf)" "nat (len - n) < nat len"
        using n less.prems by (simp_all add: nat_diff_distrib)
      then show ?thesis
        using less.hyps [of "len - n" q2 "drop (nat n) buf" "d + n"] q1(3) n that by auto
    qed
    moreover have e: "n + min (len - n) (space q2) = min len (space q)"
      using sp2 by simp
    moreover have "bs @ take (nat (min (len - n) (space q2))) (drop (nat n) buf) =
        take (nat (min len (space q))) buf"
      using n sp2 by (simp add: bs_def take_add [symmetric] nat_add_distrib [symmetric] e [symmetric])
    ultimately show ?thesis using q1(4,5) by (auto simp: add.assoc)
  qed
qed

lemma putn_refines:
  assumes "fq_ok q" and "0 \<le> len" and "nat len \<le> length buf"
  shows "\<exists>q'. putn buf len q = Some (min len (space q), q') \<and> fq_ok q' \<and> rsize q' = rsize q \<and>
    fq_list q' = fq_list q @ take (nat (min len (space q))) buf"
  using putn_loop_refines [OF assms, of 0] by (simp add: putn_def)


lemma fq_init_ok:
  assumes "int (length rm) = 2 ^ k"
  shows "\<exists>q. fq_init rm (2 ^ k) = Some q \<and> fq_ok q \<and> fq_list q = [] \<and> rsize q = 2 ^ k"
proof -
  have "((2::int) ^ k - 1) AND 2 ^ k = 0"
    by (rule bit_eqI) (auto simp: bit_simps simp flip: mask_eq_exp_minus_1)
  then show ?thesis using assms by (auto simp: fq_init_def fq_ok_def fq_list_def)
qed

lemma fq_clear_ok:
  "fq_ok q \<Longrightarrow> \<exists>q'. fq_clear q = Some q' \<and> fq_ok q' \<and> fq_list q' = [] \<and> rsize q' = rsize q"
  using fq_init_ok [of "room q"] by (auto simp: fq_clear_def fq_ok_def)

subsection \<open>The buffer as a first-in first-out queue\<close>

definition fq_enq :: "u8 \<Rightarrow> fifoq \<Rightarrow> fifoq option" where
  "fq_enq c q = do { (r, q1) \<leftarrow> putc c q; if r = 0 then None else Some q1 }"

definition fq_deq :: "fifoq \<Rightarrow> (u8 option \<times> fifoq) option" where
  "fq_deq q = do { ((c, r), q1) \<leftarrow> getc q; Some (c, q1) }"

interpretation ringq: fifo "\<lambda>q xs. fq_ok q \<and> fq_list q = xs" fq_enq fq_deq
proof unfold_locales
  fix q q' xs c
  assume "fq_ok q \<and> fq_list q = xs" and "fq_enq c q = Some q'"
  then show "fq_ok q' \<and> fq_list q' = xs @ [c]"
    using putc_refines [of q c] by (auto simp: fq_enq_def split: if_splits)
next
  fix q q' x xs r
  assume "fq_ok q \<and> fq_list q = x # xs" and "fq_deq q = Some (r, q')"
  then show "r = Some x \<and> fq_ok q' \<and> fq_list q' = xs"
    using getc_refines [of q] by (auto simp: fq_deq_def)
next
  fix q q' r
  assume "fq_ok q \<and> fq_list q = []" and "fq_deq q = Some (r, q')"
  then show "r = None \<and> fq_ok q' \<and> fq_list q' = []"
    using getc_refines [of q] by (auto simp: fq_deq_def)
next
  fix q xs
  assume "fq_ok q \<and> fq_list q = xs"
  then show "fq_deq q \<noteq> None"
    using getc_refines [of q] by (auto simp: fq_deq_def)
qed

subsection \<open>Properties\<close>

text \<open>
  On a well-formed ring buffer every sequence of \<^verbatim>\<open>putc\<close> (that the buffer has room for)
  and \<^verbatim>\<open>getc\<close> calls returns exactly the bytes a first-in first-out list returns and leaves
  the buffer well-formed with the list's contents, and draining it byte by byte always succeeds.
\<close>

theorem fifoq_trace_refines_list:
  assumes "fq_ok q"
  shows "(\<forall>ops rs q'. run_ops fq_enq fq_deq ops q = Some (rs, q') \<longrightarrow>
      rs = fst (run_list ops (fq_list q)) \<and> fq_ok q' \<and> fq_list q' = snd (run_list ops (fq_list q))) \<and>
    (\<exists>q'. run_ops fq_enq fq_deq (replicate (length (fq_list q)) Deq) q =
       Some (map Some (fq_list q), q') \<and> fq_ok q' \<and> fq_list q' = [])"
  using ringq.run_refines [of q "fq_list q"] ringq.drain [of q "fq_list q"] assms by auto

definition demo_fifoq :: fifoq where
  "demo_fifoq = \<lparr>room = [30, 0, 0, 20], rptr = 3, wptr = 1, nbyte = 2, rmask = 3, rsize = 4\<rparr>"

lemma demo_fifoq_ok: "fq_ok demo_fifoq" "fq_list demo_fifoq = [20, 30]"
proof -
  have "\<exists>k. (4 :: int) = 2 ^ k" by (rule exI [of _ 2]) simp
  then show "fq_ok demo_fifoq" by (simp add: demo_fifoq_def fq_ok_def)
  show "fq_list demo_fifoq = [20, 30]"
    by (simp add: demo_fifoq_def fq_list_def slot_def upt_rec numeral_2_eq_2)
qed

theorem fifoq_trace_witness:
  "fq_ok demo_fifoq \<and>
   (\<exists>q'. run_ops fq_enq fq_deq [Deq, Deq] demo_fifoq = Some ([Some 20, Some 30], q') \<and> fq_ok q')"
  using fifoq_trace_refines_list [OF demo_fifoq_ok(1)] demo_fifoq_ok by (auto simp: numeral_2_eq_2)

text \<open>
  The block transfers: \<^verbatim>\<open>putc(buf, len)\<close> appends as many bytes as fit and returns their
  number, \<^verbatim>\<open>getc(buf, len)\<close> removes and returns the first \<open>len\<close> bytes (or all there are), and
  \<^verbatim>\<open>peekc(buf, len)\<close> returns the same bytes and leaves the buffer exactly as it was; their
  loops end, whatever the position of the pointers, and what was put in comes out in order.
\<close>

theorem fifoq_block_roundtrip:
  assumes "fq_ok q" and "0 \<le> len" and "nat len \<le> length buf"
  shows "\<exists>n q1 q2. putn buf len q = Some (n, q1) \<and> n = min len (space q) \<and>
    fq_list q1 = fq_list q @ take (nat n) buf \<and>
    peekn (nchar q1) q1 = Some (fq_list q1, q1) \<and>
    getn (nchar q1) q1 = Some (fq_list q @ take (nat n) buf, q2) \<and> fq_ok q2 \<and> fq_empty q2"
proof -
  obtain q1 where q1: "putn buf len q = Some (min len (space q), q1)" "fq_ok q1"
      "fq_list q1 = fq_list q @ take (nat (min len (space q))) buf"
    using putn_refines [OF assms] by blast
  have nb: "0 \<le> nchar q1" "nat (nchar q1) = length (fq_list q1)"
    using q1(2) by (simp_all add: nchar_def fq_ok_def)
  then obtain q2 where q2: "getn (nchar q1) q1 = Some (fq_list q1, q2)" "fq_ok q2" "fq_list q2 = []"
    using getn_refines [OF q1(2) nb(1)] by auto
  then have "length (fq_list q2) = 0" by simp
  then have "fq_empty q2"
    using q2(2) by (simp add: fq_empty_def nchar_def fq_ok_def)
  then show ?thesis
    using q1 q2 peekn_refines [OF q1(2) nb(1), unfolded nb(2) take_all [OF order_refl]] by simp
qed

theorem fifoq_block_witness:
  "\<exists>n q1 q2. putn [7, 8, 9] 3 demo_fifoq = Some (n, q1) \<and> n = 2 \<and>
    getn (nchar q1) q1 = Some ([20, 30, 7, 8], q2) \<and> fq_empty q2"
  using fifoq_block_roundtrip [OF demo_fifoq_ok(1), of 3 "[7, 8, 9]"] demo_fifoq_ok(2)
  by (auto simp: space_def demo_fifoq_def numeral_2_eq_2)

text \<open>
  \<^verbatim>\<open>ungetc\<close> pushes a byte back in front of the buffered ones whenever the buffer is not
  full, also across the start of the room, and the next \<^verbatim>\<open>getc\<close> returns it.
\<close>

theorem fifoq_ungetc_getc:
  assumes "fq_ok q" and "\<not> fq_full q"
  shows "\<exists>q1 q2. ungetc c q = Some (1, q1) \<and> fq_list q1 = c # fq_list q \<and>
    getc q1 = Some ((Some c, 1), q2) \<and> fq_ok q2 \<and> fq_list q2 = fq_list q"
proof -
  have "nat (rsize q) \<noteq> length (fq_list q)"
    using assms by (auto simp: fq_full_def space_def fq_ok_def)
  then obtain q1 where q1: "ungetc c q = Some (1, q1)" "fq_ok q1" "fq_list q1 = c # fq_list q"
    using ungetc_refines [OF assms(1), of c] by auto
  then show ?thesis using getc_refines [OF q1(2)] by auto
qed

theorem fifoq_ungetc_witness:
  "\<exists>q1 q2. ungetc 9 demo_fifoq = Some (1, q1) \<and> getc q1 = Some ((Some 9, 1), q2) \<and> fq_list q2 = [20, 30]"
  using fifoq_ungetc_getc [OF demo_fifoq_ok(1), of 9] demo_fifoq_ok(2)
  by (auto simp: fq_full_def space_def demo_fifoq_def)

end
