(* ===== verification/Refcount.thy ===== *)
theory Refcount
  imports Prelude "HOL-Library.Multiset"
begin

text \<open>
  The contract of reference counting, which the kernel uses for physical pages and for open files:
  creating hands out an object nobody refers to, with one reference; an object that is referred to
  can be duplicated and released.  The client of the locale keeps the multiset of references it
  holds and only duplicates and releases objects it holds; whatever the sequence of its calls, the
  counts of the store are exactly its references.
\<close>

datatype ref_op = RNew int | RDup nat | RFree nat

fun run_refs :: "(int \<Rightarrow> 's \<Rightarrow> (nat option \<times> 's) option) \<Rightarrow> (nat \<Rightarrow> 's \<Rightarrow> 's option) \<Rightarrow> (nat \<Rightarrow> 's \<Rightarrow> 's option) \<Rightarrow>
    ref_op list \<Rightarrow> 's \<Rightarrow> nat multiset \<Rightarrow> ('s \<times> nat multiset) option" where
  "run_refs al du fr [] s M = Some (s, M)"
| "run_refs al du fr (RNew fl # ops) s M = do {
     (r, s1) \<leftarrow> al fl s;
     run_refs al du fr ops s1 (case r of None \<Rightarrow> M | Some p \<Rightarrow> add_mset p M) }"
| "run_refs al du fr (RDup p # ops) s M =
     (if p \<in># M then do { s1 \<leftarrow> du p s; run_refs al du fr ops s1 (add_mset p M) }
      else run_refs al du fr ops s M)"
| "run_refs al du fr (RFree p # ops) s M =
     (if p \<in># M then do { s1 \<leftarrow> fr p s; run_refs al du fr ops s1 (M - {#p#}) }
      else run_refs al du fr ops s M)"

fun op_flags_ok :: "(int \<Rightarrow> bool) \<Rightarrow> ref_op \<Rightarrow> bool" where
  "op_flags_ok okf (RNew fl) = okf fl"
| "op_flags_ok okf _ = True"

locale refcounted =
  fixes inv :: "'s \<Rightarrow> bool"
    and okf :: "int \<Rightarrow> bool"
    and refs :: "'s \<Rightarrow> nat \<Rightarrow> nat"
    and alloc :: "int \<Rightarrow> 's \<Rightarrow> (nat option \<times> 's) option"
    and dup :: "nat \<Rightarrow> 's \<Rightarrow> 's option"
    and free :: "nat \<Rightarrow> 's \<Rightarrow> 's option"
  assumes alloc_law: "inv s \<Longrightarrow> okf fl \<Longrightarrow> alloc fl s = Some (None, s) \<or>
      (\<exists>p s'. alloc fl s = Some (Some p, s') \<and> inv s' \<and> refs s p = 0 \<and> refs s' = (refs s)(p := 1))"
    and dup_law: "inv s \<Longrightarrow> 0 < refs s p \<Longrightarrow>
      \<exists>s'. dup p s = Some s' \<and> inv s' \<and> refs s' = (refs s)(p := refs s p + 1)"
    and free_law: "inv s \<Longrightarrow> 0 < refs s p \<Longrightarrow>
      \<exists>s'. free p s = Some s' \<and> inv s' \<and> refs s' = (refs s)(p := refs s p - 1)"
begin

lemma run_counts:
  "inv s \<Longrightarrow> refs s = count M \<Longrightarrow> \<forall>x\<in>set ops. op_flags_ok okf x \<Longrightarrow>
   \<exists>s' M'. run_refs alloc dup free ops s M = Some (s', M') \<and> inv s' \<and> refs s' = count M'"
proof (induction ops arbitrary: s M)
  case (Cons x ops)
  show ?case
  proof (cases x)
    case (RNew fl)
    from alloc_law [OF Cons.prems(1), of fl] Cons.prems(3) RNew
    consider "alloc fl s = Some (None, s)" |
      p s1 where "alloc fl s = Some (Some p, s1)" "inv s1" "refs s p = 0" "refs s1 = (refs s)(p := 1)"
      by auto
    then show ?thesis
    proof cases
      case 1
      then show ?thesis using Cons RNew by simp
    next
      case (2 p s1)
      then have "refs s1 = count (add_mset p M)"
        using Cons.prems(2) by (simp add: fun_eq_iff)
      then show ?thesis using 2 Cons RNew by simp
    qed
  next
    case (RDup p)
    show ?thesis
    proof (cases "p \<in># M")
      case True
      then obtain s1 where s1: "dup p s = Some s1" "inv s1" "refs s1 = (refs s)(p := refs s p + 1)"
        using dup_law [OF Cons.prems(1), of p] Cons.prems(2) by auto
      then have "refs s1 = count (add_mset p M)" using Cons.prems(2) by (simp add: fun_eq_iff)
      then show ?thesis using True s1 Cons RDup by simp
    qed (use Cons RDup in simp)
  next
    case (RFree p)
    show ?thesis
    proof (cases "p \<in># M")
      case True
      then obtain s1 where s1: "free p s = Some s1" "inv s1" "refs s1 = (refs s)(p := refs s p - 1)"
        using free_law [OF Cons.prems(1), of p] Cons.prems(2) by auto
      then have "refs s1 = count (M - {#p#})" using Cons.prems(2) by (simp add: fun_eq_iff)
      then show ?thesis using True s1 Cons RFree by simp
    qed (use Cons RFree in simp)
  qed
qed simp

end


end
