(* ===== verification/Mm_Allocpage.thy ===== *)
theory Mm_Allocpage
  imports Refcount
begin

text \<open>
  The physical page allocator of \<^verbatim>\<open>mm/allocpage.h\<close> and \<^verbatim>\<open>mm/allocpage.cc\<close> with the
  address conversions of \<^verbatim>\<open>mm/layout.h\<close>: the boot-time allocator, the map of reference
  counts, and the free list that runs through the first word of every free page.

  Addresses are natural numbers: physical memory is at most \<^verbatim>\<open>MAXPHYSBYTE\<close> and is mapped
  at \<^verbatim>\<open>KERNSTART\<close>, so no address computation of this file wraps around.  The state holds
  the reference counts (\<^verbatim>\<open>pagemap\<close>) by page number and the words of kernel memory by
  virtual address; a free page keeps the pointer to the next one in its first word, which
  \<^verbatim>\<open>ACLEAR\<close> overwrites when the page is handed out.  Interrupts are off while the list is
  changed, so each operation is one step.
\<close>

definition KERNSTART :: nat where "KERNSTART = 0xc0000000"
definition PAGESZ :: nat where "PAGESZ = 4096"
definition SYSPAGE :: int where "SYSPAGE = -1979"
definition AKERN :: int where "AKERN = 1"
definition ADRIVER :: int where "ADRIVER = 2"
definition AUSER :: int where "AUSER = 4"
definition ACLEAR :: int where "ACLEAR = 8"
definition KERNQUOTA :: int where "KERNQUOTA = 4"
definition DRIVERQUOTA :: int where "DRIVERQUOTA = 12"
definition K640 :: nat where "K640 = 640 * 1024"
definition M1 :: nat where "M1 = 1024 * 1024"

lemmas mm_consts = KERNSTART_def PAGESZ_def SYSPAGE_def KERNQUOTA_def DRIVERQUOTA_def K640_def M1_def

record pmem =
  nphysbyte :: nat
  refcnt :: "nat \<Rightarrow> int"
  longs :: "nat \<Rightarrow> nat"
  freepageq :: nat
  nfreepage :: int
  allocbmok :: bool
  kernend :: nat
  allocbmend :: nat

subsection \<open>Addresses\<close>

definition ptov :: "pmem \<Rightarrow> nat \<Rightarrow> nat option" where
  "ptov s paddr = do { kassert (paddr \<le> nphysbyte s); Some (paddr + KERNSTART) }"

definition vtop :: "pmem \<Rightarrow> nat \<Rightarrow> nat option" where
  "vtop s vaddr = do {
     kassert (vaddr \<ge> KERNSTART \<and> vaddr < KERNSTART + nphysbyte s);
     Some (vaddr - KERNSTART) }"

definition patopage :: "pmem \<Rightarrow> nat \<Rightarrow> nat option" where
  "patopage s pa = do { kassert (pa < nphysbyte s); Some (pa div PAGESZ) }"

definition vatopage :: "pmem \<Rightarrow> nat \<Rightarrow> nat option" where
  "vatopage s va = do { pa \<leftarrow> vtop s va; patopage s pa }"

definition pageup_nat :: "nat \<Rightarrow> nat" where
  "pageup_nat a = (a + PAGESZ - 1) div PAGESZ * PAGESZ"

definition set_refcnt :: "nat \<Rightarrow> int \<Rightarrow> pmem \<Rightarrow> pmem" where
  "set_refcnt p v s = s\<lparr>refcnt := (refcnt s)(p := v)\<rparr>"

subsection \<open>The page allocator\<close>

definition allocable :: "pmem \<Rightarrow> nat \<Rightarrow> bool option" where
  "allocable s frame = do {
     paddr \<leftarrow> vtop s frame;
     if between PAGESZ paddr K640 then Some True
     else do { ke \<leftarrow> vtop s (kernend s); Some (between ke paddr (nphysbyte s)) } }"

partial_function (option) check_loop :: "pmem \<Rightarrow> nat \<Rightarrow> int \<Rightarrow> unit option" where
  "check_loop s frame cnt =
     (if frame \<noteq> 0 then do {
        p \<leftarrow> vatopage s frame;
        kassert (refcnt s p = 0);
        check_loop s (longs s frame) (cnt + 1) }
      else kassert (cnt = nfreepage s))"

definition check :: "pmem \<Rightarrow> unit option" where
  "check s = (if nfreepage s \<le> DRIVERQUOTA + KERNQUOTA then check_loop s (freepageq s) 0 else Some ())"

definition clear_page :: "nat \<Rightarrow> pmem \<Rightarrow> pmem" where
  "clear_page va s = s\<lparr>longs := (\<lambda>a. if va \<le> a \<and> a < va + PAGESZ then 0 else longs s a)\<rparr>"

text \<open>
  The result is the page, \<^verbatim>\<open>NULL\<close>, or the end of the calling process: an exhausted
  \<^verbatim>\<open>AKERN\<close> request calls \<^verbatim>\<open>doexit\<close>, which does not return.
\<close>

datatype alloc_result = Page nat | NoPage | Exit

definition take_page :: "int \<Rightarrow> pmem \<Rightarrow> (alloc_result \<times> pmem) option" where
  "take_page flags s = do {
     let frame = freepageq s;
     ok \<leftarrow> allocable s frame;
     kassert ok;
     let s1 = s\<lparr>freepageq := longs s frame, nfreepage := nfreepage s - 1\<rparr>;
     page \<leftarrow> vatopage s1 frame;
     kassert (refcnt s1 page = 0);
     let s2 = set_refcnt page 1 s1;
     Some (Page frame, if flags AND ACLEAR \<noteq> 0 then clear_page frame s2 else s2) }"

definition allocpage :: "int \<Rightarrow> pmem \<Rightarrow> (alloc_result \<times> pmem) option" where
  "allocpage flags s = do {
     check s;
     if flags AND AUSER \<noteq> 0 then
       (if nfreepage s \<le> DRIVERQUOTA + KERNQUOTA then Some (NoPage, s) else take_page flags s)
     else if flags AND ADRIVER \<noteq> 0 then
       (if nfreepage s \<le> KERNQUOTA then Some (NoPage, s) else take_page flags s)
     else if flags AND AKERN \<noteq> 0 then
       (if nfreepage s = 0 then Some (Exit, s) else take_page flags s)
     else None }"

definition freepage :: "nat \<Rightarrow> pmem \<Rightarrow> pmem option" where
  "freepage ptr s = do {
     kassert (ptr mod PAGESZ = 0);
     pa \<leftarrow> vtop s ptr;
     kassert (pa < nphysbyte s);
     ok \<leftarrow> allocable s ptr;
     kassert ok;
     page \<leftarrow> vatopage s ptr;
     kassert (refcnt s page \<noteq> SYSPAGE);
     kassert (refcnt s page \<noteq> 0);
     let s1 = set_refcnt page (refcnt s page - 1) s;
     if refcnt s1 page \<noteq> 0 then Some s1
     else Some (s1\<lparr>longs := (longs s1)(ptr := freepageq s1), freepageq := ptr,
                   nfreepage := nfreepage s1 + 1\<rparr>) }"

definition freephys :: "nat \<Rightarrow> pmem \<Rightarrow> pmem option" where
  "freephys paddr s = do { va \<leftarrow> ptov s paddr; freepage va s }"

definition dupphys :: "nat \<Rightarrow> pmem \<Rightarrow> pmem option" where
  "dupphys paddr s = do {
     page \<leftarrow> patopage s paddr;
     kassert (refcnt s page \<noteq> SYSPAGE);
     Some (set_refcnt page (refcnt s page + 1) s) }"

definition duppage :: "nat \<Rightarrow> pmem \<Rightarrow> pmem option" where
  "duppage va s = do { pa \<leftarrow> vtop s va; dupphys pa s }"

definition lowfreepage :: "int \<Rightarrow> pmem \<Rightarrow> bool" where
  "lowfreepage request s \<longleftrightarrow> nfreepage s < request + 8 + DRIVERQUOTA + KERNQUOTA"

subsection \<open>Boot\<close>

function markfree :: "nat \<Rightarrow> nat \<Rightarrow> pmem \<Rightarrow> pmem option" where
  "markfree from to s =
     (if from < to then do {
        p \<leftarrow> patopage s from;
        s1 \<leftarrow> freephys from (set_refcnt p 1 s);
        markfree (from + PAGESZ) to s1 }
      else Some s)"
  by pat_completeness auto
termination by (relation "measure (\<lambda>(from, to, s). to - from)") (auto simp: PAGESZ_def)

function marksys :: "nat \<Rightarrow> nat \<Rightarrow> pmem \<Rightarrow> pmem option" where
  "marksys from to s =
     (if from < to then do {
        p \<leftarrow> patopage s from;
        marksys (from + PAGESZ) to (set_refcnt p SYSPAGE s) }
      else Some s)"
  by pat_completeness auto
termination by (relation "measure (\<lambda>(from, to, s). to - from)") (auto simp: PAGESZ_def)

declare markfree.simps [simp del] marksys.simps [simp del]

definition allocbminit :: "nat \<Rightarrow> pmem \<Rightarrow> pmem" where
  "allocbminit kend s = s\<lparr>allocbmok := True, kernend := kend,
     allocbmend := pageup_nat (kend + nphysbyte s div 2)\<rparr>"

definition allocbm :: "nat \<Rightarrow> nat \<Rightarrow> pmem \<Rightarrow> (nat \<times> pmem) option" where
  "allocbm sz balign s = do {
     kassert (allocbmok s);
     kassert ((balign - 1) AND balign = 0);
     let result = (kernend s + balign - 1) div balign * balign;
     let s1 = s\<lparr>kernend := result + sz\<rparr>;
     kassert (kernend s1 \<le> allocbmend s1);
     Some (result, s1\<lparr>longs := (\<lambda>a. if result \<le> a \<and> a < result + sz then 0 else longs s1 a)\<rparr>) }"

definition pagemapinit :: "pmem \<Rightarrow> pmem option" where
  "pagemapinit s = do {
     (pagemap, s) \<leftarrow> allocbm (nphysbyte s div PAGESZ * 4) 4 s;
     let s = s\<lparr>refcnt := \<lambda>_. 0\<rparr>;
     s \<leftarrow> marksys 0 PAGESZ s;
     s \<leftarrow> markfree PAGESZ K640 s;
     s \<leftarrow> marksys K640 M1 s;
     kc \<leftarrow> vtop s (KERNSTART + M1);
     ae \<leftarrow> vtop s (allocbmend s);
     s \<leftarrow> marksys kc ae s;
     markfree ae (nphysbyte s) s }"

definition freebm :: "pmem \<Rightarrow> pmem option" where
  "freebm s = do {
     let s = s\<lparr>allocbmok := False, kernend := pageup_nat (kernend s)\<rparr>;
     ke \<leftarrow> vtop s (kernend s);
     ae \<leftarrow> vtop s (allocbmend s);
     markfree ke ae s }"

subsection \<open>The free list\<close>

fun chain :: "(nat \<Rightarrow> nat) \<Rightarrow> nat \<Rightarrow> nat list \<Rightarrow> bool" where
  "chain nx a [] \<longleftrightarrow> a = 0"
| "chain nx a (f # fs) \<longleftrightarrow> a = f \<and> f \<noteq> 0 \<and> chain nx (nx f) fs"

lemma chain_cong: "\<forall>f\<in>set fs. nx' f = nx f \<Longrightarrow> chain nx' a fs = chain nx a fs"
  by (induction fs arbitrary: a) auto

definition pfn :: "nat \<Rightarrow> nat" where
  "pfn f = (f - KERNSTART) div PAGESZ"

definition vframe :: "pmem \<Rightarrow> nat \<Rightarrow> bool" where
  "vframe s f \<longleftrightarrow> f mod PAGESZ = 0 \<and> KERNSTART \<le> f \<and> f < KERNSTART + nphysbyte s \<and> allocable s f = Some True"

definition bounds_ok :: "pmem \<Rightarrow> bool" where
  "bounds_ok s \<longleftrightarrow> KERNSTART \<le> kernend s \<and> kernend s < KERNSTART + nphysbyte s"

definition free_list :: "pmem \<Rightarrow> nat list \<Rightarrow> bool" where
  "free_list s fs \<longleftrightarrow> chain (longs s) (freepageq s) fs \<and> distinct fs \<and> nfreepage s = int (length fs) \<and>
     (\<forall>f\<in>set fs. vframe s f \<and> refcnt s (pfn f) = 0)"

definition pm_inv :: "pmem \<Rightarrow> bool" where
  "pm_inv s \<longleftrightarrow> bounds_ok s \<and> (\<forall>p. 0 \<le> refcnt s p \<or> refcnt s p = SYSPAGE) \<and>
     (\<exists>fs. free_list s fs \<and> (\<forall>f. vframe s f \<longrightarrow> refcnt s (pfn f) = 0 \<longrightarrow> f \<in> set fs))"

lemma pfn_inj:
  assumes "vframe s f" and "vframe s g" and "pfn f = pfn g"
  shows "f = g"
proof -
  have "(f - KERNSTART) mod PAGESZ = 0" "(g - KERNSTART) mod PAGESZ = 0"
    using assms(1,2) by (auto simp: vframe_def mm_consts mod_eq_0_iff_dvd intro: dvd_diff_nat)
  then have "f - KERNSTART = g - KERNSTART"
    using assms(3) by (metis pfn_def div_mult_mod_eq)
  then show ?thesis using assms(1,2) by (auto simp: vframe_def)
qed

lemma vframe_apart:
  assumes "vframe s f" and "vframe s g" and "f \<noteq> g"
  shows "\<not> (f \<le> g \<and> g < f + PAGESZ)"
proof
  assume a: "f \<le> g \<and> g < f + PAGESZ"
  then have "g div PAGESZ = f div PAGESZ"
    using assms(1) by (auto simp: vframe_def mm_consts)
  with assms show False
    by (metis vframe_def add_0_right div_mult_mod_eq)
qed

lemma allocable_cong:
  "nphysbyte s' = nphysbyte s \<Longrightarrow> kernend s' = kernend s \<Longrightarrow> allocable s' = allocable s"
  by (simp add: allocable_def vtop_def fun_eq_iff)

lemma vframe_cong:
  "nphysbyte s' = nphysbyte s \<Longrightarrow> kernend s' = kernend s \<Longrightarrow> vframe s' = vframe s"
  using allocable_cong [of s' s] by (simp add: vframe_def fun_eq_iff)

lemma set_refcnt_sel [simp]:
  "nphysbyte (set_refcnt p v s) = nphysbyte s"
  "refcnt (set_refcnt p v s) = (refcnt s)(p := v)"
  "longs (set_refcnt p v s) = longs s"
  "freepageq (set_refcnt p v s) = freepageq s"
  "nfreepage (set_refcnt p v s) = nfreepage s"
  "kernend (set_refcnt p v s) = kernend s"
  "allocbmend (set_refcnt p v s) = allocbmend s"
  by (simp_all add: set_refcnt_def)

lemma clear_page_sel [simp]:
  "nphysbyte (clear_page a s) = nphysbyte s"
  "refcnt (clear_page a s) = refcnt s"
  "freepageq (clear_page a s) = freepageq s"
  "nfreepage (clear_page a s) = nfreepage s"
  "kernend (clear_page a s) = kernend s"
  by (simp_all add: clear_page_def)

lemma vframe_vatopage: "vframe s f \<Longrightarrow> vatopage s f = Some (pfn f)"
  by (auto simp: vatopage_def vframe_def vtop_def patopage_def pfn_def)

lemma check_loop_ok:
  "chain (longs s) a fs \<Longrightarrow> \<forall>f\<in>set fs. vframe s f \<and> refcnt s (pfn f) = 0 \<Longrightarrow>
   check_loop s a c = kassert (c + int (length fs) = nfreepage s)"
proof (induction fs arbitrary: a c)
  case Nil
  then show ?case by (subst check_loop.simps) simp
next
  case (Cons f fs)
  then show ?case by (subst check_loop.simps) (simp add: vframe_vatopage algebra_simps)
qed

lemma check_ok: "free_list s fs \<Longrightarrow> check s = Some ()"
  using check_loop_ok [of s "freepageq s" fs 0] by (simp add: check_def free_list_def)

subsection \<open>Taking and returning a page\<close>

lemma take_page_ok:
  assumes "free_list s (f # fs)"
  shows "\<exists>s'. take_page flags s = Some (Page f, s') \<and> free_list s' fs \<and> vframe s f \<and>
    refcnt s' = (refcnt s)(pfn f := 1) \<and> nphysbyte s' = nphysbyte s \<and> kernend s' = kernend s \<and>
    (flags AND ACLEAR \<noteq> 0 \<longrightarrow> (\<forall>a. f \<le> a \<and> a < f + PAGESZ \<longrightarrow> longs s' a = 0))"
proof -
  have f: "freepageq s = f" "vframe s f" "refcnt s (pfn f) = 0" "f \<notin> set fs" "chain (longs s) (longs s f) fs"
    and fs: "distinct fs" "\<forall>g\<in>set fs. vframe s g \<and> refcnt s (pfn g) = 0" "nfreepage s = int (length fs) + 1"
    using assms by (auto simp: free_list_def)
  define s1 where "s1 = set_refcnt (pfn f) 1 (s\<lparr>freepageq := longs s f, nfreepage := nfreepage s - 1\<rparr>)"
  define s2 where "s2 = (if flags AND ACLEAR \<noteq> 0 then clear_page f s1 else s1)"
  have vc: "vframe s2 = vframe s" by (rule vframe_cong) (simp_all add: s2_def s1_def)
  have "longs s2 g = longs s g" if "g \<in> set fs" for g
    using vframe_apart [OF f(2), of g] fs(2) that f(4) by (auto simp: s2_def s1_def clear_page_def)
  then have "chain (longs s2) (longs s f) fs"
    using f(5) chain_cong [of fs "longs s2" "longs s"] by blast
  moreover have "pfn g \<noteq> pfn f" if "g \<in> set fs" for g
    using pfn_inj [OF f(2), of g] fs(2) that f(4) by auto
  ultimately have "free_list s2 fs"
    using fs vc by (auto simp: free_list_def s2_def s1_def)
  moreover have "take_page flags s = Some (Page f, s2)"
    using f by (auto simp: take_page_def vframe_def s2_def s1_def set_refcnt_def Let_def
        vatopage_def vtop_def patopage_def pfn_def)
  ultimately show ?thesis
    using f(2) by (intro exI [of _ s2]) (auto simp: s2_def s1_def clear_page_def)
qed

lemma freepage_shared:
  assumes "vframe s f" and "1 < refcnt s (pfn f)"
  shows "freepage f s = Some (set_refcnt (pfn f) (refcnt s (pfn f) - 1) s)"
  using assms by (auto simp: freepage_def vframe_vatopage vframe_def vtop_def Let_def SYSPAGE_def)

lemma freepage_last:
  assumes "vframe s f" and "refcnt s (pfn f) = 1"
  shows "freepage f s = Some (s\<lparr>refcnt := (refcnt s)(pfn f := 0), longs := (longs s)(f := freepageq s),
    freepageq := f, nfreepage := nfreepage s + 1\<rparr>)"
  using assms by (auto simp: freepage_def vframe_vatopage vframe_def vtop_def Let_def SYSPAGE_def set_refcnt_def)

lemma freepage_bad:
  "vframe s f \<Longrightarrow> refcnt s (pfn f) = SYSPAGE \<or> refcnt s (pfn f) = 0 \<Longrightarrow> freepage f s = None"
  by (auto simp: freepage_def vframe_vatopage Let_def vframe_def vtop_def)

lemma push_free:
  assumes "free_list s fs" and "vframe s f" and "refcnt s (pfn f) \<noteq> 0"
  shows "free_list (s\<lparr>refcnt := (refcnt s)(pfn f := 0), longs := (longs s)(f := freepageq s),
    freepageq := f, nfreepage := nfreepage s + 1\<rparr>) (f # fs)" (is "free_list ?s _")
proof -
  have nin: "f \<notin> set fs" using assms by (auto simp: free_list_def)
  moreover have "vframe ?s = vframe s" by (rule vframe_cong) simp_all
  moreover have "chain (longs ?s) (freepageq s) fs = chain (longs s) (freepageq s) fs"
    using nin by (intro chain_cong) auto
  moreover have "f \<noteq> 0" using assms(2) by (auto simp: vframe_def KERNSTART_def)
  ultimately show ?thesis
    using assms by (auto simp: free_list_def)
qed


subsection \<open>The whole allocator keeps its invariant\<close>

text \<open>The number of free pages a request must leave, by the flags.\<close>

definition reserve :: "int \<Rightarrow> int" where
  "reserve flags = (if flags AND AUSER \<noteq> 0 then DRIVERQUOTA + KERNQUOTA
     else if flags AND ADRIVER \<noteq> 0 then KERNQUOTA else 0)"

definition valid_flags :: "int \<Rightarrow> bool" where
  "valid_flags flags \<longleftrightarrow> flags AND AUSER \<noteq> 0 \<or> flags AND ADRIVER \<noteq> 0 \<or> flags AND AKERN \<noteq> 0"

lemma allocpage_refused:
  assumes "pm_inv s" and "valid_flags flags" and "nfreepage s \<le> reserve flags"
  shows "\<exists>r. allocpage flags s = Some (r, s) \<and> (r = NoPage \<or> r = Exit)"
proof -
  obtain fs where "free_list s fs" using assms(1) by (auto simp: pm_inv_def)
  then have "check s = Some ()" "0 \<le> nfreepage s" by (auto simp: check_ok free_list_def)
  then show ?thesis
    using assms(2,3) by (auto simp: allocpage_def reserve_def valid_flags_def split: if_splits)
qed

lemma allocpage_granted:
  assumes "pm_inv s" and "valid_flags flags" and "reserve flags < nfreepage s"
  shows "\<exists>f s'. allocpage flags s = Some (Page f, s') \<and> pm_inv s' \<and> vframe s f \<and> refcnt s (pfn f) = 0 \<and>
    refcnt s' = (refcnt s)(pfn f := 1) \<and> nfreepage s' = nfreepage s - 1 \<and>
    nphysbyte s' = nphysbyte s \<and> kernend s' = kernend s \<and>
    (flags AND ACLEAR \<noteq> 0 \<longrightarrow> (\<forall>a. f \<le> a \<and> a < f + PAGESZ \<longrightarrow> longs s' a = 0))"
proof -
  obtain fs where fs: "free_list s fs" "\<forall>f. vframe s f \<longrightarrow> refcnt s (pfn f) = 0 \<longrightarrow> f \<in> set fs"
    using assms(1) by (auto simp: pm_inv_def)
  have "0 \<le> reserve flags" by (simp add: reserve_def mm_consts)
  with assms(3) fs(1) obtain f gs where f: "fs = f # gs" by (cases fs) (auto simp: free_list_def)
  obtain s' where s': "take_page flags s = Some (Page f, s')" "free_list s' gs" "vframe s f"
      "refcnt s' = (refcnt s)(pfn f := 1)" "nphysbyte s' = nphysbyte s" "kernend s' = kernend s"
      "flags AND ACLEAR \<noteq> 0 \<longrightarrow> (\<forall>a. f \<le> a \<and> a < f + PAGESZ \<longrightarrow> longs s' a = 0)"
    using take_page_ok [of s f gs flags] fs(1) f by blast
  have "allocpage flags s = take_page flags s"
    using assms(2,3) fs(1) by (auto simp: allocpage_def reserve_def valid_flags_def check_ok mm_consts
        split: if_splits)
  moreover have "pm_inv s'"
    unfolding pm_inv_def
  proof (intro conjI exI)
    show "\<forall>g. vframe s' g \<longrightarrow> refcnt s' (pfn g) = 0 \<longrightarrow> g \<in> set gs"
      using fs(2) f s'(4) vframe_cong [OF s'(5,6)] by (auto split: if_splits)
  qed (use s' assms(1) in \<open>auto simp: pm_inv_def bounds_ok_def\<close>)
  moreover have "nfreepage s' = nfreepage s - 1" "refcnt s (pfn f) = 0"
    using s'(2) fs(1) f by (auto simp: free_list_def)
  ultimately show ?thesis using s' by auto
qed

lemma freepage_keeps:
  assumes "pm_inv s" and "vframe s f" and "0 < refcnt s (pfn f)"
  shows "\<exists>s'. freepage f s = Some s' \<and> pm_inv s' \<and> refcnt s' = (refcnt s)(pfn f := refcnt s (pfn f) - 1) \<and>
    nfreepage s' = nfreepage s + (if refcnt s (pfn f) = 1 then 1 else 0) \<and>
    nphysbyte s' = nphysbyte s \<and> kernend s' = kernend s"
proof (cases "refcnt s (pfn f) = 1")
  case True
  obtain fs where fs: "free_list s fs" "\<forall>f. vframe s f \<longrightarrow> refcnt s (pfn f) = 0 \<longrightarrow> f \<in> set fs"
    using assms(1) by (auto simp: pm_inv_def)
  define s' where "s' = s\<lparr>refcnt := (refcnt s)(pfn f := 0), longs := (longs s)(f := freepageq s),
    freepageq := f, nfreepage := nfreepage s + 1\<rparr>"
  have fl: "free_list s' (f # fs)"
    using push_free [OF fs(1) assms(2)] True by (simp add: s'_def)
  have vc: "vframe s' = vframe s" by (rule vframe_cong) (simp_all add: s'_def)
  have "\<forall>g. vframe s' g \<longrightarrow> refcnt s' (pfn g) = 0 \<longrightarrow> g \<in> set (f # fs)"
    using fs(2) vc pfn_inj [OF _ assms(2)] by (auto simp: s'_def split: if_splits)
  then have "pm_inv s'"
    using fl assms(1) unfolding pm_inv_def by (auto simp: bounds_ok_def s'_def)
  then show ?thesis
    using True freepage_last [OF assms(2) True] by (auto simp: s'_def)
next
  case False
  define s' where "s' = set_refcnt (pfn f) (refcnt s (pfn f) - 1) s"
  have vc: "vframe s' = vframe s" by (rule vframe_cong) (simp_all add: s'_def)
  have "free_list s' fs" if "free_list s fs" for fs
    using that vc assms(3) by (auto simp: free_list_def s'_def)
  then have "pm_inv s'"
    using assms(1,3) False vc unfolding pm_inv_def by (auto simp: bounds_ok_def s'_def split: if_splits)
  then show ?thesis
    using False assms freepage_shared [OF assms(2)] by (auto simp: s'_def)
qed

lemma duppage_keeps:
  assumes "pm_inv s" and "vframe s f" and "0 < refcnt s (pfn f)"
  shows "\<exists>s'. duppage f s = Some s' \<and> pm_inv s' \<and> refcnt s' = (refcnt s)(pfn f := refcnt s (pfn f) + 1) \<and>
    nfreepage s' = nfreepage s \<and> nphysbyte s' = nphysbyte s \<and> kernend s' = kernend s"
proof -
  define s' where "s' = set_refcnt (pfn f) (refcnt s (pfn f) + 1) s"
  have vc: "vframe s' = vframe s" by (rule vframe_cong) (simp_all add: s'_def)
  have "free_list s' fs" if "free_list s fs" for fs
    using that vc assms(3) by (auto simp: free_list_def s'_def)
  then have "pm_inv s'"
    using assms(1,3) vc unfolding pm_inv_def by (auto simp: bounds_ok_def s'_def split: if_splits)
  moreover have "duppage f s = Some s'"
    using assms(2,3) by (auto simp: duppage_def dupphys_def vtop_def vframe_def patopage_def pfn_def s'_def
        SYSPAGE_def)
  ultimately show ?thesis by (auto simp: s'_def)
qed


subsection \<open>Boot\<close>

lemma page_back: "a mod PAGESZ = 0 \<Longrightarrow> a div PAGESZ * PAGESZ = a"
  using div_mult_mod_eq [of a PAGESZ] by simp

lemma markfree_ok:
  assumes "free_list s fs" and "from mod PAGESZ = 0" and "to mod PAGESZ = 0" and "to \<le> nphysbyte s"
    and "\<forall>a. from \<le> a \<and> a < to \<and> a mod PAGESZ = 0 \<longrightarrow> vframe s (KERNSTART + a) \<and> KERNSTART + a \<notin> set fs"
  shows "\<exists>s' fs'. markfree from to s = Some s' \<and> free_list s' fs' \<and>
    set fs' = set fs \<union> {KERNSTART + a | a. from \<le> a \<and> a < to \<and> a mod PAGESZ = 0} \<and>
    refcnt s' = (\<lambda>p. if from \<le> p * PAGESZ \<and> p * PAGESZ < to then 0 else refcnt s p) \<and>
    nfreepage s' = nfreepage s + int ((to - from) div PAGESZ) \<and>
    nphysbyte s' = nphysbyte s \<and> kernend s' = kernend s \<and> allocbmend s' = allocbmend s"
  using assms
proof (induction "to - from" arbitrary: "from" s fs rule: less_induct)
  case less
  show ?case
  proof (cases "from < to")
    case False
    then have "markfree from to s = Some s" by (subst markfree.simps) simp
    with False less.prems show ?thesis by (intro exI [of _ s] exI [of _ fs]) auto
  next
    case True
    define f where "f = KERNSTART + from"
    define s1 where "s1 = set_refcnt (pfn f) 1 s"
    define s2 where "s2 = s1\<lparr>refcnt := (refcnt s1)(pfn f := 0), longs := (longs s1)(f := freepageq s1),
      freepageq := f, nfreepage := nfreepage s1 + 1\<rparr>"
    have f: "vframe s f" "f \<notin> set fs" "pfn f = from div PAGESZ"
      using True less.prems(2,5) by (auto simp: f_def pfn_def)
    have vc: "vframe s1 = vframe s" "vframe s2 = vframe s"
      by (rule vframe_cong; simp add: s1_def s2_def)+
    have fl1: "free_list s1 fs"
    proof -
      have "\<forall>g\<in>set fs. pfn g \<noteq> pfn f"
        using less.prems(1) f(1,2) pfn_inj [of s] by (metis free_list_def)
      then show ?thesis using less.prems(1) vc(1) by (simp add: free_list_def) (simp add: s1_def)
    qed
    have s2: "freepage f s1 = Some s2"
      using freepage_last [of s1 f] f vc by (simp add: s2_def s1_def)
    have fl2: "free_list s2 (f # fs)"
      using push_free [OF fl1, of f] f vc by (simp add: s2_def s1_def)
    have step: "markfree from to s = markfree (from + PAGESZ) to s2"
      using True less.prems(4) s2 f(3)
      by (subst markfree.simps)
         (simp add: patopage_def freephys_def ptov_def f_def s1_def add.commute)
    have lt: "to - (from + PAGESZ) < to - from" using True by (simp add: PAGESZ_def)
    have al: "(from + PAGESZ) mod PAGESZ = 0" using less.prems(2) by simp
    have fr: "\<forall>a. from + PAGESZ \<le> a \<and> a < to \<and> a mod PAGESZ = 0 \<longrightarrow>
        vframe s2 (KERNSTART + a) \<and> KERNSTART + a \<notin> set (f # fs)"
      using less.prems(5) vc(2) by (auto simp: f_def PAGESZ_def)
    obtain s' fs' where s': "markfree (from + PAGESZ) to s2 = Some s'" "free_list s' fs'"
        "set fs' = set (f # fs) \<union> {KERNSTART + a | a. from + PAGESZ \<le> a \<and> a < to \<and> a mod PAGESZ = 0}"
        "refcnt s' = (\<lambda>p. if from + PAGESZ \<le> p * PAGESZ \<and> p * PAGESZ < to then 0 else refcnt s2 p)"
        "nfreepage s' = nfreepage s2 + int ((to - (from + PAGESZ)) div PAGESZ)"
        "nphysbyte s' = nphysbyte s2" "kernend s' = kernend s2" "allocbmend s' = allocbmend s2"
      using less.hyps [OF lt fl2 al less.prems(3) _ fr] less.prems(4) by (auto simp: s2_def s1_def)
    have multiples: "from + PAGESZ \<le> a \<or> a = from" if m: "from \<le> a" "a mod PAGESZ = 0" for a
    proof -
      obtain k l where "from = PAGESZ * k" "a = PAGESZ * l"
        using m(2) less.prems(2) by (metis mod_0_imp_dvd dvdE)
      with m(1) show ?thesis by (cases "k = l") (auto simp: PAGESZ_def)
    qed
    have "set fs' = set fs \<union> {KERNSTART + a | a. from \<le> a \<and> a < to \<and> a mod PAGESZ = 0}"
    proof -
      have "(from \<le> a \<and> a < to \<and> a mod PAGESZ = 0) \<longleftrightarrow>
          a = from \<or> from + PAGESZ \<le> a \<and> a < to \<and> a mod PAGESZ = 0" for a
        using multiples [of a] True less.prems(2) by (metis add_leD1 order_refl)
      then have "{KERNSTART + a | a. from \<le> a \<and> a < to \<and> a mod PAGESZ = 0} =
          insert f {KERNSTART + a | a. from + PAGESZ \<le> a \<and> a < to \<and> a mod PAGESZ = 0}"
        unfolding f_def by (simp only: set_eq_iff mem_Collect_eq insert_iff) metis
      then show ?thesis using s'(3) by simp
    qed
    moreover have "refcnt s' = (\<lambda>p. if from \<le> p * PAGESZ \<and> p * PAGESZ < to then 0 else refcnt s p)"
    proof
      fix p
      have pf: "pfn f * PAGESZ = from" using f(3) page_back [OF less.prems(2)] by simp
      show "refcnt s' p = (if from \<le> p * PAGESZ \<and> p * PAGESZ < to then 0 else refcnt s p)"
      proof (cases "p = pfn f")
        case True
        with pf \<open>from < to\<close> show ?thesis by (simp add: s'(4) s2_def s1_def)
      next
        case False
        then have ne: "p * PAGESZ \<noteq> from" using pf by (auto simp: PAGESZ_def)
        have "from \<le> p * PAGESZ \<longleftrightarrow> from + PAGESZ \<le> p * PAGESZ"
        proof
          assume le: "from \<le> p * PAGESZ"
          have "p * PAGESZ mod PAGESZ = 0" by simp
          from multiples [OF le this] ne
          show "from + PAGESZ \<le> p * PAGESZ" by blast
        qed (rule add_leD1)
        with False show ?thesis by (simp add: s'(4) s2_def s1_def)
      qed
    qed
    moreover have "(to - from) div PAGESZ = Suc ((to - (from + PAGESZ)) div PAGESZ)"
    proof -
      have "from + PAGESZ \<le> to" using multiples [of to] True less.prems(3) by auto
      then have "to - from = PAGESZ + (to - (from + PAGESZ))" by simp
      then have "(to - from) div PAGESZ = (PAGESZ + (to - (from + PAGESZ))) div PAGESZ" by (rule arg_cong)
      then show ?thesis by (simp only: PAGESZ_def)
    qed
    ultimately show ?thesis
      using step s' by (intro exI [of _ s'] exI [of _ fs']) (simp add: s2_def s1_def)
  qed
qed

lemma marksys_ok:
  assumes "from mod PAGESZ = 0" and "to \<le> nphysbyte s"
  shows "marksys from to s = Some (s\<lparr>refcnt :=
    (\<lambda>p. if from \<le> p * PAGESZ \<and> p * PAGESZ < to then SYSPAGE else refcnt s p)\<rparr>)"
  using assms
proof (induction "to - from" arbitrary: "from" s rule: less_induct)
  case less
  show ?case
  proof (cases "from < to")
    case False
    then have "(\<lambda>p. if from \<le> p * PAGESZ \<and> p * PAGESZ < to then SYSPAGE else refcnt s p) = refcnt s"
      by auto
    with False show ?thesis by (subst marksys.simps) simp
  next
    case True
    obtain k where k: "from = PAGESZ * k" using less.prems(1) by (metis mod_0_imp_dvd dvdE)
    then have "from \<le> p * PAGESZ \<longleftrightarrow> p = k \<or> from + PAGESZ \<le> p * PAGESZ" for p
      by (auto simp: PAGESZ_def)
    then have eq: "(\<lambda>p. if from + PAGESZ \<le> p * PAGESZ \<and> p * PAGESZ < to then SYSPAGE
          else refcnt (set_refcnt k SYSPAGE s) p) =
        (\<lambda>p. if from \<le> p * PAGESZ \<and> p * PAGESZ < to then SYSPAGE else refcnt s p)"
      using True k by (auto simp: fun_eq_iff PAGESZ_def)
    have "marksys from to s = marksys (from + PAGESZ) to (set_refcnt k SYSPAGE s)"
      using True less.prems k by (subst marksys.simps) (simp add: patopage_def PAGESZ_def)
    also have "\<dots> = Some ((set_refcnt k SYSPAGE s)\<lparr>refcnt := (\<lambda>p. if from + PAGESZ \<le> p * PAGESZ \<and>
        p * PAGESZ < to then SYSPAGE else refcnt (set_refcnt k SYSPAGE s) p)\<rparr>)"
      using True less.prems by (intro less.hyps) (auto simp: PAGESZ_def)
    finally show ?thesis unfolding eq by (simp add: set_refcnt_def)
  qed
qed


definition boot_ok :: "pmem \<Rightarrow> bool" where
  "boot_ok s \<longleftrightarrow> allocbmok s \<and> freepageq s = 0 \<and> nfreepage s = 0 \<and> nphysbyte s mod PAGESZ = 0 \<and>
     KERNSTART + M1 \<le> kernend s \<and> allocbmend s mod PAGESZ = 0 \<and> allocbmend s < KERNSTART + nphysbyte s \<and>
     kernend s + 4 + nphysbyte s div PAGESZ * 4 \<le> allocbmend s"

lemma page_of_vframe: "vframe s f \<Longrightarrow> \<exists>p. f = KERNSTART + p * PAGESZ \<and> pfn f = p \<and> p * PAGESZ < nphysbyte s"
proof -
  assume v: "vframe s f"
  then have "(f - KERNSTART) mod PAGESZ = 0"
    by (auto simp: vframe_def mm_consts mod_eq_0_iff_dvd intro: dvd_diff_nat)
  then have "f - KERNSTART = pfn f * PAGESZ" by (metis pfn_def add_0_right div_mult_mod_eq)
  with v show ?thesis by (intro exI [of _ "pfn f"]) (auto simp: vframe_def)
qed

lemma vframe_low: "PAGESZ \<le> a \<Longrightarrow> a < K640 \<Longrightarrow> a < nphysbyte s \<Longrightarrow> a mod PAGESZ = 0 \<Longrightarrow> vframe s (KERNSTART + a)"
  by (auto simp: vframe_def allocable_def vtop_def between_def mm_consts mod_eq_0_iff_dvd)

lemma vframe_high:
  "bounds_ok s \<Longrightarrow> kernend s \<le> KERNSTART + a \<Longrightarrow> a < nphysbyte s \<Longrightarrow> a mod PAGESZ = 0 \<Longrightarrow> vframe s (KERNSTART + a)"
  by (auto simp: vframe_def allocable_def vtop_def between_def bounds_ok_def mm_consts mod_eq_0_iff_dvd)

lemma free_list_refcnt:
  "free_list s fs \<Longrightarrow> \<forall>f\<in>set fs. rc (pfn f) = 0 \<Longrightarrow> free_list (s\<lparr>refcnt := rc\<rparr>) fs"
  using vframe_cong [of "s\<lparr>refcnt := rc\<rparr>" s] by (simp add: free_list_def)


lemma allocbm_boot:
  assumes "boot_ok s"
  shows "\<exists>a s'. allocbm (nphysbyte s div PAGESZ * 4) 4 s = Some (a, s') \<and> boot_ok (s'\<lparr>kernend := kernend s\<rparr>) \<and>
    kernend s \<le> kernend s' \<and> kernend s' \<le> allocbmend s' \<and> nphysbyte s' = nphysbyte s \<and>
    allocbmend s' = allocbmend s"
proof -
  have "(kernend s + 3) div 4 * 4 \<le> kernend s + 4" "kernend s \<le> (kernend s + 3) div 4 * 4" by presburger+
  moreover have "(3 :: nat) AND 4 = 0" by (simp add: and_nat_unfold)
  ultimately show ?thesis using assms by (auto simp: allocbm_def boot_ok_def Let_def)
qed

lemma pagemapinit_ok:
  assumes "boot_ok s"
  shows "\<exists>s'. pagemapinit s = Some s' \<and> pm_inv s' \<and>
    nfreepage s' = 159 + int ((KERNSTART + nphysbyte s - allocbmend s) div PAGESZ)"
proof -
  obtain a s0 where s0: "allocbm (nphysbyte s div PAGESZ * 4) 4 s = Some (a, s0)"
      "boot_ok (s0\<lparr>kernend := kernend s\<rparr>)" "kernend s \<le> kernend s0" "kernend s0 \<le> allocbmend s0"
      "nphysbyte s0 = nphysbyte s" "allocbmend s0 = allocbmend s"
    using allocbm_boot [OF assms] by blast
  define ae where "ae = allocbmend s - KERNSTART"
  define n where "n = nphysbyte s"
  have b: "M1 \<le> ae" "ae < n" "ae mod PAGESZ = 0" "n mod PAGESZ = 0" "allocbmend s = KERNSTART + ae"
    using assms by (auto simp: boot_ok_def ae_def n_def mm_consts mod_eq_0_iff_dvd intro: dvd_diff_nat)
  define s1 where "s1 = s0\<lparr>refcnt := (\<lambda>p. if 0 \<le> p * PAGESZ \<and> p * PAGESZ < PAGESZ then SYSPAGE else 0)\<rparr>"
  have m1: "marksys 0 PAGESZ (s0\<lparr>refcnt := \<lambda>_. 0\<rparr>) = Some s1"
    using marksys_ok [of 0 PAGESZ "s0\<lparr>refcnt := \<lambda>_. 0\<rparr>"] b s0(5) by (simp add: s1_def n_def mm_consts cong: if_cong)
  have fl1: "free_list s1 []"
    using s0(2) by (simp add: free_list_def s1_def boot_ok_def)
  have "\<forall>a. PAGESZ \<le> a \<and> a < K640 \<and> a mod PAGESZ = 0 \<longrightarrow> vframe s1 (KERNSTART + a) \<and> KERNSTART + a \<notin> set []"
    using vframe_low [of _ s1] b s0(5) by (simp add: s1_def n_def mm_consts)
  moreover have "K640 \<le> nphysbyte s1" "K640 mod PAGESZ = 0"
    using b s0(5) by (simp_all add: s1_def n_def mm_consts)
  ultimately obtain s2 fs2 where s2: "markfree PAGESZ K640 s1 = Some s2" "free_list s2 fs2"
      "set fs2 = {KERNSTART + a | a. PAGESZ \<le> a \<and> a < K640 \<and> a mod PAGESZ = 0}"
      "refcnt s2 = (\<lambda>p. if PAGESZ \<le> p * PAGESZ \<and> p * PAGESZ < K640 then 0 else refcnt s1 p)"
      "nfreepage s2 = nfreepage s1 + int ((K640 - PAGESZ) div PAGESZ)"
      "nphysbyte s2 = nphysbyte s1" "kernend s2 = kernend s1" "allocbmend s2 = allocbmend s1"
    using markfree_ok [OF fl1, of PAGESZ K640] by auto
  define s3 where "s3 = s2\<lparr>refcnt := (\<lambda>p. if K640 \<le> p * PAGESZ \<and> p * PAGESZ < ae then SYSPAGE else refcnt s2 p)\<rparr>"
  have sz: "nphysbyte s2 = n" "allocbmend s2 = KERNSTART + ae" "kernend s2 = kernend s0"
    using s2 s0 b by (simp_all add: s1_def n_def)
  have m3: "\<exists>s'. marksys K640 M1 s2 = Some s' \<and> nphysbyte s' = n \<and> allocbmend s' = KERNSTART + ae \<and>
      marksys M1 ae s' = Some s3"
  proof -
    have "marksys K640 M1 s2 = Some (s2\<lparr>refcnt :=
        (\<lambda>p. if K640 \<le> p * PAGESZ \<and> p * PAGESZ < M1 then SYSPAGE else refcnt s2 p)\<rparr>)"
      using b sz by (intro marksys_ok) (simp_all add: mm_consts)
    moreover have "marksys M1 ae (s2\<lparr>refcnt :=
        (\<lambda>p. if K640 \<le> p * PAGESZ \<and> p * PAGESZ < M1 then SYSPAGE else refcnt s2 p)\<rparr>) = Some s3"
      using b sz by (subst marksys_ok) (auto simp: mm_consts s3_def fun_eq_iff)
    ultimately show ?thesis using sz by simp
  qed
  have pfn_low: "pfn (KERNSTART + a) = a div PAGESZ" for a by (simp add: pfn_def)
  have fl3: "free_list s3 fs2"
  proof -
    have "\<forall>f\<in>set fs2. refcnt s3 (pfn f) = 0"
    proof
      fix f assume "f \<in> set fs2"
      then obtain a where a: "f = KERNSTART + a" "PAGESZ \<le> a" "a < K640" "a mod PAGESZ = 0"
        using s2(3) by auto
      then have e: "pfn f * PAGESZ = a" by (simp add: pfn_low page_back)
      have "refcnt s2 (pfn f) = 0" unfolding s2(4) e using a by simp
      with a e show "refcnt s3 (pfn f) = 0" by (simp add: s3_def)
    qed
    then show ?thesis using free_list_refcnt [OF s2(2)] by (simp add: s3_def)
  qed
  have bo: "bounds_ok s3"
    using s0 b sz assms by (simp add: bounds_ok_def s3_def boot_ok_def)
  have "\<forall>a. ae \<le> a \<and> a < n \<and> a mod PAGESZ = 0 \<longrightarrow> vframe s3 (KERNSTART + a) \<and> KERNSTART + a \<notin> set fs2"
    using vframe_high [OF bo] s0 b sz s2(3) by (auto simp: s3_def mm_consts)
  then obtain s4 fs4 where s4: "markfree ae n s3 = Some s4" "free_list s4 fs4"
      "set fs4 = set fs2 \<union> {KERNSTART + a | a. ae \<le> a \<and> a < n \<and> a mod PAGESZ = 0}"
      "refcnt s4 = (\<lambda>p. if ae \<le> p * PAGESZ \<and> p * PAGESZ < n then 0 else refcnt s3 p)"
      "nfreepage s4 = nfreepage s3 + int ((n - ae) div PAGESZ)"
      "nphysbyte s4 = nphysbyte s3" "kernend s4 = kernend s3"
    using markfree_ok [OF fl3, of ae n] b sz by (auto simp: s3_def)
  have run: "pagemapinit s = Some s4"
    using s0(1) m1 s2(1) m3 s4(1) b sz
    by (auto simp: pagemapinit_def vtop_def Let_def s3_def mm_consts)
  have "f \<in> set fs4" if v: "vframe s4 f" and z: "refcnt s4 (pfn f) = 0" for f
  proof -
    obtain p where p: "f = KERNSTART + p * PAGESZ" "pfn f = p" "p * PAGESZ < n"
      using page_of_vframe [OF v] s4(6) sz by (auto simp: s3_def)
    then have "ae \<le> p * PAGESZ \<or> (PAGESZ \<le> p * PAGESZ \<and> p * PAGESZ < K640)"
      using z by (auto simp: s4(4) s3_def s2(4) s1_def SYSPAGE_def split: if_splits)
    then show ?thesis using p by (auto simp: s4(3) s2(3))
  qed
  moreover have "\<forall>p. 0 \<le> refcnt s4 p \<or> refcnt s4 p = SYSPAGE"
    by (simp add: s4(4) s3_def s2(4) s1_def)
  moreover have "bounds_ok s4" using bo s4 by (simp add: bounds_ok_def)
  ultimately have "pm_inv s4" using s4(2) by (auto simp: pm_inv_def)
  moreover have "nfreepage s4 = 159 + int ((n - ae) div PAGESZ)"
    using s4(5) s2(5) s0(2) by (simp add: s3_def s1_def boot_ok_def mm_consts)
  moreover have "KERNSTART + nphysbyte s - allocbmend s = n - ae"
    using b by (simp add: n_def)
  ultimately show ?thesis using run by simp
qed


subsection \<open>Pages as counted objects\<close>

definition page_refs :: "pmem \<Rightarrow> nat \<Rightarrow> nat" where
  "page_refs s f = (if vframe s f then nat (refcnt s (pfn f)) else 0)"

text \<open>
  The client of reference counts only sees whether it got a page; after \<open>Exit\<close> the caller does not go on, and the
  address spaces, which ask with \<^verbatim>\<open>AKERN\<close>, end the task (\<open>Mm_Mm.mm_init\<close>).
\<close>

definition page_alloc :: "int \<Rightarrow> pmem \<Rightarrow> (nat option \<times> pmem) option" where
  "page_alloc flags s = do {
     (r, s1) \<leftarrow> allocpage flags s;
     Some (case r of Page f \<Rightarrow> Some f | NoPage \<Rightarrow> None | Exit \<Rightarrow> None, s1) }"

lemma page_refs_upd:
  assumes "vframe s f" and "refcnt s' = (refcnt s)(pfn f := v)" and "nphysbyte s' = nphysbyte s"
    and "kernend s' = kernend s"
  shows "page_refs s' = (page_refs s)(f := nat v)"
  using assms(1,2) vframe_cong [OF assms(3,4)] pfn_inj [OF _ assms(1)]
  by (auto simp: page_refs_def fun_eq_iff)

lemma page_refs_pos: "0 < page_refs s f \<Longrightarrow> vframe s f \<and> 0 < refcnt s (pfn f)"
  by (auto simp: page_refs_def split: if_splits)

interpretation pages: refcounted pm_inv valid_flags page_refs page_alloc duppage freepage
proof unfold_locales
  fix s fl
  assume a: "pm_inv s" "valid_flags fl"
  show "page_alloc fl s = Some (None, s) \<or>
      (\<exists>p s'. page_alloc fl s = Some (Some p, s') \<and> pm_inv s' \<and> page_refs s p = 0 \<and>
        page_refs s' = (page_refs s)(p := 1))"
  proof (cases "nfreepage s \<le> reserve fl")
    case True
    then show ?thesis using allocpage_refused [OF a True] by (auto simp: page_alloc_def)
  next
    case False
    then obtain f s' where f: "allocpage fl s = Some (Page f, s')" "pm_inv s'" "vframe s f"
        "refcnt s (pfn f) = 0" "refcnt s' = (refcnt s)(pfn f := 1)" "nphysbyte s' = nphysbyte s"
        "kernend s' = kernend s"
      using allocpage_granted [OF a] by auto
    then show ?thesis
      using page_refs_upd [OF f(3,5,6,7)] by (simp add: page_alloc_def page_refs_def)
  qed
next
  fix s p
  assume "pm_inv s" "0 < page_refs s p"
  then show "\<exists>s'. duppage p s = Some s' \<and> pm_inv s' \<and> page_refs s' = (page_refs s)(p := page_refs s p + 1)"
    using duppage_keeps [of s p] page_refs_pos [of s p] page_refs_upd [of s p]
    by (fastforce simp: page_refs_def nat_add_distrib)
next
  fix s p
  assume "pm_inv s" "0 < page_refs s p"
  then show "\<exists>s'. freepage p s = Some s' \<and> pm_inv s' \<and> page_refs s' = (page_refs s)(p := page_refs s p - 1)"
    using freepage_keeps [of s p] page_refs_pos [of s p] page_refs_upd [of s p]
    by (fastforce simp: page_refs_def nat_diff_distrib)
qed


subsection \<open>Properties\<close>

text \<open>A memory of two megabytes in which only the second page is free.\<close>

definition demo_pmem :: pmem where
  "demo_pmem = \<lparr>nphysbyte = 2 * M1, refcnt = (\<lambda>_. SYSPAGE)(1 := 0), longs = \<lambda>_. 0,
     freepageq = KERNSTART + PAGESZ, nfreepage = 1, allocbmok = False, kernend = KERNSTART + M1,
     allocbmend = KERNSTART + M1\<rparr>"

lemma demo_pmem_inv: "pm_inv demo_pmem"
proof -
  have v: "vframe demo_pmem (KERNSTART + PAGESZ)"
    by (rule vframe_low) (simp_all add: demo_pmem_def mm_consts)
  moreover have p: "pfn (KERNSTART + PAGESZ) = 1" by (simp add: pfn_def mm_consts)
  ultimately have "free_list demo_pmem [KERNSTART + PAGESZ]"
    by (auto simp: free_list_def) (simp_all add: demo_pmem_def mm_consts)
  moreover have "f = KERNSTART + PAGESZ" if "vframe demo_pmem f" "refcnt demo_pmem (pfn f) = 0" for f
    using pfn_inj [OF that(1) v] that(2) p by (auto simp: demo_pmem_def SYSPAGE_def split: if_splits)
  ultimately show ?thesis
    unfolding pm_inv_def by (intro conjI exI [of _ "[KERNSTART + PAGESZ]"])
      (auto simp: bounds_ok_def demo_pmem_def mm_consts)
qed

text \<open>
  What \<^verbatim>\<open>allocpage\<close> returns, for every request class: it is refused, with nothing
  changed, exactly when it would eat into the pages reserved for the more privileged classes (16
  for user requests, 4 for drivers, none for the kernel); otherwise it returns a page that nobody
  referred to, whose count becomes 1, all of it zero if \<^verbatim>\<open>ACLEAR\<close> was asked, leaves every
  other count alone, and keeps the invariant of the allocator.
\<close>

theorem allocpage_spec:
  assumes "pm_inv s" and "valid_flags flags"
  shows "if nfreepage s \<le> reserve flags
    then \<exists>r. allocpage flags s = Some (r, s) \<and> (r = NoPage \<or> r = Exit)
    else \<exists>f s'. allocpage flags s = Some (Page f, s') \<and> pm_inv s' \<and> vframe s f \<and>
      refcnt s (pfn f) = 0 \<and> refcnt s' = (refcnt s)(pfn f := 1) \<and> nfreepage s' = nfreepage s - 1 \<and>
      (flags AND ACLEAR \<noteq> 0 \<longrightarrow> (\<forall>a. f \<le> a \<and> a < f + PAGESZ \<longrightarrow> longs s' a = 0))"
  using allocpage_refused [OF assms] allocpage_granted [OF assms] by fastforce

theorem allocpage_witness:
  "(\<exists>f s'. allocpage 9 demo_pmem = Some (Page f, s') \<and> refcnt s' (pfn f) = 1) \<and>
   (\<exists>r. allocpage 4 demo_pmem = Some (r, demo_pmem) \<and> (r = NoPage \<or> r = Exit))"
proof -
  have f: "valid_flags 9" "valid_flags 4" "\<not> nfreepage demo_pmem \<le> reserve 9" "nfreepage demo_pmem \<le> reserve 4"
    by (simp_all add: valid_flags_def AKERN_def AUSER_def ADRIVER_def reserve_def demo_pmem_def mm_consts)
  show ?thesis
    using allocpage_spec [OF demo_pmem_inv f(1)] allocpage_spec [OF demo_pmem_inv f(2)] f(3,4) by auto
qed

text \<open>
  C1: Reference counting.  A client that holds the references \<open>M\<close>, and only duplicates and
  frees pages it holds, can make any sequence of \<^verbatim>\<open>allocpage\<close>, \<^verbatim>\<open>duppage\<close> and
  \<^verbatim>\<open>freepage\<close> calls: no assertion and no panic is reached, and at every moment the count of
  each page is the number of references held to it, so a page is free exactly when the last
  reference is gone and is never handed out while it is referred to.
\<close>

theorem page_refcounts_exact:
  assumes "pm_inv s" and "page_refs s = count M" and "\<forall>x\<in>set ops. op_flags_ok valid_flags x"
  shows "\<exists>s' M'. run_refs page_alloc duppage freepage ops s M = Some (s', M') \<and> pm_inv s' \<and>
    page_refs s' = count M'"
  using pages.run_counts [OF assms] .

theorem page_refcounts_witness:
  "\<exists>s' M'. run_refs page_alloc duppage freepage [RNew 1, RDup (KERNSTART + PAGESZ), RFree (KERNSTART + PAGESZ)]
     demo_pmem {#} = Some (s', M') \<and> pm_inv s' \<and> page_refs s' = count M'"
proof -
  have "page_refs demo_pmem = count {#}"
    by (auto simp: page_refs_def demo_pmem_def SYSPAGE_def fun_eq_iff)
  then show ?thesis
    using page_refcounts_exact [OF demo_pmem_inv, of "{#}"
        "[RNew 1, RDup (KERNSTART + PAGESZ), RFree (KERNSTART + PAGESZ)]"]
    by (simp add: valid_flags_def AKERN_def)
qed

text \<open>
  Boot.  From a sane boot state \<^verbatim>\<open>pagemapinit\<close> runs to its end and establishes the
  allocator's invariant, with the pages between 4K and 640K and those above the boot allocator's
  area free, and all others marked as system pages.
\<close>

theorem pagemapinit_establishes_inv:
  assumes "boot_ok s"
  shows "\<exists>s'. pagemapinit s = Some s' \<and> pm_inv s' \<and>
    nfreepage s' = 159 + int ((KERNSTART + nphysbyte s - allocbmend s) div PAGESZ)"
  using pagemapinit_ok [OF assms] .

theorem pagemapinit_witness:
  "\<exists>s'. pagemapinit (allocbminit (KERNSTART + 2 * M1) (demo_pmem\<lparr>nphysbyte := 8 * M1, freepageq := 0, nfreepage := 0\<rparr>)) =
     Some s' \<and> pm_inv s' \<and> nfreepage s' = 671"
proof -
  have "boot_ok (allocbminit (KERNSTART + 2 * M1) (demo_pmem\<lparr>nphysbyte := 8 * M1, freepageq := 0, nfreepage := 0\<rparr>))"
    by (simp add: boot_ok_def allocbminit_def demo_pmem_def pageup_nat_def mm_consts)
  from pagemapinit_establishes_inv [OF this] show ?thesis
    by (simp add: allocbminit_def demo_pmem_def pageup_nat_def mm_consts)
qed

end
