(* ===== verification/Mm_Allockm.thy ===== *)
theory Mm_Allockm
  imports Mm_Allocpage
begin

text \<open>
  The kernel object allocator of \<^verbatim>\<open>mm/allockm.h\<close> and \<^verbatim>\<open>mm/allockm.cc\<close>: pools of
  equal-sized objects, each pool a queue of buckets with free objects (\<^verbatim>\<open>richq\<close>) and one of
  full buckets (\<^verbatim>\<open>poorq\<close>); a bucket is a page with a header and an array of objects.  Bucket
  headers are kept by page address, the two queues as the lists they stand for (the pointer-level
  queues are the subject of \<^verbatim>\<open>Lib_Queue\<close>), the chain of free objects as the list of their
  addresses.  The words \<^verbatim>\<open>FREEOBJMAGIC\<close> that fill free objects are in the memory of the page allocator.
  Pages come from and go back to the page allocator.
\<close>

subsection \<open>Buckets\<close>

record bucket =
  bpool :: nat
  objsize :: nat
  freeobj :: "nat list"
  ncurfree :: int
  nmaxfree :: nat

definition BUCKETHDR :: nat where "BUCKETHDR = 24"

text \<open>The words of an object behind its link, filled while the object is free.\<close>

definition FREEOBJMAGIC :: nat where "FREEOBJMAGIC = 0xdeaddead"

definition nmagic :: "nat \<Rightarrow> nat" where "nmagic sz = (sz - 4) div 4"

definition markmagic :: "nat \<Rightarrow> nat \<Rightarrow> (nat \<Rightarrow> nat) \<Rightarrow> nat \<Rightarrow> nat" where
  "markmagic x sz w = (\<lambda>a. if x + 4 \<le> a \<and> a < x + 4 + 4 * nmagic sz \<and> (a - x) mod 4 = 0 then FREEOBJMAGIC else w a)"

definition checkmagic :: "nat \<Rightarrow> nat \<Rightarrow> (nat \<Rightarrow> nat) \<Rightarrow> unit option" where
  "checkmagic x sz w = kassert (list_all (\<lambda>i. w (x + 4 + 4 * i) = FREEOBJMAGIC) [0..<nmagic sz])"

definition bucket_alloc :: "bucket \<Rightarrow> (nat \<Rightarrow> nat) \<Rightarrow> (nat option \<times> bucket) option" where
  "bucket_alloc b w = (if ncurfree b = 0 then Some (None, b)
     else case freeobj b of
       [] \<Rightarrow> None
     | x # xs \<Rightarrow> do {
         checkmagic x (objsize b) w;
         Some (Some x, b\<lparr>ncurfree := ncurfree b - 1, freeobj := xs\<rparr>) })"

text \<open>The alignment check subtracts unsigned longs, which wraps at 32 bits.\<close>

definition bucket_check :: "nat \<Rightarrow> nat \<Rightarrow> bucket \<Rightarrow> unit option" where
  "bucket_check base x b = do {
     kassert ((x + 2 ^ 32 - (base + BUCKETHDR)) mod 2 ^ 32 mod objsize b = 0);
     kassert (x \<notin> set (freeobj b)) }"

definition bucket_free :: "nat \<Rightarrow> nat \<Rightarrow> bucket \<Rightarrow> (nat \<Rightarrow> nat) \<Rightarrow> (bucket \<times> (nat \<Rightarrow> nat)) option" where
  "bucket_free base x b w = do {
     bucket_check base x b;
     Some (b\<lparr>ncurfree := ncurfree b + 1, freeobj := x # freeobj b\<rparr>, markmagic x (objsize b) w) }"

fun bucket_init_loop :: "nat \<Rightarrow> nat \<Rightarrow> nat \<Rightarrow> bucket \<Rightarrow> (nat \<Rightarrow> nat) \<Rightarrow> (bucket \<times> (nat \<Rightarrow> nat)) option" where
  "bucket_init_loop base x 0 b w = Some (b, w)"
| "bucket_init_loop base x (Suc n) b w = do {
     (b1, w1) \<leftarrow> bucket_free base x b w;
     bucket_init_loop base (x + objsize b) n b1 w1 }"

text \<open>
  The loop of \<^verbatim>\<open>bucket_t::init\<close> runs while \<open>o < end\<close> with
  \<open>end = objs + objsize * nmaxfree\<close>, hence \<open>nmaxfree\<close> times when \<open>objsize\<close> is positive; an
  \<open>objsize\<close> of 0 faults in the division.
\<close>

definition bucket_init :: "nat \<Rightarrow> nat \<Rightarrow> nat \<Rightarrow> (nat \<Rightarrow> nat) \<Rightarrow> (bucket \<times> (nat \<Rightarrow> nat)) option" where
  "bucket_init base poolid sz w = do {
     kassert ((base + BUCKETHDR) mod 4 = 0);
     kassert (sz \<noteq> 0);
     let n = (PAGESZ - BUCKETHDR) div sz;
     bucket_init_loop base (base + BUCKETHDR) n
       \<lparr>bpool = poolid, objsize = sz, freeobj = [], ncurfree = 0, nmaxfree = n\<rparr> w }"

subsection \<open>Pools\<close>

record kpool =
  pobjsize :: nat
  richq :: "nat list"
  poorq :: "nat list"

record kmem =
  pm :: pmem
  buckets :: "nat \<Rightarrow> bucket option"
  pools :: "kpool list"

definition pool_ctor :: "nat \<Rightarrow> kpool" where
  "pool_ctor sz = \<lparr>pobjsize = (sz + 3) div 4 * 4, richq = [], poorq = []\<rparr>"

definition set_pool :: "nat \<Rightarrow> kpool \<Rightarrow> kmem \<Rightarrow> kmem" where
  "set_pool i p k = k\<lparr>pools := (pools k)[i := p]\<rparr>"

definition set_bucket :: "nat \<Rightarrow> bucket option \<Rightarrow> kmem \<Rightarrow> kmem" where
  "set_bucket a b k = k\<lparr>buckets := (buckets k)(a := b)\<rparr>"

datatype km_result = Obj nat | NoObj | KmExit

definition refill :: "int \<Rightarrow> nat \<Rightarrow> kmem \<Rightarrow> (alloc_result \<times> kmem) option" where
  "refill flags i k = do {
     (r, m) \<leftarrow> allocpage flags (pm k);
     let k1 = k\<lparr>pm := m\<rparr>;
     case r of
       NoPage \<Rightarrow> Some (NoPage, k1)
     | Exit \<Rightarrow> Some (Exit, k1)
     | Page a \<Rightarrow> do {
         let p = pools k ! i;
         (b, w) \<leftarrow> bucket_init a i (pobjsize p) (longs m);
         let k2 = k\<lparr>pm := m\<lparr>longs := w\<rparr>\<rparr>;
         Some (Page a, set_pool i (p\<lparr>richq := richq p @ [a]\<rparr>) (set_bucket a (Some b) k2)) } }"

definition take_obj :: "nat \<Rightarrow> kmem \<Rightarrow> (km_result \<times> kmem) option" where
  "take_obj i k = do {
     let p = pools k ! i;
     kassert (richq p \<noteq> []);
     let a = hd (richq p);
     b \<leftarrow> buckets k a;
     kassert (ncurfree b \<noteq> 0);
     (res, b1) \<leftarrow> bucket_alloc b (longs (pm k));
     let k1 = set_bucket a (Some b1) k;
     let k2 = (if ncurfree b1 = 0
               then set_pool i (p\<lparr>richq := remove1 a (richq p), poorq := poorq p @ [a]\<rparr>) k1 else k1);
     Some (case res of None \<Rightarrow> NoObj | Some x \<Rightarrow> Obj x, k2) }"

definition pool_alloc :: "int \<Rightarrow> nat \<Rightarrow> kmem \<Rightarrow> (km_result \<times> kmem) option" where
  "pool_alloc flags i k = do {
     kassert (i < length (pools k));
     (r, k1) \<leftarrow> (if richq (pools k ! i) = [] then refill flags i k else Some (Page 0, k));
     case r of
       NoPage \<Rightarrow> Some (NoObj, k1)
     | Exit \<Rightarrow> Some (KmExit, k1)
     | Page _ \<Rightarrow> do {
         (res, k2) \<leftarrow> take_obj i k1;
         Some (res, case res of
             Obj x \<Rightarrow> if flags AND ACLEAR \<noteq> 0
               then k2\<lparr>pm := (pm k2)\<lparr>longs := (\<lambda>a. if x \<le> a \<and> a < x + pobjsize (pools k2 ! i) then 0
                       else longs (pm k2) a)\<rparr>\<rparr>
               else k2
           | _ \<Rightarrow> k2) } }"

definition pool_free :: "nat \<Rightarrow> nat \<Rightarrow> kmem \<Rightarrow> kmem option" where
  "pool_free i x k = do {
     kassert (i < length (pools k));
     let a = x - x mod PAGESZ;
     b \<leftarrow> buckets k a;
     let p = pools k ! i;
     p1 \<leftarrow> (if ncurfree b = 0 then do {
         kassert (a \<in> set (poorq p));
         Some (p\<lparr>poorq := remove1 a (poorq p), richq := richq p @ [a]\<rparr>) } else Some p);
     (b1, w) \<leftarrow> bucket_free a x b (longs (pm k));
     let k1 = set_pool i p1 (set_bucket a (Some b1) (k\<lparr>pm := (pm k)\<lparr>longs := w\<rparr>\<rparr>));
     if ncurfree b1 = int (nmaxfree b1) then do {
       kassert (a \<in> set (richq p1));
       m \<leftarrow> freepage a (pm k1);
       Some ((set_pool i (p1\<lparr>richq := remove1 a (richq p1)\<rparr>) (set_bucket a None k1))\<lparr>pm := m\<rparr>) }
     else Some k1 }"

subsection \<open>The size classes\<close>

definition kmpool_sizes :: "nat list" where
  "kmpool_sizes = [16, 32, 64, 96, 128, 256, 512, 1024, 2048, 4000]"

definition allockminit :: "pmem \<Rightarrow> kmem" where
  "allockminit m = \<lparr>pm = m, buckets = \<lambda>_. None, pools = map pool_ctor kmpool_sizes\<rparr>"

text \<open>
  The loop of \<^verbatim>\<open>allockm\<close> is meant to stop at the entry with the name \<^verbatim>\<open>NULL\<close>, but
  \<^verbatim>\<open>name\<close> is an array inside the entry, whose address is never \<^verbatim>\<open>NULL\<close>: for a size above
  the largest class the loop passes the 22 empty entries of the table and leaves it.
\<close>

fun allockm_loop :: "nat list \<Rightarrow> nat \<Rightarrow> int \<Rightarrow> nat option" where
  "allockm_loop [] i sz = None"
| "allockm_loop (s # ss) i sz = (if sz \<le> int s then Some i else allockm_loop ss (Suc i) sz)"

definition allockm :: "int \<Rightarrow> int \<Rightarrow> kmem \<Rightarrow> (km_result \<times> kmem) option" where
  "allockm flags sz k = do {
     i \<leftarrow> allockm_loop (kmpool_sizes @ replicate 22 0) 0 sz;
     pool_alloc flags i k }"

definition freekm :: "nat \<Rightarrow> kmem \<Rightarrow> kmem option" where
  "freekm ptr k = do {
     kassert (ptr \<noteq> 0);
     b \<leftarrow> buckets k (ptr - ptr mod PAGESZ);
     pool_free (bpool b) ptr k }"

subsection \<open>Slots of a bucket\<close>

definition slots :: "nat \<Rightarrow> nat \<Rightarrow> nat set" where
  "slots a sz = {a + BUCKETHDR + j * sz | j. j < (PAGESZ - BUCKETHDR) div sz}"

definition bucket_ok :: "nat \<Rightarrow> bucket \<Rightarrow> bool" where
  "bucket_ok a b \<longleftrightarrow> 0 < objsize b \<and> objsize b \<le> PAGESZ - BUCKETHDR \<and>
     nmaxfree b = (PAGESZ - BUCKETHDR) div objsize b \<and> ncurfree b = int (length (freeobj b)) \<and>
     distinct (freeobj b) \<and> set (freeobj b) \<subseteq> slots a (objsize b)"

lemma slot_bounds:
  assumes "x \<in> slots a sz"
  shows "a + BUCKETHDR \<le> x" and "x + sz \<le> a + PAGESZ"
proof -
  obtain j where j: "x = a + BUCKETHDR + j * sz" "j < (PAGESZ - BUCKETHDR) div sz"
    using assms by (auto simp: slots_def)
  then have "Suc j * sz \<le> (PAGESZ - BUCKETHDR) div sz * sz" by (intro mult_le_mono1) simp
  then have "Suc j * sz \<le> PAGESZ - BUCKETHDR" using div_times_less_eq_dividend le_trans by blast
  with j show "a + BUCKETHDR \<le> x" "x + sz \<le> a + PAGESZ" by (simp_all add: PAGESZ_def BUCKETHDR_def)
qed

lemma slot_page:
  assumes "x \<in> slots a sz" and "0 < sz" and "a mod PAGESZ = 0"
  shows "x - x mod PAGESZ = a"
proof -
  have "a \<le> x" "x - a < PAGESZ" using slot_bounds [OF assms(1)] assms(2) by auto
  then have "x mod PAGESZ = x - a"
    using assms(3) by (metis add_diff_inverse_nat mod_add_left_eq add_0 mod_less not_le)
  with \<open>a \<le> x\<close> show ?thesis by simp
qed

lemma slots_apart:
  assumes "x \<in> slots a sz" and "y \<in> slots a sz" and "x < y"
  shows "x + sz \<le> y"
proof -
  obtain i j where "x = a + BUCKETHDR + i * sz" "y = a + BUCKETHDR + j * sz"
    using assms(1,2) by (auto simp: slots_def)
  with assms(3) have "Suc i * sz \<le> j * sz" by (intro mult_le_mono1) (auto intro: ccontr simp: not_less_eq_eq)
  with \<open>x = _\<close> \<open>y = _\<close> show ?thesis by simp
qed

lemma card_slots: "0 < sz \<Longrightarrow> finite (slots a sz) \<and> card (slots a sz) = (PAGESZ - BUCKETHDR) div sz"
proof -
  assume "0 < sz"
  have "slots a sz = (\<lambda>j. a + BUCKETHDR + j * sz) ` {..<(PAGESZ - BUCKETHDR) div sz}"
    by (auto simp: slots_def)
  moreover have "inj_on (\<lambda>j. a + BUCKETHDR + j * sz) {..<(PAGESZ - BUCKETHDR) div sz}"
    using \<open>0 < sz\<close> by (auto simp: inj_on_def)
  ultimately show ?thesis by (simp add: card_image)
qed

lemma bucket_check_ok:
  assumes "bucket_ok a b" and "x \<in> slots a (objsize b)" and "x \<notin> set (freeobj b)"
  shows "bucket_check a x b = Some ()"
proof -
  obtain j where j: "x = a + BUCKETHDR + j * objsize b" using assms(2) by (auto simp: slots_def)
  have "j * objsize b < 2 ^ 32"
    using slot_bounds [OF assms(2)] j by (simp add: PAGESZ_def BUCKETHDR_def)
  then have "(x + 2 ^ 32 - (a + BUCKETHDR)) mod 2 ^ 32 = j * objsize b" using j by simp
  then have "(x + 2 ^ 32 - (a + BUCKETHDR)) mod 2 ^ 32 mod objsize b = 0" by simp
  with assms(3) show ?thesis unfolding bucket_check_def by simp
qed

definition magic_ok :: "(nat \<Rightarrow> nat) \<Rightarrow> bucket \<Rightarrow> bool" where
  "magic_ok w b \<longleftrightarrow> (\<forall>x\<in>set (freeobj b). \<forall>i<nmagic (objsize b). w (x + 4 + 4 * i) = FREEOBJMAGIC)"

lemma nmagic_le: "i < nmagic sz \<Longrightarrow> x + 4 + 4 * i < x + sz"
  by (simp add: nmagic_def)

lemma markmagic_at: "i < nmagic sz \<Longrightarrow> markmagic x sz w (x + 4 + 4 * i) = FREEOBJMAGIC"
proof -
  assume "i < nmagic sz"
  moreover have "(x + 4 + 4 * i - x) mod 4 = 0" by (simp add: add.assoc mod_eq_0_iff_dvd)
  ultimately show ?thesis unfolding markmagic_def by (simp only: if_True) simp
qed

lemma markmagic_out: "a < x \<or> x + sz \<le> a \<Longrightarrow> markmagic x sz w a = w a"
  by (auto simp: markmagic_def nmagic_def)

lemma checkmagic_ok: "magic_ok w b \<Longrightarrow> x \<in> set (freeobj b) \<Longrightarrow> checkmagic x (objsize b) w = Some ()"
  by (simp add: magic_ok_def checkmagic_def list_all_iff)

text \<open>Only what is written into the slot of a free object disturbs the magic words.\<close>

lemma magic_ok_write:
  assumes "bucket_ok a b" "magic_ok w b" "x \<in> slots a (objsize b)" "x \<notin> set (freeobj b)"
    and "\<forall>c. c < x \<or> x + objsize b \<le> c \<longrightarrow> w' c = w c"
  shows "magic_ok w' b"
  unfolding magic_ok_def
proof (intro ballI allI impI)
  fix y i assume y: "y \<in> set (freeobj b)" and i: "i < nmagic (objsize b)"
  have "y \<in> slots a (objsize b)" "y \<noteq> x" using assms(1,4) y by (auto simp: bucket_ok_def)
  then have "x + objsize b \<le> y \<or> y + objsize b \<le> x"
    using slots_apart [of x a "objsize b" y] slots_apart [of y a "objsize b" x] assms(3) by (metis linorder_neqE_nat)
  then have "y + 4 + 4 * i < x \<or> x + objsize b \<le> y + 4 + 4 * i" using nmagic_le [OF i, of y] by linarith
  then have "w' (y + 4 + 4 * i) = w (y + 4 + 4 * i)" using assms(5) by blast
  then show "w' (y + 4 + 4 * i) = FREEOBJMAGIC" using assms(2) y i by (simp add: magic_ok_def)
qed

lemma magic_ok_cong:
  assumes "bucket_ok a b" "\<forall>c. a \<le> c \<and> c < a + PAGESZ \<longrightarrow> w' c = w c" "magic_ok w b"
  shows "magic_ok w' b"
  unfolding magic_ok_def
proof (intro ballI allI impI)
  fix y i assume y: "y \<in> set (freeobj b)" and i: "i < nmagic (objsize b)"
  then have "y \<in> slots a (objsize b)" using assms(1) by (auto simp: bucket_ok_def)
  then have "a \<le> y + 4 + 4 * i" "y + 4 + 4 * i < a + PAGESZ"
    using slot_bounds [of y a "objsize b"] nmagic_le [OF i, of y] by linarith+
  then show "w' (y + 4 + 4 * i) = FREEOBJMAGIC" using assms(2,3) y i by (simp add: magic_ok_def)
qed

lemma bucket_free_ok:
  assumes "bucket_ok a b" and "x \<in> slots a (objsize b)" and "x \<notin> set (freeobj b)"
  shows "\<exists>b'. bucket_free a x b w = Some (b', markmagic x (objsize b) w) \<and> bucket_ok a b' \<and> objsize b' = objsize b \<and> bpool b' = bpool b \<and>
    nmaxfree b' = nmaxfree b \<and> ncurfree b' = ncurfree b + 1 \<and> set (freeobj b') = insert x (set (freeobj b)) \<and>
    (magic_ok w b \<longrightarrow> magic_ok (markmagic x (objsize b) w) b')"
proof -
  have "magic_ok (markmagic x (objsize b) w) b" if "magic_ok w b"
    by (rule magic_ok_write [OF assms(1) that assms(2,3)]) (simp add: markmagic_out)
  then have "magic_ok (markmagic x (objsize b) w) (b\<lparr>ncurfree := ncurfree b + 1, freeobj := x # freeobj b\<rparr>)" if "magic_ok w b"
    using that markmagic_at [of _ "objsize b" x w] by (simp add: magic_ok_def)
  then show ?thesis using assms bucket_check_ok [OF assms] by (auto simp: bucket_free_def bucket_ok_def)
qed

lemma bucket_init_loop_ok:
  assumes "bucket_ok a b" and "k + n = (PAGESZ - BUCKETHDR) div objsize b"
    and "set (freeobj b) = {a + BUCKETHDR + j * objsize b | j. j < k}" and "magic_ok w b"
  shows "\<exists>b' w'. bucket_init_loop a (a + BUCKETHDR + k * objsize b) n b w = Some (b', w') \<and> bucket_ok a b' \<and>
    objsize b' = objsize b \<and> bpool b' = bpool b \<and> set (freeobj b') = slots a (objsize b) \<and> magic_ok w' b' \<and>
    (\<forall>c. c < a \<or> a + PAGESZ \<le> c \<longrightarrow> w' c = w c)"
  using assms
proof (induction n arbitrary: b k w)
  case 0
  then show ?case by (auto simp: slots_def)
next
  case (Suc n)
  let ?x = "a + BUCKETHDR + k * objsize b"
  have sz: "0 < objsize b" using Suc.prems(1) by (simp add: bucket_ok_def)
  have x: "?x \<in> slots a (objsize b)" "?x \<notin> set (freeobj b)"
    using Suc.prems(2,3) sz by (auto simp: slots_def)
  obtain b1 where b1: "bucket_free a ?x b w = Some (b1, markmagic ?x (objsize b) w)" "bucket_ok a b1" "objsize b1 = objsize b"
      "bpool b1 = bpool b" "set (freeobj b1) = insert ?x (set (freeobj b))" "magic_ok (markmagic ?x (objsize b) w) b1"
    using bucket_free_ok [OF Suc.prems(1) x, of w] Suc.prems(4) by blast
  have free: "set (freeobj b1) = {a + BUCKETHDR + j * objsize b1 | j. j < Suc k}"
    using b1(3,5) Suc.prems(3) by (auto simp: less_Suc_eq)
  have n: "Suc k + n = (PAGESZ - BUCKETHDR) div objsize b1" using Suc.prems(2) b1(3) by simp
  have "markmagic ?x (objsize b) w c = w c" if "c < a \<or> a + PAGESZ \<le> c" for c
    using that slot_bounds [OF x(1)] by (intro markmagic_out) linarith
  then show ?case
    using Suc.IH [OF b1(2) n free b1(6)] b1(1,3,4) by (simp add: algebra_simps)
qed

lemma bucket_init_ok:
  assumes "a mod PAGESZ = 0" and "0 < sz" and "sz \<le> PAGESZ - BUCKETHDR"
  shows "\<exists>b w'. bucket_init a i sz w = Some (b, w') \<and> bucket_ok a b \<and> objsize b = sz \<and> bpool b = i \<and>
    set (freeobj b) = slots a sz \<and> magic_ok w' b \<and> (\<forall>c. c < a \<or> a + PAGESZ \<le> c \<longrightarrow> w' c = w c)"
proof -
  have "(a + BUCKETHDR) mod 4 = 0"
  proof -
    have "4 dvd a" using assms(1) by (auto simp: PAGESZ_def mod_eq_0_iff_dvd intro: dvd_trans)
    then show ?thesis by (auto simp: BUCKETHDR_def)
  qed
  then show ?thesis
    using bucket_init_loop_ok [of a "\<lparr>bpool = i, objsize = sz, freeobj = [], ncurfree = 0,
        nmaxfree = (PAGESZ - BUCKETHDR) div sz\<rparr>" 0 _ w] assms
    by (simp add: bucket_init_def bucket_ok_def magic_ok_def Let_def)
qed

lemma ncurfree_max:
  assumes "bucket_ok a b"
  shows "ncurfree b \<le> int (nmaxfree b)"
    and "ncurfree b = int (nmaxfree b) \<longleftrightarrow> set (freeobj b) = slots a (objsize b)"
    and "0 < nmaxfree b"
proof -
  have sz: "0 < objsize b" and sub: "set (freeobj b) \<subseteq> slots a (objsize b)"
    and n: "ncurfree b = int (card (set (freeobj b)))" "nmaxfree b = (PAGESZ - BUCKETHDR) div objsize b"
    using assms by (auto simp: bucket_ok_def distinct_card)
  from card_slots [OF sz] have c: "finite (slots a (objsize b))" "card (slots a (objsize b)) = nmaxfree b"
    using n by auto
  show "ncurfree b \<le> int (nmaxfree b)" using card_mono [OF c(1) sub] n(1) c(2) by simp
  show "ncurfree b = int (nmaxfree b) \<longleftrightarrow> set (freeobj b) = slots a (objsize b)"
    using card_subset_eq [OF c(1) sub] n(1) c(2) by auto
  show "0 < nmaxfree b" using assms by (auto simp: bucket_ok_def div_greater_zero_iff)
qed


subsection \<open>The invariant\<close>

definition bk_ok :: "nat set \<Rightarrow> kmem \<Rightarrow> nat \<Rightarrow> bucket \<Rightarrow> bool" where
  "bk_ok E k a b \<longleftrightarrow> bpool b < length (pools k) \<and> objsize b = pobjsize (pools k ! bpool b) \<and> bucket_ok a b \<and>
     vframe (pm k) a \<and> refcnt (pm k) (pfn a) = 1 \<and>
     (a \<in> set (richq (pools k ! bpool b)) \<longleftrightarrow> ncurfree b \<noteq> 0) \<and>
     (a \<in> set (poorq (pools k ! bpool b)) \<longleftrightarrow> ncurfree b = 0) \<and>
     (a \<notin> E \<longrightarrow> ncurfree b < int (nmaxfree b)) \<and> magic_ok (longs (pm k)) b"

definition pq_ok :: "(nat \<Rightarrow> bucket option) \<Rightarrow> nat \<Rightarrow> kpool \<Rightarrow> bool" where
  "pq_ok bk i p \<longleftrightarrow> distinct (richq p) \<and> distinct (poorq p) \<and> 0 < pobjsize p \<and> pobjsize p \<le> PAGESZ - BUCKETHDR \<and>
     (\<forall>a \<in> set (richq p) \<union> set (poorq p). \<exists>b. bk a = Some b \<and> bpool b = i)"

definition pool_ok :: "kmem \<Rightarrow> nat \<Rightarrow> bool" where
  "pool_ok k i \<longleftrightarrow> pq_ok (buckets k) i (pools k ! i)"

lemma pq_ok_other: "a \<notin> set (richq p) \<Longrightarrow> a \<notin> set (poorq p) \<Longrightarrow> pq_ok (bk(a := v)) i p \<longleftrightarrow> pq_ok bk i p"
  by (auto simp: pq_ok_def)

definition km_inv :: "nat set \<Rightarrow> kmem \<Rightarrow> bool" where
  "km_inv E k \<longleftrightarrow> pm_inv (pm k) \<and> (\<forall>i < length (pools k). pool_ok k i) \<and>
     (\<forall>a b. buckets k a = Some b \<longrightarrow> bk_ok E k a b)"

definition blive :: "nat \<Rightarrow> bucket option \<Rightarrow> nat set" where
  "blive a bo = (case bo of None \<Rightarrow> {} | Some b \<Rightarrow> slots a (objsize b) - set (freeobj b))"

definition live :: "kmem \<Rightarrow> nat set" where
  "live k = (\<Union>a. blive a (buckets k a))"

definition others :: "nat \<Rightarrow> kmem \<Rightarrow> nat set" where
  "others a k = (\<Union>c\<in>-{a}. blive c (buckets k c))"

lemma live_split: "live k = blive a (buckets k a) \<union> others a k"
  by (auto simp: live_def others_def)

lemma others_upd: "buckets k' = (buckets k)(a := v) \<Longrightarrow> others a k' = others a k"
  by (auto simp: others_def)

lemma set_sel [simp]:
  "pm (set_pool i p k) = pm k" "buckets (set_pool i p k) = buckets k" "pools (set_pool i p k) = (pools k)[i := p]"
  "pm (set_bucket a b k) = pm k" "buckets (set_bucket a b k) = (buckets k)(a := b)"
  "pools (set_bucket a b k) = pools k"
  by (simp_all add: set_pool_def set_bucket_def)

lemma map_pool_upd [simp]:
  "pobjsize p = pobjsize (ps ! i) \<Longrightarrow> map pobjsize (ps[i := p]) = map pobjsize ps"
  by (cases "i < length ps") (simp_all add: map_update list_update_same_conv list_update_beyond)

lemma km_bucketD: "km_inv E k \<Longrightarrow> buckets k a = Some b \<Longrightarrow> bk_ok E k a b"
  by (simp add: km_inv_def)

lemma km_poolD: "km_inv E k \<Longrightarrow> i < length (pools k) \<Longrightarrow> pool_ok k i"
  by (simp add: km_inv_def)

lemma pool_memD:
  "pool_ok k i \<Longrightarrow> a \<in> set (richq (pools k ! i)) \<or> a \<in> set (poorq (pools k ! i)) \<Longrightarrow>
   \<exists>b. buckets k a = Some b \<and> bpool b = i"
  unfolding pool_ok_def pq_ok_def by (elim conjE) blast

lemma bk_pageD: "bk_ok E k a b \<Longrightarrow> a mod PAGESZ = 0 \<and> 0 < objsize b"
  by (simp add: bk_ok_def vframe_def bucket_ok_def)

lemma pm_inv_write:
  assumes "pm_inv m" and "\<And>f. vframe m f \<Longrightarrow> refcnt m (pfn f) = 0 \<Longrightarrow> l f = longs m f"
  shows "pm_inv (m\<lparr>longs := l\<rparr>)"
proof -
  obtain fs where fs: "free_list m fs" "\<forall>f. vframe m f \<longrightarrow> refcnt m (pfn f) = 0 \<longrightarrow> f \<in> set fs"
    using assms(1) by (auto simp: pm_inv_def)
  have vc: "vframe (m\<lparr>longs := l\<rparr>) = vframe m" by (rule vframe_cong) simp_all
  have "chain l (freepageq m) fs = chain (longs m) (freepageq m) fs"
    using assms(2) fs(1) by (intro chain_cong) (simp add: free_list_def)
  then have "free_list (m\<lparr>longs := l\<rparr>) fs" using fs(1) vc by (simp add: free_list_def)
  then show ?thesis using assms(1) fs(2) vc by (auto simp: pm_inv_def bounds_ok_def)
qed

lemma clear_page_out: "a < f \<or> f + PAGESZ \<le> a \<Longrightarrow> longs (clear_page f m) a = longs m a"
  by (auto simp: clear_page_def)

lemma allocpage_longs:
  assumes "allocpage flags m = Some (Page f, m')" "a < f \<or> f + PAGESZ \<le> a"
  shows "longs m' a = longs m a"
  using assms clear_page_out [OF assms(2)]
  by (auto simp: allocpage_def take_page_def Let_def set_refcnt_def clear_page_def bind_eq_Some_conv split: if_splits)

lemma freepage_longs:
  assumes "freepage f m = Some m'" "a \<noteq> f"
  shows "longs m' a = longs m a"
  using assms by (auto simp: freepage_def Let_def set_refcnt_def bind_eq_Some_conv split: if_splits)

lemma vframe_pages_apart:
  assumes "vframe m f" "vframe m g" "f \<noteq> g" "g \<le> c" "c < g + PAGESZ"
  shows "c < f \<or> f + PAGESZ \<le> c"
  using vframe_apart [OF assms(1,2)] vframe_apart [OF assms(2,1)] assms(3-5) by linarith

lemma refill_ok:
  assumes inv: "km_inv {} k" and i: "i < length (pools k)" and e: "richq (pools k ! i) = []"
    and fl: "valid_flags flags"
  shows "(\<exists>r. refill flags i k = Some (r, k) \<and> (r = NoPage \<or> r = Exit)) \<or>
    (\<exists>a k1. refill flags i k = Some (Page a, k1) \<and> km_inv {a} k1 \<and> live k1 = live k \<and>
      map pobjsize (pools k1) = map pobjsize (pools k) \<and> richq (pools k1 ! i) = [a] \<and>
      pobjsize (pools k1 ! i) = pobjsize (pools k ! i))"
proof (cases "nfreepage (pm k) \<le> reserve flags")
  case True
  then obtain r where "allocpage flags (pm k) = Some (r, pm k)" "r = NoPage \<or> r = Exit"
    using allocpage_refused [of "pm k" flags] inv fl by (auto simp: km_inv_def)
  then show ?thesis by (auto simp: refill_def)
next
  case False
  then obtain a m where a: "allocpage flags (pm k) = Some (Page a, m)" "pm_inv m" "vframe (pm k) a"
      "refcnt (pm k) (pfn a) = 0" "refcnt m = (refcnt (pm k))(pfn a := 1)"
      "nphysbyte m = nphysbyte (pm k)" "kernend m = kernend (pm k)"
    using allocpage_granted [of "pm k" flags] inv fl by (auto simp: km_inv_def)
  have vc: "vframe m = vframe (pm k)" using vframe_cong a(6,7) by blast
  have new: "buckets k a = None"
    using inv a(4) by (cases "buckets k a") (fastforce simp: km_inv_def bk_ok_def)+
  have pk: "0 < pobjsize (pools k ! i)" "pobjsize (pools k ! i) \<le> PAGESZ - BUCKETHDR"
    using km_poolD [OF inv i] by (auto simp: pool_ok_def pq_ok_def)
  obtain b w where b: "bucket_init a i (pobjsize (pools k ! i)) (longs m) = Some (b, w)" "bucket_ok a b"
      "objsize b = pobjsize (pools k ! i)" "bpool b = i" "set (freeobj b) = slots a (pobjsize (pools k ! i))"
      "magic_ok w b" "\<forall>c. c < a \<or> a + PAGESZ \<le> c \<longrightarrow> w c = longs m c"
    using bucket_init_ok [of a "pobjsize (pools k ! i)" i "longs m"] a(3) pk by (auto simp: vframe_def)
  define k1 where "k1 = set_pool i ((pools k ! i)\<lparr>richq := [a]\<rparr>) (set_bucket a (Some b) (k\<lparr>pm := m\<lparr>longs := w\<rparr>\<rparr>))"
  have vw: "vframe (m\<lparr>longs := w\<rparr>) = vframe (pm k)" using vframe_cong [of "m\<lparr>longs := w\<rparr>" "pm k"] a(6,7) by simp
  have wo: "w c = longs (pm k) c" if "c < a \<or> a + PAGESZ \<le> c" for c
    using b(7) [rule_format, OF that] allocpage_longs [OF a(1) that] by simp
  have pmw: "pm_inv (m\<lparr>longs := w\<rparr>)"
  proof (rule pm_inv_write [OF a(2)])
    fix f assume f: "vframe m f" "refcnt m (pfn f) = 0"
    then have "f \<noteq> a" using a(5) by auto
    then have "f < a \<or> a + PAGESZ \<le> f" using vframe_pages_apart [of m a f f] f(1) a(3) vc by (simp add: PAGESZ_def)
    then show "w f = longs m f" using b(7) by blast
  qed
  have sel: "pm k1 = m\<lparr>longs := w\<rparr>" "buckets k1 = (buckets k)(a := Some b)" "pools k1 = (pools k)[i := (pools k ! i)\<lparr>richq := [a]\<rparr>]"
    by (simp_all add: k1_def)
  have nb: "ncurfree b \<noteq> 0" using ncurfree_max [OF b(2)] b(3,5) by auto
  have notin: "a \<notin> set (poorq (pools k ! j))" "a \<notin> set (richq (pools k ! j))" if "j < length (pools k)" for j
    using pool_memD [OF km_poolD [OF inv that], of a] new by auto
  have "bk_ok {a} k1 a b"
    using b a vw nb i notin by (simp add: bk_ok_def sel)
  moreover have "bk_ok {a} k1 a' b'" if "buckets k a' = Some b'" "a' \<noteq> a" for a' b'
  proof -
    have o: "bk_ok {} k a' b'" using inv that(1) by (simp add: km_inv_def)
    have "pfn a' \<noteq> pfn a" using o a(3,4) pfn_inj [of "pm k" a' a] that(2) by (auto simp: bk_ok_def)
    moreover have "ncurfree b' = 0" if "bpool b' = i" using o that e by (auto simp: bk_ok_def)
    moreover have "magic_ok w b'"
    proof (rule magic_ok_cong)
      show "bucket_ok a' b'" "magic_ok (longs (pm k)) b'" using o by (simp_all add: bk_ok_def)
      show "\<forall>c. a' \<le> c \<and> c < a' + PAGESZ \<longrightarrow> w c = longs (pm k) c"
        using wo vframe_pages_apart [OF a(3) _ that(2) [symmetric]] o by (auto simp: bk_ok_def)
    qed
    ultimately show ?thesis using o vw a(5) that(2) i by (auto simp: bk_ok_def sel nth_list_update)
  qed
  ultimately have bks: "\<forall>x y. buckets k1 x = Some y \<longrightarrow> bk_ok {a} k1 x y" by (auto simp: sel)
  have "pool_ok k1 j" if "j < length (pools k)" for j
  proof -
    have j: "pool_ok k j" using inv that by (simp add: km_inv_def)
    show ?thesis
    proof (cases "j = i")
      case True
      then show ?thesis using j i notin [OF i] b(4) by (auto simp: pool_ok_def pq_ok_def sel)
    next
      case False
      then show ?thesis using j notin [OF that] by (simp add: pool_ok_def pq_ok_other sel)
    qed
  qed
  then have "km_inv {a} k1" using bks pmw by (simp add: km_inv_def sel)
  moreover have "live k1 = live k"
    using new b(3,5) others_upd [OF sel(2)] by (simp add: live_split [of _ a] sel blive_def)
  moreover have "refill flags i k = Some (Page a, k1)"
    using a(1) b(1) e by (simp add: refill_def k1_def Let_def)
  ultimately show ?thesis using i by (auto simp: sel)
qed


lemma others_disjoint:
  assumes inv: "km_inv E k" and b: "buckets k a = Some b"
  shows "others a k \<inter> slots a (objsize b) = {}"
proof -
  have "x \<notin> slots a (objsize b)" if d: "buckets k c = Some d" "c \<noteq> a" "x \<in> slots c (objsize d)" for c d x
  proof
    assume "x \<in> slots a (objsize b)"
    moreover have "c mod PAGESZ = 0" "a mod PAGESZ = 0" "0 < objsize d" "0 < objsize b"
      using bk_pageD [OF km_bucketD [OF inv b]] bk_pageD [OF km_bucketD [OF inv d(1)]] by auto
    ultimately show False using slot_page d(2,3) by metis
  qed
  then show ?thesis unfolding others_def blive_def by (fastforce split: option.splits)
qed

lemma take_obj_ok:
  assumes inv: "km_inv E k" and i: "i < length (pools k)" and ne: "richq (pools k ! i) \<noteq> []"
    and E: "E \<subseteq> {hd (richq (pools k ! i))}"
  shows "\<exists>x k'. take_obj i k = Some (Obj x, k') \<and> km_inv {} k' \<and> x \<notin> live k \<and> live k' = insert x (live k) \<and>
    pm k' = pm k \<and> map pobjsize (pools k') = map pobjsize (pools k) \<and> pobjsize (pools k' ! i) = pobjsize (pools k ! i) \<and>
    (\<exists>a b. buckets k' a = Some b \<and> x \<in> slots a (objsize b) \<and> x \<notin> set (freeobj b) \<and> objsize b = pobjsize (pools k' ! i))"
proof -
  define p where "p = pools k ! i"
  define a where "a = hd (richq p)"
  have a: "a \<in> set (richq p)" using ne by (simp add: a_def p_def)
  obtain b where b: "buckets k a = Some b" "bpool b = i"
    using pool_memD [OF km_poolD [OF inv i], of a] a by (auto simp: p_def)
  have bk: "bk_ok E k a b" using inv b by (simp add: km_inv_def)
  then have nf: "ncurfree b \<noteq> 0" "bucket_ok a b" using a b by (auto simp: bk_ok_def p_def)
  then obtain x xs where x: "freeobj b = x # xs" by (cases "freeobj b") (auto simp: bucket_ok_def)
  define b1 where "b1 = b\<lparr>ncurfree := ncurfree b - 1, freeobj := xs\<rparr>"
  define p1 where "p1 = (if ncurfree b1 = 0 then p\<lparr>richq := remove1 a (richq p), poorq := poorq p @ [a]\<rparr> else p)"
  define k' where "k' = set_pool i p1 (set_bucket a (Some b1) k)"
  have sel: "pm k' = pm k" "buckets k' = (buckets k)(a := Some b1)" "pools k' = (pools k)[i := p1]"
    by (simp_all add: k'_def)
  have mg: "checkmagic x (objsize b) (longs (pm k)) = Some ()"
    using bk x by (intro checkmagic_ok) (simp_all add: bk_ok_def)
  have run: "take_obj i k = Some (Obj x, k')"
    using ne b nf x i mg by (simp add: take_obj_def bucket_alloc_def Let_def a_def [symmetric] p_def [symmetric]
        b1_def [symmetric] k'_def p1_def set_pool_def) (simp add: p_def set_bucket_def)
  have ok1: "bucket_ok a b1" using nf x by (auto simp: bucket_ok_def b1_def)
  have po: "pool_ok k i" using inv i by (simp add: km_inv_def)
  have np: "a \<notin> set (poorq p)" using bk b nf by (simp add: bk_ok_def p_def)
  have d: "distinct (richq p)" "distinct (poorq p)" using po by (auto simp: pool_ok_def pq_ok_def p_def)
  have "bk_ok {} k' a b1"
    using bk b ok1 ncurfree_max(1) [OF nf(2)] a np d i
    by (auto simp: bk_ok_def sel p1_def p_def [symmetric] b1_def magic_ok_def x)
  moreover have "bk_ok {} k' c y" if "buckets k c = Some y" "c \<noteq> a" for c y
  proof -
    have "bk_ok E k c y" using inv that by (simp add: km_inv_def)
    moreover have "c \<notin> E" using E that(2) by (auto simp: a_def p_def)
    ultimately show ?thesis using that(2) i
      by (auto simp: bk_ok_def sel nth_list_update p1_def p_def)
  qed
  ultimately have bks: "\<forall>c y. buckets k' c = Some y \<longrightarrow> bk_ok {} k' c y" by (auto simp: sel)
  have "pool_ok k' j" if "j < length (pools k)" for j
  proof (cases "j = i")
    case True
    then show ?thesis using po np d a b i
      by (auto simp: pool_ok_def pq_ok_def sel p1_def p_def [symmetric] b1_def)
  next
    case False
    have j: "pool_ok k j" using inv that by (simp add: km_inv_def)
    have "a \<notin> set (richq (pools k ! j))" "a \<notin> set (poorq (pools k ! j))"
      using pool_memD [OF j, of a] b False by auto
    with j show ?thesis using False by (simp add: pool_ok_def pq_ok_other sel)
  qed
  then have "km_inv {} k'" using bks inv by (simp add: km_inv_def sel)
  moreover have sx: "x \<in> slots a (objsize b)" "x \<notin> set xs" using nf(2) x by (auto simp: bucket_ok_def)
  from sx have "live k' = insert x (live k)" "x \<notin> live k"
    using others_upd [OF sel(2)] others_disjoint [OF inv b(1)] b(1) x
    by (auto simp: live_split [of _ a] sel blive_def b1_def)
  moreover have "pobjsize p1 = pobjsize p" "objsize b1 = objsize b" "objsize b = pobjsize p"
    using bk b by (simp_all add: p1_def b1_def bk_ok_def p_def)
  moreover have "x \<notin> set (freeobj b1)" using sx(2) by (simp add: b1_def)
  ultimately show ?thesis using run i sx(1) by (auto simp: sel p_def)
qed


lemma write_obj_ok:
  assumes inv: "km_inv {} k" and b: "buckets k a = Some b" and x: "x \<in> slots a (objsize b)" "x \<notin> set (freeobj b)"
    and w: "\<forall>c. c < x \<or> x + objsize b \<le> c \<longrightarrow> w c = longs (pm k) c"
  shows "km_inv {} (k\<lparr>pm := (pm k)\<lparr>longs := w\<rparr>\<rparr>)" (is "km_inv {} ?k")
proof -
  have a: "vframe (pm k) a" "refcnt (pm k) (pfn a) = 1"
    using km_bucketD [OF inv b] by (auto simp: bk_ok_def)
  have ow: "w c = longs (pm k) c" if "c < a \<or> a + PAGESZ \<le> c" for c
    using that slot_bounds [OF x(1)] by (intro w [rule_format]) linarith
  have "w f = longs (pm k) f" if "vframe (pm k) f" "refcnt (pm k) (pfn f) = 0" for f
    using vframe_pages_apart [OF a(1) that(1), of f] a(2) that(2) ow by (cases "a = f") (auto simp: PAGESZ_def)
  then have "pm_inv (pm ?k)"
    using inv by (auto intro!: pm_inv_write simp: km_inv_def)
  moreover have v: "vframe (pm ?k) = vframe (pm k)" by (rule vframe_cong) simp_all
  moreover have "magic_ok w y" if y: "buckets k c = Some y" for c y
  proof (cases "c = a")
    case True
    then show ?thesis using km_bucketD [OF inv b] b y magic_ok_write [OF _ _ x w] by (simp add: bk_ok_def)
  next
    case False
    have o: "bk_ok {} k c y" by (rule km_bucketD [OF inv y])
    show ?thesis
    proof (rule magic_ok_cong)
      show "bucket_ok c y" "magic_ok (longs (pm k)) y" using o by (simp_all add: bk_ok_def)
      show "\<forall>u. c \<le> u \<and> u < c + PAGESZ \<longrightarrow> w u = longs (pm k) u"
        using ow vframe_pages_apart [OF a(1) _ False [symmetric]] o by (auto simp: bk_ok_def)
    qed
  qed
  ultimately show ?thesis
    using inv by (simp add: km_inv_def pool_ok_def bk_ok_def)
qed

lemma pool_alloc_ok:
  assumes inv: "km_inv {} k" and i: "i < length (pools k)" and fl: "valid_flags flags"
  shows "(\<exists>r. pool_alloc flags i k = Some (r, k) \<and> (r = NoObj \<or> r = KmExit)) \<or>
    (\<exists>x k'. pool_alloc flags i k = Some (Obj x, k') \<and> km_inv {} k' \<and> x \<notin> live k \<and> live k' = insert x (live k) \<and>
      map pobjsize (pools k') = map pobjsize (pools k) \<and>
      (\<exists>a b. buckets k' a = Some b \<and> x \<in> slots a (objsize b) \<and> objsize b = pobjsize (pools k ! i)))"
proof -
  define r where "r = (if richq (pools k ! i) = [] then refill flags i k else Some (Page 0, k))"
  have pa: "pool_alloc flags i k = do { (r, k1) \<leftarrow> r; case r of NoPage \<Rightarrow> Some (NoObj, k1) | Exit \<Rightarrow> Some (KmExit, k1)
     | Page _ \<Rightarrow> do {
         (res, k2) \<leftarrow> take_obj i k1;
         Some (res, case res of
             Obj x \<Rightarrow> if flags AND ACLEAR \<noteq> 0
               then k2\<lparr>pm := (pm k2)\<lparr>longs := (\<lambda>a. if x \<le> a \<and> a < x + pobjsize (pools k2 ! i) then 0
                       else longs (pm k2) a)\<rparr>\<rparr>
               else k2
           | _ \<Rightarrow> k2) } }"
    using i by (simp add: pool_alloc_def r_def)
  consider q where "r = Some (q, k)" "q = NoPage \<or> q = Exit" |
      a k1 E where "r = Some (Page a, k1)" "km_inv E k1" "live k1 = live k" "map pobjsize (pools k1) = map pobjsize (pools k)"
        "richq (pools k1 ! i) \<noteq> []" "E \<subseteq> {hd (richq (pools k1 ! i))}" "pobjsize (pools k1 ! i) = pobjsize (pools k ! i)"
    using refill_ok [OF inv i _ fl] inv by (cases "richq (pools k ! i) = []") (fastforce simp: r_def)+
  then show ?thesis
  proof cases
    case 1
    then show ?thesis by (auto simp: pa)
  next
    case (2 a k1 E)
    obtain x k2 c b where x: "take_obj i k1 = Some (Obj x, k2)" "km_inv {} k2" "x \<notin> live k1"
        "live k2 = insert x (live k1)" "map pobjsize (pools k2) = map pobjsize (pools k1)"
        "pobjsize (pools k2 ! i) = pobjsize (pools k1 ! i)"
        "buckets k2 c = Some b" "x \<in> slots c (objsize b)" "objsize b = pobjsize (pools k2 ! i)" "x \<notin> set (freeobj b)"
      using take_obj_ok [OF 2(2) _ 2(5,6)] i map_eq_imp_length_eq [OF 2(4)] by auto
    define k3 where "k3 = (if flags AND ACLEAR \<noteq> 0
        then k2\<lparr>pm := (pm k2)\<lparr>longs := (\<lambda>a. if x \<le> a \<and> a < x + objsize b then 0 else longs (pm k2) a)\<rparr>\<rparr> else k2)"
    have "pool_alloc flags i k = Some (Obj x, k3)"
      using 2(1) x(1,9) by (simp add: pa k3_def)
    moreover have "km_inv {} k3" using x(2) write_obj_ok [OF x(2,7,8,10)] by (simp add: k3_def)
    moreover have "buckets k3 = buckets k2" "pools k3 = pools k2" by (simp_all add: k3_def)
    moreover have "\<exists>a b. buckets k2 a = Some b \<and> x \<in> slots a (objsize b) \<and> objsize b = pobjsize (pools k ! i)"
      using x(6-9) 2(7) by (intro exI [of _ c] exI [of _ b]) simp
    ultimately show ?thesis
      using 2 x by (intro disjI2 exI [of _ x] exI [of _ k3]) (simp add: live_def)
  qed
qed

lemma pool_free_ok:
  assumes inv: "km_inv {} k" and b: "buckets k a = Some b"
    and x: "x \<in> slots a (objsize b)" "x \<notin> set (freeobj b)"
  shows "\<exists>k'. pool_free (bpool b) x k = Some k' \<and> km_inv {} k' \<and> live k' = live k - {x} \<and>
    map pobjsize (pools k') = map pobjsize (pools k) \<and>
    nfreepage (pm k') = nfreepage (pm k) + (if ncurfree b + 1 = int (nmaxfree b) then 1 else 0)"
proof -
  define i where "i = bpool b"
  define p where "p = pools k ! i"
  have bk: "bk_ok {} k a b" using km_bucketD [OF inv b] .
  have i: "i < length (pools k)" using bk by (simp add: bk_ok_def i_def)
  have po: "pq_ok (buckets k) i p" using km_poolD [OF inv i] by (simp add: pool_ok_def p_def)
  have page: "x - x mod PAGESZ = a" using slot_page [OF x(1)] bk_pageD [OF bk] by simp
  have bo: "bucket_ok a b" using bk by (simp add: bk_ok_def)
  define w where "w = markmagic x (objsize b) (longs (pm k))"
  define kw where "kw = k\<lparr>pm := (pm k)\<lparr>longs := w\<rparr>\<rparr>"
  have invw: "km_inv {} kw" unfolding kw_def w_def
    by (rule write_obj_ok [OF inv b x]) (simp add: markmagic_out)
  have selw: "buckets kw = buckets k" "pools kw = pools k" "pm kw = (pm k)\<lparr>longs := w\<rparr>" by (simp_all add: kw_def)
  have vw: "vframe (pm kw) = vframe (pm k)" unfolding selw by (rule vframe_cong) simp_all
  obtain b1 where b1: "bucket_free a x b (longs (pm k)) = Some (b1, w)" "bucket_ok a b1" "objsize b1 = objsize b" "bpool b1 = i"
      "nmaxfree b1 = nmaxfree b" "ncurfree b1 = ncurfree b + 1" "set (freeobj b1) = insert x (set (freeobj b))"
      "magic_ok w b1"
    using bucket_free_ok [OF bo x, of "longs (pm k)"] bk by (auto simp: i_def w_def bk_ok_def)
  have n0: "0 \<le> ncurfree b" using bo by (simp add: bucket_ok_def)
  define p1 where "p1 = (if ncurfree b = 0 then p\<lparr>poorq := remove1 a (poorq p), richq := richq p @ [a]\<rparr> else p)"
  have q: "a \<in> set (richq p) \<longleftrightarrow> ncurfree b \<noteq> 0" "a \<in> set (poorq p) \<longleftrightarrow> ncurfree b = 0"
    using bk by (auto simp: bk_ok_def p_def i_def)
  have p1: "a \<in> set (richq p1)" "a \<notin> set (poorq p1)" "pobjsize p1 = pobjsize p"
      "distinct (richq p1)" "distinct (poorq p1)"
      "set (richq p1) - {a} = set (richq p) - {a}" "set (poorq p1) - {a} = set (poorq p) - {a}"
    using q po by (auto simp: p1_def pq_ok_def)
  have po1: "pq_ok ((buckets k)(a := Some b1)) i p1"
    using po p1 b1(4) by (auto simp: pq_ok_def)
  have ox: "others a k \<inter> slots a (objsize b) = {}" using others_disjoint [OF inv b] .
  have other_pool: "pq_ok ((buckets k)(a := v)) j (pools k ! j)" if j: "j < length (pools k)" "j \<noteq> i" for j v
  proof -
    have "a \<notin> set (richq (pools k ! j))" "a \<notin> set (poorq (pools k ! j))"
      using pool_memD [OF km_poolD [OF inv j(1)], of a] b j(2) by (auto simp: i_def)
    then show ?thesis using km_poolD [OF inv j(1)] by (simp add: pool_ok_def pq_ok_other)
  qed
  have run: "pool_free i x k = (if ncurfree b1 = int (nmaxfree b1) then do {
        m \<leftarrow> freepage a (pm kw);
        Some ((set_pool i (p1\<lparr>richq := remove1 a (richq p1)\<rparr>)
          (set_bucket a None (set_pool i p1 (set_bucket a (Some b1) kw))))\<lparr>pm := m\<rparr>) }
      else Some (set_pool i p1 (set_bucket a (Some b1) kw)))"
    using i b page b1(1) q p1(1) by (simp add: pool_free_def Let_def p_def [symmetric] p1_def kw_def [symmetric] selw(2))
  show ?thesis
  proof (cases "ncurfree b1 = int (nmaxfree b1)")
    case False
    define k' where "k' = set_pool i p1 (set_bucket a (Some b1) kw)"
    have sel: "pm k' = pm kw" "buckets k' = (buckets k)(a := Some b1)" "pools k' = (pools k)[i := p1]"
      by (simp_all add: k'_def selw)
    have "ncurfree b1 < int (nmaxfree b1)" using ncurfree_max(1) [OF b1(2)] False by simp
    then have "bk_ok {} k' a b1"
      using bk b1 p1 i n0 vw selw(3) by (auto simp: bk_ok_def sel i_def [symmetric] p_def [symmetric])
    moreover have "bk_ok {} k' c y" if c: "buckets k c = Some y" "c \<noteq> a" for c y
      using km_bucketD [OF invw, of c y] c i p1 selw(1,2)
      by (cases "bpool y = i") (auto simp: bk_ok_def sel p_def [symmetric])
    moreover have "pool_ok k' j" if "j < length (pools k)" for j
      using po1 other_pool [OF that] i by (cases "j = i") (simp_all add: pool_ok_def sel)
    ultimately have "km_inv {} k'" using invw by (auto simp: km_inv_def sel)
    moreover have "live k' = live k - {x}"
      using others_upd [OF sel(2)] ox b x b1(3,7) by (auto simp: live_split [of _ a] sel blive_def)
    ultimately show ?thesis
      using run False b1(5,6) p1(3) i selw(2,3)
      by (simp add: i_def [symmetric] k'_def p_def)
  next
    case True
    have pg: "vframe (pm k) a" "refcnt (pm k) (pfn a) = 1" using bk by (auto simp: bk_ok_def)
    then obtain m where m: "freepage a (pm kw) = Some m" "pm_inv m" "refcnt m = (refcnt (pm k))(pfn a := 0)"
        "nfreepage m = nfreepage (pm k) + 1" "nphysbyte m = nphysbyte (pm k)" "kernend m = kernend (pm k)"
      using freepage_keeps [of "pm kw" a] invw vw by (auto simp: km_inv_def selw(3))
    define p2 where "p2 = p1\<lparr>richq := remove1 a (richq p1)\<rparr>"
    define k' where "k' = (set_pool i p2 (set_bucket a None (set_pool i p1 (set_bucket a (Some b1) kw))))\<lparr>pm := m\<rparr>"
    have sel: "pm k' = m" "buckets k' = (buckets k)(a := None)" "pools k' = (pools k)[i := p2]"
      by (simp_all add: k'_def selw)
    have vc: "vframe m = vframe (pm k)" using vframe_cong m(5,6) by blast
    have p2: "a \<notin> set (richq p2)" "a \<notin> set (poorq p2)" "pobjsize p2 = pobjsize p"
        "set (richq p2) = set (richq p) - {a}" "set (poorq p2) = set (poorq p) - {a}"
        "distinct (richq p2)" "distinct (poorq p2)"
      using p1 by (auto simp: p2_def)
    have "bk_ok {} k' c y" if c: "buckets k c = Some y" "c \<noteq> a" for c y
    proof -
      have o: "bk_ok {} kw c y" using km_bucketD [OF invw] c(1) selw(1) by simp
      then have v: "vframe (pm k) c" using vw by (simp add: bk_ok_def)
      then have "pfn c \<noteq> pfn a" using pg(1) c(2) pfn_inj [of "pm k" c a] by auto
      moreover have "magic_ok (longs m) y"
      proof (rule magic_ok_cong)
        show "bucket_ok c y" "magic_ok (longs (pm kw)) y" using o by (simp_all add: bk_ok_def)
        show "\<forall>u. c \<le> u \<and> u < c + PAGESZ \<longrightarrow> longs m u = longs (pm kw) u"
          using freepage_longs [OF m(1)] vframe_pages_apart [OF pg(1) v c(2) [symmetric]] by (fastforce simp: PAGESZ_def)
      qed
      ultimately show ?thesis using o c(2) i p2 vc vw m(3) selw
        by (cases "bpool y = i") (auto simp: bk_ok_def sel p_def [symmetric])
    qed
    moreover have "pool_ok k' j" if "j < length (pools k)" for j
      using po p2 other_pool [OF that] i by (cases "j = i") (auto simp: pool_ok_def pq_ok_def sel)
    ultimately have "km_inv {} k'" using m(2) by (auto simp: km_inv_def sel)
    moreover have "insert x (set (freeobj b)) = slots a (objsize b)"
      using ncurfree_max(2) [OF b1(2)] True b1(3,7) by simp
    then have "live k' = live k - {x}"
      using others_upd [OF sel(2)] ox b x by (auto simp: live_split [of _ a] sel blive_def)
    ultimately show ?thesis
      using run True m b1(5,6) p1(3) i selw(2)
      by (simp add: i_def [symmetric] k'_def p2_def p_def)
  qed
qed


subsection \<open>The allocator under any sequence of calls\<close>

definition km_ready :: "kmem \<Rightarrow> bool" where
  "km_ready k \<longleftrightarrow> km_inv {} k \<and> map pobjsize (pools k) = kmpool_sizes"

lemma allockminit_ready: "pm_inv m \<Longrightarrow> km_ready (allockminit m) \<and> live (allockminit m) = {}"
proof -
  assume m: "pm_inv m"
  have "\<forall>p\<in>set (map pool_ctor kmpool_sizes). pq_ok (\<lambda>_. None) i p" for i
    by (simp add: pq_ok_def pool_ctor_def kmpool_sizes_def PAGESZ_def BUCKETHDR_def)
  then have "\<forall>i<length (map pool_ctor kmpool_sizes). pq_ok (\<lambda>_. None) i (map pool_ctor kmpool_sizes ! i)"
    by (meson nth_mem)
  then show ?thesis
    using m by (auto simp: km_ready_def km_inv_def allockminit_def pool_ok_def live_def blive_def)
       (simp add: pool_ctor_def kmpool_sizes_def)
qed

lemma allockm_loop_ok:
  assumes "sz \<le> 4000"
  shows "\<exists>i < 10. allockm_loop (kmpool_sizes @ replicate 22 0) 0 sz = Some i \<and> sz \<le> int (kmpool_sizes ! i)"
  using assms by (simp add: kmpool_sizes_def)

lemma allockm_ok:
  assumes "km_ready k" and "valid_flags flags" and "sz \<le> 4000"
  shows "(\<exists>r. allockm flags sz k = Some (r, k) \<and> (r = NoObj \<or> r = KmExit)) \<or>
    (\<exists>x k' a b. allockm flags sz k = Some (Obj x, k') \<and> km_ready k' \<and> x \<notin> live k \<and> live k' = insert x (live k) \<and>
      buckets k' a = Some b \<and> x \<in> slots a (objsize b) \<and> sz \<le> int (objsize b))"
proof -
  obtain i where i: "i < 10" "allockm_loop (kmpool_sizes @ replicate 22 0) 0 sz = Some i"
      "sz \<le> int (kmpool_sizes ! i)"
    using allockm_loop_ok [OF assms(3)] by blast
  have sizes: "map pobjsize (pools k) = kmpool_sizes" and inv: "km_inv {} k"
    using assms(1) by (auto simp: km_ready_def)
  have len: "length (pools k) = 10" using arg_cong [OF sizes, of length] by (simp add: kmpool_sizes_def)
  with i(1) have il: "i < length (pools k)" by simp
  then have "pobjsize (pools k ! i) = kmpool_sizes ! i" by (metis nth_map sizes)
  then show ?thesis
    using pool_alloc_ok [OF inv il assms(2)] i(2,3) sizes by (simp add: allockm_def km_ready_def) metis
qed

lemma freekm_ok:
  assumes "km_ready k" and "x \<in> live k"
  shows "\<exists>k'. freekm x k = Some k' \<and> km_ready k' \<and> live k' = live k - {x}"
proof -
  obtain a b where b: "buckets k a = Some b" "x \<in> slots a (objsize b)" "x \<notin> set (freeobj b)"
    using assms(2) by (auto simp: live_def blive_def split: option.splits)
  have inv: "km_inv {} k" using assms(1) by (simp add: km_ready_def)
  have "x - x mod PAGESZ = a" "x \<noteq> 0"
    using slot_page [OF b(2)] bk_pageD [OF km_bucketD [OF inv b(1)]] slot_bounds(1) [OF b(2)]
    by (simp_all add: BUCKETHDR_def)
  then show ?thesis
    using pool_free_ok [OF inv b] b(1) assms(1) by (auto simp: freekm_def km_ready_def)
qed


lemma live_apart:
  assumes "km_inv {} k" and "x \<in> blive a (buckets k a)" and "y \<in> blive c (buckets k c)" and "x < y"
    and "buckets k a = Some b"
  shows "x + objsize b \<le> y"
proof (cases "a = c")
  case True
  then show ?thesis using slots_apart [of x a "objsize b" y] assms(2-5) by (simp add: blive_def)
next
  case False
  obtain d where d: "buckets k c = Some d" "y \<in> slots c (objsize d)" "x \<in> slots a (objsize b)"
    using assms(2,3,5) by (auto simp: blive_def split: option.splits)
  have va: "vframe (pm k) a" "vframe (pm k) c"
    using km_bucketD [OF assms(1)] assms(5) d(1) by (auto simp: bk_ok_def)
  have "0 < objsize d" using bk_pageD [OF km_bucketD [OF assms(1) d(1)]] by simp
  then have "a < c + PAGESZ"
    using slot_bounds [OF d(2)] slot_bounds(1) [OF d(3)] assms(4) by linarith
  then have "a < c" using vframe_apart [OF va(2,1)] False by auto
  then have "a + PAGESZ \<le> c" using vframe_apart [OF va] False by auto
  then show ?thesis using slot_bounds [OF d(3)] slot_bounds(1) [OF d(2)] by simp
qed

text \<open>A client may write any word inside an object it holds.\<close>

definition km_write :: "nat \<Rightarrow> nat \<Rightarrow> nat \<Rightarrow> kmem \<Rightarrow> kmem" where
  "km_write x off v k = (case buckets k (x - x mod PAGESZ) of
       None \<Rightarrow> k
     | Some b \<Rightarrow> if off < objsize b then k\<lparr>pm := (pm k)\<lparr>longs := (longs (pm k))(x + off := v)\<rparr>\<rparr> else k)"

datatype km_op = KAlloc int int | KFree nat | KWrite nat nat nat

fun run_km :: "km_op list \<Rightarrow> kmem \<Rightarrow> nat set \<Rightarrow> (kmem \<times> nat set) option" where
  "run_km [] k L = Some (k, L)"
| "run_km (KAlloc flags sz # ops) k L = do {
     (r, k1) \<leftarrow> allockm flags sz k;
     case r of
       Obj x \<Rightarrow> do { kassert (x \<notin> L); run_km ops k1 (insert x L) }
     | _ \<Rightarrow> run_km ops k1 L }"
| "run_km (KFree x # ops) k L =
     (if x \<in> L then do { k1 \<leftarrow> freekm x k; run_km ops k1 (L - {x}) } else run_km ops k L)"
| "run_km (KWrite x off v # ops) k L = run_km ops (if x \<in> L then km_write x off v k else k) L"

fun km_op_ok :: "km_op \<Rightarrow> bool" where
  "km_op_ok (KAlloc flags sz) \<longleftrightarrow> valid_flags flags \<and> sz \<le> 4000"
| "km_op_ok _ \<longleftrightarrow> True"

lemma km_write_ok:
  assumes "km_ready k" and "x \<in> live k"
  shows "km_ready (km_write x off v k) \<and> live (km_write x off v k) = live k"
proof -
  obtain a b where b: "buckets k a = Some b" "x \<in> slots a (objsize b)" "x \<notin> set (freeobj b)"
    using assms(2) by (auto simp: live_def blive_def split: option.splits)
  have inv: "km_inv {} k" using assms(1) by (simp add: km_ready_def)
  have "x - x mod PAGESZ = a"
    using slot_page [OF b(2)] bk_pageD [OF km_bucketD [OF inv b(1)]] by simp
  then have "km_write x off v k = (if off < objsize b then k\<lparr>pm := (pm k)\<lparr>longs := (longs (pm k))(x + off := v)\<rparr>\<rparr> else k)"
    using b(1) by (simp add: km_write_def)
  moreover have "km_inv {} (k\<lparr>pm := (pm k)\<lparr>longs := (longs (pm k))(x + off := v)\<rparr>\<rparr>)" if "off < objsize b"
    by (rule write_obj_ok [OF inv b]) (use that in auto)
  ultimately show ?thesis using assms(1) by (simp add: km_ready_def live_def)
qed

lemma run_km_ok:
  "km_ready k \<Longrightarrow> \<forall>x\<in>set ops. km_op_ok x \<Longrightarrow>
   \<exists>k' L'. run_km ops k (live k) = Some (k', L') \<and> km_ready k' \<and> L' = live k'"
proof (induction ops arbitrary: k)
  case (Cons x ops)
  show ?case
  proof (cases x)
    case (KAlloc flags sz)
    with Cons.prems have "valid_flags flags" "sz \<le> 4000" by auto
    from allockm_ok [OF Cons.prems(1) this] show ?thesis
    proof (elim disjE exE conjE)
      fix r assume "allockm flags sz k = Some (r, k)" "r = NoObj"
      then show ?thesis using Cons KAlloc by simp
    next
      fix r assume "allockm flags sz k = Some (r, k)" "r = KmExit"
      then show ?thesis using Cons KAlloc by simp
    next
      fix y k1 assume "allockm flags sz k = Some (Obj y, k1)" "km_ready k1" "y \<notin> live k" "live k1 = insert y (live k)"
      then show ?thesis using Cons.IH [of k1] Cons.prems KAlloc by simp
    qed
  next
    case (KFree y)
    show ?thesis
    proof (cases "y \<in> live k")
      case True
      then obtain k1 where "freekm y k = Some k1" "km_ready k1" "live k1 = live k - {y}"
        using freekm_ok [OF Cons.prems(1)] by blast
      then show ?thesis using True Cons.IH [of k1] Cons.prems KFree by simp
    qed (use Cons KFree in simp)
  next
    case (KWrite y off v)
    show ?thesis
    proof (cases "y \<in> live k")
      case True
      then show ?thesis using km_write_ok [OF Cons.prems(1) True, of off v] Cons.IH [of "km_write y off v k"] Cons.prems KWrite by simp
    qed (use Cons KWrite in simp)
  qed
qed simp

lemma allockm_apart:
  assumes "km_ready k" and "valid_flags flags" and "sz \<le> 4000" and "allockm flags sz k = Some (Obj x, k')"
  shows "\<exists>b. buckets k' (x - x mod PAGESZ) = Some b \<and> sz \<le> int (objsize b) \<and>
    (\<forall>y \<in> live k. x < y \<longrightarrow> x + objsize b \<le> y) \<and>
    (\<forall>y \<in> live k. y < x \<longrightarrow> (\<exists>c. buckets k' (y - y mod PAGESZ) = Some c \<and> y + objsize c \<le> x))"
proof -
  obtain a b where b: "km_ready k'" "x \<notin> live k" "live k' = insert x (live k)" "buckets k' a = Some b"
      "x \<in> slots a (objsize b)" "sz \<le> int (objsize b)"
    using allockm_ok [OF assms(1-3)] assms(4) by auto
  have inv: "km_inv {} k'" using b(1) by (simp add: km_ready_def)
  have page: "y - y mod PAGESZ = c" if yc: "y \<in> blive c (buckets k' c)" for y c
  proof -
    obtain d where d: "buckets k' c = Some d" "y \<in> slots c (objsize d)"
      using yc by (auto simp: blive_def split: option.splits)
    then show ?thesis using slot_page [OF d(2)] bk_pageD [OF km_bucketD [OF inv d(1)]] by simp
  qed
  have ex: "\<exists>c. y \<in> blive c (buckets k' c)" if "y \<in> insert x (live k)" for y
    using that b(3) by (auto simp: live_def)
  from ex [of x] obtain c where "x \<in> blive c (buckets k' c)" by blast
  moreover from this have "c = a" using page slot_page [OF b(5)] bk_pageD [OF km_bucketD [OF inv b(4)]] by metis
  ultimately have xa: "x \<in> blive a (buckets k' a)" "x - x mod PAGESZ = a" using page by auto
  have "x + objsize b \<le> y" if "y \<in> live k" "x < y" for y
    using ex [of y] that live_apart [OF inv xa(1) _ _ b(4)] by blast
  moreover have "\<exists>c. buckets k' (y - y mod PAGESZ) = Some c \<and> y + objsize c \<le> x" if y: "y \<in> live k" "y < x" for y
  proof -
    obtain d where d: "y \<in> blive d (buckets k' d)" using ex [of y] y(1) by blast
    then obtain e where "buckets k' d = Some e" by (auto simp: blive_def split: option.splits)
    then show ?thesis using live_apart [OF inv d xa(1) y(2)] page [OF d] by auto
  qed
  ultimately show ?thesis using b(4,6) xa(2) by auto
qed

subsection \<open>Properties\<close>

text \<open>
  C2: The object allocator is safe under every sequence of \<^verbatim>\<open>allockm\<close> (of at most 4000
  bytes: a larger request runs off the table), \<^verbatim>\<open>freekm\<close> (of live objects) and writes of the client into live objects:
  started by \<^verbatim>\<open>allockminit\<close> on a sound page allocator, it runs without a failing assertion, those on the words that
  fill free objects included, never hands out an object that is still live, keeps exactly the objects handed out and
  not freed, and keeps its own invariant and that of the page allocator below it.
\<close>

theorem allockm_trace_safe:
  assumes "pm_inv m" and "\<forall>x\<in>set ops. km_op_ok x"
  shows "\<exists>k L. run_km ops (allockminit m) {} = Some (k, L) \<and> km_ready k \<and> L = live k \<and> pm_inv (pm k)"
  using run_km_ok [of "allockminit m" ops] allockminit_ready [OF assms(1)] assms(2)
  by (auto simp: km_ready_def km_inv_def)

theorem allockm_trace_witness:
  "\<exists>k L. run_km [KAlloc 1 100, KAlloc 9 4000, KWrite 3 4 7, KFree 5] (allockminit demo_pmem) {} = Some (k, L) \<and> km_ready k"
  using allockm_trace_safe [OF demo_pmem_inv, of "[KAlloc 1 100, KAlloc 9 4000, KWrite 3 4 7, KFree 5]"]
  by (auto simp: valid_flags_def AKERN_def)

text \<open>
  A request for at most 4000 bytes either is refused, with nothing changed, or returns an
  object that is at least as large as asked and overlaps no live object: the live objects are
  pairwise apart by the size of the objects of their bucket.
\<close>

theorem allockm_objects_apart:
  assumes "km_ready k" and "valid_flags flags" and "sz \<le> 4000"
  shows "(\<exists>r. allockm flags sz k = Some (r, k) \<and> (r = NoObj \<or> r = KmExit)) \<or>
    (\<exists>x k' b. allockm flags sz k = Some (Obj x, k') \<and>
      buckets k' (x - x mod PAGESZ) = Some b \<and> sz \<le> int (objsize b) \<and>
      (\<forall>y \<in> live k. x < y \<longrightarrow> x + objsize b \<le> y) \<and>
      (\<forall>y \<in> live k. y < x \<longrightarrow> (\<exists>c. buckets k' (y - y mod PAGESZ) = Some c \<and> y + objsize c \<le> x)))"
  using allockm_ok [OF assms] allockm_apart [OF assms] by meson

theorem allockm_apart_witness:
  "km_ready (allockminit demo_pmem) \<and>
   (\<exists>r k'. allockm 1 100 (allockminit demo_pmem) = Some (r, k'))"
proof -
  have "valid_flags 1" by (simp add: valid_flags_def AKERN_def)
  then show ?thesis
    using allockm_objects_apart [of "allockminit demo_pmem" 1 100] allockminit_ready [OF demo_pmem_inv] by auto
qed

text \<open>
  A request for more than 4000 bytes is not refused with a warning, as the code after the
  loop intends: the loop has no end inside the table, so the call never returns properly.
\<close>

theorem allockm_too_big_runs_off:
  assumes "4000 < sz"
  shows "allockm flags sz k = None"
proof -
  have "allockm_loop (kmpool_sizes @ replicate 22 0) 0 sz = None"
    using assms by (simp add: kmpool_sizes_def numeral_eq_Suc)
  then show ?thesis by (simp add: allockm_def)
qed

theorem allockm_too_big_witness: "allockm 1 4001 (allockminit demo_pmem) = None"
  by (rule allockm_too_big_runs_off) simp

end
