(* ===== verification/Kern_Fdes.thy ===== *)
theory Kern_Fdes
  imports Lib_Bitmap Refcount
begin

text \<open>
  File descriptors, \<^verbatim>\<open>kern/fdes.h\<close> and \<^verbatim>\<open>kern/fdes.cc\<close>: open file objects with a
  reference count, the descriptor table of each process (64 slots and the close-on-exec bitmap)
  and the system calls on them.  The state holds all file objects and all tables, because tables
  share objects (\<^verbatim>\<open>dup\<close> within a table, \<^verbatim>\<open>clone\<close> across tables at fork).  A slot
  holds the address of a file object or 0 (\<^verbatim>\<open>NULL\<close>); a deleted object is absent.
  \<^verbatim>\<open>lose\<close> is the method of the base class (only TCP sockets override it).
\<close>

subsection \<open>State\<close>

record fdes =
  fdtype :: int
  fdflags :: int
  fd_refcnt :: int

record fdvec =
  vec :: "nat list"
  closemap :: "u32 list"

record fdstate =
  files :: "nat \<Rightarrow> fdes option"
  fdvecs :: "fdvec list"

definition NOPEN :: nat where "NOPEN = 64"
definition FDREAD :: int where "FDREAD = 1"
definition FDWRITE :: int where "FDWRITE = 2"

definition fdvec_ctor :: fdvec where
  "fdvec_ctor = \<lparr>vec = replicate NOPEN 0, closemap = [0, 0]\<rparr>"

definition set_file :: "nat \<Rightarrow> fdes option \<Rightarrow> fdstate \<Rightarrow> fdstate" where
  "set_file p f s = s\<lparr>files := (files s)(p := f)\<rparr>"

definition set_vec :: "nat \<Rightarrow> fdvec \<Rightarrow> fdstate \<Rightarrow> fdstate" where
  "set_vec i v s = s\<lparr>fdvecs := (fdvecs s)[i := v]\<rparr>"

definition set_slot :: "nat \<Rightarrow> nat \<Rightarrow> nat \<Rightarrow> fdstate \<Rightarrow> fdstate" where
  "set_slot i fd p s = set_vec i ((fdvecs s ! i)\<lparr>vec := (vec (fdvecs s ! i))[fd := p]\<rparr>) s"

subsection \<open>File objects\<close>

definition hold :: "nat \<Rightarrow> fdstate \<Rightarrow> fdstate option" where
  "hold p s = do {
     f \<leftarrow> files s p;
     kassert (fd_refcnt f \<ge> 0);
     Some (set_file p (Some (f\<lparr>fd_refcnt := fd_refcnt f + 1\<rparr>)) s) }"

definition lose :: "nat \<Rightarrow> fdstate \<Rightarrow> fdstate option" where
  "lose p s = do {
     f \<leftarrow> files s p;
     kassert (fd_refcnt f > 0);
     let n = fd_refcnt f - 1;
     Some (set_file p (if n \<noteq> 0 then Some (f\<lparr>fd_refcnt := n\<rparr>) else None) s) }"

text \<open>\<^verbatim>\<open>vec[e]->refcnt++\<close> without the assertion of \<^verbatim>\<open>hold\<close>.\<close>

definition refcnt_inc :: "nat \<Rightarrow> fdstate \<Rightarrow> fdstate option" where
  "refcnt_inc p s = do {
     f \<leftarrow> files s p;
     Some (set_file p (Some (f\<lparr>fd_refcnt := fd_refcnt f + 1\<rparr>)) s) }"

subsection \<open>Descriptor tables\<close>

definition valid :: "nat \<Rightarrow> int \<Rightarrow> fdstate \<Rightarrow> bool" where
  "valid i fd s \<longleftrightarrow> (0 \<le> fd \<and> fd < int NOPEN) \<and> vec (fdvecs s ! i) ! nat fd \<noteq> 0"

definition get :: "nat \<Rightarrow> int \<Rightarrow> fdstate \<Rightarrow> int + nat" where
  "get i fd s = (if \<not> valid i fd s then Inl EBADF else Inr (vec (fdvecs s ! i) ! nat fd))"

fun getslot_loop :: "nat list \<Rightarrow> int \<Rightarrow> int" where
  "getslot_loop [] i = EMFILE"
| "getslot_loop (p # ps) i = (if p = 0 then i else getslot_loop ps (i + 1))"

definition getslot :: "nat \<Rightarrow> fdstate \<Rightarrow> int" where
  "getslot i s = getslot_loop (vec (fdvecs s ! i)) 0"

fun getpair_loop :: "nat list \<Rightarrow> int \<Rightarrow> int list \<Rightarrow> int + int list" where
  "getpair_loop [] i fd2 = Inl EMFILE"
| "getpair_loop (p # ps) i fd2 =
     (if p = 0 then
        (if length (fd2 @ [i]) = 2 then Inr (fd2 @ [i]) else getpair_loop ps (i + 1) (fd2 @ [i]))
      else getpair_loop ps (i + 1) fd2)"

definition getpair :: "nat \<Rightarrow> fdstate \<Rightarrow> int + int list" where
  "getpair i s = getpair_loop (vec (fdvecs s ! i)) 0 []"

definition put :: "nat \<Rightarrow> nat \<Rightarrow> fdstate \<Rightarrow> int \<times> fdstate" where
  "put i p s = (let e = getslot i s in if e < 0 then (e, s) else (e, set_slot i (nat e) p s))"

definition putpair :: "nat \<Rightarrow> nat \<Rightarrow> nat \<Rightarrow> fdstate \<Rightarrow> (int + int list) \<times> fdstate" where
  "putpair i p0 p1 s = (case getpair i s of
       Inl e \<Rightarrow> (Inl e, s)
     | Inr fd2 \<Rightarrow> (Inr fd2, set_slot i (nat (fd2 ! 1)) p1 (set_slot i (nat (fd2 ! 0)) p0 s)))"

definition dup :: "nat \<Rightarrow> int \<Rightarrow> fdstate \<Rightarrow> (int \<times> fdstate) option" where
  "dup i oldfd s =
     (if \<not> valid i oldfd s then Some (EBADF, s)
      else let e = getslot i s in
        if e < 0 then Some (e, s)
        else do {
          let p = vec (fdvecs s ! i) ! nat oldfd;
          s1 \<leftarrow> refcnt_inc p (set_slot i (nat e) p s);
          Some (e, s1) })"

definition close :: "nat \<Rightarrow> int \<Rightarrow> fdstate \<Rightarrow> (int \<times> fdstate) option" where
  "close i fd s = (case get i fd s of
       Inl e \<Rightarrow> Some (e, s)
     | Inr p \<Rightarrow> do {
         s1 \<leftarrow> lose p s;
         let s2 = set_slot i (nat fd) 0 s1;
         cm \<leftarrow> bitmap_tl_clr NOPEN (closemap (fdvecs s2 ! i)) fd;
         Some (0, set_vec i ((fdvecs s2 ! i)\<lparr>closemap := cm\<rparr>) s2) })"

definition dup2 :: "nat \<Rightarrow> int \<Rightarrow> int \<Rightarrow> fdstate \<Rightarrow> (int \<times> fdstate) option" where
  "dup2 i oldfd newfd s =
     (if \<not> valid i oldfd s \<or> newfd < 0 \<or> newfd \<ge> int NOPEN then Some (EBADF, s)
      else if oldfd = newfd then Some (newfd, s)
      else do {
        (e, s1) \<leftarrow> close i newfd s;
        let p = vec (fdvecs s1 ! i) ! nat oldfd;
        s2 \<leftarrow> refcnt_inc p (set_slot i (nat newfd) p s1);
        Some (newfd, s2) })"

text \<open>An index outside the array, or the slot of a closed descriptor, is a stray access.\<close>

function fdupfd :: "nat \<Rightarrow> int \<Rightarrow> int \<Rightarrow> fdstate \<Rightarrow> (int \<times> fdstate) option" where
  "fdupfd i oldfd lowest s =
     (if lowest < int NOPEN then
        (if lowest < 0 then None
         else if vec (fdvecs s ! i) ! nat lowest \<noteq> 0 then fdupfd i oldfd (lowest + 1) s
         else do {
           kassert (0 \<le> oldfd \<and> oldfd < int NOPEN);
           let p = vec (fdvecs s ! i) ! nat oldfd;
           s1 \<leftarrow> refcnt_inc p (set_slot i (nat lowest) p s);
           Some (lowest, s1) })
      else Some (EMFILE, s))"
  by pat_completeness auto
termination by (relation "measure (\<lambda>(i, oldfd, lowest, s). nat (int NOPEN - lowest))") auto

declare fdupfd.simps [simp del]

definition closeonexec_step :: "nat \<Rightarrow> nat \<Rightarrow> fdstate \<Rightarrow> fdstate option" where
  "closeonexec_step i fd s = do {
     t \<leftarrow> bitmap_tl_tst NOPEN (closemap (fdvecs s ! i)) (int fd);
     if t \<noteq> 0 then do {
       let p = vec (fdvecs s ! i) ! fd;
       kassert (p \<noteq> 0);
       cm \<leftarrow> bitmap_tl_clr NOPEN (closemap (fdvecs s ! i)) (int fd);
       s1 \<leftarrow> lose p (set_vec i ((fdvecs s ! i)\<lparr>closemap := cm\<rparr>) s);
       Some (set_slot i fd 0 s1) }
     else Some s }"

definition closeall_step :: "nat \<Rightarrow> nat \<Rightarrow> fdstate \<Rightarrow> fdstate option" where
  "closeall_step i fd s =
     (let p = vec (fdvecs s ! i) ! fd in
      if p \<noteq> 0 then do { s1 \<leftarrow> lose p s; Some (set_slot i fd 0 s1) } else Some s)"

fun for_fds :: "(nat \<Rightarrow> fdstate \<Rightarrow> fdstate option) \<Rightarrow> nat list \<Rightarrow> fdstate \<Rightarrow> fdstate option" where
  "for_fds f [] s = Some s"
| "for_fds f (fd # fds) s = do { s1 \<leftarrow> f fd s; for_fds f fds s1 }"

definition closeonexec :: "nat \<Rightarrow> fdstate \<Rightarrow> fdstate option" where
  "closeonexec i s = for_fds (closeonexec_step i) [0..<NOPEN] s"

definition closeall :: "nat \<Rightarrow> fdstate \<Rightarrow> fdstate option" where
  "closeall i s = for_fds (closeall_step i) [0..<NOPEN] s"

text \<open>\<^verbatim>\<open>clone\<close> appends the new table; its index is the old number of tables.\<close>

definition clone_step :: "nat \<Rightarrow> nat \<Rightarrow> nat \<Rightarrow> fdstate \<Rightarrow> fdstate option" where
  "clone_step i x fd s = do {
     let p = vec (fdvecs s ! i) ! fd;
     let s1 = set_slot x fd p s;
     if p \<noteq> 0 then hold p s1 else Some s1 }"

definition clone :: "nat \<Rightarrow> fdstate \<Rightarrow> (nat \<times> fdstate) option" where
  "clone i s = do {
     let x = length (fdvecs s);
     s1 \<leftarrow> for_fds (clone_step i x) [0..<NOPEN] (s\<lparr>fdvecs := fdvecs s @ [fdvec_ctor]\<rparr>);
     Some (x, s1) }"

subsection \<open>System calls\<close>

text \<open>
  \<open>low\<close> is the answer of \<^verbatim>\<open>lowfreepage()\<close>, \<open>ver\<close> the answer of \<^verbatim>\<open>verw\<close> or
  \<^verbatim>\<open>verr\<close> for the user buffer, and \<open>vt\<close> the virtual method of the file object.
\<close>

definition sysdup :: "bool \<Rightarrow> nat \<Rightarrow> int \<Rightarrow> fdstate \<Rightarrow> (int \<times> fdstate) option" where
  "sysdup low i fd s = (if low then Some (ENOMEM, s) else dup i fd s)"

definition sysdup2 :: "bool \<Rightarrow> nat \<Rightarrow> int \<Rightarrow> int \<Rightarrow> fdstate \<Rightarrow> (int \<times> fdstate) option" where
  "sysdup2 low i oldfd newfd s = (if low then Some (ENOMEM, s) else dup2 i oldfd newfd s)"

definition sysclose :: "nat \<Rightarrow> int \<Rightarrow> fdstate \<Rightarrow> (int \<times> fdstate) option" where
  "sysclose i fd s = close i fd s"

definition utok :: "int \<Rightarrow> int" where "utok u = u + 1"
definition ktou :: "int \<Rightarrow> int" where "ktou k = k - 1"

text \<open>\<^verbatim>\<open>arg\<close> is an unsigned long; passed on as an \<^verbatim>\<open>int\<close> it may become negative.\<close>

definition sysfcntl :: "bool \<Rightarrow> nat \<Rightarrow> int \<Rightarrow> int \<Rightarrow> u32 \<Rightarrow> fdstate \<Rightarrow> (int \<times> fdstate) option" where
  "sysfcntl low i fd cmd arg s =
     (if low then Some (ENOMEM, s)
      else case get i fd s of
        Inl e \<Rightarrow> Some (e, s)
      | Inr p \<Rightarrow>
          if cmd = 0 then fdupfd i fd (sint arg) s
          else if cmd = 1 then do { t \<leftarrow> bitmap_tl_tst NOPEN (closemap (fdvecs s ! i)) fd; Some (t, s) }
          else if cmd = 2 then do {
            cm \<leftarrow> (if arg AND 1 \<noteq> 0 then bitmap_tl_set NOPEN (closemap (fdvecs s ! i)) fd
                  else bitmap_tl_clr NOPEN (closemap (fdvecs s ! i)) fd);
            Some (0, set_vec i ((fdvecs s ! i)\<lparr>closemap := cm\<rparr>) s) }
          else if cmd = 3 then do { f \<leftarrow> files s p; Some (ktou (fdflags f), s) }
          else if cmd = 4 then do {
            f \<leftarrow> files s p;
            Some (0, set_file p (Some (f\<lparr>fdflags := sint (arg + 1)\<rparr>)) s) }
          else Some (ENOSYS, s))"

definition sysread :: "bool \<Rightarrow> int \<Rightarrow> (fdes \<Rightarrow> int) \<Rightarrow> nat \<Rightarrow> int \<Rightarrow> fdstate \<Rightarrow> int option" where
  "sysread low ver vt i fd s =
     (if low then Some ENOMEM
      else case get i fd s of
        Inl e \<Rightarrow> Some e
      | Inr p \<Rightarrow> do {
          f \<leftarrow> files s p;
          Some (if fdflags f AND FDREAD = 0 then EBADF else if ver \<noteq> 0 then ver else vt f) })"

definition syswrite :: "bool \<Rightarrow> int \<Rightarrow> (fdes \<Rightarrow> int) \<Rightarrow> nat \<Rightarrow> int \<Rightarrow> fdstate \<Rightarrow> int option" where
  "syswrite low ver vt i fd s =
     (if low then Some ENOMEM
      else case get i fd s of
        Inl e \<Rightarrow> Some e
      | Inr p \<Rightarrow> do {
          f \<leftarrow> files s p;
          Some (if fdflags f AND FDWRITE = 0 then EBADF else if ver \<noteq> 0 then ver else vt f) })"

definition syslseek :: "(fdes \<Rightarrow> int) \<Rightarrow> nat \<Rightarrow> int \<Rightarrow> fdstate \<Rightarrow> int option" where
  "syslseek vt i fd s = (case get i fd s of
       Inl e \<Rightarrow> Some e
     | Inr p \<Rightarrow> do { f \<leftarrow> files s p; Some (vt f) })"

definition sysioctl :: "bool \<Rightarrow> (fdes \<Rightarrow> int) \<Rightarrow> nat \<Rightarrow> int \<Rightarrow> fdstate \<Rightarrow> int option" where
  "sysioctl low vt i fd s = (if low then Some ENOMEM else syslseek vt i fd s)"

definition sysgetdents :: "bool \<Rightarrow> int \<Rightarrow> (fdes \<Rightarrow> int) \<Rightarrow> nat \<Rightarrow> int \<Rightarrow> fdstate \<Rightarrow> int option" where
  "sysgetdents low ver vt i fd s = sysread low ver vt i fd s"

text \<open>
  The end of \<^verbatim>\<open>doopen\<close> (\<^verbatim>\<open>fs/open.cc\<close>): a fresh file object, constructed with one
  reference, gets a slot or is lost again.
\<close>

definition install :: "nat \<Rightarrow> nat \<Rightarrow> fdes \<Rightarrow> fdstate \<Rightarrow> (int \<times> fdstate) option" where
  "install i p f s = do {
     let (e, s1) = put i p (set_file p (Some (f\<lparr>fd_refcnt := 1\<rparr>)) s);
     if e < 0 then do { s2 \<leftarrow> lose p s1; Some (e, s2) } else Some (e, s1) }"

text \<open>
  The end of \<^verbatim>\<open>syspipe\<close> (\<^verbatim>\<open>kern/pipe.cc\<close>): two fresh file objects get a pair of slots, or both are lost.
\<close>

definition install_pair :: "nat \<Rightarrow> nat \<Rightarrow> nat \<Rightarrow> fdes \<Rightarrow> fdes \<Rightarrow> fdstate \<Rightarrow> (int \<times> fdstate) option" where
  "install_pair i p0 p1 f0 f1 s =
     (case putpair i p0 p1 (set_file p1 (Some (f1\<lparr>fd_refcnt := 1\<rparr>)) (set_file p0 (Some (f0\<lparr>fd_refcnt := 1\<rparr>)) s)) of
        (Inl e, s1) \<Rightarrow> do { s2 \<leftarrow> lose p0 s1; s3 \<leftarrow> lose p1 s2; Some (e, s3) }
      | (Inr fd2, s1) \<Rightarrow> Some (0, s1))"

text \<open>
  \<^verbatim>\<open>doexit\<close> (\<^verbatim>\<open>kern/kill.cc\<close>) closes all descriptors; nobody uses the table of a dead process again, so it leaves the list.
\<close>

definition exit_fds :: "nat \<Rightarrow> fdstate \<Rightarrow> fdstate option" where
  "exit_fds i s = do {
     s1 \<leftarrow> closeall i s;
     Some (s1\<lparr>fdvecs := take i (fdvecs s1) @ drop (Suc i) (fdvecs s1)\<rparr>) }"

subsection \<open>The reference invariant\<close>

text \<open>
  \<open>nref\<close> is the number of slots that refer to an object; \<open>X\<close> accounts for the references a
  half-finished operation still owes or has taken in advance.
\<close>

definition nref :: "fdstate \<Rightarrow> nat \<Rightarrow> int" where
  "nref s p = (\<Sum>v\<leftarrow>fdvecs s. int (count_list (vec v) p))"

definition vecs_wf :: "fdstate \<Rightarrow> bool" where
  "vecs_wf s \<longleftrightarrow> (\<forall>v\<in>set (fdvecs s). length (vec v) = NOPEN \<and> length (closemap v) = 2)"

definition fcount :: "fdstate \<Rightarrow> nat \<Rightarrow> int" where
  "fcount s p = (case files s p of None \<Rightarrow> 0 | Some f \<Rightarrow> fd_refcnt f)"

definition refs_ok :: "(nat \<Rightarrow> int) \<Rightarrow> fdstate \<Rightarrow> bool" where
  "refs_ok X s \<longleftrightarrow> (\<forall>p. p \<noteq> 0 \<longrightarrow> fcount s p = nref s p + X p) \<and>
     (\<forall>p f. p \<noteq> 0 \<longrightarrow> files s p = Some f \<longrightarrow> 0 < fd_refcnt f)"

definition cloexec_ok :: "fdstate \<Rightarrow> bool" where
  "cloexec_ok s \<longleftrightarrow> (\<forall>v\<in>set (fdvecs s). \<forall>fd<NOPEN. bitval (closemap v) fd \<longrightarrow> vec v ! fd \<noteq> 0)"

definition fd_ok :: "fdstate \<Rightarrow> bool" where
  "fd_ok s \<longleftrightarrow> vecs_wf s \<and> refs_ok (\<lambda>_. 0) s \<and> cloexec_ok s"

definition bump :: "nat \<Rightarrow> int \<Rightarrow> (nat \<Rightarrow> int) \<Rightarrow> nat \<Rightarrow> int" where
  "bump p d X = X(p := X p + d)"

lemma count_list_upd:
  "i < length xs \<Longrightarrow> int (count_list (xs[i := y]) p) =
     int (count_list xs p) + (if y = p then 1 else 0) - (if xs ! i = p then 1 else 0)"
proof (induction xs arbitrary: i)
  case (Cons x xs)
  show ?case
  proof (cases i)
    case (Suc j)
    then show ?thesis using Cons.IH [of j] Cons.prems by (simp split: if_splits)
  qed (use Cons.prems in simp)
qed simp

lemma sum_list_upd:
  "i < length vs \<Longrightarrow> (\<Sum>v\<leftarrow>vs[i := w]. g v) = (\<Sum>v\<leftarrow>vs. g v) + g w - (g (vs ! i) :: int)"
proof (induction vs arbitrary: i)
  case (Cons x vs)
  then show ?case by (cases i) auto
qed simp

lemma sum_list_elem: "x \<in> set xs \<Longrightarrow> \<forall>y\<in>set xs. 0 \<le> g y \<Longrightarrow> g x \<le> (\<Sum>y\<leftarrow>xs. g y :: int)"
proof (induction xs)
  case (Cons a xs)
  then have "0 \<le> (\<Sum>y\<leftarrow>xs. g y)" by (intro sum_list_nonneg) auto
  with Cons show ?case by auto
qed simp

lemma fd_sel [simp]:
  "files (set_vec i v s) = files s" "fdvecs (set_vec i v s) = (fdvecs s)[i := v]"
  "files (set_file p f s) = (files s)(p := f)" "fdvecs (set_file p f s) = fdvecs s"
  "files (set_slot i fd q s) = files s"
  "fdvecs (set_slot i fd q s) = (fdvecs s)[i := (fdvecs s ! i)\<lparr>vec := (vec (fdvecs s ! i))[fd := q]\<rparr>]"
  by (simp_all add: set_vec_def set_file_def set_slot_def)

lemma nref_set_slot:
  assumes "vecs_wf s" and "i < length (fdvecs s)" and "fd < NOPEN"
  shows "nref (set_slot i fd q s) p =
    nref s p + (if q = p then 1 else 0) - (if vec (fdvecs s ! i) ! fd = p then 1 else 0)"
proof -
  have "length (vec (fdvecs s ! i)) = NOPEN" using assms(1,2) by (simp add: vecs_wf_def)
  then show ?thesis
    using sum_list_upd [OF assms(2), of "\<lambda>v. int (count_list (vec v) p)"]
      count_list_upd [of fd "vec (fdvecs s ! i)" q p] assms(3)
    by (simp add: nref_def)
qed

lemma refs_set_slot:
  assumes "refs_ok X s" and "vecs_wf s" and "i < length (fdvecs s)" and "fd < NOPEN"
  shows "refs_ok (bump (vec (fdvecs s ! i) ! fd) 1 (bump q (-1) X)) (set_slot i fd q s)"
  using assms(1) by (simp add: refs_ok_def nref_set_slot [OF assms(2-4)] bump_def fcount_def)

lemma nref_set_file [simp]: "nref (set_file p f s) = nref s"
  by (simp add: nref_def fun_eq_iff)

lemma refs_inc:
  assumes "refs_ok X s" and "files s p = Some f"
  shows "\<exists>s'. refcnt_inc p s = Some s' \<and> refs_ok (bump p 1 X) s' \<and> fdvecs s' = fdvecs s"
    and "p \<noteq> 0 \<Longrightarrow> \<exists>s'. hold p s = Some s' \<and> refs_ok (bump p 1 X) s' \<and> fdvecs s' = fdvecs s"
proof -
  have "refs_ok (bump p 1 X) (set_file p (Some (f\<lparr>fd_refcnt := fd_refcnt f + 1\<rparr>)) s)"
    unfolding refs_ok_def
  proof (intro conjI allI impI)
    fix q :: nat assume "q \<noteq> 0"
    then have "fcount s q = nref s q + X q" using assms(1) by (simp add: refs_ok_def)
    then show "fcount (set_file p (Some (f\<lparr>fd_refcnt := fd_refcnt f + 1\<rparr>)) s) q =
        nref (set_file p (Some (f\<lparr>fd_refcnt := fd_refcnt f + 1\<rparr>)) s) q + bump p 1 X q"
      using assms(2) by (cases "q = p") (simp_all add: fcount_def bump_def)
  next
    fix q :: nat and g assume "q \<noteq> 0" "files (set_file p (Some (f\<lparr>fd_refcnt := fd_refcnt f + 1\<rparr>)) s) q = Some g"
    moreover have "0 < fd_refcnt h" if "q \<noteq> 0" "files s q = Some h" for h
      using that assms(1) by (simp add: refs_ok_def)
    ultimately show "0 < fd_refcnt g" using assms(2) by (fastforce split: if_splits)
  qed
  then show "\<exists>s'. refcnt_inc p s = Some s' \<and> refs_ok (bump p 1 X) s' \<and> fdvecs s' = fdvecs s"
    and "p \<noteq> 0 \<Longrightarrow> \<exists>s'. hold p s = Some s' \<and> refs_ok (bump p 1 X) s' \<and> fdvecs s' = fdvecs s"
    using assms by (auto simp: refcnt_inc_def hold_def refs_ok_def less_imp_le)
qed

lemma refs_lose:
  assumes "refs_ok X s" and "files s p = Some f" and "p \<noteq> 0"
  shows "\<exists>s'. lose p s = Some s' \<and> refs_ok (bump p (-1) X) s' \<and> fdvecs s' = fdvecs s \<and>
    (files s' p = None \<longleftrightarrow> fd_refcnt f = 1) \<and> (\<forall>q. q \<noteq> p \<longrightarrow> files s' q = files s q)"
proof -
  define v where "v = (if fd_refcnt f - 1 \<noteq> 0 then Some (f\<lparr>fd_refcnt := fd_refcnt f - 1\<rparr>) else None)"
  have pos: "0 < fd_refcnt f" using assms by (simp add: refs_ok_def)
  have "refs_ok (bump p (-1) X) (set_file p v s)"
    unfolding refs_ok_def
  proof (intro conjI allI impI)
    fix q :: nat assume "q \<noteq> 0"
    then have "fcount s q = nref s q + X q" using assms(1) by (simp add: refs_ok_def)
    then show "fcount (set_file p v s) q = nref (set_file p v s) q + bump p (-1) X q"
      using assms(2) by (cases "q = p") (simp_all add: fcount_def bump_def v_def)
  next
    fix q :: nat and g assume "q \<noteq> 0" "files (set_file p v s) q = Some g"
    moreover have "0 < fd_refcnt h" if "q \<noteq> 0" "files s q = Some h" for h
      using that assms(1) by (simp add: refs_ok_def)
    ultimately show "0 < fd_refcnt g" using pos by (fastforce simp: v_def split: if_splits)
  qed
  then show ?thesis using assms(2) pos by (simp add: lose_def v_def)
qed

lemma nref_pos:
  assumes "vecs_wf s" and "i < length (fdvecs s)" and "fd < NOPEN"
  shows "1 \<le> nref s (vec (fdvecs s ! i) ! fd)"
proof -
  have "length (vec (fdvecs s ! i)) = NOPEN" using assms by (simp add: vecs_wf_def)
  then have "vec (fdvecs s ! i) ! fd \<in> set (vec (fdvecs s ! i))" using assms(3) by simp
  then have "count_list (vec (fdvecs s ! i)) (vec (fdvecs s ! i) ! fd) \<noteq> 0"
    by (simp add: count_list_0_iff)
  moreover have "int (count_list (vec (fdvecs s ! i)) p) \<le> nref s p" for p
    unfolding nref_def using assms(2) by (intro sum_list_elem) auto
  then have "int (count_list (vec (fdvecs s ! i)) (vec (fdvecs s ! i) ! fd)) \<le> nref s (vec (fdvecs s ! i) ! fd)" .
  ultimately show ?thesis by linarith
qed

lemma nref_nonneg: "0 \<le> nref s p"
  unfolding nref_def by (intro sum_list_nonneg) auto

lemma slot_file:
  assumes "refs_ok X s" and "vecs_wf s" and "i < length (fdvecs s)" and "fd < NOPEN"
    and "vec (fdvecs s ! i) ! fd \<noteq> 0" and "0 \<le> X (vec (fdvecs s ! i) ! fd)"
  shows "\<exists>f. files s (vec (fdvecs s ! i) ! fd) = Some f"
  using nref_pos [OF assms(2-4)] assms(1,5,6) by (auto simp: refs_ok_def fcount_def split: option.splits)


lemma refs_count: "refs_ok X s \<Longrightarrow> p \<noteq> 0 \<Longrightarrow> fcount s p = nref s p + X p"
  by (simp add: refs_ok_def)

lemma refs_cong: "refs_ok X s \<Longrightarrow> (\<And>q. q \<noteq> 0 \<Longrightarrow> Y q = X q) \<Longrightarrow> refs_ok Y s"
  by (auto simp: refs_ok_def)

lemma refs_same: "refs_ok X s \<Longrightarrow> files s' = files s \<Longrightarrow> nref s' = nref s \<Longrightarrow> refs_ok X s'"
  by (simp add: refs_ok_def fcount_def)

lemma nref_same: "map vec (fdvecs s') = map vec (fdvecs s) \<Longrightarrow> nref s' = nref s"
proof -
  assume a: "map vec (fdvecs s') = map vec (fdvecs s)"
  have "nref t p = (\<Sum>v\<leftarrow>map vec (fdvecs t). int (count_list v p))" for t p
    by (simp add: nref_def comp_def)
  then show ?thesis by (simp only: a fun_eq_iff) simp
qed

subsection \<open>Every operation keeps the invariant\<close>

definition table_ok :: "fdvec \<Rightarrow> bool" where
  "table_ok v \<longleftrightarrow> length (vec v) = NOPEN \<and> length (closemap v) = 2 \<and>
     (\<forall>fd<NOPEN. bitval (closemap v) fd \<longrightarrow> vec v ! fd \<noteq> 0)"

lemma fd_ok_tables: "fd_ok s \<longleftrightarrow> refs_ok (\<lambda>_. 0) s \<and> (\<forall>v\<in>set (fdvecs s). table_ok v)"
  by (auto simp: fd_ok_def vecs_wf_def cloexec_ok_def table_ok_def)

lemma wf_upd: "vecs_wf s \<Longrightarrow> length (vec v) = NOPEN \<Longrightarrow> length (closemap v) = 2 \<Longrightarrow> vecs_wf (set_vec i v s)"
  using set_update_subset_insert [of "fdvecs s" i v] by (auto simp: vecs_wf_def)

lemma tables_upd: "\<forall>v\<in>set vs. table_ok v \<Longrightarrow> table_ok w \<Longrightarrow> \<forall>v\<in>set (vs[i := w]). table_ok v"
  using set_update_subset_insert [of vs i w] by auto

lemma fill_slot:
  assumes ok: "fd_ok s" and i: "i < length (fdvecs s)" and fd: "fd < NOPEN"
    and free: "vec (fdvecs s ! i) ! fd = 0" and p: "p \<noteq> 0" and f: "files s p = Some f"
  shows "\<exists>s'. refcnt_inc p (set_slot i fd p s) = Some s' \<and> fd_ok s' \<and>
    fdvecs s' = (fdvecs s)[i := (fdvecs s ! i)\<lparr>vec := (vec (fdvecs s ! i))[fd := p]\<rparr>]"
proof -
  have r: "refs_ok (\<lambda>_. 0) s" and wf: "vecs_wf s" and t: "\<forall>v\<in>set (fdvecs s). table_ok v"
    using ok by (auto simp: fd_ok_def fd_ok_tables [unfolded fd_ok_def] vecs_wf_def table_ok_def cloexec_ok_def)
  obtain s' where s': "refcnt_inc p (set_slot i fd p s) = Some s'"
      "refs_ok (bump p 1 (bump 0 1 (bump p (-1) (\<lambda>_. 0)))) s'" "fdvecs s' = fdvecs (set_slot i fd p s)"
    using refs_inc(1) [OF refs_set_slot [OF r wf i fd, of p], of p f] f free by auto
  have "table_ok ((fdvecs s ! i)\<lparr>vec := (vec (fdvecs s ! i))[fd := p]\<rparr>)"
  proof -
    have "table_ok (fdvecs s ! i)" using t i by simp
    then show ?thesis using p fd by (auto simp: table_ok_def nth_list_update)
  qed
  from tables_upd [OF t this] have "\<forall>v\<in>set (fdvecs s'). table_ok v" unfolding s'(3) fd_sel .
  moreover have "refs_ok (\<lambda>_. 0) s'" using p by (intro refs_cong [OF s'(2)]) (auto simp: bump_def)
  ultimately show ?thesis using s' by (auto simp: fd_ok_tables)
qed

lemma drop_slot:
  assumes ok: "refs_ok (\<lambda>_. 0) s" "vecs_wf s" and i: "i < length (fdvecs s)" and fd: "fd < NOPEN"
    and p: "p = vec (fdvecs s ! i) ! fd" "p \<noteq> 0"
  shows "\<exists>s1. lose p s = Some s1 \<and> refs_ok (\<lambda>_. 0) (set_slot i fd 0 s1) \<and> fdvecs s1 = fdvecs s \<and>
    (files s1 p = None \<longleftrightarrow> nref s p = 1) \<and> (\<forall>q. q \<noteq> p \<longrightarrow> files s1 q = files s q)"
proof -
  obtain f where f: "files s p = Some f" using slot_file [OF ok i fd] p by auto
  obtain s1 where s1: "lose p s = Some s1" "refs_ok (bump p (-1) (\<lambda>_. 0)) s1" "fdvecs s1 = fdvecs s"
      "files s1 p = None \<longleftrightarrow> fd_refcnt f = 1" "\<forall>q. q \<noteq> p \<longrightarrow> files s1 q = files s q"
    using refs_lose [OF ok(1) f p(2)] by auto
  have "vecs_wf s1" using ok(2) s1(3) by (simp add: vecs_wf_def)
  then have "refs_ok (bump p 1 (bump 0 (-1) (bump p (-1) (\<lambda>_. 0)))) (set_slot i fd 0 s1)"
    using refs_set_slot [OF s1(2), of i fd 0] s1(3) i fd p(1) by simp
  then have "refs_ok (\<lambda>_. 0) (set_slot i fd 0 s1)"
    by (rule refs_cong) (auto simp: bump_def)
  moreover have "fcount s p = nref s p" using ok(1) p(2) by (simp add: refs_ok_def)
  then have "fd_refcnt f = nref s p" using f by (simp add: fcount_def)
  ultimately show ?thesis using s1 by simp
qed

lemma tl_clr_spec:
  assumes "length cm = 2" and "0 \<le> fd" and "fd < int NOPEN"
  shows "\<exists>cm'. bitmap_tl_clr NOPEN cm fd = Some cm' \<and> length cm' = 2 \<and>
    (\<forall>j<NOPEN. bitval cm' j = (if j = nat fd then False else bitval cm j))"
proof -
  have "nat fd < 32 * length cm" using assms by (simp add: NOPEN_def nat_less_iff)
  then obtain bs where "clrbit cm fd = Some bs" "length bs = length cm"
      "\<And>j. j < 32 * length cm \<Longrightarrow> bitval bs j = (if j = nat fd then False else bitval cm j)"
    using clrbit_spec [OF assms(2)] by metis
  then show ?thesis using assms by (auto simp: bitmap_tl_clr_def NOPEN_def)
qed

lemma tl_set_spec:
  assumes "length cm = 2" and "0 \<le> fd" and "fd < int NOPEN"
  shows "\<exists>cm'. bitmap_tl_set NOPEN cm fd = Some cm' \<and> length cm' = 2 \<and>
    (\<forall>j<NOPEN. bitval cm' j = (if j = nat fd then True else bitval cm j))"
proof -
  have "nat fd < 32 * length cm" using assms by (simp add: NOPEN_def nat_less_iff)
  then obtain bs where "setbit cm fd = Some bs" "length bs = length cm"
      "\<And>j. j < 32 * length cm \<Longrightarrow> bitval bs j = (if j = nat fd then True else bitval cm j)"
    using setbit_spec [OF assms(2)] by metis
  then show ?thesis using assms by (auto simp: bitmap_tl_set_def NOPEN_def)
qed

lemma tl_tst_spec:
  "length cm = 2 \<Longrightarrow> 0 \<le> fd \<Longrightarrow> fd < int NOPEN \<Longrightarrow>
   bitmap_tl_tst NOPEN cm fd = Some (if bitval cm (nat fd) then -1 else 0)"
  by (simp add: bitmap_tl_tst_def tstbit_eq NOPEN_def)


lemma getslot_loop_spec:
  "(getslot_loop ps k = EMFILE \<and> 0 \<notin> set ps) \<or>
   (\<exists>j<length ps. getslot_loop ps k = k + int j \<and> ps ! j = 0 \<and> (\<forall>l<j. ps ! l \<noteq> 0))"
proof (induction ps arbitrary: k)
  case (Cons p ps)
  show ?case
  proof (cases "p = 0")
    case False
    from Cons.IH [of "k + 1"] show ?thesis
    proof (elim disjE exE conjE)
      fix j assume "j < length ps" "getslot_loop ps (k + 1) = k + 1 + int j" "ps ! j = 0" "\<forall>l<j. ps ! l \<noteq> 0"
      then show ?thesis using False
        by (intro disjI2 exI [of _ "Suc j"]) (auto simp: nth_Cons split: nat.splits)
    qed (use False in simp)
  qed auto
qed simp

lemma getslot_spec:
  assumes "length (vec (fdvecs s ! i)) = NOPEN"
  shows "(getslot i s = EMFILE \<and> 0 \<notin> set (vec (fdvecs s ! i))) \<or>
    (\<exists>j<NOPEN. getslot i s = int j \<and> vec (fdvecs s ! i) ! j = 0 \<and> (\<forall>l<j. vec (fdvecs s ! i) ! l \<noteq> 0))"
  using getslot_loop_spec [of "vec (fdvecs s ! i)" 0] assms by (simp add: getslot_def)

lemma fd_okD:
  assumes "fd_ok s"
  shows "refs_ok (\<lambda>_. 0) s" and "vecs_wf s" and "\<And>i. i < length (fdvecs s) \<Longrightarrow> table_ok (fdvecs s ! i)"
  using assms by (auto simp: fd_ok_def vecs_wf_def cloexec_ok_def table_ok_def)

lemma valid_file:
  assumes "fd_ok s" and "i < length (fdvecs s)" and "valid i fd s"
  shows "\<exists>f. files s (vec (fdvecs s ! i) ! nat fd) = Some f"
  using slot_file [OF fd_okD(1,2) [OF assms(1)] assms(2), of "nat fd"] assms by (auto simp: valid_def nat_less_iff)

lemma dup_keeps:
  assumes ok: "fd_ok s" and i: "i < length (fdvecs s)"
  shows "\<exists>e s'. dup i fd s = Some (e, s') \<and> fd_ok s' \<and> length (fdvecs s') = length (fdvecs s) \<and>
    (if \<not> valid i fd s then e = EBADF \<and> s' = s
     else if 0 \<notin> set (vec (fdvecs s ! i)) then e = EMFILE \<and> s' = s
     else 0 \<le> e \<and> e < int NOPEN \<and> vec (fdvecs s ! i) ! nat e = 0 \<and> (\<forall>l<nat e. vec (fdvecs s ! i) ! l \<noteq> 0) \<and>
       vec (fdvecs s' ! i) = (vec (fdvecs s ! i))[nat e := vec (fdvecs s ! i) ! nat fd])"
proof (cases "valid i fd s")
  case False
  then show ?thesis using ok by (simp add: dup_def)
next
  case True
  let ?v = "vec (fdvecs s ! i)"
  have len: "length ?v = NOPEN" using fd_okD(3) [OF ok i] by (simp add: table_ok_def)
  from getslot_spec [OF len] show ?thesis
  proof (elim disjE exE conjE)
    assume "getslot i s = EMFILE" "0 \<notin> set ?v"
    then show ?thesis using True ok by (simp add: dup_def errno_simps)
  next
    fix j assume j: "j < NOPEN" "getslot i s = int j" "?v ! j = 0" "\<forall>l<j. ?v ! l \<noteq> 0"
    obtain f where f: "files s (?v ! nat fd) = Some f" using valid_file [OF ok i True] by blast
    have p: "?v ! nat fd \<noteq> 0" using True by (simp add: valid_def)
    obtain s' where "refcnt_inc (?v ! nat fd) (set_slot i j (?v ! nat fd) s) = Some s'" "fd_ok s'"
        "fdvecs s' = (fdvecs s)[i := (fdvecs s ! i)\<lparr>vec := ?v[j := ?v ! nat fd]\<rparr>]"
      using fill_slot [OF ok i j(1,3) p f] by blast
    moreover have "0 \<in> set ?v" using j(1,3) len by (metis nth_mem)
    ultimately show ?thesis using True j i by (simp add: dup_def)
  qed
qed

lemma close_keeps:
  assumes ok: "fd_ok s" and i: "i < length (fdvecs s)"
  shows "\<exists>e s'. close i fd s = Some (e, s') \<and> fd_ok s' \<and> length (fdvecs s') = length (fdvecs s) \<and>
    (if \<not> valid i fd s then e = EBADF \<and> s' = s
     else e = 0 \<and> vec (fdvecs s' ! i) = (vec (fdvecs s ! i))[nat fd := 0] \<and>
       (files s' (vec (fdvecs s ! i) ! nat fd) = None \<longleftrightarrow> nref s (vec (fdvecs s ! i) ! nat fd) = 1) \<and>
       (\<forall>q. q \<noteq> vec (fdvecs s ! i) ! nat fd \<longrightarrow> files s' q = files s q))"
proof (cases "valid i fd s")
  case False
  then show ?thesis using ok by (simp add: close_def get_def)
next
  case True
  define p where "p = vec (fdvecs s ! i) ! nat fd"
  have fd: "0 \<le> fd" "fd < int NOPEN" "nat fd < NOPEN" "p \<noteq> 0" using True by (auto simp: valid_def p_def)
  obtain s1 where s1: "lose p s = Some s1" "refs_ok (\<lambda>_. 0) (set_slot i (nat fd) 0 s1)" "fdvecs s1 = fdvecs s"
      "files s1 p = None \<longleftrightarrow> nref s p = 1" "\<forall>q. q \<noteq> p \<longrightarrow> files s1 q = files s q"
    using drop_slot [OF fd_okD(1,2) [OF ok] i fd(3) p_def fd(4)] by (elim exE conjE) rule
  define s2 where "s2 = set_slot i (nat fd) 0 s1"
  have t: "table_ok (fdvecs s ! i)" using fd_okD(3) [OF ok i] .
  then have lc: "length (closemap (fdvecs s ! i)) = 2" by (simp add: table_ok_def)
  obtain cm where cm: "bitmap_tl_clr NOPEN (closemap (fdvecs s ! i)) fd = Some cm" "length cm = 2"
      "\<forall>j<NOPEN. bitval cm j = (if j = nat fd then False else bitval (closemap (fdvecs s ! i)) j)"
    using tl_clr_spec [OF lc fd(1,2)] by metis
  define s' where "s' = set_vec i ((fdvecs s2 ! i)\<lparr>closemap := cm\<rparr>) s2"
  have "table_ok ((fdvecs s ! i)\<lparr>vec := (vec (fdvecs s ! i))[nat fd := 0], closemap := cm\<rparr>)"
    using t cm(2,3) by (auto simp: table_ok_def nth_list_update)
  moreover have v': "fdvecs s' = (fdvecs s)[i := (fdvecs s ! i)\<lparr>vec := (vec (fdvecs s ! i))[nat fd := 0], closemap := cm\<rparr>]"
    using i by (simp add: s'_def s2_def s1(3))
  moreover have "refs_ok (\<lambda>_. 0) s'"
    using s1(2) i by (intro refs_same [OF s1(2)] nref_same)
      (simp_all add: s'_def s2_def map_update s1(3))
  ultimately have "fd_ok s'"
    using ok tables_upd by (auto simp: fd_ok_tables)
  moreover have "close i fd s = Some (0, s')"
    using True s1 cm i by (simp add: close_def get_def p_def [symmetric] s'_def s2_def Let_def)
  ultimately show ?thesis
    using True v' i s1(4,5) by (simp add: p_def [symmetric] s'_def s2_def)
qed


lemma dup2_keeps:
  assumes ok: "fd_ok s" and i: "i < length (fdvecs s)"
  shows "\<exists>e s'. dup2 i oldfd newfd s = Some (e, s') \<and> fd_ok s' \<and> length (fdvecs s') = length (fdvecs s) \<and>
    (if \<not> valid i oldfd s \<or> newfd < 0 \<or> newfd \<ge> int NOPEN then e = EBADF \<and> s' = s
     else e = newfd \<and>
       vec (fdvecs s' ! i) = (vec (fdvecs s ! i))[nat newfd := vec (fdvecs s ! i) ! nat oldfd])"
proof (cases "\<not> valid i oldfd s \<or> newfd < 0 \<or> newfd \<ge> int NOPEN \<or> oldfd = newfd")
  case True
  then show ?thesis using ok by (auto simp: dup2_def)
next
  case False
  let ?v = "vec (fdvecs s ! i)"
  let ?p = "?v ! nat oldfd"
  have fd: "nat newfd < NOPEN" "nat oldfd < NOPEN" "nat oldfd \<noteq> nat newfd" "?p \<noteq> 0" "valid i oldfd s"
    using False by (auto simp: valid_def nat_less_iff)
  have len: "length ?v = NOPEN" using fd_okD(3) [OF ok i] by (simp add: table_ok_def)
  obtain e s1 where s1: "close i newfd s = Some (e, s1)" "fd_ok s1" "length (fdvecs s1) = length (fdvecs s)"
      "vec (fdvecs s1 ! i) = ?v[nat newfd := 0]"
  proof -
    obtain e s1 where "close i newfd s = Some (e, s1)" "fd_ok s1" "length (fdvecs s1) = length (fdvecs s)"
      "if \<not> valid i newfd s then e = EBADF \<and> s1 = s else vec (fdvecs s1 ! i) = ?v[nat newfd := 0]"
      using close_keeps [OF ok i, of newfd] by (metis (no_types, lifting))
    moreover have "?v[nat newfd := 0] = ?v" if "\<not> valid i newfd s"
      using that False list_update_id [of ?v "nat newfd"] by (simp add: valid_def)
    ultimately show ?thesis using that by (auto split: if_splits)
  qed
  have i1: "i < length (fdvecs s1)" using s1(3) i by simp
  have p1: "vec (fdvecs s1 ! i) ! nat oldfd = ?p" "vec (fdvecs s1 ! i) ! nat newfd = 0"
    using s1(4) fd len by simp_all
  obtain f where f: "files s1 ?p = Some f"
    using slot_file [OF fd_okD(1,2) [OF s1(2)] i1 fd(2)] p1(1) fd(4) by auto
  obtain s2 where "refcnt_inc ?p (set_slot i (nat newfd) ?p s1) = Some s2" "fd_ok s2"
      "fdvecs s2 = (fdvecs s1)[i := (fdvecs s1 ! i)\<lparr>vec := (vec (fdvecs s1 ! i))[nat newfd := ?p]\<rparr>]"
    using fill_slot [OF s1(2) i1 fd(1) p1(2) fd(4) f] by blast
  then show ?thesis using False s1 i1 p1(1) by (auto simp: dup2_def)
qed

definition full_from :: "int \<Rightarrow> nat list \<Rightarrow> bool" where
  "full_from lo v \<longleftrightarrow> (\<forall>l. lo \<le> l \<and> l < int NOPEN \<longrightarrow> v ! nat l \<noteq> 0)"

lemma full_from_step: "full_from (lo + 1) v \<Longrightarrow> v ! nat lo \<noteq> 0 \<Longrightarrow> full_from lo v"
  unfolding full_from_def by (metis order_le_less zless_imp_add1_zle)

lemma fdupfd_keeps:
  assumes ok: "fd_ok s" and i: "i < length (fdvecs s)" and v: "valid i fd s" and lo: "0 \<le> lowest"
  shows "\<exists>e s'. fdupfd i fd lowest s = Some (e, s') \<and> fd_ok s' \<and> length (fdvecs s') = length (fdvecs s) \<and>
    (e = EMFILE \<and> s' = s \<and> full_from lowest (vec (fdvecs s ! i)) \<or>
     lowest \<le> e \<and> e < int NOPEN \<and> vec (fdvecs s ! i) ! nat e = 0 \<and>
     vec (fdvecs s' ! i) = (vec (fdvecs s ! i))[nat e := vec (fdvecs s ! i) ! nat fd])"
  using lo
proof (induction "nat (int NOPEN - lowest)" arbitrary: lowest rule: less_induct)
  case less
  let ?v = "vec (fdvecs s ! i)"
  show ?case
  proof (cases "lowest < int NOPEN")
    case False
    then show ?thesis using ok by (subst fdupfd.simps) (auto simp: full_from_def)
  next
    case True
    show ?thesis
    proof (cases "?v ! nat lowest = 0")
      case False
      have step: "fdupfd i fd lowest s = fdupfd i fd (lowest + 1) s"
        using True False less.prems by (subst fdupfd.simps) simp
      have "\<exists>e s'. fdupfd i fd (lowest + 1) s = Some (e, s') \<and> fd_ok s' \<and> length (fdvecs s') = length (fdvecs s) \<and>
          (e = EMFILE \<and> s' = s \<and> full_from (lowest + 1) ?v \<or>
           lowest + 1 \<le> e \<and> e < int NOPEN \<and> ?v ! nat e = 0 \<and> vec (fdvecs s' ! i) = ?v[nat e := ?v ! nat fd])"
        using less.hyps [of "lowest + 1"] True less.prems by simp
      then obtain e s' where e: "fdupfd i fd (lowest + 1) s = Some (e, s')" "fd_ok s'"
          "length (fdvecs s') = length (fdvecs s)"
          "e = EMFILE \<and> s' = s \<and> full_from (lowest + 1) ?v \<or>
           lowest + 1 \<le> e \<and> e < int NOPEN \<and> ?v ! nat e = 0 \<and> vec (fdvecs s' ! i) = ?v[nat e := ?v ! nat fd]"
        by blast
      then show ?thesis using full_from_step [OF _ False] unfolding step by auto
    next
      case free: True
      have p: "?v ! nat fd \<noteq> 0" using v by (simp add: valid_def)
      obtain f where f: "files s (?v ! nat fd) = Some f" using valid_file [OF ok i v] by blast
      have lt: "nat lowest < NOPEN" using True less.prems by linarith
      obtain s' where "refcnt_inc (?v ! nat fd) (set_slot i (nat lowest) (?v ! nat fd) s) = Some s'" "fd_ok s'"
          "fdvecs s' = (fdvecs s)[i := (fdvecs s ! i)\<lparr>vec := ?v[nat lowest := ?v ! nat fd]\<rparr>]"
        using fill_slot [OF ok i lt free p f] by blast
      moreover have "0 \<le> fd" "fd < int NOPEN" using v by (auto simp: valid_def)
      ultimately show ?thesis
        using True free i less.prems by (subst fdupfd.simps) (simp add: Let_def)
    qed
  qed
qed


lemma closeonexec_step_keeps:
  assumes ok: "fd_ok s" and i: "i < length (fdvecs s)" and fd: "fd < NOPEN"
  shows "\<exists>s'. closeonexec_step i fd s = Some s' \<and> fd_ok s' \<and> length (fdvecs s') = length (fdvecs s) \<and>
    vec (fdvecs s' ! i) = (if bitval (closemap (fdvecs s ! i)) fd then (vec (fdvecs s ! i))[fd := 0] else vec (fdvecs s ! i)) \<and>
    (\<forall>j<NOPEN. bitval (closemap (fdvecs s' ! i)) j \<longleftrightarrow> bitval (closemap (fdvecs s ! i)) j \<and> j \<noteq> fd)"
proof -
  define v where "v = fdvecs s ! i"
  have t: "table_ok v" using fd_okD(3) [OF ok i] by (simp add: v_def)
  then have lc: "length (closemap v) = 2" by (simp add: table_ok_def)
  have tst: "bitmap_tl_tst NOPEN (closemap v) (int fd) = Some (if bitval (closemap v) fd then -1 else 0)"
    using tl_tst_spec [OF lc, of "int fd"] fd by simp
  show ?thesis
  proof (cases "bitval (closemap v) fd")
    case False
    then have "closeonexec_step i fd s = Some s" using tst by (simp add: closeonexec_step_def v_def)
    then show ?thesis using ok False by (auto simp: v_def)
  next
    case True
    define p where "p = vec v ! fd"
    have p0: "p \<noteq> 0" using t True fd by (simp add: table_ok_def p_def)
    obtain cm where cm: "bitmap_tl_clr NOPEN (closemap v) (int fd) = Some cm" "length cm = 2"
        "\<forall>j<NOPEN. bitval cm j = (if j = nat (int fd) then False else bitval (closemap v) j)"
      using tl_clr_spec [OF lc, of "int fd"] fd by (metis of_nat_0_le_iff of_nat_less_iff)
    define s0 where "s0 = set_vec i (v\<lparr>closemap := cm\<rparr>) s"
    have s0: "fdvecs s0 = (fdvecs s)[i := v\<lparr>closemap := cm\<rparr>]" by (simp add: s0_def)
    have r0: "refs_ok (\<lambda>_. 0) s0"
      by (rule refs_same [OF fd_okD(1) [OF ok]]) (use i in \<open>auto intro!: nref_same simp: s0_def map_update v_def list_update_same_conv\<close>)
    have w0: "vecs_wf s0" using wf_upd [OF fd_okD(2) [OF ok]] t cm(2) by (simp add: s0_def table_ok_def)
    have i0: "i < length (fdvecs s0)" "p = vec (fdvecs s0 ! i) ! fd" using i by (simp_all add: s0 p_def)
    obtain s1 where s1: "lose p s0 = Some s1" "refs_ok (\<lambda>_. 0) (set_slot i fd 0 s1)" "fdvecs s1 = fdvecs s0"
      using drop_slot [OF r0 w0 i0(1) fd i0(2) p0] by (elim exE conjE) rule
    define s' where "s' = set_slot i fd 0 s1"
    have v': "fdvecs s' = (fdvecs s)[i := v\<lparr>closemap := cm, vec := (vec v)[fd := 0]\<rparr>]"
      using i by (simp add: s'_def s1(3) s0)
    have "table_ok (v\<lparr>closemap := cm, vec := (vec v)[fd := 0]\<rparr>)"
      using t cm(2,3) fd by (auto simp: table_ok_def nth_list_update)
    then have "fd_ok s'"
      using ok s1(2) tables_upd unfolding fd_ok_tables v' by (auto simp: s'_def)
    moreover have "closeonexec_step i fd s = Some s'"
      using tst True p0 cm(1) s1(1)
      by (simp add: closeonexec_step_def v_def [symmetric] p_def [symmetric] Let_def s0_def s'_def)
    ultimately show ?thesis using v' True i cm(3) by (auto simp: v_def)
  qed
qed

lemma closeonexec_loop_keeps:
  "fd_ok s \<Longrightarrow> i < length (fdvecs s) \<Longrightarrow> set fds \<subseteq> {..<NOPEN} \<Longrightarrow>
   \<exists>s'. for_fds (closeonexec_step i) fds s = Some s' \<and> fd_ok s' \<and> length (fdvecs s') = length (fdvecs s) \<and>
    (\<forall>j<NOPEN. vec (fdvecs s' ! i) ! j =
       (if j \<in> set fds \<and> bitval (closemap (fdvecs s ! i)) j then 0 else vec (fdvecs s ! i) ! j)) \<and>
    (\<forall>j<NOPEN. bitval (closemap (fdvecs s' ! i)) j \<longleftrightarrow> bitval (closemap (fdvecs s ! i)) j \<and> j \<notin> set fds)"
proof (induction fds arbitrary: s)
  case (Cons fd fds)
  have fd: "fd < NOPEN" using Cons.prems(3) by simp
  obtain s1 where s1: "closeonexec_step i fd s = Some s1" "fd_ok s1" "length (fdvecs s1) = length (fdvecs s)"
      "vec (fdvecs s1 ! i) = (if bitval (closemap (fdvecs s ! i)) fd then (vec (fdvecs s ! i))[fd := 0] else vec (fdvecs s ! i))"
      "\<forall>j<NOPEN. bitval (closemap (fdvecs s1 ! i)) j \<longleftrightarrow> bitval (closemap (fdvecs s ! i)) j \<and> j \<noteq> fd"
    using closeonexec_step_keeps [OF Cons.prems(1,2) fd] by (elim exE conjE) rule
  have len: "length (vec (fdvecs s ! i)) = NOPEN"
    using fd_okD(3) [OF Cons.prems(1,2)] by (simp add: table_ok_def)
  obtain s' where s': "for_fds (closeonexec_step i) fds s1 = Some s'" "fd_ok s'"
      "length (fdvecs s') = length (fdvecs s1)"
      "\<forall>j<NOPEN. vec (fdvecs s' ! i) ! j =
       (if j \<in> set fds \<and> bitval (closemap (fdvecs s1 ! i)) j then 0 else vec (fdvecs s1 ! i) ! j)"
      "\<forall>j<NOPEN. bitval (closemap (fdvecs s' ! i)) j \<longleftrightarrow> bitval (closemap (fdvecs s1 ! i)) j \<and> j \<notin> set fds"
    using Cons.IH [OF s1(2)] s1(3) Cons.prems(2,3) by auto
  show ?case
    using s1 s' len fd by (intro exI [of _ s']) (auto simp: nth_list_update)
qed auto

lemma hold_eq:
  "refs_ok X s \<Longrightarrow> files s p = Some f \<Longrightarrow> p \<noteq> 0 \<Longrightarrow> hold p s = refcnt_inc p s"
  by (auto simp: hold_def refcnt_inc_def refs_ok_def less_imp_le)

lemma clone_loop_keeps:
  "fd_ok s \<Longrightarrow> i < length (fdvecs s) \<Longrightarrow> x < length (fdvecs s) \<Longrightarrow> x \<noteq> i \<Longrightarrow> set fds \<subseteq> {..<NOPEN} \<Longrightarrow> distinct fds \<Longrightarrow>
   \<forall>j\<in>set fds. vec (fdvecs s ! x) ! j = 0 \<Longrightarrow>
   \<exists>s'. for_fds (clone_step i x) fds s = Some s' \<and> fd_ok s' \<and> length (fdvecs s') = length (fdvecs s) \<and>
    (\<forall>k. k \<noteq> x \<longrightarrow> fdvecs s' ! k = fdvecs s ! k) \<and> closemap (fdvecs s' ! x) = closemap (fdvecs s ! x) \<and>
    (\<forall>j<NOPEN. vec (fdvecs s' ! x) ! j = (if j \<in> set fds then vec (fdvecs s ! i) ! j else vec (fdvecs s ! x) ! j))"
proof (induction fds arbitrary: s)
  case (Cons fd fds)
  let ?p = "vec (fdvecs s ! i) ! fd"
  have fd: "fd < NOPEN" "vec (fdvecs s ! x) ! fd = 0" using Cons.prems(5,7) by simp_all
  have len: "length (vec (fdvecs s ! x)) = NOPEN"
    using fd_okD(3) [OF Cons.prems(1,3)] by (simp add: table_ok_def)
  obtain s1 where s1: "clone_step i x fd s = Some s1" "fd_ok s1"
      "fdvecs s1 = (fdvecs s)[x := (fdvecs s ! x)\<lparr>vec := (vec (fdvecs s ! x))[fd := ?p]\<rparr>]"
  proof (cases "?p = 0")
    case True
    then have e: "set_slot x fd 0 s = s"
      using fd(2) list_update_id [of "vec (fdvecs s ! x)" fd] by (simp add: set_slot_def set_vec_def)
    moreover have "(vec (fdvecs s ! x))[fd := 0] = vec (fdvecs s ! x)"
      using fd(2) list_update_id [of "vec (fdvecs s ! x)" fd] by simp
    ultimately show ?thesis using that [of s] Cons.prems(1) True by (simp add: clone_step_def)
  next
    case False
    obtain f where f: "files s ?p = Some f"
      using slot_file [OF fd_okD(1,2) [OF Cons.prems(1)] Cons.prems(2) fd(1) False] by auto
    have "hold ?p (set_slot x fd ?p s) = refcnt_inc ?p (set_slot x fd ?p s)"
      using refs_set_slot [OF fd_okD(1,2) [OF Cons.prems(1)] Cons.prems(3) fd(1)] f False by (intro hold_eq) auto
    then show ?thesis
      using fill_slot [OF Cons.prems(1,3) fd(1,2) False f] that False by (auto simp: clone_step_def Let_def)
  qed
  have "\<forall>j\<in>set fds. vec (fdvecs s1 ! x) ! j = 0"
    using Cons.prems(3,6,7) fd len by (auto simp: s1(3) nth_list_update)
  then obtain s' where s': "for_fds (clone_step i x) fds s1 = Some s'" "fd_ok s'"
      "length (fdvecs s') = length (fdvecs s1)" "\<forall>k. k \<noteq> x \<longrightarrow> fdvecs s' ! k = fdvecs s1 ! k"
      "closemap (fdvecs s' ! x) = closemap (fdvecs s1 ! x)"
      "\<forall>j<NOPEN. vec (fdvecs s' ! x) ! j = (if j \<in> set fds then vec (fdvecs s1 ! i) ! j else vec (fdvecs s1 ! x) ! j)"
    using Cons.IH [OF s1(2)] Cons.prems(2-6) by (auto simp: s1(3))
  show ?case
    using s1 s' len fd Cons.prems(3,4,6) by (intro exI [of _ s']) (auto simp: nth_list_update)
qed simp


lemma closeonexec_keeps:
  assumes "fd_ok s" and "i < length (fdvecs s)"
  shows "\<exists>s'. closeonexec i s = Some s' \<and> fd_ok s' \<and> length (fdvecs s') = length (fdvecs s) \<and>
    (\<forall>j<NOPEN. \<not> bitval (closemap (fdvecs s' ! i)) j \<and> vec (fdvecs s' ! i) ! j =
       (if bitval (closemap (fdvecs s ! i)) j then 0 else vec (fdvecs s ! i) ! j))"
proof -
  have "set [0..<NOPEN] \<subseteq> {..<NOPEN}" by auto
  from closeonexec_loop_keeps [OF assms this] show ?thesis
    unfolding closeonexec_def by (elim exE conjE) (intro exI conjI, assumption+, simp)
qed

lemma clone_keeps:
  assumes ok: "fd_ok s" and i: "i < length (fdvecs s)"
  shows "\<exists>s'. clone i s = Some (length (fdvecs s), s') \<and> fd_ok s' \<and> length (fdvecs s') = Suc (length (fdvecs s)) \<and>
    (\<forall>k<length (fdvecs s). fdvecs s' ! k = fdvecs s ! k) \<and>
    vec (fdvecs s' ! length (fdvecs s)) = vec (fdvecs s ! i) \<and> closemap (fdvecs s' ! length (fdvecs s)) = [0, 0]"
proof -
  define x where "x = length (fdvecs s)"
  define s0 where "s0 = s\<lparr>fdvecs := fdvecs s @ [fdvec_ctor]\<rparr>"
  have bv: "\<not> bitval [0, 0] j" if "j < NOPEN" for j
    using that by (auto simp: bitval_def NOPEN_def nth_Cons' less_mult_imp_div_less)
  have "nref s0 p = nref s p" if "p \<noteq> 0" for p
    using that by (auto simp: nref_def s0_def fdvec_ctor_def count_list_0_iff)
  then have "refs_ok (\<lambda>_. 0) s0"
    using fd_okD(1) [OF ok] by (auto simp: refs_ok_def fcount_def s0_def)
  moreover have "table_ok fdvec_ctor" using bv by (simp add: table_ok_def fdvec_ctor_def)
  ultimately have ok0: "fd_ok s0" using ok by (simp add: fd_ok_tables s0_def)
  have i0: "i < length (fdvecs s0)" "x < length (fdvecs s0)" "x \<noteq> i" using i by (simp_all add: s0_def x_def)
  have new: "fdvecs s0 ! x = fdvec_ctor" "fdvecs s0 ! i = fdvecs s ! i" using i by (simp_all add: s0_def x_def nth_append)
  have fds: "set [0..<NOPEN] \<subseteq> {..<NOPEN}" "distinct [0..<NOPEN]" "\<forall>j\<in>set [0..<NOPEN]. vec (fdvecs s0 ! x) ! j = 0"
    by (auto simp: new fdvec_ctor_def)
  obtain s' where s': "for_fds (clone_step i x) [0..<NOPEN] s0 = Some s'" "fd_ok s'" "length (fdvecs s') = length (fdvecs s0)"
      "\<forall>k. k \<noteq> x \<longrightarrow> fdvecs s' ! k = fdvecs s0 ! k" "closemap (fdvecs s' ! x) = closemap (fdvecs s0 ! x)"
      "\<forall>j<NOPEN. vec (fdvecs s' ! x) ! j = (if j \<in> set [0..<NOPEN] then vec (fdvecs s0 ! i) ! j else vec (fdvecs s0 ! x) ! j)"
    using clone_loop_keeps [OF ok0 i0 fds] by (elim exE conjE) rule
  have "length (vec (fdvecs s' ! x)) = NOPEN" "length (vec (fdvecs s ! i)) = NOPEN"
    using fd_okD(3) [OF s'(2), of x] fd_okD(3) [OF ok i] i0 s'(3) by (simp_all add: table_ok_def)
  then have "vec (fdvecs s' ! x) = vec (fdvecs s ! i)"
    using s'(6) new(2) by (intro nth_equalityI) auto
  moreover have "fdvecs s' ! k = fdvecs s ! k" if "k < length (fdvecs s)" for k
    using s'(4) that by (simp add: s0_def x_def nth_append)
  ultimately show ?thesis
    using s' new(1) by (simp add: clone_def x_def [symmetric] s0_def [symmetric] fdvec_ctor_def Let_def)
       (simp add: s0_def x_def)
qed

lemma install_keeps:
  assumes ok: "fd_ok s" and i: "i < length (fdvecs s)" and p: "p \<noteq> 0" "files s p = None"
  shows "\<exists>e s'. install i p f s = Some (e, s') \<and> fd_ok s' \<and> length (fdvecs s') = length (fdvecs s) \<and>
    (if 0 \<notin> set (vec (fdvecs s ! i)) then e = EMFILE \<and> files s' = files s \<and> fdvecs s' = fdvecs s
     else 0 \<le> e \<and> e < int NOPEN \<and> vec (fdvecs s ! i) ! nat e = 0 \<and> (\<forall>l<nat e. vec (fdvecs s ! i) ! l \<noteq> 0) \<and>
       vec (fdvecs s' ! i) = (vec (fdvecs s ! i))[nat e := p])"
proof -
  let ?v = "vec (fdvecs s ! i)"
  define s0 where "s0 = set_file p (Some (f\<lparr>fd_refcnt := 1\<rparr>)) s"
  have "nref s p = 0" using refs_count [OF fd_okD(1) [OF ok] p(1)] p(2) by (simp add: fcount_def)
  then have r0: "refs_ok (bump p 1 (\<lambda>_. 0)) s0"
    using fd_okD(1) [OF ok] unfolding refs_ok_def by (auto simp: fcount_def s0_def bump_def)
  have w0: "vecs_wf s0" using fd_okD(2) [OF ok] by (simp add: s0_def vecs_wf_def)
  have t: "table_ok (fdvecs s ! i)" using fd_okD(3) [OF ok i] .
  then have len: "length ?v = NOPEN" by (simp add: table_ok_def)
  have gs: "getslot i s0 = getslot i s" by (simp add: getslot_def s0_def)
  from getslot_spec [OF len] show ?thesis
  proof (elim disjE exE conjE)
    assume "getslot i s = EMFILE" and full: "0 \<notin> set ?v"
    then have "put i p s0 = (EMFILE, s0)" by (simp add: put_def gs errno_simps)
    moreover have "lose p s0 = Some (set_file p None s0)" by (simp add: lose_def s0_def)
    moreover have "set_file p None s0 = s" using p(2) by (simp add: s0_def set_file_def fun_upd_idem)
    ultimately show ?thesis using full ok by (simp add: install_def s0_def [symmetric] errno_simps)
  next
    fix j assume j: "j < NOPEN" "getslot i s = int j" "?v ! j = 0" "\<forall>l<j. ?v ! l \<noteq> 0"
    define s1 where "s1 = set_slot i j p s0"
    have "refs_ok (bump (vec (fdvecs s0 ! i) ! j) 1 (bump p (-1) (bump p 1 (\<lambda>_. 0)))) s1"
      using refs_set_slot [OF r0 w0 _ j(1), of i p] i by (simp add: s1_def s0_def)
    then have "refs_ok (\<lambda>_. 0) s1"
      by (rule refs_cong) (use j(3) in \<open>auto simp: bump_def s0_def\<close>)
    moreover have "table_ok ((fdvecs s ! i)\<lparr>vec := ?v[j := p]\<rparr>)"
      using t p(1) j(1) len by (auto simp: table_ok_def nth_list_update)
    ultimately have "fd_ok s1"
      using ok tables_upd by (auto simp: fd_ok_tables s1_def s0_def)
    moreover have "0 \<in> set ?v" using j(1,3) len by (metis nth_mem)
    ultimately show ?thesis
      using j i by (simp add: install_def s0_def [symmetric] put_def gs s1_def) (simp add: s0_def)
  qed
qed


lemma getpair_loop_one:
  "getpair_loop ps k [x] = Inl EMFILE \<or> (\<exists>b<length ps. getpair_loop ps k [x] = Inr [x, k + int b] \<and> ps ! b = 0)"
proof (induction ps arbitrary: k)
  case (Cons p ps)
  show ?case
  proof (cases "p = 0")
    case False
    from Cons.IH [of "k + 1"] show ?thesis
    proof (elim disjE exE conjE)
      fix b assume "b < length ps" "getpair_loop ps (k + 1) [x] = Inr [x, k + 1 + int b]" "ps ! b = 0"
      then show ?thesis using False by (intro disjI2 exI [of _ "Suc b"]) simp
    qed (use False in simp)
  qed auto
qed simp

lemma getpair_loop_spec:
  "getpair_loop ps k [] = Inl EMFILE \<or>
   (\<exists>a b. a < b \<and> b < length ps \<and> getpair_loop ps k [] = Inr [k + int a, k + int b] \<and> ps ! a = 0 \<and> ps ! b = 0)"
proof (induction ps arbitrary: k)
  case (Cons p ps)
  show ?case
  proof (cases "p = 0")
    case True
    from getpair_loop_one [of ps "k + 1" k] show ?thesis
    proof (elim disjE exE conjE)
      fix b assume "b < length ps" "getpair_loop ps (k + 1) [k] = Inr [k, k + 1 + int b]" "ps ! b = 0"
      then show ?thesis using True by (intro disjI2 exI [of _ 0] exI [of _ "Suc b"]) simp
    qed (use True in simp)
  next
    case False
    from Cons.IH [of "k + 1"] show ?thesis
    proof (elim disjE exE conjE)
      fix a b assume "a < b" "b < length ps" "getpair_loop ps (k + 1) [] = Inr [k + 1 + int a, k + 1 + int b]" "ps ! a = 0" "ps ! b = 0"
      then show ?thesis using False by (intro disjI2 exI [of _ "Suc a"] exI [of _ "Suc b"]) simp
    qed (use False in simp)
  qed
qed simp

lemma new_file_owed:
  assumes "refs_ok X s" "p \<noteq> 0" "files s p = None" "X p = 0"
  shows "refs_ok (bump p 1 X) (set_file p (Some (f\<lparr>fd_refcnt := 1\<rparr>)) s)"
proof -
  have "nref s p = 0" using refs_count [OF assms(1,2)] assms(3,4) by (simp add: fcount_def)
  then show ?thesis using assms by (auto simp: refs_ok_def fcount_def bump_def)
qed

lemma install_pair_keeps:
  assumes ok: "fd_ok s" and i: "i < length (fdvecs s)" and p: "p0 \<noteq> 0" "p1 \<noteq> 0" "p0 \<noteq> p1" "files s p0 = None" "files s p1 = None"
  shows "\<exists>e s'. install_pair i p0 p1 f0 f1 s = Some (e, s') \<and> fd_ok s'"
proof -
  let ?v = "vec (fdvecs s ! i)"
  define s0 where "s0 = set_file p1 (Some (f1\<lparr>fd_refcnt := 1\<rparr>)) (set_file p0 (Some (f0\<lparr>fd_refcnt := 1\<rparr>)) s)"
  have "refs_ok (bump p0 1 (\<lambda>_. 0)) (set_file p0 (Some (f0\<lparr>fd_refcnt := 1\<rparr>)) s)"
    by (rule new_file_owed [OF fd_okD(1) [OF ok] p(1,4)]) simp
  then have r0: "refs_ok (bump p1 1 (bump p0 1 (\<lambda>_. 0))) s0"
    unfolding s0_def by (rule new_file_owed) (use p in \<open>simp_all add: bump_def\<close>)
  have w0: "vecs_wf s0" and f0: "fdvecs s0 = fdvecs s" using fd_okD(2) [OF ok] by (simp_all add: s0_def vecs_wf_def)
  have t: "table_ok (fdvecs s ! i)" using fd_okD(3) [OF ok i] .
  then have len: "length ?v = NOPEN" by (simp add: table_ok_def)
  have gp: "getpair i s0 = getpair_loop ?v 0 []" by (simp add: getpair_def f0)
  from getpair_loop_spec [of ?v 0] show ?thesis
  proof (elim disjE exE conjE)
    assume "getpair_loop ?v 0 [] = Inl EMFILE"
    then have "putpair i p0 p1 s0 = (Inl EMFILE, s0)" by (simp add: putpair_def gp)
    moreover have "lose p0 s0 = Some (set_file p0 None s0)" "lose p1 (set_file p0 None s0) = Some (set_file p1 None (set_file p0 None s0))"
      using p(3) by (simp_all add: lose_def s0_def)
    moreover have "set_file p1 None (set_file p0 None s0) = s"
      using p(3-5) by (simp add: s0_def set_file_def fun_upd_twist fun_upd_idem)
    ultimately show ?thesis using ok by (simp add: install_pair_def s0_def [symmetric])
  next
    fix a b assume ab: "a < b" "b < length ?v" "getpair_loop ?v 0 [] = Inr [0 + int a, 0 + int b]" "?v ! a = 0" "?v ! b = 0"
    define s1 where "s1 = set_slot i a p0 s0"
    define s2 where "s2 = set_slot i b p1 s1"
    have n: "a < NOPEN" "b < NOPEN" using ab len by simp_all
    have r1: "refs_ok (bump (vec (fdvecs s0 ! i) ! a) 1 (bump p0 (-1) (bump p1 1 (bump p0 1 (\<lambda>_. 0))))) s1"
      using refs_set_slot [OF r0 w0 _ n(1), of i p0] i by (simp add: s1_def f0)
    have t1: "table_ok ((fdvecs s ! i)\<lparr>vec := ?v[a := p0]\<rparr>)" "table_ok ((fdvecs s ! i)\<lparr>vec := ?v[a := p0, b := p1]\<rparr>)"
      using t p(1,2) n len by (auto simp: table_ok_def nth_list_update)
    have v1: "fdvecs s1 = (fdvecs s)[i := (fdvecs s ! i)\<lparr>vec := ?v[a := p0]\<rparr>]" by (simp add: s1_def f0)
    have "\<forall>v\<in>set (fdvecs s). table_ok v" using ok by (simp add: fd_ok_tables)
    then have ts: "\<forall>v\<in>set (fdvecs s1). table_ok v" unfolding v1 by (rule tables_upd [OF _ t1(1)])
    then have w1: "vecs_wf s1" by (auto simp: vecs_wf_def table_ok_def)
    have "refs_ok (bump (vec (fdvecs s1 ! i) ! b) 1 (bump p1 (-1) (bump (vec (fdvecs s0 ! i) ! a) 1 (bump p0 (-1) (bump p1 1 (bump p0 1 (\<lambda>_. 0))))))) s2"
      using refs_set_slot [OF r1 w1 _ n(2), of i p1] i by (simp add: s2_def v1)
    then have "refs_ok (\<lambda>_. 0) s2"
      by (rule refs_cong) (use ab i len in \<open>auto simp: bump_def f0 v1\<close>)
    moreover have "fdvecs s2 = (fdvecs s1)[i := (fdvecs s ! i)\<lparr>vec := ?v[a := p0, b := p1]\<rparr>]" using i by (simp add: s2_def v1)
    then have "\<forall>v\<in>set (fdvecs s2). table_ok v" using tables_upd [OF ts t1(2)] by simp
    ultimately have "fd_ok s2" by (simp add: fd_ok_tables)
    then show ?thesis using ab(3) by (simp add: install_pair_def s0_def [symmetric] putpair_def gp s1_def s2_def)
  qed
qed

lemma closeall_loop_keeps:
  "refs_ok (\<lambda>_. 0) s \<Longrightarrow> vecs_wf s \<Longrightarrow> i < length (fdvecs s) \<Longrightarrow> set fds \<subseteq> {..<NOPEN} \<Longrightarrow>
   \<exists>s'. for_fds (closeall_step i) fds s = Some s' \<and> refs_ok (\<lambda>_. 0) s' \<and> vecs_wf s' \<and> length (fdvecs s') = length (fdvecs s) \<and>
     (\<forall>k. k \<noteq> i \<longrightarrow> fdvecs s' ! k = fdvecs s ! k) \<and>
     (\<forall>j<NOPEN. vec (fdvecs s' ! i) ! j = (if j \<in> set fds then 0 else vec (fdvecs s ! i) ! j))"
proof (induction fds arbitrary: s)
  case (Cons fd fds)
  let ?v = "vec (fdvecs s ! i)"
  have fd: "fd < NOPEN" using Cons.prems(4) by simp
  have len: "length ?v = NOPEN" "length (closemap (fdvecs s ! i)) = 2" using Cons.prems(2,3) by (auto simp: vecs_wf_def)
  have "\<exists>s1. closeall_step i fd s = Some s1 \<and> refs_ok (\<lambda>_. 0) s1 \<and> fdvecs s1 = (fdvecs s)[i := (fdvecs s ! i)\<lparr>vec := ?v[fd := 0]\<rparr>]"
  proof (cases "?v ! fd = 0")
    case True
    then have "?v[fd := 0] = ?v" using list_update_id [of ?v fd] by simp
    then show ?thesis using Cons.prems(1) True by (simp add: closeall_step_def)
  next
    case False
    obtain s1 where "lose (?v ! fd) s = Some s1" "refs_ok (\<lambda>_. 0) (set_slot i fd 0 s1)" "fdvecs s1 = fdvecs s"
      using drop_slot [OF Cons.prems(1,2,3) fd refl False] by (elim exE conjE) rule
    then show ?thesis using False by (simp add: closeall_step_def Let_def)
  qed
  then obtain s1 where s1: "closeall_step i fd s = Some s1" "refs_ok (\<lambda>_. 0) s1" "fdvecs s1 = (fdvecs s)[i := (fdvecs s ! i)\<lparr>vec := ?v[fd := 0]\<rparr>]"
    by blast
  have "vecs_wf (set_vec i ((fdvecs s ! i)\<lparr>vec := ?v[fd := 0]\<rparr>) s)" by (rule wf_upd [OF Cons.prems(2)]) (simp_all add: len)
  then have w1: "vecs_wf s1" by (simp add: vecs_wf_def s1(3))
  obtain s' where "for_fds (closeall_step i) fds s1 = Some s'" "refs_ok (\<lambda>_. 0) s'" "vecs_wf s'" "length (fdvecs s') = length (fdvecs s1)"
     "\<forall>k. k \<noteq> i \<longrightarrow> fdvecs s' ! k = fdvecs s1 ! k"
     "\<forall>j<NOPEN. vec (fdvecs s' ! i) ! j = (if j \<in> set fds then 0 else vec (fdvecs s1 ! i) ! j)"
    using Cons.IH [OF s1(2) w1] Cons.prems(3,4) by (auto simp: s1(3))
  then show ?case using s1(1) Cons.prems(3) len by (intro exI [of _ s']) (auto simp: s1(3) nth_list_update)
qed simp

text \<open>A process that exits closes exactly its own descriptors.\<close>

lemma exit_fds_keeps:
  assumes ok: "fd_ok s" and i: "i < length (fdvecs s)"
  shows "\<exists>s'. exit_fds i s = Some s' \<and> fd_ok s' \<and> fdvecs s' = take i (fdvecs s) @ drop (Suc i) (fdvecs s)"
proof -
  have fds: "set [0..<NOPEN] \<subseteq> {..<NOPEN}" by auto
  obtain s1 where s1: "closeall i s = Some s1" "refs_ok (\<lambda>_. 0) s1" "vecs_wf s1" "length (fdvecs s1) = length (fdvecs s)"
     "\<forall>k. k \<noteq> i \<longrightarrow> fdvecs s1 ! k = fdvecs s ! k" "\<forall>j<NOPEN. vec (fdvecs s1 ! i) ! j = 0"
    using closeall_loop_keeps [OF fd_okD(1,2) [OF ok] i fds] by (auto simp: closeall_def)
  define s' where "s' = s1\<lparr>fdvecs := take i (fdvecs s1) @ drop (Suc i) (fdvecs s1)\<rparr>"
  have len: "length (vec (fdvecs s1 ! i)) = NOPEN" using s1(3,4) i by (auto simp: vecs_wf_def)
  have "nref s' p = nref s1 p" if "p \<noteq> 0" for p
  proof -
    have "p \<notin> set (vec (fdvecs s1 ! i))" using s1(6) len that by (auto simp: in_set_conv_nth)
    then have "count_list (vec (fdvecs s1 ! i)) p = 0" by (simp add: count_list_0_iff)
    moreover have "fdvecs s1 = take i (fdvecs s1) @ fdvecs s1 ! i # drop (Suc i) (fdvecs s1)"
      using i s1(4) by (intro id_take_nth_drop) simp
    then have "nref s1 p = (\<Sum>v\<leftarrow>take i (fdvecs s1) @ fdvecs s1 ! i # drop (Suc i) (fdvecs s1). int (count_list (vec v) p))"
      by (simp add: nref_def)
    ultimately show ?thesis by (simp add: nref_def s'_def)
  qed
  then have "refs_ok (\<lambda>_. 0) s'" using s1(2) by (simp add: refs_ok_def fcount_def s'_def)
  moreover have tab: "take i (fdvecs s1) = take i (fdvecs s)" "drop (Suc i) (fdvecs s1) = drop (Suc i) (fdvecs s)"
    using s1(4,5) by (auto intro!: nth_equalityI)
  then have "\<forall>v\<in>set (fdvecs s'). table_ok v" using ok by (auto simp: fd_ok_tables s'_def dest: in_set_takeD in_set_dropD)
  ultimately have "fd_ok s'" by (simp add: fd_ok_tables)
  then show ?thesis using s1(1) tab by (simp add: exit_fds_def s'_def)
qed

lemma sysfcntl_keeps:
  assumes ok: "fd_ok s" and i: "i < length (fdvecs s)" and neg: "cmd = 0 \<longrightarrow> 0 \<le> sint arg"
  shows "\<exists>e s'. sysfcntl False i fd cmd arg s = Some (e, s') \<and> fd_ok s' \<and> length (fdvecs s') = length (fdvecs s)"
proof (cases "valid i fd s")
  case False
  then show ?thesis using ok by (simp add: sysfcntl_def get_def)
next
  case True
  define v where "v = fdvecs s ! i"
  define p where "p = vec v ! nat fd"
  have g: "get i fd s = Inr p" using True by (simp add: get_def p_def v_def)
  have fd: "0 \<le> fd" "fd < int NOPEN" "p \<noteq> 0" using True by (auto simp: valid_def p_def v_def)
  have t: "table_ok v" using fd_okD(3) [OF ok i] by (simp add: v_def)
  then have lc: "length (closemap v) = 2" by (simp add: table_ok_def)
  have new_cm: "fd_ok (set_vec i (v\<lparr>closemap := cm\<rparr>) s)" if tk: "table_ok (v\<lparr>closemap := cm\<rparr>)" for cm
  proof -
    have "refs_ok (\<lambda>_. 0) (set_vec i (v\<lparr>closemap := cm\<rparr>) s)"
      by (rule refs_same [OF fd_okD(1) [OF ok]])
         (use i in \<open>auto intro!: nref_same simp: map_update v_def list_update_same_conv\<close>)
    then show ?thesis using ok tables_upd tk by (auto simp: fd_ok_tables)
  qed
  obtain f where f: "files s p = Some f" using valid_file [OF ok i True] by (auto simp: p_def v_def)
  have flags: "fd_ok (set_file p (Some (f\<lparr>fdflags := x\<rparr>)) s)" for x
  proof -
    have "fcount (set_file p (Some (f\<lparr>fdflags := x\<rparr>)) s) = fcount s" using f by (auto simp: fcount_def)
    then show ?thesis using ok f by (auto simp: fd_ok_tables refs_ok_def)
  qed
  consider "cmd = 0" | "cmd = 1" | "cmd = 2" | "cmd = 3" | "cmd = 4" | "cmd \<notin> {0, 1, 2, 3, 4}" by blast
  then show ?thesis
  proof cases
    case 1
    then show ?thesis using fdupfd_keeps [OF ok i True, of "sint arg"] neg g by (auto simp: sysfcntl_def)
  next
    case 2
    then show ?thesis using tl_tst_spec [OF lc fd(1,2)] g ok by (simp add: sysfcntl_def v_def)
  next
    case 3
    obtain cs cc where c: "bitmap_tl_set NOPEN (closemap v) fd = Some cs" "length cs = 2"
        "\<forall>j<NOPEN. bitval cs j = (if j = nat fd then True else bitval (closemap v) j)"
        "bitmap_tl_clr NOPEN (closemap v) fd = Some cc" "length cc = 2"
        "\<forall>j<NOPEN. bitval cc j = (if j = nat fd then False else bitval (closemap v) j)"
      using tl_set_spec [OF lc fd(1,2)] tl_clr_spec [OF lc fd(1,2)] by metis
    have "table_ok (v\<lparr>closemap := cs\<rparr>)" "table_ok (v\<lparr>closemap := cc\<rparr>)"
      using t c(2,3,5,6) fd(3) by (auto simp: table_ok_def p_def)
    then show ?thesis
      using 3 g c(1,4) new_cm by (simp add: sysfcntl_def v_def)
  next
    case 4
    then show ?thesis using g f ok by (simp add: sysfcntl_def)
  next
    case 5
    then show ?thesis using g f flags by (simp add: sysfcntl_def)
  next
    case 6
    then show ?thesis using g ok by (simp add: sysfcntl_def)
  qed
qed

subsection \<open>All processes together\<close>

datatype fd_op = FOpen nat fdes | FDup int | FDup2 int int | FClose int | FFcntl int int u32 | FPipe nat nat fdes fdes | FExec | FFork | FExit

fun fd_step :: "nat \<Rightarrow> fd_op \<Rightarrow> fdstate \<Rightarrow> fdstate option" where
  "fd_step i (FOpen p f) s = (if p \<noteq> 0 \<and> files s p = None then map_option snd (install i p f s) else Some s)"
| "fd_step i (FDup fd) s = map_option snd (sysdup False i fd s)"
| "fd_step i (FDup2 a b) s = map_option snd (sysdup2 False i a b s)"
| "fd_step i (FClose fd) s = map_option snd (sysclose i fd s)"
| "fd_step i (FFcntl fd cmd arg) s = map_option snd (sysfcntl False i fd cmd arg s)"
| "fd_step i (FPipe p0 p1 f0 f1) s = (if p0 \<noteq> 0 \<and> p1 \<noteq> 0 \<and> p0 \<noteq> p1 \<and> files s p0 = None \<and> files s p1 = None
     then map_option snd (install_pair i p0 p1 f0 f1 s) else Some s)"
| "fd_step i FExec s = closeonexec i s"
| "fd_step i FFork s = map_option snd (clone i s)"
| "fd_step i FExit s = exit_fds i s"

text \<open>The process numbers a trace names must exist; others are skipped.\<close>

fun fd_run :: "(nat \<times> fd_op) list \<Rightarrow> fdstate \<Rightarrow> fdstate option" where
  "fd_run [] s = Some s"
| "fd_run ((i, x) # ops) s =
     (if i < length (fdvecs s) then do { s1 \<leftarrow> fd_step i x s; fd_run ops s1 } else fd_run ops s)"

fun fd_op_ok :: "fd_op \<Rightarrow> bool" where
  "fd_op_ok (FFcntl fd cmd arg) \<longleftrightarrow> (cmd = 0 \<longrightarrow> 0 \<le> sint arg)"
| "fd_op_ok _ \<longleftrightarrow> True"

lemma fd_step_keeps:
  assumes "fd_ok s" and "i < length (fdvecs s)" and "fd_op_ok x"
  shows "\<exists>s'. fd_step i x s = Some s' \<and> fd_ok s'"
proof (cases x)
  case (FOpen p f)
  then show ?thesis using install_keeps [OF assms(1,2), of p f] assms(1) by auto
next
  case (FDup fd)
  then show ?thesis using dup_keeps [OF assms(1,2), of fd] by (auto simp: sysdup_def)
next
  case (FDup2 a b)
  then show ?thesis using dup2_keeps [OF assms(1,2), of a b] by (auto simp: sysdup2_def)
next
  case (FClose fd)
  then show ?thesis using close_keeps [OF assms(1,2), of fd] by (auto simp: sysclose_def)
next
  case (FFcntl fd cmd arg)
  then show ?thesis using sysfcntl_keeps [OF assms(1,2), of cmd arg fd] assms(3) by auto
next
  case (FPipe p0 p1 f0 f1)
  then show ?thesis using install_pair_keeps [OF assms(1,2), of p0 p1 f0 f1] assms(1) by fastforce
next
  case FExit
  then show ?thesis using exit_fds_keeps [OF assms(1,2)] by auto
next
  case FExec
  then show ?thesis using closeonexec_keeps [OF assms(1,2)] by auto
next
  case FFork
  then show ?thesis using clone_keeps [OF assms(1,2)] by auto
qed

lemma fd_run_keeps:
  "fd_ok s \<Longrightarrow> \<forall>(i, x)\<in>set ops. fd_op_ok x \<Longrightarrow> \<exists>s'. fd_run ops s = Some s' \<and> fd_ok s'"
proof (induction ops arbitrary: s)
  case (Cons a ops)
  obtain i x where a: "a = (i, x)" by (cases a)
  show ?case
  proof (cases "i < length (fdvecs s)")
    case True
    obtain s1 where "fd_step i x s = Some s1" "fd_ok s1"
      using fd_step_keeps [OF Cons.prems(1) True, of x] Cons.prems(2) a by auto
    then show ?thesis using Cons.IH [of s1] Cons.prems(2) a True by simp
  qed (use Cons a in auto)
qed simp


subsection \<open>File objects as counted objects\<close>

definition file_new :: "int \<Rightarrow> nat \<Rightarrow> fdstate \<Rightarrow> (nat option \<times> fdstate) option" where
  "file_new flags p s = (if p = 0 \<or> files s p \<noteq> None then Some (None, s)
     else Some (Some p, set_file p (Some \<lparr>fdtype = 0, fdflags = flags, fd_refcnt = 1\<rparr>) s))"

definition file_refs :: "fdstate \<Rightarrow> nat \<Rightarrow> nat" where
  "file_refs s p = (if p = 0 then 0 else nat (fcount s p))"

definition files_pos :: "fdstate \<Rightarrow> bool" where
  "files_pos s \<longleftrightarrow> (\<forall>p f. files s p = Some f \<longrightarrow> 0 < fd_refcnt f)"

lemma file_set_pos:
  "files_pos s \<Longrightarrow> 0 < fd_refcnt f \<Longrightarrow> files_pos (set_file p (Some f) s)"
  "files_pos s \<Longrightarrow> files_pos (set_file p None s)"
  by (auto simp: files_pos_def)

lemma file_refs_set:
  "p \<noteq> 0 \<Longrightarrow> file_refs (set_file p v s) = (file_refs s)(p := (case v of None \<Rightarrow> 0 | Some f \<Rightarrow> nat (fd_refcnt f)))"
  by (auto simp: file_refs_def fcount_def fun_eq_iff split: option.splits)

interpretation file_objs: refcounted files_pos "\<lambda>_. True" file_refs "\<lambda>a. file_new 3 (nat a)" hold lose
proof unfold_locales
  fix s fl
  assume a: "files_pos s"
  show "file_new 3 (nat fl) s = Some (None, s) \<or>
      (\<exists>p s'. file_new 3 (nat fl) s = Some (Some p, s') \<and> files_pos s' \<and> file_refs s p = 0 \<and>
        file_refs s' = (file_refs s)(p := 1))"
    using a by (auto simp: file_new_def files_pos_def file_refs_def fcount_def fun_eq_iff)
next
  fix s p
  assume a: "files_pos s" "0 < file_refs s p"
  then obtain f where "files s p = Some f" "p \<noteq> 0" "0 < fd_refcnt f" "0 \<le> fd_refcnt f"
    by (auto simp: file_refs_def fcount_def split: option.splits if_splits)
  then show "\<exists>s'. hold p s = Some s' \<and> files_pos s' \<and> file_refs s' = (file_refs s)(p := file_refs s p + 1)"
    using file_set_pos [OF a(1)] file_refs_set
    by (simp add: hold_def) (simp add: file_refs_def fcount_def nat_add_distrib)
next
  fix s p
  assume a: "files_pos s" "0 < file_refs s p"
  then obtain f where "files s p = Some f" "p \<noteq> 0" "0 < fd_refcnt f" "0 \<le> fd_refcnt f"
    by (auto simp: file_refs_def fcount_def split: option.splits if_splits)
  then show "\<exists>s'. lose p s = Some s' \<and> files_pos s' \<and> file_refs s' = (file_refs s)(p := file_refs s p - 1)"
    using file_set_pos [OF a(1)] file_refs_set
    by (simp add: lose_def Let_def) (simp add: file_refs_def fcount_def nat_diff_distrib)
qed

subsection \<open>Properties\<close>

definition demo_fdes :: fdes where
  "demo_fdes = \<lparr>fdtype = 1, fdflags = 1, fd_refcnt = 1\<rparr>"

definition demo_fds :: fdstate where
  "demo_fds = \<lparr>files = (\<lambda>_. None)(7 := Some \<lparr>fdtype = 2, fdflags = 3, fd_refcnt = 1\<rparr>),
     fdvecs = [\<lparr>vec = 7 # replicate 63 0, closemap = [0, 0]\<rparr>]\<rparr>"

lemma demo_fds_ok: "fd_ok demo_fds"
proof -
  have "\<not> bitval [0, 0] j" if "j < NOPEN" for j
    using that by (auto simp: bitval_def NOPEN_def nth_Cons' less_mult_imp_div_less)
  then have "table_ok \<lparr>vec = 7 # replicate 63 0, closemap = [0, 0]\<rparr>"
    by (simp add: table_ok_def NOPEN_def)
  moreover have "count_list (replicate 63 0) p = 0" if "p \<noteq> (0 :: nat)" for p
    using that by (simp add: count_list_0_iff)
  ultimately show ?thesis
    by (auto simp: fd_ok_tables refs_ok_def fcount_def nref_def demo_fds_def)
qed

text \<open>
  C3: Reference counts of open files are exact across processes.  Whatever sequence of
  \<^verbatim>\<open>open\<close> (the installation of a new file object), \<^verbatim>\<open>dup\<close>, \<^verbatim>\<open>dup2\<close>,
  \<^verbatim>\<open>close\<close>, \<^verbatim>\<open>fcntl\<close>, \<^verbatim>\<open>pipe\<close> (the installation of its two file objects), \<^verbatim>\<open>exec\<close> (close-on-exec),
  \<^verbatim>\<open>fork\<close> and \<^verbatim>\<open>exit\<close> (which closes everything) the processes make, no assertion fails, and at the end the count of every file object is the number of
  descriptors, over all tables, that refer to it: an object exists exactly as long as some
  descriptor does.  (\<^verbatim>\<open>F_DUPFD\<close> with an argument that is negative as an \<^verbatim>\<open>int\<close> is
  excluded: \<open>fcntl_dupfd_negative_faults\<close>.)
\<close>

theorem fd_refcounts_exact:
  assumes "fd_ok s" and "\<forall>(i, x)\<in>set ops. fd_op_ok x"
  shows "\<exists>s'. fd_run ops s = Some s' \<and> fd_ok s' \<and>
    (\<forall>p. p \<noteq> 0 \<longrightarrow> fcount s' p = nref s' p \<and> (files s' p = None \<longleftrightarrow> nref s' p = 0))"
proof -
  obtain s' where s': "fd_run ops s = Some s'" "fd_ok s'" using fd_run_keeps [OF assms] by blast
  have "fcount s' p = nref s' p \<and> (files s' p = None \<longleftrightarrow> nref s' p = 0)" if "p \<noteq> 0" for p
  proof -
    have e: "fcount s' p = nref s' p" using refs_count [OF fd_okD(1) [OF s'(2)] that] by simp
    moreover have "0 < fd_refcnt f" if "files s' p = Some f" for f
      using fd_okD(1) [OF s'(2)] that \<open>p \<noteq> 0\<close> by (auto simp: refs_ok_def)
    ultimately show ?thesis by (cases "files s' p") (fastforce simp: fcount_def)+
  qed
  with s' show ?thesis by blast
qed

theorem fd_refcounts_witness:
  "\<exists>s'. fd_run [(0, FFork), (1, FDup 0), (0, FClose 0), (1, FFcntl 0 2 1), (0, FPipe 3 4 demo_fdes demo_fdes), (1, FExec), (0, FExit)] demo_fds = Some s' \<and> fd_ok s'"
  using fd_refcounts_exact [OF demo_fds_ok,
      of "[(0, FFork), (1, FDup 0), (0, FClose 0), (1, FFcntl 0 2 1), (0, FPipe 3 4 demo_fdes demo_fdes), (1, FExec), (0, FExit)]"] by auto

text \<open>
  \<^verbatim>\<open>fcntl(fd, F_DUPFD, arg)\<close> on an open descriptor faults the kernel when \<open>arg\<close>, an
  unsigned long, is negative as an \<^verbatim>\<open>int\<close>: \<^verbatim>\<open>fdupfd\<close> has no lower bound check and
  indexes the table below its start.
\<close>

theorem fcntl_dupfd_negative_faults:
  assumes "valid i fd s" and "sint arg < 0"
  shows "sysfcntl False i fd 0 arg s = None"
  using assms by (simp add: sysfcntl_def get_def fdupfd.simps NOPEN_def)

theorem fcntl_dupfd_negative_witness: "sysfcntl False 0 0 0 0x80000000 demo_fds = None"
  by (rule fcntl_dupfd_negative_faults) (simp_all add: valid_def demo_fds_def NOPEN_def)

text \<open>
  \<^verbatim>\<open>dup2\<close>: a bad descriptor on either side is \<^verbatim>\<open>EBADF\<close> and changes nothing;
  otherwise the new descriptor, whatever it referred to before, refers to the file of the old one
  and no other descriptor changes.  \<^verbatim>\<open>close\<close>: a bad descriptor is \<^verbatim>\<open>EBADF\<close>; otherwise
  the slot is free afterwards and the file object is deleted exactly when this was the last
  descriptor that referred to it.
\<close>

theorem dup2_close_spec:
  assumes "fd_ok s" and "i < length (fdvecs s)"
  shows "(\<exists>e s'. dup2 i oldfd newfd s = Some (e, s') \<and>
      (if \<not> valid i oldfd s \<or> newfd < 0 \<or> newfd \<ge> int NOPEN then e = EBADF \<and> s' = s
       else e = newfd \<and> vec (fdvecs s' ! i) = (vec (fdvecs s ! i))[nat newfd := vec (fdvecs s ! i) ! nat oldfd])) \<and>
    (\<exists>e s'. close i newfd s = Some (e, s') \<and>
      (if \<not> valid i newfd s then e = EBADF \<and> s' = s
       else e = 0 \<and> vec (fdvecs s' ! i) = (vec (fdvecs s ! i))[nat newfd := 0] \<and>
         (files s' (vec (fdvecs s ! i) ! nat newfd) = None \<longleftrightarrow> nref s (vec (fdvecs s ! i) ! nat newfd) = 1) \<and>
         (\<forall>q. q \<noteq> vec (fdvecs s ! i) ! nat newfd \<longrightarrow> files s' q = files s q)))"
proof
  show "\<exists>e s'. dup2 i oldfd newfd s = Some (e, s') \<and>
      (if \<not> valid i oldfd s \<or> newfd < 0 \<or> newfd \<ge> int NOPEN then e = EBADF \<and> s' = s
       else e = newfd \<and> vec (fdvecs s' ! i) = (vec (fdvecs s ! i))[nat newfd := vec (fdvecs s ! i) ! nat oldfd])"
    using dup2_keeps [OF assms, of oldfd newfd] by (elim exE conjE) (intro exI conjI)
qed (use close_keeps [OF assms, of newfd] in \<open>elim exE conjE, intro exI conjI\<close>)

theorem dup2_close_witness:
  "(\<exists>s'. dup2 0 0 5 demo_fds = Some (5, s') \<and> vec (fdvecs s' ! 0) ! 5 = 7) \<and>
   (\<exists>s'. close 0 5 demo_fds = Some (EBADF, s'))"
proof -
  have "0 < length (fdvecs demo_fds)" "valid 0 0 demo_fds" "\<not> valid 0 5 demo_fds"
    by (simp_all add: demo_fds_def valid_def NOPEN_def)
  then show ?thesis
    using dup2_close_spec [OF demo_fds_ok, of 0 0 5] by (auto simp: NOPEN_def demo_fds_def)
qed

text \<open>
  \<^verbatim>\<open>clone\<close> (at fork) succeeds and gives the child the same descriptors, but none of the
  parent's close-on-exec marks: the child's bitmap is empty.  \<^verbatim>\<open>closeonexec\<close> closes exactly
  the marked descriptors and clears all marks.
\<close>

theorem clone_closeonexec_spec:
  assumes "fd_ok s" and "i < length (fdvecs s)"
  shows "(\<exists>s'. clone i s = Some (length (fdvecs s), s') \<and> fd_ok s' \<and>
      vec (fdvecs s' ! length (fdvecs s)) = vec (fdvecs s ! i) \<and>
      closemap (fdvecs s' ! length (fdvecs s)) = [0, 0]) \<and>
    (\<exists>s'. closeonexec i s = Some s' \<and> fd_ok s' \<and>
      (\<forall>j<NOPEN. \<not> bitval (closemap (fdvecs s' ! i)) j \<and> vec (fdvecs s' ! i) ! j =
         (if bitval (closemap (fdvecs s ! i)) j then 0 else vec (fdvecs s ! i) ! j)))"
proof
  show "\<exists>s'. clone i s = Some (length (fdvecs s), s') \<and> fd_ok s' \<and>
      vec (fdvecs s' ! length (fdvecs s)) = vec (fdvecs s ! i) \<and>
      closemap (fdvecs s' ! length (fdvecs s)) = [0, 0]"
    using clone_keeps [OF assms] by (elim exE conjE) (intro exI conjI)
qed (use closeonexec_keeps [OF assms] in \<open>elim exE conjE, intro exI conjI\<close>)

theorem clone_closeonexec_witness:
  "\<exists>s'. clone 0 demo_fds = Some (1, s') \<and> vec (fdvecs s' ! 1) = 7 # replicate 63 0"
proof -
  have "0 < length (fdvecs demo_fds)" "length (fdvecs demo_fds) = 1" by (simp_all add: demo_fds_def)
  then show ?thesis using clone_closeonexec_spec [OF demo_fds_ok, of 0] by (auto simp: demo_fds_def)
qed

end
