(* ===== verification/Kern_Task.thy ===== *)
theory Kern_Task
  imports Prelude Lib_Math
begin

text \<open>
  The process table shared by the theories of \<^verbatim>\<open>kern/\<close>: signal sets and actions
  (\<^verbatim>\<open>kern/signal.h\<close>), \<^verbatim>\<open>task_t\<close> (\<^verbatim>\<open>kern/sched.h\<close>), process groups and sessions
  (\<^verbatim>\<open>kern/pgrp.h\<close>), and one record \<open>kern\<close> for the global variables of \<^verbatim>\<open>kern/sched.cc\<close>,
  \<^verbatim>\<open>kern/taskdb.cc\<close> and \<^verbatim>\<open>kern/pgrp.cc\<close>.

  Objects are named by their addresses (natural numbers, 0 is \<^verbatim>\<open>NULL\<close>) and live in functions from
  addresses to records.  The intrusive queues are lists of addresses: \<^verbatim>\<open>Lib_Queue\<close> shows that the
  pointer operations implement the list operations used here.  The chain \<^verbatim>\<open>nextrun\<close>/\<^verbatim>\<open>prevrun\<close> of
  a task can be in one run queue or one wait queue at a time; the field \<open>t_runlink\<close> says in which,
  so that \<^verbatim>\<open>unlinkrun\<close>, which is given only the task, knows the queue it leaves.
\<close>

subsection \<open>Signal sets\<close>

abbreviation (input) SIGHUP :: int where "SIGHUP \<equiv> 1"
abbreviation (input) SIGKILL :: int where "SIGKILL \<equiv> 9"
abbreviation (input) SIGSEGV :: int where "SIGSEGV \<equiv> 11"
abbreviation (input) SIGPIPE :: int where "SIGPIPE \<equiv> 13"
abbreviation (input) SIGALRM :: int where "SIGALRM \<equiv> 14"
abbreviation (input) SIGCHLD :: int where "SIGCHLD \<equiv> 17"
abbreviation (input) SIGCONT :: int where "SIGCONT \<equiv> 18"
abbreviation (input) SIGSTOP :: int where "SIGSTOP \<equiv> 19"
abbreviation (input) SIGTSTP :: int where "SIGTSTP \<equiv> 20"
abbreviation (input) SIGTTIN :: int where "SIGTTIN \<equiv> 21"
abbreviation (input) SIGTTOU :: int where "SIGTTOU \<equiv> 22"

definition NSIG :: int where "NSIG = 32"

definition validsig :: "int \<Rightarrow> bool" where
  "validsig signo \<longleftrightarrow> signo > 0 \<and> signo < NSIG"

text \<open>\<^verbatim>\<open>1UL << --a\<close>: the processor takes the shift count modulo 32.\<close>

definition sigbit :: "int \<Rightarrow> u32" where
  "sigbit a = push_bit (nat ((a - 1) mod 32)) 1"

definition sigset_addset :: "u32 \<Rightarrow> u32 \<Rightarrow> u32" where
  "sigset_addset bits other = bits OR other"

definition sigset_delset :: "u32 \<Rightarrow> u32 \<Rightarrow> u32" where
  "sigset_delset bits other = bits AND NOT other"

definition contain :: "u32 \<Rightarrow> int \<Rightarrow> bool" where
  "contain bits a \<longleftrightarrow> bits AND sigbit a \<noteq> 0"

definition sigset_invalid :: "u32 \<Rightarrow> bool" where
  "sigset_invalid bits \<longleftrightarrow> contain bits SIGKILL \<or> contain bits SIGSTOP"

definition sigset_add :: "int \<Rightarrow> u32 \<Rightarrow> u32" where
  "sigset_add a bits = bits OR sigbit a"

definition sigset_add2 :: "int \<Rightarrow> int \<Rightarrow> u32 \<Rightarrow> u32" where
  "sigset_add2 a b bits = bits OR (sigbit a OR sigbit b)"

definition sigset_add3 :: "int \<Rightarrow> int \<Rightarrow> int \<Rightarrow> u32 \<Rightarrow> u32" where
  "sigset_add3 a b c bits = bits OR (sigbit a OR sigbit b OR sigbit c)"

definition sigset_add4 :: "int \<Rightarrow> int \<Rightarrow> int \<Rightarrow> int \<Rightarrow> u32 \<Rightarrow> u32" where
  "sigset_add4 a b c d bits = bits OR (sigbit a OR sigbit b OR sigbit c OR sigbit d)"

definition sigset_del :: "int \<Rightarrow> u32 \<Rightarrow> u32" where
  "sigset_del a bits = bits AND NOT (sigbit a)"

definition sigset_del2 :: "int \<Rightarrow> int \<Rightarrow> u32 \<Rightarrow> u32" where
  "sigset_del2 a b bits = bits AND (NOT (sigbit a) OR NOT (sigbit b))"

definition sigset_del3 :: "int \<Rightarrow> int \<Rightarrow> int \<Rightarrow> u32 \<Rightarrow> u32" where
  "sigset_del3 a b c bits = bits AND (NOT (sigbit a) OR NOT (sigbit b) OR NOT (sigbit c))"

definition sigset_del4 :: "int \<Rightarrow> int \<Rightarrow> int \<Rightarrow> int \<Rightarrow> u32 \<Rightarrow> u32" where
  "sigset_del4 a b c d bits =
     bits AND (NOT (sigbit a) OR NOT (sigbit b) OR NOT (sigbit c) OR NOT (sigbit d))"

text \<open>\<^verbatim>\<open>int del()\<close>: take out the lowest signal, \<open>-1\<close> when there is none.\<close>

definition sigset_delfirst :: "u32 \<Rightarrow> int \<times> u32" where
  "sigset_delfirst bits = (case bsf bits of
     None \<Rightarrow> (-1, bits)
   | Some idx \<Rightarrow> (int idx + 1, sigset_del (int idx + 1) bits))"

subsection \<open>Signal actions\<close>

abbreviation (input) SIGXDFL :: u32 where "SIGXDFL \<equiv> 0"
abbreviation (input) SIGXIGN :: u32 where "SIGXIGN \<equiv> 1"

record sigact =
  sa_func :: u32
  sa_mask :: u32
  sa_flags :: u32
  sa_restorer :: u32

subsection \<open>Tasks, process groups, sessions\<close>

datatype tstate = TRUN | TSLEEP | TWAIT | TZOMBIE | TSTOP

datatype runlink = Unlinked | OnRun nat | OnWait nat

definition TFWAITCHLDEXIT :: u32 where "TFWAITCHLDEXIT = 1"
definition TFUSEDMATH :: u32 where "TFUSEDMATH = 2"

record task =
  t_pid :: int
  t_uid :: u16
  t_euid :: u16
  t_suid :: u16
  t_gid :: u16
  t_egid :: u16
  t_sgid :: u16
  t_state :: tstate
  t_flags :: u32
  t_priority :: int
  t_counter :: int
  t_utick :: u32
  t_stick :: u32
  t_cutick :: u32
  t_cstick :: u32
  t_starttick :: u32
  t_sigset :: u32
  t_sigmask :: u32
  t_sigvec :: "sigact list"
  t_exitcode :: u32
  t_parent :: nat
  t_childq :: "nat list"
  t_pgrp :: nat
  t_runlink :: runlink

record pgrp =
  g_pgid :: int
  g_taskq :: "nat list"
  g_session :: nat

record session =
  s_sid :: int
  s_leader :: nat
  s_fg :: nat
  s_tty :: nat
  s_pgrpq :: "nat list"

record kern =
  k_tasks :: "nat \<Rightarrow> task"
  k_alltaskq :: "nat list"
  k_runtaskq :: "nat list list"
  k_waitqs :: "nat \<Rightarrow> nat list"
  k_mask :: u32
  k_needresched :: bool
  k_nlongjump :: u32
  k_curr :: nat
  k_idletask :: nat
  k_inittask :: nat
  k_hashtab :: "nat list list"
  k_lastpid :: int
  k_pgrps :: "nat \<Rightarrow> pgrp"
  k_sessions :: "nat \<Rightarrow> session"
  k_pghash :: "nat list list"
  k_allsessionq :: "nat list"
  k_passedtick :: u32

definition task_upd :: "nat \<Rightarrow> (task \<Rightarrow> task) \<Rightarrow> kern \<Rightarrow> kern" where
  "task_upd t f k = k\<lparr>k_tasks := (k_tasks k)(t := f (k_tasks k t))\<rparr>"

definition curr_task :: "kern \<Rightarrow> task" where
  "curr_task k = k_tasks k (k_curr k)"

definition suser :: "kern \<Rightarrow> bool" where
  "suser k \<longleftrightarrow> t_euid (curr_task k) = 0"

definition maskedsig :: "task \<Rightarrow> u32" where
  "maskedsig t = t_sigset t AND t_sigmask t"

definition unmaskedsig :: "task \<Rightarrow> u32" where
  "unmaskedsig t = t_sigset t AND NOT (t_sigmask t)"

definition hassig :: "task \<Rightarrow> bool" where
  "hassig t \<longleftrightarrow> unmaskedsig t \<noteq> 0"

subsection \<open>Lemmas on signal sets\<close>

lemma word_nonzero_bit: "w \<noteq> 0 \<longleftrightarrow> (\<exists>n. bit (w :: u32) n)"
  by (metis bit_0_eq bit_eqI bot_apply bot_bool_def)

lemma bit_sigbit [simp]: "bit (sigbit a) n \<longleftrightarrow> n = nat ((a - 1) mod 32)"
proof -
  have "nat ((a - 1) mod 32) < 32"
    by (simp add: nat_less_iff)
  then show ?thesis
    by (auto simp: sigbit_def bit_simps)
qed

lemma sigbit_idx: "validsig a \<Longrightarrow> nat ((a - 1) mod 32) = nat (a - 1)"
  by (simp add: validsig_def NSIG_def)

lemma contain_iff: "contain bits a \<longleftrightarrow> bit bits (nat ((a - 1) mod 32))"
proof -
  have "contain bits a \<longleftrightarrow> (\<exists>n. bit bits n \<and> bit (sigbit a) n)"
    by (simp only: contain_def word_nonzero_bit bit_and_iff)
  then show ?thesis by auto
qed

lemma sigbit_inj: "validsig a \<Longrightarrow> validsig b \<Longrightarrow> nat ((a - 1) mod 32) = nat ((b - 1) mod 32) \<longleftrightarrow> a = b"
  by (auto simp: validsig_def NSIG_def)

lemma contain_sigset:
  assumes "validsig a" "validsig b"
  shows "contain (sigset_add a bits) b \<longleftrightarrow> b = a \<or> contain bits b"
    and "contain (sigset_del a bits) b \<longleftrightarrow> b \<noteq> a \<and> contain bits b"
  using sigbit_inj [OF assms] by (auto simp: contain_iff sigset_add_def sigset_del_def bit_simps)

lemma contain_sets:
  "contain (sigset_addset bits other) b \<longleftrightarrow> contain bits b \<or> contain other b"
  "contain (sigset_delset bits other) b \<longleftrightarrow> contain bits b \<and> \<not> contain other b"
  "contain (bits AND NOT other) b \<longleftrightarrow> contain bits b \<and> \<not> contain other b"
  "contain (bits AND other) b \<longleftrightarrow> contain bits b \<and> contain other b"
  "\<not> contain 0 b"
proof -
  have n: "nat ((b - 1) mod 32) < 32" by (simp add: nat_less_iff)
  show "contain (sigset_addset bits other) b \<longleftrightarrow> contain bits b \<or> contain other b"
    by (simp add: contain_iff sigset_addset_def bit_simps)
  show "contain (sigset_delset bits other) b \<longleftrightarrow> contain bits b \<and> \<not> contain other b"
    and "contain (bits AND NOT other) b \<longleftrightarrow> contain bits b \<and> \<not> contain other b"
    using n by (auto simp: contain_iff sigset_delset_def bit_simps)
  show "contain (bits AND other) b \<longleftrightarrow> contain bits b \<and> contain other b"
    by (simp add: contain_iff bit_simps)
  show "\<not> contain 0 b" by (simp add: contain_iff)
qed

lemma sigset_delfirst_spec:
  assumes "sigset_delfirst bits = (signo, rest)"
  shows "bits = 0 \<Longrightarrow> signo = -1 \<and> rest = bits"
    and "bits \<noteq> 0 \<Longrightarrow> 0 < signo \<and> signo \<le> 32 \<and> bit bits (nat (signo - 1)) \<and>
      (\<forall>j < nat (signo - 1). \<not> bit bits j) \<and> rest = bits AND NOT (sigbit signo)"
proof -
  show "signo = -1 \<and> rest = bits" if "bits = 0"
    using that assms by (simp add: sigset_delfirst_def iffD2 [OF bsf_None])
  assume "bits \<noteq> 0"
  then obtain i where i: "bsf bits = Some i"
    using bsf_None [of bits] by auto
  then have b: "bit bits i" "\<forall>j < i. \<not> bit bits j"
    by (simp_all add: bsf_Some)
  have "i < 32" using bit_imp_le_length [OF b(1)] by simp
  then show "0 < signo \<and> signo \<le> 32 \<and> bit bits (nat (signo - 1)) \<and>
      (\<forall>j < nat (signo - 1). \<not> bit bits j) \<and> rest = bits AND NOT (sigbit signo)"
    using assms i b by (auto simp: sigset_delfirst_def sigset_del_def)
qed

lemma hassig_iff: "hassig t \<longleftrightarrow> (\<exists>n. bit (t_sigset t) n \<and> \<not> bit (t_sigmask t) n)"
proof -
  have "hassig t \<longleftrightarrow> (\<exists>n. bit (unmaskedsig t) n)"
    by (simp only: hassig_def word_nonzero_bit)
  also have "\<dots> \<longleftrightarrow> (\<exists>n. bit (t_sigset t) n \<and> \<not> bit (t_sigmask t) n)"
    using bit_imp_le_length [of "t_sigset t"] by (auto simp: unmaskedsig_def bit_simps)
  finally show ?thesis .
qed

subsection \<open>Lemmas on task updates\<close>

lemma task_upd_simps [simp]:
  "k_tasks (task_upd t f k) u = (if u = t then f (k_tasks k t) else k_tasks k u)"
  "k_alltaskq (task_upd t f k) = k_alltaskq k"
  "k_runtaskq (task_upd t f k) = k_runtaskq k"
  "k_waitqs (task_upd t f k) = k_waitqs k"
  "k_mask (task_upd t f k) = k_mask k"
  "k_needresched (task_upd t f k) = k_needresched k"
  "k_nlongjump (task_upd t f k) = k_nlongjump k"
  "k_curr (task_upd t f k) = k_curr k"
  "k_idletask (task_upd t f k) = k_idletask k"
  "k_inittask (task_upd t f k) = k_inittask k"
  "k_hashtab (task_upd t f k) = k_hashtab k"
  "k_lastpid (task_upd t f k) = k_lastpid k"
  "k_pgrps (task_upd t f k) = k_pgrps k"
  "k_sessions (task_upd t f k) = k_sessions k"
  "k_pghash (task_upd t f k) = k_pghash k"
  "k_allsessionq (task_upd t f k) = k_allsessionq k"
  "k_passedtick (task_upd t f k) = k_passedtick k"
  by (simp_all add: task_upd_def)

end
