(* ===== verification/Kern_Sched.thy ===== *)
theory Kern_Sched
  imports Kern_Task
begin

text \<open>
  The scheduler (\<^verbatim>\<open>kern/sched.cc\<close>) and the wait queues (\<^verbatim>\<open>kern/lock.h\<close>, \<^verbatim>\<open>kern/lock.cc\<close>): 32 run
  queues indexed by a task's remaining time quota, a mask with one bit per non-empty queue, the
  choice of the next task with the recharging of all quotas when every runnable task has used up
  its own, and going to sleep and waking up.

  \<open>sched_inv\<close> is the invariant \<^verbatim>\<open>checkmask()\<close> and \<^verbatim>\<open>checkwait()\<close> test at run time, extended by what
  makes the queues meaningful: a task is on the run queue of its counter exactly when it is
  runnable, and on one wait queue otherwise.  The theorems show that no sequence of scheduler
  operations breaks it, that no assertion of the scheduler fails, and that \<^verbatim>\<open>find()\<close> always
  returns, with a runnable task of the largest quota.
\<close>

subsection \<open>Run queues\<close>

definition NRUNTASKQ :: int where "NRUNTASKQ = 32"

definition enqrun :: "nat \<Rightarrow> kern \<Rightarrow> kern option" where
  "enqrun t k = (let c = t_counter (k_tasks k t) in do {
     kassert (between 0 c NRUNTASKQ);
     kassert (t_runlink (k_tasks k t) = Unlinked);
     Some ((task_upd t (\<lambda>x. x\<lparr>t_runlink := OnRun (nat c)\<rparr>) k)
       \<lparr>k_runtaskq := (k_runtaskq k)[nat c := k_runtaskq k ! nat c @ [t]],
        k_mask := k_mask k OR push_bit (nat c) 1\<rparr>) })"

text \<open>\<^verbatim>\<open>unlinkrun()\<close>: leave whatever run or wait queue the task is on.\<close>

definition unlinkrun :: "nat \<Rightarrow> kern \<Rightarrow> kern option" where
  "unlinkrun t k = (case t_runlink (k_tasks k t) of
     Unlinked \<Rightarrow> None
   | OnRun i \<Rightarrow> Some ((task_upd t (\<lambda>x. x\<lparr>t_runlink := Unlinked\<rparr>) k)
       \<lparr>k_runtaskq := (k_runtaskq k)[i := remove1 t (k_runtaskq k ! i)]\<rparr>)
   | OnWait q \<Rightarrow> Some ((task_upd t (\<lambda>x. x\<lparr>t_runlink := Unlinked\<rparr>) k)
       \<lparr>k_waitqs := (k_waitqs k)(q := remove1 t (k_waitqs k q))\<rparr>))"

definition deqrun :: "nat \<Rightarrow> kern \<Rightarrow> kern option" where
  "deqrun t k = (let c = t_counter (k_tasks k t) in do {
     kassert (between 0 c NRUNTASKQ);
     k1 \<leftarrow> unlinkrun t k;
     Some (if k_runtaskq k1 ! nat c = []
       then k1\<lparr>k_mask := k_mask k1 AND NOT (push_bit (nat c) 1)\<rparr> else k1) })"

definition setcounter :: "nat \<Rightarrow> int \<Rightarrow> kern \<Rightarrow> kern option" where
  "setcounter t newval k =
     (if t_state (k_tasks k t) \<noteq> TRUN then Some (task_upd t (\<lambda>x. x\<lparr>t_counter := newval\<rparr>) k)
      else do {
        k1 \<leftarrow> deqrun t k;
        enqrun t (task_upd t (\<lambda>x. x\<lparr>t_counter := newval\<rparr>) k1) })"

subsection \<open>Choosing the next task\<close>

definition checkmask :: "kern \<Rightarrow> bool" where
  "checkmask k \<longleftrightarrow> k_mask k \<noteq> 0 \<and>
     (\<forall>i\<in>set [0..<32]. bit (k_mask k) i \<longleftrightarrow> k_runtaskq k ! i \<noteq> [])"

definition checkwait :: "kern \<Rightarrow> bool" where
  "checkwait k \<longleftrightarrow>
     (\<forall>t\<in>set (k_alltaskq k). t_state (k_tasks k t) = TWAIT \<longrightarrow> \<not> hassig (k_tasks k t))"

definition newquota :: "nat \<Rightarrow> kern \<Rightarrow> int" where
  "newquota t k = (let newval = t_priority (k_tasks k t) + t_counter (k_tasks k t) * 2;
       newval = (if newval \<ge> NRUNTASKQ then NRUNTASKQ - 1 else newval)
     in if t = k_idletask k then 1 else newval)"

definition recharge :: "kern \<Rightarrow> kern option" where
  "recharge k = foldM (\<lambda>t k. setcounter t (newquota t k) k) (k_alltaskq k) k"

partial_function (option) find_loop :: "kern \<Rightarrow> (nat \<times> kern) option" where
  "find_loop k = (case bsr (k_mask k) of
     None \<Rightarrow> None
   | Some idx \<Rightarrow>
       if idx = 0 then Option.bind (recharge k) (\<lambda>k1. find_loop k1)
       else case k_runtaskq k ! idx of
         [] \<Rightarrow> None
       | t # ts \<Rightarrow> if t_state (k_tasks k t) = TRUN then Some (t, k) else None)"

definition find :: "kern \<Rightarrow> (nat \<times> kern) option" where
  "find k = do { kassert (checkwait k); kassert (checkmask k); find_loop k }"

definition sched :: "kern \<Rightarrow> kern option" where
  "sched k = do {
     (target, k1) \<leftarrow> find k;
     let k2 = k1\<lparr>k_needresched := False\<rparr>;
     Some (if t_state (curr_task k2) = TRUN \<and> t_counter (curr_task k2) = t_counter (k_tasks k2 target)
       then k2
       else k2\<lparr>k_curr := target, k_nlongjump := k_nlongjump k2 + 1\<rparr>) }"

definition prempt :: "kern \<Rightarrow> kern option" where
  "prempt k = (if k_needresched k then sched k else Some k)"

text \<open>The clock interrupt; requesting the timer soft interrupt is not part of this state.\<close>

definition timerisr :: "kern \<Rightarrow> kern option" where
  "timerisr k0 = (let k = k0\<lparr>k_passedtick := k_passedtick k0 + 1\<rparr> in
     if t_state (curr_task k) \<noteq> TRUN then Some k
     else if t_counter (curr_task k) = 0 then Some (k\<lparr>k_needresched := True\<rparr>)
     else do {
       k1 \<leftarrow> setcounter (k_curr k) (t_counter (curr_task k) - 1) k;
       Some (k1\<lparr>k_needresched := True\<rparr>) })"

definition sysnice :: "int \<Rightarrow> kern \<Rightarrow> (int \<times> kern) option" where
  "sysnice inc k =
     (if inc < 0 \<and> \<not> suser k then Some (EPERM, k)
      else let p = t_priority (curr_task k) - inc;
               k1 = (if between 0 p NRUNTASKQ
                     then task_upd (k_curr k) (\<lambda>x. x\<lparr>t_priority := p\<rparr>) k else k)
           in do { k2 \<leftarrow> setcounter (k_curr k) 0 k1; Some (0, k2) })"

subsection \<open>Sleeping and waking up\<close>

definition wakeup :: "nat \<Rightarrow> kern \<Rightarrow> kern option" where
  "wakeup t k =
     (if t_state (k_tasks k t) \<noteq> TSLEEP \<and> t_state (k_tasks k t) \<noteq> TWAIT then Some k
      else do {
        k1 \<leftarrow> unlinkrun t k;
        k2 \<leftarrow> enqrun t (task_upd t (\<lambda>x. x\<lparr>t_state := TRUN\<rparr>) k1);
        Some (if t_counter (k_tasks k2 t) \<ge> t_counter (curr_task k2) + 2
          then k2\<lparr>k_needresched := True\<rparr> else k2) })"

definition enqwait :: "nat \<Rightarrow> nat \<Rightarrow> kern \<Rightarrow> kern option" where
  "enqwait q t k = do {
     kassert (t_runlink (k_tasks k t) = Unlinked);
     Some ((task_upd t (\<lambda>x. x\<lparr>t_runlink := OnWait q\<rparr>) k)
       \<lparr>k_waitqs := (k_waitqs k)(q := k_waitqs k q @ [t])\<rparr>) }"

text \<open>
  \<^verbatim>\<open>waitq_t::waitsleep(state)\<close> up to the context switch: the task runs on when it is chosen again.
\<close>

definition waitsleep :: "nat \<Rightarrow> tstate \<Rightarrow> kern \<Rightarrow> kern option" where
  "waitsleep q st k = do {
     k1 \<leftarrow> deqrun (k_curr k) k;
     k2 \<leftarrow> enqwait q (k_curr k) (task_upd (k_curr k) (\<lambda>x. x\<lparr>t_state := st\<rparr>) k1);
     sched k2 }"

definition wq_sleep :: "nat \<Rightarrow> kern \<Rightarrow> kern option" where
  "wq_sleep q k = waitsleep q TSLEEP k"

definition wq_wait :: "nat \<Rightarrow> kern \<Rightarrow> kern option" where
  "wq_wait q k = (if \<not> hassig (curr_task k) then waitsleep q TWAIT k else Some k)"

definition wq_stop :: "nat \<Rightarrow> kern \<Rightarrow> kern option" where
  "wq_stop q k = waitsleep q TSTOP k"

definition wq_zombie :: "nat \<Rightarrow> kern \<Rightarrow> kern option" where
  "wq_zombie q k = waitsleep q TZOMBIE k"

definition wq_signal :: "nat \<Rightarrow> kern \<Rightarrow> kern option" where
  "wq_signal q k = (case k_waitqs k q of [] \<Rightarrow> Some k | t # ts \<Rightarrow> wakeup t k)"

partial_function (option) wq_broadcast :: "nat \<Rightarrow> kern \<Rightarrow> kern option" where
  "wq_broadcast q k =
     (if k_waitqs k q = [] then Some k else Option.bind (wq_signal q k) (\<lambda>k1. wq_broadcast q k1))"

subsection \<open>The invariant\<close>

definition links_ok :: "kern \<Rightarrow> bool" where
  "links_ok k \<longleftrightarrow> length (k_runtaskq k) = 32 \<and>
     (\<forall>i<32. distinct (k_runtaskq k ! i)) \<and> (\<forall>q. distinct (k_waitqs k q)) \<and>
     (\<forall>t i. i < 32 \<longrightarrow> (t \<in> set (k_runtaskq k ! i) \<longleftrightarrow> t_runlink (k_tasks k t) = OnRun i)) \<and>
     (\<forall>t i. t_runlink (k_tasks k t) = OnRun i \<longrightarrow> i < 32) \<and>
     (\<forall>t q. t \<in> set (k_waitqs k q) \<longleftrightarrow> t_runlink (k_tasks k t) = OnWait q) \<and>
     (\<forall>i<32. bit (k_mask k) i \<longleftrightarrow> k_runtaskq k ! i \<noteq> [])"

definition task_ok :: "task \<Rightarrow> bool" where
  "task_ok x \<longleftrightarrow> between 0 (t_priority x) 32 \<and> between 0 (t_counter x) 32 \<and>
     (case t_runlink x of
        Unlinked \<Rightarrow> False
      | OnRun i \<Rightarrow> t_state x = TRUN \<and> t_counter x = int i
      | OnWait q \<Rightarrow> t_state x \<noteq> TRUN) \<and>
     (t_state x = TWAIT \<longrightarrow> \<not> hassig x)"

definition sched_inv :: "kern \<Rightarrow> bool" where
  "sched_inv k \<longleftrightarrow> links_ok k \<and> distinct (k_alltaskq k) \<and>
     (\<forall>t\<in>set (k_alltaskq k). task_ok (k_tasks k t)) \<and>
     (\<forall>t. t \<notin> set (k_alltaskq k) \<longrightarrow> t_runlink (k_tasks k t) = Unlinked) \<and>
     k_idletask k \<in> set (k_alltaskq k) \<and> t_state (k_tasks k (k_idletask k)) = TRUN \<and>
     k_curr k \<in> set (k_alltaskq k)"

text \<open>Everything the queue operations leave alone.\<close>

definition same_env :: "kern \<Rightarrow> kern \<Rightarrow> bool" where
  "same_env k k' \<longleftrightarrow> k_alltaskq k' = k_alltaskq k \<and> k_idletask k' = k_idletask k \<and>
     k_inittask k' = k_inittask k \<and> k_hashtab k' = k_hashtab k \<and> k_lastpid k' = k_lastpid k \<and>
     k_pgrps k' = k_pgrps k \<and> k_sessions k' = k_sessions k \<and> k_pghash k' = k_pghash k \<and>
     k_allsessionq k' = k_allsessionq k \<and> k_passedtick k' = k_passedtick k \<and> k_curr k' = k_curr k"

lemma same_env_refl [simp]: "same_env k k"
  by (simp add: same_env_def)

lemma same_env_trans [trans]: "same_env k1 k2 \<Longrightarrow> same_env k2 k3 \<Longrightarrow> same_env k1 k3"
  by (simp add: same_env_def)

lemma same_env_task_upd [simp]: "same_env k (task_upd t f k)"
  by (simp add: same_env_def)

lemma links_okD:
  assumes "links_ok k"
  shows "length (k_runtaskq k) = 32"
    and "i < 32 \<Longrightarrow> distinct (k_runtaskq k ! i)"
    and "distinct (k_waitqs k q)"
    and "i < 32 \<Longrightarrow> t \<in> set (k_runtaskq k ! i) \<longleftrightarrow> t_runlink (k_tasks k t) = OnRun i"
    and "t_runlink (k_tasks k t) = OnRun i \<Longrightarrow> i < 32"
    and "t \<in> set (k_waitqs k q) \<longleftrightarrow> t_runlink (k_tasks k t) = OnWait q"
    and "i < 32 \<Longrightarrow> bit (k_mask k) i \<longleftrightarrow> k_runtaskq k ! i \<noteq> []"
  using assms unfolding links_ok_def by metis+

lemma links_ok_upd:
  assumes "links_ok k" and "t_runlink (f (k_tasks k t)) = t_runlink (k_tasks k t)"
  shows "links_ok (task_upd t f k)"
  using assms by (simp add: links_ok_def)

lemma enqrun_ok:
  assumes k: "links_ok k" and "t_runlink (k_tasks k t) = Unlinked"
    and "between 0 (t_counter (k_tasks k t)) 32"
  obtains k' where "enqrun t k = Some k'" "links_ok k'" "same_env k k'" "k_needresched k' = k_needresched k"
    "k_tasks k' = (k_tasks k)(t := (k_tasks k t)\<lparr>t_runlink := OnRun (nat (t_counter (k_tasks k t)))\<rparr>)"
proof -
  let ?c = "nat (t_counter (k_tasks k t))"
  let ?k = "(task_upd t (\<lambda>x. x\<lparr>t_runlink := OnRun ?c\<rparr>) k)
       \<lparr>k_runtaskq := (k_runtaskq k)[?c := k_runtaskq k ! ?c @ [t]],
        k_mask := k_mask k OR push_bit ?c 1\<rparr>"
  have c: "?c < 32" using assms(3) by (auto simp: between_def)
  note d = links_okD [OF k]
  have t: "t \<notin> set (k_runtaskq k ! ?c)" using d(4) [OF c, of t] assms(2) by simp
  have "links_ok ?k"
    unfolding links_ok_def
    using d(1-3) d(4) [of _ t] d(4) d(5) d(6) d(7) t c assms(2)
    by (auto simp: nth_list_update bit_simps)
  moreover have "enqrun t k = Some ?k"
    using assms by (simp add: enqrun_def Let_def NRUNTASKQ_def)
  ultimately show ?thesis
    by (intro that [of ?k]) (auto simp: same_env_def task_upd_def)
qed

lemma unlinkrun_ok:
  assumes k: "links_ok k" and "t_runlink (k_tasks k t) = OnWait q"
  obtains k' where "unlinkrun t k = Some k'" "links_ok k'" "same_env k k'" "k_needresched k' = k_needresched k"
    "k_tasks k' = (k_tasks k)(t := (k_tasks k t)\<lparr>t_runlink := Unlinked\<rparr>)"
    "k_waitqs k' = (k_waitqs k)(q := remove1 t (k_waitqs k q))"
proof -
  let ?k = "(task_upd t (\<lambda>x. x\<lparr>t_runlink := Unlinked\<rparr>) k)
       \<lparr>k_waitqs := (k_waitqs k)(q := remove1 t (k_waitqs k q))\<rparr>"
  note d = links_okD [OF k]
  have "links_ok ?k"
    unfolding links_ok_def
    using d(1-3) d(4-7) assms(2) by (auto simp: distinct_remove1)
  moreover have "unlinkrun t k = Some ?k"
    using assms by (simp add: unlinkrun_def)
  ultimately show ?thesis
    by (intro that [of ?k]) (auto simp: same_env_def task_upd_def)
qed

lemma deqrun_ok:
  assumes k: "links_ok k" and "t_runlink (k_tasks k t) = OnRun (nat (t_counter (k_tasks k t)))"
    and "between 0 (t_counter (k_tasks k t)) 32"
  obtains k' where "deqrun t k = Some k'" "links_ok k'" "same_env k k'" "k_needresched k' = k_needresched k"
    "k_tasks k' = (k_tasks k)(t := (k_tasks k t)\<lparr>t_runlink := Unlinked\<rparr>)"
    "k_waitqs k' = k_waitqs k"
proof -
  let ?c = "nat (t_counter (k_tasks k t))"
  let ?k1 = "(task_upd t (\<lambda>x. x\<lparr>t_runlink := Unlinked\<rparr>) k)
       \<lparr>k_runtaskq := (k_runtaskq k)[?c := remove1 t (k_runtaskq k ! ?c)]\<rparr>"
  let ?k = "if k_runtaskq ?k1 ! ?c = []
       then ?k1\<lparr>k_mask := k_mask ?k1 AND NOT (push_bit ?c 1)\<rparr> else ?k1"
  have c: "?c < 32" using assms(3) by (auto simp: between_def)
  note d = links_okD [OF k]
  have m: "bit (k_mask ?k) i \<longleftrightarrow> k_runtaskq ?k ! i \<noteq> []" if "i < 32" for i
    using that c d(1) d(7) [OF that] d(4) [OF c, of t] assms(2)
    by (cases "i = ?c") (auto simp: nth_list_update bit_simps)
  have r: "u \<in> set (remove1 t (k_runtaskq k ! ?c)) \<longleftrightarrow> u \<noteq> t \<and> t_runlink (k_tasks k u) = OnRun ?c" for u
    using d(2,4) [OF c] by auto
  have e: "t_runlink (k_tasks k u) \<noteq> OnRun ?c" if "remove1 t (k_runtaskq k ! ?c) = []" "u \<noteq> t" for u
    using r [of u] that by simp
  have "links_ok ?k"
    unfolding links_ok_def
    using d(1-3) d(4-6) c assms(2) m e by (auto simp: nth_list_update)
  moreover have "deqrun t k = Some ?k"
    using assms by (simp add: deqrun_def Let_def NRUNTASKQ_def unlinkrun_def)
  ultimately show ?thesis
    by (intro that [of ?k]) (auto simp: same_env_def task_upd_def)
qed

subsection \<open>The operations keep the invariant\<close>

lemma sched_invD:
  assumes "sched_inv k"
  shows "links_ok k"
    and "t \<in> set (k_alltaskq k) \<Longrightarrow> task_ok (k_tasks k t)"
    and "t \<notin> set (k_alltaskq k) \<Longrightarrow> t_runlink (k_tasks k t) = Unlinked"
    and "k_idletask k \<in> set (k_alltaskq k)" and "t_state (k_tasks k (k_idletask k)) = TRUN"
    and "k_curr k \<in> set (k_alltaskq k)" and "distinct (k_alltaskq k)"
  using assms by (auto simp: sched_inv_def)

lemma sched_invI:
  assumes "sched_inv k" and "links_ok k'" and "same_env k k'"
    and "k_tasks k' = (k_tasks k)(t := x)"
    and "t \<in> set (k_alltaskq k)" and "task_ok x"
    and "t = k_idletask k \<Longrightarrow> t_state x = TRUN"
  shows "sched_inv k'"
  using assms unfolding sched_inv_def same_env_def by auto

text \<open>Writing the fields of a task the scheduler does not look at.\<close>

lemma sched_inv_upd:
  assumes "sched_inv k" and "t_runlink (f (k_tasks k t)) = t_runlink (k_tasks k t)"
    and "t \<in> set (k_alltaskq k) \<Longrightarrow> task_ok (k_tasks k t) \<Longrightarrow> task_ok (f (k_tasks k t))"
    and "t_state (f (k_tasks k t)) = t_state (k_tasks k t)"
  shows "sched_inv (task_upd t f k)"
  using assms links_ok_upd [of k f t] unfolding sched_inv_def by auto

lemma sched_inv_flags [simp]:
  "sched_inv (k\<lparr>k_needresched := b\<rparr>) = sched_inv k"
  "sched_inv (k\<lparr>k_nlongjump := n\<rparr>) = sched_inv k"
  "sched_inv (k\<lparr>k_passedtick := p\<rparr>) = sched_inv k"
  by (simp_all add: sched_inv_def links_ok_def)

lemma task_ok_run:
  "task_ok x \<Longrightarrow> t_state x = TRUN \<Longrightarrow> t_runlink x = OnRun (nat (t_counter x)) \<and> between 0 (t_counter x) 32"
  by (auto simp: task_ok_def split: runlink.splits)

lemma task_ok_wait: "task_ok x \<Longrightarrow> t_state x \<noteq> TRUN \<Longrightarrow> \<exists>q. t_runlink x = OnWait q"
  by (auto simp: task_ok_def split: runlink.splits)

definition counter_set :: "int \<Rightarrow> task \<Rightarrow> task" where
  "counter_set c x = x\<lparr>t_counter := c,
     t_runlink := (if t_state x = TRUN then OnRun (nat c) else t_runlink x)\<rparr>"

lemma counter_set_ok: "task_ok x \<Longrightarrow> between 0 c 32 \<Longrightarrow> task_ok (counter_set c x)"
  by (auto simp: task_ok_def counter_set_def between_def hassig_def unmaskedsig_def split: runlink.splits)

lemma setcounter_ok:
  assumes "sched_inv k" "t \<in> set (k_alltaskq k)" "between 0 c 32"
  obtains k' where "setcounter t c k = Some k'" "sched_inv k'" "same_env k k'"
    "k_needresched k' = k_needresched k"
    "k_tasks k' = (k_tasks k)(t := counter_set c (k_tasks k t))"
proof -
  note inv = sched_invD [OF assms(1)]
  have x: "task_ok (k_tasks k t)" by (rule inv(2) [OF assms(2)])
  show ?thesis
  proof (cases "t_state (k_tasks k t) = TRUN")
    case True
    from task_ok_run [OF x True] obtain k1 where k1: "deqrun t k = Some k1" "links_ok k1" "same_env k k1"
      "k_needresched k1 = k_needresched k"
      "k_tasks k1 = (k_tasks k)(t := (k_tasks k t)\<lparr>t_runlink := Unlinked\<rparr>)"
      using deqrun_ok [OF inv(1)] by metis
    let ?k2 = "task_upd t (\<lambda>x. x\<lparr>t_counter := c\<rparr>) k1"
    have k2: "links_ok ?k2" "t_runlink (k_tasks ?k2 t) = Unlinked" "between 0 (t_counter (k_tasks ?k2 t)) 32"
      using k1 assms(3) by (simp_all add: links_ok_upd)
    from enqrun_ok [OF this] obtain k3 where k3: "enqrun t ?k2 = Some k3" "links_ok k3" "same_env ?k2 k3"
      "k_needresched k3 = k_needresched ?k2"
      "k_tasks k3 = (k_tasks ?k2)(t := (k_tasks ?k2 t)\<lparr>t_runlink := OnRun (nat (t_counter (k_tasks ?k2 t)))\<rparr>)"
      by metis
    have T: "k_tasks k3 = (k_tasks k)(t := counter_set c (k_tasks k t))"
      using k3(5) k1(5) True by (auto simp: fun_eq_iff counter_set_def)
    have E: "same_env k k3"
      using k1(3) k3(3) by (simp add: same_env_def)
    have "sched_inv k3"
      using sched_invI [OF assms(1) k3(2) E T assms(2) counter_set_ok [OF x assms(3)]] inv(5)
      by (auto simp: counter_set_def)
    with E T k1 k3 True that [of k3] show ?thesis by (simp add: setcounter_def)
  next
    case False
    let ?k = "task_upd t (\<lambda>x. x\<lparr>t_counter := c\<rparr>) k"
    have eq: "(k_tasks k t)\<lparr>t_counter := c\<rparr> = counter_set c (k_tasks k t)"
      using False by (simp add: counter_set_def)
    have "sched_inv ?k"
      by (rule sched_inv_upd [OF assms(1)]) (use counter_set_ok [OF x assms(3)] in \<open>simp_all flip: eq\<close>)
    with False eq that [of ?k] show ?thesis
      by (simp add: setcounter_def fun_eq_iff)
  qed
qed

lemma newquota_range:
  assumes "task_ok (k_tasks k t)"
  shows "between 0 (newquota t k) 32"
  using assms by (auto simp: newquota_def Let_def task_ok_def between_def NRUNTASKQ_def)

lemma recharge_fold:
  assumes "sched_inv k" "set ts \<subseteq> set (k_alltaskq k)" "distinct ts"
  shows "\<exists>k'. foldM (\<lambda>t k. setcounter t (newquota t k) k) ts k = Some k' \<and> sched_inv k' \<and>
    same_env k k' \<and> k_needresched k' = k_needresched k \<and>
    k_tasks k' = (\<lambda>t. if t \<in> set ts then counter_set (newquota t k) (k_tasks k t) else k_tasks k t)"
  using assms
proof (induction ts arbitrary: k)
  case (Cons t ts)
  have t: "t \<in> set (k_alltaskq k)" using Cons.prems by simp
  obtain k1 where k1: "setcounter t (newquota t k) k = Some k1" "sched_inv k1" "same_env k k1"
    "k_needresched k1 = k_needresched k"
    "k_tasks k1 = (k_tasks k)(t := counter_set (newquota t k) (k_tasks k t))"
    using setcounter_ok [OF Cons.prems(1) t newquota_range] sched_invD(2) [OF Cons.prems(1) t]
    by metis
  have q: "newquota u k1 = newquota u k" if "u \<noteq> t" for u
    using k1(3,5) that by (simp add: newquota_def same_env_def)
  from Cons.IH [OF k1(2)] Cons.prems k1(3)
  obtain k' where k': "foldM (\<lambda>t k. setcounter t (newquota t k) k) ts k1 = Some k'" "sched_inv k'"
    "same_env k1 k'" "k_needresched k' = k_needresched k1"
    "k_tasks k' = (\<lambda>u. if u \<in> set ts then counter_set (newquota u k1) (k_tasks k1 u) else k_tasks k1 u)"
    by (auto simp: same_env_def)
  have "k_tasks k' = (\<lambda>u. if u \<in> set (t # ts) then counter_set (newquota u k) (k_tasks k u) else k_tasks k u)"
  proof
    fix u show "k_tasks k' u = (if u \<in> set (t # ts) then counter_set (newquota u k) (k_tasks k u) else k_tasks k u)"
      using k'(5) k1(5) q [of u] Cons.prems(3) by (cases "u = t") auto
  qed
  with k' k1 same_env_trans [OF k1(3) k'(3)] show ?case by simp
qed auto

lemma recharge_ok:
  assumes "sched_inv k"
  obtains k' where "recharge k = Some k'" "sched_inv k'" "same_env k k'"
    "k_needresched k' = k_needresched k"
    "\<And>t. t \<in> set (k_alltaskq k) \<Longrightarrow> k_tasks k' t = counter_set (newquota t k) (k_tasks k t)"
    "\<And>t. t \<notin> set (k_alltaskq k) \<Longrightarrow> k_tasks k' t = k_tasks k t"
  using recharge_fold [OF assms subset_refl sched_invD(7) [OF assms]] that
  by (auto simp: recharge_def)

text \<open>The run queue of the highest bit of the mask holds the runnable tasks of the largest quota.\<close>

definition is_best :: "kern \<Rightarrow> nat \<Rightarrow> bool" where
  "is_best k t \<longleftrightarrow> t \<in> set (k_alltaskq k) \<and> t_state (k_tasks k t) = TRUN \<and> 0 < t_counter (k_tasks k t) \<and>
     (\<forall>u\<in>set (k_alltaskq k). t_state (k_tasks k u) = TRUN \<longrightarrow>
        t_counter (k_tasks k u) \<le> t_counter (k_tasks k t))"

lemma mask_bit:
  assumes "sched_inv k"
  shows "bit (k_mask k) i \<longleftrightarrow>
    (\<exists>t\<in>set (k_alltaskq k). t_state (k_tasks k t) = TRUN \<and> t_counter (k_tasks k t) = int i)"
proof
  note inv = sched_invD [OF assms] and links = links_okD [OF sched_invD(1) [OF assms]]
  assume b: "bit (k_mask k) i"
  then have i: "i < 32" using bit_imp_le_length [OF b] by simp
  with b links(7) obtain t where "t \<in> set (k_runtaskq k ! i)"
    by (cases "k_runtaskq k ! i") auto
  then have l: "t_runlink (k_tasks k t) = OnRun i" using links(4) [OF i] by simp
  with inv(3) [of t] have "t \<in> set (k_alltaskq k)" by auto
  with inv(2) [of t] l
  show "\<exists>t\<in>set (k_alltaskq k). t_state (k_tasks k t) = TRUN \<and> t_counter (k_tasks k t) = int i"
    by (auto simp: task_ok_def)
next
  note inv = sched_invD [OF assms] and links = links_okD [OF sched_invD(1) [OF assms]]
  assume "\<exists>t\<in>set (k_alltaskq k). t_state (k_tasks k t) = TRUN \<and> t_counter (k_tasks k t) = int i"
  then obtain t where t: "t \<in> set (k_alltaskq k)" "t_state (k_tasks k t) = TRUN"
    "t_counter (k_tasks k t) = int i" by auto
  with inv(2) task_ok_run [of "k_tasks k t"] have "t_runlink (k_tasks k t) = OnRun i" "i < 32"
    by (auto simp: between_def)
  then show "bit (k_mask k) i"
    using links(4) [of i t] links(7) [of i] by auto
qed

lemma mask_nonzero: "sched_inv k \<Longrightarrow> k_mask k \<noteq> 0"
proof -
  assume inv: "sched_inv k"
  let ?x = "k_tasks k (k_idletask k)"
  have "t_counter ?x = int (nat (t_counter ?x))"
    using task_ok_run [of ?x] sched_invD(2,4,5) [OF inv] by (simp add: between_def)
  then have "bit (k_mask k) (nat (t_counter ?x))"
    using mask_bit [OF inv] sched_invD(4,5) [OF inv] by metis
  then show ?thesis by auto
qed

lemma checks_pass: "sched_inv k \<Longrightarrow> checkmask k \<and> checkwait k"
  using mask_nonzero [of k] links_okD(7) [of k] sched_invD(1,2) [of k]
  by (auto simp: checkmask_def checkwait_def task_ok_def)

lemma find_step:
  assumes "sched_inv k" and "bsr (k_mask k) = Some idx" and "idx \<noteq> 0"
  shows "\<exists>t. find_loop k = Some (t, k) \<and> is_best k t"
proof -
  note inv = sched_invD [OF assms(1)] and links = links_okD [OF sched_invD(1) [OF assms(1)]]
  from assms(2) have b: "bit (k_mask k) idx" and above: "\<And>j. j > idx \<Longrightarrow> \<not> bit (k_mask k) j"
    by (auto simp: bsr_Some)
  have i: "idx < 32" using bit_imp_le_length [OF b] by simp
  with b links(7) obtain t ts where q: "k_runtaskq k ! idx = t # ts"
    by (cases "k_runtaskq k ! idx") auto
  then have l: "t_runlink (k_tasks k t) = OnRun idx" using links(4) [OF i, of t] by simp
  with inv(3) [of t] have t: "t \<in> set (k_alltaskq k)" by auto
  from inv(2) [OF t] l have run: "t_state (k_tasks k t) = TRUN" "t_counter (k_tasks k t) = int idx"
    by (auto simp: task_ok_def)
  have "t_counter (k_tasks k u) \<le> int idx"
    if u: "u \<in> set (k_alltaskq k)" "t_state (k_tasks k u) = TRUN" for u
  proof (rule ccontr)
    assume "\<not> t_counter (k_tasks k u) \<le> int idx"
    then have c: "nat (t_counter (k_tasks k u)) > idx" "t_counter (k_tasks k u) = int (nat (t_counter (k_tasks k u)))"
      by auto
    with u mask_bit [OF assms(1), of "nat (t_counter (k_tasks k u))"] above show False by blast
  qed
  with t run assms(3) have "is_best k t" by (auto simp: is_best_def)
  with run q assms show ?thesis by (subst find_loop.simps) simp
qed

lemma find_returns:
  assumes "sched_inv k"
  obtains t k' where "find k = Some (t, k')" "sched_inv k'" "same_env k k'" "is_best k' t"
    "k_needresched k' = k_needresched k"
    "\<And>u. k_tasks k' u = k_tasks k u \<or> k_tasks k' u = counter_set (newquota u k) (k_tasks k u)"
proof -
  obtain idx where idx: "bsr (k_mask k) = Some idx"
    using mask_nonzero [OF assms] bsr_None [of "k_mask k"] by auto
  have F: "find k = find_loop k"
    using checks_pass [OF assms] by (simp add: find_def)
  show ?thesis
  proof (cases "idx = 0")
    case False
    with find_step [OF assms idx] F assms show ?thesis
      by (auto intro: that)
  next
    case True
    obtain k1 where k1: "recharge k = Some k1" "sched_inv k1" "same_env k k1"
      "k_needresched k1 = k_needresched k"
      "\<And>t. t \<in> set (k_alltaskq k) \<Longrightarrow> k_tasks k1 t = counter_set (newquota t k) (k_tasks k t)"
      "\<And>t. t \<notin> set (k_alltaskq k) \<Longrightarrow> k_tasks k1 t = k_tasks k t"
      using recharge_ok [OF assms] by metis
    have "t_counter (k_tasks k1 (k_idletask k)) = 1"
      using k1(5) sched_invD(4) [OF assms] by (simp add: counter_set_def newquota_def Let_def)
    then have b1: "bit (k_mask k1) 1"
      using mask_bit [OF k1(2), of 1] k1(3) sched_invD(4,5) [OF k1(2)] by (auto simp: same_env_def)
    obtain idx1 where idx1: "bsr (k_mask k1) = Some idx1"
      using mask_nonzero [OF k1(2)] bsr_None [of "k_mask k1"] by auto
    with b1 have "idx1 \<noteq> 0" by (auto simp: bsr_Some)
    from find_step [OF k1(2) idx1 this] obtain t where t: "find_loop k1 = Some (t, k1)" "is_best k1 t"
      by auto
    then have "find k = Some (t, k1)"
      using F idx True k1(1) by (subst (asm) (2) find_loop.simps) simp
    then show ?thesis
      using k1 t by (intro that [of t k1]) auto
  qed
qed

definition running :: "kern \<Rightarrow> bool" where
  "running k \<longleftrightarrow> sched_inv k \<and> t_state (curr_task k) = TRUN"

text \<open>Fields of a task no scheduler operation touches.\<close>

definition same_task :: "task \<Rightarrow> task \<Rightarrow> bool" where
  "same_task x y \<longleftrightarrow>
     y = x\<lparr>t_state := t_state y, t_counter := t_counter y, t_priority := t_priority y, t_runlink := t_runlink y\<rparr>"

lemma same_task_refl [simp]: "same_task x x"
  by (simp add: same_task_def)

lemma same_task_trans: "same_task x y \<Longrightarrow> same_task y z \<Longrightarrow> same_task x z"
  by (cases x; cases y; cases z) (simp add: same_task_def)

lemma same_task_counter_set [simp]: "same_task x (counter_set c x)"
  by (cases x) (simp add: same_task_def counter_set_def)

lemma counter_set_state [simp]: "t_state (counter_set c x) = t_state x"
  by (simp add: counter_set_def)

lemma sched_ok:
  assumes "sched_inv k"
  obtains k' where "sched k = Some k'" "running k'"
    "is_best k' (k_curr k')" "\<not> k_needresched k'" "same_env k (k'\<lparr>k_curr := k_curr k\<rparr>)"
    "\<And>u. k_tasks k' u = k_tasks k u \<or> k_tasks k' u = counter_set (newquota u k) (k_tasks k u)"
    "k_curr k' \<noteq> k_curr k \<Longrightarrow> t_state (curr_task k) \<noteq> TRUN \<or>
       t_counter (k_tasks k' (k_curr k)) < t_counter (k_tasks k' (k_curr k'))"
proof -
  obtain t k1 where k1: "find k = Some (t, k1)" "sched_inv k1" "same_env k k1" "is_best k1 t"
    "k_needresched k1 = k_needresched k"
    "\<And>u. k_tasks k1 u = k_tasks k u \<or> k_tasks k1 u = counter_set (newquota u k) (k_tasks k u)"
    using find_returns [OF assms] by metis
  let ?k2 = "k1\<lparr>k_needresched := False\<rparr>"
  let ?k3 = "?k2\<lparr>k_curr := t, k_nlongjump := k_nlongjump ?k2 + 1\<rparr>"
  let ?stay = "t_state (curr_task ?k2) = TRUN \<and> t_counter (curr_task ?k2) = t_counter (k_tasks ?k2 t)"
  have S: "sched k = Some (if ?stay then ?k2 else ?k3)"
    using k1(1) by (simp add: sched_def Let_def)
  have st: "t_state (k_tasks k1 u) = t_state (k_tasks k u)" for u
    using k1(6) [of u] by auto
  show ?thesis
  proof (cases ?stay)
    case True
    then have "is_best ?k2 (k_curr ?k2)" and "running ?k2"
      using k1(2,4) sched_invD(6) [OF k1(2)] by (auto simp: is_best_def curr_task_def running_def)
    with S True k1 show ?thesis
      by (intro that [of ?k2]) (auto simp: same_env_def)
  next
    case False
    have "sched_inv ?k3"
      using k1(2,4) by (auto simp: sched_inv_def links_ok_def is_best_def)
    then have "running ?k3" and "is_best ?k3 (k_curr ?k3)"
      using k1(4) by (auto simp: is_best_def curr_task_def running_def)
    moreover have "t_state (curr_task k) \<noteq> TRUN \<or>
        t_counter (k_tasks ?k3 (k_curr k)) < t_counter (k_tasks ?k3 (k_curr ?k3))"
    proof (cases "t_state (curr_task k) = TRUN")
      case True
      then have "t_counter (k_tasks k1 (k_curr k)) \<le> t_counter (k_tasks k1 t)"
        using k1(3,4) st sched_invD(6) [OF assms] by (auto simp: is_best_def same_env_def curr_task_def)
      with False True st k1(3) show ?thesis by (auto simp: curr_task_def same_env_def)
    qed simp
    moreover have "same_env k (?k3\<lparr>k_curr := k_curr k\<rparr>)"
      using k1(3) by (simp add: same_env_def)
    moreover have "sched k = Some ?k3" using S unfolding if_not_P [OF False] .
    ultimately show ?thesis
      using k1(6) by (intro that [of ?k3]) auto
  qed
qed

lemma wakeup_links:
  assumes "links_ok k" "t_state (k_tasks k t) \<in> {TSLEEP, TWAIT}" "t_runlink (k_tasks k t) = OnWait q"
    and "between 0 (t_counter (k_tasks k t)) 32"
  obtains k' where "wakeup t k = Some k'" "links_ok k'" "same_env k k'"
    "k_tasks k' = (k_tasks k)(t :=
       (k_tasks k t)\<lparr>t_state := TRUN, t_runlink := OnRun (nat (t_counter (k_tasks k t)))\<rparr>)"
    "\<And>q. k_waitqs k' q = remove1 t (k_waitqs k q)"
proof -
  obtain k1 where k1: "unlinkrun t k = Some k1" "links_ok k1" "same_env k k1" "k_needresched k1 = k_needresched k"
    "k_tasks k1 = (k_tasks k)(t := (k_tasks k t)\<lparr>t_runlink := Unlinked\<rparr>)"
    "k_waitqs k1 = (k_waitqs k)(q := remove1 t (k_waitqs k q))"
    using unlinkrun_ok [OF assms(1,3)] by metis
  let ?k2 = "task_upd t (\<lambda>x. x\<lparr>t_state := TRUN\<rparr>) k1"
  have k2: "links_ok ?k2" "t_runlink (k_tasks ?k2 t) = Unlinked" "between 0 (t_counter (k_tasks ?k2 t)) 32"
    using k1 assms(4) by (simp_all add: links_ok_upd)
  from enqrun_ok [OF this] obtain k3 where k3: "enqrun t ?k2 = Some k3" "links_ok k3" "same_env ?k2 k3"
    "k_needresched k3 = k_needresched ?k2"
    "k_tasks k3 = (k_tasks ?k2)(t := (k_tasks ?k2 t)\<lparr>t_runlink := OnRun (nat (t_counter (k_tasks ?k2 t)))\<rparr>)"
    by metis
  have w3: "k_waitqs k3 = k_waitqs k1"
    using k3(1) by (auto simp: enqrun_def Let_def)
  let ?x = "(k_tasks k t)\<lparr>t_state := TRUN, t_runlink := OnRun (nat (t_counter (k_tasks k t)))\<rparr>"
  have T: "k_tasks k3 = (k_tasks k)(t := ?x)"
    using k3(5) k1(5) by (auto simp: fun_eq_iff)
  have E: "same_env k k3" using k1(3) k3(3) by (simp add: same_env_def)
  let ?k4 = "if t_counter (k_tasks k3 t) \<ge> t_counter (curr_task k3) + 2 then k3\<lparr>k_needresched := True\<rparr> else k3"
  have W: "remove1 t (k_waitqs k q') = k_waitqs k q'" if "q' \<noteq> q" for q'
    using links_okD(6) [OF assms(1), of t q'] assms(3) that by (simp add: remove1_idem)
  have L: "links_ok ?k4" using k3(2) by (simp add: links_ok_def)
  have "wakeup t k = Some ?k4"
    using assms(2) k1(1) k3(1) by (auto simp: wakeup_def)
  then show ?thesis
    using L E T w3 k1(6) W by (intro that [of ?k4]) (auto simp: same_env_def)
qed

lemma wakeup_ok:
  assumes "sched_inv k" "t \<in> set (k_alltaskq k)"
  obtains k' where "wakeup t k = Some k'" "sched_inv k'" "same_env k k'"
    "k_tasks k' = (k_tasks k)(t := (if t_state (k_tasks k t) \<in> {TSLEEP, TWAIT}
       then (k_tasks k t)\<lparr>t_state := TRUN, t_runlink := OnRun (nat (t_counter (k_tasks k t)))\<rparr>
       else k_tasks k t))"
    "\<And>q. k_waitqs k' q = (if t_state (k_tasks k t) \<in> {TSLEEP, TWAIT}
       then remove1 t (k_waitqs k q) else k_waitqs k q)"
proof (cases "t_state (k_tasks k t) \<in> {TSLEEP, TWAIT}")
  case False
  with assms that [of k] show ?thesis by (simp add: wakeup_def)
next
  case True
  note inv = sched_invD [OF assms(1)]
  have x: "task_ok (k_tasks k t)" by (rule inv(2) [OF assms(2)])
  with True task_ok_wait obtain q where q: "t_runlink (k_tasks k t) = OnWait q" by fastforce
  let ?x = "(k_tasks k t)\<lparr>t_state := TRUN, t_runlink := OnRun (nat (t_counter (k_tasks k t)))\<rparr>"
  obtain k' where k': "wakeup t k = Some k'" "links_ok k'" "same_env k k'" "k_tasks k' = (k_tasks k)(t := ?x)"
    "\<And>q. k_waitqs k' q = remove1 t (k_waitqs k q)"
    using wakeup_links [OF inv(1) True q] x by (auto simp: task_ok_def)
  have "task_ok ?x" using x by (auto simp: task_ok_def between_def)
  with sched_invI [OF assms(1) k'(2,3,4) assms(2)] have "sched_inv k'" by simp
  with k' True show ?thesis by (intro that [of k']) auto
qed

lemma enqwait_ok:
  assumes k: "links_ok k" and "t_runlink (k_tasks k t) = Unlinked"
  obtains k' where "enqwait q t k = Some k'" "links_ok k'" "same_env k k'" 
    "k_tasks k' = (k_tasks k)(t := (k_tasks k t)\<lparr>t_runlink := OnWait q\<rparr>)"
    "k_waitqs k' = (k_waitqs k)(q := k_waitqs k q @ [t])"
proof -
  let ?k = "(task_upd t (\<lambda>x. x\<lparr>t_runlink := OnWait q\<rparr>) k)\<lparr>k_waitqs := (k_waitqs k)(q := k_waitqs k q @ [t])\<rparr>"
  note d = links_okD [OF k]
  have "links_ok ?k"
    unfolding links_ok_def using d assms(2) by auto
  then show ?thesis
    using assms by (intro that [of ?k]) (auto simp: enqwait_def same_env_def task_upd_def)
qed

lemma waitsleep_ok:
  assumes "running k" "k_curr k \<noteq> k_idletask k" "st \<noteq> TRUN" "st = TWAIT \<Longrightarrow> \<not> hassig (curr_task k)"
  obtains k' where "waitsleep q st k = Some k'" "running k'" "k_curr k' \<noteq> k_curr k"
    "t_state (k_tasks k' (k_curr k)) = st" "is_best k' (k_curr k')"
    "same_env k (k'\<lparr>k_curr := k_curr k\<rparr>)" "\<And>u. same_task (k_tasks k u) (k_tasks k' u)"
proof -
  let ?t = "k_curr k"
  from assms(1) have I: "sched_inv k" and run: "t_state (k_tasks k ?t) = TRUN"
    by (simp_all add: running_def curr_task_def)
  note inv = sched_invD [OF I]
  have x: "task_ok (k_tasks k ?t)" by (rule inv(2) [OF inv(6)])
  obtain k1 where k1: "deqrun ?t k = Some k1" "links_ok k1" "same_env k k1"
      "k_tasks k1 = (k_tasks k)(?t := (k_tasks k ?t)\<lparr>t_runlink := Unlinked\<rparr>)"
    using deqrun_ok [OF inv(1)] task_ok_run [OF x run] by metis
  let ?k2 = "task_upd ?t (\<lambda>x. x\<lparr>t_state := st\<rparr>) k1"
  have k2: "links_ok ?k2" "t_runlink (k_tasks ?k2 ?t) = Unlinked"
    using k1 by (simp_all add: links_ok_upd)
  from enqwait_ok [OF this] obtain k3 where k3: "enqwait q ?t ?k2 = Some k3" "links_ok k3" "same_env ?k2 k3"
    "k_tasks k3 = (k_tasks ?k2)(?t := (k_tasks ?k2 ?t)\<lparr>t_runlink := OnWait q\<rparr>)"
    by metis
  let ?x = "(k_tasks k ?t)\<lparr>t_state := st, t_runlink := OnWait q\<rparr>"
  have T: "k_tasks k3 = (k_tasks k)(?t := ?x)" using k3(4) k1(4) by (auto simp: fun_eq_iff)
  have E: "same_env k k3" using k1(3) k3(3) by (simp add: same_env_def)
  have "task_ok ?x" using x assms(3,4)
    by (auto simp: task_ok_def curr_task_def hassig_def unmaskedsig_def)
  with sched_invI [OF I k3(2) E T inv(6)] assms(2) have I3: "sched_inv k3" by simp
  from sched_ok [OF I3] obtain k4 where k4: "sched k3 = Some k4" "running k4"
    "is_best k4 (k_curr k4)" "same_env k3 (k4\<lparr>k_curr := k_curr k3\<rparr>)"
    "\<And>u. k_tasks k4 u = k_tasks k3 u \<or> k_tasks k4 u = counter_set (newquota u k3) (k_tasks k3 u)"
    by metis
  have st4: "t_state (k_tasks k4 ?t) = st" using k4(5) [of ?t] T by auto
  have "same_task (k_tasks k u) (k_tasks k4 u)" for u
  proof -
    have "same_task (k_tasks k u) (k_tasks k3 u)"
      by (cases "k_tasks k u") (auto simp: T same_task_def)
    moreover have "same_task (k_tasks k3 u) (k_tasks k4 u)" using k4(5) [of u] by auto
    ultimately show ?thesis by (rule same_task_trans)
  qed
  moreover have "k_curr k4 \<noteq> ?t" using k4(3) st4 assms(3) by (auto simp: is_best_def)
  moreover have "waitsleep q st k = Some k4" using k1(1) k3(1) k4(1) by (simp add: waitsleep_def)
  moreover have "same_env k (k4\<lparr>k_curr := k_curr k\<rparr>)" using E k4(4) by (simp add: same_env_def)
  ultimately show ?thesis using st4 k4(2,3) by (intro that [of k4])
qed

lemma timerisr_ok:
  assumes "running k"
  obtains k' where "timerisr k = Some k'" "running k'"
proof -
  let ?k = "k\<lparr>k_passedtick := k_passedtick k + 1\<rparr>"
  let ?c = "t_counter (curr_task k)"
  have I: "sched_inv ?k" and run: "t_state (curr_task ?k) = TRUN" and c: "curr_task ?k = curr_task k"
    using assms by (simp_all add: running_def curr_task_def)
  show ?thesis
  proof (cases "?c = 0")
    case True
    with run c I that [of "?k\<lparr>k_needresched := True\<rparr>"] show ?thesis
      by (simp add: timerisr_def Let_def running_def curr_task_def)
  next
    case False
    have "between 0 ?c 32"
      using sched_invD(2,6) [OF I] by (simp add: task_ok_def curr_task_def)
    with False have "between 0 (?c - 1) 32" by (simp add: between_def)
    then obtain k1 where k1: "setcounter (k_curr ?k) (?c - 1) ?k = Some k1" "sched_inv k1" "same_env ?k k1"
      "k_tasks k1 = (k_tasks ?k)(k_curr ?k := counter_set (?c - 1) (k_tasks ?k (k_curr ?k)))"
      using setcounter_ok [OF I sched_invD(6) [OF I]] by metis
    with False run c that [of "k1\<lparr>k_needresched := True\<rparr>"] show ?thesis
      by (simp add: timerisr_def Let_def running_def curr_task_def same_env_def)
  qed
qed

lemma sysnice_ok:
  assumes "running k"
  obtains e k' where "sysnice inc k = Some (e, k')" "running k'" "e = EPERM \<Longrightarrow> k' = k"
    "e = EPERM \<longleftrightarrow> inc < 0 \<and> \<not> suser k"
proof (cases "inc < 0 \<and> \<not> suser k")
  case True
  with assms that [of EPERM k] show ?thesis by (simp add: sysnice_def)
next
  case False
  let ?p = "t_priority (curr_task k) - inc"
  define kk where "kk = (if between 0 ?p NRUNTASKQ then task_upd (k_curr k) (\<lambda>x. x\<lparr>t_priority := ?p\<rparr>) k else k)"
  from assms have I: "sched_inv k" by (simp add: running_def)
  have I1: "sched_inv kk"
  proof (cases "between 0 ?p NRUNTASKQ")
    case True
    have "sched_inv (task_upd (k_curr k) (\<lambda>x. x\<lparr>t_priority := ?p\<rparr>) k)"
      by (rule sched_inv_upd [OF I])
        (use True in \<open>auto simp: task_ok_def NRUNTASKQ_def hassig_def unmaskedsig_def split: runlink.splits\<close>)
    with True show ?thesis by (simp add: kk_def)
  qed (use I in \<open>simp add: kk_def\<close>)
  have c: "k_curr kk = k_curr k" and st: "t_state (k_tasks kk (k_curr k)) = TRUN"
    using assms by (simp_all add: kk_def running_def curr_task_def)
  have "between 0 (0::int) 32" by (simp add: between_def)
  then obtain k1 where k1: "setcounter (k_curr kk) 0 kk = Some k1" "sched_inv k1" "same_env kk k1"
      "k_tasks k1 = (k_tasks kk)(k_curr kk := counter_set 0 (k_tasks kk (k_curr kk)))"
    using setcounter_ok [OF I1 sched_invD(6) [OF I1]] by metis
  have "running k1"
    using k1 c st by (simp add: running_def same_env_def curr_task_def)
  moreover have "sysnice inc k = Some (0, k1)"
    using False k1(1) c unfolding kk_def by (auto simp: sysnice_def Let_def)
  ultimately show ?thesis
    using False that [of 0 k1] by (simp add: EPERM_def)
qed

subsection \<open>Waking up a whole queue\<close>

lemma wq_signal_step:
  assumes "sched_inv k" "k_waitqs k q = t # ts" "t_state (k_tasks k t) \<in> {TSLEEP, TWAIT}"
  obtains k1 where "wq_signal q k = Some k1" "sched_inv k1" "same_env k k1" "k_waitqs k1 q = ts" "distinct (t # ts)"
    "k_tasks k1 = (k_tasks k)(t := (k_tasks k t)\<lparr>t_state := TRUN, t_runlink := OnRun (nat (t_counter (k_tasks k t)))\<rparr>)"
proof -
  have d: "distinct (t # ts)"
    using links_okD(3) [OF sched_invD(1) [OF assms(1)], of q] assms(2) by simp
  have "t_runlink (k_tasks k t) = OnWait q"
    using links_okD(6) [OF sched_invD(1) [OF assms(1)], of t q] assms(2) by simp
  with sched_invD(3) [OF assms(1)] have "t \<in> set (k_alltaskq k)" by (metis runlink.distinct(3))
  from wakeup_ok [OF assms(1) this] obtain k1 where k1: "wakeup t k = Some k1" "sched_inv k1" "same_env k k1"
    "k_tasks k1 = (k_tasks k)(t := (if t_state (k_tasks k t) \<in> {TSLEEP, TWAIT}
       then (k_tasks k t)\<lparr>t_state := TRUN, t_runlink := OnRun (nat (t_counter (k_tasks k t)))\<rparr>
       else k_tasks k t))"
    "k_waitqs k1 q = (if t_state (k_tasks k t) \<in> {TSLEEP, TWAIT} then remove1 t (k_waitqs k q) else k_waitqs k q)"
    by metis
  with assms d show ?thesis by (intro that [of k1]) (simp_all add: wq_signal_def)
qed

lemma wq_broadcast_ok:
  assumes "sched_inv k" "\<forall>t\<in>set (k_waitqs k q). t_state (k_tasks k t) \<in> {TSLEEP, TWAIT}"
  shows "\<exists>k'. wq_broadcast q k = Some k' \<and> sched_inv k' \<and> same_env k k' \<and> k_waitqs k' q = [] \<and>
    k_tasks k' = (\<lambda>t. if t \<in> set (k_waitqs k q)
      then (k_tasks k t)\<lparr>t_state := TRUN, t_runlink := OnRun (nat (t_counter (k_tasks k t)))\<rparr> else k_tasks k t)"
  using assms
proof (induction "k_waitqs k q" arbitrary: k)
  case Nil
  then show ?case by (subst wq_broadcast.simps) auto
next
  case (Cons t ts)
  have q: "k_waitqs k q = t # ts" using Cons.hyps(2) by simp
  have st: "t_state (k_tasks k t) \<in> {TSLEEP, TWAIT}" "\<forall>u\<in>set ts. t_state (k_tasks k u) \<in> {TSLEEP, TWAIT}"
    using Cons.prems(2) q by (metis list.set_intros)+
  obtain k1 where k1: "wq_signal q k = Some k1" "sched_inv k1" "same_env k k1" "k_waitqs k1 q = ts" "distinct (t # ts)"
    "k_tasks k1 = (k_tasks k)(t := (k_tasks k t)\<lparr>t_state := TRUN, t_runlink := OnRun (nat (t_counter (k_tasks k t)))\<rparr>)"
    using wq_signal_step [OF Cons.prems(1) q st(1)] by metis
  have w: "ts = k_waitqs k1 q" using k1(4) by simp
  have "\<forall>u\<in>set (k_waitqs k1 q). t_state (k_tasks k1 u) \<in> {TSLEEP, TWAIT}"
    using st k1(4-6) by auto
  from Cons.hyps(1) [OF w k1(2) this] obtain k' where k': "wq_broadcast q k1 = Some k'" "sched_inv k'" "same_env k1 k'"
    "k_waitqs k' q = []" "k_tasks k' = (\<lambda>t. if t \<in> set (k_waitqs k1 q)
      then (k_tasks k1 t)\<lparr>t_state := TRUN, t_runlink := OnRun (nat (t_counter (k_tasks k1 t)))\<rparr> else k_tasks k1 t)"
    by auto
  have "wq_broadcast q k = Some k'"
    using k1(1) k'(1) q by (subst wq_broadcast.simps) simp
  moreover have "k_tasks k' = (\<lambda>u. if u \<in> set (k_waitqs k q)
      then (k_tasks k u)\<lparr>t_state := TRUN, t_runlink := OnRun (nat (t_counter (k_tasks k u)))\<rparr> else k_tasks k u)"
    using k'(5) k1(4-6) st(1) q by (auto simp: fun_eq_iff)
  ultimately show ?case using k' same_env_trans [OF k1(3) k'(3)] by auto
qed

lemma wq_broadcast_stuck_head:
  assumes "k_waitqs k q = t # ts" "t_state (k_tasks k t) \<notin> {TSLEEP, TWAIT}"
  shows "wq_broadcast q k = None"
proof -
  let ?P = "\<lambda>q k r. \<forall>t ts. k_waitqs k q = t # ts \<longrightarrow> t_state (k_tasks k t) \<in> {TSLEEP, TWAIT}"
  have "?P q k r" if "wq_broadcast q k = Some r" for r
    by (rule wq_broadcast.raw_induct [where P = ?P, OF _ that])
      (auto simp: wq_signal_def wakeup_def split: if_splits, blast)
  with assms show ?thesis by fastforce
qed

lemma wq_broadcast_stuck:
  assumes "sched_inv k" "u \<in> set (k_waitqs k q)" "t_state (k_tasks k u) \<notin> {TSLEEP, TWAIT}"
  shows "wq_broadcast q k = None"
  using assms
proof (induction "k_waitqs k q" arbitrary: k)
  case (Cons t ts)
  have q: "k_waitqs k q = t # ts" using Cons.hyps(2) by simp
  show ?case
  proof (cases "t_state (k_tasks k t) \<in> {TSLEEP, TWAIT}")
    case True
    then obtain k1 where k1: "wq_signal q k = Some k1" "sched_inv k1" "k_waitqs k1 q = ts"
      "k_tasks k1 = (k_tasks k)(t := (k_tasks k t)\<lparr>t_state := TRUN, t_runlink := OnRun (nat (t_counter (k_tasks k t)))\<rparr>)"
      using wq_signal_step [OF Cons.prems(1) q True] by metis
    have "u \<noteq> t" using True Cons.prems(3) by auto
    then have "u \<in> set (k_waitqs k1 q)" "t_state (k_tasks k1 u) \<notin> {TSLEEP, TWAIT}"
      using Cons.prems(2,3) k1 q by auto
    from Cons.hyps(1) [OF k1(3) [symmetric] k1(2) this] k1(1) q show ?thesis
      by (subst wq_broadcast.simps) simp
  qed (rule wq_broadcast_stuck_head [OF q])
qed simp

subsection \<open>Sequences of scheduler operations\<close>

text \<open>
  What the rest of the kernel does to the scheduler: the current task goes to sleep on a wait
  queue, tasks are woken up one by one or a queue at a time, the clock ticks, the current task
  changes its priority or gives up the processor.  The idle task never sleeps; a queue is woken up
  as a whole only when the tasks on it can be woken up.
\<close>

datatype sched_op =
    DoSleep nat | DoWait nat | DoStop nat | DoZombie nat
  | DoWakeup nat | DoSignal nat | DoBroadcast nat
  | DoTick | DoNice int | DoPrempt | DoSched

fun sched_exec :: "sched_op \<Rightarrow> kern \<Rightarrow> kern option" where
  "sched_exec (DoSleep q) k = (if k_curr k = k_idletask k then Some k else wq_sleep q k)"
| "sched_exec (DoWait q) k = (if k_curr k = k_idletask k then Some k else wq_wait q k)"
| "sched_exec (DoStop q) k = (if k_curr k = k_idletask k then Some k else wq_stop q k)"
| "sched_exec (DoZombie q) k = (if k_curr k = k_idletask k then Some k else wq_zombie q k)"
| "sched_exec (DoWakeup t) k = (if t \<in> set (k_alltaskq k) then wakeup t k else Some k)"
| "sched_exec (DoSignal q) k = wq_signal q k"
| "sched_exec (DoBroadcast q) k =
     (if \<forall>t\<in>set (k_waitqs k q). t_state (k_tasks k t) \<in> {TSLEEP, TWAIT} then wq_broadcast q k else Some k)"
| "sched_exec DoTick k = timerisr k"
| "sched_exec (DoNice inc) k = map_option snd (sysnice inc k)"
| "sched_exec DoPrempt k = prempt k"
| "sched_exec DoSched k = sched k"

lemma running_wakeup:
  assumes "running k" "t \<in> set (k_alltaskq k)"
  shows "\<exists>k'. wakeup t k = Some k' \<and> running k'"
proof -
  from assms(1) have "sched_inv k" by (simp add: running_def)
  from wakeup_ok [OF this assms(2)] obtain k' where k': "wakeup t k = Some k'" "sched_inv k'" "same_env k k'"
    "k_tasks k' = (k_tasks k)(t := (if t_state (k_tasks k t) \<in> {TSLEEP, TWAIT}
       then (k_tasks k t)\<lparr>t_state := TRUN, t_runlink := OnRun (nat (t_counter (k_tasks k t)))\<rparr>
       else k_tasks k t))"
    by metis
  with assms(1) show ?thesis by (auto simp: running_def curr_task_def same_env_def)
qed

lemma waitq_alltaskq: "sched_inv k \<Longrightarrow> t \<in> set (k_waitqs k q) \<Longrightarrow> t \<in> set (k_alltaskq k)"
  using links_okD(6) [OF sched_invD(1), of k t q] sched_invD(3) [of k t] by auto

lemma sched_exec_ok:
  assumes "running k"
  shows "\<exists>k'. sched_exec x k = Some k' \<and> running k'"
proof -
  from assms have I: "sched_inv k" by (simp add: running_def)
  have W: "\<exists>k'. waitsleep q st k = Some k' \<and> running k'"
    if "k_curr k \<noteq> k_idletask k" "st \<noteq> TRUN" "st = TWAIT \<Longrightarrow> \<not> hassig (curr_task k)" for q st
    using waitsleep_ok [OF assms that] by metis
  have S: "\<exists>k'. sched k = Some k' \<and> running k'"
    using sched_ok [OF I] by metis
  show ?thesis
  proof (cases x)
    case (DoSignal q)
    then show ?thesis
      using assms running_wakeup waitq_alltaskq [OF I, of _ q] by (auto simp: wq_signal_def split: list.splits)
  next
    case (DoBroadcast q)
    then show ?thesis
      using assms wq_broadcast_ok [OF I, of q] by (auto simp: running_def curr_task_def same_env_def)
  next
    case DoTick
    then show ?thesis using timerisr_ok [OF assms] by (metis sched_exec.simps(8))
  next
    case (DoNice inc)
    obtain e k' where "sysnice inc k = Some (e, k')" "running k'"
      using sysnice_ok [OF assms] by metis
    with DoNice show ?thesis by simp
  qed (use assms W S running_wakeup in
      \<open>auto simp: wq_sleep_def wq_wait_def wq_stop_def wq_zombie_def prempt_def\<close>)
qed

text \<open>
  C20: No sequence of scheduler operations makes an assertion of the scheduler fail or leaves it
  without a next task: every operation returns, the run queues and the mask stay consistent, every
  task is on the run queue of its quota exactly when it is runnable, and the current task is
  runnable whenever control is back.
\<close>
theorem scheduler_trace_safe:
  assumes "running k"
  shows "\<exists>k'. foldM sched_exec ops k = Some k' \<and> running k'"
  by (rule foldM_invariant [OF sched_exec_ok assms])

text \<open>
  C22: \<^verbatim>\<open>find()\<close> always returns, also when it has to recharge the quotas first, and its result is a
  runnable task whose quota is the largest of all runnable tasks.
\<close>
theorem find_highest:
  assumes "sched_inv k"
  shows "\<exists>t k'. find k = Some (t, k') \<and> sched_inv k' \<and> t \<in> set (k_alltaskq k') \<and>
    t_state (k_tasks k' t) = TRUN \<and> 0 < t_counter (k_tasks k' t) \<and>
    (\<forall>u\<in>set (k_alltaskq k'). t_state (k_tasks k' u) = TRUN \<longrightarrow>
       t_counter (k_tasks k' u) \<le> t_counter (k_tasks k' t))"
  using find_returns [OF assms] unfolding is_best_def by metis

text \<open>
  \<^verbatim>\<open>broadcast()\<close> on a queue of sleeping tasks returns with the queue empty and exactly those tasks
  made runnable; with a stopped or dead task on the queue, which \<^verbatim>\<open>wakeup()\<close> refuses to touch, it
  never returns.
\<close>
theorem broadcast_spec:
  assumes "sched_inv k"
  shows "if \<forall>t\<in>set (k_waitqs k q). t_state (k_tasks k t) \<in> {TSLEEP, TWAIT}
    then \<exists>k'. wq_broadcast q k = Some k' \<and> sched_inv k' \<and> k_waitqs k' q = [] \<and>
      (\<forall>t. t_state (k_tasks k' t) = (if t \<in> set (k_waitqs k q) then TRUN else t_state (k_tasks k t)))
    else wq_broadcast q k = None"
proof (cases "\<forall>t\<in>set (k_waitqs k q). t_state (k_tasks k t) \<in> {TSLEEP, TWAIT}")
  case True
  with wq_broadcast_ok [OF assms True] show ?thesis by auto
next
  case False
  then obtain t where "t \<in> set (k_waitqs k q)" "t_state (k_tasks k t) \<notin> {TSLEEP, TWAIT}" by auto
  from wq_broadcast_stuck [OF assms this] False show ?thesis by simp
qed

subsection \<open>What happens to the state of a task\<close>

lemma enqrun_state: "enqrun t k = Some k' \<Longrightarrow> t_state (k_tasks k' u) = t_state (k_tasks k u)"
  by (auto simp: enqrun_def Let_def)

lemma unlinkrun_state: "unlinkrun t k = Some k' \<Longrightarrow> t_state (k_tasks k' u) = t_state (k_tasks k u)"
  by (auto simp: unlinkrun_def split: runlink.splits)

lemma deqrun_state: "deqrun t k = Some k' \<Longrightarrow> t_state (k_tasks k' u) = t_state (k_tasks k u)"
  by (auto simp: deqrun_def Let_def bind_eq_Some_conv split: if_splits dest: unlinkrun_state)

lemma enqwait_state: "enqwait q t k = Some k' \<Longrightarrow> t_state (k_tasks k' u) = t_state (k_tasks k u)"
  by (auto simp: enqwait_def)

lemma setcounter_state: "setcounter t c k = Some k' \<Longrightarrow> t_state (k_tasks k' u) = t_state (k_tasks k u)"
  by (auto simp: setcounter_def bind_eq_Some_conv split: if_splits dest!: deqrun_state [where u = u] enqrun_state [where u = u])

lemma foldM_state:
  assumes "\<And>x s s'. f x s = Some s' \<Longrightarrow> P s = P s'"
  shows "foldM f xs s = Some s' \<Longrightarrow> P s = P s'"
proof (induction xs arbitrary: s)
  case (Cons x xs)
  then obtain s1 where "f x s = Some s1" "foldM f xs s1 = Some s'"
    by (auto simp: bind_eq_Some_conv)
  with Cons.IH assms show ?case by metis
qed simp

lemma recharge_state: "recharge k = Some k' \<Longrightarrow> t_state (k_tasks k' u) = t_state (k_tasks k u)"
  unfolding recharge_def
  by (rule foldM_state [where P = "\<lambda>k. t_state (k_tasks k u)", symmetric])
    (auto dest: setcounter_state [where u = u])

lemma find_loop_state:
  assumes "find_loop k = Some (t, k')"
  shows "t_state (k_tasks k' u) = t_state (k_tasks k u)"
proof -
  let ?P = "\<lambda>k r. t_state (k_tasks (snd r) u) = t_state (k_tasks k u)"
  have "?P k (t, k')"
    by (rule find_loop.raw_induct [where P = ?P, OF _ assms])
      (auto simp: bind_eq_Some_conv split: option.splits if_splits list.splits dest: recharge_state [where u = u])
  then show ?thesis by simp
qed

lemma sched_state: "sched k = Some k' \<Longrightarrow> t_state (k_tasks k' u) = t_state (k_tasks k u)"
  by (auto simp: sched_def find_def Let_def bind_eq_Some_conv dest: find_loop_state [where u = u])

lemma wakeup_state:
  "wakeup t k = Some k' \<Longrightarrow> t_state (k_tasks k u) \<notin> {TSLEEP, TWAIT} \<Longrightarrow>
   t_state (k_tasks k' u) = t_state (k_tasks k u)"
  by (auto simp: wakeup_def bind_eq_Some_conv split: if_splits
      dest!: enqrun_state [where u = u] unlinkrun_state [where u = u])

lemma waitsleep_state:
  "waitsleep q st k = Some k' \<Longrightarrow> u \<noteq> k_curr k \<Longrightarrow> t_state (k_tasks k' u) = t_state (k_tasks k u)"
  by (auto simp: waitsleep_def bind_eq_Some_conv
      dest!: deqrun_state [where u = u] enqwait_state [where u = u] sched_state [where u = u])

lemma wq_broadcast_state:
  assumes "wq_broadcast q k = Some k'"
  shows "t_state (k_tasks k u) \<notin> {TSLEEP, TWAIT} \<Longrightarrow> t_state (k_tasks k' u) = t_state (k_tasks k u)"
proof -
  let ?P = "\<lambda>q k k'. t_state (k_tasks k u) \<notin> {TSLEEP, TWAIT} \<longrightarrow> t_state (k_tasks k' u) = t_state (k_tasks k u)"
  have "?P q k k'"
  proof (rule wq_broadcast.raw_induct [where P = ?P, OF _ assms])
    fix f q k k'
    assume f: "\<And>q k k'. f q k = Some k' \<Longrightarrow> ?P q k k'"
      and run: "(if k_waitqs k q = [] then Some k else wq_signal q k \<bind> f q) = Some k'"
    show "?P q k k'"
    proof (cases "k_waitqs k q")
      case (Cons t ts)
      with run obtain k1 where "wakeup t k = Some k1" "f q k1 = Some k'"
        by (auto simp: wq_signal_def bind_eq_Some_conv)
      with f [of q k1 k'] wakeup_state [of t k k1 u] show ?thesis by metis
    qed (use run in simp)
  qed
  then show "t_state (k_tasks k u) \<notin> {TSLEEP, TWAIT} \<Longrightarrow> t_state (k_tasks k' u) = t_state (k_tasks k u)" by blast
qed

lemma sched_exec_state:
  assumes "sched_exec x k = Some k'" "u \<noteq> k_curr k" "t_state (k_tasks k u) \<notin> {TSLEEP, TWAIT}"
  shows "t_state (k_tasks k' u) = t_state (k_tasks k u)"
proof -
  note s = waitsleep_state [where u = u] sched_state [where u = u] setcounter_state [where u = u]
  show ?thesis
  proof (cases x)
    case (DoWakeup t)
    with assms wakeup_state [of t k k' u] show ?thesis by (auto split: if_splits)
  next
    case (DoSignal q)
    with assms wakeup_state [of _ k k' u] show ?thesis by (auto simp: wq_signal_def split: list.splits)
  next
    case (DoBroadcast q)
    with assms wq_broadcast_state [of q k k' u] show ?thesis by (auto split: if_splits)
  qed (use assms s in \<open>auto simp: wq_sleep_def wq_wait_def wq_stop_def wq_zombie_def prempt_def timerisr_def
      sysnice_def Let_def bind_eq_Some_conv split: if_splits\<close>)
qed

subsection \<open>What scheduler operations leave alone\<close>

definition sframe :: "kern \<Rightarrow> kern \<Rightarrow> bool" where
  "sframe k k' \<longleftrightarrow> (\<forall>u. same_task (k_tasks k u) (k_tasks k' u)) \<and>
     k_alltaskq k' = k_alltaskq k \<and> k_idletask k' = k_idletask k \<and> k_inittask k' = k_inittask k \<and>
     k_hashtab k' = k_hashtab k \<and> k_lastpid k' = k_lastpid k \<and> k_pgrps k' = k_pgrps k \<and>
     k_sessions k' = k_sessions k \<and> k_pghash k' = k_pghash k \<and> k_allsessionq k' = k_allsessionq k"

lemma sframe_refl [simp]: "sframe k k"
  by (simp add: sframe_def)

lemma sframe_trans: "sframe k1 k2 \<Longrightarrow> sframe k2 k3 \<Longrightarrow> sframe k1 k3"
  unfolding sframe_def using same_task_trans by simp metis

lemma sframe_upd:
  assumes "\<And>x. same_task x (f x)"
  shows "sframe k (task_upd t f k)"
  using assms by (simp add: sframe_def)

lemma sframe_flags [simp]:
  "sframe k (k'\<lparr>k_needresched := b\<rparr>) = sframe k k'"
  "sframe k (k'\<lparr>k_mask := m\<rparr>) = sframe k k'"
  "sframe k (k'\<lparr>k_curr := c\<rparr>) = sframe k k'"
  "sframe k (k'\<lparr>k_nlongjump := n\<rparr>) = sframe k k'"
  "sframe k (k'\<lparr>k_passedtick := p\<rparr>) = sframe k k'"
  "sframe k (k'\<lparr>k_runtaskq := q\<rparr>) = sframe k k'"
  "sframe k (k'\<lparr>k_waitqs := w\<rparr>) = sframe k k'"
  "sframe (k\<lparr>k_passedtick := p\<rparr>) k' = sframe k k'"
  by (simp_all add: sframe_def)

lemma sframe_upds [simp]:
  "sframe k (task_upd t (t_state_update s) k)" "sframe k (task_upd t (t_counter_update c) k)"
  "sframe k (task_upd t (t_priority_update p) k)" "sframe k (task_upd t (t_runlink_update l) k)"
  by (rule sframe_upd; simp add: same_task_def)+

lemma enqrun_frame: "enqrun t k = Some k' \<Longrightarrow> sframe k k'"
  by (auto simp: enqrun_def Let_def)

lemma unlinkrun_frame: "unlinkrun t k = Some k' \<Longrightarrow> sframe k k'"
  by (auto simp: unlinkrun_def split: runlink.splits)

lemma deqrun_frame: "deqrun t k = Some k' \<Longrightarrow> sframe k k'"
  by (auto simp: deqrun_def Let_def bind_eq_Some_conv split: if_splits dest: unlinkrun_frame)

lemma enqwait_frame: "enqwait q t k = Some k' \<Longrightarrow> sframe k k'"
  by (auto simp: enqwait_def)

lemma setcounter_frame: "setcounter t c k = Some k' \<Longrightarrow> sframe k k'"
  by (auto simp: setcounter_def bind_eq_Some_conv split: if_splits
      dest!: deqrun_frame enqrun_frame)
    (metis sframe_trans sframe_upds(2))

lemma recharge_frame: "recharge k = Some k' \<Longrightarrow> sframe k k'"
proof -
  have "foldM (\<lambda>t k. setcounter t (newquota t k) k) ts k = Some k' \<Longrightarrow> sframe k k'" for ts
  proof (induction ts arbitrary: k)
    case (Cons t ts)
    then show ?case
      by (auto simp: bind_eq_Some_conv intro: sframe_trans dest: setcounter_frame)
  qed simp
  then show "recharge k = Some k' \<Longrightarrow> sframe k k'" by (simp add: recharge_def)
qed

lemma find_loop_frame:
  assumes "find_loop k = Some (t, k')"
  shows "sframe k k'"
proof -
  have "sframe k (snd (t, k'))"
    by (rule find_loop.raw_induct [where P = "\<lambda>k r. sframe k (snd r)", OF _ assms])
      (auto simp: bind_eq_Some_conv split: option.splits if_splits list.splits
        dest: recharge_frame intro: sframe_trans)
  then show ?thesis by simp
qed

lemma sched_frame: "sched k = Some k' \<Longrightarrow> sframe k k'"
  by (auto simp: sched_def find_def Let_def bind_eq_Some_conv dest: find_loop_frame)

lemma wakeup_frame: "wakeup t k = Some k' \<Longrightarrow> sframe k k'"
  by (auto simp: wakeup_def bind_eq_Some_conv split: if_splits dest!: enqrun_frame unlinkrun_frame)
    (metis sframe_trans sframe_upds(1))+

lemma waitsleep_frame: "waitsleep q st k = Some k' \<Longrightarrow> sframe k k'"
  by (auto simp: waitsleep_def bind_eq_Some_conv dest!: deqrun_frame enqwait_frame sched_frame)
    (metis sframe_trans sframe_upds(1))

lemma wq_broadcast_frame:
  assumes "wq_broadcast q k = Some k'"
  shows "sframe k k'"
  by (rule wq_broadcast.raw_induct [where P = "\<lambda>q k k'. sframe k k'", OF _ assms])
    (auto simp: wq_signal_def bind_eq_Some_conv split: if_splits list.splits
      dest: wakeup_frame intro: sframe_trans)

lemma timerisr_frame: "timerisr k = Some k' \<Longrightarrow> sframe k k'"
  by (auto simp: timerisr_def Let_def bind_eq_Some_conv split: if_splits dest!: setcounter_frame)

lemma sysnice_frame: "sysnice inc k = Some (e, k') \<Longrightarrow> sframe k k'"
  by (auto simp: sysnice_def Let_def bind_eq_Some_conv split: if_splits dest!: setcounter_frame)
    (metis sframe_trans sframe_upds(3))+

lemma sched_exec_frame: "sched_exec x k = Some k' \<Longrightarrow> sframe k k'"
  by (cases x)
    (auto simp: wq_sleep_def wq_wait_def wq_stop_def wq_zombie_def wq_signal_def prempt_def
      split: if_splits list.splits
      dest: waitsleep_frame wakeup_frame wq_broadcast_frame timerisr_frame sysnice_frame sched_frame)

subsection \<open>A small process table\<close>

definition demo_task :: task where
  "demo_task = \<lparr>t_pid = 0, t_uid = 0, t_euid = 0, t_suid = 0, t_gid = 0, t_egid = 0, t_sgid = 0,
     t_state = TRUN, t_flags = 0, t_priority = 16, t_counter = 0, t_utick = 0, t_stick = 0,
     t_cutick = 0, t_cstick = 0, t_starttick = 0, t_sigset = 0, t_sigmask = 0,
     t_sigvec = replicate 32 \<lparr>sa_func = 0, sa_mask = 0, sa_flags = 0, sa_restorer = 0\<rparr>,
     t_exitcode = 0, t_parent = 0, t_childq = [], t_pgrp = 0, t_runlink = Unlinked\<rparr>"

text \<open>The idle task (100), init (200, current) and a shell (300) that sleeps on the wait queue 7.\<close>

definition demo_kern :: kern where
  "demo_kern = \<lparr>k_tasks = (\<lambda>_. demo_task)
       (100 := demo_task\<lparr>t_childq := [200], t_pgrp := 1000, t_runlink := OnRun 0\<rparr>,
        200 := demo_task\<lparr>t_pid := 1, t_parent := 100, t_childq := [300], t_pgrp := 1000, t_runlink := OnRun 0\<rparr>,
        300 := demo_task\<lparr>t_pid := 2, t_uid := 500, t_euid := 500, t_suid := 500, t_state := TWAIT,
                 t_counter := 5, t_parent := 200, t_pgrp := 2000, t_runlink := OnWait 7\<rparr>),
     k_alltaskq = [100, 200, 300],
     k_runtaskq = [100, 200] # replicate 31 [],
     k_waitqs = (\<lambda>_. [])(7 := [300]),
     k_mask = 1, k_needresched = False, k_nlongjump = 0,
     k_curr = 200, k_idletask = 100, k_inittask = 200,
     k_hashtab = [[100], [200], [300], []], k_lastpid = 2,
     k_pgrps = (\<lambda>_. \<lparr>g_pgid = 0, g_taskq = [], g_session = 0\<rparr>)
       (1000 := \<lparr>g_pgid = 0, g_taskq = [100, 200], g_session = 1100\<rparr>,
        2000 := \<lparr>g_pgid = 2, g_taskq = [300], g_session = 2100\<rparr>),
     k_sessions = (\<lambda>_. \<lparr>s_sid = 0, s_leader = 0, s_fg = 0, s_tty = 0, s_pgrpq = []\<rparr>)
       (1100 := \<lparr>s_sid = 0, s_leader = 100, s_fg = 0, s_tty = 0, s_pgrpq = [1000]\<rparr>,
        2100 := \<lparr>s_sid = 2, s_leader = 300, s_fg = 2000, s_tty = 0, s_pgrpq = [2000]\<rparr>),
     k_pghash = [[1000], [], [2000], []], k_allsessionq = [1100, 2100],
     k_passedtick = 0\<rparr>"

lemma nth_demo: "i < 32 \<Longrightarrow> (xs # replicate 31 []) ! i = (if i = 0 then xs else [])"
  by (cases i) auto

lemma demo_links: "links_ok demo_kern"
  unfolding links_ok_def
  by (auto simp: demo_kern_def demo_task_def nth_demo bit_1_iff split: if_splits)

lemma demo_running: "running demo_kern"
  using demo_links
  by (auto simp: running_def sched_inv_def demo_kern_def demo_task_def curr_task_def task_ok_def
      between_def hassig_def unmaskedsig_def)

theorem scheduler_trace_witness:
  "\<exists>k'. foldM sched_exec [DoTick, DoSleep 9, DoBroadcast 7, DoSched, DoTick, DoWait 7] demo_kern = Some k' \<and> running k'"
  by (rule scheduler_trace_safe [OF demo_running])

lemma demo_sched_inv: "sched_inv demo_kern"
  using demo_running by (simp add: running_def)

theorem find_highest_witness:
  "\<exists>t k'. find demo_kern = Some (t, k') \<and> sched_inv k' \<and> 0 < t_counter (k_tasks k' t)"
  using find_highest [OF demo_sched_inv] by metis

theorem broadcast_witness:
  "\<exists>k'. wq_broadcast 7 demo_kern = Some k' \<and> sched_inv k' \<and> t_state (k_tasks k' 300) = TRUN"
proof -
  have w: "k_waitqs demo_kern 7 = [300]" and s: "t_state (k_tasks demo_kern 300) = TWAIT"
    by (simp_all add: demo_kern_def)
  show ?thesis
    using broadcast_spec [OF demo_sched_inv, of 7] by (auto simp: w s)
qed

end
