(* ===== verification/Kern_Signal.thy ===== *)
theory Kern_Signal
  imports Kern_Sched
begin

text \<open>
  Signals: \<^verbatim>\<open>kern/signal.cc\<close> (masks, actions, default actions, the frame a handler runs on) and the
  sending half of \<^verbatim>\<open>kern/kill.cc\<close> (\<^verbatim>\<open>task_t::post\<close>, \<^verbatim>\<open>kill\<close>, \<^verbatim>\<open>force\<close>).  Delivery
  (\<^verbatim>\<open>checksignal\<close>), which can end the task, is in \<^verbatim>\<open>Kern_Kill\<close>.

  A handler is a user address (\<^verbatim>\<open>SIGXDFL\<close> is 0, \<^verbatim>\<open>SIGXIGN\<close> is 1); whether \<^verbatim>\<open>verr\<close> accepts it is the
  argument \<open>okf\<close> of the operations that ask.  Words a system call writes to user memory are part
  of its result.
\<close>

subsection \<open>Actions\<close>

definition sigact_zero :: sigact where
  "sigact_zero = \<lparr>sa_func = 0, sa_mask = 0, sa_flags = 0, sa_restorer = 0\<rparr>"

definition sigvec_ctor :: "sigact list" where
  "sigvec_ctor = replicate 32 sigact_zero"

text \<open>
  A task that exits disposes its \<^verbatim>\<open>sigvec\<close>; the pointer is then \<^verbatim>\<open>NULL\<close>, represented by the empty list,
  and reading through it is an unhandled page fault of the kernel.
\<close>

definition sigvec_get :: "sigact list \<Rightarrow> int \<Rightarrow> sigact option" where
  "sigvec_get vec signo = do { kassert (validsig signo); kassert (vec \<noteq> []); Some (vec ! nat signo) }"

text \<open>The copying loop of \<^verbatim>\<open>sigvec_t::clone\<close>, on the array of the new object.\<close>

definition sigvec_clone :: "sigact list \<Rightarrow> sigact list" where
  "sigvec_clone vec = fold (\<lambda>i x. x[i := vec ! i]) [0..<32] sigvec_ctor"

definition sigvec_clearonexec :: "sigact list \<Rightarrow> sigact list" where
  "sigvec_clearonexec vec = map (\<lambda>sa. let sa = sa\<lparr>sa_mask := 0, sa_flags := 0\<rparr>
     in if sa_func sa \<noteq> SIGXIGN then sa\<lparr>sa_func := 0\<rparr> else sa) vec"

datatype dflact = Ignore | Terminate | Coredump | Stop | NoEntry

definition sigdflact :: "dflact list" where
  "sigdflact = [Ignore, Terminate, Terminate, Coredump, Coredump, Coredump, Coredump, Ignore,
     Coredump, Terminate, Terminate, Coredump, Terminate, Terminate, Terminate, Terminate,
     Terminate, Ignore, Ignore, Stop, Stop, Stop, Stop, Terminate,
     Ignore, Coredump, Coredump, Terminate, Ignore, Ignore, NoEntry, NoEntry]"

definition sigdflign :: "int \<Rightarrow> bool" where
  "sigdflign signo \<longleftrightarrow> sigdflact ! nat signo = Ignore"

subsection \<open>Masks\<close>

definition curr_upd :: "(task \<Rightarrow> task) \<Rightarrow> kern \<Rightarrow> kern" where
  "curr_upd f k = task_upd (k_curr k) f k"

text \<open>The second component is the word written through \<^verbatim>\<open>oset\<close>.\<close>

definition syssigprocmask :: "int \<Rightarrow> u32 uptr \<Rightarrow> unit uptr \<Rightarrow> kern \<Rightarrow> int \<times> u32 option \<times> kern" where
  "syssigprocmask how uset oset k =
     (if oset \<noteq> UNull \<and> uver oset \<noteq> 0 then (uver oset, None, k)
      else let out = (if oset \<noteq> UNull then Some (t_sigmask (curr_task k)) else None) in
        case uset of
          UOk s \<Rightarrow>
            if sigset_invalid s then (EINVAL, out, k)
            else if how = 0
              then (0, out, curr_upd (\<lambda>t. t\<lparr>t_sigmask := sigset_addset (t_sigmask t) s\<rparr>) k)
            else if how = 1
              then (0, out, curr_upd (\<lambda>t. t\<lparr>t_sigmask := sigset_delset (t_sigmask t) s\<rparr>) k)
            else if how = 2
              then (0, out, curr_upd (\<lambda>t. t\<lparr>t_sigmask := s\<rparr>) k)
            else (EINVAL, out, k)
        | _ \<Rightarrow> (uver uset, out, k))"

definition syssgetmask :: "kern \<Rightarrow> u32" where
  "syssgetmask k = t_sigset (curr_task k)"

definition sysssetmask :: "u32 \<Rightarrow> kern \<Rightarrow> u32 \<times> kern" where
  "sysssetmask newmask k =
     (if newmask AND (push_bit 8 1 OR push_bit 18 1) \<noteq> 0 then (word_of_int EINVAL, k)
      else (t_sigmask (curr_task k), curr_upd (\<lambda>t. t\<lparr>t_sigmask := newmask\<rparr>) k))"

definition syssigpending :: "unit uptr \<Rightarrow> kern \<Rightarrow> int \<times> u32 option" where
  "syssigpending uset k = (if uver uset \<noteq> 0 then (uver uset, None) else (0, Some (maskedsig (curr_task k))))"

text \<open>
  \<^verbatim>\<open>syssigsuspend\<close> before and after the wait: the first part installs the new mask and sleeps on the
  anonymous queue \<open>q\<close>, the second restores the old mask when the task runs again.
\<close>

definition syssigsuspend_enter :: "u32 \<Rightarrow> nat \<Rightarrow> kern \<Rightarrow> (int + u32) \<times> kern option" where
  "syssigsuspend_enter bits q k =
     (if sigset_invalid bits then (Inl EINVAL, Some k)
      else (Inr (t_sigmask (curr_task k)), wq_wait q (curr_upd (\<lambda>t. t\<lparr>t_sigmask := bits\<rparr>) k)))"

definition syssigsuspend_leave :: "u32 \<Rightarrow> kern \<Rightarrow> int \<times> kern" where
  "syssigsuspend_leave oldmask k = (EINTR, curr_upd (\<lambda>t. t\<lparr>t_sigmask := oldmask\<rparr>) k)"

definition syspause_enter :: "nat \<Rightarrow> kern \<Rightarrow> kern option" where
  "syspause_enter q k = wq_wait q k"

subsection \<open>Setting actions\<close>

definition checkpending :: "sigact \<Rightarrow> int \<Rightarrow> kern \<Rightarrow> kern" where
  "checkpending sa signo k =
     (if sa_func sa = SIGXIGN then
        if signo = SIGCHLD then k
        else curr_upd (\<lambda>t. t\<lparr>t_sigset := sigset_del signo (t_sigset t)\<rparr>) k
      else if sa_func sa = SIGXDFL then
        if \<not> sigdflign signo then k
        else curr_upd (\<lambda>t. t\<lparr>t_sigset := sigset_del signo (t_sigset t)\<rparr>) k
      else k)"

definition verfunc :: "(u32 \<Rightarrow> bool) \<Rightarrow> u32 \<Rightarrow> int" where
  "verfunc okf func =
     (if func = SIGXIGN \<or> func = SIGXDFL then 0 else if okf func then 0 else EFAULT)"

abbreviation (input) SANOCLDSTOP :: u32 where "SANOCLDSTOP \<equiv> 1"
abbreviation (input) SANOMASK :: u32 where "SANOMASK \<equiv> 0x40000000"
abbreviation (input) SAONESHOT :: u32 where "SAONESHOT \<equiv> 0x80000000"

definition sa_put :: "int \<Rightarrow> sigact \<Rightarrow> kern \<Rightarrow> kern" where
  "sa_put signo sa k = curr_upd (\<lambda>t. t\<lparr>t_sigvec := (t_sigvec t)[nat signo := sa]\<rparr>) k"

definition syssignal :: "(u32 \<Rightarrow> bool) \<Rightarrow> int \<Rightarrow> u32 \<Rightarrow> kern \<Rightarrow> (u32 \<times> kern) option" where
  "syssignal okf signo func k =
     (if \<not> validsig signo \<or> signo = SIGKILL \<or> signo = SIGSTOP then Some (word_of_int EINVAL, k)
      else if verfunc okf func \<noteq> 0 then Some (word_of_int (verfunc okf func), k)
      else do {
        sa \<leftarrow> sigvec_get (t_sigvec (curr_task k)) signo;
        let nsa = \<lparr>sa_func = func, sa_mask = 0, sa_flags = SAONESHOT OR SANOMASK, sa_restorer = 0\<rparr>;
        Some (sa_func sa, checkpending nsa signo (sa_put signo nsa k)) })"

text \<open>The second component is the structure written through \<^verbatim>\<open>oact\<close>.\<close>

definition syssigaction ::
  "(u32 \<Rightarrow> bool) \<Rightarrow> int \<Rightarrow> sigact uptr \<Rightarrow> unit uptr \<Rightarrow> kern \<Rightarrow> (int \<times> sigact option \<times> kern) option" where
  "syssigaction okf signo act oact k =
     (if \<not> validsig signo \<or> signo = SIGKILL \<or> signo = SIGSTOP then Some (EINVAL, None, k)
      else do {
        sa \<leftarrow> sigvec_get (t_sigvec (curr_task k)) signo;
        if oact \<noteq> UNull \<and> uver oact \<noteq> 0 then Some (uver oact, None, k)
        else let out = (if oact \<noteq> UNull then Some sa else None) in
          case act of
            UNull \<Rightarrow> Some (0, out, k)
          | UBad \<Rightarrow> Some (uver act, out, k)
          | UOk a \<Rightarrow>
              if verfunc okf (sa_func a) \<noteq> 0 then Some (verfunc okf (sa_func a), out, k)
              else if sigset_invalid (sa_mask a) then Some (EINVAL, out, k)
              else let nsa = (if sa_flags a AND SANOMASK \<noteq> 0 then a\<lparr>sa_mask := 0\<rparr>
                              else a\<lparr>sa_mask := sigset_add signo (sa_mask a)\<rparr>)
                in Some (0, out, checkpending nsa signo (sa_put signo nsa k)) })"

subsection \<open>Sending\<close>

definition post :: "nat \<Rightarrow> int \<Rightarrow> kern \<Rightarrow> kern option" where
  "post t signo k =
     (if t = k_idletask k \<or> t_state (k_tasks k t) = TZOMBIE then Some k
      else if t = k_inittask k \<and> signo \<noteq> SIGCHLD then Some k
      else do {
        kassert (validsig signo);
        let k1 = (if signo = SIGKILL \<or> signo = SIGCONT
            then task_upd t (\<lambda>x. x\<lparr>t_sigset := sigset_del4 SIGSTOP SIGTSTP SIGTTIN SIGTTOU (t_sigset x)\<rparr>) k
          else if signo = SIGSTOP \<or> signo = SIGTSTP \<or> signo = SIGTTIN \<or> signo = SIGTTOU
            then task_upd t (\<lambda>x. x\<lparr>t_sigset := sigset_del SIGCONT (t_sigset x)\<rparr>) k
          else k);
        sa \<leftarrow> sigvec_get (t_sigvec (k_tasks k1 t)) signo;
        if sa_func sa = SIGXIGN \<and> signo \<noteq> SIGCHLD then Some k1
        else if sa_func sa = SIGXDFL \<and> sigdflign signo then Some k1
        else let k2 = task_upd t (\<lambda>x. x\<lparr>t_sigset := sigset_add signo (t_sigset x)\<rparr>) k1 in
          if \<not> contain (t_sigmask (k_tasks k2 t)) signo \<and> t_state (k_tasks k2 t) = TWAIT
          then wakeup t k2 else Some k2 })"

definition kill :: "nat \<Rightarrow> int \<Rightarrow> kern \<Rightarrow> (int \<times> kern) option" where
  "kill t signo k =
     (let c = curr_task k; x = k_tasks k t in
      if \<not> validsig signo then Some (EINVAL, k)
      else if t_euid c \<noteq> t_euid x \<and> t_uid c \<noteq> t_uid x \<and> \<not> suser k \<and>
          \<not> (signo = SIGCONT \<and> g_session (k_pgrps k (t_pgrp c)) = g_session (k_pgrps k (t_pgrp x)))
        then Some (EPERM, k)
      else do { k1 \<leftarrow> post t signo k; Some (0, k1) })"

definition force :: "nat \<Rightarrow> int \<Rightarrow> kern \<Rightarrow> kern option" where
  "force t signo k = do {
     kassert (validsig signo);
     let k1 = task_upd t (\<lambda>x. x\<lparr>t_sigmask := sigset_del signo (t_sigmask x)\<rparr>) k;
     sa \<leftarrow> sigvec_get (t_sigvec (k_tasks k1 t)) signo;
     let k2 = (if sa_func sa = SIGXIGN
       then task_upd t (\<lambda>x. x\<lparr>t_sigvec := (t_sigvec x)[nat signo := sa\<lparr>sa_func := SIGXDFL\<rparr>]\<rparr>) k1 else k1);
     post t signo k2 }"

subsection \<open>The frame of a handler\<close>

record regs =
  r_ebx :: u32
  r_ecx :: u32
  r_edx :: u32
  r_esi :: u32
  r_edi :: u32
  r_ebp :: u32
  r_eax :: u32
  r_ds :: u16
  r_es :: u16
  r_fs :: u16
  r_gs :: u16
  r_origeax :: u32
  r_eip :: u32
  r_cs :: u16
  r_eflags :: u32
  r_esp :: u32
  r_ss :: u16

record sigcontext =
  sc_retaddr :: u32
  sc_signo :: int
  sc_gs :: u16
  sc_fs :: u16
  sc_es :: u16
  sc_ds :: u16
  sc_edi :: u32
  sc_esi :: u32
  sc_ebp :: u32
  sc_esp :: u32
  sc_ebx :: u32
  sc_edx :: u32
  sc_ecx :: u32
  sc_eax :: u32
  sc_eip :: u32
  sc_cs :: u16
  sc_eflags :: u32
  sc_ss :: u16
  sc_oldsigmask :: u32
  sc_asmcode :: "u8 list"

definition UCODESEL :: u16 where "UCODESEL = 0x0f"
definition UDATASEL :: u16 where "UDATASEL = 0x17"
definition NOTSYSCALLFRAME :: u32 where "NOTSYSCALLFRAME = 0x19790106"

definition asmcode :: "u8 list" where
  "asmcode = [0x50, 0xb8, 119, 0, 0, 0, 0xcd, 0x80]"

definition sigcontext_bytes :: u32 where "sigcontext_bytes = 84"

text \<open>
  \<^verbatim>\<open>setupframe\<close>: the address of the frame and its contents; \<open>None\<close> when the stack cannot be written
  and the task exits with \<^verbatim>\<open>SIGSEGV\<close>.
\<close>

definition setupframe :: "(u32 \<Rightarrow> bool) \<Rightarrow> regs \<Rightarrow> int \<Rightarrow> u32 \<Rightarrow> (u32 \<times> sigcontext) option" where
  "setupframe okw r signo oldsigmask =
     (let sc = r_esp r - sigcontext_bytes in
      if \<not> okw sc then None
      else Some (sc, \<lparr>sc_retaddr = sc + 76, sc_signo = signo, sc_gs = r_gs r, sc_fs = r_fs r,
        sc_es = r_es r, sc_ds = r_ds r, sc_edi = r_edi r, sc_esi = r_esi r, sc_ebp = r_ebp r,
        sc_esp = r_esp r, sc_ebx = r_ebx r, sc_edx = r_edx r, sc_ecx = r_ecx r, sc_eax = r_eax r,
        sc_eip = r_eip r, sc_cs = r_cs r, sc_eflags = r_eflags r, sc_ss = r_ss r,
        sc_oldsigmask = oldsigmask, sc_asmcode = asmcode\<rparr>))"

text \<open>
  \<^verbatim>\<open>syssigreturn\<close> with the frame found at \<^verbatim>\<open>r->esp\<close>: \<open>Inl\<close> is the exit code of \<^verbatim>\<open>doexit(SIGSEGV)\<close>,
  otherwise the value for \<^verbatim>\<open>eax\<close> and the new registers.
\<close>

definition syssigreturn :: "(u32 \<Rightarrow> bool) \<Rightarrow> sigcontext uptr \<Rightarrow> regs \<Rightarrow> kern \<Rightarrow> (int + u32 \<times> regs) \<times> kern" where
  "syssigreturn okr frame r k = (case frame of
     UOk sc \<Rightarrow>
       let k1 = curr_upd (\<lambda>t. t\<lparr>t_sigmask := sc_oldsigmask sc\<rparr>) k;
           k2 = curr_upd (\<lambda>t. t\<lparr>t_sigmask := sigset_del2 SIGKILL SIGSTOP (t_sigmask t)\<rparr>) k1;
           r1 = r\<lparr>r_cs := UCODESEL, r_ss := UDATASEL, r_ds := UDATASEL, r_es := UDATASEL,
                  r_fs := UDATASEL, r_gs := UDATASEL\<rparr>
       in if \<not> okr (sc_eip sc) then (Inl SIGSEGV, k2)
          else (Inr (sc_eax sc, r1\<lparr>r_ebx := sc_ebx sc, r_ecx := sc_ecx sc, r_edx := sc_edx sc,
            r_esi := sc_esi sc, r_edi := sc_edi sc, r_esp := sc_esp sc, r_ebp := sc_ebp sc,
            r_eip := sc_eip sc, r_eflags := sc_eflags sc, r_origeax := NOTSYSCALLFRAME\<rparr>), k2)
   | _ \<Rightarrow> (Inl SIGSEGV, k))"

subsection \<open>Posting keeps the scheduler consistent\<close>

lemma task_ok_sigset:
  "task_ok x \<Longrightarrow> (\<And>n. bit s n \<Longrightarrow> bit (t_sigset x) n) \<Longrightarrow> task_ok (x\<lparr>t_sigset := s\<rparr>)"
  by (cases "t_runlink x") (auto simp: task_ok_def hassig_iff)

lemma bit_del4: "bit (sigset_del4 a b c d s) n \<Longrightarrow> bit s n"
  by (simp add: sigset_del4_def bit_and_iff)

lemma bit_del: "bit (sigset_del a s) n \<Longrightarrow> bit s n"
  by (simp add: sigset_del_def bit_and_iff)

lemma bit_add: "bit (sigset_add a s) n \<longleftrightarrow> bit s n \<or> n = nat ((a - 1) mod 32)"
  by (auto simp: sigset_add_def bit_or_iff)

text \<open>The task as \<^verbatim>\<open>post\<close> leaves it, when the signal is not discarded.\<close>

definition post_clear :: "int \<Rightarrow> u32 \<Rightarrow> u32" where
  "post_clear signo s =
     (if signo = SIGKILL \<or> signo = SIGCONT then sigset_del4 SIGSTOP SIGTSTP SIGTTIN SIGTTOU s
      else if signo = SIGSTOP \<or> signo = SIGTSTP \<or> signo = SIGTTIN \<or> signo = SIGTTOU then sigset_del SIGCONT s
      else s)"

lemma bit_post_clear: "bit (post_clear signo s) n \<Longrightarrow> bit s n"
  by (auto simp: post_clear_def dest: bit_del4 bit_del split: if_splits)

definition discards :: "int \<Rightarrow> task \<Rightarrow> bool" where
  "discards signo x \<longleftrightarrow> (let f = sa_func (t_sigvec x ! nat signo) in
     (f = SIGXIGN \<and> signo \<noteq> SIGCHLD) \<or> (f = SIGXDFL \<and> sigdflign signo))"

definition deaf :: "nat \<Rightarrow> int \<Rightarrow> kern \<Rightarrow> bool" where
  "deaf t signo k \<longleftrightarrow> t = k_idletask k \<or> t_state (k_tasks k t) = TZOMBIE \<or> (t = k_inittask k \<and> signo \<noteq> SIGCHLD)"

lemma post_eq:
  assumes "validsig signo" "deaf t signo k \<or> t_sigvec (k_tasks k t) \<noteq> []"
  shows "post t signo k =
    (if deaf t signo k then Some k
     else let k1 = task_upd t (\<lambda>x. x\<lparr>t_sigset := post_clear signo (t_sigset x)\<rparr>) k in
       if discards signo (k_tasks k t) then Some k1
       else let k2 = task_upd t (\<lambda>x. x\<lparr>t_sigset := sigset_add signo (t_sigset x)\<rparr>) k1 in
         if \<not> contain (t_sigmask (k_tasks k t)) signo \<and> t_state (k_tasks k t) = TWAIT then wakeup t k2 else Some k2)"
proof -
  have id: "task_upd t (\<lambda>x. x) k = k"
    by (simp add: task_upd_def)
  have K1: "(if signo = SIGKILL \<or> signo = SIGCONT
            then task_upd t (\<lambda>x. x\<lparr>t_sigset := sigset_del4 SIGSTOP SIGTSTP SIGTTIN SIGTTOU (t_sigset x)\<rparr>) k
          else if signo = SIGSTOP \<or> signo = SIGTSTP \<or> signo = SIGTTIN \<or> signo = SIGTTOU
            then task_upd t (\<lambda>x. x\<lparr>t_sigset := sigset_del SIGCONT (t_sigset x)\<rparr>) k
          else k) = task_upd t (\<lambda>x. x\<lparr>t_sigset := post_clear signo (t_sigset x)\<rparr>) k"
    by (simp add: post_clear_def id)
  let ?gone = "t = k_idletask k \<or> t_state (k_tasks k t) = TZOMBIE"
  let ?init = "t = k_inittask k \<and> signo \<noteq> SIGCHLD"
  show ?thesis
  proof (cases "deaf t signo k")
    case True
    then have "?gone \<or> ?init" by (auto simp: deaf_def)
    then have "post t signo k = Some k"
      unfolding post_def by (cases ?gone) (simp_all only: if_True if_False refl simp_thms)
    with True show ?thesis by (simp only: if_True)
  next
    case False
    then have g: "\<not> ?gone" "\<not> ?init" by (auto simp: deaf_def)
    have v: "kassert (validsig signo) = Some ()" using assms by simp
    show ?thesis
      using assms(2) False unfolding post_def K1 Let_def sigvec_get_def if_not_P [OF False] if_not_P [OF g(1)] if_not_P [OF g(2)] v
        discards_def
      by simp
  qed
qed

text \<open>
  The target after a signal was posted: its pending set, and the state it is in.
\<close>

definition post_result :: "int \<Rightarrow> task \<Rightarrow> task \<Rightarrow> bool" where
  "post_result signo x y \<longleftrightarrow>
     (if discards signo x then y = x\<lparr>t_sigset := post_clear signo (t_sigset x)\<rparr>
      else let z = x\<lparr>t_sigset := sigset_add signo (post_clear signo (t_sigset x))\<rparr> in
        if \<not> contain (t_sigmask x) signo \<and> t_state x = TWAIT
        then y = z\<lparr>t_state := TRUN, t_runlink := OnRun (nat (t_counter x))\<rparr> else y = z)"

lemma task_ok_delivered:
  assumes "task_ok x" "contain (t_sigmask x) signo \<or> t_state x \<noteq> TWAIT"
  shows "task_ok (x\<lparr>t_sigset := sigset_add signo (post_clear signo (t_sigset x))\<rparr>)"
  using assms by (auto simp: task_ok_def hassig_iff bit_add contain_iff dest: bit_post_clear split: runlink.splits)

text \<open>
  The pending set of a waiting task is extended before it is woken up, so the invariant is broken
  in between; \<^verbatim>\<open>wakeup\<close> only needs the queues to be consistent.
\<close>

lemma post_ok:
  assumes "sched_inv k" "t \<in> set (k_alltaskq k)" "validsig signo" "deaf t signo k \<or> t_sigvec (k_tasks k t) \<noteq> []"
  obtains k' y where "post t signo k = Some k'" "sched_inv k'" "same_env k k'"
    "k_tasks k' = (k_tasks k)(t := y)"
    "if deaf t signo k then y = k_tasks k t else post_result signo (k_tasks k t) y"
proof -
  note inv = sched_invD [OF assms(1)]
  let ?x = "k_tasks k t"
  have x: "task_ok ?x" by (rule inv(2) [OF assms(2)])
  let ?clr = "?x\<lparr>t_sigset := post_clear signo (t_sigset ?x)\<rparr>"
  let ?add = "?x\<lparr>t_sigset := sigset_add signo (post_clear signo (t_sigset ?x))\<rparr>"
  let ?k1 = "task_upd t (\<lambda>x. x\<lparr>t_sigset := post_clear signo (t_sigset x)\<rparr>) k"
  let ?k2 = "task_upd t (\<lambda>x. x\<lparr>t_sigset := sigset_add signo (t_sigset x)\<rparr>) ?k1"
  have T1: "k_tasks ?k1 = (k_tasks k)(t := ?clr)" and T2: "k_tasks ?k2 = (k_tasks k)(t := ?add)"
    by (auto simp: fun_eq_iff)
  have E: "same_env k ?k1" "same_env k ?k2" by (simp_all add: same_env_def)
  have L: "links_ok ?k1" "links_ok ?k2" using inv(1) by (simp_all add: links_ok_upd)
  consider (deaf) "deaf t signo k" | (discard) "\<not> deaf t signo k" "discards signo ?x"
    | (wake) "\<not> deaf t signo k" "\<not> discards signo ?x" "\<not> contain (t_sigmask ?x) signo" "t_state ?x = TWAIT"
    | (pend) "\<not> deaf t signo k" "\<not> discards signo ?x" "contain (t_sigmask ?x) signo \<or> t_state ?x \<noteq> TWAIT"
    by blast
  then show ?thesis
  proof cases
    case deaf
    with assms that [of k ?x] show ?thesis by (simp add: post_eq [OF assms(3,4)])
  next
    case discard
    have "task_ok ?clr" by (rule task_ok_sigset [OF x bit_post_clear])
    with sched_invI [OF assms(1) L(1) E(1) T1 assms(2)] inv(5) have "sched_inv ?k1" by auto
    with discard E T1 show ?thesis
      by (intro that [of ?k1 ?clr]) (simp_all add: post_eq [OF assms(3,4)] Let_def post_result_def)
  next
    case pend
    have "task_ok ?add" by (rule task_ok_delivered [OF x pend(3)])
    with sched_invI [OF assms(1) L(2) E(2) T2 assms(2)] inv(5) have "sched_inv ?k2" by auto
    with pend E T2 show ?thesis
      by (intro that [of ?k2 ?add]) (auto simp: post_eq [OF assms(3,4)] Let_def post_result_def)
  next
    case wake
    from x wake(4) task_ok_wait obtain q where q: "t_runlink ?x = OnWait q" by fastforce
    have st: "t_state (k_tasks ?k2 t) \<in> {TSLEEP, TWAIT}" "t_runlink (k_tasks ?k2 t) = OnWait q"
      "between 0 (t_counter (k_tasks ?k2 t)) 32"
      using wake(4) q x by (simp_all add: task_ok_def)
    let ?y = "?add\<lparr>t_state := TRUN, t_runlink := OnRun (nat (t_counter ?x))\<rparr>"
    obtain k' where k': "wakeup t ?k2 = Some k'" "links_ok k'" "same_env ?k2 k'"
      "k_tasks k' = (k_tasks ?k2)(t := (k_tasks ?k2 t)\<lparr>t_state := TRUN, t_runlink := OnRun (nat (t_counter (k_tasks ?k2 t)))\<rparr>)"
      "\<And>q. k_waitqs k' q = remove1 t (k_waitqs ?k2 q)"
      by (rule wakeup_links [OF L(2) st]) (rule that, assumption+)
    have T: "k_tasks k' = (k_tasks k)(t := ?y)" using k'(4) by (auto simp: fun_eq_iff)
    have E': "same_env k k'" using k'(3) by (simp add: same_env_def)
    have "task_ok ?y" using x by (auto simp: task_ok_def between_def)
    with sched_invI [OF assms(1) k'(2) E' T assms(2)] have "sched_inv k'" by simp
    with wake E' T k'(1) show ?thesis
      by (intro that [of k' ?y]) (simp_all add: post_eq [OF assms(3,4)] Let_def post_result_def)
  qed
qed

subsection \<open>Signals that cannot be blocked\<close>

text \<open>
  What makes \<^verbatim>\<open>SIGKILL\<close> and \<^verbatim>\<open>SIGSTOP\<close> reliable: no mask of a task contains them and their actions
  stay the default.
\<close>

definition sig_ok :: "task \<Rightarrow> bool" where
  "sig_ok x \<longleftrightarrow> length (t_sigvec x) = 32 \<and> \<not> sigset_invalid (t_sigmask x) \<and>
     (\<forall>sa\<in>set (t_sigvec x). \<not> sigset_invalid (sa_mask sa)) \<and>
     sa_func (t_sigvec x ! 9) = SIGXDFL \<and> sa_func (t_sigvec x ! 19) = SIGXDFL"

datatype sig_op =
    Sigprocmask int "u32 uptr" "unit uptr"
  | Ssetmask u32
  | Signal int u32
  | Sigaction int "sigact uptr" "unit uptr"
  | Post nat int
  | Kill nat int
  | Force int
  | Exec

definition exec_signals :: "kern \<Rightarrow> kern" where
  "exec_signals k = curr_upd (\<lambda>t. t\<lparr>t_sigset := 0, t_sigvec := sigvec_clearonexec (t_sigvec t)\<rparr>) k"

fun sig_exec :: "(u32 \<Rightarrow> bool) \<Rightarrow> sig_op \<Rightarrow> kern \<Rightarrow> kern option" where
  "sig_exec okf (Sigprocmask how s oset) k = Some (snd (snd (syssigprocmask how s oset k)))"
| "sig_exec okf (Ssetmask m) k = Some (snd (sysssetmask m k))"
| "sig_exec okf (Signal signo f) k = map_option snd (syssignal okf signo f k)"
| "sig_exec okf (Sigaction signo act oact) k = map_option (\<lambda>r. snd (snd r)) (syssigaction okf signo act oact k)"
| "sig_exec okf (Post t signo) k =
     (if t \<in> set (k_alltaskq k) \<and> validsig signo then post t signo k else Some k)"
| "sig_exec okf (Kill t signo) k =
     (if t \<in> set (k_alltaskq k) then map_option snd (kill t signo k) else Some k)"
| "sig_exec okf (Force signo) k = (if validsig signo then force (k_curr k) signo k else Some k)"
| "sig_exec okf Exec k = Some (exec_signals k)"

definition sig_inv :: "kern \<Rightarrow> bool" where
  "sig_inv k \<longleftrightarrow> running k \<and>
     (\<forall>t\<in>set (k_alltaskq k). t_state (k_tasks k t) = TZOMBIE \<or> sig_ok (k_tasks k t))"

lemma sig_inv_curr: "sig_inv k \<Longrightarrow> sig_ok (curr_task k) \<and> k_curr k \<in> set (k_alltaskq k) \<and> t_state (curr_task k) = TRUN"
  using sched_invD(6) [of k] by (auto simp: sig_inv_def running_def curr_task_def)

lemma sig_inv_curr_vec: "sig_inv k \<Longrightarrow> t_sigvec (curr_task k) \<noteq> []"
  using sig_inv_curr [of k] by (auto simp: sig_ok_def)

lemma sig_inv_vec: "sig_inv k \<Longrightarrow> t \<in> set (k_alltaskq k) \<Longrightarrow> deaf t signo k \<or> t_sigvec (k_tasks k t) \<noteq> []"
  by (auto simp: sig_inv_def sig_ok_def deaf_def)

lemma sigset_invalid_iff: "sigset_invalid s \<longleftrightarrow> contain s 9 \<or> contain s 19"
  by (simp add: sigset_invalid_def)

lemmas invalid_sets = sigset_invalid_iff contain_sets

text \<open>The signal fields of the running task may be changed freely: it is not waiting.\<close>

lemma running_curr_upd:
  assumes "running k"
    and "t_runlink (f (curr_task k)) = t_runlink (curr_task k)"
    and "t_state (f (curr_task k)) = t_state (curr_task k)"
    and "t_counter (f (curr_task k)) = t_counter (curr_task k)"
    and "t_priority (f (curr_task k)) = t_priority (curr_task k)"
  shows "running (curr_upd f k)"
proof -
  have "sched_inv (task_upd (k_curr k) f k)"
    by (rule sched_inv_upd)
      (use assms in \<open>auto simp: running_def curr_task_def task_ok_def split: runlink.splits\<close>)
  with assms show ?thesis by (simp add: running_def curr_upd_def curr_task_def)
qed

lemma sig_inv_curr_upd:
  assumes "sig_inv k" and "sig_ok (curr_task k) \<Longrightarrow> sig_ok (f (curr_task k))"
    and "t_runlink (f (curr_task k)) = t_runlink (curr_task k)"
    and "t_state (f (curr_task k)) = t_state (curr_task k)"
    and "t_counter (f (curr_task k)) = t_counter (curr_task k)"
    and "t_priority (f (curr_task k)) = t_priority (curr_task k)"
  shows "sig_inv (curr_upd f k)"
proof -
  have "k_curr k \<in> set (k_alltaskq k)"
    using assms(1) sched_invD(6) by (auto simp: sig_inv_def running_def)
  moreover have "running (curr_upd f k)" using assms running_curr_upd [of k f] by (simp add: sig_inv_def)
  moreover have "sig_ok (f (curr_task k))" using assms(2) sig_inv_curr [OF assms(1)] by simp
  ultimately show ?thesis using assms(1)
    by (auto simp: sig_inv_def curr_upd_def curr_task_def)
qed

lemma sig_inv_checkpending: "sig_inv k \<Longrightarrow> sig_inv (checkpending sa signo k)"
  by (auto simp: checkpending_def sig_ok_def intro!: sig_inv_curr_upd)

lemma sig_inv_sa_put:
  assumes "sig_inv k" "validsig signo" "signo \<noteq> SIGKILL" "signo \<noteq> SIGSTOP" "\<not> sigset_invalid (sa_mask sa)"
  shows "sig_inv (sa_put signo sa k)"
proof -
  have n: "nat signo \<noteq> 9" "nat signo \<noteq> 19" "nat signo < 32"
    using assms(2-4) by (auto simp: validsig_def NSIG_def)
  show ?thesis
    unfolding sa_put_def
    by (rule sig_inv_curr_upd [OF assms(1)])
      (use assms(5) n in \<open>auto simp: sig_ok_def nth_list_update dest!: set_update_subset_insert [THEN subsetD]\<close>)
qed

lemma sig_inv_post:
  assumes "sig_inv k" "t \<in> set (k_alltaskq k)" "validsig signo"
  shows "\<exists>k'. post t signo k = Some k' \<and> sig_inv k'"
proof -
  have I: "sched_inv k" and run: "t_state (curr_task k) = TRUN" using assms(1) by (simp_all add: sig_inv_def running_def)
  obtain k' y where k': "post t signo k = Some k'" "sched_inv k'" "same_env k k'"
    "k_tasks k' = (k_tasks k)(t := y)"
    "if deaf t signo k then y = k_tasks k t else post_result signo (k_tasks k t) y"
    by (rule post_ok [OF I assms(2,3) sig_inv_vec [OF assms(1,2)]])
  have y: "sig_ok y \<longleftrightarrow> sig_ok (k_tasks k t)" "t_state (k_tasks k t) = TRUN \<Longrightarrow> t_state y = TRUN"
    "t_state (k_tasks k t) = TZOMBIE \<Longrightarrow> t_state y = TZOMBIE"
    using k'(5) by (auto simp: post_result_def Let_def sig_ok_def split: if_splits)
  have "running k'"
    using k'(2-4) run y(2) by (auto simp: running_def curr_task_def same_env_def)
  with k' y(1,3) assms(1,2) show ?thesis by (auto simp: sig_inv_def same_env_def)
qed

lemma sig_inv_kill:
  assumes "sig_inv k" "t \<in> set (k_alltaskq k)"
  shows "\<exists>e k'. kill t signo k = Some (e, k') \<and> sig_inv k'"
proof -
  have "validsig signo \<Longrightarrow> \<exists>k'. post t signo k = Some k' \<and> sig_inv k'"
    by (rule sig_inv_post [OF assms])
  with assms(1) show ?thesis by (auto simp: kill_def Let_def)
qed

lemma sig_ok_del: "\<not> sigset_invalid s \<Longrightarrow> \<not> sigset_invalid (sigset_del signo s)"
  by (auto simp: invalid_sets sigset_del_def)

lemma sig_inv_force:
  assumes "sig_inv k" "validsig signo"
  shows "\<exists>k'. force (k_curr k) signo k = Some k' \<and> sig_inv k'"
proof -
  have c: "k_curr k \<in> set (k_alltaskq k)"
    using assms(1) sched_invD(6) by (auto simp: sig_inv_def running_def)
  define k1 where "k1 = curr_upd (\<lambda>x. x\<lparr>t_sigmask := sigset_del signo (t_sigmask x)\<rparr>) k"
  have k1: "sig_inv k1"
    unfolding k1_def by (rule sig_inv_curr_upd [OF assms(1)]) (auto simp: sig_ok_def sig_ok_del)
  define sa where "sa = t_sigvec (curr_task k1) ! nat signo"
  define k2 where "k2 = (if sa_func sa = SIGXIGN
    then curr_upd (\<lambda>x. x\<lparr>t_sigvec := (t_sigvec x)[nat signo := sa\<lparr>sa_func := SIGXDFL\<rparr>]\<rparr>) k1 else k1)"
  have n: "nat signo < 32" using assms(2) by (auto simp: validsig_def NSIG_def)
  have "\<not> sigset_invalid (sa_mask sa)" if "sig_ok (curr_task k1)"
  proof -
    have "sa \<in> set (t_sigvec (curr_task k1))"
      unfolding sa_def using that assms(2) by (auto simp: sig_ok_def validsig_def NSIG_def)
    with that show ?thesis by (auto simp: sig_ok_def)
  qed
  then have "sig_inv (curr_upd (\<lambda>x. x\<lparr>t_sigvec := (t_sigvec x)[nat signo := sa\<lparr>sa_func := SIGXDFL\<rparr>]\<rparr>) k1)"
    using n by (intro sig_inv_curr_upd [OF k1])
      (auto simp: sig_ok_def nth_list_update dest!: set_update_subset_insert [THEN subsetD])
  then have k2: "sig_inv k2" using k1 by (simp add: k2_def)
  have "force (k_curr k) signo k = post (k_curr k) signo k2"
    using assms(2) sig_inv_curr_vec [OF assms(1)] by (simp add: force_def sigvec_get_def k2_def k1_def sa_def curr_upd_def curr_task_def Let_def)
  moreover have "k_curr k \<in> set (k_alltaskq k2)" using c by (simp add: k2_def k1_def curr_upd_def)
  ultimately show ?thesis using sig_inv_post [OF k2 _ assms(2)] by metis
qed

subsection \<open>Signals and scheduling together\<close>

lemma sig_inv_procmask: "sig_inv k \<Longrightarrow> sig_inv (snd (snd (syssigprocmask how s oset k)))"
  by (auto simp: syssigprocmask_def Let_def sig_ok_def invalid_sets split: uptr.splits intro!: sig_inv_curr_upd)

lemma ssetmask_bits:
  "newmask AND (push_bit 8 1 OR push_bit 18 1) \<noteq> 0 \<longleftrightarrow> sigset_invalid (newmask :: u32)"
proof -
  have eqs: "push_bit 8 (1 :: u32) = sigbit 9" "push_bit 18 (1 :: u32) = sigbit 19"
    by (simp_all add: sigbit_def)
  show ?thesis
    unfolding eqs sigset_invalid_iff contain_iff word_nonzero_bit bit_and_iff bit_or_iff bit_sigbit by auto
qed

lemma invalid_0 [simp]: "\<not> sigset_invalid 0"
  by (simp add: invalid_sets)

lemma sig_inv_ssetmask: "sig_inv k \<Longrightarrow> sig_inv (snd (sysssetmask m k))"
  unfolding sysssetmask_def ssetmask_bits by (auto simp: sig_ok_def intro!: sig_inv_curr_upd)

lemma sig_inv_signal: "sig_inv k \<Longrightarrow> \<exists>r k'. syssignal okf signo f k = Some (r, k') \<and> sig_inv k'"
  using sig_inv_curr_vec [of k]
  by (auto simp: syssignal_def sigvec_get_def Let_def invalid_sets intro!: sig_inv_checkpending sig_inv_sa_put)

lemma invalid_add:
  "validsig signo \<Longrightarrow> signo \<noteq> SIGKILL \<Longrightarrow> signo \<noteq> SIGSTOP \<Longrightarrow> sigset_invalid (sigset_add signo s) = sigset_invalid s"
  by (simp add: sigset_invalid_iff contain_sigset validsig_def NSIG_def)

lemma sig_inv_sigaction: "sig_inv k \<Longrightarrow> \<exists>e r k'. syssigaction okf signo act oact k = Some (e, r, k') \<and> sig_inv k'"
  using sig_inv_curr_vec [of k]
  by (auto simp: syssigaction_def sigvec_get_def Let_def invalid_add split: uptr.splits
      intro!: sig_inv_checkpending sig_inv_sa_put)

lemma clearonexec_nth:
  "i < length vec \<Longrightarrow> sa_func (sigvec_clearonexec vec ! i) = (if sa_func (vec ! i) = SIGXIGN then SIGXIGN else SIGXDFL)"
  by (simp add: sigvec_clearonexec_def Let_def)

lemma sig_inv_exec: "sig_inv k \<Longrightarrow> sig_inv (exec_signals k)"
  unfolding exec_signals_def
  by (rule sig_inv_curr_upd)
    (auto simp: sig_ok_def clearonexec_nth invalid_sets, auto simp: sigvec_clearonexec_def Let_def contain_sets split: if_splits)

lemma sig_exec_ok: "sig_inv k \<Longrightarrow> \<exists>k'. sig_exec okf x k = Some k' \<and> sig_inv k'"
proof (cases x)
  case (Signal signo f)
  then show "sig_inv k \<Longrightarrow> ?thesis" using sig_inv_signal [of k okf signo f] by auto
next
  case (Sigaction signo act oact)
  then show "sig_inv k \<Longrightarrow> ?thesis" using sig_inv_sigaction [of k okf signo act oact] by auto
next
  case (Kill t signo)
  then show "sig_inv k \<Longrightarrow> ?thesis" using sig_inv_kill [of k t signo] by auto
qed (simp_all add: sig_inv_procmask sig_inv_ssetmask sig_inv_post sig_inv_force sig_inv_exec)

lemma sig_inv_sched_exec:
  assumes "sig_inv k"
  shows "\<exists>k'. sched_exec x k = Some k' \<and> sig_inv k'"
proof -
  have "running k" using assms by (simp add: sig_inv_def)
  from sched_exec_ok [OF this] obtain k' where k': "sched_exec x k = Some k'" "running k'" by blast
  have f: "sframe k k'" by (rule sched_exec_frame [OF k'(1)])
  then have "sig_ok (k_tasks k' u) = sig_ok (k_tasks k u)" for u
  proof -
    have "same_task (k_tasks k u) (k_tasks k' u)" using f by (simp add: sframe_def)
    then have "t_sigvec (k_tasks k' u) = t_sigvec (k_tasks k u)" "t_sigmask (k_tasks k' u) = t_sigmask (k_tasks k u)"
      unfolding same_task_def by (metis task.select_convs task.surjective task.update_convs)+
    then show ?thesis by (simp add: sig_ok_def)
  qed
  moreover have "t_state (k_tasks k' u) = TZOMBIE" if "t_state (k_tasks k u) = TZOMBIE" for u
    using that sched_exec_state [OF k'(1), of u] sig_inv_curr [OF assms]
    by (cases "u = k_curr k") (auto simp: curr_task_def)
  ultimately show ?thesis using k' f assms by (auto simp: sig_inv_def sframe_def)
qed

type_synonym kop = "sched_op + sig_op"

definition kexec :: "(u32 \<Rightarrow> bool) \<Rightarrow> kop \<Rightarrow> kern \<Rightarrow> kern option" where
  "kexec okf x = (case x of Inl s \<Rightarrow> sched_exec s | Inr s \<Rightarrow> sig_exec okf s)"

lemma kexec_ok: "sig_inv k \<Longrightarrow> \<exists>k'. kexec okf x k = Some k' \<and> sig_inv k'"
  by (cases x) (simp_all add: kexec_def sig_inv_sched_exec sig_exec_ok)

lemma ktrace_ok: "sig_inv k \<Longrightarrow> \<exists>k'. foldM (kexec okf) ops k = Some k' \<and> sig_inv k'"
  by (rule foldM_invariant [OF kexec_ok])

text \<open>
  The calls that replace a mask for a while: \<^verbatim>\<open>sigsuspend\<close>, whose second half runs when the task is current again,
  with the mask it saved in a local variable (\<open>m\<close> maps the tasks inside the call to the saved mask), and
  \<^verbatim>\<open>sigreturn\<close>, which installs the mask of a frame in user memory (the exit when the frame cannot be read is not
  part of the operation).
\<close>

datatype mask_op = Kop kop | Sigsuspend u32 nat | Resume | Sigreturn "sigcontext uptr" regs

fun mask_exec :: "(u32 \<Rightarrow> bool) \<Rightarrow> mask_op \<Rightarrow> (nat \<rightharpoonup> u32) \<times> kern \<Rightarrow> ((nat \<rightharpoonup> u32) \<times> kern) option" where
  "mask_exec okf (Kop x) (m, k) = map_option (Pair m) (kexec okf x k)"
| "mask_exec okf (Sigsuspend bits q) (m, k) =
     (if k_curr k = k_idletask k then Some (m, k)
      else case syssigsuspend_enter bits q k of
        (Inl e, k') \<Rightarrow> map_option (Pair m) k'
      | (Inr old, k') \<Rightarrow> map_option (Pair (m(k_curr k \<mapsto> old))) k')"
| "mask_exec okf Resume (m, k) = (case m (k_curr k) of
     None \<Rightarrow> Some (m, k)
   | Some old \<Rightarrow> Some (m(k_curr k := None), snd (syssigsuspend_leave old k)))"
| "mask_exec okf (Sigreturn frame r) (m, k) = Some (m, snd (syssigreturn okf frame r k))"

text \<open>A frame a program forged, with a mask the kernel never puts into a frame.\<close>

fun forged :: "mask_op \<Rightarrow> bool" where
  "forged (Sigreturn (UOk sc) r) = sigset_invalid (sc_oldsigmask sc)"
| "forged _ = False"

definition masks_inv :: "(nat \<rightharpoonup> u32) \<times> kern \<Rightarrow> bool" where
  "masks_inv s \<longleftrightarrow> sig_inv (snd s) \<and> (\<forall>old\<in>ran (fst s). \<not> sigset_invalid old)"

lemma sig_inv_setmask: "sig_inv k \<Longrightarrow> \<not> sigset_invalid mk \<Longrightarrow> sig_inv (curr_upd (\<lambda>t. t\<lparr>t_sigmask := mk\<rparr>) k)"
  by (rule sig_inv_curr_upd) (simp_all add: sig_ok_def)

lemma sig_inv_wait: "sig_inv k \<Longrightarrow> k_curr k \<noteq> k_idletask k \<Longrightarrow> \<exists>k'. wq_wait q k = Some k' \<and> sig_inv k'"
  using sig_inv_sched_exec [of k "DoWait q"] by simp

lemma sig_inv_sigreturn:
  assumes "sig_inv k" "\<not> forged (Sigreturn frame r)"
  shows "sig_inv (snd (syssigreturn okr frame r k))"
proof (cases frame)
  case (UOk sc)
  have d: "sigset_del2 SIGKILL SIGSTOP s = s" for s
    by (rule bit_word_eqI) (auto simp: sigset_del2_def bit_simps)
  have "sig_inv (curr_upd (\<lambda>t. t\<lparr>t_sigmask := sigset_del2 SIGKILL SIGSTOP (t_sigmask t)\<rparr>)
      (curr_upd (\<lambda>t. t\<lparr>t_sigmask := sc_oldsigmask sc\<rparr>) k))"
    using sig_inv_setmask [OF assms(1), of "sc_oldsigmask sc"] assms(2) UOk by (simp add: d curr_upd_def) (simp add: task_upd_def)
  then show ?thesis by (simp add: UOk syssigreturn_def Let_def)
qed (use assms in \<open>simp_all add: syssigreturn_def\<close>)

lemma mask_exec_ok:
  assumes "masks_inv s" "\<not> forged x"
  shows "\<exists>s'. mask_exec okf x s = Some s' \<and> masks_inv s'"
proof -
  obtain m k where s: "s = (m, k)" by fastforce
  have I: "sig_inv k" "\<forall>old\<in>ran m. \<not> sigset_invalid old" using assms(1) by (simp_all add: s masks_inv_def)
  show ?thesis
  proof (cases x)
    case (Kop y)
    with kexec_ok [OF I(1), of okf y] I s show ?thesis by (auto simp: masks_inv_def)
  next
    case (Sigsuspend bits q)
    have old: "\<not> sigset_invalid (t_sigmask (curr_task k))" using sig_inv_curr [OF I(1)] by (simp add: sig_ok_def)
    let ?k = "curr_upd (\<lambda>t. t\<lparr>t_sigmask := bits\<rparr>) k"
    have "\<exists>k'. wq_wait q ?k = Some k' \<and> sig_inv k'" if "\<not> sigset_invalid bits" "k_curr k \<noteq> k_idletask k"
      by (rule sig_inv_wait [OF sig_inv_setmask [OF I(1) that(1)]]) (use that in \<open>simp add: curr_upd_def\<close>)
    with Sigsuspend I s old show ?thesis
      by (auto simp: masks_inv_def syssigsuspend_enter_def ran_def split: if_splits)
  next
    case Resume
    with I s sig_inv_setmask [OF I(1)] show ?thesis
      by (auto simp: masks_inv_def syssigsuspend_leave_def ran_def split: option.splits if_splits)
  next
    case (Sigreturn frame r)
    with I s assms(2) sig_inv_sigreturn [OF I(1)] show ?thesis by (simp add: masks_inv_def)
  qed
qed

lemma mask_trace_ok:
  "masks_inv s \<Longrightarrow> \<forall>x\<in>set ops. \<not> forged x \<Longrightarrow> \<exists>s'. foldM (mask_exec okf) ops s = Some s' \<and> masks_inv s'"
proof (induction ops arbitrary: s)
  case (Cons x ops)
  then obtain s1 where "mask_exec okf x s = Some s1" "masks_inv s1" using mask_exec_ok [of s x okf] by auto
  with Cons show ?case by simp
qed simp

text \<open>
  C21: Whatever sequence of scheduler operations, \<^verbatim>\<open>sigprocmask\<close>, \<^verbatim>\<open>ssetmask\<close>, \<^verbatim>\<open>signal\<close>, \<^verbatim>\<open>sigaction\<close>,
  \<^verbatim>\<open>sigsuspend\<close> (both halves, interleaved with everything else), posted, forced and sent signals, program starts and
  returns from handlers the kernel goes through, every operation returns, the scheduler's
  invariant is kept, no living task ever blocks \<^verbatim>\<open>SIGKILL\<close> or \<^verbatim>\<open>SIGSTOP\<close> or changes their action, and no task that
  waits interruptibly has a deliverable signal.  The frames given to \<^verbatim>\<open>sigreturn\<close> hold a mask without
  \<^verbatim>\<open>SIGKILL\<close> and \<^verbatim>\<open>SIGSTOP\<close>, as those the kernel builds do; a forged one breaks it (\<open>sigreturn_installs_any_mask\<close>).
  The delivery loop \<^verbatim>\<open>checksignal\<close>, which may end the task, is not one of the operations.
\<close>
theorem signals_trace_safe:
  assumes "sig_inv k" "\<forall>x\<in>set ops. \<not> forged x"
  shows "\<exists>m k'. foldM (mask_exec okf) ops (Map.empty, k) = Some (m, k') \<and> sched_inv k' \<and>
    (\<forall>t\<in>set (k_alltaskq k'). t_state (k_tasks k' t) \<noteq> TZOMBIE \<longrightarrow>
       \<not> contain (t_sigmask (k_tasks k' t)) SIGKILL \<and> \<not> contain (t_sigmask (k_tasks k' t)) SIGSTOP \<and>
       sa_func (t_sigvec (k_tasks k' t) ! 9) = SIGXDFL \<and> sa_func (t_sigvec (k_tasks k' t) ! 19) = SIGXDFL \<and>
       (t_state (k_tasks k' t) = TWAIT \<longrightarrow> unmaskedsig (k_tasks k' t) = 0))"
proof -
  have "masks_inv (Map.empty, k)" using assms(1) by (simp add: masks_inv_def)
  then obtain m k' where k': "foldM (mask_exec okf) ops (Map.empty, k) = Some (m, k')" "sig_inv k'"
    using mask_trace_ok [of "(Map.empty, k)" ops okf] assms(2) by (auto simp: masks_inv_def)
  then have "sched_inv k'" by (simp add: sig_inv_def running_def)
  moreover have "\<not> contain (t_sigmask (k_tasks k' t)) SIGKILL \<and> \<not> contain (t_sigmask (k_tasks k' t)) SIGSTOP \<and>
       sa_func (t_sigvec (k_tasks k' t) ! 9) = SIGXDFL \<and> sa_func (t_sigvec (k_tasks k' t) ! 19) = SIGXDFL \<and>
       (t_state (k_tasks k' t) = TWAIT \<longrightarrow> unmaskedsig (k_tasks k' t) = 0)"
    if "t \<in> set (k_alltaskq k')" "t_state (k_tasks k' t) \<noteq> TZOMBIE" for t
    using k'(2) sched_invD(2) [OF \<open>sched_inv k'\<close> that(1)] that
    by (auto simp: sig_inv_def sig_ok_def sigset_invalid_iff task_ok_def hassig_def)
  ultimately show ?thesis using k'(1) by blast
qed

lemma demo_sig_inv: "sig_inv demo_kern"
proof -
  have "sig_ok demo_task"
    by (simp add: sig_ok_def demo_task_def)
  then have "\<forall>t\<in>set (k_alltaskq demo_kern). sig_ok (k_tasks demo_kern t)"
    by (simp add: demo_kern_def sig_ok_def)
  with demo_running show ?thesis by (simp add: sig_inv_def)
qed

definition demo_regs :: regs where
  "demo_regs = \<lparr>r_ebx = 1, r_ecx = 2, r_edx = 3, r_esi = 4, r_edi = 5, r_ebp = 6, r_eax = 7, r_ds = 23,
     r_es = 23, r_fs = 23, r_gs = 23, r_origeax = 0, r_eip = 0x1000, r_cs = 15, r_eflags = 0x200,
     r_esp = 0x8000, r_ss = 23\<rparr>"

definition demo_frame :: sigcontext where
  "demo_frame = \<lparr>sc_retaddr = 0, sc_signo = 2, sc_gs = 0, sc_fs = 0, sc_es = 0, sc_ds = 0, sc_edi = 0, sc_esi = 0, sc_ebp = 0,
     sc_esp = 0x8000, sc_ebx = 0, sc_edx = 0, sc_ecx = 0, sc_eax = 0, sc_eip = 0x1000, sc_cs = 0, sc_eflags = 0, sc_ss = 0,
     sc_oldsigmask = 0, sc_asmcode = asmcode\<rparr>"

theorem signals_trace_witness:
  "\<exists>m k'. foldM (mask_exec (\<lambda>_. True)) [Kop (Inr (Signal 2 0x1000)), Kop (Inr (Ssetmask 2)), Sigsuspend 0 5, Kop (Inr (Post 300 9)),
      Kop (Inr (Post 200 9)), Kop (Inl DoSched), Resume, Sigreturn (UOk demo_frame) demo_regs, Kop (Inl (DoWait 5))] (Map.empty, demo_kern)
     = Some (m, k') \<and> sched_inv k'"
proof -
  have "\<not> forged (Sigreturn (UOk demo_frame) demo_regs)" by (simp add: demo_frame_def)
  then show ?thesis
    using signals_trace_safe [OF demo_sig_inv, of "[Kop (Inr (Signal 2 0x1000)), Kop (Inr (Ssetmask 2)), Sigsuspend 0 5, Kop (Inr (Post 300 9)),
      Kop (Inr (Post 200 9)), Kop (Inl DoSched), Resume, Sigreturn (UOk demo_frame) demo_regs, Kop (Inl (DoWait 5))]" "\<lambda>_. True"]
    by (simp del: foldM.simps mask_exec.simps) blast
qed

text \<open>
  C23: In a state where no task blocks \<^verbatim>\<open>SIGKILL\<close> (\<open>sig_inv\<close>, which the operations of C21 keep and a forged
  \<^verbatim>\<open>sigreturn\<close> frame can break), posting \<^verbatim>\<open>SIGKILL\<close> to a living task other than the idle task and init makes it
  pending and deliverable, and gets the task out of an interruptible wait.
\<close>
theorem post_sigkill_effective:
  assumes "sig_inv k" "t \<in> set (k_alltaskq k)" "\<not> deaf t SIGKILL k"
  shows "\<exists>k'. post t SIGKILL k = Some k' \<and> sig_inv k' \<and> hassig (k_tasks k' t) \<and>
    contain (unmaskedsig (k_tasks k' t)) SIGKILL \<and> t_state (k_tasks k' t) \<noteq> TWAIT"
proof -
  have v: "validsig SIGKILL" by (simp add: validsig_def NSIG_def)
  have I: "sched_inv k" and ok: "sig_ok (k_tasks k t)"
    using assms by (auto simp: sig_inv_def running_def deaf_def)
  obtain k1 y where k1: "post t SIGKILL k = Some k1" "sched_inv k1" "same_env k k1"
    "k_tasks k1 = (k_tasks k)(t := y)"
    "if deaf t SIGKILL k then y = k_tasks k t else post_result SIGKILL (k_tasks k t) y"
    by (rule post_ok [OF I assms(2) v sig_inv_vec [OF assms(1,2)]])
  have nd: "\<not> discards SIGKILL (k_tasks k t)"
    using ok by (simp add: discards_def sig_ok_def sigdflign_def sigdflact_def Let_def)
  have m: "\<not> contain (t_sigmask (k_tasks k t)) SIGKILL"
    using ok by (simp add: sig_ok_def sigset_invalid_iff)
  have y: "contain (t_sigset y) SIGKILL" "t_sigmask y = t_sigmask (k_tasks k t)" "t_state y \<noteq> TWAIT"
    using k1(5) assms(3) nd m v by (auto simp: post_result_def Let_def contain_sigset split: if_splits)
  then have c: "contain (unmaskedsig y) SIGKILL" using m by (simp add: unmaskedsig_def contain_sets(3))
  then have "hassig y" using contain_sets(5) by (auto simp: hassig_def)
  with c y k1(1,4) sig_inv_post [OF assms(1,2) v] show ?thesis by auto
qed

theorem post_sigkill_witness:
  "\<exists>k'. post 300 SIGKILL demo_kern = Some k' \<and> hassig (k_tasks k' 300) \<and> t_state (k_tasks k' 300) \<noteq> TWAIT"
proof -
  have "\<not> deaf 300 SIGKILL demo_kern" "300 \<in> set (k_alltaskq demo_kern)"
    by (simp_all add: deaf_def demo_kern_def)
  with post_sigkill_effective [OF demo_sig_inv] show ?thesis by metis
qed

text \<open>
  Running a handler is transparent: \<^verbatim>\<open>syssigreturn\<close> on the frame \<^verbatim>\<open>setupframe\<close> built restores every
  general register, the stack and instruction pointers and the flags, delivers the saved \<^verbatim>\<open>eax\<close>,
  restores the signal mask, and forces the user segments.
\<close>
theorem sigframe_roundtrip:
  assumes "setupframe okw r signo (t_sigmask (curr_task k)) = Some (sp, sc)" "okr (r_eip r)"
  shows "\<exists>r' k'. syssigreturn okr (UOk sc) h k1 = (Inr (r_eax r, r'), k') \<and>
    r_ebx r' = r_ebx r \<and> r_ecx r' = r_ecx r \<and> r_edx r' = r_edx r \<and> r_esi r' = r_esi r \<and>
    r_edi r' = r_edi r \<and> r_ebp r' = r_ebp r \<and> r_esp r' = r_esp r \<and> r_eip r' = r_eip r \<and>
    r_eflags r' = r_eflags r \<and> r_cs r' = UCODESEL \<and> r_ss r' = UDATASEL \<and> r_ds r' = UDATASEL \<and>
    sp = r_esp r - 84 \<and> sc_retaddr sc = sp + 76 \<and>
    t_sigmask (curr_task k') = t_sigmask (curr_task k)"
proof -
  have d: "sigset_del2 SIGKILL SIGSTOP s = s" for s
    by (rule bit_word_eqI) (auto simp: sigset_del2_def bit_simps)
  from assms show ?thesis
    by (auto simp: setupframe_def syssigreturn_def Let_def sigcontext_bytes_def curr_upd_def curr_task_def d
        split: if_splits)
qed

theorem sigframe_witness:
  "\<exists>sp sc r' k'. setupframe (\<lambda>_. True) demo_regs 2 0 = Some (sp, sc) \<and>
     syssigreturn (\<lambda>_. True) (UOk sc) demo_regs demo_kern = (Inr (7, r'), k') \<and> r_esp r' = 0x8000"
proof -
  have m: "t_sigmask (curr_task demo_kern) = 0" by (simp add: demo_kern_def demo_task_def curr_task_def)
  have e: "r_eax demo_regs = 7" "r_esp demo_regs = 0x8000" by (simp_all add: demo_regs_def)
  obtain sp sc where f: "setupframe (\<lambda>_. True) demo_regs 2 (t_sigmask (curr_task demo_kern)) = Some (sp, sc)"
    by (simp add: setupframe_def Let_def)
  show ?thesis
    using sigframe_roundtrip [OF f, of "\<lambda>_. True" demo_regs demo_kern] f unfolding m e by blast
qed

text \<open>
  \<^verbatim>\<open>syssigreturn\<close> lets a program block any signal: the mask of a forged frame is installed as it
  is, because \<^verbatim>\<open>sigset_t::del(a, b)\<close> with two different signals removes nothing.  A task that blocks
  \<^verbatim>\<open>SIGKILL\<close> this way keeps it pending, not deliverable.
\<close>
theorem sigreturn_installs_any_mask:
  "t_sigmask (curr_task (snd (syssigreturn okr (UOk sc) r k))) = sc_oldsigmask sc"
proof -
  have d: "sigset_del2 SIGKILL SIGSTOP s = s" for s
    by (rule bit_word_eqI) (auto simp: sigset_del2_def bit_simps)
  show ?thesis
    by (simp add: syssigreturn_def Let_def curr_upd_def curr_task_def d)
qed

text \<open>
  \<^verbatim>\<open>SIGCONT\<close> and \<^verbatim>\<open>SIGKILL\<close> do not cancel pending stop signals, although \<^verbatim>\<open>task_t::post\<close> means to:
  \<^verbatim>\<open>sigset_t::del(a, b, c, d)\<close> removes nothing, so every signal that was pending stays pending.
\<close>
theorem post_cont_keeps_stops:
  assumes "sched_inv k" "t \<in> set (k_alltaskq k)" "signo = SIGCONT \<or> signo = SIGKILL" "bit (t_sigset (k_tasks k t)) n"
    and "t_sigvec (k_tasks k t) \<noteq> []"
  shows "\<exists>k'. post t signo k = Some k' \<and> bit (t_sigset (k_tasks k' t)) n"
proof -
  have v: "validsig signo" using assms(3) by (auto simp: validsig_def NSIG_def)
  have d: "sigset_del4 SIGSTOP SIGTSTP SIGTTIN SIGTTOU s = s" for s
    by (rule bit_word_eqI) (auto simp: sigset_del4_def bit_simps)
  obtain k' y where k': "post t signo k = Some k'" "k_tasks k' = (k_tasks k)(t := y)"
    "if deaf t signo k then y = k_tasks k t else post_result signo (k_tasks k t) y"
    using post_ok [OF assms(1,2) v] assms(5) by metis
  have "bit (t_sigset y) n"
    using k'(3) assms(3,4) by (auto simp: post_result_def Let_def post_clear_def d bit_add split: if_splits)
  with k' show ?thesis by simp
qed

text \<open>The shell of the example with \<^verbatim>\<open>SIGTSTP\<close> blocked and pending.\<close>

definition demo_masked :: kern where
  "demo_masked = task_upd 300 (\<lambda>x. x\<lparr>t_sigset := 0x80000, t_sigmask := 0x80000\<rparr>) demo_kern"

lemma demo_masked_inv: "sched_inv demo_masked"
  unfolding demo_masked_def
  by (rule sched_inv_upd [OF demo_sched_inv])
    (auto simp: task_ok_def hassig_def unmaskedsig_def split: runlink.splits)

theorem post_cont_witness:
  "\<exists>k'. post 300 18 demo_masked = Some k' \<and> bit (t_sigset (k_tasks k' 300)) 19"
  by (rule post_cont_keeps_stops [OF demo_masked_inv])
    (simp_all add: demo_masked_def demo_kern_def demo_task_def bit_numeral_rec)

subsection \<open>Permission to send\<close>

text \<open>
  \<^verbatim>\<open>task_t::kill\<close> on every branch: an invalid signal number and a missing permission are refused and
  change nothing; otherwise the signal is posted.  Only the super user, a task with the same real
  or the same effective user, and, for \<^verbatim>\<open>SIGCONT\<close>, a task of the same session may send.
\<close>
theorem kill_spec:
  assumes "sched_inv k" "t \<in> set (k_alltaskq k)" "t_state (k_tasks k t) = TZOMBIE \<or> t_sigvec (k_tasks k t) \<noteq> []"
  shows "\<exists>e k'. kill t signo k = Some (e, k') \<and> sched_inv k' \<and>
    (e = EINVAL \<longleftrightarrow> \<not> (0 < signo \<and> signo < 32)) \<and>
    (e = EPERM \<longleftrightarrow> 0 < signo \<and> signo < 32 \<and> t_euid (curr_task k) \<noteq> 0 \<and>
       t_euid (curr_task k) \<noteq> t_euid (k_tasks k t) \<and> t_uid (curr_task k) \<noteq> t_uid (k_tasks k t) \<and>
       (signo \<noteq> SIGCONT \<or> g_session (k_pgrps k (t_pgrp (curr_task k))) \<noteq> g_session (k_pgrps k (t_pgrp (k_tasks k t))))) \<and>
    (if e = 0 then post t signo k = Some k' else k' = k) \<and> (e = 0 \<or> e = EINVAL \<or> e = EPERM)"
proof -
  have "validsig signo \<Longrightarrow> \<exists>k'. post t signo k = Some k' \<and> sched_inv k'"
    using post_ok [OF assms(1,2)] assms(3) by (metis deaf_def)
  with assms(1) show ?thesis
    unfolding kill_def Let_def suser_def
    by (auto simp: validsig_def NSIG_def EINVAL_def EPERM_def)
qed

theorem kill_witness:
  "\<exists>e k'. kill 300 15 demo_kern = Some (e, k') \<and> sched_inv k' \<and> e \<noteq> EPERM"
proof -
  have c: "t_euid (curr_task demo_kern) = 0" and a: "300 \<in> set (k_alltaskq demo_kern)"
    by (simp_all add: demo_kern_def demo_task_def curr_task_def)
  have "t_sigvec (k_tasks demo_kern 300) \<noteq> []" by (simp add: demo_kern_def demo_task_def)
  then show ?thesis using kill_spec [OF demo_sched_inv a, of 15] unfolding c by metis
qed

subsection \<open>Stopped tasks\<close>

lemma post_state:
  assumes "post t signo k = Some k'" "t_state (k_tasks k u) \<notin> {TSLEEP, TWAIT}"
  shows "t_state (k_tasks k' u) = t_state (k_tasks k u)"
proof -
  have vec: "deaf t signo k \<or> t_sigvec (k_tasks k t) \<noteq> []"
    using assms(1) by (auto simp: post_def deaf_def sigvec_get_def Let_def split: if_splits)
  have "validsig signo \<or> deaf t signo k"
    using assms(1) by (auto simp: post_def deaf_def split: if_splits)
  then show ?thesis
  proof
    assume "deaf t signo k"
    with assms show ?thesis by (auto simp: post_def deaf_def split: if_splits)
  next
    assume v: "validsig signo"
    with assms show ?thesis
      unfolding post_eq [OF v vec] by (auto simp: Let_def split: if_splits dest!: wakeup_state [where u = u])
  qed
qed

lemma state_upds [simp]:
  "t_state (k_tasks (checkpending sa signo k) u) = t_state (k_tasks k u)"
  "t_state (k_tasks (sa_put signo sa k) u) = t_state (k_tasks k u)"
  "t_state (k_tasks (snd (sysssetmask m k)) u) = t_state (k_tasks k u)"
  "t_state (k_tasks (snd (snd (syssigprocmask how s oset k))) u) = t_state (k_tasks k u)"
  "t_state (k_tasks (exec_signals k) u) = t_state (k_tasks k u)"
  by (auto simp: checkpending_def sa_put_def sysssetmask_def syssigprocmask_def exec_signals_def curr_upd_def Let_def
      split: uptr.splits)

lemma force_state:
  assumes "force t signo k = Some k'" "t_state (k_tasks k u) \<notin> {TSLEEP, TWAIT}"
  shows "t_state (k_tasks k' u) = t_state (k_tasks k u)"
proof -
  obtain k2 where "post t signo k2 = Some k'" "t_state (k_tasks k2 u) = t_state (k_tasks k u)"
    using assms(1) by (auto simp: force_def sigvec_get_def Let_def split: if_splits)
  with post_state [of t signo k2 k' u] assms(2) show ?thesis by simp
qed

lemma sig_exec_state:
  assumes "sig_exec okf x k = Some k'" "t_state (k_tasks k u) \<notin> {TSLEEP, TWAIT}"
  shows "t_state (k_tasks k' u) = t_state (k_tasks k u)"
proof (cases x)
  case (Post t signo)
  with assms post_state [of t signo k k' u] show ?thesis by (auto split: if_splits)
next
  case (Kill t signo)
  with assms post_state [of t signo k k' u] show ?thesis
    by (auto simp: kill_def Let_def bind_eq_Some_conv split: if_splits)
next
  case (Force signo)
  with assms force_state [of "k_curr k" signo k k' u] show ?thesis by (auto split: if_splits)
next
  case (Signal signo f)
  with assms show ?thesis by (auto simp: syssignal_def sigvec_get_def Let_def split: if_splits)
next
  case (Sigaction signo act oact)
  with assms show ?thesis
    by (auto simp: syssigaction_def sigvec_get_def Let_def split: if_splits uptr.splits)
qed (use assms in auto)

text \<open>
  A stopped task never runs again: \<^verbatim>\<open>wakeup()\<close> wakes only sleeping and waiting tasks and \<^verbatim>\<open>post()\<close>
  calls it only for waiting ones, so neither \<^verbatim>\<open>SIGCONT\<close> nor \<^verbatim>\<open>SIGKILL\<close> nor anything else gets a task out
  of \<^verbatim>\<open>TSTOP\<close>.
\<close>
theorem stopped_forever:
  assumes "sig_inv k" "t_state (k_tasks k t) = TSTOP"
  shows "\<exists>k'. foldM (kexec okf) ops k = Some k' \<and> t_state (k_tasks k' t) = TSTOP \<and> k_curr k' \<noteq> t"
proof -
  have "\<exists>k'. foldM (kexec okf) ops k = Some k' \<and> (sig_inv k' \<and> t_state (k_tasks k' t) = TSTOP)"
  proof (rule foldM_invariant)
    fix x k assume k: "sig_inv k \<and> t_state (k_tasks k t) = TSTOP"
    then have "t \<noteq> k_curr k" by (auto simp: sig_inv_def running_def curr_task_def)
    then have "kexec okf x k = Some k' \<Longrightarrow> t_state (k_tasks k' t) = TSTOP" for k'
      using k sched_exec_state [of _ k k' t] sig_exec_state [of okf _ k k' t] by (cases x) (auto simp: kexec_def)
    with kexec_ok [of k okf x] k show "\<exists>k'. kexec okf x k = Some k' \<and> sig_inv k' \<and> t_state (k_tasks k' t) = TSTOP"
      by blast
  qed (use assms in simp)
  then show ?thesis by (auto simp: sig_inv_def running_def curr_task_def)
qed

text \<open>The example with the shell stopped.\<close>

definition demo_stopped :: kern where
  "demo_stopped = task_upd 300 (\<lambda>x. x\<lparr>t_state := TSTOP\<rparr>) demo_kern"

lemma demo_stopped_inv: "sig_inv demo_stopped"
proof -
  have t: "task_ok (k_tasks demo_kern 300)" "sig_ok (k_tasks demo_kern 300)"
    using demo_sig_inv sched_invD(2) [OF demo_sched_inv, of 300] by (auto simp: sig_inv_def demo_kern_def)
  have l: "t_runlink (k_tasks demo_kern 300) = OnWait 7" by (simp add: demo_kern_def)
  have e: "k_idletask demo_kern \<noteq> 300" "k_curr demo_kern \<noteq> 300" by (simp_all add: demo_kern_def)
  have "task_ok ((k_tasks demo_kern 300)\<lparr>t_state := TSTOP\<rparr>)" "sig_ok ((k_tasks demo_kern 300)\<lparr>t_state := TSTOP\<rparr>)"
    using t l by (simp_all add: task_ok_def sig_ok_def)
  moreover have "links_ok demo_stopped"
    unfolding demo_stopped_def by (rule links_ok_upd [OF demo_links]) simp
  ultimately show ?thesis
    using demo_sig_inv e unfolding sig_inv_def running_def sched_inv_def curr_task_def demo_stopped_def by simp
qed

theorem stopped_witness:
  "\<exists>k'. foldM (kexec (\<lambda>_. True)) [Inr (Post 300 18), Inr (Post 300 9), Inl (DoWakeup 300), Inl DoSched] demo_stopped
     = Some k' \<and> t_state (k_tasks k' 300) = TSTOP \<and> k_curr k' \<noteq> 300"
  by (rule stopped_forever [OF demo_stopped_inv]) (simp add: demo_stopped_def)

end
