(* ===== verification/Kern_Uidgid.thy ===== *)
theory Kern_Uidgid
  imports Kern_Sched
begin

text \<open>
  User and group ids (\<^verbatim>\<open>kern/uidgid.cc\<close>): BSD-style \<^verbatim>\<open>setreuid\<close>/\<^verbatim>\<open>setregid\<close> and System V style
  \<^verbatim>\<open>setuid\<close>/\<^verbatim>\<open>setgid\<close> with saved ids, on 16-bit ids where \<^verbatim>\<open>(uid_t) -1\<close> means "leave it".  The
  theorem is the security property the comments ask for: a process that holds no privileged id
  cannot get an id it does not already hold, whatever it calls.
\<close>

definition cu :: "(task \<Rightarrow> task) \<Rightarrow> kern \<Rightarrow> kern" where
  "cu f k = task_upd (k_curr k) f k"

definition syssetregid :: "u16 \<Rightarrow> u16 \<Rightarrow> kern \<Rightarrow> int \<times> kern" where
  "syssetregid rgid egid k =
     (let old_rgid = t_gid (curr_task k);
          bad1 = (rgid \<noteq> - 1 \<and> \<not> (t_egid (curr_task k) = rgid \<or> old_rgid = rgid \<or> suser k))
      in if bad1 then (EPERM, k)
         else let k1 = (if rgid \<noteq> - 1 then cu (\<lambda>t. t\<lparr>t_gid := rgid\<rparr>) k else k)
           in if egid \<noteq> - 1
              then if old_rgid = egid \<or> t_egid (curr_task k1) = egid \<or> suser k1
                then (0, cu (\<lambda>t. t\<lparr>t_egid := egid, t_sgid := egid\<rparr>) k1)
                else (EPERM, cu (\<lambda>t. t\<lparr>t_gid := old_rgid\<rparr>) k1)
              else (0, k1))"

definition syssetgid :: "u16 \<Rightarrow> kern \<Rightarrow> int \<times> kern" where
  "syssetgid gid k =
     (if suser k then (0, cu (\<lambda>t. t\<lparr>t_gid := gid, t_egid := gid, t_sgid := gid\<rparr>) k)
      else if gid = t_gid (curr_task k) \<or> gid = t_sgid (curr_task k)
        then (0, cu (\<lambda>t. t\<lparr>t_egid := gid\<rparr>) k)
      else (EPERM, k))"

definition syssetreuid :: "u16 \<Rightarrow> u16 \<Rightarrow> kern \<Rightarrow> int \<times> kern" where
  "syssetreuid ruid euid k =
     (let old_ruid = t_uid (curr_task k);
          bad1 = (ruid \<noteq> - 1 \<and> \<not> (t_euid (curr_task k) = ruid \<or> old_ruid = ruid \<or> suser k))
      in if bad1 then (EPERM, k)
         else let k1 = (if ruid \<noteq> - 1 then cu (\<lambda>t. t\<lparr>t_uid := ruid\<rparr>) k else k)
           in if euid \<noteq> - 1
              then if old_ruid = euid \<or> t_euid (curr_task k1) = euid \<or> suser k1
                then (0, cu (\<lambda>t. t\<lparr>t_euid := euid, t_suid := euid\<rparr>) k1)
                else (EPERM, cu (\<lambda>t. t\<lparr>t_uid := old_ruid\<rparr>) k1)
              else (0, k1))"

definition syssetuid :: "u16 \<Rightarrow> kern \<Rightarrow> int \<times> kern" where
  "syssetuid uid k =
     (if suser k then (0, cu (\<lambda>t. t\<lparr>t_uid := uid, t_euid := uid, t_suid := uid\<rparr>) k)
      else if uid = t_uid (curr_task k) \<or> uid = t_suid (curr_task k)
        then (0, cu (\<lambda>t. t\<lparr>t_euid := uid\<rparr>) k)
      else (EPERM, k))"

definition sysgetpid :: "kern \<Rightarrow> int" where
  "sysgetpid k = t_pid (curr_task k)"

definition sysgetppid :: "kern \<Rightarrow> int" where
  "sysgetppid k = t_pid (k_tasks k (t_parent (curr_task k)))"

definition sysgetuid :: "kern \<Rightarrow> int" where
  "sysgetuid k = uint (t_uid (curr_task k))"

definition sysgeteuid :: "kern \<Rightarrow> int" where
  "sysgeteuid k = uint (t_euid (curr_task k))"

definition sysgetgid :: "kern \<Rightarrow> int" where
  "sysgetgid k = uint (t_gid (curr_task k))"

definition sysgetegid :: "kern \<Rightarrow> int" where
  "sysgetegid k = uint (t_egid (curr_task k))"

definition sysgetpgrp :: "kern \<Rightarrow> int" where
  "sysgetpgrp k = g_pgid (k_pgrps k (t_pgrp (curr_task k)))"

subsection \<open>Privilege\<close>

definition uids :: "task \<Rightarrow> u16 set" where
  "uids t = {t_uid t, t_euid t, t_suid t}"

definition gids :: "task \<Rightarrow> u16 set" where
  "gids t = {t_gid t, t_egid t, t_sgid t}"

datatype id_call = Setregid u16 u16 | Setgid u16 | Setreuid u16 u16 | Setuid u16

fun id_exec :: "id_call \<Rightarrow> kern \<Rightarrow> int \<times> kern" where
  "id_exec (Setregid r e) k = syssetregid r e k"
| "id_exec (Setgid g) k = syssetgid g k"
| "id_exec (Setreuid r e) k = syssetreuid r e k"
| "id_exec (Setuid u) k = syssetuid u k"

lemma cu_simps [simp]:
  "curr_task (cu f k) = f (curr_task k)"
  "suser (cu f k) \<longleftrightarrow> t_euid (f (curr_task k)) = 0"
  "k_curr (cu f k) = k_curr k"
  by (simp_all add: cu_def curr_task_def suser_def)

lemma cu_cu: "cu f (cu g k) = cu (\<lambda>t. f (g t)) k"
  by (simp add: cu_def task_upd_def)

lemma cu_id: "f (curr_task k) = curr_task k \<Longrightarrow> cu f k = k"
  by (simp add: cu_def task_upd_def curr_task_def fun_upd_idem)

lemma cu_cong: "f (curr_task k) = g (curr_task k) \<Longrightarrow> cu f k = cu g k"
  by (simp add: cu_def task_upd_def curr_task_def)

lemma setre_eq:
  "syssetregid r e k =
     (if r \<noteq> - 1 \<and> r \<notin> {t_gid (curr_task k), t_egid (curr_task k)} \<and> \<not> suser k \<or>
         e \<noteq> - 1 \<and> e \<notin> {t_gid (curr_task k), t_egid (curr_task k)} \<and> \<not> suser k
      then (EPERM, k)
      else (0, cu (\<lambda>t. t\<lparr>t_gid := (if r = - 1 then t_gid t else r),
                         t_egid := (if e = - 1 then t_egid t else e),
                         t_sgid := (if e = - 1 then t_sgid t else e)\<rparr>) k))"
  "syssetreuid r e k =
     (if r \<noteq> - 1 \<and> r \<notin> {t_uid (curr_task k), t_euid (curr_task k)} \<and> \<not> suser k \<or>
         e \<noteq> - 1 \<and> e \<notin> {t_uid (curr_task k), t_euid (curr_task k)} \<and> \<not> suser k
      then (EPERM, k)
      else (0, cu (\<lambda>t. t\<lparr>t_uid := (if r = - 1 then t_uid t else r),
                         t_euid := (if e = - 1 then t_euid t else e),
                         t_suid := (if e = - 1 then t_suid t else e)\<rparr>) k))"
proof -
  have [simp]: "cu (\<lambda>t. t) k = k" by (rule cu_id) simp
  have g: "cu (\<lambda>t. t\<lparr>t_gid := t_gid (curr_task k)\<rparr>) (cu (\<lambda>t. t\<lparr>t_gid := r\<rparr>) k) = k"
    "cu (\<lambda>t. t\<lparr>t_gid := t_gid (curr_task k)\<rparr>) k = k"
    "cu (\<lambda>t. t\<lparr>t_egid := e, t_sgid := e\<rparr>) (cu (\<lambda>t. t\<lparr>t_gid := r\<rparr>) k) = cu (\<lambda>t. t\<lparr>t_gid := r, t_egid := e, t_sgid := e\<rparr>) k"
    by (simp_all add: cu_cu cu_id)
  have u: "cu (\<lambda>t. t\<lparr>t_uid := t_uid (curr_task k)\<rparr>) (cu (\<lambda>t. t\<lparr>t_uid := r\<rparr>) k) = k"
    "cu (\<lambda>t. t\<lparr>t_uid := t_uid (curr_task k)\<rparr>) k = k"
    "cu (\<lambda>t. t\<lparr>t_euid := e, t_suid := e\<rparr>) (cu (\<lambda>t. t\<lparr>t_uid := r\<rparr>) k) = cu (\<lambda>t. t\<lparr>t_uid := r, t_euid := e, t_suid := e\<rparr>) k"
    by (simp_all add: cu_cu cu_id)
  have s: "suser k \<longleftrightarrow> t_euid (curr_task k) = 0" by (simp add: suser_def)
  show "syssetregid r e k =
     (if r \<noteq> - 1 \<and> r \<notin> {t_gid (curr_task k), t_egid (curr_task k)} \<and> \<not> suser k \<or>
         e \<noteq> - 1 \<and> e \<notin> {t_gid (curr_task k), t_egid (curr_task k)} \<and> \<not> suser k
      then (EPERM, k)
      else (0, cu (\<lambda>t. t\<lparr>t_gid := (if r = - 1 then t_gid t else r),
                         t_egid := (if e = - 1 then t_egid t else e),
                         t_sgid := (if e = - 1 then t_sgid t else e)\<rparr>) k))"
    unfolding syssetregid_def Let_def by (cases "r = - 1"; cases "e = - 1") (auto simp: g s cu_cu intro!: cu_cong)
  show "syssetreuid r e k =
     (if r \<noteq> - 1 \<and> r \<notin> {t_uid (curr_task k), t_euid (curr_task k)} \<and> \<not> suser k \<or>
         e \<noteq> - 1 \<and> e \<notin> {t_uid (curr_task k), t_euid (curr_task k)} \<and> \<not> suser k
      then (EPERM, k)
      else (0, cu (\<lambda>t. t\<lparr>t_uid := (if r = - 1 then t_uid t else r),
                         t_euid := (if e = - 1 then t_euid t else e),
                         t_suid := (if e = - 1 then t_suid t else e)\<rparr>) k))"
    unfolding syssetreuid_def Let_def by (cases "r = - 1"; cases "e = - 1") (auto simp: u s cu_cu intro!: cu_cong)
qed

lemma id_exec_others: "t \<noteq> k_curr k \<Longrightarrow> k_tasks (snd (id_exec x k)) t = k_tasks k t"
  by (cases x) (auto simp: setre_eq syssetgid_def syssetuid_def cu_def)

lemma id_exec_curr: "k_curr (snd (id_exec x k)) = k_curr k"
  by (cases x) (auto simp: setre_eq syssetgid_def syssetuid_def)

lemma id_exec_step:
  assumes "0 \<notin> uids (curr_task k)"
  shows "uids (curr_task (snd (id_exec x k))) \<subseteq> uids (curr_task k) \<and>
    gids (curr_task (snd (id_exec x k))) \<subseteq> gids (curr_task k)"
  using assms by (cases x) (auto simp: setre_eq syssetgid_def syssetuid_def uids_def gids_def suser_def)

text \<open>
  C33: A process none of whose user ids is 0 can, by any sequence of the id system calls, only
  rearrange the ids it already has: it never becomes the super user, and its user and group ids
  stay among the real, effective and saved ids it started with; no other process is changed.
\<close>
theorem no_privilege_gain:
  assumes "0 \<notin> uids (curr_task k)" "k' = fold (\<lambda>x k. snd (id_exec x k)) calls k"
  shows "\<not> suser k' \<and> uids (curr_task k') \<subseteq> uids (curr_task k) \<and> gids (curr_task k') \<subseteq> gids (curr_task k) \<and>
    (\<forall>t. t \<noteq> k_curr k \<longrightarrow> k_tasks k' t = k_tasks k t)"
proof -
  have "uids (curr_task k') \<subseteq> uids (curr_task k) \<and> gids (curr_task k') \<subseteq> gids (curr_task k) \<and>
      (\<forall>t. t \<noteq> k_curr k \<longrightarrow> k_tasks k' t = k_tasks k t)"
    using assms
  proof (induction calls arbitrary: k)
    case (Cons x calls)
    let ?k = "snd (id_exec x k)"
    note step = id_exec_step [OF Cons.prems(1), of x]
    have "0 \<notin> uids (curr_task ?k)" using step Cons.prems(1) by blast
    from Cons.IH [OF this] Cons.prems(2) step show ?case
      by (auto simp: id_exec_curr id_exec_others)
  qed simp
  with assms(1) show ?thesis by (auto simp: suser_def uids_def)
qed

theorem no_privilege_witness:
  "\<not> suser (fold (\<lambda>x k. snd (id_exec x k)) [Setuid 0, Setreuid 500 0, Setreuid 500 500]
     (demo_kern\<lparr>k_curr := 300\<rparr>))"
proof -
  have "0 \<notin> uids (curr_task (demo_kern\<lparr>k_curr := 300\<rparr>))"
    by (simp add: uids_def curr_task_def demo_kern_def)
  from no_privilege_gain [OF this refl] show ?thesis by blast
qed

end
