(* ===== verification/Kern_Pgrp.thy ===== *)
theory Kern_Pgrp
  imports Kern_Signal
begin

text \<open>
  The task database (\<^verbatim>\<open>kern/taskdb.cc\<close>) and process groups and sessions (\<^verbatim>\<open>kern/pgrp.h\<close>,
  \<^verbatim>\<open>kern/pgrp.cc\<close>).  The addresses of new \<^verbatim>\<open>pgrp_t\<close> and \<^verbatim>\<open>session_t\<close> objects are arguments (they come
  from the allocator, \<^verbatim>\<open>Mm_Allockm\<close>), and so is the content of the not yet initialised field \<^verbatim>\<open>pgid\<close>
  the constructor of \<^verbatim>\<open>pgrp_t\<close> computes a hash of.  Membership in the chain \<^verbatim>\<open>nextmember\<close>/\<^verbatim>\<open>prevmember\<close> is
  the field \<open>t_pgrp\<close>.
\<close>

subsection \<open>Looking up\<close>

text \<open>\<^verbatim>\<open>pid & hmask\<close>, with \<^verbatim>\<open>hmask\<close> one less than the number of buckets.\<close>

definition hashidx :: "int \<Rightarrow> 'a list \<Rightarrow> nat" where
  "hashidx pid tab = nat (pid AND (int (length tab) - 1))"

definition findtask :: "int \<Rightarrow> kern \<Rightarrow> nat option" where
  "findtask pid k = List.find (\<lambda>t. t_pid (k_tasks k t) = pid) (k_hashtab k ! hashidx pid (k_hashtab k))"

definition findpgrp :: "int \<Rightarrow> kern \<Rightarrow> nat option" where
  "findpgrp pgid k = List.find (\<lambda>g. g_pgid (k_pgrps k g) = pgid) (k_pghash k ! hashidx pgid (k_pghash k))"

definition findsession :: "int \<Rightarrow> kern \<Rightarrow> nat option" where
  "findsession sid k = List.find (\<lambda>s. s_sid (k_sessions k s) = sid) (k_allsessionq k)"

text \<open>\<^verbatim>\<open>++lastpid\<close> on a 32-bit \<^verbatim>\<open>int\<close>.\<close>

definition incpid :: "int \<Rightarrow> int" where
  "incpid n = sint (word_of_int (n + 1) :: u32)"

partial_function (option) newpid :: "kern \<Rightarrow> (int \<times> kern) option" where
  "newpid k = (let k1 = k\<lparr>k_lastpid := incpid (k_lastpid k)\<rparr> in
     if findtask (k_lastpid k1) k1 = None then Some (k_lastpid k1, k1) else newpid k1)"

subsection \<open>Groups and sessions\<close>

definition pgrp_upd :: "nat \<Rightarrow> (pgrp \<Rightarrow> pgrp) \<Rightarrow> kern \<Rightarrow> kern" where
  "pgrp_upd g f k = k\<lparr>k_pgrps := (k_pgrps k)(g := f (k_pgrps k g))\<rparr>"

definition session_upd :: "nat \<Rightarrow> (session \<Rightarrow> session) \<Rightarrow> kern \<Rightarrow> kern" where
  "session_upd s f k = k\<lparr>k_sessions := (k_sessions k)(s := f (k_sessions k s))\<rparr>"

definition pgrp_ctor :: "nat \<Rightarrow> int \<Rightarrow> nat \<Rightarrow> nat \<Rightarrow> kern \<Rightarrow> kern option" where
  "pgrp_ctor g junk s t k = do {
     let k1 = session_upd s (\<lambda>x. x\<lparr>s_pgrpq := s_pgrpq x @ [g]\<rparr>) k;
     let i = hashidx junk (k_pghash k1);
     let k2 = k1\<lparr>k_pghash := (k_pghash k1)[i := k_pghash k1 ! i @ [g]]\<rparr>;
     kassert (t_pgrp (k_tasks k2 t) = 0);
     let k3 = task_upd t (\<lambda>x. x\<lparr>t_pgrp := g\<rparr>) k2;
     Some (pgrp_upd g (\<lambda>x. x\<lparr>g_taskq := [t], g_session := s, g_pgid := t_pid (k_tasks k3 t)\<rparr>) k3) }"

definition pgrp_dtor :: "nat \<Rightarrow> nat \<Rightarrow> kern \<Rightarrow> kern option" where
  "pgrp_dtor g s k = do {
     kassert (g \<in> set (s_pgrpq (k_sessions k s)));
     kassert (\<exists>b\<in>set (k_pghash k). g \<in> set b);
     Some ((session_upd s (\<lambda>x. x\<lparr>s_pgrpq := remove1 g (s_pgrpq x)\<rparr>) k)
       \<lparr>k_pghash := map (remove1 g) (k_pghash k)\<rparr>) }"

definition task_tty :: "nat \<Rightarrow> kern \<Rightarrow> nat" where
  "task_tty t k = s_tty (k_sessions k (g_session (k_pgrps k (t_pgrp (k_tasks k t)))))"

definition task_session :: "nat \<Rightarrow> kern \<Rightarrow> nat" where
  "task_session t k = g_session (k_pgrps k (t_pgrp (k_tasks k t)))"

definition leader :: "nat \<Rightarrow> kern \<Rightarrow> bool" where
  "leader t k \<longleftrightarrow> t = s_leader (k_sessions k (g_session (k_pgrps k (t_pgrp (k_tasks k t)))))"

definition enter :: "nat \<Rightarrow> nat \<Rightarrow> kern \<Rightarrow> kern option" where
  "enter t g k = do {
     kassert (t_pgrp (k_tasks k t) = 0);
     Some (pgrp_upd g (\<lambda>x. x\<lparr>g_taskq := g_taskq x @ [t]\<rparr>) (task_upd t (\<lambda>x. x\<lparr>t_pgrp := g\<rparr>) k)) }"

definition session_dtor :: "nat \<Rightarrow> kern \<Rightarrow> kern option" where
  "session_dtor s k = do {
     let x = k_sessions k s;
     kassert (s_pgrpq x = [] \<and> s_leader x = 0 \<and> s_fg x = 0);
     kassert (s \<in> set (k_allsessionq k));
     Some ((session_upd s (\<lambda>x. x\<lparr>s_tty := 0\<rparr>) k)\<lparr>k_allsessionq := remove1 s (k_allsessionq k)\<rparr>) }"

definition leave :: "nat \<Rightarrow> kern \<Rightarrow> kern option" where
  "leave t k = do {
     kassert (t_pgrp (k_tasks k t) \<noteq> 0);
     let g = t_pgrp (k_tasks k t);
     let s = g_session (k_pgrps k g);
     let k1 = task_upd t (\<lambda>x. x\<lparr>t_pgrp := 0\<rparr>) k;
     let k2 = (if t = s_leader (k_sessions k1 s) then session_upd s (\<lambda>x. x\<lparr>s_leader := 0\<rparr>) k1 else k1);
     kassert (t \<in> set (g_taskq (k_pgrps k2 g)));
     let k3 = pgrp_upd g (\<lambda>x. x\<lparr>g_taskq := remove1 t (g_taskq x)\<rparr>) k2;
     if g_taskq (k_pgrps k3 g) \<noteq> [] then Some k3
     else do {
       let k4 = pgrp_upd g (\<lambda>x. x\<lparr>g_session := 0\<rparr>) k3;
       let k5 = (if g = s_fg (k_sessions k4 s) then session_upd s (\<lambda>x. x\<lparr>s_fg := 0\<rparr>) k4 else k4);
       k6 \<leftarrow> pgrp_dtor g s k5;
       if s_pgrpq (k_sessions k6 s) \<noteq> [] then Some k6 else session_dtor s k6 } }"

definition session_ctor :: "nat \<Rightarrow> nat \<Rightarrow> int \<Rightarrow> nat \<Rightarrow> kern \<Rightarrow> kern option" where
  "session_ctor s g junk t k = do {
     kassert (t_pgrp (k_tasks k t) = 0);
     let k1 = session_upd s (\<lambda>x. x\<lparr>s_sid := t_pid (k_tasks k t), s_leader := t, s_pgrpq := []\<rparr>) k;
     k2 \<leftarrow> pgrp_ctor g junk s t k1;
     let k3 = session_upd s (\<lambda>x. x\<lparr>s_fg := 0, s_tty := 0\<rparr>) k2;
     kassert (s \<notin> set (k_allsessionq k3));
     Some (k3\<lparr>k_allsessionq := k_allsessionq k3 @ [s]\<rparr>) }"

subsection \<open>Signalling groups and sessions\<close>

definition pgrp_post :: "nat \<Rightarrow> int \<Rightarrow> kern \<Rightarrow> kern option" where
  "pgrp_post g signo k = foldM (\<lambda>t. post t signo) (g_taskq (k_pgrps k g)) k"

definition session_post :: "nat \<Rightarrow> int \<Rightarrow> kern \<Rightarrow> kern option" where
  "session_post s signo k = foldM (\<lambda>g. pgrp_post g signo) (s_pgrpq (k_sessions k s)) k"

text \<open>The loops keep the first error and go on.\<close>

definition kill_first :: "('a \<Rightarrow> kern \<Rightarrow> (int \<times> kern) option) \<Rightarrow> 'a list \<Rightarrow> kern \<Rightarrow> (int \<times> kern) option" where
  "kill_first f xs k = foldM (\<lambda>x (e, k). do {
     (e1, k1) \<leftarrow> f x k;
     Some (if e \<noteq> 0 then e else e1, k1) }) xs (0, k)"

definition pgrp_kill :: "nat \<Rightarrow> int \<Rightarrow> kern \<Rightarrow> (int \<times> kern) option" where
  "pgrp_kill g signo k = kill_first (\<lambda>t. kill t signo) (g_taskq (k_pgrps k g)) k"

definition session_kill :: "nat \<Rightarrow> int \<Rightarrow> kern \<Rightarrow> (int \<times> kern) option" where
  "session_kill s signo k = kill_first (\<lambda>g. pgrp_kill g signo) (s_pgrpq (k_sessions k s)) k"

definition orphaned :: "nat \<Rightarrow> kern \<Rightarrow> bool" where
  "orphaned g k \<longleftrightarrow> list_all (\<lambda>t.
     t_state (k_tasks k t) = TZOMBIE \<or>
     (let pg = t_pgrp (k_tasks k (t_parent (k_tasks k t))) in
      \<not> (g_session (k_pgrps k pg) = g_session (k_pgrps k g) \<and> pg \<noteq> g))) (g_taskq (k_pgrps k g))"

definition neworphaned :: "nat \<Rightarrow> kern \<Rightarrow> kern option" where
  "neworphaned g k = foldM (\<lambda>t k.
     if t_state (k_tasks k t) = TSTOP then do {
       (e1, k1) \<leftarrow> pgrp_kill g SIGHUP k;
       (e2, k2) \<leftarrow> pgrp_kill g SIGCONT k1;
       Some k2 }
     else Some k) (g_taskq (k_pgrps k g)) k"

subsection \<open>System calls\<close>

definition getfg :: "nat \<Rightarrow> kern \<Rightarrow> int + int" where
  "getfg s k = (if s_fg (k_sessions k s) = 0 then Inl EINVAL else Inr (g_pgid (k_pgrps k (s_fg (k_sessions k s)))))"

definition setfg :: "nat \<Rightarrow> int \<Rightarrow> kern \<Rightarrow> int \<times> kern" where
  "setfg s pgid k = (case findpgrp pgid k of
     None \<Rightarrow> (ESRCH, k)
   | Some g \<Rightarrow> (0, session_upd s (\<lambda>x. x\<lparr>s_fg := g\<rparr>) k))"

text \<open>\<open>low\<close> is the result of \<^verbatim>\<open>lowfreepage()\<close>.\<close>

definition syssetsid :: "bool \<Rightarrow> nat \<Rightarrow> nat \<Rightarrow> int \<Rightarrow> kern \<Rightarrow> (int \<times> kern) option" where
  "syssetsid low s g junk k =
     (if low then Some (ENOMEM, k)
      else if g_pgid (k_pgrps k (t_pgrp (curr_task k))) = t_pid (curr_task k) then Some (EPERM, k)
      else do {
        k1 \<leftarrow> leave (k_curr k) k;
        k2 \<leftarrow> session_ctor s g junk (k_curr k) k1;
        Some (t_pid (curr_task k2), k2) })"

definition sysgetsid :: "int \<Rightarrow> kern \<Rightarrow> int" where
  "sysgetsid pid k =
     (if pid = 0 then s_sid (k_sessions k (task_session (k_curr k) k))
      else case findtask pid k of
        None \<Rightarrow> ESRCH
      | Some t \<Rightarrow> s_sid (k_sessions k (task_session t k)))"

text \<open>The walk up to the idle task; \<open>None\<close> when it never gets there.\<close>

partial_function (option) mychild :: "nat \<Rightarrow> kern \<Rightarrow> bool option" where
  "mychild t k =
     (if t = k_idletask k then Some False
      else if t_parent (k_tasks k t) = k_curr k then Some True
      else mychild (t_parent (k_tasks k t)) k)"

definition setpgid_go :: "nat \<Rightarrow> int \<Rightarrow> int \<Rightarrow> nat \<Rightarrow> int \<Rightarrow> kern \<Rightarrow> (int \<times> kern) option" where
  "setpgid_go t pid pgid0 g junk k =
     (if s_leader (k_sessions k (task_session t k)) = t then Some (EPERM, k)
      else let pgid = (if pgid0 = 0 then pid else pgid0) in
        if pid = pgid then
          (if findpgrp pgid k \<noteq> None then Some (EPERM, k)
           else let s = task_session t k in do {
             k1 \<leftarrow> leave t k;
             k2 \<leftarrow> pgrp_ctor g junk s t k1;
             Some (0, k2) })
        else case findpgrp pgid k of
          None \<Rightarrow> Some (ESRCH, k)
        | Some h \<Rightarrow>
            if t_pgrp (k_tasks k t) = h then Some (0, k)
            else do { k1 \<leftarrow> leave t k; k2 \<leftarrow> enter t h k1; Some (0, k2) })"

definition syssetpgid :: "bool \<Rightarrow> int \<Rightarrow> int \<Rightarrow> nat \<Rightarrow> int \<Rightarrow> kern \<Rightarrow> (int \<times> kern) option" where
  "syssetpgid low pid pgid g junk k =
     (if low then Some (ENOMEM, k)
      else if pid = 0 \<or> pid = t_pid (curr_task k)
        then setpgid_go (k_curr k) (t_pid (curr_task k)) pgid g junk k
      else case findtask pid k of
        None \<Rightarrow> Some (ESRCH, k)
      | Some t \<Rightarrow> do {
          mine \<leftarrow> mychild t k;
          if \<not> mine \<or> task_session t k \<noteq> task_session (k_curr k) k then Some (EPERM, k)
          else setpgid_go t pid pgid g junk k })"

definition sysgetpgid :: "int \<Rightarrow> kern \<Rightarrow> int" where
  "sysgetpgid pid k =
     (if pid = 0 then g_pgid (k_pgrps k (t_pgrp (curr_task k)))
      else case findtask pid k of
        None \<Rightarrow> ESRCH
      | Some t \<Rightarrow> g_pgid (k_pgrps k (t_pgrp (k_tasks k t))))"

subsection \<open>The task database\<close>

definition hash_enq :: "nat \<Rightarrow> int \<Rightarrow> nat list list \<Rightarrow> nat list list" where
  "hash_enq t pid tab = (let i = hashidx pid tab in tab[i := tab ! i @ [t]])"

definition task_install :: "nat \<Rightarrow> kern \<Rightarrow> kern option" where
  "task_install t k = do {
     let k1 = k\<lparr>k_alltaskq := k_alltaskq k @ [t]\<rparr>;
     let k2 = k1\<lparr>k_hashtab := hash_enq t (t_pid (k_tasks k1 t)) (k_hashtab k1)\<rparr>;
     let k3 = task_upd t (\<lambda>x. x\<lparr>t_runlink := Unlinked\<rparr>) k2;
     k4 \<leftarrow> enqrun t k3;
     let k5 = task_upd t (\<lambda>x. x\<lparr>t_pgrp := 0\<rparr>) k4;
     k6 \<leftarrow> enter t (t_pgrp (k_tasks k5 (k_curr k5))) k5;
     let k7 = task_upd t (\<lambda>x. x\<lparr>t_parent := k_curr k6\<rparr>) k6;
     Some (task_upd (k_curr k7) (\<lambda>x. x\<lparr>t_childq := t_childq x @ [t]\<rparr>) k7) }"

definition zombietaskq :: nat where "zombietaskq = 1"

definition task_uninstall :: "nat \<Rightarrow> kern \<Rightarrow> kern option" where
  "task_uninstall t k = do {
     kassert (t_state (k_tasks k t) = TZOMBIE);
     kassert (t \<in> set (k_alltaskq k));
     let k1 = k\<lparr>k_alltaskq := remove1 t (k_alltaskq k)\<rparr>;
     let k2 = k1\<lparr>k_hashtab := map (remove1 t) (k_hashtab k1)\<rparr>;
     k3 \<leftarrow> unlinkrun t k2;
     k4 \<leftarrow> leave t k3;
     kassert (t_childq (k_tasks k4 t) = []);
     let k5 = task_upd (t_parent (k_tasks k4 t)) (\<lambda>x. x\<lparr>t_childq := remove1 t (t_childq x)\<rparr>) k4;
     Some (task_upd t (\<lambda>x. x\<lparr>t_parent := 0\<rparr>) k5) }"

subsection \<open>The invariant of groups and sessions\<close>

text \<open>
  Over the components of the state: the set \<open>A\<close> of all tasks, the group \<open>T\<close> of a task, the members \<open>Q\<close>
  and the session \<open>S\<close> of a group, the groups \<open>PQ\<close>, the leader \<open>L\<close> and the foreground group \<open>F\<close> of a
  session, the list \<open>AS\<close> of all sessions and the set \<open>H\<close> of hashed groups.
\<close>

definition pg_ok :: "nat set \<Rightarrow> (nat \<Rightarrow> nat) \<Rightarrow> (nat \<Rightarrow> nat list) \<Rightarrow> (nat \<Rightarrow> nat) \<Rightarrow> (nat \<Rightarrow> nat list) \<Rightarrow>
    (nat \<Rightarrow> nat) \<Rightarrow> (nat \<Rightarrow> nat) \<Rightarrow> nat list \<Rightarrow> nat set \<Rightarrow> bool" where
  "pg_ok A T Q S PQ L F AS H \<longleftrightarrow>
     0 \<notin> A \<and> Q 0 = [] \<and> 0 \<notin> set AS \<and> distinct AS \<and> (\<forall>g. distinct (Q g)) \<and> (\<forall>s. distinct (PQ s)) \<and>
     (\<forall>g t. g \<noteq> 0 \<longrightarrow> (t \<in> set (Q g) \<longleftrightarrow> t \<in> A \<and> T t = g)) \<and>
     (\<forall>s g. s \<in> set AS \<longrightarrow> (g \<in> set (PQ s) \<longleftrightarrow> Q g \<noteq> [] \<and> S g = s)) \<and>
     (\<forall>g. Q g \<noteq> [] \<longrightarrow> S g \<in> set AS) \<and> (\<forall>g. g \<in> H \<longleftrightarrow> Q g \<noteq> []) \<and>
     (\<forall>s. s \<in> set AS \<longrightarrow> PQ s \<noteq> [] \<and> (L s \<noteq> 0 \<longrightarrow> L s \<in> A \<and> T (L s) \<noteq> 0 \<and> S (T (L s)) = s) \<and>
        (F s \<noteq> 0 \<longrightarrow> F s \<in> set (PQ s)))"

definition pg_inv :: "kern \<Rightarrow> bool" where
  "pg_inv k \<longleftrightarrow> pg_ok (set (k_alltaskq k)) (\<lambda>t. t_pgrp (k_tasks k t)) (\<lambda>g. g_taskq (k_pgrps k g))
     (\<lambda>g. g_session (k_pgrps k g)) (\<lambda>s. s_pgrpq (k_sessions k s)) (\<lambda>s. s_leader (k_sessions k s))
     (\<lambda>s. s_fg (k_sessions k s)) (k_allsessionq k) (\<Union>b\<in>set (k_pghash k). set b) \<and>
     (\<forall>b\<in>set (k_pghash k). distinct b)"

lemma pg_okD:
  assumes "pg_ok A T Q S PQ L F AS H"
  shows "0 \<notin> A" "Q 0 = []" "0 \<notin> set AS" "distinct AS" "distinct (Q g)" "distinct (PQ s)"
    "g \<noteq> 0 \<Longrightarrow> t \<in> set (Q g) \<longleftrightarrow> t \<in> A \<and> T t = g"
    "s \<in> set AS \<Longrightarrow> g \<in> set (PQ s) \<longleftrightarrow> Q g \<noteq> [] \<and> S g = s"
    "Q g \<noteq> [] \<Longrightarrow> S g \<in> set AS" "g \<in> H \<longleftrightarrow> Q g \<noteq> []"
    "s \<in> set AS \<Longrightarrow> PQ s \<noteq> []"
    "s \<in> set AS \<Longrightarrow> L s \<noteq> 0 \<Longrightarrow> L s \<in> A \<and> T (L s) \<noteq> 0 \<and> S (T (L s)) = s"
    "s \<in> set AS \<Longrightarrow> F s \<noteq> 0 \<Longrightarrow> F s \<in> set (PQ s)"
  using assms unfolding pg_ok_def by auto

lemma pg_ok_leave_group:
  assumes ok: "pg_ok A T Q S PQ L F AS H" and t: "t \<in> A" "T t = g" "g \<noteq> 0" "S g = s"
    and more: "remove1 t (Q g) \<noteq> []"
  shows "pg_ok A (T(t := 0)) (Q(g := remove1 t (Q g))) S PQ (L(s := if t = L s then 0 else L s)) F AS H"
proof -
  note d = pg_okD [OF ok]
  have q: "Q g \<noteq> []" using more by auto
  have Lx: "L x \<noteq> t" if "x \<in> set AS" "x \<noteq> s" "L x \<noteq> 0" for x
    using d(12) [OF that(1,3)] that(2) t by auto
  let ?L = "L(s := if t = L s then 0 else L s)"
  have L: "?L x \<in> A \<and> (T(t := 0)) (?L x) \<noteq> 0 \<and> S ((T(t := 0)) (?L x)) = x" if "x \<in> set AS" "?L x \<noteq> 0" for x
    using d(12) [OF that(1)] Lx [OF that(1)] that(2) by (cases "x = s") (auto split: if_splits)
  show ?thesis
    unfolding pg_ok_def
    apply (intro conjI)
    subgoal using d(1) .
    subgoal using d(2) t(3) by simp
    subgoal using d(3) .
    subgoal using d(4) .
    subgoal using d(5) by simp
    subgoal using d(6) by simp
    subgoal using d(5,7) t by auto
    subgoal using d(8) q more by auto
    subgoal using d(9) q by auto
    subgoal using d(10) q more by auto
    subgoal using d(11,13) L by blast
    done
qed

lemma remove1_empty: "x \<in> set xs \<Longrightarrow> remove1 x xs = [] \<Longrightarrow> xs = [x]"
  by (cases xs) (auto split: if_splits)

lemma members_drop:
  assumes ok: "pg_ok A T Q S PQ L F AS H" and "T t = g" "g \<noteq> 0" "Q g = [t]" "h \<noteq> 0"
  shows "u \<in> set ((Q(g := [])) h) \<longleftrightarrow> u \<in> A \<and> (T(t := 0)) u = h"
proof (cases "u = t")
  case True
  then show ?thesis using assms(2,5) pg_okD(7) [OF ok assms(5), of t] by auto
next
  case False
  then show ?thesis
    using pg_okD(7) [OF ok assms(3), of u] pg_okD(7) [OF ok assms(5), of u] assms(4) by (cases "h = g") auto
qed

lemma pg_ok_leave_session:
  assumes ok: "pg_ok A T Q S PQ L F AS H" and t: "t \<in> A" "T t = g" "g \<noteq> 0" "S g = s"
    and last: "remove1 t (Q g) = []" and more: "remove1 g (PQ s) \<noteq> []"
    and H: "H' = H - {g}"
  shows "pg_ok A (T(t := 0)) (Q(g := [])) (S(g := 0)) (PQ(s := remove1 g (PQ s)))
    (L(s := if t = L s then 0 else L s)) (F(s := if g = F s then 0 else F s)) AS H'"
proof -
  note d = pg_okD [OF ok]
  have Qg: "Q g = [t]" using remove1_empty [OF _ last] d(7) [OF t(3), of t] t(1,2) by simp
  have mem: "u \<in> A \<Longrightarrow> T u = g \<Longrightarrow> u = t" for u
    using d(7) [OF t(3), of u] Qg by simp
  have s: "s \<in> set AS" using d(9) [of g] Qg t(4) by simp
  have s0: "s \<noteq> 0" using s d(3) by metis
  have Lx: "L x \<noteq> t" if "x \<in> set AS" "x \<noteq> s" "L x \<noteq> 0" for x
    using d(12) [OF that(1,3)] that(2) t by auto
  let ?L = "L(s := if t = L s then 0 else L s)" and ?T = "T(t := 0)" and ?S = "S(g := 0)"
  have L: "?L x \<in> A \<and> ?T (?L x) \<noteq> 0 \<and> ?S (?T (?L x)) = x" if "x \<in> set AS" "?L x \<noteq> 0" for x
  proof -
    have l: "L x \<noteq> 0" "L x \<noteq> t" using that Lx [OF that(1)] by (auto split: if_splits)
    with d(12) [OF that(1) l(1)] mem [of "L x"] have "L x \<in> A" "T (L x) \<noteq> 0" "S (T (L x)) = x" "T (L x) \<noteq> g"
      by auto
    with l show ?thesis by auto
  qed
  let ?F = "F(s := if g = F s then 0 else F s)" and ?PQ = "PQ(s := remove1 g (PQ s))"
  have F: "?PQ x \<noteq> []" "?F x \<noteq> 0 \<Longrightarrow> ?F x \<in> set (?PQ x)" if "x \<in> set AS" for x
    using d(11) [OF that] d(13) [OF that] d(6) [of s] more by (auto split: if_splits)
  have Fs: "F x \<noteq> g" if "x \<in> set AS" "x \<noteq> s" for x
    using d(8) [OF that(1), of g] d(13) [OF that(1)] that(2) t(3,4) by auto
  show ?thesis
    unfolding pg_ok_def
    apply (intro conjI)
    subgoal using d(1) .
    subgoal using d(2) by simp
    subgoal using d(3) .
    subgoal using d(4) .
    subgoal using d(5) by simp
    subgoal using d(6) by simp
    subgoal using members_drop [OF ok t(2,3) Qg] by blast
    subgoal using d(8) d(6) t(4) s s0 d(3) by auto
    subgoal using d(9) by auto
    subgoal using d(10) H by auto
    subgoal using L F by blast
    done
qed

lemma pg_ok_leave_last:
  assumes ok: "pg_ok A T Q S PQ L F AS H" and t: "t \<in> A" "T t = g" "g \<noteq> 0" "S g = s"
    and last: "remove1 t (Q g) = []" and lone: "remove1 g (PQ s) = []"
    and H: "H' = H - {g}"
  shows "pg_ok A (T(t := 0)) (Q(g := [])) (S(g := 0)) (PQ(s := []))
    (L(s := if t = L s then 0 else L s)) (F(s := if g = F s then 0 else F s)) (remove1 s AS) H'"
    and "(if t = L s then 0 else L s) = 0" "(if g = F s then 0 else F s) = 0"
proof -
  note d = pg_okD [OF ok]
  have Qg: "Q g = [t]" using remove1_empty [OF _ last] d(7) [OF t(3), of t] t(1,2) by simp
  have mem: "u \<in> A \<Longrightarrow> T u = g \<Longrightarrow> u = t" for u
    using d(7) [OF t(3), of u] Qg by simp
  have s: "s \<in> set AS" using d(9) [of g] Qg t(4) by simp
  have PQs: "PQ s = [g]" using remove1_empty [OF _ lone] d(8) [OF s, of g] Qg t(4) by simp
  have only: "Q h \<noteq> [] \<Longrightarrow> S h = s \<Longrightarrow> h = g" for h using d(8) [OF s, of h] PQs by simp
  have L: "L s = t" if "L s \<noteq> 0"
  proof -
    from d(12) [OF s that] have l: "L s \<in> A" "T (L s) \<noteq> 0" "S (T (L s)) = s" by auto
    then have "L s \<in> set (Q (T (L s)))" using d(7) by simp
    then have "T (L s) = g" using only [of "T (L s)"] l by (metis empty_iff empty_set)
    with mem l show ?thesis by simp
  qed
  then show "(if t = L s then 0 else L s) = 0" by auto
  show "(if g = F s then 0 else F s) = 0" using d(13) [OF s] PQs by auto
  have AS: "x \<in> set (remove1 s AS) \<longleftrightarrow> x \<in> set AS \<and> x \<noteq> s" for x using d(4) by simp
  have Lx: "L x \<noteq> t" if "x \<in> set AS" "x \<noteq> s" "L x \<noteq> 0" for x
    using d(12) [OF that(1,3)] that(2) t by auto
  let ?T = "T(t := 0)" and ?S = "S(g := 0)"
  have L': "L x \<in> A \<and> ?T (L x) \<noteq> 0 \<and> ?S (?T (L x)) = x" if "x \<in> set AS" "x \<noteq> s" "L x \<noteq> 0" for x
  proof -
    have "L x \<in> A" "T (L x) \<noteq> 0" "S (T (L x)) = x" "L x \<noteq> t" "T (L x) \<noteq> g"
      using d(12) [OF that(1,3)] Lx [OF that] mem [of "L x"] by auto
    then show ?thesis by auto
  qed
  show "pg_ok A (T(t := 0)) (Q(g := [])) (S(g := 0)) (PQ(s := []))
    (L(s := if t = L s then 0 else L s)) (F(s := if g = F s then 0 else F s)) (remove1 s AS) H'"
    unfolding pg_ok_def
    apply (intro conjI)
    subgoal using d(1) .
    subgoal using d(2) by simp
    subgoal using d(3) AS by simp
    subgoal using d(4) by simp
    subgoal using d(5) by simp
    subgoal using d(6) by simp
    subgoal using members_drop [OF ok t(2,3) Qg] by blast
    subgoal using d(3,8) AS t(4) by auto
    subgoal using d(9) AS only by auto
    subgoal using d(10) H by auto
    subgoal using d(11,13) AS L' by simp
    done
qed

subsection \<open>The operations keep the invariant\<close>

lemma pgrp_upd_simps [simp]:
  "k_pgrps (pgrp_upd g f k) h = (if h = g then f (k_pgrps k g) else k_pgrps k h)"
  "k_tasks (pgrp_upd g f k) = k_tasks k" "k_alltaskq (pgrp_upd g f k) = k_alltaskq k"
  "k_sessions (pgrp_upd g f k) = k_sessions k" "k_allsessionq (pgrp_upd g f k) = k_allsessionq k"
  "k_pghash (pgrp_upd g f k) = k_pghash k" "k_curr (pgrp_upd g f k) = k_curr k"
  "k_idletask (pgrp_upd g f k) = k_idletask k"
  by (simp_all add: pgrp_upd_def)

lemma session_upd_simps [simp]:
  "k_sessions (session_upd s f k) x = (if x = s then f (k_sessions k s) else k_sessions k x)"
  "k_tasks (session_upd s f k) = k_tasks k" "k_alltaskq (session_upd s f k) = k_alltaskq k"
  "k_pgrps (session_upd s f k) = k_pgrps k" "k_allsessionq (session_upd s f k) = k_allsessionq k"
  "k_pghash (session_upd s f k) = k_pghash k" "k_curr (session_upd s f k) = k_curr k"
  "k_idletask (session_upd s f k) = k_idletask k"
  by (simp_all add: session_upd_def)

text \<open>What leaving a group does not touch.\<close>

definition pg_frame :: "nat \<Rightarrow> nat \<Rightarrow> kern \<Rightarrow> kern \<Rightarrow> bool" where
  "pg_frame t g k k' \<longleftrightarrow> k_tasks k' = (k_tasks k)(t := (k_tasks k t)\<lparr>t_pgrp := g\<rparr>) \<and>
     k_alltaskq k' = k_alltaskq k \<and> k_curr k' = k_curr k \<and> length (k_pghash k') = length (k_pghash k)"

definition lone :: "nat \<Rightarrow> kern \<Rightarrow> bool" where
  "lone t k \<longleftrightarrow> (\<forall>u\<in>set (k_alltaskq k). u \<noteq> t \<longrightarrow> t_pgrp (k_tasks k u) \<noteq> 0 \<longrightarrow> task_session u k \<noteq> task_session t k)"

lemma pg_inv_cong:
  assumes "pg_ok A T Q S PQ L F AS H" and "set (k_alltaskq k) = A"
    and "\<And>t. t_pgrp (k_tasks k t) = T t" "\<And>g. g_taskq (k_pgrps k g) = Q g" "\<And>g. g_session (k_pgrps k g) = S g"
    and "\<And>s. s_pgrpq (k_sessions k s) = PQ s" "\<And>s. s_leader (k_sessions k s) = L s" "\<And>s. s_fg (k_sessions k s) = F s"
    and "k_allsessionq k = AS" "(\<Union>b\<in>set (k_pghash k). set b) = H" "\<forall>b\<in>set (k_pghash k). distinct b"
  shows "pg_inv k"
  using assms by (simp add: pg_inv_def)

lemma pg_inv_D:
  assumes "pg_inv k"
  shows "g \<noteq> 0 \<Longrightarrow> t \<in> set (g_taskq (k_pgrps k g)) \<longleftrightarrow> t \<in> set (k_alltaskq k) \<and> t_pgrp (k_tasks k t) = g"
    and "s \<in> set (k_allsessionq k) \<Longrightarrow>
      g \<in> set (s_pgrpq (k_sessions k s)) \<longleftrightarrow> g_taskq (k_pgrps k g) \<noteq> [] \<and> g_session (k_pgrps k g) = s"
    and "g_taskq (k_pgrps k g) \<noteq> [] \<Longrightarrow> g_session (k_pgrps k g) \<in> set (k_allsessionq k)"
    and "(\<exists>b\<in>set (k_pghash k). g \<in> set b) \<longleftrightarrow> g_taskq (k_pgrps k g) \<noteq> []"
    and "distinct (k_allsessionq k)" and "distinct (s_pgrpq (k_sessions k s))"
    and "distinct (g_taskq (k_pgrps k g))" and "0 \<notin> set (k_allsessionq k)"
    and "\<forall>b\<in>set (k_pghash k). distinct b"
  using assms unfolding pg_inv_def pg_ok_def by auto

lemma hash_remove:
  "\<forall>b\<in>set tab. distinct b \<Longrightarrow> (\<Union>b\<in>set (map (remove1 g) tab). set b) = (\<Union>b\<in>set tab. set b) - {g}"
  by auto

lemma leave_ok:
  assumes inv: "pg_inv k" and t: "t \<in> set (k_alltaskq k)" "t_pgrp (k_tasks k t) \<noteq> 0"
  obtains k' where "leave t k = Some k'" "pg_inv k'" "pg_frame t 0 k k'"
    "task_session t k \<in> set (k_allsessionq k') \<longleftrightarrow> \<not> lone t k"
    "set (k_allsessionq k') \<subseteq> set (k_allsessionq k)"
    "\<And>g. g_taskq (k_pgrps k' g) = remove1 t (g_taskq (k_pgrps k g))"
proof -
  define g where "g = t_pgrp (k_tasks k t)"
  define s where "s = g_session (k_pgrps k g)"
  note ok = inv [unfolded pg_inv_def, THEN conjunct1] and d = pg_inv_D [OF inv]
  have g0: "g \<noteq> 0" using t by (simp add: g_def)
  have tg: "t \<in> set (g_taskq (k_pgrps k g))" using d(1) [OF g0, of t] t by (simp add: g_def)
  then have Qne: "g_taskq (k_pgrps k g) \<noteq> []" by auto
  have sAS: "s \<in> set (k_allsessionq k)" using d(3) [OF Qne] by (simp add: s_def)
  have gPQ: "g \<in> set (s_pgrpq (k_sessions k s))" using d(2) [OF sAS, of g] Qne by (simp add: s_def)
  have other: "remove1 t (g_taskq (k_pgrps k h)) = g_taskq (k_pgrps k h)" if "h \<noteq> g" for h
  proof (cases "h = 0")
    case True
    then show ?thesis using ok by (simp add: pg_ok_def)
  next
    case False
    then have "t \<notin> set (g_taskq (k_pgrps k h))" using d(1) [OF False, of t] that by (simp add: g_def)
    then show ?thesis by (rule remove1_idem)
  qed
  have ts: "task_session t k = s" by (simp add: task_session_def s_def g_def)
  define k3 where "k3 = pgrp_upd g (\<lambda>x. x\<lparr>g_taskq := remove1 t (g_taskq x)\<rparr>)
    (if t = s_leader (k_sessions k s) then session_upd s (\<lambda>x. x\<lparr>s_leader := 0\<rparr>) (task_upd t (\<lambda>x. x\<lparr>t_pgrp := 0\<rparr>) k)
     else task_upd t (\<lambda>x. x\<lparr>t_pgrp := 0\<rparr>) k)"
  have k3: "k_tasks k3 = (k_tasks k)(t := (k_tasks k t)\<lparr>t_pgrp := 0\<rparr>)" "k_alltaskq k3 = k_alltaskq k"
    "k_curr k3 = k_curr k" "k_allsessionq k3 = k_allsessionq k" "k_pghash k3 = k_pghash k"
    "\<And>h. k_pgrps k3 h = (if h = g then (k_pgrps k g)\<lparr>g_taskq := remove1 t (g_taskq (k_pgrps k g))\<rparr> else k_pgrps k h)"
    "\<And>x. k_sessions k3 x = (if x = s \<and> t = s_leader (k_sessions k s) then (k_sessions k s)\<lparr>s_leader := 0\<rparr> else k_sessions k x)"
    by (auto simp: k3_def fun_eq_iff)
  define tailk where "tailk = (do {
       let k4 = pgrp_upd g (\<lambda>x. x\<lparr>g_session := 0\<rparr>) k3;
       let k5 = (if g = s_fg (k_sessions k4 s) then session_upd s (\<lambda>x. x\<lparr>s_fg := 0\<rparr>) k4 else k4);
       k6 \<leftarrow> pgrp_dtor g s k5;
       if s_pgrpq (k_sessions k6 s) \<noteq> [] then Some k6 else session_dtor s k6 })"
  have run: "leave t k = (if g_taskq (k_pgrps k3 g) \<noteq> [] then Some k3 else tailk)"
    using t tg g0 unfolding leave_def tailk_def k3_def Let_def g_def [symmetric] s_def [symmetric]
    by (auto simp: s_def)
  show ?thesis
  proof (cases "remove1 t (g_taskq (k_pgrps k g)) = []")
    case False
    have I: "pg_inv k3"
      by (rule pg_inv_cong [OF pg_ok_leave_group [OF ok t(1) g_def [symmetric] g0 s_def [symmetric] False]])
        (use d(9) in \<open>auto simp: k3\<close>)
    obtain u where u: "u \<in> set (remove1 t (g_taskq (k_pgrps k g)))"
      using False by (cases "remove1 t (g_taskq (k_pgrps k g))") auto
    then have "u \<noteq> t" "u \<in> set (g_taskq (k_pgrps k g))" using d(7) [of g] by auto
    then have "\<not> lone t k" using d(1) [OF g0, of u] g0 ts by (auto simp: lone_def task_session_def s_def)
    with I k3 other run sAS ts False show ?thesis
      by (intro that [of k3]) (auto simp: pg_frame_def)
  next
    case True
    have Qg: "g_taskq (k_pgrps k g) = [t]" by (rule remove1_empty [OF tg True])
    define k5 where "k5 = (if g = s_fg (k_sessions k s) then session_upd s (\<lambda>x. x\<lparr>s_fg := 0\<rparr>) (pgrp_upd g (\<lambda>x. x\<lparr>g_session := 0\<rparr>) k3)
      else pgrp_upd g (\<lambda>x. x\<lparr>g_session := 0\<rparr>) k3)"
    define k6 where "k6 = (session_upd s (\<lambda>x. x\<lparr>s_pgrpq := remove1 g (s_pgrpq x)\<rparr>) k5)\<lparr>k_pghash := map (remove1 g) (k_pghash k5)\<rparr>"
    have k6: "k_tasks k6 = (k_tasks k)(t := (k_tasks k t)\<lparr>t_pgrp := 0\<rparr>)" "k_alltaskq k6 = k_alltaskq k"
      "k_curr k6 = k_curr k" "k_allsessionq k6 = k_allsessionq k" "k_pghash k6 = map (remove1 g) (k_pghash k)"
      "\<And>h. g_taskq (k_pgrps k6 h) = (if h = g then [] else g_taskq (k_pgrps k h))"
      "\<And>h. g_session (k_pgrps k6 h) = (if h = g then 0 else g_session (k_pgrps k h))"
      "\<And>x. s_pgrpq (k_sessions k6 x) = (if x = s then remove1 g (s_pgrpq (k_sessions k s)) else s_pgrpq (k_sessions k x))"
      "\<And>x. s_leader (k_sessions k6 x) = (if x = s \<and> t = s_leader (k_sessions k s) then 0 else s_leader (k_sessions k x))"
      "\<And>x. s_fg (k_sessions k6 x) = (if x = s \<and> g = s_fg (k_sessions k s) then 0 else s_fg (k_sessions k x))"
      using True by (auto simp: k6_def k5_def k3)
    have tl: "tailk = (if s_pgrpq (k_sessions k6 s) \<noteq> [] then Some k6 else session_dtor s k6)"
    proof -
      have "pgrp_dtor g s k5 = Some k6"
        using d(4) [of g] Qne gPQ by (auto simp: pgrp_dtor_def k5_def k6_def k3)
      then show ?thesis
        unfolding tailk_def k5_def Let_def by (simp add: k3 split: if_splits)
    qed
    have run6: "leave t k = tailk" using run True by (simp add: k3)
    have lone_iff: "lone t k \<longleftrightarrow> remove1 g (s_pgrpq (k_sessions k s)) = []"
    proof
      assume l: "lone t k"
      show "remove1 g (s_pgrpq (k_sessions k s)) = []"
      proof (rule ccontr)
        assume "remove1 g (s_pgrpq (k_sessions k s)) \<noteq> []"
        then obtain h where "h \<in> set (remove1 g (s_pgrpq (k_sessions k s)))"
          by (cases "remove1 g (s_pgrpq (k_sessions k s))") auto
        then have h: "h \<noteq> g" "g_taskq (k_pgrps k h) \<noteq> []" "g_session (k_pgrps k h) = s"
          using d(2) [OF sAS, of h] d(6) [of s] by auto
        then obtain u where u: "u \<in> set (g_taskq (k_pgrps k h))" by (cases "g_taskq (k_pgrps k h)") auto
        have h0: "h \<noteq> 0" using h(2) ok by (auto simp: pg_ok_def)
        from d(1) [OF h0, of u] u have "u \<in> set (k_alltaskq k)" "t_pgrp (k_tasks k u) = h" by auto
        with l h h0 ts show False by (auto simp: lone_def task_session_def g_def)
      qed
    next
      assume e: "remove1 g (s_pgrpq (k_sessions k s)) = []"
      then have PQ: "s_pgrpq (k_sessions k s) = [g]" by (rule remove1_empty [OF gPQ])
      show "lone t k"
        unfolding lone_def
      proof (intro ballI impI)
        fix u assume u: "u \<in> set (k_alltaskq k)" "u \<noteq> t" "t_pgrp (k_tasks k u) \<noteq> 0"
        then have "u \<in> set (g_taskq (k_pgrps k (t_pgrp (k_tasks k u))))" using d(1) by simp
        then have ne: "g_taskq (k_pgrps k (t_pgrp (k_tasks k u))) \<noteq> []" by auto
        have "t_pgrp (k_tasks k u) \<noteq> g" using d(1) [OF g0, of u] Qg u by auto
        then show "task_session u k \<noteq> task_session t k"
          using d(2) [OF sAS, of "t_pgrp (k_tasks k u)"] PQ ne ts by (auto simp: task_session_def)
      qed
    qed
    show ?thesis
    proof (cases "remove1 g (s_pgrpq (k_sessions k s)) = []")
      case False
      have "pg_inv k6"
        by (rule pg_inv_cong [OF pg_ok_leave_session [OF ok t(1) g_def [symmetric] g0 s_def [symmetric] True False hash_remove [OF d(9)]]])
          (use d(9) in \<open>auto simp: k6\<close>)
      with k6 False lone_iff run6 tl sAS ts Qg other show ?thesis
        by (intro that [of k6]) (auto simp: pg_frame_def)
    next
      case lastg: True
      note L = pg_ok_leave_last [OF ok t(1) g_def [symmetric] g0 s_def [symmetric] True lastg hash_remove [OF d(9)]]
      define k7 where "k7 = (session_upd s (\<lambda>x. x\<lparr>s_tty := 0\<rparr>) k6)\<lparr>k_allsessionq := remove1 s (k_allsessionq k6)\<rparr>"
      have "session_dtor s k6 = Some k7"
        using L(2,3) lastg sAS by (simp add: session_dtor_def k7_def k6 Let_def)
      then have r7: "leave t k = Some k7" using run6 tl lastg by (simp add: k6)
      have "pg_inv k7"
        by (rule pg_inv_cong [OF L(1)]) (use lastg d(9) in \<open>auto simp: k7_def k6\<close>)
      moreover have "pg_frame t 0 k k7" by (simp add: pg_frame_def k7_def k6)
      moreover have "task_session t k \<notin> set (k_allsessionq k7)" "set (k_allsessionq k7) \<subseteq> set (k_allsessionq k)"
        using d(5) by (auto simp: k7_def k6 ts)
      moreover have "g_taskq (k_pgrps k7 h) = remove1 t (g_taskq (k_pgrps k h))" for h
        using Qg other [of h] by (simp add: k7_def k6)
      ultimately show ?thesis using r7 lone_iff lastg by (intro that [of k7]) auto
    qed
  qed
qed

lemma hashidx_less: "length tab = 2 ^ n \<Longrightarrow> hashidx pid tab < length tab"
proof -
  assume l: "length tab = 2 ^ n"
  have "pid AND (2 ^ n - 1) = take_bit n pid" by (simp add: take_bit_eq_mask mask_eq_exp_minus_1)
  then have "hashidx pid tab = nat (take_bit n pid)" by (simp add: hashidx_def l)
  moreover have "0 \<le> take_bit n pid" "take_bit n pid < 2 ^ n" by (simp_all add: take_bit_int_less_exp)
  ultimately show ?thesis using l by (simp add: nat_less_iff)
qed

lemma hash_insert: "i < length tab \<Longrightarrow>
   (\<Union>b\<in>set (tab[i := tab ! i @ [g]]). set b) = insert g (\<Union>b\<in>set tab. set b)"
proof -
  assume i: "i < length tab"
  have "set (tab[i := tab ! i @ [g]]) = insert (tab ! i @ [g]) (set (take i tab @ drop (Suc i) tab))"
    by (simp add: upd_conv_take_nth_drop [OF i])
  moreover have "set tab = insert (tab ! i) (set (take i tab @ drop (Suc i) tab))"
    by (subst id_take_nth_drop [OF i]) auto
  ultimately show ?thesis by auto
qed

lemma hash_insert_distinct:
  "i < length tab \<Longrightarrow> \<forall>b\<in>set tab. distinct b \<and> g \<notin> set b \<Longrightarrow> \<forall>b\<in>set (tab[i := tab ! i @ [g]]). distinct b"
  by (auto dest!: set_update_subset_insert [THEN subsetD])

lemma hash_fresh:
  "pg_inv k \<Longrightarrow> g_taskq (k_pgrps k g) = [] \<Longrightarrow> \<forall>b\<in>set (k_pghash k). distinct b \<and> g \<notin> set b"
  using pg_inv_D(4,9) [of k] by metis

lemma pg_ok_join:
  assumes ok: "pg_ok A T Q S PQ L F AS H" and t: "t \<in> A" "T t = 0" and g: "Q g \<noteq> []"
  shows "pg_ok A (T(t := g)) (Q(g := Q g @ [t])) S PQ L F AS H"
proof -
  note d = pg_okD [OF ok]
  have g0: "g \<noteq> 0" using g d(2) by metis
  have tQ: "t \<notin> set (Q h)" for h using d(7) [of h t] t(2) d(2) by (cases "h = 0") auto
  have M: "u \<in> set ((Q(g := Q g @ [t])) h) \<longleftrightarrow> u \<in> A \<and> (T(t := g)) u = h" if "h \<noteq> 0" for h u
    using d(7) [OF that, of u] tQ [of h] t by auto
  have Lt: "L s \<noteq> t" if "s \<in> set AS" "L s \<noteq> 0" for s using d(12) [OF that] t(2) by auto
  have L: "L s \<in> A \<and> (T(t := g)) (L s) \<noteq> 0 \<and> S ((T(t := g)) (L s)) = s" if "s \<in> set AS" "L s \<noteq> 0" for s
    using d(12) [OF that] Lt [OF that] by simp
  show ?thesis
    unfolding pg_ok_def
    apply (intro conjI)
    subgoal using d(1) .
    subgoal using d(2) g0 by simp
    subgoal using d(3) .
    subgoal using d(4) .
    subgoal using d(5) tQ by simp
    subgoal using d(6) by simp
    subgoal using M by blast
    subgoal using d(8) g by auto
    subgoal using d(9) g by auto
    subgoal using d(10) g by auto
    subgoal using d(11,13) L by blast
    done
qed

lemma pg_ok_new_group:
  assumes ok: "pg_ok A T Q S PQ L F AS H" and t: "t \<in> A" "T t = 0"
    and g: "g \<noteq> 0" "Q g = []" and s: "s \<in> set AS"
  shows "pg_ok A (T(t := g)) (Q(g := [t])) (S(g := s)) (PQ(s := PQ s @ [g])) L F AS (insert g H)"
proof -
  note d = pg_okD [OF ok]
  have tQ: "t \<notin> set (Q h)" for h using d(7) [of h t] t(2) d(2) by (cases "h = 0") auto
  have Tg: "u \<in> A \<Longrightarrow> T u \<noteq> g" for u using d(7) [OF g(1), of u] g(2) by auto
  have M: "u \<in> set ((Q(g := [t])) h) \<longleftrightarrow> u \<in> A \<and> (T(t := g)) u = h" if "h \<noteq> 0" for h u
    using d(7) [OF that, of u] tQ [of h] t Tg [of u] by auto
  have gPQ: "g \<notin> set (PQ x)" if "x \<in> set AS" for x using d(8) [OF that, of g] g(2) by simp
  have PQ: "h \<in> set ((PQ(s := PQ s @ [g])) x) \<longleftrightarrow> (Q(g := [t])) h \<noteq> [] \<and> (S(g := s)) h = x" if "x \<in> set AS" for x h
    using d(8) [OF that, of h] gPQ [OF that] g(2) by auto
  have Lt: "L x \<noteq> t" if "x \<in> set AS" "L x \<noteq> 0" for x using d(12) [OF that] t(2) by auto
  have L: "L x \<in> A \<and> (T(t := g)) (L x) \<noteq> 0 \<and> (S(g := s)) ((T(t := g)) (L x)) = x" if "x \<in> set AS" "L x \<noteq> 0" for x
    using d(12) [OF that] Lt [OF that] Tg [of "L x"] by simp
  have F: "F x \<in> set ((PQ(s := PQ s @ [g])) x)" if "x \<in> set AS" "F x \<noteq> 0" for x
    using d(13) [OF that] by auto
  show ?thesis
    unfolding pg_ok_def
    apply (intro conjI)
    subgoal using d(1) .
    subgoal using d(2) g by simp
    subgoal using d(3) .
    subgoal using d(4) .
    subgoal using d(5) by simp
    subgoal using d(6) gPQ [OF s] by simp
    subgoal using M by blast
    subgoal using PQ by blast
    subgoal using d(9) s by auto
    subgoal using d(10) by auto
    subgoal using d(11) L F by simp
    done
qed

lemma pg_ok_new_session:
  assumes ok: "pg_ok A T Q S PQ L F AS H" and t: "t \<in> A" "T t = 0"
    and g: "g \<noteq> 0" "Q g = []" and s: "s \<notin> set AS" "s \<noteq> 0"
  shows "pg_ok A (T(t := g)) (Q(g := [t])) (S(g := s)) (PQ(s := [g])) (L(s := t)) (F(s := 0)) (AS @ [s]) (insert g H)"
proof -
  note d = pg_okD [OF ok]
  have tQ: "t \<notin> set (Q h)" for h using d(7) [of h t] t(2) d(2) by (cases "h = 0") auto
  have Tg: "u \<in> A \<Longrightarrow> T u \<noteq> g" for u using d(7) [OF g(1), of u] g(2) by auto
  have M: "u \<in> set ((Q(g := [t])) h) \<longleftrightarrow> u \<in> A \<and> (T(t := g)) u = h" if "h \<noteq> 0" for h u
    using d(7) [OF that, of u] tQ [of h] t Tg [of u] by auto
  have PQ: "h \<in> set ((PQ(s := [g])) x) \<longleftrightarrow> (Q(g := [t])) h \<noteq> [] \<and> (S(g := s)) h = x" if "x \<in> set (AS @ [s])" for x h
  proof (cases "x = s")
    case True
    then show ?thesis using d(9) [of h] s(1) by auto
  next
    case False
    then have "x \<in> set AS" using that by simp
    then show ?thesis using d(8) [of x h] False g(2) by auto
  qed
  have Lt: "L x \<noteq> t" if "x \<in> set AS" "L x \<noteq> 0" for x using d(12) [OF that] t(2) by auto
  have L: "(L(s := t)) x \<in> A \<and> (T(t := g)) ((L(s := t)) x) \<noteq> 0 \<and> (S(g := s)) ((T(t := g)) ((L(s := t)) x)) = x"
    if "x \<in> set (AS @ [s])" "(L(s := t)) x \<noteq> 0" for x
  proof (cases "x = s")
    case True
    then show ?thesis using t g by simp
  next
    case False
    then have x: "x \<in> set AS" "L x \<noteq> 0" using that by auto
    then show ?thesis using d(12) [OF x] Lt [OF x] Tg [of "L x"] False by simp
  qed
  show ?thesis
    unfolding pg_ok_def
    apply (intro conjI)
    subgoal using d(1) .
    subgoal using d(2) g by simp
    subgoal using d(3) s(2) by simp
    subgoal using d(4) s(1) by simp
    subgoal using d(5) by simp
    subgoal using d(6) by simp
    subgoal using M by blast
    subgoal using PQ by blast
    subgoal using d(9) by auto
    subgoal using d(10) by auto
    subgoal using d(11,13) L by auto
    done
qed

lemma enter_ok:
  assumes inv: "pg_inv k" and "t \<in> set (k_alltaskq k)" "t_pgrp (k_tasks k t) = 0" "g_taskq (k_pgrps k g) \<noteq> []"
  obtains k' where "enter t g k = Some k'" "pg_inv k'" "pg_frame t g k k'"
proof -
  let ?k = "pgrp_upd g (\<lambda>x. x\<lparr>g_taskq := g_taskq x @ [t]\<rparr>) (task_upd t (\<lambda>x. x\<lparr>t_pgrp := g\<rparr>) k)"
  have "pg_inv ?k"
    by (rule pg_inv_cong [OF pg_ok_join [OF inv [unfolded pg_inv_def, THEN conjunct1] assms(2-4)]])
      (use pg_inv_D(9) [OF inv] in auto)
  moreover have "pg_frame t g k ?k" by (auto simp: pg_frame_def fun_eq_iff)
  ultimately show ?thesis using assms(3) by (intro that [of ?k]) (simp_all add: enter_def)
qed

lemma pgrp_ctor_ok:
  assumes inv: "pg_inv k" and "t \<in> set (k_alltaskq k)" "t_pgrp (k_tasks k t) = 0"
    and "g \<noteq> 0" "g_taskq (k_pgrps k g) = []" "s \<in> set (k_allsessionq k)" "length (k_pghash k) = 2 ^ n"
  obtains k' where "pgrp_ctor g junk s t k = Some k'" "pg_inv k'" "pg_frame t g k k'"
proof -
  let ?i = "hashidx junk (k_pghash k)"
  let ?k1 = "session_upd s (\<lambda>x. x\<lparr>s_pgrpq := s_pgrpq x @ [g]\<rparr>) k"
  let ?k2 = "?k1\<lparr>k_pghash := (k_pghash ?k1)[?i := k_pghash ?k1 ! ?i @ [g]]\<rparr>"
  let ?k3 = "task_upd t (\<lambda>x. x\<lparr>t_pgrp := g\<rparr>) ?k2"
  let ?k = "pgrp_upd g (\<lambda>x. x\<lparr>g_taskq := [t], g_session := s, g_pgid := t_pid (k_tasks ?k3 t)\<rparr>) ?k3"
  have i: "?i < length (k_pghash k)" by (rule hashidx_less [OF assms(7)])
  have "pg_inv ?k"
    by (rule pg_inv_cong [OF pg_ok_new_group [OF inv [unfolded pg_inv_def, THEN conjunct1] assms(2-6)]])
      (use hash_insert_distinct [OF i hash_fresh [OF inv assms(5)]] in \<open>auto simp: hash_insert [OF i]\<close>)
  moreover have "pg_frame t g k ?k" by (auto simp: pg_frame_def fun_eq_iff)
  ultimately show ?thesis using assms(3) by (intro that [of ?k]) (simp_all add: pgrp_ctor_def Let_def)
qed

lemma session_ctor_ok:
  assumes inv: "pg_inv k" and "t \<in> set (k_alltaskq k)" "t_pgrp (k_tasks k t) = 0"
    and "g \<noteq> 0" "g_taskq (k_pgrps k g) = []" "s \<notin> set (k_allsessionq k)" "s \<noteq> 0" "length (k_pghash k) = 2 ^ n"
  obtains k' where "session_ctor s g junk t k = Some k'" "pg_inv k'" "pg_frame t g k k'"
    "task_session t k' = s" "s_leader (k_sessions k' s) = t" "s_pgrpq (k_sessions k' s) = [g]"
    "g_taskq (k_pgrps k' g) = [t]" "g_pgid (k_pgrps k' g) = t_pid (k_tasks k t)"
proof -
  let ?i = "hashidx junk (k_pghash k)"
  let ?k1 = "session_upd s (\<lambda>x. x\<lparr>s_sid := t_pid (k_tasks k t), s_leader := t, s_pgrpq := []\<rparr>) k"
  obtain k2 where k2: "pgrp_ctor g junk s t ?k1 = Some k2" and
    e: "k2 = pgrp_upd g (\<lambda>x. x\<lparr>g_taskq := [t], g_session := s, g_pgid := t_pid (k_tasks k t)\<rparr>)
      (task_upd t (\<lambda>x. x\<lparr>t_pgrp := g\<rparr>) ((session_upd s (\<lambda>x. x\<lparr>s_pgrpq := s_pgrpq x @ [g]\<rparr>) ?k1)
        \<lparr>k_pghash := (k_pghash k)[?i := k_pghash k ! ?i @ [g]]\<rparr>))"
    using assms(3) by (simp add: pgrp_ctor_def Let_def)
  let ?k3 = "session_upd s (\<lambda>x. x\<lparr>s_fg := 0, s_tty := 0\<rparr>) k2"
  let ?k = "?k3\<lparr>k_allsessionq := k_allsessionq ?k3 @ [s]\<rparr>"
  have i: "?i < length (k_pghash k)" by (rule hashidx_less [OF assms(8)])
  have "pg_inv ?k"
    by (rule pg_inv_cong [OF pg_ok_new_session [OF inv [unfolded pg_inv_def, THEN conjunct1] assms(2-7)]])
      (use hash_insert_distinct [OF i hash_fresh [OF inv assms(5)]] in \<open>auto simp: e hash_insert [OF i]\<close>)
  moreover have "pg_frame t g k ?k" by (auto simp: pg_frame_def fun_eq_iff e)
  moreover have "session_ctor s g junk t k = Some ?k"
    using assms(3,6) k2 by (simp add: session_ctor_def e)
  ultimately show ?thesis
    by (intro that [of ?k]) (simp_all add: e task_session_def)
qed

subsection \<open>Job control\<close>

definition jobs_ok :: "kern \<Rightarrow> bool" where
  "jobs_ok k \<longleftrightarrow> pg_inv k \<and> (\<forall>t\<in>set (k_alltaskq k). t_pgrp (k_tasks k t) \<noteq> 0) \<and>
     k_curr k \<in> set (k_alltaskq k) \<and> (\<exists>n. length (k_pghash k) = 2 ^ n)"

definition fresh_pgrp :: "nat \<Rightarrow> kern \<Rightarrow> bool" where
  "fresh_pgrp g k \<longleftrightarrow> g \<noteq> 0 \<and> g_taskq (k_pgrps k g) = []"

text \<open>
  The calls with the objects they may allocate; \<^verbatim>\<open>setpgid\<close> of a task that passed the permission checks.
\<close>

datatype job_op = JSetsid bool nat nat int | JSetpgid nat int nat int

fun job_exec :: "job_op \<Rightarrow> kern \<Rightarrow> (int \<times> kern) option" where
  "job_exec (JSetsid low s g junk) k = syssetsid low s g junk k"
| "job_exec (JSetpgid t pgid g junk) k = setpgid_go t (t_pid (k_tasks k t)) pgid g junk k"

text \<open>
  The call that breaks the invariant: the last task of a session whose leader is gone makes a new group (see
  \<open>setpgid_dead_session\<close>).
\<close>

definition dead_session :: "nat \<Rightarrow> int \<Rightarrow> kern \<Rightarrow> bool" where
  "dead_session t pgid k \<longleftrightarrow> lone t k \<and> s_leader (k_sessions k (task_session t k)) \<noteq> t \<and>
     (pgid = 0 \<or> pgid = t_pid (k_tasks k t)) \<and> findpgrp (t_pid (k_tasks k t)) k = None"

text \<open>The conditions on a sequence of calls: a call gets unused objects from the allocator, and it is not that call.\<close>

fun job_legal :: "job_op \<Rightarrow> kern \<Rightarrow> bool" where
  "job_legal (JSetsid low s g junk) k \<longleftrightarrow> fresh_pgrp g k \<and> s \<noteq> 0 \<and> s \<notin> set (k_allsessionq k)"
| "job_legal (JSetpgid t pgid g junk) k \<longleftrightarrow> t \<in> set (k_alltaskq k) \<and> fresh_pgrp g k \<and> \<not> dead_session t pgid k"

primrec jobs_legal :: "job_op list \<Rightarrow> kern \<Rightarrow> bool" where
  "jobs_legal [] k = True"
| "jobs_legal (x # xs) k \<longleftrightarrow> job_legal x k \<and> (case job_exec x k of None \<Rightarrow> True | Some (e, k') \<Rightarrow> jobs_legal xs k')"

lemma jobs_ok_frame:
  assumes "jobs_ok k" "pg_frame t 0 k k1" "pg_frame t g k1 k'" "pg_inv k'" "g \<noteq> 0"
  shows "jobs_ok k'"
  using assms by (auto simp: jobs_ok_def pg_frame_def)

lemma findpgrp_live:
  assumes "pg_inv k" "\<exists>n. length (k_pghash k) = 2 ^ n" "findpgrp pgid k = Some h"
  shows "g_taskq (k_pgrps k h) \<noteq> []"
proof -
  have "h \<in> set (k_pghash k ! hashidx pgid (k_pghash k))"
    using assms(3) by (auto simp: findpgrp_def find_Some_iff)
  moreover have "k_pghash k ! hashidx pgid (k_pghash k) \<in> set (k_pghash k)"
    using assms(2) by (auto intro: nth_mem hashidx_less)
  ultimately show ?thesis using pg_inv_D(4) [OF assms(1), of h] by blast
qed

lemma setpgid_go_ok:
  assumes J: "jobs_ok k" and t: "t \<in> set (k_alltaskq k)" and g: "fresh_pgrp g k" and l: "\<not> dead_session t pgid k"
  shows "\<exists>e k'. setpgid_go t (t_pid (k_tasks k t)) pgid g junk k = Some (e, k') \<and> jobs_ok k'"
proof -
  have I: "pg_inv k" and t0: "t_pgrp (k_tasks k t) \<noteq> 0" and n: "\<exists>n. length (k_pghash k) = 2 ^ n"
    using J t by (auto simp: jobs_ok_def)
  obtain k1 where k1: "leave t k = Some k1" "pg_inv k1" "pg_frame t 0 k k1"
    "task_session t k \<in> set (k_allsessionq k1) \<longleftrightarrow> \<not> lone t k"
    "\<And>g. g_taskq (k_pgrps k1 g) = remove1 t (g_taskq (k_pgrps k g))"
    using leave_ok [OF I t t0] by metis
  have f: "t \<in> set (k_alltaskq k1)" "t_pgrp (k_tasks k1 t) = 0" "length (k_pghash k1) = length (k_pghash k)"
    using k1(3) t by (auto simp: pg_frame_def)
  have new: "\<exists>k2. pgrp_ctor g junk (task_session t k) t k1 = Some k2 \<and> jobs_ok k2" if l: "\<not> lone t k"
  proof -
    have "g_taskq (k_pgrps k1 g) = []" using g k1(5) by (simp add: fresh_pgrp_def)
    moreover obtain n where "length (k_pghash k1) = 2 ^ n" using f(3) n by auto
    ultimately obtain k2 where "pgrp_ctor g junk (task_session t k) t k1 = Some k2" "pg_inv k2" "pg_frame t g k1 k2"
      using pgrp_ctor_ok [OF k1(2) f(1,2)] g k1(4) l by (metis fresh_pgrp_def)
    then show ?thesis using jobs_ok_frame [OF J k1(3)] g by (auto simp: fresh_pgrp_def)
  qed
  have join: "\<exists>k2. enter t h k1 = Some k2 \<and> jobs_ok k2"
    if h: "findpgrp (if pgid = 0 then t_pid (k_tasks k t) else pgid) k = Some h" "t_pgrp (k_tasks k t) \<noteq> h" for h
  proof -
    have ne: "g_taskq (k_pgrps k h) \<noteq> []" by (rule findpgrp_live [OF I n h(1)])
    then have h0: "h \<noteq> 0" using I by (auto simp: pg_inv_def pg_ok_def)
    have "t \<notin> set (g_taskq (k_pgrps k h))" using pg_inv_D(1) [OF I h0, of t] h(2) by simp
    then have "g_taskq (k_pgrps k1 h) \<noteq> []" using ne k1(5) by (simp add: remove1_idem)
    then obtain k2 where "enter t h k1 = Some k2" "pg_inv k2" "pg_frame t h k1 k2"
      using enter_ok [OF k1(2) f(1,2)] by metis
    then show ?thesis using jobs_ok_frame [OF J k1(3)] h0 by blast
  qed
  show ?thesis
    unfolding setpgid_go_def Let_def using J k1(1) new join l
    by (auto simp: dead_session_def split: option.splits simp del: split_paired_Ex)
qed

lemma syssetsid_ok:
  assumes J: "jobs_ok k" and g: "fresh_pgrp g k" and s: "s \<noteq> 0" "s \<notin> set (k_allsessionq k)"
  shows "\<exists>e k'. syssetsid low s g junk k = Some (e, k') \<and> jobs_ok k' \<and>
    (if low \<or> g_pgid (k_pgrps k (t_pgrp (curr_task k))) = t_pid (curr_task k) then e < 0 \<and> k' = k
     else e = t_pid (curr_task k) \<and> task_session (k_curr k) k' = s \<and> leader (k_curr k) k' \<and>
       s_pgrpq (k_sessions k' s) = [g] \<and> g_taskq (k_pgrps k' g) = [k_curr k] \<and>
       g_pgid (k_pgrps k' g) = t_pid (curr_task k))"
proof (cases "low \<or> g_pgid (k_pgrps k (t_pgrp (curr_task k))) = t_pid (curr_task k)")
  case True
  with J show ?thesis by (auto simp: syssetsid_def ENOMEM_def EPERM_def)
next
  case False
  let ?t = "k_curr k"
  have I: "pg_inv k" and t: "?t \<in> set (k_alltaskq k)" "t_pgrp (k_tasks k ?t) \<noteq> 0" and n: "\<exists>n. length (k_pghash k) = 2 ^ n"
    using J by (auto simp: jobs_ok_def)
  obtain k1 where k1: "leave ?t k = Some k1" "pg_inv k1" "pg_frame ?t 0 k k1"
    "set (k_allsessionq k1) \<subseteq> set (k_allsessionq k)"
    "\<And>g. g_taskq (k_pgrps k1 g) = remove1 ?t (g_taskq (k_pgrps k g))"
    using leave_ok [OF I t] by metis
  have f: "?t \<in> set (k_alltaskq k1)" "t_pgrp (k_tasks k1 ?t) = 0" "length (k_pghash k1) = length (k_pghash k)"
    "k_curr k1 = ?t" "t_pid (k_tasks k1 ?t) = t_pid (curr_task k)"
    using k1(3) t by (auto simp: pg_frame_def curr_task_def)
  have fr: "g \<noteq> 0" "g_taskq (k_pgrps k1 g) = []" "s \<notin> set (k_allsessionq k1)"
    using g s k1(4,5) by (auto simp: fresh_pgrp_def)
  obtain n where "length (k_pghash k1) = 2 ^ n" using f(3) n by auto
  then obtain k2 where k2: "session_ctor s g junk ?t k1 = Some k2" "pg_inv k2" "pg_frame ?t g k1 k2"
    "task_session ?t k2 = s" "s_leader (k_sessions k2 s) = ?t" "s_pgrpq (k_sessions k2 s) = [g]"
    "g_taskq (k_pgrps k2 g) = [?t]" "g_pgid (k_pgrps k2 g) = t_pid (k_tasks k1 ?t)"
    using session_ctor_ok [OF k1(2) f(1,2) fr s(1)] by metis
  have "jobs_ok k2" by (rule jobs_ok_frame [OF J k1(3) k2(3,2) fr(1)])
  moreover have "leader ?t k2" using k2(4,5) by (simp add: leader_def task_session_def)
  moreover have "t_pid (curr_task k2) = t_pid (curr_task k)"
    using k2(3) f by (simp add: pg_frame_def curr_task_def)
  ultimately show ?thesis
    using False k1(1) k2 f by (simp add: syssetsid_def)
qed

lemma job_exec_ok: "jobs_ok k \<Longrightarrow> job_legal x k \<Longrightarrow> \<exists>e k'. job_exec x k = Some (e, k') \<and> jobs_ok k'"
proof (cases x)
  case (JSetsid low s g junk)
  assume "jobs_ok k" "job_legal x k"
  with JSetsid syssetsid_ok [of k g s low junk] show ?thesis by auto
next
  case (JSetpgid t pgid g junk)
  assume "jobs_ok k" "job_legal x k"
  with JSetpgid setpgid_go_ok [of k t g pgid junk] show ?thesis by auto
qed

lemma jobs_trace_ok:
  "jobs_ok k \<Longrightarrow> jobs_legal xs k \<Longrightarrow> \<exists>k'. foldM (\<lambda>x k. map_option snd (job_exec x k)) xs k = Some k' \<and> jobs_ok k'"
proof (induction xs arbitrary: k)
  case (Cons x xs)
  then obtain e k1 where "job_exec x k = Some (e, k1)" "jobs_ok k1" using job_exec_ok [of k x] by auto
  with Cons show ?case by simp
qed simp

text \<open>
  C32: Process groups and sessions stay consistent under any sequence of \<^verbatim>\<open>setsid\<close> and \<^verbatim>\<open>setpgid\<close>
  calls in which no call makes a new group for the last task of a session whose leader is gone (that call
  breaks them, \<open>setpgid_dead_session\<close>) and the objects a call allocates are unused: no assertion fails, every task is on the member list of exactly its own group, every
  group with members is in the list of its session and every session has a group; no member, group
  or session is lost or left behind.
\<close>
theorem job_control_safe:
  assumes "jobs_ok k" "jobs_legal ops k"
  shows "\<exists>k'. foldM (\<lambda>x k. map_option snd (job_exec x k)) ops k = Some k' \<and>
    (\<forall>g t. g \<noteq> 0 \<longrightarrow> (t \<in> set (g_taskq (k_pgrps k' g)) \<longleftrightarrow> t \<in> set (k_alltaskq k') \<and> t_pgrp (k_tasks k' t) = g)) \<and>
    (\<forall>t\<in>set (k_alltaskq k'). task_session t k' \<in> set (k_allsessionq k') \<and>
       t_pgrp (k_tasks k' t) \<in> set (s_pgrpq (k_sessions k' (task_session t k')))) \<and>
    (\<forall>s\<in>set (k_allsessionq k'). s_pgrpq (k_sessions k' s) \<noteq> [] \<and>
       (\<forall>g\<in>set (s_pgrpq (k_sessions k' s)). g_taskq (k_pgrps k' g) \<noteq> [] \<and> g_session (k_pgrps k' g) = s))"
proof -
  have "\<exists>k'. foldM (\<lambda>x k. map_option snd (job_exec x k)) ops k = Some k' \<and> jobs_ok k'"
    by (rule jobs_trace_ok [OF assms])
  then obtain k' where k': "foldM (\<lambda>x k. map_option snd (job_exec x k)) ops k = Some k'" "jobs_ok k'" by blast
  then have I: "pg_inv k'" by (simp add: jobs_ok_def)
  note d = pg_inv_D [OF I]
  have T: "task_session t k' \<in> set (k_allsessionq k') \<and>
       t_pgrp (k_tasks k' t) \<in> set (s_pgrpq (k_sessions k' (task_session t k')))" if "t \<in> set (k_alltaskq k')" for t
  proof -
    have "t \<in> set (g_taskq (k_pgrps k' (t_pgrp (k_tasks k' t))))"
      using d(1) that k'(2) by (simp add: jobs_ok_def)
    then have ne: "g_taskq (k_pgrps k' (t_pgrp (k_tasks k' t))) \<noteq> []" by auto
    with d(3) [OF ne] d(2) show ?thesis by (auto simp: task_session_def)
  qed
  have "s_pgrpq (k_sessions k' s) \<noteq> []" if "s \<in> set (k_allsessionq k')" for s
    using I that by (simp add: pg_inv_def pg_ok_def)
  with k'(1) d(1,2) T show ?thesis by blast
qed

lemma demo_jobs_ok: "jobs_ok demo_kern"
proof -
  have "pg_inv demo_kern"
    unfolding pg_inv_def pg_ok_def by (auto simp: demo_kern_def demo_task_def split: if_splits)
  moreover have "length (k_pghash demo_kern) = 2 ^ 2" by (simp add: demo_kern_def)
  ultimately have "pg_inv demo_kern \<and> (\<exists>n. length (k_pghash demo_kern) = 2 ^ n)" by blast
  then show ?thesis by (simp add: jobs_ok_def, simp add: demo_kern_def)
qed

theorem job_control_witness:
  "\<exists>k'. foldM (\<lambda>x k. map_option snd (job_exec x k)) [JSetpgid 200 0 3000 7, JSetpgid 200 2 3200 5, JSetsid False 3100 3300 5] demo_kern = Some k' \<and>
    (\<forall>s\<in>set (k_allsessionq k'). s_pgrpq (k_sessions k' s) \<noteq> [])"
proof -
  have "jobs_legal [JSetpgid 200 0 3000 7, JSetpgid 200 2 3200 5, JSetsid False 3100 3300 5] demo_kern"
    by (simp add: fresh_pgrp_def dead_session_def lone_def demo_kern_def demo_task_def task_session_def setpgid_go_def findpgrp_def
        hashidx_def leave_def pgrp_ctor_def pgrp_dtor_def enter_def Let_def split: option.split prod.split)
  from job_control_safe [OF demo_jobs_ok this] show ?thesis by metis
qed

text \<open>
  \<^verbatim>\<open>setpgid\<close> by the last task of a session whose leader is gone makes a new group in a session that
  no longer exists: leaving the old group destroys it and the session, and the new group is then
  constructed in the destroyed session.
\<close>
theorem setpgid_dead_session:
  assumes "jobs_ok k" "t \<in> set (k_alltaskq k)" "lone t k" "fresh_pgrp g k"
    and "s_leader (k_sessions k (task_session t k)) \<noteq> t" "findpgrp pid k = None"
  shows "\<exists>k'. setpgid_go t pid 0 g junk k = Some (0, k') \<and> task_session t k' \<notin> set (k_allsessionq k')"
proof -
  have I: "pg_inv k" and t0: "t_pgrp (k_tasks k t) \<noteq> 0"
    using assms(1,2) by (auto simp: jobs_ok_def)
  obtain k1 where k1: "leave t k = Some k1" "pg_frame t 0 k k1"
    "task_session t k \<in> set (k_allsessionq k1) \<longleftrightarrow> \<not> lone t k"
    using leave_ok [OF I assms(2) t0] by metis
  let ?s = "task_session t k"
  have p: "t_pgrp (k_tasks k1 t) = 0" using k1(2) by (simp add: pg_frame_def)
  then obtain k2 where k2: "pgrp_ctor g junk ?s t k1 = Some k2" "task_session t k2 = ?s" "k_allsessionq k2 = k_allsessionq k1"
    by (simp add: pgrp_ctor_def Let_def task_session_def)
  with k1 assms(3,5,6) show ?thesis
    by (simp add: setpgid_go_def Let_def)
qed

text \<open>The example with a lone task 300 in a session whose leader is gone, in a group with another id.\<close>

definition demo_lone :: kern where
  "demo_lone = pgrp_upd 2000 (\<lambda>x. x\<lparr>g_pgid := 6\<rparr>) (session_upd 2100 (\<lambda>x. x\<lparr>s_leader := 0\<rparr>) demo_kern)"

lemma demo_lone_jobs: "jobs_ok demo_lone"
proof -
  have "pg_inv demo_lone"
    unfolding pg_inv_def pg_ok_def demo_lone_def by (auto simp: demo_kern_def demo_task_def split: if_splits)
  moreover have "length (k_pghash demo_lone) = 2 ^ 2" by (simp add: demo_lone_def demo_kern_def)
  ultimately have "pg_inv demo_lone \<and> (\<exists>n. length (k_pghash demo_lone) = 2 ^ n)" by blast
  then show ?thesis by (simp add: jobs_ok_def, simp add: demo_lone_def demo_kern_def)
qed

theorem setpgid_dead_witness:
  "\<exists>k'. setpgid_go 300 2 0 3000 9 demo_lone = Some (0, k') \<and> task_session 300 k' \<notin> set (k_allsessionq k')"
  by (rule setpgid_dead_session [OF demo_lone_jobs])
    (auto simp: demo_lone_def demo_kern_def demo_task_def lone_def task_session_def fresh_pgrp_def findpgrp_def hashidx_def)

lemma lone_facts:
  assumes inv: "pg_inv k" and t: "t \<in> set (k_alltaskq k)" "t_pgrp (k_tasks k t) = g" "g \<noteq> 0" and l: "lone t k"
  shows "g_taskq (k_pgrps k g) = [t]" "s_pgrpq (k_sessions k (g_session (k_pgrps k g))) = [g]"
    "g_session (k_pgrps k g) \<in> set (k_allsessionq k)" "\<exists>b\<in>set (k_pghash k). g \<in> set b"
proof -
  note d = pg_inv_D [OF inv]
  let ?s = "g_session (k_pgrps k g)"
  have tg: "t \<in> set (g_taskq (k_pgrps k g))" using d(1) [OF t(3), of t] t by simp
  then have ne: "g_taskq (k_pgrps k g) \<noteq> []" by auto
  then show s: "?s \<in> set (k_allsessionq k)" and "\<exists>b\<in>set (k_pghash k). g \<in> set b"
    using d(3,4) by auto
  have mem: "u = t" if "u \<in> set (g_taskq (k_pgrps k h))" "g_session (k_pgrps k h) = ?s" "h \<noteq> 0" for u h
    using that l d(1) [OF that(3), of u] t by (auto simp: lone_def task_session_def)
  show Q: "g_taskq (k_pgrps k g) = [t]"
    by (rule list_single [OF d(7) tg]) (use mem t(3) in blast)
  have "h = g" if h: "h \<in> set (s_pgrpq (k_sessions k ?s))" for h
  proof -
    have q: "g_taskq (k_pgrps k h) \<noteq> []" "g_session (k_pgrps k h) = ?s" using d(2) [OF s, of h] h by auto
    have h0: "h \<noteq> 0" using q inv by (auto simp: pg_inv_def pg_ok_def)
    from q obtain u where u: "u \<in> set (g_taskq (k_pgrps k h))" by (cases "g_taskq (k_pgrps k h)") auto
    with mem [OF u q(2) h0] d(1) [OF h0, of u] t show ?thesis by simp
  qed
  moreover have "g \<in> set (s_pgrpq (k_sessions k ?s))" using d(2) [OF s, of g] ne by simp
  ultimately show "s_pgrpq (k_sessions k ?s) = [g]"
    using list_single [OF d(6) [of ?s]] by blast
qed

text \<open>
  A foreground group of another session stops the kernel: \<^verbatim>\<open>setfg\<close> (reached by the terminal's
  \<^verbatim>\<open>TIOCSPGRP\<close>) accepts any group, and when the last task leaves the session, the destructor's
  assertion that there is no foreground group fails.
\<close>
theorem foreign_foreground_panics:
  assumes "jobs_ok k" "t \<in> set (k_alltaskq k)" "lone t k"
    and "findpgrp pgid k = Some h" "g_session (k_pgrps k h) \<noteq> task_session t k" "h \<noteq> 0"
  shows "\<exists>k1. setfg (task_session t k) pgid k = (0, k1) \<and> leave t k1 = None"
proof -
  define g where "g = t_pgrp (k_tasks k t)"
  define s where "s = task_session t k"
  have I: "pg_inv k" and g0: "g \<noteq> 0" using assms(1,2) by (auto simp: jobs_ok_def g_def)
  have s: "g_session (k_pgrps k g) = s" by (simp add: s_def task_session_def g_def)
  note f = lone_facts [OF I assms(2) g_def [symmetric] g0 assms(3), unfolded s]
  have gh: "g \<noteq> h" using assms(5) s s_def by auto
  let ?k1 = "session_upd s (\<lambda>x. x\<lparr>s_fg := h\<rparr>) k"
  have "setfg s pgid k = (0, ?k1)" using assms(4) by (simp add: setfg_def)
  moreover have "leave t ?k1 = None"
    using f gh g0 assms(6)
    by (auto simp: leave_def Let_def g_def [symmetric] s pgrp_dtor_def session_dtor_def)
  ultimately show ?thesis by (auto simp: s_def)
qed

theorem foreign_foreground_witness:
  "\<exists>k1. setfg 2100 0 demo_kern = (0, k1) \<and> leave 300 k1 = None"
proof -
  have "task_session 300 demo_kern = 2100" by (simp add: task_session_def demo_kern_def)
  moreover have "\<exists>k1. setfg (task_session 300 demo_kern) 0 demo_kern = (0, k1) \<and> leave 300 k1 = None"
    by (rule foreign_foreground_panics [OF demo_jobs_ok, where h = 1000])
      (auto simp: demo_kern_def demo_task_def lone_def task_session_def findpgrp_def hashidx_def)
  ultimately show ?thesis by simp
qed

end
