(* ===== verification/Kern_Kill.thy ===== *)
theory Kern_Kill
  imports Kern_Pgrp
begin

text \<open>
  The end of processes: \<^verbatim>\<open>syskill\<close>, \<^verbatim>\<open>syswaitpid\<close>, \<^verbatim>\<open>doexit\<close> and \<^verbatim>\<open>~task_t\<close> of \<^verbatim>\<open>kern/kill.cc\<close>, and the delivery
  of signals, \<^verbatim>\<open>checksignal\<close> and \<^verbatim>\<open>stop\<close> of \<^verbatim>\<open>kern/signal.cc\<close>, and the creation of a task by \<^verbatim>\<open>fork\<close>
  (\<^verbatim>\<open>kern/fork.cc\<close>).

  What \<^verbatim>\<open>doexit\<close> does to the address space, the descriptors, the working directory and the alarm timer
  belongs to the state of other components and is not repeated here.  A place where the task is taken off
  the processor ends the operation of this theory; the continuation is a definition of its own
  (\<open>waitpid_resume\<close>, the remaining signals of \<open>DStop\<close>).
\<close>

subsection \<open>Sending to many\<close>

definition syskill :: "int \<Rightarrow> int \<Rightarrow> kern \<Rightarrow> (int \<times> kern) option" where
  "syskill pid signo k =
     (if pid > 0 then case findtask pid k of None \<Rightarrow> Some (ESRCH, k) | Some t \<Rightarrow> kill t signo k
      else if pid = -1 then kill_first (\<lambda>t. kill t signo) (k_alltaskq k) k
      else if pid = 0 then pgrp_kill (t_pgrp (curr_task k)) signo k
      else case findpgrp (- pid) k of None \<Rightarrow> Some (ESRCH, k) | Some g \<Rightarrow> pgrp_kill g signo k)"

subsection \<open>Waiting for children\<close>

definition WNOHANG :: u32 where "WNOHANG = 1"
definition WUNTRACED :: u32 where "WUNTRACED = 2"

definition task_dtor :: "nat \<Rightarrow> kern \<Rightarrow> kern option" where
  "task_dtor t k = do { kassert (t_state (k_tasks k t) = TZOMBIE); task_uninstall t k }"

definition wait_match :: "int \<Rightarrow> nat \<Rightarrow> kern \<Rightarrow> bool" where
  "wait_match pid c k =
     (if pid > 0 then t_pid (k_tasks k c) = pid
      else if pid = 0 then t_pgrp (k_tasks k c) = t_pgrp (curr_task k)
      else if pid < -1 then g_pgid (k_pgrps k (t_pgrp (k_tasks k c))) = - pid
      else True)"

datatype wait_result = WRet int "u32 option" | WBlocked

text \<open>
  One pass over the children, with the word written to \<^verbatim>\<open>*stat\<close>; \<open>q\<close> is the anonymous wait queue.
\<close>

primrec wait_scan :: "int \<Rightarrow> u32 \<Rightarrow> nat \<Rightarrow> bool \<Rightarrow> nat list \<Rightarrow> kern \<Rightarrow> (wait_result \<times> kern) option" where
  "wait_scan pid opts q found [] k =
     (if \<not> found then Some (WRet ECHILD None, k)
      else if opts AND WNOHANG \<noteq> 0 then Some (WRet 0 None, k)
      else do {
        k1 \<leftarrow> wq_wait q (curr_upd (\<lambda>t. t\<lparr>t_flags := t_flags t OR TFWAITCHLDEXIT\<rparr>) k);
        Some (WBlocked, k1) })"
| "wait_scan pid opts q found (c # cs) k =
     (if \<not> wait_match pid c k then wait_scan pid opts q found cs k
      else case t_state (k_tasks k c) of
        TSTOP \<Rightarrow>
          if opts AND WUNTRACED = 0 \<or> t_exitcode (k_tasks k c) = 0 then wait_scan pid opts q True cs k
          else Some (WRet (t_pid (k_tasks k c)) (Some (t_exitcode (k_tasks k c))),
            task_upd c (\<lambda>x. x\<lparr>t_exitcode := 0\<rparr>) k)
      | TZOMBIE \<Rightarrow> do {
          let cpid = t_pid (k_tasks k c);
          let st = t_exitcode (k_tasks k c);
          let k1 = curr_upd (\<lambda>t. t\<lparr>t_cutick := t_cutick t + t_utick (k_tasks k c),
                                   t_cstick := t_cstick t + t_stick (k_tasks k c)\<rparr>) k;
          k2 \<leftarrow> task_dtor c k1;
          Some (WRet cpid (Some st), k2) }
      | _ \<Rightarrow> wait_scan pid opts q True cs k)"

definition syswaitpid :: "int \<Rightarrow> u32 \<Rightarrow> nat \<Rightarrow> kern \<Rightarrow> (wait_result \<times> kern) option" where
  "syswaitpid pid opts q k = wait_scan pid opts q False (t_childq (curr_task k)) k"

text \<open>What happens when the waiting task runs again; \<open>found\<close> keeps its value.\<close>

definition waitpid_resume :: "int \<Rightarrow> u32 \<Rightarrow> nat \<Rightarrow> kern \<Rightarrow> (wait_result \<times> kern) option" where
  "waitpid_resume pid opts q k =
     (let k1 = curr_upd (\<lambda>t. t\<lparr>t_flags := t_flags t AND NOT TFWAITCHLDEXIT\<rparr>) k in
      if t_flags (curr_task k) AND TFWAITCHLDEXIT \<noteq> 0 then Some (WRet EINTR None, k1)
      else wait_scan pid opts q True (t_childq (curr_task k1)) k1)"

subsection \<open>Exiting\<close>

definition notify :: "nat \<Rightarrow> kern \<Rightarrow> kern option" where
  "notify p k = do {
     k1 \<leftarrow> post p SIGCHLD k;
     if t_flags (k_tasks k1 p) AND TFWAITCHLDEXIT \<noteq> 0 then do {
       k2 \<leftarrow> wakeup p k1;
       Some (task_upd p (\<lambda>x. x\<lparr>t_flags := t_flags x AND NOT TFWAITCHLDEXIT\<rparr>) k2) }
     else Some k1 }"

definition reparent :: "nat \<Rightarrow> kern \<Rightarrow> kern option" where
  "reparent c k =
     (let k1 = curr_upd (\<lambda>t. t\<lparr>t_childq := remove1 c (t_childq t)\<rparr>) k;
          k2 = task_upd (k_inittask k1) (\<lambda>t. t\<lparr>t_childq := t_childq t @ [c]\<rparr>) k1;
          k3 = task_upd c (\<lambda>t. t\<lparr>t_parent := k_inittask k2\<rparr>) k2
      in if t_state (k_tasks k3 c) = TZOMBIE \<or> t_state (k_tasks k3 c) = TSTOP
         then notify (k_inittask k3) k3 else Some k3)"

definition doexit :: "u32 \<Rightarrow> kern \<Rightarrow> kern option" where
  "doexit exitcode k = do {
     let k1 = curr_upd (\<lambda>t. t\<lparr>t_exitcode := exitcode, t_sigvec := []\<rparr>) k;
     k2 \<leftarrow> notify (t_parent (curr_task k1)) k1;
     k3 \<leftarrow> foldM reparent (t_childq (curr_task k2)) k2;
     let s = task_session (k_curr k3) k3;
     k4 \<leftarrow> (if s_leader (k_sessions k3 s) = k_curr k3 then session_post s SIGHUP k3 else Some k3);
     wq_zombie zombietaskq k4 }"

definition sysexit :: "u32 \<Rightarrow> kern \<Rightarrow> kern option" where
  "sysexit exitcode k = doexit (push_bit 8 (exitcode AND 0xff)) k"

subsection \<open>Delivery\<close>

text \<open>\<^verbatim>\<open>stop(signo)\<close> up to the context switch.\<close>

definition sig_stop :: "int \<Rightarrow> nat \<Rightarrow> kern \<Rightarrow> kern option" where
  "sig_stop signo q k = do {
     let p = t_parent (curr_task k);
     sa \<leftarrow> sigvec_get (t_sigvec (k_tasks k p)) SIGCHLD;
     k1 \<leftarrow> (if sa_flags sa AND SANOCLDSTOP = 0 then post p SIGCHLD k else Some k);
     let k2 = curr_upd (\<lambda>t. t\<lparr>t_exitcode := push_bit 8 (word_of_int signo) OR 0xff\<rparr>) k1;
     wq_stop q k2 }"

partial_function (option) reap_loop :: "nat \<Rightarrow> kern \<Rightarrow> kern option" where
  "reap_loop q k = Option.bind (syswaitpid (-1) WNOHANG q k) (\<lambda>(r, k1).
     case r of WRet n st \<Rightarrow> if n > 0 then reap_loop q k1 else Some k1 | WBlocked \<Rightarrow> None)"

text \<open>
  The outcome of \<^verbatim>\<open>checksignal\<close>: back to the user, the end of the task (\<^verbatim>\<open>doexit\<close> was run with the code and
  another task is current), the task
  stopped (with the signals the loop still has to look at), or a handler entered with new
  registers and the frame written to the user's stack.
\<close>

datatype delivery = DReturn | DExit u32 | DStop u32 | DHandler regs u32 sigcontext

function deliver_loop :: "(u32 \<Rightarrow> bool) \<Rightarrow> nat \<Rightarrow> regs \<Rightarrow> u32 \<Rightarrow> kern \<Rightarrow> (delivery \<times> kern) option" where
  "deliver_loop okw q r active k =
     (if active = 0 then Some (DReturn, k)
      else let (signo, rest) = sigset_delfirst active;
               k1 = curr_upd (\<lambda>t. t\<lparr>t_sigset := sigset_del signo (t_sigset t)\<rparr>) k
        in if k_curr k1 = k_inittask k1 \<and> signo \<noteq> SIGCHLD then deliver_loop okw q r rest k1
        else case sigvec_get (t_sigvec (curr_task k1)) signo of
          None \<Rightarrow> None
        | Some sa \<Rightarrow>
          if sa_func sa = SIGXIGN then
            if signo \<noteq> SIGCHLD then deliver_loop okw q r rest k1
            else (case reap_loop q k1 of None \<Rightarrow> None | Some k2 \<Rightarrow> deliver_loop okw q r rest k2)
          else if sa_func sa = SIGXDFL then
            (case sigdflact ! nat signo of
               Ignore \<Rightarrow> deliver_loop okw q r rest k1
             | Terminate \<Rightarrow> map_option (Pair (DExit (word_of_int signo))) (doexit (word_of_int signo) k1)
             | Coredump \<Rightarrow> map_option (Pair (DExit (word_of_int signo))) (doexit (word_of_int signo) k1)
             | Stop \<Rightarrow> (case sig_stop signo q k1 of None \<Rightarrow> None | Some k2 \<Rightarrow> Some (DStop rest, k2))
             | NoEntry \<Rightarrow> None)
          else case setupframe okw r signo (t_sigmask (curr_task k1)) of
            None \<Rightarrow> map_option (Pair (DExit (word_of_int SIGSEGV))) (doexit (word_of_int SIGSEGV) k1)
          | Some (esp, sc) \<Rightarrow>
              let k2 = (if sa_flags sa AND SAONESHOT \<noteq> 0 then sa_put signo (sa\<lparr>sa_func := SIGXDFL\<rparr>) k1 else k1);
                  k3 = curr_upd (\<lambda>t. t\<lparr>t_sigmask := sigset_addset (t_sigmask t) (sa_mask sa)\<rparr>) k2
              in Some (DHandler (r\<lparr>r_esp := esp, r_eip := sa_func sa\<rparr>) esp sc, k3))"
  by pat_completeness auto

lemma delfirst_less:
  assumes "sigset_delfirst active = (signo, rest)" "active \<noteq> 0"
  shows "unat rest < unat active"
proof -
  from sigset_delfirst_spec(2) [OF assms]
  have s: "0 < signo" "signo \<le> 32" "bit active (nat (signo - 1))" "rest = active AND NOT (sigbit signo)" by auto
  have n: "nat ((signo - 1) mod 32) = nat (signo - 1)" using s by simp
  have disj: "rest AND sigbit signo = 0" unfolding s(4)
    by (rule bit_word_eqI) (auto simp: bit_simps)
  have split: "rest OR sigbit signo = active" unfolding s(4)
    by (rule bit_word_eqI) (use s(3) n in \<open>auto simp: bit_simps\<close>)
  have "unat rest AND unat (sigbit signo) = 0"
    using disj by (metis unsigned_0 unsigned_and_eq)
  then have "unat rest + unat (sigbit signo) = unat (rest OR sigbit signo)"
    by (simp add: disjunctive_add_eq_or unsigned_or_eq)
  moreover have "0 < unat (sigbit signo)"
    using bit_sigbit [of signo "nat ((signo - 1) mod 32)"] by (metis bit_0_eq bot_apply bot_bool_def gr0I unsigned_eq_0_iff)
  ultimately show ?thesis using split by simp
qed

termination deliver_loop
proof (relation "measure (\<lambda>(okw, q, r, active, k). unat active)", goal_cases)
  case 1
  show ?case by simp
qed (use delfirst_less in \<open>auto dest: sym\<close>)

definition checksignal :: "(u32 \<Rightarrow> bool) \<Rightarrow> nat \<Rightarrow> regs \<Rightarrow> kern \<Rightarrow> (delivery \<times> kern) option" where
  "checksignal okw q r k =
     (if k_curr k = k_idletask k then Some (DReturn, k)
      else deliver_loop okw q r (unmaskedsig (curr_task k)) k)"

subsection \<open>Forking\<close>

text \<open>
  \<^verbatim>\<open>task_t::clone\<close> for the fields of this model; \<open>mme\<close> is the result of \<^verbatim>\<open>mm->clone\<close>, \<open>y\<close> the address of the
  new task.
\<close>

definition task_clone :: "int \<Rightarrow> nat \<Rightarrow> nat \<Rightarrow> kern \<Rightarrow> (int \<times> kern) option" where
  "task_clone mme x y k = do {
     (pid, k1) \<leftarrow> newpid k;
     let p = k_tasks k1 x;
     let t = p\<lparr>t_pid := pid, t_state := TRUN, t_flags := 0, t_starttick := k_passedtick k1,
       t_utick := 0, t_stick := 0, t_cutick := 0, t_cstick := 0, t_childq := [], t_runlink := Unlinked\<rparr>;
     if mme \<noteq> 0 then Some (mme, task_upd y (\<lambda>_. t) k1)
     else Some (0, task_upd y (\<lambda>_. t\<lparr>t_sigvec := sigvec_clone (t_sigvec p), t_sigset := 0, t_sigmask := 0,
       t_exitcode := 0\<rparr>) k1) }"

definition dofork :: "bool \<Rightarrow> int \<Rightarrow> nat \<Rightarrow> kern \<Rightarrow> (int \<times> kern) option" where
  "dofork low mme y k =
     (if low then Some (ENOMEM, k)
      else do {
        (e, k1) \<leftarrow> task_clone mme (k_curr k) y k;
        if e \<noteq> 0 then Some (e, k1)
        else do { k2 \<leftarrow> task_install y k1; Some (t_pid (k_tasks k2 y), k2) } })"

subsection \<open>What notifications leave alone\<close>

definition wframe :: "nat \<Rightarrow> kern \<Rightarrow> kern \<Rightarrow> bool" where
  "wframe t k k' \<longleftrightarrow> k_pgrps k' = k_pgrps k \<and> k_sessions k' = k_sessions k \<and> k_curr k' = k_curr k \<and>
     k_idletask k' = k_idletask k \<and> k_inittask k' = k_inittask k \<and>
     t_pgrp (k_tasks k' t) = t_pgrp (k_tasks k t) \<and> t_sigvec (k_tasks k' t) = t_sigvec (k_tasks k t) \<and>
     (t_state (k_tasks k t) = TRUN \<longrightarrow> t_state (k_tasks k' t) = TRUN)"

lemma wframe_trans: "wframe t k1 k2 \<Longrightarrow> wframe t k2 k3 \<Longrightarrow> wframe t k1 k3"
  by (simp add: wframe_def)

lemma wframe_upd:
  assumes "\<And>x. t_pgrp (f x) = t_pgrp x" "\<And>x. t_sigvec (f x) = t_sigvec x" "\<And>x. t_state (f x) = t_state x"
  shows "wframe t k (task_upd u f k)"
  using assms by (simp add: wframe_def)

lemma unlinkrun_curr: "unlinkrun t k = Some k' \<Longrightarrow> k_curr k' = k_curr k"
  by (auto simp: unlinkrun_def split: runlink.splits)

lemma enqrun_curr: "enqrun t k = Some k' \<Longrightarrow> k_curr k' = k_curr k"
  by (auto simp: enqrun_def Let_def)

lemma wakeup_curr: "wakeup t k = Some k' \<Longrightarrow> k_curr k' = k_curr k"
  by (auto simp: wakeup_def bind_eq_Some_conv split: if_splits dest!: unlinkrun_curr enqrun_curr)

lemma same_task_fields:
  assumes "same_task x y"
  shows "t_pgrp y = t_pgrp x" "t_sigvec y = t_sigvec x"
  using arg_cong [OF assms [unfolded same_task_def], of t_pgrp]
    arg_cong [OF assms [unfolded same_task_def], of t_sigvec] by simp_all

lemma wakeup_wframe: "wakeup u k = Some k' \<Longrightarrow> wframe t k k'"
proof -
  assume w: "wakeup u k = Some k'"
  have "sframe k k'" by (rule wakeup_frame [OF w])
  then have "same_task (k_tasks k t) (k_tasks k' t)" "k_pgrps k' = k_pgrps k" "k_sessions k' = k_sessions k"
    "k_idletask k' = k_idletask k" "k_inittask k' = k_inittask k"
    by (simp_all add: sframe_def)
  with wakeup_curr [OF w] wakeup_state [OF w, of t] same_task_fields show ?thesis
    by (simp add: wframe_def)
qed

lemma post_wframe:
  assumes "post u signo k = Some k'"
  shows "wframe t k k'"
proof -
  have vec: "deaf u signo k \<or> t_sigvec (k_tasks k u) \<noteq> [] \<and> validsig signo"
    using assms by (auto simp: post_def deaf_def sigvec_get_def Let_def split: if_splits)
  show ?thesis
  proof (cases "deaf u signo k")
    case True
    with assms show ?thesis by (auto simp: post_def deaf_def wframe_def split: if_splits)
  next
    case False
    with vec have v: "validsig signo" "deaf u signo k \<or> t_sigvec (k_tasks k u) \<noteq> []" by auto
    define k1 where "k1 = task_upd u (\<lambda>x. x\<lparr>t_sigset := post_clear signo (t_sigset x)\<rparr>) k"
    define k2 where "k2 = task_upd u (\<lambda>x. x\<lparr>t_sigset := sigset_add signo (t_sigset x)\<rparr>) k1"
    have w: "wframe t k k1" "wframe t k1 k2" unfolding k1_def k2_def by (rule wframe_upd; simp)+
    from assms False have "k' = k1 \<or> k' = k2 \<or> wakeup u k2 = Some k'"
      unfolding post_eq [OF v] Let_def k1_def [symmetric] k2_def [symmetric] by (auto split: if_splits)
    with w wakeup_wframe [of u k2 k' t] show ?thesis by (metis wframe_trans)
  qed
qed

lemma notify_wframe: "notify p k = Some k' \<Longrightarrow> wframe t k k'"
proof -
  assume "notify p k = Some k'"
  then obtain k1 where k1: "post p SIGCHLD k = Some k1"
    and r: "(if t_flags (k_tasks k1 p) AND TFWAITCHLDEXIT \<noteq> 0 then do {
       k2 \<leftarrow> wakeup p k1;
       Some (task_upd p (\<lambda>x. x\<lparr>t_flags := t_flags x AND NOT TFWAITCHLDEXIT\<rparr>) k2) }
     else Some k1) = Some k'"
    by (auto simp: notify_def bind_eq_Some_conv)
  have u: "wframe t k2 (task_upd p (\<lambda>x. x\<lparr>t_flags := t_flags x AND NOT TFWAITCHLDEXIT\<rparr>) k2)" for k2
    by (rule wframe_upd) simp_all
  have "wframe t k1 k'"
  proof (cases "t_flags (k_tasks k1 p) AND TFWAITCHLDEXIT \<noteq> 0")
    case True
    with r obtain k2 where "wakeup p k1 = Some k2"
      "k' = task_upd p (\<lambda>x. x\<lparr>t_flags := t_flags x AND NOT TFWAITCHLDEXIT\<rparr>) k2"
      by (auto simp: bind_eq_Some_conv)
    with wakeup_wframe [of p k1 k2 t] u [of k2] show ?thesis by (metis wframe_trans)
  next
    case False
    with r show ?thesis by (simp add: wframe_def)
  qed
  with post_wframe [OF k1, of t] show ?thesis by (rule wframe_trans)
qed

lemma reparent_wframe: "reparent c k = Some k' \<Longrightarrow> wframe t k k'"
proof -
  assume r: "reparent c k = Some k'"
  define k1 where "k1 = curr_upd (\<lambda>t. t\<lparr>t_childq := remove1 c (t_childq t)\<rparr>) k"
  define k2 where "k2 = task_upd (k_inittask k1) (\<lambda>t. t\<lparr>t_childq := t_childq t @ [c]\<rparr>) k1"
  define k3 where "k3 = task_upd c (\<lambda>t. t\<lparr>t_parent := k_inittask k2\<rparr>) k2"
  have w: "wframe t k k1" "wframe t k1 k2" "wframe t k2 k3"
    unfolding k1_def k2_def k3_def curr_upd_def by (rule wframe_upd; simp)+
  have "k' = k3 \<or> notify (k_inittask k3) k3 = Some k'"
    using r unfolding reparent_def Let_def k1_def [symmetric] k2_def [symmetric] k3_def [symmetric]
    by (auto split: if_splits)
  with w notify_wframe [of "k_inittask k3" k3 k' t] show ?thesis by (metis wframe_trans)
qed

subsection \<open>Exiting returns the processor\<close>

lemma same_task_more:
  assumes "same_task x y"
  shows "t_exitcode y = t_exitcode x" "t_parent y = t_parent x" "t_childq y = t_childq x" "sig_ok y = sig_ok x"
proof -
  have "t_sigmask y = t_sigmask x"
    using arg_cong [OF assms [unfolded same_task_def], of t_sigmask] by simp
  then show "sig_ok y = sig_ok x" using same_task_fields(2) [OF assms] by (simp add: sig_ok_def)
qed (use arg_cong [OF assms [unfolded same_task_def], of t_exitcode] arg_cong [OF assms [unfolded same_task_def], of t_parent]
      arg_cong [OF assms [unfolded same_task_def], of t_childq] in simp_all)

text \<open>
  A task \<open>t\<close> between the start of its \<^verbatim>\<open>doexit\<close> and \<^verbatim>\<open>zombie()\<close>: its \<^verbatim>\<open>sigvec\<close> is gone, all other living tasks
  have theirs.
\<close>

definition dying :: "nat \<Rightarrow> u32 \<Rightarrow> kern \<Rightarrow> bool" where
  "dying t code k \<longleftrightarrow> sched_inv k \<and> k_curr k = t \<and> t_state (k_tasks k t) = TRUN \<and> t_exitcode (k_tasks k t) = code \<and>
     (\<forall>u\<in>set (k_alltaskq k). u \<noteq> t \<longrightarrow> t_state (k_tasks k u) = TZOMBIE \<or> sig_ok (k_tasks k u))"

text \<open>What an exit may do to a task it does not end or wake: the family and the pending signals.\<close>

definition awake :: "task \<Rightarrow> bool" where
  "awake x \<longleftrightarrow> t_state x \<noteq> TSLEEP \<and> t_state x \<noteq> TWAIT"

definition exit_step :: "nat \<Rightarrow> u32 \<Rightarrow> kern \<Rightarrow> kern \<Rightarrow> bool" where
  "exit_step t code k k' \<longleftrightarrow> dying t code k' \<and> same_env k k' \<and>
     (\<forall>u. awake (k_tasks k u) \<longrightarrow> t_state (k_tasks k' u) = t_state (k_tasks k u))"

lemma exit_step_trans: "exit_step t c k1 k2 \<Longrightarrow> exit_step t c k2 k3 \<Longrightarrow> exit_step t c k1 k3"
  unfolding exit_step_def by (metis awake_def same_env_trans)

lemma exit_step_upd:
  assumes "dying t code k"
    and "\<And>x. t_runlink (f x) = t_runlink x" "\<And>x. t_state (f x) = t_state x" "\<And>x. t_exitcode (f x) = t_exitcode x"
    and "\<And>x. task_ok x \<Longrightarrow> task_ok (f x)" "\<And>x. sig_ok x \<Longrightarrow> sig_ok (f x)"
  shows "exit_step t code k (task_upd u f k)"
proof -
  have "sched_inv (task_upd u f k)"
    using assms by (intro sched_inv_upd) (simp_all add: dying_def)
  then show ?thesis using assms by (auto simp: exit_step_def dying_def)
qed

lemma family_ok:
  "task_ok x \<Longrightarrow> task_ok (x\<lparr>t_childq := cs\<rparr>)" "task_ok x \<Longrightarrow> task_ok (x\<lparr>t_parent := p\<rparr>)" "task_ok x \<Longrightarrow> task_ok (x\<lparr>t_flags := fl\<rparr>)"
  "sig_ok x \<Longrightarrow> sig_ok (x\<lparr>t_childq := cs\<rparr>)" "sig_ok x \<Longrightarrow> sig_ok (x\<lparr>t_parent := p\<rparr>)" "sig_ok x \<Longrightarrow> sig_ok (x\<lparr>t_flags := fl\<rparr>)"
  by (auto simp: task_ok_def sig_ok_def hassig_def unmaskedsig_def split: runlink.splits)

lemma notify_ok:
  assumes d: "dying t code k" and p: "p \<in> set (k_alltaskq k)" "p \<noteq> t"
  obtains k' where "notify p k = Some k'" "exit_step t code k k'"
    "\<And>u. t_parent (k_tasks k' u) = t_parent (k_tasks k u)" "\<And>u. t_childq (k_tasks k' u) = t_childq (k_tasks k u)"
    "t_flags (k_tasks k p) AND TFWAITCHLDEXIT \<noteq> 0 \<Longrightarrow> awake (k_tasks k' p)"
proof -
  have v: "validsig SIGCHLD" by (simp add: validsig_def NSIG_def)
  have I: "sched_inv k" and ok: "t_state (k_tasks k p) = TZOMBIE \<or> sig_ok (k_tasks k p)"
    using d p by (auto simp: dying_def)
  have vec: "deaf p SIGCHLD k \<or> t_sigvec (k_tasks k p) \<noteq> []" using ok by (auto simp: deaf_def sig_ok_def)
  obtain k1 y where k1: "post p SIGCHLD k = Some k1" "sched_inv k1" "same_env k k1" "k_tasks k1 = (k_tasks k)(p := y)"
    "if deaf p SIGCHLD k then y = k_tasks k p else post_result SIGCHLD (k_tasks k p) y"
    by (rule post_ok [OF I p(1) v vec])
  have y: "sig_ok y \<longleftrightarrow> sig_ok (k_tasks k p)" "awake (k_tasks k p) \<Longrightarrow> t_state y = t_state (k_tasks k p)"
    "t_parent y = t_parent (k_tasks k p)" "t_childq y = t_childq (k_tasks k p)" "t_flags y = t_flags (k_tasks k p)"
    using k1(5) by (auto simp: post_result_def Let_def sig_ok_def awake_def split: if_splits)
  have e1: "exit_step t code k k1"
    using d p k1(2-4) y(1,2) ok by (auto simp: exit_step_def dying_def same_env_def awake_def)
  have f1: "t_parent (k_tasks k1 u) = t_parent (k_tasks k u)" "t_childq (k_tasks k1 u) = t_childq (k_tasks k u)" for u
    using k1(4) y(3,4) by simp_all
  show ?thesis
  proof (cases "t_flags (k_tasks k p) AND TFWAITCHLDEXIT \<noteq> 0")
    case False
    then show ?thesis using k1 y(5) f1 e1 by (intro that [of k1]) (simp_all add: notify_def)
  next
    case True
    have p1: "p \<in> set (k_alltaskq k1)" using p(1) k1(3) by (simp add: same_env_def)
    obtain k2 where k2: "wakeup p k1 = Some k2" "sched_inv k2" "same_env k1 k2"
      "k_tasks k2 = (k_tasks k1)(p := (if t_state (k_tasks k1 p) \<in> {TSLEEP, TWAIT}
       then (k_tasks k1 p)\<lparr>t_state := TRUN, t_runlink := OnRun (nat (t_counter (k_tasks k1 p)))\<rparr> else k_tasks k1 p))"
      using wakeup_ok [OF k1(2) p1] by metis
    have e2: "exit_step t code k1 k2"
      using e1 p(2) k2(2-4) by (auto simp: exit_step_def dying_def same_env_def awake_def sig_ok_def)
    let ?k3 = "task_upd p (\<lambda>x. x\<lparr>t_flags := t_flags x AND NOT TFWAITCHLDEXIT\<rparr>) k2"
    have e3: "exit_step t code k2 ?k3"
      using e2 by (intro exit_step_upd) (auto simp: exit_step_def intro: family_ok)
    have "awake (k_tasks k2 p)" using k2(4) by (auto simp: awake_def)
    moreover have "t_parent (k_tasks k2 u) = t_parent (k_tasks k u)" "t_childq (k_tasks k2 u) = t_childq (k_tasks k u)" for u
      using k2(4) f1 by auto
    ultimately show ?thesis
      using True k1(1,4) y(5) k2(1) exit_step_trans [OF e1 exit_step_trans [OF e2 e3]]
      by (intro that [of ?k3]) (auto simp: notify_def awake_def)
  qed
qed

lemma reparent_ok:
  assumes d: "dying t code k" and i: "k_inittask k \<in> set (k_alltaskq k)" "k_inittask k \<noteq> t"
  obtains k' where "reparent c k = Some k'" "exit_step t code k k'"
    "\<And>u. t_parent (k_tasks k' u) = (if u = c then k_inittask k else t_parent (k_tasks k u))"
    "t_childq (k_tasks k' t) = remove1 c (t_childq (k_tasks k t))"
    "t_childq (k_tasks k' (k_inittask k)) = t_childq (k_tasks k (k_inittask k)) @ [c]"
proof -
  let ?i = "k_inittask k"
  define k1 where "k1 = curr_upd (\<lambda>t. t\<lparr>t_childq := remove1 c (t_childq t)\<rparr>) k"
  define k2 where "k2 = task_upd ?i (\<lambda>t. t\<lparr>t_childq := t_childq t @ [c]\<rparr>) k1"
  define k3 where "k3 = task_upd c (\<lambda>t. t\<lparr>t_parent := ?i\<rparr>) k2"
  have env: "k_inittask k1 = ?i" "k_inittask k2 = ?i" "k_inittask k3 = ?i" "k_alltaskq k3 = k_alltaskq k"
    by (simp_all add: k1_def k2_def k3_def curr_upd_def)
  have e1: "exit_step t code k k1"
    unfolding k1_def curr_upd_def by (rule exit_step_upd [OF d]) (auto intro: family_ok)
  have e2: "exit_step t code k1 k2"
    unfolding k2_def by (rule exit_step_upd) (use e1 in \<open>auto simp: exit_step_def intro: family_ok\<close>)
  have e3: "exit_step t code k2 k3"
    unfolding k3_def by (rule exit_step_upd) (use e2 in \<open>auto simp: exit_step_def intro: family_ok\<close>)
  have e: "exit_step t code k k3" by (rule exit_step_trans [OF e1 exit_step_trans [OF e2 e3]])
  have c: "k_curr k = t" using d by (simp add: dying_def)
  have f: "t_parent (k_tasks k3 u) = (if u = c then ?i else t_parent (k_tasks k u))"
    "t_childq (k_tasks k3 t) = remove1 c (t_childq (k_tasks k t))"
    "t_childq (k_tasks k3 ?i) = t_childq (k_tasks k ?i) @ [c]" for u
    using i(2) c by (simp_all add: k1_def k2_def k3_def curr_upd_def)
  have R: "reparent c k = (if t_state (k_tasks k3 c) = TZOMBIE \<or> t_state (k_tasks k3 c) = TSTOP then notify ?i k3 else Some k3)"
    unfolding reparent_def Let_def k1_def [symmetric] env(1) k2_def [symmetric] env(2) k3_def [symmetric] env(3) ..
  have "dying t code k3" "?i \<in> set (k_alltaskq k3)" using e i env by (simp_all add: exit_step_def)
  then obtain k4 where "notify ?i k3 = Some k4" "exit_step t code k3 k4"
    "\<And>u. t_parent (k_tasks k4 u) = t_parent (k_tasks k3 u)" "\<And>u. t_childq (k_tasks k4 u) = t_childq (k_tasks k3 u)"
    using notify_ok [of t code k3 ?i] i(2) by metis
  then show ?thesis
    using R e f exit_step_trans [OF e]
    by (cases "t_state (k_tasks k3 c) = TZOMBIE \<or> t_state (k_tasks k3 c) = TSTOP")
      ((rule that [of k4], simp_all) [], (rule that [of k3], simp_all) [])
qed

lemma reparent_all:
  assumes "dying t code k" "k_inittask k \<in> set (k_alltaskq k)" "k_inittask k \<noteq> t" "t_childq (k_tasks k t) = cs"
  shows "\<exists>k'. foldM reparent cs k = Some k' \<and> exit_step t code k k' \<and> t_childq (k_tasks k' t) = [] \<and>
    t_childq (k_tasks k' (k_inittask k)) = t_childq (k_tasks k (k_inittask k)) @ cs \<and>
    (\<forall>u. t_parent (k_tasks k' u) = (if u \<in> set cs then k_inittask k else t_parent (k_tasks k u)))"
  using assms
proof (induction cs arbitrary: k)
  case Nil
  then show ?case by (simp add: exit_step_def)
next
  case (Cons c cs)
  obtain k1 where k1: "reparent c k = Some k1" "exit_step t code k k1"
    "\<And>u. t_parent (k_tasks k1 u) = (if u = c then k_inittask k else t_parent (k_tasks k u))"
    "t_childq (k_tasks k1 t) = cs" "t_childq (k_tasks k1 (k_inittask k)) = t_childq (k_tasks k (k_inittask k)) @ [c]"
    using reparent_ok [OF Cons.prems(1-3), of c] Cons.prems(4) by (metis remove1.simps(2))
  then have e: "k_inittask k1 = k_inittask k" "k_alltaskq k1 = k_alltaskq k" "dying t code k1"
    by (auto simp: exit_step_def same_env_def)
  from Cons.IH [of k1] e Cons.prems(2,3) k1(4) obtain k2 where k2: "foldM reparent cs k1 = Some k2" "exit_step t code k1 k2"
    "t_childq (k_tasks k2 t) = []" "t_childq (k_tasks k2 (k_inittask k)) = t_childq (k_tasks k1 (k_inittask k)) @ cs"
    "\<forall>u. t_parent (k_tasks k2 u) = (if u \<in> set cs then k_inittask k else t_parent (k_tasks k1 u))"
    by auto
  show ?case
    using k1 k2 exit_step_trans [OF k1(2) k2(2)] by (intro exI [of _ k2]) auto
qed

text \<open>
  What an exit needs of the family of the task: its parent and init are in the table and are other tasks, and
  the task leads no session (the exit of a leader faults, see below).
\<close>

definition may_exit :: "kern \<Rightarrow> bool" where
  "may_exit k \<longleftrightarrow> k_curr k \<noteq> k_idletask k \<and> k_curr k \<noteq> k_inittask k \<and> k_inittask k \<in> set (k_alltaskq k) \<and>
     t_parent (curr_task k) \<in> set (k_alltaskq k) \<and> t_parent (curr_task k) \<noteq> k_curr k \<and>
     s_leader (k_sessions k (task_session (k_curr k) k)) \<noteq> k_curr k"

lemma doexit_ok:
  assumes inv: "sig_inv k" and m: "may_exit k"
  shows "\<exists>k'. doexit code k = Some k' \<and> sig_inv k' \<and> t_state (k_tasks k' (k_curr k)) = TZOMBIE \<and>
    t_exitcode (k_tasks k' (k_curr k)) = code \<and> k_curr k' \<noteq> k_curr k \<and> t_childq (k_tasks k' (k_curr k)) = [] \<and>
    t_childq (k_tasks k' (k_inittask k)) = t_childq (k_tasks k (k_inittask k)) @ t_childq (curr_task k) \<and>
    (\<forall>c\<in>set (t_childq (curr_task k)). t_parent (k_tasks k' c) = k_inittask k) \<and>
    (t_flags (k_tasks k (t_parent (curr_task k))) AND TFWAITCHLDEXIT \<noteq> 0 \<longrightarrow> awake (k_tasks k' (t_parent (curr_task k))))"
proof -
  let ?t = "k_curr k" and ?i = "k_inittask k" and ?p = "t_parent (curr_task k)"
  define k1 where "k1 = curr_upd (\<lambda>t. t\<lparr>t_exitcode := code, t_sigvec := []\<rparr>) k"
  have T1: "k_tasks k1 u = (if u = ?t then (k_tasks k u)\<lparr>t_exitcode := code, t_sigvec := []\<rparr> else k_tasks k u)" for u
    by (simp add: k1_def curr_upd_def)
  have env1: "same_env k k1" by (simp add: k1_def curr_upd_def)
  have I: "sched_inv k" and run: "t_state (k_tasks k ?t) = TRUN" using inv by (simp_all add: sig_inv_def running_def curr_task_def)
  have "sched_inv k1" unfolding k1_def curr_upd_def
    by (rule sched_inv_upd [OF I]) (auto simp: task_ok_def hassig_def unmaskedsig_def split: runlink.splits)
  then have d1: "dying ?t code k1"
    using inv env1 run by (auto simp: dying_def T1 sig_inv_def same_env_def)
  have P1: "t_parent (curr_task k1) = ?p" "?p \<in> set (k_alltaskq k1)" "?p \<noteq> ?t"
    using m env1 by (auto simp: may_exit_def same_env_def curr_task_def T1)
  obtain k2 where k2: "notify ?p k1 = Some k2" "exit_step ?t code k1 k2"
    "\<And>u. t_parent (k_tasks k2 u) = t_parent (k_tasks k1 u)" "\<And>u. t_childq (k_tasks k2 u) = t_childq (k_tasks k1 u)"
    "t_flags (k_tasks k1 ?p) AND TFWAITCHLDEXIT \<noteq> 0 \<Longrightarrow> awake (k_tasks k2 ?p)"
    using notify_ok [OF d1 P1(2,3)] by blast
  have env2: "same_env k k2" using env1 k2(2) same_env_trans by (auto simp: exit_step_def)
  have i2: "dying ?t code k2" "k_inittask k2 = ?i" "?i \<in> set (k_alltaskq k2)" "?i \<noteq> ?t" "curr_task k2 = k_tasks k2 ?t"
    using k2(2) env2 m by (auto simp: exit_step_def same_env_def may_exit_def curr_task_def)
  have cs: "t_childq (curr_task k2) = t_childq (curr_task k)" "t_childq (k_tasks k2 ?i) = t_childq (k_tasks k ?i)"
    using i2(4,5) k2(4) by (simp_all add: T1 curr_task_def)
  obtain k3 where k3: "foldM reparent (t_childq (curr_task k2)) k2 = Some k3" "exit_step ?t code k2 k3" "t_childq (k_tasks k3 ?t) = []"
    "t_childq (k_tasks k3 ?i) = t_childq (k_tasks k2 ?i) @ t_childq (curr_task k)"
    "\<forall>u. t_parent (k_tasks k3 u) = (if u \<in> set (t_childq (curr_task k)) then ?i else t_parent (k_tasks k2 u))"
    using reparent_all [OF i2(1)] i2(2-5) cs by metis
  have d3: "dying ?t code k3" and env3: "same_env k k3" using k3(2) env2 same_env_trans by (auto simp: exit_step_def)
  have "wframe ?t k1 k3"
  proof -
    have step: "wframe ?t k1 x \<Longrightarrow> reparent c x = Some y \<Longrightarrow> wframe ?t k1 y" for c x y
      by (blast intro: wframe_trans reparent_wframe)
    show ?thesis
      by (rule foldM_keeps [where I = "wframe ?t k1" and f = reparent, OF step notify_wframe [OF k2(1)] k3(1)])
  qed
  then have "task_session ?t k3 = task_session ?t k" using env3
    by (simp add: wframe_def task_session_def same_env_def T1)
  then have nl: "s_leader (k_sessions k3 (task_session (k_curr k3) k3)) \<noteq> k_curr k3"
    using m env3 by (simp add: may_exit_def same_env_def)
  have run3: "running k3" "k_curr k3 = ?t" "?t \<noteq> k_idletask k3"
    using d3 m env3 by (simp_all add: dying_def running_def curr_task_def may_exit_def same_env_def)
  obtain k4 where k4: "waitsleep zombietaskq TZOMBIE k3 = Some k4" "running k4" "k_curr k4 \<noteq> k_curr k3"
    "same_env k3 (k4\<lparr>k_curr := k_curr k3\<rparr>)" "t_state (k_tasks k4 ?t) = TZOMBIE" "\<And>u. same_task (k_tasks k3 u) (k_tasks k4 u)"
  proof (rule waitsleep_ok [OF run3(1), of TZOMBIE zombietaskq])
    show "k_curr k3 \<noteq> k_idletask k3" using run3(2,3) by simp
  qed (use run3(2) that in simp_all)
  have "doexit code k = Some k4"
    using k2(1) k3(1) k4(1) nl P1(1)
    by (simp add: doexit_def Let_def wq_zombie_def flip: k1_def)
  moreover have st: "t_state (k_tasks k4 u) = t_state (k_tasks k3 u)" if "u \<noteq> ?t" for u
    using waitsleep_state [OF k4(1), of u] that run3(2) by simp
  note f = same_task_more [OF k4(6)]
  have "sig_inv k4"
    unfolding sig_inv_def
  proof (intro conjI ballI k4(2))
    fix u assume u: "u \<in> set (k_alltaskq k4)"
    show "t_state (k_tasks k4 u) = TZOMBIE \<or> sig_ok (k_tasks k4 u)"
      using u d3 k4(4,5) st [of u] f(4) [of u] by (cases "u = ?t") (auto simp: dying_def same_env_def)
  qed
  moreover have "awake (k_tasks k4 ?p)" if "t_flags (k_tasks k ?p) AND TFWAITCHLDEXIT \<noteq> 0"
  proof -
    have "awake (k_tasks k2 ?p)" using k2(5) that P1(3) by (simp add: T1)
    then have "t_state (k_tasks k3 ?p) = t_state (k_tasks k2 ?p)" using k3(2) by (simp add: exit_step_def)
    then show ?thesis using \<open>awake (k_tasks k2 ?p)\<close> st [OF P1(3)] by (simp add: awake_def)
  qed
  moreover have "t_exitcode (k_tasks k4 ?t) = code" using d3 f(1) by (simp add: dying_def)
  ultimately show ?thesis
    using k3(3-5) k4(3,5) run3(2) cs f(2,3) by (intro exI [of _ k4]) simp
qed

subsection \<open>SIGKILL kills\<close>

text \<open>
  C24: When \<^verbatim>\<open>SIGKILL\<close> is pending for the current task and no signal with a smaller number is to be delivered
  first, \<^verbatim>\<open>checksignal\<close> runs \<^verbatim>\<open>doexit\<close> to its end: the task is a zombie with exit code 9, another task has
  the processor, its children belong to init, and a parent that waits for a child is awake; no action can
  prevent it.  The state satisfies \<open>sig_inv\<close> (kept by the operations of C21; a forged \<^verbatim>\<open>sigreturn\<close> frame can break it), and
  the task is neither the idle task nor init nor the leader of its session (\<open>may_exit\<close>; for a leader
  see \<open>leader_exit_faults\<close>).
\<close>
theorem sigkill_ends_task:
  assumes "sig_inv k" "may_exit k"
    and "contain (t_sigset (curr_task k)) SIGKILL" "\<forall>n<8. \<not> bit (unmaskedsig (curr_task k)) n"
  shows "\<exists>k'. checksignal okw q r k = Some (DExit 9, k') \<and> sig_inv k' \<and> t_state (k_tasks k' (k_curr k)) = TZOMBIE \<and>
    t_exitcode (k_tasks k' (k_curr k)) = 9 \<and> k_curr k' \<noteq> k_curr k \<and>
    t_childq (k_tasks k' (k_curr k)) = [] \<and> (\<forall>c\<in>set (t_childq (curr_task k)). t_parent (k_tasks k' c) = k_inittask k) \<and>
    (t_flags (k_tasks k (t_parent (curr_task k))) AND TFWAITCHLDEXIT \<noteq> 0 \<longrightarrow> awake (k_tasks k' (t_parent (curr_task k))))"
proof -
  let ?a = "unmaskedsig (curr_task k)"
  have ok: "sig_ok (curr_task k)" using sig_inv_curr [OF assms(1)] by simp
  then have "contain ?a SIGKILL"
    using assms(3) by (simp add: unmaskedsig_def contain_sets(3) sig_ok_def sigset_invalid_iff)
  then have b: "bit ?a 8" by (simp add: contain_iff)
  have f: "bsf ?a = Some 8" using b assms(4) by (simp add: bsf_Some)
  obtain rest where d: "sigset_delfirst ?a = (9, rest)" using f by (simp add: sigset_delfirst_def)
  have ne: "?a \<noteq> 0" using b by auto
  let ?k1 = "curr_upd (\<lambda>t. t\<lparr>t_sigset := sigset_del 9 (t_sigset t)\<rparr>) k"
  have c1: "t_sigvec (curr_task ?k1) = t_sigvec (curr_task k)" "k_curr ?k1 = k_curr k" "k_inittask ?k1 = k_inittask k"
    "t_childq (curr_task ?k1) = t_childq (curr_task k)" "t_parent (curr_task ?k1) = t_parent (curr_task k)"
    by (simp_all add: curr_upd_def curr_task_def)
  have inv1: "sig_inv ?k1" by (rule sig_inv_curr_upd [OF assms(1)]) (simp_all add: sig_ok_def)
  have m1: "may_exit ?k1" using assms(2) unfolding may_exit_def c1 by (auto simp: curr_upd_def task_session_def)
  have p1: "t_flags (k_tasks ?k1 u) = t_flags (k_tasks k u)" for u by (simp add: curr_upd_def)
  have g: "sigvec_get (t_sigvec (curr_task k)) 9 = Some (t_sigvec (curr_task k) ! 9)"
    using sig_inv_curr_vec [OF assms(1)] by (simp add: sigvec_get_def validsig_def NSIG_def)
  have fn: "sa_func (t_sigvec (curr_task k) ! 9) = SIGXDFL" using ok by (simp add: sig_ok_def)
  have t: "sigdflact ! 9 = Terminate" by (simp add: sigdflact_def)
  have n: "k_curr k \<noteq> k_inittask k" "k_curr k \<noteq> k_idletask k" using assms(2) by (simp_all add: may_exit_def)
  have "deliver_loop okw q r ?a k = map_option (Pair (DExit 9)) (doexit 9 ?k1)"
    using ne by (subst deliver_loop.simps) (simp add: d c1 g fn t n Let_def)
  with doexit_ok [OF inv1 m1, of 9] show ?thesis
    unfolding c1 p1 using n(2) by (auto simp: checksignal_def)
qed

text \<open>The shell of the example, running, with \<^verbatim>\<open>SIGKILL\<close> pending.\<close>

definition demo_killed :: kern where
  "demo_killed = task_upd 200 (\<lambda>x. x\<lparr>t_sigset := 0x100\<rparr>) demo_kern\<lparr>k_inittask := 100\<rparr>"

lemma demo_killed_inv: "sig_inv demo_killed"
proof -
  have "sig_inv (curr_upd (\<lambda>x. x\<lparr>t_sigset := 0x100\<rparr>) demo_kern)"
    by (rule sig_inv_curr_upd [OF demo_sig_inv]) (simp_all add: sig_ok_def)
  moreover have "curr_upd (\<lambda>x. x\<lparr>t_sigset := 0x100\<rparr>) demo_kern = task_upd 200 (\<lambda>x. x\<lparr>t_sigset := 0x100\<rparr>) demo_kern"
    by (simp add: curr_upd_def demo_kern_def)
  moreover have "sig_inv (k\<lparr>k_inittask := i\<rparr>) = sig_inv k" for k i
    by (simp add: sig_inv_def running_def sched_inv_def links_ok_def curr_task_def)
  ultimately show ?thesis by (simp add: demo_killed_def)
qed

theorem sigkill_ends_witness:
  "\<exists>k'. checksignal (\<lambda>_. True) 5 demo_regs demo_killed = Some (DExit 9, k') \<and> t_state (k_tasks k' 200) = TZOMBIE \<and>
    t_exitcode (k_tasks k' 200) = 9 \<and> k_curr k' \<noteq> 200 \<and> t_parent (k_tasks k' 300) = 100"
proof -
  have c: "curr_task demo_killed = demo_task\<lparr>t_pid := 1, t_parent := 100, t_childq := [300], t_pgrp := 1000,
      t_runlink := OnRun 0, t_sigset := 0x100\<rparr>" and e: "k_curr demo_killed = 200" "k_inittask demo_killed = 100"
    by (simp_all add: demo_killed_def demo_kern_def curr_task_def)
  have s: "contain (t_sigset (curr_task demo_killed)) SIGKILL"
    by (simp add: c contain_iff bit_numeral_rec)
  have p: "unmaskedsig (curr_task demo_killed) = push_bit 8 1" by (simp add: c unmaskedsig_def demo_task_def)
  have u: "\<forall>n<8. \<not> bit (unmaskedsig (curr_task demo_killed)) n" unfolding p bit_push_bit_iff by simp
  have "may_exit demo_killed"
    unfolding may_exit_def c e by (simp add: demo_killed_def demo_kern_def task_session_def)
  from sigkill_ends_task [OF demo_killed_inv this s u, of "\<lambda>_. True" 5 demo_regs] show ?thesis
    unfolding e c by auto
qed

subsection \<open>The exit of a session leader\<close>

text \<open>
  The exit of a session leader stops the kernel: \<^verbatim>\<open>doexit\<close> disposes the \<^verbatim>\<open>sigvec\<close> of the task and
  then posts \<^verbatim>\<open>SIGHUP\<close> to every task of the session, the leader itself included, which is not a zombie yet;
  \<^verbatim>\<open>post\<close> reads the signal's action through the \<^verbatim>\<open>NULL\<close> pointer.
\<close>
theorem leader_exit_faults:
  assumes "jobs_ok k" "t_state (curr_task k) = TRUN" "leader (k_curr k) k"
    and "k_curr k \<noteq> k_idletask k" "k_curr k \<noteq> k_inittask k"
  shows "doexit code k = None"
proof -
  let ?t = "k_curr k"
  let ?g = "t_pgrp (k_tasks k ?t)"
  let ?s = "g_session (k_pgrps k ?g)"
  define k1 where "k1 = curr_upd (\<lambda>t. t\<lparr>t_exitcode := code, t_sigvec := []\<rparr>) k"
  define I :: "kern \<Rightarrow> bool" where "I x \<longleftrightarrow> k_pgrps x = k_pgrps k \<and> k_sessions x = k_sessions k \<and> k_curr x = k_curr k \<and>
    k_idletask x = k_idletask k \<and> k_inittask x = k_inittask k \<and> t_pgrp (k_tasks x ?t) = ?g \<and>
    t_sigvec (k_tasks x ?t) = [] \<and> t_state (k_tasks x ?t) = TRUN" for x
  have I1: "I k1" using assms(2) by (simp add: I_def k1_def curr_upd_def curr_task_def)
  have keep: "I x \<Longrightarrow> wframe ?t x y \<Longrightarrow> I y" for x y by (simp add: I_def wframe_def)
  have inv: "pg_inv k" "?t \<in> set (k_alltaskq k)" "?g \<noteq> 0" using assms(1) by (auto simp: jobs_ok_def)
  have mem: "?t \<in> set (g_taskq (k_pgrps k ?g))" using pg_inv_D(1) [OF inv(1) inv(3)] inv(2) by simp
  then have ne: "g_taskq (k_pgrps k ?g) \<noteq> []" by auto
  have grp: "?g \<in> set (s_pgrpq (k_sessions k ?s))"
    using pg_inv_D(2) [OF inv(1) pg_inv_D(3) [OF inv(1) ne]] ne by simp
  have dead: "post ?t SIGHUP x = None" if "I x" for x
    using that assms(4,5) by (simp add: I_def post_def sigvec_get_def validsig_def NSIG_def)
  have pkeep: "I x \<Longrightarrow> post u SIGHUP x = Some y \<Longrightarrow> I y" for u x y
    by (erule keep) (rule post_wframe)
  have taskq: "g_taskq (k_pgrps x h) = g_taskq (k_pgrps k h)" "s_pgrpq (k_sessions x h) = s_pgrpq (k_sessions k h)"
    if "I x" for x h using that by (simp_all add: I_def)
  have gdead: "pgrp_post ?g SIGHUP x = None" if "I x" for x
    unfolding pgrp_post_def taskq [OF that]
    by (rule foldM_None [where I = I and f = "\<lambda>t. post t SIGHUP", OF pkeep dead that mem])
  have gkeep: "I y" if "I x" "pgrp_post h SIGHUP x = Some y" for h x y
    by (rule foldM_keeps [where I = I and f = "\<lambda>t. post t SIGHUP", OF pkeep that(1) that(2) [unfolded pgrp_post_def]])
  have sdead: "session_post ?s SIGHUP x = None" if "I x" for x
    unfolding session_post_def taskq [OF that]
    by (rule foldM_None [where I = I and f = "\<lambda>g. pgrp_post g SIGHUP", OF gkeep gdead that grp])
  have reparent_keep: "I x \<Longrightarrow> reparent c x = Some y \<Longrightarrow> I y" for c x y
    by (erule keep) (rule reparent_wframe)
  have rkeep: "I y" if "I x" "foldM reparent cs x = Some y" for cs x y
    by (rule foldM_keeps [where I = I and f = reparent, OF reparent_keep that])
  show ?thesis
  proof (rule ccontr)
    assume "doexit code k \<noteq> None"
    then obtain k2 k3 where k2: "notify (t_parent (curr_task k1)) k1 = Some k2"
      and k3: "foldM reparent (t_childq (curr_task k2)) k2 = Some k3"
      and s: "(if s_leader (k_sessions k3 (task_session (k_curr k3) k3)) = k_curr k3
        then session_post (task_session (k_curr k3) k3) SIGHUP k3 else Some k3) \<noteq> None"
      by (auto simp: doexit_def Let_def k1_def [symmetric] bind_eq_Some_conv split: bind_splits)
    have "I k3" by (rule rkeep [OF keep [OF I1 notify_wframe [OF k2]] k3])
    then have "task_session (k_curr k3) k3 = ?s" "k_curr k3 = ?t" "s_leader (k_sessions k3 ?s) = ?t"
      using assms(3) by (auto simp: I_def task_session_def leader_def)
    with s sdead [OF \<open>I k3\<close>] show False by simp
  qed
qed

theorem leader_exit_witness: "doexit 0 (demo_kern\<lparr>k_curr := 300, k_tasks := (k_tasks demo_kern)
     (300 := (k_tasks demo_kern 300)\<lparr>t_state := TRUN\<rparr>)\<rparr>) = None" (is "doexit 0 ?k = None")
proof (rule leader_exit_faults)
  have "pg_inv ?k \<and> (\<forall>t\<in>set (k_alltaskq ?k). t_pgrp (k_tasks ?k t) \<noteq> 0)"
    using demo_jobs_ok by (auto simp: jobs_ok_def pg_inv_def pg_ok_def)
  then show "jobs_ok ?k"
    using demo_jobs_ok by (auto simp: jobs_ok_def) (simp add: demo_kern_def)
qed (simp_all add: demo_kern_def curr_task_def leader_def)

end
