(* ===== verification/Kern_Timer.thy ===== *)
theory Kern_Timer
  imports Prelude
begin

text \<open>
  One-shot timers (\<^verbatim>\<open>kern/timer.h\<close>, \<^verbatim>\<open>kern/timer.cc\<close>): a wheel of 512 slots for the timers that are
  close and one queue for the far ones, which the soft interrupt moves to the wheel each time it
  wraps around.  Queues are lists of timer addresses, and \<open>tm_link\<close> says in which queue a timer is
  (the chain pointers).  A call of a timer's function is an entry of \<open>w_log\<close>, followed by its effect
  on the wheel, the argument \<open>cb\<close>: functions start and stop timers.

  The theorems: a timer with a period below 512 fires at exactly the tick it should, whatever is started, stopped
  and restarted by others in between; a far timer does not, because the time since it was started is not accounted for when the wheel
  wraps around.
\<close>

datatype tm_place = Idle | Below nat | Above

record timer =
  tm_period :: int
  tm_func :: nat
  tm_data :: nat
  tm_lefttick :: int
  tm_starttick :: int
  tm_magic :: int
  tm_link :: tm_place

record wheel =
  w_timers :: "nat \<Rightarrow> timer"
  w_cur :: nat
  w_below :: "nat list list"
  w_above :: "nat list"
  w_passedtick :: int
  w_log :: "nat list"

definition NTICK :: nat where "NTICK = 512"
definition TIMER_MAGIC :: int where "TIMER_MAGIC = 0x3721748"

definition tm_upd :: "nat \<Rightarrow> (timer \<Rightarrow> timer) \<Rightarrow> wheel \<Rightarrow> wheel" where
  "tm_upd t f w = w\<lparr>w_timers := (w_timers w)(t := f (w_timers w t))\<rparr>"

definition timer_init :: "nat \<Rightarrow> int \<Rightarrow> nat \<Rightarrow> nat \<Rightarrow> wheel \<Rightarrow> wheel" where
  "timer_init t period func data w = tm_upd t (\<lambda>x. x\<lparr>tm_magic := TIMER_MAGIC, tm_link := Idle,
     tm_period := period, tm_func := func, tm_data := data\<rparr>) w"

definition tm_active :: "nat \<Rightarrow> wheel \<Rightarrow> bool" where
  "tm_active t w \<longleftrightarrow> tm_link (w_timers w t) \<noteq> Idle"

text \<open>\<^verbatim>\<open>(cur + lefttick) & (NTICK-1)\<close> on integers.\<close>

definition wheel_slot :: "nat \<Rightarrow> int \<Rightarrow> nat" where
  "wheel_slot cur lefttick = nat ((int cur + lefttick) mod 512)"

definition timer_insert :: "int \<Rightarrow> nat \<Rightarrow> wheel \<Rightarrow> wheel option" where
  "timer_insert lefttick t w = do {
     kassert (tm_link (w_timers w t) = Idle);
     let i = wheel_slot (w_cur w) lefttick;
     Some ((tm_upd t (\<lambda>x. x\<lparr>tm_link := Below i\<rparr>) w)\<lparr>w_below := (w_below w)[i := w_below w ! i @ [t]]\<rparr>) }"

definition timer_start :: "nat \<Rightarrow> wheel \<Rightarrow> wheel option" where
  "timer_start t w =
     (if tm_active t w then Some w
      else do {
        let w1 = tm_upd t (\<lambda>x. x\<lparr>tm_starttick := w_passedtick w, tm_lefttick := tm_period x\<rparr>) w;
        kassert (tm_period (w_timers w1 t) \<noteq> 0);
        if tm_lefttick (w_timers w1 t) < int NTICK then timer_insert (tm_lefttick (w_timers w1 t)) t w1
        else Some ((tm_upd t (\<lambda>x. x\<lparr>tm_link := Above\<rparr>) w1)\<lparr>w_above := w_above w1 @ [t]\<rparr>) })"

definition timer_unlink :: "nat \<Rightarrow> wheel \<Rightarrow> wheel option" where
  "timer_unlink t w = (case tm_link (w_timers w t) of
     Idle \<Rightarrow> None
   | Below i \<Rightarrow> Some ((tm_upd t (\<lambda>x. x\<lparr>tm_link := Idle\<rparr>) w)\<lparr>w_below := (w_below w)[i := remove1 t (w_below w ! i)]\<rparr>)
   | Above \<Rightarrow> Some ((tm_upd t (\<lambda>x. x\<lparr>tm_link := Idle\<rparr>) w)\<lparr>w_above := remove1 t (w_above w)\<rparr>))"

definition timer_stop :: "nat \<Rightarrow> wheel \<Rightarrow> wheel option" where
  "timer_stop t w = (if tm_active t w then timer_unlink t w else Some w)"

definition timer_start_period :: "nat \<Rightarrow> int \<Rightarrow> wheel \<Rightarrow> wheel option" where
  "timer_start_period t period w = timer_start t (tm_upd t (\<lambda>x. x\<lparr>tm_period := period\<rparr>) w)"

definition timer_restart :: "nat \<Rightarrow> wheel \<Rightarrow> wheel option" where
  "timer_restart t w = do { w1 \<leftarrow> timer_stop t w; timer_start t w1 }"

definition timer_restart_period :: "nat \<Rightarrow> int \<Rightarrow> wheel \<Rightarrow> wheel option" where
  "timer_restart_period t period w = do { w1 \<leftarrow> timer_stop t w; timer_start_period t period w1 }"

definition timer_ctor :: "nat \<Rightarrow> wheel \<Rightarrow> wheel" where
  "timer_ctor t w = tm_upd t (\<lambda>x. x\<lparr>tm_link := Idle, tm_magic := TIMER_MAGIC\<rparr>) w"

definition timer_dtor :: "nat \<Rightarrow> wheel \<Rightarrow> wheel option" where
  "timer_dtor t w = do { w1 \<leftarrow> timer_stop t w; Some (tm_upd t (\<lambda>x. x\<lparr>tm_magic := 0x3721dead\<rparr>) w1) }"

partial_function (option) expire_loop :: "(nat \<Rightarrow> wheel \<Rightarrow> wheel option) \<Rightarrow> wheel \<Rightarrow> wheel option" where
  "expire_loop cb w = (case w_below w ! w_cur w of
     [] \<Rightarrow> Some w
   | t # ts \<Rightarrow> Option.bind (timer_unlink t w) (\<lambda>w1.
       if tm_magic (w_timers w1 t) \<noteq> TIMER_MAGIC then None
       else Option.bind (cb t (w1\<lparr>w_log := w_log w1 @ [t]\<rparr>)) (\<lambda>w2. expire_loop cb w2)))"

definition move_near :: "nat \<Rightarrow> wheel \<Rightarrow> wheel option" where
  "move_near t w =
     (let w1 = tm_upd t (\<lambda>x. x\<lparr>tm_lefttick := tm_lefttick x - int NTICK\<rparr>) w in
      if tm_lefttick (w_timers w1 t) > int NTICK then Some w1
      else do { w2 \<leftarrow> timer_unlink t w1; timer_insert (tm_lefttick (w_timers w2 t)) t w2 })"

definition timersoftisr :: "(nat \<Rightarrow> wheel \<Rightarrow> wheel option) \<Rightarrow> wheel \<Rightarrow> wheel option" where
  "timersoftisr cb w = do {
     w1 \<leftarrow> expire_loop cb w;
     let w2 = w1\<lparr>w_cur := (w_cur w1 + 1) mod NTICK\<rparr>;
     if w_cur w2 \<noteq> 0 then Some w2 else foldM move_near (w_above w2) w2 }"

subsection \<open>The invariant\<close>

definition wheel_ok :: "wheel \<Rightarrow> bool" where
  "wheel_ok w \<longleftrightarrow> length (w_below w) = 512 \<and> w_cur w < 512 \<and> distinct (w_above w) \<and>
     (\<forall>i<512. distinct (w_below w ! i)) \<and>
     (\<forall>t i. i < 512 \<longrightarrow> (t \<in> set (w_below w ! i) \<longleftrightarrow> tm_link (w_timers w t) = Below i)) \<and>
     (\<forall>t i. tm_link (w_timers w t) = Below i \<longrightarrow> i < 512) \<and>
     (\<forall>t. t \<in> set (w_above w) \<longleftrightarrow> tm_link (w_timers w t) = Above) \<and>
     (\<forall>t. tm_link (w_timers w t) \<noteq> Idle \<longrightarrow> tm_magic (w_timers w t) = TIMER_MAGIC \<and> 0 < tm_period (w_timers w t))"

lemma tm_upd_simps [simp]:
  "w_timers (tm_upd t f w) u = (if u = t then f (w_timers w t) else w_timers w u)"
  "w_cur (tm_upd t f w) = w_cur w" "w_below (tm_upd t f w) = w_below w" "w_above (tm_upd t f w) = w_above w"
  "w_passedtick (tm_upd t f w) = w_passedtick w" "w_log (tm_upd t f w) = w_log w"
  by (simp_all add: tm_upd_def)

lemma wheel_okD:
  assumes "wheel_ok w"
  shows "length (w_below w) = 512" "w_cur w < 512" "distinct (w_above w)"
    "i < 512 \<Longrightarrow> distinct (w_below w ! i)"
    "i < 512 \<Longrightarrow> t \<in> set (w_below w ! i) \<longleftrightarrow> tm_link (w_timers w t) = Below i"
    "tm_link (w_timers w t) = Below i \<Longrightarrow> i < 512"
    "t \<in> set (w_above w) \<longleftrightarrow> tm_link (w_timers w t) = Above"
    "tm_link (w_timers w t) \<noteq> Idle \<Longrightarrow> tm_magic (w_timers w t) = TIMER_MAGIC"
    "tm_link (w_timers w t) \<noteq> Idle \<Longrightarrow> 0 < tm_period (w_timers w t)"
  using assms unfolding wheel_ok_def by auto

lemma wheel_slot_less [simp]: "wheel_slot c p < 512"
  by (simp add: wheel_slot_def nat_less_iff)

lemma wheel_ok_cur: "wheel_ok w \<Longrightarrow> wheel_ok (w\<lparr>w_cur := (w_cur w + 1) mod NTICK\<rparr>)"
  unfolding wheel_ok_def by (simp add: NTICK_def)

lemma wheel_ok_log [simp]: "wheel_ok (w\<lparr>w_log := l\<rparr>) = wheel_ok w"
  by (simp add: wheel_ok_def)

lemma wheel_ok_upd:
  assumes "wheel_ok w" "tm_link (f (w_timers w t)) = tm_link (w_timers w t)" "tm_magic (f (w_timers w t)) = tm_magic (w_timers w t)"
    "tm_period (f (w_timers w t)) = tm_period (w_timers w t) \<or> 0 < tm_period (f (w_timers w t))"
  shows "wheel_ok (tm_upd t f w)"
  using assms unfolding wheel_ok_def by auto

lemma wheel_ok_idle:
  assumes "wheel_ok w" "tm_link (w_timers w t) = Idle" "tm_link (f (w_timers w t)) = Idle"
  shows "wheel_ok (tm_upd t f w)"
  using assms unfolding wheel_ok_def by auto

lemma insert_ok:
  assumes ok: "wheel_ok w" and "tm_link (w_timers w t) = Idle" "tm_magic (w_timers w t) = TIMER_MAGIC"
    "0 < tm_period (w_timers w t)"
  obtains w' where "timer_insert p t w = Some w'" "wheel_ok w'" "w_cur w' = w_cur w" "w_log w' = w_log w"
    "w_above w' = w_above w"
    "w_timers w' = (w_timers w)(t := (w_timers w t)\<lparr>tm_link := Below (wheel_slot (w_cur w) p)\<rparr>)"
proof -
  let ?i = "wheel_slot (w_cur w) p"
  let ?w = "(tm_upd t (\<lambda>x. x\<lparr>tm_link := Below ?i\<rparr>) w)\<lparr>w_below := (w_below w)[?i := w_below w ! ?i @ [t]]\<rparr>"
  note d = wheel_okD [OF ok]
  have n: "t \<notin> set (w_below w ! ?i)" using d(5) [of ?i t] assms(2) by simp
  have "wheel_ok ?w"
    unfolding wheel_ok_def using d assms(2-4) n by (auto simp: nth_list_update)
  then show ?thesis
    using assms by (intro that [of ?w]) (auto simp: timer_insert_def Let_def fun_eq_iff)
qed

lemma unlink_ok:
  assumes ok: "wheel_ok w" and a: "tm_link (w_timers w t) \<noteq> Idle"
  obtains w' where "timer_unlink t w = Some w'" "wheel_ok w'" "w_cur w' = w_cur w" "w_log w' = w_log w"
    "w_timers w' = (w_timers w)(t := (w_timers w t)\<lparr>tm_link := Idle\<rparr>)"
    "\<And>i. w_below w' ! i = (if tm_link (w_timers w t) = Below i then remove1 t (w_below w ! i) else w_below w ! i)"
proof -
  note d = wheel_okD [OF ok]
  show ?thesis
  proof (cases "tm_link (w_timers w t)")
    case (Below i)
    let ?w = "(tm_upd t (\<lambda>x. x\<lparr>tm_link := Idle\<rparr>) w)\<lparr>w_below := (w_below w)[i := remove1 t (w_below w ! i)]\<rparr>"
    have i: "i < 512" using d(6) Below .
    have "wheel_ok ?w"
      unfolding wheel_ok_def using d(1-4) d(5-9) i Below by (auto simp: nth_list_update)
    then show ?thesis
      using Below i d(1) by (intro that [of ?w]) (auto simp: timer_unlink_def fun_eq_iff nth_list_update)
  next
    case Above
    let ?w = "(tm_upd t (\<lambda>x. x\<lparr>tm_link := Idle\<rparr>) w)\<lparr>w_above := remove1 t (w_above w)\<rparr>"
    have "wheel_ok ?w"
      unfolding wheel_ok_def using d(1-4) d(5-9) Above by auto
    then show ?thesis
      using Above by (intro that [of ?w]) (auto simp: timer_unlink_def fun_eq_iff)
  qed (use a in simp)
qed

lemma wheel_slot_nat: "0 \<le> p \<Longrightarrow> wheel_slot c p = (c + nat p) mod 512"
  by (simp add: wheel_slot_def nat_mod_distrib nat_add_distrib)

lemma mod512_neq: "n < p \<Longrightarrow> p < 512 \<Longrightarrow> (c + p) mod 512 \<noteq> (c + n) mod (512 :: nat)"
  using mod_eq_dvd_iff_nat [of "c + n" "c + p" 512] by (auto dest: dvd_imp_le)

lemma start_ok:
  assumes ok: "wheel_ok w" and "tm_link (w_timers w t) = Idle" "tm_magic (w_timers w t) = TIMER_MAGIC"
    "0 < tm_period (w_timers w t)"
  obtains w' where "timer_start t w = Some w'" "wheel_ok w'" "w_cur w' = w_cur w" "w_log w' = w_log w"
    "\<And>u. u \<noteq> t \<Longrightarrow> w_timers w' u = w_timers w u" "tm_period (w_timers w' t) = tm_period (w_timers w t)"
    "tm_link (w_timers w' t) =
       (if tm_period (w_timers w t) < 512 then Below (wheel_slot (w_cur w) (tm_period (w_timers w t))) else Above)"
    "w_below w' ! w_cur w = w_below w ! w_cur w"
proof -
  let ?p = "tm_period (w_timers w t)"
  define w1 where "w1 = tm_upd t (\<lambda>x. x\<lparr>tm_starttick := w_passedtick w, tm_lefttick := tm_period x\<rparr>) w"
  note d = wheel_okD [OF ok]
  have ok1: "wheel_ok w1" unfolding w1_def by (rule wheel_ok_upd [OF ok]) simp_all
  show ?thesis
  proof (cases "?p < 512")
    case True
    have "wheel_slot (w_cur w) ?p \<noteq> w_cur w"
      using mod512_neq [of 0 "nat ?p" "w_cur w"] True assms(4) d(2) by (simp add: wheel_slot_nat)
    moreover obtain w' where w': "timer_insert ?p t w1 = Some w'" "wheel_ok w'" "w_cur w' = w_cur w1" "w_log w' = w_log w1"
      "w_above w' = w_above w1" "w_timers w' = (w_timers w1)(t := (w_timers w1 t)\<lparr>tm_link := Below (wheel_slot (w_cur w1) ?p)\<rparr>)"
      using insert_ok [OF ok1, of t ?p] assms(2-4) by (auto simp: w1_def)
    moreover have "w_below w' = (w_below w1)[wheel_slot (w_cur w1) ?p := w_below w1 ! wheel_slot (w_cur w1) ?p @ [t]]"
      using w'(1) assms(2) by (auto simp: timer_insert_def w1_def Let_def)
    ultimately show ?thesis
      using assms True by (intro that [of w']) (auto simp: timer_start_def tm_active_def NTICK_def w1_def)
  next
    case False
    let ?w = "(tm_upd t (\<lambda>x. x\<lparr>tm_link := Above\<rparr>) w1)\<lparr>w_above := w_above w1 @ [t]\<rparr>"
    have "wheel_ok ?w"
      unfolding wheel_ok_def w1_def using d assms(2-4) by auto
    then show ?thesis
      using assms False
      by (intro that [of ?w]) (auto simp: timer_start_def tm_active_def NTICK_def w1_def Let_def)
  qed
qed

lemma move_near_ok:
  assumes ok: "wheel_ok w" and t: "tm_link (w_timers w t) = Above"
  obtains w' where "move_near t w = Some w'" "wheel_ok w'" "w_cur w' = w_cur w" "w_log w' = w_log w"
    "\<And>u. u \<noteq> t \<Longrightarrow> w_timers w' u = w_timers w u" "tm_period (w_timers w' t) = tm_period (w_timers w t)"
    "tm_lefttick (w_timers w t) \<le> 1024 \<Longrightarrow> tm_link (w_timers w' t) = Below (wheel_slot (w_cur w) (tm_lefttick (w_timers w t) - 512))"
proof -
  define w1 where "w1 = tm_upd t (\<lambda>x. x\<lparr>tm_lefttick := tm_lefttick x - int NTICK\<rparr>) w"
  have ok1: "wheel_ok w1" unfolding w1_def by (rule wheel_ok_upd [OF ok]) simp_all
  have t1: "tm_link (w_timers w1 t) = Above" using t by (simp add: w1_def)
  show ?thesis
  proof (cases "tm_lefttick (w_timers w1 t) > int NTICK")
    case True
    then show ?thesis using ok1 by (intro that [of w1]) (auto simp: move_near_def w1_def Let_def NTICK_def)
  next
    case False
    obtain w2 where w2: "timer_unlink t w1 = Some w2" "wheel_ok w2" "w_cur w2 = w_cur w1" "w_log w2 = w_log w1"
      "w_timers w2 = (w_timers w1)(t := (w_timers w1 t)\<lparr>tm_link := Idle\<rparr>)"
      using unlink_ok [OF ok1, of t] t1 by auto
    have m: "tm_magic (w_timers w2 t) = TIMER_MAGIC" "0 < tm_period (w_timers w2 t)"
      using wheel_okD(8,9) [OF ok1] t1 w2(5) by simp_all
    obtain w3 where "timer_insert (tm_lefttick (w_timers w2 t)) t w2 = Some w3" "wheel_ok w3" "w_cur w3 = w_cur w2"
      "w_log w3 = w_log w2" "w_timers w3 = (w_timers w2)(t := (w_timers w2 t)\<lparr>tm_link := Below (wheel_slot (w_cur w2) (tm_lefttick (w_timers w2 t)))\<rparr>)"
      using insert_ok [OF w2(2), of t "tm_lefttick (w_timers w2 t)"] m w2(5) by auto
    with w2 False show ?thesis
      by (intro that [of w3]) (auto simp: move_near_def w1_def Let_def NTICK_def)
  qed
qed

lemma move_near_all:
  assumes "wheel_ok w" "distinct ts" "\<forall>u\<in>set ts. tm_link (w_timers w u) = Above"
  shows "\<exists>w'. foldM move_near ts w = Some w' \<and> wheel_ok w' \<and> w_cur w' = w_cur w \<and> w_log w' = w_log w \<and>
    (\<forall>u. u \<notin> set ts \<longrightarrow> w_timers w' u = w_timers w u) \<and>
    (\<forall>u. tm_period (w_timers w' u) = tm_period (w_timers w u)) \<and>
    (\<forall>u\<in>set ts. tm_lefttick (w_timers w u) \<le> 1024 \<longrightarrow>
       tm_link (w_timers w' u) = Below (wheel_slot (w_cur w) (tm_lefttick (w_timers w u) - 512)))"
  using assms
proof (induction ts arbitrary: w)
  case (Cons t ts)
  from Cons.prems obtain w1 where w1: "move_near t w = Some w1" "wheel_ok w1" "w_cur w1 = w_cur w" "w_log w1 = w_log w"
    "\<And>u. u \<noteq> t \<Longrightarrow> w_timers w1 u = w_timers w u" "tm_period (w_timers w1 t) = tm_period (w_timers w t)"
    "tm_lefttick (w_timers w t) \<le> 1024 \<Longrightarrow> tm_link (w_timers w1 t) = Below (wheel_slot (w_cur w) (tm_lefttick (w_timers w t) - 512))"
    by (auto elim: move_near_ok)
  then have "\<forall>u. tm_period (w_timers w1 u) = tm_period (w_timers w u)" by metis
  moreover have "\<forall>u\<in>set ts. tm_link (w_timers w1 u) = Above" using w1(5) Cons.prems(2,3) by fastforce
  moreover from this Cons.prems(2) obtain w2 where w2: "foldM move_near ts w1 = Some w2" "wheel_ok w2" "w_cur w2 = w_cur w1"
    "w_log w2 = w_log w1" "\<forall>u. u \<notin> set ts \<longrightarrow> w_timers w2 u = w_timers w1 u"
    "\<forall>u. tm_period (w_timers w2 u) = tm_period (w_timers w1 u)"
    "\<forall>u\<in>set ts. tm_lefttick (w_timers w1 u) \<le> 1024 \<longrightarrow>
       tm_link (w_timers w2 u) = Below (wheel_slot (w_cur w1) (tm_lefttick (w_timers w1 u) - 512))"
    using Cons.IH [OF w1(2)] by auto
  moreover have "\<forall>u\<in>set ts. w_timers w1 u = w_timers w u" using w1(5) Cons.prems(2) by fastforce
  ultimately show ?case using Cons.prems(2) w1 by auto
qed simp

subsection \<open>What the rest of the kernel does to timers\<close>

text \<open>
  The uses of timers under \<^verbatim>\<open>src/\<close>: starting, stopping and restarting, with or without a new period, the setup of an
  inactive timer (\<^verbatim>\<open>sysalarm\<close>, \<^verbatim>\<open>waitq_t::waitsleep\<close> with a time out) and its destruction.
\<close>

definition alarm_setup :: "nat \<Rightarrow> int \<Rightarrow> nat \<Rightarrow> nat \<Rightarrow> wheel \<Rightarrow> wheel option" where
  "alarm_setup u p f d w = (if tm_active u w then Some w else timer_start u (timer_init u p f d w))"

datatype tm_op = TStart nat | TStartP nat int | TStop nat | TRestart nat | TRestartP nat int | TSetup nat int nat nat | TDtor nat

fun tm_of :: "tm_op \<Rightarrow> nat" where
  "tm_of (TStart u) = u" | "tm_of (TStartP u p) = u" | "tm_of (TStop u) = u" | "tm_of (TRestart u) = u"
| "tm_of (TRestartP u p) = u" | "tm_of (TSetup u p f d) = u" | "tm_of (TDtor u) = u"

fun tm_exec :: "tm_op \<Rightarrow> wheel \<Rightarrow> wheel option" where
  "tm_exec (TStart u) w = timer_start u w"
| "tm_exec (TStartP u p) w = timer_start_period u p w"
| "tm_exec (TStop u) w = timer_stop u w"
| "tm_exec (TRestart u) w = timer_restart u w"
| "tm_exec (TRestartP u p) w = timer_restart_period u p w"
| "tm_exec (TSetup u p f d) w = alarm_setup u p f d w"
| "tm_exec (TDtor u) w = timer_dtor u w"

text \<open>
  What \<^verbatim>\<open>timer_t\<close> asks of its users: only a timer that is constructed and not destroyed is started, and with a positive
  period (\<^verbatim>\<open>start\<close> asserts that it is not 0).
\<close>

fun legal :: "tm_op \<Rightarrow> wheel \<Rightarrow> bool" where
  "legal (TStart u) w \<longleftrightarrow> tm_magic (w_timers w u) = TIMER_MAGIC \<and> 0 < tm_period (w_timers w u)"
| "legal (TStartP u p) w \<longleftrightarrow> tm_magic (w_timers w u) = TIMER_MAGIC \<and> 0 < p"
| "legal (TRestart u) w \<longleftrightarrow> tm_magic (w_timers w u) = TIMER_MAGIC \<and> 0 < tm_period (w_timers w u)"
| "legal (TRestartP u p) w \<longleftrightarrow> tm_magic (w_timers w u) = TIMER_MAGIC \<and> 0 < p"
| "legal (TSetup u p f d) w \<longleftrightarrow> 0 < p"
| "legal (TStop u) w \<longleftrightarrow> True"
| "legal (TDtor u) w \<longleftrightarrow> True"

definition op_step :: "nat \<Rightarrow> wheel \<Rightarrow> wheel \<Rightarrow> bool" where
  "op_step u w w' \<longleftrightarrow> wheel_ok w' \<and> w_cur w' = w_cur w \<and> w_log w' = w_log w \<and>
     (\<forall>v. v \<noteq> u \<longrightarrow> w_timers w' v = w_timers w v) \<and> length (w_below w' ! w_cur w) \<le> length (w_below w ! w_cur w)"

lemma op_step_ok: "op_step u w w' \<Longrightarrow> wheel_ok w'"
  by (simp add: op_step_def)

lemma op_step_trans: "op_step u w w1 \<Longrightarrow> op_step u w1 w2 \<Longrightarrow> op_step u w w2"
  by (fastforce simp: op_step_def)

lemma start_step:
  assumes "wheel_ok w" "tm_magic (w_timers w u) = TIMER_MAGIC" "0 < tm_period (w_timers w u)"
  shows "\<exists>w'. timer_start u w = Some w' \<and> op_step u w w'"
proof (cases "tm_link (w_timers w u) = Idle")
  case False
  then show ?thesis using assms(1) by (auto simp: timer_start_def tm_active_def op_step_def)
next
  case True
  obtain w' where "timer_start u w = Some w'" "wheel_ok w'" "w_cur w' = w_cur w" "w_log w' = w_log w"
    "\<And>v. v \<noteq> u \<Longrightarrow> w_timers w' v = w_timers w v" "w_below w' ! w_cur w = w_below w ! w_cur w"
    by (rule start_ok [OF assms(1) True assms(2,3)]) blast
  then show ?thesis by (auto simp: op_step_def)
qed

lemma stop_step:
  assumes "wheel_ok w"
  shows "\<exists>w'. timer_stop u w = Some w' \<and> op_step u w w' \<and> w_timers w' u = (w_timers w u)\<lparr>tm_link := Idle\<rparr>"
proof (cases "tm_link (w_timers w u) = Idle")
  case True
  then have "(w_timers w u)\<lparr>tm_link := Idle\<rparr> = w_timers w u" by (cases "w_timers w u") simp
  with True show ?thesis using assms by (auto simp: timer_stop_def tm_active_def op_step_def)
next
  case False
  obtain w' where "timer_unlink u w = Some w'" "wheel_ok w'" "w_cur w' = w_cur w" "w_log w' = w_log w"
    "w_timers w' = (w_timers w)(u := (w_timers w u)\<lparr>tm_link := Idle\<rparr>)"
    "\<And>i. w_below w' ! i = (if tm_link (w_timers w u) = Below i then remove1 u (w_below w ! i) else w_below w ! i)"
    using unlink_ok [OF assms False] by metis
  then show ?thesis using False by (auto simp: timer_stop_def tm_active_def op_step_def length_remove1)
qed

lemma upd_step:
  assumes "wheel_ok w" "wheel_ok (tm_upd u f w)"
  shows "op_step u w (tm_upd u f w)"
  using assms by (simp add: op_step_def)

lemma period_step: "wheel_ok w \<Longrightarrow> 0 < p \<Longrightarrow> op_step u w (tm_upd u (\<lambda>x. x\<lparr>tm_period := p\<rparr>) w)"
  by (rule upd_step, assumption, rule wheel_ok_upd) simp_all

lemma startp_step:
  assumes "wheel_ok w" "tm_magic (w_timers w u) = TIMER_MAGIC" "0 < p"
  shows "\<exists>w'. timer_start_period u p w = Some w' \<and> op_step u w w'"
proof -
  let ?w = "tm_upd u (\<lambda>x. x\<lparr>tm_period := p\<rparr>) w"
  note w = period_step [OF assms(1,3), of u]
  obtain w' where "timer_start u ?w = Some w'" "op_step u ?w w'"
    using start_step [OF op_step_ok [OF w], of u] assms(2,3) by auto
  with op_step_trans [OF w] show ?thesis by (auto simp: timer_start_period_def)
qed

lemma op_ok:
  assumes "wheel_ok w" "legal x w"
  shows "\<exists>w'. tm_exec x w = Some w' \<and> op_step (tm_of x) w w'"
proof (cases x)
  case (TStart u)
  with assms show ?thesis using start_step [of w u] by simp
next
  case (TStartP u p)
  with assms show ?thesis using startp_step [of w u p] by simp
next
  case (TStop u)
  with assms show ?thesis using stop_step [of w u] by auto
next
  case (TRestart u)
  obtain w1 where w1: "timer_stop u w = Some w1" "op_step u w w1" "w_timers w1 u = (w_timers w u)\<lparr>tm_link := Idle\<rparr>"
    using stop_step [OF assms(1)] by metis
  obtain w2 where "timer_start u w1 = Some w2" "op_step u w1 w2"
    using start_step [OF op_step_ok [OF w1(2)], of u] assms(2) w1(3) TRestart by auto
  with TRestart w1(1) op_step_trans [OF w1(2)] show ?thesis by (simp add: timer_restart_def)
next
  case (TRestartP u p)
  obtain w1 where w1: "timer_stop u w = Some w1" "op_step u w w1" "w_timers w1 u = (w_timers w u)\<lparr>tm_link := Idle\<rparr>"
    using stop_step [OF assms(1)] by metis
  obtain w2 where "timer_start_period u p w1 = Some w2" "op_step u w1 w2"
    using startp_step [OF op_step_ok [OF w1(2)], of u p] assms(2) w1(3) TRestartP by auto
  with TRestartP w1(1) op_step_trans [OF w1(2)] show ?thesis by (simp add: timer_restart_period_def)
next
  case (TSetup u p f d)
  show ?thesis
  proof (cases "tm_link (w_timers w u) = Idle")
    case False
    with TSetup assms show ?thesis by (auto simp: alarm_setup_def tm_active_def op_step_def)
  next
    case True
    have ok: "wheel_ok (timer_init u p f d w)"
      unfolding timer_init_def by (rule wheel_ok_idle [OF assms(1) True]) simp
    then have "op_step u w (timer_init u p f d w)" unfolding timer_init_def by (rule upd_step [OF assms(1)])
    with TSetup True assms(2) start_step [OF ok, of u] show ?thesis
      by (auto simp: alarm_setup_def tm_active_def timer_init_def intro: op_step_trans)
  qed
next
  case (TDtor u)
  obtain w1 where w1: "timer_stop u w = Some w1" "op_step u w w1" "w_timers w1 u = (w_timers w u)\<lparr>tm_link := Idle\<rparr>"
    using stop_step [OF assms(1)] by metis
  have "wheel_ok (tm_upd u (\<lambda>x. x\<lparr>tm_magic := 0x3721dead\<rparr>) w1)"
    by (rule wheel_ok_idle) (use w1(2,3) in \<open>simp_all add: op_step_def\<close>)
  then have "op_step u w1 (tm_upd u (\<lambda>x. x\<lparr>tm_magic := 0x3721dead\<rparr>) w1)" using w1(2) by (intro upd_step) (simp_all add: op_step_def)
  with TDtor w1 op_step_trans [OF w1(2)] show ?thesis by (simp add: timer_dtor_def)
qed

subsection \<open>What a timer's function may do\<close>

text \<open>
  The soft interrupt calls functions it knows nothing of.  It relies on them to leave the wheel well
  formed and to add nothing to the slot being served; \<open>t\<close> is a timer only its own function touches.
\<close>

locale timer_funcs =
  fixes cb :: "nat \<Rightarrow> wheel \<Rightarrow> wheel option" and t :: nat
  assumes cb_returns: "\<lbrakk>wheel_ok w; tm_link (w_timers w u) = Idle; tm_magic (w_timers w u) = TIMER_MAGIC; 0 < tm_period (w_timers w u)\<rbrakk>
      \<Longrightarrow> \<exists>w'. cb u w = Some w' \<and> wheel_ok w' \<and> w_cur w' = w_cur w \<and> w_log w' = w_log w \<and>
            length (w_below w' ! w_cur w) \<le> length (w_below w ! w_cur w)"
    and cb_others: "\<lbrakk>wheel_ok w; tm_link (w_timers w u) = Idle; tm_magic (w_timers w u) = TIMER_MAGIC; 0 < tm_period (w_timers w u);
      cb u w = Some w'; u \<noteq> t\<rbrakk> \<Longrightarrow> w_timers w' t = w_timers w t"
begin

lemma expire_returns:
  assumes "wheel_ok w"
  shows "\<exists>w' l. expire_loop cb w = Some w' \<and> wheel_ok w' \<and> w_cur w' = w_cur w \<and>
    w_below w' ! w_cur w' = [] \<and> w_log w' = w_log w @ l \<and>
    (if tm_link (w_timers w t) = Below (w_cur w) then t \<in> set l
     else t \<notin> set l \<and> w_timers w' t = w_timers w t)"
  using assms
proof (induction "length (w_below w ! w_cur w)" arbitrary: w rule: less_induct)
  case less
  note d = wheel_okD [OF less.prems]
  show ?case
  proof (cases "w_below w ! w_cur w")
    case Nil
    then have "tm_link (w_timers w t) \<noteq> Below (w_cur w)" using d(5) [of "w_cur w" t] d(2) by auto
    then show ?thesis using less.prems Nil by (subst expire_loop.simps) simp
  next
    case (Cons u us)
    then have lu: "tm_link (w_timers w u) = Below (w_cur w)" using d(5) [of "w_cur w" u] d(2) by auto
    obtain w1 where w1: "timer_unlink u w = Some w1" "wheel_ok w1" "w_cur w1 = w_cur w" "w_log w1 = w_log w"
      "w_timers w1 = (w_timers w)(u := (w_timers w u)\<lparr>tm_link := Idle\<rparr>)"
      "\<And>i. w_below w1 ! i = (if tm_link (w_timers w u) = Below i then remove1 u (w_below w ! i) else w_below w ! i)"
      using unlink_ok [OF less.prems, of u] lu by (metis tm_place.distinct(1))
    let ?w1 = "w1\<lparr>w_log := w_log w1 @ [u]\<rparr>"
    have m: "tm_magic (w_timers w1 u) = TIMER_MAGIC" "0 < tm_period (w_timers w1 u)" using d(8,9) [of u] lu w1(5) by simp_all
    obtain w2 where w2: "cb u ?w1 = Some w2" "wheel_ok w2" "w_cur w2 = w_cur w" "w_log w2 = w_log w @ [u]"
      "length (w_below w2 ! w_cur w) \<le> length us"
      using cb_returns [of ?w1 u] w1 m Cons lu by auto
    have "length (w_below w2 ! w_cur w2) < length (w_below w ! w_cur w)" using w2(3,5) Cons by simp
    from less.hyps [OF this w2(2)] obtain w' l where w': "expire_loop cb w2 = Some w'" "wheel_ok w'"
      "w_cur w' = w_cur w2" "w_below w' ! w_cur w' = []" "w_log w' = w_log w2 @ l"
      "if tm_link (w_timers w2 t) = Below (w_cur w2) then t \<in> set l
       else t \<notin> set l \<and> w_timers w' t = w_timers w2 t" by auto
    have "expire_loop cb w = Some w'"
      using Cons w1(1) m w2(1) w'(1) by (subst expire_loop.simps) simp
    moreover have "u \<noteq> t \<Longrightarrow> w_timers w2 t = w_timers w t"
      using cb_others [of ?w1 u w2] w1 w2(1) m by simp
    ultimately show ?thesis
      using w' w2 lu by (intro exI [of _ w'] exI [of _ "u # l"], cases "u = t") (auto split: if_splits)
  qed
qed

lemma isr_returns:
  assumes "wheel_ok w"
  shows "\<exists>w' l. timersoftisr cb w = Some w' \<and> wheel_ok w' \<and> w_cur w' = (w_cur w + 1) mod 512 \<and>
    w_log w' = w_log w @ l \<and>
    (\<forall>i. tm_link (w_timers w t) = Below i \<longrightarrow>
       (if i = w_cur w then t \<in> set l else t \<notin> set l \<and> tm_link (w_timers w' t) = Below i)) \<and>
    (tm_link (w_timers w t) = Above \<and> w_cur w = 511 \<and> tm_lefttick (w_timers w t) \<le> 1024 \<longrightarrow>
       t \<notin> set l \<and> tm_link (w_timers w' t) = Below (wheel_slot 0 (tm_lefttick (w_timers w t) - 512)))"
proof -
  obtain w1 l where w1: "expire_loop cb w = Some w1" "wheel_ok w1" "w_cur w1 = w_cur w"
    "w_log w1 = w_log w @ l"
    "if tm_link (w_timers w t) = Below (w_cur w) then t \<in> set l
     else t \<notin> set l \<and> w_timers w1 t = w_timers w t"
    using expire_returns [OF assms] by blast
  let ?w2 = "w1\<lparr>w_cur := (w_cur w1 + 1) mod NTICK\<rparr>"
  have ok2: "wheel_ok ?w2" by (rule wheel_ok_cur) (rule w1(2))
  show ?thesis
  proof (cases "w_cur ?w2 = 0")
    case False
    then have "timersoftisr cb w = Some ?w2" using w1(1) by (simp add: timersoftisr_def Let_def)
    moreover have "w_cur w \<noteq> 511" using False w1(3) by (auto simp: NTICK_def)
    ultimately show ?thesis
      using ok2 w1 by (intro exI [of _ ?w2] exI [of _ l]) (auto simp: NTICK_def split: if_splits)
  next
    case True
    have a: "\<forall>u\<in>set (w_above ?w2). tm_link (w_timers ?w2 u) = Above" using wheel_okD(7) [OF w1(2)] by simp
    obtain w3 where w3: "foldM move_near (w_above ?w2) ?w2 = Some w3" "wheel_ok w3" "w_cur w3 = w_cur ?w2"
      "w_log w3 = w_log ?w2" "\<forall>u. u \<notin> set (w_above ?w2) \<longrightarrow> w_timers w3 u = w_timers ?w2 u"
      "\<forall>u. tm_period (w_timers w3 u) = tm_period (w_timers ?w2 u)"
      "\<forall>u\<in>set (w_above ?w2). tm_lefttick (w_timers ?w2 u) \<le> 1024 \<longrightarrow>
         tm_link (w_timers w3 u) = Below (wheel_slot (w_cur ?w2) (tm_lefttick (w_timers ?w2 u) - 512))"
      using move_near_all [OF ok2 wheel_okD(3) [OF ok2] a] by blast
    have "timersoftisr cb w = Some w3" using w1(1) w3(1) True by (simp add: timersoftisr_def Let_def)
    moreover have "tm_link (w_timers w1 t) = Below i \<Longrightarrow> w_timers w3 t = w_timers w1 t" for i
      using w3(5) wheel_okD(7) [OF w1(2), of t] by simp
    moreover have "tm_link (w_timers w1 t) = Above \<Longrightarrow> t \<in> set (w_above ?w2)"
      using wheel_okD(7) [OF w1(2), of t] by simp
    ultimately show ?thesis
      using w3 w1 True by (intro exI [of _ w3] exI [of _ l]) (auto simp: NTICK_def split: if_splits)
  qed
qed

end

subsection \<open>Ticks and what happens between them\<close>

datatype tm_event = Tick | Op tm_op

fun run_event :: "(nat \<Rightarrow> wheel \<Rightarrow> wheel option) \<Rightarrow> tm_event \<Rightarrow> wheel \<Rightarrow> wheel option" where
  "run_event cb Tick w = timersoftisr cb w"
| "run_event cb (Op x) w = tm_exec x w"

text \<open>Every operation of the sequence is legal in the state in which it is done.\<close>

primrec legal_trace :: "('e \<Rightarrow> wheel \<Rightarrow> bool) \<Rightarrow> ('e \<Rightarrow> wheel \<Rightarrow> wheel option) \<Rightarrow> 'e list \<Rightarrow> wheel \<Rightarrow> bool" where
  "legal_trace ok run [] w = True"
| "legal_trace ok run (x # xs) w \<longleftrightarrow> ok x w \<and> (case run x w of None \<Rightarrow> True | Some w' \<Rightarrow> legal_trace ok run xs w')"

fun legal_event :: "tm_event \<Rightarrow> wheel \<Rightarrow> bool" where
  "legal_event Tick w = True"
| "legal_event (Op x) w = legal x w"

definition ticks :: "tm_event list \<Rightarrow> nat" where
  "ticks evs = length (filter ((=) Tick) evs)"

lemma ticks_simps [simp]: "ticks [] = 0" "ticks (Tick # evs) = Suc (ticks evs)" "ticks (Op x # evs) = ticks evs"
  by (simp_all add: ticks_def)

context timer_funcs
begin

lemma pending_until:
  assumes "wheel_ok w" "legal_trace legal_event (run_event cb) evs w" "\<forall>x. Op x \<in> set evs \<longrightarrow> tm_of x \<noteq> t"
    "tm_link (w_timers w t) = Below ((w_cur w + n) mod 512)" "ticks evs \<le> n" "n < 512"
  shows "\<exists>w' l. foldM (run_event cb) evs w = Some w' \<and> wheel_ok w' \<and> w_log w' = w_log w @ l \<and> t \<notin> set l \<and>
    tm_link (w_timers w' t) = Below ((w_cur w' + (n - ticks evs)) mod 512)"
  using assms
proof (induction evs arbitrary: w n)
  case (Cons e evs)
  show ?case
  proof (cases e)
    case (Op x)
    obtain w1 where w1: "tm_exec x w = Some w1" "op_step (tm_of x) w w1"
      using op_ok [of w x] Cons.prems(1,2) Op by auto
    then have f: "wheel_ok w1" "w_cur w1 = w_cur w" "w_log w1 = w_log w" "w_timers w1 t = w_timers w t"
      using Cons.prems(3) Op by (auto simp: op_step_def)
    with Cons.IH [of w1 n] Cons.prems w1(1) Op show ?thesis by auto
  next
    case Tick
    then have n: "0 < n" "n - 1 < 512" "ticks evs \<le> n - 1" using Cons.prems(5,6) by auto
    have slot: "(w_cur w + n) mod 512 \<noteq> w_cur w"
      using mod512_neq [of 0 n "w_cur w"] n(1) Cons.prems(6) wheel_okD(2) [OF Cons.prems(1)] by simp
    obtain w1 l where w1: "timersoftisr cb w = Some w1" "wheel_ok w1" "w_cur w1 = (w_cur w + 1) mod 512" "w_log w1 = w_log w @ l"
      "t \<notin> set l" "tm_link (w_timers w1 t) = Below ((w_cur w + n) mod 512)"
      using isr_returns [OF Cons.prems(1)] Cons.prems(4) slot by fastforce
    have "(w_cur w1 + (n - 1)) mod 512 = (w_cur w + n) mod 512"
      using n(1) w1(3) by (cases n) (simp_all add: mod_add_left_eq)
    then obtain w2 l2 where "foldM (run_event cb) evs w1 = Some w2" "wheel_ok w2" "w_log w2 = w_log w1 @ l2" "t \<notin> set l2"
      "tm_link (w_timers w2 t) = Below ((w_cur w2 + (n - 1 - ticks evs)) mod 512)"
      using Cons.IH [OF w1(2), of "n - 1"] Cons.prems(2,3) w1(1,6) n Tick by auto
    with w1 Tick show ?thesis by (intro exI [of _ w2] exI [of _ "l @ l2"]) simp
  qed
qed simp

lemma fires_at:
  assumes "wheel_ok w" "legal_trace legal_event (run_event cb) evs w" "\<forall>x. Op x \<in> set evs \<longrightarrow> tm_of x \<noteq> t"
    "tm_link (w_timers w t) = Below ((w_cur w + ticks evs) mod 512)" "ticks evs < 512"
  shows "\<exists>w1 l1 w2 l2. foldM (run_event cb) evs w = Some w1 \<and> w_log w1 = w_log w @ l1 \<and> t \<notin> set l1 \<and>
    timersoftisr cb w1 = Some w2 \<and> w_log w2 = w_log w1 @ l2 \<and> t \<in> set l2"
proof -
  obtain w1 l1 where w1: "foldM (run_event cb) evs w = Some w1" "wheel_ok w1" "w_log w1 = w_log w @ l1" "t \<notin> set l1"
    "tm_link (w_timers w1 t) = Below (w_cur w1 mod 512)"
    using pending_until [OF assms(1-4) order_refl assms(5)] by auto
  then show ?thesis using isr_returns [OF w1(2)] wheel_okD(2) [OF w1(2)] by fastforce
qed

lemma far_fires_at:
  assumes "wheel_ok w" "tm_link (w_timers w t) = Above" "w_cur w = 511" "tm_lefttick (w_timers w t) = 512 + int (ticks evs)"
    "ticks evs < 512" "legal_trace legal_event (run_event cb) (Tick # evs) w" "\<forall>x. Op x \<in> set evs \<longrightarrow> tm_of x \<noteq> t"
  shows "\<exists>w1 l1 w2 l2. foldM (run_event cb) (Tick # evs) w = Some w1 \<and> w_log w1 = w_log w @ l1 \<and> t \<notin> set l1 \<and>
    timersoftisr cb w1 = Some w2 \<and> w_log w2 = w_log w1 @ l2 \<and> t \<in> set l2"
proof -
  obtain wa l where wa: "timersoftisr cb w = Some wa" "wheel_ok wa" "w_cur wa = 0" "w_log wa = w_log w @ l"
    "t \<notin> set l" "tm_link (w_timers wa t) = Below (wheel_slot 0 (int (ticks evs)))"
    using isr_returns [OF assms(1)] assms(2-5) by auto
  obtain w1 l1 w2 l2 where "foldM (run_event cb) evs wa = Some w1" "w_log w1 = w_log wa @ l1" "t \<notin> set l1"
    "timersoftisr cb w1 = Some w2" "w_log w2 = w_log w1 @ l2" "t \<in> set l2"
    using fires_at [OF wa(2), of evs] wa(1,3,6) assms(5-7) by (auto simp: wheel_slot_nat)
  with wa show ?thesis
    by (intro exI [of _ w1] exI [of _ "l @ l1"] exI [of _ w2] exI [of _ l2]) simp
qed

end

subsection \<open>The functions of the kernel's timers\<close>

text \<open>
  What a function does to the wheel is a list of timer operations that depends on the timer and on the state.
  The functions that wake a task up (\<^verbatim>\<open>alarm\<close>, \<^verbatim>\<open>kern/lock.cc\<close>), post a signal (\<^verbatim>\<open>sigalarm\<close>, \<^verbatim>\<open>kern/sched.cc\<close>) or switch
  the beeper off (\<^verbatim>\<open>sysbeepstop\<close>, \<^verbatim>\<open>dev/chr/condev.cc\<close>) do none; the retransmission of \<^verbatim>\<open>tcpsock_t\<close> restarts its own timer,
  unless it gives up (\<open>again\<close>).
\<close>

definition tm_script :: "(nat \<Rightarrow> wheel \<Rightarrow> tm_op list) \<Rightarrow> nat \<Rightarrow> wheel \<Rightarrow> wheel option" where
  "tm_script script u w = foldM tm_exec (script u w) w"

definition wake_ops :: "nat \<Rightarrow> wheel \<Rightarrow> tm_op list" where
  "wake_ops u w = []"

definition rexmit_ops :: "(nat \<Rightarrow> wheel \<Rightarrow> bool) \<Rightarrow> (nat \<Rightarrow> int) \<Rightarrow> nat \<Rightarrow> wheel \<Rightarrow> tm_op list" where
  "rexmit_ops again rto u w = (if again u w then [TRestartP u (rto u)] else [])"

text \<open>The functions use timers legally, and only \<open>t\<close>'s own touches \<open>t\<close>.\<close>

definition script_ok :: "nat \<Rightarrow> (nat \<Rightarrow> wheel \<Rightarrow> tm_op list) \<Rightarrow> bool" where
  "script_ok t script \<longleftrightarrow> (\<forall>u w. wheel_ok w \<and> tm_link (w_timers w u) = Idle \<and> tm_magic (w_timers w u) = TIMER_MAGIC \<and>
       0 < tm_period (w_timers w u) \<longrightarrow>
     legal_trace legal tm_exec (script u w) w \<and> (u \<noteq> t \<longrightarrow> (\<forall>x\<in>set (script u w). tm_of x \<noteq> t)))"

lemma ops_ok:
  "wheel_ok w \<Longrightarrow> legal_trace legal tm_exec xs w \<Longrightarrow> \<exists>w'. foldM tm_exec xs w = Some w' \<and> wheel_ok w' \<and> w_cur w' = w_cur w \<and>
    w_log w' = w_log w \<and> length (w_below w' ! w_cur w) \<le> length (w_below w ! w_cur w) \<and>
    (\<forall>t. (\<forall>x\<in>set xs. tm_of x \<noteq> t) \<longrightarrow> w_timers w' t = w_timers w t)"
proof (induction xs arbitrary: w)
  case (Cons x xs)
  obtain w1 where w1: "tm_exec x w = Some w1" "op_step (tm_of x) w w1" using op_ok [of w x] Cons.prems by auto
  then have "wheel_ok w1" "legal_trace legal tm_exec xs w1" using Cons.prems(2) by (auto simp: op_step_def)
  from Cons.IH [OF this] w1 show ?case by (fastforce simp: op_step_def)
qed simp

lemma script_funcs:
  assumes "script_ok t script"
  shows "timer_funcs (tm_script script) t"
proof
  fix w u
  assume a: "wheel_ok w" "tm_link (w_timers w u) = Idle" "tm_magic (w_timers w u) = TIMER_MAGIC" "0 < tm_period (w_timers w u)"
  then have l: "legal_trace legal tm_exec (script u w) w" "u \<noteq> t \<Longrightarrow> \<forall>x\<in>set (script u w). tm_of x \<noteq> t"
    using assms by (auto simp: script_ok_def)
  note o = ops_ok [OF a(1) l(1)]
  from o show "\<exists>w'. tm_script script u w = Some w' \<and> wheel_ok w' \<and> w_cur w' = w_cur w \<and> w_log w' = w_log w \<and>
      length (w_below w' ! w_cur w) \<le> length (w_below w ! w_cur w)"
    by (auto simp: tm_script_def)
  fix w' assume "tm_script script u w = Some w'" "u \<noteq> t"
  with o l(2) show "w_timers w' t = w_timers w t" by (auto simp: tm_script_def)
qed

lemma wake_ok: "script_ok t wake_ops"
  by (simp add: script_ok_def wake_ops_def)

lemma rexmit_ok: "(\<And>u. 0 < rto u) \<Longrightarrow> script_ok t (rexmit_ops again rto)"
  by (auto simp: script_ok_def rexmit_ops_def split: option.splits)

interpretation wake: timer_funcs "tm_script wake_ops" t for t
  by (rule script_funcs) (rule wake_ok)

interpretation rexmit: timer_funcs "tm_script (rexmit_ops again (\<lambda>u. int (Suc (rto u))))" t for again rto t
  by (rule script_funcs) (rule rexmit_ok, simp)

text \<open>
  C27: A timer whose period is below 512 ticks is on time.  Once started it is still pending after
  as many soft interrupts as its period says, and its function is called in the next one, whatever
  is done to other timers between the ticks and by their functions: starts, stops, restarts, setups, destructions, in any
  number and order, as long as only constructed timers are started, with positive periods (\<open>legal\<close>), and
  nothing but its own function touches the timer.
\<close>

theorem short_timer_on_time:
  assumes "wheel_ok w" "tm_link (w_timers w t) = Idle" "tm_period (w_timers w t) = p" "p < 512" "script_ok t script"
    and "legal_trace legal_event (run_event (tm_script script)) (Op (TStart t) # evs) w"
    and "\<forall>x. Op x \<in> set evs \<longrightarrow> tm_of x \<noteq> t" "int (ticks evs) = p"
  shows "\<exists>w1 l1 w2 l2. foldM (run_event (tm_script script)) (Op (TStart t) # evs) w = Some w1 \<and>
    w_log w1 = w_log w @ l1 \<and> t \<notin> set l1 \<and>
    timersoftisr (tm_script script) w1 = Some w2 \<and> w_log w2 = w_log w1 @ l2 \<and> t \<in> set l2"
proof -
  have l: "tm_magic (w_timers w t) = TIMER_MAGIC" "0 < p" using assms(3,6) by auto
  obtain w0 where w0: "timer_start t w = Some w0" "wheel_ok w0" "w_cur w0 = w_cur w" "w_log w0 = w_log w"
    "tm_link (w_timers w0 t) = Below (wheel_slot (w_cur w) p)"
    by (rule start_ok [OF assms(1,2) l(1)]) (use assms(3,4) l(2) in auto)
  have "wheel_slot (w_cur w) p = (w_cur w0 + ticks evs) mod 512"
    using assms(8) l(2) w0(3) by (auto simp: wheel_slot_nat)
  with timer_funcs.fires_at [OF script_funcs [OF assms(5)] w0(2), of evs] assms(4,6-8) w0 show ?thesis by auto
qed

text \<open>
  A far timer is not: started just before the wheel wraps around, its function is called
  511 ticks too early, because the first pass over the far queue takes 512 ticks off its time.
\<close>

theorem far_timer_early:
  assumes "wheel_ok w" "tm_link (w_timers w t) = Idle" "tm_period (w_timers w t) = p" "512 < p" "p < 1024" "w_cur w = 511"
    and "script_ok t script" "legal_trace legal_event (run_event (tm_script script)) (Op (TStart t) # Tick # evs) w"
    and "\<forall>x. Op x \<in> set evs \<longrightarrow> tm_of x \<noteq> t" "int (ticks (Tick # evs)) = p - 511"
  shows "\<exists>w1 w2 l2. foldM (run_event (tm_script script)) (Op (TStart t) # Tick # evs) w = Some w1 \<and>
    timersoftisr (tm_script script) w1 = Some w2 \<and> w_log w2 = w_log w1 @ l2 \<and> t \<in> set l2"
proof -
  have l: "tm_magic (w_timers w t) = TIMER_MAGIC" using assms(8) by auto
  obtain w0 where w0: "timer_start t w = Some w0" "wheel_ok w0" "w_cur w0 = w_cur w"
    "tm_link (w_timers w0 t) = Above"
    by (rule start_ok [OF assms(1,2) l]) (use assms(3-5) in auto)
  have "tm_lefttick (w_timers w0 t) = p" using w0(1) assms(2,3,4) by (auto simp: timer_start_def tm_active_def Let_def NTICK_def)
  then have "tm_lefttick (w_timers w0 t) = 512 + int (ticks evs)" "ticks evs < 512" using assms(5,10) by auto
  with timer_funcs.far_fires_at [OF script_funcs [OF assms(7)] w0(2,4), of evs] assms(6,8,9) w0(1,3) show ?thesis by auto
qed

definition demo_wheel :: "nat \<Rightarrow> wheel" where
  "demo_wheel c = \<lparr>w_timers = (\<lambda>t. \<lparr>tm_period = if t = 0 then 2 else 600, tm_func = 0, tm_data = 0, tm_lefttick = 0,
     tm_starttick = 0, tm_magic = TIMER_MAGIC, tm_link = Idle\<rparr>), w_cur = c, w_below = replicate 512 [],
     w_above = [], w_passedtick = 0, w_log = []\<rparr>"

lemma demo_wheel_ok: "c < 512 \<Longrightarrow> wheel_ok (demo_wheel c)"
  by (auto simp: wheel_ok_def demo_wheel_def)

lemma demo_rexmit: "script_ok t (rexmit_ops (\<lambda>_ _. True) (\<lambda>_. 8))"
  by (rule rexmit_ok) simp

theorem short_timer_witness:
  "\<exists>w1 l1 w2 l2. foldM (run_event (tm_script (rexmit_ops (\<lambda>_ _. True) (\<lambda>_. 8))))
      [Op (TStart 0), Op (TSetup 1 5 0 0), Tick, Op (TStop 1), Op (TSetup 2 3 0 0), Tick, Op (TDtor 2)] (demo_wheel 510) = Some w1 \<and>
    w_log w1 = [] @ l1 \<and> 0 \<notin> set l1 \<and>
    timersoftisr (tm_script (rexmit_ops (\<lambda>_ _. True) (\<lambda>_. 8))) w1 = Some w2 \<and> w_log w2 = w_log w1 @ l2 \<and> 0 \<in> set l2"
proof -
  let ?cb = "tm_script (rexmit_ops (\<lambda>_ _. True) (\<lambda>_. 8))"
  let ?evs = "[Op (TSetup 1 5 0 0), Tick, Op (TStop 1), Op (TSetup 2 3 0 0), Tick, Op (TDtor 2)]"
  have "legal_trace legal_event (run_event ?cb) (Op (TStart 0) # ?evs) (demo_wheel 510)"
    by (simp add: demo_wheel_def del: run_event.simps split: option.split)
  moreover have "\<forall>x. Op x \<in> set ?evs \<longrightarrow> tm_of x \<noteq> 0" "int (ticks ?evs) = 2" by auto
  moreover have "tm_link (w_timers (demo_wheel 510) 0) = Idle" "tm_period (w_timers (demo_wheel 510) 0) = 2" "w_log (demo_wheel 510) = []"
    by (simp_all add: demo_wheel_def)
  ultimately show ?thesis
    using short_timer_on_time [OF demo_wheel_ok [of 510], of 0 2 "rexmit_ops (\<lambda>_ _. True) (\<lambda>_. 8)" ?evs] demo_rexmit
    by (simp del: foldM.simps run_event.simps legal_trace.simps)
qed

theorem far_timer_witness:
  "\<exists>w1 w2 l2. foldM (run_event (tm_script wake_ops)) (Op (TStart 1) # Tick # replicate 88 Tick) (demo_wheel 511) = Some w1 \<and>
    timersoftisr (tm_script wake_ops) w1 = Some w2 \<and> w_log w2 = w_log w1 @ l2 \<and> 1 \<in> set l2"
proof (rule far_timer_early [OF demo_wheel_ok [of 511], where p = 600])
  have "legal_trace legal_event (run_event cb) (replicate n Tick) w" for cb n w
    by (induction n arbitrary: w) (simp_all del: run_event.simps split: option.split)
  then show "legal_trace legal_event (run_event (tm_script wake_ops)) (Op (TStart 1) # Tick # replicate 88 Tick) (demo_wheel 511)"
    by (simp add: demo_wheel_def del: run_event.simps split: option.split)
  have "ticks (replicate n Tick) = n" for n by (induction n) simp_all
  then show "int (ticks (Tick # replicate 88 Tick)) = 600 - 511" by simp
qed (auto simp: demo_wheel_def wake_ok)

end
