(* ===== verification/Kern_Lock.thy ===== *)
theory Kern_Lock
  imports Prelude
begin

text \<open>
  The locks of \<^verbatim>\<open>kern/lock.cc\<close> and \<^verbatim>\<open>kern/lock.h\<close>: \<^verbatim>\<open>lock_t\<close>, \<^verbatim>\<open>iolock_t\<close>, \<^verbatim>\<open>rwlock_t\<close>, \<^verbatim>\<open>sema_t\<close>.  The kernel is not preemptive, so a task runs
  until it sleeps: one pass through the loop of a locking routine is one step, which enters, panics, or puts the task at the
  tail of the wait queue; the next pass is possible when the task was woken up.  The wait queue is the list of sleeping
  tasks; \<^verbatim>\<open>signal\<close> wakes its head and \<^verbatim>\<open>broadcast\<close> all of them (\<open>Kern_Sched\<close>).  Which task runs next is left open, so that the
  theorems hold for every scheduling.
\<close>

subsection \<open>The locks\<close>

text \<open>One pass through the loop of a locking routine: \<open>Pass\<close> returns without holding the lock.\<close>

datatype 'l attempt = Enter 'l | Pass 'l | Sleep | Panic

datatype wake = WakeNone | WakeHead | WakeAll

record lock =
  lk_locked :: bool
  lk_owner :: "nat option"

definition lock_init :: lock where
  "lock_init = \<lparr>lk_locked = False, lk_owner = None\<rparr>"

definition lock_lock :: "nat \<Rightarrow> unit \<Rightarrow> lock \<Rightarrow> lock attempt" where
  "lock_lock t m l = (if lk_locked l then Sleep else Enter (l\<lparr>lk_locked := True, lk_owner := Some t\<rparr>))"

definition lock_unlock :: "unit \<Rightarrow> lock \<Rightarrow> (lock \<times> wake) option" where
  "lock_unlock m l = Some (l\<lparr>lk_locked := False, lk_owner := None\<rparr>, WakeAll)"

datatype iomode = IOLock | IOWait

record iolock =
  io_locked :: bool

definition iolock_init :: iolock where
  "iolock_init = \<lparr>io_locked = False\<rparr>"

definition iolock_lock :: "iolock \<Rightarrow> iolock attempt" where
  "iolock_lock l = (if io_locked l then Sleep else Enter (l\<lparr>io_locked := True\<rparr>))"

definition iolock_wait :: "iolock \<Rightarrow> iolock attempt" where
  "iolock_wait l = (if io_locked l then Sleep else Pass l)"

definition iolock_acquire :: "nat \<Rightarrow> iomode \<Rightarrow> iolock \<Rightarrow> iolock attempt" where
  "iolock_acquire t m l = (case m of IOLock \<Rightarrow> iolock_lock l | IOWait \<Rightarrow> iolock_wait l)"

definition iolock_unlock :: "iomode \<Rightarrow> iolock \<Rightarrow> (iolock \<times> wake) option" where
  "iolock_unlock m l = Some (l\<lparr>io_locked := False\<rparr>, WakeAll)"

datatype rwstate = FREE | READING | WRITING

datatype rwmode = Rd | Wr

record rwlock =
  rw_state :: rwstate
  rw_nreader :: int
  rw_owner :: "nat option"

definition rwlock_init :: rwlock where
  "rwlock_init = \<lparr>rw_state = FREE, rw_nreader = 0, rw_owner = None\<rparr>"

definition rlock :: "nat \<Rightarrow> rwlock \<Rightarrow> rwlock attempt" where
  "rlock t l = (if rw_state l = WRITING then Sleep
     else Enter (l\<lparr>rw_state := READING, rw_nreader := rw_nreader l + 1, rw_owner := Some t\<rparr>))"

definition wlock :: "nat \<Rightarrow> rwlock \<Rightarrow> rwlock attempt" where
  "wlock t l = (if rw_state l \<noteq> FREE then if rw_owner l = Some t then Panic else Sleep
     else Enter (l\<lparr>rw_state := WRITING, rw_owner := Some t\<rparr>))"

definition rwlock_acquire :: "nat \<Rightarrow> rwmode \<Rightarrow> rwlock \<Rightarrow> rwlock attempt" where
  "rwlock_acquire t m l = (case m of Rd \<Rightarrow> rlock t l | Wr \<Rightarrow> wlock t l)"

definition rwlock_unlock :: "rwmode \<Rightarrow> rwlock \<Rightarrow> (rwlock \<times> wake) option" where
  "rwlock_unlock m l = (case rw_state l of
       FREE \<Rightarrow> None
     | READING \<Rightarrow> let l1 = l\<lparr>rw_nreader := rw_nreader l - 1\<rparr> in
         if rw_nreader l1 > 0 then Some (l1, WakeNone) else Some (l1\<lparr>rw_state := FREE, rw_owner := None\<rparr>, WakeAll)
     | WRITING \<Rightarrow> Some (l\<lparr>rw_state := FREE, rw_owner := None\<rparr>, WakeAll))"

record sema =
  se_curcnt :: int
  se_maxcnt :: int

definition sema_init :: "int \<Rightarrow> sema" where
  "sema_init n = \<lparr>se_curcnt = n, se_maxcnt = n\<rparr>"

definition sema_wouldblock :: "nat \<Rightarrow> sema \<Rightarrow> bool" where
  "sema_wouldblock n l \<longleftrightarrow> se_curcnt l - int n < 0"

definition sema_down :: "nat \<Rightarrow> nat \<Rightarrow> sema \<Rightarrow> sema attempt" where
  "sema_down t n l = (if \<not> int n \<le> se_maxcnt l then Panic
     else if se_curcnt l - int n < 0 then Sleep else Enter (l\<lparr>se_curcnt := se_curcnt l - int n\<rparr>))"

definition sema_up :: "nat \<Rightarrow> sema \<Rightarrow> (sema \<times> wake) option" where
  "sema_up n l = (if \<not> se_curcnt l + int n \<le> se_maxcnt l then None
     else let l1 = l\<lparr>se_curcnt := se_curcnt l + int n\<rparr> in
       Some (l1, if se_curcnt l1 > 0 then if n = 1 then WakeHead else WakeAll else WakeNone))"

subsection \<open>Tasks around a lock\<close>

datatype 'm phase = Idle | Wants 'm | Holds 'm

record ('l, 'm) lsys =
  ls_lock :: 'l
  ls_phase :: "nat \<Rightarrow> 'm phase"
  ls_waitq :: "nat list"

definition ls_init :: "'l \<Rightarrow> ('l, 'm) lsys" where
  "ls_init l = \<lparr>ls_lock = l, ls_phase = (\<lambda>_. Idle), ls_waitq = []\<rparr>"

type_synonym ('l, 'm) acquire = "nat \<Rightarrow> 'm \<Rightarrow> 'l \<Rightarrow> 'l attempt"
type_synonym ('l, 'm) release = "'m \<Rightarrow> 'l \<Rightarrow> ('l \<times> wake) option"

definition attempt :: "('l, 'm) acquire \<Rightarrow> nat \<Rightarrow> 'm \<Rightarrow> ('l, 'm) lsys \<Rightarrow> ('l, 'm) lsys option" where
  "attempt acq t m s = (case acq t m (ls_lock s) of
       Enter l \<Rightarrow> Some (s\<lparr>ls_lock := l, ls_phase := (ls_phase s)(t := Holds m)\<rparr>)
     | Pass l \<Rightarrow> Some (s\<lparr>ls_lock := l, ls_phase := (ls_phase s)(t := Idle)\<rparr>)
     | Sleep \<Rightarrow> Some (s\<lparr>ls_phase := (ls_phase s)(t := Wants m), ls_waitq := ls_waitq s @ [t]\<rparr>)
     | Panic \<Rightarrow> None)"

definition ls_leave :: "('l, 'm) release \<Rightarrow> nat \<Rightarrow> 'm \<Rightarrow> ('l, 'm) lsys \<Rightarrow> ('l, 'm) lsys option" where
  "ls_leave rel t m s = do {
     (l, w) \<leftarrow> rel m (ls_lock s);
     Some (s\<lparr>ls_lock := l, ls_phase := (ls_phase s)(t := Idle),
       ls_waitq := (case w of WakeNone \<Rightarrow> ls_waitq s | WakeHead \<Rightarrow> tl (ls_waitq s) | WakeAll \<Rightarrow> [])\<rparr>) }"

datatype 'm lev = Ask nat 'm | Resume nat | Leave nat

text \<open>The steps of the tasks; \<open>None\<close> is the halted kernel.  A step that is not possible does nothing.\<close>

fun lstep :: "('l, 'm) acquire \<Rightarrow> ('l, 'm) release \<Rightarrow> 'm lev \<Rightarrow> ('l, 'm) lsys \<Rightarrow> ('l, 'm) lsys option" where
  "lstep acq rel (Ask t m) s = (if ls_phase s t = Idle then attempt acq t m s else Some s)"
| "lstep acq rel (Resume t) s = (case ls_phase s t of Wants m \<Rightarrow> if t \<in> set (ls_waitq s) then Some s else attempt acq t m s | _ \<Rightarrow> Some s)"
| "lstep acq rel (Leave t) s = (case ls_phase s t of Holds m \<Rightarrow> ls_leave rel t m s | _ \<Rightarrow> Some s)"

inductive lreach :: "('l, 'm) acquire \<Rightarrow> ('l, 'm) release \<Rightarrow> 'l \<Rightarrow> ('l, 'm) lsys \<Rightarrow> bool" for acq rel l0 where
  start: "lreach acq rel l0 (ls_init l0)"
| step: "lreach acq rel l0 s \<Longrightarrow> lstep acq rel ev s = Some s' \<Longrightarrow> lreach acq rel l0 s'"

definition lholders :: "(nat \<Rightarrow> 'm phase) \<Rightarrow> nat \<Rightarrow> 'm option" where
  "lholders p t = (case p t of Holds m \<Rightarrow> Some m | _ \<Rightarrow> None)"

lemma lholders_Some [simp]: "lholders p t = Some m \<longleftrightarrow> p t = Holds m"
  by (cases "p t") (simp_all add: lholders_def)

lemma lholders_upd [simp]:
  "lholders (p(t := Holds m)) = (lholders p)(t \<mapsto> m)"
  "lholders (p(t := Wants m)) = (lholders p)(t := None)"
  "lholders (p(t := Idle)) = (lholders p)(t := None)"
  by (auto simp: lholders_def fun_eq_iff)

lemma set_tl: "x \<in> set (tl xs) \<Longrightarrow> x \<in> set xs"
  by (cases xs) simp_all

subsection \<open>What a lock promises\<close>

text \<open>The state of the lock agrees with its holders.\<close>

locale held_lock =
  fixes acq :: "nat \<Rightarrow> 'm \<Rightarrow> 'l \<Rightarrow> 'l attempt" and rel :: "'m \<Rightarrow> 'l \<Rightarrow> ('l \<times> wake) option"
    and good :: "'l \<Rightarrow> (nat \<Rightarrow> 'm option) \<Rightarrow> bool"
  assumes enter_good: "good l H \<Longrightarrow> H t = None \<Longrightarrow> acq t m l = Enter l' \<Longrightarrow> good l' (H(t \<mapsto> m))"
    and pass_same: "acq t m l = Pass l' \<Longrightarrow> l' = l"
    and leave_good: "good l H \<Longrightarrow> H t = Some m \<Longrightarrow> \<exists>l' w. rel m l = Some (l', w) \<and> good l' (H(t := None))"
begin

definition sys_ok :: "('l, 'm) lsys \<Rightarrow> bool" where
  "sys_ok s \<longleftrightarrow> good (ls_lock s) (lholders (ls_phase s)) \<and> (\<forall>t\<in>set (ls_waitq s). \<exists>m. ls_phase s t = Wants m)"

lemma ls_attempt_ok:
  assumes "sys_ok s" "ls_phase s t = Idle \<or> ls_phase s t = Wants m'" "t \<notin> set (ls_waitq s)" "attempt acq t m s = Some s'"
  shows "sys_ok s'"
proof -
  have t: "lholders (ls_phase s) t = None" using assms(2) by (auto simp: lholders_def)
  then have same: "(lholders (ls_phase s))(t := None) = lholders (ls_phase s)" by (simp add: fun_upd_idem)
  have g: "good (ls_lock s) (lholders (ls_phase s))" using assms(1) by (simp add: sys_ok_def)
  show ?thesis
  proof (cases "acq t m (ls_lock s)")
    case (Enter l)
    then show ?thesis using assms enter_good [OF g t, of m l] by (auto simp: attempt_def sys_ok_def)
  next
    case (Pass l)
    then show ?thesis using assms same pass_same [of t m "ls_lock s" l] by (auto simp: attempt_def sys_ok_def)
  qed (use assms same in \<open>auto simp: attempt_def sys_ok_def\<close>)
qed

lemma ls_leave_ok:
  assumes "sys_ok s" "ls_phase s t = Holds m"
  obtains s' where "ls_leave rel t m s = Some s'" "sys_ok s'"
proof -
  obtain l w where r: "rel m (ls_lock s) = Some (l, w)" "good l ((lholders (ls_phase s))(t := None))"
    using leave_good [of "ls_lock s" "lholders (ls_phase s)" t m] assms by (auto simp: sys_ok_def)
  have "t \<notin> set (ls_waitq s)" using assms by (auto simp: sys_ok_def)
  then have "sys_ok (s\<lparr>ls_lock := l, ls_phase := (ls_phase s)(t := Idle),
       ls_waitq := (case w of WakeNone \<Rightarrow> ls_waitq s | WakeHead \<Rightarrow> tl (ls_waitq s) | WakeAll \<Rightarrow> [])\<rparr>)"
    using assms r(2) by (auto simp: sys_ok_def split: wake.split dest: set_tl)
  then show thesis using r(1) by (intro that) (simp_all add: ls_leave_def)
qed

lemma ls_step_ok:
  assumes "sys_ok s" "lstep acq rel ev s = Some s'"
  shows "sys_ok s'"
proof (cases ev)
  case (Ask t m)
  have "t \<notin> set (ls_waitq s)" if "ls_phase s t = Idle" using that assms(1) by (auto simp: sys_ok_def)
  then show ?thesis using Ask assms ls_attempt_ok [OF assms(1), of t m m] by (auto split: if_splits)
next
  case (Resume t)
  then show ?thesis using assms ls_attempt_ok [OF assms(1), of t] by (auto split: if_splits phase.splits)
next
  case (Leave t)
  show ?thesis
  proof (cases "ls_phase s t")
    case (Holds m)
    obtain s1 where "ls_leave rel t m s = Some s1" "sys_ok s1" by (rule ls_leave_ok [OF assms(1) Holds])
    then show ?thesis using Leave Holds assms(2) by simp
  qed (use Leave assms in simp_all)
qed

lemma ls_reach_ok:
  assumes "good l0 Map.empty" "lreach acq rel l0 s"
  shows "sys_ok s"
  using assms(2)
proof induction
  case start
  have "lholders (ls_phase (ls_init l0 :: ('l, 'm) lsys)) = Map.empty" by (simp add: fun_eq_iff lholders_def ls_init_def)
  then show ?case using assms(1) by (simp add: sys_ok_def) (simp add: ls_init_def)
next
  case (step s ev s')
  show ?case by (rule ls_step_ok [OF step.IH step.hyps(2)])
qed

end
text \<open>
  A lock that wakes its waiters whenever one of them could go on: entering never makes the lock more available, and
  leaving either wakes all or does not.
\<close>

locale wait_lock = held_lock acq rel good
  for acq :: "nat \<Rightarrow> 'm \<Rightarrow> 'l \<Rightarrow> 'l attempt" and rel :: "'m \<Rightarrow> 'l \<Rightarrow> ('l \<times> wake) option" and good :: "'l \<Rightarrow> (nat \<Rightarrow> 'm option) \<Rightarrow> bool" +
  assumes enter_blocks: "acq t m l = Enter l' \<Longrightarrow> acq t' m' l = Sleep \<Longrightarrow> t' \<noteq> t \<Longrightarrow> acq t' m' l' = Sleep"
    and leave_wakes: "good l H \<Longrightarrow> H t = Some m \<Longrightarrow> rel m l = Some (l', w) \<Longrightarrow>
      w = WakeAll \<or> w = WakeNone \<and> (\<forall>t' m'. t' \<noteq> t \<longrightarrow> acq t' m' l = Sleep \<longrightarrow> acq t' m' l' = Sleep)"
begin

definition no_lost :: "('l, 'm) lsys \<Rightarrow> bool" where
  "no_lost s \<longleftrightarrow> (\<forall>t m. t \<in> set (ls_waitq s) \<longrightarrow> ls_phase s t = Wants m \<longrightarrow> acq t m (ls_lock s) = Sleep)"

lemma attempt_no_lost:
  assumes "no_lost s" "t \<notin> set (ls_waitq s)" "attempt acq t m s = Some s'"
  shows "no_lost s'"
proof (cases "acq t m (ls_lock s)")
  case (Enter l)
  then show ?thesis using assms enter_blocks [OF Enter] by (auto simp: attempt_def no_lost_def split: if_splits)
next
  case (Pass l)
  then show ?thesis using assms pass_same [of t m "ls_lock s" l] by (auto simp: attempt_def no_lost_def split: if_splits)
qed (use assms in \<open>auto simp: attempt_def no_lost_def split: if_splits\<close>)

lemma leave_no_lost:
  assumes ok: "sys_ok s" and nl: "no_lost s" and h: "ls_phase s t = Holds m" and l: "ls_leave rel t m s = Some s'"
  shows "no_lost s'"
proof -
  have g: "good (ls_lock s) (lholders (ls_phase s))" "lholders (ls_phase s) t = Some m" using ok h by (simp_all add: sys_ok_def)
  obtain l' w where r: "rel m (ls_lock s) = Some (l', w)" using l by (cases "rel m (ls_lock s)") (auto simp: ls_leave_def)
  from leave_wakes [OF g r] show ?thesis
  proof
    assume "w = WakeAll"
    then show ?thesis using l r by (auto simp: ls_leave_def no_lost_def)
  next
    assume w: "w = WakeNone \<and> (\<forall>t' m'. t' \<noteq> t \<longrightarrow> acq t' m' (ls_lock s) = Sleep \<longrightarrow> acq t' m' l' = Sleep)"
    then have s': "s' = s\<lparr>ls_lock := l', ls_phase := (ls_phase s)(t := Idle)\<rparr>" using l r by (simp add: ls_leave_def)
    show ?thesis
      unfolding no_lost_def
    proof (intro allI impI)
      fix u n assume u: "u \<in> set (ls_waitq s')" "ls_phase s' u = Wants n"
      then have "u \<noteq> t" "ls_phase s u = Wants n" "u \<in> set (ls_waitq s)" by (auto simp: s' split: if_splits)
      then show "acq u n (ls_lock s') = Sleep" using nl w by (simp add: no_lost_def s')
    qed
  qed
qed

lemma step_no_lost:
  assumes "sys_ok s" "no_lost s" "lstep acq rel ev s = Some s'"
  shows "no_lost s'"
proof (cases ev)
  case (Ask t m)
  have "t \<notin> set (ls_waitq s)" if "ls_phase s t = Idle" using that assms(1) by (auto simp: sys_ok_def)
  then show ?thesis using Ask assms attempt_no_lost [OF assms(2), of t m] by (auto split: if_splits)
next
  case (Resume t)
  then show ?thesis using assms attempt_no_lost [OF assms(2), of t] by (auto split: if_splits phase.splits)
next
  case (Leave t)
  then show ?thesis using assms leave_no_lost [OF assms(1,2), of t] by (cases "ls_phase s t") simp_all
qed

lemma reach_no_lost:
  assumes "good l0 Map.empty" "lreach acq rel l0 s"
  shows "no_lost s"
  using assms(2)
proof induction
  case start
  show ?case by (simp add: no_lost_def ls_init_def)
next
  case (step s ev s')
  show ?case by (rule step_no_lost [OF ls_reach_ok [OF assms(1) step.hyps(1)] step.IH step.hyps(2)])
qed

text \<open>Whoever could enter is awake, and its next step enters.\<close>

lemma wanting_enters:
  assumes g: "good l0 Map.empty" and s: "lreach acq rel l0 s" and w: "ls_phase s t = Wants m" and e: "acq t m (ls_lock s) = Enter l"
  shows "t \<notin> set (ls_waitq s) \<and> (\<exists>s'. lstep acq rel (Resume t) s = Some s' \<and> ls_phase s' t = Holds m)"
proof -
  have "t \<notin> set (ls_waitq s)" using reach_no_lost [OF g s] w e by (auto simp: no_lost_def)
  then show ?thesis using w e by (simp add: attempt_def)
qed

end
subsection \<open>The kernel's locks keep the promise\<close>

definition lock_good :: "lock \<Rightarrow> (nat \<Rightarrow> unit option) \<Rightarrow> bool" where
  "lock_good l H \<longleftrightarrow> (if lk_locked l then \<exists>t. H = [t \<mapsto> ()] \<and> lk_owner l = Some t else H = Map.empty)"

interpretation lk: wait_lock lock_lock lock_unlock lock_good
  by unfold_locales (auto simp: lock_good_def lock_lock_def lock_unlock_def split: if_splits)

definition iolock_good :: "iolock \<Rightarrow> (nat \<Rightarrow> iomode option) \<Rightarrow> bool" where
  "iolock_good l H \<longleftrightarrow> (if io_locked l then \<exists>t. H = [t \<mapsto> IOLock] else H = Map.empty)"

interpretation io: wait_lock iolock_acquire iolock_unlock iolock_good
  by unfold_locales
    (auto simp: iolock_good_def iolock_acquire_def iolock_lock_def iolock_wait_def iolock_unlock_def split: if_splits iomode.splits)

definition rwlock_good :: "rwlock \<Rightarrow> (nat \<Rightarrow> rwmode option) \<Rightarrow> bool" where
  "rwlock_good l H \<longleftrightarrow> finite (dom H) \<and> (case rw_state l of
       FREE \<Rightarrow> H = Map.empty \<and> rw_nreader l = 0
     | READING \<Rightarrow> H \<noteq> Map.empty \<and> ran H = {Rd} \<and> rw_nreader l = int (card (dom H))
     | WRITING \<Rightarrow> (\<exists>t. H = [t \<mapsto> Wr]) \<and> rw_nreader l = 0)"

lemma rwlock_enter:
  assumes "rwlock_good l H" "H t = None" "rwlock_acquire t m l = Enter l'"
  shows "rwlock_good l' (H(t \<mapsto> m))"
proof (cases m)
  case Rd
  have "t \<notin> dom H" using assms(2) by auto
  then have c: "finite (dom H) \<Longrightarrow> card (insert t (dom H)) = Suc (card (dom H))" by simp
  have ne: "H(t \<mapsto> Rd) \<noteq> Map.empty" by (metis fun_upd_same option.distinct(1))
  have ran: "ran (H(t \<mapsto> Rd)) = insert Rd (ran H)" using assms(2) by simp
  show ?thesis
  proof (cases "rw_state l")
    case FREE
    then show ?thesis using Rd assms by (auto simp: rwlock_good_def rwlock_acquire_def rlock_def)
  next
    case READING
    then have "finite (dom H)" "ran H = {Rd}" "rw_nreader l = int (card (dom H))" using assms(1) by (simp_all add: rwlock_good_def)
    moreover have "l' = l\<lparr>rw_state := READING, rw_nreader := rw_nreader l + 1, rw_owner := Some t\<rparr>"
      using assms(3) READING Rd by (simp add: rwlock_acquire_def rlock_def)
    ultimately show ?thesis using Rd ne c ran by (simp add: rwlock_good_def)
  next
    case WRITING
    then show ?thesis using Rd assms by (simp add: rwlock_acquire_def rlock_def)
  qed
next
  case Wr
  then show ?thesis using assms
    by (cases "rw_state l") (auto simp: rwlock_good_def rwlock_acquire_def wlock_def split: if_splits)
qed

lemma dom_single: "card (dom H) = 1 \<Longrightarrow> H t = Some m \<Longrightarrow> H = [t \<mapsto> m]"
proof -
  assume "card (dom H) = 1" "H t = Some m"
  then obtain x where x: "dom H = {x}" by (auto simp: card_1_singleton_iff)
  then have "x = t" using \<open>H t = Some m\<close> by auto
  then show "H = [t \<mapsto> m]" using x \<open>H t = Some m\<close> by (auto simp: fun_eq_iff)
qed

lemma ne_ran: "f \<noteq> Map.empty \<Longrightarrow> ran f \<noteq> {}"
proof -
  assume "f \<noteq> Map.empty"
  then obtain x y where "f x = Some y" by (metis not_Some_eq)
  then show "ran f \<noteq> {}" using ranI [of f x y] by blast
qed

lemma rwlock_leave:
  assumes g: "rwlock_good l H" and t: "H t = Some m"
  shows "\<exists>l' w. rwlock_unlock m l = Some (l', w) \<and> rwlock_good l' (H(t := None)) \<and>
    (w = WakeAll \<or> w = WakeNone \<and> rw_state l = READING \<and> rw_state l' = READING \<and> rw_owner l' = rw_owner l)"
proof (cases "rw_state l")
  case FREE
  then show ?thesis using g t by (simp add: rwlock_good_def)
next
  case WRITING
  then show ?thesis using g t by (auto simp: rwlock_good_def rwlock_unlock_def split: if_splits)
next
  case READING
  then have h: "finite (dom H)" "ran H = {Rd}" "rw_nreader l = int (card (dom H))" using g by (simp_all add: rwlock_good_def)
  have m: "m = Rd" using h(2) t by (metis ranI singletonD)
  have td: "t \<in> dom H" using t by auto
  have c: "card (dom H - {t}) = card (dom H) - 1" "0 < card (dom H)" using h(1) td by (auto simp: card_gt_0_iff)
  show ?thesis
  proof (cases "card (dom H) = 1")
    case True
    then have "H = [t \<mapsto> Rd]" using dom_single t m by metis
    then show ?thesis using READING h(3) True by (simp add: rwlock_unlock_def rwlock_good_def)
  next
    case False
    then have "card (dom (H(t := None))) \<noteq> 0" using c by simp
    then have "H(t := None) \<noteq> Map.empty" by (metis card.empty dom_empty)
    moreover have "ran (H(t := None)) \<noteq> {}" if "H(t := None) \<noteq> Map.empty" using that by (rule ne_ran)
    moreover have "ran (H(t := None)) \<subseteq> ran H" by (auto simp: ran_def)
    ultimately have "rwlock_good (l\<lparr>rw_nreader := rw_nreader l - 1\<rparr>) (H(t := None))"
      using READING h c by (simp add: rwlock_good_def of_nat_diff) blast
    then show ?thesis using READING h(3) False c(2) by (simp add: rwlock_unlock_def Let_def)
  qed
qed

interpretation rw: wait_lock rwlock_acquire rwlock_unlock rwlock_good
proof unfold_locales
  fix l H t m l' assume "rwlock_good l H" "H t = None" "rwlock_acquire t m l = Enter l'"
  then show "rwlock_good l' (H(t \<mapsto> m))" by (rule rwlock_enter)
next
  fix t m l l' assume "rwlock_acquire t m l = Pass l'"
  then show "l' = l" by (auto simp: rwlock_acquire_def rlock_def wlock_def split: rwmode.splits if_splits)
next
  fix l and H :: "nat \<Rightarrow> rwmode option" and t m assume "rwlock_good l H" "H t = Some m"
  then show "\<exists>l' w. rwlock_unlock m l = Some (l', w) \<and> rwlock_good l' (H(t := None))" using rwlock_leave by blast
next
  fix t m l l' t' m' assume "rwlock_acquire t m l = Enter l'" "rwlock_acquire t' m' l = Sleep" "t' \<noteq> t"
  then show "rwlock_acquire t' m' l' = Sleep"
    by (auto simp: rwlock_acquire_def rlock_def wlock_def split: rwmode.splits if_splits)
next
  fix l and H :: "nat \<Rightarrow> rwmode option" and t m l' w assume a: "rwlock_good l H" "H t = Some m" "rwlock_unlock m l = Some (l', w)"
  show "w = WakeAll \<or> w = WakeNone \<and> (\<forall>t' m'. t' \<noteq> t \<longrightarrow> rwlock_acquire t' m' l = Sleep \<longrightarrow> rwlock_acquire t' m' l' = Sleep)"
    using rwlock_leave [OF a(1,2)] a(3)
    by (auto simp: rwlock_acquire_def rlock_def wlock_def split: rwmode.splits if_splits)
qed

definition sema_good :: "int \<Rightarrow> sema \<Rightarrow> (nat \<Rightarrow> nat option) \<Rightarrow> bool" where
  "sema_good mx l H \<longleftrightarrow> finite (dom H) \<and> se_maxcnt l = mx \<and> 0 \<le> se_curcnt l \<and>
     se_curcnt l + int (\<Sum>t\<in>dom H. the (H t)) = mx"

interpretation se: held_lock sema_down sema_up "sema_good mx" for mx
proof unfold_locales
  fix l H t m l' assume g: "sema_good mx l H" "H t = None" "sema_down t m l = Enter l'"
  have n: "t \<notin> dom H" using g(2) by auto
  then have "(\<Sum>u\<in>dom H. the ((H(t \<mapsto> m)) u)) = (\<Sum>u\<in>dom H. the (H u))" by (intro sum.cong) auto
  then show "sema_good mx l' (H(t \<mapsto> m))"
    using g n by (auto simp: sema_good_def sema_down_def split: if_splits)
next
  fix t m l l' assume "sema_down t m l = Pass l'"
  then show "l' = l" by (auto simp: sema_down_def split: if_splits)
next
  fix l and H :: "nat \<Rightarrow> nat option" and t m assume g: "sema_good mx l H" "H t = Some m"
  have "(\<Sum>u\<in>dom H - {t}. the ((H(t := None)) u)) = (\<Sum>u\<in>dom H - {t}. the (H u))" by (intro sum.cong) auto
  moreover have "(\<Sum>u\<in>dom H. the (H u)) = the (H t) + (\<Sum>u\<in>dom H - {t}. the (H u))"
    using g by (intro sum.remove) (auto simp: sema_good_def)
  ultimately show "\<exists>l' w. sema_up m l = Some (l', w) \<and> sema_good mx l' (H(t := None))"
    using g by (auto simp: sema_good_def sema_up_def Let_def simp del: of_nat_sum)
qed
subsection \<open>Properties\<close>

lemma rwlock_reach:
  assumes "lreach rwlock_acquire rwlock_unlock rwlock_init s"
  shows "rwlock_good (ls_lock s) (lholders (ls_phase s))"
  using rw.ls_reach_ok [OF _ assms] by (simp add: rw.sys_ok_def rwlock_good_def rwlock_init_def)

lemma lholders_dom: "dom (lholders p) = {t. \<exists>m. p t = Holds m}"
  by (auto simp: dom_def)

text \<open>C30: Under every interleaving of the tasks, a writer holds an \<^verbatim>\<open>rwlock_t\<close> alone, \<^verbatim>\<open>nreader\<close> is the number of tasks that
  hold it for reading, it is \<^verbatim>\<open>FREE\<close> exactly when nobody holds it, and a holder's \<^verbatim>\<open>unlock\<close> never panics.\<close>

theorem rwlock_exclusion:
  assumes "lreach rwlock_acquire rwlock_unlock rwlock_init s"
  shows "(\<forall>t u m. ls_phase s t = Holds Wr \<longrightarrow> ls_phase s u = Holds m \<longrightarrow> u = t) \<and>
    rw_nreader (ls_lock s) = int (card {t. ls_phase s t = Holds Rd}) \<and>
    (rw_state (ls_lock s) = FREE \<longleftrightarrow> (\<forall>t m. ls_phase s t \<noteq> Holds m)) \<and>
    (\<forall>t m. ls_phase s t = Holds m \<longrightarrow> lstep rwlock_acquire rwlock_unlock (Leave t) s \<noteq> None)"
proof -
  let ?H = "lholders (ls_phase s)"
  have g: "rwlock_good (ls_lock s) ?H" by (rule rwlock_reach [OF assms])
  have "lstep rwlock_acquire rwlock_unlock (Leave t) s \<noteq> None" if "ls_phase s t = Holds m" for t m
    using rwlock_leave [OF g, of t m] that by (auto simp: ls_leave_def)
  moreover have "(\<forall>t u m. ls_phase s t = Holds Wr \<longrightarrow> ls_phase s u = Holds m \<longrightarrow> u = t) \<and>
    rw_nreader (ls_lock s) = int (card {t. ls_phase s t = Holds Rd}) \<and> (rw_state (ls_lock s) = FREE \<longleftrightarrow> (\<forall>t m. ls_phase s t \<noteq> Holds m))"
  proof (cases "rw_state (ls_lock s)")
    case FREE
    then have "?H t \<noteq> Some m" for t m using g by (simp add: rwlock_good_def)
    then have n: "ls_phase s t \<noteq> Holds m" for t m by simp
    then show ?thesis using FREE g by (simp add: rwlock_good_def)
  next
    case READING
    then have r: "ran ?H = {Rd}" "rw_nreader (ls_lock s) = int (card (dom ?H))" "?H \<noteq> Map.empty" using g by (simp_all add: rwlock_good_def)
    have rd: "m = Rd" if "ls_phase s t = Holds m" for t m using that r(1) ranI [of ?H t m] by simp
    have "{t. \<exists>m. ls_phase s t = Holds m} = {t. ls_phase s t = Holds Rd}" using rd by blast
    then have n: "rw_nreader (ls_lock s) = int (card {t. ls_phase s t = Holds Rd})" using r(2) lholders_dom [of "ls_phase s"] by simp
    obtain x y where "?H x = Some y" using r(3) by (metis not_Some_eq)
    then have "\<not> (\<forall>t m. ls_phase s t \<noteq> Holds m)" by auto
    then show ?thesis using READING n rd by fastforce
  next
    case WRITING
    then obtain t where t: "?H = [t \<mapsto> Wr]" "rw_nreader (ls_lock s) = 0" using g by (auto simp: rwlock_good_def)
    have "ls_phase s u = Holds m \<longleftrightarrow> u = t \<and> m = Wr" for u m using t(1) lholders_Some [of "ls_phase s" u m] by (auto split: if_splits)
    then show ?thesis using WRITING t(2) by simp
  qed
  ultimately show ?thesis by blast
qed

text \<open>C31: No wake-up is lost.  A task that waits for an \<^verbatim>\<open>rwlock_t\<close> is awake as soon as it could have it, that is when nobody holds
  the lock, or when it wants to read and nobody writes; its next step gives it the lock.\<close>

theorem rwlock_no_lost_wakeup:
  assumes "lreach rwlock_acquire rwlock_unlock rwlock_init s" "ls_phase s t = Wants m"
    "(\<forall>u n. ls_phase s u \<noteq> Holds n) \<or> m = Rd \<and> (\<forall>u. ls_phase s u \<noteq> Holds Wr)"
  shows "t \<notin> set (ls_waitq s) \<and> (\<exists>s'. lstep rwlock_acquire rwlock_unlock (Resume t) s = Some s' \<and> ls_phase s' t = Holds m)"
proof -
  have g: "rwlock_good (ls_lock s) (lholders (ls_phase s))" by (rule rwlock_reach [OF assms(1)])
  have "\<exists>l. rwlock_acquire t m (ls_lock s) = Enter l"
  proof (cases "rw_state (ls_lock s)")
    case FREE
    then show ?thesis by (cases m) (simp_all add: rwlock_acquire_def rlock_def wlock_def)
  next
    case READING
    then have "lholders (ls_phase s) \<noteq> Map.empty" using g by (simp add: rwlock_good_def)
    then have "\<exists>u n. ls_phase s u = Holds n" by (metis lholders_Some not_Some_eq)
    then show ?thesis using READING assms(3) by (auto simp: rwlock_acquire_def rlock_def)
  next
    case WRITING
    then obtain u where "lholders (ls_phase s) = [u \<mapsto> Wr]" using g by (auto simp: rwlock_good_def)
    then have "ls_phase s u = Holds Wr" using lholders_Some [of "ls_phase s" u Wr] by simp
    then show ?thesis using assms(3) by auto
  qed
  then obtain l where l: "rwlock_acquire t m (ls_lock s) = Enter l" ..
  have "rwlock_good rwlock_init Map.empty" by (simp add: rwlock_good_def rwlock_init_def)
  from rw.wanting_enters [OF this assms(1,2) l] show ?thesis .
qed

fun lruns :: "('l, 'm) acquire \<Rightarrow> ('l, 'm) release \<Rightarrow> 'm lev list \<Rightarrow> ('l, 'm) lsys \<Rightarrow> ('l, 'm) lsys option" where
  "lruns acq rel [] s = Some s"
| "lruns acq rel (e # es) s = do { s1 \<leftarrow> lstep acq rel e s; lruns acq rel es s1 }"

lemma lruns_reach: "lreach acq rel l0 s \<Longrightarrow> lruns acq rel es s = Some s' \<Longrightarrow> lreach acq rel l0 s'"
proof (induction es arbitrary: s)
  case (Cons e es)
  then obtain s1 where "lstep acq rel e s = Some s1" "lruns acq rel es s1 = Some s'" by (cases "lstep acq rel e s") auto
  then show ?case using Cons.IH lreach.step [OF Cons.prems(1)] by blast
qed simp

lemmas rw_simps = ls_init_def attempt_def ls_leave_def rwlock_init_def rwlock_acquire_def rlock_def wlock_def rwlock_unlock_def

text \<open>C35: \<^verbatim>\<open>lockowner\<close> is the last reader that came, also after it left.  When two tasks read, the second one releases the lock
  and then asks for the write lock, the kernel panics with "caller acquire the writelock twice", although the caller holds
  nothing.\<close>

theorem rwlock_panics_for_outsider:
  assumes "a \<noteq> b"
  shows "\<exists>s. lruns rwlock_acquire rwlock_unlock [Ask a Rd, Ask b Rd, Leave b] (ls_init rwlock_init) = Some s \<and>
    ls_phase s b = Idle \<and> lstep rwlock_acquire rwlock_unlock (Ask b Wr) s = None"
  using assms by (simp add: rw_simps Let_def)

text \<open>The counts of a semaphore are exact; a wake-up is lost when its head asks for more than is there.\<close>

lemma sema_exact:
  assumes "lreach sema_down sema_up (sema_init mx) s" "0 \<le> mx"
  shows "0 \<le> se_curcnt (ls_lock s)" "se_maxcnt (ls_lock s) = mx" "ls_phase s t = Holds n \<Longrightarrow> lstep sema_down sema_up (Leave t) s \<noteq> None"
proof -
  have "sema_good mx (sema_init mx) Map.empty" using assms(2) by (simp add: sema_good_def sema_init_def)
  from se.ls_reach_ok [OF this assms(1)] have ok: "se.sys_ok mx s" .
  then show "0 \<le> se_curcnt (ls_lock s)" "se_maxcnt (ls_lock s) = mx" by (simp_all add: se.sys_ok_def sema_good_def)
  show "lstep sema_down sema_up (Leave t) s \<noteq> None" if h: "ls_phase s t = Holds n"
  proof -
    obtain s' where "ls_leave sema_up t n s = Some s'" by (rule se.ls_leave_ok [OF ok h])
    then show ?thesis using h by simp
  qed
qed

lemma sema_loses_wakeup:
  "\<exists>s. lruns sema_down sema_up [Ask 0 1, Ask 3 1, Ask 1 2, Ask 2 1, Leave 0, Resume 1] (ls_init (sema_init 2)) = Some s \<and>
    ls_phase s 2 = Wants 1 \<and> 2 \<in> set (ls_waitq s) \<and> \<not> sema_wouldblock 1 (ls_lock s)"
  by (simp add: ls_init_def attempt_def ls_leave_def sema_init_def sema_down_def sema_up_def sema_wouldblock_def Let_def)

lemma lock_exclusive_and_live:
  assumes "lreach lock_lock lock_unlock lock_init s"
  shows "ls_phase s t = Holds m \<Longrightarrow> ls_phase s u = Holds n \<Longrightarrow> u = t"
    and "ls_phase s t = Wants m \<Longrightarrow> \<forall>u n. ls_phase s u \<noteq> Holds n \<Longrightarrow> t \<notin> set (ls_waitq s)"
proof -
  have i: "lock_good lock_init Map.empty" by (simp add: lock_good_def lock_init_def)
  have g: "lock_good (ls_lock s) (lholders (ls_phase s))" using lk.ls_reach_ok [OF i assms] by (simp add: lk.sys_ok_def)
  show "u = t" if "ls_phase s t = Holds m" "ls_phase s u = Holds n"
  proof -
    have "lholders (ls_phase s) t = Some m" "lholders (ls_phase s) u = Some n" using that by simp_all
    then show ?thesis using g by (auto simp: lock_good_def simp del: lholders_Some split: if_splits)
  qed
  show "t \<notin> set (ls_waitq s)" if "ls_phase s t = Wants m" "\<forall>u n. ls_phase s u \<noteq> Holds n"
  proof -
    have "\<not> lk_locked (ls_lock s)"
    proof
      assume "lk_locked (ls_lock s)"
      then obtain x where "lholders (ls_phase s) = [x \<mapsto> ()]" using g by (auto simp: lock_good_def)
      then have "ls_phase s x = Holds ()" using lholders_Some [of "ls_phase s" x "()"] by simp
      then show False using that(2) by blast
    qed
    then show ?thesis using lk.wanting_enters [OF i assms that(1)] by (simp add: lock_lock_def)
  qed
qed

lemma demo_rw_reach:
  assumes "lruns rwlock_acquire rwlock_unlock es (ls_init rwlock_init) = Some s"
  shows "lreach rwlock_acquire rwlock_unlock rwlock_init s"
  by (rule lruns_reach [OF lreach.start assms])

definition demo_rw :: "(rwlock, rwmode) lsys" where
  "demo_rw = the (lruns rwlock_acquire rwlock_unlock [Ask 0 Rd, Ask 1 Wr, Ask 2 Rd, Leave 0, Leave 2] (ls_init rwlock_init))"

lemma demo_rw_eq: "lruns rwlock_acquire rwlock_unlock [Ask 0 Rd, Ask 1 Wr, Ask 2 Rd, Leave 0, Leave 2] (ls_init rwlock_init) = Some demo_rw"
  and demo_rw_phase: "ls_phase demo_rw 1 = Wants Wr" "\<forall>u n. ls_phase demo_rw u \<noteq> Holds n"
  by (simp_all add: demo_rw_def rw_simps Let_def)

theorem rwlock_exclusion_witness:
  "rw_nreader (ls_lock demo_rw) = int (card {t. ls_phase demo_rw t = Holds Rd}) \<and>
   (rw_state (ls_lock demo_rw) = FREE \<longleftrightarrow> (\<forall>t m. ls_phase demo_rw t \<noteq> Holds m))"
  using rwlock_exclusion [OF demo_rw_reach [OF demo_rw_eq]] by blast

theorem rwlock_wakeup_witness:
  "1 \<notin> set (ls_waitq demo_rw) \<and>
   (\<exists>s'. lstep rwlock_acquire rwlock_unlock (Resume 1) demo_rw = Some s' \<and> ls_phase s' 1 = Holds Wr)"
  by (rule rwlock_no_lost_wakeup [OF demo_rw_reach [OF demo_rw_eq] demo_rw_phase(1)]) (use demo_rw_phase(2) in blast)

theorem rwlock_panics_witness:
  "\<exists>s. lruns rwlock_acquire rwlock_unlock [Ask 5 Rd, Ask 6 Rd, Leave 6] (ls_init rwlock_init) = Some s \<and>
    ls_phase s 6 = Idle \<and> lstep rwlock_acquire rwlock_unlock (Ask 6 Wr) s = None"
  by (rule rwlock_panics_for_outsider) simp


end
