(* ===== verification/Kern_Pipe.thy ===== *)
theory Kern_Pipe
  imports Lib_Fifoq Kern_Fdes
begin

text \<open>
  Pipes (\<^verbatim>\<open>kern/pipe.cc\<close>, \<^verbatim>\<open>kern/pipe.h\<close>) over the byte ring.  A task runs until it sleeps: one pass of the loop in \<^verbatim>\<open>read\<close> or
  \<^verbatim>\<open>write\<close> returns, or puts the task on the pipe's wait queue, here the list of sleeping tasks, which \<^verbatim>\<open>broadcast\<close>
  empties.  A signal also wakes the task.  Which task runs when is left open.
\<close>

subsection \<open>Operations\<close>

definition PIPESIZE :: int where "PIPESIZE = 4096"

record pipe =
  pi_q :: fifoq
  pi_waitq :: "nat list"
  pi_nreader :: int
  pi_nwriter :: int

definition pipe_ctor :: "u8 list \<Rightarrow> pipe option" where
  "pipe_ctor page = do { q \<leftarrow> fq_init page PIPESIZE; Some \<lparr>pi_q = q, pi_waitq = [], pi_nreader = 1, pi_nwriter = 1\<rparr> }"

definition rhold :: "pipe \<Rightarrow> pipe" where "rhold p = p\<lparr>pi_nreader := pi_nreader p + 1\<rparr>"
definition whold :: "pipe \<Rightarrow> pipe" where "whold p = p\<lparr>pi_nwriter := pi_nwriter p + 1\<rparr>"

text \<open>The result tells whether the pipe was deleted.\<close>

definition rlose :: "pipe \<Rightarrow> (bool \<times> pipe) option" where
  "rlose p = do {
     kassert (pi_nreader p > 0);
     let p1 = p\<lparr>pi_nreader := pi_nreader p - 1\<rparr>;
     if pi_nreader p1 \<noteq> 0 then Some (False, p1)
     else Some (pi_nwriter p1 = 0, p1\<lparr>pi_waitq := []\<rparr>) }"

definition wlose :: "pipe \<Rightarrow> (bool \<times> pipe) option" where
  "wlose p = do {
     kassert (pi_nwriter p > 0);
     let p1 = p\<lparr>pi_nwriter := pi_nwriter p - 1\<rparr>;
     if pi_nwriter p1 \<noteq> 0 then Some (False, p1)
     else Some (pi_nreader p1 = 0, p1\<lparr>pi_waitq := []\<rparr>) }"

text \<open>\<open>Ret\<close> has the value returned and the bytes read; \<open>Broken\<close> posts \<^verbatim>\<open>SIGPIPE\<close> to the caller and returns \<^verbatim>\<open>EPIPE\<close>; \<open>Block\<close> has the
  bytes still to be written and the number that was.\<close>

datatype pout = Ret int "u8 list" | Broken | Block "u8 list" int

definition pipe_read :: "bool \<Rightarrow> int \<Rightarrow> pipe \<Rightarrow> (pout \<times> pipe) option" where
  "pipe_read sig cnt p =
     (if fq_empty (pi_q p) then
        if pi_nwriter p = 0 then Some (Ret 0 [], p)
        else if sig then Some (Ret EINTR [], p) else Some (Block [] 0, p)
      else do {
        (bs, q) \<leftarrow> getn cnt (pi_q p);
        Some (Ret (int (length bs)) bs, p\<lparr>pi_q := q, pi_waitq := []\<rparr>) })"

partial_function (option) pipe_write :: "bool \<Rightarrow> u8 list \<Rightarrow> int \<Rightarrow> pipe \<Rightarrow> (pout \<times> pipe) option" where
  "pipe_write sig buf written p =
     (if buf = [] then Some (Ret written [], p)
      else if pi_nreader p = 0 then Some (Broken, p)
      else if fq_full (pi_q p) then if sig then Some (Ret EINTR [], p) else Some (Block buf written, p)
      else do {
        (n, q) \<leftarrow> putn buf (int (length buf)) (pi_q p);
        pipe_write sig (drop (nat n) buf) (written + n) (p\<lparr>pi_q := q, pi_waitq := []\<rparr>) })"

definition pipefd_read :: "int \<Rightarrow> bool \<Rightarrow> int \<Rightarrow> pipe \<Rightarrow> (pout \<times> pipe) option" where
  "pipefd_read fl sig cnt p = (if fl AND FDREAD = 0 then Some (Ret EINVAL [], p) else pipe_read sig cnt p)"

definition pipefd_write :: "int \<Rightarrow> bool \<Rightarrow> u8 list \<Rightarrow> pipe \<Rightarrow> (pout \<times> pipe) option" where
  "pipefd_write fl sig buf p = (if fl AND FDWRITE = 0 then Some (Ret EINVAL [], p) else pipe_write sig buf 0 p)"

definition pipefd_dtor :: "int \<Rightarrow> pipe \<Rightarrow> (bool \<times> pipe) option" where
  "pipefd_dtor fl p = (if fl AND FDREAD \<noteq> 0 then rlose p else wlose p)"

definition pipefd_lseek :: int where "pipefd_lseek = ESPIPE"
definition pipefd_ioctl :: int where "pipefd_ioctl = ENOTTY"
definition pipefd_readdir :: int where "pipefd_readdir = ENOTDIR"

text \<open>\<^verbatim>\<open>syspipe\<close>: \<open>v\<close> is the result of \<^verbatim>\<open>verw\<close>, \<open>e\<close> of \<^verbatim>\<open>putpair\<close>; the pipe stays if both succeed.\<close>

definition syspipe :: "int \<Rightarrow> u8 list \<Rightarrow> int \<Rightarrow> (int \<times> pipe option) option" where
  "syspipe v page e =
     (if v \<noteq> 0 then Some (v, None)
      else do {
        p \<leftarrow> pipe_ctor page;
        if e \<noteq> 0 then do {
          (d0, p1) \<leftarrow> pipefd_dtor FDREAD p;
          (d1, p2) \<leftarrow> pipefd_dtor FDWRITE p1;
          Some (e, if d0 \<or> d1 then None else Some p2) }
        else Some (0, Some p) })"

subsection \<open>One pass\<close>

lemma fq_empty_list: "fq_ok q \<Longrightarrow> fq_empty q \<longleftrightarrow> fq_list q = []"
  by (auto simp: fq_empty_def nchar_def fq_list_def fq_ok_def)

lemma fq_full_list: "fq_ok q \<Longrightarrow> fq_full q \<longleftrightarrow> int (length (fq_list q)) = rsize q"
  by (auto simp: fq_full_def space_def fq_ok_def)

lemma getn_size: "fq_ok q \<Longrightarrow> 0 \<le> n \<Longrightarrow> getn n q = Some (bs, q') \<Longrightarrow> rsize q' = rsize q"
  using getn_loop_refines [of q n "[]"] by (auto simp: getn_def)

lemma pipe_read_ok:
  assumes "fq_ok (pi_q p)" "0 < cnt"
  shows "fq_list (pi_q p) = [] \<Longrightarrow> pipe_read sig cnt p =
        Some (if pi_nwriter p = 0 then Ret 0 [] else if sig then Ret EINTR [] else Block [] 0, p)" and
    "fq_list (pi_q p) \<noteq> [] \<Longrightarrow> \<exists>q. pipe_read sig cnt p =
        Some (Ret (int (min (nat cnt) (length (fq_list (pi_q p))))) (take (nat cnt) (fq_list (pi_q p))), p\<lparr>pi_q := q, pi_waitq := []\<rparr>) \<and>
      fq_ok q \<and> rsize q = rsize (pi_q p) \<and> fq_list q = drop (nat cnt) (fq_list (pi_q p))"
proof -
  show "fq_list (pi_q p) = [] \<Longrightarrow> pipe_read sig cnt p =
        Some (if pi_nwriter p = 0 then Ret 0 [] else if sig then Ret EINTR [] else Block [] 0, p)" using assms by (simp add: pipe_read_def fq_empty_list)
  show "\<exists>q. pipe_read sig cnt p =
        Some (Ret (int (min (nat cnt) (length (fq_list (pi_q p))))) (take (nat cnt) (fq_list (pi_q p))), p\<lparr>pi_q := q, pi_waitq := []\<rparr>) \<and>
      fq_ok q \<and> rsize q = rsize (pi_q p) \<and> fq_list q = drop (nat cnt) (fq_list (pi_q p))" if "fq_list (pi_q p) \<noteq> []"
    using getn_refines [OF assms(1), of cnt] getn_size [OF assms(1), of cnt] assms that
    by (auto simp: pipe_read_def fq_empty_list min.commute simp del: length_fq_list)
qed

lemma pipe_write_ok:
  assumes "fq_ok (pi_q p)"
  shows "\<exists>r q wq k. pipe_write sig buf d p = Some (r, p\<lparr>pi_q := q, pi_waitq := wq\<rparr>) \<and> fq_ok q \<and> rsize q = rsize (pi_q p) \<and>
    fq_list q = fq_list (pi_q p) @ take k buf \<and> k \<le> length buf \<and> (k = 0 \<and> wq = pi_waitq p \<or> 0 < k \<and> wq = []) \<and>
    (r = Ret (d + int k) [] \<and> k = length buf \<or> r = Broken \<and> pi_nreader p = 0 \<and> k = 0 \<or>
     (r = Ret EINTR [] \<and> sig \<or> r = Block (drop k buf) (d + int k) \<and> \<not> sig) \<and> k < length buf \<and> pi_nreader p \<noteq> 0 \<and> fq_full q)"
  using assms
proof (induction "length buf" arbitrary: buf d p rule: less_induct)
  case less
  have id: "p = p\<lparr>pi_q := pi_q p, pi_waitq := pi_waitq p\<rparr>" by simp
  show ?case
  proof (cases "buf = [] \<or> pi_nreader p = 0 \<or> fq_full (pi_q p)")
    case True
    then show ?thesis using less.prems
      by (subst pipe_write.simps) (auto intro!: exI [of _ "pi_q p"] exI [of _ "pi_waitq p"] exI [of _ "0 :: nat"])
  next
    case False
    define n where "n = nat (min (int (length buf)) (space (pi_q p)))"
    have n: "0 < n" "n \<le> length buf" "min (int (length buf)) (space (pi_q p)) = int n"
      using False less.prems by (auto simp: n_def fq_full_def space_def fq_ok_def)
    obtain q where q: "putn buf (int (length buf)) (pi_q p) = Some (int n, q)" "fq_ok q" "rsize q = rsize (pi_q p)"
      "fq_list q = fq_list (pi_q p) @ take n buf"
      using putn_refines [OF less.prems, of "int (length buf)" buf] n(3) by auto
    let ?p = "p\<lparr>pi_q := q, pi_waitq := []\<rparr>"
    have lt: "length (drop n buf) < length buf" and ok: "fq_ok (pi_q ?p)" using n q(2) by simp_all
    obtain r q' wq k where r: "pipe_write sig (drop n buf) (d + int n) ?p = Some (r, ?p\<lparr>pi_q := q', pi_waitq := wq\<rparr>)" "fq_ok q'" "rsize q' = rsize (pi_q ?p)"
      "fq_list q' = fq_list (pi_q ?p) @ take k (drop n buf)" "k \<le> length (drop n buf)" "k = 0 \<and> wq = pi_waitq ?p \<or> 0 < k \<and> wq = []"
      "r = Ret (d + int n + int k) [] \<and> k = length (drop n buf) \<or> r = Broken \<and> pi_nreader ?p = 0 \<and> k = 0 \<or>
       (r = Ret EINTR [] \<and> sig \<or> r = Block (drop k (drop n buf)) (d + int n + int k) \<and> \<not> sig) \<and> k < length (drop n buf) \<and> pi_nreader ?p \<noteq> 0 \<and> fq_full q'"
      using less.hyps [OF lt ok, of "d + int n"] by blast
    have wq: "wq = []" using r(6) by auto
    have "pipe_write sig buf d p = Some (r, p\<lparr>pi_q := q', pi_waitq := []\<rparr>)"
      using False q(1) r(1) wq by (subst pipe_write.simps) simp
    moreover have "fq_list q' = fq_list (pi_q p) @ take (n + k) buf" using r(4) q(4) by (simp add: take_add)
    moreover have "rsize q' = rsize (pi_q p)" using r(3) q(3) by simp
    moreover have "n + k \<le> length buf" "0 < n + k" using r(5) n by simp_all
    moreover have "r = Ret (d + int (n + k)) [] \<and> n + k = length buf \<or> r = Broken \<and> pi_nreader p = 0 \<and> n + k = 0 \<or>
       (r = Ret EINTR [] \<and> sig \<or> r = Block (drop (n + k) buf) (d + int (n + k)) \<and> \<not> sig) \<and> n + k < length buf \<and> pi_nreader p \<noteq> 0 \<and> fq_full q'"
      using r(5,7) n False by (auto simp: add.assoc add.commute)
    ultimately show ?thesis using r(2) by blast
  qed
qed
subsection \<open>Tasks around a pipe\<close>

text \<open>\<open>ps_sent\<close> and \<open>ps_got\<close> are all bytes that went into and came out of the pipe so far, as the buffers of the callers show them.\<close>

datatype pphase = PIdle | PReading int | PWriting "u8 list" int

record psys =
  ps_pipe :: pipe
  ps_phase :: "nat \<Rightarrow> pphase"
  ps_sig :: "nat \<Rightarrow> bool"
  ps_sent :: "u8 list"
  ps_got :: "u8 list"

definition ps_sleep :: "nat \<Rightarrow> pphase \<Rightarrow> psys \<Rightarrow> psys" where
  "ps_sleep t ph s = s\<lparr>ps_pipe := (ps_pipe s)\<lparr>pi_waitq := pi_waitq (ps_pipe s) @ [t]\<rparr>, ps_phase := (ps_phase s)(t := ph)\<rparr>"

definition read_pass :: "nat \<Rightarrow> int \<Rightarrow> psys \<Rightarrow> psys option" where
  "read_pass t n s = do {
     (r, p) \<leftarrow> pipe_read (ps_sig s t) n (ps_pipe s);
     Some (case r of Ret v bs \<Rightarrow> s\<lparr>ps_pipe := p, ps_phase := (ps_phase s)(t := PIdle), ps_got := ps_got s @ bs\<rparr>
       | Broken \<Rightarrow> s
       | Block _ _ \<Rightarrow> ps_sleep t (PReading n) (s\<lparr>ps_pipe := p\<rparr>)) }"

definition write_pass :: "nat \<Rightarrow> u8 list \<Rightarrow> int \<Rightarrow> psys \<Rightarrow> psys option" where
  "write_pass t buf d s = do {
     (r, p) \<leftarrow> pipe_write (ps_sig s t) buf d (ps_pipe s);
     let k = nat (nchar (pi_q p) - nchar (pi_q (ps_pipe s)));
     let s1 = s\<lparr>ps_pipe := p, ps_sent := ps_sent s @ take k buf\<rparr>;
     Some (case r of Ret v bs \<Rightarrow> s1\<lparr>ps_phase := (ps_phase s)(t := PIdle)\<rparr>
       | Broken \<Rightarrow> s1\<lparr>ps_phase := (ps_phase s)(t := PIdle), ps_sig := (ps_sig s)(t := True)\<rparr>
       | Block rest w \<Rightarrow> ps_sleep t (PWriting rest w) s1) }"

text \<open>A task that wakes up with a signal returns \<^verbatim>\<open>EINTR\<close>.  An end is closed when nobody is inside a call on it.\<close>

inductive pstep :: "psys \<Rightarrow> psys \<Rightarrow> bool" where
  call_read: "ps_phase s t = PIdle \<Longrightarrow> pi_nreader (ps_pipe s) > 0 \<Longrightarrow> 0 < n \<Longrightarrow> read_pass t n s = Some s' \<Longrightarrow> pstep s s'"
| call_write: "ps_phase s t = PIdle \<Longrightarrow> pi_nwriter (ps_pipe s) > 0 \<Longrightarrow> write_pass t buf 0 s = Some s' \<Longrightarrow> pstep s s'"
| resume_read: "ps_phase s t = PReading n \<Longrightarrow> t \<notin> set (pi_waitq (ps_pipe s)) \<Longrightarrow> \<not> ps_sig s t \<Longrightarrow> read_pass t n s = Some s' \<Longrightarrow> pstep s s'"
| resume_write: "ps_phase s t = PWriting buf d \<Longrightarrow> t \<notin> set (pi_waitq (ps_pipe s)) \<Longrightarrow> \<not> ps_sig s t \<Longrightarrow> write_pass t buf d s = Some s' \<Longrightarrow> pstep s s'"
| interrupted: "t \<notin> set (pi_waitq (ps_pipe s)) \<Longrightarrow> ps_sig s t \<Longrightarrow> pstep s (s\<lparr>ps_phase := (ps_phase s)(t := PIdle)\<rparr>)"
| signalled: "pstep s (s\<lparr>ps_sig := (ps_sig s)(t := True), ps_pipe := (ps_pipe s)\<lparr>pi_waitq := removeAll t (pi_waitq (ps_pipe s))\<rparr>\<rparr>)"
| handled: "ps_phase s t = PIdle \<Longrightarrow> pstep s (s\<lparr>ps_sig := (ps_sig s)(t := False)\<rparr>)"
| close_read: "(\<forall>t n. ps_phase s t \<noteq> PReading n) \<Longrightarrow> pi_nreader (ps_pipe s) > 0 \<Longrightarrow> rlose (ps_pipe s) = Some (del, p) \<Longrightarrow> pstep s (s\<lparr>ps_pipe := p\<rparr>)"
| close_write: "(\<forall>t b d. ps_phase s t \<noteq> PWriting b d) \<Longrightarrow> pi_nwriter (ps_pipe s) > 0 \<Longrightarrow> wlose (ps_pipe s) = Some (del, p) \<Longrightarrow> pstep s (s\<lparr>ps_pipe := p\<rparr>)"

definition ps_init :: "u8 list \<Rightarrow> psys option" where
  "ps_init page = do { p \<leftarrow> pipe_ctor page;
     Some \<lparr>ps_pipe = p, ps_phase = (\<lambda>_. PIdle), ps_sig = (\<lambda>_. False), ps_sent = [], ps_got = []\<rparr> }"

inductive preach :: "u8 list \<Rightarrow> psys \<Rightarrow> bool" for page where
  start: "ps_init page = Some s \<Longrightarrow> preach page s"
| step: "preach page s \<Longrightarrow> pstep s s' \<Longrightarrow> preach page s'"

subsection \<open>Invariant\<close>

definition sleeps_ok :: "psys \<Rightarrow> nat \<Rightarrow> bool" where
  "sleeps_ok s t \<longleftrightarrow> \<not> ps_sig s t \<and> (case ps_phase s t of PIdle \<Rightarrow> False
     | PReading n \<Rightarrow> 0 < n \<and> fq_list (pi_q (ps_pipe s)) = [] \<and> pi_nwriter (ps_pipe s) \<noteq> 0
     | PWriting b d \<Rightarrow> b \<noteq> [] \<and> fq_full (pi_q (ps_pipe s)) \<and> pi_nreader (ps_pipe s) \<noteq> 0)"

definition pipe_inv :: "psys \<Rightarrow> bool" where
  "pipe_inv s \<longleftrightarrow> fq_ok (pi_q (ps_pipe s)) \<and> rsize (pi_q (ps_pipe s)) = PIPESIZE \<and>
     ps_got s @ fq_list (pi_q (ps_pipe s)) = ps_sent s \<and> (\<forall>t n. ps_phase s t = PReading n \<longrightarrow> 0 < n) \<and>
     (\<forall>t\<in>set (pi_waitq (ps_pipe s)). sleeps_ok s t)"

lemma read_pass_ok:
  assumes inv: "pipe_inv s" and n: "0 < n" and t: "t \<notin> set (pi_waitq (ps_pipe s))"
  obtains s' where "read_pass t n s = Some s'" "pipe_inv s'"
proof (cases "fq_list (pi_q (ps_pipe s)) = []")
  case True
  have ok: "fq_ok (pi_q (ps_pipe s))" using inv by (simp add: pipe_inv_def)
  have r: "pipe_read (ps_sig s t) n (ps_pipe s) =
      Some (if pi_nwriter (ps_pipe s) = 0 then Ret 0 [] else if ps_sig s t then Ret EINTR [] else Block [] 0, ps_pipe s)"
    using pipe_read_ok(1) [OF ok n, of "ps_sig s t"] True by simp
  show thesis
  proof (cases "pi_nwriter (ps_pipe s) = 0 \<or> ps_sig s t")
    case fin: True
    have "read_pass t n s = Some (s\<lparr>ps_phase := (ps_phase s)(t := PIdle)\<rparr>)" using r fin by (auto simp: read_pass_def)
    moreover have "pipe_inv (s\<lparr>ps_phase := (ps_phase s)(t := PIdle)\<rparr>)" using inv t by (auto simp: pipe_inv_def sleeps_ok_def cong: pphase.case_cong)
    ultimately show thesis by (rule that)
  next
    case False
    have "read_pass t n s = Some (ps_sleep t (PReading n) s)" using r False by (simp add: read_pass_def)
    moreover have "pipe_inv (ps_sleep t (PReading n) s)" using inv t n True False by (auto simp: pipe_inv_def sleeps_ok_def ps_sleep_def cong: pphase.case_cong)
    ultimately show thesis by (rule that)
  qed
next
  case False
  have ok: "fq_ok (pi_q (ps_pipe s))" "rsize (pi_q (ps_pipe s)) = PIPESIZE" using inv by (simp_all add: pipe_inv_def)
  obtain q where q: "pipe_read (ps_sig s t) n (ps_pipe s) =
        Some (Ret (int (min (nat n) (length (fq_list (pi_q (ps_pipe s)))))) (take (nat n) (fq_list (pi_q (ps_pipe s)))), (ps_pipe s)\<lparr>pi_q := q, pi_waitq := []\<rparr>)"
      "fq_ok q" "rsize q = PIPESIZE" "fq_list q = drop (nat n) (fq_list (pi_q (ps_pipe s)))"
    using pipe_read_ok(2) [OF ok(1) n False, of "ps_sig s t"] ok(2) by auto
  show thesis
  proof (rule that)
    show "read_pass t n s = Some (s\<lparr>ps_pipe := (ps_pipe s)\<lparr>pi_q := q, pi_waitq := []\<rparr>, ps_phase := (ps_phase s)(t := PIdle),
        ps_got := ps_got s @ take (nat n) (fq_list (pi_q (ps_pipe s)))\<rparr>)" using q(1) by (simp add: read_pass_def)
    show "pipe_inv (s\<lparr>ps_pipe := (ps_pipe s)\<lparr>pi_q := q, pi_waitq := []\<rparr>, ps_phase := (ps_phase s)(t := PIdle),
        ps_got := ps_got s @ take (nat n) (fq_list (pi_q (ps_pipe s)))\<rparr>)"
      using inv q(2-4) by (auto simp: pipe_inv_def)
  qed
qed

lemma write_pass_ok:
  assumes inv: "pipe_inv s" and t: "t \<notin> set (pi_waitq (ps_pipe s))"
  obtains s' where "write_pass t buf d s = Some s'" "pipe_inv s'"
proof -
  let ?p = "ps_pipe s" and ?q = "pi_q (ps_pipe s)"
  have ok: "fq_ok ?q" "rsize ?q = PIPESIZE" and st: "ps_got s @ fq_list ?q = ps_sent s" using inv by (simp_all add: pipe_inv_def)
  obtain r q wq k where w: "pipe_write (ps_sig s t) buf d ?p = Some (r, ?p\<lparr>pi_q := q, pi_waitq := wq\<rparr>)" "fq_ok q" "rsize q = rsize ?q"
    "fq_list q = fq_list ?q @ take k buf" "k \<le> length buf" "k = 0 \<and> wq = pi_waitq ?p \<or> 0 < k \<and> wq = []"
    "r = Ret (d + int k) [] \<and> k = length buf \<or> r = Broken \<and> pi_nreader ?p = 0 \<and> k = 0 \<or>
     (r = Ret EINTR [] \<and> ps_sig s t \<or> r = Block (drop k buf) (d + int k) \<and> \<not> ps_sig s t) \<and> k < length buf \<and> pi_nreader ?p \<noteq> 0 \<and> fq_full q"
    using pipe_write_ok [OF ok(1), of "ps_sig s t" buf d] by blast
  have "length (fq_list q) = length (fq_list ?q) + k" using w(4,5) by simp
  then have k: "nat (nchar q - nchar ?q) = k" using ok(1) w(2) by (auto simp: nchar_def fq_ok_def)
  have sl: "sleeps_ok (s\<lparr>ps_pipe := ?p\<lparr>pi_q := q, pi_waitq := wq'\<rparr>, ps_phase := (ps_phase s)(t := ph), ps_sig := sg, ps_sent := x\<rparr>) u"
    if "u \<in> set wq" "\<forall>u. u \<noteq> t \<longrightarrow> sg u = ps_sig s u" for u ph x wq' sg
  proof -
    have z: "k = 0" "u \<in> set (pi_waitq ?p)" using that w(6) by auto
    then have "fq_list q = fq_list ?q" using w(4) by simp
    moreover from this have "fq_full q \<longleftrightarrow> fq_full ?q" using fq_full_list [OF w(2)] fq_full_list [OF ok(1)] w(3) by simp
    moreover have "u \<noteq> t" using z(2) t by auto
    moreover have "sleeps_ok s u" using inv z(2) by (simp add: pipe_inv_def)
    ultimately show ?thesis using that(2) by (simp add: sleeps_ok_def cong: pphase.case_cong)
  qed
  have upd: "s\<lparr>ps_pipe := pp, ps_phase := ph, ps_sent := x\<rparr> = s\<lparr>ps_pipe := pp, ps_phase := ph, ps_sig := ps_sig s, ps_sent := x\<rparr>" for pp ph x by simp
  have sl0: "sleeps_ok (s\<lparr>ps_pipe := ?p\<lparr>pi_q := q, pi_waitq := wq'\<rparr>, ps_phase := (ps_phase s)(t := ph), ps_sent := x\<rparr>) u"
    if "u \<in> set wq" for u ph x wq' unfolding upd by (rule sl [OF that]) simp
  have st': "ps_got s @ fq_list q = ps_sent s @ take k buf" using st w(4) by (metis append.assoc)
  have pos: "\<forall>u n. ps_phase s u = PReading n \<longrightarrow> 0 < n" using inv by (simp add: pipe_inv_def)
  show thesis
  proof (cases r)
    case (Ret v bs)
    let ?s = "s\<lparr>ps_pipe := ?p\<lparr>pi_q := q, pi_waitq := wq\<rparr>, ps_phase := (ps_phase s)(t := PIdle), ps_sent := ps_sent s @ take k buf\<rparr>"
    have "write_pass t buf d s = Some ?s" using w(1) Ret k by (simp add: write_pass_def Let_def)
    moreover have "pipe_inv ?s" using w(2,3) ok(2) st' pos sl0 by (simp add: pipe_inv_def)
    ultimately show thesis by (rule that)
  next
    case Broken
    let ?s = "s\<lparr>ps_pipe := ?p\<lparr>pi_q := q, pi_waitq := wq\<rparr>, ps_phase := (ps_phase s)(t := PIdle), ps_sig := (ps_sig s)(t := True),
      ps_sent := ps_sent s @ take k buf\<rparr>"
    have "write_pass t buf d s = Some ?s" using w(1) Broken k by (simp add: write_pass_def Let_def)
    moreover have "pipe_inv ?s" using w(2,3) ok(2) st' pos sl by (simp add: pipe_inv_def)
    ultimately show thesis by (rule that)
  next
    case (Block rest n)
    let ?s = "s\<lparr>ps_pipe := ?p\<lparr>pi_q := q, pi_waitq := wq @ [t]\<rparr>, ps_phase := (ps_phase s)(t := PWriting rest n), ps_sent := ps_sent s @ take k buf\<rparr>"
    have "write_pass t buf d s = Some ?s" using w(1) Block k by (simp add: write_pass_def ps_sleep_def Let_def)
    moreover have "sleeps_ok ?s t" using w(7) Block by (auto simp: sleeps_ok_def)
    then have "pipe_inv ?s" using w(2,3) ok(2) st' pos sl0 by (simp add: pipe_inv_def)
    ultimately show thesis by (rule that)
  qed
qed
lemma pipe_inv_waitq: "pipe_inv s \<Longrightarrow> ps_phase s t = PIdle \<Longrightarrow> t \<notin> set (pi_waitq (ps_pipe s))"
  by (auto simp: pipe_inv_def sleeps_ok_def)

lemma rlose_ok: "rlose p = Some (del, p') \<Longrightarrow> pi_q p' = pi_q p \<and> pi_nwriter p' = pi_nwriter p \<and> (pi_waitq p' = [] \<or> pi_nreader p' \<noteq> 0 \<and> pi_waitq p' = pi_waitq p)"
  by (auto simp: rlose_def Let_def kassert_def split: if_splits)

lemma wlose_ok: "wlose p = Some (del, p') \<Longrightarrow> pi_q p' = pi_q p \<and> pi_nreader p' = pi_nreader p \<and> (pi_waitq p' = [] \<or> pi_nwriter p' \<noteq> 0 \<and> pi_waitq p' = pi_waitq p)"
  by (auto simp: wlose_def Let_def kassert_def split: if_splits)

lemma pstep_inv: "pstep s s' \<Longrightarrow> pipe_inv s \<Longrightarrow> pipe_inv s'"
proof (induction rule: pstep.induct)
  case (call_read s t n s')
  obtain s1 where "read_pass t n s = Some s1" "pipe_inv s1"
    by (rule read_pass_ok [OF call_read.prems call_read.hyps(3) pipe_inv_waitq [OF call_read.prems call_read.hyps(1)]])
  then show ?case using call_read.hyps by simp
next
  case (call_write s t buf s')
  obtain s1 where "write_pass t buf 0 s = Some s1" "pipe_inv s1"
    by (rule write_pass_ok [OF call_write.prems pipe_inv_waitq [OF call_write.prems call_write.hyps(1)]])
  then show ?case using call_write.hyps by simp
next
  case (resume_read s t n s')
  then have "0 < n" by (auto simp: pipe_inv_def)
  then obtain s1 where "read_pass t n s = Some s1" "pipe_inv s1" by (rule read_pass_ok [OF resume_read.prems _ resume_read.hyps(2)])
  then show ?case using resume_read.hyps by simp
next
  case (resume_write s t buf d s')
  obtain s1 where "write_pass t buf d s = Some s1" "pipe_inv s1" by (rule write_pass_ok [OF resume_write.prems resume_write.hyps(2)])
  then show ?case using resume_write.hyps by simp
next
  case (interrupted t s)
  then show ?case by (auto simp: pipe_inv_def sleeps_ok_def cong: pphase.case_cong)
next
  case (signalled s t)
  then show ?case by (auto simp: pipe_inv_def sleeps_ok_def cong: pphase.case_cong)
next
  case (handled s t)
  then show ?case by (auto simp: pipe_inv_def sleeps_ok_def cong: pphase.case_cong)
next
  case (close_read s del p)
  then show ?case using rlose_ok [OF close_read.hyps(3)] by (auto simp: pipe_inv_def sleeps_ok_def cong: pphase.case_cong)
next
  case (close_write s del p)
  then show ?case using wlose_ok [OF close_write.hyps(3)] by (auto simp: pipe_inv_def sleeps_ok_def cong: pphase.case_cong)
qed

lemma preach_inv:
  assumes "preach page s" "length page = 4096"
  shows "pipe_inv s"
  using assms(1)
proof induction
  case (start s)
  have "\<exists>q. fq_init page (2 ^ 12) = Some q \<and> fq_ok q \<and> fq_list q = [] \<and> rsize q = 2 ^ 12"
    by (rule fq_init_ok) (simp add: assms(2))
  then show ?case using start by (auto simp: ps_init_def pipe_ctor_def PIPESIZE_def pipe_inv_def)
next
  case (step s s')
  show ?case by (rule pstep_inv [OF step.hyps(2) step.IH])
qed

subsection \<open>Properties\<close>

text \<open>C28: A pipe is a stream.  Whatever tasks read, write, sleep, are interrupted and close, in whatever order, the bytes read so far
  followed by the bytes in the pipe are exactly the bytes written so far, in order; there are never more than 4096 bytes in the pipe;
  and no call runs into a failing assertion.\<close>

theorem pipe_is_a_stream:
  assumes "preach page s" "length page = 4096"
  shows "ps_got s @ fq_list (pi_q (ps_pipe s)) = ps_sent s \<and> length (fq_list (pi_q (ps_pipe s))) \<le> 4096 \<and>
    (\<forall>t n. t \<notin> set (pi_waitq (ps_pipe s)) \<longrightarrow> 0 < n \<longrightarrow> read_pass t n s \<noteq> None) \<and>
    (\<forall>t buf d. t \<notin> set (pi_waitq (ps_pipe s)) \<longrightarrow> write_pass t buf d s \<noteq> None)"
proof -
  have inv: "pipe_inv s" by (rule preach_inv [OF assms])
  have "read_pass t n s \<noteq> None" if t: "t \<notin> set (pi_waitq (ps_pipe s))" and n: "0 < n" for t n
  proof -
    obtain s' where "read_pass t n s = Some s'" by (rule read_pass_ok [OF inv n t])
    then show ?thesis by simp
  qed
  moreover have "write_pass t buf d s \<noteq> None" if t: "t \<notin> set (pi_waitq (ps_pipe s))" for t buf d
  proof -
    obtain s' where "write_pass t buf d s = Some s'" by (rule write_pass_ok [OF inv t])
    then show ?thesis by simp
  qed
  ultimately show ?thesis using inv by (auto simp: pipe_inv_def fq_ok_def PIPESIZE_def)
qed

text \<open>C29: No reader or writer sleeps on without reason.  A task that reads while there are bytes or no writer is left, or writes while there
  is room or no reader is left, is awake; its next step returns the bytes there are, or moves at least one byte or returns.\<close>

theorem pipe_no_lost_wakeup:
  assumes "preach page s" "length page = 4096"
  shows "(\<forall>t n. ps_phase s t = PReading n \<longrightarrow> fq_list (pi_q (ps_pipe s)) \<noteq> [] \<or> pi_nwriter (ps_pipe s) = 0 \<longrightarrow>
      t \<notin> set (pi_waitq (ps_pipe s)) \<and>
      (\<exists>s'. read_pass t n s = Some s' \<and> ps_phase s' t = PIdle \<and> ps_got s' = ps_got s @ take (nat n) (fq_list (pi_q (ps_pipe s))))) \<and>
    (\<forall>t b d. ps_phase s t = PWriting b d \<longrightarrow> \<not> fq_full (pi_q (ps_pipe s)) \<or> pi_nreader (ps_pipe s) = 0 \<longrightarrow>
      t \<notin> set (pi_waitq (ps_pipe s)) \<and>
      (\<exists>s'. write_pass t b d s = Some s' \<and> (ps_phase s' t = PIdle \<or> length (ps_sent s) < length (ps_sent s'))))"
proof (intro conjI allI impI)
  have inv: "pipe_inv s" by (rule preach_inv [OF assms])
  then have ok: "fq_ok (pi_q (ps_pipe s))" and sl: "\<And>t. t \<in> set (pi_waitq (ps_pipe s)) \<Longrightarrow> sleeps_ok s t" by (simp_all add: pipe_inv_def)
  fix t n assume r: "ps_phase s t = PReading n" "fq_list (pi_q (ps_pipe s)) \<noteq> [] \<or> pi_nwriter (ps_pipe s) = 0"
  show "t \<notin> set (pi_waitq (ps_pipe s))" using sl [of t] r by (auto simp: sleeps_ok_def)
  have n: "0 < n" using inv r(1) by (simp add: pipe_inv_def)
  show "\<exists>s'. read_pass t n s = Some s' \<and> ps_phase s' t = PIdle \<and> ps_got s' = ps_got s @ take (nat n) (fq_list (pi_q (ps_pipe s)))"
  proof (cases "fq_list (pi_q (ps_pipe s)) = []")
    case True
    then show ?thesis using pipe_read_ok(1) [OF ok n True, of "ps_sig s t"] r(2) by (simp add: read_pass_def)
  next
    case False
    then show ?thesis using pipe_read_ok(2) [OF ok n False, of "ps_sig s t"] by (auto simp: read_pass_def)
  qed
next
  have inv: "pipe_inv s" by (rule preach_inv [OF assms])
  then have ok: "fq_ok (pi_q (ps_pipe s))" and sl: "\<And>t. t \<in> set (pi_waitq (ps_pipe s)) \<Longrightarrow> sleeps_ok s t" by (simp_all add: pipe_inv_def)
  fix t b d assume r: "ps_phase s t = PWriting b d" "\<not> fq_full (pi_q (ps_pipe s)) \<or> pi_nreader (ps_pipe s) = 0"
  show "t \<notin> set (pi_waitq (ps_pipe s))" using sl [of t] r by (auto simp: sleeps_ok_def)
  let ?p = "ps_pipe s" and ?q = "pi_q (ps_pipe s)"
  obtain r' q wq k where w: "pipe_write (ps_sig s t) b d ?p = Some (r', ?p\<lparr>pi_q := q, pi_waitq := wq\<rparr>)" "fq_ok q" "rsize q = rsize ?q"
    "fq_list q = fq_list ?q @ take k b" "k \<le> length b"
    "r' = Ret (d + int k) [] \<and> k = length b \<or> r' = Broken \<and> pi_nreader ?p = 0 \<and> k = 0 \<or>
     (r' = Ret EINTR [] \<and> ps_sig s t \<or> r' = Block (drop k b) (d + int k) \<and> \<not> ps_sig s t) \<and> k < length b \<and> pi_nreader ?p \<noteq> 0 \<and> fq_full q"
    using pipe_write_ok [OF ok, of "ps_sig s t" b d] by blast
  have "length (fq_list q) = length (fq_list ?q) + k" using w(4,5) by simp
  then have k: "nat (nchar q - nchar ?q) = k" using ok w(2) by (auto simp: nchar_def fq_ok_def)
  have "k = 0 \<Longrightarrow> fq_full q \<longleftrightarrow> fq_full ?q" using fq_full_list [OF w(2)] fq_full_list [OF ok] w(3,4) by simp
  then have "0 < k" if "r' = Block (drop k b) (d + int k)" using that w(6) r(2) by (cases "k = 0") auto
  then show "\<exists>s'. write_pass t b d s = Some s' \<and> (ps_phase s' t = PIdle \<or> length (ps_sent s) < length (ps_sent s'))"
    using w(1,5,6) k by (cases r') (auto simp: write_pass_def ps_sleep_def Let_def)
qed

text \<open>An interrupted write forgets what it wrote.  A write of more bytes than there is room returns \<^verbatim>\<open>EINTR\<close> when a signal is pending, although the
  bytes for which there was room are in the pipe and will be read; the caller cannot tell.\<close>

theorem pipe_write_interrupted:
  assumes "fq_ok (pi_q p)" "pi_nreader p \<noteq> 0" "nat (space (pi_q p)) < length buf" "0 < space (pi_q p)"
  shows "\<exists>q. pipe_write True buf 0 p = Some (Ret EINTR [], p\<lparr>pi_q := q, pi_waitq := []\<rparr>) \<and>
    fq_list q = fq_list (pi_q p) @ take (nat (space (pi_q p))) buf"
proof -
  obtain r q wq k where w: "pipe_write True buf 0 p = Some (r, p\<lparr>pi_q := q, pi_waitq := wq\<rparr>)" "fq_ok q" "rsize q = rsize (pi_q p)"
    "fq_list q = fq_list (pi_q p) @ take k buf" "k \<le> length buf" "k = 0 \<and> wq = pi_waitq p \<or> 0 < k \<and> wq = []"
    "r = Ret (int k) [] \<and> k = length buf \<or> r = Ret EINTR [] \<and> k < length buf \<and> fq_full q"
    using pipe_write_ok [OF assms(1), of True buf 0] assms(2) by auto
  have len: "int (length (fq_list q)) = int (length (fq_list (pi_q p))) + int k" using w(4,5) by simp
  have "int (length (fq_list q)) \<le> rsize q" using w(2) by (simp add: fq_ok_def)
  then have "int k \<le> space (pi_q p)" using len w(3) assms(1) by (simp add: space_def fq_ok_def)
  then have "k < length buf" using assms(3,4) by linarith
  then have r: "r = Ret EINTR []" "fq_full q" using w(7) by auto
  then have ks: "int k = space (pi_q p)" using len fq_full_list [OF w(2)] w(3) assms(1) by (simp add: space_def fq_ok_def)
  then have "nat (space (pi_q p)) = k" by simp
  then show ?thesis using w(1,4,6) r(1) assms(4) ks by (intro exI [of _ q]) auto
qed

definition demo_pipe :: psys where
  "demo_pipe = the (ps_init (replicate 4096 0))"

lemma demo_pipe_reach: "preach (replicate 4096 0) demo_pipe"
proof (rule preach.start)
  have "\<exists>q. fq_init (replicate 4096 0) (2 ^ 12) = Some q" using fq_init_ok [of "replicate 4096 0" 12] by auto
  then show "ps_init (replicate 4096 0) = Some demo_pipe" by (auto simp: demo_pipe_def ps_init_def pipe_ctor_def PIPESIZE_def)
qed

theorem pipe_stream_witness:
  "ps_got demo_pipe @ fq_list (pi_q (ps_pipe demo_pipe)) = ps_sent demo_pipe \<and> write_pass 3 [1, 2] 0 demo_pipe \<noteq> None"
proof -
  have "pi_waitq (ps_pipe demo_pipe) = []"
    using fq_init_ok [of "replicate 4096 0" 12] by (auto simp: demo_pipe_def ps_init_def pipe_ctor_def PIPESIZE_def)
  then show ?thesis using pipe_is_a_stream [OF demo_pipe_reach] by simp
qed
text \<open>A reader came first and went to sleep, then two bytes were written.\<close>

lemma demo_pipe_woken:
  "\<exists>s. preach (replicate 4096 0) s \<and> ps_phase s 1 = PReading 10 \<and> fq_list (pi_q (ps_pipe s)) = [7, 8]"
proof -
  let ?z = "replicate 4096 (0 :: u8)"
  obtain q where q: "fq_init ?z (2 ^ 12) = Some q" "fq_ok q" "fq_list q = []" "rsize q = 2 ^ 12"
    using fq_init_ok [of ?z 12] by auto
  define s0 where "s0 = \<lparr>ps_pipe = \<lparr>pi_q = q, pi_waitq = [], pi_nreader = 1, pi_nwriter = 1\<rparr>, ps_phase = (\<lambda>_. PIdle),
    ps_sig = (\<lambda>_. False), ps_sent = [], ps_got = []\<rparr>"
  have r0: "preach ?z s0" using q(1) by (intro preach.start) (simp add: ps_init_def pipe_ctor_def PIPESIZE_def s0_def)
  define s1 where "s1 = ps_sleep 1 (PReading 10) s0"
  have "read_pass 1 10 s0 = Some s1" using q by (simp add: read_pass_def s0_def s1_def pipe_read_def fq_empty_list)
  then have r1: "preach ?z s1" by (intro preach.step [OF r0] pstep.call_read) (simp_all add: s0_def)
  have q1: "pi_q (ps_pipe s1) = q" "pi_nreader (ps_pipe s1) = 1" "ps_sig s1 = (\<lambda>_. False)"
    by (simp_all add: s1_def s0_def ps_sleep_def)
  have o1: "fq_ok (pi_q (ps_pipe s1))" using q(2) q1(1) by simp
  obtain r q' wq k where w': "pipe_write False [7, 8] 0 (ps_pipe s1) = Some (r, (ps_pipe s1)\<lparr>pi_q := q', pi_waitq := wq\<rparr>)" "fq_ok q'"
    "rsize q' = rsize (pi_q (ps_pipe s1))" "fq_list q' = fq_list (pi_q (ps_pipe s1)) @ take k [7, 8]" "k \<le> length [7, 8 :: u8]"
    "r = Ret (0 + int k) [] \<and> k = length [7, 8 :: u8] \<or> r = Broken \<and> pi_nreader (ps_pipe s1) = 0 \<and> k = 0 \<or>
     (r = Ret EINTR [] \<and> False \<or> r = Block (drop k [7, 8]) (0 + int k) \<and> \<not> False) \<and> k < length [7, 8 :: u8] \<and> pi_nreader (ps_pipe s1) \<noteq> 0 \<and> fq_full q'"
    using pipe_write_ok [OF o1, of False "[7, 8]" 0] by blast
  have w: "pipe_write False [7, 8] 0 (ps_pipe s1) = Some (r, (ps_pipe s1)\<lparr>pi_q := q', pi_waitq := wq\<rparr>)" "fq_ok q'" "rsize q' = rsize q"
    "fq_list q' = fq_list q @ take k [7, 8]" "r = Ret (int k) [] \<and> k = 2 \<or> k < 2 \<and> fq_full q'"
    using w' q1 by auto
  have "\<not> fq_full q'" if "k < 2" using fq_full_list [OF w(2)] w(3,4) q(3,4) that by simp
  then have k: "r = Ret (int k) []" "k = 2" using w(5) by auto
  obtain s2 where s2: "write_pass 2 [7, 8] 0 s1 = Some s2" "pi_q (ps_pipe s2) = q'" "ps_phase s2 1 = PReading 10"
    using w(1) k q1 by (simp add: write_pass_def Let_def) (simp add: s1_def ps_sleep_def)
  have "pstep s1 s2" by (rule pstep.call_write [OF _ _ s2(1)]) (simp_all add: s1_def s0_def ps_sleep_def)
  then have "preach ?z s2" by (rule preach.step [OF r1])
  then show ?thesis using s2 w(4) q(3) k by auto
qed

theorem pipe_wakeup_witness:
  "\<exists>s s'. ps_phase s 1 = PReading 10 \<and> 1 \<notin> set (pi_waitq (ps_pipe s)) \<and> read_pass 1 10 s = Some s' \<and> ps_phase s' 1 = PIdle \<and>
    ps_got s' = ps_got s @ [7, 8]"
proof -
  obtain s where s: "preach (replicate 4096 0) s" "ps_phase s 1 = PReading 10" "fq_list (pi_q (ps_pipe s)) = [7, 8]"
    using demo_pipe_woken by blast
  show ?thesis using pipe_no_lost_wakeup [OF s(1)] s(2,3) by fastforce
qed

theorem pipe_interrupted_witness:
  "\<exists>p q. pipe_write True (replicate 5000 1) 0 p = Some (Ret EINTR [], p\<lparr>pi_q := q, pi_waitq := []\<rparr>) \<and> fq_list q = replicate 4096 1"
proof -
  obtain q where q: "fq_ok q" "fq_list q = []" "rsize q = 2 ^ 12"
    using fq_init_ok [of "replicate 4096 0" 12] by auto
  then have sp: "space q = 4096" by (auto simp: space_def fq_ok_def fq_list_def)
  let ?p = "\<lparr>pi_q = q, pi_waitq = [], pi_nreader = 1, pi_nwriter = 1\<rparr>"
  have "\<exists>q'. pipe_write True (replicate 5000 1) 0 ?p = Some (Ret EINTR [], ?p\<lparr>pi_q := q', pi_waitq := []\<rparr>) \<and>
    fq_list q' = fq_list (pi_q ?p) @ take (nat (space (pi_q ?p))) (replicate 5000 1)"
    by (rule pipe_write_interrupted) (use q sp in simp_all)
  then show ?thesis using q(2) sp by (intro exI [of _ ?p]) auto
qed


end
