(* ===== verification/Fs_Buf.thy ===== *)
theory Fs_Buf
  imports Prelude
begin

text \<open>
  The buffer cache (\<^verbatim>\<open>fs/buf.h\<close>, \<^verbatim>\<open>fs/buf.cc\<close>), with \<^verbatim>\<open>RWAHEAD\<close> 1 as in \<^verbatim>\<open>lib/config.h\<close>.

  A buffer is locked (\<^verbatim>\<open>IOLOCK\<close>) from the moment a request is queued for it until the device has served
  the request: \<open>b_io\<close> holds the request.  \<open>io_complete\<close> is the end of a request
  (\<^verbatim>\<open>req_t::~req_t\<close> in \<^verbatim>\<open>dev/blk/req.cc\<close>); it happens at some time between the queueing and the moment a
  task has waited for the buffer, and \<open>buf_wait\<close> performs it at the latest.  The device is a parameter: which
  device numbers have a driver and which transfers fail.  The statistics counters are left out.
\<close>

datatype rw = BREAD | BWRITE

record buf =
  b_state :: int
  b_refcnt :: int
  b_dev :: nat
  b_bno :: int
  b_data :: "u8 list"
  b_io :: "rw option"

record bcache =
  c_buf :: "nat \<Rightarrow> buf"
  c_hash :: "nat list list"
  c_free :: "nat list"
  c_all :: "nat list"
  c_disk :: "nat \<Rightarrow> int \<Rightarrow> u8 list"

record blkenv =
  e_driver :: "nat \<Rightarrow> bool"
  e_fails :: "rw \<Rightarrow> nat \<Rightarrow> int \<Rightarrow> bool"

definition BINVAL :: int where "BINVAL = 0"
definition BCLEAN :: int where "BCLEAN = 1"
definition BDIRTY :: int where "BDIRTY = 2"
definition BNOTALLOC :: int where "BNOTALLOC = -1"
definition MAXCHRDEV :: nat where "MAXCHRDEV = 8"
definition MAXBUFPERIO :: nat where "MAXBUFPERIO = 32"

definition major :: "nat \<Rightarrow> nat" where "major dev = dev div 256"
definition validdev :: "nat \<Rightarrow> bool" where "validdev dev \<longleftrightarrow> major dev < MAXCHRDEV"

definition b_upd :: "nat \<Rightarrow> (buf \<Rightarrow> buf) \<Rightarrow> bcache \<Rightarrow> bcache" where
  "b_upd b f c = c\<lparr>c_buf := (c_buf c)(b := f (c_buf c b))\<rparr>"

subsection \<open>Finding buffers\<close>

definition hashfunc :: "bcache \<Rightarrow> nat \<Rightarrow> int \<Rightarrow> nat" where
  "hashfunc c dev bno = nat ((int dev + bno) mod int (length (c_hash c)))"

definition findb :: "bcache \<Rightarrow> nat \<Rightarrow> int \<Rightarrow> nat option" where
  "findb c dev bno =
     List.find (\<lambda>b. b_dev (c_buf c b) = dev \<and> b_bno (c_buf c b) = bno) (c_hash c ! hashfunc c dev bno)"

definition locked :: "buf \<Rightarrow> bool" where "locked b \<longleftrightarrow> b_io b \<noteq> None"
definition ideal :: "buf \<Rightarrow> bool" where "ideal b \<longleftrightarrow> \<not> locked b \<and> b_state b = BDIRTY"

definition buf_hold :: "nat \<Rightarrow> bcache \<Rightarrow> bcache option" where
  "buf_hold b c = do { kassert (b_refcnt (c_buf c b) \<ge> 0); Some (b_upd b (\<lambda>x. x\<lparr>b_refcnt := b_refcnt x + 1\<rparr>) c) }"

definition buf_lose :: "nat \<Rightarrow> bcache \<Rightarrow> bcache option" where
  "buf_lose b c = do {
     kassert (b_refcnt (c_buf c b) > 0);
     kassert (findb c (b_dev (c_buf c b)) (b_bno (c_buf c b)) \<noteq> None);
     let c1 = b_upd b (\<lambda>x. x\<lparr>b_refcnt := b_refcnt x - 1\<rparr>) c;
     Some (if b_refcnt (c_buf c1 b) \<noteq> 0 \<or> b \<in> set (c_free c1) then c1 else c1\<lparr>c_free := c_free c1 @ [b]\<rparr>) }"

definition buf_lose2 :: "nat \<Rightarrow> bcache \<Rightarrow> bcache option" where
  "buf_lose2 b c = buf_lose b (b_upd b (\<lambda>x. x\<lparr>b_state := BDIRTY\<rparr>) c)"

subsection \<open>Transfers\<close>

definition io_complete :: "blkenv \<Rightarrow> nat \<Rightarrow> bcache \<Rightarrow> bcache" where
  "io_complete E b c = (let x = c_buf c b in case b_io x of
     None \<Rightarrow> c
   | Some BREAD \<Rightarrow>
       if e_fails E BREAD (b_dev x) (b_bno x) then b_upd b (\<lambda>x. x\<lparr>b_state := BINVAL, b_io := None\<rparr>) c
       else b_upd b (\<lambda>x. x\<lparr>b_state := BCLEAN, b_data := c_disk c (b_dev x) (b_bno x), b_io := None\<rparr>) c
   | Some BWRITE \<Rightarrow>
       if e_fails E BWRITE (b_dev x) (b_bno x) then b_upd b (\<lambda>x. x\<lparr>b_state := BINVAL, b_io := None\<rparr>) c
       else (b_upd b (\<lambda>x. x\<lparr>b_state := BCLEAN, b_io := None\<rparr>) c)
         \<lparr>c_disk := (c_disk c)(b_dev x := (c_disk c (b_dev x))(b_bno x := b_data x))\<rparr>)"

definition buf_wait :: "blkenv \<Rightarrow> nat \<Rightarrow> bcache \<Rightarrow> bcache" where
  "buf_wait E b c = (if locked (c_buf c b) then io_complete E b c else c)"

definition rw_one :: "blkenv \<Rightarrow> rw \<Rightarrow> nat \<Rightarrow> nat \<Rightarrow> bcache \<Rightarrow> bcache option" where
  "rw_one E rw b0 b c = do {
     kassert (b_dev (c_buf c b) = b_dev (c_buf c b0));
     kassert (b_refcnt (c_buf c b) > 0);
     let c1 = buf_wait E b c;
     Some (if b_state (c_buf c1 b) \<noteq> (if rw = BREAD then BINVAL else BDIRTY) then c1
           else b_upd b (\<lambda>x. x\<lparr>b_io := Some rw\<rparr>) c1) }"

definition llrwab :: "blkenv \<Rightarrow> rw \<Rightarrow> nat list \<Rightarrow> bcache \<Rightarrow> bcache option" where
  "llrwab E rw bs c = (case bs of
     [] \<Rightarrow> Some c
   | b0 # _ \<Rightarrow>
       if major (b_dev (c_buf c b0)) = 0 then Some c
       else if \<not> e_driver E (b_dev (c_buf c b0)) then Some c
       else foldM (rw_one E rw b0) bs c)"

definition wait_all :: "blkenv \<Rightarrow> nat list \<Rightarrow> bcache \<Rightarrow> bcache" where
  "wait_all E bs c = fold (buf_wait E) bs c"

definition llreadab :: "blkenv \<Rightarrow> nat list \<Rightarrow> bcache \<Rightarrow> bcache option" where
  "llreadab E bs c = llrwab E BREAD bs c"

definition llreadb :: "blkenv \<Rightarrow> nat list \<Rightarrow> bcache \<Rightarrow> bcache option" where
  "llreadb E bs c = do { c1 \<leftarrow> llrwab E BREAD bs c; Some (wait_all E bs c1) }"

definition llwriteb :: "blkenv \<Rightarrow> nat list \<Rightarrow> bcache \<Rightarrow> bcache option" where
  "llwriteb E bs c = do { c1 \<leftarrow> llrwab E BWRITE bs c; Some (wait_all E bs c1) }"

text \<open>
  \<^verbatim>\<open>writeb\<close> writes a buffer together with its dirty neighbours on the device.  Taking a reference
  changes neither \<^verbatim>\<open>findb\<close> nor \<^verbatim>\<open>ideal\<close>, so the neighbours are collected first and held afterwards.
\<close>

fun cluster_right :: "bcache \<Rightarrow> nat \<Rightarrow> int \<Rightarrow> nat \<Rightarrow> nat list" where
  "cluster_right c dev bno 0 = []"
| "cluster_right c dev bno (Suc n) = (case findb c dev bno of
     None \<Rightarrow> []
   | Some b \<Rightarrow> if ideal (c_buf c b) then b # cluster_right c dev (bno + 1) n else [])"

fun cluster_left :: "bcache \<Rightarrow> nat \<Rightarrow> int \<Rightarrow> nat \<Rightarrow> nat list" where
  "cluster_left c dev bno 0 = []"
| "cluster_left c dev bno (Suc n) = (case findb c dev bno of
     None \<Rightarrow> []
   | Some b \<Rightarrow> if ideal (c_buf c b) then cluster_left c dev (bno - 1) n @ [b] else [])"

definition cluster :: "nat \<Rightarrow> bcache \<Rightarrow> nat list" where
  "cluster core c = (let dev = b_dev (c_buf c core); bno = b_bno (c_buf c core) in
     cluster_left c dev (bno - 1) (MAXBUFPERIO div 2) @ core # cluster_right c dev (bno + 1) (MAXBUFPERIO div 2 - 1))"

definition writeb :: "blkenv \<Rightarrow> nat \<Rightarrow> bcache \<Rightarrow> bcache option" where
  "writeb E core c =
     (if major (b_dev (c_buf c core)) = 0 then Some c
      else do {
        let bs = cluster core c;
        c1 \<leftarrow> foldM buf_hold bs c;
        c2 \<leftarrow> llwriteb E bs c1;
        foldM buf_lose bs c2 })"

subsection \<open>Getting a buffer\<close>

text \<open>What the search through the free queue, from the least recently used end, decides.\<close>

datatype choice = Panic | WaitFor nat nat | Flush nat nat | Take nat

primrec victim :: "bcache \<Rightarrow> nat \<Rightarrow> nat list \<Rightarrow> choice" where
  "victim c candidates [] = Panic"
| "victim c candidates (b # bs) =
     (if b_refcnt (c_buf c b) \<noteq> 0 then victim c candidates bs
      else let candidates' = (if candidates > 0 then candidates - 1 else candidates) in
        if locked (c_buf c b) then if candidates' \<noteq> 0 then victim c candidates' bs else WaitFor b candidates'
        else if b_state (c_buf c b) = BDIRTY then Flush b candidates'
        else Take b)"

definition free_unlink :: "nat \<Rightarrow> bcache \<Rightarrow> bcache" where
  "free_unlink b c = c\<lparr>c_free := remove1 b (c_free c)\<rparr>"

definition recycle :: "nat \<Rightarrow> nat \<Rightarrow> int \<Rightarrow> bcache \<Rightarrow> bcache option" where
  "recycle b dev bno c = do {
     c1 \<leftarrow> buf_hold b c;
     let c2 = free_unlink b c1;
     let old = hashfunc c2 (b_dev (c_buf c2 b)) (b_bno (c_buf c2 b));
     let c3 = c2\<lparr>c_hash := (c_hash c2)[old := remove1 b (c_hash c2 ! old)]\<rparr>;
     let new = hashfunc c3 dev bno;
     let c4 = c3\<lparr>c_hash := (c_hash c3)[new := c_hash c3 ! new @ [b]]\<rparr>;
     Some (b_upd b (\<lambda>x. x\<lparr>b_state := BINVAL, b_dev := dev, b_bno := bno\<rparr>) c4) }"

definition take_found :: "blkenv \<Rightarrow> nat \<Rightarrow> bcache \<Rightarrow> bcache option" where
  "take_found E b c = do {
     c1 \<leftarrow> buf_hold b c;
     let c2 = buf_wait E b c1;
     Some (if b \<in> set (c_free c2) then free_unlink b c2 else c2) }"

definition flush :: "blkenv \<Rightarrow> nat \<Rightarrow> nat \<Rightarrow> bcache \<Rightarrow> bcache option" where
  "flush E b candidates c = do {
     c1 \<leftarrow> buf_hold b c;
     c2 \<leftarrow> writeb E b c1;
     buf_lose b (if candidates = 0 then buf_wait E b c2 else c2) }"

partial_function (option) getb_loop :: "blkenv \<Rightarrow> nat \<Rightarrow> int \<Rightarrow> nat \<Rightarrow> bcache \<Rightarrow> (nat \<times> bcache) option" where
  "getb_loop E dev bno candidates c = (case findb c dev bno of
     Some b \<Rightarrow> map_option (Pair b) (take_found E b c)
   | None \<Rightarrow> (case victim c candidates (c_free c) of
       Panic \<Rightarrow> None
     | WaitFor b n \<Rightarrow> getb_loop E dev bno n (buf_wait E b c)
     | Flush b n \<Rightarrow> Option.bind (flush E b n c) (getb_loop E dev bno n)
     | Take b \<Rightarrow> map_option (Pair b) (recycle b dev bno c)))"

definition getb :: "blkenv \<Rightarrow> nat \<Rightarrow> int \<Rightarrow> bcache \<Rightarrow> (nat \<times> bcache) option" where
  "getb E dev bno c = do { kassert (bno \<noteq> BNOTALLOC); getb_loop E dev bno 8 c }"

definition readb :: "blkenv \<Rightarrow> nat \<Rightarrow> int \<Rightarrow> bcache \<Rightarrow> (int \<times> nat option \<times> bcache) option" where
  "readb E dev bno c =
     (if \<not> validdev dev then Some (EINVAL, None, c)
      else do {
        (b, c1) \<leftarrow> getb E dev bno c;
        if b_state (c_buf c1 b) \<noteq> BINVAL then Some (0, Some b, c1)
        else do {
          c2 \<leftarrow> llreadb E [b] c1;
          if b_state (c_buf c2 b) = BINVAL then do { c3 \<leftarrow> buf_lose b c2; Some (EIO, None, c3) }
          else Some (0, Some b, c2) } })"

text \<open>\<^verbatim>\<open>syncb(0xffff)\<close> is every device.\<close>

definition sync_one :: "blkenv \<Rightarrow> nat \<Rightarrow> nat \<Rightarrow> bcache \<Rightarrow> bcache option" where
  "sync_one E dev b c =
     (if dev \<noteq> 0xffff \<and> dev \<noteq> b_dev (c_buf c b) then Some c
      else do { c1 \<leftarrow> buf_hold b c; c2 \<leftarrow> writeb E b c1; buf_lose b c2 })"

definition syncb :: "blkenv \<Rightarrow> nat \<Rightarrow> bcache \<Rightarrow> bcache option" where
  "syncb E dev c = foldM (sync_one E dev) (c_all c) c"

definition syncb_all :: "blkenv \<Rightarrow> bcache \<Rightarrow> bcache option" where
  "syncb_all E c = syncb E 0xffff c"

definition buf_init :: "int \<Rightarrow> buf" where
  "buf_init bno = \<lparr>b_state = BINVAL, b_refcnt = 0, b_dev = 0, b_bno = bno, b_data = replicate 1024 0, b_io = None\<rparr>"

definition buf_setup :: "nat \<Rightarrow> bcache \<Rightarrow> bcache" where
  "buf_setup i c = (let h = hashfunc c 0 (int i) in
     (b_upd i (\<lambda>_. buf_init (int i)) c)\<lparr>c_hash := (c_hash c)[h := c_hash c ! h @ [i]],
        c_free := c_free c @ [i], c_all := c_all c @ [i]\<rparr>)"

definition buffercache :: "nat \<Rightarrow> (nat \<Rightarrow> int \<Rightarrow> u8 list) \<Rightarrow> bcache" where
  "buffercache nbuf disk = fold buf_setup [0..<nbuf]
     \<lparr>c_buf = (\<lambda>_. buf_init 0), c_hash = replicate nbuf [], c_free = [], c_all = [], c_disk = disk\<rparr>"

subsection \<open>The invariant and the contents\<close>

definition buf_ok :: "blkenv \<Rightarrow> (nat \<Rightarrow> int \<Rightarrow> u8 list) \<Rightarrow> buf \<Rightarrow> bool" where
  "buf_ok E disk x \<longleftrightarrow> b_refcnt x \<ge> 0 \<and> b_state x \<in> {BINVAL, BCLEAN, BDIRTY} \<and>
     (b_state x = BCLEAN \<longrightarrow> b_data x = disk (b_dev x) (b_bno x)) \<and>
     (b_state x = BDIRTY \<longrightarrow> major (b_dev x) \<noteq> 0 \<and> e_driver E (b_dev x)) \<and>
     (b_io x = Some BREAD \<longrightarrow> b_state x = BINVAL) \<and> (b_io x = Some BWRITE \<longrightarrow> b_state x = BDIRTY)"

definition links_ok :: "bcache \<Rightarrow> bool" where
  "links_ok c \<longleftrightarrow> c_hash c \<noteq> [] \<and> distinct (c_free c) \<and> set (c_free c) \<subseteq> set (c_all c) \<and>
     (\<forall>b\<in>set (c_all c). \<forall>i<length (c_hash c).
        b \<in> set (c_hash c ! i) \<longleftrightarrow> i = hashfunc c (b_dev (c_buf c b)) (b_bno (c_buf c b))) \<and>
     (\<forall>i<length (c_hash c). set (c_hash c ! i) \<subseteq> set (c_all c) \<and> distinct (c_hash c ! i)) \<and>
     (\<forall>b\<in>set (c_all c). \<forall>b'\<in>set (c_all c). b_dev (c_buf c b) = b_dev (c_buf c b') \<and>
        b_bno (c_buf c b) = b_bno (c_buf c b') \<longrightarrow> b = b') \<and>
     (\<forall>b\<in>set (c_all c). b_refcnt (c_buf c b) = 0 \<longrightarrow> b \<in> set (c_free c))"

definition cache_ok :: "blkenv \<Rightarrow> bcache \<Rightarrow> bool" where
  "cache_ok E c \<longleftrightarrow> links_ok c \<and> (\<forall>b\<in>set (c_all c). buf_ok E (c_disk c) (c_buf c b))"

text \<open>What a block holds for its readers: the buffer's data when a valid buffer has the block, the disk otherwise.\<close>

definition view :: "bcache \<Rightarrow> nat \<Rightarrow> int \<Rightarrow> u8 list" where
  "view c dev bno = (case findb c dev bno of
     Some b \<Rightarrow> if b_state (c_buf c b) = BINVAL then c_disk c dev bno else b_data (c_buf c b)
   | None \<Rightarrow> c_disk c dev bno)"

lemmas bstates [simp] = BINVAL_def BCLEAN_def BDIRTY_def

lemma b_upd_simps [simp]:
  "c_buf (b_upd b f c) x = (if x = b then f (c_buf c b) else c_buf c x)"
  "c_hash (b_upd b f c) = c_hash c" "c_free (b_upd b f c) = c_free c" "c_all (b_upd b f c) = c_all c"
  "c_disk (b_upd b f c) = c_disk c"
  by (simp_all add: b_upd_def)

lemma hashfunc_cong: "c_hash c' = c_hash c \<Longrightarrow> hashfunc c' = hashfunc c"
  by (simp add: hashfunc_def fun_eq_iff)

lemma hashfunc_less: "c_hash c \<noteq> [] \<Longrightarrow> hashfunc c dev bno < length (c_hash c)"
  by (simp add: hashfunc_def nat_less_iff)

lemma find_Some_iff_unique:
  assumes "\<And>x y. x \<in> set xs \<Longrightarrow> y \<in> set xs \<Longrightarrow> P x \<Longrightarrow> P y \<Longrightarrow> x = y"
  shows "List.find P xs = Some x \<longleftrightarrow> x \<in> set xs \<and> P x"
  using assms by (induction xs) auto

lemma cache_linksD:
  assumes "links_ok c"
  shows "c_hash c \<noteq> []" "distinct (c_free c)" "b \<in> set (c_free c) \<Longrightarrow> b \<in> set (c_all c)"
    "b \<in> set (c_all c) \<Longrightarrow> i < length (c_hash c) \<Longrightarrow>
       b \<in> set (c_hash c ! i) \<longleftrightarrow> i = hashfunc c (b_dev (c_buf c b)) (b_bno (c_buf c b))"
    "i < length (c_hash c) \<Longrightarrow> b \<in> set (c_hash c ! i) \<Longrightarrow> b \<in> set (c_all c)"
    "i < length (c_hash c) \<Longrightarrow> distinct (c_hash c ! i)"
    "b \<in> set (c_all c) \<Longrightarrow> b' \<in> set (c_all c) \<Longrightarrow> b_dev (c_buf c b) = b_dev (c_buf c b') \<Longrightarrow>
       b_bno (c_buf c b) = b_bno (c_buf c b') \<Longrightarrow> b = b'"
    "b \<in> set (c_all c) \<Longrightarrow> b_refcnt (c_buf c b) = 0 \<Longrightarrow> b \<in> set (c_free c)"
  using assms unfolding links_ok_def by blast+

lemma findb_iff:
  assumes "links_ok c"
  shows "findb c dev bno = Some b \<longleftrightarrow> b \<in> set (c_all c) \<and> b_dev (c_buf c b) = dev \<and> b_bno (c_buf c b) = bno"
proof -
  let ?i = "hashfunc c dev bno"
  note d = cache_linksD [OF assms]
  have i: "?i < length (c_hash c)" using d(1) by (rule hashfunc_less)
  have "findb c dev bno = Some b \<longleftrightarrow> b \<in> set (c_hash c ! ?i) \<and> b_dev (c_buf c b) = dev \<and> b_bno (c_buf c b) = bno"
    unfolding findb_def using d(5) [OF i] d(7) by (intro find_Some_iff_unique) metis
  moreover have "b \<in> set (c_hash c ! ?i)" if "b \<in> set (c_all c)" "b_dev (c_buf c b) = dev" "b_bno (c_buf c b) = bno"
    using d(4) [OF that(1) i] that(2,3) by simp
  ultimately show ?thesis using d(5) [OF i] by auto
qed

lemma findb_in:
  "links_ok c \<Longrightarrow> findb c dev bno = Some b \<Longrightarrow> b \<in> set (c_all c) \<and> b_dev (c_buf c b) = dev \<and> b_bno (c_buf c b) = bno"
  by (simp add: findb_iff)

lemma view_of:
  assumes "links_ok c" "b \<in> set (c_all c)"
  shows "view c (b_dev (c_buf c b)) (b_bno (c_buf c b)) =
    (if b_state (c_buf c b) = BINVAL then c_disk c (b_dev (c_buf c b)) (b_bno (c_buf c b)) else b_data (c_buf c b))"
  using findb_iff [OF assms(1), of "b_dev (c_buf c b)" "b_bno (c_buf c b)" b] assms(2) by (simp add: view_def)

text \<open>Changes to one buffer that leave its place alone.\<close>

lemma cache_links_upd:
  assumes "links_ok c" "c_hash c' = c_hash c" "c_free c' = c_free c" "c_all c' = c_all c"
    "\<And>x. b_dev (c_buf c' x) = b_dev (c_buf c x)" "\<And>x. b_bno (c_buf c' x) = b_bno (c_buf c x)"
    "\<And>x. x \<in> set (c_all c) \<Longrightarrow> b_refcnt (c_buf c' x) = 0 \<Longrightarrow> x \<in> set (c_free c)"
  shows "links_ok c'"
  using assms(1) unfolding links_ok_def assms(2-6) hashfunc_cong [OF assms(2)] using assms(7) by blast

lemma findb_cong:
  assumes "c_hash c' = c_hash c" "\<And>x. b_dev (c_buf c' x) = b_dev (c_buf c x)" "\<And>x. b_bno (c_buf c' x) = b_bno (c_buf c x)"
  shows "findb c' = findb c"
  by (simp add: fun_eq_iff findb_def assms hashfunc_cong [OF assms(1)])

definition same_places :: "bcache \<Rightarrow> bcache \<Rightarrow> bool" where
  "same_places c c' \<longleftrightarrow> c_hash c' = c_hash c \<and> c_free c' = c_free c \<and> c_all c' = c_all c \<and>
     (\<forall>x. b_dev (c_buf c' x) = b_dev (c_buf c x) \<and> b_bno (c_buf c' x) = b_bno (c_buf c x) \<and>
          b_refcnt (c_buf c' x) = b_refcnt (c_buf c x))"

lemma same_places_refl [simp]: "same_places c c"
  by (simp add: same_places_def)

lemma same_places_trans: "same_places c1 c2 \<Longrightarrow> same_places c2 c3 \<Longrightarrow> same_places c1 c3"
  by (simp add: same_places_def)

lemma same_places_links: "same_places c c' \<Longrightarrow> links_ok c \<Longrightarrow> links_ok c'"
  by (rule cache_links_upd [of c c']) (auto simp: same_places_def dest: cache_linksD(8))

lemma same_places_findb: "same_places c c' \<Longrightarrow> findb c' = findb c"
  by (rule findb_cong) (auto simp: same_places_def)

text \<open>The end of a transfer.  A failed write is the one event that changes what readers see.\<close>

definition no_write_errors :: "blkenv \<Rightarrow> bool" where
  "no_write_errors E \<longleftrightarrow> (\<forall>dev bno. \<not> e_fails E BWRITE dev bno)"

lemma buf_wait_places [simp]: "same_places c (buf_wait E b c)"
  by (auto simp: same_places_def buf_wait_def io_complete_def Let_def split: option.splits rw.splits)

lemma buf_wait_others: "x \<noteq> b \<Longrightarrow> c_buf (buf_wait E b c) x = c_buf c x"
  by (auto simp: buf_wait_def io_complete_def Let_def split: option.splits rw.splits)

lemma buf_wait_unlocks [simp]: "b_io (c_buf (buf_wait E b c) b) = None"
  by (auto simp: buf_wait_def locked_def io_complete_def Let_def split: option.splits rw.splits)

lemma buf_wait_state:
  "locked (c_buf c b) \<Longrightarrow> b_state (c_buf (buf_wait E b c) b) \<noteq> BDIRTY"
  "\<not> locked (c_buf c b) \<Longrightarrow> buf_wait E b c = c"
  by (auto simp: buf_wait_def locked_def io_complete_def Let_def split: option.splits rw.splits)

lemma buf_wait_ok:
  assumes ok: "cache_ok E c" and b: "b \<in> set (c_all c)"
  shows "cache_ok E (buf_wait E b c)"
proof -
  have l: "links_ok c" and bo: "\<And>x. x \<in> set (c_all c) \<Longrightarrow> buf_ok E (c_disk c) (c_buf c x)"
    using ok by (auto simp: cache_ok_def)
  have u: "b_dev (c_buf c x) = b_dev (c_buf c b) \<Longrightarrow> b_bno (c_buf c x) = b_bno (c_buf c b) \<Longrightarrow> x = b"
    if "x \<in> set (c_all c)" for x using l b that unfolding links_ok_def by blast
  have "buf_ok E (c_disk (buf_wait E b c)) (c_buf (buf_wait E b c) x)" if x: "x \<in> set (c_all c)" for x
    using bo [OF x] bo [OF b] u [OF x]
    by (auto simp: buf_wait_def io_complete_def Let_def buf_ok_def split: option.splits rw.splits)
  then show ?thesis
    using same_places_links [OF buf_wait_places l] buf_wait_places [of c E b]
    by (simp add: cache_ok_def same_places_def)
qed

lemma buf_wait_view:
  assumes ok: "cache_ok E c" and b: "b \<in> set (c_all c)" and ne: "no_write_errors E"
  shows "view (buf_wait E b c) = view c"
proof (intro ext)
  fix dev bno
  let ?c = "buf_wait E b c"
  have l: "links_ok c" and bo: "buf_ok E (c_disk c) (c_buf c b)" using ok b by (auto simp: cache_ok_def)
  have f: "findb ?c dev bno = findb c dev bno" by (simp add: same_places_findb [OF buf_wait_places])
  show "view ?c dev bno = view c dev bno"
  proof (cases "findb c dev bno = Some b")
    case True
    then have "b_dev (c_buf c b) = dev" "b_bno (c_buf c b) = bno" using findb_iff [OF l] by auto
    then show ?thesis
      using True f bo ne unfolding view_def
      by (auto simp: buf_wait_def io_complete_def Let_def buf_ok_def no_write_errors_def split: option.splits rw.splits)
  next
    case False
    then have "\<not> (b_dev (c_buf c b) = dev \<and> b_bno (c_buf c b) = bno)" using findb_iff [OF l] b by auto
    then have "c_disk ?c dev bno = c_disk c dev bno"
      by (auto simp: buf_wait_def io_complete_def Let_def split: option.splits rw.splits)
    with False f show ?thesis unfolding view_def by (auto simp: buf_wait_others split: option.splits)
  qed
qed

subsection \<open>References\<close>

definition shift :: "(nat \<Rightarrow> int) \<Rightarrow> bcache \<Rightarrow> bcache" where
  "shift g c = c\<lparr>c_buf := (\<lambda>x. (c_buf c x)\<lparr>b_refcnt := b_refcnt (c_buf c x) + g x\<rparr>)\<rparr>"

lemma shift_simps [simp]:
  "c_buf (shift g c) x = (c_buf c x)\<lparr>b_refcnt := b_refcnt (c_buf c x) + g x\<rparr>"
  "c_hash (shift g c) = c_hash c" "c_free (shift g c) = c_free c" "c_all (shift g c) = c_all c"
  "c_disk (shift g c) = c_disk c"
  by (simp_all add: shift_def)

lemma shift_shift: "shift g (shift h c) = shift (\<lambda>x. h x + g x) c"
  by (simp add: shift_def algebra_simps)

lemma shift_0: "shift (\<lambda>_. 0) c = c"
  by (simp add: shift_def)

lemma findb_shift [simp]: "findb (shift g c) = findb c"
  by (rule findb_cong) simp_all

lemma view_shift [simp]: "view (shift g c) = view c"
  by (simp add: view_def fun_eq_iff split: option.splits)

lemma cache_ok_shift:
  assumes "cache_ok E c" "\<And>x. x \<in> set (c_all c) \<Longrightarrow> b_refcnt (c_buf c x) + g x \<ge> 0"
    "\<And>x. x \<in> set (c_all c) \<Longrightarrow> b_refcnt (c_buf c x) + g x = 0 \<Longrightarrow> x \<in> set (c_free c)"
  shows "cache_ok E (shift g c)"
proof -
  have "links_ok (shift g c)" by (rule cache_links_upd [of c]) (use assms(1,3) in \<open>auto simp: cache_ok_def\<close>)
  with assms(1,2) show ?thesis by (simp add: cache_ok_def buf_ok_def)
qed

lemma hold_ok: "cache_ok E c \<Longrightarrow> cache_ok E (shift (\<lambda>x. if x = b then 1 else 0) c)"
  by (rule cache_ok_shift) (auto simp: cache_ok_def buf_ok_def dest: cache_linksD(8) split: if_splits)

lemma buf_hold_shift:
  "b_refcnt (c_buf c b) \<ge> 0 \<Longrightarrow> buf_hold b c = Some (shift (\<lambda>x. if x = b then 1 else 0) c)"
  by (simp add: buf_hold_def b_upd_def shift_def fun_eq_iff)

lemma hold_all_shift:
  "(\<And>b. b \<in> set bs \<Longrightarrow> b_refcnt (c_buf c b) \<ge> 0) \<Longrightarrow>
   foldM buf_hold bs c = Some (shift (\<lambda>x. int (count_list bs x)) c)"
proof (induction bs arbitrary: c)
  case (Cons b bs)
  have "foldM buf_hold bs (shift (\<lambda>x. if x = b then 1 else 0) c) =
      Some (shift (\<lambda>x. int (count_list bs x)) (shift (\<lambda>x. if x = b then 1 else 0) c))"
    by (rule Cons.IH) (use Cons.prems in auto)
  then show ?case
    using Cons.prems by (simp add: buf_hold_shift shift_shift) (rule arg_cong [of _ _ "\<lambda>g. shift g c"], auto)
qed (simp add: shift_0)

lemma findb_self: "links_ok c \<Longrightarrow> b \<in> set (c_all c) \<Longrightarrow> findb c (b_dev (c_buf c b)) (b_bno (c_buf c b)) = Some b"
  by (simp add: findb_iff)

lemma buf_lose_shift:
  assumes "links_ok c" "b \<in> set (c_all c)" "b_refcnt (c_buf c b) > 0"
    "b_refcnt (c_buf c b) = 1 \<Longrightarrow> b \<in> set (c_free c)"
  shows "buf_lose b c = Some (shift (\<lambda>x. if x = b then -1 else 0) c)"
proof -
  have "b_upd b (\<lambda>x. x\<lparr>b_refcnt := b_refcnt x - 1\<rparr>) c = shift (\<lambda>x. if x = b then -1 else 0) c"
    by (simp add: b_upd_def shift_def fun_eq_iff)
  with assms show ?thesis by (auto simp: buf_lose_def findb_self Let_def)
qed

lemma lose_all_shift:
  assumes "links_ok c" "set bs \<subseteq> set (c_all c)" "\<And>b. b \<in> set bs \<Longrightarrow> b_refcnt (c_buf c b) \<ge> int (count_list bs b)"
    "\<And>b. b \<in> set bs \<Longrightarrow> b_refcnt (c_buf c b) = int (count_list bs b) \<Longrightarrow> b \<in> set (c_free c)"
  shows "foldM buf_lose bs c = Some (shift (\<lambda>x. - int (count_list bs x)) c)"
  using assms
proof (induction bs arbitrary: c)
  case (Cons b bs)
  let ?s = "\<lambda>x. if x = b then -1 else 0 :: int"
  have pos: "b_refcnt (c_buf c b) > 0" using Cons.prems(3) [of b] by simp
  have one: "b \<in> set (c_free c)" if "b_refcnt (c_buf c b) = 1"
  proof -
    have "count_list bs b = 0" using Cons.prems(3) [of b] that by simp
    then show ?thesis using Cons.prems(4) [of b] that by simp
  qed
  have 1: "buf_lose b c = Some (shift ?s c)"
    by (rule buf_lose_shift) (use Cons.prems(1,2) pos one in auto)
  have z: "x \<in> set (c_free c)" if "x \<in> set (b # bs)" "b_refcnt (c_buf c x) = int (count_list (b # bs) x)" for x
    using Cons.prems(4) that by blast
  have l: "links_ok (shift ?s c)"
    by (rule cache_links_upd [OF Cons.prems(1)]) (use one cache_linksD(8) [OF Cons.prems(1)] in \<open>auto split: if_splits\<close>)
  have "foldM buf_lose bs (shift ?s c) = Some (shift (\<lambda>x. - int (count_list bs x)) (shift ?s c))"
  proof (rule Cons.IH [OF l])
    show "set bs \<subseteq> set (c_all (shift ?s c))" using Cons.prems(2) by simp
    show "int (count_list bs x) \<le> b_refcnt (c_buf (shift ?s c) x)" if "x \<in> set bs" for x
      using Cons.prems(3) [of x] that by (simp split: if_splits)
    show "x \<in> set (c_free (shift ?s c))" if "x \<in> set bs" "b_refcnt (c_buf (shift ?s c) x) = int (count_list bs x)" for x
      using z [of x] that by (auto split: if_splits)
  qed
  moreover have "shift (\<lambda>x. - int (count_list bs x)) (shift ?s c) = shift (\<lambda>x. - int (count_list (b # bs) x)) c"
    unfolding shift_shift by (rule arg_cong [of _ _ "\<lambda>g. shift g c"]) auto
  ultimately show ?case using 1 by simp
qed (simp add: shift_0)

lemma buf_lose_ok:
  assumes ok: "cache_ok E c" and b: "b \<in> set (c_all c)" and r: "b_refcnt (c_buf c b) > 0"
  obtains c' where "buf_lose b c = Some c'" "cache_ok E c'" "view c' = view c" "c_all c' = c_all c"
    "c_disk c' = c_disk c" "c_buf c' = c_buf (shift (\<lambda>x. if x = b then -1 else 0) c)"
    "findb c' = findb c"
proof -
  let ?s = "shift (\<lambda>x. if x = b then -1 else 0) c"
  have l: "links_ok c" using ok by (simp add: cache_ok_def)
  note d = cache_linksD [OF l]
  have e: "b_upd b (\<lambda>x. x\<lparr>b_refcnt := b_refcnt x - 1\<rparr>) c = ?s"
    by (simp add: b_upd_def shift_def fun_eq_iff)
  show ?thesis
  proof (cases "b_refcnt (c_buf c b) = 1 \<longrightarrow> b \<in> set (c_free c)")
    case True
    have "cache_ok E ?s"
      by (rule cache_ok_shift [OF ok]) (use True r d(8) ok in \<open>auto simp: cache_ok_def buf_ok_def split: if_splits\<close>)
    then show ?thesis using True buf_lose_shift [OF l b r] by (intro that [of ?s]) auto
  next
    case False
    let ?c = "?s\<lparr>c_free := c_free c @ [b]\<rparr>"
    have h: "hashfunc ?c = hashfunc c" by (rule hashfunc_cong) simp
    have "links_ok ?c"
      unfolding links_ok_def h
    proof (intro conjI ballI allI impI)
      show "distinct (c_free ?c)" "set (c_free ?c) \<subseteq> set (c_all ?c)" using d(2,3) False b by auto
      show "x \<in> set (c_free ?c)" if "x \<in> set (c_all ?c)" "b_refcnt (c_buf ?c x) = 0" for x
        using d(8) [of x] that by (auto split: if_splits)
      show "x = y" if "x \<in> set (c_all ?c)" "y \<in> set (c_all ?c)" "b_dev (c_buf ?c x) = b_dev (c_buf ?c y) \<and>
          b_bno (c_buf ?c x) = b_bno (c_buf ?c y)" for x y
        using d(7) [of x y] that by simp
    qed (use d(1) d(4-6) in auto)
    moreover have "buf_ok E (c_disk c) (c_buf ?s x)" if "x \<in> set (c_all c)" for x
      using ok that r by (auto simp: cache_ok_def buf_ok_def)
    ultimately have "cache_ok E ?c" by (simp add: cache_ok_def)
    moreover have "buf_lose b c = Some ?c" using False l b r e by (auto simp: buf_lose_def findb_self Let_def)
    moreover have f: "findb ?c = findb c" by (rule findb_cong) simp_all
    moreover have "view ?c = view c" unfolding view_def f by (simp add: fun_eq_iff split: option.splits)
    ultimately show ?thesis by (intro that [of ?c]) auto
  qed
qed

subsection \<open>Groups of transfers\<close>

text \<open>\<open>steady E c c'\<close>: the cache moved from \<open>c\<close> to \<open>c'\<close> without a reader noticing.\<close>

definition steady :: "blkenv \<Rightarrow> bcache \<Rightarrow> bcache \<Rightarrow> bool" where
  "steady E c c' \<longleftrightarrow> cache_ok E c' \<and> same_places c c' \<and> view c' = view c"

lemma steady_refl: "cache_ok E c \<Longrightarrow> steady E c c"
  by (simp add: steady_def)

lemma steady_trans: "steady E c1 c2 \<Longrightarrow> steady E c2 c3 \<Longrightarrow> steady E c1 c3"
  by (auto simp: steady_def intro: same_places_trans)

lemma wait_steady: "cache_ok E c \<Longrightarrow> b \<in> set (c_all c) \<Longrightarrow> no_write_errors E \<Longrightarrow> steady E c (buf_wait E b c)"
  by (simp add: steady_def buf_wait_ok buf_wait_view)

lemma wait_all_steady:
  assumes "cache_ok E c" "set bs \<subseteq> set (c_all c)" "no_write_errors E"
  shows "steady E c (wait_all E bs c) \<and> (\<forall>x. x \<notin> set bs \<longrightarrow> c_buf (wait_all E bs c) x = c_buf c x) \<and>
    (\<forall>b\<in>set bs. b_io (c_buf (wait_all E bs c) b) = None) \<and>
    (\<forall>b. \<not> ideal (c_buf c b) \<longrightarrow> \<not> ideal (c_buf (wait_all E bs c) b))"
  using assms(1,2)
proof (induction bs arbitrary: c)
  case (Cons b bs)
  let ?c = "buf_wait E b c"
  have s: "steady E c ?c" using Cons.prems assms(3) by (intro wait_steady) auto
  have "steady E ?c (wait_all E bs ?c) \<and> (\<forall>x. x \<notin> set bs \<longrightarrow> c_buf (wait_all E bs ?c) x = c_buf ?c x) \<and>
    (\<forall>b\<in>set bs. b_io (c_buf (wait_all E bs ?c) b) = None) \<and>
    (\<forall>b. \<not> ideal (c_buf ?c b) \<longrightarrow> \<not> ideal (c_buf (wait_all E bs ?c) b))"
    by (rule Cons.IH) (use s Cons.prems in \<open>auto simp: steady_def same_places_def\<close>)
  moreover have "\<not> ideal (c_buf c x) \<Longrightarrow> \<not> ideal (c_buf ?c x)" for x
    using buf_wait_state [of c b E] buf_wait_others [of x b E c] unfolding ideal_def by (cases "x = b") metis+
  ultimately show ?case
    using steady_trans [OF s] buf_wait_others [of _ b E c] by (cases "b \<in> set bs") (auto simp: wait_all_def)
qed (simp add: wait_all_def steady_refl)

lemma rw_one_steady:
  assumes ok: "cache_ok E c" and b: "b \<in> set (c_all c)" and "no_write_errors E" "b_dev (c_buf c b) = b_dev (c_buf c b0)"
    "b_refcnt (c_buf c b) > 0" "major (b_dev (c_buf c b)) \<noteq> 0" "e_driver E (b_dev (c_buf c b))"
  shows "\<exists>c'. rw_one E rw b0 b c = Some c' \<and> steady E c c' \<and> (\<forall>x. x \<noteq> b \<longrightarrow> c_buf c' x = c_buf c x) \<and>
    (rw = BWRITE \<longrightarrow> \<not> ideal (c_buf c' b))"
proof -
  let ?c = "buf_wait E b c"
  have s: "steady E c ?c" using assms by (intro wait_steady)
  have o: "c_buf ?c x = c_buf c x" if "x \<noteq> b" for x using that by (rule buf_wait_others)
  show ?thesis
  proof (cases "b_state (c_buf ?c b) = (if rw = BREAD then BINVAL else BDIRTY)")
    case False
    with assms s o show ?thesis by (auto simp: rw_one_def Let_def ideal_def)
  next
    case True
    let ?d = "b_upd b (\<lambda>x. x\<lparr>b_io := Some rw\<rparr>) ?c"
    have p: "same_places ?c ?d" by (simp add: same_places_def)
    have "buf_ok E (c_disk ?d) (c_buf ?d x)" if "x \<in> set (c_all ?d)" for x
      using s that True by (cases rw) (auto simp: steady_def cache_ok_def buf_ok_def)
    moreover have "links_ok ?d" using s by (intro same_places_links [OF p]) (simp add: steady_def cache_ok_def)
    moreover have "view ?d = view ?c" by (auto simp: view_def fun_eq_iff same_places_findb [OF p] split: option.splits)
    ultimately have "steady E ?c ?d" using p by (simp add: steady_def cache_ok_def)
    with assms s True o show ?thesis
      by (auto simp: rw_one_def Let_def ideal_def locked_def intro: steady_trans)
  qed
qed

lemma rw_all_steady:
  assumes "cache_ok E c" "set bs \<subseteq> set (c_all c)" "no_write_errors E"
    "\<And>b. b \<in> set bs \<Longrightarrow> b_dev (c_buf c b) = b_dev (c_buf c b0) \<and> b_refcnt (c_buf c b) > 0"
    "major (b_dev (c_buf c b0)) \<noteq> 0" "e_driver E (b_dev (c_buf c b0))"
  shows "\<exists>c'. foldM (rw_one E rw b0) bs c = Some c' \<and> steady E c c' \<and> (\<forall>x. x \<notin> set bs \<longrightarrow> c_buf c' x = c_buf c x) \<and>
    (rw = BWRITE \<longrightarrow> (\<forall>b\<in>set bs. \<not> ideal (c_buf c' b)))"
  using assms
proof (induction bs arbitrary: c)
  case (Cons b bs)
  obtain c1 where c1: "rw_one E rw b0 b c = Some c1" "steady E c c1" "\<forall>x. x \<noteq> b \<longrightarrow> c_buf c1 x = c_buf c x"
    "rw = BWRITE \<longrightarrow> \<not> ideal (c_buf c1 b)"
    using rw_one_steady [of E c b b0 rw] Cons.prems(1-3) Cons.prems(4) [of b] Cons.prems(5,6) by auto
  have p: "same_places c c1" and k: "cache_ok E c1" using c1(2) by (simp_all add: steady_def)
  obtain c' where c': "foldM (rw_one E rw b0) bs c1 = Some c'" "steady E c1 c'" "\<forall>x. x \<notin> set bs \<longrightarrow> c_buf c' x = c_buf c1 x"
    "rw = BWRITE \<longrightarrow> (\<forall>b\<in>set bs. \<not> ideal (c_buf c' b))"
    using Cons.IH [OF k] Cons.prems p by (auto simp: same_places_def)
  moreover have "rw = BWRITE \<longrightarrow> \<not> ideal (c_buf c' b)" using c1(4) c'(3,4) by (cases "b \<in> set bs") auto
  ultimately show ?case using c1 steady_trans [OF c1(2) c'(2)] by auto
qed (simp add: steady_refl)

lemma llrwab_steady:
  assumes "cache_ok E c" "set bs \<subseteq> set (c_all c)" "no_write_errors E"
    "\<And>b. b \<in> set bs \<Longrightarrow> b_dev (c_buf c b) = dev \<and> b_refcnt (c_buf c b) > 0"
  shows "\<exists>c'. llrwab E rw bs c = Some c' \<and> steady E c c' \<and> (\<forall>x. x \<notin> set bs \<longrightarrow> c_buf c' x = c_buf c x) \<and>
    (rw = BWRITE \<longrightarrow> (\<forall>b\<in>set bs. \<not> ideal (c_buf c' b)))"
proof (cases bs)
  case (Cons b0 bs')
  have d: "b_dev (c_buf c b0) = dev" using assms(4) [of b0] Cons by simp
  show ?thesis
  proof (cases "major dev = 0 \<or> \<not> e_driver E dev")
    case True
    have "\<not> ideal (c_buf c b)" if "b \<in> set bs" for b
      using assms(1,2) assms(4) [OF that] that True by (auto simp: cache_ok_def buf_ok_def ideal_def)
    with True Cons d assms(1) show ?thesis by (auto simp: llrwab_def steady_refl)
  next
    case False
    then show ?thesis
      using rw_all_steady [OF assms(1-3), of b0 rw] assms(4) d Cons by (auto simp: llrwab_def)
  qed
qed (use assms in \<open>simp add: llrwab_def steady_refl\<close>)

lemma llwriteb_steady:
  assumes "cache_ok E c" "set bs \<subseteq> set (c_all c)" "no_write_errors E"
    "\<And>b. b \<in> set bs \<Longrightarrow> b_dev (c_buf c b) = dev \<and> b_refcnt (c_buf c b) > 0"
  shows "\<exists>c'. llwriteb E bs c = Some c' \<and> steady E c c' \<and> (\<forall>x. x \<notin> set bs \<longrightarrow> c_buf c' x = c_buf c x) \<and>
    (\<forall>b\<in>set bs. b_io (c_buf c' b) = None \<and> b_state (c_buf c' b) \<noteq> BDIRTY)"
proof -
  obtain c1 where c1: "llrwab E BWRITE bs c = Some c1" "steady E c c1" "\<forall>x. x \<notin> set bs \<longrightarrow> c_buf c1 x = c_buf c x"
    "\<forall>b\<in>set bs. \<not> ideal (c_buf c1 b)"
    using llrwab_steady [OF assms, of BWRITE] by auto
  then have k: "cache_ok E c1" "set bs \<subseteq> set (c_all c1)" using assms(2) by (auto simp: steady_def same_places_def)
  note w = wait_all_steady [OF k assms(3)]
  have "b_io (c_buf (wait_all E bs c1) b) = None \<and> b_state (c_buf (wait_all E bs c1) b) \<noteq> BDIRTY" if "b \<in> set bs" for b
    using w c1(4) that by (metis ideal_def locked_def)
  then show ?thesis
    using c1 w steady_trans [OF c1(2)] by (auto simp: llwriteb_def)
qed

lemma llreadb_steady:
  assumes "cache_ok E c" "b \<in> set (c_all c)" "no_write_errors E" "b_refcnt (c_buf c b) > 0"
  shows "\<exists>c'. llreadb E [b] c = Some c' \<and> steady E c c' \<and> b_io (c_buf c' b) = None \<and>
    (\<forall>x. x \<noteq> b \<longrightarrow> c_buf c' x = c_buf c x)"
proof -
  obtain c1 where c1: "llrwab E BREAD [b] c = Some c1" "steady E c c1" "\<forall>x. x \<noteq> b \<longrightarrow> c_buf c1 x = c_buf c x"
    using llrwab_steady [of E c "[b]" "b_dev (c_buf c b)" BREAD] assms by auto
  then have k: "cache_ok E c1" "set [b] \<subseteq> set (c_all c1)" using assms(2) by (auto simp: steady_def same_places_def)
  show ?thesis using c1 wait_all_steady [OF k assms(3)] steady_trans [OF c1(2)] by (auto simp: llreadb_def)
qed

lemma llreadb_reads:
  assumes "b_io (c_buf c b) = None" "b_state (c_buf c b) = BINVAL" "b_refcnt (c_buf c b) > 0"
    "major (b_dev (c_buf c b)) \<noteq> 0" "e_driver E (b_dev (c_buf c b))" "\<not> e_fails E BREAD (b_dev (c_buf c b)) (b_bno (c_buf c b))"
    "llreadb E [b] c = Some c'"
  shows "b_state (c_buf c' b) = BCLEAN"
  using assms by (auto simp: llreadb_def llrwab_def rw_one_def buf_wait_def locked_def io_complete_def wait_all_def Let_def)

lemma held_steady:
  assumes ok: "cache_ok E c" and n: "\<And>x. n x \<ge> 0" and st: "steady E (shift n c) c2"
  shows "steady E c (shift (\<lambda>x. - n x) c2)" "cache_ok E (shift n c)"
proof -
  have l: "links_ok c" and r: "\<And>x. x \<in> set (c_all c) \<Longrightarrow> b_refcnt (c_buf c x) \<ge> 0"
    using ok by (auto simp: cache_ok_def buf_ok_def)
  note z = cache_linksD(8) [OF l]
  show "cache_ok E (shift n c)"
    by (rule cache_ok_shift [OF ok]) (use r n z in \<open>force simp: add_nonneg_eq_0_iff\<close>)+
  have p: "same_places (shift n c) c2" and k: "cache_ok E c2" and v: "view c2 = view c" using st by (auto simp: steady_def)
  have "cache_ok E (shift (\<lambda>x. - n x) c2)"
    by (rule cache_ok_shift [OF k]) (use p r z in \<open>auto simp: same_places_def\<close>)
  then show "steady E c (shift (\<lambda>x. - n x) c2)"
    using p v by (auto simp: steady_def same_places_def)
qed

lemma cluster_right_in:
  "links_ok c \<Longrightarrow> b \<in> set (cluster_right c dev bno n) \<Longrightarrow> b \<in> set (c_all c) \<and> b_dev (c_buf c b) = dev"
proof (induction c dev bno n rule: cluster_right.induct)
  case (2 c dev bno n)
  show ?case
  proof (cases "findb c dev bno")
    case (Some y)
    with 2 findb_in [OF _ Some] show ?thesis by (auto split: if_splits)
  qed (use 2 in simp)
qed simp

lemma cluster_left_in:
  "links_ok c \<Longrightarrow> b \<in> set (cluster_left c dev bno n) \<Longrightarrow> b \<in> set (c_all c) \<and> b_dev (c_buf c b) = dev"
proof (induction c dev bno n rule: cluster_left.induct)
  case (2 c dev bno n)
  show ?case
  proof (cases "findb c dev bno")
    case (Some y)
    with 2 findb_in [OF _ Some] show ?thesis by (auto split: if_splits)
  qed (use 2 in simp)
qed simp

lemma writeb_steady:
  assumes ok: "cache_ok E c" and b: "b \<in> set (c_all c)" and ne: "no_write_errors E"
  shows "\<exists>c'. writeb E b c = Some c' \<and> steady E c c' \<and>
    (\<forall>x. c_buf c' x = c_buf c x \<or> b_io (c_buf c' x) = None \<and> b_state (c_buf c' x) \<noteq> BDIRTY) \<and>
    b_state (c_buf c' b) \<noteq> BDIRTY"
proof (cases "major (b_dev (c_buf c b)) = 0")
  case True
  then have "b_state (c_buf c b) \<noteq> BDIRTY" using ok b by (auto simp: cache_ok_def buf_ok_def)
  with True ok show ?thesis by (simp add: writeb_def steady_refl)
next
  case False
  define bs where "bs = cluster b c"
  let ?n = "\<lambda>x. int (count_list bs x)"
  have l: "links_ok c" and r: "\<And>x. x \<in> set (c_all c) \<Longrightarrow> b_refcnt (c_buf c x) \<ge> 0"
    using ok by (auto simp: cache_ok_def buf_ok_def)
  have bs: "x \<in> set (c_all c) \<and> b_dev (c_buf c x) = b_dev (c_buf c b)" if "x \<in> set bs" for x
    using that b cluster_right_in [OF l] cluster_left_in [OF l] by (auto simp: bs_def cluster_def Let_def)
  have k1: "cache_ok E (shift ?n c)"
    by (rule cache_ok_shift [OF ok]) (use r cache_linksD(8) [OF l] in force)+
  have pos: "x \<in> set bs \<Longrightarrow> count_list bs x > 0" for x by (simp add: count_list_0_iff neq0_conv [symmetric])
  obtain c2 where c2: "llwriteb E bs (shift ?n c) = Some c2" "steady E (shift ?n c) c2"
    "\<forall>x. x \<notin> set bs \<longrightarrow> c_buf c2 x = c_buf (shift ?n c) x"
    "\<forall>x\<in>set bs. b_io (c_buf c2 x) = None \<and> b_state (c_buf c2 x) \<noteq> BDIRTY"
    using llwriteb_steady [OF k1 _ ne, of bs "b_dev (c_buf c b)"] bs r pos by (fastforce intro!: add_nonneg_pos)
  let ?c = "shift (\<lambda>x. - ?n x) c2"
  have st: "steady E c ?c" using held_steady(1) [OF ok _ c2(2)] by simp
  have p: "same_places (shift ?n c) c2" and k2: "links_ok c2" using c2(2) by (auto simp: steady_def cache_ok_def)
  have "foldM buf_lose bs c2 = Some ?c"
    by (rule lose_all_shift [OF k2]) (use p bs r cache_linksD(8) [OF l] in \<open>auto simp: same_places_def\<close>)
  then have "writeb E b c = Some ?c"
    using False hold_all_shift [of bs c] bs r c2(1) by (simp add: writeb_def flip: bs_def)
  moreover have "c_buf ?c x = c_buf c x" if "x \<notin> set bs" for x using c2(3) that by (simp add: count_notin)
  moreover have "b \<in> set bs" by (simp add: bs_def cluster_def Let_def)
  ultimately show ?thesis using st c2(4) by (intro exI [of _ ?c]) auto
qed


lemma held_write_steady:
  assumes ok: "cache_ok E c" and b: "b \<in> set (c_all c)" and ne: "no_write_errors E"
  shows "\<exists>c1 c2 c4. buf_hold b c = Some c1 \<and> writeb E b c1 = Some c2 \<and> buf_lose b c2 = Some c4 \<and> steady E c c4 \<and>
    (\<forall>x. c_buf c4 x = c_buf c x \<or> b_io (c_buf c4 x) = None \<and> b_state (c_buf c4 x) \<noteq> BDIRTY) \<and>
    b_state (c_buf c4 b) \<noteq> BDIRTY \<and> (ideal (c_buf c b) \<longrightarrow> b_io (c_buf c2 b) = None)"
proof -
  let ?n = "\<lambda>x. if x = b then 1 else 0 :: int"
  have l: "links_ok c" and r: "b_refcnt (c_buf c b) \<ge> 0" using ok b by (auto simp: cache_ok_def buf_ok_def)
  have h: "buf_hold b c = Some (shift ?n c)" by (rule buf_hold_shift [OF r])
  have k: "cache_ok E (shift ?n c)" by (rule hold_ok [OF ok])
  obtain c2 where c2: "writeb E b (shift ?n c) = Some c2" "steady E (shift ?n c) c2"
    "\<forall>x. c_buf c2 x = c_buf (shift ?n c) x \<or> b_io (c_buf c2 x) = None \<and> b_state (c_buf c2 x) \<noteq> BDIRTY"
    "b_state (c_buf c2 b) \<noteq> BDIRTY"
    using writeb_steady [OF k _ ne, of b] b by auto
  have p: "same_places (shift ?n c) c2" and l2: "links_ok c2" using c2(2) by (auto simp: steady_def cache_ok_def)
  let ?c = "shift (\<lambda>x. - ?n x) c2"
  have e: "(\<lambda>x. - ?n x) = (\<lambda>x. if x = b then -1 else 0)" by auto
  have "buf_lose b c2 = Some ?c"
    unfolding e by (rule buf_lose_shift [OF l2]) (use p b r cache_linksD(8) [OF l b] in \<open>auto simp: same_places_def\<close>)
  moreover have "steady E c ?c" using held_steady(1) [OF ok _ c2(2)] by simp
  moreover have "c_buf ?c x = c_buf c x \<or> b_io (c_buf ?c x) = None \<and> b_state (c_buf ?c x) \<noteq> BDIRTY" for x
    using c2(3) [rule_format, of x] by auto
  moreover have "b_state (c_buf ?c b) \<noteq> BDIRTY" using c2(4) by simp
  moreover have "ideal (c_buf c b) \<longrightarrow> b_io (c_buf c2 b) = None"
    using c2(3) [rule_format, of b] c2(4) by (auto simp: ideal_def)
  ultimately show ?thesis using h c2(1) by blast
qed

lemma flush_steady:
  assumes "cache_ok E c" "b \<in> set (c_all c)" "no_write_errors E" "ideal (c_buf c b)"
  shows "\<exists>c'. flush E b n c = Some c' \<and> steady E c c' \<and>
    (\<forall>x. c_buf c' x = c_buf c x \<or> b_io (c_buf c' x) = None \<and> b_state (c_buf c' x) \<noteq> BDIRTY) \<and>
    b_state (c_buf c' b) \<noteq> BDIRTY"
proof -
  obtain c1 c2 c4 where c: "buf_hold b c = Some c1" "writeb E b c1 = Some c2" "buf_lose b c2 = Some c4" "steady E c c4"
    "\<forall>x. c_buf c4 x = c_buf c x \<or> b_io (c_buf c4 x) = None \<and> b_state (c_buf c4 x) \<noteq> BDIRTY"
    "b_state (c_buf c4 b) \<noteq> BDIRTY" "b_io (c_buf c2 b) = None"
    using held_write_steady [OF assms(1-3)] assms(4) by blast
  then have "buf_wait E b c2 = c2" by (simp add: buf_wait_def locked_def)
  with c show ?thesis by (simp add: flush_def)
qed

subsection \<open>Recycling a buffer\<close>

lemma victim_cases:
  "case victim c n bs of
     Panic \<Rightarrow> \<forall>b\<in>set bs. b_refcnt (c_buf c b) = 0 \<longrightarrow> locked (c_buf c b)
   | WaitFor b m \<Rightarrow> b \<in> set bs \<and> b_refcnt (c_buf c b) = 0 \<and> locked (c_buf c b)
   | Flush b m \<Rightarrow> b \<in> set bs \<and> b_refcnt (c_buf c b) = 0 \<and> ideal (c_buf c b)
   | Take b \<Rightarrow> b \<in> set bs \<and> b_refcnt (c_buf c b) = 0 \<and> \<not> locked (c_buf c b) \<and> b_state (c_buf c b) \<noteq> BDIRTY"
proof (induction bs arbitrary: n)
  case (Cons b bs)
  note i = Cons.IH [of n] Cons.IH [of "n - 1"]
  show ?case
  proof (cases "b_refcnt (c_buf c b) \<noteq> 0")
    case True
    with i(1) show ?thesis by (auto split: choice.splits)
  next
    case False
    with i show ?thesis
      by (cases "locked (c_buf c b)"; cases "n > 1") (auto simp: Let_def ideal_def split: choice.splits)
  qed
qed simp

lemma recycle_ok:
  assumes ok: "cache_ok E c" and b: "b \<in> set (c_free c)" "b_refcnt (c_buf c b) = 0" "\<not> locked (c_buf c b)"
    "b_state (c_buf c b) \<noteq> BDIRTY" and none: "findb c dev bno = None"
  obtains c' where "recycle b dev bno c = Some c'" "cache_ok E c'" "view c' = view c" "c_all c' = c_all c"
    "c_disk c' = c_disk c" "\<And>x. x \<noteq> b \<Longrightarrow> c_buf c' x = c_buf c x" "b_dev (c_buf c' b) = dev" "b_bno (c_buf c' b) = bno"
    "b_refcnt (c_buf c' b) = 1" "b_io (c_buf c' b) = None" "set (c_free c') = set (c_free c) - {b}"
proof -
  have l: "links_ok c" and bo: "\<And>x. x \<in> set (c_all c) \<Longrightarrow> buf_ok E (c_disk c) (c_buf c x)"
    using ok by (auto simp: cache_ok_def)
  note d = cache_linksD [OF l]
  have ba: "b \<in> set (c_all c)" using d(3) b(1) .
  let ?old = "hashfunc c (b_dev (c_buf c b)) (b_bno (c_buf c b))"
  let ?new = "hashfunc c dev bno"
  let ?h1 = "(c_hash c)[?old := remove1 b (c_hash c ! ?old)]"
  let ?h = "?h1[?new := ?h1 ! ?new @ [b]]"
  let ?x = "(c_buf c b)\<lparr>b_refcnt := 1, b_state := BINVAL, b_dev := dev, b_bno := bno\<rparr>"
  define c' where "c' = c\<lparr>c_buf := (c_buf c)(b := ?x), c_hash := ?h, c_free := remove1 b (c_free c)\<rparr>"
  have h: "hashfunc c1 = hashfunc c" if "length (c_hash c1) = length (c_hash c)" for c1
    using that by (simp add: hashfunc_def fun_eq_iff)
  have on: "?old < length (c_hash c)" "?new < length (c_hash c)" using hashfunc_less [OF d(1)] by auto
  have r: "recycle b dev bno c = Some c'"
    using b(2) by (simp add: recycle_def buf_hold_def free_unlink_def b_upd_def Let_def c'_def hashfunc_def)
  have nb: "b \<notin> set (?h1 ! i)" if "i < length (c_hash c)" for i
    using d(4) [OF ba that] d(6) [OF on(1)] that on by (cases "i = ?old") auto
  have mem: "x \<in> set (?h ! i) \<longleftrightarrow> (if x = b then i = ?new else x \<in> set (c_hash c ! i))" if "i < length (c_hash c)" for i x
    using nb [OF that] nb [OF on(2)] d(6) [OF on(1)] that on by (auto simp: nth_list_update)
  have fresh: "\<not> (b_dev (c_buf c x) = dev \<and> b_bno (c_buf c x) = bno)" if "x \<in> set (c_all c)" for x
    using none findb_iff [OF l, of dev bno x] that by auto
  have hc: "hashfunc c' = hashfunc c" by (rule h) (simp add: c'_def)
  have "links_ok c'"
    unfolding links_ok_def hc
  proof (intro conjI ballI allI impI)
    show "c_hash c' \<noteq> []" using d(1) by (simp add: c'_def)
    show "distinct (c_free c')" "set (c_free c') \<subseteq> set (c_all c')" using d(2,3) by (auto simp: c'_def dest: notin_set_remove1)
    show "x \<in> set (c_hash c' ! i) \<longleftrightarrow> i = hashfunc c (b_dev (c_buf c' x)) (b_bno (c_buf c' x))"
      if "x \<in> set (c_all c')" "i < length (c_hash c')" for x i
      using that mem [of i x] d(4) [of x i] by (simp add: c'_def)
    show "set (c_hash c' ! i) \<subseteq> set (c_all c')" if "i < length (c_hash c')" for i
      using that mem [of i] d(5) [of i] ba by (auto simp: c'_def split: if_splits)
    show "distinct (c_hash c' ! i)" if "i < length (c_hash c')" for i
      using that nb [OF on(2)] d(6) [of i] d(6) [OF on(1)] d(6) [OF on(2)] on by (auto simp: c'_def nth_list_update)
    show "x = y" if "x \<in> set (c_all c')" "y \<in> set (c_all c')" "b_dev (c_buf c' x) = b_dev (c_buf c' y) \<and>
        b_bno (c_buf c' x) = b_bno (c_buf c' y)" for x y
      using that d(7) [of x y] fresh [of x] fresh [of y] by (auto simp: c'_def split: if_splits)
    show "x \<in> set (c_free c')" if "x \<in> set (c_all c')" "b_refcnt (c_buf c' x) = 0" for x
      using that d(8) [of x] by (auto simp: c'_def split: if_splits)
  qed
  note l' = this
  have "cache_ok E c'"
    using l' bo b by (auto simp: cache_ok_def c'_def buf_ok_def locked_def)
  moreover have "view c' = view c"
  proof (intro ext)
    fix dv bn
    have cb: "c_buf c' x = (if x = b then ?x else c_buf c x)" and cd: "c_disk c' = c_disk c" for x by (simp_all add: c'_def)
    have f': "findb c' dv bn = Some x \<longleftrightarrow> x \<in> set (c_all c) \<and> b_dev (c_buf c' x) = dv \<and> b_bno (c_buf c' x) = bn" for x
      using findb_iff [OF l'] by (simp add: c'_def)
    have bd: "b_state (c_buf c b) \<noteq> BINVAL \<Longrightarrow> b_data (c_buf c b) = c_disk c (b_dev (c_buf c b)) (b_bno (c_buf c b))"
      using bo [OF ba] b(4) by (auto simp: buf_ok_def)
    show "view c' dv bn = view c dv bn"
    proof (cases "findb c' dv bn")
      case None
      then have n: "x \<in> set (c_all c) \<Longrightarrow> \<not> (b_dev (c_buf c' x) = dv \<and> b_bno (c_buf c' x) = bn)" for x using f' by auto
      have "x = b" if "findb c dv bn = Some x" for x
        using findb_in [OF l that] n [of x] by (auto simp: c'_def split: if_splits)
      then show ?thesis
        using None bd findb_in [OF l, of dv bn b] unfolding view_def cd by (cases "findb c dv bn") auto
    next
      case (Some x)
      then have x: "x \<in> set (c_all c)" "b_dev (c_buf c' x) = dv" "b_bno (c_buf c' x) = bn" using f' by auto
      show ?thesis
      proof (cases "x = b")
        case True
        with x have "dv = dev" "bn = bno" by (auto simp: c'_def)
        with True Some none show ?thesis unfolding view_def cd by (simp add: cb)
      next
        case False
        with x have "findb c dv bn = Some x" using findb_iff [OF l] by (simp add: c'_def)
        with False Some show ?thesis unfolding view_def cd by (simp add: cb)
      qed
    qed
  qed
  moreover have "b_io (c_buf c b) = None" using b(3) by (simp add: locked_def)
  ultimately show ?thesis
    using r d(2) by (intro that [of c']) (auto simp: c'_def)
qed

subsection \<open>Getting a buffer ends\<close>

text \<open>
  Every round of the search either ends it or brings one buffer closer to being clean: a dirty buffer
  weighs 2, one with a transfer under way 1.
\<close>

definition bweight :: "buf \<Rightarrow> nat" where
  "bweight x = (if locked x then 1 else if b_state x = BDIRTY then 2 else 0)"

definition cweight :: "bcache \<Rightarrow> nat" where
  "cweight c = (\<Sum>x\<in>set (c_all c). bweight (c_buf c x))"

lemma cweight_less:
  assumes "c_all c' = c_all c" "b \<in> set (c_all c)" "bweight (c_buf c' b) < bweight (c_buf c b)"
    "\<And>x. bweight (c_buf c' x) \<le> bweight (c_buf c x)"
  shows "cweight c' < cweight c"
  unfolding cweight_def assms(1) by (rule sum_strict_mono_ex1) (use assms in auto)

definition avail :: "bcache \<Rightarrow> bool" where
  "avail c \<longleftrightarrow> (\<exists>x\<in>set (c_all c). b_refcnt (c_buf c x) = 0 \<and> \<not> locked (c_buf c x))"

definition got :: "blkenv \<Rightarrow> bcache \<Rightarrow> nat \<Rightarrow> int \<Rightarrow> nat \<Rightarrow> bcache \<Rightarrow> bool" where
  "got E c dev bno b c' \<longleftrightarrow> cache_ok E c' \<and> view c' = view c \<and> c_all c' = c_all c \<and> b \<in> set (c_all c) \<and>
     b_dev (c_buf c' b) = dev \<and> b_bno (c_buf c' b) = bno \<and> b_io (c_buf c' b) = None \<and>
     b_refcnt (c_buf c' b) = b_refcnt (c_buf c b) + 1 \<and>
     (\<forall>x. x \<noteq> b \<longrightarrow> b_refcnt (c_buf c' x) = b_refcnt (c_buf c x) \<and> b_dev (c_buf c' x) = b_dev (c_buf c x) \<and>
        b_bno (c_buf c' x) = b_bno (c_buf c x)) \<and>
     (\<forall>x. b_io (c_buf c x) = None \<longrightarrow> b_io (c_buf c' x) = None)"

lemma got_after_steady: "steady E c c1 \<Longrightarrow> (\<And>x. b_io (c_buf c x) = None \<Longrightarrow> b_io (c_buf c1 x) = None) \<Longrightarrow> got E c1 dev bno b c' \<Longrightarrow> got E c dev bno b c'"
  by (auto simp: got_def steady_def same_places_def)

lemma free_unlink_simps [simp]:
  "c_buf (free_unlink b c) = c_buf c" "c_hash (free_unlink b c) = c_hash c" "c_all (free_unlink b c) = c_all c"
  "c_disk (free_unlink b c) = c_disk c" "c_free (free_unlink b c) = remove1 b (c_free c)"
  by (simp_all add: free_unlink_def)

lemma take_found_ok:
  assumes ok: "cache_ok E c" and ne: "no_write_errors E" and f: "findb c dev bno = Some b"
  shows "\<exists>c'. take_found E b c = Some c' \<and> got E c dev bno b c'"
proof -
  let ?n = "\<lambda>x. if x = b then 1 else 0 :: int"
  have l: "links_ok c" using ok by (simp add: cache_ok_def)
  have b: "b \<in> set (c_all c)" "b_dev (c_buf c b) = dev" "b_bno (c_buf c b) = bno" using findb_in [OF l f] by auto
  have r: "\<And>x. x \<in> set (c_all c) \<Longrightarrow> b_refcnt (c_buf c x) \<ge> 0" using ok by (auto simp: cache_ok_def buf_ok_def)
  have k: "cache_ok E (shift ?n c)" by (rule hold_ok [OF ok])
  define c2 where "c2 = buf_wait E b (shift ?n c)"
  have s: "steady E (shift ?n c) c2" unfolding c2_def by (rule wait_steady [OF k _ ne]) (use b in simp)
  then have k2: "cache_ok E c2" and p: "same_places (shift ?n c) c2" and v: "view c2 = view c" by (auto simp: steady_def)
  have io: "b_io (c_buf c2 b) = None" by (simp add: c2_def)
  have rb: "b_refcnt (c_buf c2 b) \<noteq> 0" using p r [OF b(1)] by (simp add: same_places_def)
  define c' where "c' = (if b \<in> set (c_free c2) then free_unlink b c2 else c2)"
  have h: "hashfunc (free_unlink b c2) = hashfunc c2" by (rule hashfunc_cong) (simp add: free_unlink_def)
  have "links_ok (free_unlink b c2)"
    using k2 rb unfolding cache_ok_def links_ok_def h by auto
  then have "cache_ok E c'" using k2 by (auto simp: cache_ok_def c'_def)
  moreover have "findb (free_unlink b c2) = findb c2" by (rule findb_cong) simp_all
  then have "view (free_unlink b c2) = view c2" by (simp add: view_def fun_eq_iff split: option.splits)
  then have "view c' = view c2" by (simp add: c'_def)
  moreover have "c_buf c' = c_buf c2" "c_all c' = c_all c2" by (simp_all add: c'_def free_unlink_def)
  moreover have "b_io (c_buf c x) = None \<Longrightarrow> b_io (c_buf c2 x) = None" for x
    using buf_wait_others [of x b E "shift ?n c"] io by (cases "x = b") (auto simp: c2_def)
  ultimately have "got E c dev bno b c'" using p v io b by (simp add: got_def same_places_def)
  moreover have "take_found E b c = Some c'"
    using r [OF b(1)] by (simp add: take_found_def buf_hold_shift c'_def c2_def Let_def)
  ultimately show ?thesis by blast
qed

lemma getb_loop_ok:
  assumes "cache_ok E c" "no_write_errors E" "avail c"
  shows "\<exists>b c'. getb_loop E dev bno n c = Some (b, c') \<and> got E c dev bno b c'"
  using assms
proof (induction "cweight c" arbitrary: c n rule: less_induct)
  case less
  note ok = less.prems(1) and ne = less.prems(2)
  have l: "links_ok c" using ok by (simp add: cache_ok_def)
  note d = cache_linksD [OF l]
  have step: ?case if s: "steady E c c1" and w: "cweight c1 < cweight c" and a: "avail c1"
    and u: "\<And>x. b_io (c_buf c x) = None \<Longrightarrow> b_io (c_buf c1 x) = None"
    and e: "getb_loop E dev bno n c = getb_loop E dev bno m c1" for c1 m
    using less.hyps [OF w _ ne a, of m] s got_after_steady [OF s u] unfolding e by (auto simp: steady_def)
  obtain a where a: "a \<in> set (c_all c)" "b_refcnt (c_buf c a) = 0" "\<not> locked (c_buf c a)"
    using less.prems(3) by (auto simp: avail_def)
  show ?case
  proof (cases "findb c dev bno")
    case (Some b)
    then show ?thesis using take_found_ok [OF ok ne Some] by (subst getb_loop.simps) auto
  next
    case None
    note v = victim_cases [where c = c and n = n and bs = "c_free c"]
    show ?thesis
    proof (cases "victim c n (c_free c)")
      case Panic
      with v a d(8) show ?thesis by auto
    next
      case (WaitFor b m)
      with v have b: "b \<in> set (c_all c)" "locked (c_buf c b)" using d(3) by auto
      note o = buf_wait_others [of _ b E c]
      have w0: "bweight (c_buf (buf_wait E b c) b) = 0"
        using buf_wait_state(1) [OF b(2)] by (simp add: bweight_def locked_def)
      show ?thesis
      proof (rule step)
        show s: "steady E c (buf_wait E b c)" by (rule wait_steady [OF ok b(1) ne])
        show "cweight (buf_wait E b c) < cweight c"
        proof (rule cweight_less [OF _ b(1)])
          show "c_all (buf_wait E b c) = c_all c" using s by (simp add: steady_def same_places_def)
          show "bweight (c_buf (buf_wait E b c) b) < bweight (c_buf c b)" using b(2) w0 by (simp add: bweight_def)
          show "bweight (c_buf (buf_wait E b c) x) \<le> bweight (c_buf c x)" for x using o [of x] w0 by (cases "x = b") auto
        qed
        have "a \<noteq> b" using a(3) b(2) by auto
        then show "avail (buf_wait E b c)" using s a o [of a] by (auto simp: avail_def steady_def same_places_def)
        show "b_io (c_buf c x) = None \<Longrightarrow> b_io (c_buf (buf_wait E b c) x) = None" for x using o [of x] by (cases "x = b") auto
        show "getb_loop E dev bno n c = getb_loop E dev bno m (buf_wait E b c)"
          using None WaitFor by (subst getb_loop.simps) simp
      qed
    next
      case (Flush b m)
      with v have b: "b \<in> set (c_all c)" "ideal (c_buf c b)" using d(3) by auto
      obtain c1 where c1: "flush E b m c = Some c1" "steady E c c1"
        "\<forall>x. c_buf c1 x = c_buf c x \<or> b_io (c_buf c1 x) = None \<and> b_state (c_buf c1 x) \<noteq> BDIRTY"
        "b_state (c_buf c1 b) \<noteq> BDIRTY"
        using flush_steady [OF ok b(1) ne b(2)] by auto
      have ca: "c_all c1 = c_all c" using c1(2) by (simp add: steady_def same_places_def)
      have w: "bweight (c_buf c1 x) = bweight (c_buf c x) \<or> bweight (c_buf c1 x) = 0" for x
        using c1(3) [rule_format, of x] by (auto simp: bweight_def locked_def)
      have wb: "bweight (c_buf c1 b) < bweight (c_buf c b)"
        using c1(3) [rule_format, of b] c1(4) b(2) by (auto simp: bweight_def locked_def ideal_def)
      show ?thesis
      proof (rule step [OF c1(2)])
        show "cweight c1 < cweight c" by (rule cweight_less [OF ca b(1) wb]) (metis w le_refl zero_le)
        show "avail c1"
          using a c1(2) c1(3) [rule_format, of a] unfolding avail_def ca
          by (intro bexI [of _ a]) (auto simp: locked_def steady_def same_places_def)
        show "b_io (c_buf c x) = None \<Longrightarrow> b_io (c_buf c1 x) = None" for x using c1(3) [rule_format, of x] by auto
        show "getb_loop E dev bno n c = getb_loop E dev bno m c1"
          using None Flush c1(1) by (subst getb_loop.simps) simp
      qed
    next
      case (Take b)
      with v have b: "b \<in> set (c_free c)" "b_refcnt (c_buf c b) = 0" "\<not> locked (c_buf c b)" "b_state (c_buf c b) \<noteq> BDIRTY"
        by auto
      obtain c' where "recycle b dev bno c = Some c'" "cache_ok E c'" "view c' = view c" "c_all c' = c_all c"
        "c_disk c' = c_disk c" "\<And>x. x \<noteq> b \<Longrightarrow> c_buf c' x = c_buf c x" "b_dev (c_buf c' b) = dev" "b_bno (c_buf c' b) = bno"
        "b_refcnt (c_buf c' b) = 1" "b_io (c_buf c' b) = None" "set (c_free c') = set (c_free c) - {b}"
        by (rule recycle_ok [OF ok b None]) (rule that; simp)
      note c' = this
      have "b_io (c_buf c x) = None \<Longrightarrow> b_io (c_buf c' x) = None" for x using c'(6) [of x] c'(10) by (cases "x = b") auto
      then have "got E c dev bno b c'" using c' b(1,2) d(3) by (simp add: got_def)
      then show ?thesis using None Take c'(1) by (subst getb_loop.simps) simp
    qed
  qed
qed

lemma getb_ok:
  assumes "cache_ok E c" "no_write_errors E" "avail c" "bno \<noteq> BNOTALLOC"
  obtains b c' where "getb E dev bno c = Some (b, c')" "got E c dev bno b c'"
  using getb_loop_ok [OF assms(1-3), of dev bno 8] assms(4) by (auto simp: getb_def)

subsection \<open>Reading and writing blocks\<close>

definition settled :: "blkenv \<Rightarrow> bcache \<Rightarrow> bcache \<Rightarrow> bool" where
  "settled E c c' \<longleftrightarrow> cache_ok E c' \<and> c_all c' = c_all c \<and> (\<forall>x. b_refcnt (c_buf c' x) = b_refcnt (c_buf c x)) \<and>
     (\<forall>x. b_io (c_buf c x) = None \<longrightarrow> b_io (c_buf c' x) = None)"

lemma settled_avail: "settled E c c' \<Longrightarrow> avail c \<Longrightarrow> avail c'"
  by (auto simp: settled_def avail_def locked_def)

lemma settled_trans: "settled E c1 c2 \<Longrightarrow> settled E c2 c3 \<Longrightarrow> settled E c1 c3"
  by (simp add: settled_def)

lemma got_refcnt: "got E c dev bno b c' \<Longrightarrow> cache_ok E c \<Longrightarrow> b_refcnt (c_buf c' b) > 0"
  by (force simp: got_def cache_ok_def buf_ok_def)

lemma lose_settled:
  assumes g: "got E c dev bno b c1" and ok: "cache_ok E c"
  obtains c' where "buf_lose b c1 = Some c'" "settled E c c'" "view c' = view c" "c_buf c' b = (c_buf c1 b)\<lparr>b_refcnt := b_refcnt (c_buf c b)\<rparr>"
proof -
  have b: "b \<in> set (c_all c1)" and k: "cache_ok E c1" and v: "view c1 = view c" using g by (auto simp: got_def)
  obtain c' where c': "buf_lose b c1 = Some c'" "cache_ok E c'" "view c' = view c1" "c_all c' = c_all c1"
    "c_disk c' = c_disk c1" "c_buf c' = c_buf (shift (\<lambda>x. if x = b then -1 else 0) c1)" "findb c' = findb c1"
    by (rule buf_lose_ok [OF k b got_refcnt [OF g ok]])
  have "settled E c c'" using c' g by (auto simp: settled_def got_def)
  with c' v g show ?thesis by (intro that [of c']) (auto simp: got_def)
qed

lemma readb_ok:
  assumes ok: "cache_ok E c" and ne: "no_write_errors E" and av: "avail c" and n: "bno \<noteq> BNOTALLOC"
  obtains (fails) e c' where "readb E dev bno c = Some (e, None, c')" "if validdev dev then e = EIO else e = EINVAL" "settled E c c'" "view c' = view c"
      "\<not> (validdev dev \<and> major dev \<noteq> 0 \<and> e_driver E dev \<and> \<not> e_fails E BREAD dev bno)"
  | (gets) b c' where "readb E dev bno c = Some (0, Some b, c')" "got E c dev bno b c'" "b_state (c_buf c' b) \<noteq> BINVAL"
proof (cases "validdev dev")
  case False
  then show ?thesis using ok by (intro fails [of EINVAL c]) (auto simp: readb_def settled_def)
next
  case True
  obtain b c1 where g: "getb E dev bno c = Some (b, c1)" "got E c dev bno b c1" by (rule getb_ok [OF assms])
  show ?thesis
  proof (cases "b_state (c_buf c1 b) = BINVAL")
    case False
    then show ?thesis using True g by (intro gets [of b c1]) (auto simp: readb_def)
  next
    case inv: True
    have b: "b \<in> set (c_all c1)" and k: "cache_ok E c1" using g(2) by (auto simp: got_def)
    note pos = got_refcnt [OF g(2) ok]
    obtain c2 where c2: "llreadb E [b] c1 = Some c2" "steady E c1 c2" "b_io (c_buf c2 b) = None"
      "\<forall>x. x \<noteq> b \<longrightarrow> c_buf c2 x = c_buf c1 x"
      using llreadb_steady [OF k b ne pos] by blast
    have "b_io (c_buf c x) = None \<Longrightarrow> b_io (c_buf c2 x) = None" for x
      using c2(3,4) g(2) by (cases "x = b") (auto simp: got_def)
    then have g2: "got E c dev bno b c2" using g(2) c2(2,3) by (auto simp: got_def steady_def same_places_def)
    show ?thesis
    proof (cases "b_state (c_buf c2 b) = BINVAL")
      case False
      then show ?thesis using True g(1) inv c2(1) g2 by (intro gets [of b c2]) (auto simp: readb_def)
    next
      case bad: True
      obtain c3 where c3: "buf_lose b c2 = Some c3" "settled E c c3" "view c3 = view c"
        by (rule lose_settled [OF g2 ok])
      have "\<not> (major dev \<noteq> 0 \<and> e_driver E dev \<and> \<not> e_fails E BREAD dev bno)"
        using llreadb_reads [of c1 b E c2] c2(1) inv pos g(2) bad by (auto simp: got_def)
      then show ?thesis using True g(1) inv c2(1) bad c3 by (intro fails [of EIO c3]) (auto simp: readb_def)
    qed
  qed
qed

text \<open>
  The two ways file system code uses a block: read it and copy from the buffer, or take the buffer, put
  contents into it and release it dirty.
\<close>

definition blk_read :: "blkenv \<Rightarrow> nat \<Rightarrow> int \<Rightarrow> bcache \<Rightarrow> ((int + u8 list) \<times> bcache) option" where
  "blk_read E dev bno c = do {
     (e, r, c1) \<leftarrow> readb E dev bno c;
     case r of None \<Rightarrow> Some (Inl e, c1)
     | Some b \<Rightarrow> do { c2 \<leftarrow> buf_lose b c1; Some (Inr (b_data (c_buf c1 b)), c2) } }"

definition blk_write :: "blkenv \<Rightarrow> nat \<Rightarrow> int \<Rightarrow> u8 list \<Rightarrow> bcache \<Rightarrow> bcache option" where
  "blk_write E dev bno data c = do {
     (b, c1) \<leftarrow> getb E dev bno c;
     buf_lose2 b (b_upd b (\<lambda>x. x\<lparr>b_data := data\<rparr>) c1) }"

lemma blk_read_ok:
  assumes "cache_ok E c" "no_write_errors E" "avail c" "bno \<noteq> BNOTALLOC"
  shows "\<exists>r c'. blk_read E dev bno c = Some (r, c') \<and> settled E c c' \<and> view c' = view c \<and>
    (case r of Inr d \<Rightarrow> d = view c dev bno
     | Inl e \<Rightarrow> (if validdev dev then e = EIO else e = EINVAL) \<and> \<not> (validdev dev \<and> major dev \<noteq> 0 \<and> e_driver E dev \<and> \<not> e_fails E BREAD dev bno))"
  using assms
proof (cases rule: readb_ok [of E c bno dev])
  case (fails e c')
  then show ?thesis by (simp add: blk_read_def)
next
  case (gets b c1)
  obtain c2 where c2: "buf_lose b c1 = Some c2" "settled E c c2" "view c2 = view c"
    by (rule lose_settled [OF gets(2) assms(1)])
  have "links_ok c1" "b \<in> set (c_all c1)" using gets(2) by (auto simp: got_def cache_ok_def)
  from view_of [OF this] gets(2,3) have "b_data (c_buf c1 b) = view c dev bno" by (simp add: got_def)
  with gets(1) c2 show ?thesis by (simp add: blk_read_def)
qed

lemma blk_write_ok:
  assumes ok: "cache_ok E c" and ne: "no_write_errors E" and av: "avail c" and n: "bno \<noteq> BNOTALLOC"
    and dr: "major dev \<noteq> 0" "e_driver E dev"
  shows "\<exists>c'. blk_write E dev bno d c = Some c' \<and> settled E c c' \<and>
    view c' = (view c)(dev := (view c dev)(bno := d))"
proof -
  obtain b c1 where g: "getb E dev bno c = Some (b, c1)" "got E c dev bno b c1" by (rule getb_ok [OF ok ne av n])
  have b: "b \<in> set (c_all c1)" "b_dev (c_buf c1 b) = dev" "b_bno (c_buf c1 b) = bno" "b_io (c_buf c1 b) = None"
    and k: "cache_ok E c1" and v: "view c1 = view c" using g(2) by (auto simp: got_def)
  define c2 where "c2 = b_upd b (\<lambda>x. x\<lparr>b_data := d, b_state := BDIRTY\<rparr>) c1"
  have p: "same_places c1 c2" by (simp add: same_places_def c2_def)
  have l1: "links_ok c1" and l2: "links_ok c2" using k same_places_links [OF p] by (auto simp: cache_ok_def)
  have k2: "cache_ok E c2" using k l2 b dr by (auto simp: cache_ok_def c2_def buf_ok_def)
  have pos: "b_refcnt (c_buf c2 b) > 0" using got_refcnt [OF g(2) ok] by (simp add: c2_def)
  have b2: "b \<in> set (c_all c2)" using b(1) by (simp add: c2_def)
  obtain c' where c': "buf_lose b c2 = Some c'" "cache_ok E c'" "view c' = view c2" "c_all c' = c_all c2"
    "c_disk c' = c_disk c2" "c_buf c' = c_buf (shift (\<lambda>x. if x = b then -1 else 0) c2)" "findb c' = findb c2"
    by (rule buf_lose_ok [OF k2 b2 pos])
  have "settled E c c'" using c' g(2) by (auto simp: settled_def got_def c2_def)
  moreover have "view c2 = (view c)(dev := (view c dev)(bno := d))"
  proof (intro ext)
    fix dv bn
    have f: "findb c2 dv bn = findb c1 dv bn" by (simp add: same_places_findb [OF p])
    show "view c2 dv bn = ((view c)(dev := (view c dev)(bno := d))) dv bn"
    proof (cases "findb c1 dv bn = Some b")
      case True
      then show ?thesis using f findb_in [OF l1 True] b by (simp add: view_def c2_def)
    next
      case False
      then have "\<not> (dv = dev \<and> bn = bno)" using findb_iff [OF l1] b by auto
      moreover have "view c2 dv bn = view c1 dv bn" using False f by (auto simp: view_def c2_def split: option.splits)
      ultimately show ?thesis using v by auto
    qed
  qed
  moreover have "blk_write E dev bno d c = buf_lose b c2"
    using g(1) by (simp add: blk_write_def buf_lose2_def c2_def b_upd_def)
  ultimately show ?thesis using c'(1,3) by auto
qed

lemma sync_one_ok:
  assumes "cache_ok E c" "b \<in> set (c_all c)" "no_write_errors E"
  shows "\<exists>c'. sync_one E dev b c = Some c' \<and> steady E c c' \<and> settled E c c' \<and>
    (\<forall>x. b_state (c_buf c x) \<noteq> BDIRTY \<longrightarrow> b_state (c_buf c' x) \<noteq> BDIRTY) \<and>
    (dev = 0xffff \<or> dev = b_dev (c_buf c b) \<longrightarrow> b_state (c_buf c' b) \<noteq> BDIRTY)"
proof (cases "dev = 0xffff \<or> dev = b_dev (c_buf c b)")
  case True
  obtain c1 c2 c4 where c: "buf_hold b c = Some c1" "writeb E b c1 = Some c2" "buf_lose b c2 = Some c4" "steady E c c4"
    "\<forall>x. c_buf c4 x = c_buf c x \<or> b_io (c_buf c4 x) = None \<and> b_state (c_buf c4 x) \<noteq> BDIRTY"
    "b_state (c_buf c4 b) \<noteq> BDIRTY"
    using held_write_steady [OF assms] by blast
  then have "settled E c c4" by (auto simp: settled_def steady_def same_places_def) metis
  with c True show ?thesis by (intro exI [of _ c4]) (auto simp: sync_one_def, metis+)
qed (use assms in \<open>auto simp: sync_one_def steady_refl settled_def\<close>)

lemma sync_list_ok:
  assumes "cache_ok E c" "set bs \<subseteq> set (c_all c)" "no_write_errors E"
  shows "\<exists>c'. foldM (sync_one E dev) bs c = Some c' \<and> steady E c c' \<and> settled E c c' \<and>
    (\<forall>x. b_state (c_buf c x) \<noteq> BDIRTY \<longrightarrow> b_state (c_buf c' x) \<noteq> BDIRTY) \<and>
    (\<forall>b\<in>set bs. dev = 0xffff \<or> dev = b_dev (c_buf c b) \<longrightarrow> b_state (c_buf c' b) \<noteq> BDIRTY)"
  using assms(1,2)
proof (induction bs arbitrary: c)
  case (Cons b bs)
  obtain c1 where c1: "sync_one E dev b c = Some c1" "steady E c c1" "settled E c c1"
    "\<forall>x. b_state (c_buf c x) \<noteq> BDIRTY \<longrightarrow> b_state (c_buf c1 x) \<noteq> BDIRTY"
    "dev = 0xffff \<or> dev = b_dev (c_buf c b) \<longrightarrow> b_state (c_buf c1 b) \<noteq> BDIRTY"
    using sync_one_ok [of E c b dev] Cons.prems assms(3) by auto
  have k: "cache_ok E c1" "set bs \<subseteq> set (c_all c1)" and dv: "\<And>x. b_dev (c_buf c1 x) = b_dev (c_buf c x)"
    using c1(2) Cons.prems(2) by (auto simp: steady_def same_places_def)
  from Cons.IH [OF k] obtain c' where c': "foldM (sync_one E dev) bs c1 = Some c'" "steady E c1 c'" "settled E c1 c'"
    "\<forall>x. b_state (c_buf c1 x) \<noteq> BDIRTY \<longrightarrow> b_state (c_buf c' x) \<noteq> BDIRTY"
    "\<forall>b\<in>set bs. dev = 0xffff \<or> dev = b_dev (c_buf c1 b) \<longrightarrow> b_state (c_buf c' b) \<noteq> BDIRTY" by blast
  show ?case
    using c1 c' dv steady_trans [OF c1(2) c'(2)] settled_trans [OF c1(3) c'(3)] by (intro exI [of _ c']) auto
qed (use steady_refl in \<open>auto simp: settled_def\<close>)

subsection \<open>The interface to the file system\<close>

datatype blk_op = RdB int | WrB int "u8 list"

fun blk_effect :: "blk_op \<Rightarrow> (int \<Rightarrow> u8 list) \<Rightarrow> int \<Rightarrow> u8 list" where
  "blk_effect (RdB n) m = m"
| "blk_effect (WrB n d) m = m(n := d)"

fun blk_block :: "blk_op \<Rightarrow> int" where
  "blk_block (RdB n) = n"
| "blk_block (WrB n d) = n"

fun blk_run :: "(int \<Rightarrow> 's \<Rightarrow> ((int + u8 list) \<times> 's) option) \<Rightarrow> (int \<Rightarrow> u8 list \<Rightarrow> 's \<Rightarrow> 's option) \<Rightarrow>
    blk_op list \<Rightarrow> 's \<Rightarrow> ((int + u8 list) list \<times> 's) option" where
  "blk_run rd wr [] s = Some ([], s)"
| "blk_run rd wr (RdB n # ops) s = do { (r, s1) \<leftarrow> rd n s; (rs, s2) \<leftarrow> blk_run rd wr ops s1; Some (r # rs, s2) }"
| "blk_run rd wr (WrB n d # ops) s = do { s1 \<leftarrow> wr n d s; blk_run rd wr ops s1 }"

text \<open>
  What the reads of a sequence must return, each with its block: the last contents written; \<^verbatim>\<open>EIO\<close> is allowed only for
  a block whose reading fails on the device.
\<close>

fun blk_answers :: "blk_op list \<Rightarrow> (int \<Rightarrow> u8 list) \<Rightarrow> (int \<times> u8 list) list" where
  "blk_answers [] m = []"
| "blk_answers (RdB n # ops) m = (n, m n) # blk_answers ops m"
| "blk_answers (WrB n d # ops) m = blk_answers ops (m(n := d))"

definition answers :: "(int \<Rightarrow> bool) \<Rightarrow> int \<times> u8 list \<Rightarrow> int + u8 list \<Rightarrow> bool" where
  "answers bad w r \<longleftrightarrow> (case r of Inr d \<Rightarrow> d = snd w | Inl e \<Rightarrow> bad (fst w) \<and> e = EIO)"

locale block_store =
  fixes ok :: "'s \<Rightarrow> bool"
    and contents :: "'s \<Rightarrow> int \<Rightarrow> u8 list"
    and valid :: "int \<Rightarrow> bool"
    and bad :: "int \<Rightarrow> bool"
    and rd :: "int \<Rightarrow> 's \<Rightarrow> ((int + u8 list) \<times> 's) option"
    and wr :: "int \<Rightarrow> u8 list \<Rightarrow> 's \<Rightarrow> 's option"
  assumes rd_law: "ok s \<Longrightarrow> valid n \<Longrightarrow>
      \<exists>r s'. rd n s = Some (r, s') \<and> ok s' \<and> contents s' = contents s \<and> answers bad (n, contents s n) r"
    and wr_law: "ok s \<Longrightarrow> valid n \<Longrightarrow> \<exists>s'. wr n d s = Some s' \<and> ok s' \<and> contents s' = (contents s)(n := d)"
begin

lemma run_ok:
  "ok s \<Longrightarrow> \<forall>x\<in>set ops. valid (blk_block x) \<Longrightarrow>
   \<exists>rs s'. blk_run rd wr ops s = Some (rs, s') \<and> ok s' \<and> contents s' = fold blk_effect ops (contents s) \<and>
     list_all2 (answers bad) (blk_answers ops (contents s)) rs"
proof (induction ops arbitrary: s)
  case (Cons x ops)
  show ?case
  proof (cases x)
    case (RdB n)
    with Cons.prems rd_law [of s n] obtain r s1 where s1: "rd n s = Some (r, s1)" "ok s1" "contents s1 = contents s"
      "answers bad (n, contents s n) r" by auto
    with Cons.IH [OF s1(2)] Cons.prems(2) RdB show ?thesis by fastforce
  next
    case (WrB n d)
    with Cons.prems wr_law [of s n d] obtain s1 where s1: "wr n d s = Some s1" "ok s1" "contents s1 = (contents s)(n := d)"
      by auto
    with Cons.IH [OF s1(2)] Cons.prems(2) WrB show ?thesis by (auto simp: fun_upd_def)
  qed
qed simp

end

definition store_ok :: "blkenv \<Rightarrow> nat \<Rightarrow> bcache \<Rightarrow> bool" where
  "store_ok E dev c \<longleftrightarrow> cache_ok E c \<and> avail c \<and> no_write_errors E \<and> validdev dev \<and> major dev \<noteq> 0 \<and> e_driver E dev"

interpretation cache: block_store "store_ok E dev" "\<lambda>c. view c dev" "\<lambda>n. n \<noteq> BNOTALLOC" "e_fails E BREAD dev" "blk_read E dev" "blk_write E dev"
  for E dev
proof
  fix s n assume s: "store_ok E dev s" and n: "n \<noteq> BNOTALLOC"
  then have a: "cache_ok E s" "no_write_errors E" "avail s" by (auto simp: store_ok_def)
  obtain r s' where r: "blk_read E dev n s = Some (r, s')" "settled E s s'" "view s' = view s"
    "case r of Inr d \<Rightarrow> d = view s dev n
     | Inl e \<Rightarrow> (if validdev dev then e = EIO else e = EINVAL) \<and> \<not> (validdev dev \<and> major dev \<noteq> 0 \<and> e_driver E dev \<and> \<not> e_fails E BREAD dev n)"
    using blk_read_ok [OF a n, of dev] by blast
  have "answers (e_fails E BREAD dev) (n, view s dev n) r" using r(4) s by (auto simp: answers_def store_ok_def split: sum.splits)
  moreover have "store_ok E dev s'" using s r(2) settled_avail [OF r(2) a(3)] by (simp add: store_ok_def settled_def)
  ultimately show "\<exists>r s'. blk_read E dev n s = Some (r, s') \<and> store_ok E dev s' \<and> view s' dev = view s dev \<and>
      answers (e_fails E BREAD dev) (n, view s dev n) r" using r(1,3) by auto
  fix d
  obtain s' where w: "blk_write E dev n d s = Some s'" "settled E s s'" "view s' = (view s)(dev := (view s dev)(n := d))"
    using blk_write_ok [OF a n, of dev d] s by (auto simp: store_ok_def)
  moreover have "store_ok E dev s'" using s w(2) settled_avail [OF w(2) a(3)] by (simp add: store_ok_def settled_def)
  ultimately show "\<exists>s'. blk_write E dev n d s = Some s' \<and> store_ok E dev s' \<and> view s' dev = (view s dev)(n := d)" by auto
qed

subsection \<open>Booting\<close>

lemma buffercache_eq:
  "k \<le> n \<Longrightarrow> fold buf_setup [0..<k] \<lparr>c_buf = (\<lambda>_. buf_init 0), c_hash = replicate n [], c_free = [], c_all = [], c_disk = d\<rparr> =
   \<lparr>c_buf = (\<lambda>x. buf_init (if x < k then int x else 0)), c_hash = map (\<lambda>i. if i < k then [i] else []) [0..<n],
    c_free = [0..<k], c_all = [0..<k], c_disk = d\<rparr>"
proof (induction k)
  case 0
  show ?case by (simp add: map_replicate_const)
next
  case (Suc k)
  have "(map (\<lambda>i. if i < k then [i] else []) [0..<n])[k := [k]] = map (\<lambda>i. if i < Suc k then [i] else []) [0..<n]"
    using Suc.prems by (intro nth_equalityI) (auto simp: nth_list_update less_Suc_eq)
  with Suc show ?case by (auto simp: buf_setup_def hashfunc_def b_upd_def Let_def fun_eq_iff less_Suc_eq)
qed

lemma buffercache_ok: "0 < n \<Longrightarrow> cache_ok E (buffercache n d) \<and> avail (buffercache n d) \<and> c_disk (buffercache n d) = d"
  unfolding buffercache_def buffercache_eq [OF order_refl]
  by (auto simp: cache_ok_def links_ok_def avail_def buf_ok_def hashfunc_def buf_init_def locked_def)

lemma buffercache_view: "0 < n \<Longrightarrow> view (buffercache n d) = d"
  using buffercache_ok [of n undefined d] unfolding buffercache_def buffercache_eq [OF order_refl]
  by (auto simp: view_def fun_eq_iff buf_init_def split: option.splits)

subsection \<open>Properties\<close>

text \<open>
  C9: The buffer cache is coherent and durable.  On a device whose writes never fail (a failed write loses the
  buffer: \<open>no_write_errors\<close> is part of \<open>store_ok\<close>), every sequence of block reads and writes runs to its end from any well-formed cache, however its
  buffers are distributed and whatever transfers are still under way; each read of a block that the device can read returns the contents
  last written to it, also from the cache; a read returns \<^verbatim>\<open>EIO\<close> only for a block that the device fails to read;
  and a \<^verbatim>\<open>sync\<close> afterwards leaves on the disk exactly the contents the writes produced.
\<close>

theorem cache_coherent_durable:
  assumes "store_ok E dev c" "\<forall>x\<in>set ops. blk_block x \<noteq> BNOTALLOC"
  shows "\<exists>rs c1 c2. blk_run (blk_read E dev) (blk_write E dev) ops c = Some (rs, c1) \<and>
    list_all2 (answers (e_fails E BREAD dev)) (blk_answers ops (view c dev)) rs \<and> syncb_all E c1 = Some c2 \<and>
    c_disk c2 dev = fold blk_effect ops (view c dev)"
proof -
  obtain rs c1 where c1: "blk_run (blk_read E dev) (blk_write E dev) ops c = Some (rs, c1)" "store_ok E dev c1"
    "view c1 dev = fold blk_effect ops (view c dev)" "list_all2 (answers (e_fails E BREAD dev)) (blk_answers ops (view c dev)) rs"
    using cache.run_ok [OF assms] by blast
  have k: "cache_ok E c1" "no_write_errors E" using c1(2) by (auto simp: store_ok_def)
  obtain c2 where c2: "syncb_all E c1 = Some c2" "steady E c1 c2"
    "\<forall>b\<in>set (c_all c1). b_state (c_buf c2 b) \<noteq> BDIRTY"
    using sync_list_ok [where bs = "c_all c1" and dev = "0xffff", OF k(1) order_refl k(2)] by (auto simp: syncb_all_def syncb_def)
  have k2: "cache_ok E c2" and ca: "c_all c2 = c_all c1" and v: "view c2 = view c1"
    using c2(2) by (auto simp: steady_def same_places_def)
  have "c_disk c2 dev n = view c2 dev n" for n
  proof (cases "findb c2 dev n")
    case (Some b)
    with k2 have b: "b \<in> set (c_all c2)" "b_dev (c_buf c2 b) = dev" "b_bno (c_buf c2 b) = n"
      using findb_in [of c2 dev n b] by (auto simp: cache_ok_def)
    with k2 c2(3) ca have "b_state (c_buf c2 b) = BINVAL \<or> b_data (c_buf c2 b) = c_disk c2 dev n"
      by (force simp: cache_ok_def buf_ok_def)
    with Some show ?thesis by (auto simp: view_def)
  qed (simp add: view_def)
  with c1 c2(1) v show ?thesis by (auto simp: fun_eq_iff)
qed

definition demo_env :: blkenv where
  "demo_env = \<lparr>e_driver = (\<lambda>d. d = 768), e_fails = (\<lambda>rw d n. rw = BREAD \<and> n = 9)\<rparr>"

lemma demo_store_ok: "store_ok demo_env 768 (buffercache 2 d)"
  using buffercache_ok [of 2 demo_env d] by (simp add: store_ok_def no_write_errors_def demo_env_def major_def validdev_def MAXCHRDEV_def)

theorem cache_coherent_witness:
  "\<exists>rs c1 c2. blk_run (blk_read demo_env 768) (blk_write demo_env 768) [WrB 5 [1], WrB 6 [2], WrB 7 [3], RdB 5, RdB 9]
      (buffercache 2 (\<lambda>_ _. [])) = Some (rs, c1) \<and>
    hd rs = Inr [1] \<and> rs ! 1 \<in> {Inr [], Inl EIO} \<and> syncb_all demo_env c1 = Some c2 \<and> c_disk c2 768 6 = [2]"
proof -
  let ?ops = "[WrB 5 [1], WrB 6 [2], WrB 7 [3], RdB 5, RdB 9]"
  have "\<forall>x\<in>set ?ops. blk_block x \<noteq> BNOTALLOC" by (simp add: BNOTALLOC_def)
  from cache_coherent_durable [OF demo_store_ok [of "\<lambda>_ _. []"] this]
  obtain rs c1 c2 where r: "blk_run (blk_read demo_env 768) (blk_write demo_env 768) ?ops (buffercache 2 (\<lambda>_ _. [])) = Some (rs, c1)"
    "list_all2 (answers (e_fails demo_env BREAD 768)) [(5, [1]), (9, [])] rs" "syncb_all demo_env c1 = Some c2" "c_disk c2 768 6 = [2]"
    by (auto simp: buffercache_view)
  then obtain x y where "rs = [x, y]" "answers (e_fails demo_env BREAD 768) (5, [1]) x" "answers (e_fails demo_env BREAD 768) (9, []) y"
    by (auto simp: list_all2_Cons1)
  then have "hd rs = Inr [1] \<and> rs ! 1 \<in> {Inr [], Inl EIO}" by (auto simp: answers_def demo_env_def split: sum.splits)
  then show ?thesis using r by blast
qed

text \<open>
  C26: \<^verbatim>\<open>getb\<close> always finds a buffer.  When one buffer is unreferenced and unlocked, the search with its
  retries ends, whatever the number of dirty buffers it has to write first, and returns a buffer for
  the block that holds one more reference and is unlocked, while the contents of all blocks stay.
\<close>

theorem getb_terminates:
  assumes "cache_ok E c" "no_write_errors E" "avail c" "bno \<noteq> BNOTALLOC"
  shows "\<exists>b c'. getb E dev bno c = Some (b, c') \<and> cache_ok E c' \<and> view c' = view c \<and>
    b_dev (c_buf c' b) = dev \<and> b_bno (c_buf c' b) = bno \<and> \<not> locked (c_buf c' b) \<and>
    b_refcnt (c_buf c' b) = b_refcnt (c_buf c b) + 1"
  by (rule getb_ok [OF assms, of dev]) (auto simp: got_def locked_def)

theorem getb_terminates_witness:
  "\<exists>b c'. getb demo_env 768 5 (buffercache 2 (\<lambda>_ _. [])) = Some (b, c') \<and> b_bno (c_buf c' b) = 5"
  using getb_terminates [of demo_env "buffercache 2 (\<lambda>_ _. [])" 5 768] demo_store_ok [of "\<lambda>_ _. []"]
  by (auto simp: store_ok_def BNOTALLOC_def)

end
