(* ===== verification/Fs_Super.thy ===== *)
theory Fs_Super
  imports Lib_Bitmap Fs_Buf
begin

text \<open>
  A mounted file system (\<^verbatim>\<open>fs/fs.h\<close>, \<^verbatim>\<open>fs/fs.cc\<close>, \<^verbatim>\<open>fs/minix.h\<close>): the super block, the inode and
  zone bitmaps and the allocation of blocks and inodes.  The code works on the contents of blocks
  that \<^verbatim>\<open>Fs_Buf\<close> provides: \<open>f_blk\<close> are the contents, \<open>f_bad\<close> the blocks the device cannot read.

  The bitmaps live inside buffers that stay held while the file system is mounted; \<open>f_imapst\<close> and
  \<open>f_zmapst\<close> are the states of those buffers, so the contents of a map block in \<open>f_blk\<close> are what was
  there when the buffer was last clean.
\<close>

record fsys =
  f_ninode :: u16
  f_nzone16 :: u16
  f_nimapblock :: u16
  f_nzmapblock :: u16
  f_datazone :: u16
  f_logzonesize :: u16
  f_maxfilesize :: u32
  f_magic :: u16
  f_state :: u16
  f_nzone :: u32
  f_imap :: "bitmap list"
  f_imapst :: "int list"
  f_zmap :: "bitmap list"
  f_zmapst :: "int list"
  f_blk :: "int \<Rightarrow> u8 list"
  f_bad :: "int \<Rightarrow> bool"

definition MINIXBSIZE :: nat where "MINIXBSIZE = 1024"
definition MINIX2MAGIC2 :: u16 where "MINIX2MAGIC2 = 0x2478"
definition BITS :: nat where "BITS = 13"

definition f_readb :: "int \<Rightarrow> fsys \<Rightarrow> int + u8 list" where
  "f_readb bno s = (if f_bad s bno then Inl EIO else Inr (f_blk s bno))"

definition f_writeb :: "int \<Rightarrow> u8 list \<Rightarrow> fsys \<Rightarrow> fsys" where
  "f_writeb bno d s = s\<lparr>f_blk := (f_blk s)(bno := d)\<rparr>"

interpretation vol: block_store "\<lambda>s. f_bad s = bad" f_blk "\<lambda>_. True" bad "\<lambda>n s. Some (f_readb n s, s)"
    "\<lambda>n d s. Some (f_writeb n d s)" for bad
  by unfold_locales (auto simp: f_readb_def f_writeb_def answers_def errno_simps)

subsection \<open>Inodes on disk\<close>

text \<open>
  \<^verbatim>\<open>ino_t\<close> is an unsigned long, so \<^verbatim>\<open>ino--\<close> on 0 wraps around.  The result is the error number, the block
  and the byte offset of the inode; \<^verbatim>\<open>sizeof(minixdi_t)\<close> is 64.
\<close>

definition seeki :: "u32 \<Rightarrow> fsys \<Rightarrow> int \<times> (int \<times> nat) option" where
  "seeki ino s =
     (if unat ino \<ge> unat (f_ninode s) then (EINVAL, None)
      else let ino1 = ino - 1;
               bno = 2 + int (unat (f_nimapblock s)) + int (unat (f_nzmapblock s)) + int (unat (ino1 * 64) div MINIXBSIZE);
               off = unat (ino1 * 64) mod MINIXBSIZE
           in case f_readb bno s of Inl e \<Rightarrow> (e, None) | Inr d \<Rightarrow> (0, Some (bno, off)))"

subsection \<open>The maps\<close>

text \<open>The loops of \<^verbatim>\<open>allocb\<close> and \<^verbatim>\<open>alloci\<close> over the blocks of a map.\<close>

function map_scan :: "nat \<Rightarrow> bitmap list \<Rightarrow> nat \<Rightarrow> (nat \<times> int \<times> bitmap) option option" where
  "map_scan n maps i =
     (if i < n then do {
        kassert (i < length maps);
        j \<leftarrow> bitmap_ff0 (maps ! i);
        if j < 0 then map_scan n maps (Suc i)
        else do { b \<leftarrow> bitmap_set j (maps ! i); Some (Some (i, j, b)) } }
      else Some None)"
  by auto
termination by (relation "measure (\<lambda>(n, maps, i). n - i)") auto

declare map_scan.simps [simp del]

definition allocb :: "fsys \<Rightarrow> (int \<times> int \<times> fsys) option" where
  "allocb s = do {
     r \<leftarrow> map_scan (unat (f_nzmapblock s)) (f_zmap s) 0;
     case r of None \<Rightarrow> Some (ENOSPC, 0, s)
     | Some (i, j, b) \<Rightarrow> Some (0, push_bit BITS (int i) + j + int (unat (f_datazone s)) - 1,
         s\<lparr>f_zmap := (f_zmap s)[i := b], f_zmapst := (f_zmapst s)[i := BDIRTY]\<rparr>) }"

definition map_free_bit :: "nat \<Rightarrow> bitmap list \<Rightarrow> bitmap option option" where
  "map_free_bit k maps = do {
     kassert (drop_bit BITS k < length maps);
     t \<leftarrow> bitmap_tst (maps ! drop_bit BITS k) (int (take_bit BITS k));
     if t = 0 then Some None
     else do { b \<leftarrow> bitmap_clr (int (take_bit BITS k)) (maps ! drop_bit BITS k); Some (Some b) } }"

definition freeb :: "int \<Rightarrow> fsys \<Rightarrow> fsys option" where
  "freeb bno s =
     (if bno < int (unat (f_datazone s)) \<or> bno \<ge> int (unat (f_nzone s)) then Some s
      else do {
        let i = nat (bno - int (unat (f_datazone s)) + 1);
        r \<leftarrow> map_free_bit i (f_zmap s);
        case r of None \<Rightarrow> Some s
        | Some b \<Rightarrow> Some (s\<lparr>f_zmap := (f_zmap s)[drop_bit BITS i := b], f_zmapst := (f_zmapst s)[drop_bit BITS i := BDIRTY]\<rparr>) })"

definition alloci :: "fsys \<Rightarrow> (int \<times> nat \<times> fsys) option" where
  "alloci s = do {
     r \<leftarrow> map_scan (unat (f_nimapblock s)) (f_imap s) 0;
     case r of None \<Rightarrow> Some (ENOSPC, 0, s)
     | Some (i, j, b) \<Rightarrow> Some (0, nat (push_bit BITS (int i) + j),
         s\<lparr>f_imap := (f_imap s)[i := b], f_imapst := (f_imapst s)[i := BDIRTY]\<rparr>) }"

definition freei :: "nat \<Rightarrow> fsys \<Rightarrow> fsys option" where
  "freei ino s =
     (if ino = 0 \<or> ino \<ge> unat (f_ninode s) then Some s
      else do {
        r \<leftarrow> map_free_bit ino (f_imap s);
        case r of None \<Rightarrow> Some s
        | Some b \<Rightarrow> Some (s\<lparr>f_imap := (f_imap s)[drop_bit BITS ino := b], f_imapst := (f_imapst s)[drop_bit BITS ino := BDIRTY]\<rparr>) })"

subsection \<open>The super block\<close>

text \<open>The fields of \<^verbatim>\<open>minixdfs_t\<close> at their offsets in block 1, the low byte first.\<close>

definition get16 :: "u8 list \<Rightarrow> nat \<Rightarrow> u16" where
  "get16 d k = ucast (d ! k) OR push_bit 8 (ucast (d ! (k + 1)))"

definition get32 :: "u8 list \<Rightarrow> nat \<Rightarrow> u32" where
  "get32 d k = word_of_bytes [d ! k, d ! (k + 1), d ! (k + 2), d ! (k + 3)]"

definition put16 :: "nat \<Rightarrow> u16 \<Rightarrow> u8 list \<Rightarrow> u8 list" where
  "put16 k w d = d[k := ucast w, k + 1 := ucast (drop_bit 8 w)]"

definition put32 :: "nat \<Rightarrow> u32 \<Rightarrow> u8 list \<Rightarrow> u8 list" where
  "put32 k w d = d[k := ucast w, k + 1 := ucast (drop_bit 8 w), k + 2 := ucast (drop_bit 16 w), k + 3 := ucast (drop_bit 24 w)]"

definition dfs_load :: "u8 list \<Rightarrow> fsys \<Rightarrow> fsys" where
  "dfs_load d s = s\<lparr>f_ninode := get16 d 0, f_nzone16 := get16 d 2, f_nimapblock := get16 d 4,
     f_nzmapblock := get16 d 6, f_datazone := get16 d 8, f_logzonesize := get16 d 10,
     f_maxfilesize := get32 d 12, f_magic := get16 d 16, f_state := get16 d 18, f_nzone := get32 d 20\<rparr>"

definition dfs_store :: "fsys \<Rightarrow> u8 list \<Rightarrow> u8 list" where
  "dfs_store s d = put32 20 (f_nzone s) (put16 18 (f_state s) (put16 16 (f_magic s) (put32 12 (f_maxfilesize s)
     (put16 10 (f_logzonesize s) (put16 8 (f_datazone s) (put16 6 (f_nzmapblock s) (put16 4 (f_nimapblock s)
     (put16 2 (f_nzone16 s) (put16 0 (f_ninode s) d)))))))))"

text \<open>Reading the blocks of a map: the bitmaps, or the error of the first block that cannot be read.\<close>

fun load_maps :: "nat \<Rightarrow> int \<Rightarrow> fsys \<Rightarrow> (int + bitmap list) option" where
  "load_maps 0 block s = Some (Inr [])"
| "load_maps (Suc n) block s = (case f_readb block s of
     Inl e \<Rightarrow> Some (Inl e)
   | Inr d \<Rightarrow> do {
       b \<leftarrow> bitmap_ctor (words_of_bytes d) (2 ^ BITS);
       r \<leftarrow> load_maps n (block + 1) s;
       Some (case r of Inl e \<Rightarrow> Inl e | Inr bs \<Rightarrow> Inr (b # bs)) })"

definition set_first :: "bitmap list \<Rightarrow> bitmap list option" where
  "set_first maps = do { kassert (maps \<noteq> []); b \<leftarrow> bitmap_set 0 (maps ! 0); Some (maps[0 := b]) }"

text \<open>\<^verbatim>\<open>fs_t::read\<close> up to the reading of the root inode.\<close>

definition fs_read :: "fsys \<Rightarrow> (int \<times> fsys) option" where
  "fs_read s = (case f_readb 1 s of
     Inl e \<Rightarrow> Some (e, s)
   | Inr d \<Rightarrow> (let s1 = dfs_load d s in
       if f_magic s1 \<noteq> MINIX2MAGIC2 then Some (EINVAL, s1)
       else if unat (f_nimapblock s1) > 64 \<or> unat (f_nzmapblock s1) > 64 then Some (ENOMEM, s1)
       else do {
         ri \<leftarrow> load_maps (unat (f_nimapblock s1)) 2 s1;
         case ri of Inl e \<Rightarrow> Some (e, s1\<lparr>f_imap := []\<rparr>)
         | Inr im \<Rightarrow> do {
             rz \<leftarrow> load_maps (unat (f_nzmapblock s1)) (2 + int (unat (f_nimapblock s1))) s1;
             case rz of Inl e \<Rightarrow> Some (e, s1\<lparr>f_imap := [], f_zmap := []\<rparr>)
             | Inr zm \<Rightarrow> do {
                 im1 \<leftarrow> set_first im;
                 zm1 \<leftarrow> set_first zm;
                 Some (0, s1\<lparr>f_imap := im1, f_imapst := replicate (length im) BCLEAN,
                              f_zmap := zm1, f_zmapst := replicate (length zm) BCLEAN\<rparr>) } } }))"

definition map_bytes :: "bitmap \<Rightarrow> u8 list" where
  "map_bytes b = concat (map bytes_of_word (bits b))"

text \<open>\<^verbatim>\<open>llwriteb\<close> on the buffers of a map: the dirty ones are written.\<close>

fun write_maps :: "bitmap list \<Rightarrow> int list \<Rightarrow> int \<Rightarrow> fsys \<Rightarrow> fsys" where
  "write_maps (b # bs) (st # sts) block s =
     write_maps bs sts (block + 1) (if st = BDIRTY then f_writeb block (map_bytes b) s else s)"
| "write_maps _ _ block s = s"

definition clean_all :: "int list \<Rightarrow> int list" where
  "clean_all sts = map (\<lambda>st. if st = BDIRTY then BCLEAN else st) sts"

definition fs_write :: "fsys \<Rightarrow> int \<times> fsys" where
  "fs_write s = (case f_readb 1 s of
     Inl e \<Rightarrow> (e, s)
   | Inr d \<Rightarrow>
       let s1 = f_writeb 1 (dfs_store s d) s;
           s2 = write_maps (f_imap s1) (f_imapst s1) 2 s1;
           s3 = write_maps (f_zmap s2) (f_zmapst s2) (2 + int (unat (f_nimapblock s))) s2
       in (0, s3\<lparr>f_imapst := clean_all (f_imapst s), f_zmapst := clean_all (f_zmapst s)\<rparr>))"

subsection \<open>Pools of zones and inodes\<close>

definition maps_ok :: "nat \<Rightarrow> bitmap list \<Rightarrow> bool" where
  "maps_ok n maps \<longleftrightarrow> length maps = n \<and> (\<forall>b\<in>set maps. bm_ok b \<and> nbit b = 8192)"

definition map_clear :: "bitmap list \<Rightarrow> nat set" where
  "map_clear maps = {k. k div 8192 < length maps \<and> k mod 8192 \<in> clear_bits (bits (maps ! (k div 8192)))}"

lemma maps_okD: "maps_ok n maps \<Longrightarrow> i < n \<Longrightarrow> bm_ok (maps ! i) \<and> nbit (maps ! i) = 8192"
  by (auto simp: maps_ok_def)

lemma clear_bits_less: "bm_ok b \<Longrightarrow> nbit b = 8192 \<Longrightarrow> j \<in> clear_bits (bits b) \<Longrightarrow> j < 8192"
  by (simp add: bm_ok_def clear_bits_def)

lemma map_clear_pos: "i < length maps \<Longrightarrow> j < 8192 \<Longrightarrow> i * 8192 + j \<in> map_clear maps \<longleftrightarrow> j \<in> clear_bits (bits (maps ! i))"
  by (simp add: map_clear_def)

lemma pos_split: "(j::nat) < 8192 \<Longrightarrow> k = i * 8192 + j \<longleftrightarrow> k div 8192 = i \<and> k mod 8192 = j"
  by (metis add.commute div_mult_mod_eq div_mult_self3 mod_less mod_mult_self3 div_less add_0 zero_neq_numeral)

lemma map_update:
  assumes "maps_ok n maps" "i < n" "bm_ok b" "nbit b = 8192" "j < 8192"
  shows "maps_ok n (maps[i := b])"
    "clear_bits (bits b) = clear_bits (bits (maps ! i)) - {j} \<Longrightarrow> map_clear (maps[i := b]) = map_clear maps - {i * 8192 + j}"
    "clear_bits (bits b) = insert j (clear_bits (bits (maps ! i))) \<Longrightarrow> map_clear (maps[i := b]) = insert (i * 8192 + j) (map_clear maps)"
proof -
  show "maps_ok n (maps[i := b])" using assms(1-4) by (auto simp: maps_ok_def dest: set_update_subset_insert [THEN subsetD])
  have len: "length maps = n" using assms(1) by (simp add: maps_ok_def)
  note split = pos_split [OF assms(5), of _ i]
  have mem: "k \<in> map_clear (maps[i := b]) \<longleftrightarrow> k div 8192 < n \<and>
      k mod 8192 \<in> (if k div 8192 = i then clear_bits (bits b) else clear_bits (bits (maps ! (k div 8192))))" for k
    unfolding map_clear_def mem_Collect_eq length_list_update len by (cases "k div 8192 = i") (simp_all add: len assms(2))
  have mem0: "k \<in> map_clear maps \<longleftrightarrow> k div 8192 < n \<and> k mod 8192 \<in> clear_bits (bits (maps ! (k div 8192)))" for k
    unfolding map_clear_def mem_Collect_eq len ..
  show "map_clear (maps[i := b]) = map_clear maps - {i * 8192 + j}" if c: "clear_bits (bits b) = clear_bits (bits (maps ! i)) - {j}"
  proof (rule set_eqI)
    fix k show "k \<in> map_clear (maps[i := b]) \<longleftrightarrow> k \<in> map_clear maps - {i * 8192 + j}"
      unfolding mem Diff_iff singleton_iff mem0 split c by (cases "k div 8192 = i") simp_all
  qed
  show "map_clear (maps[i := b]) = insert (i * 8192 + j) (map_clear maps)" if c: "clear_bits (bits b) = insert j (clear_bits (bits (maps ! i)))"
  proof (rule set_eqI)
    fix k show "k \<in> map_clear (maps[i := b]) \<longleftrightarrow> k \<in> insert (i * 8192 + j) (map_clear maps)"
      unfolding mem insert_iff mem0 split c using assms(2) by (cases "k div 8192 = i") auto
  qed
qed

lemma map_scan_spec:
  assumes ok: "maps_ok n maps"
  shows "\<exists>r. map_scan n maps i = Some r \<and> (case r of
      None \<Rightarrow> \<forall>k\<in>map_clear maps. k div 8192 < i
    | Some (m, j, b) \<Rightarrow> m < n \<and> 0 \<le> j \<and> j < 8192 \<and> m * 8192 + nat j \<in> map_clear maps \<and>
        (\<forall>k\<in>map_clear maps. i \<le> k div 8192 \<longrightarrow> m * 8192 + nat j \<le> k) \<and>
        bm_ok b \<and> nbit b = 8192 \<and> clear_bits (bits b) = clear_bits (bits (maps ! m)) - {nat j})"
proof (induction "n - i" arbitrary: i)
  case 0
  then have "map_scan n maps i = Some None" by (subst map_scan.simps) simp
  with 0 ok show ?case by (auto simp: map_clear_def maps_ok_def)
next
  case (Suc d)
  then have i: "i < n" "i < length maps" using ok by (auto simp: maps_ok_def)
  have b: "bm_ok (maps ! i)" "nbit (maps ! i) = 8192" using maps_okD [OF ok i(1)] by auto
  obtain j where j: "bitmap_ff0 (maps ! i) = Some j" "is_first (clear_bits (bits (maps ! i))) j"
    using bitmap_ff0_spec [OF b(1)] by blast
  show ?case
  proof (cases "clear_bits (bits (maps ! i)) = {}")
    case True
    with j have e: "map_scan n maps i = map_scan n maps (Suc i)" using i by (subst map_scan.simps) (simp add: is_first_def)
    have k: "k div 8192 \<noteq> i" if "k \<in> map_clear maps" for k using that True by (auto simp: map_clear_def)
    from Suc.hyps(1) [of "Suc i"] Suc.hyps(2) obtain r where "map_scan n maps (Suc i) = Some r" "case r of
      None \<Rightarrow> \<forall>k\<in>map_clear maps. k div 8192 < Suc i
    | Some (m, j, b) \<Rightarrow> m < n \<and> 0 \<le> j \<and> j < 8192 \<and> m * 8192 + nat j \<in> map_clear maps \<and>
        (\<forall>k\<in>map_clear maps. Suc i \<le> k div 8192 \<longrightarrow> m * 8192 + nat j \<le> k) \<and>
        bm_ok b \<and> nbit b = 8192 \<and> clear_bits (bits b) = clear_bits (bits (maps ! m)) - {nat j}" by force
    with k show ?thesis unfolding e by (auto simp: Suc_le_eq le_eq_less_or_eq less_Suc_eq split: option.splits)
  next
    case False
    then have j0: "0 \<le> j" "nat j \<in> clear_bits (bits (maps ! i))" "\<forall>x<nat j. x \<notin> clear_bits (bits (maps ! i))"
      using j(2) by (auto simp: is_first_def)
    then have jl: "nat j < 8192" using clear_bits_less [OF b] by blast
    obtain b' where b': "bitmap_set j (maps ! i) = Some b'" "bm_ok b'" "nbit b' = 8192"
      "clear_bits (bits b') = clear_bits (bits (maps ! i)) - {nat j}"
      using bitmap_set_spec [OF b(1), of "nat j"] jl b(2) j0(1) by auto
    have "map_scan n maps i = Some (Some (i, j, b'))" using i j(1) j0(1) b'(1) by (subst map_scan.simps) simp
    moreover have "i * 8192 + nat j \<le> k" if k: "k \<in> map_clear maps" "i \<le> k div 8192" for k
    proof (cases "k div 8192 = i")
      case True
      with k have "\<not> k mod 8192 < nat j" using j0(3) by (auto simp: map_clear_def)
      then show ?thesis using True div_mult_mod_eq [of k 8192] by linarith
    next
      case False
      with k(2) have "Suc i \<le> k div 8192" by simp
      then show ?thesis using jl div_mult_mod_eq [of k 8192] mult_le_mono1 [of "Suc i" "k div 8192" 8192] by simp
    qed
    moreover have "i * 8192 + nat j \<in> map_clear maps" using map_clear_pos [OF i(2) jl] j0(2) by simp
    ultimately show ?thesis using i(1) b' j0(1) jl by (intro exI [of _ "Some (i, j, b')"]) auto
  qed
qed

lemma map_free_bit_spec:
  assumes ok: "maps_ok n maps" and k: "k div 8192 < n"
  shows "\<exists>r. map_free_bit k maps = Some r \<and> (case r of
      None \<Rightarrow> k \<in> map_clear maps
    | Some b \<Rightarrow> bm_ok b \<and> nbit b = 8192 \<and> clear_bits (bits b) = insert (k mod 8192) (clear_bits (bits (maps ! (k div 8192)))))"
proof -
  let ?b = "maps ! (k div 8192)"
  have b: "bm_ok ?b" "nbit ?b = 8192" using maps_okD [OF ok k] by auto
  have len: "k div 8192 < length maps" using ok k by (simp add: maps_ok_def)
  have m: "k mod 8192 < nbit ?b" using b(2) by simp
  have dt: "drop_bit BITS k = k div 8192" "take_bit BITS k = k mod 8192" by (simp_all add: BITS_def drop_bit_eq_div take_bit_eq_mod)
  obtain b' where b': "bitmap_clr (int (k mod 8192)) ?b = Some b'" "bm_ok b'" "nbit b' = 8192"
    "clear_bits (bits b') = insert (k mod 8192) (clear_bits (bits ?b))"
    using bitmap_clr_spec [OF b(1) m] b(2) by auto
  show ?thesis
    using bitmap_tst_spec [OF b(1) m] b' len unfolding map_free_bit_def dt by (auto simp: map_clear_def)
qed

text \<open>
  The maps have one bit per zone or inode; \<^verbatim>\<open>mkfs\<close> sets bit 0 and the bits past the end, which keeps
  clear bits within the ranges that \<^verbatim>\<open>freeb\<close> and \<^verbatim>\<open>freei\<close> accept.  Inodes are numbered from 1 to
  \<^verbatim>\<open>ninode\<close>.
\<close>

definition fs_ok :: "fsys \<Rightarrow> bool" where
  "fs_ok s \<longleftrightarrow> maps_ok (unat (f_nzmapblock s)) (f_zmap s) \<and> maps_ok (unat (f_nimapblock s)) (f_imap s) \<and>
     length (f_zmapst s) = unat (f_nzmapblock s) \<and> length (f_imapst s) = unat (f_nimapblock s) \<and>
     0 < unat (f_datazone s) \<and>
     (\<forall>k\<in>map_clear (f_zmap s). 0 < k \<and> k + unat (f_datazone s) \<le> unat (f_nzone s)) \<and>
     (\<forall>k\<in>map_clear (f_imap s). 0 < k \<and> k \<le> unat (f_ninode s)) \<and>
     unat (f_nzone s) < unat (f_datazone s) + 8192 * unat (f_nzmapblock s) \<and>
     unat (f_ninode s) < 8192 * unat (f_nimapblock s)"

definition zone_of :: "fsys \<Rightarrow> nat \<Rightarrow> int" where
  "zone_of s k = int k + int (unat (f_datazone s)) - 1"

definition free_zones :: "fsys \<Rightarrow> int set" where
  "free_zones s = zone_of s ` map_clear (f_zmap s)"

declare of_nat_unat [simp del]

lemma inj_zone_of: "inj (zone_of s)"
  by (simp add: inj_def zone_of_def)

lemma free_zones_range:
  assumes "fs_ok s" "b \<in> free_zones s"
  shows "int (unat (f_datazone s)) \<le> b" "b < int (unat (f_nzone s))"
  using assms by (auto simp: fs_ok_def free_zones_def zone_of_def)

lemma push_BITS: "push_bit BITS (int i) = int (i * 8192)"
  by (simp add: BITS_def push_bit_eq_mult)

lemma allocb_spec:
  assumes ok: "fs_ok s"
  obtains (full) "free_zones s = {}" "allocb s = Some (ENOSPC, 0, s)"
  | (got) b s' where "allocb s = Some (0, b, s')" "b \<in> free_zones s" "\<forall>b'\<in>free_zones s. b \<le> b'"
      "free_zones s' = free_zones s - {b}" "fs_ok s'" "f_blk s' = f_blk s" "f_bad s' = f_bad s"
      "f_datazone s' = f_datazone s" "f_nzone s' = f_nzone s"
proof -
  have m: "maps_ok (unat (f_nzmapblock s)) (f_zmap s)" using ok by (simp add: fs_ok_def)
  obtain r where r: "map_scan (unat (f_nzmapblock s)) (f_zmap s) 0 = Some r" and c: "case r of
      None \<Rightarrow> \<forall>k\<in>map_clear (f_zmap s). k div 8192 < 0
    | Some (m, j, b) \<Rightarrow> m < unat (f_nzmapblock s) \<and> 0 \<le> j \<and> j < 8192 \<and> m * 8192 + nat j \<in> map_clear (f_zmap s) \<and>
        (\<forall>k\<in>map_clear (f_zmap s). 0 \<le> k div 8192 \<longrightarrow> m * 8192 + nat j \<le> k) \<and>
        bm_ok b \<and> nbit b = 8192 \<and> clear_bits (bits b) = clear_bits (bits (f_zmap s ! m)) - {nat j}"
    using map_scan_spec [OF m, of 0] by blast
  show ?thesis
  proof (cases r)
    case None
    with r c show ?thesis by (intro full) (auto simp: free_zones_def allocb_def)
  next
    case (Some t)
    obtain i j b where t: "t = (i, j, b)" by (cases t)
    define k where "k = i * 8192 + nat j"
    from Some t c have c': "i < unat (f_nzmapblock s)" "0 \<le> j" "nat j < 8192" "k \<in> map_clear (f_zmap s)"
      "\<forall>k'\<in>map_clear (f_zmap s). k \<le> k'" "bm_ok b" "nbit b = 8192" "clear_bits (bits b) = clear_bits (bits (f_zmap s ! i)) - {nat j}"
      by (auto simp: k_def)
    let ?s = "s\<lparr>f_zmap := (f_zmap s)[i := b], f_zmapst := (f_zmapst s)[i := BDIRTY]\<rparr>"
    note u = map_update [OF m c'(1,6,7,3)]
    have mc: "map_clear (f_zmap ?s) = map_clear (f_zmap s) - {k}" using u(2) [OF c'(8)] by (simp add: k_def)
    have z: "zone_of ?s = zone_of s" by (simp add: zone_of_def fun_eq_iff)
    have "free_zones ?s = free_zones s - {zone_of s k}"
      unfolding free_zones_def z mc image_set_diff [OF inj_zone_of] by simp
    moreover have "fs_ok ?s" using ok u(1) mc by (simp add: fs_ok_def)
    moreover have "allocb s = Some (0, zone_of s k, ?s)"
      using r Some t c'(2) by (simp add: allocb_def push_BITS zone_of_def k_def)
    ultimately show ?thesis
      using c'(4,5) by (intro got [of "zone_of s k" ?s]) (auto simp: free_zones_def zone_of_def)
  qed
qed

lemma freeb_spec:
  assumes ok: "fs_ok s"
  obtains s' where "freeb b s = Some s'" "fs_ok s'" "f_blk s' = f_blk s" "f_bad s' = f_bad s"
    "f_datazone s' = f_datazone s" "f_nzone s' = f_nzone s"
    "free_zones s' = (if int (unat (f_datazone s)) \<le> b \<and> b < int (unat (f_nzone s)) then insert b (free_zones s) else free_zones s)"
proof (cases "int (unat (f_datazone s)) \<le> b \<and> b < int (unat (f_nzone s))")
  case False
  then show ?thesis using ok by (intro that [of s]) (auto simp: freeb_def)
next
  case True
  have m: "maps_ok (unat (f_nzmapblock s)) (f_zmap s)" using ok by (simp add: fs_ok_def)
  define k where "k = nat (b - int (unat (f_datazone s)) + 1)"
  have bk: "b = zone_of s k" and k0: "0 < k" "k + unat (f_datazone s) \<le> unat (f_nzone s)"
    using True by (auto simp: zone_of_def k_def)
  then have "k < 8192 * unat (f_nzmapblock s)" using ok by (simp add: fs_ok_def)
  then have kd: "k div 8192 < unat (f_nzmapblock s)" by (simp add: less_mult_imp_div_less mult.commute)
  obtain r where r: "map_free_bit k (f_zmap s) = Some r" and c: "case r of
      None \<Rightarrow> k \<in> map_clear (f_zmap s)
    | Some b \<Rightarrow> bm_ok b \<and> nbit b = 8192 \<and> clear_bits (bits b) = insert (k mod 8192) (clear_bits (bits (f_zmap s ! (k div 8192))))"
    using map_free_bit_spec [OF m kd] by blast
  have dk: "drop_bit BITS k = k div 8192" by (simp add: BITS_def drop_bit_eq_div)
  show ?thesis
  proof (cases r)
    case None
    then have "free_zones s = insert b (free_zones s)" using c bk by (auto simp: free_zones_def)
    with None r ok True show ?thesis by (intro that [of s]) (auto simp: freeb_def Let_def simp flip: k_def)
  next
    case (Some m')
    let ?s = "s\<lparr>f_zmap := (f_zmap s)[k div 8192 := m'], f_zmapst := (f_zmapst s)[k div 8192 := BDIRTY]\<rparr>"
    have u: "maps_ok (unat (f_nzmapblock s)) (f_zmap ?s)" "map_clear (f_zmap ?s) = insert k (map_clear (f_zmap s))"
      using map_update [OF m kd, of m' "k mod 8192"] c Some by auto
    have z: "zone_of ?s = zone_of s" by (simp add: zone_of_def fun_eq_iff)
    have "fs_ok ?s" using ok u k0 by (simp add: fs_ok_def)
    moreover have "free_zones ?s = insert b (free_zones s)" unfolding free_zones_def z u(2) bk by simp
    moreover have "freeb b s = Some ?s" using r Some True dk by (simp add: freeb_def Let_def flip: k_def)
    ultimately show ?thesis using True by (intro that [of ?s]) auto
  qed
qed

lemma alloci_spec:
  assumes ok: "fs_ok s"
  obtains (full) "map_clear (f_imap s) = {}" "alloci s = Some (ENOSPC, 0, s)"
  | (got) i s' where "alloci s = Some (0, i, s')" "i \<in> map_clear (f_imap s)" "\<forall>i'\<in>map_clear (f_imap s). i \<le> i'"
      "map_clear (f_imap s') = map_clear (f_imap s) - {i}" "fs_ok s'" "f_ninode s' = f_ninode s"
proof -
  have m: "maps_ok (unat (f_nimapblock s)) (f_imap s)" using ok by (simp add: fs_ok_def)
  obtain r where r: "map_scan (unat (f_nimapblock s)) (f_imap s) 0 = Some r" and c: "case r of
      None \<Rightarrow> \<forall>k\<in>map_clear (f_imap s). k div 8192 < 0
    | Some (m, j, b) \<Rightarrow> m < unat (f_nimapblock s) \<and> 0 \<le> j \<and> j < 8192 \<and> m * 8192 + nat j \<in> map_clear (f_imap s) \<and>
        (\<forall>k\<in>map_clear (f_imap s). 0 \<le> k div 8192 \<longrightarrow> m * 8192 + nat j \<le> k) \<and>
        bm_ok b \<and> nbit b = 8192 \<and> clear_bits (bits b) = clear_bits (bits (f_imap s ! m)) - {nat j}"
    using map_scan_spec [OF m, of 0] by blast
  show ?thesis
  proof (cases r)
    case None
    with r c show ?thesis by (intro full) (auto simp: alloci_def)
  next
    case (Some t)
    obtain i j b where t: "t = (i, j, b)" by (cases t)
    define k where "k = i * 8192 + nat j"
    from Some t c have c': "i < unat (f_nimapblock s)" "0 \<le> j" "nat j < 8192" "k \<in> map_clear (f_imap s)"
      "\<forall>k'\<in>map_clear (f_imap s). k \<le> k'" "bm_ok b" "nbit b = 8192" "clear_bits (bits b) = clear_bits (bits (f_imap s ! i)) - {nat j}"
      by (auto simp: k_def)
    let ?s = "s\<lparr>f_imap := (f_imap s)[i := b], f_imapst := (f_imapst s)[i := BDIRTY]\<rparr>"
    note u = map_update [OF m c'(1,6,7,3)]
    have mc: "map_clear (f_imap ?s) = map_clear (f_imap s) - {k}" using u(2) [OF c'(8)] by (simp add: k_def)
    have "fs_ok ?s" using ok u(1) mc by (simp add: fs_ok_def)
    moreover have "nat (int (i * 8192) + j) = k" using c'(2) by (simp add: k_def nat_add_distrib)
    then have "alloci s = Some (0, k, ?s)" using r Some t by (simp add: alloci_def push_BITS)
    ultimately show ?thesis using c'(4,5) mc by (intro got [of k ?s]) auto
  qed
qed

subsection \<open>Saving and mounting\<close>

lemma get16_put16: "get16 ([ucast w, ucast (drop_bit 8 w)] @ d) 0 = (w :: u16)"
  unfolding get16_def
  by (rule bit_word_eqI) (auto simp: bit_simps not_less dest: bit_imp_le_length)

lemma word16_join: "ucast (ucast w :: u8) OR push_bit 8 (ucast (ucast (drop_bit 8 w) :: u8)) = (w :: u16)"
  using get16_put16 [of w "[]"] by (simp add: get16_def)

lemma word32_join: "word_of_bytes [ucast w, ucast (drop_bit 8 w), ucast (drop_bit 16 w), ucast (drop_bit 24 w)] = w"
  using word_of_bytes_of_word [of w] by (simp add: bytes_of_word_def upt_rec)

lemma dfs_load_store:
  assumes "length d = 1024"
  shows "dfs_load (dfs_store s d) t = t\<lparr>f_ninode := f_ninode s, f_nzone16 := f_nzone16 s, f_nimapblock := f_nimapblock s,
     f_nzmapblock := f_nzmapblock s, f_datazone := f_datazone s, f_logzonesize := f_logzonesize s,
     f_maxfilesize := f_maxfilesize s, f_magic := f_magic s, f_state := f_state s, f_nzone := f_nzone s\<rparr>"
  using assms unfolding dfs_load_def dfs_store_def get16_def get32_def put16_def put32_def
  by (simp add: word16_join word32_join)

lemma write_maps_blk:
  "length sts = length bs \<Longrightarrow> write_maps bs sts block s = s\<lparr>f_blk := (\<lambda>n.
     if block \<le> n \<and> nat (n - block) < length bs \<and> sts ! nat (n - block) = BDIRTY then map_bytes (bs ! nat (n - block))
     else f_blk s n)\<rparr>"
proof (induction bs sts block s rule: write_maps.induct)
  case (1 b bs st sts block s)
  define t where "t = (if st = BDIRTY then f_writeb block (map_bytes b) s else s)"
  have len: "length sts = length bs" using 1(2) by simp
  have upd: "t\<lparr>f_blk := F\<rparr> = s\<lparr>f_blk := F\<rparr>" for F by (simp add: t_def f_writeb_def)
  have tb: "f_blk t n = (if n = block \<and> st = BDIRTY then map_bytes b else f_blk s n)" for n by (simp add: t_def f_writeb_def)
  have "(if block + 1 \<le> n \<and> nat (n - (block + 1)) < length bs \<and> sts ! nat (n - (block + 1)) = BDIRTY
        then map_bytes (bs ! nat (n - (block + 1))) else f_blk t n) =
      (if block \<le> n \<and> nat (n - block) < length (b # bs) \<and> (st # sts) ! nat (n - block) = BDIRTY
        then map_bytes ((b # bs) ! nat (n - block)) else f_blk s n)" for n
  proof (cases "block < n")
    case True
    then have "nat (n - block) = Suc (nat (n - (block + 1)))" by simp
    with True show ?thesis by (simp add: tb)
  next
    case False
    then show ?thesis by (cases "n = block") (simp_all add: tb)
  qed
  with 1(1) [OF len] show ?case unfolding write_maps.simps t_def [symmetric] upd by simp
qed auto

lemma load_maps_ok:
  assumes "\<forall>b\<in>set bs. bm_ok b \<and> nbit b = 8192"
    "\<And>i. i < length bs \<Longrightarrow> f_readb (block + int i) s = Inr (map_bytes (bs ! i))"
  shows "load_maps (length bs) block s = Some (Inr bs)"
  using assms
proof (induction bs arbitrary: block)
  case (Cons b bs)
  have "f_readb block s = Inr (map_bytes b)" using Cons.prems(2) [of 0] by simp
  moreover have "bitmap_ctor (words_of_bytes (map_bytes b)) (2 ^ BITS) = Some b"
    using bitmap_ctor_ok [of "bits b"] Cons.prems(1)
    by (auto simp: map_bytes_def words_of_bytes_of_words BITS_def bm_ok_def bitmap_ctor_def)
  moreover have "load_maps (length bs) (block + 1) s = Some (Inr bs)"
    using Cons.prems(2) [of "Suc i" for i] Cons.prems(1) by (intro Cons.IH) (auto simp: add.assoc)
  ultimately show ?case by simp
qed simp

lemma set_first_ok:
  assumes "maps_ok n maps" "0 < n" "0 \<notin> map_clear maps"
  obtains maps' where "set_first maps = Some maps'" "map_clear maps' = map_clear maps" "maps_ok n maps'"
proof -
  have b: "bm_ok (maps ! 0)" "nbit (maps ! 0) = 8192" and ne: "maps \<noteq> []" using maps_okD [OF assms(1,2)] assms(1,2) by (auto simp: maps_ok_def)
  obtain b' where b': "bitmap_set 0 (maps ! 0) = Some b'" "bm_ok b'" "nbit b' = 8192" "clear_bits (bits b') = clear_bits (bits (maps ! 0)) - {0}"
    using bitmap_set_spec [OF b(1), of 0] b(2) by auto
  have "map_clear (maps[0 := b']) = map_clear maps - {0}"
    using map_update(2) [OF assms(1,2) b'(2,3), of 0] b'(4) by simp
  with assms(3) ne b'(1) show ?thesis by (intro that [of "maps[0 := b']"] map_update(1) [OF assms(1,2) b'(2,3), of 0]) (auto simp: set_first_def)
qed

definition synced :: "bitmap list \<Rightarrow> int list \<Rightarrow> int \<Rightarrow> fsys \<Rightarrow> bool" where
  "synced maps sts block s \<longleftrightarrow> (\<forall>i<length maps. sts ! i = BDIRTY \<or> f_blk s (block + int i) = map_bytes (maps ! i))"

text \<open>
  C10: Saving a file system and mounting it again preserves it.  After \<^verbatim>\<open>fs_t::write\<close> of a consistent
  file system, on a device whose blocks can all be read, \<^verbatim>\<open>fs_t::read\<close> into a fresh \<^verbatim>\<open>fs_t\<close> (every field
  and map of it arbitrary, only the disk the same) succeeds and finds every field of the super block
  and exactly the same free inodes and zones; neither call touches a data block.
\<close>

theorem save_mount_roundtrip:
  fixes fresh :: fsys
  assumes ok: "fs_ok s" and len: "length (f_blk s 1) = 1024" and mg: "f_magic s = MINIX2MAGIC2"
    and sz: "0 < unat (f_nimapblock s)" "unat (f_nimapblock s) \<le> 64" "0 < unat (f_nzmapblock s)" "unat (f_nzmapblock s) \<le> 64"
    and good: "\<And>n. \<not> f_bad s n"
    and sync: "synced (f_imap s) (f_imapst s) 2 s" "synced (f_zmap s) (f_zmapst s) (2 + int (unat (f_nimapblock s))) s"
  shows "\<exists>s1 s2. fs_write s = (0, s1) \<and> fs_read (fresh\<lparr>f_blk := f_blk s1, f_bad := f_bad s1\<rparr>) = Some (0, s2) \<and>
    f_ninode s2 = f_ninode s \<and> f_nzone16 s2 = f_nzone16 s \<and> f_nimapblock s2 = f_nimapblock s \<and>
    f_nzmapblock s2 = f_nzmapblock s \<and> f_datazone s2 = f_datazone s \<and> f_logzonesize s2 = f_logzonesize s \<and>
    f_maxfilesize s2 = f_maxfilesize s \<and> f_magic s2 = f_magic s \<and> f_state s2 = f_state s \<and> f_nzone s2 = f_nzone s \<and>
    map_clear (f_imap s2) = map_clear (f_imap s) \<and> map_clear (f_zmap s2) = map_clear (f_zmap s) \<and>
    fs_ok s2 \<and> f_blk s2 = f_blk s1 \<and>
    (\<forall>n \<ge> 2 + int (unat (f_nimapblock s)) + int (unat (f_nzmapblock s)). f_blk s2 n = f_blk s n)"
proof -
  let ?i = "unat (f_nimapblock s)" and ?z = "unat (f_nzmapblock s)"
  define s1 where "s1 = f_writeb 1 (dfs_store s (f_blk s 1)) s"
  define s2 where "s2 = write_maps (f_imap s1) (f_imapst s1) 2 s1"
  define s3 where "s3 = write_maps (f_zmap s2) (f_zmapst s2) (2 + int ?i) s2"
  define s4 where "s4 = s3\<lparr>f_imapst := clean_all (f_imapst s), f_zmapst := clean_all (f_zmapst s)\<rparr>"
  have mi: "maps_ok ?i (f_imap s)" "length (f_imap s) = ?i" "length (f_imapst s) = ?i"
    and mz: "maps_ok ?z (f_zmap s)" "length (f_zmap s) = ?z" "length (f_zmapst s) = ?z"
    using ok by (auto simp: fs_ok_def maps_ok_def)
  let ?iw = "\<lambda>n. 2 \<le> n \<and> nat (n - 2) < ?i \<and> f_imapst s ! nat (n - 2) = BDIRTY"
  let ?zw = "\<lambda>n. 2 + int ?i \<le> n \<and> nat (n - (2 + int ?i)) < ?z \<and> f_zmapst s ! nat (n - (2 + int ?i)) = BDIRTY"
  have s1e: "s1 = s\<lparr>f_blk := f_blk s1\<rparr>" "f_blk s1 n = (if n = 1 then dfs_store s (f_blk s 1) else f_blk s n)" for n
    by (simp_all add: s1_def f_writeb_def)
  have fi: "f_imap s1 = f_imap s" "f_imapst s1 = f_imapst s" "f_zmap s1 = f_zmap s" "f_zmapst s1 = f_zmapst s"
    by (simp_all add: s1_def f_writeb_def)
  have s2e: "s2 = s1\<lparr>f_blk := (\<lambda>n. if ?iw n then map_bytes (f_imap s ! nat (n - 2)) else f_blk s1 n)\<rparr>"
    unfolding s2_def fi using write_maps_blk [of "f_imapst s" "f_imap s" 2 s1] mi(2,3) by simp
  have fz: "f_zmap s2 = f_zmap s" "f_zmapst s2 = f_zmapst s" by (simp_all add: s2e fi)
  have s3e: "s3 = s2\<lparr>f_blk := (\<lambda>n. if ?zw n then map_bytes (f_zmap s ! nat (n - (2 + int ?i))) else f_blk s2 n)\<rparr>"
    unfolding s3_def fz using write_maps_blk [of "f_zmapst s" "f_zmap s" "2 + int ?i" s2] mz(2,3) by simp
  have b3: "f_blk s3 n = (if ?zw n then map_bytes (f_zmap s ! nat (n - (2 + int ?i)))
      else if ?iw n then map_bytes (f_imap s ! nat (n - 2)) else if n = 1 then dfs_store s (f_blk s 1) else f_blk s n)" for n
    by (simp add: s3e s2e s1e(2))
  have s3s: "s3 = s\<lparr>f_blk := f_blk s3\<rparr>" by (subst s3e, subst s2e, subst s1e) (simp add: s3e)
  have w: "fs_write s = (0, s4)"
    using good by (simp add: fs_write_def f_readb_def s4_def s3_def s2_def s1_def Let_def)
  have s4s: "s4 = s\<lparr>f_blk := f_blk s3, f_imapst := clean_all (f_imapst s), f_zmapst := clean_all (f_zmapst s)\<rparr>"
    unfolding s4_def by (subst s3s) simp
  define s0 where "s0 = fresh\<lparr>f_blk := f_blk s4, f_bad := f_bad s4\<rparr>"
  have b0: "f_blk s4 = f_blk s3" "f_blk s0 = f_blk s3" "f_bad s0 = f_bad s" by (simp_all add: s0_def s4s)
  have im: "f_blk s3 (2 + int j) = map_bytes (f_imap s ! j)" if "j < ?i" for j
  proof -
    have "\<not> 2 + int ?i \<le> 2 + int j" "nat (2 + int j - 2) = j" "2 + int j \<noteq> 1" using that by auto
    then show ?thesis using sync(1) that mi(2) unfolding b3 synced_def by auto
  qed
  have zm: "f_blk s3 (2 + int ?i + int j) = map_bytes (f_zmap s ! j)" if "j < ?z" for j
  proof -
    have "nat (2 + int ?i + int j - (2 + int ?i)) = j" "\<not> nat (2 + int ?i + int j - 2) < ?i" "2 + int ?i + int j \<noteq> 1" by auto
    then show ?thesis using sync(2) that mz(2) unfolding b3 synced_def by auto
  qed
  have sb: "f_blk s3 1 = dfs_store s (f_blk s 1)" unfolding b3 by simp
  define s5 where "s5 = dfs_load (f_blk s3 1) s0"
  have rd: "f_readb n s0 = Inr (f_blk s3 n)" "f_readb n s5 = Inr (f_blk s3 n)" for n
    using good by (simp_all add: f_readb_def s5_def dfs_load_def b0)
  have f: "f_ninode s5 = f_ninode s" "f_nzone16 s5 = f_nzone16 s" "f_nimapblock s5 = f_nimapblock s" "f_nzmapblock s5 = f_nzmapblock s"
    "f_datazone s5 = f_datazone s" "f_logzonesize s5 = f_logzonesize s" "f_maxfilesize s5 = f_maxfilesize s" "f_magic s5 = f_magic s"
    "f_state s5 = f_state s" "f_nzone s5 = f_nzone s" "f_blk s5 = f_blk s3"
    unfolding s5_def sb dfs_load_store [OF len] by (simp_all add: b0)
  have li: "load_maps ?i 2 s5 = Some (Inr (f_imap s))"
    using load_maps_ok [of "f_imap s" 2 s5] mi im by (simp add: rd maps_ok_def)
  have lz: "load_maps ?z (2 + int ?i) s5 = Some (Inr (f_zmap s))"
    using load_maps_ok [of "f_zmap s" "2 + int ?i" s5] mz zm by (simp add: rd maps_ok_def)
  have "0 \<notin> map_clear (f_imap s)" "0 \<notin> map_clear (f_zmap s)" using ok by (auto simp: fs_ok_def)
  then obtain im1 zm1 where m1: "set_first (f_imap s) = Some im1" "map_clear im1 = map_clear (f_imap s)" "maps_ok ?i im1"
    "set_first (f_zmap s) = Some zm1" "map_clear zm1 = map_clear (f_zmap s)" "maps_ok ?z zm1"
    using set_first_ok [OF mi(1) sz(1)] set_first_ok [OF mz(1) sz(3)] by metis
  define s6 where "s6 = s5\<lparr>f_imap := im1, f_imapst := replicate ?i BCLEAN, f_zmap := zm1, f_zmapst := replicate ?z BCLEAN\<rparr>"
  have g: "f_ninode s6 = f_ninode s" "f_nzone16 s6 = f_nzone16 s" "f_nimapblock s6 = f_nimapblock s" "f_nzmapblock s6 = f_nzmapblock s"
    "f_datazone s6 = f_datazone s" "f_logzonesize s6 = f_logzonesize s" "f_maxfilesize s6 = f_maxfilesize s" "f_magic s6 = f_magic s"
    "f_state s6 = f_state s" "f_nzone s6 = f_nzone s" "map_clear (f_imap s6) = map_clear (f_imap s)"
    "map_clear (f_zmap s6) = map_clear (f_zmap s)" "f_blk s6 = f_blk s4" "fs_ok s6"
    using ok m1 f by (simp_all add: s6_def b0 fs_ok_def)
  have "fs_read s0 = Some (0, s6)"
    using li lz m1 sz(2,4) mi(2) mz(2) by (simp add: fs_read_def rd Let_def f mg s6_def flip: s5_def)
  moreover have "f_blk s4 n = f_blk s n" if "2 + int ?i + int ?z \<le> n" for n
  proof -
    have "\<not> nat (n - (2 + int ?i)) < ?z" "\<not> nat (n - 2) < ?i" "n \<noteq> 1" using that by auto
    then show ?thesis unfolding b0 b3 by simp
  qed
  ultimately show ?thesis using w g by (intro exI [of _ s4] exI [of _ s6]) (simp add: s0_def)
qed

text \<open>
  C25: Zones are allocated and freed exactly.  \<^verbatim>\<open>allocb\<close> fails with \<^verbatim>\<open>ENOSPC\<close> only when no zone is free;
  otherwise it returns the lowest free zone, which lies in the data area, and marks only it; \<^verbatim>\<open>freeb\<close>
  of that zone restores the pool, and doing so twice changes nothing more.
\<close>

theorem zones_exact:
  assumes "fs_ok s"
  shows "\<exists>e b s1 s2 s3. allocb s = Some (e, b, s1) \<and> fs_ok s1 \<and>
    (if free_zones s = {} then e = ENOSPC \<and> s1 = s
     else e = 0 \<and> b \<in> free_zones s \<and> (\<forall>b'\<in>free_zones s. b \<le> b') \<and>
       int (unat (f_datazone s)) \<le> b \<and> b < int (unat (f_nzone s)) \<and> free_zones s1 = free_zones s - {b} \<and>
       freeb b s1 = Some s2 \<and> free_zones s2 = free_zones s \<and> freeb b s2 = Some s3 \<and> free_zones s3 = free_zones s)"
  using assms
proof (cases rule: allocb_spec)
  case full
  with assms show ?thesis by auto
next
  case (got b s1)
  note rg = free_zones_range [OF assms got(2)]
  obtain s2 where s2: "freeb b s1 = Some s2" "fs_ok s2" "f_datazone s2 = f_datazone s1" "f_nzone s2 = f_nzone s1"
    "free_zones s2 = insert b (free_zones s1)"
    by (rule freeb_spec [OF got(5), of b]) (use rg got(8,9) in auto)
  obtain s3 where s3: "freeb b s2 = Some s3" "free_zones s3 = insert b (free_zones s2)"
    by (rule freeb_spec [OF s2(2), of b]) (use rg got(8,9) s2 in auto)
  have f2: "free_zones s2 = free_zones s" and ne: "free_zones s \<noteq> {}" using s2(5) got(2,4) by auto
  have f3: "free_zones s3 = free_zones s" using s3(2) f2 got(2) by auto
  show ?thesis
    using got(1-5) s2(1) s3(1) rg f2 f3 ne
    by (intro exI [of _ 0] exI [of _ b] exI [of _ s1] exI [of _ s2] exI [of _ s3] conjI) (simp_all only: if_False conj_assoc)
qed

text \<open>
  The last inode is unusable.  Inode numbers run from 1 to \<^verbatim>\<open>ninode\<close>, and \<^verbatim>\<open>alloci\<close> hands out
  \<^verbatim>\<open>ninode\<close> when it is the only one left; but \<^verbatim>\<open>seeki\<close> refuses it and \<^verbatim>\<open>freei\<close> does not free it.
\<close>

theorem last_inode_lost:
  assumes "fs_ok s" "map_clear (f_imap s) = {unat (f_ninode s)}"
  shows "\<exists>s1. alloci s = Some (0, unat (f_ninode s), s1) \<and> seeki (ucast (f_ninode s)) s1 = (EINVAL, None) \<and>
    freei (unat (f_ninode s)) s1 = Some s1 \<and> map_clear (f_imap s1) = {}"
  using assms(1)
proof (cases rule: alloci_spec)
  case (got i s1)
  moreover have "unat (ucast (f_ninode s) :: u32) = unat (f_ninode s)" 
    using unsigned_less [of "f_ninode s", where ?'a = nat] by (simp add: unsigned_ucast_eq take_bit_nat_eq_self_iff)
  ultimately show ?thesis using assms(2) by (auto simp: seeki_def freei_def)
qed (use assms in simp)

subsection \<open>A small file system\<close>

definition small_map :: "u32 \<Rightarrow> int \<Rightarrow> bitmap" where
  "small_map w z = \<lparr>nbit0 = z, nbit = 8192, bits = w # replicate 255 (-1)\<rparr>"

lemma small_map_clear: "clear_bits (bits (small_map w z)) = {i. i < 32 \<and> \<not> bit w i}"
proof -
  have "positions False (replicate n (-1)) = {}" for n
    by (induction n) (auto simp: positions_Cons)
  then show ?thesis by (simp add: small_map_def clear_bits_positions positions_Cons)
qed

definition small_iw :: u32 where "small_iw = NOT 8"
definition small_zw :: u32 where "small_zw = NOT 6"

definition small_fs :: fsys where
  "small_fs = \<lparr>f_ninode = 3, f_nzone16 = 0, f_nimapblock = 1, f_nzmapblock = 1, f_datazone = 10, f_logzonesize = 0,
     f_maxfilesize = 0, f_magic = MINIX2MAGIC2, f_state = 1, f_nzone = 12, f_imap = [small_map small_iw 1], f_imapst = [BDIRTY],
     f_zmap = [small_map small_zw 2], f_zmapst = [BDIRTY], f_blk = (\<lambda>_. replicate 1024 0), f_bad = (\<lambda>_. False)\<rparr>"

lemma small_words: "{i. i < 32 \<and> \<not> bit small_iw i} = {3}" "{i. i < 32 \<and> \<not> bit small_zw i} = {1, 2}"
proof -
  have "(8 :: u32) = 2 ^ 3" "(6 :: u32) = 2 ^ 1 OR 2 ^ 2" by simp_all
  then show "{i. i < 32 \<and> \<not> bit small_iw i} = {3}" "{i. i < 32 \<and> \<not> bit small_zw i} = {1, 2}"
    unfolding small_iw_def small_zw_def
    by (auto simp only: bit_not_iff bit_or_iff bit_exp_iff possible_bit_def len_num1 len_bit0 mem_Collect_eq) auto
qed

lemma map_clear_single: "bm_ok b \<Longrightarrow> nbit b = 8192 \<Longrightarrow> map_clear [b] = clear_bits (bits b)"
proof (rule set_eqI)
  fix k assume b: "bm_ok b" "nbit b = 8192"
  show "k \<in> map_clear [b] \<longleftrightarrow> k \<in> clear_bits (bits b)"
    using clear_bits_less [OF b, of k] by (cases "k < 8192") (auto simp: map_clear_def)
qed

lemma small_maps: "bm_ok (small_map small_iw 1)" "bm_ok (small_map small_zw 2)"
  by (simp_all add: bm_ok_def small_map_clear small_words) (simp_all add: small_map_def)

lemma small_fs_ok: "fs_ok small_fs" "map_clear (f_imap small_fs) = {3}" "map_clear (f_zmap small_fs) = {1, 2}"
proof -
  have n: "nbit (small_map w z) = 8192" for w z by (simp add: small_map_def)
  show i: "map_clear (f_imap small_fs) = {3}" and z: "map_clear (f_zmap small_fs) = {1, 2}"
    using map_clear_single [OF small_maps(1) n] map_clear_single [OF small_maps(2) n]
    by (simp_all add: small_fs_def small_map_clear small_words)
  show "fs_ok small_fs"
    unfolding fs_ok_def i z using small_maps n by (simp add: small_fs_def maps_ok_def)
qed

theorem save_mount_witness:
  "\<exists>s1 s2. fs_write small_fs = (0, s1) \<and>
    fs_read (small_fs\<lparr>f_ninode := 0, f_nzone := 0, f_imap := [], f_zmap := [], f_blk := f_blk s1, f_bad := f_bad s1\<rparr>) = Some (0, s2) \<and>
    f_ninode s2 = 3 \<and> f_nzone s2 = 12 \<and> map_clear (f_imap s2) = {3} \<and> map_clear (f_zmap s2) = {1, 2}"
proof -
  note t = save_mount_roundtrip [OF small_fs_ok(1), of "small_fs\<lparr>f_ninode := 0, f_nzone := 0, f_imap := [], f_zmap := []\<rparr>"]
  obtain s1 s2 where "fs_write small_fs = (0, s1)"
    "fs_read (small_fs\<lparr>f_ninode := 0, f_nzone := 0, f_imap := [], f_zmap := [], f_blk := f_blk s1, f_bad := f_bad s1\<rparr>) = Some (0, s2)"
    "f_ninode s2 = f_ninode small_fs" "f_nzone s2 = f_nzone small_fs"
    "map_clear (f_imap s2) = map_clear (f_imap small_fs)" "map_clear (f_zmap s2) = map_clear (f_zmap small_fs)"
    using t by (simp add: small_fs_def synced_def) blast
  then show ?thesis unfolding small_fs_ok by (intro exI [of _ s1] exI [of _ s2]) (simp add: small_fs_def)
qed

theorem zones_exact_witness:
  "\<exists>s1 s2. allocb small_fs = Some (0, 10, s1) \<and> freeb 10 s1 = Some s2 \<and> free_zones s2 = {10, 11}"
proof -
  have f: "free_zones small_fs = {10, 11}"
    unfolding free_zones_def small_fs_ok by (auto simp: zone_of_def small_fs_def)
  obtain e b s1 s2 s3 where "allocb small_fs = Some (e, b, s1)" "e = 0" "b \<in> {10, 11}" "\<forall>b'\<in>{10, 11}. b \<le> b'"
    "freeb b s1 = Some s2" "free_zones s2 = {10, 11}"
    using zones_exact [OF small_fs_ok(1)] unfolding f by auto
  moreover from this have "b = 10" by auto
  ultimately show ?thesis by auto
qed

theorem last_inode_witness:
  "\<exists>s1. alloci small_fs = Some (0, 3, s1) \<and> seeki 3 s1 = (EINVAL, None) \<and> freei 3 s1 = Some s1"
  using last_inode_lost [OF small_fs_ok(1)] small_fs_ok(2) by (auto simp: small_fs_def)

end
