(* ===== verification/Fs_Reg.thy ===== *)
theory Fs_Reg
  imports Fs_Super
begin

text \<open>
  Files (\<^verbatim>\<open>fs/inode.h\<close>, \<^verbatim>\<open>fs/reg.cc\<close>, \<^verbatim>\<open>fs/trunc.cc\<close>, \<^verbatim>\<open>fs/inode.cc\<close>, \<^verbatim>\<open>fs/regfd.cc\<close>): the tree of zones behind an inode,
  reading, writing and truncating.  A state is the file system, the inode and the clock; offsets are natural
  numbers, so the model stands for the code as long as a position plus a length stays below \<open>2 ^ 32\<close>.

  \<^verbatim>\<open>minixzone_t *\<close> points to an entry of \<^verbatim>\<open>daddr\<close> or into the buffer of an index block (\<open>zptr\<close>).
  \<^verbatim>\<open>getb\<close> on a block that is not cached returns a buffer with whatever its memory held, the argument \<open>junk\<close>.
  The read and write locks are not contended in a single call, and read-ahead does not change contents.
\<close>

record inode =
  i_mode :: u16
  i_nlink :: u16
  i_uid :: u16
  i_gid :: u16
  i_size :: nat
  i_daddr :: "u32 list"
  i_state :: int
  i_atime :: int
  i_mtime :: int
  i_ctime :: int

record reg =
  r_fs :: fsys
  r_ino :: inode
  r_now :: int

definition SIFMT :: u16 where "SIFMT = 0xf000"
definition SISREG :: "u16 \<Rightarrow> bool" where "SISREG m \<longleftrightarrow> m AND SIFMT = 0x8000"
definition SISDIR :: "u16 \<Rightarrow> bool" where "SISDIR m \<longleftrightarrow> m AND SIFMT = 0x4000"
definition SISBLK :: "u16 \<Rightarrow> bool" where "SISBLK m \<longleftrightarrow> m AND SIFMT = 0x6000"
definition SISCHR :: "u16 \<Rightarrow> bool" where "SISCHR m \<longleftrightarrow> m AND SIFMT = 0x2000"
definition SISVTX :: u16 where "SISVTX = 0x200"
definition IDIRTY :: int where "IDIRTY = 2"

definition MINIXEND0 :: nat where "MINIXEND0 = 7"
definition MINIXEND1 :: nat where "MINIXEND1 = MINIXEND0 + 256"
definition MINIXEND2 :: nat where "MINIXEND2 = MINIXEND1 + 256 * 256"
definition MINIXEND3 :: nat where "MINIXEND3 = MINIXEND2 + 256 * 256 * 256"

definition has_blocks :: "reg \<Rightarrow> bool" where
  "has_blocks r \<longleftrightarrow> SISDIR (i_mode (r_ino r)) \<or> SISREG (i_mode (r_ino r)) \<or> SISBLK (i_mode (r_ino r))"

definition setdirty :: "reg \<Rightarrow> reg" where
  "setdirty r = r\<lparr>r_ino := (r_ino r)\<lparr>i_state := IDIRTY, i_ctime := r_now r\<rparr>\<rparr>"

subsection \<open>Permissions\<close>

definition granted_to :: "u16 \<Rightarrow> u16 \<Rightarrow> inode \<Rightarrow> u16" where
  "granted_to uid gid i = (if uid = i_uid i then drop_bit 6 (i_mode i)
     else if gid = i_gid i then drop_bit 3 (i_mode i) else i_mode i) AND 7"

definition deny :: "u16 \<Rightarrow> u16 \<Rightarrow> u16 \<Rightarrow> inode \<Rightarrow> int" where
  "deny euid egid request i = (if request AND granted_to euid egid i = request then 0 else EACCES)"

definition denyuid :: "u16 \<Rightarrow> u16 \<Rightarrow> u16 \<Rightarrow> inode \<Rightarrow> int" where
  "denyuid uid gid request i = (if request AND granted_to uid gid i = request then 0 else EACCES)"

definition denyunlink :: "u16 \<Rightarrow> u16 \<Rightarrow> inode \<Rightarrow> inode \<Rightarrow> int option" where
  "denyunlink euid egid dir i = do {
     kassert (SISDIR (i_mode dir));
     Some (if i_mode dir AND SISVTX \<noteq> 0 then deny euid egid 2 dir
           else if euid = 0 \<or> (euid = i_uid dir \<and> euid = i_uid i) then 0 else EACCES) }"

subsection \<open>Pointers to zones\<close>

datatype zptr = PInode nat | PBlock u32 nat

definition bno_of :: "u32 \<Rightarrow> int" where "bno_of z = int (unat z)"

definition zget :: "zptr \<Rightarrow> reg \<Rightarrow> u32" where
  "zget p r = (case p of PInode k \<Rightarrow> i_daddr (r_ino r) ! k | PBlock z k \<Rightarrow> get32 (f_blk (r_fs r) (bno_of z)) (4 * k))"

definition zset :: "zptr \<Rightarrow> u32 \<Rightarrow> reg \<Rightarrow> reg" where
  "zset p v r = (case p of
     PInode k \<Rightarrow> r\<lparr>r_ino := (r_ino r)\<lparr>i_daddr := (i_daddr (r_ino r))[k := v]\<rparr>\<rparr>
   | PBlock z k \<Rightarrow> r\<lparr>r_fs := f_writeb (bno_of z) (put32 (4 * k) v (f_blk (r_fs r) (bno_of z))) (r_fs r)\<rparr>)"

subsection \<open>Mapping blocks\<close>

text \<open>\<^verbatim>\<open>/* may sleep */\<close>: the second test of \<^verbatim>\<open>*ptr\<close> is for another task that was faster.\<close>

definition allocdatab :: "zptr \<Rightarrow> reg \<Rightarrow> (int \<times> reg) option" where
  "allocdatab p r =
     (if zget p r \<noteq> 0 then Some (0, r)
      else do {
        (e, bno, s) \<leftarrow> allocb (r_fs r);
        let r1 = r\<lparr>r_fs := s\<rparr>;
        if e \<noteq> 0 then Some (e, r1)
        else if zget p r1 = 0 then Some (0, zset p (word_of_int bno) r1)
        else do { s2 \<leftarrow> freeb bno s; Some (0, r1\<lparr>r_fs := s2\<rparr>) } })"

definition allocindexb :: "zptr \<Rightarrow> reg \<Rightarrow> (int \<times> reg) option" where
  "allocindexb p r =
     (if zget p r \<noteq> 0 then Some (0, r)
      else do {
        (e, bno, s) \<leftarrow> allocb (r_fs r);
        if e \<noteq> 0 then Some (e, r\<lparr>r_fs := s\<rparr>)
        else let r1 = r\<lparr>r_fs := f_writeb bno (replicate MINIXBSIZE 0) s\<rparr> in
          if zget p r1 = 0 then Some (0, zset p (word_of_int bno) r1)
          else do { s2 \<leftarrow> freeb bno (r_fs r1); Some (0, r1\<lparr>r_fs := s2\<rparr>) } })"

text \<open>Entry of an index block: eight bits of the offset per level.\<close>

definition digit :: "nat \<Rightarrow> nat \<Rightarrow> nat" where
  "digit n off = drop_bit (8 * n) off mod 256"

fun rtranslate_loop :: "nat \<Rightarrow> u32 \<Rightarrow> nat \<Rightarrow> fsys \<Rightarrow> int + u32" where
  "rtranslate_loop 0 index off s = Inr index"
| "rtranslate_loop (Suc n) index off s =
     (if index = 0 then Inr 0
      else case f_readb (bno_of index) s of
        Inl e \<Rightarrow> Inl e
      | Inr d \<Rightarrow> rtranslate_loop n (get32 d (4 * digit n off)) off s)"

definition rtranslate :: "nat \<Rightarrow> u32 \<Rightarrow> nat \<Rightarrow> fsys \<Rightarrow> (int + int) option" where
  "rtranslate nindirect index off s = do {
     kassert (nindirect > 0);
     Some (case rtranslate_loop nindirect index off s of
       Inl e \<Rightarrow> Inl e
     | Inr z \<Rightarrow> Inr (if z = 0 then BNOTALLOC else bno_of z)) }"

fun wtranslate_loop :: "nat \<Rightarrow> zptr \<Rightarrow> nat \<Rightarrow> reg \<Rightarrow> (int \<times> zptr \<times> reg) option" where
  "wtranslate_loop 0 p off r = Some (0, p, r)"
| "wtranslate_loop (Suc n) p off r = do {
     (e, r1) \<leftarrow> allocindexb p r;
     if e \<noteq> 0 then Some (e, p, r1)
     else case f_readb (bno_of (zget p r1)) (r_fs r1) of
       Inl e \<Rightarrow> Some (e, p, r1)
     | Inr d \<Rightarrow> wtranslate_loop n (PBlock (zget p r1) (digit n off)) off r1 }"

definition wtranslate :: "nat \<Rightarrow> zptr \<Rightarrow> nat \<Rightarrow> reg \<Rightarrow> (int \<times> u32 \<times> reg) option" where
  "wtranslate nindirect p off r = do {
     let r0 = (if zget p r = 0 then setdirty r else r);
     (e, p1, r1) \<leftarrow> wtranslate_loop nindirect p off r0;
     if e \<noteq> 0 then Some (e, 0, r1)
     else do { (e, r2) \<leftarrow> allocdatab p1 r1; Some (e, zget p1 r2, r2) } }"

definition readmap :: "nat \<Rightarrow> reg \<Rightarrow> (int + int) option" where
  "readmap logic r =
     (let d = i_daddr (r_ino r); s = r_fs r in
      if \<not> has_blocks r then Some (Inl EINVAL)
      else if SISBLK (i_mode (r_ino r)) then Some (Inr (int logic))
      else if logic < MINIXEND0 then Some (Inr (if d ! logic \<noteq> 0 then bno_of (d ! logic) else BNOTALLOC))
      else if logic < MINIXEND1 then rtranslate 1 (d ! 7) (logic - MINIXEND0) s
      else if logic < MINIXEND2 then rtranslate 2 (d ! 8) (logic - MINIXEND1) s
      else if logic < MINIXEND3 then rtranslate 3 (d ! 9) (logic - MINIXEND2) s
      else Some (Inl EINVAL))"

definition writemap :: "nat \<Rightarrow> reg \<Rightarrow> (int \<times> int \<times> reg) option" where
  "writemap logic r =
     (let wt = \<lambda>n p off. map_option (\<lambda>(e, z, r1). (e, bno_of z, r1)) (wtranslate n p off r) in
      if \<not> has_blocks r then Some (EINVAL, 0, r)
      else if SISBLK (i_mode (r_ino r)) then Some (0, int logic, r)
      else if logic < MINIXEND0 then wt 0 (PInode logic) logic
      else if logic < MINIXEND1 then wt 1 (PInode 7) (logic - MINIXEND0)
      else if logic < MINIXEND2 then wt 2 (PInode 8) (logic - MINIXEND1)
      else if logic < MINIXEND3 then wt 3 (PInode 9) (logic - MINIXEND2)
      else Some (EINVAL, 0, r))"

subsection \<open>Reading and writing\<close>

text \<open>
  The loop of \<^verbatim>\<open>inode_t::read\<close>: \<open>left\<close> bytes remain, \<open>acc\<close> are those already copied.
\<close>

function read_loop :: "nat \<Rightarrow> nat \<Rightarrow> u8 list \<Rightarrow> reg \<Rightarrow> (int + u8 list) option" where
  "read_loop pos left acc r =
     (if left = 0 then Some (Inr acc)
      else let off = pos mod MINIXBSIZE; chars = min (MINIXBSIZE - off) left in do {
        m \<leftarrow> readmap (pos div MINIXBSIZE) r;
        case m of Inl e \<Rightarrow> Some (Inl e)
        | Inr phys \<Rightarrow>
            if phys = BNOTALLOC then read_loop (pos + chars) (left - chars) (acc @ replicate chars 0) r
            else case f_readb phys (r_fs r) of
              Inl e \<Rightarrow> Some (Inl e)
            | Inr d \<Rightarrow> read_loop (pos + chars) (left - chars) (acc @ take chars (drop off d)) r })"
  by auto
termination
  by (relation "measure (\<lambda>(pos, left, acc, r). left)") (auto simp: MINIXBSIZE_def)

definition inode_read :: "nat \<Rightarrow> nat \<Rightarrow> reg \<Rightarrow> (int \<times> u8 list \<times> reg) option" where
  "inode_read pos len r =
     (if \<not> has_blocks r then Some (EINVAL, [], r)
      else if pos \<ge> i_size (r_ino r) then Some (0, [], r)
      else do {
        x \<leftarrow> read_loop pos (min (i_size (r_ino r) - pos) len) [] r;
        case x of Inl e \<Rightarrow> Some (e, [], r)
        | Inr bs \<Rightarrow> Some (int (length bs), bs, r\<lparr>r_ino := (r_ino r)\<lparr>i_atime := r_now r\<rparr>\<rparr>) })"

definition patch :: "nat \<Rightarrow> u8 list \<Rightarrow> u8 list \<Rightarrow> u8 list" where
  "patch off bs d = take off d @ bs @ drop (off + length bs) d"

function write_loop :: "(int \<Rightarrow> u8 list) \<Rightarrow> nat \<Rightarrow> u8 list \<Rightarrow> reg \<Rightarrow> (int \<times> reg) option" where
  "write_loop junk pos buf r =
     (if buf = [] then Some (0, r)
      else let off = pos mod MINIXBSIZE; chars = min (MINIXBSIZE - off) (length buf) in do {
        (e, phys, r1) \<leftarrow> writemap (pos div MINIXBSIZE) r;
        if e \<noteq> 0 then Some (e, r1)
        else case (if chars = MINIXBSIZE \<or> (off = 0 \<and> pos + chars \<ge> i_size (r_ino r1)) then Inr (junk phys)
                   else f_readb phys (r_fs r1)) of
          Inl e \<Rightarrow> Some (e, r1)
        | Inr d \<Rightarrow> do {
            let r2 = r1\<lparr>r_fs := f_writeb phys (patch off (take chars buf) d) (r_fs r1)\<rparr>;
            let r3 = (if pos + chars > i_size (r_ino r2)
                      then setdirty (r2\<lparr>r_ino := (r_ino r2)\<lparr>i_size := pos + chars\<rparr>\<rparr>) else r2);
            write_loop junk (pos + chars) (drop chars buf) r3 } })"
  by auto
termination
  by (relation "measure (\<lambda>(junk, pos, buf, r). length buf)") (auto simp: MINIXBSIZE_def)

declare read_loop.simps [simp del] write_loop.simps [simp del]

definition inode_write :: "(int \<Rightarrow> u8 list) \<Rightarrow> nat \<Rightarrow> u8 list \<Rightarrow> reg \<Rightarrow> (int \<times> reg) option" where
  "inode_write junk pos buf r =
     (if \<not> has_blocks r then Some (EINVAL, r)
      else do {
        (e, r1) \<leftarrow> write_loop junk pos buf r;
        if e \<noteq> 0 then Some (e, r1)
        else Some (int (length buf), r1\<lparr>r_ino := (r_ino r1)\<lparr>i_atime := r_now r1, i_mtime := r_now r1\<rparr>\<rparr>) })"

subsection \<open>The tree of zones\<close>

text \<open>
  A position is a slot of \<^verbatim>\<open>daddr\<close> and a list of entries to follow; slots 7, 8 and 9 have one, two and three
  levels of index blocks.  \<open>nd\<close> gives the zone at a position, 0 for none.
\<close>

type_synonym zpos = "nat \<times> nat list"

fun walk :: "(int \<Rightarrow> u8 list) \<Rightarrow> u32 \<Rightarrow> nat list \<Rightarrow> u32" where
  "walk B z [] = z"
| "walk B z (k # ks) = (if z = 0 then 0 else walk B (get32 (B (bno_of z)) (4 * k)) ks)"

definition depth :: "nat \<Rightarrow> nat" where
  "depth slot = slot - 6"

definition vpos :: "zpos \<Rightarrow> bool" where
  "vpos p \<longleftrightarrow> fst p < 10 \<and> length (snd p) \<le> depth (fst p) \<and> (\<forall>k\<in>set (snd p). k < 256)"

definition nd :: "reg \<Rightarrow> zpos \<Rightarrow> u32" where
  "nd r p = walk (f_blk (r_fs r)) (i_daddr (r_ino r) ! fst p) (snd p)"

lemma walk_0 [simp]: "walk B 0 ks = 0"
  by (cases ks) simp_all

lemma walk_snoc: "walk B z (ks @ [k]) = (if walk B z ks = 0 then 0 else get32 (B (bno_of (walk B z ks))) (4 * k))"
  by (induction ks arbitrary: z) simp_all

lemma nd_snoc: "nd r (i, ks @ [k]) = (if nd r (i, ks) = 0 then 0 else get32 (f_blk (r_fs r) (bno_of (nd r (i, ks)))) (4 * k))"
  by (simp add: nd_def walk_snoc)

lemma nd_Nil: "nd r (i, []) = i_daddr (r_ino r) ! i"
  by (simp add: nd_def)

lemma vpos_snocD: "vpos (i, ks @ [k]) \<Longrightarrow> vpos (i, ks) \<and> k < 256 \<and> length ks < depth i"
  by (auto simp: vpos_def)

lemma bno_of_inj [simp]: "bno_of a = bno_of b \<longleftrightarrow> a = b"
  by (simp add: bno_of_def unat_arith_simps)

text \<open>
  Well-formed: no zone has two positions, the zones in use are in the data area and not free, blocks
  have their size, and the device works.
\<close>

definition reg_ok :: "reg \<Rightarrow> bool" where
  "reg_ok r \<longleftrightarrow> fs_ok (r_fs r) \<and> length (i_daddr (r_ino r)) = 10 \<and>
     (\<forall>n. length (f_blk (r_fs r) n) = 1024) \<and> (\<forall>n. \<not> f_bad (r_fs r) n) \<and>
     (\<forall>p. vpos p \<longrightarrow> nd r p \<noteq> 0 \<longrightarrow> int (unat (f_datazone (r_fs r))) \<le> bno_of (nd r p) \<and>
        bno_of (nd r p) < int (unat (f_nzone (r_fs r))) \<and> bno_of (nd r p) \<notin> free_zones (r_fs r)) \<and>
     (\<forall>p q. vpos p \<longrightarrow> vpos q \<longrightarrow> nd r p \<noteq> 0 \<longrightarrow> nd r p = nd r q \<longrightarrow> p = q)"

lemma reg_okD:
  assumes "reg_ok r"
  shows "fs_ok (r_fs r)" "length (i_daddr (r_ino r)) = 10" "length (f_blk (r_fs r) n) = 1024" "\<not> f_bad (r_fs r) n"
    "vpos p \<Longrightarrow> nd r p \<noteq> 0 \<Longrightarrow> int (unat (f_datazone (r_fs r))) \<le> bno_of (nd r p) \<and>
        bno_of (nd r p) < int (unat (f_nzone (r_fs r))) \<and> bno_of (nd r p) \<notin> free_zones (r_fs r)"
    "vpos p \<Longrightarrow> vpos q \<Longrightarrow> nd r p \<noteq> 0 \<Longrightarrow> nd r p = nd r q \<Longrightarrow> p = q"
  using assms unfolding reg_ok_def by blast+

lemma f_readb_ok: "reg_ok r \<Longrightarrow> f_readb n (r_fs r) = Inr (f_blk (r_fs r) n)"
  by (simp add: f_readb_def reg_okD)

text \<open>Contents of blocks that are not index blocks of the tree do not matter to it.\<close>

lemma nd_cong:
  assumes "i_daddr (r_ino r') = i_daddr (r_ino r)"
    "\<And>i ks. vpos (i, ks) \<Longrightarrow> length ks < depth i \<Longrightarrow> nd r (i, ks) \<noteq> 0 \<Longrightarrow>
       f_blk (r_fs r') (bno_of (nd r (i, ks))) = f_blk (r_fs r) (bno_of (nd r (i, ks)))"
    "vpos p"
  shows "nd r' p = nd r p"
proof -
  obtain i ks where p: "p = (i, ks)" by (cases p)
  have "vpos (i, ks) \<Longrightarrow> nd r' (i, ks) = nd r (i, ks)"
  proof (induction ks rule: rev_induct)
    case (snoc k ks)
    then show ?case using assms(2) [of i ks] vpos_snocD [OF snoc.prems] by (simp add: nd_snoc)
  qed (simp add: nd_Nil assms(1))
  with p assms(3) show ?thesis by simp
qed

text \<open>\<open>ptr_at r p\<close>: the pointer the code uses for position \<open>p\<close>.\<close>

definition ptr_at :: "reg \<Rightarrow> zpos \<Rightarrow> zptr" where
  "ptr_at r p = (if snd p = [] then PInode (fst p) else PBlock (nd r (fst p, butlast (snd p))) (last (snd p)))"

lemma ptr_at_simps: "ptr_at r (i, []) = PInode i" "ptr_at r (i, ks @ [k]) = PBlock (nd r (i, ks)) k"
  by (simp_all add: ptr_at_def)

definition reachable :: "reg \<Rightarrow> zpos \<Rightarrow> bool" where
  "reachable r p \<longleftrightarrow> vpos p \<and> (snd p \<noteq> [] \<longrightarrow> nd r (fst p, butlast (snd p)) \<noteq> 0)"

lemma zget_ptr_at: "reachable r p \<Longrightarrow> zget (ptr_at r p) r = nd r p"
proof (cases p)
  case (Pair i ks)
  assume "reachable r p"
  with Pair show ?thesis
    by (cases ks rule: rev_cases) (auto simp: ptr_at_simps zget_def nd_Nil nd_snoc reachable_def)
qed

lemma get32_put32: "k + 3 < length d \<Longrightarrow> get32 (put32 k w d) k = w"
  by (simp add: get32_def put32_def word32_join)

lemma get32_put32_other: "j \<noteq> k \<Longrightarrow> get32 (put32 (4 * k) w d) (4 * j) = get32 d (4 * j)"
  by (simp add: get32_def put32_def)

lemma length_put32 [simp]: "length (put32 k w d) = length d"
  by (simp add: put32_def)

lemma get32_zeros [simp]: "k < 256 \<Longrightarrow> get32 (replicate 1024 0) (4 * k) = 0"
  by (simp add: get32_def word_of_bytes_def)

lemma zset_blk:
  "f_blk (r_fs (zset (PInode i) v r)) = f_blk (r_fs r)"
  "f_blk (r_fs (zset (PBlock z k) v r)) n = (if n = bno_of z then put32 (4 * k) v (f_blk (r_fs r) n) else f_blk (r_fs r) n)"
  "i_daddr (r_ino (zset (PInode i) v r)) = (i_daddr (r_ino r))[i := v]"
  "i_daddr (r_ino (zset (PBlock z k) v r)) = i_daddr (r_ino r)"
  by (simp_all add: zset_def f_writeb_def)

lemma zset_fs:
  "fs_ok (r_fs (zset p v r)) = fs_ok (r_fs r)" "f_bad (r_fs (zset p v r)) = f_bad (r_fs r)"
  "free_zones (r_fs (zset p v r)) = free_zones (r_fs r)" "f_datazone (r_fs (zset p v r)) = f_datazone (r_fs r)"
  "f_nzone (r_fs (zset p v r)) = f_nzone (r_fs r)" "i_mode (r_ino (zset p v r)) = i_mode (r_ino r)"
  "i_size (r_ino (zset p v r)) = i_size (r_ino r)"
  by (cases p; simp add: zset_def f_writeb_def fs_ok_def free_zones_def zone_of_def)+

lemma zset_imap: "f_imap (r_fs (zset p v r)) = f_imap (r_fs r)" "f_ninode (r_fs (zset p v r)) = f_ninode (r_fs r)"
  by (cases p; simp add: zset_def f_writeb_def)+

lemma zset_data_blk:
  assumes ok: "reg_ok r" and q: "reachable r q" and p: "vpos p" "length (snd p) = depth (fst p)" "nd r p \<noteq> 0"
  shows "f_blk (r_fs (zset (ptr_at r q) v r)) (bno_of (nd r p)) = f_blk (r_fs r) (bno_of (nd r p))"
proof -
  obtain i ks where qq: "q = (i, ks)" by (cases q)
  show ?thesis
  proof (cases ks rule: rev_cases)
    case Nil
    then show ?thesis using qq by (simp add: ptr_at_simps zset_blk)
  next
    case (snoc js j)
    then have v: "vpos (i, js)" "length js < depth i" "nd r (i, js) \<noteq> 0"
      using q qq vpos_snocD [of i js j] by (auto simp: reachable_def)
    have "nd r p \<noteq> nd r (i, js)"
    proof
      assume "nd r p = nd r (i, js)"
      from reg_okD(6) [OF ok p(1) v(1) p(3) this] p(2) v(2) show False by simp
    qed
    then show ?thesis using snoc qq by (simp add: ptr_at_simps zset_blk)
  qed
qed

text \<open>Storing at a position with nothing below it: the new zone is fresh and has no entries, or there is none.\<close>

lemma nd_set:
  assumes ok: "reg_ok r" and q: "reachable r q"
    and n0: "\<And>k. vpos (fst q, snd q @ [k]) \<Longrightarrow> nd r (fst q, snd q @ [k]) = 0"
    and fresh: "\<And>p. b \<noteq> 0 \<Longrightarrow> vpos p \<Longrightarrow> nd r p \<noteq> b"
    and z: "b = 0 \<or> length (snd q) = depth (fst q) \<or> f_blk (r_fs r) (bno_of b) = replicate 1024 0"
    and p: "vpos p"
  shows "nd (zset (ptr_at r q) b r) p = (if p = q then b else nd r p)"
proof -
  let ?r = "zset (ptr_at r q) b r"
  obtain i0 qs where qq: "q = (i0, qs)" by (cases q)
  obtain i ks where pp: "p = (i, ks)" by (cases p)
  have vq: "vpos q" using q by (simp add: reachable_def)
  have child: "get32 (f_blk (r_fs ?r) (bno_of b)) (4 * k) = 0" if vk: "vpos (i0, qs @ [k])" and b0: "b \<noteq> 0" for k
  proof -
    have k: "k < 256" "length qs < depth i0" using vpos_snocD [OF vk] by auto
    then have zero: "f_blk (r_fs r) (bno_of b) = replicate 1024 0" using z qq b0 by simp
    show ?thesis
    proof (cases qs rule: rev_cases)
      case Nil
      then show ?thesis using qq zero k by (simp add: ptr_at_simps zset_blk)
    next
      case (snoc js j)
      have "nd r (i0, js) \<noteq> b" using fresh [OF b0] vpos_snocD [of i0 js j] vq qq snoc by blast
      then show ?thesis using qq zero k snoc by (auto simp: ptr_at_simps zset_blk)
    qed
  qed
  have "vpos (i, ks) \<Longrightarrow> nd ?r (i, ks) = (if (i, ks) = q then b else nd r (i, ks))"
  proof (induction ks rule: rev_induct)
    case Nil
    then have "i < 10" by (simp add: vpos_def)
    then show ?case
      using qq reg_okD(2) [OF ok]
      by (cases qs rule: rev_cases) (auto simp: nd_Nil ptr_at_simps zset_blk nth_list_update)
  next
    case (snoc k ks)
    note v = vpos_snocD [OF snoc.prems]
    have IH: "nd ?r (i, ks) = (if (i, ks) = q then b else nd r (i, ks))" using snoc.IH v by simp
    show ?case
    proof (cases "(i, ks) = q")
      case True
      then have "nd r (i, ks @ [k]) = 0" using n0 [of k] snoc.prems by auto
      moreover have "nd ?r (i, ks @ [k]) = 0" using True IH child [of k] snoc.prems qq by (auto simp: nd_snoc)
      ultimately show ?thesis using True by auto
    next
      case False
      let ?y = "nd r (i, ks)"
      have e: "nd ?r (i, ks @ [k]) = (if ?y = 0 then 0 else get32 (f_blk (r_fs ?r) (bno_of ?y)) (4 * k))"
        using IH False by (simp add: nd_snoc)
      show ?thesis
      proof (cases qs rule: rev_cases)
        case Nil
        then have "f_blk (r_fs ?r) = f_blk (r_fs r)" using qq by (simp add: ptr_at_simps zset_blk)
        then show ?thesis using e Nil qq by (simp add: nd_snoc)
      next
        case qs: (snoc js j)
        let ?z = "nd r (i0, js)"
        have z0: "?z \<noteq> 0" using q qq qs by (simp add: reachable_def)
        have vz: "vpos (i0, js)" "j < 256" using vpos_snocD [of i0 js j] vq qq qs by auto
        have blk: "f_blk (r_fs ?r) n = (if n = bno_of ?z then put32 (4 * j) b (f_blk (r_fs r) n) else f_blk (r_fs r) n)" for n
          using qq qs by (simp add: ptr_at_simps zset_blk)
        show ?thesis
        proof (cases "?y = ?z")
          case True
          then have "(i0, js) = (i, ks)" using v by (intro reg_okD(6) [OF ok vz(1) _ z0]) simp_all
          then have "i = i0" "ks = js" by simp_all
          then show ?thesis
            using e True z0 blk qq qs vz(2) reg_okD(3) [OF ok]
            by (cases "k = j") (auto simp: nd_snoc get32_put32 get32_put32_other)
        next
          case ne: False
          then have "(i, ks @ [k]) \<noteq> q" using qq qs by auto
          with e ne blk show ?thesis by (simp add: nd_snoc)
        qed
      qed
    qed
  qed
  with p pp show ?thesis by simp
qed

lemma nd_link:
  assumes "reg_ok r" "reachable r q" "nd r q = 0" "b \<noteq> 0" "\<And>p. vpos p \<Longrightarrow> nd r p \<noteq> b"
    "length (snd q) = depth (fst q) \<or> f_blk (r_fs r) (bno_of b) = replicate 1024 0" "vpos p"
  shows "nd (zset (ptr_at r q) b r) p = (if p = q then b else nd r p)"
  using assms by (intro nd_set) (simp_all add: nd_snoc)

subsection \<open>What a file may touch\<close>

text \<open>
  The zones of a file and the free zones are all that an operation on the file may change or claim.
\<close>

definition zones_at :: "zpos set \<Rightarrow> reg \<Rightarrow> int set" where
  "zones_at S r = (\<lambda>p. bno_of (nd r p)) ` {p \<in> S. vpos p \<and> nd r p \<noteq> 0}"

definition file_zones :: "reg \<Rightarrow> int set" where
  "file_zones r = zones_at UNIV r"

definition frame :: "reg \<Rightarrow> reg \<Rightarrow> bool" where
  "frame r r' \<longleftrightarrow> f_datazone (r_fs r') = f_datazone (r_fs r) \<and> f_nzone (r_fs r') = f_nzone (r_fs r) \<and> f_bad (r_fs r') = f_bad (r_fs r) \<and>
     f_imap (r_fs r') = f_imap (r_fs r) \<and> f_ninode (r_fs r') = f_ninode (r_fs r) \<and>
     free_zones (r_fs r') \<union> file_zones r' \<subseteq> free_zones (r_fs r) \<union> file_zones r \<and>
     (\<forall>n. n \<notin> free_zones (r_fs r) \<union> file_zones r \<longrightarrow> f_blk (r_fs r') n = f_blk (r_fs r) n)"

lemma allocb_imap: "allocb s = Some (e, b, s') \<Longrightarrow> f_imap s' = f_imap s \<and> f_ninode s' = f_ninode s"
  by (auto simp: allocb_def bind_eq_Some_conv split: option.splits)

lemma file_zones_iff: "n \<in> file_zones r \<longleftrightarrow> (\<exists>p. vpos p \<and> nd r p \<noteq> 0 \<and> n = bno_of (nd r p))"
  by (auto simp: file_zones_def zones_at_def)

lemma file_zones_cong:
  assumes "\<And>p. vpos p \<Longrightarrow> nd r' p = nd r p"
  shows "file_zones r' = file_zones r"
  unfolding file_zones_def zones_at_def by (rule image_cong) (auto simp: assms)

lemma frame_refl: "frame r r"
  by (simp add: frame_def)

lemma frame_trans: "frame r1 r2 \<Longrightarrow> frame r2 r3 \<Longrightarrow> frame r1 r3"
  unfolding frame_def by (metis subset_iff)

lemma frame_same: "r_fs r' = r_fs r \<Longrightarrow> i_daddr (r_ino r') = i_daddr (r_ino r) \<Longrightarrow> frame r r'"
  by (simp add: frame_def file_zones_def zones_at_def nd_def)

text \<open>Storing a data block of the file.\<close>

lemma frame_write:
  assumes "\<And>p. vpos p \<Longrightarrow> nd (r\<lparr>r_fs := f_writeb b d (r_fs r)\<rparr>) p = nd r p" "b \<in> file_zones r"
  shows "frame r (r\<lparr>r_fs := f_writeb b d (r_fs r)\<rparr>)"
proof -
  have "file_zones (r\<lparr>r_fs := f_writeb b d (r_fs r)\<rparr>) = file_zones r"
    by (rule file_zones_cong) (rule assms(1))
  then show ?thesis using assms(2) by (auto simp: frame_def f_writeb_def free_zones_def zone_of_def)
qed

subsection \<open>Growing the tree\<close>

text \<open>\<open>grows q r r'\<close>: zones were added on the way to the data position \<open>q\<close>, and nothing else changed for readers.\<close>

definition full :: "zpos \<Rightarrow> bool" where
  "full p \<longleftrightarrow> vpos p \<and> length (snd p) = depth (fst p)"

definition grows :: "zpos \<Rightarrow> reg \<Rightarrow> reg \<Rightarrow> bool" where
  "grows q r r' \<longleftrightarrow> reg_ok r' \<and> frame r r' \<and> i_mode (r_ino r') = i_mode (r_ino r) \<and> i_size (r_ino r') = i_size (r_ino r) \<and>
     (\<forall>p. vpos p \<longrightarrow> nd r p \<noteq> 0 \<longrightarrow> nd r' p = nd r p) \<and>
     (\<forall>p. full p \<longrightarrow> p \<noteq> q \<longrightarrow> nd r' p = nd r p) \<and>
     (\<forall>p. full p \<longrightarrow> nd r p \<noteq> 0 \<longrightarrow> f_blk (r_fs r') (bno_of (nd r p)) = f_blk (r_fs r) (bno_of (nd r p)))"

lemma grows_refl: "reg_ok r \<Longrightarrow> grows q r r"
  by (simp add: grows_def frame_refl)

lemma growsD:
  assumes "grows q r r'"
  shows "reg_ok r'" "i_mode (r_ino r') = i_mode (r_ino r)" "i_size (r_ino r') = i_size (r_ino r)"
    "vpos p \<Longrightarrow> nd r p \<noteq> 0 \<Longrightarrow> nd r' p = nd r p" "full p \<Longrightarrow> p \<noteq> q \<Longrightarrow> nd r' p = nd r p"
    "full p \<Longrightarrow> nd r p \<noteq> 0 \<Longrightarrow> f_blk (r_fs r') (bno_of (nd r p)) = f_blk (r_fs r) (bno_of (nd r p))"
    "frame r r'"
  using assms unfolding grows_def by blast+

lemma grows_trans:
  assumes a: "grows q r1 r2" and b: "grows q r2 r3"
  shows "grows q r1 r3"
  unfolding grows_def
proof (intro conjI allI impI)
  show "nd r3 p = nd r1 p" if "vpos p" "nd r1 p \<noteq> 0" for p
    using growsD(4) [OF a that] growsD(4) [OF b that(1)] that(2) by simp
  show "nd r3 p = nd r1 p" if "full p" "p \<noteq> q" for p
    using growsD(5) [OF a that] growsD(5) [OF b that] by simp
  show "f_blk (r_fs r3) (bno_of (nd r1 p)) = f_blk (r_fs r1) (bno_of (nd r1 p))" if p: "full p" "nd r1 p \<noteq> 0" for p
  proof -
    have "vpos p" using p(1) by (simp add: full_def)
    from growsD(4) [OF a this p(2)] show ?thesis using growsD(6) [OF a p] growsD(6) [OF b p(1)] p(2) by simp
  qed
qed (use growsD(1-3) [OF a] growsD(1-3) [OF b] frame_trans [OF growsD(7) [OF a] growsD(7) [OF b]] in simp_all)

lemma free_zone_word:
  assumes "fs_ok s" "b \<in> free_zones s"
  shows "bno_of (word_of_int b) = b" "(word_of_int b :: u32) \<noteq> 0"
proof -
  have rg: "0 < b" "b < 2 ^ 32"
    using free_zones_range [OF assms] assms(1) unsigned_less [of "f_nzone s", where ?'a = int]
    by (auto simp: fs_ok_def uint_nat)
  then show bw: "bno_of (word_of_int b) = b" by (simp add: bno_of_def unsigned_of_int take_bit_int_eq_self)
  with rg show "(word_of_int b :: u32) \<noteq> 0" by (auto simp: bno_of_def)
qed

text \<open>A fresh zone, with any contents, becomes part of the tree.\<close>

lemma fresh_zone:
  assumes ok: "reg_ok r" and a: "b \<in> free_zones (r_fs r)" "free_zones s' = free_zones (r_fs r) - {b}" "fs_ok s'"
    "f_blk s' = f_blk (r_fs r)" "f_bad s' = f_bad (r_fs r)" "f_datazone s' = f_datazone (r_fs r)" "f_nzone s' = f_nzone (r_fs r)"
    "f_imap s' = f_imap (r_fs r) \<and> f_ninode s' = f_ninode (r_fs r)"
    and q: "reachable r q" "nd r q = 0" and len: "length d = 1024"
    and z: "length (snd q) = depth (fst q) \<or> d = replicate 1024 0"
    and tgt: "\<And>p. full p \<Longrightarrow> p = q \<Longrightarrow> p = tq"
  shows "zget (ptr_at r q) (r\<lparr>r_fs := f_writeb b d s'\<rparr>) = 0"
    "grows tq r (zset (ptr_at r q) (word_of_int b) (r\<lparr>r_fs := f_writeb b d s'\<rparr>))"
    "nd (zset (ptr_at r q) (word_of_int b) (r\<lparr>r_fs := f_writeb b d s'\<rparr>)) q = word_of_int b"
    "(word_of_int b :: u32) \<noteq> 0"
proof -
  define r1 where "r1 = r\<lparr>r_fs := f_writeb b d s'\<rparr>"
  define w where "w = (word_of_int b :: u32)"
  have bw: "bno_of w = b" using free_zone_word(1) [OF reg_okD(1) [OF ok] a(1)] by (simp add: w_def)
  show w0: "(word_of_int b :: u32) \<noteq> 0" by (rule free_zone_word(2) [OF reg_okD(1) [OF ok] a(1)])
  have nb: "bno_of (nd r p) \<noteq> b" if "vpos p" "nd r p \<noteq> 0" for p using reg_okD(5) [OF ok that] a(1) by auto
  have blk1: "f_blk (r_fs r1) n = (if n = b then d else f_blk (r_fs r) n)" for n by (simp add: r1_def f_writeb_def a)
  have ino1: "r_ino r1 = r_ino r" by (simp add: r1_def)
  have nd1: "nd r1 p = nd r p" if "vpos p" for p
    by (rule nd_cong [OF _ _ that]) (use nb in \<open>auto simp: ino1 blk1\<close>)
  have fs1: "fs_ok (r_fs r1)" "free_zones (r_fs r1) = free_zones (r_fs r) - {b}" "f_bad (r_fs r1) = f_bad (r_fs r)"
    "f_datazone (r_fs r1) = f_datazone (r_fs r)" "f_nzone (r_fs r1) = f_nzone (r_fs r)"
    using a by (simp_all add: r1_def f_writeb_def fs_ok_def free_zones_def zone_of_def)
  have ok1: "reg_ok r1"
    unfolding reg_ok_def
  proof (intro conjI allI impI)
    show "bno_of (nd r1 p) \<notin> free_zones (r_fs r1)" if "vpos p" "nd r1 p \<noteq> 0" for p
      using that reg_okD(5) [OF ok that(1)] by (simp add: nd1 fs1)
    show "p = p'" if "vpos p" "vpos p'" "nd r1 p \<noteq> 0" "nd r1 p = nd r1 p'" for p p'
      using that by (intro reg_okD(6) [OF ok that(1,2)]) (simp_all add: nd1)
  qed (use reg_okD(1-5) [OF ok] len in \<open>simp_all add: fs1 ino1 blk1 nd1\<close>)
  have vq: "vpos q" using q(1) by (simp add: reachable_def)
  have parent: "nd r1 (fst q, butlast (snd q)) = nd r (fst q, butlast (snd q))"
    using vq by (intro nd1) (auto simp: vpos_def dest: in_set_butlastD)
  have ptr: "ptr_at r1 q = ptr_at r q" and rq: "reachable r1 q"
    using q(1) parent by (simp_all add: ptr_at_def reachable_def)
  show zg: "zget (ptr_at r q) (r\<lparr>r_fs := f_writeb b d s'\<rparr>) = 0"
    using zget_ptr_at [OF rq] nd1 [OF vq] q(2) ptr by (simp add: r1_def)
  have fresh: "nd r1 p \<noteq> w" if "vpos p" for p
  proof
    assume "nd r1 p = w"
    then have "nd r p = w" using nd1 [OF that] by simp
    then show False using nb [OF that] bw w0 by (simp add: w_def)
  qed
  have zz: "length (snd q) = depth (fst q) \<or> f_blk (r_fs r1) (bno_of w) = replicate 1024 0" using z by (auto simp: blk1 bw)
  define r2 where "r2 = zset (ptr_at r1 q) w r1"
  have w0': "w \<noteq> 0" using w0 by (simp add: w_def)
  have nd2: "nd r2 p = (if p = q then w else nd r p)" if "vpos p" for p
    using nd_link [OF ok1 rq _ w0' fresh zz that] nd1 [OF that] nd1 [OF vq] q(2) by (simp add: r2_def)
  have bw1: "b \<notin> free_zones (r_fs r1)" "int (unat (f_datazone (r_fs r))) \<le> b" "b < int (unat (f_nzone (r_fs r)))"
    using fs1(2) free_zones_range [OF reg_okD(1) [OF ok] a(1)] by auto
  have fs2: "f_datazone (r_fs r2) = f_datazone (r_fs r)" "f_nzone (r_fs r2) = f_nzone (r_fs r)"
    "free_zones (r_fs r2) = free_zones (r_fs r) - {b}"
    by (simp_all add: r2_def zset_fs fs1)
  have ok2: "reg_ok r2"
    unfolding reg_ok_def
  proof (intro conjI allI impI)
    show "fs_ok (r_fs r2)" using ok1 by (simp add: r2_def zset_fs reg_okD)
    show "length (i_daddr (r_ino r2)) = 10" using reg_okD(2) [OF ok1] by (cases "ptr_at r1 q") (simp_all add: r2_def zset_blk)
    show "length (f_blk (r_fs r2) n) = 1024" for n using reg_okD(3) [OF ok1] by (cases "ptr_at r1 q") (simp_all add: r2_def zset_blk)
    show "\<not> f_bad (r_fs r2) n" for n using reg_okD(4) [OF ok1] by (simp add: r2_def zset_fs)
    fix p assume p: "vpos p" "nd r2 p \<noteq> 0"
    show "int (unat (f_datazone (r_fs r2))) \<le> bno_of (nd r2 p)" "bno_of (nd r2 p) < int (unat (f_nzone (r_fs r2)))"
      "bno_of (nd r2 p) \<notin> free_zones (r_fs r2)"
      using p reg_okD(5) [OF ok p(1)] bw bw1 by (auto simp: nd2 fs2 split: if_splits)
    fix p' assume p': "vpos p'" "nd r2 p = nd r2 p'"
    have nw: "nd r x \<noteq> w" if "vpos x" for x using fresh [OF that] nd1 [OF that] by simp
    show "p = p'"
    proof (cases "p = q \<or> p' = q")
      case True
      then show ?thesis using p p' nw [OF p(1)] nw [OF p'(1)] by (auto simp: nd2 split: if_splits)
    next
      case False
      then have "nd r p \<noteq> 0" "nd r p = nd r p'" using p p' by (simp_all add: nd2)
      then show ?thesis by (rule reg_okD(6) [OF ok p(1) p'(1)])
    qed
  qed
  have r2e: "r2 = zset (ptr_at r q) (word_of_int b) (r\<lparr>r_fs := f_writeb b d s'\<rparr>)" 
    unfolding r2_def ptr unfolding w_def r1_def ..
  show "nd (zset (ptr_at r q) (word_of_int b) (r\<lparr>r_fs := f_writeb b d s'\<rparr>)) q = word_of_int b"
    using nd2 [OF vq] by (simp add: w_def flip: r2e)
  have fr: "frame r r2"
  proof -
    have "file_zones r2 = insert b (file_zones r)"
    proof (rule set_eqI)
      fix n
      have "(\<exists>p. vpos p \<and> nd r2 p \<noteq> 0 \<and> n = bno_of (nd r2 p)) \<longleftrightarrow> n = b \<or> (\<exists>p. vpos p \<and> nd r p \<noteq> 0 \<and> n = bno_of (nd r p))"
      proof
        assume "\<exists>p. vpos p \<and> nd r2 p \<noteq> 0 \<and> n = bno_of (nd r2 p)"
        then show "n = b \<or> (\<exists>p. vpos p \<and> nd r p \<noteq> 0 \<and> n = bno_of (nd r p))" using nd2 bw by (metis (full_types))
      next
        assume "n = b \<or> (\<exists>p. vpos p \<and> nd r p \<noteq> 0 \<and> n = bno_of (nd r p))"
        then show "\<exists>p. vpos p \<and> nd r2 p \<noteq> 0 \<and> n = bno_of (nd r2 p)" using nd2 bw vq w0' q(2) by (metis (full_types))
      qed
      then show "n \<in> file_zones r2 \<longleftrightarrow> n \<in> insert b (file_zones r)" by (simp add: file_zones_iff)
    qed
    moreover have "f_blk (r_fs r2) n = f_blk (r_fs r) n" if n: "n \<notin> free_zones (r_fs r) \<union> file_zones r" for n
    proof (cases "ptr_at r1 q")
      case (PInode i)
      then show ?thesis using n a(1) by (auto simp: r2_def zset_blk blk1)
    next
      case (PBlock z k)
      then have "z = nd r1 (fst q, butlast (snd q))" "snd q \<noteq> []" by (auto simp: ptr_at_def split: if_splits)
      moreover have "vpos (fst q, butlast (snd q))" using vq by (auto simp: vpos_def dest: in_set_butlastD)
      ultimately have "bno_of z \<in> file_zones r" using q(1) parent unfolding file_zones_iff reachable_def by auto
      then show ?thesis using PBlock n a(1) by (auto simp: r2_def zset_blk blk1)
    qed
    moreover have "f_imap (r_fs r2) = f_imap (r_fs r)" "f_ninode (r_fs r2) = f_ninode (r_fs r)"
      using a(8) by (simp_all add: r2_def zset_imap, simp_all add: r1_def f_writeb_def)
    ultimately show ?thesis using a(1) by (auto simp: frame_def fs1 r2_def zset_fs)
  qed
  have "grows tq r r2"
    unfolding grows_def
  proof (intro conjI allI impI)
    show "reg_ok r2" by (rule ok2)
    show "frame r r2" by (rule fr)
    show "i_mode (r_ino r2) = i_mode (r_ino r)" "i_size (r_ino r2) = i_size (r_ino r)" by (simp_all add: r2_def zset_fs ino1)
    show "nd r2 p = nd r p" if "vpos p" "nd r p \<noteq> 0" for p using nd2 [OF that(1)] that q(2) by auto
    show "nd r2 p = nd r p" if "full p" "p \<noteq> tq" for p using nd2 [of p] that tgt [of p] by (auto simp: full_def)
    show "f_blk (r_fs r2) (bno_of (nd r p)) = f_blk (r_fs r) (bno_of (nd r p))" if "full p" "nd r p \<noteq> 0" for p
    proof -
      have v: "vpos p" "length (snd p) = depth (fst p)" using that(1) by (auto simp: full_def)
      have "nd r1 p \<noteq> 0" using nd1 [OF v(1)] that(2) by simp
      from zset_data_blk [OF ok1 rq v this, of w] show ?thesis
        using nd1 [OF v(1)] nb [OF v(1) that(2)] by (simp add: r2_def blk1)
    qed
  qed
  then show "grows tq r (zset (ptr_at r q) (word_of_int b) (r\<lparr>r_fs := f_writeb b d s'\<rparr>))" by (simp only: r2e)
qed

lemma grows_weaken: "grows q r r' \<Longrightarrow> \<not> full q \<Longrightarrow> grows t r r'"
  unfolding grows_def by metis

definition alloc_result :: "zpos \<Rightarrow> reg \<Rightarrow> int \<Rightarrow> reg \<Rightarrow> bool" where
  "alloc_result q r e r' \<longleftrightarrow> grows q r r' \<and> (e = 0 \<and> nd r' q \<noteq> 0 \<or> e = ENOSPC \<and> r' = r \<and> free_zones (r_fs r) = {})"

lemma ENOSPC_0 [simp]: "ENOSPC \<noteq> 0"
  by (simp add: errno_simps)

lemma allocindexb_ok:
  assumes ok: "reg_ok r" and q: "reachable r q" "length (snd q) < depth (fst q)"
  shows "\<exists>e r'. allocindexb (ptr_at r q) r = Some (e, r') \<and> alloc_result q r e r'"
proof (cases "nd r q = 0")
  case False
  then show ?thesis using ok q by (simp add: allocindexb_def zget_ptr_at alloc_result_def grows_refl)
next
  case True
  have zg: "zget (ptr_at r q) r = 0" using True zget_ptr_at [OF q(1)] by simp
  show ?thesis
    using reg_okD(1) [OF ok]
  proof (cases rule: allocb_spec)
    case full
    with zg ok show ?thesis by (simp add: allocindexb_def alloc_result_def grows_refl)
  next
    case (got b s')
    note f = fresh_zone [OF ok got(2) got(4-9) allocb_imap [OF got(1)] q(1) True, of "replicate 1024 0" q]
    have "allocindexb (ptr_at r q) r =
        Some (0, zset (ptr_at r q) (word_of_int b) (r\<lparr>r_fs := f_writeb b (replicate 1024 0) s'\<rparr>))"
      using zg got(1) f(1) q(2) by (simp add: allocindexb_def Let_def MINIXBSIZE_def full_def)
    with f(2-4) q(2) show ?thesis by (auto simp: alloc_result_def full_def)
  qed
qed

lemma allocdatab_ok:
  assumes ok: "reg_ok r" and q: "reachable r q" "full q"
  shows "\<exists>e r'. allocdatab (ptr_at r q) r = Some (e, r') \<and> alloc_result q r e r'"
proof (cases "nd r q = 0")
  case False
  then show ?thesis using ok q by (simp add: allocdatab_def zget_ptr_at alloc_result_def grows_refl)
next
  case True
  have zg: "zget (ptr_at r q) r = 0" using True zget_ptr_at [OF q(1)] by simp
  show ?thesis
    using reg_okD(1) [OF ok]
  proof (cases rule: allocb_spec)
    case full
    with zg ok show ?thesis by (simp add: allocdatab_def alloc_result_def grows_refl)
  next
    case (got b s')
    have len: "length (f_blk s' b) = 1024" using reg_okD(3) [OF ok] got(6) by simp
    have w: "f_writeb b (f_blk s' b) s' = s'" by (simp add: f_writeb_def)
    note f = fresh_zone [OF ok got(2) got(4-9) allocb_imap [OF got(1)] q(1) True len, of q, unfolded w]
    have d: "length (snd q) = depth (fst q)" using q(2) by (simp add: full_def)
    have "allocdatab (ptr_at r q) r = Some (0, zset (ptr_at r q) (word_of_int b) (r\<lparr>r_fs := s'\<rparr>))"
      using zg got(1) f(1) d by (simp add: allocdatab_def Let_def)
    with f(2-4) d show ?thesis by (auto simp: alloc_result_def)
  qed
qed

text \<open>The digits of an offset are the entries on the way to its block.\<close>

fun digits :: "nat \<Rightarrow> nat \<Rightarrow> nat list" where
  "digits 0 off = []"
| "digits (Suc n) off = digit n off # digits n off"

lemma digit_less [simp]: "digit n off < 256"
  by (simp add: digit_def)

lemma digits_bound: "k \<in> set (digits n off) \<Longrightarrow> k < 256"
  by (induction n) (auto simp: digit_def)

lemma length_digits [simp]: "length (digits n off) = n"
  by (induction n) simp_all

lemma wtranslate_loop_ok:
  assumes "reg_ok r" "reachable r (i, ks)" "length ks + n = depth i"
  shows "\<exists>e p r'. wtranslate_loop n (ptr_at r (i, ks)) off r = Some (e, p, r') \<and> grows (i, ks @ digits n off) r r' \<and>
    (e = 0 \<and> p = ptr_at r' (i, ks @ digits n off) \<and> reachable r' (i, ks @ digits n off) \<or>
     e = ENOSPC \<and> free_zones (r_fs r') = {} \<and> (\<forall>p. full p \<longrightarrow> nd r' p = nd r p))"
  using assms
proof (induction n arbitrary: ks r)
  case 0
  then show ?case by (simp add: grows_refl)
next
  case (Suc n)
  let ?q = "(i, ks)" and ?t = "(i, ks @ digits (Suc n) off)"
  have nf: "\<not> full ?q" using Suc.prems(3) by (simp add: full_def)
  obtain e r1 where r1: "allocindexb (ptr_at r ?q) r = Some (e, r1)" "alloc_result ?q r e r1"
    using allocindexb_ok [OF Suc.prems(1,2)] Suc.prems(3) by auto
  have gq: "grows ?q r r1" and g: "grows ?t r r1"
    using r1(2) grows_weaken [OF _ nf, of r r1 ?t] by (auto simp: alloc_result_def)
  have same: "nd r1 p = nd r p" if "full p" for p using growsD(5) [OF gq that] that nf by blast
  show ?case
  proof (cases "e = 0")
    case False
    then have "e = ENOSPC" "r1 = r" "free_zones (r_fs r) = {}" using r1(2) by (auto simp: alloc_result_def)
    then show ?thesis using r1(1) g by simp
  next
    case True
    then have n1: "nd r1 ?q \<noteq> 0" using r1(2) by (auto simp: alloc_result_def)
    note ok1 = growsD(1) [OF g]
    have vq: "vpos ?q" using Suc.prems(2) by (simp add: reachable_def)
    have parent: "nd r1 (i, butlast ks) = nd r (i, butlast ks)" if "ks \<noteq> []"
      using Suc.prems(2) vq that by (intro growsD(4) [OF g]) (auto simp: vpos_def reachable_def dest: in_set_butlastD)
    then have ptr: "ptr_at r ?q = ptr_at r1 ?q" by (auto simp: ptr_at_def)
    have "reachable r1 ?q" using Suc.prems(2) parent by (auto simp: reachable_def)
    then have zg: "zget (ptr_at r ?q) r1 = nd r1 ?q" using zget_ptr_at ptr by simp
    have vc: "vpos (i, ks @ [digit n off])" using vq Suc.prems(3) by (auto simp: vpos_def digit_def)
    then have rc: "reachable r1 (i, ks @ [digit n off])" using n1 by (simp add: reachable_def)
    obtain e2 p r2 where r2: "wtranslate_loop n (ptr_at r1 (i, ks @ [digit n off])) off r1 = Some (e2, p, r2)"
      "grows ?t r1 r2"
      "e2 = 0 \<and> p = ptr_at r2 ?t \<and> reachable r2 ?t \<or>
       e2 = ENOSPC \<and> free_zones (r_fs r2) = {} \<and> (\<forall>p. full p \<longrightarrow> nd r2 p = nd r1 p)"
      using Suc.IH [OF ok1 rc] Suc.prems(3) by auto
    have "wtranslate_loop (Suc n) (ptr_at r ?q) off r = Some (e2, p, r2)"
      using r1(1) True zg r2(1) f_readb_ok [OF ok1] by (simp add: ptr_at_simps)
    moreover have "grows ?t r r2" by (rule grows_trans [OF g r2(2)])
    ultimately show ?thesis using r2(3) same by (intro exI [of _ e2] exI [of _ p] exI [of _ r2]) auto
  qed
qed

text \<open>The position of a block of the file.\<close>

definition lpos :: "nat \<Rightarrow> zpos" where
  "lpos l = (if l < MINIXEND0 then (l, [])
     else if l < MINIXEND1 then (7, digits 1 (l - MINIXEND0))
     else if l < MINIXEND2 then (8, digits 2 (l - MINIXEND1))
     else (9, digits 3 (l - MINIXEND2)))"

lemmas minixends = MINIXEND0_def MINIXEND1_def MINIXEND2_def MINIXEND3_def

lemma full_lpos: "full (lpos l)"
  by (auto simp: lpos_def full_def vpos_def depth_def minixends dest: digits_bound)

lemma digits_inj: "digits n a = digits n b \<Longrightarrow> a < 256 ^ n \<Longrightarrow> b < 256 ^ n \<Longrightarrow> a = b"
proof -
  have e: "digits n a = digits n b \<Longrightarrow> a mod 256 ^ n = b mod 256 ^ n"
  proof (induction n)
    case (Suc n)
    have *: "x mod 256 ^ Suc n = 256 ^ n * digit n x + x mod 256 ^ n" for x :: nat
    proof -
      have "(2 :: nat) ^ (8 * n) = 256 ^ n" by (simp add: power_mult)
      then have "digit n x = x div 256 ^ n mod 256" by (simp add: digit_def drop_bit_eq_div)
      then show ?thesis using mod_mult2_eq' [of x "256 ^ n" 256] by (simp add: mult.commute)
    qed
    show ?case using Suc unfolding * by simp
  qed simp
  then show "digits n a = digits n b \<Longrightarrow> a < 256 ^ n \<Longrightarrow> b < 256 ^ n \<Longrightarrow> a = b" by simp
qed

lemma digits_inj_above:
  "digits n (a - m) = digits n (b - m) \<Longrightarrow> m \<le> a \<Longrightarrow> m \<le> b \<Longrightarrow> a < m + 256 ^ n \<Longrightarrow> b < m + 256 ^ n \<Longrightarrow> a = b"
  using digits_inj [of n "a - m" "b - m"] by (simp add: less_diff_conv2 add.commute eq_diff_iff)

lemma lpos_inj: "lpos a = lpos b \<Longrightarrow> a < MINIXEND3 \<Longrightarrow> b < MINIXEND3 \<Longrightarrow> a = b"
  using digits_inj_above [of 1 a MINIXEND0 b] digits_inj_above [of 2 a MINIXEND1 b] digits_inj_above [of 3 a MINIXEND2 b]
  by (simp add: lpos_def minixends del: digits.simps split: if_splits)

lemma reg_ok_cong:
  assumes "reg_ok r" "r_fs r' = r_fs r" "i_daddr (r_ino r') = i_daddr (r_ino r)"
  shows "reg_ok r'" "nd r' = nd r"
proof -
  show "nd r' = nd r" by (simp add: nd_def fun_eq_iff assms)
  with assms show "reg_ok r'" by (simp add: reg_ok_def)
qed

lemma grows_setdirty: "reg_ok r \<Longrightarrow> grows q r (setdirty r)"
  using reg_ok_cong [of r "setdirty r"] frame_same [of "setdirty r" r] by (simp add: grows_def setdirty_def)

lemma wtranslate_ok:
  assumes ok: "reg_ok r" and i: "i < 10" "depth i = n"
  shows "\<exists>e z r'. wtranslate n (PInode i) off r = Some (e, z, r') \<and> grows (i, digits n off) r r' \<and>
    (e = 0 \<and> z = nd r' (i, digits n off) \<and> z \<noteq> 0 \<or>
     e = ENOSPC \<and> free_zones (r_fs r') = {} \<and> (\<forall>p. full p \<longrightarrow> nd r' p = nd r p))"
proof -
  let ?t = "(i, digits n off)"
  define r0 where "r0 = (if zget (PInode i) r = 0 then setdirty r else r)"
  have g0: "grows ?t r r0" using grows_setdirty [OF ok] grows_refl [OF ok] by (simp add: r0_def)
  have nd0: "nd r0 = nd r" using reg_ok_cong(2) [OF ok, of "setdirty r"] by (simp add: r0_def setdirty_def)
  have rc: "reachable r0 (i, [])" using i by (simp add: reachable_def vpos_def)
  obtain e p r1 where r1: "wtranslate_loop n (PInode i) off r0 = Some (e, p, r1)" "grows ?t r0 r1"
    "e = 0 \<and> p = ptr_at r1 ?t \<and> reachable r1 ?t \<or> e = ENOSPC \<and> free_zones (r_fs r1) = {} \<and> (\<forall>p. full p \<longrightarrow> nd r1 p = nd r0 p)"
    using wtranslate_loop_ok [OF growsD(1) [OF g0] rc, of n off] i(2) by (auto simp: ptr_at_simps)
  have g1: "grows ?t r r1" by (rule grows_trans [OF g0 r1(2)])
  show ?thesis
  proof (cases "e = 0")
    case False
    then show ?thesis using r1 g1 nd0 by (auto simp: wtranslate_def Let_def simp flip: r0_def)
  next
    case True
    then have p: "p = ptr_at r1 ?t" "reachable r1 ?t" using r1(3) by auto
    then have fl: "full ?t" using i(2) by (auto simp: full_def reachable_def)
    obtain e2 r2 where r2: "allocdatab p r1 = Some (e2, r2)" "alloc_result ?t r1 e2 r2"
      using allocdatab_ok [OF growsD(1) [OF g1] p(2) fl] p(1) by auto
    then have g2: "grows ?t r1 r2" by (simp add: alloc_result_def)
    have w: "wtranslate n (PInode i) off r = Some (e2, zget p r2, r2)"
      using r1(1) True r2(1) by (simp add: wtranslate_def Let_def flip: r0_def)
    have parent: "nd r2 (i, butlast (digits n off)) = nd r1 (i, butlast (digits n off))" if "digits n off \<noteq> []"
      using p(2) that by (intro growsD(4) [OF g2]) (auto simp: vpos_def reachable_def dest: in_set_butlastD)
    then have "ptr_at r2 ?t = p" "reachable r2 ?t" using p by (auto simp: ptr_at_def reachable_def)
    then have z: "zget p r2 = nd r2 ?t" using zget_ptr_at [of r2 ?t] by simp
    show ?thesis
    proof (cases "e2 = 0")
      case True
      then have "nd r2 ?t \<noteq> 0" using r2(2) by (auto simp: alloc_result_def)
      with w z grows_trans [OF g1 g2] True show ?thesis by auto
    next
      case False
      then have e2: "e2 = ENOSPC" "r2 = r1" "free_zones (r_fs r1) = {}" "nd r1 ?t = 0"
        using r2 zget_ptr_at [OF p(2)] p(1) by (auto simp: alloc_result_def allocdatab_def split: if_splits)
      have "nd r1 q = nd r q" if "full q" for q
      proof (cases "q = ?t")
        case True
        then show ?thesis using e2(4) growsD(4) [OF g1, of q] that by (cases "nd r q = 0") (auto simp: full_def)
      next
        case False
        then show ?thesis by (rule growsD(5) [OF g1 that])
      qed
      with w e2 g1 show ?thesis by auto
    qed
  qed
qed

definition isfile :: "reg \<Rightarrow> bool" where
  "isfile r \<longleftrightarrow> SISREG (i_mode (r_ino r)) \<or> SISDIR (i_mode (r_ino r))"

lemma isfileD: "isfile r \<Longrightarrow> has_blocks r" "isfile r \<Longrightarrow> \<not> SISBLK (i_mode (r_ino r))"
  by (auto simp: isfile_def has_blocks_def SISREG_def SISDIR_def SISBLK_def)

lemma writemap_ok:
  assumes ok: "reg_ok r" and f: "isfile r" and l: "l < MINIXEND3"
  obtains e z r' where "writemap l r = Some (e, bno_of z, r')" "grows (lpos l) r r'"
    "e = 0 \<and> z = nd r' (lpos l) \<and> z \<noteq> 0 \<or> e = ENOSPC \<and> free_zones (r_fs r') = {} \<and> (\<forall>p. full p \<longrightarrow> nd r' p = nd r p)"
proof -
  note res = that
  have *: ?thesis if a: "i < 10" "depth i = n" "lpos l = (i, digits n off)"
    "writemap l r = map_option (\<lambda>(e, z, r1). (e, bno_of z, r1)) (wtranslate n (PInode i) off r)" for i n off
  proof -
    obtain e z r' where w: "wtranslate n (PInode i) off r = Some (e, z, r')" "grows (i, digits n off) r r'"
      "e = 0 \<and> z = nd r' (i, digits n off) \<and> z \<noteq> 0 \<or>
       e = ENOSPC \<and> free_zones (r_fs r') = {} \<and> (\<forall>p. full p \<longrightarrow> nd r' p = nd r p)"
      using wtranslate_ok [OF ok a(1,2), of off] by blast
    show ?thesis by (rule res [of e z r']) (use w a(3,4) in simp_all)
  qed
  consider "l < MINIXEND0" | "MINIXEND0 \<le> l" "l < MINIXEND1" | "MINIXEND1 \<le> l" "l < MINIXEND2" | "MINIXEND2 \<le> l" by linarith
  then show ?thesis
  proof cases
    case 1
    then show ?thesis using isfileD [OF f]
      by (intro * [of l 0 l]) (simp_all add: lpos_def writemap_def minixends depth_def)
  next
    case 2
    then show ?thesis using isfileD [OF f]
      by (intro * [of 7 1 "l - MINIXEND0"]) (simp_all add: lpos_def writemap_def minixends depth_def del: digits.simps)
  next
    case 3
    then show ?thesis using isfileD [OF f]
      by (intro * [of 8 2 "l - MINIXEND1"]) (simp_all add: lpos_def writemap_def minixends depth_def del: digits.simps)
  next
    case 4
    then show ?thesis using isfileD [OF f] l
      by (intro * [of 9 3 "l - MINIXEND2"]) (simp_all add: lpos_def writemap_def minixends depth_def del: digits.simps)
  qed
qed

lemma rtranslate_loop_walk:
  "(\<And>n. \<not> f_bad s n) \<Longrightarrow> rtranslate_loop n z off s = Inr (walk (f_blk s) z (digits n off))"
  by (induction n z off s rule: rtranslate_loop.induct) (simp_all add: f_readb_def)

lemma readmap_ok:
  assumes ok: "reg_ok r" and f: "isfile r" and l: "l < MINIXEND3"
  shows "readmap l r = Some (Inr (if nd r (lpos l) = 0 then BNOTALLOC else bno_of (nd r (lpos l))))"
proof -
  have rt: "rtranslate n z off (r_fs r) = Some (Inr (if walk (f_blk (r_fs r)) z (digits n off) = 0 then BNOTALLOC
      else bno_of (walk (f_blk (r_fs r)) z (digits n off))))" if "0 < n" for n z off
    using that rtranslate_loop_walk [of "r_fs r"] reg_okD(4) [OF ok] by (simp add: rtranslate_def)
  show ?thesis
    using isfileD [OF f] l by (simp add: readmap_def Let_def lpos_def nd_def rt del: digits.simps)
qed

subsection \<open>Contents of a file\<close>

definition fbyte :: "reg \<Rightarrow> nat \<Rightarrow> u8" where
  "fbyte r x = (let z = nd r (lpos (x div 1024)) in if z = 0 then 0 else f_blk (r_fs r) (bno_of z) ! (x mod 1024))"

lemma chunk_pos:
  fixes pos j :: nat
  assumes "j < 1024 - pos mod 1024"
  shows "(pos + j) div 1024 = pos div 1024" "(pos + j) mod 1024 = pos mod 1024 + j"
proof -
  have e: "pos + j = (pos mod 1024 + j) + 1024 * (pos div 1024)" by simp
  have s: "pos mod 1024 + j < 1024" using assms by simp
  have "(a + 1024 * b) div 1024 = b" "(a + 1024 * b) mod 1024 = a" if "a < 1024" for a b :: nat using that by simp_all
  from this [OF s, of "pos div 1024"] show "(pos + j) div 1024 = pos div 1024" "(pos + j) mod 1024 = pos mod 1024 + j"
    unfolding e [symmetric] .
qed

lemma block_in_range: "x < 2 ^ 32 \<Longrightarrow> x div 1024 < MINIXEND3"
  by (simp add: minixends div_less_iff_less_mult)

lemma read_chunk:
  assumes "c \<le> 1024 - pos mod 1024" "nd r (lpos (pos div 1024)) \<noteq> 0" "reg_ok r"
  shows "take c (drop (pos mod 1024) (f_blk (r_fs r) (bno_of (nd r (lpos (pos div 1024)))))) = map (\<lambda>k. fbyte r (pos + k)) [0..<c]"
  using assms(1,2) reg_okD(3) [OF assms(3)] by (intro nth_equalityI) (auto simp: fbyte_def chunk_pos)

lemma read_hole:
  assumes "c \<le> 1024 - pos mod 1024" "nd r (lpos (pos div 1024)) = 0"
  shows "replicate c 0 = map (\<lambda>k. fbyte r (pos + k)) [0..<c]"
  using assms by (intro nth_equalityI) (auto simp: fbyte_def chunk_pos)

lemma map_upt_split: "c \<le> n \<Longrightarrow> map (\<lambda>k. f (pos + k)) [0..<c] @ map (\<lambda>k. f (pos + c + k)) [0..<n - c] = map (\<lambda>k. f (pos + k)) [0..<n]" for pos :: nat
  by (rule nth_equalityI) (auto simp: nth_append)

lemma read_loop_ok:
  assumes ok: "reg_ok r" and f: "isfile r"
  shows "pos + left \<le> 2 ^ 32 \<Longrightarrow> read_loop pos left acc r = Some (Inr (acc @ map (\<lambda>k. fbyte r (pos + k)) [0..<left]))"
proof (induction left arbitrary: pos acc rule: less_induct)
  case (less left)
  show ?case
  proof (cases "left = 0")
    case True
    then show ?thesis by (subst read_loop.simps) simp
  next
    case False
    define c where "c = min (1024 - pos mod 1024) left"
    have c: "0 < c" "c \<le> left" "c \<le> 1024 - pos mod 1024" using False by (auto simp: c_def)
    have rm: "readmap (pos div 1024) r = Some (Inr (if nd r (lpos (pos div 1024)) = 0 then BNOTALLOC else bno_of (nd r (lpos (pos div 1024)))))"
      using less.prems False by (intro readmap_ok [OF ok f] block_in_range) simp
    define ch where "ch = map (\<lambda>k. fbyte r (pos + k)) [0..<c]"
    have IH: "read_loop (pos + c) (left - c) (acc @ ch) r = Some (Inr ((acc @ ch) @ map (\<lambda>k. fbyte r (pos + c + k)) [0..<left - c]))"
      using less.prems c by (intro less.IH) auto
    have nn: "bno_of z \<noteq> BNOTALLOC" for z by (simp add: bno_of_def BNOTALLOC_def)
    have "read_loop pos left acc r = read_loop (pos + c) (left - c) (acc @ ch) r"
      using False rm read_hole [OF c(3)] read_chunk [OF c(3) _ ok] f_readb_ok [OF ok] nn
      by (subst read_loop.simps) (simp add: Let_def MINIXBSIZE_def ch_def flip: c_def)
    then show ?thesis using IH map_upt_split [OF c(2), of "fbyte r" pos] by (simp add: ch_def)
  qed
qed

lemma patch_nth: "off + length bs \<le> length d \<Longrightarrow> j < length d \<Longrightarrow>
    patch off bs d ! j = (if off \<le> j \<and> j < off + length bs then bs ! (j - off) else d ! j)"
  by (auto simp: patch_def nth_append min_def)

lemma length_patch: "off + length bs \<le> length d \<Longrightarrow> length (patch off bs d) = length d"
  by (simp add: patch_def)

lemma data_write:
  assumes ok: "reg_ok r" and q: "full q" "nd r q \<noteq> 0" and len: "length d = 1024"
  defines "r' \<equiv> r\<lparr>r_fs := f_writeb (bno_of (nd r q)) d (r_fs r)\<rparr>"
  shows "reg_ok r'" "vpos p \<Longrightarrow> nd r' p = nd r p"
proof -
  have vq: "vpos q" "length (snd q) = depth (fst q)" using q(1) by (auto simp: full_def)
  have nd': "nd r' p = nd r p" if "vpos p" for p
  proof (rule nd_cong [OF _ _ that])
    fix i ks assume a: "vpos (i, ks)" "length ks < depth i" "nd r (i, ks) \<noteq> 0"
    have "nd r (i, ks) \<noteq> nd r q"
    proof
      assume "nd r (i, ks) = nd r q"
      from reg_okD(6) [OF ok a(1) vq(1) a(3) this] a(2) vq(2) show False by auto
    qed
    then show "f_blk (r_fs r') (bno_of (nd r (i, ks))) = f_blk (r_fs r) (bno_of (nd r (i, ks)))"
      by (simp add: r'_def f_writeb_def)
  qed (simp add: r'_def)
  then show "vpos p \<Longrightarrow> nd r' p = nd r p" .
  have fs: "fs_ok (r_fs r')" "free_zones (r_fs r') = free_zones (r_fs r)" "f_bad (r_fs r') = f_bad (r_fs r)"
    "f_datazone (r_fs r') = f_datazone (r_fs r)" "f_nzone (r_fs r') = f_nzone (r_fs r)" "r_ino r' = r_ino r"
    using reg_okD(1) [OF ok] by (simp_all add: r'_def f_writeb_def fs_ok_def free_zones_def zone_of_def)
  show "reg_ok r'"
    unfolding reg_ok_def fs
  proof (intro conjI allI impI)
    show "length (f_blk (r_fs r') n) = 1024" for n using reg_okD(3) [OF ok] len by (simp add: r'_def f_writeb_def)
    show "p = p'" if "vpos p" "vpos p'" "nd r' p \<noteq> 0" "nd r' p = nd r' p'" for p p'
      using that by (intro reg_okD(6) [OF ok that(1,2)]) (simp_all add: nd')
  qed (use reg_okD(1,2,4,5) [OF ok] fs(1) in \<open>simp_all add: nd'\<close>)
qed

text \<open>One round of the write loop.\<close>

lemma write_block:
  assumes ok: "reg_ok r" and g: "grows (lpos l) r r1" and z: "nd r1 (lpos l) \<noteq> 0" and l: "l < MINIXEND3" and len: "length d = 1024"
    and x: "x div 1024 < MINIXEND3"
  defines "r2 \<equiv> r1\<lparr>r_fs := f_writeb (bno_of (nd r1 (lpos l))) d (r_fs r1)\<rparr>"
  shows "fbyte r2 x = (if x div 1024 = l then d ! (x mod 1024) else fbyte r x)"
proof -
  note ok1 = growsD(1) [OF g]
  note dw = data_write [OF ok1 full_lpos z len]
  have v: "vpos (lpos k)" for k using full_lpos by (simp add: full_def)
  have nd2: "nd r2 (lpos k) = nd r1 (lpos k)" for k unfolding r2_def by (rule dw(2)) (rule v)
  have blk2: "f_blk (r_fs r2) n = (if n = bno_of (nd r1 (lpos l)) then d else f_blk (r_fs r1) n)" for n
    by (simp add: r2_def f_writeb_def)
  show ?thesis
  proof (cases "x div 1024 = l")
    case True
    then show ?thesis using z by (simp add: fbyte_def nd2 blk2)
  next
    case False
    let ?p = "lpos (x div 1024)"
    have ne: "?p \<noteq> lpos l" using lpos_inj [OF _ x l] False by blast
    have e: "nd r1 ?p = nd r ?p" by (rule growsD(5) [OF g full_lpos ne])
    show ?thesis
    proof (cases "nd r ?p = 0")
      case True
      then show ?thesis using False e by (simp add: fbyte_def nd2)
    next
      case nz: False
      have "nd r1 ?p \<noteq> nd r1 (lpos l)"
      proof
        assume "nd r1 ?p = nd r1 (lpos l)"
        from reg_okD(6) [OF ok1 v v _ this] nz e ne show False by simp
      qed
      then show ?thesis using False nz e growsD(6) [OF g full_lpos nz] by (simp add: fbyte_def nd2 blk2)
    qed
  qed
qed

definition old_byte :: "reg \<Rightarrow> nat \<Rightarrow> nat \<Rightarrow> nat \<Rightarrow> bool" where
  "old_byte r pos n x \<longleftrightarrow> x < i_size (r_ino r) \<and> x < 2 ^ 32 \<and> \<not> (pos \<le> x \<and> x < pos + n) \<and>
     (nd r (lpos (x div 1024)) \<noteq> 0 \<or> \<not> (pos div 1024 \<le> x div 1024 \<and> x div 1024 \<le> (pos + n - 1) div 1024))"

lemma write_round:
  assumes ok: "reg_ok r" and f: "isfile r" and ne: "buf \<noteq> []" and pl: "pos + length buf \<le> 2 ^ 32"
    and jl: "\<And>n. length (junk n) = 1024"
  defines "c \<equiv> min (1024 - pos mod 1024) (length buf)"
  obtains (full) r1 where "write_loop junk pos buf r = Some (ENOSPC, r1)" "grows (lpos (pos div 1024)) r r1"
      "free_zones (r_fs r1) = {}" "\<And>p. full p \<Longrightarrow> nd r1 p = nd r p"
  | (more) r3 where "write_loop junk pos buf r = write_loop junk (pos + c) (drop c buf) r3" "reg_ok r3"
      "i_mode (r_ino r3) = i_mode (r_ino r)" "i_size (r_ino r3) = max (i_size (r_ino r)) (pos + c)"
      "nd r3 (lpos (pos div 1024)) \<noteq> 0" "\<And>p. full p \<Longrightarrow> nd r p \<noteq> 0 \<Longrightarrow> nd r3 p \<noteq> 0"
      "\<And>k. k < c \<Longrightarrow> fbyte r3 (pos + k) = buf ! k" "\<And>x. old_byte r pos c x \<Longrightarrow> fbyte r3 x = fbyte r x" "frame r r3"
proof -
  let ?l = "pos div 1024" and ?off = "pos mod 1024"
  have c: "0 < c" "c \<le> length buf" "c \<le> 1024 - ?off" using ne by (auto simp: c_def)
  have l: "?l < MINIXEND3" using pl c(1,2) by (intro block_in_range) linarith
  obtain e z r1 where w: "writemap ?l r = Some (e, bno_of z, r1)" and g: "grows (lpos ?l) r r1" and
    a: "e = 0 \<and> z = nd r1 (lpos ?l) \<and> z \<noteq> 0 \<or> e = ENOSPC \<and> free_zones (r_fs r1) = {} \<and> (\<forall>p. full p \<longrightarrow> nd r1 p = nd r p)"
    by (rule writemap_ok [OF ok f l])
  show ?thesis
  proof (cases "e = 0")
    case False
    with a have "e = ENOSPC" "free_zones (r_fs r1) = {}" "\<And>p. full p \<Longrightarrow> nd r1 p = nd r p" by auto
    then show ?thesis using w ne g by (intro full [of r1]) (simp_all add: write_loop.simps [of junk pos buf] Let_def MINIXBSIZE_def)
  next
    case True
    with a have z: "z = nd r1 (lpos ?l)" "nd r1 (lpos ?l) \<noteq> 0" by auto
    note ok1 = growsD(1) [OF g] and sz = growsD(3) [OF g]
    let ?fresh = "c = 1024 \<or> ?off = 0 \<and> i_size (r_ino r) \<le> pos + c"
    define d where "d = (if ?fresh then junk (bno_of z) else f_blk (r_fs r1) (bno_of z))"
    define d' where "d' = patch ?off (take c buf) d"
    have dl: "length d = 1024" using jl reg_okD(3) [OF ok1] by (simp add: d_def)
    have fits: "?off + length (take c buf) \<le> length d" using c dl by simp
    have dl': "length d' = 1024" using length_patch [OF fits] dl by (simp add: d'_def)
    define r2 where "r2 = r1\<lparr>r_fs := f_writeb (bno_of (nd r1 (lpos ?l))) d' (r_fs r1)\<rparr>"
    have ok2: "reg_ok r2" and nd2: "\<And>p. vpos p \<Longrightarrow> nd r2 p = nd r1 p"
      using data_write [OF ok1 full_lpos z(2) dl'] by (simp_all add: r2_def)
    define r3 where "r3 = (if pos + c > i_size (r_ino r2) then setdirty (r2\<lparr>r_ino := (r_ino r2)\<lparr>i_size := pos + c\<rparr>\<rparr>) else r2)"
    have fs3: "r_fs r3 = r_fs r2" and da3: "i_daddr (r_ino r3) = i_daddr (r_ino r2)" by (simp_all add: r3_def setdirty_def)
    note r3 = reg_ok_cong [OF ok2 fs3 da3]
    have fb3: "fbyte r3 x = (if x div 1024 = ?l then d' ! (x mod 1024) else fbyte r x)" if "x div 1024 < MINIXEND3" for x
    proof -
      have "fbyte r3 x = fbyte r2 x" by (simp add: fbyte_def Let_def r3(2) fs3)
      then show ?thesis using write_block [OF ok g z(2) l dl' that] by (simp add: r2_def)
    qed
    have d'_nth: "d' ! j = (if ?off \<le> j \<and> j < ?off + c then buf ! (j - ?off) else d ! j)" if "j < 1024" for j
      using patch_nth [OF fits, of j] that dl c(2) by (auto simp: d'_def)
    have v: "vpos (lpos k)" for k using full_lpos by (simp add: full_def)
    have "bno_of (nd r1 (lpos ?l)) \<in> file_zones r1" using v z(2) unfolding file_zones_iff by blast
    then have "frame r1 r2" using nd2 unfolding r2_def by (intro frame_write)
    then have fr: "frame r r3" using frame_trans growsD(7) [OF g] frame_same [OF fs3 da3] by blast
    show ?thesis
    proof (rule more [of r3])
      show "frame r r3" by (rule fr)
      have rd: "f_readb (bno_of z) (r_fs r1) = Inr (f_blk (r_fs r1) (bno_of z))" by (rule f_readb_ok [OF ok1])
      show "write_loop junk pos buf r = write_loop junk (pos + c) (drop c buf) r3"
        unfolding write_loop.simps [of junk pos buf r] MINIXBSIZE_def Let_def c_def [symmetric]
        using w True ne rd sz by (simp add: r3_def r2_def d'_def d_def z(1) [symmetric] Let_def)
      show "reg_ok r3" by (rule r3(1))
      show "i_mode (r_ino r3) = i_mode (r_ino r)" using growsD(2) [OF g] by (simp add: r3_def setdirty_def r2_def)
      show "i_size (r_ino r3) = max (i_size (r_ino r)) (pos + c)" using sz by (simp add: r3_def setdirty_def r2_def)
      show "nd r3 (lpos ?l) \<noteq> 0" using z(2) nd2 [OF v] by (simp add: r3(2))
      show "nd r3 p \<noteq> 0" if "full p" "nd r p \<noteq> 0" for p
        using that growsD(4) [OF g, of p] nd2 [of p] by (simp add: r3(2) full_def)
      show "fbyte r3 (pos + k) = buf ! k" if "k < c" for k
      proof -
        have k: "k < 1024 - ?off" using that c(3) by simp
        then show ?thesis using fb3 [of "pos + k"] l d'_nth [of "?off + k"] that by (simp add: chunk_pos [OF k])
      qed
      show "fbyte r3 x = fbyte r x" if ob: "old_byte r pos c x" for x
      proof (cases "x div 1024 = ?l")
        case False
        then show ?thesis using fb3 [of x] ob block_in_range [of x] by (simp add: old_byte_def)
      next
        case True
        have nf: "\<not> (?off \<le> x mod 1024 \<and> x mod 1024 < ?off + c)"
        proof
          assume "?off \<le> x mod 1024 \<and> x mod 1024 < ?off + c"
          then have "pos \<le> x \<and> x < pos + c" using True div_mult_mod_eq [of x 1024] div_mult_mod_eq [of pos 1024] by linarith
          then show False using ob by (simp add: old_byte_def)
        qed
        have nz: "nd r (lpos ?l) \<noteq> 0"
        proof -
          have "?l \<le> (pos + c - 1) div 1024" using c(1) by (intro div_le_mono) simp
          then show ?thesis using ob True by (simp add: old_byte_def)
        qed
        have "\<not> ?fresh"
        proof
          assume "?fresh"
          then show False
          proof
            assume "c = 1024"
            then have "?off = 0" using c(3) mod_less_divisor [of 1024 pos] by linarith
            then show False using nf \<open>c = 1024\<close> by simp
          next
            assume "?off = 0 \<and> i_size (r_ino r) \<le> pos + c"
            then show False using nf ob True div_mult_mod_eq [of x 1024] div_mult_mod_eq [of pos 1024]
              by (simp add: old_byte_def)
          qed
        qed
        then have "d' ! (x mod 1024) = f_blk (r_fs r1) (bno_of z) ! (x mod 1024)" using d'_nth [of "x mod 1024"] nf by (auto simp: d_def)
        also have "z = nd r (lpos ?l)" using growsD(4) [OF g v nz] z(1) by simp
        finally have "d' ! (x mod 1024) = f_blk (r_fs r) (bno_of (nd r (lpos ?l))) ! (x mod 1024)"
          using growsD(6) [OF g full_lpos nz] by simp
        then show ?thesis using fb3 [of x] True l nz by (simp add: fbyte_def)
      qed
    qed
  qed
qed

lemma old_byte_step:
  assumes "old_byte r pos n x" "0 < c" "c \<le> n"
  shows "old_byte r pos c x"
proof -
  have "(pos + c - 1) div 1024 \<le> (pos + n - 1) div 1024" using assms(3) by (intro div_le_mono) simp
  with assms show ?thesis unfolding old_byte_def by auto
qed

lemma old_byte_rest:
  assumes "old_byte r pos n x" "c < n" "i_size (r_ino r) \<le> i_size (r_ino r')"
    "nd r (lpos (x div 1024)) \<noteq> 0 \<Longrightarrow> nd r' (lpos (x div 1024)) \<noteq> 0"
  shows "old_byte r' (pos + c) (n - c) x"
proof -
  have "pos div 1024 \<le> (pos + c) div 1024" by (intro div_le_mono) simp
  moreover have "pos + c + (n - c) - 1 = pos + n - 1" using assms(2) by simp
  ultimately show ?thesis using assms unfolding old_byte_def by auto
qed

lemma write_loop_ok:
  assumes jl: "\<And>n. length (junk n) = 1024"
  shows "reg_ok r \<Longrightarrow> isfile r \<Longrightarrow> pos + length buf \<le> 2 ^ 32 \<Longrightarrow>
   \<exists>e r'. write_loop junk pos buf r = Some (e, r') \<and> reg_ok r' \<and> frame r r' \<and> i_mode (r_ino r') = i_mode (r_ino r) \<and>
     i_size (r_ino r) \<le> i_size (r_ino r') \<and>
     (e = 0 \<and> i_size (r_ino r') = (if buf = [] then i_size (r_ino r) else max (i_size (r_ino r)) (pos + length buf)) \<and>
        (\<forall>k<length buf. fbyte r' (pos + k) = buf ! k \<and> nd r' (lpos ((pos + k) div 1024)) \<noteq> 0) \<or> e = ENOSPC \<and> free_zones (r_fs r') = {}) \<and>
     (\<forall>p. full p \<longrightarrow> nd r p \<noteq> 0 \<longrightarrow> nd r' p \<noteq> 0) \<and>
     (\<forall>x. old_byte r pos (length buf) x \<longrightarrow> fbyte r' x = fbyte r x)"
proof (induction "length buf" arbitrary: pos buf r rule: less_induct)
  case less
  show ?case
  proof (cases "buf = []")
    case True
    then show ?thesis using less.prems by (subst write_loop.simps) (simp add: frame_refl)
  next
    case False
    define c where "c = min (1024 - pos mod 1024) (length buf)"
    have c: "0 < c" "c \<le> length buf" using False by (auto simp: c_def)
    show ?thesis
    proof (rule write_round [OF less.prems(1,2) False less.prems(3) jl, folded c_def])
      fix r1 assume a: "write_loop junk pos buf r = Some (ENOSPC, r1)" "grows (lpos (pos div 1024)) r r1"
        "free_zones (r_fs r1) = {}" "\<And>p. full p \<Longrightarrow> nd r1 p = nd r p"
      have "fbyte r1 x = fbyte r x" for x
        using a(4) [OF full_lpos] growsD(6) [OF a(2) full_lpos] by (simp add: fbyte_def Let_def)
      then show ?thesis using a(1,3,4) growsD(1-3,7) [OF a(2)] by simp
    next
      fix r3 assume a: "write_loop junk pos buf r = write_loop junk (pos + c) (drop c buf) r3" "reg_ok r3"
        "i_mode (r_ino r3) = i_mode (r_ino r)" "i_size (r_ino r3) = max (i_size (r_ino r)) (pos + c)"
        "nd r3 (lpos (pos div 1024)) \<noteq> 0" "\<And>p. full p \<Longrightarrow> nd r p \<noteq> 0 \<Longrightarrow> nd r3 p \<noteq> 0"
        "\<And>k. k < c \<Longrightarrow> fbyte r3 (pos + k) = buf ! k" "\<And>x. old_byte r pos c x \<Longrightarrow> fbyte r3 x = fbyte r x" "frame r r3"
      have f3: "isfile r3" using less.prems(2) a(3) by (simp add: isfile_def)
      obtain e r' where r': "write_loop junk (pos + c) (drop c buf) r3 = Some (e, r')" "reg_ok r'"
        "i_mode (r_ino r') = i_mode (r_ino r3)" "i_size (r_ino r3) \<le> i_size (r_ino r')"
        "e = 0 \<and> i_size (r_ino r') = (if drop c buf = [] then i_size (r_ino r3) else max (i_size (r_ino r3)) (pos + c + length (drop c buf))) \<and>
          (\<forall>k<length (drop c buf). fbyte r' (pos + c + k) = drop c buf ! k \<and> nd r' (lpos ((pos + c + k) div 1024)) \<noteq> 0) \<or> e = ENOSPC \<and> free_zones (r_fs r') = {}"
        "\<forall>p. full p \<longrightarrow> nd r3 p \<noteq> 0 \<longrightarrow> nd r' p \<noteq> 0"
        "\<forall>x. old_byte r3 (pos + c) (length (drop c buf)) x \<longrightarrow> fbyte r' x = fbyte r3 x" "frame r3 r'"
        using less.hyps [of "drop c buf" r3 "pos + c"] a(2) f3 c less.prems(3) by (auto simp: less_diff_conv2)
      have first: "fbyte r' (pos + k) = buf ! k \<and> nd r' (lpos ((pos + k) div 1024)) \<noteq> 0" if k: "k < c" for k
      proof -
        have kk: "k < 1024 - pos mod 1024" using k by (simp add: c_def)
        have "old_byte r3 (pos + c) (length (drop c buf)) (pos + k)"
          using k c a(4,5) less.prems(3) chunk_pos [OF kk] by (auto simp: old_byte_def)
        then show ?thesis using r'(7) a(7) [OF k] r'(6) [rule_format, OF full_lpos a(5)] chunk_pos [OF kk] by simp
      qed
      have bytes: "fbyte r' (pos + k) = buf ! k \<and> nd r' (lpos ((pos + k) div 1024)) \<noteq> 0" if e0: "e = 0" and k: "k < length buf" for k
      proof (cases "k < c")
        case False
        from e0 r'(5) have "\<forall>k<length (drop c buf). fbyte r' (pos + c + k) = drop c buf ! k \<and> nd r' (lpos ((pos + c + k) div 1024)) \<noteq> 0" by auto
        then have "k - c < length (drop c buf) \<longrightarrow> fbyte r' (pos + c + (k - c)) = drop c buf ! (k - c) \<and>
          nd r' (lpos ((pos + c + (k - c)) div 1024)) \<noteq> 0" by (rule spec)
        then show ?thesis using False c(2) k by (simp add: diff_less_mono)
      qed (rule first)
      have kept: "fbyte r' x = fbyte r x" if ob: "old_byte r pos (length buf) x" for x
      proof -
        have "fbyte r3 x = fbyte r x" by (rule a(8) [OF old_byte_step [OF ob c]])
        moreover have "fbyte r' x = fbyte r3 x"
        proof (cases "c < length buf")
          case True
          have "old_byte r3 (pos + c) (length buf - c) x"
            by (rule old_byte_rest [OF ob True]) (use a(4) a(6) [OF full_lpos] in auto)
          then show ?thesis using r'(7) by simp
        next
          case False
          then have "drop c buf = []" by simp
          then show ?thesis using r'(1) by (subst (asm) write_loop.simps) simp
        qed
        ultimately show ?thesis by simp
      qed
      have size: "i_size (r_ino r') = max (i_size (r_ino r)) (pos + length buf)" if "e = 0"
      proof -
        from that r'(5) have "i_size (r_ino r') = (if drop c buf = [] then i_size (r_ino r3) else max (i_size (r_ino r3)) (pos + c + length (drop c buf)))"
          by auto
        then show ?thesis using a(4) c by (auto split: if_splits)
      qed
      have s1: "i_size (r_ino r) \<le> i_size (r_ino r')" using r'(4) a(4) by simp
      show ?thesis
        using r'(1-3,5,6) a(1,3,6) s1 False frame_trans [OF a(9) r'(8)] by (intro exI [of _ e] exI [of _ r']) (auto simp: bytes kept size)
    qed
  qed
qed

subsection \<open>A file as a list of bytes\<close>

definition contents :: "reg \<Rightarrow> u8 list" where
  "contents r = map (fbyte r) [0..<i_size (r_ino r)]"

definition no_holes :: "reg \<Rightarrow> bool" where
  "no_holes r \<longleftrightarrow> (\<forall>x<i_size (r_ino r). nd r (lpos (x div 1024)) \<noteq> 0)"

lemma contents_cong: "nd r' = nd r \<Longrightarrow> r_fs r' = r_fs r \<Longrightarrow> i_size (r_ino r') = i_size (r_ino r) \<Longrightarrow> contents r' = contents r"
  by (simp add: contents_def fbyte_def Let_def)

lemma inode_write_ok:
  assumes "reg_ok r" "isfile r" "pos + length buf < 2 ^ 32" "\<forall>n. length (junk n) = 1024"
  obtains (full) r' where "inode_write junk pos buf r = Some (ENOSPC, r')" "reg_ok r'" "isfile r'" "free_zones (r_fs r') = {}"
      "i_size (r_ino r) \<le> i_size (r_ino r')" "\<forall>x. old_byte r pos (length buf) x \<longrightarrow> fbyte r' x = fbyte r x" "frame r r'"
  | (stored) r' where "inode_write junk pos buf r = Some (int (length buf), r')" "reg_ok r'" "isfile r'"
      "i_size (r_ino r') = (if buf = [] then i_size (r_ino r) else max (i_size (r_ino r)) (pos + length buf))"
      "\<forall>k<length buf. fbyte r' (pos + k) = buf ! k \<and> nd r' (lpos ((pos + k) div 1024)) \<noteq> 0"
      "\<forall>p. full p \<longrightarrow> nd r p \<noteq> 0 \<longrightarrow> nd r' p \<noteq> 0" "\<forall>x. old_byte r pos (length buf) x \<longrightarrow> fbyte r' x = fbyte r x" "frame r r'"
proof -
  note hb = isfileD(1) [OF assms(2)]
  obtain e r1 where w: "write_loop junk pos buf r = Some (e, r1)" and ok: "reg_ok r1" and m: "i_mode (r_ino r1) = i_mode (r_ino r)"
    and sz: "i_size (r_ino r) \<le> i_size (r_ino r1)" and fr: "frame r r1"
    and c: "e = 0 \<and> i_size (r_ino r1) = (if buf = [] then i_size (r_ino r) else max (i_size (r_ino r)) (pos + length buf)) \<and>
        (\<forall>k<length buf. fbyte r1 (pos + k) = buf ! k \<and> nd r1 (lpos ((pos + k) div 1024)) \<noteq> 0) \<or> e = ENOSPC \<and> free_zones (r_fs r1) = {}"
    and more: "\<forall>p. full p \<longrightarrow> nd r p \<noteq> 0 \<longrightarrow> nd r1 p \<noteq> 0" and kept: "\<forall>x. old_byte r pos (length buf) x \<longrightarrow> fbyte r1 x = fbyte r x"
    using write_loop_ok [where junk = junk, OF assms(4) [rule_format] assms(1,2), of pos buf] assms(3) by auto
  show ?thesis
  proof (cases "e = 0")
    case True
    let ?r = "r1\<lparr>r_ino := (r_ino r1)\<lparr>i_atime := r_now r1, i_mtime := r_now r1\<rparr>\<rparr>"
    have n: "nd ?r = nd r1" and ok': "reg_ok ?r" using reg_ok_cong [OF ok, of ?r] by simp_all
    have fb: "fbyte ?r = fbyte r1" by (simp add: fun_eq_iff fbyte_def n Let_def)
    have fr': "frame r ?r" by (rule frame_trans [OF fr frame_same]) simp_all
    show ?thesis
      by (rule stored [of ?r], unfold fb n)
        (use w True c hb ok' more kept m fr' assms(2) in \<open>simp_all add: inode_write_def isfile_def\<close>)
  next
    case False
    then show ?thesis using w c hb ok kept m sz fr assms(2) by (intro full [of r1]) (auto simp: inode_write_def isfile_def)
  qed
qed

subsection \<open>Properties\<close>

text \<open>
  C7: Reading a file is reading a list.  \<^verbatim>\<open>inode_t::read\<close> at any position returns the bytes of the file's contents from
  there, as many as were asked for or up to the end, and 0 past it; the result is their number; the contents stay.
\<close>

theorem file_read_refines:
  assumes "reg_ok r" "isfile r" "pos + len < 2 ^ 32"
  shows "\<exists>r'. inode_read pos len r = Some (int (length (take len (drop pos (contents r)))), take len (drop pos (contents r)), r') \<and>
     reg_ok r' \<and> contents r' = contents r"
proof (cases "pos \<ge> i_size (r_ino r)")
  case True
  then show ?thesis using isfileD [OF assms(2)] assms(1) by (simp add: inode_read_def contents_def)
next
  case False
  let ?n = "min (i_size (r_ino r) - pos) len" and ?r = "r\<lparr>r_ino := (r_ino r)\<lparr>i_atime := r_now r\<rparr>\<rparr>"
  have "read_loop pos ?n [] r = Some (Inr (map (\<lambda>k. fbyte r (pos + k)) [0..<?n]))"
    using read_loop_ok [OF assms(1,2), of pos ?n "[]"] assms(3) by simp
  moreover have "map (\<lambda>k. fbyte r (pos + k)) [0..<?n] = take len (drop pos (contents r))"
    by (rule nth_equalityI) (auto simp: contents_def)
  ultimately have "inode_read pos len r = Some (int (length (take len (drop pos (contents r)))), take len (drop pos (contents r)), ?r)"
    using isfileD [OF assms(2)] False by (simp add: inode_read_def del: length_take take_map)
  moreover have "contents ?r = contents r" using reg_ok_cong(2) [OF assms(1), of ?r] by (intro contents_cong) simp_all
  ultimately show ?thesis using reg_ok_cong(1) [OF assms(1), of ?r] by auto
qed

text \<open>
  C6: Writing a file is overwriting a list.  On a file with no holes and at a position up to its end,
  \<^verbatim>\<open>inode_t::write\<close> either stores all of the buffer, and then the new contents are the old ones with the buffer at that
  position, the file has no holes and stays well-formed, or returns \<^verbatim>\<open>ENOSPC\<close> with no zone free and every byte outside
  the range unchanged.
\<close>

theorem file_write_refines:
  assumes "reg_ok r" "isfile r" "no_holes r" "pos \<le> i_size (r_ino r)" "i_size (r_ino r) < 2 ^ 32" "pos + length buf < 2 ^ 32"
    "\<forall>n. length (junk n) = 1024"
  shows "\<exists>e r'. inode_write junk pos buf r = Some (e, r') \<and> reg_ok r' \<and> isfile r' \<and>
     (e = int (length buf) \<and> no_holes r' \<and> contents r' = take pos (contents r) @ buf @ drop (pos + length buf) (contents r) \<or>
      e = ENOSPC \<and> free_zones (r_fs r') = {} \<and> take pos (contents r') = take pos (contents r) \<and>
        (\<forall>x. pos + length buf \<le> x \<longrightarrow> x < i_size (r_ino r) \<longrightarrow> contents r' ! x = contents r ! x))"
  using assms(1,2,6,7)
proof (cases rule: inode_write_ok)
  case (full r')
  have "fbyte r' x = fbyte r x" if "x < i_size (r_ino r)" "x < pos \<or> pos + length buf \<le> x" for x
    using full(6) that assms(3,5) by (auto simp: old_byte_def no_holes_def)
  then have "take pos (contents r') = take pos (contents r)" "\<forall>x. pos + length buf \<le> x \<longrightarrow> x < i_size (r_ino r) \<longrightarrow> contents r' ! x = contents r ! x"
    using full(5) assms(4) by (auto simp: contents_def list_eq_iff_nth_eq)
  with full show ?thesis by (intro exI [of _ ENOSPC] exI [of _ r']) simp
next
  case (stored r')
  have old: "fbyte r' x = fbyte r x" if "x < i_size (r_ino r)" "x < pos \<or> pos + length buf \<le> x" for x
    using stored(7) that assms(3,5) by (auto simp: old_byte_def no_holes_def)
  have new: "fbyte r' x = buf ! (x - pos) \<and> nd r' (lpos (x div 1024)) \<noteq> 0" if "pos \<le> x" "x < pos + length buf" for x
    using stored(5) [rule_format, of "x - pos"] that by auto
  have c: "contents r' = take pos (contents r) @ buf @ drop (pos + length buf) (contents r)"
  proof (rule nth_equalityI)
    show "length (contents r') = length (take pos (contents r) @ buf @ drop (pos + length buf) (contents r))"
      using stored(4) assms(4) by (auto simp: contents_def)
    fix x assume "x < length (contents r')"
    then have x: "x < i_size (r_ino r')" by (simp add: contents_def)
    consider "x < pos" | "pos \<le> x" "x < pos + length buf" | "pos + length buf \<le> x" by linarith
    then show "contents r' ! x = (take pos (contents r) @ buf @ drop (pos + length buf) (contents r)) ! x"
      using x stored(4) assms(4) old [of x] new [of x] by cases (auto simp: contents_def nth_append split: if_splits)
  qed
  have "no_holes r'"
    unfolding no_holes_def
  proof (intro allI impI)
    fix x assume "x < i_size (r_ino r')"
    then have "x < i_size (r_ino r) \<or> pos \<le> x \<and> x < pos + length buf" using stored(4) assms(4) by (auto split: if_splits)
    then show "nd r' (lpos (x div 1024)) \<noteq> 0" using new [of x] stored(6) [rule_format, OF full_lpos] assms(3) by (auto simp: no_holes_def)
  qed
  with stored c show ?thesis by (intro exI [of _ "int (length buf)"] exI [of _ r']) simp
qed

text \<open>
  C40: A new data block is not cleared.  Writing one byte at offset 1 of an empty file takes the lowest free zone \<open>b\<close>,
  and reading the file back returns in front of it the byte that zone \<open>b\<close> held before, from whatever file it
  belonged to.
\<close>

theorem stale_data_exposed:
  assumes "reg_ok r" "isfile r" "i_size (r_ino r) = 0" "i_daddr (r_ino r) = replicate 10 0" "b \<in> free_zones (r_fs r)"
    "\<forall>b'\<in>free_zones (r_fs r). b \<le> b'"
  shows "\<exists>r1 r2. inode_write junk 1 [v] r = Some (1, r1) \<and> inode_read 0 2 r1 = Some (2, [f_blk (r_fs r) b ! 0, v], r2)"
  using reg_okD(1) [OF assms(1)]
proof (cases rule: allocb_spec)
  case full
  then show ?thesis using assms(5) by simp
next
  case (got b' s')
  then have b: "b' = b" using assms(5,6) by (simp add: order_antisym)
  note w = free_zone_word [OF reg_okD(1) [OF assms(1)] assms(5)]
  let ?old = "f_blk (r_fs r) b"
  have len: "length ?old = 1024" by (rule reg_okD(3) [OF assms(1)])
  then obtain x y rest where old: "?old = x # y # rest" by (cases ?old rule: list.exhaust; cases "tl ?old") auto
  define r1 where "r1 = (setdirty r)\<lparr>r_fs := s', r_ino := (r_ino (setdirty r))\<lparr>i_daddr := (replicate 10 0)[0 := word_of_int b]\<rparr>\<rparr>"
  have m: "writemap 0 r = Some (0, b, r1)"
    using isfileD [OF assms(2)] got(1) b w assms(4)
    by (simp add: writemap_def Let_def minixends wtranslate_def zget_def allocdatab_def setdirty_def zset_def r1_def)
  define r2 where "r2 = setdirty (r1\<lparr>r_fs := f_writeb b (x # v # rest) s', r_ino := (r_ino r1)\<lparr>i_size := 2\<rparr>\<rparr>)"
  have bad: "f_readb b s' = Inr ?old" using reg_okD(4) [OF assms(1)] got(6,7) by (simp add: f_readb_def)
  have loop: "write_loop junk 1 [v] r = Some (0, r2)"
    using m bad assms(3) old got(6)
    by (subst write_loop.simps) (simp add: MINIXBSIZE_def Let_def patch_def write_loop.simps [of _ _ "[]"] r2_def r1_def setdirty_def)
  define r3 where "r3 = r2\<lparr>r_ino := (r_ino r2)\<lparr>i_atime := r_now r2, i_mtime := r_now r2\<rparr>\<rparr>"
  have iw: "inode_write junk 1 [v] r = Some (1, r3)"
    using loop isfileD [OF assms(2)] by (simp add: inode_write_def r3_def)
  have mode: "i_mode (r_ino r3) = i_mode (r_ino r)" "has_blocks r3"
    using isfileD [OF assms(2)] by (simp_all add: r3_def r2_def r1_def setdirty_def has_blocks_def)
  have b0: "b \<noteq> BNOTALLOC" using w(1) by (auto simp: BNOTALLOC_def bno_of_def)
  have rm: "readmap 0 r3 = Some (Inr b)"
    using mode isfileD [OF assms(2)] w by (simp add: readmap_def minixends r3_def r2_def r1_def setdirty_def)
  have "f_readb b (r_fs r3) = Inr (x # v # rest)"
    using bad by (simp add: f_readb_def r3_def r2_def setdirty_def f_writeb_def split: if_splits)
  then have "read_loop 0 2 [] r3 = Some (Inr [x, v])"
    using rm b0 by (subst read_loop.simps) (simp add: MINIXBSIZE_def read_loop.simps [of _ 0])
  moreover have "i_size (r_ino r3) = 2" by (simp add: r3_def r2_def setdirty_def)
  ultimately have "inode_read 0 2 r3 = Some (2, [x, v], r3\<lparr>r_ino := (r_ino r3)\<lparr>i_atime := r_now r3\<rparr>\<rparr>)"
    using mode(2) by (simp add: inode_read_def)
  with iw old show ?thesis by auto
qed

subsection \<open>A small file system\<close>

text \<open>Two zones, 10 and 11, that held other data; the file has zone 10 when the argument says so.\<close>

definition demo_zw :: u32 where "demo_zw = NOT 4"

definition demo_file :: "bool \<Rightarrow> reg" where
  "demo_file used = \<lparr>r_fs = small_fs\<lparr>f_zmap := [if used then small_map demo_zw 1 else small_map small_zw 2], f_blk := \<lambda>_. replicate 1024 7\<rparr>,
     r_ino = \<lparr>i_mode = 0x81a4, i_nlink = 1, i_uid = 0, i_gid = 0, i_size = (if used then 3 else 0),
       i_daddr = (if used then 10 else 0) # replicate 9 0, i_state = 1, i_atime = 0, i_mtime = 0, i_ctime = 0\<rparr>, r_now = 5\<rparr>"

lemma demo_words: "{i. i < 32 \<and> \<not> bit demo_zw i} = {2}"
proof -
  have "(4 :: u32) = 2 ^ 2" by simp
  then show ?thesis
    unfolding demo_zw_def by (auto simp only: bit_not_iff bit_exp_iff possible_bit_def len_num1 len_bit0 mem_Collect_eq) auto
qed

lemma demo_fs_ok: "fs_ok (r_fs (demo_file used))" "free_zones (r_fs (demo_file used)) = (if used then {11} else {10, 11})"
proof -
  have n: "nbit (small_map w z) = 8192" for w z by (simp add: small_map_def)
  have b: "bm_ok (small_map demo_zw 1)" by (simp add: bm_ok_def small_map_clear demo_words) (simp add: small_map_def)
  have z: "map_clear (f_zmap (r_fs (demo_file used))) = (if used then {2} else {1, 2})"
    using map_clear_single [OF small_maps(2) n] map_clear_single [OF b n]
    by (simp add: demo_file_def small_map_clear small_words demo_words)
  have i: "map_clear (f_imap (r_fs (demo_file used))) = {3}" using small_fs_ok(2) by (simp add: demo_file_def)
  show "fs_ok (r_fs (demo_file used))"
    unfolding fs_ok_def i z using small_maps n b by (simp add: demo_file_def small_fs_def maps_ok_def)
  show "free_zones (r_fs (demo_file used)) = (if used then {11} else {10, 11})"
    unfolding free_zones_def z by (auto simp: zone_of_def demo_file_def small_fs_def)
qed

lemma demo_nd: "vpos p \<Longrightarrow> nd (demo_file used) p = (if used \<and> p = (0, []) then 10 else 0)"
proof (cases p)
  case (Pair i ks)
  assume "vpos p"
  with Pair have i: "i < 10" "i = 0 \<Longrightarrow> ks = []" by (auto simp: vpos_def depth_def)
  have "i_daddr (r_ino (demo_file used)) ! i = (if used \<and> i = 0 then 10 else 0)"
    using i(1) by (cases i) (simp_all add: demo_file_def)
  then show ?thesis using Pair i(2) by (cases "i = 0") (simp_all add: nd_def)
qed

lemma demo_file_ok: "reg_ok (demo_file used)" "isfile (demo_file used)"
proof -
  show "reg_ok (demo_file used)"
    unfolding reg_ok_def
  proof (intro conjI allI impI)
    show "fs_ok (r_fs (demo_file used))" by (rule demo_fs_ok)
    show "p = q" if "vpos p" "vpos q" "nd (demo_file used) p \<noteq> 0" "nd (demo_file used) p = nd (demo_file used) q" for p q
      using that by (auto simp: demo_nd split: if_splits)
    fix p assume p: "vpos p" "nd (demo_file used) p \<noteq> 0"
    then show "bno_of (nd (demo_file used) p) \<notin> free_zones (r_fs (demo_file used))"
      by (simp add: demo_nd demo_fs_ok bno_of_def split: if_splits)
    show "int (unat (f_datazone (r_fs (demo_file used)))) \<le> bno_of (nd (demo_file used) p)"
      "bno_of (nd (demo_file used) p) < int (unat (f_nzone (r_fs (demo_file used))))"
      using p by (simp_all add: demo_nd bno_of_def split: if_splits) (simp_all add: demo_file_def small_fs_def)
  qed (simp_all add: demo_file_def small_fs_def)
  show "isfile (demo_file used)" by (simp add: isfile_def demo_file_def SISREG_def SIFMT_def)
qed

lemma demo_contents: "contents (demo_file True) = [7, 7, 7]" "no_holes (demo_file True)"
proof -
  have s: "i_size (r_ino (demo_file True)) = 3" by (simp add: demo_file_def)
  have "fbyte (demo_file True) x = 7 \<and> nd (demo_file True) (lpos (x div 1024)) \<noteq> 0" if "x < 3" for x
    using that demo_nd [of "(0, [])" True] by (simp add: fbyte_def lpos_def minixends vpos_def depth_def) (simp add: demo_file_def)
  then show "contents (demo_file True) = [7, 7, 7]" "no_holes (demo_file True)"
    unfolding contents_def no_holes_def s by (simp_all add: upt_rec)
qed

theorem file_read_witness: "\<exists>r'. inode_read 1 5 (demo_file True) = Some (2, [7, 7], r')"
  using file_read_refines [OF demo_file_ok, of 1 5 True] unfolding demo_contents by auto

theorem file_write_witness:
  "\<exists>e r'. inode_write (\<lambda>_. replicate 1024 0) 2 [1, 2] (demo_file True) = Some (e, r') \<and> reg_ok r' \<and>
     (e = 2 \<and> contents r' = [7, 7, 1, 2] \<or> e = ENOSPC \<and> free_zones (r_fs r') = {})"
proof -
  have "2 \<le> i_size (r_ino (demo_file True))" "i_size (r_ino (demo_file True)) < 2 ^ 32" by (simp_all add: demo_file_def)
  from file_write_refines [OF demo_file_ok demo_contents(2) this, of "[1, 2]" "\<lambda>_. replicate 1024 0"]
  show ?thesis unfolding demo_contents by auto
qed

theorem stale_data_witness:
  "\<exists>r1 r2. inode_write (\<lambda>_. replicate 1024 0) 1 [9] (demo_file False) = Some (1, r1) \<and> inode_read 0 2 r1 = Some (2, [7, 9], r2)"
proof -
  have "10 \<in> free_zones (r_fs (demo_file False))" "\<forall>b'\<in>free_zones (r_fs (demo_file False)). 10 \<le> b'"
    by (simp_all add: demo_fs_ok)
  moreover have "i_size (r_ino (demo_file False)) = 0" "i_daddr (r_ino (demo_file False)) = replicate 10 0"
    by (simp_all add: demo_file_def numeral_eq_Suc)
  moreover have "f_blk (r_fs (demo_file False)) 10 ! 0 = 7" by (simp add: demo_file_def)
  ultimately show ?thesis using stale_data_exposed [OF demo_file_ok, of False 10 "\<lambda>_. replicate 1024 0" 9] by simp
qed

end
