(* ===== verification/Fs_Trunc.thy ===== *)
theory Fs_Trunc
  imports Fs_Reg
begin

text \<open>
  Truncating files and the file objects over them (\<^verbatim>\<open>fs/trunc.cc\<close>, \<^verbatim>\<open>fs/regfd.cc\<close>): \<^verbatim>\<open>truncate\<close> walks the tree of zones
  of \<open>Fs_Reg\<close> and gives every zone back.  The lemmas show that it gives back exactly the zones of the file.
\<close>

subsection \<open>Truncating\<close>

fun trunc_block :: "nat \<Rightarrow> zptr \<Rightarrow> reg \<Rightarrow> (int \<times> reg) option"
  and trunc_entries :: "nat \<Rightarrow> u32 \<Rightarrow> nat list \<Rightarrow> reg \<Rightarrow> (int \<times> reg) option" where
  "trunc_block 0 p r = None"
| "trunc_block (Suc n) p r =
     (if zget p r = 0 then Some (0, r)
      else case f_readb (bno_of (zget p r)) (r_fs r) of
        Inl e \<Rightarrow> Some (EIO, r)
      | Inr d \<Rightarrow> do {
          (e, r1) \<leftarrow> trunc_entries n (zget p r) [0..<256] r;
          if e \<noteq> 0 then Some (e, r1)
          else do {
            s2 \<leftarrow> freeb (bno_of (zget p r1)) (r_fs r1);
            Some (0, zset p 0 (r1\<lparr>r_fs := s2\<rparr>)) } })"
| "trunc_entries n z [] r = Some (0, r)"
| "trunc_entries n z (k # ks) r =
     (let p = PBlock z k in
      if n = 0 then
        if zget p r = 0 then trunc_entries n z ks r
        else do { s1 \<leftarrow> freeb (bno_of (zget p r)) (r_fs r); trunc_entries n z ks (zset p 0 (r\<lparr>r_fs := s1\<rparr>)) }
      else do {
        (e, r1) \<leftarrow> trunc_block n p r;
        if e \<noteq> 0 then Some (e, r1) else trunc_entries n z ks (zset p 0 r1) })"

definition trunc_direct :: "nat \<Rightarrow> reg \<Rightarrow> reg option" where
  "trunc_direct k r =
     (if zget (PInode k) r = 0 then Some r
      else do { s1 \<leftarrow> freeb (bno_of (zget (PInode k) r)) (r_fs r); Some (zset (PInode k) 0 (r\<lparr>r_fs := s1\<rparr>)) })"

definition inode_truncate :: "reg \<Rightarrow> (int \<times> reg) option" where
  "inode_truncate r =
     (if \<not> SISREG (i_mode (r_ino r)) \<and> \<not> SISDIR (i_mode (r_ino r)) then Some (EINVAL, r)
      else do {
        r0 \<leftarrow> foldM trunc_direct [0..<7] r;
        (e1, r1) \<leftarrow> trunc_block 1 (PInode 7) r0;
        if e1 \<noteq> 0 then Some (e1, r1) else do {
          (e2, r2) \<leftarrow> trunc_block 2 (PInode 8) r1;
          if e2 \<noteq> 0 then Some (e2, r2) else do {
            (e3, r3) \<leftarrow> trunc_block 3 (PInode 9) r2;
            if e3 \<noteq> 0 then Some (e3, r3)
            else Some (0, setdirty (r3\<lparr>r_ino := (r_ino r3)\<lparr>i_size := 0\<rparr>\<rparr>)) } } })"

subsection \<open>Open files\<close>

record regfd =
  d_flags :: u32
  d_curpos :: nat

definition EISDIR :: int where [errno_simps]: "EISDIR = -21"

definition openregfd :: "u32 \<Rightarrow> reg \<Rightarrow> (int \<times> regfd option \<times> reg) option" where
  "openregfd flags r =
     (let new = \<lambda>r1. (0, Some \<lparr>d_flags = flags, d_curpos = 0\<rparr>, r1) in
      if SISDIR (i_mode (r_ino r)) \<and> flags AND 2 \<noteq> 0 then Some (EISDIR, None, r)
      else if flags AND 512 \<noteq> 0 then do {
        (e, r1) \<leftarrow> inode_truncate r;
        Some (if e \<noteq> 0 then (e, None, r1) else new r1) }
      else Some (new r))"

definition regfd_read :: "nat \<Rightarrow> regfd \<Rightarrow> reg \<Rightarrow> (int \<times> u8 list \<times> regfd \<times> reg) option" where
  "regfd_read count d r = do {
     (e, bs, r1) \<leftarrow> inode_read (d_curpos d) count r;
     Some (e, bs, if e > 0 then d\<lparr>d_curpos := d_curpos d + nat e\<rparr> else d, r1) }"

definition regfd_write :: "(int \<Rightarrow> u8 list) \<Rightarrow> u8 list \<Rightarrow> regfd \<Rightarrow> reg \<Rightarrow> (int \<times> regfd \<times> reg) option" where
  "regfd_write junk buf d r = do {
     kassert (\<not> SISDIR (i_mode (r_ino r)));
     let d1 = (if d_flags d AND 8 \<noteq> 0 then d\<lparr>d_curpos := i_size (r_ino r)\<rparr> else d);
     (e, r1) \<leftarrow> inode_write junk (d_curpos d1) buf r;
     Some (e, if e > 0 then d1\<lparr>d_curpos := d_curpos d1 + nat e\<rparr> else d1, r1) }"

text \<open>\<^verbatim>\<open>off_t\<close> is unsigned, so \<^verbatim>\<open>newpos < 0\<close> is never true; the result is the position as an \<^verbatim>\<open>int\<close>.\<close>

definition regfd_lseek :: "u32 \<Rightarrow> int \<Rightarrow> regfd \<Rightarrow> reg \<Rightarrow> int \<times> regfd" where
  "regfd_lseek off whence d r =
     (let set_pos = \<lambda>p :: u32. (sint p, d\<lparr>d_curpos := unat p\<rparr>) in
      if whence = 0 then set_pos off
      else if whence = 1 then set_pos (of_nat (d_curpos d) + off)
      else if whence = 2 then set_pos (of_nat (i_size (r_ino r)) + off)
      else (EINVAL, d))"

subsection \<open>Pruning the tree\<close>

text \<open>\<open>prunes S r r'\<close>: the zones at the positions \<open>S\<close> were unlinked and freed, and the others stayed.\<close>

definition prunes :: "zpos set \<Rightarrow> reg \<Rightarrow> reg \<Rightarrow> bool" where
  "prunes S r r' \<longleftrightarrow> reg_ok r' \<and> frame r r' \<and> i_mode (r_ino r') = i_mode (r_ino r) \<and> i_size (r_ino r') = i_size (r_ino r) \<and>
     (\<forall>p. vpos p \<longrightarrow> nd r' p = (if p \<in> S then 0 else nd r p)) \<and>
     free_zones (r_fs r') = free_zones (r_fs r) \<union> zones_at S r"

lemma prunesD:
  assumes "prunes S r r'"
  shows "reg_ok r'" "i_mode (r_ino r') = i_mode (r_ino r)" "i_size (r_ino r') = i_size (r_ino r)"
    "vpos p \<Longrightarrow> nd r' p = (if p \<in> S then 0 else nd r p)" "free_zones (r_fs r') = free_zones (r_fs r) \<union> zones_at S r" "frame r r'"
  using assms unfolding prunes_def by blast+

lemma prunes_trans:
  assumes a: "prunes S r1 r2" and b: "prunes T r2 r3"
  shows "prunes (S \<union> T) r1 r3"
proof -
  have n2: "nd r2 p = (if p \<in> S then 0 else nd r1 p)" if "vpos p" for p by (rule prunesD(4) [OF a that])
  have "{p \<in> T. vpos p \<and> nd r2 p \<noteq> 0} = {p \<in> T - S. vpos p \<and> nd r1 p \<noteq> 0}" using n2 by (auto split: if_splits)
  then have "zones_at T r2 = zones_at (T - S) r1"
    unfolding zones_at_def using n2 by (auto intro!: image_cong)
  moreover have "zones_at S r1 \<union> zones_at (T - S) r1 = zones_at (S \<union> T) r1"
    unfolding zones_at_def image_Un [symmetric] by (rule arg_cong [of _ _ "(`) _"]) auto
  ultimately show ?thesis
    unfolding prunes_def
    using prunesD(1-3,5) [OF b] prunesD(2,3,5) [OF a] prunesD(4) [OF a] prunesD(4) [OF b] frame_trans [OF prunesD(6) [OF a] prunesD(6) [OF b]]
    by auto
qed

lemma prunes_cong: "prunes S r r' \<Longrightarrow> (\<And>p. vpos p \<Longrightarrow> nd r p \<noteq> 0 \<Longrightarrow> (p \<in> S) = (p \<in> T)) \<Longrightarrow> prunes T r r'"
proof -
  assume a: "prunes S r r'" "\<And>p. vpos p \<Longrightarrow> nd r p \<noteq> 0 \<Longrightarrow> (p \<in> S) = (p \<in> T)"
  have "{p \<in> S. vpos p \<and> nd r p \<noteq> 0} = {p \<in> T. vpos p \<and> nd r p \<noteq> 0}" using a(2) by blast
  then have "zones_at S r = zones_at T r" unfolding zones_at_def by (rule arg_cong)
  then show ?thesis unfolding prunes_def using prunesD(1-3,5,6) [OF a(1)] prunesD(4) [OF a(1)] a(2) by simp metis
qed

lemma prunes_refl: "reg_ok r \<Longrightarrow> prunes {} r r"
  by (simp add: prunes_def zones_at_def frame_refl)

lemma zset_length:
  "reg_ok r \<Longrightarrow> length (i_daddr (r_ino (zset p v r))) = 10 \<and> (\<forall>n. length (f_blk (r_fs (zset p v r)) n) = 1024)"
  using reg_okD(2,3) [of r] by (cases p) (simp_all add: zset_blk)

lemma freeb_imap: "freeb b s = Some s' \<Longrightarrow> f_imap s' = f_imap s \<and> f_ninode s' = f_ninode s"
  by (auto simp: freeb_def bind_eq_Some_conv Let_def split: if_splits option.splits)

text \<open>Clearing a position with nothing below it, its zone given back in \<open>s'\<close>.\<close>

lemma unlink_zone:
  assumes ok: "reg_ok r" and q: "reachable r q"
    and kids: "\<And>k. vpos (fst q, snd q @ [k]) \<Longrightarrow> nd r (fst q, snd q @ [k]) = 0"
    and s': "fs_ok s'" "f_blk s' = f_blk (r_fs r)" "f_bad s' = f_bad (r_fs r)" "f_datazone s' = f_datazone (r_fs r)"
      "f_nzone s' = f_nzone (r_fs r)" "free_zones s' = free_zones (r_fs r) \<union> zones_at {q} r"
      "f_imap s' = f_imap (r_fs r) \<and> f_ninode s' = f_ninode (r_fs r)"
  shows "prunes {q} r (zset (ptr_at r q) 0 (r\<lparr>r_fs := s'\<rparr>))"
proof -
  define r1 where "r1 = zset (ptr_at r q) 0 (r\<lparr>r_fs := s'\<rparr>)"
  have same: "f_blk (r_fs r1) = f_blk (r_fs (zset (ptr_at r q) 0 r))" "i_daddr (r_ino r1) = i_daddr (r_ino (zset (ptr_at r q) 0 r))"
    unfolding r1_def by (cases "ptr_at r q"; simp add: zset_def f_writeb_def s' fun_eq_iff)+
  then have "nd r1 = nd (zset (ptr_at r q) 0 r)" unfolding nd_def by simp
  with nd_set [OF ok q kids, of 0] have nd1: "nd r1 p = (if p = q then 0 else nd r p)" if "vpos p" for p
    using that by simp
  have fs1: "fs_ok (r_fs r1)" "free_zones (r_fs r1) = free_zones (r_fs r) \<union> zones_at {q} r" "f_bad (r_fs r1) = f_bad (r_fs r)"
    "f_datazone (r_fs r1) = f_datazone (r_fs r)" "f_nzone (r_fs r1) = f_nzone (r_fs r)"
    by (simp_all add: r1_def zset_fs s')
  have nf: "bno_of (nd r p) \<notin> zones_at {q} r" if p: "vpos p" "nd r p \<noteq> 0" "p \<noteq> q" for p
  proof
    assume "bno_of (nd r p) \<in> zones_at {q} r"
    then have "vpos q" "nd r p = nd r q" by (auto simp: zones_at_def)
    with reg_okD(6) [OF ok p(1) _ p(2)] p(3) show False by blast
  qed
  have "reg_ok r1"
    unfolding reg_ok_def
  proof (intro conjI allI impI)
    fix p p' assume a: "vpos p" "vpos p'" "nd r1 p \<noteq> 0" "nd r1 p = nd r1 p'"
    then have "nd r p \<noteq> 0" "nd r p = nd r p'" by (auto simp: nd1 split: if_splits)
    then show "p = p'" by (rule reg_okD(6) [OF ok a(1,2)])
  next
    fix p assume a: "vpos p" "nd r1 p \<noteq> 0"
    then have pq: "p \<noteq> q" "nd r p \<noteq> 0" "nd r1 p = nd r p" by (auto simp: nd1 split: if_splits)
    from reg_okD(5) [OF ok a(1) pq(2)] nf [OF a(1) pq(2,1)]
    show "int (unat (f_datazone (r_fs r1))) \<le> bno_of (nd r1 p)" "bno_of (nd r1 p) < int (unat (f_nzone (r_fs r1)))"
      "bno_of (nd r1 p) \<notin> free_zones (r_fs r1)"
      by (simp_all add: fs1 pq)
  qed (use fs1 same zset_length [OF ok] reg_okD(4) [OF ok] in simp_all)
  moreover have "frame r r1"
  proof -
    have z: "zones_at {q} r \<subseteq> file_zones r" by (auto simp: file_zones_def zones_at_def)
    have "n \<in> file_zones r" if "n \<in> file_zones r1" for n
      using that nd1 unfolding file_zones_iff by (metis (full_types))
    moreover have "f_blk (r_fs r1) n = f_blk (r_fs r) n" if n: "n \<notin> free_zones (r_fs r) \<union> file_zones r" for n
    proof (cases "ptr_at r q")
      case (PBlock z k)
      then have "z = nd r (fst q, butlast (snd q))" "snd q \<noteq> []" by (auto simp: ptr_at_def split: if_splits)
      moreover have "vpos (fst q, butlast (snd q))" using q by (auto simp: reachable_def vpos_def dest: in_set_butlastD)
      ultimately have "bno_of z \<in> file_zones r" using q unfolding file_zones_iff reachable_def by auto
      then show ?thesis using PBlock n same(1) by (auto simp: zset_blk)
    qed (simp add: same(1) zset_blk)
    moreover have "f_imap (r_fs r1) = f_imap (r_fs r)" "f_ninode (r_fs r1) = f_ninode (r_fs r)" using s'(7) by (simp_all add: r1_def zset_imap)
    ultimately show ?thesis using z by (auto simp: frame_def fs1)
  qed
  ultimately show ?thesis
    unfolding prunes_def r1_def [symmetric] using nd1 fs1(2) by (simp add: r1_def zset_fs)
qed

lemma clear_empty:
  assumes ok: "reg_ok r" and q: "reachable r q" "nd r q = 0"
  shows "prunes {} r (zset (ptr_at r q) 0 r)"
proof -
  have "zones_at {q} r = {}" using q(2) by (auto simp: zones_at_def)
  then have "prunes {q} r (zset (ptr_at r q) 0 (r\<lparr>r_fs := r_fs r\<rparr>))"
    using q reg_okD(1) [OF ok] by (intro unlink_zone [OF ok q(1)]) (simp_all add: nd_snoc)
  then have "prunes {q} r (zset (ptr_at r q) 0 r)" by simp
  then show ?thesis by (rule prunes_cong) (use q(2) in auto)
qed

lemma free_leaf:
  assumes ok: "reg_ok r" and q: "reachable r q" "nd r q \<noteq> 0"
    and kids: "\<And>k. vpos (fst q, snd q @ [k]) \<Longrightarrow> nd r (fst q, snd q @ [k]) = 0"
  obtains s' where "freeb (bno_of (nd r q)) (r_fs r) = Some s'" "prunes {q} r (zset (ptr_at r q) 0 (r\<lparr>r_fs := s'\<rparr>))"
proof -
  note res = that
  have v: "vpos q" using q(1) by (simp add: reachable_def)
  obtain s' where s': "freeb (bno_of (nd r q)) (r_fs r) = Some s'" "fs_ok s'" "f_blk s' = f_blk (r_fs r)" "f_bad s' = f_bad (r_fs r)"
    "f_datazone s' = f_datazone (r_fs r)" "f_nzone s' = f_nzone (r_fs r)"
    "free_zones s' = (if int (unat (f_datazone (r_fs r))) \<le> bno_of (nd r q) \<and> bno_of (nd r q) < int (unat (f_nzone (r_fs r)))
      then insert (bno_of (nd r q)) (free_zones (r_fs r)) else free_zones (r_fs r))"
    by (rule freeb_spec [OF reg_okD(1) [OF ok]])
  have fz: "free_zones s' = free_zones (r_fs r) \<union> zones_at {q} r"
  proof -
    have "{p \<in> {q}. vpos p \<and> nd r p \<noteq> 0} = {q}" using v q(2) by auto
    then show ?thesis using s'(7) reg_okD(5) [OF ok v q(2)] by (simp add: zones_at_def)
  qed
  show ?thesis by (rule res [OF s'(1)], rule unlink_zone [OF ok q(1) kids s'(2-6) fz freeb_imap [OF s'(1)]])
qed

text \<open>The positions at and below one.\<close>

definition subtree :: "zpos \<Rightarrow> zpos set" where
  "subtree q = {(fst q, snd q @ ks) |ks. True}"

lemma subtree_self [simp]: "q \<in> subtree q"
  by (cases q) (auto simp: subtree_def intro: exI [of _ "[]"])

lemma subtree_child: "vpos (i, js) \<Longrightarrow> vpos p \<Longrightarrow> p \<in> subtree (i, js) \<longleftrightarrow> p = (i, js) \<or> (\<exists>k<256. p \<in> subtree (i, js @ [k]))"
proof
  assume "vpos p" "p \<in> subtree (i, js)"
  then obtain ks where ks: "p = (i, js @ ks)" "vpos (i, js @ ks)" by (auto simp: subtree_def)
  then show "p = (i, js) \<or> (\<exists>k<256. p \<in> subtree (i, js @ [k]))" by (cases ks) (auto simp: subtree_def vpos_def)
qed (auto simp: subtree_def)

lemma not_below: "(i, js) \<notin> subtree (i, js @ [k])"
  by (auto simp: subtree_def)

lemma nd_below_zero: "nd r (i, js) = 0 \<Longrightarrow> p \<in> subtree (i, js) \<Longrightarrow> nd r p = 0"
proof -
  have "nd r (i, js) = 0 \<Longrightarrow> nd r (i, js @ ks) = 0" for ks
    by (induction ks rule: rev_induct) (simp_all add: nd_snoc flip: append_assoc)
  then show "nd r (i, js) = 0 \<Longrightarrow> p \<in> subtree (i, js) \<Longrightarrow> nd r p = 0" by (auto simp: subtree_def)
qed

lemma prunes_nothing: "reg_ok r \<Longrightarrow> nd r q = 0 \<Longrightarrow> prunes (subtree q) r r"
  by (rule prunes_cong [OF prunes_refl]) (use nd_below_zero [of r "fst q" "snd q"] in auto)

definition truncates :: "nat \<Rightarrow> bool" where
  "truncates n \<longleftrightarrow> (\<forall>r i js. reg_ok r \<longrightarrow> reachable r (i, js) \<longrightarrow> length js + n = depth i \<longrightarrow>
     (\<exists>r'. trunc_block n (ptr_at r (i, js)) r = Some (0, r') \<and> prunes (subtree (i, js)) r r'))"

text \<open>One entry of an index block, as the loop treats it.\<close>

lemma trunc_entry:
  assumes ok: "reg_ok r" and v: "vpos (i, js)" and z: "nd r (i, js) \<noteq> 0" and d: "length js + Suc n = depth i" and k: "k < 256"
    and t: "0 < n \<Longrightarrow> truncates n"
  shows "\<exists>r'. (\<forall>ks. trunc_entries n (nd r (i, js)) (k # ks) r = trunc_entries n (nd r (i, js)) ks r') \<and>
     prunes (subtree (i, js @ [k])) r r'"
proof -
  let ?c = "(i, js @ [k])"
  have vc: "vpos ?c" using v d k by (auto simp: vpos_def)
  then have rc: "reachable r ?c" using z by (simp add: reachable_def)
  have ptr: "PBlock (nd r (i, js)) k = ptr_at r ?c" by (simp add: ptr_at_simps)
  note zg = zget_ptr_at [OF rc]
  show ?thesis
  proof (cases "n = 0")
    case True
    show ?thesis
    proof (cases "nd r ?c = 0")
      case n0: True
      then show ?thesis using True zg prunes_nothing [OF ok n0] by (intro exI [of _ r]) (simp add: ptr)
    next
      case False
      have leaf: "\<not> vpos (i, (js @ [k]) @ [k'])" for k' using d True by (simp add: vpos_def)
      obtain s' where s': "freeb (bno_of (nd r ?c)) (r_fs r) = Some s'" "prunes {?c} r (zset (ptr_at r ?c) 0 (r\<lparr>r_fs := s'\<rparr>))"
        by (rule free_leaf [OF ok rc False]) (use leaf in simp_all)
      have "prunes (subtree ?c) r (zset (ptr_at r ?c) 0 (r\<lparr>r_fs := s'\<rparr>))"
      proof (rule prunes_cong [OF s'(2)])
        fix p assume "vpos p"
        moreover have "depth i = Suc (length js)" using d True by simp
        ultimately show "(p \<in> {?c}) = (p \<in> subtree ?c)" by (auto simp: subtree_def vpos_def)
      qed
      then show ?thesis using True False zg s'(1) by (intro exI conjI) (simp_all add: ptr)
    qed
  next
    case False
    then obtain r1 where r1: "trunc_block n (ptr_at r ?c) r = Some (0, r1)" "prunes (subtree ?c) r r1"
      using t ok rc d unfolding truncates_def by fastforce
    note ok1 = prunesD(1) [OF r1(2)] and nd1 = prunesD(4) [OF r1(2)]
    have q1: "nd r1 (i, js) = nd r (i, js)" using nd1 [OF v] not_below by simp
    then have rc1: "reachable r1 ?c" using vc z by (simp add: reachable_def)
    have p1: "ptr_at r1 ?c = ptr_at r ?c" using q1 by (simp add: ptr_at_simps)
    have "prunes {} r1 (zset (ptr_at r1 ?c) 0 r1)" by (rule clear_empty [OF ok1 rc1]) (simp add: nd1 [OF vc])
    from prunes_trans [OF r1(2) this] show ?thesis
      using False r1(1) by (intro exI [of _ "zset (ptr_at r ?c) 0 r1"]) (simp add: ptr p1)
  qed
qed

lemma trunc_entries_ok:
  assumes "reg_ok r" "vpos (i, js)" "nd r (i, js) \<noteq> 0" "length js + Suc n = depth i" "\<forall>k\<in>set ks. k < 256"
    "0 < n \<Longrightarrow> truncates n"
  shows "\<exists>r'. trunc_entries n (nd r (i, js)) ks r = Some (0, r') \<and> prunes (\<Union>k\<in>set ks. subtree (i, js @ [k])) r r'"
  using assms
proof (induction ks arbitrary: r)
  case Nil
  then show ?case by (simp add: prunes_refl)
next
  case (Cons k ks)
  obtain r1 where r1: "\<forall>ks. trunc_entries n (nd r (i, js)) (k # ks) r = trunc_entries n (nd r (i, js)) ks r1"
    "prunes (subtree (i, js @ [k])) r r1"
    using trunc_entry [OF Cons.prems(1-4) _ Cons.prems(6), of k] Cons.prems(5) by auto
  have q1: "nd r1 (i, js) = nd r (i, js)" using prunesD(4) [OF r1(2) Cons.prems(2)] not_below by simp
  obtain r2 where r2: "trunc_entries n (nd r1 (i, js)) ks r1 = Some (0, r2)" "prunes (\<Union>k\<in>set ks. subtree (i, js @ [k])) r1 r2"
    using Cons.IH [OF prunesD(1) [OF r1(2)] Cons.prems(2) _ Cons.prems(4)] Cons.prems(3,5,6) q1 by auto
  show ?case using r1(1) r2(1) q1 prunes_trans [OF r1(2) r2(2)] by (intro exI [of _ r2]) simp
qed

lemma trunc_block_step:
  assumes t: "0 < n \<Longrightarrow> truncates n"
  shows "truncates (Suc n)"
  unfolding truncates_def
proof (intro allI impI)
  fix r i js assume a: "reg_ok r" "reachable r (i, js)" "length js + Suc n = depth i"
  let ?q = "(i, js)" and ?S = "\<Union>k\<in>{0..<256}. subtree (i, js @ [k])"
  have v: "vpos ?q" using a(2) by (simp add: reachable_def)
  note zg = zget_ptr_at [OF a(2)]
  show "\<exists>r'. trunc_block (Suc n) (ptr_at r ?q) r = Some (0, r') \<and> prunes (subtree ?q) r r'"
  proof (cases "nd r ?q = 0")
    case True
    then show ?thesis using zg prunes_nothing [OF a(1) True] by simp
  next
    case False
    obtain r1 where r1: "trunc_entries n (nd r ?q) [0..<256] r = Some (0, r1)" "prunes ?S r r1"
      using trunc_entries_ok [OF a(1) v False a(3) _ t, of "[0..<256]"] by auto
    note ok1 = prunesD(1) [OF r1(2)] and nd1 = prunesD(4) [OF r1(2)]
    have up: "(i, js') \<notin> ?S" if "length js' \<le> length js" for js' using that by (auto simp: subtree_def)
    have q1: "nd r1 ?q = nd r ?q" using nd1 [OF v] up by simp
    have "nd r1 (i, butlast js) = nd r (i, butlast js)"
    proof -
      have "vpos (i, butlast js)" using v by (auto simp: vpos_def dest: in_set_butlastD)
      then show ?thesis using nd1 up [of "butlast js"] by simp
    qed
    then have p1: "ptr_at r1 ?q = ptr_at r ?q" "reachable r1 ?q" using a(2) by (auto simp: ptr_at_def reachable_def)
    obtain s' where s': "freeb (bno_of (nd r1 ?q)) (r_fs r1) = Some s'" "prunes {?q} r1 (zset (ptr_at r1 ?q) 0 (r1\<lparr>r_fs := s'\<rparr>))"
    proof (rule free_leaf [OF ok1 p1(2)])
      show "nd r1 ?q \<noteq> 0" using q1 False by simp
      show "nd r1 (fst ?q, snd ?q @ [k]) = 0" if "vpos (fst ?q, snd ?q @ [k])" for k
      proof -
        have "k < 256" using vpos_snocD [of i js k] that by simp
        then have "(i, js @ [k]) \<in> ?S" by (intro UN_I [of k]) simp_all
        then show ?thesis using nd1 [of "(i, js @ [k])"] that by simp
      qed
    qed (rule that)
    have "trunc_block (Suc n) (ptr_at r ?q) r = Some (0, zset (ptr_at r1 ?q) 0 (r1\<lparr>r_fs := s'\<rparr>))"
      using zg False f_readb_ok [OF a(1)] r1(1) zget_ptr_at [OF p1(2)] s'(1) by (simp add: p1(1))
    moreover have "prunes (subtree ?q) r (zset (ptr_at r1 ?q) 0 (r1\<lparr>r_fs := s'\<rparr>))"
      by (rule prunes_cong [OF prunes_trans [OF r1(2) s'(2)]]) (use subtree_child [OF v] in auto)
    ultimately show ?thesis by blast
  qed
qed

lemma trunc_block_ok: "truncates (Suc n)"
  by (induction n) (use trunc_block_step in auto)

lemma trunc_slot:
  assumes "reg_ok r" "i < 10" "depth i = Suc n"
  shows "\<exists>r'. trunc_block (Suc n) (PInode i) r = Some (0, r') \<and> prunes (subtree (i, [])) r r'"
proof -
  have "reachable r (i, [])" using assms(2) by (simp add: reachable_def vpos_def)
  then have "\<exists>r'. trunc_block (Suc n) (ptr_at r (i, [])) r = Some (0, r') \<and> prunes (subtree (i, [])) r r'"
    using trunc_block_ok [of n, unfolded truncates_def, rule_format, OF assms(1)] assms(3) by (simp del: trunc_block.simps)
  then show ?thesis unfolding ptr_at_simps .
qed

lemma trunc_direct_ok:
  assumes ok: "reg_ok r" and k: "k < 7"
  obtains r' where "trunc_direct k r = Some r'" "prunes (subtree (k, [])) r r'"
proof -
  note res = that
  let ?q = "(k, []) :: zpos"
  have rc: "reachable r ?q" and d: "depth k = 0" using k by (simp_all add: reachable_def vpos_def depth_def)
  have zg: "zget (PInode k) r = nd r ?q" using zget_ptr_at [OF rc] by (simp add: ptr_at_simps)
  show ?thesis
  proof (cases "nd r ?q = 0")
    case True
    then show ?thesis using zg by (intro res [of r]) (simp_all add: trunc_direct_def prunes_nothing [OF ok])
  next
    case False
    obtain s' where s': "freeb (bno_of (nd r ?q)) (r_fs r) = Some s'" "prunes {?q} r (zset (ptr_at r ?q) 0 (r\<lparr>r_fs := s'\<rparr>))"
      by (rule free_leaf [OF ok rc False]) (use d in \<open>simp_all add: vpos_def\<close>)
    have "prunes (subtree ?q) r (zset (ptr_at r ?q) 0 (r\<lparr>r_fs := s'\<rparr>))"
      by (rule prunes_cong [OF s'(2)]) (use d in \<open>auto simp: subtree_def vpos_def\<close>)
    then show ?thesis using zg s'(1) False by (intro res) (simp_all add: trunc_direct_def ptr_at_simps)
  qed
qed

lemma trunc_directs_ok:
  "reg_ok r \<Longrightarrow> \<forall>k\<in>set ks. k < 7 \<Longrightarrow> \<exists>r'. foldM trunc_direct ks r = Some r' \<and> prunes (\<Union>k\<in>set ks. subtree (k, [])) r r'"
proof (induction ks arbitrary: r)
  case (Cons k ks)
  obtain r1 where r1: "trunc_direct k r = Some r1" "prunes (subtree (k, [])) r r1"
    using Cons.prems by (auto intro: trunc_direct_ok [of r k])
  obtain r2 where "foldM trunc_direct ks r1 = Some r2" "prunes (\<Union>k\<in>set ks. subtree (k, [])) r1 r2"
    using Cons.IH [OF prunesD(1) [OF r1(2)]] Cons.prems(2) by auto
  with r1 prunes_trans [OF r1(2)] show ?case by auto
qed (simp add: prunes_refl)

lemma inode_truncate_ok:
  assumes ok: "reg_ok r" and f: "isfile r"
  obtains r1 where "inode_truncate r = Some (0, setdirty (r1\<lparr>r_ino := (r_ino r1)\<lparr>i_size := 0\<rparr>\<rparr>))" "prunes UNIV r r1"
proof -
  note res = that
  obtain r0 where r0: "foldM trunc_direct [0..<7] r = Some r0" "prunes (\<Union>k\<in>set [0..<7]. subtree (k, [])) r r0"
    using trunc_directs_ok [OF ok, of "[0..<7]"] by auto
  obtain r1 where r1: "trunc_block (Suc 0) (PInode 7) r0 = Some (0, r1)" "prunes (subtree (7, [])) r0 r1"
    using trunc_slot [OF prunesD(1) [OF r0(2)], of 7 0] by (auto simp: depth_def simp del: trunc_block.simps)
  obtain r2 where r2: "trunc_block (Suc 1) (PInode 8) r1 = Some (0, r2)" "prunes (subtree (8, [])) r1 r2"
    using trunc_slot [OF prunesD(1) [OF r1(2)], of 8 1] by (auto simp: depth_def simp del: trunc_block.simps)
  obtain r3 where r3: "trunc_block (Suc 2) (PInode 9) r2 = Some (0, r3)" "prunes (subtree (9, [])) r2 r3"
    using trunc_slot [OF prunesD(1) [OF r2(2)], of 9 2] by (auto simp: depth_def simp del: trunc_block.simps)
  have n: "Suc 0 = 1" "Suc 1 = 2" "Suc 2 = 3" by simp_all
  show ?thesis
  proof (rule res [of r3])
    show "inode_truncate r = Some (0, setdirty (r3\<lparr>r_ino := (r_ino r3)\<lparr>i_size := 0\<rparr>\<rparr>))"
      using f r0(1) r1(1) r2(1) r3(1) unfolding inode_truncate_def isfile_def n by auto
    have slot: "p \<in> subtree (fst p, [])" for p by (cases p) (auto simp: subtree_def)
    have "fst p \<in> set [0..<7] \<or> fst p = 7 \<or> fst p = 8 \<or> fst p = 9" if "vpos p" for p using that by (auto simp: vpos_def)
    then show "prunes UNIV r r3"
      by (intro prunes_cong [OF prunes_trans [OF prunes_trans [OF prunes_trans [OF r0(2) r1(2)] r2(2)] r3(2)]])
        (use slot in \<open>metis UNIV_I UN_iff UnI1 UnI2\<close>)
  qed
qed

subsection \<open>Properties\<close>

text \<open>
  C8: \<^verbatim>\<open>inode_t::truncate\<close> on a well-formed file always succeeds.  Afterwards the size is 0, every pointer of the
  inode is 0, the file still is well-formed, and the free zones are exactly those that were free before and those the
  file had, its index blocks included: no zone leaks and none of another file is freed.
\<close>

theorem truncate_frees_exactly:
  assumes "reg_ok r" "isfile r"
  shows "\<exists>r'. inode_truncate r = Some (0, r') \<and> reg_ok r' \<and> i_size (r_ino r') = 0 \<and> i_daddr (r_ino r') = replicate 10 0 \<and>
     file_zones r' = {} \<and> free_zones (r_fs r') = free_zones (r_fs r) \<union> file_zones r \<and>
     free_zones (r_fs r) \<inter> file_zones r = {} \<and> i_state (r_ino r') = IDIRTY"
proof -
  obtain r1 where r1: "inode_truncate r = Some (0, setdirty (r1\<lparr>r_ino := (r_ino r1)\<lparr>i_size := 0\<rparr>\<rparr>))" "prunes UNIV r r1"
    by (rule inode_truncate_ok [OF assms])
  let ?r = "setdirty (r1\<lparr>r_ino := (r_ino r1)\<lparr>i_size := 0\<rparr>\<rparr>)"
  note c = reg_ok_cong [OF prunesD(1) [OF r1(2)], of ?r]
  have n0: "nd r1 p = 0" if "vpos p" for p using prunesD(4) [OF r1(2) that] by simp
  have "i_daddr (r_ino r1) = replicate 10 0"
  proof (rule nth_equalityI)
    fix k assume "k < length (i_daddr (r_ino r1))"
    then have "k < 10" by (simp add: reg_okD(2) [OF prunesD(1) [OF r1(2)]])
    then show "i_daddr (r_ino r1) ! k = replicate 10 0 ! k" using n0 [of "(k, [])"] by (simp add: nd_Nil vpos_def)
  qed (simp add: reg_okD(2) [OF prunesD(1) [OF r1(2)]])
  moreover have "file_zones ?r = {}" using n0 c(2) by (auto simp: file_zones_def zones_at_def setdirty_def)
  moreover have "free_zones (r_fs r) \<inter> file_zones r = {}"
    using reg_okD(5) [OF assms(1)] by (auto simp: file_zones_def zones_at_def)
  ultimately show ?thesis
    using r1(1) c(1) prunesD(5) [OF r1(2)] by (intro exI [of _ ?r]) (simp add: setdirty_def file_zones_def)
qed

subsection \<open>Other files\<close>

text \<open>Another inode on the same file system.\<close>

definition other :: "reg \<Rightarrow> inode \<Rightarrow> reg" where
  "other r i = r\<lparr>r_ino := i\<rparr>"

definition spared :: "inode \<Rightarrow> reg \<Rightarrow> reg \<Rightarrow> bool" where
  "spared i r r' \<longleftrightarrow> reg_ok (other r' i) \<and> file_zones (other r' i) = file_zones (other r i) \<and>
     contents (other r' i) = contents (other r i) \<and> file_zones r' \<inter> file_zones (other r' i) = {}"

lemma other_simps [simp]: "r_fs (other r i) = r_fs r" "r_ino (other r i) = i"
  by (simp_all add: other_def)

lemma frame_keeps:
  assumes ok: "reg_ok (other r i)" and d: "file_zones r \<inter> file_zones (other r i) = {}" and f: "frame r r'"
    and p: "vpos p" "nd (other r i) p \<noteq> 0"
  shows "bno_of (nd (other r i) p) \<notin> free_zones (r_fs r) \<union> file_zones r"
    "f_blk (r_fs r') (bno_of (nd (other r i) p)) = f_blk (r_fs r) (bno_of (nd (other r i) p))"
proof -
  have "bno_of (nd (other r i) p) \<in> file_zones (other r i)" using p unfolding file_zones_iff by blast
  then show out: "bno_of (nd (other r i) p) \<notin> free_zones (r_fs r) \<union> file_zones r" using reg_okD(5) [OF ok p] d by auto
  then show "f_blk (r_fs r') (bno_of (nd (other r i) p)) = f_blk (r_fs r) (bno_of (nd (other r i) p))" using f by (auto simp: frame_def)
qed

lemma frame_other:
  assumes ok: "reg_ok (other r i)" and d: "file_zones r \<inter> file_zones (other r i) = {}" and f: "frame r r'" and ok': "reg_ok r'"
  shows "spared i r r'"
proof -
  note out = frame_keeps(1) [OF ok d f] and blk = frame_keeps(2) [OF ok d f]
  have nd': "nd (other r' i) p = nd (other r i) p" if "vpos p" for p
    by (rule nd_cong [OF _ _ that]) (simp_all add: blk)
  have z: "file_zones (other r' i) = file_zones (other r i)" by (rule file_zones_cong) (rule nd')
  have "reg_ok (other r' i)"
    unfolding reg_ok_def other_simps
  proof (intro conjI allI impI)
    fix p assume p: "vpos p" "nd (other r' i) p \<noteq> 0"
    then have n: "nd (other r i) p \<noteq> 0" using nd' by simp
    show "bno_of (nd (other r' i) p) \<notin> free_zones (r_fs r')" using out [OF p(1) n] f nd' [OF p(1)] by (auto simp: frame_def)
    show "int (unat (f_datazone (r_fs r'))) \<le> bno_of (nd (other r' i) p)" "bno_of (nd (other r' i) p) < int (unat (f_nzone (r_fs r')))"
      using reg_okD(5) [OF ok p(1) n] f nd' [OF p(1)] by (simp_all add: frame_def)
    fix p' assume p': "vpos p'" "nd (other r' i) p = nd (other r' i) p'"
    then show "p = p'" using nd' p(1) by (intro reg_okD(6) [OF ok p(1) p'(1) n]) simp
  qed (use reg_okD(1,3,4) [OF ok'] reg_okD(2) [OF ok] in simp_all)
  moreover have "contents (other r' i) = contents (other r i)"
  proof -
    have v: "vpos (lpos l)" for l using full_lpos by (simp add: full_def)
    have "fbyte (other r' i) x = fbyte (other r i) x" for x
      using nd' [OF v] blk [OF v] by (simp add: fbyte_def Let_def)
    then show ?thesis by (simp add: contents_def)
  qed
  moreover have "file_zones r' \<inter> file_zones (other r i) = {}"
  proof -
    have "x \<notin> free_zones (r_fs r) \<union> file_zones r" if "x \<in> file_zones (other r i)" for x using that out unfolding file_zones_iff by blast
    then show ?thesis using f by (auto simp: frame_def)
  qed
  ultimately show ?thesis using z by (simp add: spared_def)
qed

text \<open>
  C11: Files do not disturb each other.  Let two files of one file system have no zone in common.  Whatever is written
  to the first, also when the disk gets full, and when it is truncated, the second keeps its contents, its zones and its
  well-formedness, and the two still have no zone in common.
\<close>

theorem files_isolated:
  assumes "reg_ok r" "isfile r" "reg_ok (other r i)" "file_zones r \<inter> file_zones (other r i) = {}"
    "pos + length buf < 2 ^ 32" "\<forall>n. length (junk n) = 1024"
  shows "(\<exists>e r'. inode_write junk pos buf r = Some (e, r') \<and> spared i r r') \<and> (\<exists>r'. inode_truncate r = Some (0, r') \<and> spared i r r')"
proof
  note fo = frame_other [OF assms(3,4)]
  show "\<exists>e r'. inode_write junk pos buf r = Some (e, r') \<and> spared i r r'"
    using assms(1,2,5,6)
  proof (cases rule: inode_write_ok)
    case (full r')
    then show ?thesis using fo [of r'] by auto
  next
    case (stored r')
    then show ?thesis using fo [of r'] by auto
  qed
  obtain r1 where r1: "inode_truncate r = Some (0, setdirty (r1\<lparr>r_ino := (r_ino r1)\<lparr>i_size := 0\<rparr>\<rparr>))" "prunes UNIV r r1"
    by (rule inode_truncate_ok [OF assms(1,2)])
  let ?r = "setdirty (r1\<lparr>r_ino := (r_ino r1)\<lparr>i_size := 0\<rparr>\<rparr>)"
  have "frame r ?r" by (rule frame_trans [OF prunesD(6) [OF r1(2)] frame_same]) (simp_all add: setdirty_def)
  moreover have "reg_ok ?r" by (rule reg_ok_cong(1) [OF prunesD(1) [OF r1(2)]]) (simp_all add: setdirty_def)
  ultimately show "\<exists>r'. inode_truncate r = Some (0, r') \<and> spared i r r'" using r1(1) fo [of ?r] by auto
qed

theorem truncate_witness:
  "\<exists>r'. inode_truncate (demo_file True) = Some (0, r') \<and> i_size (r_ino r') = 0 \<and> i_daddr (r_ino r') = replicate 10 0 \<and>
     free_zones (r_fs r') = {10, 11}"
proof -
  have "vpos (0, [])" by (simp add: vpos_def)
  then have "{p. vpos p \<and> nd (demo_file True) p \<noteq> 0} = {(0, [])}" by (auto simp: demo_nd split: if_splits)
  then have "file_zones (demo_file True) = {10}"
    using demo_nd [of "(0, [])" True] by (simp add: file_zones_def zones_at_def vpos_def bno_of_def)
  with truncate_frees_exactly [OF demo_file_ok, of True] show ?thesis by (auto simp: demo_fs_ok)
qed

text \<open>An empty file beside the one that has zone 10.\<close>

definition demo_empty :: reg where
  "demo_empty = other (demo_file True) (r_ino (demo_file False))"

lemma demo_empty_ok: "reg_ok demo_empty" "isfile demo_empty" "file_zones demo_empty = {}"
proof -
  have "nd demo_empty p = 0" if "vpos p" for p
  proof -
    have "i_daddr (r_ino demo_empty) ! fst p = 0"
      using that by (cases p; cases "fst p") (simp_all add: demo_empty_def other_def demo_file_def vpos_def)
    then show ?thesis by (simp add: nd_def)
  qed
  then show "reg_ok demo_empty" "file_zones demo_empty = {}"
    using demo_file_ok(1) [of True] by (auto simp: reg_ok_def file_zones_iff demo_empty_def other_def) (simp add: demo_file_def)
  show "isfile demo_empty" using demo_file_ok(2) [of False] by (simp add: isfile_def demo_empty_def other_def)
qed

theorem files_isolated_witness:
  "\<exists>e r'. inode_write (\<lambda>_. replicate 1024 0) 5 [1, 2] demo_empty = Some (e, r') \<and> spared (r_ino (demo_file True)) demo_empty r'"
proof -
  have o: "other demo_empty (r_ino (demo_file True)) = demo_file True" by (simp add: demo_empty_def other_def)
  have "reg_ok (other demo_empty (r_ino (demo_file True)))" unfolding o by (rule demo_file_ok)
  from files_isolated [OF demo_empty_ok(1,2) this, of 5 "[1, 2]" "\<lambda>_. replicate 1024 0"] show ?thesis
    using demo_empty_ok(3) by simp
qed

end
