(* ===== verification/Lib_String.thy ===== *)
theory Lib_String
  imports Prelude
begin

text \<open>
  String and memory routines (\<^verbatim>\<open>lib/string.cc\<close>, \<^verbatim>\<open>lib/string.h\<close>).  Memory is a function from addresses to bytes; a
  loop that runs to a terminating 0 is a partial function, since there may be none.  The path scanner
  \<^verbatim>\<open>scanstr_t\<close> keeps its copy of the string in a list without the final 0, and its pointers are offsets into it.
\<close>

type_synonym mem = "nat \<Rightarrow> u8"

subsection \<open>Strings in memory\<close>

partial_function (option) strcpy :: "nat \<Rightarrow> nat \<Rightarrow> mem \<Rightarrow> mem option" where
  "strcpy dst src m =
     (let m1 = m(dst := m src) in if m1 dst = 0 then Some m1 else strcpy (dst + 1) (src + 1) m1)"

text \<open>\<^verbatim>\<open>strncpy\<close> stops at the 0 and does not fill up the rest.\<close>

primrec strncpy :: "nat \<Rightarrow> nat \<Rightarrow> nat \<Rightarrow> mem \<Rightarrow> mem" where
  "strncpy dst src 0 m = m"
| "strncpy dst src (Suc n) m =
     (let m1 = m(dst := m src) in if m1 dst = 0 then m1 else strncpy (dst + 1) (src + 1) n m1)"

partial_function (option) strend :: "nat \<Rightarrow> mem \<Rightarrow> nat option" where
  "strend s m = (if m s = 0 then Some s else strend (s + 1) m)"

definition strcat :: "nat \<Rightarrow> nat \<Rightarrow> mem \<Rightarrow> mem option" where
  "strcat dst src m = do { d \<leftarrow> strend dst m; strcpy d src m }"

definition strlen :: "nat \<Rightarrow> mem \<Rightarrow> nat option" where
  "strlen s m = map_option (\<lambda>t. t - s) (strend s m)"

partial_function (option) strchr :: "nat \<Rightarrow> u8 \<Rightarrow> mem \<Rightarrow> nat option option" where
  "strchr s c m = (if m s = 0 then Some None else if m s = c then Some (Some s) else strchr (s + 1) c m)"

fun strrchr_loop :: "nat \<Rightarrow> nat \<Rightarrow> u8 \<Rightarrow> mem \<Rightarrow> nat option" where
  "strrchr_loop s 0 c m = None"
| "strrchr_loop s (Suc k) c m = (if m (s + k) = c then Some (s + k) else strrchr_loop s k c m)"

definition strrchr :: "nat \<Rightarrow> u8 \<Rightarrow> mem \<Rightarrow> nat option option" where
  "strrchr s c m = map_option (\<lambda>r. strrchr_loop s (r - s) c m) (strend s m)"

text \<open>\<^verbatim>\<open>char\<close> is signed, and so is the difference.\<close>

partial_function (option) strcmp :: "nat \<Rightarrow> nat \<Rightarrow> mem \<Rightarrow> int option" where
  "strcmp src dst m =
     (if m src \<noteq> 0 \<and> m dst \<noteq> 0 \<and> m src = m dst then strcmp (src + 1) (dst + 1) m else Some (sint (m src) - sint (m dst)))"

subsection \<open>Blocks of memory\<close>

primrec memmove_up :: "nat \<Rightarrow> nat \<Rightarrow> nat \<Rightarrow> mem \<Rightarrow> mem" where
  "memmove_up d s 0 m = m"
| "memmove_up d s (Suc n) m = memmove_up (d + 1) (s + 1) n (m(d := m s))"

primrec memmove_down :: "nat \<Rightarrow> nat \<Rightarrow> nat \<Rightarrow> mem \<Rightarrow> mem" where
  "memmove_down d s 0 m = m"
| "memmove_down d s (Suc n) m = memmove_down d s n (m(d + n := m (s + n)))"

definition memmove :: "nat \<Rightarrow> nat \<Rightarrow> nat \<Rightarrow> mem \<Rightarrow> mem" where
  "memmove d s n m = (if d \<le> s then memmove_up d s n m else memmove_down d s n m)"

primrec memset :: "nat \<Rightarrow> u8 \<Rightarrow> nat \<Rightarrow> mem \<Rightarrow> mem" where
  "memset p v 0 m = m"
| "memset p v (Suc n) m = memset (p + 1) v n (m(p := v))"

primrec memcpy :: "nat \<Rightarrow> nat \<Rightarrow> nat \<Rightarrow> mem \<Rightarrow> mem" where
  "memcpy d s 0 m = m"
| "memcpy d s (Suc n) m = memcpy (d + 1) (s + 1) n (m(d := m s))"

subsection \<open>Tokens\<close>

record scanstr =
  ss_room :: "u8 list"
  ss_cur :: nat
  ss_nlefttok :: int

text \<open>Every separator becomes 0; the result counts the changes from separator to token.\<close>

fun toknum :: "u8 list \<Rightarrow> bool \<Rightarrow> int \<Rightarrow> u8 list \<Rightarrow> u8 list \<times> int" where
  "toknum sep state cnt [] = ([], cnt)"
| "toknum sep state cnt (c # str) =
     (let issep = c \<in> set sep;
          (str', r) = toknum sep (\<not> issep) (if \<not> state \<and> \<not> issep then cnt + 1 else cnt) str
      in ((if issep then 0 else c) # str', r))"

function skiptok :: "u8 list \<Rightarrow> nat \<Rightarrow> nat" where
  "skiptok room cur = (if cur < length room \<and> room ! cur \<noteq> 0 then skiptok room (cur + 1) else cur)"
  by auto
termination
  by (relation "measure (\<lambda>(room, cur). length room - cur)") auto

function skipsep :: "u8 list \<Rightarrow> nat \<Rightarrow> nat" where
  "skipsep room cur = (if cur < length room \<and> room ! cur = 0 then skipsep room (cur + 1) else cur)"
  by auto
termination
  by (relation "measure (\<lambda>(room, cur). length room - cur)") auto

declare skiptok.simps [simp del] skipsep.simps [simp del]

definition SIZE :: nat where "SIZE = 256"
definition PAGELIMIT :: nat where "PAGELIMIT = 4096"

text \<open>A string of a page or more leaves the scanner uninitialised: \<open>None\<close>.\<close>

definition scanstr_ctor :: "u8 list \<Rightarrow> u8 list \<Rightarrow> scanstr option" where
  "scanstr_ctor str sep =
     (if length str < SIZE \<or> length str < PAGELIMIT then
        let (room, n) = toknum sep False 0 str in Some \<lparr>ss_room = room, ss_cur = skipsep room 0, ss_nlefttok = n\<rparr>
      else None)"

definition ss_more :: "scanstr \<Rightarrow> bool" where
  "ss_more s \<longleftrightarrow> ss_cur s < length (ss_room s)"

definition ss_curtok :: "scanstr \<Rightarrow> u8 list" where
  "ss_curtok s = takeWhile (\<lambda>c. c \<noteq> 0) (drop (ss_cur s) (ss_room s))"

definition ss_next :: "scanstr \<Rightarrow> scanstr" where
  "ss_next s = s\<lparr>ss_cur := skipsep (ss_room s) (skiptok (ss_room s) (ss_cur s)), ss_nlefttok := ss_nlefttok s - 1\<rparr>"

text \<open>\<^verbatim>\<open>foreachtok\<close>, collecting what the body sees.\<close>

partial_function (option) scan_all :: "scanstr \<Rightarrow> (u8 list \<times> int) list option" where
  "scan_all s = (if ss_more s then do { rest \<leftarrow> scan_all (ss_next s); Some ((ss_curtok s, ss_nlefttok s) # rest) } else Some [])"

subsection \<open>Memory blocks\<close>

definition copied :: "nat \<Rightarrow> nat \<Rightarrow> nat \<Rightarrow> mem \<Rightarrow> mem" where
  "copied d s n m = (\<lambda>a. if d \<le> a \<and> a < d + n then m (s + (a - d)) else m a)"

lemma memmove_up_copied: "d \<le> s \<Longrightarrow> memmove_up d s n m = copied d s n m"
proof (induction n arbitrary: d s m)
  case (Suc n)
  then show ?case by (auto simp: copied_def fun_eq_iff Suc_diff_Suc)
qed (auto simp: copied_def fun_eq_iff)

lemma memmove_down_copied: "s < d \<Longrightarrow> memmove_down d s n m = copied d s n m"
proof (induction n arbitrary: m)
  case (Suc n)
  then show ?case by (auto simp: copied_def fun_eq_iff Suc_diff_Suc)
qed (auto simp: copied_def fun_eq_iff)

lemma memcpy_up: "memcpy d s n m = memmove_up d s n m"
  by (induction n arbitrary: d s m) simp_all

lemma memcpy_apart: "s + n \<le> d \<Longrightarrow> memcpy d s n m = copied d s n m"
proof (induction n arbitrary: d s m)
  case (Suc n)
  then show ?case by (auto simp: copied_def fun_eq_iff Suc_diff_Suc)
qed (auto simp: copied_def fun_eq_iff)

lemma memset_eq: "memset p v n m = (\<lambda>a. if p \<le> a \<and> a < p + n then v else m a)"
  by (induction n arbitrary: p m) (auto simp: fun_eq_iff)

subsection \<open>Tokens as a split\<close>

function tokens :: "(u8 \<Rightarrow> bool) \<Rightarrow> u8 list \<Rightarrow> u8 list list" where
  "tokens P xs = (case dropWhile P xs of [] \<Rightarrow> []
     | y # ys \<Rightarrow> (y # takeWhile (\<lambda>c. \<not> P c) ys) # tokens P (dropWhile (\<lambda>c. \<not> P c) ys))"
  by auto
termination
proof (relation "measure (\<lambda>(P, xs). length xs)")
  fix P :: "u8 \<Rightarrow> bool" and xs y ys assume "dropWhile P xs = y # ys"
  then have "length ys < length xs" using length_dropWhile_le [of P xs] by simp
  then show "((P, dropWhile (\<lambda>c. \<not> P c) ys), P, xs) \<in> measure (\<lambda>(P, xs). length xs)"
    using length_dropWhile_le [of "\<lambda>c. \<not> P c" ys] by simp
qed simp

declare tokens.simps [simp del]

lemma tokens_Nil [simp]: "tokens P [] = []"
  by (simp add: tokens.simps)

lemma tokens_sep: "P c \<Longrightarrow> tokens P (c # xs) = tokens P xs"
  by (simp add: tokens.simps [of P "c # xs"] tokens.simps [of P xs])

lemma tokens_tok: "\<not> P c \<Longrightarrow> tokens P (c # xs) = (c # takeWhile (\<lambda>c. \<not> P c) xs) # tokens P (dropWhile (\<lambda>c. \<not> P c) xs)"
  by (subst tokens.simps) simp

lemma tokens_dropWhile [simp]: "tokens P (dropWhile P xs) = tokens P xs"
  by (induction xs) (simp_all add: tokens_sep)

lemma toknum_eq:
  "toknum sep state n str = (map (\<lambda>c. if c \<in> set sep then 0 else c) str,
     n + int (length (tokens (\<lambda>c. c \<in> set sep) (if state then dropWhile (\<lambda>c. c \<notin> set sep) str else str))))"
  by (induction sep state n str rule: toknum.induct) (auto simp: tokens_sep tokens_tok)

lemma tokens_zeroed:
  "0 \<notin> set str \<Longrightarrow> tokens (\<lambda>c. c = 0) (map (\<lambda>c. if c \<in> set sep then 0 else c) str) = tokens (\<lambda>c. c \<in> set sep) str"
proof (induction str rule: length_induct)
  case (1 str)
  let ?z = "\<lambda>c. if c \<in> set sep then 0 else c"
  show ?case
  proof (cases str)
    case (Cons c xs)
    show ?thesis
    proof (cases "c \<in> set sep")
      case True
      then show ?thesis using 1 Cons by (simp add: tokens_sep)
    next
      case False
      have z: "takeWhile (\<lambda>c. c \<noteq> 0) (map ?z ys) = takeWhile (\<lambda>c. c \<notin> set sep) ys"
        "dropWhile (\<lambda>c. c \<noteq> 0) (map ?z ys) = map ?z (dropWhile (\<lambda>c. c \<notin> set sep) ys)" if "0 \<notin> set ys" for ys
        using that by (induction ys) auto
      have "0 \<notin> set (dropWhile (\<lambda>c. c \<notin> set sep) xs)" using 1(2) Cons by (auto dest: set_dropWhileD)
      then have "tokens (\<lambda>c. c = 0) (map ?z (dropWhile (\<lambda>c. c \<notin> set sep) xs)) = tokens (\<lambda>c. c \<in> set sep) (dropWhile (\<lambda>c. c \<notin> set sep) xs)"
        using 1(1) Cons length_dropWhile_le [of "\<lambda>c. c \<notin> set sep" xs] by simp
      then show ?thesis using 1(2) Cons False z [of xs] by (simp add: tokens_tok)
    qed
  qed simp
qed

lemma skipsep_drop: "drop (skipsep room cur) room = dropWhile (\<lambda>c. c = 0) (drop cur room)"
proof (induction room cur rule: skipsep.induct)
  case (1 room cur)
  then show ?case by (cases "cur < length room") (auto simp: skipsep.simps [of room cur] simp flip: Cons_nth_drop_Suc)
qed

lemma skiptok_drop: "drop (skiptok room cur) room = dropWhile (\<lambda>c. c \<noteq> 0) (drop cur room)"
proof (induction room cur rule: skiptok.induct)
  case (1 room cur)
  then show ?case by (cases "cur < length room") (auto simp: skiptok.simps [of room cur] simp flip: Cons_nth_drop_Suc)
qed

text \<open>The scanner stands at the first of the tokens \<open>ts\<close> that are left.\<close>

definition scan_on :: "scanstr \<Rightarrow> u8 list list \<Rightarrow> bool" where
  "scan_on s ts \<longleftrightarrow> tokens (\<lambda>c. c = 0) (drop (ss_cur s) (ss_room s)) = ts \<and> ss_nlefttok s = int (length ts) \<and>
     dropWhile (\<lambda>c. c = 0) (drop (ss_cur s) (ss_room s)) = drop (ss_cur s) (ss_room s)"

lemma scan_on_nleft: "scan_on s ts \<Longrightarrow> ss_nlefttok s = int (length ts)"
  by (simp add: scan_on_def)

lemma scan_on_cases:
  assumes "scan_on s ts"
  shows "ss_more s \<longleftrightarrow> ts \<noteq> []" "ts = t # ts' \<Longrightarrow> ss_curtok s = t \<and> scan_on (ss_next s) ts'"
proof -
  let ?rest = "drop (ss_cur s) (ss_room s)"
  have nz: "c \<noteq> 0" if "?rest = c # xs" for c xs
    using assms dropWhile_eq_self_iff [of "\<lambda>c. c = 0" ?rest] unfolding scan_on_def that by simp
  have "?rest = [] \<longleftrightarrow> ts = []"
    using assms nz by (cases ?rest) (auto simp: scan_on_def tokens_tok)
  then show "ss_more s \<longleftrightarrow> ts \<noteq> []" by (auto simp: ss_more_def)
  assume ts: "ts = t # ts'"
  then obtain c xs where r: "?rest = c # xs" using assms by (cases ?rest) (auto simp: scan_on_def)
  then have c: "c \<noteq> 0" by (rule nz)
  then have "t = c # takeWhile (\<lambda>c. c \<noteq> 0) xs" "ts' = tokens (\<lambda>c. c = 0) (dropWhile (\<lambda>c. c \<noteq> 0) xs)"
    using assms ts r by (auto simp: scan_on_def tokens_tok)
  then show "ss_curtok s = t \<and> scan_on (ss_next s) ts'"
    using assms ts r c by (simp add: scan_on_def ss_curtok_def ss_next_def skipsep_drop skiptok_drop dropWhile_idem)
qed

lemma scan_on_ctor:
  assumes "0 \<notin> set str" "length str < 4096"
  obtains s where "scanstr_ctor str sep = Some s" "scan_on s (tokens (\<lambda>c. c \<in> set sep) str)"
proof
  let ?room = "map (\<lambda>c. if c \<in> set sep then 0 else c) str"
  let ?s = "\<lparr>ss_room = ?room, ss_cur = skipsep ?room 0, ss_nlefttok = int (length (tokens (\<lambda>c. c \<in> set sep) str))\<rparr>"
  show "scanstr_ctor str sep = Some ?s" using assms(2) by (simp add: scanstr_ctor_def toknum_eq PAGELIMIT_def)
  show "scan_on ?s (tokens (\<lambda>c. c \<in> set sep) str)"
    using assms(1) by (simp add: scan_on_def skipsep_drop tokens_zeroed dropWhile_idem)
qed

lemma scan_all_tokens:
  "scan_on s ts \<Longrightarrow> scan_all s = Some (map (\<lambda>k. (ts ! k, int (length ts) - int k)) [0..<length ts])"
proof (induction ts arbitrary: s)
  case Nil
  then show ?case by (subst scan_all.simps) (simp add: scan_on_cases)
next
  case (Cons t ts)
  note c = scan_on_cases [OF Cons.prems]
  show ?case
    using c Cons.IH [of "ss_next s"] scan_on_nleft [OF Cons.prems]
    by (subst scan_all.simps) (simp add: map_upt_Suc del: upt_Suc)
qed

subsection \<open>Strings as lists\<close>

definition string_at :: "mem \<Rightarrow> nat \<Rightarrow> u8 list \<Rightarrow> bool" where
  "string_at m s xs \<longleftrightarrow> (\<forall>i<length xs. m (s + i) = xs ! i \<and> xs ! i \<noteq> 0) \<and> m (s + length xs) = 0"

lemma string_at_Nil: "string_at m s [] \<longleftrightarrow> m s = 0"
  by (simp add: string_at_def)

lemma string_at_Cons: "string_at m s (x # xs) \<longleftrightarrow> m s = x \<and> x \<noteq> 0 \<and> string_at m (s + 1) xs"
  by (auto simp: string_at_def All_less_Suc2 split: nat.splits)

lemma strend_ok: "string_at m s xs \<Longrightarrow> strend s m = Some (s + length xs)"
proof (induction xs arbitrary: s)
  case Nil
  then show ?case by (subst strend.simps) (simp add: string_at_Nil)
next
  case (Cons x xs)
  then show ?case by (subst strend.simps) (simp add: string_at_Cons)
qed

lemma strlen_ok: "string_at m s xs \<Longrightarrow> strlen s m = Some (length xs)"
  by (simp add: strlen_def strend_ok)

lemma strcpy_ok:
  "string_at m s xs \<Longrightarrow> d + length xs < s \<or> s + length xs < d \<Longrightarrow> strcpy d s m = Some (copied d s (length xs + 1) m)"
proof (induction xs arbitrary: d s m)
  case Nil
  then show ?case by (subst strcpy.simps) (auto simp: string_at_Nil copied_def fun_eq_iff Let_def)
next
  case (Cons x xs)
  let ?m = "m(d := m s)"
  have "string_at ?m (s + 1) xs" using Cons.prems by (auto simp: string_at_def string_at_Cons)
  then have "strcpy (d + 1) (s + 1) ?m = Some (copied (d + 1) (s + 1) (length xs + 1) ?m)"
    by (rule Cons.IH) (use Cons.prems(2) in auto)
  moreover have "copied (d + 1) (s + 1) (length xs + 1) ?m = copied d s (length (x # xs) + 1) m"
    using Cons.prems(2) by (auto simp: copied_def fun_eq_iff Suc_diff_Suc)
  ultimately show ?case using Cons.prems(1) by (subst strcpy.simps) (simp add: Let_def string_at_Cons)
qed

lemma strcmp_ok:
  "string_at m a xs \<Longrightarrow> string_at m b ys \<Longrightarrow>
   \<exists>v. strcmp a b m = Some v \<and> (v = 0 \<longleftrightarrow> xs = ys) \<and>
     (v < 0 \<longleftrightarrow> ord_class.lexordp (map sint (xs @ [0])) (map sint (ys @ [0])))"
proof (induction xs arbitrary: a b ys)
  case Nil
  then show ?case
    by (subst strcmp.simps) (cases ys; auto simp: string_at_Nil string_at_Cons signed_eq_0_iff order_neq_le_trans)
next
  case (Cons x xs)
  show ?case
  proof (cases ys)
    case Nil
    then show ?thesis using Cons.prems by (subst strcmp.simps) (auto simp: string_at_Nil string_at_Cons signed_eq_0_iff)
  next
    case (Cons y zs)
    then have m: "m a = x" "x \<noteq> 0" "m b = y" "y \<noteq> 0" "string_at m (a + 1) xs" "string_at m (b + 1) zs"
      using Cons.prems local.Cons by (auto simp: string_at_Cons)
    show ?thesis
    proof (cases "x = y")
      case True
      then show ?thesis using Cons.IH [OF m(5,6)] m local.Cons by (subst strcmp.simps) simp
    next
      case False
      then have "sint x \<noteq> sint y" by (simp flip: word_eq_iff_signed)
      then show ?thesis using False m local.Cons by (subst strcmp.simps) auto
    qed
  qed
qed

subsection \<open>Properties\<close>

text \<open>
  C18: \<^verbatim>\<open>memmove\<close> is the simultaneous copy for every position of source and destination, overlapping or not: each byte
  of the destination is the byte the source held before the call, and nothing else changes.
\<close>

theorem memmove_equiv_copy:
  "memmove d s n m = (\<lambda>a. if d \<le> a \<and> a < d + n then m (s + (a - d)) else m a)"
  unfolding memmove_def copied_def [symmetric] using memmove_up_copied memmove_down_copied by (auto simp: not_le)

text \<open>
  On two strings \<^verbatim>\<open>strcmp\<close> returns, with 0 exactly when they are equal and a negative number exactly when the
  first, with its final 0, is less in the lexicographic order of signed characters.
\<close>

theorem strcmp_equiv_lexorder:
  assumes "string_at m a xs" "string_at m b ys"
  shows "\<exists>v. strcmp a b m = Some v \<and> (v = 0 \<longleftrightarrow> xs = ys) \<and>
     (v < 0 \<longleftrightarrow> ord_class.lexordp (map sint (xs @ [0])) (map sint (ys @ [0])))"
  by (rule strcmp_ok [OF assms])

text \<open>
  C17: A \<^verbatim>\<open>foreachtok\<close> loop over a string shorter than a page runs once for each maximal run of characters that are no
  separators, in order, and \<^verbatim>\<open>nlefttok\<close> counts down from their number to 1.
\<close>

theorem scanstr_equiv_tokens:
  assumes "0 \<notin> set str" "length str < 4096"
  shows "do { s \<leftarrow> scanstr_ctor str sep; scan_all s } =
    (let ts = tokens (\<lambda>c. c \<in> set sep) str in Some (map (\<lambda>k. (ts ! k, int (length ts) - int k)) [0..<length ts]))"
  by (rule scan_on_ctor [OF assms, of sep]) (simp add: scan_all_tokens Let_def)

theorem strcmp_witness:
  "\<exists>v. strcmp 0 3 ((\<lambda>_. 0)(0 := 97, 1 := 98, 3 := 97, 4 := 0xe9)) = Some v \<and> v \<noteq> 0 \<and> \<not> v < 0"
proof -
  let ?m = "(\<lambda>_. 0)(0 := 97, 1 := 98, 3 := 97, 4 := 0xe9) :: mem"
  have "string_at ?m 0 [97, 98]" "string_at ?m 3 [97, 0xe9]" by (simp_all add: string_at_Cons string_at_Nil)
  from strcmp_equiv_lexorder [OF this] show ?thesis by auto
qed

theorem scanstr_witness:
  "do { s \<leftarrow> scanstr_ctor [47, 117, 47, 47, 98, 99, 47] [47]; scan_all s } = Some [([117], 2), ([98, 99], 1)]"
  using scanstr_equiv_tokens [of "[47, 117, 47, 47, 98, 99, 47]" "[47]"]
  by (simp add: tokens_sep tokens_tok upt_rec)

end
