(* ===== verification/Fs_Dirent.thy ===== *)
theory Fs_Dirent
  imports Fs_Reg
begin

text \<open>
  Directory entries (\<^verbatim>\<open>fs/dirent.cc\<close>, the first part of \<^verbatim>\<open>fs/dir.cc\<close>): the scanner over the blocks of a directory,
  finding, adding and listing entries.  A pointer to an entry is a block number and an offset into the block.
  Names are lists of bytes without 0.  \<^verbatim>\<open>str_tl::get\<close> cuts a stored name at 29 characters.
\<close>

definition EEXIST :: int where [errno_simps]: "EEXIST = -17"
definition ENAMETOOLONG :: int where [errno_simps]: "ENAMETOOLONG = -36"
definition ERANGE :: int where [errno_simps]: "ERANGE = -34"

definition MINIXNAMELEN :: nat where "MINIXNAMELEN = 29"
definition MINIXFREEINO :: u16 where "MINIXFREEINO = 0"

text \<open>\<^verbatim>\<open>sizeof(minixde_t)\<close>.\<close>

definition DESIZE :: nat where "DESIZE = 32"

definition de_ino :: "u8 list \<Rightarrow> nat \<Rightarrow> u16" where
  "de_ino d off = get16 d off"

definition de_name :: "u8 list \<Rightarrow> nat \<Rightarrow> u8 list" where
  "de_name d off = takeWhile (\<lambda>c. c \<noteq> 0) (take MINIXNAMELEN (drop (off + 2) d))"

definition set_name :: "u8 list \<Rightarrow> nat \<Rightarrow> u8 list \<Rightarrow> u8 list" where
  "set_name name off d = patch (off + 2) (take (MINIXNAMELEN + 1) (name @ [0])) d"

definition blk_upd :: "int \<Rightarrow> (u8 list \<Rightarrow> u8 list) \<Rightarrow> reg \<Rightarrow> reg" where
  "blk_upd bno f r = r\<lparr>r_fs := f_writeb bno (f (f_blk (r_fs r) bno)) (r_fs r)\<rparr>"

subsection \<open>The scanner\<close>

record scandir =
  sc_off :: nat
  sc_b :: "int option"

text \<open>\<^verbatim>\<open>roundup2(off + MINIXBSIZE - 1, MINIXBSIZE)\<close>, which leaves out a block when \<^verbatim>\<open>off\<close> is not aligned.\<close>

definition next_block :: "nat \<Rightarrow> nat" where
  "next_block off = (off + MINIXBSIZE - 1 + MINIXBSIZE - 1) div MINIXBSIZE * MINIXBSIZE"

lemma next_block_less: "off < next_block off"
proof -
  have "next_block off = (off + 2046) div 1024 * 1024" by (simp add: next_block_def MINIXBSIZE_def)
  then show ?thesis using div_mult_mod_eq [of "off + 2046" 1024] mod_less_divisor [of 1024 "off + 2046"] by linarith
qed

function advance :: "bool \<Rightarrow> nat \<Rightarrow> nat \<Rightarrow> reg \<Rightarrow> (scandir \<times> reg) option" where
  "advance create sz off r =
     (if off < sz then do {
        let logic = off div MINIXBSIZE;
        (e, phys, r1) \<leftarrow> (if create then writemap logic r
           else map_option (\<lambda>m. case m of Inl e \<Rightarrow> (e, 0, r) | Inr p \<Rightarrow> (0, p, r)) (readmap logic r));
        if e \<noteq> 0 then advance create sz (next_block off) r1
        else if \<not> create \<and> phys = BNOTALLOC then advance create sz (next_block off) r1
        else case f_readb phys (r_fs r1) of
          Inl e \<Rightarrow> advance create sz (next_block off) r1
        | Inr d \<Rightarrow> Some (\<lparr>sc_off = off, sc_b = Some phys\<rparr>, r1) }
      else Some (\<lparr>sc_off = off, sc_b = None\<rparr>, r))"
  by auto
termination
  by (relation "measure (\<lambda>(create, sz, off, r). sz - off)") (simp_all add: next_block_less diff_less_mono2)

declare advance.simps [simp del]

definition scandir_ctor :: "bool \<Rightarrow> nat \<Rightarrow> reg \<Rightarrow> (scandir \<times> reg) option" where
  "scandir_ctor create off r = do {
     kassert (SISDIR (i_mode (r_ino r)));
     advance create (i_size (r_ino r)) off r }"

definition scan_more :: "scandir \<Rightarrow> reg \<Rightarrow> bool" where
  "scan_more sc r \<longleftrightarrow> sc_off sc < i_size (r_ino r)"

definition scan_next :: "bool \<Rightarrow> scandir \<Rightarrow> reg \<Rightarrow> (scandir \<times> reg) option" where
  "scan_next create sc r =
     (let off = sc_off sc + DESIZE in
      if off mod MINIXBSIZE \<noteq> 0 then Some (sc\<lparr>sc_off := off\<rparr>, r)
      else advance create (i_size (r_ino r)) off r)"

definition curde :: "scandir \<Rightarrow> (int \<times> nat) option" where
  "curde sc = map_option (\<lambda>bno. (bno, sc_off sc mod MINIXBSIZE)) (sc_b sc)"

subsection \<open>Finding entries\<close>

text \<open>The loop of the three \<^verbatim>\<open>findde\<close> and of \<^verbatim>\<open>emptydir\<close>: the first entry that satisfies a test.\<close>

partial_function (option) scan_find :: "(u16 \<Rightarrow> u8 list \<Rightarrow> bool) \<Rightarrow> scandir \<Rightarrow> reg \<Rightarrow> (int \<times> nat) option option" where
  "scan_find P sc r =
     (if scan_more sc r then do {
        (bno, off) \<leftarrow> curde sc;
        let d = f_blk (r_fs r) bno;
        if P (de_ino d off) (de_name d off) then Some (Some (bno, off))
        else do { (sc1, r1) \<leftarrow> scan_next False sc r; scan_find P sc1 r1 } }
      else Some None)"

definition findde :: "u8 list \<Rightarrow> reg \<Rightarrow> (int \<times> nat) option option" where
  "findde name r = do {
     (sc, r1) \<leftarrow> scandir_ctor False 0 r;
     scan_find (\<lambda>i nm. i \<noteq> MINIXFREEINO \<and> nm = name) sc r1 }"

text \<open>The name of an inode, put before \<open>path\<close> in a buffer with \<open>room\<close> bytes left.\<close>

definition findde_ino :: "u16 \<Rightarrow> nat \<Rightarrow> u8 list \<Rightarrow> reg \<Rightarrow> (int + nat \<times> u8 list) option" where
  "findde_ino ino room path r = do {
     (sc, r1) \<leftarrow> scandir_ctor False 0 r;
     x \<leftarrow> scan_find (\<lambda>i nm. i = ino) sc r1;
     Some (case x of None \<Rightarrow> Inl ENOENT
       | Some (bno, off) \<Rightarrow>
           let nm = de_name (f_blk (r_fs r) bno) off in
           if length nm + 1 \<ge> room then Inl ERANGE else Inr (room - length nm - 1, 47 # nm @ path)) }"

definition emptydir :: "reg \<Rightarrow> bool option" where
  "emptydir r = do {
     (sc, r1) \<leftarrow> scandir_ctor False (2 * DESIZE) r;
     x \<leftarrow> scan_find (\<lambda>i nm. i \<noteq> MINIXFREEINO) sc r1;
     Some (x = None) }"

subsection \<open>Adding entries\<close>

partial_function (option) addde_loop :: "bool \<Rightarrow> scandir \<Rightarrow> reg \<Rightarrow> ((int \<times> nat) \<times> reg) option" where
  "addde_loop grow sc r =
     (if scan_more sc r then do {
        (bno, off) \<leftarrow> curde sc;
        let r1 = (if grow then blk_upd bno (put16 off MINIXFREEINO) r else r);
        if de_ino (f_blk (r_fs r1) bno) off = MINIXFREEINO then
          Some ((bno, off), r1\<lparr>r_ino := (r_ino r1)\<lparr>i_mtime := r_now r1\<rparr>\<rparr>)
        else do {
          let last = sc_off sc + DESIZE \<ge> i_size (r_ino r1);
          let r2 = (if last then setdirty (r1\<lparr>r_ino := (r_ino r1)\<lparr>i_size := i_size (r_ino r1) + DESIZE\<rparr>\<rparr>) else r1);
          (sc1, r3) \<leftarrow> scan_next True sc r2;
          addde_loop (grow \<or> last) sc1 r3 } }
      else None)"

definition addde :: "u8 list \<Rightarrow> reg \<Rightarrow> (int \<times> (int \<times> nat) \<times> reg) option" where
  "addde name r = do {
     kassert (SISDIR (i_mode (r_ino r)));
     if length name > MINIXNAMELEN then Some (ENAMETOOLONG, (0, 0), r)
     else if name = [] then Some (EPERM, (0, 0), r)
     else if i_size (r_ino r) mod DESIZE \<noteq> 0 then Some (EINVAL, (0, 0), r)
     else do {
       x \<leftarrow> findde name r;
       if x \<noteq> None then Some (EEXIST, (0, 0), r)
       else do {
         (sc, r1) \<leftarrow> scandir_ctor True 0 r;
         (de, r2) \<leftarrow> addde_loop False sc r1;
         Some (0, de, r2) } } }"

definition addde_ino :: "u8 list \<Rightarrow> u16 \<Rightarrow> reg \<Rightarrow> (int \<times> reg) option" where
  "addde_ino name newino r = do {
     (e, (bno, off), r1) \<leftarrow> addde name r;
     Some (if e \<noteq> 0 then (e, r1)
       else (0, blk_upd bno (\<lambda>d. put16 off newino (set_name name off d)) r1)) }"

text \<open>What \<^verbatim>\<open>unlink2\<close>, \<^verbatim>\<open>rmdir2\<close> and \<^verbatim>\<open>rename2\<close> do to the entry they remove.\<close>

definition free_entry :: "int \<times> nat \<Rightarrow> reg \<Rightarrow> reg" where
  "free_entry de r = blk_upd (fst de) (put16 (snd de) MINIXFREEINO) r"

subsection \<open>Listing\<close>

definition reclen_of :: "u8 list \<Rightarrow> nat" where
  "reclen_of name = 10 + length name + 1"

partial_function (option) getdents_loop ::
  "nat \<Rightarrow> scandir \<Rightarrow> nat \<Rightarrow> nat \<Rightarrow> (u16 \<times> nat \<times> u8 list) list \<Rightarrow> reg \<Rightarrow> (nat \<times> nat \<times> (u16 \<times> nat \<times> u8 list) list) option" where
  "getdents_loop nbyte sc pos written out r =
     (if scan_more sc r then do {
        (bno, off) \<leftarrow> curde sc;
        let d = f_blk (r_fs r) bno;
        if de_ino d off = MINIXFREEINO then do {
          (sc1, r1) \<leftarrow> scan_next False sc r;
          getdents_loop nbyte sc1 pos written out r1 }
        else if written + reclen_of (de_name d off) > nbyte then Some (pos, written, out)
        else do {
          (sc1, r1) \<leftarrow> scan_next False sc r;
          getdents_loop nbyte sc1 (sc_off sc + DESIZE) (written + reclen_of (de_name d off))
            (out @ [(de_ino d off, pos, de_name d off)]) r1 } }
      else Some (pos, written, out))"

definition getdents :: "nat \<Rightarrow> nat \<Rightarrow> reg \<Rightarrow> (int \<times> nat \<times> (u16 \<times> nat \<times> u8 list) list) option" where
  "getdents pos nbyte r =
     (if \<not> SISDIR (i_mode (r_ino r)) then Some (ENOTDIR, pos, [])
      else do {
        (sc, r1) \<leftarrow> scandir_ctor False pos r;
        (pos', written, out) \<leftarrow> getdents_loop nbyte sc pos 0 [] r1;
        Some (int written, pos', out) })"

subsection \<open>A directory as a list of entries\<close>

definition nent :: "reg \<Rightarrow> nat" where
  "nent r = i_size (r_ino r) div 32"

definition dblk :: "reg \<Rightarrow> nat \<Rightarrow> int" where
  "dblk r k = bno_of (nd r (lpos (k div 32)))"

definition doff :: "nat \<Rightarrow> nat" where
  "doff k = 32 * (k mod 32)"

definition dent :: "reg \<Rightarrow> nat \<Rightarrow> u16 \<times> u8 list" where
  "dent r k = (let d = f_blk (r_fs r) (dblk r k) in (de_ino d (doff k), de_name d (doff k)))"

text \<open>Well-formed: a file without holes, whole entries, and no name in use twice.\<close>

definition dir_form :: "reg \<Rightarrow> bool" where
  "dir_form r \<longleftrightarrow> reg_ok r \<and> SISDIR (i_mode (r_ino r)) \<and> no_holes r \<and> 0 < nent r \<and> i_size (r_ino r) = 32 * nent r \<and>
     i_size (r_ino r) < 2 ^ 31"

definition dir_ok :: "reg \<Rightarrow> bool" where
  "dir_ok r \<longleftrightarrow> dir_form r \<and> (\<forall>j<nent r. \<forall>k<nent r. fst (dent r j) \<noteq> 0 \<longrightarrow> fst (dent r k) \<noteq> 0 \<longrightarrow> snd (dent r j) = snd (dent r k) \<longrightarrow> j = k)"

lemma dir_formD:
  assumes "dir_form r"
  shows "reg_ok r" "SISDIR (i_mode (r_ino r))" "isfile r" "0 < nent r" "i_size (r_ino r) = 32 * nent r"
    "k < nent r \<Longrightarrow> nd r (lpos (k div 32)) \<noteq> 0" "k \<le> nent r \<Longrightarrow> k div 32 < MINIXEND3"
proof -
  show "reg_ok r" "SISDIR (i_mode (r_ino r))" "isfile r" "0 < nent r" "i_size (r_ino r) = 32 * nent r"
    using assms by (simp_all add: dir_form_def isfile_def)
  show "nd r (lpos (k div 32)) \<noteq> 0" if "k < nent r"
  proof -
    have "32 * k < i_size (r_ino r)" "32 * k div 1024 = k div 32" using assms that by (simp_all add: dir_form_def)
    then show ?thesis using assms unfolding dir_form_def no_holes_def by metis
  qed
  show "k div 32 < MINIXEND3" if "k \<le> nent r"
  proof -
    have "32 * k div 1024 < MINIXEND3" using assms that by (intro block_in_range) (auto simp: dir_form_def)
    then show ?thesis by simp
  qed
qed

subsection \<open>Writable positions that are there already\<close>

lemma nd_prefix: "nd r (i, ks @ js) \<noteq> 0 \<Longrightarrow> nd r (i, ks) \<noteq> 0"
  by (induction js rule: rev_induct) (auto simp: nd_snoc simp flip: append_assoc split: if_splits)

lemma wtranslate_loop_present:
  assumes "reg_ok r" "vpos (i, ks @ digits n off)" "nd r (i, ks @ digits n off) \<noteq> 0"
  shows "wtranslate_loop n (ptr_at r (i, ks)) off r = Some (0, ptr_at r (i, ks @ digits n off), r)"
  using assms(2,3)
proof (induction n arbitrary: ks)
  case (Suc n)
  have v: "vpos (i, ks)" using Suc.prems(1) by (auto simp: vpos_def)
  have q: "nd r (i, ks) \<noteq> 0" by (rule nd_prefix [OF Suc.prems(2)])
  have "reachable r (i, ks)"
  proof (cases ks rule: rev_cases)
    case (snoc js j)
    then show ?thesis using v q nd_prefix [of r i js "[j]"] by (simp add: reachable_def)
  qed (use v in \<open>simp add: reachable_def\<close>)
  then have zg: "zget (ptr_at r (i, ks)) r = nd r (i, ks)" by (rule zget_ptr_at)
  have "wtranslate_loop n (ptr_at r (i, ks @ [digit n off])) off r = Some (0, ptr_at r (i, (ks @ [digit n off]) @ digits n off), r)"
    using Suc.prems by (intro Suc.IH) simp_all
  then show ?case using zg q f_readb_ok [OF assms(1)] by (simp add: allocindexb_def ptr_at_simps)
qed simp

lemma wtranslate_present:
  assumes "reg_ok r" "vpos (i, digits n off)" "nd r (i, digits n off) \<noteq> 0"
  shows "wtranslate n (PInode i) off r = Some (0, nd r (i, digits n off), r)"
proof -
  let ?q = "(i, digits n off)"
  have "reachable r ?q"
    using assms(2,3) nd_prefix [of r i "butlast (digits n off)" "[last (digits n off)]"] by (auto simp: reachable_def)
  then have z: "zget (ptr_at r ?q) r = nd r ?q" by (rule zget_ptr_at)
  have "zget (PInode i) r \<noteq> 0" using nd_prefix [of r i "[]" "digits n off"] assms(3) by (simp add: zget_def nd_Nil)
  then show ?thesis
    using wtranslate_loop_present [OF assms(1), of i "[]" n off] assms(2,3) z
    by (simp add: wtranslate_def ptr_at_simps allocdatab_def Let_def)
qed

lemma writemap_present:
  assumes ok: "reg_ok r" and f: "isfile r" and l: "l < MINIXEND3" and n: "nd r (lpos l) \<noteq> 0"
  shows "writemap l r = Some (0, bno_of (nd r (lpos l)), r)"
proof -
  have v: "vpos (lpos l)" using full_lpos by (simp add: full_def)
  show ?thesis
    using isfileD [OF f] l v n wtranslate_present [OF ok, of l 0 l] wtranslate_present [OF ok, of 7 1 "l - MINIXEND0"]
      wtranslate_present [OF ok, of 8 2 "l - MINIXEND1"] wtranslate_present [OF ok, of 9 3 "l - MINIXEND2"]
    by (simp add: writemap_def Let_def lpos_def del: digits.simps split: if_splits) (simp_all add: lpos_def)
qed

subsection \<open>Scanning\<close>

definition scan_at :: "reg \<Rightarrow> nat \<Rightarrow> scandir \<Rightarrow> bool" where
  "scan_at r k sc \<longleftrightarrow> sc_off sc = 32 * k \<and> (k < nent r \<longrightarrow> sc_b sc = Some (dblk r k))"

lemma BNOTALLOC_bno [simp]: "bno_of z \<noteq> BNOTALLOC"
  by (simp add: bno_of_def BNOTALLOC_def)

lemma block_of_entry: "32 * k div 1024 = k div 32" "32 * k mod 1024 = doff k"
  by (simp_all add: doff_def mult_mod_right)

lemma advance_at:
  assumes d: "dir_form r" and k: "k \<le> nent r"
  shows "\<exists>sc. advance create (i_size (r_ino r)) (32 * k) r = Some (sc, r) \<and> scan_at r k sc"
proof (cases "k < nent r")
  case True
  note D = dir_formD [OF d]
  have r: "readmap (k div 32) r = Some (Inr (dblk r k))" using readmap_ok [OF D(1,3) D(7) [OF k]] D(6) [OF True] by (simp add: dblk_def)
  have w: "writemap (k div 32) r = Some (0, dblk r k, r)"
    using writemap_present [OF D(1,3) D(7) [OF k] D(6) [OF True]] by (simp add: dblk_def)
  have b: "dblk r k \<noteq> BNOTALLOC" by (simp add: dblk_def)
  have "advance create (i_size (r_ino r)) (32 * k) r = Some (\<lparr>sc_off = 32 * k, sc_b = Some (dblk r k)\<rparr>, r)"
    using True D(5) r w b f_readb_ok [OF D(1)] by (subst advance.simps) (simp add: MINIXBSIZE_def Let_def)
  then show ?thesis by (simp add: scan_at_def)
next
  case False
  then show ?thesis using dir_formD(5) [OF d] k by (subst advance.simps) (simp add: scan_at_def)
qed

lemma scan_next_at:
  assumes d: "dir_form r" and k: "k < nent r" and sc: "scan_at r k sc"
  shows "\<exists>sc'. scan_next create sc r = Some (sc', r) \<and> scan_at r (k + 1) sc'"
proof (cases "32 * (k + 1) mod 1024 = 0")
  case True
  then show ?thesis using advance_at [OF d, of "k + 1" create] k sc
    by (simp add: scan_next_def scan_at_def DESIZE_def MINIXBSIZE_def Let_def add.commute)
next
  case False
  have "doff (k + 1) \<noteq> 0" using False block_of_entry(2) [of "k + 1"] by simp
  then have "(k + 1) mod 32 \<noteq> 0" by (simp add: doff_def)
  then have "(k + 1) div 32 = k div 32" by (simp add: div_Suc)
  then show ?thesis using False sc k by (auto simp: scan_next_def scan_at_def DESIZE_def MINIXBSIZE_def dblk_def Let_def add.commute)
qed

lemma scan_find_ok:
  assumes d: "dir_form r" and sc: "scan_at r k sc" "k \<le> nent r"
  shows "scan_find P sc r = Some (map_option (\<lambda>j. (dblk r j, doff j)) (List.find (\<lambda>j. P (fst (dent r j)) (snd (dent r j))) [k..<nent r]))"
  using sc
proof (induction "nent r - k" arbitrary: k sc)
  case 0
  then show ?case using dir_formD(5) [OF d] by (subst scan_find.simps) (simp add: scan_more_def scan_at_def)
next
  case (Suc x)
  then have k: "k < nent r" by simp
  obtain sc1 where sc1: "scan_next False sc r = Some (sc1, r)" "scan_at r (k + 1) sc1" using scan_next_at [OF d k Suc.prems(1)] by blast
  have IH: "scan_find P sc1 r = Some (map_option (\<lambda>j. (dblk r j, doff j)) (List.find (\<lambda>j. P (fst (dent r j)) (snd (dent r j))) [k + 1..<nent r]))"
    using Suc sc1 k by simp
  have c: "scan_more sc r" "curde sc = Some (dblk r k, doff k)"
    using Suc.prems(1) k dir_formD(5) [OF d] block_of_entry(2) [of k] by (simp_all add: scan_more_def scan_at_def curde_def MINIXBSIZE_def)
  show ?case
    using sc1(1) k by (subst scan_find.simps) (simp add: c IH upt_conv_Cons [of k] dent_def Let_def)
qed

lemma scan_ctor_at:
  assumes "dir_form r" "k \<le> nent r"
  shows "\<exists>sc. scandir_ctor create (32 * k) r = Some (sc, r) \<and> scan_at r k sc"
  using advance_at [OF assms] dir_formD(2) [OF assms(1)] by (simp add: scandir_ctor_def)

definition dfind :: "(u16 \<times> u8 list \<Rightarrow> bool) \<Rightarrow> reg \<Rightarrow> nat option" where
  "dfind P r = List.find (\<lambda>j. P (dent r j)) [0..<nent r]"

lemma findde_ok:
  assumes "dir_form r"
  shows "findde name r = Some (map_option (\<lambda>j. (dblk r j, doff j)) (dfind (\<lambda>(i, nm). i \<noteq> 0 \<and> nm = name) r))"
proof -
  obtain sc where sc: "scandir_ctor False 0 r = Some (sc, r)" "scan_at r 0 sc" using scan_ctor_at [OF assms, of 0 False] by auto
  show ?thesis
    using scan_find_ok [OF assms sc(2)] sc(1) by (simp add: findde_def dfind_def MINIXFREEINO_def case_prod_beta')
qed

lemma emptydir_ok:
  assumes "dir_form r" "2 \<le> nent r"
  shows "emptydir r = Some (\<forall>j. 2 \<le> j \<longrightarrow> j < nent r \<longrightarrow> fst (dent r j) = 0)"
proof -
  obtain sc where sc: "scandir_ctor False (32 * 2) r = Some (sc, r)" "scan_at r 2 sc" using scan_ctor_at [OF assms, of False] by auto
  show ?thesis
    using scan_find_ok [OF assms(1) sc(2) assms(2)] sc(1)
    by (auto simp: emptydir_def DESIZE_def MINIXFREEINO_def find_None_iff)
qed

subsection \<open>Writing entries\<close>

definition within :: "nat \<Rightarrow> (u8 list \<Rightarrow> u8 list) \<Rightarrow> bool" where
  "within off f \<longleftrightarrow> (\<forall>d. length d = 1024 \<longrightarrow> length (f d) = 1024 \<and> (\<forall>x<1024. x < off \<or> off + 32 \<le> x \<longrightarrow> f d ! x = d ! x))"

lemma withinD:
  assumes "within off f" "length d = 1024"
  shows "length (f d) = 1024" "x < 1024 \<Longrightarrow> x < off \<or> off + 32 \<le> x \<Longrightarrow> f d ! x = d ! x"
  using assms by (auto simp: within_def)

lemma within_entry:
  assumes "within off f" "length d = 1024" "off' + 32 \<le> off \<or> off + 32 \<le> off'" "off' + 32 \<le> 1024"
  shows "de_ino (f d) off' = de_ino d off'" "de_name (f d) off' = de_name d off'"
proof -
  note w = withinD [OF assms(1,2)]
  have "f d ! off' = d ! off'" "f d ! (off' + 1) = d ! (off' + 1)" using assms(3,4) by (auto intro!: w(2))
  then show "de_ino (f d) off' = de_ino d off'" by (simp add: de_ino_def get16_def)
  have "take 29 (drop (off' + 2) (f d)) = take 29 (drop (off' + 2) d)"
    using assms(2-4) w by (intro nth_equalityI) auto
  then show "de_name (f d) off' = de_name d off'" by (simp add: de_name_def MINIXNAMELEN_def)
qed

lemma doff_bound [simp]: "doff k + 32 \<le> 1024"
proof -
  have "k mod 32 < 32" by simp
  then show ?thesis by (simp add: doff_def)
qed

lemma doff_apart: "k \<noteq> j \<Longrightarrow> k div 32 = j div 32 \<Longrightarrow> doff k + 32 \<le> doff j \<or> doff j + 32 \<le> doff k"
proof -
  assume a: "k \<noteq> j" "k div 32 = j div 32"
  have "k mod 32 \<noteq> j mod 32" using a by (metis mult_div_mod_eq)
  then consider "k mod 32 + 1 \<le> j mod 32" | "j mod 32 + 1 \<le> k mod 32" by linarith
  then show ?thesis unfolding doff_def by cases linarith+
qed

lemma dblk_eq:
  assumes d: "dir_form r" and k: "k < nent r" "j < nent r"
  shows "dblk r k = dblk r j \<longleftrightarrow> k div 32 = j div 32"
proof
  note D = dir_formD [OF d]
  have v: "vpos (lpos x)" for x using full_lpos by (simp add: full_def)
  assume "dblk r k = dblk r j"
  then have "nd r (lpos (k div 32)) = nd r (lpos (j div 32))" by (simp add: dblk_def)
  from reg_okD(6) [OF D(1) v v D(6) [OF k(1)] this]
  show "k div 32 = j div 32" using lpos_inj D(7) [of k] D(7) [of j] k by simp
qed (simp add: dblk_def)

lemma entry_upd:
  assumes d: "dir_form r" and j: "j < nent r" and w: "within (doff j) f"
  defines "r' \<equiv> blk_upd (dblk r j) f r"
  shows "dir_form r'" "nent r' = nent r" "nd r' (lpos l) = nd r (lpos l)"
    "k < nent r \<Longrightarrow> dent r' k = (if k = j then (de_ino (f (f_blk (r_fs r) (dblk r j))) (doff j), de_name (f (f_blk (r_fs r) (dblk r j))) (doff j)) else dent r k)"
proof -
  note D = dir_formD [OF d]
  let ?d = "f_blk (r_fs r) (dblk r j)"
  have len: "length ?d = 1024" by (rule reg_okD(3) [OF D(1)])
  have r': "r' = r\<lparr>r_fs := f_writeb (bno_of (nd r (lpos (j div 32)))) (f ?d) (r_fs r)\<rparr>" by (simp add: r'_def blk_upd_def dblk_def)
  note dw = data_write [OF D(1) full_lpos D(6) [OF j] withinD(1) [OF w len], folded r']
  have v: "vpos (lpos x)" for x using full_lpos by (simp add: full_def)
  show nd': "nd r' (lpos l) = nd r (lpos l)" for l by (rule dw(2) [OF v])
  have ino: "r_ino r' = r_ino r" by (simp add: r')
  show n: "nent r' = nent r" by (simp add: nent_def ino)
  show "dir_form r'" using d dw(1) n unfolding dir_form_def no_holes_def ino nd' by simp
  have blk: "dblk r' x = dblk r x" for x by (simp add: dblk_def nd')
  have fb: "f_blk (r_fs r') b = (if b = dblk r j then f ?d else f_blk (r_fs r) b)" for b by (simp add: r' f_writeb_def dblk_def)
  assume k: "k < nent r"
  show "dent r' k = (if k = j then (de_ino (f ?d) (doff j), de_name (f ?d) (doff j)) else dent r k)"
  proof (cases "k \<noteq> j \<and> k div 32 = j div 32")
    case True
    then have "dblk r k = dblk r j" by (simp add: dblk_def)
    then show ?thesis using True within_entry [OF w len doff_apart [of k j]] by (auto simp: dent_def blk fb Let_def dest: doff_apart)
  next
    case False
    then have "k = j \<or> dblk r k \<noteq> dblk r j" using dblk_eq [OF d k j] by blast
    then show ?thesis by (auto simp: dent_def blk fb Let_def)
  qed
qed

lemma put16_nth: "k + 1 < length d \<Longrightarrow> get16 (put16 k w d) k = w"
proof -
  assume a: "k + 1 < length d"
  have "get16 (put16 k w d) k = get16 ([ucast w, ucast (drop_bit 8 w)] @ []) 0" using a by (simp add: get16_def put16_def)
  then show ?thesis by (simp only: get16_put16)
qed

lemma within_put16: "within off (put16 off v)"
  by (auto simp: within_def put16_def)

lemma within_set:
  assumes "length name \<le> 29" "off + 32 \<le> 1024"
  shows "within off (\<lambda>d. put16 off v (set_name name off d))"
proof -
  have l: "length (take 30 (name @ [0])) = length name + 1" using assms(1) by simp
  show ?thesis
    unfolding within_def
  proof (intro allI impI conjI)
    fix d :: "u8 list" assume d: "length d = 1024"
    have fits: "off + 2 + length (take 30 (name @ [0])) \<le> length d" using l assms d by simp
    show "length (put16 off v (set_name name off d)) = 1024"
      using length_patch [OF fits] d by (simp add: put16_def set_name_def MINIXNAMELEN_def)
    fix x :: nat assume x: "x < 1024" "x < off \<or> off + 32 \<le> x"
    show "put16 off v (set_name name off d) ! x = d ! x"
      using patch_nth [OF fits, of x] x d assms(1) by (auto simp: put16_def set_name_def MINIXNAMELEN_def)
  qed
qed

lemma entry_set:
  assumes d: "length d = 1024" "off + 32 \<le> 1024" and n: "length name \<le> 29" "0 \<notin> set name"
  shows "de_ino (put16 off v (set_name name off d)) off = v" "de_name (put16 off v (set_name name off d)) off = name"
proof -
  let ?d = "set_name name off d"
  have fits: "off + 2 + length (take 30 (name @ [0])) \<le> length d" using n d by simp
  have len: "length ?d = 1024" using length_patch [OF fits] d by (simp add: set_name_def MINIXNAMELEN_def)
  show "de_ino (put16 off v ?d) off = v" using len d by (simp add: de_ino_def put16_nth)
  have "take 29 (drop (off + 2) (put16 off v ?d)) = take 29 (drop (off + 2) ?d)" by (simp add: put16_def)
  also have "drop (off + 2) ?d = take 30 (name @ [0]) @ drop (off + 2 + length (take 30 (name @ [0]))) d"
    using d by (simp add: set_name_def patch_def MINIXNAMELEN_def)
  also have "takeWhile (\<lambda>c. c \<noteq> 0) (take 29 (take 30 (name @ [0]) @ drop (off + 2 + length (take 30 (name @ [0]))) d)) = name"
  proof (cases "length name = 29")
    case True
    then show ?thesis using n(2) by (auto simp: takeWhile_eq_all_conv)
  next
    case False
    then obtain m where "29 - length name = Suc m" using n(1) by (cases "29 - length name") auto
    moreover have "takeWhile (\<lambda>c. c \<noteq> 0) (name @ 0 # xs) = name" for xs using n(2) by (induction name) auto
    ultimately show ?thesis using False n(1) by simp
  qed
  finally show "de_name (put16 off v ?d) off = name" by (simp add: de_name_def MINIXNAMELEN_def)
qed

subsection \<open>Growing a directory\<close>

definition grown :: "reg \<Rightarrow> reg" where
  "grown r = setdirty (r\<lparr>r_ino := (r_ino r)\<lparr>i_size := i_size (r_ino r) + 32\<rparr>\<rparr>)"

lemma grown_simps:
  "r_fs (grown r) = r_fs r" "i_size (r_ino (grown r)) = i_size (r_ino r) + 32" "i_mode (r_ino (grown r)) = i_mode (r_ino r)"
  "i_daddr (r_ino (grown r)) = i_daddr (r_ino r)"
  by (simp_all add: grown_def setdirty_def)

lemma grown_ok: "reg_ok r \<Longrightarrow> reg_ok (grown r)" "nd (grown r) = nd r"
proof -
  show "nd (grown r) = nd r" by (simp add: nd_def fun_eq_iff grown_simps)
  then show "reg_ok r \<Longrightarrow> reg_ok (grown r)" by (simp add: reg_ok_def grown_simps)
qed

text \<open>The entry after the last, once its block is there.\<close>

lemma dir_form_grown:
  assumes d: "dir_form r" and s: "i_size (r_ino r) + 32 < 2 ^ 31" and g: "grows (lpos (nent r div 32)) (grown r) r'"
    and n: "nd r' (lpos (nent r div 32)) \<noteq> 0"
  shows "dir_form r'" "nent r' = nent r + 1" "k < nent r \<Longrightarrow> dent r' k = dent r k"
proof -
  note D = dir_formD [OF d]
  have sz: "i_size (r_ino r') = 32 * (nent r + 1)" using growsD(3) [OF g] D(5) by (simp add: grown_simps)
  then show n1: "nent r' = nent r + 1" by (simp add: nent_def)
  have keep: "nd r' (lpos (k div 32)) = nd r (lpos (k div 32))" if "k < nent r" for k
    using growsD(4) [OF g, of "lpos (k div 32)"] D(6) [OF that] full_lpos by (simp add: full_def grown_ok)
  have nz: "nd r' (lpos (k div 32)) \<noteq> 0" if "k < nent r + 1" for k
    using that n keep [of k] D(6) [of k] by (cases "k = nent r") auto
  have "no_holes r'"
    unfolding no_holes_def
  proof (intro allI impI)
    fix x assume "x < i_size (r_ino r')"
    then have "x div 32 < nent r + 1" using sz by (simp add: less_mult_imp_div_less mult.commute)
    moreover have "x div 32 div 32 = x div 1024" by (simp add: div_mult2_eq [symmetric])
    ultimately show "nd r' (lpos (x div 1024)) \<noteq> 0" using nz [of "x div 32"] by simp
  qed
  then show "dir_form r'"
    using growsD(1,2) [OF g] sz n1 s D(2,5) by (simp add: dir_form_def grown_simps)
  assume k: "k < nent r"
  have "f_blk (r_fs r') (dblk r k) = f_blk (r_fs r) (dblk r k)"
    using growsD(6) [OF g full_lpos, of "k div 32"] D(6) [OF k] by (simp add: dblk_def grown_ok grown_simps)
  moreover have "dblk r' k = dblk r k" using keep [OF k] by (simp add: dblk_def)
  ultimately show "dent r' k = dent r k" by (simp add: dent_def)
qed

text \<open>The last step of the loop, on the new entry.\<close>

lemma addde_new:
  assumes d: "dir_form r" and n: "nent r = Suc n" and sc: "sc_off sc = 32 * n" "sc_b sc = Some (dblk r n)"
  shows "addde_loop True sc r = Some ((dblk r n, doff n),
    (blk_upd (dblk r n) (put16 (doff n) 0) r)\<lparr>r_ino := (r_ino r)\<lparr>i_mtime := r_now r\<rparr>\<rparr>)"
proof -
  have "doff n + 1 < length (f_blk (r_fs r) (dblk r n))" using doff_bound [of n] unfolding reg_okD(3) [OF dir_formD(1) [OF d]] by linarith
  then have "de_ino (f_blk (r_fs (blk_upd (dblk r n) (put16 (doff n) 0) r)) (dblk r n)) (doff n) = 0"
    by (simp add: blk_upd_def f_writeb_def de_ino_def put16_nth)
  then show ?thesis
    using sc n dir_formD(5) [OF d] block_of_entry(2) [of n]
    by (subst addde_loop.simps) (simp add: scan_more_def curde_def MINIXBSIZE_def MINIXFREEINO_def Let_def, simp add: blk_upd_def)
qed

definition addde_last :: "reg \<Rightarrow> ((int \<times> nat) \<times> reg) option" where
  "addde_last r = do {
     (sc, r') \<leftarrow> scan_next True \<lparr>sc_off = 32 * (nent r - 1), sc_b = Some (dblk r (nent r - 1))\<rparr> (grown r);
     addde_loop True sc r' }"

lemma addde_loop_ok:
  assumes d: "dir_form r" and sc: "scan_at r k sc" "k < nent r"
  shows "addde_loop False sc r = (case List.find (\<lambda>j. fst (dent r j) = 0) [k..<nent r] of
     Some j \<Rightarrow> Some ((dblk r j, doff j), r\<lparr>r_ino := (r_ino r)\<lparr>i_mtime := r_now r\<rparr>\<rparr>)
   | None \<Rightarrow> addde_last r)"
  using sc
proof (induction "nent r - k" arbitrary: k sc)
  case (Suc x)
  then have k: "k < nent r" by simp
  have c: "scan_more sc r" "curde sc = Some (dblk r k, doff k)" "sc_off sc = 32 * k" "sc_b sc = Some (dblk r k)"
    using Suc.prems k dir_formD(5) [OF d] block_of_entry(2) [of k] by (simp_all add: scan_more_def scan_at_def curde_def MINIXBSIZE_def)
  have up: "[k..<nent r] = k # [Suc k..<nent r]" using k by (rule upt_conv_Cons)
  show ?case
  proof (cases "fst (dent r k) = 0")
    case True
    then show ?thesis
      by (subst addde_loop.simps) (simp add: c up MINIXFREEINO_def, simp add: dent_def Let_def)
  next
    case False
    then have nf: "de_ino (f_blk (r_fs r) (dblk r k)) (doff k) \<noteq> 0" by (simp add: dent_def Let_def)
    show ?thesis
    proof (cases "Suc k < nent r")
      case True
      obtain sc1 where sc1: "scan_next True sc r = Some (sc1, r)" "scan_at r (Suc k) sc1"
        using scan_next_at [OF d k Suc.prems(1)] by (metis Suc_eq_plus1)
      have "addde_loop False sc r = addde_loop False sc1 r"
        using True dir_formD(5) [OF d] sc1(1)
        by (subst addde_loop.simps) (simp add: c nf MINIXFREEINO_def DESIZE_def Let_def)
      also have "\<dots> = (case List.find (\<lambda>j. fst (dent r j) = 0) [Suc k..<nent r] of
          Some j \<Rightarrow> Some ((dblk r j, doff j), r\<lparr>r_ino := (r_ino r)\<lparr>i_mtime := r_now r\<rparr>\<rparr>) | None \<Rightarrow> addde_last r)"
        using Suc.hyps True sc1(2) by simp
      finally show ?thesis using False by (simp add: up)
    next
      case last: False
      then have n: "nent r = Suc k" using k by simp
      have scd: "\<lparr>sc_off = 32 * k, sc_b = Some (dblk r k)\<rparr> = sc" using c(3,4) by (cases sc) simp
      have gr: "setdirty (r\<lparr>r_ino := (r_ino r)\<lparr>i_size := i_size (r_ino r) + 32\<rparr>\<rparr>) = grown r" by (simp add: grown_def)
      have le: "i_size (r_ino r) \<le> 32 * k + 32" using n dir_formD(5) [OF d] by simp
      have "addde_loop False sc r = addde_last r"
        by (subst addde_loop.simps) (simp add: c(1-3) nf MINIXFREEINO_def DESIZE_def Let_def addde_last_def n scd gr le)
      then show ?thesis using False n by (simp add: up)
    qed
  qed
qed simp

lemma addde_last_ok:
  assumes d: "dir_form r" and s: "i_size (r_ino r) + 32 < 2 ^ 31"
  obtains (new) r' where "addde_last r = Some ((dblk r' (nent r), doff (nent r)),
        (blk_upd (dblk r' (nent r)) (put16 (doff (nent r)) 0) r')\<lparr>r_ino := (r_ino r')\<lparr>i_mtime := r_now r'\<rparr>\<rparr>)"
      "dir_form r'" "nent r' = nent r + 1" "\<And>k. k < nent r \<Longrightarrow> dent r' k = dent r k"
      "nent r mod 32 = 0 \<Longrightarrow> \<exists>b. writemap (nent r div 32) (grown r) = Some (0, b, r')"
  | (halt) b r' where "addde_last r = None" "nent r mod 32 = 0" "nd r (lpos (nent r div 32)) = 0"
      "writemap (nent r div 32) (grown r) = Some (ENOSPC, b, r')"
proof -
  note D = dir_formD [OF d]
  let ?n = "nent r"
  let ?sc = "\<lparr>sc_off = 32 * (?n - 1), sc_b = Some (dblk r (?n - 1))\<rparr>"
  have off: "32 * (?n - 1) + 32 = 32 * ?n" using D(4) by simp
  have okg: "reg_ok (grown r)" and fg: "isfile (grown r)" using grown_ok(1) [OF D(1)] D(3) by (simp_all add: isfile_def grown_simps)
  have go: ?thesis if sc: "scan_next True ?sc (grown r) = Some (\<lparr>sc_off = 32 * ?n, sc_b = Some (dblk r' ?n)\<rparr>, r')"
    and g: "grows (lpos (?n div 32)) (grown r) r'" and z: "nd r' (lpos (?n div 32)) \<noteq> 0"
    and wm: "?n mod 32 = 0 \<Longrightarrow> \<exists>b. writemap (?n div 32) (grown r) = Some (0, b, r')" for r'
  proof -
    note f = dir_form_grown [OF d s g z]
    show ?thesis
    proof (rule new [of r'])
      show "addde_last r = Some ((dblk r' ?n, doff ?n), (blk_upd (dblk r' ?n) (put16 (doff ?n) 0) r')\<lparr>r_ino := (r_ino r')\<lparr>i_mtime := r_now r'\<rparr>\<rparr>)"
        using sc addde_new [OF f(1), of ?n "\<lparr>sc_off = 32 * ?n, sc_b = Some (dblk r' ?n)\<rparr>"] f(2) by (simp add: addde_last_def)
    qed (use f wm in simp_all)
  qed
  show ?thesis
  proof (cases "?n mod 32 = 0")
    case False
    then have "32 * ?n mod 1024 \<noteq> 0" by (simp add: block_of_entry doff_def)
    moreover have "?n div 32 = (?n - 1) div 32" using False D(4) by (cases ?n) (auto simp: div_Suc split: if_splits)
    ultimately have "scan_next True ?sc (grown r) = Some (\<lparr>sc_off = 32 * ?n, sc_b = Some (dblk (grown r) ?n)\<rparr>, grown r)"
      using off by (simp add: scan_next_def DESIZE_def MINIXBSIZE_def Let_def dblk_def grown_ok)
    moreover have "nd (grown r) (lpos (?n div 32)) \<noteq> 0" using D(6) [of "?n - 1"] D(4) \<open>?n div 32 = (?n - 1) div 32\<close> by (simp add: grown_ok)
    ultimately show ?thesis using grows_refl [OF okg] False by (intro go) auto
  next
    case True
    then have m: "32 * ?n mod 1024 = 0" "32 * ?n div 1024 = ?n div 32" by (simp_all add: block_of_entry doff_def)
    obtain e z r' where w: "writemap (?n div 32) (grown r) = Some (e, bno_of z, r')" and g: "grows (lpos (?n div 32)) (grown r) r'" and
      a: "e = 0 \<and> z = nd r' (lpos (?n div 32)) \<and> z \<noteq> 0 \<or> e = ENOSPC \<and> free_zones (r_fs r') = {} \<and> (\<forall>p. full p \<longrightarrow> nd r' p = nd (grown r) p)"
      by (rule writemap_ok [OF okg fg D(7) [OF order_refl]])
    have adv: "scan_next True ?sc (grown r) = advance True (32 * ?n + 32) (32 * ?n) (grown r)"
      using off m D(5) by (simp add: scan_next_def DESIZE_def MINIXBSIZE_def Let_def grown_simps)
    show ?thesis
    proof (cases "e = 0")
      case True
      with a have z: "z = nd r' (lpos (?n div 32))" "z \<noteq> 0" by auto
      have "advance True (32 * ?n + 32) (32 * ?n) (grown r) = Some (\<lparr>sc_off = 32 * ?n, sc_b = Some (dblk r' ?n)\<rparr>, r')"
        using w True z m f_readb_ok [OF growsD(1) [OF g]] by (subst advance.simps) (simp add: Let_def MINIXBSIZE_def dblk_def)
      then show ?thesis using adv g z w True by (intro go) auto
    next
      case False
      then have e: "e = ENOSPC" using a by auto
      have nb: "\<not> next_block (32 * ?n) < 32 * ?n + 32"
        using True by (auto simp: next_block_def MINIXBSIZE_def dvd_def mod_eq_0_iff_dvd)
      have "advance True (32 * ?n + 32) (32 * ?n) (grown r) = Some (\<lparr>sc_off = next_block (32 * ?n), sc_b = None\<rparr>, r')"
        using w False m nb by (subst advance.simps) (simp add: Let_def MINIXBSIZE_def, subst advance.simps, simp)
      then have "addde_last r = None"
        using adv nb growsD(3) [OF g] D(5) by (simp add: addde_last_def, subst addde_loop.simps) (simp add: scan_more_def grown_simps)
      moreover have "nd r (lpos (?n div 32)) = 0"
      proof (rule ccontr)
        assume nz: "nd r (lpos (?n div 32)) \<noteq> 0"
        then show False using writemap_present [OF okg fg D(7) [OF order_refl]] w e by (simp add: grown_ok errno_simps)
      qed
      ultimately show ?thesis using True w e by (intro halt [of "bno_of z" r']) simp_all
    qed
  qed
qed

subsection \<open>A directory as a map\<close>

definition dlookup :: "reg \<Rightarrow> u8 list \<Rightarrow> u16 option" where
  "dlookup r name = map_option (\<lambda>j. fst (dent r j)) (dfind (\<lambda>(i, nm). i \<noteq> 0 \<and> nm = name) r)"

lemma dir_okD: "dir_ok r \<Longrightarrow> dir_form r"
  "dir_ok r \<Longrightarrow> j < nent r \<Longrightarrow> k < nent r \<Longrightarrow> fst (dent r j) \<noteq> 0 \<Longrightarrow> fst (dent r k) \<noteq> 0 \<Longrightarrow> snd (dent r j) = snd (dent r k) \<Longrightarrow> j = k"
  unfolding dir_ok_def by blast+

lemma dfind_None: "dfind P r = None \<longleftrightarrow> (\<forall>j<nent r. \<not> P (dent r j))"
  by (auto simp: dfind_def find_None_iff)

lemma dfind_Some: "dfind P r = Some j \<Longrightarrow> j < nent r \<and> P (dent r j) \<and> (\<forall>k<j. \<not> P (dent r k))"
  by (auto simp: dfind_def find_Some_iff)

lemma dlookup_Some:
  assumes "dir_ok r"
  shows "dlookup r name = Some i \<longleftrightarrow> i \<noteq> 0 \<and> (\<exists>j<nent r. dent r j = (i, name))"
proof
  assume "dlookup r name = Some i"
  then show "i \<noteq> 0 \<and> (\<exists>j<nent r. dent r j = (i, name))"
    by (auto simp: dlookup_def case_prod_beta' dest!: dfind_Some)
next
  assume "i \<noteq> 0 \<and> (\<exists>j<nent r. dent r j = (i, name))"
  then obtain j where j: "i \<noteq> 0" "j < nent r" "dent r j = (i, name)" by blast
  then have "dfind (\<lambda>(i, nm). i \<noteq> 0 \<and> nm = name) r \<noteq> None" unfolding dfind_None by auto
  then obtain k where k: "dfind (\<lambda>(i, nm). i \<noteq> 0 \<and> nm = name) r = Some k" by blast
  from dfind_Some [OF k] have "k = j" using dir_okD(2) [OF assms, of k j] j by (auto simp: case_prod_beta')
  then show "dlookup r name = Some i" using k j by (simp add: dlookup_def)
qed

lemma dlookup_None: "dlookup r name = None \<longleftrightarrow> (\<forall>j<nent r. fst (dent r j) \<noteq> 0 \<longrightarrow> snd (dent r j) \<noteq> name)"
  by (auto simp: dlookup_def dfind_None case_prod_beta')

text \<open>One entry changes, to a name that no other entry in use has.\<close>

lemma dir_ok_change:
  assumes ok: "dir_ok r" and f: "dir_form r'" and n: "nent r \<le> nent r'" and j: "j < nent r'"
    and same: "\<And>k. k < nent r' \<Longrightarrow> k \<noteq> j \<Longrightarrow> k < nent r \<and> dent r' k = dent r k"
    and free: "j < nent r \<Longrightarrow> fst (dent r j) = 0" and new: "dent r' j = (i, name)" "dlookup r name = None" "i \<noteq> 0"
  shows "dir_ok r'" "dlookup r' = (dlookup r)(name \<mapsto> i)"
proof -
  have clash: "snd (dent r k) \<noteq> name" if "k < nent r" "fst (dent r k) \<noteq> 0" for k
    using new(2) that by (auto simp: dlookup_None)
  show ok': "dir_ok r'"
    unfolding dir_ok_def
  proof (intro conjI allI impI f)
    fix a b assume h: "a < nent r'" "b < nent r'" "fst (dent r' a) \<noteq> 0" "fst (dent r' b) \<noteq> 0" "snd (dent r' a) = snd (dent r' b)"
    show "a = b"
    proof (cases "a = j \<or> b = j")
      case True
      then show ?thesis using h same [of a] same [of b] clash new(1) by (metis snd_conv)
    next
      case False
      then show ?thesis using h same [of a] same [of b] dir_okD(2) [OF ok, of a b] by auto
    qed
  qed
  show "dlookup r' = (dlookup r)(name \<mapsto> i)"
  proof
    fix nm
    have "dlookup r' nm = Some v \<longleftrightarrow> ((dlookup r)(name \<mapsto> i)) nm = Some v" for v
    proof (cases "nm = name")
      case True
      have "dlookup r' name = Some i" unfolding dlookup_Some [OF ok'] using j new by blast
      then show ?thesis using True by simp
    next
      case False
      have "(\<exists>k<nent r'. dent r' k = (v, nm)) \<longleftrightarrow> (\<exists>k<nent r. dent r k = (v, nm))" if v: "v \<noteq> 0"
      proof
        assume "\<exists>k<nent r'. dent r' k = (v, nm)"
        then obtain k where k: "k < nent r'" "dent r' k = (v, nm)" by blast
        then have "k \<noteq> j" using new(1) False by auto
        then show "\<exists>k<nent r. dent r k = (v, nm)" using same [OF k(1)] k(2) by auto
      next
        assume "\<exists>k<nent r. dent r k = (v, nm)"
        then obtain k where k: "k < nent r" "dent r k = (v, nm)" by blast
        then have kj: "k \<noteq> j" "k < nent r'" using free v n by auto
        then show "\<exists>k<nent r'. dent r' k = (v, nm)" using same [OF kj(2,1)] k(2) by (intro exI [of _ k]) simp
      qed
      then show ?thesis using False by (auto simp: dlookup_Some [OF ok] dlookup_Some [OF ok'])
    qed
    then show "dlookup r' nm = ((dlookup r)(name \<mapsto> i)) nm" by (metis not_Some_eq)
  qed
qed

text \<open>One entry is freed.\<close>

lemma dir_ok_free:
  assumes ok: "dir_ok r" and j: "j < nent r" "dent r j = (i, name)" "i \<noteq> 0"
  shows "dir_ok (free_entry (dblk r j, doff j) r)" "dlookup (free_entry (dblk r j, doff j) r) = (dlookup r)(name := None)"
proof -
  define r' where "r' = free_entry (dblk r j, doff j) r"
  have r': "r' = blk_upd (dblk r j) (put16 (doff j) 0) r" by (simp add: r'_def free_entry_def MINIXFREEINO_def)
  note e = entry_upd [OF dir_okD(1) [OF ok] j(1) within_put16 [of _ 0], folded r']
  have "doff j + 1 < length (f_blk (r_fs r) (dblk r j))"
    using doff_bound [of j] unfolding reg_okD(3) [OF dir_formD(1) [OF dir_okD(1) [OF ok]]] by linarith
  then have gone: "fst (dent r' j) = 0" using e(4) [OF j(1)] by (simp add: de_ino_def put16_nth)
  have ok': "dir_ok r'"
    unfolding dir_ok_def
  proof (intro conjI allI impI e(1))
    fix a b assume h: "a < nent r'" "b < nent r'" "fst (dent r' a) \<noteq> 0" "fst (dent r' b) \<noteq> 0" "snd (dent r' a) = snd (dent r' b)"
    then have "a \<noteq> j" "b \<noteq> j" using gone by auto
    then show "a = b" using h e(2,4) dir_okD(2) [OF ok, of a b] by simp
  qed
  have "dlookup r' nm = Some v \<longleftrightarrow> ((dlookup r)(name := None)) nm = Some v" for nm v
  proof (cases "v = 0")
    case False
    have "(\<exists>k<nent r. dent r' k = (v, nm)) \<longleftrightarrow> nm \<noteq> name \<and> (\<exists>k<nent r. dent r k = (v, nm))"
    proof
      assume "\<exists>k<nent r. dent r' k = (v, nm)"
      then obtain k where k: "k < nent r" "dent r' k = (v, nm)" by blast
      then have kj: "k \<noteq> j" using gone False by auto
      then have "dent r k = (v, nm)" using e(4) [OF k(1)] k(2) by simp
      then show "nm \<noteq> name \<and> (\<exists>k<nent r. dent r k = (v, nm))"
        using dir_okD(2) [OF ok k(1) j(1)] kj j k(1) False by auto
    next
      assume "nm \<noteq> name \<and> (\<exists>k<nent r. dent r k = (v, nm))"
      then obtain k where k: "nm \<noteq> name" "k < nent r" "dent r k = (v, nm)" by blast
      then have "k \<noteq> j" using j by auto
      then show "\<exists>k<nent r. dent r' k = (v, nm)" using e(4) [OF k(2)] k by auto
    qed
    then show ?thesis using False e(2) by (auto simp: dlookup_Some [OF ok] dlookup_Some [OF ok'])
  qed (auto simp: dlookup_Some [OF ok] dlookup_Some [OF ok'])
  then have "dlookup r' = (dlookup r)(name := None)" by (intro ext) (metis not_Some_eq)
  with ok' show "dir_ok (free_entry (dblk r j, doff j) r)" "dlookup (free_entry (dblk r j, doff j) r) = (dlookup r)(name := None)"
    by (simp_all add: r'_def)
qed

lemma dir_ok_touch:
  fixes r :: reg and t :: int
  defines "r' \<equiv> r\<lparr>r_ino := (r_ino r)\<lparr>i_mtime := t\<rparr>\<rparr>"
  shows "dir_form r \<Longrightarrow> dir_form r'" "nent r' = nent r" "dent r' = dent r" "dblk r' = dblk r" "r_fs r' = r_fs r"
proof -
  have nd: "nd r' = nd r" by (simp add: nd_def fun_eq_iff r'_def)
  show b: "dblk r' = dblk r" by (intro ext) (simp add: dblk_def nd)
  show "dent r' = dent r" by (intro ext) (simp add: dent_def b, simp add: r'_def)
  show n: "nent r' = nent r" by (simp add: nent_def r'_def)
  show "r_fs r' = r_fs r" by (simp add: r'_def)
  show "dir_form r'" if "dir_form r"
    using that reg_ok_cong(1) [of r r'] unfolding dir_form_def no_holes_def n nd by (simp add: r'_def)
qed

text \<open>What \<^verbatim>\<open>addde\<close> leaves: an entry that is free, in a directory that has otherwise the entries it had.\<close>

lemma addde_slot:
  assumes ok: "dir_ok r" and s: "i_size (r_ino r) + 32 < 2 ^ 31" and nm: "name \<noteq> []" "length name \<le> 29" "dlookup r name = None"
  obtains (slot) j r' where "addde name r = Some (0, (dblk r' j, doff j), r')" "dir_form r'" "nent r \<le> nent r'" "j < nent r'"
      "\<And>k. k < nent r' \<Longrightarrow> k \<noteq> j \<Longrightarrow> k < nent r \<and> dent r' k = dent r k" "j < nent r \<Longrightarrow> fst (dent r j) = 0"
      "nent r \<le> j \<Longrightarrow> nent r mod 32 = 0 \<Longrightarrow> \<exists>b r''. writemap (nent r div 32) (grown r) = Some (0, b, r'')"
  | (halts) b r' where "addde name r = None" "\<forall>j<nent r. fst (dent r j) \<noteq> 0" "nent r mod 32 = 0" "nd r (lpos (nent r div 32)) = 0"
      "writemap (nent r div 32) (grown r) = Some (ENOSPC, b, r')"
proof -
  note d = dir_okD(1) [OF ok] and D = dir_formD [OF dir_okD(1) [OF ok]]
  have fd: "findde name r = Some None" using findde_ok [OF d] nm(3) by (simp add: dlookup_def)
  obtain sc where sc: "scandir_ctor True 0 r = Some (sc, r)" "scan_at r 0 sc" using scan_ctor_at [OF d, of 0 True] by auto
  have eq: "addde name r = map_option (\<lambda>(de, r2). (0, de, r2)) (addde_loop False sc r)"
    using nm D(2,5) fd sc(1) by (cases "addde_loop False sc r") (auto simp: addde_def MINIXNAMELEN_def DESIZE_def)
  note loop = addde_loop_ok [OF d sc(2) D(4)]
  show ?thesis
  proof (cases "List.find (\<lambda>j. fst (dent r j) = 0) [0..<nent r]")
    case (Some j)
    then have j: "j < nent r" "fst (dent r j) = 0" by (auto simp: find_Some_iff)
    show ?thesis
      using Some loop eq j dir_ok_touch [where r = r and t = "r_now r"] d
      by (intro slot [of "r\<lparr>r_ino := (r_ino r)\<lparr>i_mtime := r_now r\<rparr>\<rparr>" j]) simp_all
  next
    case None
    then have nf: "\<forall>j<nent r. fst (dent r j) \<noteq> 0" by (auto simp: find_None_iff)
    have last: "addde name r = map_option (\<lambda>(de, r2). (0, de, r2)) (addde_last r)" using None loop eq by simp
    show ?thesis
      using d s
    proof (cases rule: addde_last_ok)
      case (new r')
      let ?n = "nent r" and ?r = "blk_upd (dblk r' (nent r)) (put16 (doff (nent r)) 0) r'"
      have n: "?n < nent r'" using new(3) by simp
      note e = entry_upd [OF new(2) n within_put16 [of _ 0]]
      have b: "dblk ?r k = dblk r' k" for k using e(3) by (simp add: dblk_def)
      define t where "t = ?r\<lparr>r_ino := (r_ino ?r)\<lparr>i_mtime := r_now r'\<rparr>\<rparr>"
      have t: "t = ?r\<lparr>r_ino := (r_ino r')\<lparr>i_mtime := r_now r'\<rparr>\<rparr>" by (simp add: t_def blk_upd_def)
      note T = dir_ok_touch [where r = ?r and t = "r_now r'", folded t_def]
      show ?thesis
      proof (rule slot [of t ?n])
        show "addde name r = Some (0, (dblk t ?n, doff ?n), t)" using last new(1) by (simp add: T(4) b flip: t)
        show "dir_form t" by (rule T(1) [OF e(1)])
        show "nent r \<le> nent t" "?n < nent t" using e(2) new(3) by (simp_all add: T(2))
        show "k < nent r \<and> dent t k = dent r k" if "k < nent t" "k \<noteq> ?n" for k
          using that e(2) e(4) [of k] new(3,4) by (simp add: T(2,3))
        show "\<exists>b r''. writemap (nent r div 32) (grown r) = Some (0, b, r'')" if "nent r mod 32 = 0" using new(5) [OF that] by blast
      qed simp
    next
      case (halt b r')
      then show ?thesis using nf last by (intro halts) simp_all
    qed
  qed
qed

lemma addde_ino_new:
  assumes "dir_ok r" "i_size (r_ino r) + 32 < 2 ^ 31" and n: "name \<noteq> []" "length name \<le> 29" "dlookup r name = None"
    and z: "0 \<notin> set name" and i0: "i \<noteq> 0"
  shows "(\<exists>r'. addde_ino name i r = Some (0, r') \<and> dir_ok r' \<and> dlookup r' = (dlookup r)(name \<mapsto> i)) \<or>
       (addde_ino name i r = None \<and> (\<forall>j<nent r. fst (dent r j) \<noteq> 0) \<and> nent r mod 32 = 0 \<and>
        (\<exists>b r'. writemap (nent r div 32) (grown r) = Some (ENOSPC, b, r')))"
  using assms(1,2) n
proof (cases rule: addde_slot)
  case (slot j r')
  let ?f = "\<lambda>d. put16 (doff j) i (set_name name (doff j) d)"
  have w: "within (doff j) ?f" by (rule within_set [OF n(2) doff_bound])
  note e = entry_upd [OF slot(2,4) w]
  have len: "length (f_blk (r_fs r') (dblk r' j)) = 1024" by (rule reg_okD(3) [OF dir_formD(1) [OF slot(2)]])
  have new: "dent (blk_upd (dblk r' j) ?f r') j = (i, name)" using e(4) [OF slot(4)] entry_set [OF len doff_bound n(2) z] by simp
  have same: "k < nent r \<and> dent (blk_upd (dblk r' j) ?f r') k = dent r k" if "k < nent (blk_upd (dblk r' j) ?f r')" "k \<noteq> j" for k
    using that e(2) e(4) [of k] slot(5) [of k] by simp
  have "nent r \<le> nent (blk_upd (dblk r' j) ?f r')" "j < nent (blk_upd (dblk r' j) ?f r')" using e(2) slot(3,4) by simp_all
  from dir_ok_change [OF assms(1) e(1) this same slot(6) new n(3) i0] show ?thesis
    using slot(1) by (simp add: addde_ino_def)
next
  case halts
  then show ?thesis by (simp add: addde_ino_def)
qed

text \<open>
  C12: A directory is a map from names to inode numbers.  On a well-formed directory \<^verbatim>\<open>findde\<close> finds exactly the names of
  the map; \<^verbatim>\<open>addde\<close> of an inode refuses names that are too long, empty or taken, and otherwise the new directory is
  well-formed and its map is the old one with the name added; it stops the kernel only when no entry is free, the last
  block is full and no zone can be had for another.  Freeing the entry found takes the name out of the map.
\<close>

theorem directory_refines_map:
  assumes "dir_ok r" "i_size (r_ino r) + 32 < 2 ^ 31" "0 \<notin> set name" "i \<noteq> 0"
  shows "(findde name r = Some None \<longleftrightarrow> dlookup r name = None) \<and>
    (length name > 29 \<longrightarrow> addde_ino name i r = Some (ENAMETOOLONG, r)) \<and>
    (name = [] \<longrightarrow> addde_ino name i r = Some (EPERM, r)) \<and>
    (name \<noteq> [] \<and> length name \<le> 29 \<and> dlookup r name \<noteq> None \<longrightarrow> addde_ino name i r = Some (EEXIST, r)) \<and>
    (name \<noteq> [] \<and> length name \<le> 29 \<and> dlookup r name = None \<longrightarrow>
       (\<exists>r'. addde_ino name i r = Some (0, r') \<and> dir_ok r' \<and> dlookup r' = (dlookup r)(name \<mapsto> i)) \<or>
       (addde_ino name i r = None \<and> (\<forall>j<nent r. fst (dent r j) \<noteq> 0) \<and> nent r mod 32 = 0 \<and>
        (\<exists>b r'. writemap (nent r div 32) (grown r) = Some (ENOSPC, b, r')))) \<and>
    (\<forall>de. findde name r = Some (Some de) \<longrightarrow> dir_ok (free_entry de r) \<and> dlookup (free_entry de r) = (dlookup r)(name := None))"
proof (intro conjI impI allI)
  note d = dir_okD(1) [OF assms(1)] and D = dir_formD [OF dir_okD(1) [OF assms(1)]]
  note fd = findde_ok [OF d, of name]
  show "findde name r = Some None \<longleftrightarrow> dlookup r name = None" using fd by (simp add: dlookup_def)
  show "addde_ino name i r = Some (ENAMETOOLONG, r)" if "length name > 29"
    using that D(2) by (simp add: addde_ino_def addde_def MINIXNAMELEN_def errno_simps)
  show "addde_ino name i r = Some (EPERM, r)" if "name = []"
    using that D(2) by (simp add: addde_ino_def addde_def MINIXNAMELEN_def errno_simps)
  show "addde_ino name i r = Some (EEXIST, r)" if "name \<noteq> [] \<and> length name \<le> 29 \<and> dlookup r name \<noteq> None"
    using that D(2,5) fd by (auto simp: addde_ino_def addde_def MINIXNAMELEN_def DESIZE_def errno_simps dlookup_def)
  have del: "dir_ok (free_entry de r) \<and> dlookup (free_entry de r) = (dlookup r)(name := None)" if a: "findde name r = Some (Some de)" for de
  proof -
    obtain j where j: "dfind (\<lambda>(i, nm). i \<noteq> 0 \<and> nm = name) r = Some j" "de = (dblk r j, doff j)" using a fd by auto
    then have "j < nent r" "dent r j = (fst (dent r j), name)" "fst (dent r j) \<noteq> 0" using dfind_Some [OF j(1)] by (auto simp: case_prod_beta')
    from dir_ok_free [OF assms(1) this] j(2) show ?thesis by simp
  qed
  show "dir_ok (free_entry de r)" "dlookup (free_entry de r) = (dlookup r)(name := None)" if "findde name r = Some (Some de)" for de
    using del [OF that] by simp_all
qed (use addde_ino_new [OF assms(1,2) _ _ _ assms(3,4)] in blast)

lemma writemap_full:
  assumes ok: "reg_ok r" and f: "isfile r" and l: "l < MINIXEND3" and n: "nd r (lpos l) = 0" and e: "free_zones (r_fs r) = {}"
  shows "\<exists>b r'. writemap l r = Some (ENOSPC, b, r')"
proof -
  obtain e z r' where w: "writemap l r = Some (e, bno_of z, r')" and g: "grows (lpos l) r r'" and
    a: "e = 0 \<and> z = nd r' (lpos l) \<and> z \<noteq> 0 \<or> e = ENOSPC \<and> free_zones (r_fs r') = {} \<and> (\<forall>p. full p \<longrightarrow> nd r' p = nd r p)"
    by (rule writemap_ok [OF ok f l])
  have v: "vpos (lpos l)" using full_lpos by (simp add: full_def)
  have "nd r' (lpos l) = 0"
  proof (rule ccontr)
    assume nz: "nd r' (lpos l) \<noteq> 0"
    then have "bno_of (nd r' (lpos l)) \<in> file_zones r'" using v unfolding file_zones_iff by blast
    then have "bno_of (nd r' (lpos l)) \<in> file_zones r" using growsD(7) [OF g] assms(5) by (auto simp: frame_def)
    then obtain p where p: "vpos p" "nd r p \<noteq> 0" "nd r' (lpos l) = nd r p" unfolding file_zones_iff by auto
    then have "nd r' (lpos l) = nd r' p" using growsD(4) [OF g] by simp
    from reg_okD(6) [OF growsD(1) [OF g] v p(1) nz this] show False using p(2) n by simp
  qed
  then show ?thesis using w a by auto
qed

text \<open>
  C38: Creating an entry on a full disk stops the kernel.  When every entry of the directory is in use, its last block is
  full and no zone is free, \<^verbatim>\<open>addde\<close> of any good new name reaches \<^verbatim>\<open>panic("should not reach here")\<close>.
\<close>

theorem full_disk_panics:
  assumes "dir_ok r" "i_size (r_ino r) + 32 < 2 ^ 31" "\<forall>j<nent r. fst (dent r j) \<noteq> 0" "nent r mod 32 = 0"
    "nd r (lpos (nent r div 32)) = 0" "free_zones (r_fs r) = {}" "name \<noteq> []" "length name \<le> 29" "dlookup r name = None"
  shows "addde_ino name i r = None"
proof -
  note d = dir_okD(1) [OF assms(1)] and D = dir_formD [OF dir_okD(1) [OF assms(1)]]
  have fg: "isfile (grown r)" using D(3) by (simp add: isfile_def grown_simps)
  obtain b r' where w: "writemap (nent r div 32) (grown r) = Some (ENOSPC, b, r')"
    using writemap_full [OF grown_ok(1) [OF D(1)] fg D(7) [OF order_refl]] assms(5,6) by (auto simp: grown_ok grown_simps)
  from assms(1,2,7,8,9) show ?thesis
  proof (cases rule: addde_slot)
    case (slot j r')
    then have "nent r \<le> j" using assms(3) by (metis not_le)
    then show ?thesis using slot(7) assms(4) w by (auto simp: errno_simps)
  next
    case halts
    then show ?thesis by (simp add: addde_ino_def)
  qed
qed

subsection \<open>A small directory\<close>

definition de_bytes :: "u16 \<times> u8 list \<Rightarrow> u8 list" where
  "de_bytes e = [ucast (fst e), ucast (drop_bit 8 (fst e))] @ snd e @ replicate (30 - length (snd e)) 0"

text \<open>One block of entries in zone 10; zone 11 is free or the disk is full.\<close>

definition demo_dir :: "(u16 \<times> u8 list) list \<Rightarrow> bool \<Rightarrow> reg" where
  "demo_dir es space = \<lparr>r_fs = small_fs\<lparr>f_zmap := [if space then small_map demo_zw 1 else small_map (-1) 0],
       f_blk := \<lambda>_. take 1024 (concat (map de_bytes es) @ replicate 1024 0)\<rparr>,
     r_ino = \<lparr>i_mode = 0x41ed, i_nlink = 2, i_uid = 0, i_gid = 0, i_size = 32 * length es,
       i_daddr = 10 # replicate 9 0, i_state = 1, i_atime = 0, i_mtime = 0, i_ctime = 0\<rparr>, r_now = 5\<rparr>"

definition good_entry :: "u16 \<times> u8 list \<Rightarrow> bool" where
  "good_entry e \<longleftrightarrow> length (snd e) \<le> 29 \<and> 0 \<notin> set (snd e)"

lemma demo_dir_fs: "fs_ok (r_fs (demo_dir es space))" "free_zones (r_fs (demo_dir es space)) = (if space then {11} else {})"
proof -
  have n: "nbit (small_map w z) = 8192" for w z by (simp add: small_map_def)
  have b: "bm_ok (small_map demo_zw 1)" "bm_ok (small_map (-1) 0)"
    by (simp_all add: bm_ok_def small_map_clear demo_words) (simp_all add: small_map_def)
  have z: "map_clear (f_zmap (r_fs (demo_dir es space))) = (if space then {2} else {})"
    using map_clear_single [OF b(1) n] map_clear_single [OF b(2) n]
    by (simp add: demo_dir_def small_map_clear demo_words)
  have i: "map_clear (f_imap (r_fs (demo_dir es space))) = {3}" using small_fs_ok(2) by (simp add: demo_dir_def)
  show "fs_ok (r_fs (demo_dir es space))"
    unfolding fs_ok_def i z using small_maps n b by (simp add: demo_dir_def small_fs_def maps_ok_def)
  show "free_zones (r_fs (demo_dir es space)) = (if space then {11} else {})"
    unfolding free_zones_def z by (auto simp: zone_of_def demo_dir_def small_fs_def)
qed

lemma demo_dir_nd: "vpos p \<Longrightarrow> nd (demo_dir es space) p = (if p = (0, []) then 10 else 0)"
proof (cases p)
  case (Pair i ks)
  assume "vpos p"
  with Pair have i: "i < 10" "i = 0 \<Longrightarrow> ks = []" by (auto simp: vpos_def depth_def)
  have "i_daddr (r_ino (demo_dir es space)) ! i = (if i = 0 then 10 else 0)"
    using i(1) by (cases i) (simp_all add: demo_dir_def)
  then show ?thesis using Pair i(2) by (cases "i = 0") (simp_all add: nd_def)
qed

lemma demo_dir_reg: "reg_ok (demo_dir es space)" 
  unfolding reg_ok_def
proof (intro conjI allI impI)
  show "fs_ok (r_fs (demo_dir es space))" by (rule demo_dir_fs)
  show "p = q" if "vpos p" "vpos q" "nd (demo_dir es space) p \<noteq> 0" "nd (demo_dir es space) p = nd (demo_dir es space) q" for p q
    using that by (auto simp: demo_dir_nd split: if_splits)
  fix p assume p: "vpos p" "nd (demo_dir es space) p \<noteq> 0"
  then show "bno_of (nd (demo_dir es space) p) \<notin> free_zones (r_fs (demo_dir es space))"
    by (simp add: demo_dir_nd demo_dir_fs bno_of_def split: if_splits)
  show "int (unat (f_datazone (r_fs (demo_dir es space)))) \<le> bno_of (nd (demo_dir es space) p)"
    "bno_of (nd (demo_dir es space) p) < int (unat (f_nzone (r_fs (demo_dir es space))))"
    using p by (simp_all add: demo_dir_nd bno_of_def split: if_splits) (simp_all add: demo_dir_def small_fs_def)
qed (simp_all add: demo_dir_def small_fs_def)

lemma length_de_bytes: "good_entry e \<Longrightarrow> length (de_bytes e) = 32"
  by (auto simp: good_entry_def de_bytes_def)

lemma drop_entries:
  "\<forall>e\<in>set es. good_entry e \<Longrightarrow> k < length es \<Longrightarrow>
   drop (32 * k) (concat (map de_bytes es) @ zs) = de_bytes (es ! k) @ concat (map de_bytes (drop (Suc k) es)) @ zs"
proof (induction es arbitrary: k)
  case (Cons e es)
  show ?case
  proof (cases k)
    case (Suc k')
    then have "drop (32 * k) (concat (map de_bytes (e # es)) @ zs) = drop (32 * k') (concat (map de_bytes es) @ zs)"
      using Cons.prems(1) by (simp add: length_de_bytes)
    then show ?thesis using Cons Suc by simp
  qed simp
qed simp

lemma entry_bytes:
  assumes "good_entry e" "drop off d = de_bytes e @ rest"
  shows "de_ino d off = fst e" "de_name d off = snd e"
proof -
  have l: "off < length d" using assms length_de_bytes [OF assms(1)] by (metis add_eq_0_iff_both_eq_0 drop_all length_append list.size(3) not_le numeral_eq_Suc zero_neq_numeral)
  have nth: "d ! (off + k) = (de_bytes e @ rest) ! k" for k using l assms(2) nth_drop [of off d k] by simp
  have "get16 d off = get16 (de_bytes e @ rest) 0" using nth [of 0] nth [of 1] by (simp add: get16_def)
  then show "de_ino d off = fst e" by (simp only: de_ino_def de_bytes_def append_assoc get16_put16)
  have "drop (off + 2) d = drop 2 (drop off d)" by (simp add: add.commute)
  also have "\<dots> = snd e @ replicate (30 - length (snd e)) 0 @ rest" by (simp add: assms(2) de_bytes_def)
  finally have "drop (off + 2) d = snd e @ replicate (30 - length (snd e)) 0 @ rest" .
  moreover have "takeWhile (\<lambda>c. c \<noteq> 0) (take 29 (snd e @ replicate (30 - length (snd e)) 0 @ rest)) = snd e"
  proof -
    obtain m where m: "30 - length (snd e) = Suc m" using assms(1) by (cases "30 - length (snd e)") (auto simp: good_entry_def)
    have all: "takeWhile (\<lambda>c. c \<noteq> 0) (snd e @ xs) = snd e @ takeWhile (\<lambda>c. c \<noteq> 0) xs" for xs :: "u8 list"
      using assms(1) by (intro takeWhile_append2) (auto simp: good_entry_def)
    show ?thesis using assms(1) m by (cases "29 - length (snd e)") (auto simp: all good_entry_def)
  qed
  ultimately show "de_name d off = snd e" by (simp add: de_name_def MINIXNAMELEN_def)
qed

lemma demo_dir_ok:
  assumes g: "\<forall>e\<in>set es. good_entry e" and l: "0 < length es" "length es \<le> 32" and d: "distinct (map snd es)"
  shows "dir_ok (demo_dir es space)" "nent (demo_dir es space) = length es" "k < length es \<Longrightarrow> dent (demo_dir es space) k = es ! k"
proof -
  let ?r = "demo_dir es space"
  have sz: "i_size (r_ino ?r) = 32 * length es" by (simp add: demo_dir_def)
  then show n: "nent ?r = length es" by (simp add: nent_def)
  have v0: "vpos (0, [])" by (simp add: vpos_def)
  have z: "nd ?r (lpos (k div 32)) = 10" if "k < length es" for k
    using that l(2) demo_dir_nd [OF v0] by (simp add: lpos_def minixends)
  have "no_holes ?r"
    unfolding no_holes_def
  proof (intro allI impI)
    fix x assume "x < i_size (r_ino ?r)"
    then have "x div 1024 = 0" using sz l(2) by simp
    then show "nd ?r (lpos (x div 1024)) \<noteq> 0" using demo_dir_nd [OF v0] by (simp add: lpos_def minixends)
  qed
  then have f: "dir_form ?r"
    using demo_dir_reg l sz n unfolding dir_form_def by (simp add: demo_dir_def SISDIR_def SIFMT_def)
  have ent: "dent ?r k = es ! k" if k: "k < length es" for k
  proof -
    have "length (concat (map de_bytes xs)) = 32 * length xs" if "\<forall>e\<in>set xs. good_entry e" for xs
      using that by (induction xs) (simp_all add: length_de_bytes)
    then have blk: "f_blk (r_fs ?r) b = concat (map de_bytes es) @ replicate (1024 - 32 * length es) 0" for b
      using g l(2) by (simp add: demo_dir_def min_def)
    have off: "doff k = 32 * k" using k l(2) by (simp add: doff_def)
    have "good_entry (es ! k)" using g k by simp
    from entry_bytes [OF this drop_entries [OF g k]] show ?thesis by (simp add: dent_def Let_def blk off)
  qed
  then show "k < length es \<Longrightarrow> dent ?r k = es ! k" .
  show "dir_ok ?r" unfolding dir_ok_def n using f d by (auto simp: ent nth_eq_iff_index_eq distinct_conv_nth)
qed

theorem directory_map_witness:
  "\<exists>r'. addde_ino [97] 3 (demo_dir [(1, [46]), (1, [46, 46])] True) = Some (0, r') \<and> dir_ok r' \<and> dlookup r' [97] = Some 3"
proof -
  let ?r = "demo_dir [(1, [46]), (1, [46, 46])] True"
  have ok: "dir_ok ?r" "nent ?r = 2" "dent ?r 0 = (1, [46])" "dent ?r 1 = (1, [46, 46])"
    using demo_dir_ok(1,2) [of "[(1, [46]), (1, [46, 46])]" True] demo_dir_ok(3) [of "[(1, [46]), (1, [46, 46])]", where k = 0 and space = True]
      demo_dir_ok(3) [of "[(1, [46]), (1, [46, 46])]", where k = 1 and space = True] by (simp_all add: good_entry_def)
  have "dlookup ?r [97] = None" unfolding dlookup_None ok(2) using ok(3,4) by (auto simp: less_2_cases_iff)
  moreover have "i_size (r_ino ?r) + 32 < 2 ^ 31" by (simp add: demo_dir_def)
  ultimately show ?thesis using directory_refines_map [OF ok(1), of "[97]" 3] ok(2) by auto
qed

theorem full_disk_witness:
  "addde_ino [97] 3 (demo_dir (map (\<lambda>k. (of_nat (k + 1), [of_nat (k + 1)])) [0..<32]) False) = None"
proof -
  let ?es = "map (\<lambda>k. (of_nat (k + 1), [of_nat (k + 1)])) [0..<32] :: (u16 \<times> u8 list) list"
  let ?r = "demo_dir ?es False"
  have w: "(of_nat (k + 1) :: u8) \<noteq> 0" "(of_nat (k + 1) :: u16) \<noteq> 0" "(of_nat (k + 1) :: u8) \<noteq> 97" if "k < 32" for k
  proof -
    have "unat (of_nat (k + 1) :: u8) = k + 1" "unat (of_nat (k + 1) :: u16) = k + 1" using that
      by (simp_all add: unat_of_nat del: of_nat_add of_nat_Suc)
    then show "(of_nat (k + 1) :: u8) \<noteq> 0" "(of_nat (k + 1) :: u16) \<noteq> 0" "(of_nat (k + 1) :: u8) \<noteq> 97" using that
      by (auto simp del: of_nat_add of_nat_Suc)
  qed
  have "distinct (map snd ?es)"
  proof -
    have "inj_on (\<lambda>k. [of_nat (k + 1) :: u8]) {0..<32}"
    proof (rule inj_onI)
      fix x y :: nat assume a: "x \<in> {0..<32}" "y \<in> {0..<32}" "[of_nat (x + 1) :: u8] = [of_nat (y + 1)]"
      then have "unat (of_nat (x + 1) :: u8) = unat (of_nat (y + 1) :: u8)" by simp
      then show "x = y" using a(1,2) by (simp add: unat_of_nat del: of_nat_add of_nat_Suc)
    qed
    then show ?thesis by (simp add: distinct_map o_def del: of_nat_add of_nat_Suc)
  qed
  moreover have "\<forall>e\<in>set ?es. good_entry e" using w by (auto simp: good_entry_def simp del: of_nat_add of_nat_Suc)
  ultimately have ok: "dir_ok ?r" "nent ?r = 32" "\<And>k. k < 32 \<Longrightarrow> dent ?r k = (of_nat (k + 1), [of_nat (k + 1)])"
    using demo_dir_ok(1,2) [of ?es False] demo_dir_ok(3) [of ?es, where space = False] by (simp_all del: of_nat_add of_nat_Suc)
  show ?thesis
  proof (rule full_disk_panics [OF ok(1)])
    show "i_size (r_ino ?r) + 32 < 2 ^ 31" by (simp add: demo_dir_def)
    show "\<forall>j<nent ?r. fst (dent ?r j) \<noteq> 0" unfolding ok(2) using ok(3) w by simp
    show "dlookup ?r [97] = None" unfolding dlookup_None ok(2) using ok(3) w by auto
    show "nd ?r (lpos (nent ?r div 32)) = 0"
      unfolding ok(2) using demo_dir_nd [of "(1, [])" ?es False] by (simp add: lpos_def minixends vpos_def)
    show "free_zones (r_fs ?r) = {}" by (simp add: demo_dir_fs)
    show "nent ?r mod 32 = 0" unfolding ok(2) by simp
  qed simp_all
qed

end
