(* ===== verification/Fs_Icache.thy ===== *)
theory Fs_Icache
  imports Fs_Trunc
begin

text \<open>
  Inodes in memory and on disk (\<^verbatim>\<open>fs/icache.cc\<close>).  The cache is modelled by what its users see: the inode of
  every number with its state, and the list of references that are held, so that \<^verbatim>\<open>refcnt\<close> is the number of occurrences.
  \<^verbatim>\<open>geti\<close> fails when every inode of the cache is referenced; which unreferenced inode it evicts does not
  matter, because a dirty one is written first and read back from the disk (the round trip below).  Hash and free
  queues and the lock of an inode are not modelled.  There is one mounted file system.
\<close>

definition ENFILE :: int where [errno_simps]: "ENFILE = -23"
definition EBUSY :: int where [errno_simps]: "EBUSY = -16"

definition IINVAL :: int where "IINVAL = 0"
definition ICLEAN :: int where "ICLEAN = 1"

record vfs =
  v_fs :: fsys
  v_ino :: "nat \<Rightarrow> inode"
  v_held :: "nat list"
  v_ninode :: nat
  v_now :: int
  v_root :: nat
  v_cwd :: nat
  v_uid :: u16
  v_gid :: u16
  v_euid :: u16
  v_egid :: u16
  v_umask :: u16

definition v_reg :: "nat \<Rightarrow> vfs \<Rightarrow> reg" where
  "v_reg i v = \<lparr>r_fs = v_fs v, r_ino = v_ino v i, r_now = v_now v\<rparr>"

definition v_put :: "nat \<Rightarrow> reg \<Rightarrow> vfs \<Rightarrow> vfs" where
  "v_put i r v = v\<lparr>v_fs := r_fs r, v_ino := (v_ino v)(i := r_ino r)\<rparr>"

definition v_upd :: "nat \<Rightarrow> (inode \<Rightarrow> inode) \<Rightarrow> vfs \<Rightarrow> vfs" where
  "v_upd i f v = v\<lparr>v_ino := (v_ino v)(i := f (v_ino v i))\<rparr>"

definition v_setdirty :: "nat \<Rightarrow> vfs \<Rightarrow> vfs" where
  "v_setdirty i v = v_upd i (\<lambda>x. x\<lparr>i_state := IDIRTY, i_ctime := v_now v\<rparr>) v"

definition v_refcnt :: "nat \<Rightarrow> vfs \<Rightarrow> nat" where
  "v_refcnt i v = count_list (v_held v) i"

definition v_hold :: "nat \<Rightarrow> vfs \<Rightarrow> vfs" where
  "v_hold i v = v\<lparr>v_held := i # v_held v\<rparr>"

subsection \<open>The inode on disk\<close>

definition di_load :: "u8 list \<Rightarrow> nat \<Rightarrow> inode \<Rightarrow> inode" where
  "di_load d off i = i\<lparr>i_mode := get16 d off, i_nlink := get16 d (off + 2), i_uid := get16 d (off + 4), i_gid := get16 d (off + 6),
     i_size := unat (get32 d (off + 8)), i_atime := uint (get32 d (off + 12)), i_mtime := uint (get32 d (off + 16)),
     i_ctime := uint (get32 d (off + 20)), i_daddr := map (\<lambda>k. get32 d (off + 24 + 4 * k)) [0..<10]\<rparr>"

primrec put_daddr :: "nat \<Rightarrow> u32 list \<Rightarrow> u8 list \<Rightarrow> u8 list" where
  "put_daddr off [] d = d"
| "put_daddr off (z # zs) d = put_daddr (off + 4) zs (put32 off z d)"

definition di_store :: "inode \<Rightarrow> nat \<Rightarrow> u8 list \<Rightarrow> u8 list" where
  "di_store i off d = put_daddr (off + 24) (i_daddr i) (put32 (off + 20) (word_of_int (i_ctime i)) (put32 (off + 16) (word_of_int (i_mtime i))
     (put32 (off + 12) (word_of_int (i_atime i)) (put32 (off + 8) (of_nat (i_size i)) (put16 (off + 6) (i_gid i)
     (put16 (off + 4) (i_uid i) (put16 (off + 2) (i_nlink i) (put16 off (i_mode i) d))))))))"

definition iread :: "nat \<Rightarrow> vfs \<Rightarrow> int \<times> vfs" where
  "iread i v =
     (if i_state (v_ino v i) \<noteq> IINVAL then (0, v)
      else case seeki (of_nat i) (v_fs v) of
        (e, None) \<Rightarrow> (e, v)
      | (e, Some (bno, off)) \<Rightarrow> (0, v_upd i (\<lambda>x. (di_load (f_blk (v_fs v) bno) off x)\<lparr>i_state := ICLEAN\<rparr>) v))"

definition iwrite :: "nat \<Rightarrow> vfs \<Rightarrow> int \<times> vfs" where
  "iwrite i v =
     (if i_state (v_ino v i) \<noteq> IDIRTY then (0, v)
      else case seeki (of_nat i) (v_fs v) of
        (e, None) \<Rightarrow> (e, v)
      | (e, Some (bno, off)) \<Rightarrow>
          (0, v_upd i (\<lambda>x. x\<lparr>i_state := ICLEAN\<rparr>)
                (v\<lparr>v_fs := f_writeb bno (di_store (v_ino v i) off (f_blk (v_fs v) bno)) (v_fs v)\<rparr>)))"

subsection \<open>References\<close>

definition geti :: "nat \<Rightarrow> vfs \<Rightarrow> vfs option" where
  "geti i v = (if i \<notin> set (v_held v) \<and> v_ninode v \<le> length (remdups (v_held v)) then None else Some (v_hold i v))"

definition v_lose :: "nat \<Rightarrow> vfs \<Rightarrow> vfs option" where
  "v_lose i v = do {
     kassert (i \<in> set (v_held v));
     let v1 = v\<lparr>v_held := remove1 i (v_held v)\<rparr>;
     if i \<in> set (v_held v1) then Some v1
     else if i_state (v_ino v1 i) = IINVAL then Some v1
     else if i_nlink (v_ino v1 i) \<noteq> 0 then Some v1
     else do {
       (e, r) \<leftarrow> inode_truncate (v_reg i v1);
       let v2 = v_put i r v1;
       s \<leftarrow> freei i (v_fs v2);
       Some (v_upd i (\<lambda>x. x\<lparr>i_state := IINVAL\<rparr>) (v2\<lparr>v_fs := s\<rparr>)) } }"

definition readi :: "nat \<Rightarrow> vfs \<Rightarrow> (int \<times> vfs) option" where
  "readi i v = (case geti i v of
     None \<Rightarrow> Some (ENFILE, v)
   | Some v1 \<Rightarrow>
       if i_state (v_ino v1 i) \<noteq> IINVAL then Some (0, v1)
       else case iread i v1 of (e, v2) \<Rightarrow>
         if e \<noteq> 0 then map_option (\<lambda>v3. (e, v3)) (v_lose i v2) else Some (0, v2))"

definition v_lose2 :: "nat \<Rightarrow> vfs \<Rightarrow> vfs option" where
  "v_lose2 i v = v_lose i (v_setdirty i v)"

subsection \<open>Sync and unmount\<close>

definition sync_inode :: "nat \<Rightarrow> vfs \<Rightarrow> vfs option" where
  "sync_inode i v = (let v1 = v_hold i v; (e, v2) = iwrite i v1 in v_lose i v2)"

definition synci :: "nat list \<Rightarrow> vfs \<Rightarrow> vfs option" where
  "synci allq v = foldM sync_inode allq v"

fun tryumount :: "nat \<Rightarrow> nat list \<Rightarrow> vfs \<Rightarrow> int" where
  "tryumount root [] v = 0"
| "tryumount root (i # allq) v =
     (if i = root then if v_refcnt i v \<noteq> 1 then EBUSY else tryumount root allq v
      else if v_refcnt i v \<noteq> 0 then EBUSY else tryumount root allq v)"

definition invali :: "nat list \<Rightarrow> vfs \<Rightarrow> vfs" where
  "invali allq v = fold (\<lambda>i. v_upd i (\<lambda>x. x\<lparr>i_state := IINVAL\<rparr>)) allq v"

text \<open>
  Eviction in \<^verbatim>\<open>geti\<close>: when no \<^verbatim>\<open>inode_t\<close> of the cache holds inode \<open>i\<close>, an unreferenced clean one is
  relabelled as \<open>i\<close> with state \<^verbatim>\<open>IINVAL\<close>.  Its other fields stay those of its former owner, \<open>x\<close>, which has
  nothing to do with \<open>i\<close>.
\<close>

definition recycle_inode :: "nat \<Rightarrow> inode \<Rightarrow> vfs \<Rightarrow> vfs" where
  "recycle_inode i x v = v_upd i (\<lambda>_. x\<lparr>i_state := IINVAL\<rparr>) v"

subsection \<open>What is stored is what is loaded\<close>

lemma get_put_apart:
  "a + 2 \<le> b \<or> b + 2 \<le> a \<Longrightarrow> get16 (put16 b w d) a = get16 d a"
  "a + 2 \<le> b \<or> b + 4 \<le> a \<Longrightarrow> get16 (put32 b z d) a = get16 d a"
  "a + 4 \<le> b \<or> b + 2 \<le> a \<Longrightarrow> get32 (put16 b w d) a = get32 d a"
  "a + 4 \<le> b \<or> b + 4 \<le> a \<Longrightarrow> get32 (put32 b z d) a = get32 d a"
  by (auto simp: get16_def put16_def get32_def put32_def)

lemma get16_put16_same: "a + 1 < length d \<Longrightarrow> get16 (put16 a w d) a = w"
proof -
  assume a: "a + 1 < length d"
  have "get16 (put16 a w d) a = get16 ([ucast w, ucast (drop_bit 8 w)] @ []) 0" using a by (simp add: get16_def put16_def)
  then show ?thesis by (simp only: get16_put16)
qed

lemma length_put [simp]: "length (put16 a w d) = length d"
  by (simp add: put16_def)

lemma length_put_daddr [simp]: "length (put_daddr off zs d) = length d"
  by (induction zs arbitrary: off d) simp_all

lemma put_daddr_apart:
  "a + 2 \<le> off \<or> off + 4 * length zs \<le> a \<Longrightarrow> get16 (put_daddr off zs d) a = get16 d a"
  "a + 4 \<le> off \<or> off + 4 * length zs \<le> a \<Longrightarrow> get32 (put_daddr off zs d) a = get32 d a"
  by (induction zs arbitrary: off d) (auto simp: get_put_apart)

lemma put_daddr_get: "k < length zs \<Longrightarrow> off + 4 * length zs \<le> length d \<Longrightarrow> get32 (put_daddr off zs d) (off + 4 * k) = zs ! k"
proof (induction zs arbitrary: off d k)
  case (Cons z zs)
  show ?case
  proof (cases k)
    case 0
    then show ?thesis using Cons.prems by (simp add: put_daddr_apart get32_put32)
  next
    case (Suc j)
    then have "off + 4 * k = off + 4 + 4 * j" by simp
    then show ?thesis using Cons.IH [of j "off + 4" "put32 off z d"] Cons.prems Suc by (simp add: add.assoc)
  qed
qed simp

definition storable :: "inode \<Rightarrow> bool" where
  "storable i \<longleftrightarrow> i_size i < 2 ^ 32 \<and> length (i_daddr i) = 10 \<and> 0 \<le> i_atime i \<and> i_atime i < 2 ^ 32 \<and>
     0 \<le> i_mtime i \<and> i_mtime i < 2 ^ 32 \<and> 0 \<le> i_ctime i \<and> i_ctime i < 2 ^ 32"

lemma word32_back:
  "n < 2 ^ 32 \<Longrightarrow> unat (of_nat n :: u32) = n" "0 \<le> t \<Longrightarrow> t < 2 ^ 32 \<Longrightarrow> uint (word_of_int t :: u32) = t"
  by (simp_all add: unat_of_nat uint_word_of_int_eq take_bit_int_eq_self)

lemma di_load_store:
  assumes "storable i" "off + 64 \<le> length d"
  shows "di_load (di_store i off d) off j = i\<lparr>i_state := i_state j\<rparr>"
proof -
  have l: "length (i_daddr i) = 10" using assms(1) by (simp add: storable_def)
  let ?d = "di_store i off d"
  have "get16 ?d off = i_mode i" "get16 ?d (off + 2) = i_nlink i" "get16 ?d (off + 4) = i_uid i" "get16 ?d (off + 6) = i_gid i"
    using assms(2) by (simp_all add: di_store_def put_daddr_apart get_put_apart get16_put16_same)
  moreover have "get32 ?d (off + 8) = of_nat (i_size i)" "get32 ?d (off + 12) = word_of_int (i_atime i)"
    "get32 ?d (off + 16) = word_of_int (i_mtime i)" "get32 ?d (off + 20) = word_of_int (i_ctime i)"
    using assms(2) by (simp_all add: di_store_def put_daddr_apart get_put_apart get32_put32)
  moreover have "map (\<lambda>k. get32 ?d (off + 24 + 4 * k)) [0..<10] = i_daddr i"
    using assms(2) l put_daddr_get [of _ "i_daddr i" "off + 24"] by (intro nth_equalityI) (simp_all add: di_store_def)
  ultimately show ?thesis using assms(1) unfolding di_load_def storable_def by (simp add: word32_back)
qed

text \<open>A store leaves every other slot of the block alone.\<close>

lemma di_load_other:
  assumes "off' + 64 \<le> off \<or> off + 64 \<le> off'" "length (i_daddr i) = 10"
  shows "di_load (di_store i off d) off' j = di_load d off' j"
  using assms by (auto simp: di_load_def di_store_def put_daddr_apart get_put_apart)

lemma seeki_off:
  assumes "seeki ino s = (e, Some (bno, off))"
  shows "off + 64 \<le> 1024" "e = 0"
    "off = unat ((ino - 1) * 64) mod 1024" "bno = 2 + int (unat (f_nimapblock s)) + int (unat (f_nzmapblock s)) + int (unat ((ino - 1) * 64) div 1024)"
proof -
  show o: "off = unat ((ino - 1) * 64) mod 1024" and "e = 0"
    "bno = 2 + int (unat (f_nimapblock s)) + int (unat (f_nzmapblock s)) + int (unat ((ino - 1) * 64) div 1024)"
    using assms by (auto simp: seeki_def Let_def MINIXBSIZE_def split: if_splits sum.splits)
  have "unat ((ino - 1) * 64) mod 64 = 0"
  proof -
    have "unat (w * 64) mod 64 = 0" for w :: u32 by (simp add: unat_word_ariths(2) mod_mod_cancel)
    then show ?thesis .
  qed
  then have "off mod 64 = 0" using o by (simp add: mod_mod_cancel)
  moreover have "off < 1024" using o by simp
  ultimately obtain q where "off = 64 * q" "q < 16" by (auto simp: dvd_def mod_eq_0_iff_dvd)
  then show "off + 64 \<le> 1024" by simp
qed

text \<open>
  C16: An inode survives eviction.  Writing a dirty inode back succeeds whenever its slot can be read; when
  the \<^verbatim>\<open>inode_t\<close> was given to others since, and one with arbitrary fields \<open>x\<close> of a former owner is recycled for the
  inode, reading it from the disk restores every field, and the inode is clean; the slots of the other inodes
  on the disk load what they loaded before.
\<close>

theorem inode_eviction_roundtrip:
  assumes "i_state (v_ino v i) = IDIRTY" "storable (v_ino v i)" "seeki (of_nat i) (v_fs v) = (0, Some (bno, off))"
    "\<forall>n. length (f_blk (v_fs v) n) = 1024"
  shows "\<exists>v1 v3. iwrite i v = (0, v1) \<and> iread i (recycle_inode i x v1) = (0, v3) \<and> v_ino v3 i = (v_ino v i)\<lparr>i_state := ICLEAN\<rparr> \<and>
    (\<forall>off' y. off' + 64 \<le> off \<or> off + 64 \<le> off' \<longrightarrow> di_load (f_blk (v_fs v3) bno) off' y = di_load (f_blk (v_fs v) bno) off' y) \<and>
    (\<forall>n. n \<noteq> bno \<longrightarrow> f_blk (v_fs v3) n = f_blk (v_fs v) n)"
proof -
  define s where "s = f_writeb bno (di_store (v_ino v i) off (f_blk (v_fs v) bno)) (v_fs v)"
  define v1 where "v1 = v_upd i (\<lambda>x. x\<lparr>i_state := ICLEAN\<rparr>) (v\<lparr>v_fs := s\<rparr>)"
  have w: "iwrite i v = (0, v1)" using assms(1,3) by (simp add: iwrite_def v1_def s_def)
  have sk: "seeki (of_nat i) s = (0, Some (bno, off))"
    using assms(3) by (auto simp: seeki_def s_def f_writeb_def f_readb_def Let_def split: if_splits sum.splits)
  have ld: "di_load (di_store (v_ino v i) off (f_blk (v_fs v) bno)) off x = (v_ino v i)\<lparr>i_state := i_state x\<rparr>" for x
    using assms(4) seeki_off(1) [OF assms(3)] by (intro di_load_store [OF assms(2)]) simp
  have l: "length (i_daddr (v_ino v i)) = 10" using assms(2) by (simp add: storable_def)
  show ?thesis
    using w sk ld di_load_other [OF _ l, of _ off]
    by (intro exI [of _ v1] exI [of _ "snd (iread i (recycle_inode i x v1))"])
      (auto simp: recycle_inode_def iread_def v_upd_def IINVAL_def v1_def s_def f_writeb_def)
qed

subsection \<open>The last reference\<close>

lemma freei_spec:
  assumes ok: "fs_ok s"
  obtains s' where "freei i s = Some s'" "fs_ok s'" "f_blk s' = f_blk s" "f_bad s' = f_bad s"
    "f_datazone s' = f_datazone s" "f_nzone s' = f_nzone s" "free_zones s' = free_zones s"
    "map_clear (f_imap s') = (if 0 < i \<and> i < unat (f_ninode s) then insert i (map_clear (f_imap s)) else map_clear (f_imap s))"
proof (cases "0 < i \<and> i < unat (f_ninode s)")
  case False
  then show ?thesis using ok by (intro that [of s]) (auto simp: freei_def)
next
  case True
  have m: "maps_ok (unat (f_nimapblock s)) (f_imap s)" using ok by (simp add: fs_ok_def)
  have "i < 8192 * unat (f_nimapblock s)" using ok True by (simp add: fs_ok_def)
  then have kd: "i div 8192 < unat (f_nimapblock s)" by (simp add: less_mult_imp_div_less mult.commute)
  obtain r where r: "map_free_bit i (f_imap s) = Some r" and c: "case r of
      None \<Rightarrow> i \<in> map_clear (f_imap s)
    | Some b \<Rightarrow> bm_ok b \<and> nbit b = 8192 \<and> clear_bits (bits b) = insert (i mod 8192) (clear_bits (bits (f_imap s ! (i div 8192))))"
    using map_free_bit_spec [OF m kd] by blast
  have dk: "drop_bit BITS i = i div 8192" by (simp add: BITS_def drop_bit_eq_div)
  show ?thesis
  proof (cases r)
    case None
    then have "map_clear (f_imap s) = insert i (map_clear (f_imap s))" using c by auto
    with None r ok True show ?thesis by (intro that [of s]) (auto simp: freei_def)
  next
    case (Some m')
    let ?s = "s\<lparr>f_imap := (f_imap s)[i div 8192 := m'], f_imapst := (f_imapst s)[i div 8192 := BDIRTY]\<rparr>"
    have u: "maps_ok (unat (f_nimapblock s)) (f_imap ?s)" "map_clear (f_imap ?s) = insert i (map_clear (f_imap s))"
      using map_update [OF m kd, of m' "i mod 8192"] c Some by auto
    have "fs_ok ?s" using ok u True by (simp add: fs_ok_def)
    moreover have "freei i s = Some ?s" using r Some True dk by (simp add: freei_def)
    moreover have "free_zones ?s = free_zones s" by (simp add: free_zones_def zone_of_def)
    ultimately show ?thesis using True u(2) by (intro that [of ?s]) auto
  qed
qed

text \<open>Only the maps of inodes differ.\<close>

lemma reg_ok_imap:
  assumes "reg_ok r" "fs_ok s'" "f_blk s' = f_blk (r_fs r)" "f_bad s' = f_bad (r_fs r)" "f_datazone s' = f_datazone (r_fs r)"
    "f_nzone s' = f_nzone (r_fs r)" "free_zones s' = free_zones (r_fs r)"
  shows "reg_ok (r\<lparr>r_fs := s'\<rparr>)"
proof -
  have "nd (r\<lparr>r_fs := s'\<rparr>) p = nd r p" for p using assms(3) by (simp add: nd_def)
  then show ?thesis using assms by (simp add: reg_ok_def)
qed

lemma v_reg_simps [simp]: "r_fs (v_reg i v) = v_fs v" "r_ino (v_reg i v) = v_ino v i" "r_now (v_reg i v) = v_now v"
  by (simp_all add: v_reg_def)

lemma v_reg_other: "other (v_reg i v) (v_ino v j) = v_reg j v"
  by (simp add: other_def v_reg_def)

text \<open>Losing the last reference to a file without names frees its zones and its number, and no other file notices.\<close>

lemma v_lose_last:
  assumes ok: "reg_ok (v_reg i v)" "isfile (v_reg i v)" and l: "i_state (v_ino v i) \<noteq> IINVAL" "i_nlink (v_ino v i) = 0" "i \<notin> set hs"
  obtains v' where "v_lose i (v\<lparr>v_held := i # hs\<rparr>) = Some v'" "v_held v' = hs" "i_state (v_ino v' i) = IINVAL"
    "free_zones (v_fs v') = free_zones (v_fs v) \<union> file_zones (v_reg i v)" "\<forall>j. j \<noteq> i \<longrightarrow> v_ino v' j = v_ino v j"
    "map_clear (f_imap (v_fs v')) = (if 0 < i \<and> i < unat (f_ninode (v_fs v)) then insert i (map_clear (f_imap (v_fs v))) else map_clear (f_imap (v_fs v)))"
    "\<forall>j. j \<noteq> i \<longrightarrow> reg_ok (v_reg j v) \<longrightarrow> file_zones (v_reg i v) \<inter> file_zones (v_reg j v) = {} \<longrightarrow>
      reg_ok (v_reg j v') \<and> (\<forall>p. vpos p \<longrightarrow> nd (v_reg j v) p \<noteq> 0 \<longrightarrow> f_blk (v_fs v') (bno_of (nd (v_reg j v) p)) = f_blk (v_fs v) (bno_of (nd (v_reg j v) p)))"
    "v_now v' = v_now v"
proof -
  note res = that
  let ?r = "v_reg i v"
  obtain r1 where r1: "inode_truncate ?r = Some (0, setdirty (r1\<lparr>r_ino := (r_ino r1)\<lparr>i_size := 0\<rparr>\<rparr>))" "prunes UNIV ?r r1"
    by (rule inode_truncate_ok [OF ok])
  define r2 where "r2 = setdirty (r1\<lparr>r_ino := (r_ino r1)\<lparr>i_size := 0\<rparr>\<rparr>)"
  have fs2: "r_fs r2 = r_fs r1" by (simp add: r2_def setdirty_def)
  have ok2: "reg_ok r2" by (rule reg_ok_cong(1) [OF prunesD(1) [OF r1(2)]]) (simp_all add: r2_def setdirty_def)
  have fr: "frame ?r r2" by (rule frame_trans [OF prunesD(6) [OF r1(2)] frame_same]) (simp_all add: r2_def setdirty_def)
  obtain s' where s': "freei i (r_fs r2) = Some s'" "fs_ok s'" "f_blk s' = f_blk (r_fs r2)" "f_bad s' = f_bad (r_fs r2)"
    "f_datazone s' = f_datazone (r_fs r2)" "f_nzone s' = f_nzone (r_fs r2)" "free_zones s' = free_zones (r_fs r2)"
    "map_clear (f_imap s') = (if 0 < i \<and> i < unat (f_ninode (r_fs r2)) then insert i (map_clear (f_imap (r_fs r2))) else map_clear (f_imap (r_fs r2)))"
    by (rule freei_spec [OF reg_okD(1) [OF ok2]])
  define v' where "v' = v\<lparr>v_held := hs, v_fs := s', v_ino := (v_ino v)(i := (r_ino r2)\<lparr>i_state := IINVAL\<rparr>)\<rparr>"
  have imap: "f_imap (r_fs r2) = f_imap (v_fs v)" "f_ninode (r_fs r2) = f_ninode (v_fs v)" using fr by (simp_all add: frame_def)
  show ?thesis
  proof (rule res [of v'])
    have vr: "v_reg i (v\<lparr>v_held := hs\<rparr>) = ?r" by (simp add: v_reg_def)
    show "v_lose i (v\<lparr>v_held := i # hs\<rparr>) = Some v'"
      using l r1(1) s'(1) by (simp add: v_lose_def v_put_def v_upd_def v'_def Let_def vr flip: r2_def)
    show "v_held v' = hs" "i_state (v_ino v' i) = IINVAL" "v_now v' = v_now v" by (simp_all add: v'_def)
    show "\<forall>j. j \<noteq> i \<longrightarrow> v_ino v' j = v_ino v j" by (simp add: v'_def)
    show "free_zones (v_fs v') = free_zones (v_fs v) \<union> file_zones ?r"
      using s'(7) fs2 prunesD(5) [OF r1(2)] by (simp add: v'_def file_zones_def)
    show "map_clear (f_imap (v_fs v')) = (if 0 < i \<and> i < unat (f_ninode (v_fs v)) then insert i (map_clear (f_imap (v_fs v))) else map_clear (f_imap (v_fs v)))"
      using s'(8) by (simp add: v'_def imap)
    have keep: "reg_ok (v_reg j v') \<and> (\<forall>p. vpos p \<longrightarrow> nd (v_reg j v) p \<noteq> 0 \<longrightarrow> f_blk (v_fs v') (bno_of (nd (v_reg j v) p)) = f_blk (v_fs v) (bno_of (nd (v_reg j v) p)))"
      if j: "j \<noteq> i" "reg_ok (v_reg j v)" "file_zones ?r \<inter> file_zones (v_reg j v) = {}" for j
    proof -
      have o: "other ?r (v_ino v j) = v_reg j v" by (rule v_reg_other)
      have "spared (v_ino v j) ?r r2" by (rule frame_other [OF _ _ fr ok2]) (use j o in simp_all)
      then have "reg_ok (other r2 (v_ino v j))" by (simp add: spared_def)
      then have okx: "reg_ok ((other r2 (v_ino v j))\<lparr>r_fs := s'\<rparr>)" by (rule reg_ok_imap) (simp_all add: s')
      have "reg_ok (v_reg j v')" by (rule reg_ok_cong(1) [OF okx]) (use j(1) in \<open>simp_all add: v'_def\<close>)
      moreover have "f_blk (v_fs v') (bno_of (nd (v_reg j v) p)) = f_blk (v_fs v) (bno_of (nd (v_reg j v) p))"
        if p: "vpos p" "nd (v_reg j v) p \<noteq> 0" for p
        using frame_keeps(2) [of ?r "v_ino v j", OF _ _ fr p(1)] p(2) j(2,3) s'(3) by (simp add: o v'_def)
  ultimately show ?thesis by blast
    qed
    show "\<forall>j. j \<noteq> i \<longrightarrow> reg_ok (v_reg j v) \<longrightarrow> file_zones ?r \<inter> file_zones (v_reg j v) = {} \<longrightarrow>
      reg_ok (v_reg j v') \<and> (\<forall>p. vpos p \<longrightarrow> nd (v_reg j v) p \<noteq> 0 \<longrightarrow> f_blk (v_fs v') (bno_of (nd (v_reg j v) p)) = f_blk (v_fs v) (bno_of (nd (v_reg j v) p)))"
      using keep by blast
  qed
qed

definition demo_vfs :: vfs where
  "demo_vfs = \<lparr>v_fs = r_fs (demo_file True), v_ino = (\<lambda>_. (r_ino (demo_file True))\<lparr>i_state := IDIRTY\<rparr>), v_held = [1], v_ninode = 256,
     v_now = 5, v_root = 1, v_cwd = 1, v_uid = 0, v_gid = 0, v_euid = 0, v_egid = 0, v_umask = 18\<rparr>"

theorem inode_eviction_witness:
  "\<exists>v1 v3. iwrite 2 demo_vfs = (0, v1) \<and> iread 2 (recycle_inode 2 ((r_ino (demo_file True))\<lparr>i_size := 7, i_uid := 9, i_daddr := []\<rparr>) v1) = (0, v3) \<and>
     v_ino v3 2 = (r_ino (demo_file True))\<lparr>i_state := ICLEAN\<rparr>"
proof -
  have a: "i_state (v_ino demo_vfs 2) = IDIRTY" "storable (v_ino demo_vfs 2)" "\<forall>n. length (f_blk (v_fs demo_vfs) n) = 1024"
    by (simp_all add: demo_vfs_def storable_def demo_file_def)
  have "seeki (of_nat 2) (v_fs demo_vfs) = (0, Some (4, 64))"
    by (simp add: seeki_def demo_vfs_def demo_file_def small_fs_def f_readb_def MINIXBSIZE_def)
  from inode_eviction_roundtrip [OF a(1,2) this a(3), of "(r_ino (demo_file True))\<lparr>i_size := 7, i_uid := 9, i_daddr := []\<rparr>"]
  show ?thesis by (auto simp: demo_vfs_def)
qed

end
