(* ===== verification/Fs_Dir.thy ===== *)
theory Fs_Dir
  imports Fs_Dirent Fs_Icache
begin

text \<open>
  Operations on directories (\<^verbatim>\<open>fs/dir.cc\<close>): link counts, lookup, creating, removing and renaming.  An operation acts on the
  state of \<open>Fs_Icache\<close>; \<open>None\<close> is a halted kernel.  With one file system no inode is a mount point, the
  \<^verbatim>\<open>EXDEV\<close> tests never fire, and \<^verbatim>\<open>peer\<close> is the null pointer.  A locked buffer and the read-write lock of a directory
  are not contended inside one call.
\<close>

definition ENOTEMPTY :: int where [errno_simps]: "ENOTEMPTY = -39"
definition LINKMAX :: u16 where "LINKMAX = 127"
definition MINIXROOTINO :: nat where "MINIXROOTINO = 1"
definition IX :: u16 where "IX = 1"
definition IW :: u16 where "IW = 2"
definition IR :: u16 where "IR = 4"
definition SIFREG :: u16 where "SIFREG = 0x8000"
definition SIFDIR :: u16 where "SIFDIR = 0x4000"
definition SIFCHR :: u16 where "SIFCHR = 0x2000"
definition SIFBLK :: u16 where "SIFBLK = 0x6000"
definition SIFIFO :: u16 where "SIFIFO = 0x1000"

definition dot :: "u8 list" where "dot = [46]"
definition dotdot :: "u8 list" where "dotdot = [46, 46]"

definition v_isdir :: "nat \<Rightarrow> vfs \<Rightarrow> bool" where
  "v_isdir i v \<longleftrightarrow> SISDIR (i_mode (v_ino v i))"

definition v_isroot :: "nat \<Rightarrow> bool" where
  "v_isroot i \<longleftrightarrow> i = MINIXROOTINO"

definition v_deny :: "u16 \<Rightarrow> nat \<Rightarrow> vfs \<Rightarrow> int" where
  "v_deny request i v = deny (v_euid v) (v_egid v) request (v_ino v i)"

definition v_denyunlink :: "nat \<Rightarrow> nat \<Rightarrow> vfs \<Rightarrow> int option" where
  "v_denyunlink dir child v = denyunlink (v_euid v) (v_egid v) (v_ino v dir) (v_ino v child)"

subsection \<open>Link counts\<close>

definition incnlink :: "nat \<Rightarrow> vfs \<Rightarrow> int \<times> vfs" where
  "incnlink i v =
     (if i_nlink (v_ino v i) \<ge> LINKMAX then (EMLINK, v)
      else (0, v_setdirty i (v_upd i (\<lambda>x. x\<lparr>i_nlink := i_nlink x + 1\<rparr>) v)))"

definition decnlink :: "nat \<Rightarrow> vfs \<Rightarrow> vfs" where
  "decnlink i v =
     (if i_nlink (v_ino v i) = 0 then v
      else v_setdirty i (v_upd i (\<lambda>x. x\<lparr>i_nlink := i_nlink x - 1\<rparr>) v))"

subsection \<open>Lookup\<close>

definition ino_at :: "int \<times> nat \<Rightarrow> vfs \<Rightarrow> nat" where
  "ino_at de v = unat (de_ino (f_blk (v_fs v) (fst de)) (snd de))"

definition lookup2 :: "nat \<Rightarrow> u8 list \<Rightarrow> vfs \<Rightarrow> (int \<times> nat \<times> vfs) option" where
  "lookup2 dir name v = do {
     x \<leftarrow> findde name (v_reg dir v);
     case x of None \<Rightarrow> Some (ENOENT, 0, v)
     | Some de \<Rightarrow> do { (e, v1) \<leftarrow> readi (ino_at de v) v; Some (e, ino_at de v, v1) } }"

definition lookup :: "nat \<Rightarrow> u8 list \<Rightarrow> vfs \<Rightarrow> (int \<times> nat \<times> vfs) option" where
  "lookup dir name v =
     (if \<not> v_isdir dir v then Some (ENOTDIR, 0, v)
      else if v_deny IX dir v \<noteq> 0 then Some (EACCES, 0, v)
      else if name = dotdot \<and> dir = v_root v then Some (0, dir, v_hold dir v)
      else if name = dotdot \<and> v_isroot dir then None
      else lookup2 dir name v)"

subsection \<open>Links\<close>

definition v_addde :: "nat \<Rightarrow> u8 list \<Rightarrow> nat \<Rightarrow> vfs \<Rightarrow> (int \<times> vfs) option" where
  "v_addde dir name newino v = do {
     (e, r) \<leftarrow> addde_ino name (of_nat newino) (v_reg dir v);
     Some (e, v_put dir r v) }"

definition v_blk :: "int \<Rightarrow> (u8 list \<Rightarrow> u8 list) \<Rightarrow> vfs \<Rightarrow> vfs" where
  "v_blk bno f v = v\<lparr>v_fs := f_writeb bno (f (f_blk (v_fs v) bno)) (v_fs v)\<rparr>"

definition v_free_entry :: "int \<times> nat \<Rightarrow> vfs \<Rightarrow> vfs" where
  "v_free_entry de v = v_blk (fst de) (put16 (snd de) MINIXFREEINO) v"

definition hardlink2 :: "nat \<Rightarrow> u8 list \<Rightarrow> nat \<Rightarrow> vfs \<Rightarrow> (int \<times> vfs) option" where
  "hardlink2 dir basename oldi v =
     (if \<not> v_isdir dir v then Some (ENOTDIR, v)
      else if v_isdir oldi v then Some (EPERM, v)
      else if i_nlink (v_ino v oldi) \<ge> LINKMAX then Some (EMLINK, v)
      else do {
        (e, v1) \<leftarrow> v_addde dir basename oldi v;
        Some (if e \<noteq> 0 then (e, v1) else (0, snd (incnlink oldi v1))) })"

definition unlink2 :: "nat \<Rightarrow> u8 list \<Rightarrow> vfs \<Rightarrow> (int \<times> vfs) option" where
  "unlink2 dir name v =
     (if \<not> v_isdir dir v then Some (ENOTDIR, v)
      else do {
        x \<leftarrow> findde name (v_reg dir v);
        case x of None \<Rightarrow> Some (ENOENT, v)
        | Some de \<Rightarrow> do {
            let child = ino_at de v;
            (e, v1) \<leftarrow> readi child v;
            if e \<noteq> 0 then Some (e, v1)
            else do {
              de_err \<leftarrow> v_denyunlink dir child v1;
              if de_err \<noteq> 0 then map_option (\<lambda>v2. (EPERM, v2)) (v_lose child v1)
              else if v_isdir child v1 then map_option (\<lambda>v2. (EPERM, v2)) (v_lose child v1)
              else do {
                v2 \<leftarrow> v_lose child (decnlink child v1);
                Some (0, v_free_entry de v2) } } } })"

subsection \<open>Creating\<close>

definition typemode :: "u16 \<Rightarrow> u16 \<Rightarrow> u16" where
  "typemode t m = t OR (m AND NOT SIFMT)"

definition new_inode :: "u16 \<Rightarrow> vfs \<Rightarrow> inode" where
  "new_inode mode v = \<lparr>i_mode = mode AND NOT (v_umask v), i_nlink = (if SISDIR mode then 2 else 1), i_uid = v_uid v, i_gid = v_gid v,
     i_size = 0, i_daddr = replicate 10 0, i_state = 0, i_atime = v_now v, i_mtime = v_now v, i_ctime = v_now v\<rparr>"

text \<open>The result is the new inode number; \<open>want\<close> tells whether the caller passes a pointer for the inode.\<close>

definition mkcommon :: "bool \<Rightarrow> nat \<Rightarrow> u8 list \<Rightarrow> u16 \<Rightarrow> vfs \<Rightarrow> (int \<times> nat \<times> vfs) option" where
  "mkcommon want dir name mode v =
     (if \<not> v_isdir dir v then Some (ENOTDIR, 0, v)
      else if v_deny IW dir v \<noteq> 0 then Some (EACCES, 0, v)
      else do {
        (e, newino, s) \<leftarrow> alloci (v_fs v);
        let v1 = v\<lparr>v_fs := s\<rparr>;
        let undo = (\<lambda>e (w :: vfs). map_option (\<lambda>s. (e, 0, w\<lparr>v_fs := s\<rparr>)) (freei newino (v_fs w)));
        if e \<noteq> 0 then Some (e, 0, v1)
        else if i_state (v_ino v1 newino) \<noteq> IINVAL then undo EINVAL v1
        else case seeki (of_nat newino) (v_fs v1) of
          (e, None) \<Rightarrow> undo e v1
        | (e, Some (bno, off)) \<Rightarrow> do {
            (e, v2) \<leftarrow> v_addde dir name newino v1;
            if e \<noteq> 0 then undo e v2
            else do {
              let v3 = v_blk bno (di_store (new_inode mode v2) off) v2;
              if want then do { (e, v4) \<leftarrow> readi newino v3; Some (e, newino, v4) }
              else Some (0, newino, v3) } } })"

definition mkreg :: "bool \<Rightarrow> nat \<Rightarrow> u8 list \<Rightarrow> u16 \<Rightarrow> vfs \<Rightarrow> (int \<times> nat \<times> vfs) option" where
  "mkreg want dir name mode v = mkcommon want dir name (typemode SIFREG mode) v"

definition mkfifo :: "nat \<Rightarrow> u8 list \<Rightarrow> u16 \<Rightarrow> vfs \<Rightarrow> (int \<times> vfs) option" where
  "mkfifo dir name mode v = map_option (\<lambda>(e, _, w). (e, w)) (mkcommon False dir name (typemode SIFIFO mode) v)"

text \<open>The arguments of \<^verbatim>\<open>typemode\<close> are exchanged here, as in the source.\<close>

definition mknod :: "nat \<Rightarrow> u8 list \<Rightarrow> u16 \<Rightarrow> u32 \<Rightarrow> vfs \<Rightarrow> (int \<times> vfs) option" where
  "mknod dir name mode dev v =
     (if v_euid v \<noteq> 0 then Some (EPERM, v)
      else if \<not> SISCHR mode \<and> SISBLK mode then Some (EINVAL, v)
      else do {
        let mode = (if SISCHR mode then typemode mode SIFCHR else typemode mode SIFBLK);
        (e, i, v1) \<leftarrow> mkcommon True dir name mode v;
        if e \<noteq> 0 then Some (e, v1)
        else do {
          v2 \<leftarrow> v_lose2 i (v_upd i (\<lambda>x. x\<lparr>i_daddr := (i_daddr x)[0 := dev]\<rparr>) v1);
          Some (0, v2) } })"

definition mkdir :: "nat \<Rightarrow> u8 list \<Rightarrow> u16 \<Rightarrow> vfs \<Rightarrow> (int \<times> vfs) option" where
  "mkdir dir name mode v =
     (if \<not> v_isdir dir v then Some (ENOTDIR, v)
      else if i_nlink (v_ino v dir) \<ge> LINKMAX then Some (EMLINK, v)
      else do {
        (e, bno, s) \<leftarrow> allocb (v_fs v);
        let v1 = v\<lparr>v_fs := s\<rparr>;
        let undo = (\<lambda>e (w :: vfs). map_option (\<lambda>s. (e, w\<lparr>v_fs := s\<rparr>)) (freeb bno (v_fs w)));
        if e \<noteq> 0 then Some (e, v1)
        else case f_readb bno (v_fs v1) of
          Inl e \<Rightarrow> undo e v1
        | Inr d \<Rightarrow> do {
            (e, i, v2) \<leftarrow> mkcommon True dir name (typemode SIFDIR mode) v1;
            if e \<noteq> 0 then undo e v2
            else do {
              let v3 = v_blk bno (\<lambda>d. put16 32 (of_nat dir) (set_name dotdot 32 (put16 0 (of_nat i) (set_name dot 0 d)))) v2;
              v4 \<leftarrow> v_lose2 i (v_upd i (\<lambda>x. x\<lparr>i_nlink := 2, i_size := 64, i_daddr := (i_daddr x)[0 := word_of_int bno]\<rparr>) v3);
              Some (0, v_setdirty dir (v_upd dir (\<lambda>x. x\<lparr>i_nlink := i_nlink x + 1\<rparr>) v4)) } } })"

subsection \<open>Removing directories\<close>

definition rmdir2 :: "nat \<Rightarrow> u8 list \<Rightarrow> vfs \<Rightarrow> (int \<times> vfs) option" where
  "rmdir2 dir name v =
     (if \<not> v_isdir dir v then Some (ENOTDIR, v)
      else do {
        x \<leftarrow> findde name (v_reg dir v);
        case x of None \<Rightarrow> Some (ENOENT, v)
        | Some de \<Rightarrow> do {
            let child = ino_at de v;
            (e, v1) \<leftarrow> readi child v;
            if e \<noteq> 0 then Some (e, v1)
            else do {
              let out = (\<lambda>e w. map_option (\<lambda>w1. (e, w1)) (v_lose child w));
              de_err \<leftarrow> v_denyunlink dir child v1;
              if de_err \<noteq> 0 then out EPERM v1
              else if \<not> v_isdir child v1 then out ENOTDIR v1
              else if v_refcnt child v1 > 1 then out EBUSY v1
              else do {
                em \<leftarrow> emptydir (v_reg child v1);
                if \<not> em then out ENOTEMPTY v1
                else do {
                  let v2 = v_setdirty child (v_upd child (\<lambda>x. x\<lparr>i_nlink := 0\<rparr>) (decnlink dir v1));
                  out 0 (v_free_entry de v2) } } } } })"

subsection \<open>Renaming\<close>

definition advancei2 :: "nat \<Rightarrow> u8 list \<Rightarrow> vfs \<Rightarrow> (int \<times> nat \<times> vfs) option" where
  "advancei2 cwd name v = do {
     (e, i, v1) \<leftarrow> lookup2 cwd name v;
     if e \<noteq> 0 then Some (e, cwd, v1)
     else do { v2 \<leftarrow> v_lose cwd v1; Some (0, i, v2) } }"

partial_function (option) parentchild_loop :: "nat \<Rightarrow> nat \<Rightarrow> vfs \<Rightarrow> (bool \<times> vfs) option" where
  "parentchild_loop p c v =
     (if v_isroot c then do { v1 \<leftarrow> v_lose c v; Some (False, v1) }
      else if c = p then do { v1 \<leftarrow> v_lose c v; Some (True, v1) }
      else do {
        (e, c1, v1) \<leftarrow> advancei2 c dotdot v;
        if e \<noteq> 0 then do { v2 \<leftarrow> v_lose c v1; Some (False, v2) }
        else parentchild_loop p c1 v1 })"

definition parentchild :: "nat \<Rightarrow> nat \<Rightarrow> vfs \<Rightarrow> (bool \<times> vfs) option" where
  "parentchild p c v = parentchild_loop p c (v_hold c v)"

text \<open>The tests on an existing target: its entry, its inode with a reference, an error code.\<close>

definition rename_target :: "nat \<Rightarrow> nat \<Rightarrow> vfs \<Rightarrow> int option" where
  "rename_target oldi newi v =
     (if v_isdir oldi v \<and> \<not> v_isdir newi v \<or> \<not> v_isdir oldi v \<and> v_isdir newi v then Some ENOTDIR
      else if v_isdir newi v then do {
        em \<leftarrow> emptydir (v_reg newi v);
        Some (if \<not> em then ENOTEMPTY else if v_refcnt newi v > 1 then EBUSY else 0) }
      else Some 0)"

definition rename_new :: "nat \<Rightarrow> nat \<Rightarrow> u8 list \<Rightarrow> vfs \<Rightarrow> (int \<times> (int \<times> nat) \<times> vfs) option" where
  "rename_new oldi newdir newname v = do {
     x \<leftarrow> findde newname (v_reg newdir v);
     case x of
       Some de \<Rightarrow> do {
         let newi = ino_at de v;
         (e, v1) \<leftarrow> readi newi v;
         if e \<noteq> 0 then Some (e, de, v1)
         else do {
           e \<leftarrow> rename_target oldi newi v1;
           if e \<noteq> 0 then Some (e, de, v1)
           else do {
             v2 \<leftarrow> v_lose newi (v_setdirty newi (v_upd newi (\<lambda>x. x\<lparr>i_nlink := 0\<rparr>) v1));
             Some (0, de, v2) } } }
     | None \<Rightarrow> do {
         let (e, v1) = (if v_isdir oldi v then incnlink newdir v else (0, v));
         if e \<noteq> 0 then Some (e, (0, 0), v1)
         else do {
           (e, de, r) \<leftarrow> addde newname (v_reg newdir v1);
           let v2 = v_put newdir r v1;
           Some (if e \<noteq> 0 then (e, de, decnlink newdir v2) else (0, de, v2)) } } }"

definition rename_move :: "nat \<Rightarrow> nat \<Rightarrow> int \<times> nat \<Rightarrow> int \<times> nat \<Rightarrow> u8 list \<Rightarrow> vfs \<Rightarrow> vfs" where
  "rename_move olddir oldi oldde newde newname v =
     (let v1 = (if v_isdir oldi v then decnlink olddir v else v);
          oldino = ino_at oldde v1;
          v2 = v_blk (fst oldde) (\<lambda>d. put16 (snd oldde) MINIXFREEINO (set_name [] (snd oldde) d)) v1
      in v_blk (fst newde) (\<lambda>d. put16 (snd newde) (of_nat oldino) (set_name newname (snd newde) d)) v2)"

definition rename2 :: "nat \<Rightarrow> u8 list \<Rightarrow> nat \<Rightarrow> u8 list \<Rightarrow> vfs \<Rightarrow> (int \<times> vfs) option" where
  "rename2 olddir oldname newdir newname v =
     (if \<not> v_isdir olddir v \<or> \<not> v_isdir newdir v then Some (ENOTDIR, v)
      else if v_deny (IR OR IW OR IX) olddir v \<noteq> 0 \<or> v_deny (IR OR IW OR IX) newdir v \<noteq> 0 then Some (EACCES, v)
      else if olddir = newdir \<and> oldname = newname then Some (EINVAL, v)
      else if oldname = [] \<or> oldname = dot \<or> oldname = dotdot then Some (EPERM, v)
      else if newname = [] \<or> newname = dot \<or> newname = dotdot then Some (EPERM, v)
      else do {
        x \<leftarrow> findde oldname (v_reg olddir v);
        case x of None \<Rightarrow> Some (ENOENT, v)
        | Some oldde \<Rightarrow> do {
            let oldi = ino_at oldde v;
            (e, v1) \<leftarrow> readi oldi v;
            if e \<noteq> 0 then Some (e, v1)
            else do {
              (inside, v2) \<leftarrow> (if v_isdir oldi v1 then parentchild oldi newdir v1 else Some (False, v1));
              if inside then map_option (\<lambda>w. (EINVAL, w)) (v_lose oldi v2)
              else do {
                (e, newde, v3) \<leftarrow> rename_new oldi newdir newname v2;
                let v4 = (if e \<noteq> 0 then v3 else rename_move olddir oldi oldde newde newname v3);
                map_option (\<lambda>w. (e, w)) (v_lose oldi v4) } } } })"

subsection \<open>Directories under changes elsewhere\<close>

lemma dir_cong:
  assumes ok: "dir_ok r" and ok': "reg_ok r'" and ino: "r_ino r' = r_ino r"
    and blk: "\<And>p. vpos p \<Longrightarrow> nd r p \<noteq> 0 \<Longrightarrow> f_blk (r_fs r') (bno_of (nd r p)) = f_blk (r_fs r) (bno_of (nd r p))"
  shows "dir_ok r'" "dlookup r' = dlookup r" "nent r' = nent r" "dblk r' k = dblk r k" "k < nent r \<Longrightarrow> dent r' k = dent r k"
proof -
  have v: "vpos (lpos l)" for l using full_lpos by (simp add: full_def)
  have nd: "nd r' p = nd r p" if "vpos p" for p by (rule nd_cong [OF _ _ that]) (simp_all add: ino blk)
  show n: "nent r' = nent r" by (simp add: nent_def ino)
  show b: "dblk r' k = dblk r k" for k by (simp add: dblk_def nd [OF v])
  show e: "dent r' k = dent r k" if "k < nent r" for k
    using blk [OF v dir_formD(6) [OF dir_okD(1) [OF ok] that]] by (simp add: dent_def b) (simp add: dblk_def)
  have "dir_form r'" using dir_okD(1) [OF ok] ok' unfolding dir_form_def no_holes_def n ino nd [OF v] by simp
  then show "dir_ok r'" using dir_okD(2) [OF ok] unfolding dir_ok_def n by (auto simp: e)
  have "dfind P r' = dfind P r" for P unfolding dfind_def n by (rule find_cong) (auto simp: e)
  then show "dlookup r' = dlookup r"
    using dfind_Some [of _ r] by (auto simp: dlookup_def fun_eq_iff e intro!: option.map_cong)
qed

lemma v_reg_free_entry: "v_reg d (v_free_entry de v) = free_entry de (v_reg d v)"
  by (simp add: v_reg_def v_free_entry_def v_blk_def free_entry_def blk_upd_def)

lemma v_reg_hold [simp]: "v_reg d (v_hold i v) = v_reg d v"
  by (simp add: v_reg_def v_hold_def)

lemma readi_cached: "i_state (v_ino v i) \<noteq> IINVAL \<Longrightarrow> i \<in> set (v_held v) \<or> length (remdups (v_held v)) < v_ninode v \<Longrightarrow>
    readi i v = Some (0, v_hold i v)"
  by (auto simp: readi_def geti_def v_hold_def)

lemma find_entry:
  assumes "dir_ok r" "dlookup r name = Some i"
  obtains j where "findde name r = Some (Some (dblk r j, doff j))" "j < nent r" "dent r j = (i, name)" "i \<noteq> 0"
proof -
  from assms(2) obtain j where j: "dfind (\<lambda>(i, nm). i \<noteq> 0 \<and> nm = name) r = Some j" "i = fst (dent r j)" by (auto simp: dlookup_def)
  from dfind_Some [OF j(1)] j show ?thesis
    using findde_ok [OF dir_okD(1) [OF assms(1)], of name] by (intro that [of j]) (auto simp: case_prod_beta' prod_eq_iff)
qed

lemma ino_at_entry: "dent (v_reg d v) j = (i, name) \<Longrightarrow> ino_at (dblk (v_reg d v) j, doff j) v = unat i"
  by (simp add: ino_at_def dent_def Let_def)

lemma decnlink_simps:
  "v_fs (decnlink i v) = v_fs v" "v_held (decnlink i v) = v_held v" "j \<noteq> i \<Longrightarrow> v_ino (decnlink i v) j = v_ino v j"
  "i_nlink (v_ino v i) \<noteq> 0 \<Longrightarrow> i_nlink (v_ino (decnlink i v) i) = i_nlink (v_ino v i) - 1"
  "i_mode (v_ino (decnlink i v) i) = i_mode (v_ino v i)" "i_daddr (v_ino (decnlink i v) i) = i_daddr (v_ino v i)"
  "i_nlink (v_ino v i) \<noteq> 0 \<Longrightarrow> i_state (v_ino (decnlink i v) i) = IDIRTY" "v_now (decnlink i v) = v_now v"
  "decnlink i (v_hold i v) = (decnlink i v)\<lparr>v_held := i # v_held v\<rparr>"
  by (simp_all add: decnlink_def v_setdirty_def v_upd_def v_hold_def)

lemma regular_not_dir: "SISREG m \<Longrightarrow> \<not> SISDIR m"
  by (auto simp: SISREG_def SISDIR_def)

lemma free_found_entry:
  assumes "dir_ok r" "j < nent r" "dent r j = (i, name)" "i \<noteq> 0" "reg_ok r'" "r_ino r' = r_ino r"
    "\<And>p. vpos p \<Longrightarrow> nd r p \<noteq> 0 \<Longrightarrow> f_blk (r_fs r') (bno_of (nd r p)) = f_blk (r_fs r) (bno_of (nd r p))"
  shows "dir_ok (free_entry (dblk r j, doff j) r')" "dlookup (free_entry (dblk r j, doff j) r') = (dlookup r)(name := None)"
proof -
  note c = dir_cong [OF assms(1,5,6)]
  have n: "nent r' = nent r" and e: "dent r' j = dent r j" and b: "dblk r' j = dblk r j" and ok: "dir_ok r'" and l: "dlookup r' = dlookup r"
    by (rule c; use assms(2,7) in simp)+
  have "j < nent r'" "dent r' j = (i, name)" using n e assms(2,3) by simp_all
  from dir_ok_free [OF ok this assms(4), unfolded b] l
  show "dir_ok (free_entry (dblk r j, doff j) r')" "dlookup (free_entry (dblk r j, doff j) r') = (dlookup r)(name := None)" by simp_all
qed

text \<open>
  C13: Unlinking a name of a regular file, with permission, succeeds.  The name is gone from the directory, the other names
  stay, the references held are as before, and the link count of the file went down by one; when that was its
  last name and nobody holds it, its zones and its inode are free again and the other zones stay as they were.
\<close>

theorem unlink_removes_name:
  assumes dir: "dir_ok (v_reg d v)" "dlookup (v_reg d v) name = Some i" and c: "c = unat i" "c \<noteq> d"
    and cached: "i_state (v_ino v c) \<noteq> IINVAL" "c \<in> set (v_held v) \<or> length (remdups (v_held v)) < v_ninode v"
    and perm: "v_denyunlink d c v = Some 0" and reg: "SISREG (i_mode (v_ino v c))" "reg_ok (v_reg c v)"
    and disj: "file_zones (v_reg c v) \<inter> file_zones (v_reg d v) = {}" and nl: "i_nlink (v_ino v c) \<noteq> 0"
  shows "\<exists>v'. unlink2 d name v = Some (0, v') \<and> v_held v' = v_held v \<and> dir_ok (v_reg d v') \<and>
     dlookup (v_reg d v') = (dlookup (v_reg d v))(name := None) \<and>
     (if i_nlink (v_ino v c) = 1 \<and> c \<notin> set (v_held v)
      then i_state (v_ino v' c) = IINVAL \<and> free_zones (v_fs v') = free_zones (v_fs v) \<union> file_zones (v_reg c v) \<and>
        (c < unat (f_ninode (v_fs v)) \<longrightarrow> c \<in> map_clear (f_imap (v_fs v')))
      else i_nlink (v_ino v' c) = i_nlink (v_ino v c) - 1 \<and> free_zones (v_fs v') = free_zones (v_fs v))"
proof -
  let ?r = "v_reg d v" and ?w = "decnlink c v"
  obtain j where j: "findde name ?r = Some (Some (dblk ?r j, doff j))" "j < nent ?r" "dent ?r j = (i, name)" "i \<noteq> 0"
    by (rule find_entry [OF dir])
  let ?de = "(dblk ?r j, doff j)"
  have ch: "ino_at ?de v = c" using ino_at_entry [OF j(3)] c(1) by simp
  have c0: "0 < c" using j(4) c(1) by (simp add: unat_gt_0)
  have "v_isdir d v" using dir_formD(2) [OF dir_okD(1) [OF dir(1)]] by (simp add: v_isdir_def)
  moreover have "\<not> v_isdir c (v_hold c v)" "v_denyunlink d c (v_hold c v) = Some 0"
    using reg(1) perm by (simp_all add: v_isdir_def v_hold_def regular_not_dir v_denyunlink_def)
  ultimately have eq: "unlink2 d name v = map_option (\<lambda>v2. (0, v_free_entry ?de v2)) (v_lose c (?w\<lparr>v_held := c # v_held v\<rparr>))"
    using j(1) ch readi_cached [OF cached]
    by (cases "v_lose c (?w\<lparr>v_held := c # v_held v\<rparr>)") (simp_all add: unlink2_def Let_def decnlink_simps)
  have rd: "v_reg d ?w = ?r" using c(2) by (simp add: v_reg_def decnlink_simps)
  have rc: "reg_ok (v_reg c ?w)" "nd (v_reg c ?w) = nd (v_reg c v)"
    using reg_ok_cong [OF reg(2), of "v_reg c ?w"] by (simp_all add: decnlink_simps)
  have zc: "file_zones (v_reg c ?w) = file_zones (v_reg c v)" by (rule file_zones_cong) (simp add: rc(2))
  have fz: "free_zones (v_fs (v_free_entry ?de w)) = free_zones (v_fs w)" "f_imap (v_fs (v_free_entry ?de w)) = f_imap (v_fs w)" for w
    by (simp_all add: v_free_entry_def v_blk_def f_writeb_def free_zones_def zone_of_def)
  have ino: "v_ino (v_free_entry ?de w) = v_ino w" "v_held (v_free_entry ?de w) = v_held w" for w
    by (simp_all add: v_free_entry_def v_blk_def)
  show ?thesis
  proof (cases "i_nlink (v_ino v c) = 1 \<and> c \<notin> set (v_held v)")
    case False
    then have l: "v_lose c (?w\<lparr>v_held := c # v_held v\<rparr>) = Some ?w"
      using nl by (auto simp: v_lose_def Let_def decnlink_simps)
    have f: "v_reg d (v_free_entry ?de ?w) = free_entry ?de ?r" by (simp add: v_reg_free_entry rd)
    show ?thesis
      using eq l False dir_ok_free [OF dir(1) j(2-4)] nl by (intro exI [of _ "v_free_entry ?de ?w"]) (auto simp: f fz ino decnlink_simps)
  next
    case True
    have w: "isfile (v_reg c ?w)" "i_state (v_ino ?w c) \<noteq> IINVAL" "i_nlink (v_ino ?w c) = 0" "c \<notin> set (v_held v)"
      using True reg(1) nl by (simp_all add: isfile_def decnlink_simps IINVAL_def IDIRTY_def)
    obtain v' where v': "v_lose c (?w\<lparr>v_held := c # v_held v\<rparr>) = Some v'" "v_held v' = v_held v" "i_state (v_ino v' c) = IINVAL"
      "free_zones (v_fs v') = free_zones (v_fs ?w) \<union> file_zones (v_reg c ?w)" "\<forall>j. j \<noteq> c \<longrightarrow> v_ino v' j = v_ino ?w j"
      "map_clear (f_imap (v_fs v')) = (if 0 < c \<and> c < unat (f_ninode (v_fs ?w)) then insert c (map_clear (f_imap (v_fs ?w))) else map_clear (f_imap (v_fs ?w)))"
      "\<forall>j. j \<noteq> c \<longrightarrow> reg_ok (v_reg j ?w) \<longrightarrow> file_zones (v_reg c ?w) \<inter> file_zones (v_reg j ?w) = {} \<longrightarrow>
        reg_ok (v_reg j v') \<and> (\<forall>p. vpos p \<longrightarrow> nd (v_reg j ?w) p \<noteq> 0 \<longrightarrow> f_blk (v_fs v') (bno_of (nd (v_reg j ?w) p)) = f_blk (v_fs ?w) (bno_of (nd (v_reg j ?w) p)))"
      "v_now v' = v_now ?w"
      by (rule v_lose_last [OF rc(1) w])
    have "reg_ok ?r" by (rule dir_formD(1) [OF dir_okD(1) [OF dir(1)]])
    moreover have "d \<noteq> c" using c(2) by simp
    ultimately have kk: "reg_ok (v_reg d v') \<and> (\<forall>p. vpos p \<longrightarrow> nd ?r p \<noteq> 0 \<longrightarrow> f_blk (v_fs v') (bno_of (nd ?r p)) = f_blk (v_fs v) (bno_of (nd ?r p)))"
      using v'(7) [rule_format, of d] disj unfolding rd zc decnlink_simps(1) by simp
    have k: "reg_ok (v_reg d v')" "\<And>p. vpos p \<Longrightarrow> nd ?r p \<noteq> 0 \<Longrightarrow> f_blk (v_fs v') (bno_of (nd ?r p)) = f_blk (v_fs v) (bno_of (nd ?r p))"
      using conjunct1 [OF kk] conjunct2 [OF kk, rule_format] by blast+
    have "r_ino (v_reg d v') = r_ino ?r" using v'(5) c(2) by (simp add: decnlink_simps)
    from free_found_entry [OF dir(1) j(2-4) k(1) this] k(2)
    have "dir_ok (v_reg d (v_free_entry ?de v'))" "dlookup (v_reg d (v_free_entry ?de v')) = (dlookup ?r)(name := None)"
      by (simp_all add: v_reg_free_entry)
    then show ?thesis
      using eq v'(1-4,6) True c0 by (intro exI [of _ "v_free_entry ?de v'"]) (simp add: fz ino zc decnlink_simps)
  qed
qed

lemma long_name_absent:
  assumes "dir_form r" "29 < length name"
  shows "dlookup r name = None"
proof -
  have "length (snd (dent r j)) \<le> 29" for j
  proof -
    have "length (takeWhile P (take 29 xs)) \<le> 29" for P and xs :: "u8 list"
      using length_takeWhile_le [of P "take 29 xs"] by simp
    then show ?thesis by (simp add: dent_def Let_def de_name_def MINIXNAMELEN_def)
  qed
  then show ?thesis using assms(2) by (auto simp: dlookup_None) (metis not_le)
qed

lemma lose_held: "i_nlink (v_ino v i) \<noteq> 0 \<Longrightarrow> v_lose i (v\<lparr>v_held := i # hs\<rparr>) = Some (v\<lparr>v_held := hs\<rparr>)"
  by (simp add: v_lose_def Let_def)

text \<open>
  C39: A rename that fails takes a link from the directory.  Renaming a file that is no directory to a name longer than 29
  characters in the same directory returns \<^verbatim>\<open>ENAMETOOLONG\<close>, and all it changes is the link count of the
  directory, which goes down by one although no link was removed.  (When it has reached 0, losing the last
  reference to the directory truncates and frees it.)
\<close>

theorem failed_rename_drops_link:
  assumes dir: "dir_ok (v_reg d v)" "dlookup (v_reg d v) old = Some i" and i: "unat i \<noteq> d" "\<not> v_isdir (unat i) v"
    and cached: "i_state (v_ino v (unat i)) \<noteq> IINVAL" "unat i \<in> set (v_held v) \<or> length (remdups (v_held v)) < v_ninode v"
    and links: "i_nlink (v_ino v (unat i)) \<noteq> 0" "i_nlink (v_ino v d) \<noteq> 0"
    and perm: "v_deny (IR OR IW OR IX) d v = 0" and names: "old \<notin> {[], dot, dotdot}" "29 < length new" "old \<noteq> new"
  shows "rename2 d old d new v = Some (ENAMETOOLONG, decnlink d v) \<and> i_nlink (v_ino (decnlink d v) d) = i_nlink (v_ino v d) - 1"
proof
  let ?r = "v_reg d v" and ?c = "unat i"
  note D = dir_formD [OF dir_okD(1) [OF dir(1)]]
  obtain j where j: "findde old ?r = Some (Some (dblk ?r j, doff j))" "j < nent ?r" "dent ?r j = (i, old)" "i \<noteq> 0"
    by (rule find_entry [OF dir])
  have ch: "ino_at (dblk ?r j, doff j) v = ?c" using ino_at_entry [OF j(3)] .
  have fn: "findde new ?r = Some None"
    using findde_ok [OF dir_okD(1) [OF dir(1)], of new] long_name_absent [OF dir_okD(1) [OF dir(1)] names(2)] by (simp add: dlookup_def)
  have nn: "new \<notin> {[], dot, dotdot}" using names(2) by (auto simp: dot_def dotdot_def)
  have h: "v_isdir x (v_hold ?c v) = v_isdir x v" for x by (simp add: v_isdir_def v_hold_def)
  have ad: "addde new ?r = Some (ENAMETOOLONG, (0, 0), ?r)" using D(2) names(2) by (simp add: addde_def MINIXNAMELEN_def)
  have put: "v_put d ?r (v_hold ?c v) = v_hold ?c v" by (simp add: v_put_def v_hold_def)
  have "rename_new ?c d new (v_hold ?c v) = Some (ENAMETOOLONG, (0, 0), decnlink d (v_hold ?c v))"
    using i(2) fn ad put by (simp add: rename_new_def h errno_simps)
  moreover have "decnlink d (v_hold ?c v) = (decnlink d v)\<lparr>v_held := ?c # v_held (decnlink d v)\<rparr>"
    by (simp add: decnlink_def v_hold_def v_setdirty_def v_upd_def)
  then have "v_lose ?c (decnlink d (v_hold ?c v)) = Some (decnlink d v)"
    using lose_held [of "decnlink d v" ?c "v_held (decnlink d v)"] i(1) links(1) by (simp add: decnlink_simps)
  ultimately show "rename2 d old d new v = Some (ENAMETOOLONG, decnlink d v)"
    using j(1) ch readi_cached [OF cached] i(2) perm D(2) names(1,3) nn
    by (simp add: rename2_def v_isdir_def h [unfolded v_isdir_def] errno_simps)
  show "i_nlink (v_ino (decnlink d v) d) = i_nlink (v_ino v d) - 1" using links(2) by (simp add: decnlink_simps)
qed

subsection \<open>A small tree\<close>

text \<open>A root directory with the name \<^verbatim>\<open>a\<close> of an empty regular file.\<close>

definition demo_tree :: vfs where
  "demo_tree = demo_vfs\<lparr>v_fs := r_fs (demo_dir [(1, [46]), (1, [46, 46]), (2, [97])] True),
     v_ino := (\<lambda>i. if i = 1 then r_ino (demo_dir [(1, [46]), (1, [46, 46]), (2, [97])] True)
       else \<lparr>i_mode = 0x81a4, i_nlink = 1, i_uid = 0, i_gid = 0, i_size = 0, i_daddr = replicate 10 0, i_state = ICLEAN,
         i_atime = 0, i_mtime = 0, i_ctime = 0\<rparr>)\<rparr>"

lemma demo_tree_dir: "dir_ok (v_reg 1 demo_tree)" "dlookup (v_reg 1 demo_tree) [97] = Some 2"
proof -
  let ?es = "[(1, [46]), (1, [46, 46]), (2, [97])] :: (u16 \<times> u8 list) list"
  have r: "v_reg 1 demo_tree = demo_dir ?es True" by (simp add: v_reg_def demo_tree_def demo_vfs_def demo_dir_def)
  note ok = demo_dir_ok [of ?es]
  show d: "dir_ok (v_reg 1 demo_tree)" unfolding r by (rule ok) (simp_all add: good_entry_def)
  have "nent (demo_dir ?es True) = 3" "dent (demo_dir ?es True) 2 = (2, [97])"
    using ok(2) [of True] ok(3) [where k = 2 and space = True] by (simp_all add: good_entry_def)
  then show "dlookup (v_reg 1 demo_tree) [97] = Some 2"
    unfolding r dlookup_Some [OF d [unfolded r]] by (simp add: exI [of _ 2])
qed

lemma demo_tree_file: "reg_ok (v_reg 2 demo_tree)" "file_zones (v_reg 2 demo_tree) = {}"
proof -
  have n: "nd (v_reg 2 demo_tree) p = 0" if "vpos p" for p
  proof (cases p)
    case (Pair i ks)
    with that have i: "i < 10" by (simp add: vpos_def)
    have "i_daddr (r_ino (v_reg 2 demo_tree)) = replicate 10 0" by (simp add: v_reg_def demo_tree_def)
    with i Pair show ?thesis by (simp add: nd_def)
  qed
  then show "file_zones (v_reg 2 demo_tree) = {}" by (auto simp: file_zones_def zones_at_def)
  have fs: "r_fs (v_reg 2 demo_tree) = r_fs (demo_dir [(1, [46]), (1, [46, 46]), (2, [97])] True)" by (simp add: v_reg_def demo_tree_def)
  note ok = demo_dir_reg [of "[(1, [46]), (1, [46, 46]), (2, [97])]" True]
  show "reg_ok (v_reg 2 demo_tree)"
    using ok n unfolding reg_ok_def fs by (auto simp: v_reg_def demo_tree_def)
qed

theorem unlink_name_witness:
  "\<exists>v'. unlink2 1 [97] demo_tree = Some (0, v') \<and> i_state (v_ino v' 2) = IINVAL \<and> dlookup (v_reg 1 v') [97] = None"
proof -
  have p: "v_denyunlink 1 2 demo_tree = Some 0" "SISREG (i_mode (v_ino demo_tree 2))" "i_state (v_ino demo_tree 2) \<noteq> IINVAL"
    by (simp_all add: v_denyunlink_def denyunlink_def deny_def granted_to_def SISVTX_def demo_tree_def demo_vfs_def demo_dir_def SISDIR_def SISREG_def SIFMT_def ICLEAN_def IINVAL_def)
  have q: "v_held demo_tree = [1]" "v_ninode demo_tree = 256" "i_nlink (v_ino demo_tree 2) = 1"
    by (simp_all add: demo_tree_def demo_vfs_def)
  show ?thesis
    using unlink_removes_name [OF demo_tree_dir, of 2] p q demo_tree_file by auto
qed

theorem failed_rename_witness:
  "rename2 1 [97] 1 (replicate 30 98) demo_tree = Some (ENAMETOOLONG, decnlink 1 demo_tree) \<and>
   i_nlink (v_ino (decnlink 1 demo_tree) 1) = 1"
proof -
  have "i_nlink (v_ino demo_tree 1) = 2" "i_nlink (v_ino demo_tree 2) = 1" "v_held demo_tree = [1]" "v_ninode demo_tree = 256"
    "i_state (v_ino demo_tree 2) \<noteq> IINVAL" "\<not> v_isdir 2 demo_tree"
    by (simp_all add: demo_tree_def demo_vfs_def demo_dir_def ICLEAN_def IINVAL_def v_isdir_def SISDIR_def SIFMT_def)
  moreover have "v_deny (IR OR IW OR IX) 1 demo_tree = 0"
    by (simp add: v_deny_def deny_def granted_to_def demo_tree_def demo_vfs_def demo_dir_def IR_def IW_def IX_def)
  moreover have "[97::u8] \<noteq> replicate 30 98" by (simp add: numeral_eq_Suc)
  ultimately show ?thesis
    using failed_rename_drops_link [OF demo_tree_dir, of "replicate 30 98"] by (simp add: dot_def dotdot_def)
qed

end
