(* ===== verification/Fs_Namei.thy ===== *)
theory Fs_Namei
  imports Fs_Dir Lib_String
begin

text \<open>
  Path names and the calls that take them (\<^verbatim>\<open>fs/namei.cc\<close>, \<^verbatim>\<open>fs/open.cc\<close>).  The current task's root and working
  directory are inode numbers of the state of \<open>Fs_Icache\<close>.  User memory is \<open>uptr\<close>; a file object is a \<open>regfd\<close> with its
  inode, or what the device's open routine returns, which is a parameter together with the slot found by \<^verbatim>\<open>fdvec_t::put\<close>.
  Every path token is cut at 256 bytes by \<^verbatim>\<open>strncpy\<close>; the cut one has no terminating 0 and is longer than any name of a
  directory, whatever follows it in memory.
\<close>

definition PATHMAX :: nat where "PATHMAX = 1024"
definition NAMEMAX :: nat where "NAMEMAX = 255"

definition verrpath :: "u8 list uptr \<Rightarrow> int + u8 list" where
  "verrpath p = (case p of UOk s \<Rightarrow> if length s \<le> PATHMAX then Inr s else Inl ENAMETOOLONG | _ \<Rightarrow> Inl EFAULT)"

subsection \<open>Walking a path\<close>

definition advancei :: "nat \<Rightarrow> u8 list \<Rightarrow> vfs \<Rightarrow> (int \<times> nat \<times> vfs) option" where
  "advancei cwd name v = do {
     (e, i, v1) \<leftarrow> lookup cwd name v;
     if e \<noteq> 0 then Some (e, cwd, v1)
     else do { v2 \<leftarrow> v_lose cwd v1; Some (0, i, v2) } }"

partial_function (option) namei_loop :: "bool \<Rightarrow> nat \<Rightarrow> scanstr \<Rightarrow> vfs \<Rightarrow> (int \<times> nat \<times> u8 list \<times> vfs) option" where
  "namei_loop split cwd s v =
     (if ss_more s then
        if \<not> v_isdir cwd v then do { v1 \<leftarrow> v_lose cwd v; Some (ENOTDIR, 0, [], v1) }
        else if ss_nlefttok s = 1 \<and> split then Some (0, cwd, take (NAMEMAX + 1) (ss_curtok s), v)
        else do {
          (e, cwd', v1) \<leftarrow> advancei cwd (ss_curtok s) v;
          if e \<noteq> 0 then do { v2 \<leftarrow> v_lose cwd' v1; Some (e, 0, [], v2) }
          else namei_loop split cwd' (ss_next s) v1 }
      else Some (0, cwd, [], v))"

text \<open>The result is an error or 0, the inode, the last name when \<^verbatim>\<open>I2SPLIT\<close> is asked.\<close>

definition namei :: "bool \<Rightarrow> u8 list \<Rightarrow> vfs \<Rightarrow> (int \<times> nat \<times> u8 list \<times> vfs) option" where
  "namei split path v = do {
     s \<leftarrow> scanstr_ctor path [47];
     if ss_nlefttok s = 0 \<and> split then Some (ENOENT, 0, [], v)
     else let cwd = (if path \<noteq> [] \<and> hd path = 47 then v_root v else v_cwd v)
          in namei_loop split cwd s (v_hold cwd v) }"

subsection \<open>Calls that name a directory entry\<close>

text \<open>What \<^verbatim>\<open>sysunlink\<close>, \<^verbatim>\<open>sysmknod\<close>, \<^verbatim>\<open>sysmkdir\<close> and \<^verbatim>\<open>sysrmdir\<close> share.\<close>

definition in_dir :: "(nat \<Rightarrow> u8 list \<Rightarrow> vfs \<Rightarrow> (int \<times> vfs) option) \<Rightarrow> u8 list uptr \<Rightarrow> vfs \<Rightarrow> (int \<times> vfs) option" where
  "in_dir f p v = (case verrpath p of Inl e \<Rightarrow> Some (e, v)
     | Inr path \<Rightarrow> do {
         (e, dir, basename, v1) \<leftarrow> namei True path v;
         if e \<noteq> 0 then Some (e, v1)
         else do {
           (e, v2) \<leftarrow> f dir basename v1;
           v3 \<leftarrow> v_lose dir v2;
           Some (e, v3) } })"

definition sysunlink :: "bool \<Rightarrow> u8 list uptr \<Rightarrow> vfs \<Rightarrow> (int \<times> vfs) option" where
  "sysunlink low p v = (if low then Some (ENOMEM, v) else in_dir unlink2 p v)"

definition domkfifo :: "u8 list \<Rightarrow> u16 \<Rightarrow> vfs \<Rightarrow> (int \<times> vfs) option" where
  "domkfifo path mode v = do {
     (e, dir, basename, v1) \<leftarrow> namei True path v;
     if e \<noteq> 0 then Some (e, v1)
     else do { (e, v2) \<leftarrow> mkfifo dir basename mode v1; v3 \<leftarrow> v_lose dir v2; Some (e, v3) } }"

definition sysmknod :: "bool \<Rightarrow> u8 list uptr \<Rightarrow> u16 \<Rightarrow> u32 \<Rightarrow> vfs \<Rightarrow> (int \<times> vfs) option" where
  "sysmknod low p mode dev v =
     (if low then Some (ENOMEM, v) else in_dir (\<lambda>dir name. mknod dir name mode dev) p v)"

definition sysmkdir :: "u8 list uptr \<Rightarrow> u16 \<Rightarrow> vfs \<Rightarrow> (int \<times> vfs) option" where
  "sysmkdir p mode v = in_dir (\<lambda>dir name. mkdir dir name mode) p v"

definition sysrmdir :: "bool \<Rightarrow> u8 list uptr \<Rightarrow> vfs \<Rightarrow> (int \<times> vfs) option" where
  "sysrmdir low p v = (if low then Some (ENOMEM, v) else in_dir rmdir2 p v)"

definition syslink :: "bool \<Rightarrow> u8 list uptr \<Rightarrow> u8 list uptr \<Rightarrow> vfs \<Rightarrow> (int \<times> vfs) option" where
  "syslink low oldp newp v =
     (if low then Some (ENOMEM, v)
      else case verrpath oldp of Inl e \<Rightarrow> Some (e, v)
      | Inr old \<Rightarrow> (case verrpath newp of Inl e \<Rightarrow> Some (e, v)
      | Inr new \<Rightarrow> do {
          (e, oldi, _, v1) \<leftarrow> namei False old v;
          if e \<noteq> 0 then Some (e, v1)
          else do {
            (e, newdir, base, v2) \<leftarrow> namei True new v1;
            if e \<noteq> 0 then do { v3 \<leftarrow> v_lose oldi v2; Some (e, v3) }
            else do {
              (e, v3) \<leftarrow> hardlink2 newdir base oldi v2;
              v4 \<leftarrow> v_lose oldi v3;
              v5 \<leftarrow> v_lose newdir v4;
              Some (e, v5) } } }))"

definition sysrename :: "u8 list uptr \<Rightarrow> u8 list uptr \<Rightarrow> vfs \<Rightarrow> (int \<times> vfs) option" where
  "sysrename oldp newp v =
     (case verrpath oldp of Inl e \<Rightarrow> Some (e, v)
      | Inr old \<Rightarrow> (case verrpath newp of Inl e \<Rightarrow> Some (e, v)
      | Inr new \<Rightarrow> do {
          (e, olddir, oldbase, v1) \<leftarrow> namei True old v;
          if e \<noteq> 0 then Some (e, v1)
          else do {
            (e, newdir, newbase, v2) \<leftarrow> namei True new v1;
            if e \<noteq> 0 then do { v3 \<leftarrow> v_lose olddir v2; Some (e, v3) }
            else do {
              (e, v3) \<leftarrow> rename2 olddir oldbase newdir newbase v2;
              v4 \<leftarrow> v_lose olddir v3;
              v5 \<leftarrow> v_lose newdir v4;
              Some (e, v5) } } }))"

subsection \<open>Calls that name an inode\<close>

text \<open>The body gets the inode with a reference, which it releases itself.\<close>

definition on_leaf :: "(nat \<Rightarrow> vfs \<Rightarrow> (int \<times> vfs) option) \<Rightarrow> u8 list uptr \<Rightarrow> vfs \<Rightarrow> (int \<times> vfs) option" where
  "on_leaf f p v = (case verrpath p of Inl e \<Rightarrow> Some (e, v)
     | Inr path \<Rightarrow> do {
         (e, i, _, v1) \<leftarrow> namei False path v;
         if e \<noteq> 0 then Some (e, v1) else f i v1 })"

definition fail_leaf :: "int \<Rightarrow> nat \<Rightarrow> vfs \<Rightarrow> (int \<times> vfs) option" where
  "fail_leaf e i v = map_option (\<lambda>v1. (e, v1)) (v_lose i v)"

record stat =
  st_dev :: u16
  st_ino :: nat
  st_mode :: u16
  st_nlink :: u16
  st_uid :: u16
  st_gid :: u16
  st_rdev :: u32
  st_size :: nat
  st_blksize :: nat
  st_blocks :: nat
  st_atime :: int
  st_mtime :: int
  st_ctime :: int

definition getstat :: "u16 \<Rightarrow> nat \<Rightarrow> vfs \<Rightarrow> stat" where
  "getstat dev i v = (let x = v_ino v i in
     \<lparr>st_dev = dev, st_ino = i, st_mode = i_mode x, st_nlink = i_nlink x, st_uid = i_uid x, st_gid = i_gid x,
      st_rdev = i_daddr x ! 0, st_size = i_size x, st_blksize = MINIXBSIZE, st_blocks = i_size x div MINIXBSIZE,
      st_atime = i_atime x, st_mtime = i_mtime x, st_ctime = i_ctime x\<rparr>)"

text \<open>\<open>w\<close> tells whether the result buffer is writable.\<close>

definition sysstat :: "u16 \<Rightarrow> u8 list uptr \<Rightarrow> bool \<Rightarrow> vfs \<Rightarrow> (int \<times> stat option \<times> vfs) option" where
  "sysstat dev p w v = (case verrpath p of Inl e \<Rightarrow> Some (e, None, v)
     | Inr path \<Rightarrow>
         if \<not> w then Some (EFAULT, None, v)
         else do {
           (e, i, _, v1) \<leftarrow> namei False path v;
           if e \<noteq> 0 then Some (e, None, v1)
           else do { v2 \<leftarrow> v_lose i v1; Some (0, Some (getstat dev i v1), v2) } })"

text \<open>
  The other two fill the same fields of their structures.  \<^verbatim>\<open>sysstat64\<close>, too, verifies only \<^verbatim>\<open>sizeof(stat_t)\<close> bytes of
  the larger result.
\<close>

definition sysstat64 :: "u16 \<Rightarrow> u8 list uptr \<Rightarrow> bool \<Rightarrow> vfs \<Rightarrow> (int \<times> stat option \<times> vfs) option" where
  "sysstat64 dev p w v = (case verrpath p of Inl e \<Rightarrow> Some (e, None, v)
     | Inr path \<Rightarrow>
         if \<not> w then Some (EFAULT, None, v)
         else do {
           (e, i, _, v1) \<leftarrow> namei False path v;
           if e \<noteq> 0 then Some (e, None, v1)
           else do { v2 \<leftarrow> v_lose i v1; Some (0, Some (getstat dev i v1), v2) } })"

definition syslstat :: "u16 \<Rightarrow> u8 list uptr \<Rightarrow> bool \<Rightarrow> vfs \<Rightarrow> (int \<times> stat option \<times> vfs) option" where
  "syslstat dev p w v = sysstat dev p w v"

text \<open>The descriptor is an error, an object that is no \<^verbatim>\<open>REGFD\<close>, or the inode of one that is.\<close>

definition sysfstat :: "u16 \<Rightarrow> int + nat option \<Rightarrow> bool \<Rightarrow> vfs \<Rightarrow> int \<times> stat option" where
  "sysfstat dev fd w v =
     (if \<not> w then (EFAULT, None)
      else case fd of Inl e \<Rightarrow> (e, None) | Inr None \<Rightarrow> (0, None) | Inr (Some i) \<Rightarrow> (0, Some (getstat dev i v)))"

definition syschdir :: "u8 list uptr \<Rightarrow> vfs \<Rightarrow> (int \<times> vfs) option" where
  "syschdir p v = on_leaf (\<lambda>i v1.
     if \<not> v_isdir i v1 then fail_leaf ENOTDIR i v1
     else if v_deny IX i v1 \<noteq> 0 then fail_leaf EACCES i v1
     else do { v2 \<leftarrow> v_lose (v_cwd v1) v1; Some (0, v2\<lparr>v_cwd := i\<rparr>) }) p v"

definition sysfchdir :: "int + nat option \<Rightarrow> vfs \<Rightarrow> (int \<times> vfs) option" where
  "sysfchdir fd v = (case fd of Inl e \<Rightarrow> Some (e, v) | Inr None \<Rightarrow> Some (ENOTDIR, v)
     | Inr (Some i) \<Rightarrow>
         if \<not> v_isdir i v then Some (ENOTDIR, v)
         else if v_deny IX i v \<noteq> 0 then Some (EACCES, v)
         else do { v1 \<leftarrow> v_lose (v_cwd v) (v_hold i v); Some (0, v1\<lparr>v_cwd := i\<rparr>) })"

definition syschmod :: "u8 list uptr \<Rightarrow> u16 \<Rightarrow> vfs \<Rightarrow> (int \<times> vfs) option" where
  "syschmod p mode v = on_leaf (\<lambda>i v1.
     if v_euid v1 \<noteq> i_uid (v_ino v1 i) \<and> v_euid v1 \<noteq> 0 then fail_leaf EPERM i v1
     else do {
       v2 \<leftarrow> v_lose2 i (v_upd i (\<lambda>x. x\<lparr>i_mode := (mode AND 0xfff) OR (i_mode x AND NOT 0xfff)\<rparr>) v1);
       Some (0, v2) }) p v"

definition syschown :: "u8 list uptr \<Rightarrow> u16 \<Rightarrow> u16 \<Rightarrow> vfs \<Rightarrow> (int \<times> vfs) option" where
  "syschown p uid gid v = on_leaf (\<lambda>i v1.
     if v_euid v1 \<noteq> 0 then fail_leaf EPERM i v1
     else do { v2 \<leftarrow> v_lose2 i (v_upd i (\<lambda>x. x\<lparr>i_uid := uid, i_gid := gid\<rparr>) v1); Some (0, v2) }) p v"

definition syschroot :: "u8 list uptr \<Rightarrow> vfs \<Rightarrow> (int \<times> vfs) option" where
  "syschroot p v = on_leaf (\<lambda>i v1.
     if \<not> v_isdir i v1 then fail_leaf ENOTDIR i v1
     else if v_euid v1 \<noteq> 0 then fail_leaf EPERM i v1
     else do { v2 \<leftarrow> v_lose (v_root v1) v1; Some (0, v2\<lparr>v_root := i\<rparr>) }) p v"

definition sysutime :: "u8 list uptr \<Rightarrow> (int \<times> int) uptr \<Rightarrow> vfs \<Rightarrow> (int \<times> vfs) option" where
  "sysutime p t v = on_leaf (\<lambda>i v1.
     if v_deny IW i v1 \<noteq> 0 then fail_leaf EPERM i v1
     else case t of
       UBad \<Rightarrow> fail_leaf EFAULT i v1
     | UOk (a, m) \<Rightarrow> map_option (\<lambda>v2. (0, v2)) (v_lose2 i (v_upd i (\<lambda>x. x\<lparr>i_atime := a, i_mtime := m\<rparr>) v1))
     | UNull \<Rightarrow> map_option (\<lambda>v2. (0, v2)) (v_lose2 i (v_upd i (\<lambda>x. x\<lparr>i_atime := v_now v1, i_mtime := v_now v1\<rparr>) v1))) p v"

definition sysaccess :: "u8 list uptr \<Rightarrow> u32 \<Rightarrow> vfs \<Rightarrow> (int \<times> vfs) option" where
  "sysaccess p mode v = (case verrpath p of Inl e \<Rightarrow> Some (e, v)
     | Inr _ \<Rightarrow>
         if mode \<noteq> mode AND 7 then Some (EINVAL, v)
         else on_leaf (\<lambda>i v1. fail_leaf (v_deny (ucast mode) i v1) i v1) p v)"

definition sysumask :: "u32 \<Rightarrow> vfs \<Rightarrow> int \<times> vfs" where
  "sysumask m v = (uint (v_umask v), v\<lparr>v_umask := ucast (m AND 0x1ff)\<rparr>)"

subsection \<open>The path of the working directory\<close>

definition backward :: "nat \<Rightarrow> nat \<Rightarrow> u8 list \<Rightarrow> vfs \<Rightarrow> (int \<times> nat \<times> nat \<times> u8 list \<times> vfs) option" where
  "backward child room path v = do {
     (e, parent, v1) \<leftarrow> lookup2 child dotdot v;
     if e \<noteq> 0 then Some (e, child, room, path, v1)
     else do {
       x \<leftarrow> findde_ino (of_nat child) room path (v_reg parent v1);
       case x of Inl e \<Rightarrow> Some (e, child, room, path, v1)
       | Inr (room', path') \<Rightarrow> do { v2 \<leftarrow> v_lose child v1; Some (0, parent, room', path', v2) } } }"

partial_function (option) getcwd_loop :: "nat \<Rightarrow> nat \<Rightarrow> u8 list \<Rightarrow> vfs \<Rightarrow> (int \<times> u8 list \<times> vfs) option" where
  "getcwd_loop cwd room path v =
     (if cwd = v_root v then do { v1 \<leftarrow> v_lose cwd v; Some (int room, path, v1) }
      else do {
        (e, cwd', room', path', v1) \<leftarrow> backward cwd room path v;
        if e \<noteq> 0 then do { v2 \<leftarrow> v_lose cwd' v1; Some (e, [], v2) }
        else getcwd_loop cwd' room' path' v1 })"

text \<open>The result is what is left of the buffer, and the string written into it.\<close>

definition sysgetcwd :: "bool \<Rightarrow> nat \<Rightarrow> vfs \<Rightarrow> (int \<times> u8 list \<times> vfs) option" where
  "sysgetcwd w sz v =
     (if sz = 0 \<or> \<not> w then Some (EFAULT, [], v) else getcwd_loop (v_cwd v) (sz - 1) [] (v_hold (v_cwd v) v))"

subsection \<open>Open\<close>

datatype 'd fobj = FReg nat regfd | FDev 'd

text \<open>
  \<open>opendev\<close> stands for \<^verbatim>\<open>openblkfd\<close> and \<^verbatim>\<open>openchrfd\<close>, \<open>closedev\<close> for the destructor of what they make, \<open>put\<close> for the slot
  \<^verbatim>\<open>fdvec_t::put\<close> finds (\<open>Kern_Fdes\<close>).  When there is none the new object is destroyed, which releases the inode.
\<close>

definition doopen :: "(u32 \<Rightarrow> nat \<Rightarrow> vfs \<Rightarrow> (int + 'd) \<times> vfs) \<Rightarrow> ('d \<Rightarrow> vfs \<Rightarrow> vfs option) \<Rightarrow> ('d fobj \<Rightarrow> int) \<Rightarrow> u32 \<Rightarrow> nat \<Rightarrow> vfs \<Rightarrow> (int \<times> 'd fobj option \<times> vfs) option" where
  "doopen opendev closedev put flags i v =
     (let flags = (if flags AND 1024 \<noteq> 0 then flags OR 8 else flags);
          flags = (if flags AND 2048 \<noteq> 0 then flags OR 16 else flags);
          m = i_mode (v_ino v i)
      in if SISREG m \<or> SISDIR m then do {
           (e, d, r) \<leftarrow> openregfd flags (v_reg i v);
           let v1 = v_put i r v;
           case d of None \<Rightarrow> Some (e, None, v1)
           | Some d \<Rightarrow> do {
               let v2 = v_hold i v1;
               let fd = put (FReg i d);
               if fd < 0 then do { v3 \<leftarrow> v_lose i v2; Some (fd, None, v3) } else Some (fd, Some (FReg i d), v2) } }
         else if SISBLK m \<or> SISCHR m then
           (case opendev flags i v of (Inl e, v1) \<Rightarrow> Some (e, None, v1)
            | (Inr d, v1) \<Rightarrow>
                let fd = put (FDev d) in
                if fd < 0 then do { v2 \<leftarrow> closedev d v1; Some (fd, None, v2) } else Some (fd, Some (FDev d), v1))
         else Some (EINVAL, None, v))"

definition lose_opt :: "nat option \<Rightarrow> vfs \<Rightarrow> vfs option" where
  "lose_opt x v = (case x of None \<Rightarrow> Some v | Some i \<Rightarrow> v_lose i v)"

definition sysopen :: "(u32 \<Rightarrow> nat \<Rightarrow> vfs \<Rightarrow> (int + 'd) \<times> vfs) \<Rightarrow> ('d \<Rightarrow> vfs \<Rightarrow> vfs option) \<Rightarrow> ('d fobj \<Rightarrow> int) \<Rightarrow> u8 list \<Rightarrow> u32 \<Rightarrow> u16 \<Rightarrow> vfs \<Rightarrow> (int \<times> 'd fobj option \<times> vfs) option" where
  "sysopen opendev closedev put path flags mode v =
     (let flags = flags + 1;
          fail = (\<lambda>e dir leaf w. do { w1 \<leftarrow> lose_opt dir w; w2 \<leftarrow> lose_opt leaf w1; Some (e, None, w2) });
          open = (\<lambda>dir leaf w. do {
            (e, f, w1) \<leftarrow> doopen opendev closedev put flags leaf w;
            w2 \<leftarrow> lose_opt dir w1;
            w3 \<leftarrow> v_lose leaf w2;
            Some (e, f, w3) })
      in if flags AND 64 = 0 then do {
           (e, leaf, _, v1) \<leftarrow> namei False path v;
           if e \<noteq> 0 then Some (e, None, v1) else open None leaf v1 }
         else do {
           (e, dir, base, v1) \<leftarrow> namei True path v;
           if e \<noteq> 0 then Some (e, None, v1)
           else do {
             (e, leaf, v2) \<leftarrow> mkreg True dir base mode v1;
             if e = 0 then open (Some dir) leaf v2
             else if e \<noteq> EEXIST then fail e (Some dir) None v2
             else if flags AND 128 \<noteq> 0 then fail e (Some dir) None v2
             else do {
               (e, leaf, v3) \<leftarrow> lookup dir base v2;
               if e \<noteq> 0 then fail e (Some dir) None v3 else open (Some dir) leaf v3 } } })"

definition syscreat :: "(u32 \<Rightarrow> nat \<Rightarrow> vfs \<Rightarrow> (int + 'd) \<times> vfs) \<Rightarrow> ('d \<Rightarrow> vfs \<Rightarrow> vfs option) \<Rightarrow> ('d fobj \<Rightarrow> int) \<Rightarrow> u8 list \<Rightarrow> u16 \<Rightarrow> vfs \<Rightarrow> (int \<times> 'd fobj option \<times> vfs) option" where
  "syscreat opendev closedev put path mode v = sysopen opendev closedev put path (64 OR 1 OR 512) mode v"

subsection \<open>Path resolution on a tree of names\<close>

text \<open>An inode as it is once it has been loaded, and the state with all inodes loaded and no references.\<close>

definition inode_of :: "vfs \<Rightarrow> nat \<Rightarrow> inode" where
  "inode_of v i = (if i_state (v_ino v i) \<noteq> IINVAL then v_ino v i
     else case seeki (of_nat i) (v_fs v) of
       (e, Some (bno, off)) \<Rightarrow> (di_load (f_blk (v_fs v) bno) off (v_ino v i))\<lparr>i_state := ICLEAN\<rparr>
     | (e, None) \<Rightarrow> v_ino v i)"

definition settle :: "vfs \<Rightarrow> vfs" where
  "settle v = v\<lparr>v_ino := inode_of v, v_held := []\<rparr>"

definition usable :: "vfs \<Rightarrow> nat \<Rightarrow> bool" where
  "usable v i \<longleftrightarrow> i_nlink (inode_of v i) \<noteq> 0 \<and> i_state (inode_of v i) \<noteq> IINVAL"

definition loaded :: "vfs \<Rightarrow> bool" where
  "loaded v \<longleftrightarrow> (\<forall>i\<in>set (v_held v). i_state (v_ino v i) \<noteq> IINVAL)"

text \<open>Every directory is well formed and names only inodes that exist, and the cache has room for two more.\<close>

definition tree_ok :: "vfs \<Rightarrow> bool" where
  "tree_ok v \<longleftrightarrow> v_isroot (v_root v) \<and> {v_root v, v_cwd v} \<subseteq> set (v_held v) \<and> loaded v \<and>
     usable v (v_root v) \<and> usable v (v_cwd v) \<and> length (remdups (v_held v)) + 1 < v_ninode v \<and>
     (\<forall>d. v_isdir d (settle v) \<longrightarrow> dir_ok (v_reg d (settle v)) \<and>
       (\<forall>name i. dlookup (v_reg d (settle v)) name = Some i \<longrightarrow> usable v (unat i)))"

fun resolve :: "vfs \<Rightarrow> nat \<Rightarrow> u8 list list \<Rightarrow> int + nat" where
  "resolve S d [] = Inr d"
| "resolve S d (name # names) =
     (if \<not> v_isdir d S then Inl ENOTDIR
      else if v_deny IX d S \<noteq> 0 then Inl EACCES
      else if name = dotdot \<and> d = v_root S then resolve S d names
      else case dlookup (v_reg d S) name of None \<Rightarrow> Inl ENOENT | Some i \<Rightarrow> resolve S (unat i) names)"

definition path_target :: "bool \<Rightarrow> vfs \<Rightarrow> nat \<Rightarrow> u8 list list \<Rightarrow> int + nat \<times> u8 list" where
  "path_target split S d names =
     (case resolve S d (if split then butlast names else names) of
        Inl e \<Rightarrow> Inl e
      | Inr d' \<Rightarrow> if \<not> split then Inr (d', []) else if v_isdir d' S then Inr (d', take 256 (last names)) else Inl ENOTDIR)"

lemma inode_of_loaded: "i_state (v_ino v i) \<noteq> IINVAL \<Longrightarrow> inode_of v i = v_ino v i"
  by (simp add: inode_of_def)

lemma settled_simps [simp]:
  "v_fs (settle v) = v_fs v" "v_root (settle v) = v_root v" "v_cwd (settle v) = v_cwd v" "v_ino (settle v) = inode_of v"
  "v_ninode (settle v) = v_ninode v" "v_now (settle v) = v_now v" "v_euid (settle v) = v_euid v" "v_egid (settle v) = v_egid v"
  by (simp_all add: settle_def)

lemma settled_held [simp]: "settle (v\<lparr>v_held := hs\<rparr>) = settle v"
  by (simp add: settle_def inode_of_def fun_eq_iff)

lemma settled_hold [simp]: "settle (v_hold i v) = settle v"
  by (simp add: v_hold_def)

lemma settled_reg: "i_state (v_ino v d) \<noteq> IINVAL \<Longrightarrow> v_reg d v = v_reg d (settle v)"
  by (simp add: v_reg_def inode_of_loaded)

text \<open>Loading an inode does not change the settle state.\<close>

lemma seeki_Some: "seeki i fs = (e, x) \<Longrightarrow> x \<noteq> None \<Longrightarrow> e = 0"
  by (auto simp: seeki_def Let_def split: if_splits sum.splits)

lemma readi_settled:
  assumes "usable v i" and "i \<in> set (v_held v) \<or> length (remdups (v_held v)) < v_ninode v" "loaded v"
  obtains v' where "readi i v = Some (0, v')" "settle v' = settle v" "v_held v' = i # v_held v" "loaded v'"
proof (cases "i_state (v_ino v i) = IINVAL")
  case False
  with that [of "v_hold i v"] assms show ?thesis by (simp add: readi_cached) (simp add: v_hold_def loaded_def)
next
  case True
  obtain e x where ex: "seeki (of_nat i) (v_fs v) = (e, x)" by fastforce
  with True assms(1) have "x \<noteq> None" by (cases x) (simp_all add: usable_def inode_of_def)
  then obtain bno off where s: "seeki (of_nat i) (v_fs v) = (0, Some (bno, off))" using ex seeki_Some [OF ex] by auto
  let ?v = "v_upd i (\<lambda>x. (di_load (f_blk (v_fs v) bno) off x)\<lparr>i_state := ICLEAN\<rparr>) (v_hold i v)"
  have ino: "v_ino ?v = (v_ino v)(i := inode_of v i)" using True s by (simp add: v_upd_def v_hold_def inode_of_def)
  have c: "i_state (inode_of v i) \<noteq> IINVAL" using True s by (simp add: inode_of_def ICLEAN_def IINVAL_def)
  have "inode_of ?v = inode_of v"
  proof
    fix j show "inode_of ?v j = inode_of v j"
      using c by (cases "j = i") (simp_all add: inode_of_def [of ?v] ino, simp_all add: inode_of_def v_upd_def v_hold_def)
  qed
  then have "settle ?v = settle v" by (simp add: settle_def) (simp add: v_upd_def v_hold_def)
  moreover have "readi i v = Some (0, ?v)"
    using assms(2) True s by (auto simp: readi_def geti_def iread_def v_hold_def)
  moreover have "v_held ?v = i # v_held v" "loaded ?v"
    using assms(3) c unfolding loaded_def ino by (simp_all add: v_upd_def v_hold_def)
  ultimately show ?thesis using that by blast
qed

lemma lose_loaded:
  assumes "c \<in> set (v_held v)" "loaded v" "usable v c"
  shows "v_lose c v = Some (v\<lparr>v_held := remove1 c (v_held v)\<rparr>)"
proof -
  have "i_nlink (v_ino v c) \<noteq> 0" using assms by (simp add: usable_def loaded_def inode_of_loaded)
  then show ?thesis using assms(1) by (simp add: v_lose_def Let_def)
qed

lemma settle_access:
  assumes "i_state (v_ino v c) \<noteq> IINVAL"
  shows "v_isdir c v = v_isdir c (settle v)" "v_deny m c v = v_deny m c (settle v)" "v_reg c v = v_reg c (settle v)"
  using assms by (simp_all add: v_isdir_def v_deny_def v_reg_def inode_of_loaded)

text \<open>The walk holds \<open>c\<close> besides what was held before.\<close>

definition walking :: "vfs \<Rightarrow> nat list \<Rightarrow> nat \<Rightarrow> vfs \<Rightarrow> bool" where
  "walking v0 hs c v \<longleftrightarrow> settle v = settle v0 \<and> v_held v = c # hs \<and> loaded v \<and> usable v0 c"

lemma usable_settle: "settle v = settle v0 \<Longrightarrow> inode_of v = inode_of v0 \<and> v_fs v = v_fs v0 \<and> v_root v = v_root v0 \<and> v_ninode v = v_ninode v0"
  by (drule arg_cong [where f = "\<lambda>v. (v_ino v, v_fs v, v_root v, v_ninode v)"]) simp

lemma tree_okD:
  assumes "tree_ok v" "v_isdir d (settle v)"
  shows "dir_ok (v_reg d (settle v))" "dlookup (v_reg d (settle v)) name = Some i \<Longrightarrow> usable v (unat i)"
  using assms unfolding tree_ok_def by blast+

lemma walking_loaded: "walking v0 hs c v \<Longrightarrow> i_state (v_ino v c) \<noteq> IINVAL"
  by (simp add: walking_def loaded_def)

lemma walking_usable: "walking v0 hs c v \<Longrightarrow> settle w = settle v0 \<Longrightarrow> usable w c"
  unfolding walking_def usable_def by (drule usable_settle) simp

lemma loaded_sub: "loaded v \<Longrightarrow> set hs \<subseteq> set (v_held v) \<Longrightarrow> loaded (v\<lparr>v_held := hs\<rparr>)"
  by (auto simp: loaded_def)

lemma walking_lose:
  assumes "walking v0 hs c v"
  shows "\<exists>v'. v_lose c v = Some v' \<and> settle v' = settle v0 \<and> v_held v' = hs \<and> loaded v'"
proof -
  have h: "v_held v = c # hs" "loaded v" "settle v = settle v0" using assms by (simp_all add: walking_def)
  then have "v_lose c v = Some (v\<lparr>v_held := hs\<rparr>)"
    using lose_loaded [of c v] walking_usable [OF assms] by simp
  moreover have "loaded (v\<lparr>v_held := hs\<rparr>)" using h by (intro loaded_sub) auto
  ultimately show ?thesis using h by simp
qed

lemma walking_step:
  assumes w: "walking v0 hs c v" and i: "settle v1 = settle v" "v_held v1 = i # v_held v" "loaded v1" and u: "usable v0 i"
  obtains v2 where "v_lose c v1 = Some v2" "walking v0 hs i v2"
proof -
  have h: "v_held v1 = i # c # hs" "settle v1 = settle v0" using w i by (simp_all add: walking_def)
  then have "remove1 c (v_held v1) = i # hs" by simp
  then have "v_lose c v1 = Some (v1\<lparr>v_held := i # hs\<rparr>)"
    using lose_loaded [of c v1] h i(3) walking_usable [OF w h(2)] by simp
  moreover have "loaded (v1\<lparr>v_held := i # hs\<rparr>)" using h i(3) by (intro loaded_sub) auto
  then have "walking v0 hs i (v1\<lparr>v_held := i # hs\<rparr>)" using u h by (simp add: walking_def)
  ultimately show ?thesis by (rule that)
qed

text \<open>One component of a path.\<close>

lemma advancei_ok:
  assumes ok: "tree_ok v0" and w: "walking v0 hs c v" and room: "length (remdups hs) + 1 < v_ninode v0"
  shows "case resolve (settle v0) c [name] of
      Inl e \<Rightarrow> e \<noteq> 0 \<and> advancei c name v = Some (e, c, v)
    | Inr c' \<Rightarrow> \<exists>v'. advancei c name v = Some (0, c', v') \<and> walking v0 hs c' v'"
proof -
  let ?S = "settle v0"
  have S: "settle v = ?S" and h: "v_held v = c # hs" using w by (simp_all add: walking_def)
  note l = settle_access [OF walking_loaded [OF w], unfolded S]
  note n = usable_settle [OF S]
  have root: "v_isroot c \<longleftrightarrow> c = v_root v" using ok n by (simp add: tree_ok_def v_isroot_def)
  consider (nodir) "\<not> v_isdir c ?S" | (deny) "v_isdir c ?S" "v_deny IX c ?S \<noteq> 0"
    | (root) "v_isdir c ?S" "v_deny IX c ?S = 0" "name = dotdot" "c = v_root v0"
    | (name) "v_isdir c ?S" "v_deny IX c ?S = 0" "\<not> (name = dotdot \<and> c = v_root v0)" by blast
  then show ?thesis
  proof cases
    case root
    have "v_lose c (v_hold c v) = Some v"
      using h by (simp add: v_lose_def v_hold_def)
    then show ?thesis using root l n w by (simp add: advancei_def lookup_def)
  next
    case name
    note d = tree_okD [OF ok name(1)]
    have fd: "findde name (v_reg c v) = Some (map_option (\<lambda>j. (dblk (v_reg c ?S) j, doff j)) (dfind (\<lambda>(i, nm). i \<noteq> 0 \<and> nm = name) (v_reg c ?S)))"
      unfolding l by (rule findde_ok [OF dir_okD(1) [OF d(1)]])
    have lk: "lookup c name v = lookup2 c name v" using name l n root by (auto simp: lookup_def)
    show ?thesis
    proof (cases "dlookup (v_reg c ?S) name")
      case None
      then have "advancei c name v = Some (ENOENT, c, v)" using fd lk by (simp add: advancei_def lookup2_def dlookup_def errno_simps)
      then show ?thesis using name None by (auto simp: errno_simps)
    next
      case (Some i)
      note u = d(2) [OF Some]
      obtain j where j: "findde name (v_reg c v) = Some (Some (dblk (v_reg c v) j, doff j))" "dent (v_reg c v) j = (i, name)"
        using find_entry [OF d(1) Some] unfolding l by blast
      obtain v1 where v1: "readi (unat i) v = Some (0, v1)" "settle v1 = settle v" "v_held v1 = unat i # v_held v" "loaded v1"
      proof (rule readi_settled)
        show "usable v (unat i)" using u n by (simp add: usable_def)
        show "unat i \<in> set (v_held v) \<or> length (remdups (v_held v)) < v_ninode v" using h room n by simp
        show "loaded v" using w by (simp add: walking_def)
      qed
      obtain v2 where "v_lose c v1 = Some v2" "walking v0 hs (unat i) v2" by (rule walking_step [OF w v1(2-4) u])
      then have "advancei c name v = Some (0, unat i, v2)" "walking v0 hs (unat i) v2"
        using lk j(1) v1(1) ino_at_entry [OF j(2)] by (simp_all add: advancei_def lookup2_def)
      then show ?thesis using name Some by auto
    qed
  qed (use l in \<open>simp_all add: advancei_def lookup_def errno_simps\<close>)
qed

text \<open>What the walk returns and the references it leaves.\<close>

definition namei_ends :: "vfs \<Rightarrow> nat list \<Rightarrow> int + nat \<times> u8 list \<Rightarrow> (int \<times> nat \<times> u8 list \<times> vfs) option \<Rightarrow> bool" where
  "namei_ends v0 hs t res \<longleftrightarrow> (\<exists>v'. settle v' = settle v0 \<and> loaded v' \<and>
     (case t of Inl e \<Rightarrow> e \<noteq> 0 \<and> res = Some (e, 0, [], v') \<and> v_held v' = hs
      | Inr (i, name) \<Rightarrow> res = Some (0, i, name, v') \<and> v_held v' = i # hs \<and> usable v0 i))"

lemma path_target_simps:
  "path_target False S d [] = Inr (d, [])"
  "path_target True S d [name] = (if v_isdir d S then Inr (d, take 256 name) else Inl ENOTDIR)"
  by (auto simp: path_target_def)

lemma resolve_Cons: "resolve S d (name # names) = (case resolve S d [name] of Inl e \<Rightarrow> Inl e | Inr d' \<Rightarrow> resolve S d' names)"
  by (auto split: option.splits)

lemma path_target_Cons:
  assumes "\<not> (split \<and> names = [])"
  shows "path_target split S d (name # names) =
     (case resolve S d [name] of Inl e \<Rightarrow> Inl e | Inr d' \<Rightarrow> path_target split S d' names)"
proof (cases split)
  case True
  with assms have n: "names \<noteq> []" by simp
  show ?thesis using True n unfolding path_target_def
    by (cases "resolve S d [name]") (simp_all add: resolve_Cons [of S d name "butlast names"] del: resolve.simps split: sum.split)
next
  case False
  then show ?thesis unfolding path_target_def
    by (cases "resolve S d [name]") (simp_all add: resolve_Cons [of S d name names] del: resolve.simps split: sum.split)
qed

lemma resolve_nodir: "\<not> v_isdir d S \<Longrightarrow> resolve S d [name] = Inl ENOTDIR"
  by simp

lemma namei_loop_ok:
  assumes ok: "tree_ok v0" and room: "length (remdups hs) + 1 < v_ninode v0"
  shows "scan_on s ts \<Longrightarrow> walking v0 hs c v \<Longrightarrow> split \<longrightarrow> ts \<noteq> [] \<Longrightarrow>
    namei_ends v0 hs (path_target split (settle v0) c ts) (namei_loop split c s v)"
proof (induction ts arbitrary: s c v)
  case Nil
  then show ?case
    by (subst namei_loop.simps) (auto simp: scan_on_cases namei_ends_def path_target_simps walking_def)
next
  case (Cons t ts)
  note sc = scan_on_cases [OF Cons.prems(1)] and w = Cons.prems(2)
  have st: "ss_more s" "ss_curtok s = t" "scan_on (ss_next s) ts" "ss_nlefttok s = 1 \<longleftrightarrow> ts = []"
    using sc scan_on_nleft [OF Cons.prems(1)] by auto
  have dir: "v_isdir c v = v_isdir c (settle v0)"
    using settle_access(1) [OF walking_loaded [OF w]] w by (simp add: walking_def)
  have lost: "namei_ends v0 hs (Inl e) (do { v1 \<leftarrow> v_lose c v; Some (e, 0, [], v1) })" if "e \<noteq> 0" for e
    using walking_lose [OF w] that by (auto simp: namei_ends_def)
  show ?case
  proof (cases "v_isdir c (settle v0) \<and> \<not> (split \<and> ts = [])")
    case False
    then consider (nodir) "\<not> v_isdir c (settle v0)" | (last) "v_isdir c (settle v0)" "split" "ts = []" by blast
    then show ?thesis
    proof cases
      case nodir
      have "path_target split (settle v0) c (t # ts) = Inl ENOTDIR"
        using nodir resolve_nodir [OF nodir] by (cases "split \<and> ts = []") (simp_all add: path_target_simps path_target_Cons del: resolve.simps)
      then show ?thesis
        using lost [of ENOTDIR] st nodir dir by (subst namei_loop.simps) (simp add: errno_simps)
    next
      case last
      then show ?thesis
        using st dir w by (subst namei_loop.simps) (auto simp: namei_ends_def path_target_simps walking_def NAMEMAX_def)
    qed
  next
    case True
    then have t: "path_target split (settle v0) c (t # ts) =
        (case resolve (settle v0) c [t] of Inl e \<Rightarrow> Inl e | Inr d' \<Rightarrow> path_target split (settle v0) d' ts)"
      by (intro path_target_Cons) simp
    have l: "namei_loop split c s v = do {
          (e, cwd', v1) \<leftarrow> advancei c t v;
          if e \<noteq> 0 then do { v2 \<leftarrow> v_lose cwd' v1; Some (e, 0, [], v2) }
          else namei_loop split cwd' (ss_next s) v1 }"
      using True st dir by (subst namei_loop.simps) auto
    show ?thesis
    proof (cases "resolve (settle v0) c [t]")
      case (Inl e)
      then show ?thesis using advancei_ok [OF ok w room, of t] lost [of e] unfolding t l by simp
    next
      case (Inr d)
      then obtain v' where "advancei c t v = Some (0, d, v')" "walking v0 hs d v'"
        using advancei_ok [OF ok w room, of t] by auto
      then show ?thesis using Cons.IH [OF st(3), of d v'] True Inr unfolding t l by simp
    qed
  qed
qed

definition path_start :: "u8 list \<Rightarrow> vfs \<Rightarrow> nat" where
  "path_start path v = (if path \<noteq> [] \<and> hd path = 47 then v_root v else v_cwd v)"

definition path_result :: "bool \<Rightarrow> u8 list \<Rightarrow> vfs \<Rightarrow> int + nat \<times> u8 list" where
  "path_result split path v = (let names = tokens (\<lambda>c. c = 47) path in
     if split \<and> names = [] then Inl ENOENT else path_target split (settle v) (path_start path v) names)"

lemma namei_ok:
  assumes "tree_ok v" "0 \<notin> set path" "length path < 4096"
  shows "namei_ends v (v_held v) (path_result split path v) (namei split path v)"
proof -
  let ?ts = "tokens (\<lambda>c. c = 47) path" and ?start = "path_start path v"
  obtain s where s: "scanstr_ctor path [47] = Some s" "scan_on s ?ts"
    by (rule scan_on_ctor [OF assms(2,3), of "[47]"]) simp
  note h = assms(1) [unfolded tree_ok_def]
  have w: "walking v (v_held v) ?start (v_hold ?start v)"
    using h by (auto simp: walking_def v_hold_def loaded_def path_start_def)
  show ?thesis
  proof (cases "split \<and> ?ts = []")
    case True
    then show ?thesis using s scan_on_nleft [OF s(2)] h by (auto simp: namei_def path_result_def namei_ends_def errno_simps)
  next
    case False
    then have "namei split path v = namei_loop split ?start s (v_hold ?start v)"
      using s(1) scan_on_nleft [OF s(2)] by (auto simp: namei_def Let_def path_start_def)
    moreover have "namei_ends v (v_held v) (path_target split (settle v) ?start ?ts) (namei_loop split ?start s (v_hold ?start v))"
      using h False by (intro namei_loop_ok [OF assms(1) _ s(2) w]) auto
    ultimately show ?thesis unfolding path_result_def Let_def if_not_P [OF False] by simp
  qed
qed

lemma namei_leaf:
  assumes "tree_ok v" "0 \<notin> set path" "length path < 4096" "path_result split path v = Inr (i, name)"
  obtains v' where "namei split path v = Some (0, i, name, v')" "settle v' = settle v" "v_held v' = i # v_held v" "loaded v'" "usable v i"
  using namei_ok [OF assms(1-3), of split] assms(4) that by (auto simp: namei_ends_def)

text \<open>
  C14: Path lookup is resolution in the tree of names.  In a tree whose directories are well formed \<^verbatim>\<open>namei\<close> always
  returns.  The inode, or the error \<^verbatim>\<open>ENOENT\<close>, \<^verbatim>\<open>ENOTDIR\<close> or \<^verbatim>\<open>EACCES\<close>, is the one reached by looking up the components of the path
  one after the other from the root or the working directory, \<^verbatim>\<open>..\<close> at the root staying there; with \<^verbatim>\<open>I2SPLIT\<close> it is the directory
  of the last component.  The references held are as before, and one more to the inode returned.
\<close>

theorem namei_resolves:
  assumes "tree_ok v" "0 \<notin> set path" "length path < 4096"
  shows "\<exists>v'. settle v' = settle v \<and>
    (case path_result split path v of Inl e \<Rightarrow> e \<noteq> 0 \<and> namei split path v = Some (e, 0, [], v') \<and> v_held v' = v_held v
     | Inr (i, name) \<Rightarrow> namei split path v = Some (0, i, name, v') \<and> v_held v' = i # v_held v)"
  using namei_ok [OF assms, of split] unfolding namei_ends_def
  by (elim ex_forward) (cases "path_result split path v"; auto)

lemma or_and_distrib_word: "(x OR y) AND m = (x AND m) OR (y AND m)" for x y m :: u32
  by (rule bit.conj_disj_distrib2)

lemma doopen_regular:
  fixes put :: "'d fobj \<Rightarrow> int"
  assumes "SISREG (i_mode (v_ino v i))" "flags AND 512 = 0" "\<forall>f. 0 \<le> put f"
  shows "\<exists>d. doopen opendev closedev put flags i v = Some (put (FReg i d), Some (FReg i d), v_hold i v) \<and> d_flags d AND 3 = flags AND 3"
proof -
  define fl where "fl = (let f = (if flags AND 1024 \<noteq> 0 then flags OR 8 else flags) in if f AND 2048 \<noteq> 0 then f OR 16 else f)"
  have fl: "fl AND 512 = 0" "fl AND 3 = flags AND 3" using assms(2) by (auto simp: fl_def Let_def or_and_distrib_word)
  have "openregfd fl (v_reg i v) = Some (0, Some \<lparr>d_flags = fl, d_curpos = 0\<rparr>, v_reg i v)"
    using fl(1) regular_not_dir [OF assms(1)] by (simp add: openregfd_def Let_def v_reg_def)
  moreover have "v_put i (v_reg i v) v = v" by (simp add: v_put_def v_reg_def)
  moreover have np: "\<not> put f < 0" for f using assms(3) by (simp add: not_less)
  ultimately have "doopen opendev closedev put flags i v =
      Some (put (FReg i \<lparr>d_flags = fl, d_curpos = 0\<rparr>), Some (FReg i \<lparr>d_flags = fl, d_curpos = 0\<rparr>), v_hold i v)"
    using assms(1) np unfolding doopen_def Let_def fl_def by auto
  with fl(2) show ?thesis by (intro exI [of _ "\<lparr>d_flags = fl, d_curpos = 0\<rparr>"]) simp
qed

text \<open>
  C36: Opening a file asks for no permission.  When a path leads to a regular file, \<^verbatim>\<open>sysopen\<close> without \<^verbatim>\<open>OCREAT\<close> and
  \<^verbatim>\<open>OTRUNC\<close> returns a descriptor with the access mode the caller asked for, whatever the owner and the permission
  bits of the file and the ids of the caller are: only the directories on the way are checked.
\<close>

theorem open_ignores_permissions:
  fixes put :: "'d fobj \<Rightarrow> int"
  assumes "tree_ok v" "0 \<notin> set path" "length path < 4096" and i: "path_result False path v = Inr (i, [])"
    and reg: "SISREG (i_mode (inode_of v i))" and fl: "(flags + 1) AND 64 = 0" "(flags + 1) AND 512 = 0"
    and put: "\<forall>f. 0 \<le> put f"
  shows "\<exists>d v'. sysopen opendev closedev put path flags mode v = Some (put (FReg i d), Some (FReg i d), v') \<and>
    d_flags d AND 3 = (flags + 1) AND 3 \<and> settle v' = settle v \<and> v_held v' = i # v_held v"
proof -
  obtain v1 where v1: "namei False path v = Some (0, i, [], v1)" "settle v1 = settle v" "v_held v1 = i # v_held v" "loaded v1"
    using namei_leaf [OF assms(1-4)] by blast
  have "inode_of v1 i = v_ino v1 i" using v1(3,4) by (intro inode_of_loaded) (simp add: loaded_def)
  moreover have "inode_of v1 = inode_of v" using usable_settle [OF v1(2)] by blast
  ultimately have ino: "v_ino v1 i = inode_of v i" by simp
  obtain d where d: "doopen opendev closedev put (flags + 1) i v1 = Some (put (FReg i d), Some (FReg i d), v_hold i v1)"
    "d_flags d AND 3 = (flags + 1) AND 3" using doopen_regular [OF _ fl(2) put, of v1 i opendev closedev] reg unfolding ino by blast
  have "v_lose i (v_hold i v1) = Some v1" using v1(3) by (simp add: v_lose_def v_hold_def)
  then show ?thesis using v1 d fl(1) by (auto simp: sysopen_def Let_def lose_opt_def)
qed

text \<open>The small tree, seen by a user.\<close>

definition demo_user :: "u16 \<Rightarrow> vfs" where
  "demo_user u = demo_tree\<lparr>v_euid := u, v_egid := u\<rparr>"

lemma demo_user_ino: "v_ino (demo_user u) = v_ino demo_tree" "inode_of (demo_user u) = v_ino demo_tree"
  "v_isdir d (settle (demo_user u)) \<longleftrightarrow> d = 1" "v_reg d (settle (demo_user u)) = v_reg d demo_tree"
proof -
  show i: "v_ino (demo_user u) = v_ino demo_tree" by (simp add: demo_user_def)
  have "i_state (v_ino demo_tree i) \<noteq> IINVAL" for i
    by (simp add: demo_tree_def demo_dir_def ICLEAN_def IINVAL_def)
  then show n: "inode_of (demo_user u) = v_ino demo_tree" by (simp add: inode_of_loaded fun_eq_iff i)
  show "v_reg d (settle (demo_user u)) = v_reg d demo_tree" by (simp add: v_reg_def n) (simp add: demo_user_def)
  show "v_isdir d (settle (demo_user u)) \<longleftrightarrow> d = 1"
    by (simp add: v_isdir_def n) (simp add: demo_tree_def demo_dir_def SISDIR_def SIFMT_def)
qed

lemma demo_user_ok: "tree_ok (demo_user u)"
proof -
  have us: "usable (demo_user u) i" for i
    unfolding usable_def demo_user_ino by (simp add: demo_tree_def demo_dir_def ICLEAN_def IINVAL_def)
  have st: "i_state (v_ino demo_tree i) \<noteq> IINVAL" for i by (simp add: demo_tree_def demo_dir_def ICLEAN_def IINVAL_def)
  have sel: "v_root (demo_user u) = 1" "v_cwd (demo_user u) = 1" "v_held (demo_user u) = [1]" "v_ninode (demo_user u) = 256"
    by (simp_all add: demo_user_def demo_tree_def demo_vfs_def)
  show ?thesis
    unfolding tree_ok_def demo_user_ino loaded_def sel using us st demo_tree_dir(1) by (simp add: v_isroot_def MINIXROOTINO_def)
qed

lemma demo_user_path: "path_result False [47, 97] (demo_user u) = Inr (2, [])"
proof -
  have "v_deny IX 1 (settle (demo_user u)) = 0"
    by (simp add: v_deny_def demo_user_ino deny_def granted_to_def) (simp add: demo_tree_def demo_dir_def IX_def)
  moreover have "v_root (demo_user u) = 1" by (simp add: demo_user_def demo_tree_def demo_vfs_def)
  ultimately have "resolve (settle (demo_user u)) (path_start [47, 97] (demo_user u)) [[97]] = Inr 2"
    by (simp add: path_start_def demo_user_ino demo_tree_dir(2) [unfolded One_nat_def] dotdot_def)
  then show ?thesis
    by (simp add: path_result_def path_target_def tokens_sep tokens_tok del: resolve.simps)
qed

theorem namei_witness:
  "\<exists>v'. namei False [47, 97] (demo_user 1000) = Some (0, 2, [], v') \<and> v_held v' = [2, 1]"
proof -
  have "v_held (demo_user 1000) = [1]" by (simp add: demo_user_def demo_tree_def demo_vfs_def)
  then show ?thesis
    using namei_resolves [OF demo_user_ok [of 1000], where path = "[47, 97]" and split = False] demo_user_path [of 1000] by auto
qed

theorem open_ignores_witness:
  "\<exists>d v'. sysopen (\<lambda>fl i v. (Inl EINVAL :: int + unit, v)) (\<lambda>d v. Some v) (\<lambda>f. 3) [47, 97] 2 0 (demo_user 1000) = Some (3, Some (FReg 2 d), v') \<and>
     d_flags d AND 3 = 3 \<and> deny 1000 1000 IW (inode_of (demo_user 1000) 2) = EACCES"
proof -
  have "SISREG (i_mode (inode_of (demo_user 1000) 2))"
    unfolding demo_user_ino by (simp add: demo_tree_def SISREG_def SIFMT_def)
  moreover have "deny 1000 1000 IW (inode_of (demo_user 1000) 2) = EACCES"
    unfolding demo_user_ino by (simp add: demo_tree_def deny_def granted_to_def IW_def)
  ultimately show ?thesis
    using open_ignores_permissions [OF demo_user_ok _ _ demo_user_path, of 1000 2 "\<lambda>f :: unit fobj. 3" "\<lambda>fl i v. (Inl EINVAL, v)" "\<lambda>d v. Some v" 0]
    by auto
qed

end
