(* ===== verification/Mm_Mm.thy ===== *)
theory Mm_Mm
  imports Mm_Allocpage
begin

text \<open>
  Address spaces (\<^verbatim>\<open>mm/mm.cc\<close>, \<^verbatim>\<open>mm/mm.h\<close>, the page tables of \<^verbatim>\<open>asm/pgtbl.cc\<close>, \<^verbatim>\<open>asm/pgtbl.h\<close>).  A page table entry is empty or has a
  frame, named by its kernel address, and the write bit; a page directory has the frame of each second level table,
  and the entries of all tables are one function of the page number.  The contents of frames are lists of 4096
  bytes apart from the allocator, whose free list lives in free frames.  Kernel entries are shared by all address
  spaces and left out; the TLB is always flushed by the code.  A mapped file is read through the parameter \<open>rd\<close>: inode,
  position and length give the bytes.
\<close>

type_synonym u8page = "u8 list"

definition USEREND :: nat where "USEREND = KERNSTART"
definition PROTR :: u32 where "PROTR = 1"
definition PROTW :: u32 where "PROTW = 2"
definition PROTX :: u32 where "PROTX = 4"
definition MAPPRIVATE :: u32 where "MAPPRIVATE = 2"
definition MAPFIXED :: u32 where "MAPFIXED = 16"
definition MAPANON :: u32 where "MAPANON = 32"

record pte =
  p_frame :: nat
  p_w :: bool

record seg =
  sg_start :: nat
  sg_end :: nat
  sg_prot :: u32
  sg_flags :: u32
  sg_inode :: "nat option"
  sg_offset :: nat

record mm =
  mm_onfault :: nat
  mm_segq :: "seg list"
  mm_pgd :: nat
  mm_tab :: "nat \<Rightarrow> nat option"
  mm_pte :: "nat \<Rightarrow> pte option"
  mm_kstack :: nat

record vmem =
  vm_pm :: pmem
  vm_data :: "nat \<Rightarrow> u8page"
  vm_mm :: "nat \<Rightarrow> mm option"
  vm_iref :: "nat \<Rightarrow> int"

type_synonym rdfun = "nat \<Rightarrow> nat \<Rightarrow> nat \<Rightarrow> u8 list"

datatype fault = Resumed | Segv | Caught nat | Died

definition page_of :: "nat \<Rightarrow> nat" where "page_of v = v div PAGESZ"
definition vpagedown :: "nat \<Rightarrow> nat" where "vpagedown v = v div PAGESZ * PAGESZ"
definition pageup32 :: "nat \<Rightarrow> nat" where "pageup32 v = (v + PAGESZ - 1) mod 2 ^ 32 div PAGESZ * PAGESZ"

definition mm_upd :: "nat \<Rightarrow> (mm \<Rightarrow> mm) \<Rightarrow> vmem \<Rightarrow> vmem" where
  "mm_upd a f s = s\<lparr>vm_mm := (vm_mm s)(a := map_option f (vm_mm s a))\<rparr>"

definition set_pte :: "nat \<Rightarrow> nat \<Rightarrow> pte option \<Rightarrow> vmem \<Rightarrow> vmem" where
  "set_pte a n p s = mm_upd a (\<lambda>m. m\<lparr>mm_pte := (mm_pte m)(n := p)\<rparr>) s"

text \<open>\<^verbatim>\<open>outofmem\<close> posts \<^verbatim>\<open>SIGSEGV\<close> to the task or ends it.\<close>

definition outofmem :: "bool \<Rightarrow> fault" where
  "outofmem u = (if u then Segv else Died)"

subsection \<open>Page tables\<close>

text \<open>\<^verbatim>\<open>getpte\<close> makes the second level table; the result tells whether there is one.\<close>

definition getpte :: "nat \<Rightarrow> nat \<Rightarrow> vmem \<Rightarrow> (bool \<times> vmem) option" where
  "getpte a n s = do {
     m \<leftarrow> vm_mm s a;
     if mm_tab m (n div 1024) \<noteq> None then Some (True, s)
     else do {
       (r, pm) \<leftarrow> page_alloc (AUSER OR ACLEAR) (vm_pm s);
       let s1 = s\<lparr>vm_pm := pm\<rparr>;
       case r of None \<Rightarrow> Some (False, s1)
       | Some f \<Rightarrow> Some (True, mm_upd a (\<lambda>m. m\<lparr>mm_tab := (mm_tab m)(n div 1024 \<mapsto> f)\<rparr>) s1) } }"

definition probe :: "mm \<Rightarrow> nat \<Rightarrow> pte option option" where
  "probe m n = (if mm_tab m (n div 1024) = None then None else Some (mm_pte m n))"

definition mapto :: "nat \<Rightarrow> nat \<Rightarrow> nat \<Rightarrow> u32 \<Rightarrow> vmem \<Rightarrow> (int \<times> vmem) option" where
  "mapto a v f prot s = do {
     (ok, s1) \<leftarrow> getpte a (page_of v) s;
     if \<not> ok then Some (ENOMEM, s1)
     else do {
       m \<leftarrow> vm_mm s1 a;
       kassert (mm_pte m (page_of v) = None);
       Some (0, set_pte a (page_of v) (Some \<lparr>p_frame = f, p_w = (prot AND PROTW \<noteq> 0)\<rparr>) s1) } }"

text \<open>The page after \<open>n\<close> whose table may exist.\<close>

definition next_table :: "nat \<Rightarrow> nat" where
  "next_table n = (n div 1024 + 1) * 1024"

lemma next_table_greater [simp]: "n < next_table n"
  by (simp add: next_table_def)

function copypte_loop :: "nat \<Rightarrow> nat \<Rightarrow> nat \<Rightarrow> nat \<Rightarrow> vmem \<Rightarrow> (int \<times> vmem) option" where
  "copypte_loop x y n to s =
     (if n \<ge> to then Some (0, s)
      else do {
        m \<leftarrow> vm_mm s x;
        if mm_tab m (n div 1024) = None then copypte_loop x y (next_table n) to s
        else do {
          (ok, s1) \<leftarrow> getpte y n s;
          if \<not> ok then Some (ENOMEM, s1)
          else case mm_pte m n of
            None \<Rightarrow> copypte_loop x y (n + 1) to (set_pte y n None s1)
          | Some p \<Rightarrow> do {
              let p' = p\<lparr>p_w := False\<rparr>;
              let s2 = set_pte y n (Some p') (set_pte x n (Some p') s1);
              pm \<leftarrow> duppage (p_frame p) (vm_pm s2);
              copypte_loop x y (n + 1) to (s2\<lparr>vm_pm := pm\<rparr>) } } })"
  by auto
termination
  by (relation "measure (\<lambda>(x, y, n, to, s). to - n)") (auto simp: diff_less_mono2)

declare copypte_loop.simps [simp del]

definition copypte :: "nat \<Rightarrow> nat \<Rightarrow> nat \<Rightarrow> nat \<Rightarrow> vmem \<Rightarrow> (int \<times> vmem) option" where
  "copypte x y from to s = do {
     kassert (from \<le> to \<and> from mod PAGESZ = 0 \<and> to mod PAGESZ = 0);
     copypte_loop x y (from div PAGESZ) (to div PAGESZ) s }"

function unmap_loop :: "nat \<Rightarrow> nat \<Rightarrow> nat \<Rightarrow> vmem \<Rightarrow> vmem option" where
  "unmap_loop a n to s =
     (if n \<ge> to then Some s
      else do {
        m \<leftarrow> vm_mm s a;
        if mm_tab m (n div 1024) = None then unmap_loop a (next_table n) to s
        else case mm_pte m n of
          None \<Rightarrow> unmap_loop a (n + 1) to s
        | Some p \<Rightarrow> do {
            pm \<leftarrow> freepage (p_frame p) (vm_pm s);
            unmap_loop a (n + 1) to (set_pte a n None (s\<lparr>vm_pm := pm\<rparr>)) } })"
  by auto
termination
  by (relation "measure (\<lambda>(a, n, to, s). to - n)") (auto simp: diff_less_mono2)

declare unmap_loop.simps [simp del]

definition unmap :: "nat \<Rightarrow> nat \<Rightarrow> nat \<Rightarrow> vmem \<Rightarrow> vmem option" where
  "unmap a from to s = do {
     kassert (from \<le> to \<and> from mod PAGESZ = 0 \<and> to mod PAGESZ = 0);
     unmap_loop a (from div PAGESZ) (to div PAGESZ) s }"

subsection \<open>Segments\<close>

definition findseg :: "nat \<Rightarrow> mm \<Rightarrow> nat option" where
  "findseg v m = find (\<lambda>i. v < sg_end (mm_segq m ! i)) [0..<length (mm_segq m)]"

definition mm_contain :: "nat \<Rightarrow> mm \<Rightarrow> nat option" where
  "mm_contain v m = (case findseg v m of None \<Rightarrow> None | Some i \<Rightarrow> if sg_start (mm_segq m ! i) \<le> v then Some i else None)"

definition findustack :: "mm \<Rightarrow> nat option" where
  "findustack m = (let k = length (mm_segq m) in
     if k < 4 then None else if sg_prot (mm_segq m ! (k - 1)) AND PROTW \<noteq> 0 then Some (k - 1) else None)"

definition findbss :: "mm \<Rightarrow> nat option" where
  "findbss m = (if length (mm_segq m) < 4 then None else if sg_prot (mm_segq m ! 2) AND PROTW \<noteq> 0 then Some 2 else None)"

primrec insert_seg :: "seg \<Rightarrow> seg list \<Rightarrow> seg list" where
  "insert_seg x [] = [x]"
| "insert_seg x (y # ys) = (if sg_start x < sg_start y then x # y # ys else y # insert_seg x ys)"

definition insertseg :: "nat \<Rightarrow> seg \<Rightarrow> vmem \<Rightarrow> int \<times> vmem" where
  "insertseg a neu s =
     (if sg_start neu > sg_end neu \<or> sg_end neu > USEREND then (EINVAL, s)
      else (0, mm_upd a (\<lambda>m. m\<lparr>mm_segq := insert_seg neu (mm_segq m)\<rparr>) s))"

definition hold_inode :: "nat option \<Rightarrow> vmem \<Rightarrow> vmem" where
  "hold_inode i s = (case i of None \<Rightarrow> s | Some k \<Rightarrow> s\<lparr>vm_iref := (vm_iref s)(k := vm_iref s k + 1)\<rparr>)"

definition lose_inode :: "nat option \<Rightarrow> vmem \<Rightarrow> vmem" where
  "lose_inode i s = (case i of None \<Rightarrow> s | Some k \<Rightarrow> s\<lparr>vm_iref := (vm_iref s)(k := vm_iref s k - 1)\<rparr>)"

definition mmap :: "nat \<Rightarrow> nat \<Rightarrow> nat \<Rightarrow> u32 \<Rightarrow> u32 \<Rightarrow> nat option \<Rightarrow> nat \<Rightarrow> vmem \<Rightarrow> (int \<times> vmem) option" where
  "mmap a from to prot flags inode offset s = do {
     kassert (from \<le> to);
     kassert (flags AND MAPFIXED \<noteq> 0);
     if inode \<noteq> None \<and> from mod PAGESZ \<noteq> offset mod PAGESZ then Some (EINVAL, s)
     else case insertseg a \<lparr>sg_start = vpagedown from, sg_end = pageup32 to, sg_prot = prot, sg_flags = flags, sg_inode = inode,
             sg_offset = vpagedown offset\<rparr> s of
         (e, s1) \<Rightarrow> Some (if e \<noteq> 0 then (e, s1) else (0, hold_inode inode s1)) }"

definition anonmap :: "nat \<Rightarrow> nat \<Rightarrow> nat \<Rightarrow> u32 \<Rightarrow> u32 \<Rightarrow> vmem \<Rightarrow> (int \<times> vmem) option" where
  "anonmap a from to prot flags s = mmap a from to prot (flags OR MAPANON) None 0 s"

subsection \<open>Page faults\<close>

text \<open>The bytes of the file overwrite the beginning of the frame; the rest keeps what it held.\<close>

definition fill_page :: "rdfun \<Rightarrow> seg \<Rightarrow> nat \<Rightarrow> u8page \<Rightarrow> u8page" where
  "fill_page rd sg v old = (case sg_inode sg of
       None \<Rightarrow> replicate PAGESZ 0
     | Some i \<Rightarrow> let bs = take PAGESZ (rd i (sg_offset sg + vpagedown v - sg_start sg) PAGESZ) in bs @ drop (length bs) old)"

definition nopage :: "rdfun \<Rightarrow> nat \<Rightarrow> seg \<Rightarrow> nat \<Rightarrow> bool \<Rightarrow> vmem \<Rightarrow> (fault \<times> vmem) option" where
  "nopage rd a sg v u s = do {
     kassert (between (sg_start sg) v (sg_end sg));
     (r, pm) \<leftarrow> page_alloc AUSER (vm_pm s);
     let s1 = s\<lparr>vm_pm := pm\<rparr>;
     case r of None \<Rightarrow> Some (outofmem u, s1)
     | Some f \<Rightarrow> do {
         (e, s2) \<leftarrow> mapto a v f (sg_prot sg) s1;
         if e = ENOMEM then do { pm2 \<leftarrow> freepage f (vm_pm s2); Some (outofmem u, s2\<lparr>vm_pm := pm2\<rparr>) }
         else Some (Resumed, s2\<lparr>vm_data := (vm_data s2)(f := fill_page rd sg v (vm_data s2 f))\<rparr>) } }"

definition wppage :: "nat \<Rightarrow> nat \<Rightarrow> bool \<Rightarrow> vmem \<Rightarrow> (fault \<times> vmem) option" where
  "wppage a v u s = do {
     m \<leftarrow> vm_mm s a;
     pte \<leftarrow> probe m (page_of v);
     p \<leftarrow> pte;
     let our = p_frame p;
     let cnt = refcnt (vm_pm s) (pfn our);
     kassert (cnt > 0);
     if cnt = 1 then Some (Resumed, set_pte a (page_of v) (Some (p\<lparr>p_w := True\<rparr>)) s)
     else do {
       (r, pm) \<leftarrow> page_alloc AUSER (vm_pm s);
       let s1 = s\<lparr>vm_pm := pm\<rparr>;
       case r of None \<Rightarrow> Some (outofmem u, s1)
       | Some my \<Rightarrow>
           let s2 = set_pte a (page_of v) (Some \<lparr>p_frame = my, p_w = True\<rparr>) s1;
               s3 = s2\<lparr>vm_data := (vm_data s2)(my := vm_data s2 our)\<rparr>
           in Some (Resumed, s3\<lparr>vm_pm := set_refcnt (pfn our) (refcnt (vm_pm s3) (pfn our) - 1) (vm_pm s3)\<rparr>) } }"

definition bad_fault :: "nat \<Rightarrow> nat \<Rightarrow> bool \<Rightarrow> vmem \<Rightarrow> (fault \<times> vmem) option" where
  "bad_fault a v u s = do {
     m \<leftarrow> vm_mm s a;
     if u then Some (Segv, s)
     else if v < USEREND \<and> mm_onfault m \<noteq> 0 then Some (Caught (mm_onfault m), s)
     else None }"

text \<open>\<open>u\<close>, \<open>w\<close>, \<open>p\<close>: from user mode, a write, on a present page.\<close>

definition pagefault :: "rdfun \<Rightarrow> nat \<Rightarrow> nat \<Rightarrow> nat \<Rightarrow> bool \<Rightarrow> bool \<Rightarrow> bool \<Rightarrow> vmem \<Rightarrow> (fault \<times> vmem) option" where
  "pagefault rd a esp v u w p s = do {
     m \<leftarrow> vm_mm s a;
     case findseg v m of None \<Rightarrow> bad_fault a v u s
     | Some i \<Rightarrow>
         let sg = mm_segq m ! i; grow = v < sg_start sg in
         if grow \<and> (findustack m \<noteq> Some i \<or> v + 32 < esp) then bad_fault a v u s
         else let sg1 = (if grow then sg\<lparr>sg_start := vpagedown v\<rparr> else sg);
                  s1 = (if grow then mm_upd a (\<lambda>m. m\<lparr>mm_segq := (mm_segq m)[i := sg1]\<rparr>) s else s)
           in do {
             kassert (\<not> p \<or> w);
             if w \<and> sg_prot sg1 AND PROTW = 0 then bad_fault a v u s1
             else if p then wppage a v u s1 else nopage rd a sg1 v u s1 } }"

subsection \<open>The life of an address space\<close>

text \<open>\<^verbatim>\<open>mm_t()\<close>; the result tells whether the task is still alive.\<close>

definition mm_init :: "nat \<Rightarrow> vmem \<Rightarrow> (bool \<times> vmem) option" where
  "mm_init a s = do {
     (r, pm) \<leftarrow> page_alloc (AKERN OR ACLEAR) (vm_pm s);
     case r of None \<Rightarrow> Some (False, s\<lparr>vm_pm := pm\<rparr>)
     | Some pgd \<Rightarrow> do {
         (r2, pm2) \<leftarrow> page_alloc AKERN pm;
         let m = \<lparr>mm_onfault = 0, mm_segq = [], mm_pgd = pgd, mm_tab = (\<lambda>_. None), mm_pte = (\<lambda>_. None), mm_kstack = 0\<rparr>;
         case r2 of None \<Rightarrow> Some (False, s\<lparr>vm_pm := pm2\<rparr>)
         | Some k \<Rightarrow> Some (True, s\<lparr>vm_pm := pm2, vm_mm := (vm_mm s)(a \<mapsto> m\<lparr>mm_kstack := k\<rparr>)\<rparr>) } }"

fun clone_segs :: "nat \<Rightarrow> nat \<Rightarrow> seg list \<Rightarrow> vmem \<Rightarrow> (int \<times> vmem) option" where
  "clone_segs x y [] s = Some (0, s)"
| "clone_segs x y (sg # sgs) s = do {
     (e, s1) \<leftarrow> copypte x y (sg_start sg) (sg_end sg) (hold_inode (sg_inode sg) s);
     if e \<noteq> 0 then Some (e, s1)
     else clone_segs x y sgs (mm_upd y (\<lambda>m. m\<lparr>mm_segq := mm_segq m @ [sg]\<rparr>) s1) }"

text \<open>\<open>None\<close> of the inner option: the task ended for lack of kernel memory.\<close>

definition mm_clone :: "nat \<Rightarrow> nat \<Rightarrow> vmem \<Rightarrow> (int option \<times> vmem) option" where
  "mm_clone x y s = do {
     (ok, s1) \<leftarrow> mm_init y s;
     if \<not> ok then Some (None, s1)
     else do {
       m \<leftarrow> vm_mm s1 x;
       (e, s2) \<leftarrow> clone_segs x y (mm_segq m) s1;
       Some (Some e, s2) } }"

definition seg_dtor :: "nat \<Rightarrow> seg \<Rightarrow> vmem \<Rightarrow> vmem option" where
  "seg_dtor a sg s = do {
     s1 \<leftarrow> unmap a (sg_start sg) (sg_end sg) (mm_upd a (\<lambda>m. m\<lparr>mm_segq := remove1 sg (mm_segq m)\<rparr>) s);
     Some (lose_inode (sg_inode sg) s1) }"

definition unmapuspace :: "nat \<Rightarrow> vmem \<Rightarrow> vmem option" where
  "unmapuspace a s = do { m \<leftarrow> vm_mm s a; foldM (seg_dtor a) (mm_segq m) s }"

definition freetab :: "nat \<Rightarrow> nat \<Rightarrow> vmem \<Rightarrow> vmem option" where
  "freetab a d s = do {
     m \<leftarrow> vm_mm s a;
     case mm_tab m d of None \<Rightarrow> Some s
     | Some f \<Rightarrow> do {
         pm \<leftarrow> freepage f (vm_pm s);
         Some (mm_upd a (\<lambda>m. m\<lparr>mm_tab := (mm_tab m)(d := None)\<rparr>) (s\<lparr>vm_pm := pm\<rparr>)) } }"

definition mm_dtor :: "nat \<Rightarrow> vmem \<Rightarrow> vmem option" where
  "mm_dtor a s = do {
     s1 \<leftarrow> unmapuspace a s;
     m \<leftarrow> vm_mm s1 a;
     pm \<leftarrow> freepage (mm_kstack m) (vm_pm s1);
     let s2 = s1\<lparr>vm_pm := pm\<rparr>;
     kassert (\<forall>n<USEREND div PAGESZ. mm_pte m n = None);
     s3 \<leftarrow> foldM (freetab a) [0..<USEREND div (1024 * PAGESZ)] s2;
     pm4 \<leftarrow> freepage (mm_pgd m) (vm_pm s3);
     Some (s3\<lparr>vm_pm := pm4, vm_mm := (vm_mm s3)(a := None)\<rparr>) }"

definition brk :: "nat \<Rightarrow> nat \<Rightarrow> vmem \<Rightarrow> (nat \<times> vmem) option" where
  "brk a ebss0 s = do {
     m \<leftarrow> vm_mm s a;
     let ebss = pageup32 ebss0;
     case findbss m of None \<Rightarrow> Some (0, s)
     | Some i \<Rightarrow>
         let bss = mm_segq m ! i;
             set_end = (\<lambda>e. mm_upd a (\<lambda>m. m\<lparr>mm_segq := (mm_segq m)[i := (mm_segq m ! i)\<lparr>sg_end := e\<rparr>]\<rparr>)) in
         if ebss < sg_start bss then Some (sg_end bss, s)
         else if ebss < sg_end bss then do {
           s1 \<leftarrow> unmap a (pageup32 ebss) (pageup32 (sg_end bss)) s;
           Some (ebss, set_end ebss s1) }
         else let e = (if i + 1 < length (mm_segq m) then min ebss (vpagedown (sg_start (mm_segq m ! (i + 1)))) else ebss)
           in Some (e, set_end e s) }"

subsection \<open>Access to user memory\<close>

text \<open>What the processor does with a user address: the entry allows the access or the fault handler runs.\<close>

definition allowed :: "nat \<Rightarrow> bool \<Rightarrow> nat \<Rightarrow> vmem \<Rightarrow> bool" where
  "allowed a w v s \<longleftrightarrow> (case vm_mm s a of None \<Rightarrow> False | Some m \<Rightarrow>
     (case mm_pte m (page_of v) of None \<Rightarrow> False | Some p \<Rightarrow> w \<longrightarrow> p_w p))"

definition present :: "nat \<Rightarrow> nat \<Rightarrow> vmem \<Rightarrow> bool" where
  "present a v s \<longleftrightarrow> (case vm_mm s a of None \<Rightarrow> False | Some m \<Rightarrow> mm_pte m (page_of v) \<noteq> None)"

partial_function (option) touch :: "rdfun \<Rightarrow> nat \<Rightarrow> nat \<Rightarrow> nat \<Rightarrow> bool \<Rightarrow> bool \<Rightarrow> vmem \<Rightarrow> (fault \<times> vmem) option" where
  "touch rd a esp v u w s =
     (if v < USEREND \<and> allowed a w v s then Some (Resumed, s)
      else do {
        (r, s1) \<leftarrow> pagefault rd a esp v u w (present a v s) s;
        if r = Resumed then touch rd a esp v u w s1 else Some (r, s1) })"

definition write_byte :: "nat \<Rightarrow> nat \<Rightarrow> u8 \<Rightarrow> vmem \<Rightarrow> vmem option" where
  "write_byte a v b s = do {
     m \<leftarrow> vm_mm s a;
     p \<leftarrow> mm_pte m (page_of v);
     Some (s\<lparr>vm_data := (vm_data s)(p_frame p := (vm_data s (p_frame p))[v mod PAGESZ := b])\<rparr>) }"

definition user_store :: "rdfun \<Rightarrow> nat \<Rightarrow> nat \<Rightarrow> nat \<Rightarrow> u8 \<Rightarrow> vmem \<Rightarrow> (fault \<times> vmem) option" where
  "user_store rd a esp v b s = do {
     (r, s1) \<leftarrow> touch rd a esp v True True s;
     if r = Resumed then do { s2 \<leftarrow> write_byte a v b s1; Some (Resumed, s2) } else Some (r, s1) }"

text \<open>
  \<^verbatim>\<open>verr\<close> and \<^verbatim>\<open>verw\<close>.  The kernel reads (and writes back) one byte of every page of the area, with the label behind
  the loop, here address \<open>h\<close>, as the fault handler.  \<^verbatim>\<open>area + size\<close> is a 32-bit sum.
\<close>

partial_function (option) ver_loop :: "rdfun \<Rightarrow> nat \<Rightarrow> nat \<Rightarrow> bool \<Rightarrow> nat \<Rightarrow> nat \<Rightarrow> vmem \<Rightarrow> (int option \<times> vmem) option" where
  "ver_loop rd a esp w area end s =
     (if area < end then
        if \<not> area < USEREND then Some (Some EFAULT, s)
        else do {
          (r, s1) \<leftarrow> touch rd a esp area False False s;
          (r, s2) \<leftarrow> (if r = Resumed \<and> w then touch rd a esp area False True s1 else Some (r, s1));
          (case r of Resumed \<Rightarrow> ver_loop rd a esp w (area + PAGESZ) end s2
           | Caught _ \<Rightarrow> Some (Some EFAULT, s2)
           | _ \<Rightarrow> Some (None, s2)) }
      else Some (Some 0, s))"

definition ver :: "rdfun \<Rightarrow> nat \<Rightarrow> nat \<Rightarrow> nat \<Rightarrow> bool \<Rightarrow> nat \<Rightarrow> int \<Rightarrow> vmem \<Rightarrow> (int option \<times> vmem) option" where
  "ver rd a esp h w area sz s =
     (if sz = 0 then Some (Some EFAULT, s)
      else do {
        (r, s1) \<leftarrow> ver_loop rd a esp w area (pageup32 (nat ((int area + sz) mod 2 ^ 32))) (mm_upd a (\<lambda>m. m\<lparr>mm_onfault := h\<rparr>) s);
        Some (r, mm_upd a (\<lambda>m. m\<lparr>mm_onfault := 0\<rparr>) s1) })"

end
