(* ===== verification/Mm_Cow.thy ===== *)
theory Mm_Cow
  imports Mm_Mm
begin

text \<open>
  Copy on write.  Every address space is a private memory, whatever frames it shares with others, and the reference
  counts of the page allocator are exactly the page table entries, tables and stacks of the address spaces.
\<close>

subsection \<open>Accounts of references\<close>

text \<open>
  \<open>F\<close> says which object each slot refers to, \<open>R\<close> the counts, \<open>X\<close> the references of others, who share no object with the
  slots; an object in a slot of \<open>E\<close> is in no other slot.
\<close>

definition holders :: "('x \<Rightarrow> nat option) \<Rightarrow> nat \<Rightarrow> 'x set" where
  "holders F f = {x. F x = Some f}"

definition accounts :: "(nat \<Rightarrow> nat) \<Rightarrow> (nat \<Rightarrow> nat) \<Rightarrow> ('x \<Rightarrow> nat option) \<Rightarrow> 'x set \<Rightarrow> bool" where
  "accounts X R F E \<longleftrightarrow> finite (dom F) \<and> (\<forall>f. R f = X f + card (holders F f)) \<and> (\<forall>f\<in>ran F. X f = 0) \<and>
     (\<forall>x\<in>E. \<forall>y f. F x = Some f \<longrightarrow> F y = Some f \<longrightarrow> y = x)"

lemma finite_holders: "finite (dom F) \<Longrightarrow> finite (holders F f)"
  by (rule finite_subset [of _ "dom F"]) (auto simp: holders_def)

lemma holders_upd:
  "holders (F(x \<mapsto> f)) g = (if g = f then insert x (holders F f) else holders F g - {x})"
  "holders (F(x := None)) g = holders F g - {x}"
  by (auto simp: holders_def)

lemma accountsD:
  assumes "accounts X R F E"
  shows "finite (dom F)" "R f = X f + card (holders F f)" "F x = Some f \<Longrightarrow> X f = 0"
    "x \<in> E \<Longrightarrow> F x = Some f \<Longrightarrow> F y = Some f \<Longrightarrow> y = x" "F x = Some f \<Longrightarrow> 0 < R f"
proof -
  show d: "finite (dom F)" "R f = X f + card (holders F f)" "F x = Some f \<Longrightarrow> X f = 0"
    "x \<in> E \<Longrightarrow> F x = Some f \<Longrightarrow> F y = Some f \<Longrightarrow> y = x"
    using assms by (auto simp: accounts_def ran_def)
  show "0 < R f" if "F x = Some f"
    using d(2) finite_holders [OF d(1), of f] that by (auto simp: holders_def card_gt_0_iff)
qed

lemma accounts_new:
  assumes a: "accounts X R F E" and x: "F x = None" and f: "R f = 0" and E: "E' \<subseteq> insert x E"
  shows "accounts X (R(f := 1)) (F(x \<mapsto> f)) E'"
proof -
  note d = accountsD [OF a]
  have n: "F y \<noteq> Some f" for y using d(5) [of y f] f by auto
  then have h: "holders F f = {}" and xf: "X f = 0" using d(2) [of f] f by (auto simp: holders_def)
  have nx: "x \<notin> holders F g" for g using x by (simp add: holders_def)
  show ?thesis
    unfolding accounts_def
  proof (intro conjI allI ballI impI)
    show "finite (dom (F(x \<mapsto> f)))" using d(1) by simp
    show "(R(f := 1)) g = X g + card (holders (F(x \<mapsto> f)) g)" for g
      using d(2) [of g] h xf nx by (simp add: holders_upd)
    show "X g = 0" if "g \<in> ran (F(x \<mapsto> f))" for g
      using that xf d(3) [of _ g] x by (auto simp: ran_def split: if_splits)
    show "z = y" if "y \<in> E'" "(F(x \<mapsto> f)) y = Some g" "(F(x \<mapsto> f)) z = Some g" for y z g
      using that E d(4) [of y g z] n by (auto split: if_splits)
  qed
qed

lemma accounts_dup:
  assumes a: "accounts X R F E" and y: "F y = Some f" and x: "F x = None" and E: "E' \<subseteq> E - {x, y}"
  shows "accounts X (R(f := R f + 1)) (F(x \<mapsto> f)) E'"
proof -
  note d = accountsD [OF a]
  have nx: "x \<notin> holders F g" for g using x by (simp add: holders_def)
  have fh: "finite (holders F g)" for g by (rule finite_holders [OF d(1)])
  show ?thesis
    unfolding accounts_def
  proof (intro conjI allI ballI impI)
    show "finite (dom (F(x \<mapsto> f)))" using d(1) by simp
    show "(R(f := R f + 1)) g = X g + card (holders (F(x \<mapsto> f)) g)" for g
      using d(2) [of g] d(2) [of f] nx fh by (auto simp: holders_upd)
    show "X g = 0" if "g \<in> ran (F(x \<mapsto> f))" for g
      using that y d(3) [of _ g] x by (auto simp: ran_def split: if_splits)
    show "z = w" if "w \<in> E'" "(F(x \<mapsto> f)) w = Some g" "(F(x \<mapsto> f)) z = Some g" for w z g
      using that E d(4) [of w g z] d(4) [of w f y] y by (auto split: if_splits)
  qed
qed

lemma accounts_free:
  assumes a: "accounts X R F E" and x: "F x = Some f" and E: "E' \<subseteq> insert x E"
  shows "accounts X (R(f := R f - 1)) (F(x := None)) E'"
proof -
  note d = accountsD [OF a]
  have fh: "finite (holders F g)" for g by (rule finite_holders [OF d(1)])
  have xh: "x \<in> holders F f" "g \<noteq> f \<Longrightarrow> x \<notin> holders F g" for g using x by (auto simp: holders_def)
  then have "0 < card (holders F f)" using fh by (auto simp: card_gt_0_iff)
  show ?thesis
    unfolding accounts_def
  proof (intro conjI allI ballI impI)
    show "finite (dom (F(x := None)))" using d(1) by simp
    show "(R(f := R f - 1)) g = X g + card (holders (F(x := None)) g)" for g
      using d(2) [of g] xh fh \<open>0 < card (holders F f)\<close> by (auto simp: holders_upd)
    show "X g = 0" if "g \<in> ran (F(x := None))" for g
      using that d(3) [of _ g] by (auto simp: ran_def split: if_splits)
    show "z = y" if "y \<in> E'" "(F(x := None)) y = Some g" "(F(x := None)) z = Some g" for y z g
      using that E d(4) [of y g z] by (auto split: if_splits)
  qed
qed

lemma accounts_own:
  assumes a: "accounts X R F E" and x: "F x = Some f" and f: "R f = 1" and E: "E' \<subseteq> insert x E"
  shows "accounts X R F E'"
proof -
  note d = accountsD [OF a]
  have "card (holders F f) = 1" using d(2) [of f] d(3) [OF x] f by simp
  then obtain z where z: "holders F f = {z}" by (auto simp: card_1_singleton_iff)
  have iff: "F y = Some f \<longleftrightarrow> y = z" for y using z unfolding holders_def set_eq_iff by simp
  have "x = z" using iff [of x] x by simp
  moreover have "y = z" if "F y = Some f" for y using iff [of y] that by simp
  ultimately have own: "y = x" if "F y = Some f" for y using that by simp
  have "w = y" if "y \<in> E'" "F y = Some g" "F w = Some g" for y w g
  proof (cases "y = x")
    case True
    then have "F w = Some f" using that x by simp
    then show ?thesis using own [of w] True by simp
  next
    case False
    then show ?thesis using that E d(4) [of y g w] by blast
  qed
  then show ?thesis using a unfolding accounts_def by blast
qed

lemma accounts_less: "accounts X R F E \<Longrightarrow> E' \<subseteq> E \<Longrightarrow> accounts X R F E'"
  unfolding accounts_def by blast

subsection \<open>The references of address spaces\<close>

datatype vslot = SPte nat | STab nat | SPgd | SKst

primrec slot_of :: "mm \<Rightarrow> vslot \<Rightarrow> nat option" where
  "slot_of m (SPte n) = map_option p_frame (mm_pte m n)"
| "slot_of m (STab d) = mm_tab m d"
| "slot_of m SPgd = Some (mm_pgd m)"
| "slot_of m SKst = Some (mm_kstack m)"

definition vslots :: "vmem \<Rightarrow> nat \<times> vslot \<Rightarrow> nat option" where
  "vslots s x = Option.bind (vm_mm s (fst x)) (\<lambda>m. slot_of m (snd x))"

definition writable :: "vmem \<Rightarrow> nat \<Rightarrow> nat \<Rightarrow> bool" where
  "writable s a n \<longleftrightarrow> (\<exists>m p. vm_mm s a = Some m \<and> mm_pte m n = Some p \<and> p_w p)"

definition excl :: "vmem \<Rightarrow> (nat \<times> vslot) set" where
  "excl s = {x. case snd x of SPte n \<Rightarrow> writable s (fst x) n | _ \<Rightarrow> True}"

lemma mem_excl [simp]: "(a, SPte n) \<in> excl s \<longleftrightarrow> writable s a n" "(a, STab d) \<in> excl s" "(a, SPgd) \<in> excl s" "(a, SKst) \<in> excl s"
  by (simp_all add: excl_def)

definition tabs_ok :: "mm \<Rightarrow> bool" where
  "tabs_ok m \<longleftrightarrow> (\<forall>n p. mm_pte m n = Some p \<longrightarrow> mm_tab m (n div 1024) \<noteq> None) \<and> (\<forall>d. mm_tab m d \<noteq> None \<longrightarrow> d < 768)"

definition core_inv :: "(nat \<Rightarrow> nat) \<Rightarrow> vmem \<Rightarrow> bool" where
  "core_inv X s \<longleftrightarrow> pm_inv (vm_pm s) \<and> accounts X (page_refs (vm_pm s)) (vslots s) (excl s) \<and>
     (\<forall>f. length (vm_data s f) = PAGESZ) \<and> (\<forall>a m. vm_mm s a = Some m \<longrightarrow> tabs_ok m)"

lemma core_invD:
  assumes "core_inv X s"
  shows "pm_inv (vm_pm s)" "accounts X (page_refs (vm_pm s)) (vslots s) (excl s)" "length (vm_data s f) = PAGESZ"
    "vm_mm s a = Some m \<Longrightarrow> tabs_ok m"
  using assms by (auto simp: core_inv_def)

lemma mm_upd_sel [simp]:
  "vm_pm (mm_upd a f s) = vm_pm s" "vm_data (mm_upd a f s) = vm_data s" "vm_iref (mm_upd a f s) = vm_iref s"
  "vm_mm (mm_upd a f s) c = (if c = a then map_option f (vm_mm s a) else vm_mm s c)"
  by (simp_all add: mm_upd_def)

lemma set_pte_sel [simp]:
  "vm_pm (set_pte a n p s) = vm_pm s" "vm_data (set_pte a n p s) = vm_data s" "vm_iref (set_pte a n p s) = vm_iref s"
  "vm_mm (set_pte a n p s) c = (if c = a then map_option (\<lambda>m. m\<lparr>mm_pte := (mm_pte m)(n := p)\<rparr>) (vm_mm s a) else vm_mm s c)"
  by (simp_all add: set_pte_def)

lemma vslots_other [simp]:
  "vslots (s\<lparr>vm_pm := pm\<rparr>) = vslots s" "vslots (s\<lparr>vm_data := d\<rparr>) = vslots s" "vslots (s\<lparr>vm_iref := r\<rparr>) = vslots s"
  "excl (s\<lparr>vm_pm := pm\<rparr>) = excl s" "excl (s\<lparr>vm_data := d\<rparr>) = excl s" "excl (s\<lparr>vm_iref := r\<rparr>) = excl s"
  by (simp_all add: vslots_def [abs_def] excl_def writable_def [abs_def] cong: vslot.case_cong)

lemma vslots_set_pte:
  assumes "vm_mm s a = Some m"
  shows "vslots (set_pte a n p s) = (vslots s)((a, SPte n) := map_option p_frame p)"
    "excl (set_pte a n p s) \<subseteq> insert (a, SPte n) (excl s)"
    "\<not> (\<exists>q. p = Some q \<and> p_w q) \<Longrightarrow> excl (set_pte a n p s) \<subseteq> excl s - {(a, SPte n)}"
proof -
  show "vslots (set_pte a n p s) = (vslots s)((a, SPte n) := map_option p_frame p)"
  proof
    fix x :: "nat \<times> vslot"
    obtain b k where "x = (b, k)" by fastforce
    then show "vslots (set_pte a n p s) x = ((vslots s)((a, SPte n) := map_option p_frame p)) x"
      using assms by (cases "b = a"; cases k) (simp_all add: vslots_def)
  qed
  have w: "writable (set_pte a n p s) b k \<longleftrightarrow> (if b = a \<and> k = n then \<exists>q. p = Some q \<and> p_w q else writable s b k)" for b k
    using assms by (cases "b = a") (simp_all add: writable_def)
  show "excl (set_pte a n p s) \<subseteq> insert (a, SPte n) (excl s)"
  proof
    fix x assume x: "x \<in> excl (set_pte a n p s)"
    obtain b k where "x = (b, k)" by fastforce
    then show "x \<in> insert (a, SPte n) (excl s)" using x by (cases k) (simp_all add: w split: if_splits)
  qed
  show "excl (set_pte a n p s) \<subseteq> excl s - {(a, SPte n)}" if np: "\<not> (\<exists>q. p = Some q \<and> p_w q)"
  proof
    fix x assume x: "x \<in> excl (set_pte a n p s)"
    obtain b k where "x = (b, k)" by fastforce
    then show "x \<in> excl s - {(a, SPte n)}" using x np by (cases k) (auto simp: w split: if_splits)
  qed
qed

lemma vslots_set_tab:
  assumes "vm_mm s a = Some m"
  shows "vslots (mm_upd a (\<lambda>m. m\<lparr>mm_tab := (mm_tab m)(d := f)\<rparr>) s) = (vslots s)((a, STab d) := f)"
    "excl (mm_upd a (\<lambda>m. m\<lparr>mm_tab := (mm_tab m)(d := f)\<rparr>) s) = excl s"
proof -
  let ?s = "mm_upd a (\<lambda>m. m\<lparr>mm_tab := (mm_tab m)(d := f)\<rparr>) s"
  show "vslots ?s = (vslots s)((a, STab d) := f)"
  proof
    fix x :: "nat \<times> vslot"
    obtain b k where "x = (b, k)" by fastforce
    then show "vslots ?s x = ((vslots s)((a, STab d) := f)) x"
      using assms by (cases "b = a"; cases k) (simp_all add: vslots_def)
  qed
  have "writable ?s b n \<longleftrightarrow> writable s b n" for b n using assms by (cases "b = a") (simp_all add: writable_def)
  then have "writable ?s = writable s" by (simp add: fun_eq_iff)
  then show "excl ?s = excl s" by (simp add: excl_def cong: vslot.case_cong)
qed

text \<open>The allocator under the invariant.\<close>

lemma core_alloc:
  assumes "core_inv X s" "valid_flags fl"
  obtains "page_alloc fl (vm_pm s) = Some (None, vm_pm s)"
  | f pm where "page_alloc fl (vm_pm s) = Some (Some f, pm)" "pm_inv pm" "page_refs (vm_pm s) f = 0"
      "page_refs pm = (page_refs (vm_pm s))(f := 1)" "\<And>x. vslots s x \<noteq> Some f"
proof -
  note c = core_invD [OF assms(1)]
  consider "page_alloc fl (vm_pm s) = Some (None, vm_pm s)"
    | f pm where "page_alloc fl (vm_pm s) = Some (Some f, pm)" "pm_inv pm" "page_refs (vm_pm s) f = 0"
      "page_refs pm = (page_refs (vm_pm s))(f := 1)"
    using pages.alloc_law [OF c(1) assms(2)] by blast
  then show ?thesis
  proof cases
    case (2 f pm)
    then show ?thesis using that(2) accountsD(5) [OF c(2)] by fastforce
  qed (rule that(1))
qed

lemma valid_user [simp]: "valid_flags AUSER" "valid_flags (AUSER OR ACLEAR)" "valid_flags AKERN" "valid_flags (AKERN OR ACLEAR)"
  by (simp_all add: valid_flags_def AUSER_def ACLEAR_def AKERN_def ADRIVER_def)

lemma core_pm_same: "core_inv X s \<Longrightarrow> core_inv X (s\<lparr>vm_pm := vm_pm s\<rparr>)"
  by simp

text \<open>Only the tables of \<open>a\<close> may change.\<close>

definition tab_step :: "nat \<Rightarrow> vmem \<Rightarrow> vmem \<Rightarrow> bool" where
  "tab_step a s s' \<longleftrightarrow> vm_data s' = vm_data s \<and> vm_iref s' = vm_iref s \<and> (\<forall>c. c \<noteq> a \<longrightarrow> vm_mm s' c = vm_mm s c) \<and>
     (\<forall>m. vm_mm s a = Some m \<longrightarrow> (\<exists>t. vm_mm s' a = Some (m\<lparr>mm_tab := t\<rparr>)))"

lemma tab_step_refl: "tab_step a s s"
  unfolding tab_step_def
proof (intro conjI allI impI)
  fix m assume "vm_mm s a = Some m"
  then show "\<exists>t. vm_mm s a = Some (m\<lparr>mm_tab := t\<rparr>)" by (intro exI [of _ "mm_tab m"]) simp
qed simp_all

lemma getpte_ok:
  assumes inv: "core_inv X s" and m: "vm_mm s a = Some m" and n: "n < 768 * 1024"
  obtains ok s' where "getpte a n s = Some (ok, s')" "core_inv X s'" "tab_step a s s'"
    "ok \<longrightarrow> (\<exists>t. vm_mm s' a = Some (m\<lparr>mm_tab := t\<rparr>) \<and> t (n div 1024) \<noteq> None)"
proof (cases "mm_tab m (n div 1024) = None")
  case False
  have "\<exists>t. vm_mm s a = Some (m\<lparr>mm_tab := t\<rparr>) \<and> t (n div 1024) \<noteq> None"
    using m False by (intro exI [of _ "mm_tab m"]) simp
  moreover have "getpte a n s = Some (True, s)" using m False by (simp add: getpte_def)
  ultimately show ?thesis by (intro that [of True s] inv tab_step_refl impI)
next
  case True
  note c = core_invD [OF inv]
  show ?thesis
  proof (rule core_alloc [OF inv valid_user(2)])
    assume "page_alloc (AUSER OR ACLEAR) (vm_pm s) = Some (None, vm_pm s)"
    then have "getpte a n s = Some (False, s)" using True m by (simp add: getpte_def)
    then show ?thesis by (intro that [of False s] inv tab_step_refl) simp_all
  next
    fix f pm
    assume f: "page_alloc (AUSER OR ACLEAR) (vm_pm s) = Some (Some f, pm)" "pm_inv pm" "page_refs (vm_pm s) f = 0"
      "page_refs pm = (page_refs (vm_pm s))(f := 1)" "\<And>x. vslots s x \<noteq> Some f"
    let ?s = "mm_upd a (\<lambda>m. m\<lparr>mm_tab := (mm_tab m)(n div 1024 \<mapsto> f)\<rparr>) (s\<lparr>vm_pm := pm\<rparr>)"
    have m': "vm_mm (s\<lparr>vm_pm := pm\<rparr>) a = Some m" using m by simp
    have sl: "vslots ?s = (vslots s)((a, STab (n div 1024)) \<mapsto> f)" "excl ?s = excl s"
      unfolding vslots_set_tab [OF m'] by simp_all
    have "vslots s (a, STab (n div 1024)) = None" using m True by (simp add: vslots_def)
    then have acc: "accounts X (page_refs pm) (vslots ?s) (excl ?s)"
      unfolding sl f(4) by (intro accounts_new [OF c(2) _ f(3)]) auto
    have "tabs_ok (m\<lparr>mm_tab := (mm_tab m)(n div 1024 \<mapsto> f)\<rparr>)"
      using c(4) [OF m] n unfolding tabs_ok_def by (auto simp: less_mult_imp_div_less)
    then have "core_inv X ?s" using f(2) acc c(3,4) m unfolding core_inv_def by auto
    moreover have "getpte a n s = Some (True, ?s)" using True m f(1) by (simp add: getpte_def)
    moreover have "tab_step a s ?s" using m by (simp add: tab_step_def) blast
    moreover have "\<exists>t. vm_mm ?s a = Some (m\<lparr>mm_tab := t\<rparr>) \<and> t (n div 1024) \<noteq> None"
      using m by (intro exI [of _ "(mm_tab m)(n div 1024 \<mapsto> f)"]) simp
    ultimately show ?thesis by (intro that [of True ?s] impI)
  qed
qed

subsection \<open>References in the hands of the kernel\<close>

text \<open>A new frame belongs to \<open>X\<close> until it is entered in a table.\<close>

lemma accounts_take:
  assumes "accounts X R F E" "R f = 0"
  shows "accounts (X(f := 1)) (R(f := 1)) F E" "X f = 0"
proof -
  note d = accountsD [OF assms(1)]
  have "f \<notin> ran F" using d(5) [of _ f] assms(2) by (auto simp: ran_def)
  moreover have h: "card (holders F f) = 0" and xf: "X f = 0" using d(2) [of f] assms(2) by simp_all
  ultimately show "accounts (X(f := 1)) (R(f := 1)) F E"
    using assms(1) unfolding accounts_def by (auto simp: fun_upd_def)
  show "X f = 0" by (rule xf)
qed

lemma accounts_place:
  assumes a: "accounts (X(f := 1)) R F E" and X: "X f = 0" and x: "F x = None" and E: "E' \<subseteq> insert x E"
  shows "accounts X R (F(x \<mapsto> f)) E'"
proof -
  note d = accountsD [OF a]
  have n: "F y \<noteq> Some f" for y using d(3) [of y f] by auto
  then have h: "holders F f = {}" by (simp add: holders_def)
  have nx: "x \<notin> holders F g" for g using x by (simp add: holders_def)
  show ?thesis
    unfolding accounts_def
  proof (intro conjI allI ballI impI)
    show "finite (dom (F(x \<mapsto> f)))" using d(1) by simp
    show "R g = X g + card (holders (F(x \<mapsto> f)) g)" for g
      using d(2) [of g] h X nx by (auto simp: holders_upd)
    show "X g = 0" if g: "g \<in> ran (F(x \<mapsto> f))" for g
    proof -
      obtain y where "(F(x \<mapsto> f)) y = Some g" using g by (auto simp: ran_def)
      then show ?thesis using X d(3) [of y g] by (cases "g = f") (auto split: if_splits)
    qed
    show "z = y" if "y \<in> E'" "(F(x \<mapsto> f)) y = Some g" "(F(x \<mapsto> f)) z = Some g" for y z g
    proof (cases "g = f")
      case True
      then show ?thesis using that(2,3) n by (auto split: if_splits)
    next
      case False
      then have "F y = Some g" "F z = Some g" "y \<noteq> x" using that(2,3) by (auto split: if_splits)
      then show ?thesis using d(4) [of y g z] that(1) E by blast
    qed
  qed
qed

lemma accounts_drop:
  assumes a: "accounts (X(f := 1)) R F E" and X: "X f = 0"
  shows "0 < R f" "accounts X (R(f := R f - 1)) F E"
proof -
  note d = accountsD [OF a]
  have "F y \<noteq> Some f" for y using d(3) [of y f] by auto
  then have h: "holders F f = {}" by (simp add: holders_def)
  have r: "R f = 1" using d(2) [of f] h by simp
  then show "0 < R f" by simp
  have "X g = 0" if g: "g \<in> ran F" for g
  proof -
    obtain y where "F y = Some g" using g by (auto simp: ran_def)
    then show ?thesis using d(3) [of y g] X by (simp split: if_splits)
  qed
  moreover have "(R(f := R f - 1)) g = X g + card (holders F g)" for g using d(2) [of g] r X h by simp
  ultimately show "accounts X (R(f := R f - 1)) F E" using d(1,4) unfolding accounts_def by blast
qed

lemma core_take:
  assumes "core_inv X s" "pm_inv pm" "page_refs (vm_pm s) f = 0" "page_refs pm = (page_refs (vm_pm s))(f := 1)"
  shows "core_inv (X(f := 1)) (s\<lparr>vm_pm := pm\<rparr>)" "X f = 0"
  using accounts_take [OF core_invD(2) [OF assms(1)] assms(3)] assms by (auto simp: core_inv_def)

lemma core_place:
  assumes inv: "core_inv (X(f := 1)) s" and X: "X f = 0" and m: "vm_mm s a = Some m" "mm_pte m n = None" "mm_tab m (n div 1024) \<noteq> None"
  shows "core_inv X (set_pte a n (Some \<lparr>p_frame = f, p_w = w\<rparr>) s)"
proof -
  let ?s = "set_pte a n (Some \<lparr>p_frame = f, p_w = w\<rparr>) s"
  note c = core_invD [OF inv]
  have "vslots s (a, SPte n) = None" using m by (simp add: vslots_def)
  then have "accounts X (page_refs (vm_pm s)) (vslots ?s) (excl ?s)"
    using vslots_set_pte(1) [OF m(1)] vslots_set_pte(2) [OF m(1)] by (simp add: accounts_place [OF c(2) X])
  moreover have "tabs_ok (m\<lparr>mm_pte := (mm_pte m)(n := Some \<lparr>p_frame = f, p_w = w\<rparr>)\<rparr>)"
    using c(4) [OF m(1)] m(3) by (auto simp: tabs_ok_def)
  ultimately show ?thesis using c(1,3,4) m(1) unfolding core_inv_def by auto
qed

lemma core_drop:
  assumes inv: "core_inv (X(f := 1)) s" and X: "X f = 0"
  obtains pm where "freepage f (vm_pm s) = Some pm" "core_inv X (s\<lparr>vm_pm := pm\<rparr>)"
proof -
  note c = core_invD [OF inv] and d = accounts_drop [OF core_invD(2) [OF inv] X]
  obtain pm where pm: "freepage f (vm_pm s) = Some pm" "pm_inv pm" "page_refs pm = (page_refs (vm_pm s))(f := page_refs (vm_pm s) f - 1)"
    using pages.free_law [OF c(1) d(1)] by blast
  then have "core_inv X (s\<lparr>vm_pm := pm\<rparr>)" using d(2) c(3,4) by (auto simp: core_inv_def)
  with pm(1) show ?thesis by (rule that)
qed

text \<open>Freeing what a slot refers to.\<close>

lemma core_free:
  assumes inv: "core_inv X s" and x: "vslots s x = Some f"
  obtains pm where "freepage f (vm_pm s) = Some pm" "pm_inv pm"
    "\<And>E. E \<subseteq> insert x (excl s) \<Longrightarrow> accounts X (page_refs pm) ((vslots s)(x := None)) E"
proof -
  note c = core_invD [OF inv]
  obtain pm where pm: "freepage f (vm_pm s) = Some pm" "pm_inv pm" "page_refs pm = (page_refs (vm_pm s))(f := page_refs (vm_pm s) f - 1)"
    using pages.free_law [OF c(1) accountsD(5) [OF c(2) x]] by blast
  have "accounts X (page_refs pm) ((vslots s)(x := None)) E" if "E \<subseteq> insert x (excl s)" for E
    unfolding pm(3) by (rule accounts_free [OF c(2) x that])
  with pm(1,2) show ?thesis by (rule that)
qed

subsection \<open>The fault handlers\<close>

lemma mapto_ok:
  assumes inv: "core_inv (X(f := 1)) s" and X: "X f = 0" and m: "vm_mm s a = Some m" "mm_pte m (page_of v) = None" and v: "v < USEREND"
  obtains s' where "mapto a v f prot s = Some (ENOMEM, s')" "core_inv (X(f := 1)) s'" "tab_step a s s'"
  | s' t where "mapto a v f prot s = Some (0, s')" "core_inv X s'" "vm_data s' = vm_data s" "vm_iref s' = vm_iref s"
      "\<forall>c. c \<noteq> a \<longrightarrow> vm_mm s' c = vm_mm s c"
      "vm_mm s' a = Some (m\<lparr>mm_tab := t, mm_pte := (mm_pte m)(page_of v \<mapsto> \<lparr>p_frame = f, p_w = (prot AND PROTW \<noteq> 0)\<rparr>)\<rparr>)"
proof -
  have "page_of v < 768 * 1024" using v by (simp add: page_of_def USEREND_def mm_consts)
  then obtain ok s1 where g: "getpte a (page_of v) s = Some (ok, s1)" "core_inv (X(f := 1)) s1" "tab_step a s s1"
    "ok \<longrightarrow> (\<exists>t. vm_mm s1 a = Some (m\<lparr>mm_tab := t\<rparr>) \<and> t (page_of v div 1024) \<noteq> None)"
    by (rule getpte_ok [OF inv m(1)])
  show ?thesis
  proof (cases ok)
    case False
    then show ?thesis using g by (intro that(1) [of s1]) (simp_all add: mapto_def)
  next
    case True
    then obtain t where t: "vm_mm s1 a = Some (m\<lparr>mm_tab := t\<rparr>)" "t (page_of v div 1024) \<noteq> None" using g(4) by blast
    let ?s = "set_pte a (page_of v) (Some \<lparr>p_frame = f, p_w = (prot AND PROTW \<noteq> 0)\<rparr>) s1"
    have "core_inv X ?s" using m(2) t(2) by (intro core_place [OF g(2) X t(1)]) simp_all
    moreover have "mapto a v f prot s = Some (0, ?s)" using g(1) True t m(2) by (simp add: mapto_def)
    ultimately show ?thesis using t(1) g(3) by (intro that(2) [of ?s t]) (simp_all add: tab_step_def)
  qed
qed

lemma nopage_ok:
  assumes inv: "core_inv X s" and m: "vm_mm s a = Some m" "mm_pte m (page_of v) = None" and v: "v < USEREND"
    and sg: "sg_start sg \<le> v" "v < sg_end sg"
  obtains s' where "nopage rd a sg v u s = Some (outofmem u, s')" "core_inv X s'" "tab_step a s s'"
  | s' t f where "nopage rd a sg v u s = Some (Resumed, s')" "core_inv X s'" "vm_iref s' = vm_iref s"
      "\<And>x. vslots s x \<noteq> Some f" "vm_data s' = (vm_data s)(f := fill_page rd sg v (vm_data s f))" "\<forall>c. c \<noteq> a \<longrightarrow> vm_mm s' c = vm_mm s c"
      "vm_mm s' a = Some (m\<lparr>mm_tab := t, mm_pte := (mm_pte m)(page_of v \<mapsto> \<lparr>p_frame = f, p_w = (sg_prot sg AND PROTW \<noteq> 0)\<rparr>)\<rparr>)"
proof (rule core_alloc [OF inv valid_user(1)])
  assume "page_alloc AUSER (vm_pm s) = Some (None, vm_pm s)"
  then have "nopage rd a sg v u s = Some (outofmem u, s)" using sg by (simp add: nopage_def between_def)
  then show thesis using inv tab_step_refl by (rule that(1))
next
  fix f pm
  assume f: "page_alloc AUSER (vm_pm s) = Some (Some f, pm)" "pm_inv pm" "page_refs (vm_pm s) f = 0"
    "page_refs pm = (page_refs (vm_pm s))(f := 1)" "\<And>x. vslots s x \<noteq> Some f"
  let ?s = "s\<lparr>vm_pm := pm\<rparr>"
  note tk = core_take [OF inv f(2-4)]
  have m': "vm_mm ?s a = Some m" using m(1) by simp
  from mapto_ok [OF tk m' m(2) v, of "sg_prot sg"]
  show thesis
  proof cases
    case (1 s')
    obtain pm2 where pm2: "freepage f (vm_pm s') = Some pm2" "core_inv X (s'\<lparr>vm_pm := pm2\<rparr>)" by (rule core_drop [OF 1(2) tk(2)])
    then have "nopage rd a sg v u s = Some (outofmem u, s'\<lparr>vm_pm := pm2\<rparr>)"
      using 1 f(1) sg by (simp add: nopage_def between_def)
    moreover have "tab_step a s (s'\<lparr>vm_pm := pm2\<rparr>)" using 1(3) by (simp add: tab_step_def)
    ultimately show thesis using pm2(2) by (intro that(1))
  next
    case (2 s' t)
    let ?s' = "s'\<lparr>vm_data := (vm_data s')(f := fill_page rd sg v (vm_data s' f))\<rparr>"
    have "length (vm_data s' f) = PAGESZ" by (rule core_invD(3) [OF 2(2)])
    then have "length (fill_page rd sg v (vm_data s' f)) = PAGESZ" by (auto simp: fill_page_def Let_def split: option.splits)
    then have "core_inv X ?s'" using 2(2) by (simp add: core_inv_def)
    moreover have "nopage rd a sg v u s = Some (Resumed, ?s')"
      using 2(1) f(1) sg by (simp add: nopage_def between_def errno_simps)
    ultimately show thesis using 2(3-6) f(5) by (intro that(2) [of ?s' f t]) simp_all
  qed
qed

lemma core_grant:
  assumes inv: "core_inv X s" and m: "vm_mm s a = Some m" "mm_pte m n = Some p" and one: "page_refs (vm_pm s) (p_frame p) = 1"
  shows "core_inv X (set_pte a n (Some (p\<lparr>p_w := True\<rparr>)) s)"
proof -
  let ?s = "set_pte a n (Some (p\<lparr>p_w := True\<rparr>)) s"
  note c = core_invD [OF inv]
  have x: "vslots s (a, SPte n) = Some (p_frame p)" using m by (simp add: vslots_def)
  have "vslots ?s = vslots s" using vslots_set_pte(1) [OF m(1)] x by (simp add: fun_eq_iff)
  then have "accounts X (page_refs (vm_pm ?s)) (vslots ?s) (excl ?s)"
    using accounts_own [OF c(2) x one vslots_set_pte(2) [OF m(1)]] by simp
  moreover have "tabs_ok (m\<lparr>mm_pte := (mm_pte m)(n := Some (p\<lparr>p_w := True\<rparr>))\<rparr>)"
    using c(4) [OF m(1)] m(2) by (auto simp: tabs_ok_def)
  ultimately show ?thesis using c(1,3,4) m(1) unfolding core_inv_def by auto
qed

lemma pm_shared_less:
  assumes "pm_inv pm" "1 < page_refs pm f"
  shows "freepage f pm = Some (set_refcnt (pfn f) (refcnt pm (pfn f) - 1) pm)"
proof -
  have "vframe pm f" "0 < refcnt pm (pfn f)" using page_refs_pos [of pm f] assms(2) by auto
  moreover have "1 < refcnt pm (pfn f)" using assms(2) calculation by (simp add: page_refs_def)
  ultimately show ?thesis using freepage_shared by simp
qed

lemma core_copy:
  assumes inv: "core_inv X s" and m: "vm_mm s a = Some m" "mm_pte m n = Some p" and two: "1 < page_refs (vm_pm s) (p_frame p)"
    and f: "pm_inv pm" "page_refs (vm_pm s) f = 0" "page_refs pm = (page_refs (vm_pm s))(f := 1)" and d: "length d = PAGESZ"
  shows "core_inv X ((set_pte a n (Some \<lparr>p_frame = f, p_w = True\<rparr>) s)\<lparr>vm_data := (vm_data s)(f := d),
    vm_pm := set_refcnt (pfn (p_frame p)) (refcnt pm (pfn (p_frame p)) - 1) pm\<rparr>)"
proof -
  let ?s = "set_pte a n (Some \<lparr>p_frame = f, p_w = True\<rparr>) s" and ?our = "p_frame p"
  let ?pm = "set_refcnt (pfn ?our) (refcnt pm (pfn ?our) - 1) pm" and ?R = "page_refs (vm_pm s)"
  note c = core_invD [OF inv]
  have ne: "?our \<noteq> f" using two f(2) by auto
  then have "1 < page_refs pm ?our" using two f(3) by simp
  then have fr: "freepage ?our pm = Some ?pm" by (rule pm_shared_less [OF f(1)])
  have "0 < page_refs pm ?our" using \<open>1 < page_refs pm ?our\<close> by simp
  then have pm: "pm_inv ?pm" "page_refs ?pm = (page_refs pm)(?our := page_refs pm ?our - 1)"
    using pages.free_law [OF f(1), of ?our] fr by auto
  have R: "page_refs ?pm = (?R(?our := ?R ?our - 1))(f := 1)" unfolding pm(2) f(3) using ne by (simp add: fun_upd_twist)
  have x: "vslots s (a, SPte n) = Some ?our" using m by (simp add: vslots_def)
  have "accounts X (?R(?our := ?R ?our - 1)) ((vslots s)((a, SPte n) := None)) (excl s)"
    by (rule accounts_free [OF c(2) x]) blast
  then have "accounts X (page_refs ?pm) (((vslots s)((a, SPte n) := None))((a, SPte n) \<mapsto> f)) (excl ?s)"
    unfolding R by (rule accounts_new) (use vslots_set_pte(2) [OF m(1)] f(2) ne in auto)
  then have "accounts X (page_refs ?pm) (vslots ?s) (excl ?s)"
    using vslots_set_pte(1) [OF m(1)] by simp
  moreover have "tabs_ok (m\<lparr>mm_pte := (mm_pte m)(n := Some \<lparr>p_frame = f, p_w = True\<rparr>)\<rparr>)"
    using c(4) [OF m(1)] m(2) by (auto simp: tabs_ok_def)
  ultimately show ?thesis using c(3,4) pm(1) m(1) d unfolding core_inv_def by auto
qed

lemma wppage_ok:
  assumes inv: "core_inv X s" and m: "vm_mm s a = Some m" "mm_pte m (page_of v) = Some p"
  obtains "wppage a v u s = Some (outofmem u, s)"
  | s' f where "wppage a v u s = Some (Resumed, s')" "core_inv X s'" "vm_iref s' = vm_iref s" "\<forall>c. c \<noteq> a \<longrightarrow> vm_mm s' c = vm_mm s c"
      "vm_mm s' a = Some (m\<lparr>mm_pte := (mm_pte m)(page_of v \<mapsto> \<lparr>p_frame = f, p_w = True\<rparr>)\<rparr>)"
      "vm_data s' f = vm_data s (p_frame p)" "\<forall>g. (\<exists>x. vslots s x = Some g) \<longrightarrow> vm_data s' g = vm_data s g"
proof -
  note c = core_invD [OF inv]
  have t: "mm_tab m (page_of v div 1024) \<noteq> None" using c(4) [OF m(1)] m(2) by (auto simp: tabs_ok_def)
  then have pr: "probe m (page_of v) = Some (Some p)" using m(2) by (simp add: probe_def)
  have "vslots s (a, SPte (page_of v)) = Some (p_frame p)" using m by (simp add: vslots_def)
  then have "0 < page_refs (vm_pm s) (p_frame p)" using accountsD(5) [OF c(2)] by blast
  from page_refs_pos [OF this] have r: "0 < refcnt (vm_pm s) (pfn (p_frame p))"
    "page_refs (vm_pm s) (p_frame p) = nat (refcnt (vm_pm s) (pfn (p_frame p)))" by (simp_all add: page_refs_def)
  show ?thesis
  proof (cases "refcnt (vm_pm s) (pfn (p_frame p)) = 1")
    case True
    let ?s = "set_pte a (page_of v) (Some (p\<lparr>p_w := True\<rparr>)) s"
    have "wppage a v u s = Some (Resumed, ?s)" using m pr True by (simp add: wppage_def)
    moreover have "core_inv X ?s" using r True by (intro core_grant [OF inv m]) simp
    moreover have "vm_mm ?s a = Some (m\<lparr>mm_pte := (mm_pte m)(page_of v \<mapsto> \<lparr>p_frame = p_frame p, p_w = True\<rparr>)\<rparr>)"
      using m(1) by (cases p) simp
    ultimately show ?thesis by (intro that(2) [of ?s "p_frame p"]) simp_all
  next
    case False
    show ?thesis
    proof (rule core_alloc [OF inv valid_user(1)])
      assume "page_alloc AUSER (vm_pm s) = Some (None, vm_pm s)"
      then have "wppage a v u s = Some (outofmem u, s)" using m pr False r by (simp add: wppage_def)
      then show ?thesis by (rule that(1))
    next
      fix f pm
      assume f: "page_alloc AUSER (vm_pm s) = Some (Some f, pm)" "pm_inv pm" "page_refs (vm_pm s) f = 0"
        "page_refs pm = (page_refs (vm_pm s))(f := 1)" "\<And>x. vslots s x \<noteq> Some f"
      let ?our = "p_frame p"
      let ?s = "(set_pte a (page_of v) (Some \<lparr>p_frame = f, p_w = True\<rparr>) s)\<lparr>vm_data := (vm_data s)(f := vm_data s ?our),
        vm_pm := set_refcnt (pfn ?our) (refcnt pm (pfn ?our) - 1) pm\<rparr>"
      have "1 < page_refs (vm_pm s) ?our" using r False by simp
      then have "core_inv X ?s" by (rule core_copy [OF inv m _ f(2-4) c(3)])
      moreover have "wppage a v u s = Some (Resumed, ?s)"
        using m pr False r f(1) by (simp add: wppage_def set_pte_def mm_upd_def Let_def)
      ultimately show ?thesis using m f(5) by (intro that(2) [of ?s f]) auto
    qed
  qed
qed

subsection \<open>Private memories\<close>

text \<open>
  What an address space sees of a page of its segments: the frame if there is one, else what the fault handler will put
  there.  A file that ends inside the page leaves the rest of the frame as its last owner left it (\<open>fill_page\<close>): these
  bytes are undetermined, \<open>None\<close>, until the page is touched.
\<close>

definition file_page :: "rdfun \<Rightarrow> seg \<Rightarrow> nat \<Rightarrow> u8 option list" where
  "file_page rd sg v = (case sg_inode sg of
       None \<Rightarrow> replicate PAGESZ (Some 0)
     | Some i \<Rightarrow> let bs = take PAGESZ (rd i (sg_offset sg + vpagedown v - sg_start sg) PAGESZ)
         in map Some bs @ replicate (PAGESZ - length bs) None)"

definition ppage :: "rdfun \<Rightarrow> vmem \<Rightarrow> nat \<Rightarrow> nat \<Rightarrow> u8 option list option" where
  "ppage rd s a n = (case vm_mm s a of None \<Rightarrow> None | Some m \<Rightarrow>
     (case mm_contain (n * PAGESZ) m of None \<Rightarrow> None | Some i \<Rightarrow>
        Some (case mm_pte m n of Some p \<Rightarrow> map Some (vm_data s (p_frame p))
          | None \<Rightarrow> file_page rd (mm_segq m ! i) (n * PAGESZ))))"

definition peek :: "rdfun \<Rightarrow> vmem \<Rightarrow> nat \<Rightarrow> nat \<Rightarrow> u8 option option" where
  "peek rd s a v = map_option (\<lambda>pg. pg ! (v mod PAGESZ)) (ppage rd s a (page_of v))"

text \<open>A later view may only determine bytes that were not.\<close>

definition byte_le :: "u8 option \<Rightarrow> u8 option \<Rightarrow> bool" where
  "byte_le x y \<longleftrightarrow> x = None \<or> y = x"

definition page_le :: "u8 option list option \<Rightarrow> u8 option list option \<Rightarrow> bool" where
  "page_le = rel_option (list_all2 byte_le)"

type_synonym memories = "nat \<Rightarrow> nat \<Rightarrow> u8 option option"

definition mem_le :: "memories \<Rightarrow> memories \<Rightarrow> bool" where
  "mem_le M M' \<longleftrightarrow> (\<forall>a v. rel_option byte_le (M a v) (M' a v))"

lemma page_le_refl [simp]: "page_le P P"
  by (simp add: page_le_def option.rel_refl list.rel_refl byte_le_def)

lemma mem_le_refl [simp]: "mem_le M M"
  by (simp add: mem_le_def option.rel_refl byte_le_def)

lemma length_file_page [simp]: "length (file_page rd sg v) = PAGESZ"
  by (simp add: file_page_def Let_def split: option.split)

definition segs_ok :: "seg list \<Rightarrow> bool" where
  "segs_ok q \<longleftrightarrow> (\<forall>sg\<in>set q. sg_start sg mod PAGESZ = 0 \<and> sg_end sg mod PAGESZ = 0 \<and> sg_start sg \<le> sg_end sg \<and> sg_end sg \<le> USEREND) \<and>
     sorted_wrt (\<lambda>x y. sg_end x \<le> sg_start y) q"

definition vm_inv :: "(nat \<Rightarrow> nat) \<Rightarrow> vmem \<Rightarrow> bool" where
  "vm_inv X s \<longleftrightarrow> core_inv X s \<and> (\<forall>a m. vm_mm s a = Some m \<longrightarrow> segs_ok (mm_segq m))"

lemma page_of_less: "b mod PAGESZ = 0 \<Longrightarrow> v < b \<longleftrightarrow> page_of v * PAGESZ < b" "b mod PAGESZ = 0 \<Longrightarrow> b \<le> v \<longleftrightarrow> b \<le> page_of v * PAGESZ"
proof -
  assume b: "b mod PAGESZ = 0"
  then obtain k where k: "b = k * PAGESZ" by (metis mod_0_imp_dvd dvd_def mult.commute)
  have "v < k * PAGESZ \<longleftrightarrow> v div PAGESZ < k" by (simp add: PAGESZ_def div_less_iff_less_mult)
  also have "\<dots> \<longleftrightarrow> v div PAGESZ * PAGESZ < k * PAGESZ" by (simp add: PAGESZ_def)
  finally show "v < b \<longleftrightarrow> page_of v * PAGESZ < b" by (simp add: k page_of_def)
  then show "b \<le> v \<longleftrightarrow> b \<le> page_of v * PAGESZ" by linarith
qed

lemma findseg_page:
  assumes "segs_ok (mm_segq m)"
  shows "findseg v m = findseg (page_of v * PAGESZ) m"
proof -
  have "v < sg_end (mm_segq m ! i) \<longleftrightarrow> page_of v * PAGESZ < sg_end (mm_segq m ! i)" if "i < length (mm_segq m)" for i
    using assms that by (intro page_of_less(1)) (simp add: segs_ok_def)
  then show ?thesis unfolding findseg_def by (intro find_cong) auto
qed

lemma findseg_Some: "findseg v m = Some i \<Longrightarrow> i < length (mm_segq m) \<and> v < sg_end (mm_segq m ! i)"
  by (auto simp: findseg_def find_Some_iff)

lemma mm_contain_page:
  assumes "segs_ok (mm_segq m)"
  shows "mm_contain v m = mm_contain (page_of v * PAGESZ) m"
proof (cases "findseg v m")
  case (Some i)
  then have "sg_start (mm_segq m ! i) \<le> v \<longleftrightarrow> sg_start (mm_segq m ! i) \<le> page_of v * PAGESZ"
    using assms findseg_Some [OF Some] by (intro page_of_less(2)) (simp add: segs_ok_def)
  then show ?thesis using Some findseg_page [OF assms, of v] by (simp add: mm_contain_def)
qed (use findseg_page [OF assms, of v] in \<open>simp add: mm_contain_def\<close>)

lemma containD: "mm_contain v m = Some i \<Longrightarrow> findseg v m = Some i \<and> i < length (mm_segq m) \<and> sg_start (mm_segq m ! i) \<le> v \<and> v < sg_end (mm_segq m ! i)"
  using findseg_Some by (auto simp: mm_contain_def split: option.splits if_splits)

lemma list_all2_None: "length ys = n \<Longrightarrow> list_all2 byte_le (replicate n None) (map Some ys)"
  by (simp add: list_all2_conv_all_nth byte_le_def)

lemma fill_determines:
  assumes "length old = PAGESZ"
  shows "list_all2 byte_le (file_page rd sg (page_of v * PAGESZ)) (map Some (fill_page rd sg v old))"
proof (cases "sg_inode sg")
  case None
  then show ?thesis by (simp add: file_page_def fill_page_def list.rel_refl byte_le_def)
next
  case (Some i)
  have v: "vpagedown (page_of v * PAGESZ) = vpagedown v" by (simp add: vpagedown_def page_of_def PAGESZ_def)
  let ?bs = "take PAGESZ (rd i (sg_offset sg + vpagedown v - sg_start sg) PAGESZ)"
  have "list_all2 byte_le (map Some ?bs) (map Some ?bs)" by (simp add: list.rel_refl byte_le_def)
  moreover have "list_all2 byte_le (replicate (PAGESZ - length ?bs) None) (map Some (drop (length ?bs) old))"
    by (rule list_all2_None) (simp add: assms)
  ultimately have "list_all2 byte_le (map Some ?bs @ replicate (PAGESZ - length ?bs) None) (map Some ?bs @ map Some (drop (length ?bs) old))"
    by (rule list_all2_appendI)
  then show ?thesis using Some v by (simp add: file_page_def fill_page_def Let_def)
qed

lemma mm_contain_segq: "mm_segq m' = mm_segq m \<Longrightarrow> mm_contain v m' = mm_contain v m"
  by (simp add: mm_contain_def findseg_def cong: option.case_cong)

text \<open>Pages are seen through frames, contents of frames and segments.\<close>

lemma ppage_cong2:
  assumes m: "vm_mm s c = Some m" "vm_mm s' c' = Some m'" "mm_segq m' = mm_segq m"
    and f: "mm_contain (n * PAGESZ) m \<noteq> None \<Longrightarrow> map_option p_frame (mm_pte m' n) = map_option p_frame (mm_pte m n)"
    and d: "\<And>p. mm_pte m n = Some p \<Longrightarrow> vm_data s' (p_frame p) = vm_data s (p_frame p)"
  shows "ppage rd s' c' n = ppage rd s c n"
proof (cases "mm_contain (n * PAGESZ) m")
  case (Some i)
  note q = mm_contain_segq [OF m(3), of "n * PAGESZ"]
  show ?thesis
  proof (cases "mm_pte m n")
    case None
    then have "mm_pte m' n = None" using f Some by simp
    then show ?thesis using None Some m q by (simp add: ppage_def)
  next
    case p: (Some p)
    then obtain p' where "mm_pte m' n = Some p'" "p_frame p' = p_frame p" using f Some by auto
    then show ?thesis using p Some m q d [OF p] by (simp add: ppage_def)
  qed
qed (use m mm_contain_segq [OF m(3), of "n * PAGESZ"] in \<open>simp add: ppage_def\<close>)

lemma ppage_cong:
  assumes "vm_mm s c = Some m" "vm_mm s' c = Some m'" "mm_segq m' = mm_segq m" "map_option p_frame (mm_pte m' n) = map_option p_frame (mm_pte m n)"
    and "\<And>p. mm_pte m n = Some p \<Longrightarrow> vm_data s' (p_frame p) = vm_data s (p_frame p)"
  shows "ppage rd s' c n = ppage rd s c n"
  by (rule ppage_cong2 [OF assms(1-3)]) (use assms(4,5) in auto)

lemma ppage_same:
  assumes "vm_mm s' c = vm_mm s c" "\<And>f. (\<exists>x. vslots s x = Some f) \<Longrightarrow> vm_data s' f = vm_data s f"
  shows "ppage rd s' c n = ppage rd s c n"
proof (cases "vm_mm s c")
  case (Some m)
  have "\<exists>x. vslots s x = Some (p_frame p)" if "mm_pte m n = Some p" for p
    using Some that by (intro exI [of _ "(c, SPte n)"]) (simp add: vslots_def)
  then show ?thesis using Some assms by (intro ppage_cong [of s c m s' m]) auto
qed (simp add: ppage_def assms(1))

text \<open>After a fault was handled the page is there, and everybody sees what was determined before.\<close>

definition view_le :: "rdfun \<Rightarrow> vmem \<Rightarrow> vmem \<Rightarrow> bool" where
  "view_le rd s s' \<longleftrightarrow> (\<forall>c n. page_le (ppage rd s c n) (ppage rd s' c n))"

definition same_segs :: "vmem \<Rightarrow> vmem \<Rightarrow> bool" where
  "same_segs s s' \<longleftrightarrow> (\<forall>c. map_option mm_segq (vm_mm s' c) = map_option mm_segq (vm_mm s c))"

lemma vm_invI:
  assumes "vm_inv X s" "core_inv X' s'" "same_segs s s'"
  shows "vm_inv X' s'"
  unfolding vm_inv_def
proof (intro conjI allI impI)
  show "core_inv X' s'" by (rule assms(2))
  fix a m' assume m': "vm_mm s' a = Some m'"
  then obtain m where m: "vm_mm s a = Some m" "mm_segq m' = mm_segq m"
    using assms(3) [unfolded same_segs_def, rule_format, of a] by (cases "vm_mm s a") simp_all
  then show "segs_ok (mm_segq m')" using assms(1) by (auto simp: vm_inv_def)
qed

text \<open>An address space \<open>a\<close> whose segments stay and whose pages are entered or change their frame only together with the contents.\<close>

lemma one_view:
  assumes m: "vm_mm s a = Some m" "vm_mm s' a = Some m'" "mm_segq m' = mm_segq m"
    and o: "\<forall>c. c \<noteq> a \<longrightarrow> vm_mm s' c = vm_mm s c"
    and d: "\<And>f. (\<exists>x. vslots s x = Some f) \<Longrightarrow> vm_data s' f = vm_data s f"
    and pg: "\<And>k. k \<noteq> n \<Longrightarrow> mm_pte m' k = mm_pte m k" and n: "page_le (ppage rd s a n) (ppage rd s' a n)"
  shows "view_le rd s s'" "same_segs s s'"
proof -
  show "same_segs s s'"
    unfolding same_segs_def
  proof
    fix c show "map_option mm_segq (vm_mm s' c) = map_option mm_segq (vm_mm s c)" using m o by (cases "c = a") simp_all
  qed
  show "view_le rd s s'"
    unfolding view_le_def
  proof (intro allI)
    fix c k
    consider "c \<noteq> a" | "c = a" "k = n" | "c = a" "k \<noteq> n" by blast
    then show "page_le (ppage rd s c k) (ppage rd s' c k)"
    proof cases
      case 1
      then have "ppage rd s' c k = ppage rd s c k" using o d by (intro ppage_same) simp_all
      then show ?thesis by simp
    next
      case 3
      have "vslots s (a, SPte k) = Some (p_frame p)" if "mm_pte m k = Some p" for p using m(1) that by (simp add: vslots_def)
      then have "vm_data s' (p_frame p) = vm_data s (p_frame p)" if "mm_pte m k = Some p" for p using d that by blast
      then have "ppage rd s' c k = ppage rd s c k" using 3 m pg by (intro ppage_cong [of s c m s' m']) simp_all
      then show ?thesis by simp
    qed (use n in simp)
  qed
qed

lemma tab_step_view:
  assumes "tab_step a s s'" "vm_mm s a = Some m"
  shows "view_le rd s s'" "same_segs s s'"
proof -
  obtain t where t: "vm_mm s' a = Some (m\<lparr>mm_tab := t\<rparr>)" using assms by (auto simp: tab_step_def)
  have o: "\<forall>c. c \<noteq> a \<longrightarrow> vm_mm s' c = vm_mm s c" and d: "vm_data s' = vm_data s" using assms by (simp_all add: tab_step_def)
  have "ppage rd s' a 0 = ppage rd s a 0" by (rule ppage_cong [OF assms(2) t]) (simp_all add: d)
  then show "view_le rd s s'" "same_segs s s'"
    using one_view [OF assms(2) t _ o, of 0 rd] by (simp_all add: d)
qed
lemma vm_invD:
  assumes "vm_inv X s"
  shows "core_inv X s" "vm_mm s a = Some m \<Longrightarrow> segs_ok (mm_segq m)"
  using assms by (auto simp: vm_inv_def)

lemma same_refl: "view_le rd s s" "same_segs s s"
  by (simp_all add: view_le_def same_segs_def)

lemma nopage_view:
  assumes inv: "vm_inv X s" and m: "vm_mm s a = Some m" "mm_pte m (page_of v) = None" and i: "mm_contain v m = Some i"
  obtains r s' where "nopage rd a (mm_segq m ! i) v u s = Some (r, s')" "vm_inv X s'" "view_le rd s s'" "same_segs s s'"
    "r = outofmem u \<or> r = Resumed \<and> (\<exists>m' p. vm_mm s' a = Some m' \<and> mm_segq m' = mm_segq m \<and> mm_pte m' (page_of v) = Some p \<and>
       p_w p = (sg_prot (mm_segq m ! i) AND PROTW \<noteq> 0))"
proof -
  let ?sg = "mm_segq m ! i"
  note c = vm_invD(1) [OF inv] and sok = vm_invD(2) [OF inv m(1)]
  have sg: "sg_start ?sg \<le> v" "v < sg_end ?sg" "i < length (mm_segq m)" using containD [OF i] by auto
  then have v: "v < USEREND" using sok by (auto simp: segs_ok_def dest!: bspec [OF _ nth_mem])
  show thesis
  proof (rule nopage_ok [OF c m v sg(1,2)])
    fix s' assume "nopage rd a ?sg v u s = Some (outofmem u, s')" "core_inv X s'" "tab_step a s s'"
    then show thesis using tab_step_view [OF _ m(1)] vm_invI [OF inv] by (intro that [of "outofmem u" s']) blast+
  next
    fix s' t f
    let ?m = "m\<lparr>mm_tab := t, mm_pte := (mm_pte m)(page_of v \<mapsto> \<lparr>p_frame = f, p_w = (sg_prot ?sg AND PROTW \<noteq> 0)\<rparr>)\<rparr>"
    assume s': "nopage rd a ?sg v u s = Some (Resumed, s')" "core_inv X s'" "vm_iref s' = vm_iref s"
      "\<And>x. vslots s x \<noteq> Some f" "vm_data s' = (vm_data s)(f := fill_page rd ?sg v (vm_data s f))" "\<forall>c. c \<noteq> a \<longrightarrow> vm_mm s' c = vm_mm s c"
      "vm_mm s' a = Some ?m"
    have q: "mm_segq ?m = mm_segq m" by simp
    have ci: "mm_contain (page_of v * PAGESZ) m = Some i" using i mm_contain_page [OF sok, of v] by simp
    have "page_le (ppage rd s a (page_of v)) (ppage rd s' a (page_of v))"
      using m s'(5,7) ci mm_contain_segq [OF q, of "page_of v * PAGESZ"] fill_determines [OF core_invD(3) [OF c]] by (simp add: ppage_def page_le_def)
    then have "view_le rd s s'" "same_segs s s'"
      using s'(4,5) by (intro one_view [OF m(1) s'(7) q s'(6), of "page_of v" rd]; auto)+
    moreover have "vm_inv X s'" using vm_invI [OF inv s'(2)] calculation by blast
    ultimately show thesis using s'(1,7) by (intro that [of Resumed s']) auto
  qed
qed

lemma wppage_view:
  assumes inv: "vm_inv X s" and m: "vm_mm s a = Some m" "mm_pte m (page_of v) = Some p"
  obtains r s' where "wppage a v u s = Some (r, s')" "vm_inv X s'" "view_le rd s s'" "same_segs s s'"
    "r = outofmem u \<or> r = Resumed \<and> (\<exists>m' p. vm_mm s' a = Some m' \<and> mm_segq m' = mm_segq m \<and> mm_pte m' (page_of v) = Some p \<and> p_w p)"
proof -
  note c = vm_invD(1) [OF inv]
  show thesis
  proof (rule wppage_ok [OF c m])
    assume "wppage a v u s = Some (outofmem u, s)"
    then show thesis using inv same_refl by (intro that [of "outofmem u" s]) auto
  next
    fix s' f
    let ?m = "m\<lparr>mm_pte := (mm_pte m)(page_of v \<mapsto> \<lparr>p_frame = f, p_w = True\<rparr>)\<rparr>"
    assume s': "wppage a v u s = Some (Resumed, s')" "core_inv X s'" "vm_iref s' = vm_iref s" "\<forall>c. c \<noteq> a \<longrightarrow> vm_mm s' c = vm_mm s c"
      "vm_mm s' a = Some ?m" "vm_data s' f = vm_data s (p_frame p)" "\<forall>g. (\<exists>x. vslots s x = Some g) \<longrightarrow> vm_data s' g = vm_data s g"
    have q: "mm_segq ?m = mm_segq m" by simp
    have "ppage rd s' a (page_of v) = ppage rd s a (page_of v)"
      using m s'(5,6) mm_contain_segq [OF q, of "page_of v * PAGESZ"] by (simp add: ppage_def cong: option.case_cong)
    then have "view_le rd s s'" "same_segs s s'"
      using s'(7) by (intro one_view [OF m(1) s'(5) q s'(4), of "page_of v" rd]; auto)+
    moreover have "vm_inv X s'" using vm_invI [OF inv s'(2)] calculation by blast
    ultimately show thesis using s'(1,5) by (intro that [of Resumed s']) auto
  qed
qed
lemma pagefault_inside:
  assumes "vm_mm s a = Some m" "mm_contain v m = Some i" "p \<longrightarrow> w" "w \<longrightarrow> sg_prot (mm_segq m ! i) AND PROTW \<noteq> 0"
  shows "pagefault rd a esp v u w p s = (if p then wppage a v u s else nopage rd a (mm_segq m ! i) v u s)"
  using assms containD [OF assms(2)] by (auto simp: pagefault_def Let_def)

lemma touch_done: "v < USEREND \<Longrightarrow> allowed a w v s \<Longrightarrow> touch rd a esp v u w s = Some (Resumed, s)"
  by (simp add: touch.simps)

lemma touch_fault:
  assumes "\<not> allowed a w v s" "pagefault rd a esp v u w (present a v s) s = Some (r, s1)"
  shows "touch rd a esp v u w s = (if r = Resumed then touch rd a esp v u w s1 else Some (r, s1))"
  by (subst touch.simps) (simp add: assms)

text \<open>An access inside the segments ends after at most one fault, with the page entered as needed, or for lack of memory.\<close>

lemma touch_ok:
  assumes inv: "vm_inv X s" and m: "vm_mm s a = Some m" and i: "mm_contain v m = Some i"
    and w: "w \<longrightarrow> sg_prot (mm_segq m ! i) AND PROTW \<noteq> 0"
  obtains r s' where "touch rd a esp v u w s = Some (r, s')" "vm_inv X s'" "view_le rd s s'" "same_segs s s'"
    "r = outofmem u \<or> r = Resumed \<and> (\<exists>m' p. vm_mm s' a = Some m' \<and> mm_segq m' = mm_segq m \<and> mm_pte m' (page_of v) = Some p \<and> (w \<longrightarrow> p_w p))"
proof -
  have v: "v < USEREND"
    using vm_invD(2) [OF inv m] containD [OF i] by (auto simp: segs_ok_def dest!: bspec [OF _ nth_mem])
  note pf = pagefault_inside [OF m i _ w] and res = that
  have nr: "outofmem u \<noteq> Resumed" by (simp add: outofmem_def)
  have fin: thesis
    if f: "\<not> allowed a w v s" "pagefault rd a esp v u w (present a v s) s = Some (r, s')" and s': "vm_inv X s'" "view_le rd s s'" "same_segs s s'"
      and r: "r = outofmem u \<or> r = Resumed \<and> (\<exists>m' p. vm_mm s' a = Some m' \<and> mm_segq m' = mm_segq m \<and> mm_pte m' (page_of v) = Some p \<and> (w \<longrightarrow> p_w p))" for r s'
  proof (cases "r = Resumed")
    case True
    then obtain m' p where p: "vm_mm s' a = Some m'" "mm_segq m' = mm_segq m" "mm_pte m' (page_of v) = Some p" "w \<longrightarrow> p_w p" using r nr by auto
    then have "touch rd a esp v u w s' = Some (Resumed, s')" using v by (intro touch_done) (simp_all add: allowed_def)
    then have "touch rd a esp v u w s = Some (Resumed, s')" using touch_fault [OF f] True by simp
    then show thesis using s' p by (intro res [of Resumed s']) auto
  next
    case False
    then show thesis using touch_fault [OF f] s' r by (intro res [of r s']) simp_all
  qed
  show thesis
  proof (cases "mm_pte m (page_of v)")
    case None
    obtain r s' where n: "nopage rd a (mm_segq m ! i) v u s = Some (r, s')" "vm_inv X s'" "view_le rd s s'" "same_segs s s'"
      "r = outofmem u \<or> r = Resumed \<and> (\<exists>m' p. vm_mm s' a = Some m' \<and> mm_segq m' = mm_segq m \<and> mm_pte m' (page_of v) = Some p \<and>
       p_w p = (sg_prot (mm_segq m ! i) AND PROTW \<noteq> 0))"
      by (rule nopage_view [OF inv m None i])
    have "\<not> present a v s" "\<not> allowed a w v s" using m None by (simp_all add: present_def allowed_def)
    then show thesis using pf [of False] n(1,5) w by (intro fin [OF _ _ n(2-4)]) auto
  next
    case (Some p)
    show thesis
    proof (cases "w \<longrightarrow> p_w p")
      case True
      then have "touch rd a esp v u w s = Some (Resumed, s)" using v m Some by (intro touch_done) (simp_all add: allowed_def)
      then show thesis using inv same_refl m Some True by (intro that [of Resumed s]) auto
    next
      case False
      obtain r s' where n: "wppage a v u s = Some (r, s')" "vm_inv X s'" "view_le rd s s'" "same_segs s s'"
        "r = outofmem u \<or> r = Resumed \<and> (\<exists>m' p. vm_mm s' a = Some m' \<and> mm_segq m' = mm_segq m \<and> mm_pte m' (page_of v) = Some p \<and> p_w p)"
        by (rule wppage_view [OF inv m Some])
      have "present a v s" "\<not> allowed a w v s" using m Some False by (simp_all add: present_def allowed_def)
      then show thesis using pf [of True] n(1,5) False by (intro fin [OF _ _ n(2-4)]) auto
    qed
  qed
qed
subsection \<open>Loads and stores\<close>

definition may_store :: "nat \<Rightarrow> nat \<Rightarrow> vmem \<Rightarrow> bool" where
  "may_store a v s \<longleftrightarrow> (case vm_mm s a of None \<Rightarrow> False | Some m \<Rightarrow>
     (case mm_contain v m of None \<Rightarrow> False | Some i \<Rightarrow> sg_prot (mm_segq m ! i) AND PROTW \<noteq> 0))"

definition may_load :: "nat \<Rightarrow> nat \<Rightarrow> vmem \<Rightarrow> bool" where
  "may_load a v s \<longleftrightarrow> (case vm_mm s a of None \<Rightarrow> False | Some m \<Rightarrow> mm_contain v m \<noteq> None)"

definition user_load :: "rdfun \<Rightarrow> nat \<Rightarrow> nat \<Rightarrow> nat \<Rightarrow> vmem \<Rightarrow> ((fault \<times> u8) \<times> vmem) option" where
  "user_load rd a esp v s = do {
     (r, s1) \<leftarrow> touch rd a esp v True False s;
     if r = Resumed then do {
       m \<leftarrow> vm_mm s1 a;
       p \<leftarrow> mm_pte m (page_of v);
       Some ((Resumed, vm_data s1 (p_frame p) ! (v mod PAGESZ)), s1) }
     else Some ((r, 0), s1) }"

lemma ppage_length: "vm_inv X s \<Longrightarrow> ppage rd s a n = Some pg \<Longrightarrow> length pg = PAGESZ"
  by (auto simp: ppage_def vm_inv_def core_inv_def split: option.splits)

lemma view_le_peek:
  assumes "vm_inv X s" "view_le rd s s'"
  shows "mem_le (peek rd s) (peek rd s')"
  unfolding mem_le_def
proof (intro allI)
  fix a v
  have "page_le (ppage rd s a (page_of v)) (ppage rd s' a (page_of v))" using assms(2) by (simp add: view_le_def)
  then show "rel_option byte_le (peek rd s a v) (peek rd s' a v)"
  proof (cases "ppage rd s a (page_of v)")
    case (Some pg)
    then obtain pg' where "ppage rd s' a (page_of v) = Some pg'" "list_all2 byte_le pg pg'"
      using \<open>page_le _ _\<close> by (auto simp: page_le_def option_rel_Some1)
    moreover have "v mod PAGESZ < length pg" using ppage_length [OF assms(1) Some] by (simp add: PAGESZ_def)
    ultimately show ?thesis using Some by (simp add: peek_def list_all2_nthD)
  qed (auto simp: page_le_def peek_def)
qed

lemma load_ok:
  assumes inv: "vm_inv X s" and l: "may_load a v s"
  obtains r b s' where "user_load rd a esp v s = Some ((r, b), s')" "vm_inv X s'" "mem_le (peek rd s) (peek rd s')" "same_segs s s'"
    "r = Segv \<or> r = Resumed \<and> peek rd s' a v = Some (Some b)"
proof -
  obtain m i where m: "vm_mm s a = Some m" and i: "mm_contain v m = Some i"
    using l by (auto simp: may_load_def split: option.splits)
  obtain r s' where t: "touch rd a esp v True False s = Some (r, s')" "vm_inv X s'" "view_le rd s s'" "same_segs s s'"
    "r = outofmem True \<or> r = Resumed \<and> (\<exists>m' p. vm_mm s' a = Some m' \<and> mm_segq m' = mm_segq m \<and> mm_pte m' (page_of v) = Some p \<and> (False \<longrightarrow> p_w p))"
    by (rule touch_ok [OF inv m i, of False]) simp
  note pk = view_le_peek [OF inv t(3)]
  show thesis
  proof (cases "r = Resumed")
    case True
    then obtain m' p where p: "vm_mm s' a = Some m'" "mm_segq m' = mm_segq m" "mm_pte m' (page_of v) = Some p"
      using t(5) by (auto simp: outofmem_def)
    have "mm_contain (page_of v * PAGESZ) m' = Some i"
      using i mm_contain_page [OF vm_invD(2) [OF inv m], of v] mm_contain_segq [OF p(2)] by simp
    moreover have "v mod PAGESZ < length (vm_data s' (p_frame p))" using core_invD(3) [OF vm_invD(1) [OF t(2)]] by (simp add: PAGESZ_def)
    ultimately have "peek rd s' a v = Some (Some (vm_data s' (p_frame p) ! (v mod PAGESZ)))" using p by (simp add: peek_def ppage_def)
    moreover have "user_load rd a esp v s = Some ((Resumed, vm_data s' (p_frame p) ! (v mod PAGESZ)), s')"
      using t(1) True p by (simp add: user_load_def)
    ultimately show thesis using t(2,4) pk by (intro that [of Resumed "vm_data s' (p_frame p) ! (v mod PAGESZ)" s']) simp_all
  next
    case False
    then show thesis using t pk by (intro that [of r 0 s']) (auto simp: user_load_def outofmem_def)
  qed
qed

text \<open>A frame that may be written is in one slot only.\<close>

lemma write_ok:
  assumes inv: "vm_inv X s" and m: "vm_mm s a = Some m" "mm_pte m (page_of v) = Some p" "p_w p" and i: "mm_contain v m = Some i"
  obtains s' where "write_byte a v b s = Some s'" "vm_inv X s'" "peek rd s' = (peek rd s)(a := (peek rd s a)(v \<mapsto> Some b))" "same_segs s s'"
proof -
  let ?f = "p_frame p" and ?s = "s\<lparr>vm_data := (vm_data s)(p_frame p := (vm_data s (p_frame p))[v mod PAGESZ := b])\<rparr>"
  note c = vm_invD(1) [OF inv] and cc = core_invD [OF vm_invD(1) [OF inv]] and sok = vm_invD(2) [OF inv m(1)]
  have "core_inv X ?s" using cc unfolding core_inv_def by simp
  moreover have sg: "same_segs s ?s" by (simp add: same_segs_def)
  ultimately have inv': "vm_inv X ?s" by (intro vm_invI [OF inv])
  have own: "d = a \<and> k = page_of v" if "vm_mm s d = Some m'" "mm_pte m' k = Some q" "p_frame q = ?f" for d k m' q
  proof -
    have "(a, SPte (page_of v)) \<in> excl s" using m by (simp add: writable_def)
    moreover have "vslots s (a, SPte (page_of v)) = Some ?f" "vslots s (d, SPte k) = Some ?f" using m that by (simp_all add: vslots_def)
    ultimately have "(d, SPte k) = (a, SPte (page_of v))" by (rule accountsD(4) [OF cc(2)])
    then show ?thesis by simp
  qed
  have other: "ppage rd ?s d k = ppage rd s d k" if "(d, k) \<noteq> (a, page_of v)" for d k
  proof (cases "vm_mm s d")
    case (Some m')
    then show ?thesis using own [OF Some, of k] that by (intro ppage_cong [of s d m' _ m']) auto
  qed (simp add: ppage_def)
  have ci: "mm_contain (page_of v * PAGESZ) m = Some i" using i mm_contain_page [OF sok, of v] by simp
  have pg: "ppage rd s a (page_of v) = Some (map Some (vm_data s ?f))" "ppage rd ?s a (page_of v) = Some ((map Some (vm_data s ?f))[v mod PAGESZ := Some b])"
    using m ci by (simp_all add: ppage_def map_update)
  have "peek rd ?s d w = ((peek rd s)(a := (peek rd s a)(v \<mapsto> Some b))) d w" for d w
  proof (cases "d = a \<and> page_of w = page_of v")
    case True
    have "w mod PAGESZ = v mod PAGESZ \<longleftrightarrow> w = v" using True unfolding page_of_def by (metis div_mult_mod_eq)
    moreover have "v mod PAGESZ < length (vm_data s ?f)" using cc(3) [of ?f] by (simp add: PAGESZ_def)
    ultimately show ?thesis using True pg by (auto simp: peek_def nth_list_update)
  next
    case False
    then have "ppage rd ?s d (page_of w) = ppage rd s d (page_of w)" by (intro other) auto
    moreover have "d \<noteq> a \<or> w \<noteq> v" using False by auto
    ultimately show ?thesis by (auto simp: peek_def)
  qed
  then have "peek rd ?s = (peek rd s)(a := (peek rd s a)(v \<mapsto> Some b))" by (intro ext)
  then show thesis using m inv' sg by (intro that [of ?s]) (simp_all add: write_byte_def)
qed
lemma user_store_ok:
  assumes inv: "vm_inv X s" and st: "may_store a v s"
  obtains r s' where "user_store rd a esp v b s = Some (r, s')" "vm_inv X s'" "same_segs s s'"
    "r = Segv \<and> mem_le (peek rd s) (peek rd s') \<or>
     r = Resumed \<and> (\<exists>M. mem_le (peek rd s) M \<and> peek rd s' = M(a := (M a)(v \<mapsto> Some b)))"
proof -
  obtain m i where m: "vm_mm s a = Some m" and i: "mm_contain v m = Some i" and w: "sg_prot (mm_segq m ! i) AND PROTW \<noteq> 0"
    using st by (auto simp: may_store_def split: option.splits)
  obtain r s' where t: "touch rd a esp v True True s = Some (r, s')" "vm_inv X s'" "view_le rd s s'" "same_segs s s'"
    "r = outofmem True \<or> r = Resumed \<and> (\<exists>m' p. vm_mm s' a = Some m' \<and> mm_segq m' = mm_segq m \<and> mm_pte m' (page_of v) = Some p \<and> (True \<longrightarrow> p_w p))"
    using w by (rule touch_ok [OF inv m i, of True, OF impI])
  note pk = view_le_peek [OF inv t(3)]
  show thesis
  proof (cases "r = Resumed")
    case True
    then obtain m' p where p: "vm_mm s' a = Some m'" "mm_segq m' = mm_segq m" "mm_pte m' (page_of v) = Some p" "p_w p"
      using t(5) by (auto simp: outofmem_def)
    have "mm_contain v m' = Some i" using i mm_contain_segq [OF p(2)] by simp
    then obtain s2 where s2: "write_byte a v b s' = Some s2" "vm_inv X s2" "peek rd s2 = (peek rd s')(a := (peek rd s' a)(v \<mapsto> Some b))" "same_segs s' s2"
      by (rule write_ok [OF t(2) p(1,3,4)])
    have "user_store rd a esp v b s = Some (Resumed, s2)" using t(1) True s2(1) by (simp add: user_store_def)
    moreover have "same_segs s s2" using t(4) s2(4) by (simp add: same_segs_def)
    moreover have "\<exists>M. mem_le (peek rd s) M \<and> peek rd s2 = M(a := (M a)(v \<mapsto> Some b))" using s2(3) pk by blast
    ultimately show thesis using s2(2) by (intro that [of Resumed s2]) simp_all
  next
    case False
    then show thesis using t pk by (intro that [of r s']) (auto simp: user_store_def outofmem_def)
  qed
qed

subsection \<open>Copying page tables\<close>

text \<open>What copying did so far: \<open>K\<close> are the pages that were ptes_copied.\<close>

definition ptes_copied :: "nat \<Rightarrow> nat \<Rightarrow> nat set \<Rightarrow> vmem \<Rightarrow> vmem \<Rightarrow> bool" where
  "ptes_copied x y K s s' \<longleftrightarrow> vm_data s' = vm_data s \<and> (\<forall>c. c \<noteq> x \<and> c \<noteq> y \<longrightarrow> vm_mm s' c = vm_mm s c) \<and>
     (\<forall>mx my. vm_mm s x = Some mx \<longrightarrow> vm_mm s y = Some my \<longrightarrow>
       (\<exists>px ty py. vm_mm s' x = Some (mx\<lparr>mm_pte := px\<rparr>) \<and> vm_mm s' y = Some (my\<lparr>mm_tab := ty, mm_pte := py\<rparr>) \<and>
         (\<forall>k. map_option p_frame (px k) = map_option p_frame (mm_pte mx k)) \<and>
         (\<forall>k. k \<in> K \<longrightarrow> map_option p_frame (py k) = map_option p_frame (mm_pte mx k)) \<and>
         (\<forall>k. k \<notin> K \<longrightarrow> py k = mm_pte my k)))"

lemma ptes_copied_trans:
  assumes a: "ptes_copied x y K s s1" and b: "ptes_copied x y L s1 s2" and e: "vm_mm s x = Some mx" "vm_mm s y = Some my"
  shows "ptes_copied x y (K \<union> L) s s2"
proof -
  obtain px ty py where 1: "vm_mm s1 x = Some (mx\<lparr>mm_pte := px\<rparr>)" "vm_mm s1 y = Some (my\<lparr>mm_tab := ty, mm_pte := py\<rparr>)"
    "\<forall>k. map_option p_frame (px k) = map_option p_frame (mm_pte mx k)"
    "\<forall>k. k \<in> K \<longrightarrow> map_option p_frame (py k) = map_option p_frame (mm_pte mx k)" "\<forall>k. k \<notin> K \<longrightarrow> py k = mm_pte my k"
    using a e unfolding ptes_copied_def by blast
  obtain qx uy qy where 2: "vm_mm s2 x = Some (mx\<lparr>mm_pte := px\<rparr>\<lparr>mm_pte := qx\<rparr>)"
    "vm_mm s2 y = Some (my\<lparr>mm_tab := ty, mm_pte := py\<rparr>\<lparr>mm_tab := uy, mm_pte := qy\<rparr>)"
    "\<forall>k. map_option p_frame (qx k) = map_option p_frame (mm_pte (mx\<lparr>mm_pte := px\<rparr>) k)"
    "\<forall>k. k \<in> L \<longrightarrow> map_option p_frame (qy k) = map_option p_frame (mm_pte (mx\<lparr>mm_pte := px\<rparr>) k)"
    "\<forall>k. k \<notin> L \<longrightarrow> qy k = mm_pte (my\<lparr>mm_tab := ty, mm_pte := py\<rparr>) k"
    using b 1(1,2) unfolding ptes_copied_def by blast
  have "\<forall>k. k \<in> K \<union> L \<longrightarrow> map_option p_frame (qy k) = map_option p_frame (mm_pte mx k)"
  proof (intro allI impI)
    fix k assume "k \<in> K \<union> L"
    then show "map_option p_frame (qy k) = map_option p_frame (mm_pte mx k)"
      using 1(3) 1(4) 2(4) 2(5) by (cases "k \<in> L") simp_all
  qed
  moreover have "\<forall>k. k \<notin> K \<union> L \<longrightarrow> qy k = mm_pte my k" using 1(5) 2(5) by simp
  moreover have "\<forall>k. map_option p_frame (qx k) = map_option p_frame (mm_pte mx k)" using 1(3) 2(3) by simp
  moreover have "vm_mm s2 x = Some (mx\<lparr>mm_pte := qx\<rparr>)" "vm_mm s2 y = Some (my\<lparr>mm_tab := uy, mm_pte := qy\<rparr>)" using 2(1,2) by simp_all
  ultimately show ?thesis using a b e unfolding ptes_copied_def by auto
qed

lemma ptes_copied_tab_step:
  assumes "tab_step y s s'" "x \<noteq> y"
  shows "ptes_copied x y {} s s'"
  unfolding ptes_copied_def
proof (intro conjI allI impI)
  fix mx my assume m: "vm_mm s x = Some mx" "vm_mm s y = Some my"
  obtain t where t: "vm_mm s' y = Some (my\<lparr>mm_tab := t\<rparr>)" using assms(1) m by (auto simp: tab_step_def)
  show "\<exists>px ty py. vm_mm s' x = Some (mx\<lparr>mm_pte := px\<rparr>) \<and> vm_mm s' y = Some (my\<lparr>mm_tab := ty, mm_pte := py\<rparr>) \<and>
         (\<forall>k. map_option p_frame (px k) = map_option p_frame (mm_pte mx k)) \<and>
         (\<forall>k. k \<in> {} \<longrightarrow> map_option p_frame (py k) = map_option p_frame (mm_pte mx k)) \<and>
         (\<forall>k. k \<notin> {} \<longrightarrow> py k = mm_pte my k)"
    using assms m t by (intro exI [of _ "mm_pte mx"] exI [of _ t] exI [of _ "mm_pte my"]) (simp add: tab_step_def)
qed (use assms in \<open>simp_all add: tab_step_def\<close>)
lemma ptes_copied_refl: "x \<noteq> y \<Longrightarrow> ptes_copied x y {} s s"
  by (rule ptes_copied_tab_step [OF tab_step_refl])

text \<open>Copying one entry.\<close>

lemma copy_entry:
  assumes inv: "core_inv X s" and xy: "x \<noteq> y" and mx: "vm_mm s x = Some mx" "mm_pte mx n = Some p"
    and my: "vm_mm s y = Some my" "mm_pte my n = None" "mm_tab my (n div 1024) \<noteq> None"
  obtains pm where "duppage (p_frame p) (vm_pm s) = Some pm"
    "core_inv X ((set_pte y n (Some (p\<lparr>p_w := False\<rparr>)) (set_pte x n (Some (p\<lparr>p_w := False\<rparr>)) s))\<lparr>vm_pm := pm\<rparr>)"
    "ptes_copied x y {n} s ((set_pte y n (Some (p\<lparr>p_w := False\<rparr>)) (set_pte x n (Some (p\<lparr>p_w := False\<rparr>)) s))\<lparr>vm_pm := pm\<rparr>)"
proof -
  let ?p = "p\<lparr>p_w := False\<rparr>" and ?f = "p_frame p"
  let ?s1 = "set_pte x n (Some ?p) s"
  let ?s2 = "set_pte y n (Some ?p) ?s1"
  note c = core_invD [OF inv]
  have x: "vslots s (x, SPte n) = Some ?f" using mx by (simp add: vslots_def)
  obtain pm where pm: "duppage ?f (vm_pm s) = Some pm" "pm_inv pm" "page_refs pm = (page_refs (vm_pm s))(?f := page_refs (vm_pm s) ?f + 1)"
    using pages.dup_law [OF c(1) accountsD(5) [OF c(2) x]] by blast
  have my1: "vm_mm ?s1 y = Some my" using my(1) xy by simp
  have sl1: "vslots ?s1 = vslots s" using vslots_set_pte(1) [OF mx(1), of n "Some ?p"] x by (simp add: fun_eq_iff)
  have ex1: "excl ?s1 \<subseteq> excl s - {(x, SPte n)}" by (rule vslots_set_pte(3) [OF mx(1)]) simp
  have sl2: "vslots ?s2 = (vslots s)((y, SPte n) \<mapsto> ?f)" using vslots_set_pte(1) [OF my1, of n "Some ?p"] sl1 by simp
  have ex2: "excl ?s2 \<subseteq> excl s - {(y, SPte n), (x, SPte n)}"
    using vslots_set_pte(3) [OF my1, of "Some ?p" n] ex1 by auto
  have "vslots s (y, SPte n) = None" using my by (simp add: vslots_def)
  from accounts_dup [OF c(2) x this ex2] have acc: "accounts X (page_refs pm) (vslots ?s2) (excl ?s2)" unfolding sl2 pm(3) .
  have tx: "tabs_ok (mx\<lparr>mm_pte := (mm_pte mx)(n \<mapsto> ?p)\<rparr>)" using c(4) [OF mx(1)] mx(2) by (auto simp: tabs_ok_def)
  have ty: "tabs_ok (my\<lparr>mm_pte := (mm_pte my)(n \<mapsto> ?p)\<rparr>)" using c(4) [OF my(1)] my(3) by (auto simp: tabs_ok_def)
  have e: "vm_mm ?s2 x = Some (mx\<lparr>mm_pte := (mm_pte mx)(n \<mapsto> ?p)\<rparr>)" "vm_mm ?s2 y = Some (my\<lparr>mm_pte := (mm_pte my)(n \<mapsto> ?p)\<rparr>)"
    "\<And>c. c \<noteq> x \<and> c \<noteq> y \<Longrightarrow> vm_mm ?s2 c = vm_mm s c" using mx my xy by simp_all
  have "tabs_ok m" if "vm_mm ?s2 a = Some m" for a m
    using that e(1,2) e(3) [of a] tx ty c(4) [of a m] xy mx(1) my(1) by (cases "a = x"; cases "a = y") auto
  then have "core_inv X (?s2\<lparr>vm_pm := pm\<rparr>)" using pm(2) acc c(3) unfolding core_inv_def by simp
  moreover have "ptes_copied x y {n} s (?s2\<lparr>vm_pm := pm\<rparr>)"
    unfolding ptes_copied_def
  proof (intro conjI allI impI)
    fix mx' my' assume "vm_mm s x = Some mx'" "vm_mm s y = Some my'"
    then have eq: "mx' = mx" "my' = my" using mx my by simp_all
    show "\<exists>px ty py. vm_mm (?s2\<lparr>vm_pm := pm\<rparr>) x = Some (mx'\<lparr>mm_pte := px\<rparr>) \<and> vm_mm (?s2\<lparr>vm_pm := pm\<rparr>) y = Some (my'\<lparr>mm_tab := ty, mm_pte := py\<rparr>) \<and>
         (\<forall>k. map_option p_frame (px k) = map_option p_frame (mm_pte mx' k)) \<and>
         (\<forall>k. k \<in> {n} \<longrightarrow> map_option p_frame (py k) = map_option p_frame (mm_pte mx' k)) \<and>
         (\<forall>k. k \<notin> {n} \<longrightarrow> py k = mm_pte my' k)"
      unfolding eq using e mx(2)
      by (intro exI [of _ "(mm_pte mx)(n \<mapsto> ?p)"] exI [of _ "mm_tab my"] exI [of _ "(mm_pte my)(n \<mapsto> ?p)"]) simp
  qed (use e in simp_all)
  ultimately show thesis using pm(1) by (intro that)
qed

lemma copypte_loop_ok:
  assumes "core_inv X s" "x \<noteq> y" "vm_mm s x = Some mx" "vm_mm s y = Some my" "to \<le> 768 * 1024" "\<forall>k. n \<le> k \<and> k < to \<longrightarrow> mm_pte my k = None"
  shows "\<exists>e s' K. copypte_loop x y n to s = Some (e, s') \<and> core_inv X s' \<and> ptes_copied x y K s s' \<and> K \<subseteq> {n..<to} \<and> (e = 0 \<or> e = ENOMEM) \<and>
    (e = 0 \<longrightarrow> (\<forall>k. n \<le> k \<and> k < to \<and> mm_pte mx k \<noteq> None \<longrightarrow> k \<in> K))"
  using assms
proof (induction "to - n" arbitrary: n s mx my rule: less_induct)
  case less
  note inv = less.prems(1) and xy = less.prems(2) and mx = less.prems(3) and my = less.prems(4)
  show ?case
  proof (cases "n < to")
    case False
    then have "copypte_loop x y n to s = Some (0, s)" by (simp add: copypte_loop.simps)
    then show ?thesis using inv ptes_copied_refl [OF xy] False by (intro exI [of _ 0] exI [of _ s] exI [of _ "{}"]) simp
  next
    case nt: True
    show ?thesis
    proof (cases "mm_tab mx (n div 1024) = None")
      case True
      have lt: "to - next_table n < to - n" using nt next_table_greater [of n] by linarith
      have eq: "copypte_loop x y n to s = copypte_loop x y (next_table n) to s"
        using nt mx True by (subst copypte_loop.simps) simp
      have gap: "mm_pte mx k = None" if "n \<le> k" "k < next_table n" for k
      proof -
        have "k div 1024 = n div 1024"
          using that less_mult_imp_div_less [of k "n div 1024 + 1" 1024] div_le_mono [of n k 1024] unfolding next_table_def by linarith
        then show ?thesis using core_invD(4) [OF inv mx] True by (cases "mm_pte mx k") (auto simp: tabs_ok_def)
      qed
      have "\<forall>k. next_table n \<le> k \<and> k < to \<longrightarrow> mm_pte my k = None"
        using less.prems(6) next_table_greater [of n] by (meson le_trans less_imp_le)
      from less.hyps [OF lt inv xy mx my less.prems(5) this]
      obtain e s' K where r: "copypte_loop x y (next_table n) to s = Some (e, s')" "core_inv X s'" "ptes_copied x y K s s'"
        "K \<subseteq> {next_table n..<to}" "e = 0 \<or> e = ENOMEM"
        "e = 0 \<longrightarrow> (\<forall>k. next_table n \<le> k \<and> k < to \<and> mm_pte mx k \<noteq> None \<longrightarrow> k \<in> K)" by blast
      have "K \<subseteq> {n..<to}" by (rule subset_trans [OF r(4)]) (simp add: less_imp_le [OF next_table_greater])
      moreover have "k \<in> K" if "e = 0" "n \<le> k" "k < to" "mm_pte mx k \<noteq> None" for k
        using that r(6) gap [of k] by (cases "k < next_table n") auto
      ultimately show ?thesis using r(1,2,3,5) eq by (intro exI [of _ e] exI [of _ s'] exI [of _ K]) simp
    next
      case False
      then obtain t0 where tab: "mm_tab mx (n div 1024) = Some t0" by blast
      have lt: "to - (n + 1) < to - n" using nt by linarith
      have "n < 768 * 1024" using nt less.prems(5) by linarith
      then obtain ok s1 where g: "getpte y n s = Some (ok, s1)" "core_inv X s1" "tab_step y s s1"
        "ok \<longrightarrow> (\<exists>t. vm_mm s1 y = Some (my\<lparr>mm_tab := t\<rparr>) \<and> t (n div 1024) \<noteq> None)"
        by (rule getpte_ok [OF inv my])
      note ct = ptes_copied_tab_step [OF g(3) xy]
      show ?thesis
      proof (cases ok)
        case False
        then have "copypte_loop x y n to s = Some (ENOMEM, s1)" using nt mx tab g(1) by (subst copypte_loop.simps) simp
        then show ?thesis using g(2) ct by (intro exI [of _ ENOMEM] exI [of _ s1] exI [of _ "{}"]) (simp add: errno_simps)
      next
        case True
        then obtain t where t: "vm_mm s1 y = Some (my\<lparr>mm_tab := t\<rparr>)" "t (n div 1024) \<noteq> None" using g(4) by blast
        have mx1: "vm_mm s1 x = Some mx" using g(3) mx xy by (simp add: tab_step_def)
        have my1: "mm_pte (my\<lparr>mm_tab := t\<rparr>) n = None" using less.prems(6) nt by simp
        have tt: "mm_tab (my\<lparr>mm_tab := t\<rparr>) (n div 1024) \<noteq> None" using t(2) by simp
        have step: "\<exists>s2 L. copypte_loop x y n to s = copypte_loop x y (n + 1) to s2 \<and> core_inv X s2 \<and> ptes_copied x y L s s2 \<and>
          L \<subseteq> {n} \<and> (mm_pte mx n \<noteq> None \<longrightarrow> n \<in> L)"
        proof (cases "mm_pte mx n")
          case None
          have id: "set_pte y n None s1 = s1" using t(1) my1 by (simp add: set_pte_def mm_upd_def fun_upd_idem)
          have "copypte_loop x y n to s = copypte_loop x y (n + 1) to s1"
            using nt mx tab g(1) True None id by (subst copypte_loop.simps) simp
          then show ?thesis using g(2) ct None by blast
        next
          case (Some p)
          obtain pm where pm: "duppage (p_frame p) (vm_pm s1) = Some pm"
            "core_inv X ((set_pte y n (Some (p\<lparr>p_w := False\<rparr>)) (set_pte x n (Some (p\<lparr>p_w := False\<rparr>)) s1))\<lparr>vm_pm := pm\<rparr>)"
            "ptes_copied x y {n} s1 ((set_pte y n (Some (p\<lparr>p_w := False\<rparr>)) (set_pte x n (Some (p\<lparr>p_w := False\<rparr>)) s1))\<lparr>vm_pm := pm\<rparr>)"
            by (rule copy_entry [OF g(2) xy mx1 Some t(1) my1 tt])
          have "copypte_loop x y n to s = copypte_loop x y (n + 1) to ((set_pte y n (Some (p\<lparr>p_w := False\<rparr>)) (set_pte x n (Some (p\<lparr>p_w := False\<rparr>)) s1))\<lparr>vm_pm := pm\<rparr>)"
            using nt mx tab g(1) True Some pm(1) by (subst copypte_loop.simps) (simp add: Let_def)
          moreover have "ptes_copied x y {n} s ((set_pte y n (Some (p\<lparr>p_w := False\<rparr>)) (set_pte x n (Some (p\<lparr>p_w := False\<rparr>)) s1))\<lparr>vm_pm := pm\<rparr>)"
            using ptes_copied_trans [OF ct pm(3) mx my] by simp
          ultimately show ?thesis using pm(2) by blast
        qed
        then obtain s2 L where s2: "copypte_loop x y n to s = copypte_loop x y (n + 1) to s2" "core_inv X s2" "ptes_copied x y L s s2"
          "L \<subseteq> {n}" "mm_pte mx n \<noteq> None \<longrightarrow> n \<in> L" by blast
        obtain px ty py where e: "vm_mm s2 x = Some (mx\<lparr>mm_pte := px\<rparr>)" "vm_mm s2 y = Some (my\<lparr>mm_tab := ty, mm_pte := py\<rparr>)"
          "\<forall>k. map_option p_frame (px k) = map_option p_frame (mm_pte mx k)" "\<forall>k. k \<notin> L \<longrightarrow> py k = mm_pte my k"
          using s2(3) mx my unfolding ptes_copied_def by blast
        have "\<forall>k. n + 1 \<le> k \<and> k < to \<longrightarrow> mm_pte (my\<lparr>mm_tab := ty, mm_pte := py\<rparr>) k = None"
        proof (intro allI impI)
          fix k assume k: "n + 1 \<le> k \<and> k < to"
          then have "k \<notin> L" using s2(4) by auto
          then show "mm_pte (my\<lparr>mm_tab := ty, mm_pte := py\<rparr>) k = None" using k e(4) less.prems(6) by simp
        qed
        from less.hyps [OF lt s2(2) xy e(1,2) less.prems(5) this]
        obtain e' s' K where r: "copypte_loop x y (n + 1) to s2 = Some (e', s')" "core_inv X s'" "ptes_copied x y K s2 s'" "K \<subseteq> {n + 1..<to}"
          "e' = 0 \<or> e' = ENOMEM" "e' = 0 \<longrightarrow> (\<forall>k. n + 1 \<le> k \<and> k < to \<and> px k \<noteq> None \<longrightarrow> k \<in> K)" by auto
        have pn: "px k \<noteq> None \<longleftrightarrow> mm_pte mx k \<noteq> None" for k using e(3) [rule_format, of k] by (cases "px k"; cases "mm_pte mx k") simp_all
        have "k \<in> L \<union> K" if "e' = 0" "n \<le> k" "k < to" "mm_pte mx k \<noteq> None" for k
          using that r(6) pn s2(5) by (cases "k = n") auto
        moreover have "L \<union> K \<subseteq> {n..<to}" using r(4) s2(4) nt by auto
        moreover have "ptes_copied x y (L \<union> K) s s'" by (rule ptes_copied_trans [OF s2(3) r(3) mx my])
        ultimately show ?thesis using r(1,2,5) s2(1) by (intro exI [of _ e'] exI [of _ s'] exI [of _ "L \<union> K"]) simp
      qed
    qed
  qed
qed
subsection \<open>Cloning an address space\<close>

definition spages :: "seg list \<Rightarrow> nat set" where
  "spages q = {k. \<exists>sg\<in>set q. sg_start sg div PAGESZ \<le> k \<and> k < sg_end sg div PAGESZ}"

lemma spages_simps [simp]:
  "spages [] = {}" "spages (q @ [sg]) = spages q \<union> {sg_start sg div PAGESZ..<sg_end sg div PAGESZ}"
  by (auto simp: spages_def)

lemma mm_contain_spages: "mm_contain (n * PAGESZ) m = Some i \<Longrightarrow> segs_ok (mm_segq m) \<Longrightarrow> n \<in> spages (mm_segq m)"
proof -
  assume "mm_contain (n * PAGESZ) m = Some i" "segs_ok (mm_segq m)"
  then have i: "i < length (mm_segq m)" "sg_start (mm_segq m ! i) \<le> n * PAGESZ" "n * PAGESZ < sg_end (mm_segq m ! i)"
    "sg_start (mm_segq m ! i) mod PAGESZ = 0" "sg_end (mm_segq m ! i) mod PAGESZ = 0"
    using containD [of "n * PAGESZ" m i] by (auto simp: segs_ok_def)
  have "sg_start (mm_segq m ! i) div PAGESZ \<le> n" using div_le_mono [OF i(2), of PAGESZ] by (simp add: PAGESZ_def)
  moreover have "n < sg_end (mm_segq m ! i) div PAGESZ" using i(3,5) by (auto simp: PAGESZ_def elim!: dvdE simp flip: dvd_eq_mod_eq_0)
  ultimately show ?thesis using nth_mem [OF i(1)] unfolding spages_def by blast
qed

definition mirrors :: "seg list \<Rightarrow> mm \<Rightarrow> mm \<Rightarrow> bool" where
  "mirrors q mx my \<longleftrightarrow> (\<forall>k. k \<in> spages q \<longrightarrow> map_option p_frame (mm_pte my k) = map_option p_frame (mm_pte mx k)) \<and>
     (\<forall>k. k \<notin> spages q \<longrightarrow> mm_pte my k = None)"

lemma hold_core [simp]:
  "vm_mm (hold_inode i s) = vm_mm s" "vm_data (hold_inode i s) = vm_data s" "vm_pm (hold_inode i s) = vm_pm s"
  "core_inv X (hold_inode i s) = core_inv X s" "ptes_copied x y K (hold_inode i s) s' = ptes_copied x y K s s'"
  by (cases i; simp add: hold_inode_def core_inv_def ptes_copied_def)+

lemma upd_core:
  assumes "core_inv X s" and f: "\<And>m. mm_pte (f m) = mm_pte m" "\<And>m. mm_tab (f m) = mm_tab m" "\<And>m. mm_pgd (f m) = mm_pgd m"
    "\<And>m. mm_kstack (f m) = mm_kstack m"
  shows "core_inv X (mm_upd a f s)"
proof -
  let ?s = "mm_upd a f s"
  note c = core_invD [OF assms(1)]
  have "vslots ?s (b, k) = vslots s (b, k)" for b k
    by (cases "b = a"; cases "vm_mm s a"; cases k) (simp_all add: vslots_def f)
  then have sl: "vslots ?s = vslots s" by (simp add: fun_eq_iff)
  have "writable ?s b n = writable s b n" for b n by (cases "b = a"; cases "vm_mm s a") (simp_all add: writable_def f)
  then have "writable ?s = writable s" by (simp add: fun_eq_iff)
  then have "excl ?s = excl s" by (simp add: excl_def cong: vslot.case_cong)
  moreover have "tabs_ok m" if "vm_mm ?s b = Some m" for b m
    using that c(4) [of b] by (cases "b = a"; cases "vm_mm s a") (auto simp: tabs_ok_def f)
  ultimately show ?thesis using sl c(1-3) unfolding core_inv_def by simp
qed

lemma segq_core: "core_inv X s \<Longrightarrow> core_inv X (mm_upd a (\<lambda>m. m\<lparr>mm_segq := q m\<rparr>) s)"
  by (rule upd_core) simp_all

lemma copypte_ok:
  assumes "core_inv X s" "x \<noteq> y" "vm_mm s x = Some mx" "vm_mm s y = Some my" "segs_ok q" "sg \<in> set q"
    "\<forall>k. sg_start sg div PAGESZ \<le> k \<and> k < sg_end sg div PAGESZ \<longrightarrow> mm_pte my k = None"
  obtains e s' K where "copypte x y (sg_start sg) (sg_end sg) s = Some (e, s')" "core_inv X s'" "ptes_copied x y K s s'"
    "K \<subseteq> {sg_start sg div PAGESZ..<sg_end sg div PAGESZ}" "e = 0 \<or> e = ENOMEM"
    "e = 0 \<longrightarrow> (\<forall>k. sg_start sg div PAGESZ \<le> k \<and> k < sg_end sg div PAGESZ \<and> mm_pte mx k \<noteq> None \<longrightarrow> k \<in> K)"
proof -
  have sg: "sg_start sg mod PAGESZ = 0" "sg_end sg mod PAGESZ = 0" "sg_start sg \<le> sg_end sg" "sg_end sg \<le> USEREND"
    using assms(5,6) by (auto simp: segs_ok_def)
  have "sg_end sg div PAGESZ \<le> USEREND div PAGESZ" using sg(4) by (rule div_le_mono)
  also have "\<dots> = 768 * 1024" by (simp add: USEREND_def mm_consts)
  finally have to: "sg_end sg div PAGESZ \<le> 768 * 1024" .
  show thesis using copypte_loop_ok [OF assms(1-4) to assms(7)] sg(1-3) by (auto simp: copypte_def intro: that)
qed
lemma segs_ok_app:
  assumes "segs_ok (q @ sg # r)"
  shows "segs_ok q" "segs_ok (q @ [sg])" "k \<in> spages q \<Longrightarrow> k < sg_start sg div PAGESZ"
proof -
  show "segs_ok q" "segs_ok (q @ [sg])" using assms by (auto simp: segs_ok_def sorted_wrt_append)
  assume "k \<in> spages q"
  then obtain d where d: "d \<in> set q" "k < sg_end d div PAGESZ" by (auto simp: spages_def)
  then have "sg_end d \<le> sg_start sg" using assms by (auto simp: segs_ok_def sorted_wrt_append)
  then show "k < sg_start sg div PAGESZ" using d(2) div_le_mono [of "sg_end d" "sg_start sg" PAGESZ] by linarith
qed

lemma mirrors_more:
  assumes mi: "mirrors q mx my" and ok: "segs_ok (q @ sg # r)" and K: "K \<subseteq> {sg_start sg div PAGESZ..<sg_end sg div PAGESZ}"
    and all: "\<forall>k. sg_start sg div PAGESZ \<le> k \<and> k < sg_end sg div PAGESZ \<and> mm_pte mx k \<noteq> None \<longrightarrow> k \<in> K"
    and px: "\<forall>k. map_option p_frame (px k) = map_option p_frame (mm_pte mx k)"
    and py: "\<forall>k. k \<in> K \<longrightarrow> map_option p_frame (py k) = map_option p_frame (mm_pte mx k)" "\<forall>k. k \<notin> K \<longrightarrow> py k = mm_pte my k"
  shows "mirrors (q @ [sg]) (mx\<lparr>mm_pte := px\<rparr>) (my'\<lparr>mm_pte := py\<rparr>)"
  unfolding mirrors_def
proof (intro conjI allI impI)
  fix k assume k: "k \<in> spages (q @ [sg])"
  show "map_option p_frame (mm_pte (my'\<lparr>mm_pte := py\<rparr>) k) = map_option p_frame (mm_pte (mx\<lparr>mm_pte := px\<rparr>) k)"
  proof (cases "k \<in> K")
    case False
    show ?thesis
    proof (cases "k \<in> spages q")
      case True
      then show ?thesis using False mi px py(2) by (simp add: mirrors_def)
    next
      case nq: False
      then have "mm_pte mx k = None" using False k all by auto
      moreover have "px k = None" using px [rule_format, of k] calculation by simp
      moreover have "mm_pte my k = None" using nq mi by (simp add: mirrors_def)
      ultimately show ?thesis using False py(2) by simp
    qed
  qed (use px py(1) in simp)
next
  fix k assume k: "k \<notin> spages (q @ [sg])"
  then have "k \<notin> K" using K by auto
  then show "mm_pte (my'\<lparr>mm_pte := py\<rparr>) k = None" using k py(2) mi by (simp add: mirrors_def)
qed

lemma clone_segs_ok:
  assumes "core_inv X s" "x \<noteq> y" "vm_mm s x = Some mx" "vm_mm s y = Some my" "segs_ok (mm_segq my @ sgs)" "mirrors (mm_segq my) mx my"
  shows "\<exists>e s' px my'. clone_segs x y sgs s = Some (e, s') \<and> core_inv X s' \<and> vm_data s' = vm_data s \<and>
    (\<forall>c. c \<noteq> x \<and> c \<noteq> y \<longrightarrow> vm_mm s' c = vm_mm s c) \<and> vm_mm s' x = Some (mx\<lparr>mm_pte := px\<rparr>) \<and>
    (\<forall>k. map_option p_frame (px k) = map_option p_frame (mm_pte mx k)) \<and> vm_mm s' y = Some my' \<and> segs_ok (mm_segq my') \<and>
    (e = 0 \<or> e = ENOMEM) \<and> (e = 0 \<longrightarrow> mm_segq my' = mm_segq my @ sgs \<and> mirrors (mm_segq my') mx my')"
  using assms
proof (induction sgs arbitrary: s mx my)
  case Nil
  have "mx = mx\<lparr>mm_pte := mm_pte mx\<rparr>" by simp
  then show ?case using Nil by (intro exI [of _ 0] exI [of _ s] exI [of _ "mm_pte mx"] exI [of _ my]) simp
next
  case (Cons sg sgs)
  let ?s = "hold_inode (sg_inode sg) s" and ?q = "mm_segq my"
  note ok = segs_ok_app [OF Cons.prems(5)]
  have free: "\<forall>k. sg_start sg div PAGESZ \<le> k \<and> k < sg_end sg div PAGESZ \<longrightarrow> mm_pte my k = None"
    using ok(3) Cons.prems(6) unfolding mirrors_def by (meson not_le)
  have h: "core_inv X ?s" "vm_mm ?s x = Some mx" "vm_mm ?s y = Some my" "sg \<in> set (?q @ sg # sgs)" using Cons.prems by simp_all
  obtain e s1 K where c: "copypte x y (sg_start sg) (sg_end sg) ?s = Some (e, s1)" "core_inv X s1" "ptes_copied x y K ?s s1"
    "K \<subseteq> {sg_start sg div PAGESZ..<sg_end sg div PAGESZ}" "e = 0 \<or> e = ENOMEM"
    "e = 0 \<longrightarrow> (\<forall>k. sg_start sg div PAGESZ \<le> k \<and> k < sg_end sg div PAGESZ \<and> mm_pte mx k \<noteq> None \<longrightarrow> k \<in> K)"
    by (rule copypte_ok [OF h(1) Cons.prems(2) h(2,3) Cons.prems(5) h(4) free])
  obtain px ty py where e: "vm_mm s1 x = Some (mx\<lparr>mm_pte := px\<rparr>)" "vm_mm s1 y = Some (my\<lparr>mm_tab := ty, mm_pte := py\<rparr>)"
    "\<forall>k. map_option p_frame (px k) = map_option p_frame (mm_pte mx k)"
    "\<forall>k. k \<in> K \<longrightarrow> map_option p_frame (py k) = map_option p_frame (mm_pte mx k)" "\<forall>k. k \<notin> K \<longrightarrow> py k = mm_pte my k"
    using c(3) Cons.prems(3,4) unfolding ptes_copied_def hold_core by blast
  have o: "vm_data s1 = vm_data s" "\<forall>c. c \<noteq> x \<and> c \<noteq> y \<longrightarrow> vm_mm s1 c = vm_mm s c" using c(3) by (simp_all add: ptes_copied_def)
  show ?case
  proof (cases "e = 0")
    case False
    then have "clone_segs x y (sg # sgs) s = Some (ENOMEM, s1)" using c(1,5) by simp
    then show ?thesis using c(2) e(1-3) o ok(1)
      by (intro exI [of _ ENOMEM] exI [of _ s1] exI [of _ px] exI [of _ "my\<lparr>mm_tab := ty, mm_pte := py\<rparr>"]) (simp add: errno_simps)
  next
    case True
    let ?s2 = "mm_upd y (\<lambda>m. m\<lparr>mm_segq := mm_segq m @ [sg]\<rparr>) s1"
    let ?my = "my\<lparr>mm_tab := ty, mm_segq := ?q @ [sg], mm_pte := py\<rparr>"
    have m2: "vm_mm ?s2 x = Some (mx\<lparr>mm_pte := px\<rparr>)" "vm_mm ?s2 y = Some ?my" using e(1,2) Cons.prems(2) by simp_all
    have "mirrors (?q @ [sg]) (mx\<lparr>mm_pte := px\<rparr>) ?my"
      using True c(6) by (intro mirrors_more [OF Cons.prems(6,5) c(4) _ e(3-5)]) simp
    then have mi: "mirrors (mm_segq ?my) (mx\<lparr>mm_pte := px\<rparr>) ?my" by simp
    have q: "segs_ok (mm_segq ?my @ sgs)" using Cons.prems(5) by simp
    obtain e' s' qx my' where r: "clone_segs x y sgs ?s2 = Some (e', s')" "core_inv X s'" "vm_data s' = vm_data ?s2"
      "\<forall>c. c \<noteq> x \<and> c \<noteq> y \<longrightarrow> vm_mm s' c = vm_mm ?s2 c" "vm_mm s' x = Some (mx\<lparr>mm_pte := px\<rparr>\<lparr>mm_pte := qx\<rparr>)"
      "\<forall>k. map_option p_frame (qx k) = map_option p_frame (mm_pte (mx\<lparr>mm_pte := px\<rparr>) k)" "vm_mm s' y = Some my'" "segs_ok (mm_segq my')"
      "e' = 0 \<or> e' = ENOMEM" "e' = 0 \<longrightarrow> mm_segq my' = mm_segq ?my @ sgs \<and> mirrors (mm_segq my') (mx\<lparr>mm_pte := px\<rparr>) my'"
      using Cons.IH [OF segq_core [OF c(2)] Cons.prems(2) m2 q mi] by blast
    have "clone_segs x y (sg # sgs) s = Some (e', s')" using c(1) r(1) True by simp
    moreover have "e' = 0 \<longrightarrow> mm_segq my' = ?q @ sg # sgs \<and> mirrors (?q @ sg # sgs) mx my'" using r(10) e(3) by (simp add: mirrors_def)
    ultimately show ?thesis using r(2-9) e(3) o by (intro exI [of _ e'] exI [of _ s'] exI [of _ qx] exI [of _ my']) simp
  qed
qed
text \<open>A new address space.\<close>

lemma mm_init_ok:
  assumes inv: "core_inv X s" and y: "vm_mm s y = None"
  obtains s' L where "mm_init y s = Some (False, s')" "core_inv (\<lambda>f. X f + count_list L f) s'" "length L \<le> 1" "vm_mm s' = vm_mm s" "vm_data s' = vm_data s"
  | s' m where "mm_init y s = Some (True, s')" "core_inv X s'" "vm_mm s' = (vm_mm s)(y \<mapsto> m)" "vm_data s' = vm_data s"
      "mm_segq m = []" "mm_pte m = (\<lambda>_. None)"
proof (rule core_alloc [OF inv valid_user(4)])
  assume "page_alloc (AKERN OR ACLEAR) (vm_pm s) = Some (None, vm_pm s)"
  then show thesis using inv by (intro that(1) [of s "[]"]) (simp_all add: mm_init_def)
next
  fix g pm
  assume g: "page_alloc (AKERN OR ACLEAR) (vm_pm s) = Some (Some g, pm)" "pm_inv pm" "page_refs (vm_pm s) g = 0"
    "page_refs pm = (page_refs (vm_pm s))(g := 1)" "\<And>x. vslots s x \<noteq> Some g"
  let ?s1 = "s\<lparr>vm_pm := pm\<rparr>"
  note tk = core_take [OF inv g(2-4)] and c = core_invD [OF inv]
  show thesis
  proof (rule core_alloc [OF tk(1) valid_user(3)])
    assume "page_alloc AKERN (vm_pm ?s1) = Some (None, vm_pm ?s1)"
    moreover have "(\<lambda>f. X f + count_list [g] f) = X(g := 1)"
      using accountsD(2) [OF c(2), of g] g(3) by (auto simp: fun_eq_iff)
    ultimately show thesis using tk(1) g(1) by (intro that(1) [of ?s1 "[g]"]) (simp_all add: mm_init_def)
  next
    fix k pm2
    assume k: "page_alloc AKERN (vm_pm ?s1) = Some (Some k, pm2)" "pm_inv pm2" "page_refs (vm_pm ?s1) k = 0"
      "page_refs pm2 = (page_refs (vm_pm ?s1))(k := 1)" "\<And>x. vslots ?s1 x \<noteq> Some k"
    let ?m = "\<lparr>mm_onfault = 0, mm_segq = [], mm_pgd = g, mm_tab = (\<lambda>_. None), mm_pte = (\<lambda>_. None), mm_kstack = k\<rparr>"
    let ?s2 = "s\<lparr>vm_pm := pm2, vm_mm := (vm_mm s)(y \<mapsto> ?m)\<rparr>"
    have no: "vslots s (y, z) = None" for z using y by (simp add: vslots_def)
    have "vslots ?s2 (b, z) = ((vslots s)((y, SPgd) \<mapsto> g, (y, SKst) \<mapsto> k)) (b, z)" for b z
      using y by (cases "b = y"; cases z) (simp_all add: vslots_def)
    then have sl: "vslots ?s2 = (vslots s)((y, SPgd) \<mapsto> g, (y, SKst) \<mapsto> k)" by (simp add: fun_eq_iff)
    have "writable ?s2 b n = writable s b n" for b n using y by (simp add: writable_def)
    then have "writable ?s2 = writable s" by (simp add: fun_eq_iff)
    then have ex: "excl ?s2 = excl s" by (simp add: excl_def cong: vslot.case_cong)
    have a1: "accounts X ((page_refs (vm_pm s))(g := 1)) ((vslots s)((y, SPgd) \<mapsto> g)) (excl s)"
      using no by (intro accounts_new [OF c(2) _ g(3)]) auto
    have "accounts X (((page_refs (vm_pm s))(g := 1))(k := 1)) ((vslots s)((y, SPgd) \<mapsto> g, (y, SKst) \<mapsto> k)) (excl s)"
      by (rule accounts_new [OF a1]) (use no k(3) g(4) in auto)
    then have "accounts X (page_refs pm2) (vslots ?s2) (excl ?s2)" using sl ex k(4) g(4) by simp
    moreover have "tabs_ok ?m" by (simp add: tabs_ok_def)
    ultimately have "core_inv X ?s2" using k(2) c(3,4) unfolding core_inv_def by simp
    moreover have "mm_init y s = Some (True, ?s2)" using g(1) k(1) by (simp add: mm_init_def Let_def)
    ultimately show thesis by (intro that(2) [of ?s2 ?m]) simp_all
  qed
qed

text \<open>What a clone sees is what the original sees.\<close>

lemma clone_ok:
  assumes inv: "vm_inv X s" and x: "vm_mm s x = Some mx" and y: "vm_mm s y = None"
  obtains r s' L where "mm_clone x y s = Some (r, s')" "vm_inv (\<lambda>f. X f + count_list L f) s'" "length L \<le> (if r = Some 0 then 0 else 1)" "\<forall>c. c \<noteq> y \<longrightarrow> peek rd s' c = peek rd s c"
    "r = Some 0 \<longrightarrow> peek rd s' y = peek rd s x"
proof -
  have xy: "x \<noteq> y" using x y by auto
  note c = vm_invD(1) [OF inv]
  show thesis
  proof (rule mm_init_ok [OF c y])
    fix s' L assume s': "mm_init y s = Some (False, s')" "core_inv (\<lambda>f. X f + count_list L f) s'" "length L \<le> 1" "vm_mm s' = vm_mm s" "vm_data s' = vm_data s"
    have "vm_inv (\<lambda>f. X f + count_list L f) s'" using s'(4) by (intro vm_invI [OF inv s'(2)]) (simp add: same_segs_def)
    moreover have "peek rd s' d = peek rd s d" for d using s'(4,5) by (simp add: peek_def ppage_def fun_eq_iff cong: option.case_cong)
    ultimately show thesis using s'(1,3) by (intro that [of None s' L]) (simp_all add: mm_clone_def)
  next
    fix s1 my assume s1: "mm_init y s = Some (True, s1)" "core_inv X s1" "vm_mm s1 = (vm_mm s)(y \<mapsto> my)" "vm_data s1 = vm_data s"
      "mm_segq my = []" "mm_pte my = (\<lambda>_. None)"
    have m: "vm_mm s1 x = Some mx" "vm_mm s1 y = Some my" using s1(3) x xy by simp_all
    have q: "segs_ok (mm_segq my @ mm_segq mx)" using s1(5) vm_invD(2) [OF inv x] by simp
    have mi: "mirrors (mm_segq my) mx my" using s1(5,6) by (simp add: mirrors_def)
    obtain e s' px my' where r: "clone_segs x y (mm_segq mx) s1 = Some (e, s')" "core_inv X s'" "vm_data s' = vm_data s1"
      "\<forall>c. c \<noteq> x \<and> c \<noteq> y \<longrightarrow> vm_mm s' c = vm_mm s1 c" "vm_mm s' x = Some (mx\<lparr>mm_pte := px\<rparr>)"
      "\<forall>k. map_option p_frame (px k) = map_option p_frame (mm_pte mx k)" "vm_mm s' y = Some my'" "segs_ok (mm_segq my')"
      "e = 0 \<longrightarrow> mm_segq my' = mm_segq my @ mm_segq mx \<and> mirrors (mm_segq my') mx my'"
      using clone_segs_ok [OF s1(2) xy m q mi] by blast
    have "segs_ok (mm_segq m')" if "vm_mm s' a = Some m'" for a m'
    proof -
      consider "a = x" | "a = y" | "a \<noteq> x" "a \<noteq> y" by blast
      then show ?thesis
      proof cases
        case 1
        then show ?thesis using that r(5) vm_invD(2) [OF inv x] by auto
      next
        case 2
        then show ?thesis using that r(7,8) by simp
      next
        case 3
        then have "vm_mm s a = Some m'" using that r(4) s1(3) by simp
        then show ?thesis by (rule vm_invD(2) [OF inv])
      qed
    qed
    then have inv': "vm_inv X s'" using r(2) unfolding vm_inv_def by blast
    have pgx: "ppage rd s' x n = ppage rd s x n" for n
      using r(3,6) s1(4) by (intro ppage_cong [OF x r(5)]) simp_all
    have pgo: "ppage rd s' d n = ppage rd s d n" if "d \<noteq> y" for d n
    proof (cases "d = x")
      case False
      show ?thesis by (rule ppage_same) (use False that r(3,4) s1(3,4) in simp_all)
    qed (simp add: pgx)
    have pgy: "ppage rd s' y n = ppage rd s x n" if e: "e = 0" for n
    proof -
      have q: "mm_segq my' = mm_segq mx" using e r(9) s1(5) by simp
      have mi: "mirrors (mm_segq mx) mx my'" using e r(9) unfolding q [symmetric] by simp
      show ?thesis
      proof (rule ppage_cong2 [OF x r(7) q])
        assume "mm_contain (n * PAGESZ) mx \<noteq> None"
        then have "n \<in> spages (mm_segq mx)" using mm_contain_spages [OF _ vm_invD(2) [OF inv x]] by blast
        then show "map_option p_frame (mm_pte my' n) = map_option p_frame (mm_pte mx n)" using mi by (simp add: mirrors_def)
      qed (simp add: r(3) s1(4))
    qed
    have "mm_clone x y s = Some (Some e, s')" using s1(1) m(1) r(1) by (simp add: mm_clone_def)
    then show thesis using inv' pgo pgy by (intro that [of "Some e" s' "[]"]) (simp_all add: peek_def fun_eq_iff)
  qed
qed
subsection \<open>Processes that store, load and fork\<close>

datatype vmop = Store nat nat u8 | Load nat nat | Fork nat nat

datatype vmres = Done | Got u8 | Failed | Skipped

text \<open>
  A process stores to writable segments, loads from its segments, and forks into an unused place.  \<open>Failed\<close> is a
  signal for lack of memory or a fork that returned an error.
\<close>

definition vm_step :: "rdfun \<Rightarrow> nat \<Rightarrow> vmop \<Rightarrow> vmem \<Rightarrow> (vmres \<times> vmem) option" where
  "vm_step rd esp x s = (case x of
     Store a v b \<Rightarrow> if may_store a v s
       then do { (r, s1) \<leftarrow> user_store rd a esp v b s; Some (if r = Resumed then Done else Failed, s1) } else Some (Skipped, s)
   | Load a v \<Rightarrow> if may_load a v s
       then do { ((r, b), s1) \<leftarrow> user_load rd a esp v s; Some (if r = Resumed then Got b else Failed, s1) } else Some (Skipped, s)
   | Fork a c \<Rightarrow> if vm_mm s a \<noteq> None \<and> vm_mm s c = None
       then do { (r, s1) \<leftarrow> mm_clone a c s; Some (if r = Some 0 then Done else Failed, s1) } else Some (Skipped, s))"

fun vm_run :: "rdfun \<Rightarrow> nat \<Rightarrow> vmop list \<Rightarrow> vmem \<Rightarrow> (vmres list \<times> vmem) option" where
  "vm_run rd esp [] s = Some ([], s)"
| "vm_run rd esp (x # xs) s = do { (r, s1) \<leftarrow> vm_step rd esp x s; (rs, s2) \<leftarrow> vm_run rd esp xs s1; Some (r # rs, s2) }"

text \<open>
  The memories \<open>M\<close> of processes that share nothing.  A touched page may determine bytes that were not.
\<close>

fun private_step :: "vmop \<Rightarrow> vmres \<Rightarrow> memories \<Rightarrow> memories \<Rightarrow> bool" where
  "private_step (Store a v b) Done M M' \<longleftrightarrow> (\<exists>M1. mem_le M M1 \<and> M' = M1(a := (M1 a)(v \<mapsto> Some b)))"
| "private_step (Load a v) (Got b) M M' \<longleftrightarrow> mem_le M M' \<and> M' a v = Some (Some b)"
| "private_step (Fork a c) Done M M' \<longleftrightarrow> M' = M(c := M a)"
| "private_step (Fork a c) Failed M M' \<longleftrightarrow> (\<forall>d. d \<noteq> c \<longrightarrow> M' d = M d)"
| "private_step x Failed M M' \<longleftrightarrow> mem_le M M'"
| "private_step x Skipped M M' \<longleftrightarrow> M' = M"
| "private_step _ _ M M' \<longleftrightarrow> False"

fun private_run :: "vmop list \<Rightarrow> vmres list \<Rightarrow> memories \<Rightarrow> memories \<Rightarrow> bool" where
  "private_run [] [] M M' \<longleftrightarrow> M' = M"
| "private_run (x # xs) (r # rs) M M' \<longleftrightarrow> (\<exists>M1. private_step x r M M1 \<and> private_run xs rs M1 M')"
| "private_run _ _ M M' \<longleftrightarrow> False"

text \<open>The forks that failed.\<close>

fun failed_forks :: "vmop list \<Rightarrow> vmres list \<Rightarrow> nat" where
  "failed_forks (Fork a c # xs) (Failed # rs) = Suc (failed_forks xs rs)"
| "failed_forks (x # xs) (r # rs) = failed_forks xs rs"
| "failed_forks _ _ = 0"

lemma failed_forks_Cons:
  "failed_forks (x # xs) (r # rs) = (if (\<exists>a c. x = Fork a c) \<and> r = Failed then 1 else 0) + failed_forks xs rs"
  by (cases x; cases r) simp_all

lemma vm_step_ok:
  assumes inv: "vm_inv X s"
  obtains r s' L where "vm_step rd esp x s = Some (r, s')" "vm_inv (\<lambda>f. X f + count_list L f) s'" "private_step x r (peek rd s) (peek rd s')"
    "length L \<le> (if (\<exists>a c. x = Fork a c) \<and> r = Failed then 1 else 0)"
proof (cases x)
  case (Store a v b)
  show thesis
  proof (cases "may_store a v s")
    case True
    obtain r s' where r: "user_store rd a esp v b s = Some (r, s')" "vm_inv X s'"
      "r = Segv \<and> mem_le (peek rd s) (peek rd s') \<or>
       r = Resumed \<and> (\<exists>M. mem_le (peek rd s) M \<and> peek rd s' = M(a := (M a)(v \<mapsto> Some b)))"
      by (rule user_store_ok [OF inv True])
    then show thesis using Store True by (intro that [of "if r = Resumed then Done else Failed" s' "[]"]) (auto simp: vm_step_def)
  qed (use Store inv in \<open>auto simp: vm_step_def intro: that [of Skipped s "[]"]\<close>)
next
  case (Load a v)
  show thesis
  proof (cases "may_load a v s")
    case True
    obtain r b s' where r: "user_load rd a esp v s = Some ((r, b), s')" "vm_inv X s'" "mem_le (peek rd s) (peek rd s')"
      "r = Segv \<or> r = Resumed \<and> peek rd s' a v = Some (Some b)"
      by (rule load_ok [OF inv True])
    then show thesis using Load True by (intro that [of "if r = Resumed then Got b else Failed" s' "[]"]) (auto simp: vm_step_def)
  qed (use Load inv in \<open>auto simp: vm_step_def intro: that [of Skipped s "[]"]\<close>)
next
  case (Fork a c)
  show thesis
  proof (cases "vm_mm s a \<noteq> None \<and> vm_mm s c = None")
    case True
    then obtain m where m: "vm_mm s a = Some m" and c: "vm_mm s c = None" by blast
    obtain r s' L where r: "mm_clone a c s = Some (r, s')" "vm_inv (\<lambda>f. X f + count_list L f) s'" "length L \<le> (if r = Some 0 then 0 else 1)"
      "\<forall>d. d \<noteq> c \<longrightarrow> peek rd s' d = peek rd s d" "r = Some 0 \<longrightarrow> peek rd s' c = peek rd s a"
      by (rule clone_ok [OF inv m c])
    have "r = Some 0 \<Longrightarrow> peek rd s' = (peek rd s)(c := peek rd s a)" using r(4,5) by (simp add: fun_eq_iff)
    then show thesis using Fork True r(1-4)
      by (intro that [of "if r = Some 0 then Done else Failed" s' L]) (auto simp: vm_step_def)
  qed (use Fork inv in \<open>auto simp: vm_step_def intro: that [of Skipped s "[]"]\<close>)
qed


text \<open>A process with one writable page, whose entry is still write protected, and no free page.\<close>

definition demo_frame :: "nat \<Rightarrow> nat" where "demo_frame k = KERNSTART + k * PAGESZ"

definition demo_vm_pm :: pmem where
  "demo_vm_pm = demo_pmem\<lparr>refcnt := (\<lambda>_. SYSPAGE)(1 := 1, 2 := 1, 3 := 1, 4 := 1), freepageq := 0, nfreepage := 0\<rparr>"

definition demo_mm :: mm where
  "demo_mm = \<lparr>mm_onfault = 0,
     mm_segq = [\<lparr>sg_start = 0, sg_end = PAGESZ, sg_prot = PROTW, sg_flags = MAPPRIVATE, sg_inode = None, sg_offset = 0\<rparr>],
     mm_pgd = demo_frame 1, mm_tab = [0 \<mapsto> demo_frame 3], mm_pte = [0 \<mapsto> \<lparr>p_frame = demo_frame 4, p_w = False\<rparr>],
     mm_kstack = demo_frame 2\<rparr>"

definition demo_vm :: vmem where
  "demo_vm = \<lparr>vm_pm = demo_vm_pm, vm_data = (\<lambda>_. replicate PAGESZ 0), vm_mm = [0 \<mapsto> demo_mm], vm_iref = (\<lambda>_. 0)\<rparr>"

lemma demo_vm_pm_inv:
  shows "pm_inv demo_vm_pm"
    "page_refs demo_vm_pm = (\<lambda>_. 0)(demo_frame 1 := 1, demo_frame 2 := 1, demo_frame 3 := 1, demo_frame 4 := 1)"
proof -
  have "refcnt demo_vm_pm p \<noteq> 0" for p by (simp add: demo_vm_pm_def SYSPAGE_def)
  moreover have "free_list demo_vm_pm []" by (simp add: free_list_def demo_vm_pm_def)
  moreover have "bounds_ok demo_vm_pm" by (simp add: bounds_ok_def demo_vm_pm_def demo_pmem_def mm_consts)
  ultimately show "pm_inv demo_vm_pm" unfolding pm_inv_def by (auto simp: demo_vm_pm_def)
  have v: "vframe demo_vm_pm (demo_frame k)" "pfn (demo_frame k) = k" if "0 < k" "k < 5" for k
  proof -
    show "vframe demo_vm_pm (demo_frame k)"
      unfolding demo_frame_def by (rule vframe_low) (use that in \<open>simp_all add: demo_vm_pm_def demo_pmem_def mm_consts\<close>)
    show "pfn (demo_frame k) = k" by (simp add: demo_frame_def pfn_def mm_consts)
  qed
  have "page_refs demo_vm_pm f = ((\<lambda>_. 0)(demo_frame 1 := 1, demo_frame 2 := 1, demo_frame 3 := 1, demo_frame 4 := 1)) f" for f
  proof (cases "vframe demo_vm_pm f \<and> 0 < pfn f \<and> pfn f < 5")
    case True
    define k where "k = pfn f"
    have f: "f = demo_frame k"
      by (rule pfn_inj [of demo_vm_pm]) (use True v [of k] in \<open>simp_all add: k_def\<close>)
    have k: "k = 1 \<or> k = 2 \<or> k = 3 \<or> k = 4" using True unfolding k_def by auto
    then have "page_refs demo_vm_pm f = 1" using True unfolding page_refs_def k_def by (auto simp: demo_vm_pm_def)
    then show ?thesis using k f by auto
  next
    case False
    then have "f \<noteq> demo_frame 1" "f \<noteq> demo_frame 2" "f \<noteq> demo_frame 3" "f \<noteq> demo_frame 4"
      using v [of 1] v [of 2] v [of 3] v [of 4] by auto
    moreover have "page_refs demo_vm_pm f = 0" using False unfolding page_refs_def by (auto simp: demo_vm_pm_def SYSPAGE_def)
    ultimately show ?thesis by simp
  qed
  then show "page_refs demo_vm_pm = (\<lambda>_. 0)(demo_frame 1 := 1, demo_frame 2 := 1, demo_frame 3 := 1, demo_frame 4 := 1)"
    by (rule ext)
qed

lemma demo_vm_inv: "vm_inv (\<lambda>_. 0) demo_vm"
proof -
  let ?f = demo_frame and ?Z = "\<lambda>_. 0 :: nat"
  have ne: "?f i = ?f j \<longleftrightarrow> i = j" for i j by (simp add: demo_frame_def PAGESZ_def)
  have "accounts ?Z ?Z Map.empty (UNIV :: (nat \<times> vslot) set)" by (simp add: accounts_def holders_def)
  then have "accounts ?Z (?Z(?f 1 := 1)) [(0, SPgd) \<mapsto> ?f 1] (UNIV :: (nat \<times> vslot) set)" by (rule accounts_new) simp_all
  then have "accounts ?Z (?Z(?f 1 := 1, ?f 2 := 1)) [(0, SPgd) \<mapsto> ?f 1, (0, SKst) \<mapsto> ?f 2] (UNIV :: (nat \<times> vslot) set)"
    by (rule accounts_new) (simp_all add: ne)
  then have "accounts ?Z (?Z(?f 1 := 1, ?f 2 := 1, ?f 3 := 1)) [(0, SPgd) \<mapsto> ?f 1, (0, SKst) \<mapsto> ?f 2, (0, STab 0) \<mapsto> ?f 3] (UNIV :: (nat \<times> vslot) set)"
    by (rule accounts_new) (simp_all add: ne)
  then have "accounts ?Z (?Z(?f 1 := 1, ?f 2 := 1, ?f 3 := 1, ?f 4 := 1))
      [(0, SPgd) \<mapsto> ?f 1, (0, SKst) \<mapsto> ?f 2, (0, STab 0) \<mapsto> ?f 3, (0, SPte 0) \<mapsto> ?f 4] (excl demo_vm)"
    by (rule accounts_new) (simp_all add: ne)
  moreover have "vslots demo_vm (a, k) = [(0, SPgd) \<mapsto> ?f 1, (0, SKst) \<mapsto> ?f 2, (0, STab 0) \<mapsto> ?f 3, (0, SPte 0) \<mapsto> ?f 4] (a, k)" for a k
    by (cases k) (simp_all add: vslots_def demo_vm_def demo_mm_def)
  then have "vslots demo_vm = [(0, SPgd) \<mapsto> ?f 1, (0, SKst) \<mapsto> ?f 2, (0, STab 0) \<mapsto> ?f 3, (0, SPte 0) \<mapsto> ?f 4]" by (simp add: fun_eq_iff)
  moreover have "tabs_ok demo_mm" "segs_ok (mm_segq demo_mm)"
    by (auto simp: tabs_ok_def segs_ok_def demo_mm_def USEREND_def mm_consts split: if_splits)
  ultimately show ?thesis
    using demo_vm_pm_inv by (simp add: vm_inv_def core_inv_def demo_vm_def split: if_splits)
qed


end
