(* ===== verification/Mm_Verify.thy ===== *)
theory Mm_Verify
  imports Mm_Cow
begin

text \<open>
  \<^verbatim>\<open>verr\<close> and \<^verbatim>\<open>verw\<close>, by which every system call checks the addresses of its caller: what success promises, and the
  ranges they accept without looking at a single page.
\<close>

subsection \<open>Faults of the kernel\<close>

definition okpage :: "nat \<Rightarrow> bool \<Rightarrow> nat \<Rightarrow> vmem \<Rightarrow> bool" where
  "okpage a w n s \<longleftrightarrow> (\<exists>m p. vm_mm s a = Some m \<and> mm_pte m n = Some p \<and> (w \<longrightarrow> p_w p))"

lemma allowed_okpage: "allowed a w v s \<longleftrightarrow> okpage a w (page_of v) s"
  by (auto simp: allowed_def okpage_def split: option.splits)

text \<open>Pages that are accessible stay so.\<close>

definition keeps :: "nat \<Rightarrow> vmem \<Rightarrow> vmem \<Rightarrow> bool" where
  "keeps a s s' \<longleftrightarrow> (\<forall>w n. okpage a w n s \<longrightarrow> okpage a w n s') \<and>
     (\<forall>m. vm_mm s a = Some m \<longrightarrow> (\<exists>m'. vm_mm s' a = Some m' \<and> mm_onfault m' = mm_onfault m))"

lemma keeps_refl: "keeps a s s"
  by (simp add: keeps_def)

lemma keeps_trans: "keeps a s s1 \<Longrightarrow> keeps a s1 s2 \<Longrightarrow> keeps a s s2"
  unfolding keeps_def by metis

lemma keepsI:
  assumes "vm_mm s a = Some m" "vm_mm s' a = Some m'" "mm_onfault m' = mm_onfault m"
    and "\<And>n p. mm_pte m n = Some p \<Longrightarrow> \<exists>p'. mm_pte m' n = Some p' \<and> (p_w p \<longrightarrow> p_w p')"
  shows "keeps a s s'"
  unfolding keeps_def okpage_def using assms by fastforce

lemma nopage_keeps:
  assumes inv: "core_inv X s" and m: "vm_mm s a = Some m" "mm_pte m (page_of v) = None" and v: "v < USEREND"
    and sg: "sg_start sg \<le> v" "v < sg_end sg"
  obtains r s' where "nopage rd a sg v u s = Some (r, s')" "core_inv X s'" "keeps a s s'"
    "r = outofmem u \<or> r = Resumed \<and> okpage a (sg_prot sg AND PROTW \<noteq> 0) (page_of v) s'"
proof (rule nopage_ok [OF inv m v sg])
  fix s' assume n: "nopage rd a sg v u s = Some (outofmem u, s')" "core_inv X s'" "tab_step a s s'"
  obtain t where "vm_mm s' a = Some (m\<lparr>mm_tab := t\<rparr>)" using n(3) m(1) by (auto simp: tab_step_def)
  then have "keeps a s s'" by (rule keepsI [OF m(1)]) simp_all
  with n(1,2) show thesis by (intro that [of "outofmem u" s']) simp_all
next
  fix s' t f
  let ?m = "m\<lparr>mm_tab := t, mm_pte := (mm_pte m)(page_of v \<mapsto> \<lparr>p_frame = f, p_w = (sg_prot sg AND PROTW \<noteq> 0)\<rparr>)\<rparr>"
  assume n: "nopage rd a sg v u s = Some (Resumed, s')" "core_inv X s'" "vm_mm s' a = Some ?m"
  have "keeps a s s'" by (rule keepsI [OF m(1) n(3)]) (use m(2) in auto)
  moreover have "okpage a (sg_prot sg AND PROTW \<noteq> 0) (page_of v) s'" using n(3) by (simp add: okpage_def)
  ultimately show thesis using n(1,2) by (intro that [of Resumed s']) simp_all
qed

lemma wppage_keeps:
  assumes inv: "core_inv X s" and m: "vm_mm s a = Some m" "mm_pte m (page_of v) = Some p"
  obtains r s' where "wppage a v u s = Some (r, s')" "core_inv X s'" "keeps a s s'" "r = outofmem u \<or> r = Resumed \<and> okpage a True (page_of v) s'"
proof (rule wppage_ok [OF inv m])
  assume "wppage a v u s = Some (outofmem u, s)"
  then show thesis using inv keeps_refl by (intro that [of "outofmem u" s]) simp_all
next
  fix s' f
  let ?m = "m\<lparr>mm_pte := (mm_pte m)(page_of v \<mapsto> \<lparr>p_frame = f, p_w = True\<rparr>)\<rparr>"
  assume n: "wppage a v u s = Some (Resumed, s')" "core_inv X s'" "vm_mm s' a = Some ?m"
  have "keeps a s s'" by (rule keepsI [OF m(1) n(3)]) auto
  moreover have "okpage a True (page_of v) s'" using n(3) by (simp add: okpage_def)
  ultimately show thesis using n(1,2) by (intro that [of Resumed s']) simp_all
qed

lemma vpagedown_le [simp]: "vpagedown v \<le> v"
  by (simp add: vpagedown_def)

text \<open>A fault in kernel mode on a user address, with a handler set.\<close>

lemma kernel_fault:
  assumes inv: "core_inv X s" and m: "vm_mm s a = Some m" "mm_onfault m \<noteq> 0" and v: "v < USEREND" and no: "\<not> okpage a w (page_of v) s"
  shows "\<exists>r s'. pagefault rd a esp v False w (present a v s) s = Some (r, s') \<and> core_inv X s' \<and> keeps a s s' \<and>
    (r = Resumed \<and> okpage a w (page_of v) s' \<or> r = Caught (mm_onfault m) \<or> r = Died)"
proof (cases "findseg v m")
  case None
  then show ?thesis using m v inv keeps_refl by (simp add: pagefault_def bad_fault_def)
next
  case (Some i)
  let ?sg = "mm_segq m ! i"
  define grow where "grow \<longleftrightarrow> v < sg_start ?sg"
  define sg1 where "sg1 = (if grow then ?sg\<lparr>sg_start := vpagedown v\<rparr> else ?sg)"
  define s1 where "s1 = (if grow then mm_upd a (\<lambda>m. m\<lparr>mm_segq := (mm_segq m)[i := sg1]\<rparr>) s else s)"
  define m1 where "m1 = (if grow then m\<lparr>mm_segq := (mm_segq m)[i := sg1]\<rparr> else m)"
  have sg: "sg_start sg1 \<le> v" "v < sg_end sg1" using findseg_Some [OF Some] by (simp_all add: sg1_def grow_def)
  have i1: "core_inv X s1" using inv segq_core [OF inv] by (simp add: s1_def)
  have m1: "vm_mm s1 a = Some m1" "mm_pte m1 = mm_pte m" "mm_onfault m1 = mm_onfault m" using m(1) by (simp_all add: s1_def m1_def)
  have k1: "keeps a s s1" by (rule keepsI [OF m(1) m1(1)]) (simp_all add: m1)
  have pw: "\<not> present a v s \<or> w" using no m(1) by (auto simp: present_def okpage_def)
  have bad: "bad_fault a v False x = Some (Caught (mm_onfault m), x)" if "vm_mm x a = Some y" "mm_onfault y = mm_onfault m" for x y
    using that m(2) v by (simp add: bad_fault_def)
  show ?thesis
  proof (cases "grow \<and> (findustack m \<noteq> Some i \<or> v + 32 < esp)")
    case True
    then have "pagefault rd a esp v False w (present a v s) s = bad_fault a v False s"
      using m(1) Some by (simp add: pagefault_def Let_def grow_def)
    then show ?thesis using bad [OF m(1)] inv keeps_refl by simp
  next
    case False
    then have pf: "pagefault rd a esp v False w (present a v s) s = (if w \<and> sg_prot sg1 AND PROTW = 0 then bad_fault a v False s1
        else if present a v s then wppage a v False s1 else nopage rd a sg1 v False s1)"
      using m(1) Some pw unfolding pagefault_def Let_def s1_def sg1_def grow_def by (cases "v < sg_start ?sg") simp_all
    show ?thesis
    proof (cases "w \<and> sg_prot sg1 AND PROTW = 0")
      case True
      then show ?thesis using pf bad [OF m1(1,3)] i1 k1 by simp
    next
      case okw: False
      show ?thesis
      proof (cases "mm_pte m (page_of v)")
        case None
        then have np: "mm_pte m1 (page_of v) = None" using m1(2) by simp
        obtain r s' where n: "nopage rd a sg1 v False s1 = Some (r, s')" "core_inv X s'" "keeps a s1 s'"
          "r = outofmem False \<or> r = Resumed \<and> okpage a (sg_prot sg1 AND PROTW \<noteq> 0) (page_of v) s'"
          by (rule nopage_keeps [OF i1 m1(1) np v sg])
        have "pagefault rd a esp v False w (present a v s) s = Some (r, s')" using pf n(1) okw m(1) None by (auto simp: present_def)
        moreover have "r = Resumed \<and> okpage a w (page_of v) s' \<or> r = Died"
          using n(4) okw unfolding okpage_def by (auto simp: outofmem_def)
        ultimately show ?thesis using n(2) keeps_trans [OF k1 n(3)] by blast
      next
        case (Some p)
        then have sp: "mm_pte m1 (page_of v) = Some p" using m1(2) by simp
        obtain r s' where n: "wppage a v False s1 = Some (r, s')" "core_inv X s'" "keeps a s1 s'"
          "r = outofmem False \<or> r = Resumed \<and> okpage a True (page_of v) s'"
          by (rule wppage_keeps [OF i1 m1(1) sp])
        have "pagefault rd a esp v False w (present a v s) s = Some (r, s')" using pf n(1) okw m(1) Some by (auto simp: present_def)
        moreover have "r = Resumed \<and> okpage a w (page_of v) s' \<or> r = Died"
          using n(4) unfolding okpage_def by (auto simp: outofmem_def)
        ultimately show ?thesis using n(2) keeps_trans [OF k1 n(3)] by blast
      qed
    qed
  qed
qed

lemma kernel_touch:
  assumes inv: "core_inv X s" and m: "vm_mm s a = Some m" "mm_onfault m = h" "h \<noteq> 0" and v: "v < USEREND"
  obtains r s' where "touch rd a esp v False w s = Some (r, s')" "core_inv X s'" "keeps a s s'"
    "r = Resumed \<and> okpage a w (page_of v) s' \<or> r = Caught h \<or> r = Died"
proof (cases "okpage a w (page_of v) s")
  case True
  then have "touch rd a esp v False w s = Some (Resumed, s)" using v by (intro touch_done) (simp_all add: allowed_okpage)
  then show ?thesis using True inv keeps_refl by (intro that [of Resumed s]) simp_all
next
  case False
  have h: "mm_onfault m \<noteq> 0" using m by simp
  obtain r s' where f: "pagefault rd a esp v False w (present a v s) s = Some (r, s')" "core_inv X s'" "keeps a s s'"
    "r = Resumed \<and> okpage a w (page_of v) s' \<or> r = Caught h \<or> r = Died"
    using kernel_fault [OF inv m(1) h v False] m(2) by blast
  have na: "\<not> allowed a w v s" using False by (simp add: allowed_okpage)
  show ?thesis
  proof (cases "r = Resumed")
    case True
    then have "okpage a w (page_of v) s'" using f(4) by simp
    then have "touch rd a esp v False w s' = Some (Resumed, s')" using v by (intro touch_done) (simp_all add: allowed_okpage)
    then show ?thesis using touch_fault [OF na f(1)] f True by (intro that [of Resumed s']) simp_all
  next
    case False
    then show ?thesis using touch_fault [OF na f(1)] f by (intro that [of r s']) simp_all
  qed
qed
subsection \<open>Checking an area\<close>

lemma page_of_add [simp]: "page_of (v + PAGESZ) = Suc (page_of v)"
  by (simp add: page_of_def PAGESZ_def)

lemma page_of_mono: "v \<le> w \<Longrightarrow> page_of v \<le> page_of w"
  by (simp add: page_of_def div_le_mono)

lemma verify_touches:
  assumes inv: "core_inv X s" and m: "vm_mm s a = Some m" "mm_onfault m = h" "h \<noteq> 0" and v: "v < USEREND"
  shows "\<exists>r s'. (case touch rd a esp v False False s of None \<Rightarrow> None
      | Some (r, s1) \<Rightarrow> if r = Resumed \<and> w then touch rd a esp v False True s1 else Some (r, s1)) = Some (r, s') \<and>
    core_inv X s' \<and> keeps a s s' \<and> (r = Resumed \<and> okpage a w (page_of v) s' \<or> r = Caught h \<or> r = Died)"
proof -
  obtain r s1 where t: "touch rd a esp v False False s = Some (r, s1)" "core_inv X s1" "keeps a s s1"
    "r = Resumed \<and> okpage a False (page_of v) s1 \<or> r = Caught h \<or> r = Died"
    by (rule kernel_touch [OF inv m v])
  show ?thesis
  proof (cases "r = Resumed \<and> w")
    case False
    then show ?thesis using t by auto
  next
    case True
    obtain m1 where m1: "vm_mm s1 a = Some m1" "mm_onfault m1 = h" using t(3) m unfolding keeps_def by auto
    obtain r' s' where u: "touch rd a esp v False True s1 = Some (r', s')" "core_inv X s'" "keeps a s1 s'"
      "r' = Resumed \<and> okpage a True (page_of v) s' \<or> r' = Caught h \<or> r' = Died"
      by (rule kernel_touch [OF t(2) m1 m(3) v])
    then show ?thesis using t(1) True keeps_trans [OF t(3) u(3)] by auto
  qed
qed

lemma ver_loop_ok:
  assumes "core_inv X s" "vm_mm s a = Some m" "mm_onfault m = h" "h \<noteq> 0" "end mod PAGESZ = 0"
  shows "\<exists>e s'. ver_loop rd a esp w area end s = Some (e, s') \<and> core_inv X s' \<and> keeps a s s' \<and> (e = Some 0 \<or> e = Some EFAULT \<or> e = None) \<and>
    (e = Some 0 \<longrightarrow> (\<forall>n. page_of area \<le> n \<and> n < page_of end \<longrightarrow> n < page_of USEREND \<and> okpage a w n s'))"
  using assms(1-4)
proof (induction "end - area" arbitrary: area s m rule: less_induct)
  case less
  have efault: "EFAULT \<noteq> 0" by (simp add: errno_simps)
  consider "\<not> area < end" | "area < end" "\<not> area < USEREND" | "area < end" "area < USEREND" by blast
  then show ?case
  proof cases
    case 1
    then have "page_of end \<le> page_of area" by (intro page_of_mono) simp
    then have "page_of area \<le> n \<Longrightarrow> n < page_of end \<Longrightarrow> P" for n P by linarith
    then have "\<forall>n. page_of area \<le> n \<and> n < page_of end \<longrightarrow> n < page_of USEREND \<and> okpage a w n s" by blast
    then show ?thesis using 1 less.prems(1) keeps_refl by (intro exI [of _ "Some 0"] exI [of _ s]) (simp add: ver_loop.simps)
  next
    case 2
    then show ?thesis using less.prems(1) keeps_refl efault by (intro exI [of _ "Some EFAULT"] exI [of _ s]) (simp add: ver_loop.simps)
  next
    case 3
    obtain r s1 where t: "(case touch rd a esp area False False s of None \<Rightarrow> None
      | Some (r, s1) \<Rightarrow> if r = Resumed \<and> w then touch rd a esp area False True s1 else Some (r, s1)) = Some (r, s1)"
      "core_inv X s1" "keeps a s s1" "r = Resumed \<and> okpage a w (page_of area) s1 \<or> r = Caught h \<or> r = Died"
      using verify_touches [OF less.prems 3(2)] by blast
    have eq: "ver_loop rd a esp w area end s = (case r of Resumed \<Rightarrow> ver_loop rd a esp w (area + PAGESZ) end s1
           | Caught _ \<Rightarrow> Some (Some EFAULT, s1) | _ \<Rightarrow> Some (None, s1))"
      using 3 t(1) by (subst ver_loop.simps) (auto split: option.splits prod.splits if_splits)
    show ?thesis
    proof (cases "r = Resumed")
      case False
      then show ?thesis using eq t efault by auto
    next
      case True
      then have ok: "okpage a w (page_of area) s1" using t(4) by simp
      obtain m1 where m1: "vm_mm s1 a = Some m1" "mm_onfault m1 = h" using t(3) less.prems unfolding keeps_def by auto
      have lt: "end - (area + PAGESZ) < end - area" using 3 by (simp add: PAGESZ_def)
      obtain e s' where r: "ver_loop rd a esp w (area + PAGESZ) end s1 = Some (e, s')" "core_inv X s'" "keeps a s1 s'"
        "e = Some 0 \<or> e = Some EFAULT \<or> e = None"
        "e = Some 0 \<longrightarrow> (\<forall>n. Suc (page_of area) \<le> n \<and> n < page_of end \<longrightarrow> n < page_of USEREND \<and> okpage a w n s')"
        using less.hyps [OF lt t(2) m1 less.prems(4)] by auto
      have "okpage a w (page_of area) s'" using ok r(3) by (simp add: keeps_def)
      moreover have "page_of area < page_of USEREND"
        using 3(2) by (simp add: page_of_def USEREND_def mm_consts)
      ultimately have "n < page_of USEREND \<and> okpage a w n s'" if "e = Some 0" "page_of area \<le> n" "n < page_of end" for n
        using that r(5) by (cases "n = page_of area") auto
      then show ?thesis using eq True r(1,2,4) keeps_trans [OF t(3) r(3)] by auto
    qed
  qed
qed
lemma onfault_core: "core_inv X s \<Longrightarrow> core_inv X (mm_upd a (\<lambda>m. m\<lparr>mm_onfault := h\<rparr>) s)"
  by (rule upd_core) simp_all

lemma pageup32_exact: "v + PAGESZ \<le> 2 ^ 32 \<Longrightarrow> pageup32 v = (v + PAGESZ - 1) div PAGESZ * PAGESZ"
  by (simp add: pageup32_def PAGESZ_def)

text \<open>C15: When the check of a non-empty area that ends at least a page below 2^32 succeeds (an area whose end wraps around is
  accepted wrongly, see \<open>verify_accepts_wrapped\<close>), every byte of the area lies in user space and is accessible in the way asked for, so that the kernel's copy takes no fault; the check returns 0 or \<^verbatim>\<open>EFAULT\<close> unless the
  task is ended for lack of memory, and keeps the reference counts exact.\<close>

theorem verify_sound:
  assumes "core_inv X s" "vm_mm s a = Some m" "h \<noteq> 0" "0 < sz" "int area + sz + int PAGESZ \<le> 2 ^ 32"
  shows "\<exists>e s'. ver rd a esp h w area sz s = Some (e, s') \<and> core_inv X s' \<and> (e = Some 0 \<or> e = Some EFAULT \<or> e = None) \<and>
    (e = Some 0 \<longrightarrow> (\<forall>v. area \<le> v \<and> int v < int area + sz \<longrightarrow> v < USEREND \<and> allowed a w v s'))"
proof -
  let ?on = "\<lambda>h. mm_upd a (\<lambda>m. m\<lparr>mm_onfault := h\<rparr>)"
  define k where "k = nat sz"
  have k: "0 < k" "sz = int k" using assms(4) by (simp_all add: k_def)
  have "int (area + k + PAGESZ) \<le> int (2 ^ 32)" using assms(5) k(2) by simp
  then have le: "area + k + PAGESZ \<le> 2 ^ 32" by (simp only: of_nat_le_iff)
  then have "(int area + sz) mod 2 ^ 32 = int (area + k)" unfolding k(2) by (simp add: PAGESZ_def)
  then have nt: "nat ((int area + sz) mod 2 ^ 32) = area + k" by simp
  have pe: "pageup32 (area + k) = (area + k + PAGESZ - 1) div PAGESZ * PAGESZ" by (rule pageup32_exact [OF le])
  let ?e = "(area + k + PAGESZ - 1) div PAGESZ * PAGESZ"
  have m1: "vm_mm (?on h s) a = Some (m\<lparr>mm_onfault := h\<rparr>)" using assms(2) by simp
  have al: "?e mod PAGESZ = 0" by simp
  obtain e s' where r: "ver_loop rd a esp w area ?e (?on h s) = Some (e, s')" "core_inv X s'" "keeps a (?on h s) s'"
    "e = Some 0 \<or> e = Some EFAULT \<or> e = None"
    "e = Some 0 \<longrightarrow> (\<forall>n. page_of area \<le> n \<and> n < page_of ?e \<longrightarrow> n < page_of USEREND \<and> okpage a w n s')"
    using ver_loop_ok [OF onfault_core [OF assms(1)] m1 _ assms(3) al, of rd esp w area] by auto
  have "ver rd a esp h w area sz s = Some (e, ?on 0 s')" 
    unfolding ver_def nt pe using r(1) assms(4) by simp
  moreover have "v < USEREND \<and> allowed a w v (?on 0 s')" if "e = Some 0" "area \<le> v" "int v < int area + sz" for v
  proof -
    have "v \<le> area + k - 1" using that(3) k(2) by linarith
    then have "page_of v \<le> page_of (area + k - 1)" by (rule page_of_mono)
    moreover have "area + k + PAGESZ - 1 = area + k - 1 + PAGESZ" using k(1) by linarith
    ultimately have "v div PAGESZ < (area + k + PAGESZ - 1) div PAGESZ" by (simp only: page_of_def [symmetric] page_of_add less_Suc_eq_le)
    then have "page_of v < page_of ?e" by (simp add: page_of_def PAGESZ_def)
    then have "page_of v < page_of USEREND" "okpage a w (page_of v) s'" using r(5) that page_of_mono [OF that(2)] by simp_all
    moreover have "okpage a w (page_of v) (?on 0 s')" using \<open>okpage a w (page_of v) s'\<close> by (auto simp: okpage_def)
    moreover have "v < USEREND" using \<open>page_of v < page_of USEREND\<close> page_of_mono [of USEREND v] by linarith
    ultimately show ?thesis by (simp add: allowed_okpage)
  qed
  ultimately show ?thesis using onfault_core [OF r(2)] r(4) by (intro exI [of _ e] exI [of _ "?on 0 s'"]) simp
qed

theorem verify_witness:
  "\<exists>e s'. ver (\<lambda>_ _ _. []) 0 0 1 True 100 200 demo_vm = Some (e, s') \<and> core_inv (\<lambda>_. 0) s' \<and> (e = Some 0 \<or> e = Some EFAULT \<or> e = None) \<and>
    (e = Some 0 \<longrightarrow> (\<forall>v. 100 \<le> v \<and> int v < 300 \<longrightarrow> v < USEREND \<and> allowed 0 True v s'))"
proof -
  have "vm_mm demo_vm 0 = Some demo_mm" by (simp add: demo_vm_def)
  from verify_sound [OF vm_invD(1) [OF demo_vm_inv] this, of 1 200 100 "\<lambda>_ _ _. []" 0 True] show ?thesis by (simp add: PAGESZ_def)
qed

text \<open>C37: An area whose end wraps around the 32-bit address space is accepted without looking at any page, whatever the addresses:
  \<^verbatim>\<open>verr\<close> and \<^verbatim>\<open>verw\<close> return 0 for the last page of the kernel's space, and for every kernel address with a small negative size.\<close>

theorem verify_accepts_wrapped:
  assumes "sz \<noteq> 0" "pageup32 (nat ((int area + sz) mod 2 ^ 32)) \<le> area"
  shows "ver rd a esp h w area sz s = Some (Some 0, mm_upd a (\<lambda>m. m\<lparr>mm_onfault := 0\<rparr>) (mm_upd a (\<lambda>m. m\<lparr>mm_onfault := h\<rparr>) s))"
  using assms by (simp add: ver_def ver_loop.simps not_less)

theorem verify_wrapped_witness:
  "(\<exists>s'. ver (\<lambda>_ _ _. []) 0 0 1 True (4294967296 - PAGESZ) (int PAGESZ) demo_vm = Some (Some 0, s')) \<and> USEREND \<le> 4294967296 - PAGESZ \<and>
   (\<exists>s'. ver (\<lambda>_ _ _. []) 0 0 1 True USEREND (- 1) demo_vm = Some (Some 0, s'))"
proof -
  have "ver (\<lambda>_ _ _. []) 0 0 1 True (4294967296 - PAGESZ) (int PAGESZ) demo_vm =
      Some (Some 0, mm_upd 0 (\<lambda>m. m\<lparr>mm_onfault := 0\<rparr>) (mm_upd 0 (\<lambda>m. m\<lparr>mm_onfault := 1\<rparr>) demo_vm))"
    by (rule verify_accepts_wrapped) (simp_all add: pageup32_def PAGESZ_def)
  moreover have "ver (\<lambda>_ _ _. []) 0 0 1 True USEREND (- 1) demo_vm =
      Some (Some 0, mm_upd 0 (\<lambda>m. m\<lparr>mm_onfault := 0\<rparr>) (mm_upd 0 (\<lambda>m. m\<lparr>mm_onfault := 1\<rparr>) demo_vm))"
    by (rule verify_accepts_wrapped) (simp_all add: pageup32_def PAGESZ_def USEREND_def mm_consts)
  ultimately show ?thesis by (simp add: USEREND_def mm_consts)
qed


end
