(* ===== verification/Spec2Isabelle.thy ===== *)
theory Spec2Isabelle
  imports Lib_Queue Lib_Math Lib_Bitmap Lib_Fifoq Refcount Mm_Allocpage Mm_Allockm Kern_Fdes Kern_Task Kern_Sched Kern_Signal Kern_Uidgid Kern_Pgrp Kern_Kill Kern_Timer Kern_Lock Kern_Pipe Fs_Buf Fs_Super Fs_Reg Fs_Trunc Lib_String Fs_Dirent Fs_Icache Fs_Dir Fs_Namei Mm_Mm Mm_Cow Mm_Verify
begin

text \<open>
  A verification library for the Unixlite kernel, a small Unix for the i386 written in C++ (sources
  under \<^verbatim>\<open>src/\<close>).

  \<^bold>\<open>The program.\<close>  A single-processor, non-preemptive kernel.  \<^verbatim>\<open>lib/\<close> holds data structures every part uses;
  \<^verbatim>\<open>mm/\<close> allocates pages and kernel objects; \<^verbatim>\<open>kern/\<close> holds tasks, scheduling, signals, process groups, file
  descriptors and timers; \<^verbatim>\<open>fs/\<close> a Minix V2 file system over a buffer cache; \<^verbatim>\<open>net/\<close> TCP/IP; \<^verbatim>\<open>dev/\<close> drivers;
  \<^verbatim>\<open>asm/\<close> and \<^verbatim>\<open>boot/\<close> the machine.

  \<^bold>\<open>Conventions.\<close>  A routine that can hit a failing \<^verbatim>\<open>assert\<close>, a \<^verbatim>\<open>panic\<close> or a bad pointer returns an option,
  and \<open>None\<close> is the halted kernel (\<open>Prelude\<close>); error numbers are negative integers as in the source.  Loops
  that follow data are structural recursion or have a termination proof; those that may run forever on a damaged
  state (walks around pointer rings, the search for a process id, the scheduler's choice, broadcasts, \<^verbatim>\<open>getb\<close>, the
  serving of due timers) are \<^theory_text>\<open>partial_function (option)\<close>, so that not returning is \<open>None\<close> too, and the
  theorems show that they return from every state the invariants allow.  No fuel is used.  Machine
  words are words where wrap-around or bit patterns matter and integers where the values stay small.
  Hardware, user memory and the functions of timers are parameters.

  \<^bold>\<open>Theories and sources.\<close>
  \<^item> \<open>Prelude\<close>: machine types and error numbers (\<^verbatim>\<open>lib/types.h\<close>, \<^verbatim>\<open>lib/errno.h\<close>, \<^verbatim>\<open>lib/root.h\<close>), loops over queues,
    lemmas on words and lists.
  \<^item> \<open>Lib_Queue\<close> (\<^verbatim>\<open>lib/queue.h\<close>): the intrusive rings at pointer level; traces of operations refine lists, for
    any number of queues sharing a heap, and run exactly when no linked node is enqueued (locales \<open>fifo\<close>, \<open>linked_fifo\<close>).
  \<^item> \<open>Lib_Math\<close> (\<^verbatim>\<open>lib/math.h\<close>, \<^verbatim>\<open>asm/page.h\<close>), \<open>Lib_Bitmap\<close> (\<^verbatim>\<open>lib/bitmap.h\<close>), \<open>Lib_Fifoq\<close> (\<^verbatim>\<open>lib/fifoq.h\<close>,
    \<^verbatim>\<open>lib/fifoq.cc\<close>): rounding, bitmaps as sets of clear positions with their cached count, the byte ring as a list.
  \<^item> \<open>Refcount\<close>: the interface of reference counted objects, used by the page allocator and the file objects.
  \<^item> \<open>Mm_Allocpage\<close> (\<^verbatim>\<open>mm/allocpage.cc\<close>), \<open>Mm_Allockm\<close> (\<^verbatim>\<open>mm/allockm.cc\<close>): reference counts equal the number of
    holders, free pages are disjoint from used ones, quotas are respected, kernel objects never overlap and the words that
    fill free objects are found unchanged.
  \<^item> \<open>Mm_Mm\<close> (\<^verbatim>\<open>mm/mm.cc\<close>, \<^verbatim>\<open>asm/pgtbl.cc\<close>): address spaces, page tables, faults, \<^verbatim>\<open>fork\<close>'s copy.  \<open>Mm_Cow\<close>: copy on write is
    invisible, each process sees a private memory (the bytes of a page behind the end of its file are undetermined until it is
    touched); \<open>Mm_Verify\<close>: what \<^verbatim>\<open>verr\<close> and \<^verbatim>\<open>verw\<close> promise, and what they let through.
  \<^item> \<open>Kern_Fdes\<close> (\<^verbatim>\<open>kern/fdes.cc\<close>, part of \<^verbatim>\<open>fs/open.cc\<close>): descriptor tables of all processes; the reference count
    of each open file is the number of descriptors that name it after every sequence of system calls.
  \<^item> \<open>Kern_Task\<close>: the records of \<^verbatim>\<open>kern/sched.h\<close>, \<^verbatim>\<open>kern/signal.h\<close>, \<^verbatim>\<open>kern/pgrp.h\<close>, shared by the next five theories.
  \<^item> \<open>Kern_Sched\<close> (\<^verbatim>\<open>kern/sched.cc\<close>, \<^verbatim>\<open>kern/lock.cc\<close>): run queues and wait queues; every trace keeps each task in
    exactly the queue its state says, and the task chosen has the highest remaining quota.
  \<^item> \<open>Kern_Signal\<close> (\<^verbatim>\<open>kern/signal.cc\<close>, \<^verbatim>\<open>kern/kill.cc\<close>): posting, masks, actions, the frame of a handler;
    no trace of calls (with \<^verbatim>\<open>sigsuspend\<close> and honest \<^verbatim>\<open>sigreturn\<close> frames) lets a task block \<^verbatim>\<open>SIGKILL\<close>, which is then
    effective; the frame round trip, and four defects, a forged frame among them.
  \<^item> \<open>Kern_Uidgid\<close> (\<^verbatim>\<open>kern/uidgid.cc\<close>), \<open>Kern_Pgrp\<close> (\<^verbatim>\<open>kern/pgrp.cc\<close>, \<^verbatim>\<open>kern/taskdb.cc\<close>), \<open>Kern_Kill\<close> (exit, wait,
    delivery, fork): no sequence of id calls gains privileges; groups and sessions stay consistent, but
    for one call of \<^verbatim>\<open>setpgid\<close> that breaks them; a killed task runs \<^verbatim>\<open>doexit\<close> to its end and is a zombie.
  \<^item> \<open>Kern_Timer\<close> (\<^verbatim>\<open>kern/timer.cc\<close>): the timer wheel; timers below 512 ticks are on time whatever is done to
    other timers between the ticks and by their functions (the interface \<open>timer_funcs\<close>), longer ones are not.
  \<^item> \<open>Kern_Lock\<close> (\<^verbatim>\<open>kern/lock.cc\<close>): the locks under every interleaving of tasks, one pass of a locking loop per step; mutual
    exclusion and no lost wake-up from the locales \<open>held_lock\<close> and \<open>wait_lock\<close>.
  \<^item> \<open>Kern_Pipe\<close> (\<^verbatim>\<open>kern/pipe.cc\<close>): a pipe is a stream of bytes for all its readers and writers, and nobody sleeps without reason.
  \<^item> \<open>Fs_Buf\<close> (\<^verbatim>\<open>fs/buf.cc\<close>): the buffer cache, coherent and durable; its interface to the file system is
    the locale \<open>block_store\<close>.
  \<^item> \<open>Fs_Super\<close> (\<^verbatim>\<open>fs/fs.cc\<close>): super block, bitmaps and allocation on the contents of blocks that
    \<open>block_store\<close> promises.
  \<^item> \<open>Fs_Reg\<close> (\<^verbatim>\<open>fs/reg.cc\<close>, \<^verbatim>\<open>fs/inode.cc\<close>), \<open>Fs_Trunc\<close> (\<^verbatim>\<open>fs/trunc.cc\<close>, \<^verbatim>\<open>fs/regfd.cc\<close>): files as trees of zones; reading
    and writing refine a list of bytes, truncating frees exactly the zones of the file, and files do not disturb
    each other.
  \<^item> \<open>Fs_Dirent\<close> (\<^verbatim>\<open>fs/dirent.cc\<close>), \<open>Fs_Icache\<close> (\<^verbatim>\<open>fs/icache.cc\<close>), \<open>Fs_Dir\<close> (\<^verbatim>\<open>fs/dir.cc\<close>): a directory refines a map
    from names to inode numbers; inodes survive eviction from the cache; link, unlink, mkdir, rmdir and rename on the state of
    all inodes with the references that are held.
  \<^item> \<open>Lib_String\<close> (\<^verbatim>\<open>lib/string.cc\<close>, \<^verbatim>\<open>lib/string.h\<close>): strings and blocks of memory, and the token scanner that splits paths.
  \<^item> \<open>Fs_Namei\<close> (\<^verbatim>\<open>fs/namei.cc\<close>, \<^verbatim>\<open>fs/open.cc\<close>): path resolution follows the directories as maps; all calls that take a
    path; \<^verbatim>\<open>open\<close> asks for no permission.

  \<^bold>\<open>Interaction.\<close>  \<open>Mm_Allockm\<close> allocates from \<open>Mm_Allocpage\<close>; \<open>Kern_Sched\<close>, \<open>Kern_Signal\<close>, \<open>Kern_Pgrp\<close> and
  \<open>Kern_Kill\<close> act on one record \<open>kern\<close>, with invariants that extend each other; \<open>Fs_Super\<close> stands on
  \<open>Lib_Bitmap\<close> and \<open>Fs_Buf\<close>, \<open>Fs_Reg\<close> on \<open>Fs_Super\<close>, and directories are files; \<open>Fs_Namei\<close> walks
  them with the scanner of \<open>Lib_String\<close>; the frames of \<open>Mm_Mm\<close> come from \<open>Mm_Allocpage\<close>, whose interface \<open>refcounted\<close> gives
  \<open>Mm_Cow\<close> its laws.  Interfaces are locales, interpreted in the theory that provides them.

  \<^bold>\<open>Not modelled.\<close>  Port I/O, interrupt entry, context switch and boot code are hardware state.  The statistics and
  the \<^verbatim>\<open>dump\<close> routines only print.  Interleaving inside a system call (a task that sleeps in the middle of
  \<^verbatim>\<open>lock_t::lock\<close>, \<^verbatim>\<open>waitpid\<close> and the like) is modelled as the step up to the sleep and a resume step where
  the theories say so.  Mounting, sockets and TCP/IP, and block requests are not modelled: they run to a large part
  from interrupts on shared queues of packets and requests.  The stack that \<^verbatim>\<open>exec\<close> builds and the loading of programs are
  left out of the address spaces.
\<close>

end
